(* ===== verification/Redis_Prelude.thy ===== *)
theory Redis_Prelude
  imports Main "HOL-Library.Word"
begin

text \<open>
  Vocabulary and lemmas shared by every component: bytes and byte buffers, the
  little-endian codec in which Redis keeps integers inside its packed encodings, and
  the buffer operations the C code performs with \<open>memcpy\<close>, \<open>memmove\<close> and
  \<open>realloc\<close>.  A buffer is a list of bytes and a pointer into it is an offset.

  The collection \<open>buffer_simps\<close> holds the rewrite rules for buffer reads and writes,
  \<open>codec_simps\<close> those of the integer codec.
\<close>

unbundle bit_operations_syntax

named_theorems buffer_simps \<open>reads from and writes to byte buffers\<close>
named_theorems codec_simps \<open>little-endian integer codec\<close>

type_synonym u8 = "8 word"
type_synonym bytes = "u8 list"

section \<open>Slices and in-place writes\<close>

definition slice :: "nat \<Rightarrow> nat \<Rightarrow> 'a list \<Rightarrow> 'a list" where
  "slice off n xs = take n (drop off xs)"

text \<open>\<open>blit off src buf\<close> is \<open>memcpy(buf+off, src, n)\<close> with \<open>n\<close> the length of \<open>src\<close>.\<close>

definition blit :: "nat \<Rightarrow> 'a list \<Rightarrow> 'a list \<Rightarrow> 'a list" where
  "blit off src buf = take off buf @ src @ drop (off + length src) buf"

text \<open>\<open>memmove_in buf dst src n\<close> is \<open>memmove(buf+dst, buf+src, n)\<close>: the source bytes are
  read before the destination is written, so the ranges may overlap.\<close>

definition memmove_in :: "'a list \<Rightarrow> nat \<Rightarrow> nat \<Rightarrow> nat \<Rightarrow> 'a list" where
  "memmove_in buf dst src n = blit dst (slice src n buf) buf"

text \<open>\<open>realloc\<close> keeps the common prefix.  The bytes it adds are indeterminate in C; the
  model gives them an arbitrary value, and no result below depends on it.\<close>

definition fresh_byte :: u8 where
  "fresh_byte = 165"

definition realloc_bytes :: "nat \<Rightarrow> bytes \<Rightarrow> bytes" where
  "realloc_bytes n buf = take n buf @ replicate (n - length buf) fresh_byte"

lemma length_slice [simp, buffer_simps]: "length (slice off n xs) = min n (length xs - off)"
  by (simp add: slice_def)

lemma length_blit [simp, buffer_simps]:
  "off + length src \<le> length buf \<Longrightarrow> length (blit off src buf) = length buf"
  by (simp add: blit_def)

lemma length_memmove_in [simp, buffer_simps]:
  "src + n \<le> length buf \<Longrightarrow> dst + n \<le> length buf \<Longrightarrow> length (memmove_in buf dst src n) = length buf"
  by (simp add: memmove_in_def)

lemma length_realloc_bytes [simp, buffer_simps]: "length (realloc_bytes n buf) = n"
  by (simp add: realloc_bytes_def)

lemma nth_slice [buffer_simps]:
  "i < n \<Longrightarrow> off + i < length xs \<Longrightarrow> slice off n xs ! i = xs ! (off + i)"
  by (simp add: slice_def)

lemma slice_blit_same [simp, buffer_simps]:
  "off \<le> length buf \<Longrightarrow> n = length src \<Longrightarrow> slice off n (blit off src buf) = src"
  by (simp add: slice_def blit_def)

lemma slice_blit_before [simp, buffer_simps]:
  "i + n \<le> off \<Longrightarrow> off \<le> length buf \<Longrightarrow> slice i n (blit off src buf) = slice i n buf"
  by (auto simp: slice_def blit_def drop_take min_def)

lemma slice_blit_after [simp, buffer_simps]:
  assumes "off + length src \<le> i" "off \<le> length buf"
  shows "slice i n (blit off src buf) = slice i n buf"
proof -
  have "i = off + length src + (i - (off + length src))"
    using assms(1) by simp
  then show ?thesis
    using assms by (simp add: slice_def blit_def min_def add.commute)
qed

lemma slice_slice:
  "i + m \<le> n \<Longrightarrow> slice i m (slice off n xs) = slice (off + i) m xs"
  by (simp add: slice_def drop_take min_def add.commute)

lemma slice_realloc [simp, buffer_simps]:
  "i + n \<le> m \<Longrightarrow> i + n \<le> length buf \<Longrightarrow> slice i n (realloc_bytes m buf) = slice i n buf"
  by (simp add: slice_def realloc_bytes_def drop_take min_def)

lemma slice_all [simp]: "n = length xs \<Longrightarrow> slice 0 n xs = xs"
  by (simp add: slice_def)

lemma slice_append_left [simp]: "off + n \<le> length xs \<Longrightarrow> slice off n (xs @ ys) = slice off n xs"
  by (simp add: slice_def)

lemma slice_append_right: "length xs \<le> off \<Longrightarrow> slice off n (xs @ ys) = slice (off - length xs) n ys"
  by (simp add: slice_def)

text \<open>A slice moved by \<open>memmove\<close> is read back at its new place.\<close>

lemma slice_memmove_moved:
  assumes "src + n \<le> length buf" "dst + n \<le> length buf" "dst \<le> i" "i + m \<le> dst + n"
  shows "slice i m (memmove_in buf dst src n) = slice (i + src - dst) m buf"
proof -
  let ?mid = "slice src n buf"
  have "slice i m (memmove_in buf dst src n) = slice (i - dst) m ?mid"
    using assms by (simp add: memmove_in_def blit_def slice_def)
  also have "\<dots> = slice (i + src - dst) m buf"
    using assms slice_slice [of "i - dst" m n src buf] by (simp add: add.commute)
  finally show ?thesis .
qed

lemma slice_memmove_before:
  "i + m \<le> dst \<Longrightarrow> dst \<le> length buf \<Longrightarrow> slice i m (memmove_in buf dst src n) = slice i m buf"
  by (simp add: memmove_in_def)

lemma nat_Suc:
  "8 = Suc 7" "7 = Suc 6" "6 = Suc 5" "5 = Suc 4" "4 = Suc 3" "3 = Suc 2" "2 = Suc 1" "1 = Suc 0"
  by simp_all

section \<open>Little-endian integers\<close>

fun le_of_nat :: "nat \<Rightarrow> nat \<Rightarrow> bytes" where
  "le_of_nat 0 v = []"
| "le_of_nat (Suc n) v = word_of_nat v # le_of_nat n (v div 256)"

fun nat_of_le :: "bytes \<Rightarrow> nat" where
  "nat_of_le [] = 0"
| "nat_of_le (b # bs) = unat b + 256 * nat_of_le bs"

definition le_of_int :: "nat \<Rightarrow> int \<Rightarrow> bytes" where
  "le_of_int n v = le_of_nat n (nat (take_bit (8 * n) v))"

definition int_of_le :: "bytes \<Rightarrow> int" where
  "int_of_le bs = signed_take_bit (8 * length bs - 1) (int (nat_of_le bs))"

lemma length_le_of_nat [simp, codec_simps]: "length (le_of_nat n v) = n"
  by (induction n arbitrary: v) auto

lemma length_le_of_int [simp, codec_simps]: "length (le_of_int n v) = n"
  by (simp add: le_of_int_def)

lemma unat_byte_of_nat [simp, codec_simps]: "unat (word_of_nat v :: u8) = v mod 256"
  by (simp add: unat_of_nat)

lemma nat_of_le_of_nat [simp, codec_simps]: "nat_of_le (le_of_nat n v) = v mod 256 ^ n"
proof (induction n arbitrary: v)
  case (Suc n)
  have "v mod (256 * 256 ^ n) = 256 * (v div 256 mod 256 ^ n) + v mod 256"
    by (rule mod_mult2_eq)
  with Suc show ?case by simp
qed simp

lemma unat_u8_less [simp]: "unat (b::u8) < 256"
proof -
  have "unat b < 2 ^ LENGTH(8)" by (rule unsigned_less)
  then show ?thesis by simp
qed

lemma nat_of_le_less: "nat_of_le bs < 256 ^ length bs"
proof (induction bs)
  case (Cons b bs)
  have "unat b + 256 * nat_of_le bs < 256 * (1 + nat_of_le bs)" by simp
  also have "\<dots> \<le> 256 * 256 ^ length bs"
    using Cons by (intro mult_le_mono2) simp
  finally show ?case by simp
qed simp

lemma le_of_nat_of_le [simp, codec_simps]: "le_of_nat (length bs) (nat_of_le bs) = bs"
proof (induction bs)
  case (Cons b bs)
  have b: "unat b < 256" by simp
  have "unat (word_of_nat (unat b + 256 * nat_of_le bs) :: u8)
      = (unat b + 256 * nat_of_le bs) mod 256"
    by (rule unat_byte_of_nat)
  with b have "(word_of_nat (unat b + 256 * nat_of_le bs) :: u8) = b"
    unfolding word_unat_eq_iff by simp
  with Cons b show ?case by simp
qed simp

lemma nat_of_le_append [codec_simps]: "nat_of_le (xs @ ys) = nat_of_le xs + 256 ^ length xs * nat_of_le ys"
  by (induction xs) (auto simp: algebra_simps)

lemma pow_256: "(256::'a::comm_semiring_1_cancel) ^ n = 2 ^ (8 * n)"
  by (simp add: power_mult)

text \<open>The range of a signed integer of \<open>n\<close> bytes.\<close>

definition fits :: "nat \<Rightarrow> int \<Rightarrow> bool" where
  "fits n v \<longleftrightarrow> - (2 ^ (8 * n - 1)) \<le> v \<and> v < 2 ^ (8 * n - 1)"

lemma int_of_le_of_int [codec_simps]:
  "int_of_le (le_of_int n v) = signed_take_bit (8 * n - 1) v" if "0 < n"
proof -
  have "int (nat_of_le (le_of_int n v)) = int (nat (take_bit (8 * n) v) mod 256 ^ n)"
    by (simp add: le_of_int_def)
  also have "\<dots> = take_bit (8 * n) (take_bit (8 * n) v)"
    by (simp add: take_bit_eq_mod zmod_int pow_256)
  finally have "int (nat_of_le (le_of_int n v)) = take_bit (8 * n) v" by simp
  then show ?thesis
    using that by (simp add: int_of_le_def signed_take_bit_take_bit) arith
qed

lemma signed_take_bit_id: "- (2 ^ n) \<le> v \<Longrightarrow> v < 2 ^ n \<Longrightarrow> signed_take_bit n v = (v::int)"
  by (simp add: signed_take_bit_int_eq_self)

lemma int_of_le_of_int_fits [simp, codec_simps]:
  "0 < n \<Longrightarrow> fits n v \<Longrightarrow> int_of_le (le_of_int n v) = v"
  by (simp add: int_of_le_of_int fits_def signed_take_bit_id)

lemma fits_int_of_le [simp]: "bs \<noteq> [] \<Longrightarrow> fits (length bs) (int_of_le bs)"
  by (simp add: fits_def int_of_le_def signed_take_bit_int_less_exp
      signed_take_bit_int_greater_eq_minus_exp)

lemma fits_mono: "fits m v \<Longrightarrow> m \<le> n \<Longrightarrow> fits n v"
proof -
  assume "fits m v" "m \<le> n"
  moreover have "(2::int) ^ (8 * m - 1) \<le> 2 ^ (8 * n - 1)"
    using \<open>m \<le> n\<close> by (intro power_increasing) auto
  ultimately show ?thesis unfolding fits_def by linarith
qed

section \<open>Addresses\<close>

type_synonym addr = "64 word"

abbreviation NULL :: addr where "NULL \<equiv> 0"

text \<open>The pointers of a block just allocated hold no particular address; no result depends on this one.\<close>

definition indeterminate :: addr where "indeterminate = 3735928559"

section \<open>String objects\<close>

text \<open>A string object is a number or a string, which a NUL follows.\<close>

datatype robj = ObjInt int | ObjStr bytes

definition cstr_at :: "bytes \<Rightarrow> nat \<Rightarrow> u8" where
  "cstr_at s i = (if i < length s then s ! i else 0)"

end
