(* ===== verification/Endian.thy ===== *)
theory Endian
  imports Redis_Prelude
begin

text \<open>
  \<open>endianconv.c\<close> and \<open>endianconv.h\<close>: byte reversal in memory and on integers, and the
  \<open>...ifbe\<close> macros that make the stored form of an integer little endian on every
  host.  The host's byte order is the parameter \<open>be\<close> (true on a big-endian host).
\<close>

section \<open>The host's memory\<close>

definition host_store :: "bool \<Rightarrow> nat \<Rightarrow> nat \<Rightarrow> bytes" where
  "host_store be n v = (if be then rev (le_of_nat n v) else le_of_nat n v)"

definition host_load :: "bool \<Rightarrow> bytes \<Rightarrow> nat" where
  "host_load be bs = nat_of_le (if be then rev bs else bs)"

section \<open>Reversal\<close>

definition memrev16 :: "bytes \<Rightarrow> bytes" where
  "memrev16 x =
     (let t = x ! 0; x = x[0 := x ! 1]; x = x[1 := t] in x)"

definition memrev32 :: "bytes \<Rightarrow> bytes" where
  "memrev32 x =
     (let t = x ! 0; x = x[0 := x ! 3]; x = x[3 := t];
          t = x ! 1; x = x[1 := x ! 2]; x = x[2 := t] in x)"

definition memrev64 :: "bytes \<Rightarrow> bytes" where
  "memrev64 x =
     (let t = x ! 0; x = x[0 := x ! 7]; x = x[7 := t];
          t = x ! 1; x = x[1 := x ! 6]; x = x[6 := t];
          t = x ! 2; x = x[2 := x ! 5]; x = x[5 := t];
          t = x ! 3; x = x[3 := x ! 4]; x = x[4 := t] in x)"

definition intrev16 :: "bool \<Rightarrow> nat \<Rightarrow> nat" where
  "intrev16 be v = host_load be (memrev16 (host_store be 2 v))"

definition intrev32 :: "bool \<Rightarrow> nat \<Rightarrow> nat" where
  "intrev32 be v = host_load be (memrev32 (host_store be 4 v))"

definition intrev64 :: "bool \<Rightarrow> nat \<Rightarrow> nat" where
  "intrev64 be v = host_load be (memrev64 (host_store be 8 v))"

text \<open>The macros of \<open>endianconv.h\<close> select the reversal by \<open>BYTE_ORDER\<close>.\<close>

definition memrev16ifbe :: "bool \<Rightarrow> bytes \<Rightarrow> bytes" where
  "memrev16ifbe be p = (if be then memrev16 p else p)"

definition memrev32ifbe :: "bool \<Rightarrow> bytes \<Rightarrow> bytes" where
  "memrev32ifbe be p = (if be then memrev32 p else p)"

definition memrev64ifbe :: "bool \<Rightarrow> bytes \<Rightarrow> bytes" where
  "memrev64ifbe be p = (if be then memrev64 p else p)"

definition htonu64 :: "bool \<Rightarrow> nat \<Rightarrow> nat" where
  "htonu64 be v = (if be then v else intrev64 be v)"

definition ntohu64 :: "bool \<Rightarrow> nat \<Rightarrow> nat" where
  "ntohu64 be v = (if be then v else intrev64 be v)"

section \<open>The swaps reverse the buffer\<close>

lemma memrev16_rev: "length x = 2 \<Longrightarrow> memrev16 x = rev x"
  by (auto simp: memrev16_def length_Suc_conv numeral_2_eq_2)

lemma memrev32_rev: "length x = 4 \<Longrightarrow> memrev32 x = rev x"
  by (auto simp: memrev32_def length_Suc_conv numeral_eq_Suc)

lemma memrev64_rev: "length x = 8 \<Longrightarrow> memrev64 x = rev x"
  by (auto simp: memrev64_def length_Suc_conv numeral_eq_Suc)

lemmas memrev_rev = memrev16_rev memrev32_rev memrev64_rev

lemma length_host_store [simp]: "length (host_store be n v) = n"
  by (simp add: host_store_def)

lemma host_load_store: "host_load be (host_store be n v) = v mod 256 ^ n"
  by (simp add: host_load_def host_store_def)

lemma intrev_eq:
  "intrev16 be v = nat_of_le (rev (le_of_nat 2 v))"
  "intrev32 be v = nat_of_le (rev (le_of_nat 4 v))"
  "intrev64 be v = nat_of_le (rev (le_of_nat 8 v))"
  by (simp_all add: intrev16_def intrev32_def intrev64_def memrev_rev host_load_def host_store_def)

lemma le_of_nat_of_rev:
  "length bs = n \<Longrightarrow> le_of_nat n (nat_of_le bs) = bs"
  using le_of_nat_of_le by blast

lemma nat_of_le_rev_twice:
  "nat_of_le (rev (le_of_nat n (nat_of_le (rev (le_of_nat n v))))) = v mod 256 ^ n"
  by (subst le_of_nat_of_rev) simp_all

section \<open>What the macros promise\<close>

text \<open>C24. Integers reach memory in the same, little-endian, byte order on hosts of either
  byte order: storing in the host's order and applying the \<open>memrev..ifbe\<close> macro gives the
  little-endian encoding, and loading back recovers the value modulo the width.\<close>

theorem storage_is_little_endian:
  "memrev16ifbe be (host_store be 2 v) = le_of_nat 2 v
   \<and> memrev32ifbe be (host_store be 4 v) = le_of_nat 4 v
   \<and> memrev64ifbe be (host_store be 8 v) = le_of_nat 8 v
   \<and> host_load be (memrev16ifbe be (le_of_nat 2 v)) = v mod 2 ^ 16
   \<and> host_load be (memrev32ifbe be (le_of_nat 4 v)) = v mod 2 ^ 32
   \<and> host_load be (memrev64ifbe be (le_of_nat 8 v)) = v mod 2 ^ 64"
  by (simp add: memrev16ifbe_def memrev32ifbe_def memrev64ifbe_def memrev_rev
      host_store_def host_load_def)

lemma htonu64_involution: "v < 2 ^ 64 \<Longrightarrow> ntohu64 be (htonu64 be v) = v"
  by (simp add: htonu64_def ntohu64_def intrev_eq nat_of_le_rev_twice)

end
