(* ===== verification/Interfaces.thy ===== *)
theory Interfaces
  imports Redis_Prelude
begin

text \<open>
  The interfaces between components, as locales: what the clients of a container may rely
  on.  Each is interpreted on the model of the component that provides it, and the lemmas
  proved here once are the clients' reasoning.
\<close>

section \<open>A set of integers with bounded room\<close>

text \<open>\<open>add\<close> reports whether the value was new, as \<open>intsetAdd\<close> does through \<open>*success\<close>.\<close>

locale int_set =
  fixes new :: "'s"
    and add :: "'s \<Rightarrow> int \<Rightarrow> 's \<times> bool"
    and rem :: "'s \<Rightarrow> int \<Rightarrow> 's \<times> bool"
    and member :: "'s \<Rightarrow> int \<Rightarrow> bool"
    and elems :: "'s \<Rightarrow> int set"
    and inv :: "'s \<Rightarrow> bool"
    and valid :: "int \<Rightarrow> bool"
    and cap :: nat
  assumes new_ok: "inv new" "elems new = {}"
    and finite_elems: "inv s \<Longrightarrow> finite (elems s)"
    and member_iff: "inv s \<Longrightarrow> valid v \<Longrightarrow> member s v \<longleftrightarrow> v \<in> elems s"
    and add_ok: "inv s \<Longrightarrow> valid v \<Longrightarrow> card (elems s) + 1 < cap \<Longrightarrow> add s v = (s', b) \<Longrightarrow>
        inv s' \<and> elems s' = insert v (elems s) \<and> (b \<longleftrightarrow> v \<notin> elems s)"
    and rem_ok: "inv s \<Longrightarrow> valid v \<Longrightarrow> rem s v = (s', b) \<Longrightarrow>
        inv s' \<and> elems s' = elems s - {v} \<and> (b \<longleftrightarrow> v \<in> elems s)"

text \<open>Adding a list of values one by one and counting the new ones, the loop of \<open>SADD\<close>.\<close>

fun add_loop :: "('s \<Rightarrow> 'v \<Rightarrow> 's \<times> bool) \<Rightarrow> 's \<Rightarrow> 'v list \<Rightarrow> nat \<Rightarrow> 's \<times> nat" where
  "add_loop add s [] added = (s, added)"
| "add_loop add s (v # vs) added =
     (case add s v of (s', b) \<Rightarrow> add_loop add s' vs (if b then added + 1 else added))"

context int_set
begin

lemma add_then_member:
  "inv s \<Longrightarrow> valid v \<Longrightarrow> card (elems s) + 1 < cap \<Longrightarrow> valid w \<Longrightarrow>
     member (fst (add s v)) w \<longleftrightarrow> w = v \<or> member s w"
  using add_ok [of s v "fst (add s v)" "snd (add s v)"] by (auto simp: member_iff)

lemma rem_then_member:
  "inv s \<Longrightarrow> valid v \<Longrightarrow> valid w \<Longrightarrow> member (fst (rem s v)) w \<longleftrightarrow> w \<noteq> v \<and> member s w"
  using rem_ok [of s v "fst (rem s v)" "snd (rem s v)"] by (auto simp: member_iff)

lemma add_loop_ok:
  assumes "inv s" "\<forall>v \<in> set vs. valid v" "card (elems s) + length vs < cap"
    and "add_loop add s vs k = (s', n)"
  shows "inv s' \<and> elems s' = elems s \<union> set vs \<and> n = k + card (set vs - elems s)"
  using assms
proof (induction vs arbitrary: s k)
  case (Cons v vs)
  obtain s1 b where s1: "add s v = (s1, b)" by fastforce
  have ok: "inv s1" "elems s1 = insert v (elems s)" "b \<longleftrightarrow> v \<notin> elems s"
    using add_ok [OF _ _ _ s1] Cons.prems by auto
  have fin: "finite (elems s)" by (rule finite_elems) fact
  have "card (elems s1) + length vs < cap"
    using Cons.prems(3) ok(2) fin by (simp add: card_insert_if)
  then have IH: "inv s' \<and> elems s' = elems s1 \<union> set vs
      \<and> n = (if b then k + 1 else k) + card (set vs - elems s1)"
    using Cons.IH [of s1] Cons.prems ok(1) s1 by simp
  have "card (set (v # vs) - elems s) = (if b then 1 else 0) + card (set vs - elems s1)"
  proof (cases "v \<in> elems s")
    case True
    then have "set (v # vs) - elems s = set vs - elems s1" using ok(2) by auto
    with True ok(3) show ?thesis by simp
  next
    case False
    then have "set (v # vs) - elems s = insert v (set vs - elems s1)" "v \<notin> set vs - elems s1"
      using ok(2) by auto
    with False ok(3) show ?thesis by simp
  qed
  with IH ok(2) show ?case by auto
qed simp

end

section \<open>A sequence of byte strings\<close>

text \<open>\<open>content s xs\<close> says that \<open>s\<close> holds the strings \<open>xs\<close>; \<open>room s x\<close> is the test a client makes
  before it adds \<open>x\<close>; \<open>get\<close> reads by index, from the tail when the index is negative.  The
  outer option of a result is a failed assertion.\<close>

definition index_pos :: "nat \<Rightarrow> int \<Rightarrow> nat option" where
  "index_pos n index =
     (if 0 \<le> index \<and> index < int n then Some (nat index)
      else if index < 0 \<and> - int n \<le> index then Some (nat (int n + index))
      else None)"

lemma index_pos_less: "index_pos n i = Some k \<Longrightarrow> k < n"
  by (auto simp: index_pos_def split: if_splits)

locale string_seq =
  fixes content :: "'s \<Rightarrow> bytes list \<Rightarrow> bool"
    and room :: "'s \<Rightarrow> bytes \<Rightarrow> bool"
    and new :: "'s"
    and append :: "'s \<Rightarrow> bytes \<Rightarrow> 's option"
    and prepend :: "'s \<Rightarrow> bytes \<Rightarrow> 's option"
    and count :: "'s \<Rightarrow> nat option"
    and get :: "'s \<Rightarrow> int \<Rightarrow> bytes option option"
  assumes new_ok: "content new []"
    and append_ok: "content s xs \<Longrightarrow> room s x \<Longrightarrow> \<exists>s'. append s x = Some s' \<and> content s' (xs @ [x])"
    and prepend_ok: "content s xs \<Longrightarrow> room s x \<Longrightarrow> \<exists>s'. prepend s x = Some s' \<and> content s' (x # xs)"
    and count_ok: "content s xs \<Longrightarrow> count s = Some (length xs)"
    and get_ok: "content s xs \<Longrightarrow> get s i = Some (map_option (nth xs) (index_pos (length xs) i))"

text \<open>Pushing strings one by one until there is no room: the strings pushed, and whether all
  were.\<close>

fun push_while :: "('s \<Rightarrow> bytes \<Rightarrow> bool) \<Rightarrow> ('s \<Rightarrow> bytes \<Rightarrow> 's option) \<Rightarrow> 's \<Rightarrow> bytes list \<Rightarrow> ('s \<times> nat) option" where
  "push_while room push s [] = Some (s, 0)"
| "push_while room push s (x # xs) =
     (if \<not> room s x then Some (s, 0)
      else case push s x of
          None \<Rightarrow> None
        | Some s' \<Rightarrow> map_option (\<lambda>(s'', n). (s'', Suc n)) (push_while room push s' xs))"

context string_seq
begin

lemma push_while_append:
  "content s xs \<Longrightarrow> \<exists>s' n. push_while room append s ys = Some (s', n) \<and> n \<le> length ys
     \<and> content s' (xs @ take n ys)"
proof (induction ys arbitrary: s xs)
  case (Cons y ys)
  show ?case
  proof (cases "room s y")
    case True
    then obtain s1 where s1: "append s y = Some s1" "content s1 (xs @ [y])"
      using append_ok [OF Cons.prems] by blast
    from Cons.IH [OF s1(2)] obtain s' n where "push_while room append s1 ys = Some (s', n)"
      "n \<le> length ys" "content s' ((xs @ [y]) @ take n ys)" by blast
    then show ?thesis using True s1(1) by auto
  qed (use Cons.prems in auto)
qed auto

lemma push_while_prepend:
  "content s xs \<Longrightarrow> \<exists>s' n. push_while room prepend s ys = Some (s', n) \<and> n \<le> length ys
     \<and> content s' (rev (take n ys) @ xs)"
proof (induction ys arbitrary: s xs)
  case (Cons y ys)
  show ?case
  proof (cases "room s y")
    case True
    then obtain s1 where s1: "prepend s y = Some s1" "content s1 (y # xs)"
      using prepend_ok [OF Cons.prems] by blast
    from Cons.IH [OF s1(2)] obtain s' n where "push_while room prepend s1 ys = Some (s', n)"
      "n \<le> length ys" "content s' (rev (take n ys) @ y # xs)" by blast
    then show ?thesis using True s1(1) by auto
  qed (use Cons.prems in auto)
qed auto

lemma get_after_push:
  assumes "content s xs" "push_while room append s ys = Some (s', n)" "i < n"
  shows "get s' (int (length xs + i)) = Some (Some (ys ! i))"
    and "count s' = Some (length xs + n)"
proof -
  have *: "n \<le> length ys" "content s' (xs @ take n ys)"
    using push_while_append [OF assms(1), of ys] assms(2) by auto
  show "get s' (int (length xs + i)) = Some (Some (ys ! i))"
    using get_ok [OF *(2), of "int (length xs + i)"] assms(3) *(1)
    by (simp add: index_pos_def nth_append nat_add_distrib)
  show "count s' = Some (length xs + n)"
    using count_ok [OF *(2)] *(1) by simp
qed

end

section \<open>A map with its own equality of keys\<close>

text \<open>The keys of a client are equal up to \<open>same\<close>; \<open>store\<close> is what is kept of a value.  Every operation
  may reorganise the state (the outer option is a failed assertion), and \<open>idle\<close> is work done between
  the operations.  The room is \<open>cap\<close> keys.\<close>

datatype ('k, 'a, 'i) map_cmd = Fetch 'k | Add 'k 'a | Replace 'k 'a | Delete 'k | Idle 'i

datatype 'v map_out = Found "'v option" | Flag bool | Nothing

fun cmd_key :: "('k, 'a, 'i) map_cmd \<Rightarrow> 'k option" where
  "cmd_key (Fetch k) = Some k"
| "cmd_key (Add k v) = Some k"
| "cmd_key (Replace k v) = Some k"
| "cmd_key (Delete k) = Some k"
| "cmd_key (Idle i) = None"

text \<open>The reference: a function from keys to values.\<close>

fun map_spec :: "('k \<Rightarrow> 'k \<Rightarrow> bool) \<Rightarrow> ('a \<Rightarrow> 'v) \<Rightarrow> ('k, 'a, 'i) map_cmd \<Rightarrow> ('k \<Rightarrow> 'v option) \<Rightarrow> 'v map_out \<times> ('k \<Rightarrow> 'v option)" where
  "map_spec same store (Fetch k) m = (Found (m k), m)"
| "map_spec same store (Add k v) m =
     (Flag (m k = None), if m k = None then (\<lambda>x. if same k x then Some (store v) else m x) else m)"
| "map_spec same store (Replace k v) m =
     (Flag (m k = None), \<lambda>x. if same k x then Some (store v) else m x)"
| "map_spec same store (Delete k) m = (Flag (m k \<noteq> None), \<lambda>x. if same k x then None else m x)"
| "map_spec same store (Idle i) m = (Nothing, m)"

fun map_spec_run where
  "map_spec_run same store [] m = ([], m)"
| "map_spec_run same store (c # cs) m =
     (case map_spec same store c m of (out, m') \<Rightarrow> (case map_spec_run same store cs m' of (outs, m'') \<Rightarrow> (out # outs, m'')))"

text \<open>Running commands on an implementation.\<close>

fun map_exec :: "('s \<Rightarrow> 'k \<Rightarrow> ('v option \<times> 's) option) \<Rightarrow> ('s \<Rightarrow> 'k \<Rightarrow> 'a \<Rightarrow> (bool \<times> 's) option) \<Rightarrow>
    ('s \<Rightarrow> 'k \<Rightarrow> 'a \<Rightarrow> (bool \<times> 's) option) \<Rightarrow> ('s \<Rightarrow> 'k \<Rightarrow> (bool \<times> 's) option) \<Rightarrow> ('i \<Rightarrow> 's \<Rightarrow> 's option) \<Rightarrow>
    ('k, 'a, 'i) map_cmd \<Rightarrow> 's \<Rightarrow> ('v map_out \<times> 's) option" where
  "map_exec fetch add replace delete idle (Fetch k) s = map_option (\<lambda>(v, s'). (Found v, s')) (fetch s k)"
| "map_exec fetch add replace delete idle (Add k v) s = map_option (\<lambda>(b, s'). (Flag b, s')) (add s k v)"
| "map_exec fetch add replace delete idle (Replace k v) s = map_option (\<lambda>(b, s'). (Flag b, s')) (replace s k v)"
| "map_exec fetch add replace delete idle (Delete k) s = map_option (\<lambda>(b, s'). (Flag b, s')) (delete s k)"
| "map_exec fetch add replace delete idle (Idle i) s = map_option (\<lambda>s'. (Nothing, s')) (idle i s)"

fun map_run :: "('c \<Rightarrow> 's \<Rightarrow> ('o \<times> 's) option) \<Rightarrow> 'c list \<Rightarrow> 's \<Rightarrow> ('o list \<times> 's) option" where
  "map_run exec [] s = Some ([], s)"
| "map_run exec (c # cs) s =
     (case exec c s of None \<Rightarrow> None
      | Some (out, s') \<Rightarrow> map_option (\<lambda>(outs, s''). (out # outs, s'')) (map_run exec cs s'))"

locale keyed_map =
  fixes inv :: "'s \<Rightarrow> bool"
    and get :: "'s \<Rightarrow> 'k \<Rightarrow> 'v option"
    and same :: "'k \<Rightarrow> 'k \<Rightarrow> bool"
    and good :: "'k \<Rightarrow> bool"
    and store :: "'a \<Rightarrow> 'v"
    and count :: "'s \<Rightarrow> nat"
    and cap :: nat
    and fetch :: "'s \<Rightarrow> 'k \<Rightarrow> ('v option \<times> 's) option"
    and add :: "'s \<Rightarrow> 'k \<Rightarrow> 'a \<Rightarrow> (bool \<times> 's) option"
    and replace :: "'s \<Rightarrow> 'k \<Rightarrow> 'a \<Rightarrow> (bool \<times> 's) option"
    and delete :: "'s \<Rightarrow> 'k \<Rightarrow> (bool \<times> 's) option"
    and idle :: "'i \<Rightarrow> 's \<Rightarrow> 's option"
  assumes fetch_ok: "inv s \<Longrightarrow> \<exists>s'. fetch s k = Some (get s k, s') \<and> inv s' \<and> get s' = get s \<and> count s' = count s"
    and add_ok: "inv s \<Longrightarrow> good k \<Longrightarrow> count s < cap \<Longrightarrow> \<exists>s'. add s k v = Some (get s k = None, s') \<and> inv s'
      \<and> get s' = (if get s k = None then (\<lambda>x. if same k x then Some (store v) else get s x) else get s)
      \<and> count s' = (if get s k = None then count s + 1 else count s)"
    and replace_ok: "inv s \<Longrightarrow> good k \<Longrightarrow> count s < cap \<Longrightarrow> \<exists>s'. replace s k v = Some (get s k = None, s') \<and> inv s'
      \<and> get s' = (\<lambda>x. if same k x then Some (store v) else get s x)
      \<and> count s' = (if get s k = None then count s + 1 else count s)"
    and delete_ok: "inv s \<Longrightarrow> \<exists>s'. delete s k = Some (get s k \<noteq> None, s') \<and> inv s'
      \<and> get s' = (\<lambda>x. if same k x then None else get s x)
      \<and> count s = (if get s k = None then count s' else count s' + 1)"
    and idle_ok: "inv s \<Longrightarrow> \<exists>s'. idle i s = Some s' \<and> inv s' \<and> get s' = get s \<and> count s' = count s"
begin

text \<open>A command does to the map what the reference does and gives its answer.\<close>

lemma exec_refines:
  assumes "inv s" "\<forall>k. cmd_key c = Some k \<longrightarrow> good k" "count s < cap"
  shows "\<exists>s' out. map_exec fetch add replace delete idle c s = Some (out, s') \<and> inv s'
     \<and> map_spec same store c (get s) = (out, get s') \<and> count s' \<le> count s + 1"
proof (cases c)
  case (Fetch k)
  then show ?thesis using fetch_ok [OF assms(1), of k] by auto
next
  case (Add k v)
  then have "good k" using assms(2) by simp
  then show ?thesis using add_ok [OF assms(1) _ assms(3), of k v] Add by auto
next
  case (Replace k v)
  then have "good k" using assms(2) by simp
  then show ?thesis using replace_ok [OF assms(1) _ assms(3), of k v] Replace by auto
next
  case (Delete k)
  obtain s' where "delete s k = Some (get s k \<noteq> None, s')" "inv s'"
    "get s' = (\<lambda>x. if same k x then None else get s x)" "count s = (if get s k = None then count s' else count s' + 1)"
    using delete_ok [OF assms(1), of k] by blast
  then show ?thesis using Delete by (auto split: if_splits)
next
  case (Idle i)
  then show ?thesis using idle_ok [OF assms(1), of i] by auto
qed

lemma run_refines:
  assumes "inv s" "\<forall>c \<in> set cs. \<forall>k. cmd_key c = Some k \<longrightarrow> good k" "count s + length cs \<le> cap"
  shows "\<exists>s' outs. map_run (map_exec fetch add replace delete idle) cs s = Some (outs, s') \<and> inv s'
     \<and> map_spec_run same store cs (get s) = (outs, get s')"
  using assms
proof (induction cs arbitrary: s)
  case (Cons c cs)
  obtain s1 out where s1: "map_exec fetch add replace delete idle c s = Some (out, s1)" "inv s1"
    "map_spec same store c (get s) = (out, get s1)" "count s1 \<le> count s + 1"
    using exec_refines [of s c] Cons.prems by auto
  obtain s2 outs where s2: "map_run (map_exec fetch add replace delete idle) cs s1 = Some (outs, s2)" "inv s2"
    "map_spec_run same store cs (get s1) = (outs, get s2)"
    using Cons.IH [OF s1(2)] Cons.prems s1(4) by auto
  show ?case using s1 s2 by simp
qed auto

end

section \<open>A machine whose allocations may fail\<close>

text \<open>A command of the client either takes effect, as the reference \<open>spec\<close> says, or is refused and changes
  nothing.  It is refused when the reference refuses it, and otherwise only when it needs room that is
  not there.\<close>

locale fallible_machine =
  fixes rel :: "'s \<Rightarrow> 'x \<Rightarrow> bool"
    and room :: "'s \<Rightarrow> bool"
    and step :: "'c \<Rightarrow> 's \<Rightarrow> (bool \<times> 's) option"
    and allocates :: "'c \<Rightarrow> bool"
    and spec :: "'c \<Rightarrow> 'x \<Rightarrow> 'x option"
  assumes step_ok: "rel s x \<Longrightarrow> \<exists>ok s'. step c s = Some (ok, s')
      \<and> (ok \<longleftrightarrow> spec c x \<noteq> None \<and> (allocates c \<longrightarrow> room s))
      \<and> rel s' (if ok then the (spec c x) else x)"

text \<open>The run of the machine from the state \<open>s\<close>, answer by answer: each command is accepted exactly when
  the reference accepts it and, if it allocates, there is room in the state it is given in; the
  reference then takes the same step, and otherwise none.\<close>

fun explains :: "('c \<Rightarrow> 's \<Rightarrow> (bool \<times> 's) option) \<Rightarrow> ('s \<Rightarrow> bool) \<Rightarrow> ('c \<Rightarrow> 'x \<Rightarrow> 'x option) \<Rightarrow> ('c \<Rightarrow> bool)
    \<Rightarrow> 'c list \<Rightarrow> bool list \<Rightarrow> 's \<Rightarrow> 'x \<Rightarrow> 'x \<Rightarrow> bool" where
  "explains step room spec allocates [] [] s x x' \<longleftrightarrow> x' = x"
| "explains step room spec allocates (c # cs) (ok # oks) s x x' \<longleftrightarrow>
     (ok \<longleftrightarrow> spec c x \<noteq> None \<and> (allocates c \<longrightarrow> room s))
     \<and> (case step c s of
          None \<Rightarrow> False
        | Some (b, s') \<Rightarrow> b = ok
            \<and> explains step room spec allocates cs oks s' (if ok then the (spec c x) else x) x')"
| "explains step room spec allocates _ _ s x x' \<longleftrightarrow> False"

lemma explains_outcome:
  "explains step room spec allocates cs oks s x x' \<Longrightarrow>
     x' = fold (\<lambda>(c, ok) x. if ok then the (spec c x) else x) (zip cs oks) x"
  by (induction step room spec allocates cs oks s x x' rule: explains.induct)
    (auto split: option.splits if_splits)

context fallible_machine
begin

lemma run_explained:
  "rel s x \<Longrightarrow> \<exists>oks s' x'. map_run step cs s = Some (oks, s') \<and> rel s' x'
     \<and> explains step room spec allocates cs oks s x x'"
proof (induction cs arbitrary: s x)
  case (Cons c cs)
  obtain ok s1 where s1: "step c s = Some (ok, s1)" "ok \<longleftrightarrow> spec c x \<noteq> None \<and> (allocates c \<longrightarrow> room s)"
    "rel s1 (if ok then the (spec c x) else x)"
    using step_ok [OF Cons.prems, of c] by blast
  obtain oks s2 x2 where s2: "map_run step cs s1 = Some (oks, s2)" "rel s2 x2"
    "explains step room spec allocates cs oks s1 (if ok then the (spec c x) else x) x2"
    using Cons.IH [OF s1(3)] by blast
  have "explains step room spec allocates (c # cs) (ok # oks) s x x2"
    unfolding explains.simps s1(1) option.case prod.case using s1(2) s2(3) by blast
  then show ?case
    using s1(1) s2(1,2) by (intro exI [of _ "ok # oks"] exI [of _ s2] exI [of _ x2])
      (simp del: explains.simps)
qed auto

end

end
