(* ===== verification/Intset.thy ===== *)
theory Intset
  imports Endian Interfaces
begin

text \<open>
  \<open>intset.c\<close>: a set of integers kept as a sorted array of 16, 32 or 64 bit entries in one
  byte buffer, upgraded to a wider entry when a value needs it.  \<open>is_contents\<close> is the
  buffer after the header; an entry is stored little endian, which is what the
  \<open>memrev..ifbe\<close> macros give on both kinds of host (\<open>storage_is_little_endian\<close>).
  C's \<open>uint32_t\<close> lengths and byte counts are naturals with the reduction modulo
  \<open>2 ^ 32\<close> written out.
\<close>

section \<open>The structure\<close>

record intset =
  is_encoding :: nat
  is_length :: nat
  is_contents :: bytes

definition INTSET_ENC_INT16 :: nat where "INTSET_ENC_INT16 = 2"
definition INTSET_ENC_INT32 :: nat where "INTSET_ENC_INT32 = 4"
definition INTSET_ENC_INT64 :: nat where "INTSET_ENC_INT64 = 8"

lemmas enc_defs = INTSET_ENC_INT16_def INTSET_ENC_INT32_def INTSET_ENC_INT64_def

definition intsetValueEncoding :: "int \<Rightarrow> nat" where
  "intsetValueEncoding v =
     (if v < - (2 ^ 31) \<or> v > 2 ^ 31 - 1 then INTSET_ENC_INT64
      else if v < - (2 ^ 15) \<or> v > 2 ^ 15 - 1 then INTSET_ENC_INT32
      else INTSET_ENC_INT16)"

text \<open>\<open>_intsetGetEncoded\<close>, \<open>_intsetGet\<close> and \<open>_intsetSet\<close>.\<close>

definition intsetGetEncoded :: "intset \<Rightarrow> nat \<Rightarrow> nat \<Rightarrow> int" where
  "intsetGetEncoded is pos enc =
     (if enc = INTSET_ENC_INT64 then int_of_le (slice (pos * 8) 8 (is_contents is))
      else if enc = INTSET_ENC_INT32 then int_of_le (slice (pos * 4) 4 (is_contents is))
      else int_of_le (slice (pos * 2) 2 (is_contents is)))"

definition intsetGetAt :: "intset \<Rightarrow> nat \<Rightarrow> int" where
  "intsetGetAt is pos = intsetGetEncoded is pos (is_encoding is)"

definition intsetSetAt :: "intset \<Rightarrow> nat \<Rightarrow> int \<Rightarrow> intset" where
  "intsetSetAt is pos value =
     (let encoding = is_encoding is in
      if encoding = INTSET_ENC_INT64
      then is\<lparr>is_contents := blit (pos * 8) (le_of_int 8 value) (is_contents is)\<rparr>
      else if encoding = INTSET_ENC_INT32
      then is\<lparr>is_contents := blit (pos * 4) (le_of_int 4 value) (is_contents is)\<rparr>
      else is\<lparr>is_contents := blit (pos * 2) (le_of_int 2 value) (is_contents is)\<rparr>)"

definition intsetNew :: intset where
  "intsetNew = \<lparr>is_encoding = INTSET_ENC_INT16, is_length = 0, is_contents = []\<rparr>"

definition intsetResize :: "intset \<Rightarrow> nat \<Rightarrow> intset" where
  "intsetResize is len = is\<lparr>is_contents := realloc_bytes (len * is_encoding is) (is_contents is)\<rparr>"

section \<open>Search\<close>

text \<open>The binary search loop.  \<open>lo\<close> and \<open>hi\<close> are C \<open>int\<close>s (\<open>hi\<close> reaches -1); their sum is
  taken unsigned, which cannot wrap for positions below \<open>2 ^ 31\<close>.\<close>

function intsetSearch_loop :: "intset \<Rightarrow> int \<Rightarrow> int \<Rightarrow> int \<Rightarrow> int \<Rightarrow> int \<Rightarrow> int \<times> int \<times> int" where
  "intsetSearch_loop is value lo hi mid cur =
     (if hi \<ge> lo then
        let mid = (lo + hi) div 2;
            cur = intsetGetAt is (nat mid)
        in if value > cur then intsetSearch_loop is value (mid + 1) hi mid cur
           else if value < cur then intsetSearch_loop is value lo (mid - 1) mid cur
           else (lo, mid, cur)
      else (lo, mid, cur))"
  by pat_completeness auto
termination
  by (relation "measure (\<lambda>(is, value, lo, hi, mid, cur). nat (hi - lo + 1))") auto

declare intsetSearch_loop.simps [simp del]

definition intsetSearch :: "intset \<Rightarrow> int \<Rightarrow> bool \<times> nat" where
  "intsetSearch is value =
     (let hi = int (is_length is) - 1 in
      if is_length is = 0 then (False, 0)
      else if value > intsetGetAt is (nat hi) then (False, is_length is)
      else if value < intsetGetAt is 0 then (False, 0)
      else case intsetSearch_loop is value 0 hi (-1) (-1) of
             (lo, mid, cur) \<Rightarrow>
               if value = cur then (True, nat mid) else (False, nat lo))"

section \<open>Update\<close>

fun upgrade_loop :: "intset \<Rightarrow> nat \<Rightarrow> nat \<Rightarrow> nat \<Rightarrow> intset" where
  "upgrade_loop is curenc prepend 0 = is"
| "upgrade_loop is curenc prepend (Suc n) =
     upgrade_loop
       (intsetSetAt is (n + prepend) (intsetGetEncoded is n curenc))
       curenc prepend n"

definition intsetUpgradeAndAdd :: "intset \<Rightarrow> int \<Rightarrow> intset" where
  "intsetUpgradeAndAdd is value =
     (let curenc = is_encoding is;
          newenc = intsetValueEncoding value;
          n = is_length is;
          prepend = (if value < 0 then 1 else 0);
          is = is\<lparr>is_encoding := newenc\<rparr>;
          is = intsetResize is ((is_length is + 1) mod 2 ^ 32);
          is = upgrade_loop is curenc prepend n;
          is = (if prepend \<noteq> 0 then intsetSetAt is 0 value
                else intsetSetAt is (is_length is) value)
      in is\<lparr>is_length := (is_length is + 1) mod 2 ^ 32\<rparr>)"

text \<open>The number of bytes to move is a \<open>uint32_t\<close>.\<close>

definition intsetMoveTail :: "intset \<Rightarrow> nat \<Rightarrow> nat \<Rightarrow> intset" where
  "intsetMoveTail is from to =
     (let bytes = is_length is - from;
          encoding = is_encoding is;
          w = (if encoding = INTSET_ENC_INT64 then 8
               else if encoding = INTSET_ENC_INT32 then 4 else 2)
      in is\<lparr>is_contents :=
             memmove_in (is_contents is) (to * w) (from * w) ((bytes * w) mod 2 ^ 32)\<rparr>)"

definition intsetAdd :: "intset \<Rightarrow> int \<Rightarrow> intset \<times> bool" where
  "intsetAdd is value =
     (let valenc = intsetValueEncoding value in
      if valenc > is_encoding is then (intsetUpgradeAndAdd is value, True)
      else case intsetSearch is value of
             (True, pos) \<Rightarrow> (is, False)
           | (False, pos) \<Rightarrow>
               let is = intsetResize is ((is_length is + 1) mod 2 ^ 32);
                   is = (if pos < is_length is then intsetMoveTail is pos (pos + 1) else is);
                   is = intsetSetAt is pos value
               in (is\<lparr>is_length := (is_length is + 1) mod 2 ^ 32\<rparr>, True))"

definition intsetRemove :: "intset \<Rightarrow> int \<Rightarrow> intset \<times> bool" where
  "intsetRemove is value =
     (let valenc = intsetValueEncoding value in
      if valenc \<le> is_encoding is \<and> fst (intsetSearch is value) then
        let pos = snd (intsetSearch is value);
            len = is_length is;
            is = (if pos < len - 1 then intsetMoveTail is (pos + 1) pos else is);
            is = intsetResize is (len - 1)
        in (is\<lparr>is_length := len - 1\<rparr>, True)
      else (is, False))"

section \<open>Queries\<close>

definition intsetFind :: "intset \<Rightarrow> int \<Rightarrow> bool" where
  "intsetFind is value \<longleftrightarrow> intsetValueEncoding value \<le> is_encoding is \<and> fst (intsetSearch is value)"

text \<open>\<open>intsetRandom\<close> takes the value of \<open>rand()\<close> as an argument; its assertion is the \<open>None\<close>.\<close>

definition intsetRandom :: "nat \<Rightarrow> intset \<Rightarrow> int option" where
  "intsetRandom rnd is =
     (let len = is_length is in if len = 0 then None else Some (intsetGetAt is (rnd mod len)))"

definition intsetMax :: "intset \<Rightarrow> int" where
  "intsetMax is = intsetGetAt is (is_length is - 1)"

definition intsetMin :: "intset \<Rightarrow> int" where
  "intsetMin is = intsetGetAt is 0"

definition intsetGet :: "intset \<Rightarrow> nat \<Rightarrow> int option" where
  "intsetGet is pos = (if pos < is_length is then Some (intsetGetAt is pos) else None)"

definition intsetLen :: "intset \<Rightarrow> nat" where
  "intsetLen is = is_length is"

definition intsetBlobLen :: "intset \<Rightarrow> nat" where
  "intsetBlobLen is = 8 + is_length is * is_encoding is"

section \<open>Integrity of a serialized set\<close>

text \<open>The header of a blob is two little-endian 32 bit integers.\<close>

definition intset_of_blob :: "bytes \<Rightarrow> intset" where
  "intset_of_blob p =
     \<lparr>is_encoding = nat_of_le (slice 0 4 p), is_length = nat_of_le (slice 4 4 p),
      is_contents = drop 8 p\<rparr>"

fun ordered_from :: "intset \<Rightarrow> nat \<Rightarrow> nat \<Rightarrow> int \<Rightarrow> bool" where
  "ordered_from is i 0 prev = True"
| "ordered_from is i (Suc n) prev =
     (let cur = intsetGetAt is i in
      if cur \<le> prev then False else ordered_from is (Suc i) n cur)"

definition intsetValidateIntegrity :: "bytes \<Rightarrow> nat \<Rightarrow> bool \<Rightarrow> bool" where
  "intsetValidateIntegrity p blob_size deep =
     (if blob_size < 8 then False
      else let is = intset_of_blob p; encoding = is_encoding is in
        if encoding \<noteq> INTSET_ENC_INT64 \<and> encoding \<noteq> INTSET_ENC_INT32
           \<and> encoding \<noteq> INTSET_ENC_INT16 then False
        else let record_size = encoding; count = is_length is in
          if 8 + count * record_size \<noteq> blob_size then False
          else if count = 0 then False
          else if \<not> deep then True
          else ordered_from is 1 (count - 1) (intsetGetAt is 0))"

section \<open>Reading back what was written\<close>

definition enc_ok :: "nat \<Rightarrow> bool" where
  "enc_ok e \<longleftrightarrow> e = 2 \<or> e = 4 \<or> e = 8"

lemma enc_ok_valueEncoding [simp]: "enc_ok (intsetValueEncoding v)"
  by (simp add: enc_ok_def intsetValueEncoding_def enc_defs)

lemma valueEncoding_le_iff: "enc_ok e \<Longrightarrow> intsetValueEncoding v \<le> e \<longleftrightarrow> fits e v \<or> e = 8"
  by (auto simp: enc_ok_def intsetValueEncoding_def enc_defs fits_def)

lemma fits_valueEncoding: "fits 8 v \<Longrightarrow> fits (intsetValueEncoding v) v"
  by (auto simp: intsetValueEncoding_def enc_defs fits_def)

lemma getEncoded_eq:
  "enc_ok enc \<Longrightarrow> intsetGetEncoded s pos enc = int_of_le (slice (pos * enc) enc (is_contents s))"
  by (auto simp: enc_ok_def intsetGetEncoded_def enc_defs)

lemma setAt_eq:
  "enc_ok (is_encoding s) \<Longrightarrow> intsetSetAt s pos v =
     s\<lparr>is_contents := blit (pos * is_encoding s) (le_of_int (is_encoding s) v) (is_contents s)\<rparr>"
  by (auto simp: enc_ok_def intsetSetAt_def enc_defs)

lemma moveTail_eq:
  "enc_ok (is_encoding s) \<Longrightarrow> intsetMoveTail s from to =
     s\<lparr>is_contents := memmove_in (is_contents s) (to * is_encoding s) (from * is_encoding s)
          (((is_length s - from) * is_encoding s) mod 2 ^ 32)\<rparr>"
  by (auto simp: enc_ok_def intsetMoveTail_def enc_defs)

lemma enc_ok_pos: "enc_ok e \<Longrightarrow> 0 < e"
  by (auto simp: enc_ok_def)

lemma slot_end: "i < n \<Longrightarrow> i * e + e \<le> n * (e::nat)"
  by (metis Suc_leI add.commute mult_Suc mult_le_mono1)

lemma getAt_setAt_same:
  assumes "enc_ok (is_encoding s)" "fits (is_encoding s) v" "pos < n"
    "n * is_encoding s \<le> length (is_contents s)"
  shows "intsetGetEncoded (intsetSetAt s pos v) pos (is_encoding s) = v"
proof -
  have "pos * is_encoding s + is_encoding s \<le> length (is_contents s)"
    using slot_end [OF assms(3), of "is_encoding s"] assms(4) by linarith
  then show ?thesis
    using assms enc_ok_pos [OF assms(1)] by (simp add: getEncoded_eq setAt_eq)
qed

lemma slice_setAt_other:
  assumes "enc_ok (is_encoding s)" "off + k \<le> pos * is_encoding s \<or> (pos + 1) * is_encoding s \<le> off"
    "pos < n" "n * is_encoding s \<le> length (is_contents s)"
  shows "slice off k (is_contents (intsetSetAt s pos v)) = slice off k (is_contents s)"
proof -
  have "pos * is_encoding s + is_encoding s \<le> length (is_contents s)"
    using slot_end [OF assms(3), of "is_encoding s"] assms(4) by linarith
  with assms(1,2) show ?thesis
    by (auto simp: setAt_eq)
qed

lemma getAt_setAt_other:
  assumes "enc_ok (is_encoding s)" "i \<noteq> pos" "pos < n"
    "n * is_encoding s \<le> length (is_contents s)"
  shows "intsetGetEncoded (intsetSetAt s pos v) i (is_encoding s)
       = intsetGetEncoded s i (is_encoding s)"
proof -
  have "i * is_encoding s + is_encoding s \<le> pos * is_encoding s
     \<or> (pos + 1) * is_encoding s \<le> i * is_encoding s"
    using slot_end [of i pos "is_encoding s"] slot_end [of pos i "is_encoding s"] assms(2)
    by (cases "i < pos") auto
  then show ?thesis
    using assms by (simp add: getEncoded_eq slice_setAt_other)
qed

lemma setAt_fields [simp]:
  "is_encoding (intsetSetAt s pos v) = is_encoding s"
  "is_length (intsetSetAt s pos v) = is_length s"
  by (simp_all add: intsetSetAt_def Let_def)

lemma length_setAt [simp]:
  assumes "enc_ok (is_encoding s)" "pos < n" "n * is_encoding s \<le> length (is_contents s)"
  shows "length (is_contents (intsetSetAt s pos v)) = length (is_contents s)"
proof -
  have "pos * is_encoding s + is_encoding s \<le> length (is_contents s)"
    using slot_end [OF assms(2), of "is_encoding s"] assms(3) by linarith
  with assms(1) show ?thesis by (simp add: setAt_eq)
qed

section \<open>The invariant and the abstract set\<close>

definition intset_vals :: "intset \<Rightarrow> int list" where
  "intset_vals s = map (intsetGetAt s) [0..<is_length s]"

definition intset_elems :: "intset \<Rightarrow> int set" where
  "intset_elems s = set (intset_vals s)"

text \<open>The array has the size the header says, its byte count fits the \<open>uint32_t\<close> in which
  \<open>intsetMoveTail\<close> computes it, and the entries are strictly increasing.\<close>

definition intset_inv :: "intset \<Rightarrow> bool" where
  "intset_inv s \<longleftrightarrow> enc_ok (is_encoding s)
     \<and> length (is_contents s) = is_length s * is_encoding s
     \<and> is_length s * is_encoding s < 2 ^ 32
     \<and> sorted_wrt (<) (intset_vals s)"

lemma length_intset_vals [simp]: "length (intset_vals s) = is_length s"
  by (simp add: intset_vals_def)

lemma nth_intset_vals [simp]: "i < is_length s \<Longrightarrow> intset_vals s ! i = intsetGetAt s i"
  by (simp add: intset_vals_def)

lemma intset_elems_iff: "v \<in> intset_elems s \<longleftrightarrow> (\<exists>i < is_length s. intsetGetAt s i = v)"
  by (auto simp: intset_elems_def intset_vals_def)

lemma intset_inv_less:
  "intset_inv s \<Longrightarrow> i < j \<Longrightarrow> j < is_length s \<Longrightarrow> intsetGetAt s i < intsetGetAt s j"
  by (metis intset_inv_def length_intset_vals nth_intset_vals order_less_trans sorted_wrt_nth_less)

lemma intset_inv_less_iff:
  "intset_inv s \<Longrightarrow> i < is_length s \<Longrightarrow> j < is_length s \<Longrightarrow>
     intsetGetAt s i < intsetGetAt s j \<longleftrightarrow> i < j"
  by (metis intset_inv_less linorder_neqE_nat order_less_asym)

lemma getAt_fits:
  assumes "enc_ok (is_encoding s)" "i < n" "n * is_encoding s \<le> length (is_contents s)"
  shows "fits (is_encoding s) (intsetGetAt s i)"
proof -
  have "i * is_encoding s + is_encoding s \<le> length (is_contents s)"
    using slot_end [OF assms(2), of "is_encoding s"] assms(3) by linarith
  moreover from this have "slice (i * is_encoding s) (is_encoding s) (is_contents s) \<noteq> []"
    using enc_ok_pos [OF assms(1)] by (auto simp flip: length_greater_0_conv)
  ultimately show ?thesis
    using fits_int_of_le [of "slice (i * is_encoding s) (is_encoding s) (is_contents s)"] assms(1)
    by (simp add: intsetGetAt_def getEncoded_eq)
qed

lemma intset_inv_fits: "intset_inv s \<Longrightarrow> i < is_length s \<Longrightarrow> fits (is_encoding s) (intsetGetAt s i)"
  by (rule getAt_fits) (auto simp: intset_inv_def)

section \<open>Search\<close>

text \<open>For positions a C \<open>int\<close> can hold, the unsigned addition in the search does not wrap.\<close>

lemma search_mid_no_wrap:
  fixes lo hi :: int
  assumes "0 \<le> lo" "lo \<le> hi" "hi < 2 ^ 31"
  shows "(lo + hi) mod 2 ^ 32 div 2 = (lo + hi) div 2"
  using assms by simp

definition sep_at :: "intset \<Rightarrow> int \<Rightarrow> nat \<Rightarrow> bool" where
  "sep_at s v pos \<longleftrightarrow> pos \<le> is_length s
     \<and> (\<forall>i < pos. intsetGetAt s i < v)
     \<and> (\<forall>i. pos \<le> i \<longrightarrow> i < is_length s \<longrightarrow> v < intsetGetAt s i)"

lemma search_loop_correct:
  assumes "intset_inv s" "0 \<le> lo" "hi < int (is_length s)" "lo \<le> hi + 1"
    and "\<And>i. int i < lo \<Longrightarrow> intsetGetAt s i < v"
    and "\<And>i. hi < int i \<Longrightarrow> i < is_length s \<Longrightarrow> v < intsetGetAt s i"
    and "cur = v \<Longrightarrow> lo \<le> hi"
    and "intsetSearch_loop s v lo hi mid cur = (lo', mid', cur')"
  shows "if v = cur' then 0 \<le> mid' \<and> mid' < int (is_length s) \<and> intsetGetAt s (nat mid') = v
         else 0 \<le> lo' \<and> sep_at s v (nat lo')"
  using assms
proof (induction s v lo hi mid cur rule: intsetSearch_loop.induct)
  case (1 s v lo hi mid cur)
  let ?m = "(lo + hi) div 2"
  let ?c = "intsetGetAt s (nat ?m)"
  show ?case
  proof (cases "lo \<le> hi")
    case False
    then have "lo = hi + 1" using "1.prems"(4) by simp
    moreover have "lo' = lo" "cur' = cur"
      using "1.prems"(8) False by (auto simp: intsetSearch_loop.simps [of s])
    moreover have "v \<noteq> cur" using "1.prems"(7) False by auto
    ultimately show ?thesis
      using "1.prems"(2,3,5,6) by (auto simp: sep_at_def)
  next
    case True
    have m: "lo \<le> ?m" "?m \<le> hi" using True by auto
    have mn: "nat ?m < is_length s" "0 \<le> ?m" using m "1.prems"(2,3) by auto
    note loop = "1.prems"(8) [unfolded intsetSearch_loop.simps [of s v lo hi] Let_def]
    consider "v > ?c" | "v < ?c" | "v = ?c" by linarith
    then show ?thesis
    proof cases
      case 1
      have below: "intsetGetAt s i < v" if "int i < ?m + 1" for i
      proof (cases "i = nat ?m")
        case False
        with that mn have "i < nat ?m" by linarith
        with "1.prems"(1) mn 1 show ?thesis by (metis intset_inv_less order_less_trans)
      qed (use 1 in simp)
      show ?thesis
        using "1.IH"(1) [OF True refl refl 1 "1.prems"(1) _ "1.prems"(3) _ below "1.prems"(6)]
          loop True 1 m mn by auto
    next
      case 2
      have above: "v < intsetGetAt s i" if "?m - 1 < int i" "i < is_length s" for i
      proof (cases "i = nat ?m")
        case False
        with that mn have "nat ?m < i" by linarith
        with "1.prems"(1) that 2 show ?thesis by (metis intset_inv_less order_less_trans)
      qed (use 2 in simp)
      show ?thesis
        using "1.IH"(2) [OF True refl refl _ 2 "1.prems"(1,2) _ _ "1.prems"(5) above]
          loop True 2 m mn by auto
    next
      case 3
      then show ?thesis using loop True mn by auto
    qed
  qed
qed

lemma intsetSearch_correct:
  assumes inv: "intset_inv s" and res: "intsetSearch s v = (found, pos)"
  shows "if found then pos < is_length s \<and> intsetGetAt s pos = v else sep_at s v pos"
proof -
  let ?n = "is_length s"
  consider "?n = 0" | "0 < ?n" "v > intsetGetAt s (?n - 1)"
    | "0 < ?n" "v < intsetGetAt s 0"
    | "0 < ?n" "intsetGetAt s 0 \<le> v" "v \<le> intsetGetAt s (?n - 1)" by linarith
  then show ?thesis
  proof cases
    case 1
    then show ?thesis using res by (auto simp: intsetSearch_def sep_at_def)
  next
    case 2
    have "intsetGetAt s i < v" if "i < ?n" for i
      using that 2 intset_inv_less [OF inv, of i "?n - 1"] by (cases "i = ?n - 1") force+
    then show ?thesis using res 2
      by (auto simp: intsetSearch_def sep_at_def nat_diff_distrib Let_def split: if_splits)
  next
    case 3
    have "v < intsetGetAt s i" if "i < ?n" for i
      using that 3 intset_inv_less [OF inv, of 0 i] by (cases "i = 0") auto
    moreover have "\<not> v > intsetGetAt s (?n - 1)"
      using calculation [of "?n - 1"] 3 by auto
    ultimately show ?thesis using res 3
      by (auto simp: intsetSearch_def sep_at_def nat_diff_distrib Let_def split: if_splits)
  next
    case 4
    obtain lo' mid' cur' where loop:
      "intsetSearch_loop s v 0 (int ?n - 1) (-1) (-1) = (lo', mid', cur')"
      by (metis prod_cases3)
    have "if v = cur' then 0 \<le> mid' \<and> mid' < int ?n \<and> intsetGetAt s (nat mid') = v
        else 0 \<le> lo' \<and> sep_at s v (nat lo')"
      by (rule search_loop_correct [OF inv _ _ _ _ _ _ loop]) (use 4 in auto)
    moreover have "nat (int ?n - 1) = ?n - 1" by simp
    ultimately show ?thesis using res 4 loop
      by (auto simp: intsetSearch_def Let_def split: if_splits)
  qed
qed

lemma intsetSearch_found:
  assumes "intset_inv s"
  shows "fst (intsetSearch s v) \<longleftrightarrow> v \<in> intset_elems s"
proof -
  obtain found pos where r: "intsetSearch s v = (found, pos)" by fastforce
  have "\<not> (\<exists>i < is_length s. intsetGetAt s i = v)" if "sep_at s v pos"
    using that by (metis linorder_not_less order_less_irrefl sep_at_def)
  then show ?thesis
    using intsetSearch_correct [OF assms r] r by (auto simp: intset_elems_iff split: if_splits)
qed

section \<open>Moving and resizing\<close>

lemma resize_fields [simp]:
  "is_encoding (intsetResize s n) = is_encoding s"
  "is_length (intsetResize s n) = is_length s"
  "length (is_contents (intsetResize s n)) = n * is_encoding s"
  by (simp_all add: intsetResize_def)

lemma getAt_resize:
  assumes "enc_ok (is_encoding s)" "i < n" "i < m" "m * is_encoding s \<le> length (is_contents s)"
  shows "intsetGetAt (intsetResize s n) i = intsetGetAt s i"
  using assms slot_end [OF assms(2), of "is_encoding s"] slot_end [OF assms(3), of "is_encoding s"]
  by (simp add: intsetGetAt_def getEncoded_eq) (simp add: intsetResize_def)

lemma moveTail_fields [simp]:
  "is_encoding (intsetMoveTail s from to) = is_encoding s"
  "is_length (intsetMoveTail s from to) = is_length s"
  by (simp_all add: intsetMoveTail_def Let_def)

lemma moveTail_spec:
  assumes enc: "enc_ok (is_encoding s)" and len: "length (is_contents s) = m * is_encoding s"
    and "from + k \<le> m" "to + k \<le> m" and k: "k = is_length s - from"
    and small: "k * is_encoding s < 2 ^ 32"
  shows "length (is_contents (intsetMoveTail s from to)) = length (is_contents s)"
    and "i < to \<Longrightarrow> intsetGetAt (intsetMoveTail s from to) i = intsetGetAt s i"
    and "to \<le> i \<Longrightarrow> i < to + k \<Longrightarrow> intsetGetAt (intsetMoveTail s from to) i = intsetGetAt s (i + from - to)"
proof -
  let ?e = "is_encoding s"
  have fit: "from * ?e + k * ?e \<le> length (is_contents s)" "to * ?e + k * ?e \<le> length (is_contents s)"
    using assms(3,4) len by (simp_all flip: add_mult_distrib)
  have eq: "intsetMoveTail s from to =
      s\<lparr>is_contents := memmove_in (is_contents s) (to * ?e) (from * ?e) (k * ?e)\<rparr>"
    using moveTail_eq [OF enc] small k by simp
  show "length (is_contents (intsetMoveTail s from to)) = length (is_contents s)"
    using fit by (simp add: eq)
  show "intsetGetAt (intsetMoveTail s from to) i = intsetGetAt s i" if "i < to"
    using that slot_end [OF that, of ?e] fit enc
    by (simp add: intsetGetAt_def getEncoded_eq eq slice_memmove_before)
  show "intsetGetAt (intsetMoveTail s from to) i = intsetGetAt s (i + from - to)"
    if "to \<le> i" "i < to + k"
  proof -
    have "i * ?e + ?e \<le> to * ?e + k * ?e"
      using slot_end [OF that(2), of ?e] by (simp add: add_mult_distrib)
    moreover have "i * ?e + from * ?e - to * ?e = (i + from - to) * ?e"
      by (simp add: add_mult_distrib diff_mult_distrib)
    ultimately show ?thesis
      using that(1) fit enc
      by (simp add: intsetGetAt_def getEncoded_eq eq slice_memmove_moved)
  qed
qed

lemma intset_vals_eqI:
  "is_length s = length xs \<Longrightarrow> (\<And>i. i < length xs \<Longrightarrow> intsetGetAt s i = xs ! i) \<Longrightarrow> intset_vals s = xs"
  by (rule nth_equalityI) auto

lemma strict_sorted_insert_at:
  assumes "intset_inv s" "sep_at s v pos"
  shows "sorted_wrt (<) (take pos (intset_vals s) @ v # drop pos (intset_vals s))"
proof -
  have "sorted_wrt (<) (take pos (intset_vals s) @ drop pos (intset_vals s))"
    using assms(1) by (simp add: intset_inv_def)
  moreover have "\<forall>x \<in> set (take pos (intset_vals s)). x < v"
    using assms(2) by (auto simp: sep_at_def in_set_conv_nth)
  moreover have "\<forall>x \<in> set (drop pos (intset_vals s)). v < x"
    using assms(2) by (auto simp: sep_at_def in_set_conv_nth)
  moreover from calculation have "\<forall>x \<in> set (take pos (intset_vals s)).
      \<forall>y \<in> set (drop pos (intset_vals s)). x < y"
    by (meson order_less_trans)
  ultimately show ?thesis by (auto simp: sorted_wrt_append)
qed

section \<open>Insertion without upgrade\<close>

text \<open>Room for one more entry: no byte count of the enlarged set wraps.\<close>

definition intset_room :: "intset \<Rightarrow> bool" where
  "intset_room s \<longleftrightarrow> is_length s + 1 < 2 ^ 29"

lemma room_bytes:
  assumes "intset_room s" "enc_ok e" "k \<le> is_length s + 1"
  shows "k * e < 2 ^ 32"
proof -
  have "k * e \<le> (is_length s + 1) * 8"
    using assms(2,3) by (intro mult_le_mono) (auto simp: enc_ok_def)
  also have "\<dots> < 2 ^ 32" using assms(1) by (simp add: intset_room_def)
  finally show ?thesis .
qed

definition insert_at :: "intset \<Rightarrow> nat \<Rightarrow> int \<Rightarrow> intset" where
  "insert_at s pos v =
     (let s = intsetResize s ((is_length s + 1) mod 2 ^ 32);
          s = (if pos < is_length s then intsetMoveTail s pos (pos + 1) else s);
          s = intsetSetAt s pos v
      in s\<lparr>is_length := (is_length s + 1) mod 2 ^ 32\<rparr>)"

lemma insert_at_spec:
  assumes inv: "intset_inv s" and room: "intset_room s" and "pos \<le> is_length s"
    and fit: "fits (is_encoding s) v"
  shows "intset_vals (insert_at s pos v) = take pos (intset_vals s) @ v # drop pos (intset_vals s)"
    and "is_encoding (insert_at s pos v) = is_encoding s"
    and "is_length (insert_at s pos v) = is_length s + 1"
    and "length (is_contents (insert_at s pos v)) = (is_length s + 1) * is_encoding s"
proof -
  let ?n = "is_length s" and ?e = "is_encoding s"
  define s1 where "s1 = intsetResize s (?n + 1)"
  define s2 where "s2 = (if pos < ?n then intsetMoveTail s1 pos (pos + 1) else s1)"
  have enc: "enc_ok ?e" using inv by (simp add: intset_inv_def)
  have wrap: "(?n + 1) mod 2 ^ 32 = ?n + 1" using room by (simp add: intset_room_def)
  have ins: "insert_at s pos v = (intsetSetAt s2 pos v)\<lparr>is_length := ?n + 1\<rparr>"
    using wrap by (simp add: insert_at_def s1_def s2_def Let_def)
  have s1: "is_encoding s1 = ?e" "is_length s1 = ?n" "length (is_contents s1) = (?n + 1) * ?e"
    by (simp_all add: s1_def)
  have g1: "intsetGetAt s1 i = intsetGetAt s i" if "i < ?n" for i
    unfolding s1_def by (rule getAt_resize [OF enc, of _ _ ?n]) (use that inv in \<open>auto simp: intset_inv_def\<close>)
  note mv = moveTail_spec [of s1 "?n + 1" pos "?n - pos" "pos + 1", unfolded s1, OF enc refl]
  have mvs: "(?n - pos) * ?e < 2 ^ 32" by (rule room_bytes [OF room enc]) simp
  have s2: "is_encoding s2 = ?e" "is_length s2 = ?n" "length (is_contents s2) = (?n + 1) * ?e"
    using mv(1) mvs s1 assms(3) by (auto simp: s2_def)
  have g2: "intsetGetAt s2 i = intsetGetAt s i" if "i < pos" for i
    using mv(2) [of i] mvs that assms(3) g1 by (auto simp: s2_def)
  have g3: "intsetGetAt s2 (Suc i) = intsetGetAt s i" if "pos \<le> i" "i < ?n" for i
    using mv(3) [of "Suc i"] mvs that assms(3) g1 by (auto simp: s2_def)
  have set_at: "intsetGetAt (insert_at s pos v) i = (if i = pos then v else intsetGetAt s2 i)"
    if "i < ?n + 1" for i
  proof -
    have "intsetGetAt (insert_at s pos v) i = intsetGetEncoded (intsetSetAt s2 pos v) i ?e"
      by (simp add: ins intsetGetAt_def intsetGetEncoded_def s2)
    also have "\<dots> = (if i = pos then v else intsetGetAt s2 i)"
      using getAt_setAt_same [of s2 v pos "?n + 1"] getAt_setAt_other [of s2 i pos "?n + 1" v]
        enc fit assms(3) by (simp add: s2 intsetGetAt_def)
    finally show ?thesis .
  qed
  show "is_encoding (insert_at s pos v) = ?e" "is_length (insert_at s pos v) = ?n + 1"
    by (simp_all add: ins s2)
  show "length (is_contents (insert_at s pos v)) = (?n + 1) * ?e"
    using enc assms(3) by (simp add: ins s2 length_setAt [where n = "?n + 1"])
  show "intset_vals (insert_at s pos v) = take pos (intset_vals s) @ v # drop pos (intset_vals s)"
  proof (rule intset_vals_eqI)
    fix i assume "i < length (take pos (intset_vals s) @ v # drop pos (intset_vals s))"
    then have i: "i < ?n + 1" using assms(3) by simp
    show "intsetGetAt (insert_at s pos v) i = (take pos (intset_vals s) @ v # drop pos (intset_vals s)) ! i"
      using i assms(3) set_at [OF i] g2 [of i] g3 [of "i - 1"]
      by (cases i) (auto simp: nth_append nth_Cons' split: if_splits)
  qed (use assms(3) in \<open>simp add: ins\<close>)
qed

section \<open>Insertion with upgrade\<close>

lemma upgrade_loop_fields [simp]:
  "is_encoding (upgrade_loop s c p n) = is_encoding s"
  "is_length (upgrade_loop s c p n) = is_length s"
  by (induction n arbitrary: s) auto

text \<open>Copying back to front never overwrites an entry that is still to be read: entry \<open>i\<close> ends
  at byte \<open>(i + 1) * curenc\<close>, before the wider entry \<open>n + prepend\<close> starts.\<close>

lemma upgrade_loop_spec:
  assumes "enc_ok (is_encoding s)" "enc_ok c" "c \<le> is_encoding s" "n + p \<le> m"
    "m * is_encoding s \<le> length (is_contents s)"
  shows "length (is_contents (upgrade_loop s c p n)) = length (is_contents s)
    \<and> (\<forall>i < n. intsetGetAt (upgrade_loop s c p n) (i + p) = intsetGetEncoded s i c)
    \<and> (\<forall>j. n + p \<le> j \<longrightarrow> j < m \<longrightarrow> intsetGetAt (upgrade_loop s c p n) j = intsetGetAt s j)"
  using assms
proof (induction n arbitrary: s)
  case (Suc n)
  let ?e = "is_encoding s"
  let ?v = "intsetGetEncoded s n c"
  define s1 where "s1 = intsetSetAt s (n + p) ?v"
  have np: "n + p < m" using Suc.prems(4) by simp
  have len: "length (is_contents s1) = length (is_contents s)" and enc1: "is_encoding s1 = ?e"
    using Suc.prems(1,5) np by (simp_all add: s1_def)
  have IH: "length (is_contents (upgrade_loop s1 c p n)) = length (is_contents s1)
    \<and> (\<forall>i < n. intsetGetAt (upgrade_loop s1 c p n) (i + p) = intsetGetEncoded s1 i c)
    \<and> (\<forall>j. n + p \<le> j \<longrightarrow> j < m \<longrightarrow> intsetGetAt (upgrade_loop s1 c p n) j = intsetGetAt s1 j)"
    by (rule Suc.IH) (use Suc.prems len enc1 in auto)
  have within: "(n + 1) * c \<le> length (is_contents s)"
  proof -
    have "(n + 1) * c \<le> m * ?e" using np Suc.prems(3) by (intro mult_le_mono) auto
    with Suc.prems(5) show ?thesis by simp
  qed
  have "fits c ?v"
  proof -
    let ?b = "slice (n * c) c (is_contents s)"
    have "length ?b = c" using within by simp
    moreover from this have "?b \<noteq> []"
      using enc_ok_pos [OF Suc.prems(2)] by (metis less_irrefl list.size(3))
    ultimately show ?thesis
      using fits_int_of_le [of ?b] Suc.prems(2) by (simp add: getEncoded_eq)
  qed
  then have v: "fits ?e ?v" using Suc.prems(3) by (rule fits_mono)
  have unread: "intsetGetEncoded s1 i c = intsetGetEncoded s i c" if "i < n" for i
  proof -
    have "i * c + c \<le> (n + p) * ?e"
      using slot_end [OF that, of c] mult_le_mono [of n "n + p" c ?e] Suc.prems(3) by linarith
    with Suc.prems(1,2,5) np show ?thesis
      by (simp add: getEncoded_eq s1_def slice_setAt_other)
  qed
  have written: "intsetGetAt s1 (n + p) = ?v"
    using getAt_setAt_same [of s ?v "n + p" m] Suc.prems(1,5) v np by (simp add: s1_def intsetGetAt_def)
  have other: "intsetGetAt s1 j = intsetGetAt s j" if "j \<noteq> n + p" for j
    using getAt_setAt_other [of s j "n + p" m] Suc.prems(1,5) np that by (simp add: s1_def intsetGetAt_def)
  have "upgrade_loop s c p (Suc n) = upgrade_loop s1 c p n" by (simp add: s1_def)
  then show ?case
    using IH len unread written other np by (auto simp: less_Suc_eq)
qed simp

lemma upgrade_bounds:
  assumes inv: "intset_inv s" and up: "is_encoding s < intsetValueEncoding v"
  shows "v < 0 \<Longrightarrow> sep_at s v 0" and "0 \<le> v \<Longrightarrow> sep_at s v (is_length s)"
proof -
  have big: "\<not> fits (is_encoding s) v"
    using up valueEncoding_le_iff [of "is_encoding s" v] inv by (auto simp: intset_inv_def)
  have "v < intsetGetAt s i" if "v < 0" "i < is_length s" for i
    using intset_inv_fits [OF inv that(2)] big that(1)
    unfolding fits_def by (smt (verit) zero_le_power)
  moreover have "intsetGetAt s i < v" if "0 \<le> v" "i < is_length s" for i
    using intset_inv_fits [OF inv that(2)] big that(1)
    unfolding fits_def by (smt (verit) zero_le_power)
  ultimately show "v < 0 \<Longrightarrow> sep_at s v 0" and "0 \<le> v \<Longrightarrow> sep_at s v (is_length s)"
    by (auto simp: sep_at_def)
qed

lemma upgrade_spec:
  assumes inv: "intset_inv s" and room: "intset_room s"
    and up: "is_encoding s < intsetValueEncoding v" and fit: "fits 8 v"
  defines "pos \<equiv> (if v < 0 then 0 else is_length s)"
  defines "u \<equiv> intsetUpgradeAndAdd s v"
  shows "intset_vals u = take pos (intset_vals s) @ v # drop pos (intset_vals s)"
    and "is_encoding u = intsetValueEncoding v"
    and "is_length u = is_length s + 1"
    and "length (is_contents u) = (is_length s + 1) * intsetValueEncoding v"
proof -
  let ?n = "is_length s" and ?c = "is_encoding s" and ?e = "intsetValueEncoding v"
  let ?p = "if v < 0 then 1 else 0 :: nat"
  define s1 where "s1 = intsetResize (s\<lparr>is_encoding := ?e\<rparr>) (?n + 1)"
  define s2 where "s2 = upgrade_loop s1 ?c ?p ?n"
  have cenc: "enc_ok ?c" and clen: "length (is_contents s) = ?n * ?c"
    using inv by (auto simp: intset_inv_def)
  have wrap: "(?n + 1) mod 2 ^ 32 = ?n + 1" using room by (simp add: intset_room_def)
  have u: "u = (intsetSetAt s2 pos v)\<lparr>is_length := ?n + 1\<rparr>"
    using wrap by (simp add: u_def intsetUpgradeAndAdd_def s1_def s2_def pos_def Let_def)
  have s1: "is_encoding s1 = ?e" "is_length s1 = ?n" "length (is_contents s1) = (?n + 1) * ?e"
    by (simp_all add: s1_def)
  have old: "intsetGetEncoded s1 i ?c = intsetGetAt s i" if "i < ?n" for i
  proof -
    have "i * ?c + ?c \<le> ?n * ?c" by (rule slot_end [OF that])
    moreover have "?n * ?c \<le> (?n + 1) * ?e" using up by (intro mult_le_mono) auto
    ultimately show ?thesis
      using cenc clen by (simp add: getEncoded_eq intsetGetAt_def s1_def intsetResize_def)
  qed
  have loop: "length (is_contents s2) = length (is_contents s1)
    \<and> (\<forall>i < ?n. intsetGetAt s2 (i + ?p) = intsetGetEncoded s1 i ?c)"
    using upgrade_loop_spec [of s1 ?c ?n ?p "?n + 1"] s1 cenc up by (auto simp: s2_def)
  have s2: "is_encoding s2 = ?e" "is_length s2 = ?n" "length (is_contents s2) = (?n + 1) * ?e"
    using s1 loop by (auto simp: s2_def)
  have pos: "pos < ?n + 1" by (simp add: pos_def)
  have set_at: "intsetGetAt u i = (if i = pos then v else intsetGetAt s2 i)" if "i < ?n + 1" for i
  proof -
    have "intsetGetAt u i = intsetGetEncoded (intsetSetAt s2 pos v) i ?e"
      by (simp add: u intsetGetAt_def intsetGetEncoded_def s2)
    also have "\<dots> = (if i = pos then v else intsetGetAt s2 i)"
      using getAt_setAt_same [of s2 v pos "?n + 1"] getAt_setAt_other [of s2 i pos "?n + 1" v]
        fits_valueEncoding [OF fit] pos by (simp add: s2 intsetGetAt_def)
    finally show ?thesis .
  qed
  have copied: "intsetGetAt s2 (i + ?p) = intsetGetAt s i" if "i < ?n" for i
    using loop old that by auto
  show "is_encoding u = ?e" "is_length u = ?n + 1" by (simp_all add: u s2)
  show "length (is_contents u) = (?n + 1) * ?e"
    using pos by (simp add: u s2 length_setAt [where n = "?n + 1"])
  show "intset_vals u = take pos (intset_vals s) @ v # drop pos (intset_vals s)"
  proof (rule intset_vals_eqI)
    fix i assume "i < length (take pos (intset_vals s) @ v # drop pos (intset_vals s))"
    then have i: "i < ?n + 1" using pos by simp
    show "intsetGetAt u i = (take pos (intset_vals s) @ v # drop pos (intset_vals s)) ! i"
      using i set_at [OF i] copied [of i] copied [of "i - 1"]
      by (cases i) (auto simp: pos_def nth_append nth_Cons' split: if_splits)
  qed (simp add: u pos_def)
qed

section \<open>Addition\<close>

lemma intsetAdd_cases:
  "intsetAdd s v =
     (if intsetValueEncoding v > is_encoding s then (intsetUpgradeAndAdd s v, True)
      else if fst (intsetSearch s v) then (s, False)
      else (insert_at s (snd (intsetSearch s v)) v, True))"
  by (auto simp: intsetAdd_def insert_at_def Let_def split: prod.split)

lemma elems_insert_pos:
  "intset_vals u = take p (intset_vals s) @ v # drop p (intset_vals s) \<Longrightarrow>
     intset_elems u = insert v (intset_elems s)"
proof -
  assume "intset_vals u = take p (intset_vals s) @ v # drop p (intset_vals s)"
  moreover have "set (take p (intset_vals s)) \<union> set (drop p (intset_vals s)) = set (intset_vals s)"
    by (metis append_take_drop_id set_append)
  ultimately show ?thesis by (auto simp: intset_elems_def)
qed

lemma inserted_ok:
  assumes "intset_inv s" "intset_room s" "sep_at s v pos"
    and "intset_vals u = take pos (intset_vals s) @ v # drop pos (intset_vals s)"
    and "enc_ok (is_encoding u)" "is_length u = is_length s + 1"
    and "length (is_contents u) = (is_length s + 1) * is_encoding u"
  shows "intset_inv u \<and> intset_elems u = insert v (intset_elems s)"
  using assms strict_sorted_insert_at [OF assms(1,3)] room_bytes [OF assms(2,5), of "is_length u"]
    elems_insert_pos [OF assms(4)]
  by (simp add: intset_inv_def)

lemma intsetAdd_ok:
  assumes inv: "intset_inv s" and room: "intset_room s" and fit: "fits 8 v"
    and res: "intsetAdd s v = (s', b)"
  shows "intset_inv s' \<and> intset_elems s' = insert v (intset_elems s) \<and> (b \<longleftrightarrow> v \<notin> intset_elems s)"
proof (cases "is_encoding s < intsetValueEncoding v")
  case True
  define pos where "pos = (if v < 0 then 0 else is_length s)"
  have sep: "sep_at s v pos"
    using upgrade_bounds [OF inv True] by (auto simp: pos_def)
  then have "v \<notin> intset_elems s"
    by (metis intset_elems_iff leI less_irrefl sep_at_def)
  moreover have "intset_inv (intsetUpgradeAndAdd s v)
      \<and> intset_elems (intsetUpgradeAndAdd s v) = insert v (intset_elems s)"
    using upgrade_spec [OF inv room True fit] sep
    by (intro inserted_ok [OF inv room sep]) (simp_all add: pos_def)
  ultimately show ?thesis using res True by (auto simp: intsetAdd_cases)
next
  case False
  have fit': "fits (is_encoding s) v"
    using False valueEncoding_le_iff [of "is_encoding s" v] inv fit by (auto simp: intset_inv_def)
  obtain found pos where r: "intsetSearch s v = (found, pos)" by fastforce
  show ?thesis
  proof (cases found)
    case True
    then have "v \<in> intset_elems s" using intsetSearch_found [OF inv, of v] r by simp
    with True False res r inv show ?thesis by (auto simp: intsetAdd_cases)
  next
    case nf: False
    then have sep: "sep_at s v pos" using intsetSearch_correct [OF inv r] by simp
    then have "pos \<le> is_length s" by (simp add: sep_at_def)
    note ins = insert_at_spec [OF inv room this fit']
    have "intset_inv (insert_at s pos v) \<and> intset_elems (insert_at s pos v) = insert v (intset_elems s)"
      using ins inv by (intro inserted_ok [OF inv room sep]) (simp_all add: intset_inv_def)
    moreover have "v \<notin> intset_elems s" using intsetSearch_found [OF inv, of v] r nf by simp
    ultimately show ?thesis using False nf res r by (auto simp: intsetAdd_cases)
  qed
qed

section \<open>Removal\<close>

lemma intsetRemove_at:
  assumes inv: "intset_inv s" and pos: "pos < is_length s"
  defines "u \<equiv> intsetResize (if pos < is_length s - 1 then intsetMoveTail s (pos + 1) pos else s)
      (is_length s - 1)\<lparr>is_length := is_length s - 1\<rparr>"
  shows "intset_inv u \<and> intset_vals u = take pos (intset_vals s) @ drop (pos + 1) (intset_vals s)"
proof -
  let ?n = "is_length s" and ?e = "is_encoding s"
  define s1 where "s1 = (if pos < ?n - 1 then intsetMoveTail s (pos + 1) pos else s)"
  have enc: "enc_ok ?e" and len: "length (is_contents s) = ?n * ?e" and lt: "?n * ?e < 2 ^ 32"
    using inv by (auto simp: intset_inv_def)
  have small: "(?n - (pos + 1)) * ?e < 2 ^ 32"
    using lt by (metis diff_le_self le_less_trans mult_le_mono1)
  note mv = moveTail_spec [of s ?n "pos + 1" "?n - (pos + 1)" pos, OF enc len]
  have s1: "is_encoding s1 = ?e" "is_length s1 = ?n" "length (is_contents s1) = ?n * ?e"
    using mv(1) small pos len by (auto simp: s1_def)
  have before: "intsetGetAt s1 i = intsetGetAt s i" if "i < pos" for i
    using mv(2) [of i] small pos that by (auto simp: s1_def)
  have after: "intsetGetAt s1 i = intsetGetAt s (Suc i)" if "pos \<le> i" "i < ?n - 1" for i
    using mv(3) [of i] small pos that by (auto simp: s1_def)
  have u: "u = intsetResize s1 (?n - 1)\<lparr>is_length := ?n - 1\<rparr>" by (simp add: u_def s1_def)
  have get: "intsetGetAt u i = intsetGetAt s1 i" if "i < ?n - 1" for i
  proof -
    have "intsetGetAt u i = intsetGetAt (intsetResize s1 (?n - 1)) i"
      by (simp add: u intsetGetAt_def intsetGetEncoded_def)
    also have "\<dots> = intsetGetAt s1 i"
      by (rule getAt_resize [where m = ?n]) (use that s1 enc in auto)
    finally show ?thesis .
  qed
  have vals: "intset_vals u = take pos (intset_vals s) @ drop (pos + 1) (intset_vals s)"
  proof (rule intset_vals_eqI)
    fix i assume "i < length (take pos (intset_vals s) @ drop (pos + 1) (intset_vals s))"
    then have i: "i < ?n - 1" using pos by simp
    then show "intsetGetAt u i = (take pos (intset_vals s) @ drop (pos + 1) (intset_vals s)) ! i"
      using get before after pos by (auto simp: nth_append)
  qed (use pos in \<open>simp add: u\<close>)
  have "sorted_wrt (<) (take pos (intset_vals s) @ drop pos (intset_vals s))"
    using inv by (simp add: intset_inv_def)
  then have "sorted_wrt (<) (take pos (intset_vals s) @ drop (pos + 1) (intset_vals s))"
    using pos by (simp add: Cons_nth_drop_Suc [symmetric] sorted_wrt_append)
  moreover have "(?n - 1) * ?e < 2 ^ 32"
    using lt by (metis diff_le_self le_less_trans mult_le_mono1)
  ultimately show ?thesis using vals enc s1 by (simp add: intset_inv_def u)
qed

lemma intset_inv_distinct: "intset_inv s \<Longrightarrow> distinct (intset_vals s)"
  using strict_sorted_iff by (auto simp: intset_inv_def)

lemma elems_remove_pos:
  assumes "intset_inv s" "pos < is_length s"
    and "intset_vals u = take pos (intset_vals s) @ drop (pos + 1) (intset_vals s)"
  shows "intset_elems u = intset_elems s - {intsetGetAt s pos}"
proof -
  have "intset_vals s = take pos (intset_vals s) @ intsetGetAt s pos # drop (pos + 1) (intset_vals s)"
    using id_take_nth_drop [of pos "intset_vals s"] assms(2) by simp
  then have "distinct (take pos (intset_vals s) @ intsetGetAt s pos # drop (pos + 1) (intset_vals s))"
    and "intset_elems s = set (take pos (intset_vals s) @ intsetGetAt s pos # drop (pos + 1) (intset_vals s))"
    using intset_inv_distinct [OF assms(1)] by (simp_all add: intset_elems_def)
  then show ?thesis unfolding intset_elems_def assms(3) by auto
qed

lemma large_not_elem: "intset_inv s \<Longrightarrow> fits 8 v \<Longrightarrow> \<not> intsetValueEncoding v \<le> is_encoding s \<Longrightarrow> v \<notin> intset_elems s"
  using intset_inv_fits valueEncoding_le_iff
  by (auto simp: intset_elems_iff intset_inv_def)

lemma intsetRemove_ok:
  assumes inv: "intset_inv s" and fit: "fits 8 v" and res: "intsetRemove s v = (s', b)"
  shows "intset_inv s' \<and> intset_elems s' = intset_elems s - {v} \<and> (b \<longleftrightarrow> v \<in> intset_elems s)"
proof (cases "intsetValueEncoding v \<le> is_encoding s \<and> fst (intsetSearch s v)")
  case False
  then have "v \<notin> intset_elems s"
    using intsetSearch_found [OF inv, of v] large_not_elem [OF inv fit] by auto
  with False res inv show ?thesis by (auto simp: intsetRemove_def)
next
  case True
  obtain pos where r: "intsetSearch s v = (True, pos)" using True by (metis prod.collapse)
  then have pos: "pos < is_length s" "intsetGetAt s pos = v"
    using intsetSearch_correct [OF inv r] by auto
  have "s' = intsetResize (if pos < is_length s - 1 then intsetMoveTail s (pos + 1) pos else s)
      (is_length s - 1)\<lparr>is_length := is_length s - 1\<rparr>" and "b"
    using res True r by (auto simp: intsetRemove_def Let_def)
  moreover have "v \<in> intset_elems s" using intsetSearch_found [OF inv, of v] True by simp
  ultimately show ?thesis
    using intsetRemove_at [OF inv pos(1)] elems_remove_pos [OF inv pos(1)] pos(2) by simp
qed

lemma intsetFind_iff: "intset_inv s \<Longrightarrow> fits 8 v \<Longrightarrow> intsetFind s v \<longleftrightarrow> v \<in> intset_elems s"
  using intsetSearch_found large_not_elem by (auto simp: intsetFind_def)

lemma intsetNew_ok: "intset_inv intsetNew" "intset_elems intsetNew = {}"
  by (simp_all add: intset_inv_def intsetNew_def enc_ok_def enc_defs intset_vals_def intset_elems_def)

lemma card_elems: "intset_inv s \<Longrightarrow> card (intset_elems s) = is_length s"
  using intset_inv_distinct distinct_card by (fastforce simp: intset_elems_def)

interpretation ints: int_set intsetNew intsetAdd intsetRemove intsetFind intset_elems intset_inv
    "fits 8" "2 ^ 29"
proof unfold_locales
  show "intset_inv intsetNew" "intset_elems intsetNew = {}" by (rule intsetNew_ok)+
  show "\<And>s v. intset_inv s \<Longrightarrow> fits 8 v \<Longrightarrow> intsetFind s v = (v \<in> intset_elems s)"
    by (rule intsetFind_iff)
  show "\<And>s v s' b. intset_inv s \<Longrightarrow> fits 8 v \<Longrightarrow> card (intset_elems s) + 1 < 2 ^ 29 \<Longrightarrow>
      intsetAdd s v = (s', b) \<Longrightarrow>
      intset_inv s' \<and> intset_elems s' = insert v (intset_elems s) \<and> b = (v \<notin> intset_elems s)"
    by (rule intsetAdd_ok) (auto simp: intset_room_def card_elems)
  show "\<And>s v s' b. intset_inv s \<Longrightarrow> fits 8 v \<Longrightarrow> intsetRemove s v = (s', b) \<Longrightarrow>
      intset_inv s' \<and> intset_elems s' = intset_elems s - {v} \<and> b = (v \<in> intset_elems s)"
    by (rule intsetRemove_ok)
qed (auto simp: intset_elems_def)

section \<open>Properties\<close>

text \<open>C3. \<open>intsetAdd\<close>, with or without an encoding upgrade, keeps the representation invariant
  (entry width, buffer size, strictly increasing entries), adds exactly the given value, and
  reports success exactly when the value was not yet a member, for every 64 bit value and every
  set with room for one more entry.\<close>

theorem intset_add_correct:
  assumes "intset_inv s" "intset_room s" "fits 8 v"
  shows "intset_inv (fst (intsetAdd s v))
    \<and> intset_elems (fst (intsetAdd s v)) = insert v (intset_elems s)
    \<and> (snd (intsetAdd s v) \<longleftrightarrow> v \<notin> intset_elems s)
    \<and> (\<forall>w. fits 8 w \<longrightarrow> intsetFind (fst (intsetAdd s v)) w = (w = v \<or> intsetFind s w))"
  using ints.add_ok [of s v "fst (intsetAdd s v)" "snd (intsetAdd s v)"] ints.add_then_member [of s v]
    assms by (auto simp: intset_room_def card_elems)

theorem intset_add_correct_witness:
  "intset_inv intsetNew \<and> intset_room intsetNew \<and> fits 8 (-70000)
   \<and> intset_elems (fst (intsetAdd intsetNew (-70000))) = {-70000}"
  using intset_add_correct [of intsetNew "-70000"]
  by (simp add: intsetNew_ok intset_room_def intsetNew_def fits_def
      intsetNew_ok [unfolded intsetNew_def])

text \<open>C25. \<open>intsetRemove\<close> keeps the invariant, removes exactly the given value, and reports success
  exactly when it was a member.\<close>

theorem intset_remove_correct:
  assumes "intset_inv s" "fits 8 v"
  shows "intset_inv (fst (intsetRemove s v))
    \<and> intset_elems (fst (intsetRemove s v)) = intset_elems s - {v}
    \<and> (snd (intsetRemove s v) \<longleftrightarrow> v \<in> intset_elems s)
    \<and> (\<forall>w. fits 8 w \<longrightarrow> intsetFind (fst (intsetRemove s v)) w = (w \<noteq> v \<and> intsetFind s w))"
  using ints.rem_ok [of s v "fst (intsetRemove s v)" "snd (intsetRemove s v)"]
    ints.rem_then_member [of s v] assms by auto

theorem intset_remove_correct_witness:
  "intset_elems (fst (intsetRemove (fst (intsetAdd intsetNew 5)) 5)) = {}"
proof -
  have a: "intset_inv (fst (intsetAdd intsetNew 5)) \<and> intset_elems (fst (intsetAdd intsetNew 5)) = {5}"
    using intsetAdd_ok [of intsetNew 5 "fst (intsetAdd intsetNew 5)" "snd (intsetAdd intsetNew 5)"]
    by (simp add: intsetNew_ok intset_room_def fits_def) (simp add: intsetNew_def)
  then show ?thesis
    using intset_remove_correct [of "fst (intsetAdd intsetNew 5)" 5] by (simp add: fits_def)
qed

text \<open>Adding a list of values one at a time leaves the union of the old members and the
  listed values, and the number of successful additions is the number of distinct new values.\<close>

theorem intset_add_loop_correct:
  assumes "intset_inv s" "\<forall>v \<in> set vs. fits 8 v" "is_length s + length vs < 2 ^ 29"
  shows "intset_elems (fst (add_loop intsetAdd s vs 0)) = intset_elems s \<union> set vs
    \<and> snd (add_loop intsetAdd s vs 0) = card (set vs - intset_elems s)"
  using ints.add_loop_ok [of s vs 0 "fst (add_loop intsetAdd s vs 0)" "snd (add_loop intsetAdd s vs 0)"]
    assms by (simp add: card_elems)

theorem intset_add_loop_correct_witness:
  "snd (add_loop intsetAdd intsetNew [3, -40000, 3, 5000000000] 0) = 3"
proof -
  have "snd (add_loop intsetAdd intsetNew [3, -40000, 3, 5000000000] 0)
      = card (set [3, -40000, 3, 5000000000::int] - intset_elems intsetNew)"
    by (rule intset_add_loop_correct [THEN conjunct2]) (simp_all add: intsetNew_ok fits_def, simp add: intsetNew_def)
  also have "\<dots> = 3" by (simp add: intsetNew_ok card_insert_if)
  finally show ?thesis .
qed

subsection \<open>Serialized sets\<close>

definition intset_blob :: "intset \<Rightarrow> bytes" where
  "intset_blob s = le_of_nat 4 (is_encoding s) @ le_of_nat 4 (is_length s) @ is_contents s"

lemma ordered_from_iff:
  "ordered_from s i n prev \<longleftrightarrow> sorted_wrt (<) (prev # map (intsetGetAt s) [i..<i + n])"
proof (induction n arbitrary: i prev)
  case (Suc n)
  have up: "[i..<i + Suc n] = i # [Suc i..<Suc i + n]" by (simp add: upt_conv_Cons)
  show ?case
    unfolding up list.map sorted_wrt2 [OF transp_on_less]
    using Suc [of "Suc i" "intsetGetAt s i"] by (auto simp: Let_def)
qed simp

lemma ordered_vals:
  assumes "0 < is_length s"
  shows "ordered_from s 1 (is_length s - 1) (intsetGetAt s 0) \<longleftrightarrow> sorted_wrt (<) (intset_vals s)"
proof -
  have "[0..<is_length s] = 0 # [1..<1 + (is_length s - 1)]"
    using assms by (simp add: upt_conv_Cons)
  then show ?thesis by (simp only: ordered_from_iff intset_vals_def list.map)
qed

lemma intset_validate_iff_inv_aux:
  assumes small: "length p < 2 ^ 32"
  shows "intsetValidateIntegrity p (length p) True \<longleftrightarrow>
       8 \<le> length p \<and> intset_inv (intset_of_blob p) \<and> 0 < is_length (intset_of_blob p)"
proof -
  let ?s = "intset_of_blob p"
  have len: "length (is_contents ?s) = length p - 8" by (simp add: intset_of_blob_def)
  have enc: "enc_ok (is_encoding ?s) \<longleftrightarrow>
      \<not> (is_encoding ?s \<noteq> 8 \<and> is_encoding ?s \<noteq> 4 \<and> is_encoding ?s \<noteq> 2)"
    by (auto simp: enc_ok_def)
  have "8 \<le> length p \<Longrightarrow> 8 + is_length ?s * is_encoding ?s = length p \<longleftrightarrow>
      length (is_contents ?s) = is_length ?s * is_encoding ?s \<and> is_length ?s * is_encoding ?s < 2 ^ 32"
    using small len by auto
  then show ?thesis
    using ordered_vals [of ?s] enc
    by (auto simp: intsetValidateIntegrity_def intset_inv_def Let_def enc_defs)
qed

text \<open>C19. The deep integrity check of a serialized set, the gate in front of \<open>RESTORE\<close> and RDB
  loading, accepts a blob exactly when it has a header and decodes to a non-empty set that
  satisfies the representation invariant.\<close>

theorem intset_validate_iff_inv:
  assumes "length p < 2 ^ 32"
  shows "intsetValidateIntegrity p (length p) True \<longleftrightarrow>
       8 \<le> length p \<and> intset_inv (intset_of_blob p) \<and> 0 < is_length (intset_of_blob p)"
  using assms by (rule intset_validate_iff_inv_aux)

theorem intset_validate_iff_inv_witness:
  "intsetValidateIntegrity [2,0,0,0, 2,0,0,0, 255,255, 1,0] 12 True
   \<and> intset_inv (intset_of_blob [2,0,0,0, 2,0,0,0, 255,255, 1,0])"
proof -
  let ?p = "[2,0,0,0, 2,0,0,0, 255,255, 1,0] :: bytes"
  have v: "intsetValidateIntegrity ?p 12 True"
    by (simp add: intsetValidateIntegrity_def intset_of_blob_def slice_def enc_defs
      int_of_le_def intsetGetAt_def intsetGetEncoded_def Let_def take_bit_eq_mod
      signed_take_bit_eq_take_bit_shift)
  have len: "length ?p = 12" by simp
  show ?thesis using intset_validate_iff_inv [of ?p, unfolded len] v by simp
qed

text \<open>The blob of a non-empty set, its in-memory image as \<open>DUMP\<close> and RDB saving write it,
  decodes to the same set and passes the deep integrity check.\<close>

theorem intset_blob_roundtrip:
  assumes inv: "intset_inv s" and "0 < is_length s" and small: "intsetBlobLen s < 2 ^ 32"
  shows "intset_of_blob (intset_blob s) = s \<and> length (intset_blob s) = intsetBlobLen s
    \<and> intsetValidateIntegrity (intset_blob s) (intsetBlobLen s) True"
proof -
  have "is_encoding s < 256 ^ 4" using inv by (auto simp: intset_inv_def enc_ok_def)
  moreover have "is_length s < 256 ^ 4"
  proof -
    have "is_length s * 1 \<le> is_length s * is_encoding s"
      using inv by (intro mult_le_mono2) (auto simp: intset_inv_def enc_ok_def)
    also have "\<dots> < 2 ^ 32" using inv by (simp add: intset_inv_def)
    finally show ?thesis by simp
  qed
  moreover have "slice 0 4 (intset_blob s) = le_of_nat 4 (is_encoding s)"
    "slice 4 4 (intset_blob s) = le_of_nat 4 (is_length s)"
    "drop 8 (intset_blob s) = is_contents s"
    by (simp_all add: slice_def intset_blob_def)
  ultimately have same: "intset_of_blob (intset_blob s) = s"
    by (simp add: intset_of_blob_def)
  have len: "length (intset_blob s) = intsetBlobLen s"
    using inv by (simp add: intset_blob_def intsetBlobLen_def intset_inv_def)
  have "8 \<le> intsetBlobLen s" by (simp add: intsetBlobLen_def)
  with same len small inv \<open>0 < is_length s\<close> show ?thesis
    using intset_validate_iff_inv_aux [of "intset_blob s"] by simp
qed

theorem intset_blob_roundtrip_witness:
  "intset_of_blob (intset_blob (intset_of_blob [2,0,0,0, 1,0,0,0, 7,0]))
     = intset_of_blob [2,0,0,0, 1,0,0,0, 7,0]"
proof -
  let ?p = "[2,0,0,0, 1,0,0,0, 7,0] :: bytes"
  have "intsetValidateIntegrity ?p (length ?p) True" by code_simp
  then have "intset_inv (intset_of_blob ?p)" "0 < is_length (intset_of_blob ?p)"
    using intset_validate_iff_inv_aux [of ?p] by simp_all
  moreover have "intsetBlobLen (intset_of_blob ?p) < 2 ^ 32"
    by (simp add: intsetBlobLen_def intset_of_blob_def slice_def)
  ultimately show ?thesis using intset_blob_roundtrip by blast
qed

subsection \<open>The width of the tail move\<close>

text \<open>\<open>intsetMaxEntries\<close> of \<open>t_set.c\<close> lets a set grow to \<open>2 ^ 30\<close> entries, but the byte
  count in \<open>intsetMoveTail\<close> is 32 bits wide.\<close>

definition intset_of_list :: "nat \<Rightarrow> int list \<Rightarrow> intset" where
  "intset_of_list e xs = \<lparr>is_encoding = e, is_length = length xs,
     is_contents = concat (map (le_of_int e) xs)\<rparr>"

lemma length_concat_le [simp]: "length (concat (map (le_of_int e) xs)) = length xs * e"
  by (induction xs) auto

lemma slice_concat_le:
  "i < length xs \<Longrightarrow> slice (i * e) e (concat (map (le_of_int e) xs)) = le_of_int e (xs ! i)"
proof (induction xs arbitrary: i)
  case (Cons x xs)
  then show ?case by (cases i) (auto simp: slice_append_right)
qed simp

lemma vals_of_list:
  assumes "enc_ok e" "\<forall>x \<in> set xs. fits e x"
  shows "intset_vals (intset_of_list e xs) = xs"
proof (rule intset_vals_eqI)
  fix i assume "i < length xs"
  then show "intsetGetAt (intset_of_list e xs) i = xs ! i"
    using assms enc_ok_pos [OF assms(1)]
    by (simp add: intsetGetAt_def getEncoded_eq intset_of_list_def slice_concat_le)
qed (simp add: intset_of_list_def)

text \<open>C26. (Finding.) In a set of \<open>2 ^ 29\<close> 64 bit entries, which \<open>intsetMaxEntries\<close> allows,
  adding a value smaller than every member moves nothing, because the number of bytes to move
  wraps to 0: the former smallest member is overwritten by the new value, while the other
  entries stay where they were and the new last entry is never written.\<close>

theorem intset_add_wraps:
  assumes "is_encoding s = 8" "is_length s = 2 ^ 29" "length (is_contents s) = 2 ^ 29 * 8"
    and sorted: "sorted_wrt (<) (intset_vals s)" and v: "fits 8 v" "v < intsetGetAt s 0"
  shows "intsetGetAt (fst (intsetAdd s v)) 0 = v
    \<and> (\<forall>i. 0 < i \<and> i < 2 ^ 29 \<longrightarrow> intsetGetAt (fst (intsetAdd s v)) i = intsetGetAt s i)"
proof -
  define n where "n = is_length s"
  define s1 where "s1 = intsetResize s (n + 1)"
  have n: "n * 8 = 2 ^ 32" "0 < n" and enc: "enc_ok 8" using assms(2) by (simp_all add: n_def enc_ok_def)
  have len: "length (is_contents s) = n * 8" using assms(2,3) by (simp add: n_def)
  have "intsetGetAt s 0 \<le> intsetGetAt s (n - 1)"
    using sorted_wrt_nth_less [OF sorted, of 0 "n - 1"] n by (cases "n = 1") (auto simp: n_def)
  then have search: "intsetSearch s v = (False, 0)"
    using v(2) n by (simp add: intsetSearch_def n_def nat_diff_distrib Let_def)
  have "intsetMoveTail s1 0 1 = s1"
    using n by (simp add: moveTail_eq assms(1) enc s1_def memmove_in_def blit_def slice_def flip: n_def)
  moreover have "\<not> 8 < intsetValueEncoding v"
    using valueEncoding_le_iff [OF enc, of v] by auto
  moreover have "(n + 1) mod 2 ^ 32 = n + 1" using assms(2) by (simp add: n_def)
  ultimately have add: "fst (intsetAdd s v) = (intsetSetAt s1 0 v)\<lparr>is_length := n + 1\<rparr>"
    using n by (simp add: intsetAdd_cases assms(1) search insert_at_def Let_def s1_def flip: n_def)
  have get: "intsetGetAt (fst (intsetAdd s v)) i = (if i = 0 then v else intsetGetAt s1 i)" if "i < n" for i
  proof -
    have "intsetGetAt (fst (intsetAdd s v)) i = intsetGetEncoded (intsetSetAt s1 0 v) i 8"
      by (simp add: add intsetGetAt_def intsetGetEncoded_def s1_def assms(1))
    also have "\<dots> = (if i = 0 then v else intsetGetAt s1 i)"
      using getAt_setAt_same [of s1 v 0 "n + 1"] getAt_setAt_other [of s1 i 0 "n + 1" v] enc v(1)
      by (simp add: s1_def assms(1) intsetGetAt_def)
    finally show ?thesis .
  qed
  have "intsetGetAt s1 i = intsetGetAt s i" if "i < n" for i
    unfolding s1_def by (rule getAt_resize [where m = n]) (use that enc len assms(1) in auto)
  then show ?thesis using get n assms(2) by (simp add: n_def)
qed

theorem intset_add_wraps_witness:
  "\<exists>s. is_length s = 2 ^ 29 \<and> sorted_wrt (<) (intset_vals s) \<and> intsetGetAt s 0 = 0
     \<and> intsetGetAt (fst (intsetAdd s (-1))) 0 = -1 \<and> intsetGetAt (fst (intsetAdd s (-1))) 1 = 1"
proof -
  obtain n :: nat where n: "n = 2 ^ 29" by simp
  define s where "s = intset_of_list 8 (map int [0..<n])"
  have vals: "intset_vals s = map int [0..<n]"
    unfolding s_def by (rule vals_of_list) (auto simp: enc_ok_def fits_def n)
  have get: "intsetGetAt s i = int i" if "i < n" for i
    using arg_cong [OF vals, of "\<lambda>xs. xs ! i"] that by (simp add: s_def intset_of_list_def)
  have s: "is_encoding s = 8" "is_length s = 2 ^ 29" "length (is_contents s) = 2 ^ 29 * 8"
    unfolding s_def intset_of_list_def by (simp_all only: intset.simps length_concat_le length_map length_upt n)
  have sorted: "sorted_wrt (<) (intset_vals s)"
    unfolding vals by (simp add: sorted_wrt_map)
  have "fits 8 (-1)" "-1 < intsetGetAt s 0" using get [of 0] n by (auto simp: fits_def)
  from intset_add_wraps [OF s sorted this] show ?thesis
    using s(2) sorted get [of 0] get [of 1] n by (intro exI [of _ s]) auto
qed

end
