(* ===== verification/Decimal.thy ===== *)
theory Decimal
  imports Redis_Prelude
begin

text \<open>
  The number conversions of \<open>util.c\<close>: the number of decimal digits, writing 64 bit integers in
  decimal two digits at a time, and the strict parser that accepts exactly the strings the
  writer produces.  \<open>lpStringToInt64\<close> of \<open>listpack.c\<close> is the same parser again.
  A destination buffer is a byte list of the capacity the caller passes (\<open>dstlen\<close>);
  \<open>unsigned long long\<close> values are naturals below \<open>2 ^ 64\<close>.
\<close>

section \<open>Counting digits\<close>

function digits10 :: "nat \<Rightarrow> nat" where
  "digits10 v =
     (if v < 10 then 1
      else if v < 100 then 2
      else if v < 1000 then 3
      else if v < 1000000000000 then
        if v < 100000000 then
          if v < 1000000 then
            if v < 10000 then 4
            else 5 + (if v \<ge> 100000 then 1 else 0)
          else 7 + (if v \<ge> 10000000 then 1 else 0)
        else if v < 10000000000 then 9 + (if v \<ge> 1000000000 then 1 else 0)
        else 11 + (if v \<ge> 100000000000 then 1 else 0)
      else 12 + digits10 (v div 1000000000000))"
  by pat_completeness auto
termination by (relation "measure id") auto

declare digits10.simps [simp del]

definition LLONG_MAX :: int where "LLONG_MAX = 9223372036854775807"
definition LLONG_MIN :: int where "LLONG_MIN = - 9223372036854775808"
definition ULLONG_MAX :: nat where "ULLONG_MAX = 18446744073709551615"

lemmas limits_defs = LLONG_MAX_def LLONG_MIN_def ULLONG_MAX_def

definition is_ll :: "int \<Rightarrow> bool" where
  "is_ll v \<longleftrightarrow> LLONG_MIN \<le> v \<and> v \<le> LLONG_MAX"

text \<open>The absolute value, computed as the code does: negation where that is defined, and the
  constant for the minimum.\<close>

definition abs_ull :: "int \<Rightarrow> nat" where
  "abs_ull v = (if v \<noteq> LLONG_MIN then nat (- v) else nat LLONG_MAX + 1)"

definition sdigits10 :: "int \<Rightarrow> nat" where
  "sdigits10 v = (if v < 0 then digits10 (abs_ull v) + 1 else digits10 (nat v))"

section \<open>Writing\<close>

text \<open>The table of the hundred two-digit strings, as the code spells it.\<close>

definition digit_pairs :: bytes where
  "digit_pairs = map of_char
    (''0001020304050607080910111213141516171819''
     @ ''2021222324252627282930313233343536373839''
     @ ''4041424344454647484950515253545556575859''
     @ ''6061626364656667686970717273747576777879''
     @ ''8081828384858687888990919293949596979899'')"

function ull2string_loop :: "bytes \<Rightarrow> nat \<Rightarrow> nat \<Rightarrow> bytes \<times> nat \<times> nat" where
  "ull2string_loop dst nxt v =
     (if v \<ge> 100 then
        let i = (v mod 100) * 2;
            v = v div 100;
            dst = dst[nxt := digit_pairs ! (i + 1)];
            dst = dst[nxt - 1 := digit_pairs ! i]
        in ull2string_loop dst (nxt - 2) v
      else (dst, nxt, v))"
  by pat_completeness auto
termination by (relation "measure (\<lambda>(dst, nxt, v). v)") auto

declare ull2string_loop.simps [simp del]

definition ull2string :: "bytes \<Rightarrow> nat \<Rightarrow> nat \<Rightarrow> bytes \<times> nat" where
  "ull2string dst dstlen v =
     (let len = digits10 v in
      if len \<ge> dstlen then (if dstlen > 0 then dst[0 := 0] else dst, 0)
      else
        let nxt = len - 1;
            dst = dst[nxt + 1 := 0]
        in case ull2string_loop dst nxt v of
             (dst, nxt, v) \<Rightarrow>
               if v < 10 then (dst[nxt := 48 + word_of_nat v], len)
               else let i = v * 2;
                        dst = dst[nxt := digit_pairs ! (i + 1)];
                        dst = dst[nxt - 1 := digit_pairs ! i]
                    in (dst, len))"

text \<open>\<open>dst++\<close> after the sign: the rest is written to the tail of the buffer.\<close>

definition ll2string :: "bytes \<Rightarrow> nat \<Rightarrow> int \<Rightarrow> bytes \<times> nat" where
  "ll2string dst dstlen svalue =
     (if svalue < 0 then
        let v = abs_ull svalue in
        if dstlen < 2 then (if dstlen > 0 then dst[0 := 0] else dst, 0)
        else case ull2string (tl dst) (dstlen - 1) v of
               (rest, len) \<Rightarrow> (45 # rest, if len = 0 then 0 else len + 1)
      else case ull2string dst dstlen (nat svalue) of
             (dst, len) \<Rightarrow> (dst, if len = 0 then 0 else len))"

section \<open>Parsing\<close>

text \<open>The digit loop of the parsers: \<open>None\<close> on overflow, otherwise the value and the bytes from
  the first non-digit on.  The products and sums are \<open>uint64_t\<close>.\<close>

fun parse_digits :: "bytes \<Rightarrow> nat \<Rightarrow> (nat \<times> bytes) option" where
  "parse_digits [] v = Some (v, [])"
| "parse_digits (c # cs) v =
     (if 48 \<le> c \<and> c \<le> 57 then
        if v > ULLONG_MAX div 10 then None
        else let v = (v * 10) mod 2 ^ 64 in
          if v > ULLONG_MAX - unat (c - 48) then None
          else parse_digits cs ((v + unat (c - 48)) mod 2 ^ 64)
      else Some (v, c # cs))"

definition LONG_STR_SIZE :: nat where "LONG_STR_SIZE = 21"

definition string2ll :: "bytes \<Rightarrow> int option" where
  "string2ll s =
     (if length s = 0 \<or> length s \<ge> LONG_STR_SIZE then None
      else if length s = 1 \<and> s ! 0 = 48 then Some 0
      else
        let negative = (s ! 0 = 45);
            p = (if negative then tl s else s)
        in if negative \<and> p = [] then None
           else if \<not> (49 \<le> hd p \<and> hd p \<le> 57) then None
           else case parse_digits (tl p) (unat (hd p - 48)) of
                  None \<Rightarrow> None
                | Some (v, rest) \<Rightarrow>
                    if rest \<noteq> [] then None
                    else if negative then
                      if v > nat (- (LLONG_MIN + 1)) + 1 then None else Some (- int v)
                    else
                      if v > nat LLONG_MAX then None else Some (int v))"

definition lpStringToInt64 :: "bytes \<Rightarrow> int option" where
  "lpStringToInt64 s =
     (if length s = 0 \<or> length s \<ge> LONG_STR_SIZE then None
      else if length s = 1 \<and> s ! 0 = 48 then Some 0
      else
        let negative = (s ! 0 = 45);
            p = (if negative then tl s else s)
        in if negative \<and> p = [] then None
           else if \<not> (49 \<le> hd p \<and> hd p \<le> 57) then None
           else case parse_digits (tl p) (unat (hd p - 48)) of
                  None \<Rightarrow> None
                | Some (v, rest) \<Rightarrow>
                    if rest \<noteq> [] then None
                    else if negative then
                      if v > nat (- (LLONG_MIN + 1)) + 1 then None else Some (- int v)
                    else
                      if v > nat LLONG_MAX then None else Some (int v))"

text \<open>\<open>long\<close> is as wide as \<open>long long\<close> on the 64 bit targets.\<close>

definition string2l :: "bytes \<Rightarrow> int option" where
  "string2l s =
     (case string2ll s of None \<Rightarrow> None
      | Some llval \<Rightarrow> if llval < LLONG_MIN \<or> llval > LLONG_MAX then None else Some llval)"

section \<open>The decimal notation\<close>

fun dec :: "nat \<Rightarrow> bytes" where
  "dec v = (if v < 10 then [48 + word_of_nat v] else dec (v div 10) @ [48 + word_of_nat (v mod 10)])"

declare dec.simps [simp del]

definition dec_int :: "int \<Rightarrow> bytes" where
  "dec_int v = (if v < 0 then 45 # dec (nat (- v)) else dec (nat v))"

definition digit :: "nat \<Rightarrow> u8" where
  "digit d = 48 + word_of_nat d"

lemma dec_less: "v < 10 \<Longrightarrow> dec v = [digit v]"
  by (simp add: dec.simps digit_def)

lemma dec_ge: "10 \<le> v \<Longrightarrow> dec v = dec (v div 10) @ [digit (v mod 10)]"
  by (subst dec.simps) (simp add: digit_def)

lemma dec_nonempty [simp]: "dec v \<noteq> []"
  by (subst dec.simps) simp

lemma length_dec: "length (dec v) = (if v < 10 then 1 else Suc (length (dec (v div 10))))"
  by (cases "v < 10") (simp_all add: dec_less dec_ge)

lemma length_dec_pow: "10 ^ n \<le> v \<Longrightarrow> v < 10 ^ Suc n \<Longrightarrow> length (dec v) = Suc n"
proof (induction n arbitrary: v)
  case 0
  then show ?case by (simp add: dec_less)
next
  case (Suc n)
  have "10 \<le> v" using Suc.prems(1) by (auto intro: order_trans [rotated])
  moreover have "10 ^ n \<le> v div 10" "v div 10 < 10 ^ Suc n"
    using Suc.prems by (auto simp: less_mult_imp_div_less less_eq_div_iff_mult_less_eq)
  ultimately show ?case using Suc.IH by (simp add: length_dec [of v])
qed

lemma length_dec_div_pow: "10 ^ n \<le> v \<Longrightarrow> length (dec v) = n + length (dec (v div 10 ^ n))"
proof (induction n arbitrary: v)
  case (Suc n)
  have v: "10 \<le> v" using Suc.prems by (auto intro: order_trans [rotated])
  have "10 ^ n \<le> v div 10" using Suc.prems by (auto simp: less_eq_div_iff_mult_less_eq)
  with Suc.IH [of "v div 10"] v show ?case
    by (simp add: length_dec [of v] div_mult2_eq)
qed simp

section \<open>Counting and writing are correct\<close>

lemmas length_dec_ranges =
  length_dec_pow [of 0, simplified] length_dec_pow [of 1, simplified]
  length_dec_pow [of 2, simplified] length_dec_pow [of 3, simplified]
  length_dec_pow [of 4, simplified] length_dec_pow [of 5, simplified]
  length_dec_pow [of 6, simplified] length_dec_pow [of 7, simplified]
  length_dec_pow [of 8, simplified] length_dec_pow [of 9, simplified]
  length_dec_pow [of 10, simplified] length_dec_pow [of 11, simplified]

lemma digits10_length_dec: "digits10 v = length (dec v)"
proof (induction v rule: digits10.induct)
  case (1 v)
  show ?case
  proof (cases "v < 1000000000000")
    case True
    then show ?thesis
      by (subst digits10.simps) (auto simp: length_dec_ranges dec_less)
  next
    case False
    then have "digits10 v = 12 + length (dec (v div 1000000000000))"
      using 1 by (subst digits10.simps) auto
    also have "\<dots> = length (dec v)"
      using length_dec_div_pow [of 12 v] False by simp
    finally show ?thesis .
  qed
qed

lemma digit_numerals [simp]:
  "digit 0 = 48" "digit (Suc 0) = 49" "digit (numeral n) = 48 + numeral n"
  by (simp_all add: digit_def)

lemma upt_100: "[0..<100] = 0 # Suc 0 # [2..<100::nat]"
  by (simp add: upt_conv_Cons numeral_2_eq_2)

lemma digit_pairs_table: "digit_pairs = concat (map (\<lambda>i. [digit (i div 10), digit (i mod 10)]) [0..<100])"
  unfolding upt_100 by (simp add: digit_pairs_def upt_rec_numeral)

lemma nth_concat_pairs:
  "i < n \<Longrightarrow> concat (map (\<lambda>i. [f i, g i]) [0..<n]) ! (2 * i) = f i
     \<and> concat (map (\<lambda>i. [f i, g i]) [0..<n]) ! Suc (2 * i) = g i"
proof (induction n)
  case (Suc n)
  have len: "length (concat (map (\<lambda>i. [f i, g i]) [0..<k])) = 2 * k" for k
    by (induction k) auto
  show ?case
  proof (cases "i < n")
    case True
    with Suc len [of n] show ?thesis by (simp add: nth_append)
  next
    case False
    then have "i = n" using Suc.prems by simp
    with len [of n] show ?thesis by (simp add: nth_append)
  qed
qed simp

lemma digit_pairs_lookup:
  assumes "i < 100"
  shows "digit_pairs ! (i * 2) = digit (i div 10)" "digit_pairs ! (i * 2 + 1) = digit (i mod 10)"
  using nth_concat_pairs [OF assms, of "\<lambda>i. digit (i div 10)" "\<lambda>i. digit (i mod 10)"]
  by (simp_all add: digit_pairs_table mult.commute)

lemma dec_two: "10 \<le> v \<Longrightarrow> v < 100 \<Longrightarrow> dec v = [digit (v div 10), digit (v mod 10)]"
  by (simp add: dec_ge dec_less)

lemma dec_hundred: "100 \<le> v \<Longrightarrow> dec v = dec (v div 100) @ [digit (v div 10 mod 10), digit (v mod 10)]"
  by (simp add: dec_ge [of v] dec_ge [of "v div 10"] div_mult2_eq [symmetric])

definition last_digits :: "bytes \<times> nat \<times> nat \<Rightarrow> bytes" where
  "last_digits = (\<lambda>(d, n, w). if w < 10 then d[n := digit w]
     else d[n := digit_pairs ! (w * 2 + 1), n - 1 := digit_pairs ! (w * 2)])"

lemma list_update_two:
  "Suc n < length d \<Longrightarrow> d[Suc n := b, n := a] = take n d @ [a, b] @ drop (Suc (Suc n)) d"
  by (simp add: list_update_append upd_conv_take_nth_drop Cons_nth_drop_Suc [symmetric] take_Suc_conv_app_nth)

lemma ull2string_loop_writes:
  "length (dec v) = Suc n \<Longrightarrow> n < length d \<Longrightarrow>
     last_digits (ull2string_loop d n v) = dec v @ drop (Suc n) d"
proof (induction d n v rule: ull2string_loop.induct)
  case (1 d n v)
  show ?case
  proof (cases "100 \<le> v")
    case False
    then have loop: "ull2string_loop d n v = (d, n, v)" by (simp add: ull2string_loop.simps [of d n v])
    show ?thesis
    proof (cases "v < 10")
      case True
      then have "n = 0" using 1(2) by (simp add: dec_less)
      with True 1(3) show ?thesis
        unfolding last_digits_def loop by (simp add: dec_less upd_conv_take_nth_drop)
    next
      case ge: False
      then have "n = 1" using 1(2) False by (simp add: dec_two)
      with ge False 1(3) show ?thesis
        unfolding last_digits_def loop
        using digit_pairs_lookup [of v] list_update_two [of 0 d] by (simp add: dec_two)
    qed
  next
    case True
    let ?q = "v div 100" and ?i = "(v mod 100) * 2"
    let ?d = "d[n := digit_pairs ! (?i + 1), n - 1 := digit_pairs ! ?i]"
    have dec: "dec v = dec ?q @ [digit (v div 10 mod 10), digit (v mod 10)]"
      by (rule dec_hundred) (rule True)
    obtain m where n: "n = Suc m" and m: "length (dec ?q) = m"
      using 1(2) dec by (cases n) auto
    then obtain k where k: "m = Suc k" by (cases m) auto
    have step: "ull2string_loop d n v = ull2string_loop ?d (n - 2) ?q"
      using True by (subst ull2string_loop.simps) (simp add: Let_def)
    have d: "?d = take m d @ [digit (v div 10 mod 10), digit (v mod 10)] @ drop (Suc n) d"
      using 1(3) digit_pairs_lookup [of "v mod 100"] list_update_two [of m d]
      by (simp add: n mod_mult2_eq [of v 10 10, simplified])
    have "last_digits (ull2string_loop ?d (n - 2) ?q) = dec ?q @ drop (Suc (n - 2)) ?d"
      by (rule "1.IH") (use True 1(3) m n k in auto)
    also have "\<dots> = dec ?q @ [digit (v div 10 mod 10), digit (v mod 10)] @ drop (Suc n) d"
      using 1(3) unfolding d by (simp add: n k)
    finally show ?thesis using step dec by simp
  qed
qed

lemma ull2string_ok:
  assumes "length (dec v) < dstlen" "dstlen \<le> length d"
  shows "ull2string d dstlen v = (dec v @ 0 # drop (Suc (length (dec v))) d, length (dec v))"
proof -
  obtain n where n: "length (dec v) = Suc n" by (cases "dec v") auto
  let ?d = "d[Suc n := 0]"
  have "fst (ull2string d dstlen v) = last_digits (ull2string_loop ?d n v)"
    using assms n by (simp add: ull2string_def digits10_length_dec Let_def last_digits_def digit_def
        split: prod.split)
  also have "\<dots> = dec v @ drop (Suc n) ?d"
    using assms n by (intro ull2string_loop_writes) auto
  also have "drop (Suc n) ?d = 0 # drop (Suc (Suc n)) d"
    using assms n by (simp add: upd_conv_take_nth_drop)
  finally show ?thesis
    using assms n by (simp add: prod_eq_iff) (simp add: ull2string_def digits10_length_dec Let_def split: prod.split)
qed

section \<open>The parser accepts exactly the canonical notation\<close>

definition is_digit :: "u8 \<Rightarrow> bool" where
  "is_digit c \<longleftrightarrow> 48 \<le> c \<and> c \<le> 57"

fun dec_val :: "bytes \<Rightarrow> nat \<Rightarrow> nat" where
  "dec_val [] a = a"
| "dec_val (c # cs) a = dec_val cs (a * 10 + unat (c - 48))"

lemma is_digit_unat: "is_digit c \<longleftrightarrow> 48 \<le> unat c \<and> unat c \<le> 57"
  by (simp add: is_digit_def word_le_nat_alt)

lemma digit_value: "is_digit c \<Longrightarrow> unat (c - 48) = unat c - 48"
  by (simp add: is_digit_def unat_sub)

lemma unat_digit [simp]: "d < 10 \<Longrightarrow> unat (digit d) = 48 + d"
  by (simp add: digit_def unat_word_ariths)

lemma digit_is_digit [simp]: "d < 10 \<Longrightarrow> is_digit (digit d)"
  by (simp add: is_digit_unat)

lemma digit_of_value: "is_digit c \<Longrightarrow> digit (unat (c - 48)) = c"
  by (simp add: digit_def)

lemma digit_value_less: "is_digit c \<Longrightarrow> unat (c - 48) < 10"
  by (simp add: digit_value) (auto simp: is_digit_unat)

lemma digit_minus [simp]: "d < 10 \<Longrightarrow> unat (digit d - 48) = d"
  by (simp add: digit_value)

lemma dec_val_append: "dec_val (xs @ ys) a = dec_val ys (dec_val xs a)"
  by (induction xs arbitrary: a) auto

lemma dec_val_ge: "a \<le> dec_val cs a"
proof (induction cs arbitrary: a)
  case (Cons c cs)
  have "a \<le> a * 10 + unat (c - 48)" by simp
  also have "\<dots> \<le> dec_val cs (a * 10 + unat (c - 48))" by (rule Cons.IH)
  finally show ?case by simp
qed simp

lemma dec_val_dec: "dec_val (dec v) 0 = v"
proof (induction v rule: dec.induct)
  case (1 v)
  then show ?case
    by (cases "v < 10") (auto simp: dec_less dec_ge dec_val_append)
qed

lemma dec_inject: "dec v = dec w \<Longrightarrow> v = w"
  by (metis dec_val_dec)

lemma dec_digits: "c \<in> set (dec v) \<Longrightarrow> is_digit c"
proof (induction v rule: dec.induct)
  case (1 v)
  then show ?case
    by (cases "v < 10") (auto simp: dec_less dec_ge)
qed

lemma dec_append_digits: "0 < a \<Longrightarrow> \<forall>c \<in> set cs. is_digit c \<Longrightarrow> dec a @ cs = dec (dec_val cs a)"
proof (induction cs arbitrary: a)
  case (Cons c cs)
  have "dec (a * 10 + unat (c - 48)) = dec a @ [c]"
    using Cons.prems digit_value_less [of c] by (simp add: dec_ge digit_of_value)
  with Cons show ?case by (simp flip: Cons.IH)
qed simp

lemma dec_head:
  assumes "0 < v"
  obtains c cs where "dec v = c # cs" "49 \<le> c" "c \<le> 57" "dec_val cs (unat (c - 48)) = v"
proof -
  have "\<exists>c cs. dec v = c # cs \<and> 49 \<le> c \<and> c \<le> 57"
    using assms
  proof (induction v rule: dec.induct)
    case (1 v)
    show ?case
    proof (cases "v < 10")
      case True
      with 1 show ?thesis by (auto simp: dec_less word_le_nat_alt)
    next
      case False
      then have "0 < v div 10" by simp
      with 1 False obtain c cs where "dec (v div 10) = c # cs" "49 \<le> c" "c \<le> 57" by blast
      with False show ?thesis by (auto simp: dec_ge)
    qed
  qed
  then obtain c cs where c: "dec v = c # cs" "49 \<le> c" "c \<le> 57" by blast
  moreover have "dec_val cs (unat (c - 48)) = v"
    using dec_val_dec [of v] c(1) by simp
  ultimately show ?thesis using that by blast
qed

lemma length_dec_le: "v < 10 ^ n \<Longrightarrow> 0 < n \<Longrightarrow> length (dec v) \<le> n"
proof (induction n arbitrary: v)
  case (Suc n)
  show ?case
  proof (cases "v < 10")
    case False
    with Suc.prems have "v div 10 < 10 ^ n" "0 < n"
      by (cases n; auto simp: less_mult_imp_div_less)+
    with Suc.IH False show ?thesis by (simp add: length_dec [of v])
  qed (simp add: dec_less)
qed simp

lemma parse_digits_exact:
  assumes "v \<le> ULLONG_MAX"
  shows "parse_digits cs v = Some (w, []) \<longleftrightarrow>
     (\<forall>c \<in> set cs. is_digit c) \<and> w = dec_val cs v \<and> w \<le> ULLONG_MAX"
  using assms
proof (induction cs arbitrary: v)
  case Nil
  then show ?case by auto
next
  case (Cons c cs)
  show ?case
  proof (cases "is_digit c")
    case False
    then have "\<not> (48 \<le> c \<and> c \<le> 57)" by (simp add: is_digit_def)
    then have "parse_digits (c # cs) v = Some (v, c # cs)" by auto
    with False show ?thesis by (simp del: parse_digits.simps)
  next
    case True
    let ?d = "unat (c - 48)"
    have d: "?d < 10" by (rule digit_value_less) (rule True)
    have nowrap: "v \<le> ULLONG_MAX div 10 \<Longrightarrow> v * 10 mod 2 ^ 64 = v * 10"
      "w \<le> ULLONG_MAX \<Longrightarrow> w mod 2 ^ 64 = w" for w
      by (simp_all add: limits_defs)
    have c: "48 \<le> c \<and> c \<le> 57" using True by (simp add: is_digit_def)
    show ?thesis
    proof (cases "v > ULLONG_MAX div 10 \<or> v * 10 > ULLONG_MAX - ?d")
      case over: True
      then have "ULLONG_MAX < v * 10 + ?d" by (auto simp: limits_defs)
      also have "\<dots> \<le> dec_val cs (v * 10 + ?d)" by (rule dec_val_ge)
      finally have "\<not> dec_val (c # cs) v \<le> ULLONG_MAX" by simp
      moreover have "parse_digits (c # cs) v = None"
        using over c nowrap(1) by (cases "v \<le> ULLONG_MAX div 10") (auto simp: Let_def)
      ultimately show ?thesis by (simp del: parse_digits.simps)
    next
      case False
      then have le: "v * 10 + ?d \<le> ULLONG_MAX" using d by (auto simp: limits_defs)
      moreover have "parse_digits (c # cs) v = parse_digits cs (v * 10 + ?d)"
        using False c nowrap(1) nowrap(2) [OF le] by (simp add: Let_def)
      ultimately show ?thesis using Cons.IH True by (simp del: parse_digits.simps)
    qed
  qed
qed

lemma canonical_digits:
  assumes "49 \<le> c" "c \<le> 57"
  shows "(\<forall>d \<in> set cs. is_digit d) \<and> w = dec_val cs (unat (c - 48)) \<longleftrightarrow> 0 < w \<and> c # cs = dec w"
proof
  have c: "is_digit c" "0 < unat (c - 48)"
    using assms by (auto simp: is_digit_unat word_le_nat_alt digit_value)
  then have hd: "dec (unat (c - 48)) = [c]"
    using digit_value_less [OF c(1)] by (simp add: dec_less digit_of_value)
  assume "(\<forall>d \<in> set cs. is_digit d) \<and> w = dec_val cs (unat (c - 48))"
  then show "0 < w \<and> c # cs = dec w"
    using dec_append_digits [OF c(2), of cs] hd dec_val_ge [of "unat (c - 48)" cs] c(2) by auto
next
  assume w: "0 < w \<and> c # cs = dec w"
  then obtain c' cs' where "dec w = c' # cs'" "dec_val cs' (unat (c' - 48)) = w"
    using dec_head by blast
  with w dec_digits [of _ w] show "(\<forall>d \<in> set cs. is_digit d) \<and> w = dec_val cs (unat (c - 48))"
    by (metis list.inject list.set_intros(2))
qed

lemma dec_zero: "dec v = [48] \<longleftrightarrow> v = 0"
  by (metis dec_less dec_val_dec digit_numerals(1) zero_less_numeral)

text \<open>The whole parser, in terms of the canonical notation.\<close>

lemma string2ll_iff: "string2ll s = Some v \<longleftrightarrow> is_ll v \<and> s = dec_int v"
proof -
  define parse where "parse p = parse_digits (tl p) (unat (hd p - 48))" for p
  have unsigned: "49 \<le> hd p \<and> hd p \<le> 57 \<and> parse p = Some (w, []) \<longleftrightarrow>
      0 < w \<and> p = dec w \<and> w \<le> ULLONG_MAX" if p: "p \<noteq> []" for p w
  proof (cases "49 \<le> hd p \<and> hd p \<le> 57")
    case True
    have "unat (hd p - 48) \<le> ULLONG_MAX"
      by (rule less_imp_le, rule less_trans [OF unat_u8_less]) (simp add: limits_defs)
    then have "parse p = Some (w, []) \<longleftrightarrow> (0 < w \<and> hd p # tl p = dec w) \<and> w \<le> ULLONG_MAX"
      using canonical_digits [of "hd p" "tl p" w] True by (auto simp: parse_def parse_digits_exact)
    with True p show ?thesis by auto
  next
    case False
    then show ?thesis by (metis dec_head list.sel(1))
  qed
  have len: "length (dec w) < 20" if "w \<le> 9223372036854775808" for w
    using length_dec_le [of w 19] that by simp
  consider "s = []" | "s = [48]" | "s = [45]" | "s \<noteq> []" "s \<noteq> [48]" "s ! 0 = 45" "tl s \<noteq> []"
    | "s \<noteq> []" "s \<noteq> [48]" "s ! 0 \<noteq> 45"
    by (cases s) auto
  then show ?thesis
  proof cases
    case 1
    then show ?thesis by (simp add: string2ll_def dec_int_def) (metis dec_nonempty)
  next
    case 2
    then show ?thesis
      using dec_zero [of "nat v"] by (auto simp: string2ll_def LONG_STR_SIZE_def dec_int_def is_ll_def limits_defs)
  next
    case 3
    have "(45::u8) \<notin> set (dec w)" for w using dec_digits [of 45 w] by (auto simp: is_digit_def)
    with 3 show ?thesis
      by (auto simp: string2ll_def LONG_STR_SIZE_def dec_int_def Let_def;
          metis dec_nonempty list.set_intros(1))
  next
    case 4
    then have not1: "\<not> (length s = 1 \<and> s ! 0 = 48)" by auto
    have s: "s = 45 # tl s" using 4 by (cases s) auto
    have eq: "string2ll s = Some v \<longleftrightarrow> length s < 21 \<and>
        (\<exists>w. 49 \<le> hd (tl s) \<and> hd (tl s) \<le> 57 \<and> parse (tl s) = Some (w, []) \<and>
           w \<le> 9223372036854775808 \<and> v = - int w)"
      using 4 not1 by (auto simp: string2ll_def LONG_STR_SIZE_def Let_def parse_def limits_defs
          split: option.splits prod.splits if_splits)
    have "(\<exists>w. 0 < w \<and> tl s = dec w \<and> w \<le> 9223372036854775808 \<and> v = - int w) \<longleftrightarrow>
        is_ll v \<and> s = dec_int v"
    proof
      assume "is_ll v \<and> s = dec_int v"
      moreover have "v < 0"
      proof (rule ccontr)
        assume "\<not> v < 0"
        with calculation s have "(45::u8) \<in> set (dec (nat v))" by (simp add: dec_int_def) (metis list.set_intros(1))
        then show False using dec_digits [of 45 "nat v"] by (simp add: is_digit_def)
      qed
      ultimately show "\<exists>w. 0 < w \<and> tl s = dec w \<and> w \<le> 9223372036854775808 \<and> v = - int w"
        by (intro exI [of _ "nat (- v)"]) (auto simp: dec_int_def is_ll_def limits_defs)
    qed (use s in \<open>auto simp: dec_int_def is_ll_def limits_defs\<close>)
    moreover have "length s < 21" if "tl s = dec w" "w \<le> 9223372036854775808" for w
    proof -
      have "length s = Suc (length (dec w))" using s that(1) by (metis length_Cons)
      with len [OF that(2)] show ?thesis by simp
    qed
    moreover have "(\<exists>w. 49 \<le> hd (tl s) \<and> hd (tl s) \<le> 57 \<and> parse (tl s) = Some (w, []) \<and>
           w \<le> 9223372036854775808 \<and> v = - int w) \<longleftrightarrow>
        (\<exists>w. 0 < w \<and> tl s = dec w \<and> w \<le> 9223372036854775808 \<and> v = - int w)"
    proof (rule ex_cong1)
      fix w
      show "(49 \<le> hd (tl s) \<and> hd (tl s) \<le> 57 \<and> parse (tl s) = Some (w, []) \<and>
           w \<le> 9223372036854775808 \<and> v = - int w) \<longleftrightarrow>
        (0 < w \<and> tl s = dec w \<and> w \<le> 9223372036854775808 \<and> v = - int w)"
        using unsigned [OF 4(4), of w] by (auto simp: limits_defs)
    qed
    ultimately show ?thesis unfolding eq by blast
  next
    case 5
    then have not1: "\<not> (length s = 1 \<and> s ! 0 = 48)" by (cases s) auto
    have eq: "string2ll s = Some v \<longleftrightarrow> length s < 21 \<and>
        (\<exists>w. 49 \<le> hd s \<and> hd s \<le> 57 \<and> parse s = Some (w, []) \<and>
           w \<le> 9223372036854775807 \<and> v = int w)"
      using 5 not1 by (auto simp: string2ll_def LONG_STR_SIZE_def Let_def parse_def limits_defs
          split: option.splits prod.splits if_splits)
    have "(\<exists>w. 0 < w \<and> s = dec w \<and> w \<le> 9223372036854775807 \<and> v = int w) \<longleftrightarrow>
        is_ll v \<and> s = dec_int v"
    proof
      assume v: "is_ll v \<and> s = dec_int v"
      have "\<not> v < 0" using v 5 by (auto simp: dec_int_def)
      moreover have "v \<noteq> 0" using v 5 by (auto simp: dec_int_def dec_less)
      ultimately show "\<exists>w. 0 < w \<and> s = dec w \<and> w \<le> 9223372036854775807 \<and> v = int w"
        using v by (intro exI [of _ "nat v"]) (auto simp: dec_int_def is_ll_def limits_defs)
    qed (auto simp: dec_int_def is_ll_def limits_defs)
    moreover have "length s < 21" if "s = dec w" "w \<le> 9223372036854775807" for w
      using len [of w] that by simp
    moreover have "(\<exists>w. 49 \<le> hd s \<and> hd s \<le> 57 \<and> parse s = Some (w, []) \<and>
           w \<le> 9223372036854775807 \<and> v = int w) \<longleftrightarrow>
        (\<exists>w. 0 < w \<and> s = dec w \<and> w \<le> 9223372036854775807 \<and> v = int w)"
    proof (rule ex_cong1)
      fix w
      show "(49 \<le> hd s \<and> hd s \<le> 57 \<and> parse s = Some (w, []) \<and>
           w \<le> 9223372036854775807 \<and> v = int w) \<longleftrightarrow>
        (0 < w \<and> s = dec w \<and> w \<le> 9223372036854775807 \<and> v = int w)"
        using unsigned [OF 5(1), of w] by (auto simp: limits_defs)
    qed
    ultimately show ?thesis unfolding eq by blast
  qed
qed

lemma lpStringToInt64_eq: "lpStringToInt64 = string2ll"
  by (rule ext) (simp add: lpStringToInt64_def string2ll_def)

section \<open>Properties\<close>

lemma ull2string_short:
  "dstlen \<le> length (dec v) \<Longrightarrow> ull2string d dstlen v = (if dstlen > 0 then d[0 := 0] else d, 0)"
  by (simp add: ull2string_def digits10_length_dec)

lemma abs_ull_eq: "is_ll v \<Longrightarrow> v < 0 \<Longrightarrow> abs_ull v = nat (- v)"
  by (auto simp: abs_ull_def limits_defs)

lemma ll2string_ok:
  assumes "is_ll v" "length (dec_int v) < dstlen" "dstlen \<le> length d"
  shows "ll2string d dstlen v = (dec_int v @ 0 # drop (Suc (length (dec_int v))) d, length (dec_int v))"
proof (cases "v < 0")
  case True
  let ?w = "nat (- v)"
  have d: "length (dec ?w) < dstlen - 1" "dstlen - 1 \<le> length (tl d)"
    using assms True by (auto simp: dec_int_def)
  have "2 \<le> dstlen" using assms(2) True by (simp add: dec_int_def)
  with True d assms(1) show ?thesis
    by (simp add: ll2string_def abs_ull_eq ull2string_ok dec_int_def drop_Suc)
next
  case False
  with assms show ?thesis by (simp add: ll2string_def ull2string_ok dec_int_def)
qed

lemma sdigits10_eq: "is_ll v \<Longrightarrow> sdigits10 v = length (dec_int v)"
  by (simp add: sdigits10_def digits10_length_dec dec_int_def abs_ull_eq)

text \<open>C27. Writing a 64 bit integer: with a buffer that has room for the text and its
  terminator, \<open>ll2string\<close> stores exactly the canonical decimal notation followed by a NUL,
  leaves the rest of the buffer alone, and returns the length, which is what \<open>sdigits10\<close>
  predicts; parsing the text back with \<open>string2ll\<close> gives the integer.  With less room it
  returns 0.\<close>

theorem ll2string_correct:
  assumes v: "is_ll v" and d: "dstlen \<le> length d"
  shows "if length (dec_int v) < dstlen
     then ll2string d dstlen v
            = (dec_int v @ 0 # drop (Suc (length (dec_int v))) d, length (dec_int v))
          \<and> sdigits10 v = length (dec_int v)
          \<and> string2ll (take (snd (ll2string d dstlen v)) (fst (ll2string d dstlen v))) = Some v
     else snd (ll2string d dstlen v) = 0"
proof (cases "length (dec_int v) < dstlen")
  case True
  with assms show ?thesis
    by (simp add: ll2string_ok sdigits10_eq string2ll_iff)
next
  case False
  with v show ?thesis
    by (auto simp: ll2string_def dec_int_def abs_ull_eq ull2string_short split: prod.split)
qed

theorem ll2string_correct_witness:
  "fst (ll2string (replicate 5 7) 5 (-42)) = [45, 52, 50, 0, 7]"
proof -
  have "dec_int (-42) = [45, 52, 50]" by (simp add: dec_int_def dec_two)
  moreover have "is_ll (-42)" by (simp add: is_ll_def limits_defs)
  ultimately show ?thesis
    using ll2string_correct [of "-42" 5 "replicate 5 7"] by (simp add: numeral_eq_Suc)
qed

text \<open>\<open>string2ll\<close>, and its copy \<open>lpStringToInt64\<close> in the listpack code, accepts exactly
  the canonical decimal notation of the 64 bit integers: it returns a value precisely when the
  bytes are what \<open>ll2string\<close> writes for that value, so converting a string to an integer
  encoding and back never changes it, and every other string (leading zeroes, a plus sign,
  spaces, overflow) is rejected.\<close>

theorem string2ll_exact:
  "(string2ll s = Some v \<longleftrightarrow> is_ll v \<and> s = dec_int v)
   \<and> (lpStringToInt64 s = Some v \<longleftrightarrow> is_ll v \<and> s = dec_int v)
   \<and> (string2l s = Some v \<longleftrightarrow> is_ll v \<and> s = dec_int v)"
proof -
  have "string2l s = string2ll s"
  proof (cases "string2ll s")
    case (Some a)
    then have "is_ll a" using string2ll_iff [of s a] by simp
    with Some show ?thesis by (simp add: string2l_def is_ll_def)
  qed (simp add: string2l_def)
  then show ?thesis by (simp add: string2ll_iff lpStringToInt64_eq)
qed

end
