(* ===== verification/Listpack_Encoding.thy ===== *)
theory Listpack_Encoding
  imports Decimal Interfaces
begin

text \<open>
  The entry format of \<open>listpack.c\<close>: how integers, strings and the backward length of an
  entry are encoded and decoded.  A pointer into the listpack is an offset into its bytes.
  Functions that read through a pointer take the buffer and the offset; \<open>p ! i\<close> in the
  code is \<open>lp ! (p + i)\<close>.
\<close>

section \<open>Constants and macros\<close>

definition LP_HDR_SIZE :: nat where "LP_HDR_SIZE = 6"
definition LP_HDR_NUMELE_UNKNOWN :: nat where "LP_HDR_NUMELE_UNKNOWN = 65535"
definition LP_EOF :: u8 where "LP_EOF = 0xFF"

definition LP_ENCODING_IS_7BIT_UINT :: "u8 \<Rightarrow> bool" where
  "LP_ENCODING_IS_7BIT_UINT b \<longleftrightarrow> b AND 0x80 = 0"
definition LP_ENCODING_IS_6BIT_STR :: "u8 \<Rightarrow> bool" where
  "LP_ENCODING_IS_6BIT_STR b \<longleftrightarrow> b AND 0xC0 = 0x80"
definition LP_ENCODING_IS_13BIT_INT :: "u8 \<Rightarrow> bool" where
  "LP_ENCODING_IS_13BIT_INT b \<longleftrightarrow> b AND 0xE0 = 0xC0"
definition LP_ENCODING_IS_12BIT_STR :: "u8 \<Rightarrow> bool" where
  "LP_ENCODING_IS_12BIT_STR b \<longleftrightarrow> b AND 0xF0 = 0xE0"
definition LP_ENCODING_IS_16BIT_INT :: "u8 \<Rightarrow> bool" where
  "LP_ENCODING_IS_16BIT_INT b \<longleftrightarrow> b AND 0xFF = 0xF1"
definition LP_ENCODING_IS_24BIT_INT :: "u8 \<Rightarrow> bool" where
  "LP_ENCODING_IS_24BIT_INT b \<longleftrightarrow> b AND 0xFF = 0xF2"
definition LP_ENCODING_IS_32BIT_INT :: "u8 \<Rightarrow> bool" where
  "LP_ENCODING_IS_32BIT_INT b \<longleftrightarrow> b AND 0xFF = 0xF3"
definition LP_ENCODING_IS_64BIT_INT :: "u8 \<Rightarrow> bool" where
  "LP_ENCODING_IS_64BIT_INT b \<longleftrightarrow> b AND 0xFF = 0xF4"
definition LP_ENCODING_IS_32BIT_STR :: "u8 \<Rightarrow> bool" where
  "LP_ENCODING_IS_32BIT_STR b \<longleftrightarrow> b AND 0xFF = 0xF0"

lemmas lp_enc_tests =
  LP_ENCODING_IS_7BIT_UINT_def LP_ENCODING_IS_6BIT_STR_def LP_ENCODING_IS_13BIT_INT_def
  LP_ENCODING_IS_12BIT_STR_def LP_ENCODING_IS_16BIT_INT_def LP_ENCODING_IS_24BIT_INT_def
  LP_ENCODING_IS_32BIT_INT_def LP_ENCODING_IS_64BIT_INT_def LP_ENCODING_IS_32BIT_STR_def

definition LP_ENCODING_6BIT_STR_LEN :: "bytes \<Rightarrow> nat \<Rightarrow> nat" where
  "LP_ENCODING_6BIT_STR_LEN lp p = unat (lp ! p AND 0x3F)"

definition LP_ENCODING_12BIT_STR_LEN :: "bytes \<Rightarrow> nat \<Rightarrow> nat" where
  "LP_ENCODING_12BIT_STR_LEN lp p = push_bit 8 (unat (lp ! p AND 0xF)) OR unat (lp ! (p + 1))"

definition LP_ENCODING_32BIT_STR_LEN :: "bytes \<Rightarrow> nat \<Rightarrow> nat" where
  "LP_ENCODING_32BIT_STR_LEN lp p =
     unat (lp ! (p + 1)) OR push_bit 8 (unat (lp ! (p + 2)))
     OR push_bit 16 (unat (lp ! (p + 3))) OR push_bit 24 (unat (lp ! (p + 4)))"

text \<open>The header: 32 bit total bytes, 16 bit number of elements, both little endian.\<close>

definition lpGetTotalBytes :: "bytes \<Rightarrow> nat" where
  "lpGetTotalBytes lp =
     unat (lp ! 0) OR push_bit 8 (unat (lp ! 1)) OR push_bit 16 (unat (lp ! 2))
     OR push_bit 24 (unat (lp ! 3))"

definition lpGetNumElements :: "bytes \<Rightarrow> nat" where
  "lpGetNumElements lp = unat (lp ! 4) OR push_bit 8 (unat (lp ! 5))"

definition lpSetTotalBytes :: "bytes \<Rightarrow> nat \<Rightarrow> bytes" where
  "lpSetTotalBytes lp v =
     lp[0 := word_of_nat (v AND 0xff), 1 := word_of_nat (drop_bit 8 v AND 0xff),
        2 := word_of_nat (drop_bit 16 v AND 0xff), 3 := word_of_nat (drop_bit 24 v AND 0xff)]"

definition lpSetNumElements :: "bytes \<Rightarrow> nat \<Rightarrow> bytes" where
  "lpSetNumElements lp v =
     lp[4 := word_of_nat (v AND 0xff), 5 := word_of_nat (drop_bit 8 v AND 0xff)]"

section \<open>Encoding\<close>

definition lpEncodeIntegerGetType :: "int \<Rightarrow> bytes" where
  "lpEncodeIntegerGetType v =
     (if v \<ge> 0 \<and> v \<le> 127 then [word_of_int v]
      else if v \<ge> -4096 \<and> v \<le> 4095 then
        let v = (if v < 0 then 2 ^ 13 + v else v) in
        [word_of_int (drop_bit 8 v) OR 0xC0, word_of_int (v AND 0xff)]
      else if v \<ge> -32768 \<and> v \<le> 32767 then
        let v = (if v < 0 then 2 ^ 16 + v else v) in
        [0xF1, word_of_int (v AND 0xff), word_of_int (drop_bit 8 v)]
      else if v \<ge> -8388608 \<and> v \<le> 8388607 then
        let v = (if v < 0 then 2 ^ 24 + v else v) in
        [0xF2, word_of_int (v AND 0xff), word_of_int (drop_bit 8 v AND 0xff),
         word_of_int (drop_bit 16 v)]
      else if v \<ge> -2147483648 \<and> v \<le> 2147483647 then
        let v = (if v < 0 then 2 ^ 32 + v else v) in
        [0xF3, word_of_int (v AND 0xff), word_of_int (drop_bit 8 v AND 0xff),
         word_of_int (drop_bit 16 v AND 0xff), word_of_int (drop_bit 24 v)]
      else
        let uv = take_bit 64 v in
        [0xF4, word_of_int (uv AND 0xff), word_of_int (drop_bit 8 uv AND 0xff),
         word_of_int (drop_bit 16 uv AND 0xff), word_of_int (drop_bit 24 uv AND 0xff),
         word_of_int (drop_bit 32 uv AND 0xff), word_of_int (drop_bit 40 uv AND 0xff),
         word_of_int (drop_bit 48 uv AND 0xff), word_of_int (drop_bit 56 uv)])"

text \<open>The outcome of \<open>lpEncodeGetType\<close>: an integer encoding, or the size a string encoding
  will take.\<close>

datatype lp_enctype = EncInt bytes | EncString nat

definition lpEncodeGetType :: "bytes \<Rightarrow> lp_enctype" where
  "lpEncodeGetType ele =
     (case lpStringToInt64 ele of
        Some v \<Rightarrow> EncInt (lpEncodeIntegerGetType v)
      | None \<Rightarrow>
          EncString (if length ele < 64 then 1 + length ele
                     else if length ele < 4096 then 2 + length ele
                     else 5 + length ele))"

definition lpEncodeBacklen :: "nat \<Rightarrow> bytes" where
  "lpEncodeBacklen l =
     (if l \<le> 127 then [word_of_nat l]
      else if l < 16383 then
        [word_of_nat (drop_bit 7 l), word_of_nat (l AND 127) OR 128]
      else if l < 2097151 then
        [word_of_nat (drop_bit 14 l), word_of_nat (drop_bit 7 l AND 127) OR 128,
         word_of_nat (l AND 127) OR 128]
      else if l < 268435455 then
        [word_of_nat (drop_bit 21 l), word_of_nat (drop_bit 14 l AND 127) OR 128,
         word_of_nat (drop_bit 7 l AND 127) OR 128, word_of_nat (l AND 127) OR 128]
      else
        [word_of_nat (drop_bit 28 l), word_of_nat (drop_bit 21 l AND 127) OR 128,
         word_of_nat (drop_bit 14 l AND 127) OR 128, word_of_nat (drop_bit 7 l AND 127) OR 128,
         word_of_nat (l AND 127) OR 128])"

text \<open>The same function called with a null buffer: the number of bytes only.\<close>

definition lpBacklenSize :: "nat \<Rightarrow> nat" where
  "lpBacklenSize l =
     (if l \<le> 127 then 1 else if l < 16383 then 2 else if l < 2097151 then 3
      else if l < 268435455 then 4 else 5)"

text \<open>Decoding walks towards lower addresses; more than five bytes are an error, reported as
  \<open>UINT64_MAX\<close>.\<close>

function lpDecodeBacklen_loop :: "bytes \<Rightarrow> nat \<Rightarrow> nat \<Rightarrow> nat \<Rightarrow> nat" where
  "lpDecodeBacklen_loop lp p val shift =
     (let val = val OR push_bit shift (unat (lp ! p AND 127)) in
      if lp ! p AND 128 = 0 then val
      else let shift = shift + 7 in
        if shift > 28 then ULLONG_MAX
        else lpDecodeBacklen_loop lp (p - 1) val shift)"
  by pat_completeness auto
termination by (relation "measure (\<lambda>(lp, p, val, shift). 35 - shift)") auto

declare lpDecodeBacklen_loop.simps [simp del]

definition lpDecodeBacklen :: "bytes \<Rightarrow> nat \<Rightarrow> nat" where
  "lpDecodeBacklen lp p = lpDecodeBacklen_loop lp p 0 0"

definition lpEncodeString :: "bytes \<Rightarrow> bytes" where
  "lpEncodeString s =
     (let len = length s in
      if len < 64 then (word_of_nat len OR 0x80) # s
      else if len < 4096 then
        (word_of_nat (drop_bit 8 len) OR 0xE0) # word_of_nat (len AND 0xff) # s
      else
        0xF0 # word_of_nat (len AND 0xff) # word_of_nat (drop_bit 8 len AND 0xff)
          # word_of_nat (drop_bit 16 len AND 0xff) # word_of_nat (drop_bit 24 len AND 0xff) # s)"

section \<open>Decoding\<close>

text \<open>The result is a \<open>uint32_t\<close>.\<close>

definition lpCurrentEncodedSizeUnsafe :: "bytes \<Rightarrow> nat \<Rightarrow> nat" where
  "lpCurrentEncodedSizeUnsafe lp p =
     (let b = lp ! p in
      if LP_ENCODING_IS_7BIT_UINT b then 1
      else if LP_ENCODING_IS_6BIT_STR b then 1 + LP_ENCODING_6BIT_STR_LEN lp p
      else if LP_ENCODING_IS_13BIT_INT b then 2
      else if LP_ENCODING_IS_16BIT_INT b then 3
      else if LP_ENCODING_IS_24BIT_INT b then 4
      else if LP_ENCODING_IS_32BIT_INT b then 5
      else if LP_ENCODING_IS_64BIT_INT b then 9
      else if LP_ENCODING_IS_12BIT_STR b then 2 + LP_ENCODING_12BIT_STR_LEN lp p
      else if LP_ENCODING_IS_32BIT_STR b then (5 + LP_ENCODING_32BIT_STR_LEN lp p) mod 2 ^ 32
      else if b = LP_EOF then 1
      else 0)"

definition lpCurrentEncodedSizeBytes :: "bytes \<Rightarrow> nat \<Rightarrow> nat" where
  "lpCurrentEncodedSizeBytes lp p =
     (let b = lp ! p in
      if LP_ENCODING_IS_7BIT_UINT b then 1
      else if LP_ENCODING_IS_6BIT_STR b then 1
      else if LP_ENCODING_IS_13BIT_INT b then 1
      else if LP_ENCODING_IS_16BIT_INT b then 1
      else if LP_ENCODING_IS_24BIT_INT b then 1
      else if LP_ENCODING_IS_32BIT_INT b then 1
      else if LP_ENCODING_IS_64BIT_INT b then 1
      else if LP_ENCODING_IS_12BIT_STR b then 2
      else if LP_ENCODING_IS_32BIT_STR b then 5
      else if b = LP_EOF then 1
      else 0)"

text \<open>What \<open>lpGet\<close> hands back: a string inside the listpack, by offset and length, or an
  integer; and the size of the whole entry, which is not set for an unknown encoding.\<close>

datatype lp_value = LpString nat nat | LpInteger int

text \<open>The conversion of an unsigned encoded value to a signed one; \<open>negmax - uval\<close> is a
  \<open>uint64_t\<close> subtraction whose result is then taken as an \<open>int64_t\<close>.\<close>

definition lp_signed :: "nat \<Rightarrow> nat \<Rightarrow> nat \<Rightarrow> int" where
  "lp_signed uval negstart negmax =
     (if uval \<ge> negstart then
        let uval = nat ((int negmax - int uval) mod 2 ^ 64);
            val = signed_take_bit 63 (int uval)
        in - val - 1
      else int uval)"

definition lpGetWithSize :: "bytes \<Rightarrow> nat \<Rightarrow> lp_value \<times> nat option" where
  "lpGetWithSize lp p =
     (let b = lp ! p; at = (\<lambda>i. unat (lp ! (p + i))) in
      if LP_ENCODING_IS_7BIT_UINT b then
        (LpInteger (lp_signed (unat (b AND 0x7f)) ULLONG_MAX 0), Some 2)
      else if LP_ENCODING_IS_6BIT_STR b then
        let count = LP_ENCODING_6BIT_STR_LEN lp p in
        (LpString (p + 1) count, Some (1 + count + lpBacklenSize (count + 1)))
      else if LP_ENCODING_IS_13BIT_INT b then
        (LpInteger (lp_signed (push_bit 8 (unat (b AND 0x1f)) OR at 1) (2 ^ 12) 8191), Some 3)
      else if LP_ENCODING_IS_16BIT_INT b then
        (LpInteger (lp_signed (at 1 OR push_bit 8 (at 2)) (2 ^ 15) 65535), Some 4)
      else if LP_ENCODING_IS_24BIT_INT b then
        (LpInteger (lp_signed (at 1 OR push_bit 8 (at 2) OR push_bit 16 (at 3))
           (2 ^ 23) 16777215), Some 5)
      else if LP_ENCODING_IS_32BIT_INT b then
        (LpInteger (lp_signed (at 1 OR push_bit 8 (at 2) OR push_bit 16 (at 3)
           OR push_bit 24 (at 4)) (2 ^ 31) 4294967295), Some 6)
      else if LP_ENCODING_IS_64BIT_INT b then
        (LpInteger (lp_signed (at 1 OR push_bit 8 (at 2) OR push_bit 16 (at 3)
           OR push_bit 24 (at 4) OR push_bit 32 (at 5) OR push_bit 40 (at 6)
           OR push_bit 48 (at 7) OR push_bit 56 (at 8)) (2 ^ 63) ULLONG_MAX), Some 10)
      else if LP_ENCODING_IS_12BIT_STR b then
        let count = LP_ENCODING_12BIT_STR_LEN lp p in
        (LpString (p + 2) count, Some (2 + count + lpBacklenSize (count + 2)))
      else if LP_ENCODING_IS_32BIT_STR b then
        let count = LP_ENCODING_32BIT_STR_LEN lp p in
        (LpString (p + 5) count, Some (5 + count + lpBacklenSize (count + 5)))
      else (LpInteger (lp_signed (12345678900000000 + unat b) ULLONG_MAX 0), None))"

definition lpGet :: "bytes \<Rightarrow> nat \<Rightarrow> lp_value" where
  "lpGet lp p = fst (lpGetWithSize lp p)"

section \<open>Bits, bytes and arithmetic\<close>

lemma or_push_bit_add: "v < 2 ^ k \<Longrightarrow> v OR push_bit k x = v + 2 ^ k * (x::nat)"
proof -
  assume "v < 2 ^ k"
  then have "take_bit k v = v" by (simp add: take_bit_nat_eq_self)
  then have "v AND push_bit k x = take_bit k v AND push_bit k x" by simp
  also have "\<dots> = 0" by (rule bit_eqI) (auto simp: bit_simps)
  finally show ?thesis
    using disjunctive_add_eq_or [of v "push_bit k x"] by (simp add: push_bit_eq_mult mult.commute)
qed

lemma or_byte: "unat (a::u8) OR push_bit 8 x = unat a + 256 * x"
  using or_push_bit_add [of "unat a" 8 x] by simp

lemma push_bit_split:
  "push_bit 8 a OR push_bit 16 b = push_bit 8 (a OR push_bit 8 b)"
  "push_bit 16 a OR push_bit 24 b = push_bit 16 (a OR push_bit 8 b)"
  "push_bit 24 a OR push_bit 32 b = push_bit 24 (a OR push_bit 8 b)"
  "push_bit 32 a OR push_bit 40 b = push_bit 32 (a OR push_bit 8 b)"
  "push_bit 40 a OR push_bit 48 b = push_bit 40 (a OR push_bit 8 b)"
  "push_bit 48 a OR push_bit 56 b = push_bit 48 (a OR push_bit 8 b)" for a b :: nat
  by (simp_all add: push_bit_or)

lemma push_bit_split3:
  "push_bit 8 a OR (push_bit 16 b OR c) = push_bit 8 (a OR push_bit 8 b) OR c"
  for a b c :: nat
  by (simp add: push_bit_or or.assoc)

lemma or_bytes2: "unat (a::u8) OR push_bit 8 (unat (b::u8)) = nat_of_le [a, b]"
  by (simp add: or_byte)

lemma or_bytes3: "unat (a::u8) OR push_bit 8 (unat (b::u8)) OR push_bit 16 (unat (c::u8)) = nat_of_le [a, b, c]"
  by (simp add: or_byte push_bit_split or.assoc)

lemma or_bytes4: "unat (a::u8) OR push_bit 8 (unat (b::u8)) OR push_bit 16 (unat (c::u8))
    OR push_bit 24 (unat (d::u8)) = nat_of_le [a, b, c, d]"
  by (simp add: or_byte push_bit_split or.assoc)

lemma or_bytes8: "unat (a::u8) OR push_bit 8 (unat (b::u8)) OR push_bit 16 (unat (c::u8))
    OR push_bit 24 (unat (d::u8)) OR push_bit 32 (unat (e::u8)) OR push_bit 40 (unat (f::u8))
    OR push_bit 48 (unat (g::u8)) OR push_bit 56 (unat (h::u8)) = nat_of_le [a, b, c, d, e, f, g, h]"
  by (simp add: or_byte push_bit_split or.assoc)

lemmas or_bytes = or_bytes8 or_bytes4 or_bytes3 or_bytes2

lemma byte_and_ff: "(word_of_nat (v AND 255) :: u8) = word_of_nat v"
proof -
  have "v AND 255 = v mod 256"
    using take_bit_eq_mask [of 8 v] by (simp add: mask_eq_exp_minus_1 take_bit_eq_mod)
  then show ?thesis by (simp add: word_unat_eq_iff)
qed

lemma drop_bytes:
  "drop_bit 8 v = v div 256" "drop_bit 16 v = v div 65536" "drop_bit 24 v = v div 16777216" for v :: nat
  by (simp_all add: drop_bit_eq_div)

lemma le_of_nat_unfold:
  "le_of_nat 2 v = [word_of_nat v, word_of_nat (v div 256)]"
  "le_of_nat 3 v = [word_of_nat v, word_of_nat (v div 256), word_of_nat (v div 65536)]"
  "le_of_nat 4 v = [word_of_nat v, word_of_nat (v div 256), word_of_nat (v div 65536),
     word_of_nat (v div 16777216)]"
proof -
  show "le_of_nat 2 v = [word_of_nat v, word_of_nat (v div 256)]"
    unfolding nat_Suc by simp
  show "le_of_nat 3 v = [word_of_nat v, word_of_nat (v div 256), word_of_nat (v div 65536)]"
    unfolding nat_Suc by (simp add: div_mult2_eq [symmetric])
  show "le_of_nat 4 v = [word_of_nat v, word_of_nat (v div 256), word_of_nat (v div 65536),
     word_of_nat (v div 16777216)]"
    unfolding nat_Suc by (simp add: div_mult2_eq [symmetric])
qed

lemma le_bytes2: "[word_of_nat (v AND 255), word_of_nat (drop_bit 8 v AND 255)] = le_of_nat 2 v"
  by (simp add: byte_and_ff le_of_nat_unfold drop_bytes)

lemma le_bytes4: "[word_of_nat (v AND 255), word_of_nat (drop_bit 8 v AND 255),
    word_of_nat (drop_bit 16 v AND 255), word_of_nat (drop_bit 24 v AND 255)] = le_of_nat 4 v"
  by (simp add: byte_and_ff le_of_nat_unfold drop_bytes)

section \<open>The header\<close>

lemma lpGetTotalBytes_eq:
  "4 \<le> length lp \<Longrightarrow> lpGetTotalBytes lp = nat_of_le (take 4 lp)"
proof -
  assume "4 \<le> length lp"
  then have "take 4 lp = [lp ! 0, lp ! 1, lp ! 2, lp ! 3]"
    by (intro nth_equalityI) (auto simp: less_Suc_eq numeral_eq_Suc)
  then show ?thesis by (simp only: lpGetTotalBytes_def or_bytes4)
qed

lemma lpGetNumElements_eq:
  "6 \<le> length lp \<Longrightarrow> lpGetNumElements lp = nat_of_le (slice 4 2 lp)"
proof -
  assume "6 \<le> length lp"
  then have "slice 4 2 lp = [lp ! 4, lp ! 5]"
    by (intro nth_equalityI) (auto simp: less_Suc_eq numeral_eq_Suc nth_slice)
  then show ?thesis by (simp only: lpGetNumElements_def or_bytes2)
qed

lemma list_head4: "4 \<le> length xs \<Longrightarrow> \<exists>a b c d r. xs = a # b # c # d # r"
  by (auto simp: Suc_le_length_iff numeral_eq_Suc)

lemma list_head6: "6 \<le> length xs \<Longrightarrow> \<exists>h a b r. xs = h @ a # b # r \<and> length h = 4"
proof -
  assume six: "6 \<le> length xs"
  then obtain a t where t: "drop 4 xs = a # t" by (cases "drop 4 xs") auto
  have "length (drop 4 xs) = length xs - 4" by simp
  with six t obtain b r where "t = b # r" by (cases t) auto
  with t have "drop 4 xs = a # b # r" by simp
  then have "xs = take 4 xs @ a # b # r" by (metis append_take_drop_id)
  moreover have "length (take 4 xs) = 4" using six by simp
  ultimately show ?thesis by blast
qed

lemma lpSetTotalBytes_eq: "4 \<le> length lp \<Longrightarrow> lpSetTotalBytes lp v = le_of_nat 4 v @ drop 4 lp"
proof -
  assume "4 \<le> length lp"
  then obtain a b c d r where "lp = a # b # c # d # r"
    using list_head4 by blast
  then show ?thesis
    using le_bytes4 [of v] by (simp add: lpSetTotalBytes_def)
qed

lemma lpSetNumElements_eq:
  "6 \<le> length lp \<Longrightarrow> lpSetNumElements lp v = take 4 lp @ le_of_nat 2 v @ drop 6 lp"
proof -
  assume "6 \<le> length lp"
  then obtain h a b r where "lp = h @ a # b # r" "length h = 4"
    using list_head6 by blast
  then show ?thesis
    using le_bytes2 [of v] by (simp add: lpSetNumElements_def list_update_append)
qed

section \<open>Tests on the encoding byte, numerically\<close>

lemma unat_drop_byte: "unat (drop_bit k (b::u8)) = unat b div 2 ^ k"
  by (simp only: unsigned_drop_bit_eq) (simp add: drop_bit_eq_div take_bit_nat_eq_self)

lemma high_bits_eq:
  fixes b c :: u8
  assumes "k \<le> 8" "unat c < 2 ^ (8 - k)"
  shows "b AND push_bit k (mask (8 - k)) = push_bit k c \<longleftrightarrow> unat b div 2 ^ k = unat c"
proof -
  have "b AND push_bit k (mask (8 - k)) = push_bit k (drop_bit k b)"
    by (rule bit_word_eqI) (auto simp: bit_simps)
  moreover have "drop_bit k (push_bit k w) = w" if "unat w < 2 ^ (8 - k)" for w :: u8
  proof (rule bit_word_eqI)
    fix n assume "n < LENGTH(8)"
    moreover have "\<not> bit w n" if "8 - k \<le> n"
    proof -
      have "take_bit (8 - k) (unat w) = unat w"
        using \<open>unat w < 2 ^ (8 - k)\<close> by (simp add: take_bit_nat_eq_self)
      then have "\<not> bit (unat w) n" using that by (metis bit_take_bit_iff leD)
      then show ?thesis by (simp add: bit_unsigned_iff)
    qed
    ultimately show "bit (drop_bit k (push_bit k w)) n = bit w n"
      using assms(1) by (cases "8 - k \<le> n") (auto simp: bit_simps)
  qed
  moreover have "unat (drop_bit k b) < 2 ^ (8 - k)"
  proof -
    have "unat b < 2 ^ k * 2 ^ (8 - k)"
      using assms(1) unat_u8_less [of b] by (simp flip: power_add)
    then show ?thesis by (simp only: unat_drop_byte less_mult_imp_div_less mult.commute)
  qed
  ultimately have "b AND push_bit k (mask (8 - k)) = push_bit k c \<longleftrightarrow> drop_bit k b = c"
    using assms(2) by metis
  also have "\<dots> \<longleftrightarrow> unat b div 2 ^ k = unat c"
    by (simp only: word_unat_eq_iff unat_drop_byte)
  finally show ?thesis .
qed

lemma low_bits_unat: "unat ((b::u8) AND mask k) = unat b mod 2 ^ k"
  by (simp only: take_bit_eq_mask [symmetric] unsigned_take_bit_eq) (simp only: take_bit_eq_mod)

lemma lp_low_bits [simp]:
  "unat ((b::u8) AND 0x7f) = unat b mod 128" "unat (b AND 0x3F) = unat b mod 64"
  "unat (b AND 0x1f) = unat b mod 32" "unat (b AND 0xF) = unat b mod 16"
  using low_bits_unat [of b 7] low_bits_unat [of b 6] low_bits_unat [of b 5] low_bits_unat [of b 4]
  by (simp_all add: mask_eq_exp_minus_1)

lemma and_ff [simp]: "(b::u8) AND 255 = b"
proof -
  have "take_bit 8 b = b" using take_bit_length_eq [of b] by simp
  then show ?thesis by (simp add: take_bit_eq_mask mask_eq_exp_minus_1)
qed

lemma lp_test_unat:
  "(b::u8) AND 0x80 = 0 \<longleftrightarrow> unat b < 128"
  "b AND 0xC0 = 0x80 \<longleftrightarrow> unat b div 64 = 2"
  "b AND 0xE0 = 0xC0 \<longleftrightarrow> unat b div 32 = 6"
  "b AND 0xF0 = 0xE0 \<longleftrightarrow> unat b div 16 = 14"
  using high_bits_eq [of 7 0 b] high_bits_eq [of 6 2 b] high_bits_eq [of 5 6 b] high_bits_eq [of 4 14 b]
  by (simp_all add: mask_eq_exp_minus_1 push_bit_eq_mult div_eq_0_iff)

lemma byte_eq_unat: "(b::u8) = numeral n \<longleftrightarrow> unat b = unat (numeral n :: u8)"
  by (simp add: word_unat_eq_iff)

lemmas lp_tests = lp_enc_tests lp_test_unat LP_EOF_def

lemma unat_or_high: "n < 2 ^ k \<Longrightarrow> n < 256 \<Longrightarrow> 2 ^ k * m < 256 \<Longrightarrow>
    unat (word_of_nat n OR (word_of_nat (2 ^ k * m)) :: u8) = n + 2 ^ k * m"
proof -
  assume "n < 2 ^ k" "n < 256" and m: "2 ^ k * m < 256"
  have "unat (word_of_nat (2 ^ k * m) :: u8) = 2 ^ k * m"
    using m by (simp only: unat_byte_of_nat mod_less)
  then show ?thesis
    using or_push_bit_add [of n k m] \<open>n < 2 ^ k\<close> \<open>n < 256\<close>
    by (simp only: unsigned_or_eq unat_byte_of_nat mod_less push_bit_eq_mult mult.commute)
qed

lemma unat_or_tags:
  "n < 64 \<Longrightarrow> unat (word_of_nat n OR 0x80 :: u8) = n + 128"
  "n < 128 \<Longrightarrow> unat (word_of_nat n OR 128 :: u8) = n + 128"
  "n < 32 \<Longrightarrow> unat (word_of_nat n OR 0xC0 :: u8) = n + 192"
  "n < 16 \<Longrightarrow> unat (word_of_nat n OR 0xE0 :: u8) = n + 224"
  using unat_or_high [of n 6 2] unat_or_high [of n 7 1] unat_or_high [of n 5 6] unat_or_high [of n 4 14]
  by simp_all

section \<open>Integer entries\<close>

lemma byte_of_int:
  assumes "0 \<le> x"
  shows "(word_of_int x :: u8) = word_of_nat (nat x)"
    and "(word_of_int (x AND 255) :: u8) = word_of_nat (nat x)"
    and "(word_of_int (drop_bit k x) :: u8) = word_of_nat (nat x div 2 ^ k)"
    and "(word_of_int (drop_bit k x AND 255) :: u8) = word_of_nat (nat x div 2 ^ k)"
proof -
  obtain n where x: "x = int n" using assms by (metis nonneg_int_cases)
  have d: "drop_bit k x = int (n div 2 ^ k)"
    by (simp add: x drop_bit_eq_div zdiv_int)
  have a: "int m AND 255 = int (m AND 255)" for m
    by (simp add: of_nat_and_eq)
  show "(word_of_int x :: u8) = word_of_nat (nat x)"
    "(word_of_int (x AND 255) :: u8) = word_of_nat (nat x)"
    "(word_of_int (drop_bit k x) :: u8) = word_of_nat (nat x div 2 ^ k)"
    "(word_of_int (drop_bit k x AND 255) :: u8) = word_of_nat (nat x div 2 ^ k)"
    unfolding d unfolding x a by (simp_all add: byte_and_ff)
qed

lemma wrap_take_bit:
  assumes "0 < k" "- (2 ^ (k - 1)) \<le> v" "v < 2 ^ (k - 1)"
  shows "(if v < 0 then 2 ^ k + v else v) = take_bit k (v::int)"
proof -
  obtain j where k: "k = Suc j" using assms(1) by (cases k) auto
  have "(2 ^ k + v) mod 2 ^ k = 2 ^ k + v" if "v < 0"
    using assms that k by (intro mod_pos_pos_trivial) auto
  then have "v mod 2 ^ k = 2 ^ k + v" if "v < 0" using that by simp
  moreover have "v mod 2 ^ k = v" if "\<not> v < 0"
    using assms that k by (intro mod_pos_pos_trivial) auto
  ultimately show ?thesis by (simp add: take_bit_eq_mod)
qed

lemma le_of_nat_8:
  "le_of_nat 8 v = [word_of_nat v, word_of_nat (v div 256), word_of_nat (v div 65536),
     word_of_nat (v div 16777216), word_of_nat (v div 4294967296), word_of_nat (v div 1099511627776),
     word_of_nat (v div 281474976710656), word_of_nat (v div 72057594037927936)]"
proof -
  show ?thesis unfolding nat_Suc by (simp add: div_mult2_eq [symmetric])
qed

lemma fits_numeral:
  "fits 2 v \<longleftrightarrow> - 32768 \<le> v \<and> v \<le> 32767"
  "fits 3 v \<longleftrightarrow> - 8388608 \<le> v \<and> v \<le> 8388607"
  "fits 4 v \<longleftrightarrow> - 2147483648 \<le> v \<and> v \<le> 2147483647"
  "fits 8 v \<longleftrightarrow> is_ll v"
  by (auto simp: fits_def is_ll_def limits_defs)

text \<open>The integer encodings in terms of the little-endian codec.\<close>

lemma lpEncodeIntegerGetType_eq:
  "lpEncodeIntegerGetType v =
     (if 0 \<le> v \<and> v \<le> 127 then [word_of_nat (nat v)]
      else if - 4096 \<le> v \<and> v \<le> 4095 then
        [word_of_nat (nat (take_bit 13 v) div 256) OR 0xC0, word_of_nat (nat (take_bit 13 v))]
      else if fits 2 v then 0xF1 # le_of_int 2 v
      else if fits 3 v then 0xF2 # le_of_int 3 v
      else if fits 4 v then 0xF3 # le_of_int 4 v
      else 0xF4 # le_of_int 8 v)"
proof -
  have w13: "- 4096 \<le> v \<Longrightarrow> v \<le> 4095 \<Longrightarrow> (if v < 0 then 2 ^ 13 + v else v) = take_bit 13 v"
    by (rule wrap_take_bit) simp_all
  have w16: "- 32768 \<le> v \<Longrightarrow> v \<le> 32767 \<Longrightarrow> (if v < 0 then 2 ^ 16 + v else v) = take_bit 16 v"
    by (rule wrap_take_bit) simp_all
  have w24: "- 8388608 \<le> v \<Longrightarrow> v \<le> 8388607 \<Longrightarrow> (if v < 0 then 2 ^ 24 + v else v) = take_bit 24 v"
    by (rule wrap_take_bit) simp_all
  have w32: "- 2147483648 \<le> v \<Longrightarrow> v \<le> 2147483647 \<Longrightarrow> (if v < 0 then 2 ^ 32 + v else v) = take_bit 32 v"
    by (rule wrap_take_bit) simp_all
  have nn: "0 \<le> take_bit k v" for k by simp
  show ?thesis
    unfolding lpEncodeIntegerGetType_def Let_def fits_numeral
    apply (intro if_cong refl)
    subgoal by (simp only: byte_of_int(1))
    subgoal by (simp only: w13 byte_of_int [OF nn]) simp
    subgoal by (simp only: w16 byte_of_int [OF nn] le_of_int_def le_of_nat_unfold) simp
    subgoal by (simp only: w24 byte_of_int [OF nn] le_of_int_def le_of_nat_unfold) simp
    subgoal by (simp only: w32 byte_of_int [OF nn] le_of_int_def le_of_nat_unfold) simp
    subgoal by (simp only: byte_of_int [OF nn] le_of_int_def le_of_nat_8) simp
    done
qed

lemma lp_signed_eq:
  assumes "0 < k" "k \<le> 64" "uval < 2 ^ k"
  shows "lp_signed uval (2 ^ (k - 1)) (2 ^ k - 1) = signed_take_bit (k - 1) (int uval)"
proof -
  obtain j where k: "k = Suc j" using assms(1) by (cases k) auto
  have lt: "int uval < 2 * 2 ^ j" using assms(3) k by (metis of_nat_less_numeral_power_cancel_iff power_Suc)
  show ?thesis
  proof (cases "uval < 2 ^ j")
    case True
    then have "int uval < 2 ^ j" by (metis of_nat_less_numeral_power_cancel_iff)
    moreover have "- (2 ^ j) \<le> int uval" by (rule order.trans [of _ 0]) auto
    ultimately show ?thesis using True k by (simp add: lp_signed_def signed_take_bit_id)
  next
    case False
    then have ge: "2 ^ j \<le> int uval" by (metis not_less of_nat_less_numeral_power_cancel_iff)
    have j: "(2::int) ^ j \<le> 2 ^ 63" using assms(2) k by (intro power_increasing) auto
    let ?d = "2 * 2 ^ j - 1 - int uval"
    have m: "int (2 ^ k - 1) = 2 * 2 ^ j - 1" using k by (simp add: of_nat_diff)
    have d: "0 \<le> ?d" "?d < 2 ^ 63" using lt ge j by linarith+
    then have "?d mod 2 ^ 64 = ?d" by (intro mod_pos_pos_trivial) auto
    moreover have "signed_take_bit 63 ?d = ?d" using d by (intro signed_take_bit_id) auto
    ultimately have "lp_signed uval (2 ^ (k - 1)) (2 ^ k - 1) = int uval - 2 * 2 ^ j"
      using False k d m by (simp add: lp_signed_def Let_def)
    also have "\<dots> = signed_take_bit j (int uval - 2 * 2 ^ j)"
      using lt ge by (intro signed_take_bit_id [symmetric]) auto
    also have "\<dots> = signed_take_bit j (int uval)"
      by (subst signed_take_bit_eq_iff_take_bit_eq) (simp add: take_bit_eq_mod)
    finally show ?thesis using k by simp
  qed
qed

lemma lp_signed_le:
  assumes "n = length bs" "0 < n" "n \<le> 8"
  shows "lp_signed (nat_of_le bs) (2 ^ (8 * n - 1)) (2 ^ (8 * n) - 1) = int_of_le bs"
  using lp_signed_eq [of "8 * n" "nat_of_le bs"] nat_of_le_less [of bs] assms
  by (simp add: int_of_le_def power_mult)

section \<open>The backward length\<close>

text \<open>\<open>n\<close> groups of seven bits, the most significant first; all but the first carry the
  continuation bit.\<close>

fun backlen_bytes :: "nat \<Rightarrow> nat \<Rightarrow> bytes" where
  "backlen_bytes 0 l = []"
| "backlen_bytes (Suc 0) l = [word_of_nat l]"
| "backlen_bytes (Suc n) l = backlen_bytes n (l div 128) @ [word_of_nat (l mod 128 + 128)]"

lemma length_backlen_bytes [simp]: "length (backlen_bytes n l) = n"
  by (induction n l rule: backlen_bytes.induct) auto

lemma and_127: "l AND 127 = l mod 128" for l :: nat
  using take_bit_eq_mask [of 7 l] by (simp add: mask_eq_exp_minus_1 take_bit_eq_mod)

lemma unat_group: "unat (word_of_nat (l mod 128 + 128) :: u8) = l mod 128 + 128"
  by (simp only: unat_byte_of_nat) simp

lemma or_128: "(word_of_nat (l mod 128) OR 128 :: u8) = word_of_nat (l mod 128 + 128)"
  by (simp only: word_unat_eq_iff unat_group) (simp add: unat_or_tags)

lemma backlen_bytes_unfold:
  "backlen_bytes 1 l = [word_of_nat l]"
  "backlen_bytes 2 l = [word_of_nat (l div 128), word_of_nat (l mod 128 + 128)]"
  "backlen_bytes 3 l = [word_of_nat (l div 128 div 128), word_of_nat (l div 128 mod 128 + 128),
     word_of_nat (l mod 128 + 128)]"
  "backlen_bytes 4 l = [word_of_nat (l div 128 div 128 div 128),
     word_of_nat (l div 128 div 128 mod 128 + 128), word_of_nat (l div 128 mod 128 + 128),
     word_of_nat (l mod 128 + 128)]"
  "backlen_bytes 5 l = [word_of_nat (l div 128 div 128 div 128 div 128),
     word_of_nat (l div 128 div 128 div 128 mod 128 + 128),
     word_of_nat (l div 128 div 128 mod 128 + 128), word_of_nat (l div 128 mod 128 + 128),
     word_of_nat (l mod 128 + 128)]"
proof -
  show "backlen_bytes 1 l = [word_of_nat l]"
    unfolding nat_Suc by (simp only: backlen_bytes.simps append.simps)
  show "backlen_bytes 2 l = [word_of_nat (l div 128), word_of_nat (l mod 128 + 128)]"
    unfolding nat_Suc by (simp only: backlen_bytes.simps append.simps)
  show "backlen_bytes 3 l = [word_of_nat (l div 128 div 128), word_of_nat (l div 128 mod 128 + 128),
     word_of_nat (l mod 128 + 128)]"
    unfolding nat_Suc by (simp only: backlen_bytes.simps append.simps)
  show "backlen_bytes 4 l = [word_of_nat (l div 128 div 128 div 128),
     word_of_nat (l div 128 div 128 mod 128 + 128), word_of_nat (l div 128 mod 128 + 128),
     word_of_nat (l mod 128 + 128)]"
    unfolding nat_Suc by (simp only: backlen_bytes.simps append.simps)
  show "backlen_bytes 5 l = [word_of_nat (l div 128 div 128 div 128 div 128),
     word_of_nat (l div 128 div 128 div 128 mod 128 + 128),
     word_of_nat (l div 128 div 128 mod 128 + 128), word_of_nat (l div 128 mod 128 + 128),
     word_of_nat (l mod 128 + 128)]"
    unfolding nat_Suc by (simp only: backlen_bytes.simps append.simps)
qed

lemma lpBacklenSize_cases:
  "lpBacklenSize l = 1 \<or> lpBacklenSize l = 2 \<or> lpBacklenSize l = 3 \<or> lpBacklenSize l = 4 \<or> lpBacklenSize l = 5"
  by (simp add: lpBacklenSize_def)

lemma lpBacklenSize_bounds [simp]: "0 < lpBacklenSize l" "lpBacklenSize l \<le> 5"
  by (simp_all add: lpBacklenSize_def)

lemma lpEncodeBacklen_eq: "lpEncodeBacklen l = backlen_bytes (lpBacklenSize l) l"
proof -
  have d: "drop_bit 7 l = l div 128" "drop_bit 14 l = l div 128 div 128"
    "drop_bit 21 l = l div 128 div 128 div 128" "drop_bit 28 l = l div 128 div 128 div 128 div 128"
    by (simp_all add: drop_bit_eq_div div_mult2_eq [symmetric])
  show ?thesis
    unfolding lpEncodeBacklen_def lpBacklenSize_def d and_127 or_128
    by (simp only: if_distrib [of "\<lambda>n. backlen_bytes n l"] backlen_bytes_unfold)
qed

lemma length_lpEncodeBacklen [simp]: "length (lpEncodeBacklen l) = lpBacklenSize l"
  by (simp add: lpEncodeBacklen_eq)

lemma lpBacklenSize_enough: "l < 2 ^ 35 \<Longrightarrow> l < 128 ^ lpBacklenSize l"
  by (simp add: lpBacklenSize_def)

lemma backlen_bit: "(b::u8) AND 128 = 0 \<longleftrightarrow> unat b < 128"
  by (rule lp_test_unat)

lemma backlen_low: "unat ((b::u8) AND 127) = unat b mod 128"
  using lp_low_bits(1) by simp

lemma decode_step:
  assumes "val < 2 ^ shift"
  shows "unat (lp ! p) < 128 \<Longrightarrow> lpDecodeBacklen_loop lp p val shift = val + 2 ^ shift * unat (lp ! p)"
    and "\<not> unat (lp ! p) < 128 \<Longrightarrow> shift + 7 \<le> 28 \<Longrightarrow> lpDecodeBacklen_loop lp p val shift =
           lpDecodeBacklen_loop lp (p - 1) (val + 2 ^ shift * (unat (lp ! p) mod 128)) (shift + 7)"
  using assms by (subst lpDecodeBacklen_loop.simps;
      simp add: Let_def backlen_bit backlen_low or_push_bit_add)+

lemma lpDecodeBacklen_loop_bytes:
  assumes "l < 128 ^ n" "0 < n" "shift + 7 * n \<le> 35" "val < 2 ^ shift"
    and "slice q n lp = backlen_bytes n l" "q + n \<le> length lp"
  shows "lpDecodeBacklen_loop lp (q + n - 1) val shift = val + 2 ^ shift * l"
  using assms
proof (induction n arbitrary: l shift val)
  case (Suc n)
  note pre = Suc.prems
  show ?case
  proof (cases n)
    case 0
    have "lp ! q = word_of_nat l"
      using nth_slice [of 0 "Suc 0" q lp] pre(5,6) 0 by simp
    moreover have "l < 128" using pre(1) 0 by simp
    ultimately show ?thesis using decode_step(1) [OF pre(4)] 0 by simp
  next
    case (Suc m)
    have split: "backlen_bytes (Suc n) l = backlen_bytes n (l div 128) @ [word_of_nat (l mod 128 + 128)]"
      using Suc by simp
    have top: "lp ! (q + n) = word_of_nat (l mod 128 + 128)"
      using nth_slice [of n "Suc n" q lp] pre(5,6) split by (simp add: nth_append)
    have u: "unat (lp ! (q + n)) = l mod 128 + 128"
      by (simp only: top unat_group)
    have low: "slice q n lp = backlen_bytes n (l div 128)"
    proof -
      have "slice q n lp = take n (slice q (Suc n) lp)" by (simp add: slice_def)
      then show ?thesis using pre(5) split by simp
    qed
    have v: "val + 2 ^ shift * (l mod 128) < 2 ^ (shift + 7)"
    proof -
      have "val + 2 ^ shift * (l mod 128) < 2 ^ shift * Suc (l mod 128)" using pre(4) by simp
      also have "\<dots> \<le> 2 ^ shift * 128"
        by (intro mult_le_mono2) (simp add: Suc_le_eq)
      finally show ?thesis by (simp add: power_add)
    qed
    have "lpDecodeBacklen_loop lp (q + Suc n - 1) val shift
        = lpDecodeBacklen_loop lp (q + n - 1) (val + 2 ^ shift * (l mod 128)) (shift + 7)"
      using decode_step(2) [OF pre(4), of lp "q + n"] u pre(3) Suc by simp
    also have "\<dots> = val + 2 ^ shift * (l mod 128) + 2 ^ (shift + 7) * (l div 128)"
      using pre Suc v low by (intro Suc.IH) auto
    also have "\<dots> = val + 2 ^ shift * (l mod 128 + 128 * (l div 128))"
      by (simp only: power_add distrib_left mult.assoc) simp
    also have "l mod 128 + 128 * (l div 128) = l" by (rule mod_mult_div_eq)
    finally show ?thesis .
  qed
qed simp

text \<open>Reading backwards from the last byte of a backward length gives the length.\<close>

lemma lpDecodeBacklen_at:
  assumes "l < 2 ^ 35" "slice q (lpBacklenSize l) lp = lpEncodeBacklen l"
  shows "lpDecodeBacklen lp (q + lpBacklenSize l - 1) = l"
proof -
  have "lpBacklenSize l \<le> length lp - q"
    using arg_cong [OF assms(2), of length] by simp
  then have "q + lpBacklenSize l \<le> length lp"
    using lpBacklenSize_bounds(1) [of l] by arith
  then show ?thesis
    using lpDecodeBacklen_loop_bytes [of l "lpBacklenSize l" 0 0 q lp] assms
      lpBacklenSize_enough [OF assms(1)]
    by (simp add: lpDecodeBacklen_def lpEncodeBacklen_eq)
qed

section \<open>Entries as values\<close>

text \<open>What an entry stands for: the bytes of a string, or an integer.\<close>

datatype lp_ele = LpStr bytes | LpInt int

fun lp_deref :: "bytes \<Rightarrow> lp_value \<Rightarrow> lp_ele" where
  "lp_deref lp (LpString off n) = LpStr (slice off n lp)"
| "lp_deref lp (LpInteger v) = LpInt v"

definition dec_enc :: "bytes \<Rightarrow> lp_ele" where
  "dec_enc e = lp_deref e (lpGet e 0)"

text \<open>A well-formed encoded element, without its backward length.\<close>

definition valid_enc :: "bytes \<Rightarrow> bool" where
  "valid_enc e \<longleftrightarrow> e \<noteq> [] \<and> hd e \<noteq> LP_EOF \<and> lpCurrentEncodedSizeUnsafe e 0 = length e
     \<and> 0 < lpCurrentEncodedSizeBytes e 0 \<and> lpCurrentEncodedSizeBytes e 0 \<le> length e"

lemma valid_enc_pos [simp]: "valid_enc e \<Longrightarrow> 0 < length e"
  by (simp add: valid_enc_def)

lemma slice_eq_nth:
  "slice p (length e) lp = e \<Longrightarrow> i < length e \<Longrightarrow> lp ! (p + i) = e ! i"
proof -
  assume s: "slice p (length e) lp = e" and i: "i < length e"
  have "length (slice p (length e) lp) = length e" using s by simp
  then have "p + i < length lp" using i by simp
  then show ?thesis using nth_slice [OF i, of p lp] s by simp
qed

lemma slice_eq_length: "slice p (length e) lp = e \<Longrightarrow> 0 < length e \<Longrightarrow> p + length e \<le> length lp"
proof -
  assume s: "slice p (length e) lp = e" and i: "0 < length e"
  have "length e \<le> length lp - p" using arg_cong [OF s, of length] by simp
  then show ?thesis using i by arith
qed

text \<open>The sizes and the value of an entry depend only on its own bytes, and the size only on
  the bytes counted by \<open>lpCurrentEncodedSizeBytes\<close>.\<close>

lemma size_bytes_cong:
  "lp ! p = e ! q \<Longrightarrow> lpCurrentEncodedSizeBytes lp p = lpCurrentEncodedSizeBytes e q"
  by (simp add: lpCurrentEncodedSizeBytes_def)

lemma size_unsafe_cong:
  assumes "\<And>i. i < lpCurrentEncodedSizeBytes e q \<Longrightarrow> lp ! (p + i) = e ! (q + i)"
    and "lp ! p = e ! q"
  shows "lpCurrentEncodedSizeUnsafe lp p = lpCurrentEncodedSizeUnsafe e q"
  unfolding lpCurrentEncodedSizeUnsafe_def Let_def assms(2)
proof (intro if_cong refl)
  assume n: "\<not> LP_ENCODING_IS_7BIT_UINT (e ! q)" "\<not> LP_ENCODING_IS_6BIT_STR (e ! q)"
    "\<not> LP_ENCODING_IS_13BIT_INT (e ! q)" "\<not> LP_ENCODING_IS_16BIT_INT (e ! q)"
    "\<not> LP_ENCODING_IS_24BIT_INT (e ! q)" "\<not> LP_ENCODING_IS_32BIT_INT (e ! q)"
    "\<not> LP_ENCODING_IS_64BIT_INT (e ! q)"
  { assume "LP_ENCODING_IS_12BIT_STR (e ! q)"
    then have "lpCurrentEncodedSizeBytes e q = 2"
      using n by (simp add: lpCurrentEncodedSizeBytes_def)
    then show "2 + LP_ENCODING_12BIT_STR_LEN lp p = 2 + LP_ENCODING_12BIT_STR_LEN e q"
      using assms by (simp add: LP_ENCODING_12BIT_STR_LEN_def del: One_nat_def add_2_eq_Suc add_2_eq_Suc') }
  { assume "\<not> LP_ENCODING_IS_12BIT_STR (e ! q)" "LP_ENCODING_IS_32BIT_STR (e ! q)"
    then have "lpCurrentEncodedSizeBytes e q = 5"
      using n by (simp add: lpCurrentEncodedSizeBytes_def)
    then show "(5 + LP_ENCODING_32BIT_STR_LEN lp p) mod 2 ^ 32 = (5 + LP_ENCODING_32BIT_STR_LEN e q) mod 2 ^ 32"
      using assms by (simp add: LP_ENCODING_32BIT_STR_LEN_def del: One_nat_def add_2_eq_Suc add_2_eq_Suc') }
qed (simp add: LP_ENCODING_6BIT_STR_LEN_def assms(2))

lemma enc_sizes_at:
  assumes "valid_enc e" "slice p (length e) lp = e"
  shows "lp ! p = hd e"
    and "lpCurrentEncodedSizeBytes lp p = lpCurrentEncodedSizeBytes e 0"
    and "lpCurrentEncodedSizeUnsafe lp p = length e"
proof -
  note n = slice_eq_nth [OF assms(2)]
  have ne: "e \<noteq> []" using assms(1) by (simp add: valid_enc_def)
  then have n0: "lp ! p = e ! 0" using n [of 0] by simp
  then show "lp ! p = hd e" using ne by (simp add: hd_conv_nth)
  show "lpCurrentEncodedSizeBytes lp p = lpCurrentEncodedSizeBytes e 0"
    by (simp add: lpCurrentEncodedSizeBytes_def n0)
  have "lpCurrentEncodedSizeUnsafe lp p = lpCurrentEncodedSizeUnsafe e 0"
    using assms(1) n n0 by (intro size_unsafe_cong) (auto simp: valid_enc_def)
  then show "lpCurrentEncodedSizeUnsafe lp p = length e" using assms(1) by (simp add: valid_enc_def)
qed

lemma str32_fits:
  assumes "valid_enc e" "e ! 0 = 0xF0"
  shows "length e = 5 + LP_ENCODING_32BIT_STR_LEN e 0"
proof -
  have sz: "lpCurrentEncodedSizeBytes e 0 = 5"
    "lpCurrentEncodedSizeUnsafe e 0 = (5 + LP_ENCODING_32BIT_STR_LEN e 0) mod 2 ^ 32"
    by (simp_all add: lpCurrentEncodedSizeBytes_def lpCurrentEncodedSizeUnsafe_def lp_enc_tests assms(2))
  have "LP_ENCODING_32BIT_STR_LEN e 0 = nat_of_le [e ! 1, e ! 2, e ! 3, e ! 4]"
    by (simp only: LP_ENCODING_32BIT_STR_LEN_def or_bytes4 add_0)
  then have lt: "LP_ENCODING_32BIT_STR_LEN e 0 < 2 ^ 32"
    using nat_of_le_less [of "[e ! 1, e ! 2, e ! 3, e ! 4]"] by simp
  have ge: "5 \<le> (5 + LP_ENCODING_32BIT_STR_LEN e 0) mod 2 ^ 32"
    and len: "length e = (5 + LP_ENCODING_32BIT_STR_LEN e 0) mod 2 ^ 32"
    using assms(1) sz by (simp_all add: valid_enc_def)
  have "5 + LP_ENCODING_32BIT_STR_LEN e 0 < 2 ^ 32"
  proof (rule ccontr)
    assume c: "\<not> ?thesis"
    then have "(5 + LP_ENCODING_32BIT_STR_LEN e 0) mod 2 ^ 32 = 5 + LP_ENCODING_32BIT_STR_LEN e 0 - 2 ^ 32"
      using lt by (subst le_mod_geq) auto
    then show False using ge lt by simp
  qed
  then show ?thesis using len by simp
qed

lemma lp_tests_at [simp]:
  "\<not> LP_ENCODING_IS_7BIT_UINT 0xF1" "\<not> LP_ENCODING_IS_6BIT_STR 0xF1" "\<not> LP_ENCODING_IS_13BIT_INT 0xF1" "LP_ENCODING_IS_16BIT_INT 0xF1" "\<not> LP_ENCODING_IS_24BIT_INT 0xF1" "\<not> LP_ENCODING_IS_32BIT_INT 0xF1" "\<not> LP_ENCODING_IS_64BIT_INT 0xF1" "\<not> LP_ENCODING_IS_12BIT_STR 0xF1" "\<not> LP_ENCODING_IS_32BIT_STR 0xF1"
  "\<not> LP_ENCODING_IS_7BIT_UINT 0xF2" "\<not> LP_ENCODING_IS_6BIT_STR 0xF2" "\<not> LP_ENCODING_IS_13BIT_INT 0xF2" "\<not> LP_ENCODING_IS_16BIT_INT 0xF2" "LP_ENCODING_IS_24BIT_INT 0xF2" "\<not> LP_ENCODING_IS_32BIT_INT 0xF2" "\<not> LP_ENCODING_IS_64BIT_INT 0xF2" "\<not> LP_ENCODING_IS_12BIT_STR 0xF2" "\<not> LP_ENCODING_IS_32BIT_STR 0xF2"
  "\<not> LP_ENCODING_IS_7BIT_UINT 0xF3" "\<not> LP_ENCODING_IS_6BIT_STR 0xF3" "\<not> LP_ENCODING_IS_13BIT_INT 0xF3" "\<not> LP_ENCODING_IS_16BIT_INT 0xF3" "\<not> LP_ENCODING_IS_24BIT_INT 0xF3" "LP_ENCODING_IS_32BIT_INT 0xF3" "\<not> LP_ENCODING_IS_64BIT_INT 0xF3" "\<not> LP_ENCODING_IS_12BIT_STR 0xF3" "\<not> LP_ENCODING_IS_32BIT_STR 0xF3"
  "\<not> LP_ENCODING_IS_7BIT_UINT 0xF4" "\<not> LP_ENCODING_IS_6BIT_STR 0xF4" "\<not> LP_ENCODING_IS_13BIT_INT 0xF4" "\<not> LP_ENCODING_IS_16BIT_INT 0xF4" "\<not> LP_ENCODING_IS_24BIT_INT 0xF4" "\<not> LP_ENCODING_IS_32BIT_INT 0xF4" "LP_ENCODING_IS_64BIT_INT 0xF4" "\<not> LP_ENCODING_IS_12BIT_STR 0xF4" "\<not> LP_ENCODING_IS_32BIT_STR 0xF4"
  "\<not> LP_ENCODING_IS_7BIT_UINT 0xF0" "\<not> LP_ENCODING_IS_6BIT_STR 0xF0" "\<not> LP_ENCODING_IS_13BIT_INT 0xF0" "\<not> LP_ENCODING_IS_16BIT_INT 0xF0" "\<not> LP_ENCODING_IS_24BIT_INT 0xF0" "\<not> LP_ENCODING_IS_32BIT_INT 0xF0" "\<not> LP_ENCODING_IS_64BIT_INT 0xF0" "\<not> LP_ENCODING_IS_12BIT_STR 0xF0" "LP_ENCODING_IS_32BIT_STR 0xF0"
  by (simp_all add: lp_enc_tests)

lemma s12_neg:
  assumes "LP_ENCODING_IS_12BIT_STR b"
  shows "\<not> LP_ENCODING_IS_16BIT_INT b" "\<not> LP_ENCODING_IS_24BIT_INT b"
    "\<not> LP_ENCODING_IS_32BIT_INT b" "\<not> LP_ENCODING_IS_64BIT_INT b"
  using assms by (auto simp: lp_enc_tests)

lemma enc_cases:
  assumes "valid_enc e"
  obtains
    (u7) "LP_ENCODING_IS_7BIT_UINT (e ! 0)" "length e = 1"
  | (s6) "\<not> LP_ENCODING_IS_7BIT_UINT (e ! 0)" "LP_ENCODING_IS_6BIT_STR (e ! 0)"
      "length e = 1 + LP_ENCODING_6BIT_STR_LEN e 0"
  | (i13) "\<not> LP_ENCODING_IS_7BIT_UINT (e ! 0)" "\<not> LP_ENCODING_IS_6BIT_STR (e ! 0)"
      "LP_ENCODING_IS_13BIT_INT (e ! 0)" "length e = 2"
  | (i16) "e ! 0 = 0xF1" "length e = 3"
  | (i24) "e ! 0 = 0xF2" "length e = 4"
  | (i32) "e ! 0 = 0xF3" "length e = 5"
  | (i64) "e ! 0 = 0xF4" "length e = 9"
  | (s12) "\<not> LP_ENCODING_IS_7BIT_UINT (e ! 0)" "\<not> LP_ENCODING_IS_6BIT_STR (e ! 0)"
      "\<not> LP_ENCODING_IS_13BIT_INT (e ! 0)" "LP_ENCODING_IS_12BIT_STR (e ! 0)"
      "length e = 2 + LP_ENCODING_12BIT_STR_LEN e 0"
  | (s32) "e ! 0 = 0xF0" "length e = 5 + LP_ENCODING_32BIT_STR_LEN e 0"
proof -
  let ?b = "e ! 0"
  have ne: "?b \<noteq> 0xFF" "lpCurrentEncodedSizeUnsafe e 0 = length e" "lpCurrentEncodedSizeBytes e 0 \<noteq> 0"
    using assms by (auto simp: valid_enc_def hd_conv_nth LP_EOF_def)
  have fixed: "LP_ENCODING_IS_16BIT_INT ?b \<longleftrightarrow> ?b = 0xF1" "LP_ENCODING_IS_24BIT_INT ?b \<longleftrightarrow> ?b = 0xF2"
    "LP_ENCODING_IS_32BIT_INT ?b \<longleftrightarrow> ?b = 0xF3" "LP_ENCODING_IS_64BIT_INT ?b \<longleftrightarrow> ?b = 0xF4"
    "LP_ENCODING_IS_32BIT_STR ?b \<longleftrightarrow> ?b = 0xF0"
    by (simp_all add: lp_enc_tests)
  note sz = ne(2,3) [unfolded lpCurrentEncodedSizeUnsafe_def lpCurrentEncodedSizeBytes_def Let_def]
  show thesis
  proof (cases "LP_ENCODING_IS_7BIT_UINT ?b")
    case True
    then show ?thesis using sz(1) that(1) by simp
  next
    case False
    note c0 = False
    show ?thesis
  proof (cases "LP_ENCODING_IS_6BIT_STR ?b")
    case True
    then show ?thesis using c0 sz(1) that(2) by simp
  next
    case False
    note c1 = c0 False
    show ?thesis
  proof (cases "LP_ENCODING_IS_13BIT_INT ?b")
    case True
    then show ?thesis using c1 sz(1) that(3) by simp
  next
    case False
    note c2 = c1 False
    show ?thesis
  proof (cases "LP_ENCODING_IS_16BIT_INT ?b")
    case True
    then have "length e = 3" using c2 sz(1) by simp
    moreover have "?b = 0xF1" using True by (simp only: fixed)
    ultimately show ?thesis using that(4) by blast
  next
    case False
    note c3 = c2 False
    show ?thesis
  proof (cases "LP_ENCODING_IS_24BIT_INT ?b")
    case True
    then have "length e = 4" using c3 sz(1) by simp
    moreover have "?b = 0xF2" using True by (simp only: fixed)
    ultimately show ?thesis using that(5) by blast
  next
    case False
    note c4 = c3 False
    show ?thesis
  proof (cases "LP_ENCODING_IS_32BIT_INT ?b")
    case True
    then have "length e = 5" using c4 sz(1) by simp
    moreover have "?b = 0xF3" using True by (simp only: fixed)
    ultimately show ?thesis using that(6) by blast
  next
    case False
    note c5 = c4 False
    show ?thesis
  proof (cases "LP_ENCODING_IS_64BIT_INT ?b")
    case True
    then have "length e = 9" using c5 sz(1) by simp
    moreover have "?b = 0xF4" using True by (simp only: fixed)
    ultimately show ?thesis using that(7) by blast
  next
    case False
    note c6 = c5 False
    show ?thesis
  proof (cases "LP_ENCODING_IS_12BIT_STR ?b")
    case True
    then show ?thesis using c6 sz(1) that(8) by simp
  next
    case False
    note c7 = c6 False
    show ?thesis
  proof (cases "LP_ENCODING_IS_32BIT_STR ?b")
    case True
    then have "?b = 0xF0" by (simp only: fixed)
    with str32_fits [OF assms] show ?thesis using that(9) by blast
  next
    case False
    note c8 = c7 False
    show ?thesis
    using c8 sz ne(1) by (simp add: LP_EOF_def)
  qed
  qed
  qed
  qed
  qed
  qed
  qed
  qed
  qed
qed

text \<open>Reading an entry: the whole size is the encoding and its backward length, and the value
  is the one of its own bytes.\<close>

lemma lpGet_at:
  assumes e: "valid_enc e" "slice p (length e) lp = e"
  shows "snd (lpGetWithSize lp p) = Some (length e + lpBacklenSize (length e))"
    and "lp_deref lp (lpGet lp p) = dec_enc e"
    and "lpGet lp p = LpString off n \<Longrightarrow> p < off \<and> off + n = p + length e"
proof -
  note n = slice_eq_nth [OF e(2)]
  have n0: "lp ! p = e ! 0" using n [of 0] valid_enc_pos [OF e(1)] by simp
  have at: "lp ! (p + i) = e ! i" if "i < length e" for i using n that .
  have sl: "slice (p + k) m lp = slice k m e" if "k + m \<le> length e" for k m
    using slice_slice [of k m "length e" p lp] that e(2) by simp
  note defs = lpGetWithSize_def lpGet_def dec_enc_def Let_def n0
  note len = LP_ENCODING_6BIT_STR_LEN_def LP_ENCODING_12BIT_STR_LEN_def LP_ENCODING_32BIT_STR_LEN_def
  note del_simps = One_nat_def add_2_eq_Suc add_2_eq_Suc'
  have "snd (lpGetWithSize lp p) = Some (length e + lpBacklenSize (length e))
    \<and> lp_deref lp (lpGet lp p) = dec_enc e
    \<and> (lpGet lp p = LpString off n \<longrightarrow> p < off \<and> off + n = p + length e)"
    using e(1)
  proof (cases rule: enc_cases)
    case u7 then show ?thesis by (simp add: defs lpBacklenSize_def)
  next
    case s6 then show ?thesis
      using sl [of 1 "LP_ENCODING_6BIT_STR_LEN e 0"]
      by (auto simp add: defs len add.commute simp del: del_simps)
  next
    case i13 then show ?thesis
      by (simp add: defs lpBacklenSize_def at del: del_simps)
  next
    case i16 then show ?thesis
      by (simp add: defs lpBacklenSize_def at del: del_simps)
  next
    case i24 then show ?thesis
      by (simp add: defs lpBacklenSize_def at del: del_simps)
  next
    case i32 then show ?thesis
      by (simp add: defs lpBacklenSize_def at del: del_simps)
  next
    case i64 then show ?thesis
      by (simp add: defs lpBacklenSize_def at del: del_simps)
  next
    case s12
    then have "LP_ENCODING_12BIT_STR_LEN lp p = LP_ENCODING_12BIT_STR_LEN e 0"
      by (simp add: len n0 at del: del_simps)
    then show ?thesis
      using s12 sl [of 2 "LP_ENCODING_12BIT_STR_LEN e 0"]
      by (auto simp add: defs s12_neg add.commute simp del: del_simps)
  next
    case s32
    then have "LP_ENCODING_32BIT_STR_LEN lp p = LP_ENCODING_32BIT_STR_LEN e 0"
      by (simp add: len n0 at del: del_simps)
    then show ?thesis
      using s32 sl [of 5 "LP_ENCODING_32BIT_STR_LEN e 0"]
      by (auto simp add: defs add.commute simp del: del_simps)
  qed
  then show "snd (lpGetWithSize lp p) = Some (length e + lpBacklenSize (length e))"
    "lp_deref lp (lpGet lp p) = dec_enc e"
    "lpGet lp p = LpString off n \<Longrightarrow> p < off \<and> off + n = p + length e" by auto
qed

lemma lp_signed_le_numeral:
  "length bs = 2 \<Longrightarrow> lp_signed (nat_of_le bs) 32768 65535 = int_of_le bs"
  "length bs = 3 \<Longrightarrow> lp_signed (nat_of_le bs) 8388608 16777215 = int_of_le bs"
  "length bs = 4 \<Longrightarrow> lp_signed (nat_of_le bs) 2147483648 4294967295 = int_of_le bs"
  "length bs = 8 \<Longrightarrow> lp_signed (nat_of_le bs) 9223372036854775808 ULLONG_MAX = int_of_le bs"
  using lp_signed_le [of 2 bs] lp_signed_le [of 3 bs] lp_signed_le [of 4 bs] lp_signed_le [of 8 bs]
  by (simp_all add: ULLONG_MAX_def)

lemma list_of_length:
  "length bs = 2 \<Longrightarrow> \<exists>a b. bs = [a, b]"
  "length bs = 3 \<Longrightarrow> \<exists>a b c. bs = [a, b, c]"
  "length bs = 4 \<Longrightarrow> \<exists>a b c d. bs = [a, b, c, d]"
  "length bs = 8 \<Longrightarrow> \<exists>a b c d e f g h. bs = [a, b, c, d, e, f, g, h]"
proof -
  show "length bs = 2 \<Longrightarrow> \<exists>a b. bs = [a, b]"
    unfolding nat_Suc by (simp only: length_Suc_conv length_0_conv) blast
  show "length bs = 3 \<Longrightarrow> \<exists>a b c. bs = [a, b, c]"
    unfolding nat_Suc by (simp only: length_Suc_conv length_0_conv) blast
  show "length bs = 4 \<Longrightarrow> \<exists>a b c d. bs = [a, b, c, d]"
    unfolding nat_Suc by (simp only: length_Suc_conv length_0_conv) blast
  show "length bs = 8 \<Longrightarrow> \<exists>a b c d e f g h. bs = [a, b, c, d, e, f, g, h]"
    unfolding nat_Suc by (simp only: length_Suc_conv length_0_conv) blast
qed

lemma int_entries:
  "length bs = 2 \<Longrightarrow> valid_enc (0xF1 # bs) \<and> dec_enc (0xF1 # bs) = LpInt (int_of_le bs)"
  "length bs = 3 \<Longrightarrow> valid_enc (0xF2 # bs) \<and> dec_enc (0xF2 # bs) = LpInt (int_of_le bs)"
  "length bs = 4 \<Longrightarrow> valid_enc (0xF3 # bs) \<and> dec_enc (0xF3 # bs) = LpInt (int_of_le bs)"
  "length bs = 8 \<Longrightarrow> valid_enc (0xF4 # bs) \<and> dec_enc (0xF4 # bs) = LpInt (int_of_le bs)"
proof -
  note defs = valid_enc_def dec_enc_def lpGet_def lpGetWithSize_def lpCurrentEncodedSizeUnsafe_def
    lpCurrentEncodedSizeBytes_def Let_def LP_EOF_def
  show "valid_enc (0xF1 # bs) \<and> dec_enc (0xF1 # bs) = LpInt (int_of_le bs)" if l: "length bs = 2"
  proof -
    from list_of_length(1) [OF l] obtain a b where bs: "bs = [a, b]" by blast
    show ?thesis
      using lp_signed_le_numeral(1) [OF l] by (simp add: defs bs or_bytes [unfolded nat_of_le.simps])
  qed
  show "valid_enc (0xF2 # bs) \<and> dec_enc (0xF2 # bs) = LpInt (int_of_le bs)" if l: "length bs = 3"
  proof -
    from list_of_length(2) [OF l] obtain a b c where bs: "bs = [a, b, c]" by blast
    show ?thesis
      using lp_signed_le_numeral(2) [OF l] by (simp add: defs bs or_bytes [unfolded nat_of_le.simps])
  qed
  show "valid_enc (0xF3 # bs) \<and> dec_enc (0xF3 # bs) = LpInt (int_of_le bs)" if l: "length bs = 4"
  proof -
    from list_of_length(3) [OF l] obtain a b c d where bs: "bs = [a, b, c, d]" by blast
    show ?thesis
      using lp_signed_le_numeral(3) [OF l] by (simp add: defs bs or_bytes [unfolded nat_of_le.simps])
  qed
  show "valid_enc (0xF4 # bs) \<and> dec_enc (0xF4 # bs) = LpInt (int_of_le bs)" if l: "length bs = 8"
  proof -
    from list_of_length(4) [OF l] obtain a b c d e f g h where bs: "bs = [a, b, c, d, e, f, g, h]"
      by blast
    show ?thesis
      using lp_signed_le_numeral(4) [OF l] by (simp add: defs bs or_bytes [unfolded nat_of_le.simps])
  qed
qed

lemma small_int_entry:
  assumes "0 \<le> v" "v \<le> 127"
  shows "valid_enc [word_of_nat (nat v)]" "dec_enc [word_of_nat (nat v)] = LpInt v"
proof -
  have u: "unat (word_of_nat (nat v) :: u8) = nat v"
    using assms by (simp only: unat_byte_of_nat) simp
  have b: "LP_ENCODING_IS_7BIT_UINT (word_of_nat (nat v))"
    using assms by (simp only: LP_ENCODING_IS_7BIT_UINT_def lp_test_unat u)
  have "word_of_nat (nat v) \<noteq> LP_EOF"
    using u assms by (simp only: LP_EOF_def word_unat_eq_iff) simp
  then show "valid_enc [word_of_nat (nat v)]"
    using b by (simp add: valid_enc_def lpCurrentEncodedSizeUnsafe_def lpCurrentEncodedSizeBytes_def
        del: of_nat_nat)
  show "dec_enc [word_of_nat (nat v)] = LpInt v"
    using b u assms by (simp add: dec_enc_def lpGet_def lpGetWithSize_def lp_signed_def ULLONG_MAX_def
        del: of_nat_nat)
qed

lemma int13_entry:
  assumes "- 4096 \<le> v" "v \<le> 4095"
  defines "e \<equiv> [word_of_nat (nat (take_bit 13 v) div 256) OR 0xC0, word_of_nat (nat (take_bit 13 v))]"
  shows "valid_enc e" "dec_enc e = LpInt v"
proof -
  define n where "n = nat (take_bit 13 v)"
  have n: "n < 8192" by (simp add: n_def nat_less_iff take_bit_int_less_exp [of 13 v, simplified])
  have h: "n div 256 < 32" using n by (simp add: less_mult_imp_div_less)
  have u: "unat (word_of_nat (n div 256) OR 0xC0 :: u8) = n div 256 + 192"
    using unat_or_tags(3) [OF h] .
  have e: "e = [word_of_nat (n div 256) OR 0xC0, word_of_nat n]" by (simp only: e_def n_def)
  have b: "\<not> LP_ENCODING_IS_7BIT_UINT (e ! 0)" "\<not> LP_ENCODING_IS_6BIT_STR (e ! 0)"
    "LP_ENCODING_IS_13BIT_INT (e ! 0)" "hd e \<noteq> LP_EOF"
  proof -
    have "(n div 256 + 192) div 64 = 3" "(n div 256 + 192) div 32 = 6" using h by (simp_all add: div_nat_eqI)
    then show "\<not> LP_ENCODING_IS_7BIT_UINT (e ! 0)" "\<not> LP_ENCODING_IS_6BIT_STR (e ! 0)"
      "LP_ENCODING_IS_13BIT_INT (e ! 0)"
      unfolding e by (simp_all only: nth_Cons_0 lp_enc_tests lp_test_unat u)
    show "hd e \<noteq> LP_EOF"
      using h unfolding e by (simp only: list.sel LP_EOF_def word_unat_eq_iff u) simp
  qed
  show "valid_enc e"
    using b by (simp add: valid_enc_def lpCurrentEncodedSizeUnsafe_def lpCurrentEncodedSizeBytes_def
        Let_def) (simp add: e)
  have "unat (e ! 0 AND 0x1f) = n div 256"
    using h by (simp only: e nth_Cons_0 lp_low_bits u) (simp add: mod_if)
  moreover have "unat (e ! 1) = n mod 256" by (simp add: e)
  ultimately have "push_bit 8 (unat (e ! 0 AND 0x1f)) OR unat (e ! 1) = n"
    using or_byte [of "e ! 1" "n div 256"] by (simp add: or.commute)
  then have "dec_enc e = LpInt (lp_signed n (2 ^ 12) 8191)"
    using b by (simp add: dec_enc_def lpGet_def lpGetWithSize_def Let_def del: One_nat_def)
  also have "lp_signed n (2 ^ 12) 8191 = signed_take_bit 12 (int n)"
    using lp_signed_eq [of 13 n] n by simp
  also have "int n = take_bit 13 v" by (simp add: n_def)
  also have "signed_take_bit 12 (take_bit 13 v) = v"
    using assms(1,2) by (simp add: signed_take_bit_take_bit signed_take_bit_id)
  finally show "dec_enc e = LpInt v" .
qed

lemma lpEncodeInteger_entry:
  assumes "is_ll v"
  shows "valid_enc (lpEncodeIntegerGetType v)" "dec_enc (lpEncodeIntegerGetType v) = LpInt v"
proof -
  have "valid_enc (lpEncodeIntegerGetType v) \<and> dec_enc (lpEncodeIntegerGetType v) = LpInt v"
    using assms small_int_entry [of v] int13_entry [of v]
      int_entries(1) [of "le_of_int 2 v"] int_entries(2) [of "le_of_int 3 v"]
      int_entries(3) [of "le_of_int 4 v"] int_entries(4) [of "le_of_int 8 v"] fits_numeral(4) [of v]
    unfolding lpEncodeIntegerGetType_eq by (simp del: of_nat_nat)
  then show "valid_enc (lpEncodeIntegerGetType v)" "dec_enc (lpEncodeIntegerGetType v) = LpInt v"
    by auto
qed


lemma string_entry_short:
  assumes "length s < 64"
  shows "valid_enc (lpEncodeString s)" "dec_enc (lpEncodeString s) = LpStr s"
proof -
  let ?b = "word_of_nat (length s) OR 0x80 :: u8"
  have u: "unat ?b = length s + 128" using unat_or_tags(1) assms by blast
  have "(length s + 128) div 64 = 2" using assms by (simp add: div_nat_eqI)
  then have b: "\<not> LP_ENCODING_IS_7BIT_UINT ?b" "LP_ENCODING_IS_6BIT_STR ?b"
    by (simp_all only: lp_enc_tests lp_test_unat u)
  have low: "unat (?b AND 0x3F) = length s"
    using assms by (simp only: lp_low_bits u) (simp add: mod_if)
  have "?b \<noteq> LP_EOF"
    using assms by (simp only: LP_EOF_def word_unat_eq_iff u) simp
  then show "valid_enc (lpEncodeString s)"
    using b low assms by (simp add: valid_enc_def lpEncodeString_def lpCurrentEncodedSizeUnsafe_def
        lpCurrentEncodedSizeBytes_def LP_ENCODING_6BIT_STR_LEN_def Let_def del: lp_low_bits)
  show "dec_enc (lpEncodeString s) = LpStr s"
    using b low assms by (simp add: dec_enc_def lpEncodeString_def lpGet_def lpGetWithSize_def
        LP_ENCODING_6BIT_STR_LEN_def Let_def slice_def del: lp_low_bits)
qed

lemma string_entry_medium:
  assumes "64 \<le> length s" "length s < 4096"
  shows "valid_enc (lpEncodeString s)" "dec_enc (lpEncodeString s) = LpStr s"
proof -
  let ?k = "length s div 256"
  let ?b = "word_of_nat ?k OR 0xE0 :: u8"
  have k: "?k < 16" using assms by (simp add: less_mult_imp_div_less)
  have u: "unat ?b = ?k + 224" using unat_or_tags(4) k by blast
  have "(?k + 224) div 64 = 3" "(?k + 224) div 32 = 7" "(?k + 224) div 16 = 14"
    using k by (simp_all add: div_nat_eqI)
  then have b: "\<not> LP_ENCODING_IS_7BIT_UINT ?b" "\<not> LP_ENCODING_IS_6BIT_STR ?b"
    "\<not> LP_ENCODING_IS_13BIT_INT ?b" "LP_ENCODING_IS_12BIT_STR ?b"
    by (simp_all only: lp_enc_tests lp_test_unat u)
  have low: "unat (?b AND 0xF) = ?k"
    using k by (simp only: lp_low_bits u) (simp add: mod_if)
  have e: "lpEncodeString s = ?b # word_of_nat (length s) # s"
    using assms by (simp add: lpEncodeString_def Let_def byte_and_ff drop_bit_eq_div)
  have len: "LP_ENCODING_12BIT_STR_LEN (lpEncodeString s) 0 = length s"
  proof -
    have "LP_ENCODING_12BIT_STR_LEN (lpEncodeString s) 0
        = unat (word_of_nat (length s) :: u8) OR push_bit 8 ?k"
      using low by (simp add: LP_ENCODING_12BIT_STR_LEN_def e or.commute del: lp_low_bits unat_byte_of_nat)
    also have "\<dots> = length s" by (simp add: or_byte del: unat_byte_of_nat) simp
    finally show ?thesis .
  qed
  have "?b \<noteq> LP_EOF"
    using k by (simp only: LP_EOF_def word_unat_eq_iff u) simp
  then show "valid_enc (lpEncodeString s)"
    using b s12_neg [OF b(4)] len by (simp add: valid_enc_def lpCurrentEncodedSizeUnsafe_def
        lpCurrentEncodedSizeBytes_def Let_def) (simp add: e)
  have "lpGet (lpEncodeString s) 0 = LpString 2 (length s)"
    using b s12_neg [OF b(4)] len by (simp add: lpGet_def lpGetWithSize_def Let_def) (simp add: e)
  then show "dec_enc (lpEncodeString s) = LpStr s"
    by (simp add: dec_enc_def e slice_def)
qed

lemma string_entry_long:
  assumes "4096 \<le> length s" "length s + 5 < 2 ^ 32"
  shows "valid_enc (lpEncodeString s)" "dec_enc (lpEncodeString s) = LpStr s"
proof -
  have e: "lpEncodeString s = 0xF0 # le_of_nat 4 (length s) @ s"
    using assms(1) by (simp add: lpEncodeString_def Let_def le_bytes4 [symmetric])
  have len: "LP_ENCODING_32BIT_STR_LEN (lpEncodeString s) 0 = length s"
  proof -
    have "LP_ENCODING_32BIT_STR_LEN (lpEncodeString s) 0 = nat_of_le (le_of_nat 4 (length s))"
      by (simp only: LP_ENCODING_32BIT_STR_LEN_def e le_of_nat_unfold or_bytes4)
        (simp add: numeral_2_eq_2 or_bytes4 [symmetric] del: unat_byte_of_nat)
    then show ?thesis using assms(2) by simp
  qed
  have b: "lpEncodeString s ! 0 = 0xF0" "hd (lpEncodeString s) = 0xF0" by (simp_all add: e)
  show "valid_enc (lpEncodeString s)"
    using assms(2) len by (simp add: valid_enc_def lpCurrentEncodedSizeUnsafe_def b
        lpCurrentEncodedSizeBytes_def Let_def LP_EOF_def) (simp add: e)
  have "lpGet (lpEncodeString s) 0 = LpString 5 (length s)"
    using len by (simp add: lpGet_def lpGetWithSize_def Let_def b)
  then show "dec_enc (lpEncodeString s) = LpStr s"
    by (simp add: dec_enc_def e slice_def)
qed

lemma lpEncodeString_entry:
  assumes "length s + 5 < 2 ^ 32"
  shows "valid_enc (lpEncodeString s)" "dec_enc (lpEncodeString s) = LpStr s"
  using assms string_entry_short [of s] string_entry_medium [of s] string_entry_long [of s]
  by (meson linorder_not_less)+

lemma length_lpEncodeString:
  "length (lpEncodeString s) =
     (if length s < 64 then 1 else if length s < 4096 then 2 else 5) + length s"
  by (simp add: lpEncodeString_def Let_def)

lemma length_lpEncodeInteger: "length (lpEncodeIntegerGetType v) \<le> 9" "0 < length (lpEncodeIntegerGetType v)"
  by (simp_all add: lpEncodeIntegerGetType_eq)

end
