(* ===== verification/Listpack.thy ===== *)
theory Listpack
  imports Listpack_Encoding
begin

text \<open>
  The operations of \<open>listpack.c\<close>.  A listpack is its allocation: a byte list whose length is
  what \<open>lp_malloc_size\<close> returns, of which the header's total-bytes field counts the used
  prefix.  A pointer into it is an offset; a pointer computed below the start is out of
  range, as the offset 0 is, and every use of such a pointer is guarded by a range check.
  A failed \<open>assert\<close> aborts the server: operations that assert return \<open>None\<close> then.  A pointer
  that may be \<open>NULL\<close> is a \<open>nat option\<close>, inside the result.
\<close>

section \<open>Creation and traversal\<close>

definition LISTPACK_MAX_SAFETY_SIZE :: nat where "LISTPACK_MAX_SAFETY_SIZE = 2 ^ 30"

definition lpSafeToAdd :: "bytes option \<Rightarrow> nat \<Rightarrow> bool" where
  "lpSafeToAdd lp add =
     (let len = (case lp of Some lp \<Rightarrow> lpGetTotalBytes lp | None \<Rightarrow> 0) in
      if (len + add) mod 2 ^ 64 > LISTPACK_MAX_SAFETY_SIZE then False else True)"

definition lpNew :: "nat \<Rightarrow> bytes" where
  "lpNew capacity =
     (let lp = realloc_bytes (if capacity > LP_HDR_SIZE + 1 then capacity else LP_HDR_SIZE + 1) [];
          lp = lpSetTotalBytes lp (LP_HDR_SIZE + 1);
          lp = lpSetNumElements lp 0
      in lp[LP_HDR_SIZE := LP_EOF])"

definition lpShrinkToFit :: "bytes \<Rightarrow> bytes" where
  "lpShrinkToFit lp =
     (let size = lpGetTotalBytes lp in
      if size < length lp then realloc_bytes size lp else lp)"

definition lpBytes :: "bytes \<Rightarrow> nat" where
  "lpBytes lp = lpGetTotalBytes lp"

definition lpSkip :: "bytes \<Rightarrow> nat \<Rightarrow> nat" where
  "lpSkip lp p =
     (let entrylen = lpCurrentEncodedSizeUnsafe lp p;
          entrylen = entrylen + lpBacklenSize entrylen
      in p + entrylen)"

text \<open>\<open>lpValidateNext\<close>: \<open>None\<close> when the entry is invalid, otherwise the advanced cursor, which
  is \<open>NULL\<close> at the end.\<close>

definition OUT_OF_RANGE :: "nat \<Rightarrow> nat \<Rightarrow> bool" where
  "OUT_OF_RANGE lpbytes p \<longleftrightarrow> p < LP_HDR_SIZE \<or> int p > int lpbytes - 1"

definition lpValidateNext :: "bytes \<Rightarrow> nat option \<Rightarrow> nat \<Rightarrow> nat option option" where
  "lpValidateNext lp pp lpbytes =
     (case pp of
        None \<Rightarrow> None
      | Some p \<Rightarrow>
          if OUT_OF_RANGE lpbytes p then None
          else if lp ! p = LP_EOF then Some None
          else
            let lenbytes = lpCurrentEncodedSizeBytes lp p in
            if lenbytes = 0 then None
            else if OUT_OF_RANGE lpbytes (p + lenbytes) then None
            else
              let entrylen = lpCurrentEncodedSizeUnsafe lp p;
                  encodedBacklen = lpBacklenSize entrylen;
                  entrylen = entrylen + encodedBacklen
              in if OUT_OF_RANGE lpbytes (p + entrylen) then None
                 else
                   let p = p + entrylen;
                       prevlen = lpDecodeBacklen lp (p - 1)
                   in if (prevlen + encodedBacklen) mod 2 ^ 64 \<noteq> entrylen then None
                      else Some (Some p))"

definition lpAssertValidEntry :: "bytes \<Rightarrow> nat \<Rightarrow> nat \<Rightarrow> bool" where
  "lpAssertValidEntry lp lpbytes p \<longleftrightarrow> lpValidateNext lp (Some p) lpbytes \<noteq> None"

definition lpNext :: "bytes \<Rightarrow> nat \<Rightarrow> nat option option" where
  "lpNext lp p =
     (let p = lpSkip lp p in
      if lp ! p = LP_EOF then Some None
      else if \<not> lpAssertValidEntry lp (lpBytes lp) p then None
      else Some (Some p))"

text \<open>\<open>prevlen\<close> is a \<open>uint64_t\<close>: for a backward length that does not decode the sum wraps.\<close>

definition lpPrev :: "bytes \<Rightarrow> nat \<Rightarrow> nat option option" where
  "lpPrev lp p =
     (if p = LP_HDR_SIZE then Some None
      else
        let p = p - 1;
            prevlen = lpDecodeBacklen lp p;
            prevlen = (prevlen + lpBacklenSize prevlen) mod 2 ^ 64;
            p = p - (prevlen - 1)
        in if \<not> lpAssertValidEntry lp (lpBytes lp) p then None
           else Some (Some p))"

definition lpFirst :: "bytes \<Rightarrow> nat option option" where
  "lpFirst lp =
     (let p = LP_HDR_SIZE in
      if lp ! p = LP_EOF then Some None
      else if \<not> lpAssertValidEntry lp (lpBytes lp) p then None
      else Some (Some p))"

definition lpLast :: "bytes \<Rightarrow> nat option option" where
  "lpLast lp = (let p = lpGetTotalBytes lp - 1 in lpPrev lp p)"

lemma lpSkip_gt: "p < lpSkip lp p"
  by (simp add: lpSkip_def Let_def lpBacklenSize_def)

lemma lpAssertValidEntry_range: "lpAssertValidEntry lp n p \<Longrightarrow> LP_HDR_SIZE \<le> p \<and> p < n"
  by (auto simp: lpAssertValidEntry_def lpValidateNext_def OUT_OF_RANGE_def split: if_splits)

lemma lpNext_progress: "lpNext lp p = Some (Some q) \<Longrightarrow> p < q \<and> q < lpBytes lp"
  using lpSkip_gt [of p lp] lpAssertValidEntry_range
  by (auto simp: lpNext_def Let_def split: if_splits)

text \<open>The counting loop of \<open>lpLength\<close>; the count is a \<open>uint32_t\<close>.\<close>

function lpLength_loop :: "bytes \<Rightarrow> nat option \<Rightarrow> nat \<Rightarrow> nat option" where
  "lpLength_loop lp None count = Some count"
| "lpLength_loop lp (Some p) count =
     (let count = (count + 1) mod 2 ^ 32 in
      case lpNext lp p of
        None \<Rightarrow> None
      | Some None \<Rightarrow> Some count
      | Some (Some q) \<Rightarrow> lpLength_loop lp (Some q) count)"
  by pat_completeness auto
termination
  by (relation "measure (\<lambda>(lp, p, count). case p of None \<Rightarrow> 0 | Some p \<Rightarrow> Suc (lpBytes lp - p))")
    (auto dest!: lpNext_progress)

text \<open>\<open>lpLength\<close> may store the count in the header.\<close>

definition lpLength :: "bytes \<Rightarrow> (bytes \<times> nat) option" where
  "lpLength lp =
     (let numele = lpGetNumElements lp in
      if numele \<noteq> LP_HDR_NUMELE_UNKNOWN then Some (lp, numele)
      else case lpFirst lp of
          None \<Rightarrow> None
        | Some p \<Rightarrow>
            (case lpLength_loop lp p 0 of
               None \<Rightarrow> None
             | Some count \<Rightarrow>
                 Some (if count < LP_HDR_NUMELE_UNKNOWN then lpSetNumElements lp count else lp, count)))"

text \<open>Seeking: the loops over \<open>lpNext\<close> and \<open>lpPrev\<close>, and the choice of direction.\<close>

fun lpSeek_loop :: "(nat \<Rightarrow> nat option option) \<Rightarrow> nat \<Rightarrow> nat option \<Rightarrow> nat option option" where
  "lpSeek_loop step 0 ele = Some ele"
| "lpSeek_loop step (Suc n) None = Some None"
| "lpSeek_loop step (Suc n) (Some p) =
     (case step p of None \<Rightarrow> None | Some ele \<Rightarrow> lpSeek_loop step n ele)"

definition lpSeek_scan :: "bytes \<Rightarrow> bool \<Rightarrow> int \<Rightarrow> nat option option" where
  "lpSeek_scan lp forward index =
     (if forward then
        case lpFirst lp of None \<Rightarrow> None | Some ele \<Rightarrow> lpSeek_loop (lpNext lp) (nat index) ele
      else
        case lpLast lp of None \<Rightarrow> None | Some ele \<Rightarrow> lpSeek_loop (lpPrev lp) (nat (- 1 - index)) ele)"

definition lpSeek :: "bytes \<Rightarrow> int \<Rightarrow> nat option option" where
  "lpSeek lp index =
     (let numele = lpGetNumElements lp in
      if numele \<noteq> LP_HDR_NUMELE_UNKNOWN then
        let index = (if index < 0 then int numele + index else index) in
        if index < 0 then Some None
        else if index \<ge> int numele then Some None
        else if index > int numele div 2 then lpSeek_scan lp False (index - int numele)
        else lpSeek_scan lp True index
      else if index < 0 then lpSeek_scan lp False index
      else lpSeek_scan lp True index)"

section \<open>Reading and searching\<close>

text \<open>With a buffer, \<open>lpGet\<close> turns an integer into its decimal digits.\<close>

definition LP_INTBUF_SIZE :: nat where "LP_INTBUF_SIZE = 21"

definition lpGet_intbuf :: "bytes \<Rightarrow> nat \<Rightarrow> bytes" where
  "lpGet_intbuf lp p =
     (case lpGet lp p of
        LpString off n \<Rightarrow> slice off n lp
      | LpInteger val \<Rightarrow>
          (case ll2string (realloc_bytes LP_INTBUF_SIZE []) LP_INTBUF_SIZE val of
             (intbuf, count) \<Rightarrow> take count intbuf))"

text \<open>\<open>slen\<close> is an \<open>unsigned int\<close>.\<close>

definition lpGetValue :: "bytes \<Rightarrow> nat \<Rightarrow> lp_value" where
  "lpGetValue lp p =
     (case lpGet lp p of
        LpString off n \<Rightarrow> LpString off (n mod 2 ^ 32)
      | LpInteger val \<Rightarrow> LpInteger val)"

definition lpCompare :: "bytes \<Rightarrow> nat \<Rightarrow> bytes \<Rightarrow> bool" where
  "lpCompare lp p s =
     (if lp ! p = LP_EOF then False
      else case lpGet lp p of
          LpString off sz \<Rightarrow> length s = sz \<and> slice off sz lp = s
        | LpInteger sz \<Rightarrow>
            (case lpStringToInt64 s of Some sval \<Rightarrow> sz = sval | None \<Rightarrow> False))"

text \<open>The searched string as an integer, computed at the first integer entry only:
  \<open>vencoding\<close> is 0 for \<open>None\<close>, \<open>UCHAR_MAX\<close> for \<open>Some None\<close>, 1 for \<open>Some (Some vll)\<close>.\<close>

type_synonym lp_venc = "int option option"

definition lpFind_venc :: "bytes \<Rightarrow> lp_venc \<Rightarrow> int option" where
  "lpFind_venc s venc =
     (case venc of
        Some v \<Rightarrow> v
      | None \<Rightarrow> if length s \<ge> 32 \<or> length s = 0 then None else lpStringToInt64 s)"

text \<open>The check before the next entry is read.\<close>

definition lpFind_check :: "bytes \<Rightarrow> nat \<Rightarrow> nat \<Rightarrow> bool" where
  "lpFind_check lp lp_bytes p =
     (if p + 8 \<ge> lp_bytes then lpAssertValidEntry lp lp_bytes p
      else p \<ge> LP_HDR_SIZE \<and> p < lp_bytes)"

lemma lpFind_check_range: "lpFind_check lp n p \<Longrightarrow> p < n"
  using lpAssertValidEntry_range by (auto simp: lpFind_check_def split: if_splits)

text \<open>One iteration at an entry that is compared: \<open>Inl\<close> the result, or the new values of
  \<open>p\<close>, \<open>entry_size\<close> and \<open>vencoding\<close>.  \<open>entry_size\<close> keeps its value when the encoding is
  unknown.\<close>

definition lpFind_entry ::
  "bytes \<Rightarrow> nat \<Rightarrow> bytes \<Rightarrow> nat \<Rightarrow> nat \<Rightarrow> lp_venc \<Rightarrow> nat option option + nat \<times> nat \<times> lp_venc" where
  "lpFind_entry lp lp_bytes s p entry_size venc =
     (case lpGetWithSize lp p of
        (v, sz) \<Rightarrow>
          let entry_size = (case sz of Some n \<Rightarrow> n | None \<Rightarrow> entry_size) in
          (case v of
             LpString off ll \<Rightarrow>
               if \<not> (p \<ge> LP_HDR_SIZE \<and> p + entry_size < lp_bytes) then Inl None
               else if length s = ll \<and> slice off ll lp = s then Inl (Some (Some p))
               else Inr (p + entry_size, entry_size, venc)
           | LpInteger ll \<Rightarrow>
               let vll = lpFind_venc s venc in
               if vll = Some ll then Inl (Some (Some p))
               else Inr (p + entry_size, entry_size, Some vll)))"

function lpFind_loop ::
  "bytes \<Rightarrow> nat \<Rightarrow> bytes \<Rightarrow> nat \<Rightarrow> nat \<Rightarrow> nat \<Rightarrow> nat \<Rightarrow> lp_venc \<Rightarrow> nat option option" where
  "lpFind_loop lp lp_bytes s skip p skipcnt entry_size venc =
     (case (if skipcnt = 0 then
              (case lpFind_entry lp lp_bytes s p entry_size venc of
                 Inl r \<Rightarrow> Inl r
               | Inr (p', entry_size, venc) \<Rightarrow> Inr (p', skip, entry_size, venc))
            else Inr (lpSkip lp p, skipcnt - 1, entry_size, venc)) of
        Inl r \<Rightarrow> r
      | Inr (p', skipcnt, entry_size, venc) \<Rightarrow>
          if \<not> lpFind_check lp lp_bytes p' then None
          else if lp ! p' = LP_EOF then Some None
          else if p' \<le> p then None
          else lpFind_loop lp lp_bytes s skip p' skipcnt entry_size venc)"
  by pat_completeness auto
termination
  by (relation "measure (\<lambda>(lp, n, s, skip, p, skipcnt, entry_size, venc). n - p)")
    (auto dest: lpFind_check_range)


text \<open>The test \<open>p' \<le> p\<close> only makes the recursion well founded for every argument: an entry size
  is never 0, so it is never taken from \<open>lpFind\<close> (\<open>lpFind_entry_progress\<close>).\<close>

lemma lpFind_entry_progress:
  assumes "lpFind_entry lp n s p entry_size venc = Inr (p', entry_size', venc')" "0 < entry_size"
  shows "p < p' \<and> 0 < entry_size'"
proof -
  obtain v sz where g: "lpGetWithSize lp p = (v, sz)" by fastforce
  have "0 < k" if "sz = Some k" for k
    using g that by (auto simp: lpGetWithSize_def Let_def split: if_splits)
  then show ?thesis
    using assms g by (auto simp: lpFind_entry_def Let_def split: lp_value.splits option.splits if_splits)
qed

definition lpFind :: "bytes \<Rightarrow> nat \<Rightarrow> bytes \<Rightarrow> nat \<Rightarrow> nat option option" where
  "lpFind lp p s skip = lpFind_loop lp (lpBytes lp) s skip p 0 123456789 None"

declare lpLength_loop.simps [simp del] lpFind_loop.simps [simp del]

section \<open>Insertion, replacement and deletion of one element\<close>

datatype lp_where = LP_BEFORE | LP_AFTER | LP_REPLACE

definition ASSERT_INTEGRITY :: "bytes \<Rightarrow> nat \<Rightarrow> bool" where
  "ASSERT_INTEGRITY lp p \<longleftrightarrow> p \<ge> LP_HDR_SIZE \<and> p < lpGetTotalBytes lp"

definition ASSERT_INTEGRITY_LEN :: "bytes \<Rightarrow> nat \<Rightarrow> nat \<Rightarrow> bool" where
  "ASSERT_INTEGRITY_LEN lp p len \<longleftrightarrow> p \<ge> LP_HDR_SIZE \<and> p + len < lpGetTotalBytes lp"

text \<open>Reallocation before, \<open>memmove\<close> and reallocation after: the bytes \<open>[poff + skip, old)\<close> end
  up at \<open>poff + room\<close>.  The insertion case of the code is \<open>skip = 0\<close>, the replacement case
  \<open>skip = replaced_len\<close>.\<close>

definition lpInsert_room :: "bytes \<Rightarrow> nat \<Rightarrow> nat \<Rightarrow> nat \<Rightarrow> nat \<Rightarrow> nat \<Rightarrow> bytes" where
  "lpInsert_room lp poff room skip old_listpack_bytes new_listpack_bytes =
     (let lp = (if new_listpack_bytes > old_listpack_bytes \<and> new_listpack_bytes > length lp
                then realloc_bytes new_listpack_bytes lp else lp);
          lp = memmove_in lp (poff + room) (poff + skip) (old_listpack_bytes - poff - skip)
      in if new_listpack_bytes < old_listpack_bytes
         then realloc_bytes new_listpack_bytes lp else lp)"

text \<open>The header's element count after an insertion or a deletion; \<open>num_elements - 1\<close> is an
  \<open>uint32_t\<close>.\<close>

definition lpInsert_count :: "bytes \<Rightarrow> bool \<Rightarrow> bytes" where
  "lpInsert_count lp delete =
     (let num_elements = lpGetNumElements lp in
      if num_elements \<noteq> LP_HDR_NUMELE_UNKNOWN then
        if \<not> delete then lpSetNumElements lp (num_elements + 1)
        else lpSetNumElements lp ((num_elements + 2 ^ 32 - 1) mod 2 ^ 32)
      else lp)"

text \<open>The element to store: \<open>elestr\<close> and \<open>eleint\<close> are the two element arguments, \<open>size\<close> being the
  length of the one given.\<close>

definition lpInsert_enc :: "bytes option \<Rightarrow> bytes option \<Rightarrow> lp_enctype" where
  "lpInsert_enc elestr eleint =
     (case elestr of
        Some s \<Rightarrow> lpEncodeGetType s
      | None \<Rightarrow> (case eleint of Some bs \<Rightarrow> EncInt bs | None \<Rightarrow> EncString 0))"

fun enc_length :: "lp_enctype \<Rightarrow> nat" where
  "enc_length (EncInt bs) = length bs"
| "enc_length (EncString n) = n"

text \<open>The size of the entry that is replaced, a \<open>uint32_t\<close>, and the new total, a \<open>uint64_t\<close>.\<close>

definition lpInsert_replaced :: "bytes \<Rightarrow> nat \<Rightarrow> lp_where \<Rightarrow> nat" where
  "lpInsert_replaced lp p whr =
     (if whr = LP_REPLACE then
        let replaced_len = lpCurrentEncodedSizeUnsafe lp p
        in (replaced_len + lpBacklenSize replaced_len) mod 2 ^ 32
      else 0)"

definition lpInsert_new_bytes :: "nat \<Rightarrow> nat \<Rightarrow> nat \<Rightarrow> nat \<Rightarrow> nat" where
  "lpInsert_new_bytes old_listpack_bytes enclen backlen_size replaced_len =
     nat ((int old_listpack_bytes + int enclen + int backlen_size - int replaced_len) mod 2 ^ 64)"

definition lpInsert_store :: "bytes \<Rightarrow> nat \<Rightarrow> lp_enctype \<Rightarrow> bytes option \<Rightarrow> bytes \<Rightarrow> bytes" where
  "lpInsert_store lp dst enc elestr backlen =
     (let lp = (case enc of
                  EncInt eleint \<Rightarrow> blit dst eleint lp
                | EncString n \<Rightarrow> blit dst (lpEncodeString (the elestr)) lp)
      in blit (dst + enc_length enc) backlen lp)"

text \<open>The part after \<open>LP_AFTER\<close> has been turned into \<open>LP_BEFORE\<close> the next element.  The outer
  \<open>None\<close> is a failed assertion, the inner one the returned \<open>NULL\<close>; a result comes with the
  value stored in \<open>*newp\<close>.\<close>

definition lpInsert_at ::
  "bytes \<Rightarrow> bytes option \<Rightarrow> bytes option \<Rightarrow> bool \<Rightarrow> nat \<Rightarrow> lp_where \<Rightarrow> (bytes \<times> nat option) option option" where
  "lpInsert_at lp elestr eleint delete p whr =
     (let poff = p;
          enc = lpInsert_enc elestr eleint;
          enclen = enc_length enc;
          backlen = (if \<not> delete then lpEncodeBacklen enclen else []);
          backlen_size = length backlen;
          old_listpack_bytes = lpGetTotalBytes lp;
          replaced_len = lpInsert_replaced lp p whr
      in if whr = LP_REPLACE \<and> \<not> ASSERT_INTEGRITY_LEN lp p replaced_len then None
         else
           let new_listpack_bytes = lpInsert_new_bytes old_listpack_bytes enclen backlen_size replaced_len
           in if new_listpack_bytes > 2 ^ 32 - 1 then Some None
              else
                let lp = lpInsert_room lp poff (enclen + backlen_size) replaced_len
                           old_listpack_bytes new_listpack_bytes;
                    dst = poff;
                    newp = (if delete \<and> lp ! dst = LP_EOF then None else Some dst);
                    lp = (if \<not> delete then lpInsert_store lp dst enc elestr backlen else lp);
                    lp = (if whr \<noteq> LP_REPLACE \<or> delete then lpInsert_count lp delete else lp);
                    lp = lpSetTotalBytes lp new_listpack_bytes
                in Some (Some (lp, newp)))"

definition lpInsert ::
  "bytes \<Rightarrow> bytes option \<Rightarrow> bytes option \<Rightarrow> nat \<Rightarrow> lp_where \<Rightarrow> (bytes \<times> nat option) option option" where
  "lpInsert lp elestr eleint p whr =
     (let delete = (elestr = None \<and> eleint = None);
          whr = (if delete then LP_REPLACE else whr)
      in if whr = LP_AFTER then
           let p = lpSkip lp p in
           if \<not> ASSERT_INTEGRITY lp p then None
           else lpInsert_at lp elestr eleint delete p LP_BEFORE
         else lpInsert_at lp elestr eleint delete p whr)"

definition lpInsertString :: "bytes \<Rightarrow> bytes \<Rightarrow> nat \<Rightarrow> lp_where \<Rightarrow> (bytes \<times> nat option) option option" where
  "lpInsertString lp s p whr = lpInsert lp (Some s) None p whr"

definition lpInsertInteger :: "bytes \<Rightarrow> int \<Rightarrow> nat \<Rightarrow> lp_where \<Rightarrow> (bytes \<times> nat option) option option" where
  "lpInsertInteger lp lval p whr = lpInsert lp None (Some (lpEncodeIntegerGetType lval)) p whr"

text \<open>The wrappers without \<open>newp\<close> return the listpack alone.\<close>

abbreviation drop_newp :: "(bytes \<times> nat option) option option \<Rightarrow> bytes option option" where
  "drop_newp \<equiv> map_option (map_option fst)"

definition lpAppend :: "bytes \<Rightarrow> bytes \<Rightarrow> bytes option option" where
  "lpAppend lp ele =
     (let listpack_bytes = lpGetTotalBytes lp; eofptr = listpack_bytes - 1 in
      drop_newp (lpInsert lp (Some ele) None eofptr LP_BEFORE))"

definition lpAppendInteger :: "bytes \<Rightarrow> int \<Rightarrow> bytes option option" where
  "lpAppendInteger lp lval =
     (let listpack_bytes = lpGetTotalBytes lp; eofptr = listpack_bytes - 1 in
      drop_newp (lpInsertInteger lp lval eofptr LP_BEFORE))"

definition lpPrepend :: "bytes \<Rightarrow> bytes \<Rightarrow> bytes option option" where
  "lpPrepend lp s =
     (case lpFirst lp of
        None \<Rightarrow> None
      | Some None \<Rightarrow> lpAppend lp s
      | Some (Some p) \<Rightarrow> drop_newp (lpInsert lp (Some s) None p LP_BEFORE))"

definition lpPrependInteger :: "bytes \<Rightarrow> int \<Rightarrow> bytes option option" where
  "lpPrependInteger lp lval =
     (case lpFirst lp of
        None \<Rightarrow> None
      | Some None \<Rightarrow> lpAppendInteger lp lval
      | Some (Some p) \<Rightarrow> drop_newp (lpInsertInteger lp lval p LP_BEFORE))"

definition lpReplace :: "bytes \<Rightarrow> nat \<Rightarrow> bytes \<Rightarrow> (bytes \<times> nat option) option option" where
  "lpReplace lp p s = lpInsert lp (Some s) None p LP_REPLACE"

definition lpReplaceInteger :: "bytes \<Rightarrow> nat \<Rightarrow> int \<Rightarrow> (bytes \<times> nat option) option option" where
  "lpReplaceInteger lp p lval = lpInsertInteger lp lval p LP_REPLACE"

definition lpDelete :: "bytes \<Rightarrow> nat \<Rightarrow> (bytes \<times> nat option) option option" where
  "lpDelete lp p = lpInsert lp None None p LP_REPLACE"

section \<open>Deletion of several elements\<close>

fun lpDeleteRange_tail :: "bytes \<Rightarrow> nat \<Rightarrow> nat \<Rightarrow> nat \<Rightarrow> nat \<Rightarrow> (nat \<times> nat) option" where
  "lpDeleteRange_tail lp bytes 0 deleted tail = Some (deleted, tail)"
| "lpDeleteRange_tail lp bytes (Suc num) deleted tail =
     (let deleted = deleted + 1;
          tail = lpSkip lp tail
      in if lp ! tail = LP_EOF then Some (deleted, tail)
         else if \<not> lpAssertValidEntry lp bytes tail then None
         else lpDeleteRange_tail lp bytes num deleted tail)"

definition lpDeleteRangeWithEntry :: "bytes \<Rightarrow> nat \<Rightarrow> nat \<Rightarrow> (bytes \<times> nat option) option" where
  "lpDeleteRangeWithEntry lp p num =
     (let bytes = lpBytes lp;
          eofptr = bytes - 1;
          first = p
      in if num = 0 then Some (lp, Some p)
         else case lpDeleteRange_tail lp bytes num 0 p of
             None \<Rightarrow> None
           | Some (deleted, tail) \<Rightarrow>
               let poff = first;
                   lp = memmove_in lp first tail (eofptr - tail + 1);
                   lp = lpSetTotalBytes lp (bytes - (tail - first));
                   numele = lpGetNumElements lp;
                   lp = (if numele \<noteq> LP_HDR_NUMELE_UNKNOWN
                         then lpSetNumElements lp (nat ((int numele - int deleted) mod 2 ^ 32))
                         else lp);
                   lp = lpShrinkToFit lp
               in Some (lp, if lp ! poff = LP_EOF then None else Some poff))"

definition lpDeleteRange :: "bytes \<Rightarrow> int \<Rightarrow> nat \<Rightarrow> bytes option" where
  "lpDeleteRange lp index num =
     (let numele = lpGetNumElements lp in
      if num = 0 then Some lp
      else case lpSeek lp index of
          None \<Rightarrow> None
        | Some None \<Rightarrow> Some lp
        | Some (Some p) \<Rightarrow>
            let index = (if numele \<noteq> LP_HDR_NUMELE_UNKNOWN \<and> index < 0 then int numele + index else index)
            in if numele \<noteq> LP_HDR_NUMELE_UNKNOWN \<and> nat ((int numele - index) mod 2 ^ 64) \<le> num then
                 let lp = lp[p := LP_EOF];
                     lp = lpSetTotalBytes lp (p + 1);
                     lp = lpSetNumElements lp (nat index)
                 in Some (lpShrinkToFit lp)
               else map_option fst (lpDeleteRangeWithEntry lp p num))"

text \<open>The compaction loop of \<open>lpBatchDelete\<close>; a pointer of \<open>ps\<close> is not \<open>NULL\<close>.\<close>

fun lpBatchDelete_loop :: "bytes \<Rightarrow> nat \<Rightarrow> nat \<Rightarrow> nat list \<Rightarrow> (bytes \<times> nat) option" where
  "lpBatchDelete_loop lp lp_end dst [] = Some (lp, dst)"
| "lpBatchDelete_loop lp lp_end dst (skip # ps) =
     (if lp ! skip = LP_EOF then None
      else
        let keep_start = lpSkip lp skip;
            keep_end = (case ps of next # _ \<Rightarrow> next | [] \<Rightarrow> lp_end)
        in if ps \<noteq> [] \<and> keep_start = keep_end then lpBatchDelete_loop lp lp_end dst ps
           else if \<not> keep_end > keep_start then None
           else
             let bytes_to_keep = keep_end - keep_start;
                 lp = memmove_in lp dst keep_start bytes_to_keep
             in lpBatchDelete_loop lp lp_end (dst + bytes_to_keep) ps)"

definition lpBatchDelete :: "bytes \<Rightarrow> nat list \<Rightarrow> bytes option" where
  "lpBatchDelete lp ps =
     (if ps = [] then Some lp
      else
        let total_bytes = lpGetTotalBytes lp; lp_end = total_bytes in
        if lp ! (lp_end - 1) \<noteq> LP_EOF then None
        else case lpBatchDelete_loop lp lp_end (hd ps) ps of
            None \<Rightarrow> None
          | Some (lp, dst) \<Rightarrow>
              let deleted_bytes = lp_end - dst;
                  total_bytes = total_bytes - deleted_bytes
              in if lp ! (total_bytes - 1) \<noteq> LP_EOF then None
                 else
                   let lp = lpSetTotalBytes lp total_bytes;
                       numele = lpGetNumElements lp;
                       lp = (if numele \<noteq> LP_HDR_NUMELE_UNKNOWN
                             then lpSetNumElements lp (nat ((int numele - int (length ps)) mod 2 ^ 32))
                             else lp)
                   in Some (lpShrinkToFit lp))"

section \<open>Merging, copying, estimating\<close>

text \<open>\<open>same\<close> says that the two arguments are one listpack.  The result is the merged listpack
  and whether it took the place of the first argument (the other one is freed and its
  variable set to \<open>NULL\<close>).\<close>

definition lpMerge :: "bytes option \<Rightarrow> bytes option \<Rightarrow> bool \<Rightarrow> (bytes \<times> bool) option option" where
  "lpMerge first second same =
     (case (first, second) of
        (Some lp1, Some lp2) \<Rightarrow>
          if same then Some None
          else (case (lpLength lp1, lpLength lp2) of
              (Some (lp1', first_len), Some (lp2', second_len)) \<Rightarrow>
                let first_bytes = lpBytes lp1;
                    second_bytes = lpBytes lp2;
                    append = (first_bytes \<ge> second_bytes);
                    (target, target_bytes, source, source_bytes) =
                      (if append then (lp1', first_bytes, lp2', second_bytes)
                       else (lp2', second_bytes, lp1', first_bytes));
                    lpbytes = first_bytes + second_bytes - LP_HDR_SIZE - 1
                in if \<not> lpbytes < 2 ^ 32 - 1 then None
                   else
                     let lplength = first_len + second_len;
                         lplength = (if lplength < 65535 then lplength else 65535);
                         target = realloc_bytes lpbytes target;
                         target =
                           (if append then
                              blit (target_bytes - 1)
                                (slice LP_HDR_SIZE (source_bytes - LP_HDR_SIZE) source) target
                            else
                              let target = memmove_in target (source_bytes - 1) LP_HDR_SIZE
                                             (target_bytes - LP_HDR_SIZE)
                              in blit 0 (take (source_bytes - 1) source) target);
                         target = lpSetNumElements target lplength;
                         target = lpSetTotalBytes target lpbytes
                     in Some (Some (target, append))
            | _ \<Rightarrow> None)
      | _ \<Rightarrow> Some None)"

definition lpDup :: "bytes \<Rightarrow> bytes" where
  "lpDup lp = (let lpbytes = lpBytes lp in take lpbytes lp)"

definition lpEstimateBytesRepeatedInteger :: "int \<Rightarrow> nat \<Rightarrow> nat" where
  "lpEstimateBytesRepeatedInteger lval rep =
     (let enclen = length (lpEncodeIntegerGetType lval);
          backlen = lpBacklenSize enclen
      in (LP_HDR_SIZE + (enclen + backlen) * rep + 1) mod 2 ^ 64)"

section \<open>Integrity\<close>

definition lpValidateFirst :: "bytes \<Rightarrow> nat option" where
  "lpValidateFirst lp = (let p = LP_HDR_SIZE in if lp ! p = LP_EOF then None else Some p)"

lemma lpValidateNext_progress:
  "lpValidateNext lp (Some p) n = Some (Some q) \<Longrightarrow> p < q \<and> q < n"
  by (auto simp: lpValidateNext_def OUT_OF_RANGE_def Let_def lpBacklenSize_def split: if_splits)

text \<open>The scan of all entries.  The optional callback gets the entry and the header's count,
  and may change its user data.\<close>

function lpValidate_loop ::
  "bytes \<Rightarrow> nat \<Rightarrow> ('u \<Rightarrow> nat \<Rightarrow> nat \<Rightarrow> bool \<times> 'u) option \<Rightarrow> nat \<Rightarrow> nat option \<Rightarrow> nat \<Rightarrow> 'u
     \<Rightarrow> (nat option \<times> nat) option \<times> 'u" where
  "lpValidate_loop lp bytes entry_cb numele None count u = (Some (None, count), u)"
| "lpValidate_loop lp bytes entry_cb numele (Some p) count u =
     (if lp ! p = LP_EOF then (Some (Some p, count), u)
      else case lpValidateNext lp (Some p) bytes of
          None \<Rightarrow> (None, u)
        | Some p' \<Rightarrow>
            (case (case entry_cb of None \<Rightarrow> (True, u) | Some cb \<Rightarrow> cb u p numele) of
               (ok, u) \<Rightarrow>
                 if \<not> ok then (None, u)
                 else lpValidate_loop lp bytes entry_cb numele p' ((count + 1) mod 2 ^ 32) u))"
  by pat_completeness auto
termination
  by (relation "measure (\<lambda>(lp, n, cb, numele, p, count, u).
        case p of None \<Rightarrow> 0 | Some p \<Rightarrow> Suc (n - p))")
    (auto split: option.split dest!: lpValidateNext_progress)

declare lpValidate_loop.simps [simp del]

definition lpValidateIntegrity ::
  "bytes \<Rightarrow> nat \<Rightarrow> bool \<Rightarrow> ('u \<Rightarrow> nat \<Rightarrow> nat \<Rightarrow> bool \<times> 'u) option \<Rightarrow> 'u \<Rightarrow> bool \<times> 'u" where
  "lpValidateIntegrity lp sz deep entry_cb u =
     (if sz < LP_HDR_SIZE + 1 then (False, u)
      else
        let bytes = lpGetTotalBytes lp in
        if bytes \<noteq> sz then (False, u)
        else if lp ! (sz - 1) \<noteq> LP_EOF then (False, u)
        else if \<not> deep then (True, u)
        else
          let numele = lpGetNumElements lp in
          case lpValidate_loop lp bytes entry_cb numele (Some LP_HDR_SIZE) 0 u of
            (None, u) \<Rightarrow> (False, u)
          | (Some (p, count), u) \<Rightarrow>
              if p \<noteq> Some (sz - 1) then (False, u)
              else if numele \<noteq> LP_HDR_NUMELE_UNKNOWN \<and> numele \<noteq> count then (False, u)
              else (True, u))"

end
