(* ===== verification/Listpack_Rep.thy ===== *)
theory Listpack_Rep
  imports Listpack
begin

text \<open>
  What it means for a byte buffer to hold a sequence of encoded elements (\<open>lp_rep\<close>), and what
  the reading operations of the listpack return on such a buffer: traversal in both
  directions, length, seek, compare, find and the integrity check.
\<close>

section \<open>Representation\<close>

text \<open>The bytes of an element with its backward length, of a sequence of elements, and the size
  of a listpack holding them; \<open>lp_off es i\<close> is the offset of element \<open>i\<close>.\<close>

definition lp_entry :: "bytes \<Rightarrow> bytes" where
  "lp_entry e = e @ lpEncodeBacklen (length e)"

definition lp_body :: "bytes list \<Rightarrow> bytes" where
  "lp_body es = concat (map lp_entry es)"

definition lp_total :: "bytes list \<Rightarrow> nat" where
  "lp_total es = LP_HDR_SIZE + length (lp_body es) + 1"

definition lp_off :: "bytes list \<Rightarrow> nat \<Rightarrow> nat" where
  "lp_off es i = LP_HDR_SIZE + length (lp_body (take i es))"

text \<open>The count field is exact or \<open>LP_HDR_NUMELE_UNKNOWN\<close>.\<close>

definition lp_count_ok :: "nat \<Rightarrow> nat \<Rightarrow> bool" where
  "lp_count_ok num n \<longleftrightarrow> num = n \<and> n < LP_HDR_NUMELE_UNKNOWN \<or> num = LP_HDR_NUMELE_UNKNOWN"

text \<open>\<open>lp\<close> represents the encoded elements \<open>es\<close>: header, elements, terminator, and unused
  allocated bytes.\<close>

definition lp_rep :: "bytes \<Rightarrow> bytes list \<Rightarrow> bool" where
  "lp_rep lp es \<longleftrightarrow> (\<forall>e \<in> set es. valid_enc e) \<and> lp_total es < 2 ^ 32
     \<and> (\<exists>num slack. lp_count_ok num (length es)
          \<and> lp = le_of_nat 4 (lp_total es) @ le_of_nat 2 num @ lp_body es @ LP_EOF # slack)"

lemma lp_body_simps [simp]:
  "lp_body [] = []" "lp_body (e # es) = lp_entry e @ lp_body es" "lp_body (xs @ ys) = lp_body xs @ lp_body ys"
  by (simp_all add: lp_body_def)

lemma length_lp_entry [simp]: "length (lp_entry e) = length e + lpBacklenSize (length e)"
  by (simp add: lp_entry_def)

lemma lp_off_0 [simp]: "lp_off es 0 = LP_HDR_SIZE"
  by (simp add: lp_off_def)

lemma lp_off_Suc: "i < length es \<Longrightarrow>
    lp_off es (Suc i) = lp_off es i + (length (es ! i) + lpBacklenSize (length (es ! i)))"
  by (simp add: lp_off_def take_Suc_conv_app_nth)

lemma lp_off_length: "lp_off es (length es) = lp_total es - 1"
  by (simp add: lp_off_def lp_total_def)

lemma lp_off_ge: "LP_HDR_SIZE \<le> lp_off es i"
  by (simp add: lp_off_def)

lemma length_lp_body_take: "length (lp_body (take i es)) \<le> length (lp_body es)"
proof -
  have "lp_body es = lp_body (take i es) @ lp_body (drop i es)"
    by (simp flip: lp_body_simps(3))
  then show ?thesis by simp
qed

lemma lp_off_less: "lp_off es i < lp_total es"
  using length_lp_body_take [of i es] by (simp add: lp_off_def lp_total_def)

lemma lp_off_mono: "i < j \<Longrightarrow> j \<le> length es \<Longrightarrow> lp_off es i < lp_off es j"
proof (induction j)
  case (Suc j)
  then have "lp_off es i \<le> lp_off es j" by (cases "i = j") auto
  with Suc.prems lpBacklenSize_bounds(1) [of "length (es ! j)"] show ?case
    by (simp add: lp_off_Suc del: lpBacklenSize_bounds)
qed simp

lemma lp_off_inj: "i \<le> length es \<Longrightarrow> j \<le> length es \<Longrightarrow> lp_off es i = lp_off es j \<longleftrightarrow> i = j"
  using lp_off_mono [of i j es] lp_off_mono [of j i es] by (cases i j rule: linorder_cases) auto

lemma lp_body_split: "i < length es \<Longrightarrow>
    lp_body es = lp_body (take i es) @ lp_entry (es ! i) @ lp_body (drop (Suc i) es)"
  by (metis lp_body_simps(2,3) id_take_nth_drop)

lemma valid_enc_size: "valid_enc e \<Longrightarrow> length e < 2 ^ 32"
proof -
  assume "valid_enc e"
  then have "length e = lpCurrentEncodedSizeUnsafe e 0" by (simp add: valid_enc_def)
  moreover have "lpCurrentEncodedSizeUnsafe e 0 < 2 ^ 32"
  proof -
    have "LP_ENCODING_6BIT_STR_LEN e 0 < 64" by (simp add: LP_ENCODING_6BIT_STR_LEN_def)
    moreover have "LP_ENCODING_12BIT_STR_LEN e 0 < 4096"
    proof -
      have "LP_ENCODING_12BIT_STR_LEN e 0 = unat (e ! 1) + 256 * (unat (e ! 0) mod 16)"
        using or_byte [of "e ! 1"] by (simp add: LP_ENCODING_12BIT_STR_LEN_def or.commute)
      also have "\<dots> < 4096"
        using unat_u8_less [of "e ! 1"] mod_less_divisor [of 16 "unat (e ! 0)"] by linarith
      finally show ?thesis .
    qed
    ultimately show ?thesis by (simp add: lpCurrentEncodedSizeUnsafe_def Let_def)
  qed
  ultimately show ?thesis by simp
qed

section \<open>What the operations read in a represented listpack\<close>

lemma lp_rep_valid: "lp_rep lp es \<Longrightarrow> i < length es \<Longrightarrow> valid_enc (es ! i)"
  by (auto simp: lp_rep_def)

lemma lp_rep_length: "lp_rep lp es \<Longrightarrow> lp_total es \<le> length lp"
  by (auto simp: lp_rep_def lp_total_def LP_HDR_SIZE_def)

lemma lp_rep_total: "lp_rep lp es \<Longrightarrow> lpGetTotalBytes lp = lp_total es"
  by (auto simp: lp_rep_def lpGetTotalBytes_eq)

lemma lp_rep_bytes [simp]: "lp_rep lp es \<Longrightarrow> lpBytes lp = lp_total es"
  by (simp add: lpBytes_def lp_rep_total)

lemma lp_rep_count: "lp_rep lp es \<Longrightarrow> lp_count_ok (lpGetNumElements lp) (length es)"
proof -
  assume "lp_rep lp es"
  then obtain num slack where num: "lp_count_ok num (length es)"
    and lp: "lp = le_of_nat 4 (lp_total es) @ le_of_nat 2 num @ lp_body es @ LP_EOF # slack"
    by (auto simp: lp_rep_def)
  have "num < 65536" using num by (auto simp: lp_count_ok_def LP_HDR_NUMELE_UNKNOWN_def)
  moreover have "lpGetNumElements lp = nat_of_le (slice 4 2 lp)"
    by (rule lpGetNumElements_eq) (simp add: lp)
  moreover have "slice 4 2 lp = le_of_nat 2 num" by (simp add: lp slice_def)
  ultimately show ?thesis using num by simp
qed

lemma lp_rep_slice:
  assumes "lp_rep lp es" "i < length es"
  shows "slice (lp_off es i) (length (lp_entry (es ! i))) lp = lp_entry (es ! i)"
  using assms lp_body_split [OF assms(2)]
  by (auto simp: lp_rep_def lp_off_def LP_HDR_SIZE_def slice_def)

lemma lp_rep_enc:
  assumes "lp_rep lp es" "i < length es"
  shows "slice (lp_off es i) (length (es ! i)) lp = es ! i"
    and "slice (lp_off es i + length (es ! i)) (lpBacklenSize (length (es ! i))) lp
       = lpEncodeBacklen (length (es ! i))"
proof -
  let ?e = "es ! i"
  have "slice (lp_off es i) (length ?e) lp
      = slice 0 (length ?e) (slice (lp_off es i) (length (lp_entry ?e)) lp)"
    by (subst slice_slice) simp_all
  then show "slice (lp_off es i) (length ?e) lp = ?e"
    by (simp only: lp_rep_slice [OF assms]) (simp add: lp_entry_def)
  have "slice (lp_off es i + length ?e) (lpBacklenSize (length ?e)) lp
      = slice (length ?e) (lpBacklenSize (length ?e)) (slice (lp_off es i) (length (lp_entry ?e)) lp)"
    by (subst slice_slice) simp_all
  then show "slice (lp_off es i + length ?e) (lpBacklenSize (length ?e)) lp = lpEncodeBacklen (length ?e)"
    by (simp only: lp_rep_slice [OF assms]) (simp add: lp_entry_def slice_def)
qed

lemma lp_rep_eof: "lp_rep lp es \<Longrightarrow> lp ! lp_off es (length es) = LP_EOF"
  by (auto simp: lp_rep_def lp_off_def LP_HDR_SIZE_def nth_append)

lemma lp_rep_not_eof: "lp_rep lp es \<Longrightarrow> i < length es \<Longrightarrow> lp ! lp_off es i \<noteq> LP_EOF"
  using enc_sizes_at(1) [OF lp_rep_valid lp_rep_enc(1)] by (auto simp: valid_enc_def dest: lp_rep_valid)

lemma lp_rep_eof_iff: "lp_rep lp es \<Longrightarrow> i \<le> length es \<Longrightarrow> lp ! lp_off es i = LP_EOF \<longleftrightarrow> i = length es"
  using lp_rep_eof lp_rep_not_eof by (metis le_neq_implies_less)

lemma lp_rep_skip: "lp_rep lp es \<Longrightarrow> i < length es \<Longrightarrow> lpSkip lp (lp_off es i) = lp_off es (Suc i)"
  using enc_sizes_at(3) [OF lp_rep_valid lp_rep_enc(1)] by (simp add: lpSkip_def Let_def lp_off_Suc)

lemma lp_off_Suc_le: "i < length es \<Longrightarrow> lp_off es (Suc i) \<le> lp_total es - 1"
  using lp_off_less [of es "Suc i"] by simp

lemma lp_rep_backlen:
  assumes "lp_rep lp es" "i < length es"
  shows "lpDecodeBacklen lp (lp_off es (Suc i) - 1) = length (es ! i)"
  using lpDecodeBacklen_at [OF _ lp_rep_enc(2) [OF assms]] valid_enc_size [OF lp_rep_valid [OF assms]]
  by (simp add: lp_off_Suc [OF assms(2)] add.assoc)

lemma lp_rep_validate_next:
  assumes "lp_rep lp es" "i < length es"
  shows "lpValidateNext lp (Some (lp_off es i)) (lp_total es) = Some (Some (lp_off es (Suc i)))"
proof -
  note v = lp_rep_valid [OF assms]
  note sz = enc_sizes_at [OF v lp_rep_enc(1) [OF assms]]
  have b: "lp ! lp_off es i \<noteq> LP_EOF" using lp_rep_not_eof [OF assms] .
  have k: "0 < lpCurrentEncodedSizeBytes (es ! i) 0" "lpCurrentEncodedSizeBytes (es ! i) 0 \<le> length (es ! i)"
    using v by (simp_all add: valid_enc_def)
  have len: "length (es ! i) + lpBacklenSize (length (es ! i)) < 2 ^ 64"
    using valid_enc_size [OF v] lpBacklenSize_bounds(2) [of "length (es ! i)"]
    by (simp del: lpBacklenSize_bounds)
  note nxt = lp_off_Suc [OF assms(2)]
  have lt: "lp_off es (Suc i) < lp_total es" by (rule lp_off_less)
  have "lpDecodeBacklen lp (lp_off es i + (length (es ! i) + lpBacklenSize (length (es ! i))) - 1)
      = length (es ! i)"
    using lp_rep_backlen [OF assms] by (simp only: nxt)
  then show ?thesis
    using b k len lt lp_off_ge [of es i]
    by (simp add: lpValidateNext_def OUT_OF_RANGE_def Let_def sz nxt)
qed

lemma lp_rep_validate_end:
  "lp_rep lp es \<Longrightarrow> lpValidateNext lp (Some (lp_off es (length es))) (lp_total es) = Some None"
  using lp_rep_eof [of lp es] lp_off_ge [of es "length es"] lp_off_less [of es "length es"]
  by (simp add: lpValidateNext_def OUT_OF_RANGE_def)

lemma lp_rep_assert: "lp_rep lp es \<Longrightarrow> i \<le> length es \<Longrightarrow> lpAssertValidEntry lp (lp_total es) (lp_off es i)"
  using lp_rep_validate_next [of lp es i] lp_rep_validate_end [of lp es]
  by (cases "i = length es") (auto simp: lpAssertValidEntry_def)

section \<open>Traversal\<close>

definition lp_ptr :: "bytes list \<Rightarrow> nat \<Rightarrow> nat option" where
  "lp_ptr es i = (if i < length es then Some (lp_off es i) else None)"

lemma lp_rep_next:
  "lp_rep lp es \<Longrightarrow> i < length es \<Longrightarrow> lpNext lp (lp_off es i) = Some (lp_ptr es (Suc i))"
  by (simp add: lpNext_def lp_rep_skip lp_rep_eof_iff lp_rep_assert lp_ptr_def)

lemma lp_rep_first: "lp_rep lp es \<Longrightarrow> lpFirst lp = Some (lp_ptr es 0)"
  using lp_rep_eof_iff [of lp es 0] lp_rep_assert [of lp es 0]
  by (simp add: lpFirst_def lp_ptr_def)

lemma lp_rep_prev:
  assumes "lp_rep lp es" "i \<le> length es"
  shows "lpPrev lp (lp_off es i) = Some (if i = 0 then None else Some (lp_off es (i - 1)))"
proof (cases i)
  case 0 then show ?thesis by (simp add: lpPrev_def)
next
  case (Suc j)
  then have j: "j < length es" using assms by simp
  let ?n = "length (es ! j)"
  have n: "?n + lpBacklenSize ?n < 2 ^ 64"
    using valid_enc_size [OF lp_rep_valid [OF assms(1) j]] lpBacklenSize_bounds(2) [of ?n]
    by (simp del: lpBacklenSize_bounds)
  have "lp_off es (Suc j) \<noteq> LP_HDR_SIZE"
    using lp_off_mono [of 0 "Suc j" es] j by simp
  moreover have "lp_off es (Suc j) - 1 - (?n + lpBacklenSize ?n - 1) = lp_off es j"
    using lpBacklenSize_bounds(1) [of ?n] by (simp add: lp_off_Suc [OF j])
  moreover have "(?n + lpBacklenSize ?n) mod 2 ^ 64 = ?n + lpBacklenSize ?n"
    using n by (rule mod_less)
  ultimately have "lpPrev lp (lp_off es (Suc j)) =
      (if \<not> lpAssertValidEntry lp (lp_total es) (lp_off es j) then None else Some (Some (lp_off es j)))"
    by (simp only: lpPrev_def Let_def lp_rep_backlen [OF assms(1) j] lp_rep_bytes [OF assms(1)] if_False)
  then show ?thesis
    using lp_rep_assert [OF assms(1), of j] j by (simp add: Suc)
qed

lemma lp_rep_last:
  "lp_rep lp es \<Longrightarrow> lpLast lp = Some (if es = [] then None else Some (lp_off es (length es - 1)))"
  using lp_rep_prev [of lp es "length es"] by (simp add: lpLast_def lp_rep_total lp_off_length)

lemma lp_body_ge: "(\<forall>e \<in> set es. valid_enc e) \<Longrightarrow> 2 * length es \<le> length (lp_body es)"
proof (induction es)
  case (Cons e es)
  have "0 < length e" "0 < lpBacklenSize (length e)" using Cons.prems valid_enc_pos by simp_all
  then have "2 \<le> length e + lpBacklenSize (length e)" by linarith
  with Cons show ?case by simp
qed simp

lemma lp_rep_length_less: "lp_rep lp es \<Longrightarrow> length es < 2 ^ 31"
proof -
  assume r: "lp_rep lp es"
  then have "lp_total es < 2 ^ 32" "\<forall>e \<in> set es. valid_enc e" by (auto simp: lp_rep_def)
  then show ?thesis using lp_body_ge [of es] by (simp add: lp_total_def)
qed

lemma lpLength_loop_rep:
  assumes "lp_rep lp es" "i \<le> length es" "count + (length es - i) < 2 ^ 32"
  shows "lpLength_loop lp (lp_ptr es i) count = Some (count + (length es - i))"
  using assms
proof (induction "length es - i" arbitrary: i count)
  case 0
  then show ?case by (simp add: lp_ptr_def lpLength_loop.simps)
next
  case (Suc n)
  then have i: "i < length es" by simp
  have c: "(count + 1) mod 2 ^ 32 = count + 1" using Suc.prems(3) i by (intro mod_less) linarith
  have IH: "lpLength_loop lp (lp_ptr es (Suc i)) (count + 1) = Some (count + 1 + (length es - Suc i))"
    using Suc i by (intro Suc.hyps(1)) auto
  have "lpLength_loop lp (Some (lp_off es i)) count = lpLength_loop lp (lp_ptr es (Suc i)) (count + 1)"
    by (simp only: lpLength_loop.simps(2) [of lp "lp_off es i"] Let_def c lp_rep_next [OF Suc.prems(1) i])
      (auto simp: lpLength_loop.simps(1) split: option.split)
  then show ?case using IH i by (simp add: lp_ptr_def)
qed

lemma lp_count_replace:
  assumes "lp_rep lp es" "n = length es" "n < LP_HDR_NUMELE_UNKNOWN"
  shows "lp_rep (lpSetNumElements lp n) es"
proof -
  obtain num slack where
    "lp = le_of_nat 4 (lp_total es) @ le_of_nat 2 num @ lp_body es @ LP_EOF # slack"
    using assms(1) by (auto simp: lp_rep_def)
  then have "lpSetNumElements lp n
      = le_of_nat 4 (lp_total es) @ le_of_nat 2 n @ lp_body es @ LP_EOF # slack"
    by (simp add: lpSetNumElements_eq)
  then show ?thesis using assms by (auto simp: lp_rep_def lp_count_ok_def)
qed

lemma lp_rep_lpLength:
  assumes "lp_rep lp es"
  shows "\<exists>lp'. lpLength lp = Some (lp', length es) \<and> lp_rep lp' es"
proof (cases "lpGetNumElements lp = LP_HDR_NUMELE_UNKNOWN")
  case False
  then show ?thesis
    using assms lp_rep_count [OF assms] by (auto simp: lpLength_def lp_count_ok_def)
next
  case True
  have "lpLength_loop lp (lp_ptr es 0) 0 = Some (length es)"
    using lpLength_loop_rep [OF assms, of 0 0] lp_rep_length_less [OF assms] by simp
  then have "lpLength lp = Some (if length es < LP_HDR_NUMELE_UNKNOWN
      then lpSetNumElements lp (length es) else lp, length es)"
    using True by (simp add: lpLength_def lp_rep_first [OF assms])
  then show ?thesis using assms lp_count_replace [OF assms] by auto
qed

section \<open>Seeking\<close>

lemma lp_ptr_ge [simp]: "length es \<le> i \<Longrightarrow> lp_ptr es i = None"
  by (simp add: lp_ptr_def)

lemma lp_ptr_less [simp]: "i < length es \<Longrightarrow> lp_ptr es i = Some (lp_off es i)"
  by (simp add: lp_ptr_def)

lemma lpSeek_loop_None [simp]: "lpSeek_loop step n None = Some None"
  by (cases n) auto

lemma lpSeek_forward:
  "lp_rep lp es \<Longrightarrow> lpSeek_loop (lpNext lp) k (lp_ptr es i) = Some (lp_ptr es (i + k))"
proof (induction k arbitrary: i)
  case (Suc k)
  then show ?case by (cases "i < length es") (auto simp: lp_rep_next)
qed simp

lemma lpSeek_backward:
  "lp_rep lp es \<Longrightarrow> j \<le> length es \<Longrightarrow>
     lpSeek_loop (lpPrev lp) k (if j = 0 then None else Some (lp_off es (j - 1)))
     = Some (if j - k = 0 then None else Some (lp_off es (j - k - 1)))"
proof (induction k arbitrary: j)
  case (Suc k)
  show ?case
  proof (cases j)
    case (Suc i)
    then have "lpPrev lp (lp_off es i) = Some (if i = 0 then None else Some (lp_off es (i - 1)))"
      using Suc.prems by (intro lp_rep_prev) auto
    then show ?thesis using Suc Suc.IH [of i] Suc.prems by simp
  qed simp
qed simp

lemma lpSeek_scan_forward:
  "lp_rep lp es \<Longrightarrow> 0 \<le> index \<Longrightarrow> lpSeek_scan lp True index = Some (lp_ptr es (nat index))"
  using lpSeek_forward [of lp es "nat index" 0] by (simp add: lpSeek_scan_def lp_rep_first)

lemma lpSeek_scan_backward:
  assumes "lp_rep lp es" "index < 0"
  shows "lpSeek_scan lp False index =
    Some (if index < - int (length es) then None else Some (lp_off es (nat (int (length es) + index))))"
proof -
  have k: "length es - nat (- 1 - index) - 1 = nat (int (length es) + index)"
    "(length es - nat (- 1 - index) = 0) = (index < - int (length es))"
    using assms(2) by auto
  show ?thesis
    using lpSeek_backward [OF assms(1), of "length es" "nat (- 1 - index)"]
    by (simp only: lpSeek_scan_def lp_rep_last [OF assms(1)] if_False option.case
        length_0_conv [symmetric, of es] k order.refl simp_thms)
qed

lemma lp_rep_seek:
  assumes "lp_rep lp es"
  shows "lpSeek lp index = Some (map_option (lp_off es) (index_pos (length es) index))"
proof -
  let ?n = "length es"
  have fw: "lpSeek_scan lp True i = Some (map_option (lp_off es) (index_pos ?n i))" if "0 \<le> i" for i
    using lpSeek_scan_forward [OF assms that] that
    by (auto simp: index_pos_def lp_ptr_def nat_less_iff)
  have bw: "lpSeek_scan lp False i = Some (map_option (lp_off es) (index_pos ?n i))" if "i < 0" for i
    using lpSeek_scan_backward [OF assms that] that by (auto simp: index_pos_def)
  show ?thesis
  proof (cases "lpGetNumElements lp = LP_HDR_NUMELE_UNKNOWN")
    case True
    then show ?thesis by (simp add: lpSeek_def fw bw)
  next
    case False
    then have num: "lpGetNumElements lp = ?n" using lp_rep_count [OF assms] by (simp add: lp_count_ok_def)
    define i where "i = (if index < 0 then int ?n + index else index)"
    have "index_pos ?n index = (if i < 0 \<or> i \<ge> int ?n then None else index_pos ?n i)"
      "i < int ?n \<Longrightarrow> 0 \<le> i \<Longrightarrow> index_pos ?n (i - int ?n) = index_pos ?n i"
      by (auto simp: index_pos_def i_def)
    then show ?thesis using False num
      by (simp add: lpSeek_def Let_def fw bw flip: i_def)
  qed
qed

section \<open>Comparing and searching\<close>

text \<open>An entry matches a string when it is that string, or the integer it denotes.\<close>

fun lp_matches :: "lp_ele \<Rightarrow> bytes \<Rightarrow> bool" where
  "lp_matches (LpStr t) s \<longleftrightarrow> t = s"
| "lp_matches (LpInt v) s \<longleftrightarrow> lpStringToInt64 s = Some v"

lemma lp_rep_get:
  assumes "lp_rep lp es" "i < length es"
  shows "lp_deref lp (lpGet lp (lp_off es i)) = dec_enc (es ! i)"
    and "snd (lpGetWithSize lp (lp_off es i)) = Some (length (lp_entry (es ! i)))"
    and "lpGet lp (lp_off es i) = LpString off n \<Longrightarrow>
           lp_off es i < off \<and> off + n = lp_off es i + length (es ! i)"
  using lpGet_at [OF lp_rep_valid [OF assms] lp_rep_enc(1) [OF assms]] by auto

lemma lp_rep_matches:
  assumes "lp_rep lp es" "i < length es" "lpGet lp (lp_off es i) = v"
  shows "lp_matches (dec_enc (es ! i)) s \<longleftrightarrow>
     (case v of LpString off n \<Rightarrow> length s = n \<and> slice off n lp = s
              | LpInteger k \<Rightarrow> lpStringToInt64 s = Some k)"
proof (cases v)
  case (LpString off n)
  then have "off + n = lp_off es i + length (es ! i)"
    using lp_rep_get(3) [OF assms(1,2)] assms(3) by simp
  also have "\<dots> \<le> length lp"
    using slice_eq_length [OF lp_rep_enc(1) [OF assms(1,2)]] lp_rep_valid [OF assms(1,2)]
    by (simp add: valid_enc_def)
  finally have "length (slice off n lp) = n" by simp
  then show ?thesis
    using lp_rep_get(1) [OF assms(1,2), symmetric] LpString by (auto simp: assms(3))
next
  case (LpInteger k)
  then show ?thesis
    using lp_rep_get(1) [OF assms(1,2), symmetric] by (simp add: assms(3))
qed

lemma lp_rep_compare:
  "lp_rep lp es \<Longrightarrow> i < length es \<Longrightarrow> lpCompare lp (lp_off es i) s = lp_matches (dec_enc (es ! i)) s"
  using lp_rep_matches [of lp es i _ s, OF _ _ refl]
  by (auto simp: lpCompare_def lp_rep_not_eof split: lp_value.split option.split)


lemma string2ll_length: "string2ll s = Some v \<Longrightarrow> 0 < length s \<and> length s < 21"
proof (rule ccontr)
  assume v: "string2ll s = Some v" and "\<not> (0 < length s \<and> length s < 21)"
  then have "length s = 0 \<or> length s \<ge> LONG_STR_SIZE" by (auto simp: LONG_STR_SIZE_def)
  then have "string2ll s = None" unfolding string2ll_def by (simp only: if_True)
  with v show False by simp
qed

lemma lpFind_venc_eq: "lpFind_venc s None = lpStringToInt64 s"
proof (cases "length s \<ge> 32 \<or> length s = 0")
  case True
  then have "string2ll s = None" using string2ll_length [of s] by (cases "string2ll s") auto
  with True show ?thesis by (auto simp: lpFind_venc_def lpStringToInt64_eq)
next
  case False
  then show ?thesis by (simp add: lpFind_venc_def)
qed

lemma lpFind_venc_Some: "lpFind_venc s (Some v) = v"
  by (simp add: lpFind_venc_def)

lemma lp_rep_find_entry:
  assumes "lp_rep lp es" "i < length es" "venc = None \<or> venc = Some (lpStringToInt64 s)"
  shows "lpFind_entry lp (lp_total es) s (lp_off es i) entry_size venc =
      (if lp_matches (dec_enc (es ! i)) s then Inl (Some (Some (lp_off es i)))
       else Inr (lp_off es (Suc i), length (lp_entry (es ! i)),
              case dec_enc (es ! i) of LpStr _ \<Rightarrow> venc | LpInt _ \<Rightarrow> Some (lpStringToInt64 s)))"
proof -
  have venc: "lpFind_venc s venc = lpStringToInt64 s"
    using assms(3) by (auto simp: lpFind_venc_eq lpFind_venc_Some)
  have sz: "snd (lpGetWithSize lp (lp_off es i)) = Some (length (lp_entry (es ! i)))"
    by (rule lp_rep_get(2) [OF assms(1,2)])
  obtain v where v: "lpGetWithSize lp (lp_off es i) = (v, Some (length (lp_entry (es ! i))))"
    using sz by (metis prod.collapse)
  have g: "lpGet lp (lp_off es i) = v" using v by (simp add: lpGet_def)
  have nxt: "lp_off es (Suc i) = lp_off es i + length (lp_entry (es ! i))"
    using lp_off_Suc [OF assms(2)] by simp
  have d: "dec_enc (es ! i) = lp_deref lp v" using lp_rep_get(1) [OF assms(1,2)] g by simp
  have rng: "LP_HDR_SIZE \<le> lp_off es i" "lp_off es (Suc i) < lp_total es"
    by (rule lp_off_ge lp_off_less)+
  note mt = lp_rep_matches [OF assms(1,2) g, of s]
  show ?thesis
  proof (cases v)
    case (LpString off n)
    then show ?thesis
      using mt rng d unfolding lpFind_entry_def v nxt by (auto simp: Let_def)
  next
    case (LpInteger k)
    then show ?thesis
      using mt rng d venc unfolding lpFind_entry_def v nxt by (auto simp: Let_def)
  qed
qed

lemma lp_rep_find_check:
  "lp_rep lp es \<Longrightarrow> i \<le> length es \<Longrightarrow> lpFind_check lp (lp_total es) (lp_off es i)"
  using lp_rep_assert [of lp es i] lp_off_ge [of es i] lp_off_less [of es i] by (simp add: lpFind_check_def)

text \<open>The first matching position among \<open>i\<close>, \<open>i + skip + 1\<close>, ... when \<open>c\<close> positions remain to be
  skipped.\<close>

definition find_pos :: "bytes list \<Rightarrow> bytes \<Rightarrow> nat \<Rightarrow> nat \<Rightarrow> nat \<Rightarrow> nat option" where
  "find_pos es s skip i c =
     find (\<lambda>j. i + c \<le> j \<and> (j - (i + c)) mod (skip + 1) = 0 \<and> lp_matches (dec_enc (es ! j)) s) [i..<length es]"

lemma find_cong_set: "(\<And>x. x \<in> set xs \<Longrightarrow> P x = Q x) \<Longrightarrow> find P xs = find Q xs"
  by (induction xs) auto

lemma find_pos_skip: "i < length es \<Longrightarrow> 0 < c \<Longrightarrow> find_pos es s skip i c = find_pos es s skip (Suc i) (c - 1)"
proof -
  assume "i < length es" "0 < c"
  then show ?thesis
    by (simp add: find_pos_def upt_conv_Cons [of i])
qed

lemma find_pos_match:
  "i < length es \<Longrightarrow> lp_matches (dec_enc (es ! i)) s \<Longrightarrow> find_pos es s skip i 0 = Some i"
  by (simp add: find_pos_def upt_conv_Cons [of i])

lemma find_pos_nomatch:
  assumes "i < length es" "\<not> lp_matches (dec_enc (es ! i)) s"
  shows "find_pos es s skip i 0 = find_pos es s skip (Suc i) skip"
proof -
  have "(j - i) mod Suc skip = 0 \<longleftrightarrow> Suc i + skip \<le> j \<and> (j - (Suc i + skip)) mod Suc skip = 0"
    if "Suc i \<le> j" for j
  proof -
    have "Suc i + skip \<le> j" if "(j - i) mod Suc skip = 0"
    proof (rule ccontr)
      assume "\<not> Suc i + skip \<le> j"
      then have "(j - i) mod Suc skip = j - i" by (intro mod_less) linarith
      with that \<open>Suc i \<le> j\<close> show False by simp
    qed
    moreover have "(j - i) mod Suc skip = (j - (Suc i + skip)) mod Suc skip" if "Suc i + skip \<le> j"
      using le_mod_geq [of "Suc skip" "j - i"] that by simp
    ultimately show ?thesis by auto
  qed
  note eq = this [unfolded mod_eq_0_iff_dvd]
  show ?thesis
    using assms eq unfolding find_pos_def upt_conv_Cons [OF assms(1)]
    by (auto intro!: find_cong_set)
qed

lemma lpFind_loop_rep:
  assumes "lp_rep lp es" "i < length es" "venc = None \<or> venc = Some (lpStringToInt64 s)" "0 < entry_size"
  shows "lpFind_loop lp (lp_total es) s skip (lp_off es i) c entry_size venc =
     Some (map_option (lp_off es) (find_pos es s skip i c))"
  using assms
proof (induction "length es - i" arbitrary: i c entry_size venc)
  case (Suc n)
  let ?p = "lp_off es i" and ?q = "lp_off es (Suc i)"
  note rep = Suc.prems(1) and i = Suc.prems(2)
  have chk: "lpFind_check lp (lp_total es) ?q" using i by (intro lp_rep_find_check [OF rep]) simp
  have eof: "lp ! ?q = LP_EOF \<longleftrightarrow> Suc i = length es" using i by (intro lp_rep_eof_iff [OF rep]) simp
  have lt: "\<not> ?q \<le> ?p" using lp_off_mono [of i "Suc i" es] i by simp
  have stepping: "(if \<not> lpFind_check lp (lp_total es) ?q then None
      else if lp ! ?q = LP_EOF then Some None else if ?q \<le> ?p then None
      else lpFind_loop lp (lp_total es) s skip ?q c' sz' venc')
      = Some (map_option (lp_off es) (find_pos es s skip (Suc i) c'))"
    if "venc' = None \<or> venc' = Some (lpStringToInt64 s)" "0 < sz'" for c' sz' venc'
  proof (cases "Suc i = length es")
    case True
    then show ?thesis using chk eof by (simp add: find_pos_def)
  next
    case False
    then have "Suc i < length es" using i by simp
    then show ?thesis
      using Suc.hyps(1) [of "Suc i" venc' sz' c'] Suc.hyps(2) rep that chk eof lt False by simp
  qed
  show ?case
  proof (cases c)
    case 0
    show ?thesis
    proof (cases "lp_matches (dec_enc (es ! i)) s")
      case True
      then show ?thesis
        using 0 lp_rep_find_entry [OF rep i Suc.prems(3)] find_pos_match [OF i]
        by (subst lpFind_loop.simps) simp
    next
      case False
      define venc' where "venc' = (case dec_enc (es ! i) of LpStr _ \<Rightarrow> venc | LpInt _ \<Rightarrow> Some (lpStringToInt64 s))"
      have v: "venc' = None \<or> venc' = Some (lpStringToInt64 s)"
        using Suc.prems(3) by (simp add: venc'_def split: lp_ele.split)
      have e: "lpFind_entry lp (lp_total es) s ?p entry_size venc = Inr (?q, length (lp_entry (es ! i)), venc')"
        using lp_rep_find_entry [OF rep i Suc.prems(3)] False by (simp add: venc'_def)
      have "0 < length (lp_entry (es ! i))" by simp
      then show ?thesis
        using 0 stepping [OF v \<open>0 < length (lp_entry (es ! i))\<close>, of skip] find_pos_nomatch [OF i False, of skip]
        by (subst lpFind_loop.simps) (simp only: e sum.case prod.case if_True simp_thms)
    qed
  next
    case (Suc k)
    then show ?thesis
      using stepping [OF Suc.prems(3,4)] find_pos_skip [OF i, of c s skip] lp_rep_skip [OF rep i]
      by (subst lpFind_loop.simps) (simp only: sum.case prod.case nat.distinct if_False zero_less_Suc simp_thms)
  qed
qed simp

lemma lp_rep_find:
  "lp_rep lp es \<Longrightarrow> i < length es \<Longrightarrow>
     lpFind lp (lp_off es i) s skip = Some (map_option (lp_off es) (find_pos es s skip i 0))"
  using lpFind_loop_rep [of lp es i None s 123456789 skip 0] by (simp add: lpFind_def)

section \<open>Validation\<close>

lemma lpValidate_loop_rep:
  assumes "lp_rep lp es" "i \<le> length es" "count + (length es - i) < 2 ^ 32"
  shows "lpValidate_loop lp (lp_total es) None numele (Some (lp_off es i)) count u =
     (Some (Some (lp_total es - 1), count + (length es - i)), u)"
  using assms
proof (induction "length es - i" arbitrary: i count)
  case 0
  then have "i = length es" by simp
  then show ?case using lp_rep_eof [OF 0(2)] lp_off_length [of es]
    by (simp add: lpValidate_loop.simps(2))
next
  case (Suc n)
  then have i: "i < length es" by simp
  have c: "(count + 1) mod 2 ^ 32 = count + 1" using Suc.prems(3) i by (intro mod_less) linarith
  have IH: "lpValidate_loop lp (lp_total es) None numele (Some (lp_off es (Suc i))) (count + 1) u =
     (Some (Some (lp_total es - 1), count + 1 + (length es - Suc i)), u)"
    using Suc i by (intro Suc.hyps(1)) auto
  have "lpValidate_loop lp (lp_total es) None numele (Some (lp_off es i)) count u =
      lpValidate_loop lp (lp_total es) None numele (Some (lp_off es (Suc i))) (count + 1) u"
    by (subst lpValidate_loop.simps(2))
      (simp only: lp_rep_validate_next [OF Suc.prems(1) i] lp_rep_not_eof [OF Suc.prems(1) i]
        if_False option.case prod.case simp_thms c)
  then show ?case using IH i by simp
qed

lemma lp_rep_validates:
  assumes "lp_rep lp es"
  shows "lpValidateIntegrity lp (lp_total es) deep None u = (True, u)"
proof -
  have "lp ! (lp_total es - 1) = LP_EOF" using lp_rep_eof [OF assms] by (simp add: lp_off_length)
  moreover have "lpValidate_loop lp (lp_total es) None n (Some LP_HDR_SIZE) 0 u =
      (Some (Some (lp_total es - 1), length es), u)" for n
    using lpValidate_loop_rep [OF assms, of 0 0 n u] lp_rep_length_less [OF assms] by simp
  ultimately show ?thesis
    using lp_rep_count [OF assms]
    by (simp add: lpValidateIntegrity_def lp_rep_total [OF assms] lp_count_ok_def Let_def)
      (auto simp: lp_total_def)
qed

end
