(* ===== verification/Listpack_Update.thy ===== *)
theory Listpack_Update
  imports Listpack_Rep
begin

text \<open>
  What the updating operations of the listpack do to the sequence of encoded elements it
  holds: insertion, replacement, deletion of one element, of a range and of a batch,
  merging, copying, and creation.
\<close>

section \<open>Making room\<close>

lemma realloc_grow: "length buf \<le> n \<Longrightarrow> realloc_bytes n buf = buf @ replicate (n - length buf) fresh_byte"
  by (simp add: realloc_bytes_def)

lemma memmove_gap:
  assumes "room \<le> length old + length rest"
  shows "\<exists>gap rest'. length gap = room \<and>
    memmove_in (pre @ old @ tail @ rest) (length pre + room) (length pre + length old) (length tail)
      = pre @ gap @ tail @ rest'"
proof -
  let ?buf = "pre @ old @ tail @ rest"
  let ?gap = "take room (old @ tail @ rest)"
  have "slice (length pre + length old) (length tail) ?buf = tail"
    by (simp add: slice_def)
  then have "memmove_in ?buf (length pre + room) (length pre + length old) (length tail)
      = pre @ ?gap @ tail @ drop (length pre + room + length tail) ?buf"
    by (simp add: memmove_in_def blit_def)
  moreover have "length ?gap = room" using assms by simp
  ultimately show ?thesis by blast
qed

lemma lpInsert_room_eq:
  assumes "lp = pre @ old @ tail @ rest" "old_bytes = length pre + length old + length tail"
    and "new_bytes = length pre + room + length tail"
  shows "\<exists>gap rest'. length gap = room \<and>
    lpInsert_room lp (length pre) room (length old) old_bytes new_bytes = pre @ gap @ tail @ rest'"
proof -
  define lp1 where "lp1 = (if new_bytes > old_bytes \<and> new_bytes > length lp
    then realloc_bytes new_bytes lp else lp)"
  have "\<exists>rest1. lp1 = pre @ old @ tail @ rest1 \<and> room \<le> length old + length rest1"
  proof (cases "new_bytes > old_bytes \<and> new_bytes > length lp")
    case True
    then have "lp1 = pre @ old @ tail @ rest @ replicate (new_bytes - length lp) fresh_byte"
      using assms(1) by (simp add: lp1_def realloc_grow)
    then show ?thesis using True assms by auto
  next
    case False
    then show ?thesis using assms by (auto simp: lp1_def)
  qed
  then obtain rest1 where lp1: "lp1 = pre @ old @ tail @ rest1" and r: "room \<le> length old + length rest1"
    by blast
  obtain gap rest2 where gap: "length gap = room"
    "memmove_in lp1 (length pre + room) (length pre + length old) (length tail) = pre @ gap @ tail @ rest2"
    using memmove_gap [OF r, of pre tail] lp1 by auto
  have "old_bytes - length pre - length old = length tail" using assms(2) by simp
  then have eq: "lpInsert_room lp (length pre) room (length old) old_bytes new_bytes =
      (if new_bytes < old_bytes then realloc_bytes new_bytes (pre @ gap @ tail @ rest2)
       else pre @ gap @ tail @ rest2)"
    using gap(2) by (simp add: lpInsert_room_def Let_def flip: lp1_def)
  show ?thesis
  proof (cases "new_bytes < old_bytes")
    case True
    have "realloc_bytes new_bytes (pre @ gap @ tail @ rest2) = pre @ gap @ tail @ []"
      using assms(3) gap(1) by (simp add: realloc_bytes_def)
    with True eq gap(1) show ?thesis by auto
  next
    case False
    with eq gap(1) show ?thesis by auto
  qed
qed

section \<open>The header after an update\<close>

lemma lpGetNumElements_hdr:
  "length hdr = 6 \<Longrightarrow> lpGetNumElements (hdr @ rest) = nat_of_le (slice 4 2 hdr)"
  by (simp add: lpGetNumElements_eq)

lemma set_header:
  "length hdr = 6 \<Longrightarrow> lpSetTotalBytes (hdr @ rest) t = (le_of_nat 4 t @ drop 4 hdr) @ rest"
  "length hdr = 6 \<Longrightarrow> lpSetNumElements (hdr @ rest) n = (take 4 hdr @ le_of_nat 2 n) @ rest"
  by (simp_all add: lpSetTotalBytes_eq lpSetNumElements_eq)

lemma lp_rep_intro:
  assumes "\<forall>e \<in> set es. valid_enc e" "lp_total es < 2 ^ 32" "length hdr = 6"
    and "lp_count_ok (nat_of_le (slice 4 2 hdr)) (length es)" "t = lp_total es"
  shows "lp_rep (lpSetTotalBytes (hdr @ lp_body es @ LP_EOF # slack) t) es"
proof -
  have "drop 4 hdr = slice 4 2 hdr" using assms(3) by (simp add: slice_def)
  moreover have "le_of_nat 2 (nat_of_le (slice 4 2 hdr)) = slice 4 2 hdr"
    using le_of_nat_of_le [of "slice 4 2 hdr"] assms(3) by simp
  ultimately have "lpSetTotalBytes (hdr @ lp_body es @ LP_EOF # slack) t
      = le_of_nat 4 (lp_total es) @ le_of_nat 2 (nat_of_le (slice 4 2 hdr)) @ lp_body es @ LP_EOF # slack"
    using assms(3,5) by (simp add: set_header)
  then show ?thesis using assms unfolding lp_rep_def by blast
qed

lemma lp_count_less: "lp_count_ok num n \<Longrightarrow> num < 65536"
  by (auto simp: lp_count_ok_def LP_HDR_NUMELE_UNKNOWN_def)

lemma lpInsert_count_hdr:
  assumes "length hdr = 6" "lp_count_ok (nat_of_le (slice 4 2 hdr)) n"
    and "n' = (if delete then n - 1 else n + 1)" "delete \<longrightarrow> 0 < n"
  shows "\<exists>hdr'. lpInsert_count (hdr @ rest) delete = hdr' @ rest \<and> length hdr' = 6
     \<and> lp_count_ok (nat_of_le (slice 4 2 hdr')) n'"
proof (cases "nat_of_le (slice 4 2 hdr) = LP_HDR_NUMELE_UNKNOWN")
  case True
  then show ?thesis
    using assms by (auto simp: lpInsert_count_def lpGetNumElements_hdr lp_count_ok_def)
next
  case False
  then have num: "nat_of_le (slice 4 2 hdr) = n" "n < 65535"
    using assms(2) by (auto simp: lp_count_ok_def LP_HDR_NUMELE_UNKNOWN_def)
  have del: "delete \<Longrightarrow> (n + 2 ^ 32 - 1) mod 2 ^ 32 = n - 1"
  proof -
    assume delete
    then have "n + 2 ^ 32 - 1 = (n - 1) + 2 ^ 32" using assms(4) by simp
    then show ?thesis using num(2) by (simp only: mod_add_self2) simp
  qed
  let ?hdr = "take 4 hdr @ le_of_nat 2 n'"
  have "lpInsert_count (hdr @ rest) delete = lpSetNumElements (hdr @ rest) n'"
    using False num assms(1,3) del by (auto simp: lpInsert_count_def lpGetNumElements_hdr Let_def)
  also have "\<dots> = ?hdr @ rest" using assms(1) by (simp add: set_header)
  finally have "lpInsert_count (hdr @ rest) delete = ?hdr @ rest" .
  moreover have "slice 4 2 ?hdr = le_of_nat 2 n'"
    using assms(1) by (simp add: slice_def min_def)
  moreover have "lp_count_ok n' n'"
    using num(2) assms(3) by (auto simp: lp_count_ok_def LP_HDR_NUMELE_UNKNOWN_def)
  moreover have "n' mod 256 ^ 2 = n'" using num(2) assms(3) by simp
  ultimately show ?thesis using assms(1)
    by (intro exI [of _ ?hdr]) simp
qed

section \<open>Insertion, replacement and deletion\<close>

text \<open>The encoding \<open>lpInsert\<close> chooses for a string, and the text an element stands for.\<close>

definition lp_encode_str :: "bytes \<Rightarrow> bytes" where
  "lp_encode_str s = (case lpEncodeGetType s of EncInt bs \<Rightarrow> bs | EncString n \<Rightarrow> lpEncodeString s)"

lemma lpEncodeGetType_length:
  "(case lpEncodeGetType s of EncInt bs \<Rightarrow> length bs | EncString n \<Rightarrow> n) = length (lp_encode_str s)"
  by (simp add: lp_encode_str_def lpEncodeGetType_def length_lpEncodeString split: option.split)

lemma lp_rep_frame:
  assumes "lp_rep lp es"
  obtains hdr slack where "lp = hdr @ lp_body es @ LP_EOF # slack" "length hdr = 6"
    "lp_count_ok (nat_of_le (slice 4 2 hdr)) (length es)"
proof -
  obtain num slack where num: "lp_count_ok num (length es)"
    and lp: "lp = (le_of_nat 4 (lp_total es) @ le_of_nat 2 num) @ lp_body es @ LP_EOF # slack"
    using assms by (auto simp: lp_rep_def)
  have "slice 4 2 (le_of_nat 4 (lp_total es) @ le_of_nat 2 num) = le_of_nat 2 num"
    by (simp add: slice_def)
  then have "nat_of_le (slice 4 2 (le_of_nat 4 (lp_total es) @ le_of_nat 2 num)) = num"
    using lp_count_less [OF num] by simp
  then show thesis using that [OF lp] num by simp
qed

text \<open>The three element writes share this: after making room for \<open>new\<close> in place of \<open>ys\<close>, the
  buffer holds the new elements.\<close>

lemma lp_splice:
  assumes "lp_rep lp (xs @ ys @ zs)" "length new = room"
    and "new_bytes = lp_total (xs @ ys @ zs) + room - length (lp_body ys)"
  shows "\<exists>hdr slack gap.
    lpInsert_room lp (LP_HDR_SIZE + length (lp_body xs)) room (length (lp_body ys))
       (lp_total (xs @ ys @ zs)) new_bytes = hdr @ lp_body xs @ gap @ lp_body zs @ LP_EOF # slack
    \<and> length gap = room \<and> length hdr = 6
    \<and> lp_count_ok (nat_of_le (slice 4 2 hdr)) (length (xs @ ys @ zs))"
proof -
  obtain hdr slack where f: "lp = hdr @ lp_body (xs @ ys @ zs) @ LP_EOF # slack" "length hdr = 6"
    "lp_count_ok (nat_of_le (slice 4 2 hdr)) (length (xs @ ys @ zs))"
    using lp_rep_frame [OF assms(1)] by blast
  have "lp = (hdr @ lp_body xs) @ lp_body ys @ (lp_body zs @ [LP_EOF]) @ slack"
    by (simp add: f(1))
  from lpInsert_room_eq [OF this, of "lp_total (xs @ ys @ zs)" new_bytes room]
  obtain gap rest' where "length gap = room"
    "lpInsert_room lp (length (hdr @ lp_body xs)) room (length (lp_body ys))
       (lp_total (xs @ ys @ zs)) new_bytes = (hdr @ lp_body xs) @ gap @ (lp_body zs @ [LP_EOF]) @ rest'"
    using assms(3) f(2) by (auto simp: lp_total_def LP_HDR_SIZE_def)
  then show ?thesis
    using f(2,3) by (intro exI [of _ hdr] exI [of _ rest'] exI [of _ gap]) (simp_all add: LP_HDR_SIZE_def)
qed

lemma blit_gap: "length gap = length new \<Longrightarrow> k = length pre \<Longrightarrow> blit k new (pre @ gap @ post) = pre @ new @ post"
  by (simp add: blit_def)


definition lp_elearg :: "bytes option \<Rightarrow> bytes option \<Rightarrow> bytes \<Rightarrow> bool" where
  "lp_elearg elestr eleint e \<longleftrightarrow>
     (case elestr of Some s \<Rightarrow> e = lp_encode_str s | None \<Rightarrow> eleint = Some e)"

text \<open>\<open>lpInsert\<close> with the choice of encoding resolved.\<close>

lemma lpInsert_enc_eq:
  assumes "lp_elearg elestr eleint e"
  shows "enc_length (lpInsert_enc elestr eleint) = length e"
    and "lpInsert_store lp dst (lpInsert_enc elestr eleint) elestr backlen =
      blit (dst + length e) backlen (blit dst e lp)"
proof -
  have len: "enc_length (lpEncodeGetType s) = length (lp_encode_str s)" for s
    using lpEncodeGetType_length [of s] by (cases "lpEncodeGetType s") simp_all
  have "enc_length (lpInsert_enc elestr eleint) = length e \<and>
    lpInsert_store lp dst (lpInsert_enc elestr eleint) elestr backlen =
      blit (dst + length e) backlen (blit dst e lp)"
  proof (cases elestr)
    case None
    then show ?thesis using assms by (simp add: lp_elearg_def lpInsert_enc_def lpInsert_store_def)
  next
    case (Some s)
    then have "e = lp_encode_str s" using assms by (simp add: lp_elearg_def)
    then show ?thesis
      using Some len [of s] by (auto simp: lpInsert_enc_def lpInsert_store_def Let_def lp_encode_str_def
          split: lp_enctype.splits)
  qed
  then show "enc_length (lpInsert_enc elestr eleint) = length e"
    "lpInsert_store lp dst (lpInsert_enc elestr eleint) elestr backlen =
      blit (dst + length e) backlen (blit dst e lp)" by auto
qed

lemma lpInsert_element:
  assumes "lp_elearg elestr eleint e" "whr \<noteq> LP_AFTER"
    and "r = lpInsert_replaced lp p whr"
    and "new = lpInsert_new_bytes (lpGetTotalBytes lp) (length e) (lpBacklenSize (length e)) r"
  shows "lpInsert lp elestr eleint p whr =
    (if whr = LP_REPLACE \<and> \<not> ASSERT_INTEGRITY_LEN lp p r then None
     else if new > 2 ^ 32 - 1 then Some None
     else
       let lp' = lpInsert_room lp p (length e + lpBacklenSize (length e)) r (lpGetTotalBytes lp) new;
           lp' = blit (p + length e) (lpEncodeBacklen (length e)) (blit p e lp');
           lp' = (if whr \<noteq> LP_REPLACE then lpInsert_count lp' False else lp')
       in Some (Some (lpSetTotalBytes lp' new, Some p)))"
proof -
  have del: "(elestr = None \<and> eleint = None) = False"
    using assms(1) by (auto simp: lp_elearg_def split: option.splits)
  show ?thesis
    unfolding lpInsert_def lpInsert_at_def lpInsert_enc_eq [OF assms(1)] del Let_def
    using assms(2) by (simp add: assms(3,4) cong: if_cong split del: if_split)
qed

lemma lp_total_append: "lp_total (xs @ ys @ zs) = lp_total (xs @ zs) + length (lp_body ys)"
  by (simp add: lp_total_def)

lemma lp_off_append: "lp_off (xs @ ys) (length xs) = LP_HDR_SIZE + length (lp_body xs)"
  by (simp add: lp_off_def)

lemma nat_mod_64: "int n = k \<Longrightarrow> n < 2 ^ 64 \<Longrightarrow> nat (k mod 2 ^ 64) = n"
proof -
  assume k: "int n = k" "n < 2 ^ 64"
  then have "k < 2 ^ 64" by auto
  then have "k mod 2 ^ 64 = k" using k(1) by (intro mod_pos_pos_trivial) auto
  then show ?thesis using k(1) by simp
qed

text \<open>Storing the element and its backward length fills the gap.\<close>

lemma blit_entry:
  assumes "length gap = length (lp_entry e)" "k = length pre"
  shows "blit (k + length e) (lpEncodeBacklen (length e)) (blit k e (pre @ gap @ post)) = pre @ lp_entry e @ post"
proof -
  let ?b = "lpEncodeBacklen (length e)"
  have "gap = take (length e) gap @ drop (length e) gap" by simp
  then have "blit k e (pre @ gap @ post) = blit k e (pre @ take (length e) gap @ drop (length e) gap @ post)"
    by (metis append.assoc)
  also have "\<dots> = pre @ e @ drop (length e) gap @ post"
    using assms by (intro blit_gap) auto
  finally have "blit (k + length e) ?b (blit k e (pre @ gap @ post))
      = blit (length (pre @ e)) ?b ((pre @ e) @ drop (length e) gap @ post)"
    using assms(2) by simp
  also have "\<dots> = (pre @ e) @ ?b @ post"
    using assms(1) by (intro blit_gap) auto
  finally show ?thesis by (simp add: lp_entry_def)
qed

lemma lpInsert_before:
  assumes "lp_rep lp (xs @ zs)" "lp_elearg elestr eleint e" "valid_enc e"
  shows "lp_total (xs @ e # zs) < 2 ^ 32 \<Longrightarrow>
      \<exists>lp'. lpInsert lp elestr eleint (lp_off (xs @ zs) (length xs)) LP_BEFORE
          = Some (Some (lp', Some (lp_off (xs @ e # zs) (length xs)))) \<and> lp_rep lp' (xs @ e # zs)"
    and "\<not> lp_total (xs @ e # zs) < 2 ^ 32 \<Longrightarrow>
      lpInsert lp elestr eleint (lp_off (xs @ zs) (length xs)) LP_BEFORE = Some None"
proof -
  let ?p = "LP_HDR_SIZE + length (lp_body xs)"
  let ?new = "lp_total (xs @ e # zs)"
  have p: "lp_off (xs @ zs) (length xs) = ?p" "lp_off (xs @ e # zs) (length xs) = ?p"
    by (simp_all add: lp_off_append)
  have tot: "?new = lp_total (xs @ zs) + length (lp_entry e)"
    using lp_total_append [of xs "[e]" zs] by simp
  have old: "lpGetTotalBytes lp = lp_total (xs @ zs)" by (rule lp_rep_total) fact
  have lim: "lp_total (xs @ zs) < 2 ^ 32" using assms(1) by (simp add: lp_rep_def)
  have "length (lp_entry e) < 2 ^ 33"
    using valid_enc_size [OF assms(3)] lpBacklenSize_bounds(2) [of "length e"]
    by (simp del: lpBacklenSize_bounds)
  then have "?new < 2 ^ 64" using tot lim by simp
  then have new: "?new = lpInsert_new_bytes (lpGetTotalBytes lp) (length e) (lpBacklenSize (length e)) 0"
    unfolding lpInsert_new_bytes_def old using tot by (intro nat_mod_64 [symmetric]) simp_all
  have r0: "0 = lpInsert_replaced lp ?p LP_BEFORE" by (simp add: lpInsert_replaced_def)
  note ins = lpInsert_element [OF assms(2) lp_where.distinct(1) r0 new, unfolded old]
  show "lpInsert lp elestr eleint (lp_off (xs @ zs) (length xs)) LP_BEFORE = Some None"
    if "\<not> ?new < 2 ^ 32"
    using ins that p by simp
  show "\<exists>lp'. lpInsert lp elestr eleint (lp_off (xs @ zs) (length xs)) LP_BEFORE
      = Some (Some (lp', Some (lp_off (xs @ e # zs) (length xs)))) \<and> lp_rep lp' (xs @ e # zs)"
    if fit: "?new < 2 ^ 32"
  proof -
    have "\<exists>hdr slack gap.
      lpInsert_room lp ?p (length (lp_entry e)) 0 (lp_total (xs @ zs)) ?new
         = hdr @ lp_body xs @ gap @ lp_body zs @ LP_EOF # slack
      \<and> length gap = length (lp_entry e) \<and> length hdr = 6
      \<and> lp_count_ok (nat_of_le (slice 4 2 hdr)) (length (xs @ zs))"
      using lp_splice [of lp xs "[]" zs "lp_entry e" "length (lp_entry e)" ?new] assms(1) tot by simp
    then obtain hdr slack gap where room:
      "lpInsert_room lp ?p (length (lp_entry e)) 0 (lp_total (xs @ zs)) ?new
         = hdr @ lp_body xs @ gap @ lp_body zs @ LP_EOF # slack"
      and g: "length gap = length (lp_entry e)" "length hdr = 6"
        "lp_count_ok (nat_of_le (slice 4 2 hdr)) (length (xs @ zs))"
      by blast
    let ?lp2 = "hdr @ lp_body (xs @ e # zs) @ LP_EOF # slack"
    have "blit (?p + length e) (lpEncodeBacklen (length e))
        (blit ?p e ((hdr @ lp_body xs) @ gap @ lp_body zs @ LP_EOF # slack))
        = (hdr @ lp_body xs) @ lp_entry e @ lp_body zs @ LP_EOF # slack"
      using g by (intro blit_entry) (simp_all add: LP_HDR_SIZE_def)
    then have store: "blit (?p + length e) (lpEncodeBacklen (length e))
        (blit ?p e (hdr @ lp_body xs @ gap @ lp_body zs @ LP_EOF # slack)) = ?lp2"
      by simp
    obtain hdr' where cnt: "lpInsert_count ?lp2 False = hdr' @ lp_body (xs @ e # zs) @ LP_EOF # slack"
      "length hdr' = 6" "lp_count_ok (nat_of_le (slice 4 2 hdr')) (length (xs @ e # zs))"
      using lpInsert_count_hdr [OF g(2,3), of "length (xs @ e # zs)" False] by auto
    have "lp_rep (lpSetTotalBytes (hdr' @ lp_body (xs @ e # zs) @ LP_EOF # slack) ?new) (xs @ e # zs)"
      using assms(1,3) fit cnt by (intro lp_rep_intro) (auto simp: lp_rep_def)
    moreover have "lpInsert lp elestr eleint ?p LP_BEFORE
        = Some (Some (lpSetTotalBytes (hdr' @ lp_body (xs @ e # zs) @ LP_EOF # slack) ?new, Some ?p))"
      using ins room store cnt(1) fit by (simp add: Let_def)
    ultimately show ?thesis using p by simp
  qed
qed

lemma lpInsert_after:
  assumes "lp_rep lp es" "i < length es" "lp_elearg elestr eleint e"
  shows "lpInsert lp elestr eleint (lp_off es i) LP_AFTER = lpInsert lp elestr eleint (lp_off es (Suc i)) LP_BEFORE"
proof -
  have del: "(elestr = None \<and> eleint = None) = False"
    using assms(3) by (auto simp: lp_elearg_def split: option.splits)
  have "ASSERT_INTEGRITY lp (lp_off es (Suc i))"
    using lp_off_ge [of es "Suc i"] lp_off_less [of es "Suc i"]
    by (simp add: ASSERT_INTEGRITY_def lp_rep_total [OF assms(1)])
  then show ?thesis
    unfolding lpInsert_def Let_def del by (simp add: lp_rep_skip [OF assms(1,2)])
qed

lemma lpInsert_replaced_rep:
  assumes "lp_rep lp (xs @ y # zs)"
  shows "lpInsert_replaced lp (LP_HDR_SIZE + length (lp_body xs)) LP_REPLACE = length (lp_entry y)"
    and "ASSERT_INTEGRITY_LEN lp (LP_HDR_SIZE + length (lp_body xs)) (length (lp_entry y))"
proof -
  have p: "lp_off (xs @ y # zs) (length xs) = LP_HDR_SIZE + length (lp_body xs)"
    by (rule lp_off_append)
  have y: "valid_enc y" using assms by (simp add: lp_rep_def)
  have i: "length xs < length (xs @ y # zs)" "(xs @ y # zs) ! length xs = y" by simp_all
  have sz: "lpCurrentEncodedSizeUnsafe lp (LP_HDR_SIZE + length (lp_body xs)) = length y"
    using enc_sizes_at(3) [OF y] lp_rep_enc(1) [OF assms i(1)] i(2) p by simp
  have "lp_total (xs @ y # zs) < 2 ^ 32" using assms by (simp add: lp_rep_def)
  then have "length (lp_entry y) < 2 ^ 32" by (simp add: lp_total_def)
  then show "lpInsert_replaced lp (LP_HDR_SIZE + length (lp_body xs)) LP_REPLACE = length (lp_entry y)"
    by (simp add: lpInsert_replaced_def sz Let_def)
  show "ASSERT_INTEGRITY_LEN lp (LP_HDR_SIZE + length (lp_body xs)) (length (lp_entry y))"
    by (simp add: ASSERT_INTEGRITY_LEN_def lp_rep_total [OF assms] lp_total_def)
qed

lemma lpInsert_replace:
  assumes "lp_rep lp (xs @ y # zs)" "lp_elearg elestr eleint e" "valid_enc e"
  shows "lp_total (xs @ e # zs) < 2 ^ 32 \<Longrightarrow>
      \<exists>lp'. lpInsert lp elestr eleint (lp_off (xs @ y # zs) (length xs)) LP_REPLACE
          = Some (Some (lp', Some (lp_off (xs @ e # zs) (length xs)))) \<and> lp_rep lp' (xs @ e # zs)"
    and "\<not> lp_total (xs @ e # zs) < 2 ^ 32 \<Longrightarrow>
      lpInsert lp elestr eleint (lp_off (xs @ y # zs) (length xs)) LP_REPLACE = Some None"
proof -
  let ?p = "LP_HDR_SIZE + length (lp_body xs)"
  let ?new = "lp_total (xs @ e # zs)" and ?old = "lp_total (xs @ y # zs)"
  have p: "lp_off (xs @ y # zs) (length xs) = ?p" "lp_off (xs @ e # zs) (length xs) = ?p"
    by (simp_all add: lp_off_append)
  have tot: "?new + length (lp_entry y) = ?old + length (lp_entry e)"
    using lp_total_append [of xs "[e]" zs] lp_total_append [of xs "[y]" zs] by simp
  have old: "lpGetTotalBytes lp = ?old" by (rule lp_rep_total) fact
  have lim: "?old < 2 ^ 32" using assms(1) by (simp add: lp_rep_def)
  have "length (lp_entry e) < 2 ^ 33"
    using valid_enc_size [OF assms(3)] lpBacklenSize_bounds(2) [of "length e"]
    by (simp del: lpBacklenSize_bounds)
  then have "?new < 2 ^ 64" using tot lim by simp
  then have new: "?new = lpInsert_new_bytes (lpGetTotalBytes lp) (length e) (lpBacklenSize (length e))
      (length (lp_entry y))"
    unfolding lpInsert_new_bytes_def old using tot by (intro nat_mod_64 [symmetric]) simp_all
  note rep = lpInsert_replaced_rep [OF assms(1)]
  note ins = lpInsert_element [OF assms(2) lp_where.distinct(6) rep(1) [symmetric] new, unfolded old]
  show "lpInsert lp elestr eleint (lp_off (xs @ y # zs) (length xs)) LP_REPLACE = Some None"
    if "\<not> ?new < 2 ^ 32"
    using ins rep(2) that p by simp
  show "\<exists>lp'. lpInsert lp elestr eleint (lp_off (xs @ y # zs) (length xs)) LP_REPLACE
      = Some (Some (lp', Some (lp_off (xs @ e # zs) (length xs)))) \<and> lp_rep lp' (xs @ e # zs)"
    if fit: "?new < 2 ^ 32"
  proof -
    have "\<exists>hdr slack gap. lpInsert_room lp ?p (length (lp_entry e)) (length (lp_entry y)) ?old ?new
         = hdr @ lp_body xs @ gap @ lp_body zs @ LP_EOF # slack
      \<and> length gap = length (lp_entry e) \<and> length hdr = 6
      \<and> lp_count_ok (nat_of_le (slice 4 2 hdr)) (length (xs @ y # zs))"
    proof -
      have "?new = lp_total (xs @ [y] @ zs) + length (lp_entry e) - length (lp_body [y])"
        using tot by simp
      from lp_splice [OF _ refl this] show ?thesis using assms(1) by simp
    qed
    then obtain hdr slack gap where room:
      "lpInsert_room lp ?p (length (lp_entry e)) (length (lp_entry y)) ?old ?new
         = hdr @ lp_body xs @ gap @ lp_body zs @ LP_EOF # slack"
      and g: "length gap = length (lp_entry e)" "length hdr = 6"
        "lp_count_ok (nat_of_le (slice 4 2 hdr)) (length (xs @ y # zs))"
      by blast
    let ?lp2 = "hdr @ lp_body (xs @ e # zs) @ LP_EOF # slack"
    have "blit (?p + length e) (lpEncodeBacklen (length e))
        (blit ?p e ((hdr @ lp_body xs) @ gap @ lp_body zs @ LP_EOF # slack))
        = (hdr @ lp_body xs) @ lp_entry e @ lp_body zs @ LP_EOF # slack"
      using g by (intro blit_entry) (simp_all add: LP_HDR_SIZE_def)
    then have store: "blit (?p + length e) (lpEncodeBacklen (length e))
        (blit ?p e (hdr @ lp_body xs @ gap @ lp_body zs @ LP_EOF # slack)) = ?lp2"
      by simp
    have "lp_rep (lpSetTotalBytes ?lp2 ?new) (xs @ e # zs)"
      using assms(1,3) fit g by (intro lp_rep_intro) (auto simp: lp_rep_def)
    moreover have "lpInsert lp elestr eleint ?p LP_REPLACE
        = Some (Some (lpSetTotalBytes ?lp2 ?new, Some ?p))"
      using ins rep(2) room store fit by (simp add: Let_def)
    ultimately show ?thesis using p by simp
  qed
qed

lemma lpInsert_delete_eq:
  "lpInsert lp None None p whr = lpInsert_at lp None None True p LP_REPLACE"
  by (simp add: lpInsert_def Let_def)

lemma lpDelete_rep:
  assumes "lp_rep lp (xs @ y # zs)"
  shows "\<exists>lp'. lpDelete lp (lp_off (xs @ y # zs) (length xs))
      = Some (Some (lp', lp_ptr (xs @ zs) (length xs))) \<and> lp_rep lp' (xs @ zs)"
proof -
  let ?p = "LP_HDR_SIZE + length (lp_body xs)"
  let ?new = "lp_total (xs @ zs)" and ?old = "lp_total (xs @ y # zs)"
  have p: "lp_off (xs @ y # zs) (length xs) = ?p" "lp_off (xs @ zs) (length xs) = ?p"
    by (simp_all add: lp_off_append)
  have tot: "?old = ?new + length (lp_entry y)"
    using lp_total_append [of xs "[y]" zs] by simp
  have old: "lpGetTotalBytes lp = ?old" by (rule lp_rep_total) fact
  have lim: "?old < 2 ^ 32" using assms(1) by (simp add: lp_rep_def)
  have new: "lpInsert_new_bytes ?old 0 0 (length (lp_entry y)) = ?new"
    unfolding lpInsert_new_bytes_def using tot lim by (intro nat_mod_64) simp_all
  note rep = lpInsert_replaced_rep [OF assms(1)]
  have "\<exists>hdr slack gap. lpInsert_room lp ?p 0 (length (lp_entry y)) ?old ?new
       = hdr @ lp_body xs @ gap @ lp_body zs @ LP_EOF # slack
    \<and> length gap = 0 \<and> length hdr = 6
    \<and> lp_count_ok (nat_of_le (slice 4 2 hdr)) (length (xs @ y # zs))"
    using lp_splice [of lp xs "[y]" zs "[]" 0 ?new] assms(1) tot by simp
  then obtain hdr slack where room:
    "lpInsert_room lp ?p 0 (length (lp_entry y)) ?old ?new = hdr @ lp_body (xs @ zs) @ LP_EOF # slack"
    and g: "length hdr = 6" "lp_count_ok (nat_of_le (slice 4 2 hdr)) (length (xs @ y # zs))"
    by auto
  have eof: "(hdr @ lp_body (xs @ zs) @ LP_EOF # slack) ! ?p = LP_EOF \<longleftrightarrow> zs = []"
  proof (cases zs)
    case Nil then show ?thesis using g(1) by (simp add: LP_HDR_SIZE_def nth_append)
  next
    case (Cons z zs')
    then have "z \<noteq> []" "hd z \<noteq> LP_EOF" using assms by (auto simp: lp_rep_def valid_enc_def)
    then show ?thesis using g(1) Cons
      by (cases z) (auto simp: LP_HDR_SIZE_def nth_append lp_entry_def)
  qed
  obtain hdr' where cnt: "lpInsert_count (hdr @ lp_body (xs @ zs) @ LP_EOF # slack) True
      = hdr' @ lp_body (xs @ zs) @ LP_EOF # slack"
    "length hdr' = 6" "lp_count_ok (nat_of_le (slice 4 2 hdr')) (length (xs @ zs))"
    using lpInsert_count_hdr [OF g, of "length (xs @ zs)" True] by auto
  let ?lp' = "lpSetTotalBytes (hdr' @ lp_body (xs @ zs) @ LP_EOF # slack) ?new"
  have "lp_rep ?lp' (xs @ zs)"
    using assms lim tot cnt by (intro lp_rep_intro) (auto simp: lp_rep_def)
  moreover have "lpDelete lp ?p = Some (Some (?lp', if zs = [] then None else Some ?p))"
  proof -
    have e0: "lpInsert_enc None None = EncString 0" by (simp add: lpInsert_enc_def)
    have "\<not> ?new > 2 ^ 32 - 1" using lim tot by simp
    then show ?thesis
      unfolding lpDelete_def lpInsert_delete_eq lpInsert_at_def Let_def e0 rep(1) old
      using rep(2) room eof cnt(1) new by simp
  qed
  ultimately show ?thesis using p by (auto simp: lp_ptr_def)
qed

section \<open>The content of a listpack\<close>

text \<open>The text of an element: what a client gets back as a string.\<close>

fun lp_text :: "lp_ele \<Rightarrow> bytes" where
  "lp_text (LpStr s) = s"
| "lp_text (LpInt v) = dec_int v"

abbreviation enc_text :: "bytes \<Rightarrow> bytes" where
  "enc_text e \<equiv> lp_text (dec_enc e)"

definition lp_content :: "bytes \<Rightarrow> bytes list \<Rightarrow> bool" where
  "lp_content lp ss \<longleftrightarrow> (\<exists>es. lp_rep lp es \<and> map enc_text es = ss)"

lemma lp_signed_range:
  assumes "negstart \<le> 2 ^ 63 \<or> uval < 2 ^ 63"
  shows "is_ll (lp_signed uval negstart negmax)"
proof -
  have s: "- (2 ^ 63) \<le> signed_take_bit 63 x" "signed_take_bit 63 x < 2 ^ 63" for x :: int
    by (rule signed_take_bit_int_greater_eq_minus_exp signed_take_bit_int_less_exp)+
  show ?thesis
  proof (cases "uval \<ge> negstart")
    case True
    define y where "y = signed_take_bit 63 (int (nat ((int negmax - int uval) mod 2 ^ 64)))"
    have "- (2 ^ 63) \<le> y" "y < 2 ^ 63" unfolding y_def by (rule s)+
    moreover have "lp_signed uval negstart negmax = - y - 1"
      using True by (simp add: lp_signed_def Let_def y_def)
    ultimately show ?thesis by (simp add: is_ll_def limits_defs)
  next
    case False
    then have "uval < 2 ^ 63" using assms by linarith
    then have "uval \<le> 9223372036854775807" by simp
    then show ?thesis using False by (simp add: lp_signed_def is_ll_def limits_defs)
  qed
qed

lemma lpGet_is_ll: "lpGet lp p = LpInteger v \<Longrightarrow> is_ll v"
proof -
  assume g: "lpGet lp p = LpInteger v"
  have u: "unat b mod 128 < 2 ^ 63" "12345678900000000 + unat b < 2 ^ 63" for b :: u8
  proof -
    have "unat b \<le> 255" using unat_u8_less [of b] by linarith
    then show "unat b mod 128 < 2 ^ 63" "12345678900000000 + unat b < 2 ^ 63"
      by (auto intro: le_less_trans [OF mod_less_eq_dividend])
  qed
  show ?thesis
    using g lp_signed_range u
    by (auto simp: lpGet_def lpGetWithSize_def Let_def split: if_splits)
qed

lemma dec_enc_is_ll: "dec_enc e = LpInt v \<Longrightarrow> is_ll v"
  using lpGet_is_ll [of e 0] by (cases "lpGet e 0") (auto simp: dec_enc_def)

lemma lp_matches_text: "lp_matches (dec_enc e) s \<longleftrightarrow> enc_text e = s"
  using dec_enc_is_ll [of e] by (cases "dec_enc e") (auto simp: lpStringToInt64_eq string2ll_iff)

lemma lp_encode_str_ok:
  assumes "length s + 5 < 2 ^ 32"
  shows "valid_enc (lp_encode_str s)" "enc_text (lp_encode_str s) = s"
  using lpEncodeString_entry [OF assms] lpEncodeInteger_entry
  by (auto simp: lp_encode_str_def lpEncodeGetType_def lpStringToInt64_eq string2ll_iff split: option.split)

lemma lpEncodeInteger_ok:
  "is_ll v \<Longrightarrow> valid_enc (lpEncodeIntegerGetType v)" "is_ll v \<Longrightarrow> enc_text (lpEncodeIntegerGetType v) = dec_int v"
  using lpEncodeInteger_entry by auto

section \<open>Deleting ranges, shrinking, merging\<close>

lemma lpShrinkToFit_rep:
  assumes "lp_rep lp es"
  shows "lp_rep (lpShrinkToFit lp) es" "length (lpShrinkToFit lp) = lp_total es"
proof -
  obtain num slack where num: "lp_count_ok num (length es)"
    and lp: "lp = le_of_nat 4 (lp_total es) @ le_of_nat 2 num @ lp_body es @ LP_EOF # slack"
    and v: "\<forall>e \<in> set es. valid_enc e" "lp_total es < 2 ^ 32"
    using assms by (auto simp: lp_rep_def)
  have tot: "lpGetTotalBytes lp = lp_total es" by (rule lp_rep_total [OF assms])
  have "lpShrinkToFit lp = le_of_nat 4 (lp_total es) @ le_of_nat 2 num @ lp_body es @ [LP_EOF]"
  proof -
    have "take (lp_total es) lp = le_of_nat 4 (lp_total es) @ le_of_nat 2 num @ lp_body es @ [LP_EOF]"
      by (simp add: lp lp_total_def LP_HDR_SIZE_def)
    then show ?thesis
      using lp_rep_length [OF assms] by (auto simp: lpShrinkToFit_def Let_def tot realloc_bytes_def)
  qed
  then show "lp_rep (lpShrinkToFit lp) es" "length (lpShrinkToFit lp) = lp_total es"
    using num v by (auto simp: lp_rep_def lp_total_def LP_HDR_SIZE_def)
qed

lemma lpDeleteRange_tail_rep:
  assumes "lp_rep lp es" "i < length es"
  shows "lpDeleteRange_tail lp (lp_total es) num d (lp_off es i)
    = Some (d + min num (length es - i), lp_off es (i + min num (length es - i)))"
  using assms(2)
proof (induction num arbitrary: i d)
  case (Suc num)
  have skip: "lpSkip lp (lp_off es i) = lp_off es (Suc i)" by (rule lp_rep_skip [OF assms(1) Suc.prems])
  show ?case
  proof (cases "Suc i = length es")
    case True
    then have "lp ! lp_off es (Suc i) = LP_EOF" using lp_rep_eof [OF assms(1)] by simp
    moreover have "min (Suc num) (length es - i) = 1" using True by linarith
    ultimately show ?thesis by (simp add: skip)
  next
    case False
    then have i: "Suc i < length es" using Suc.prems by simp
    have "lp ! lp_off es (Suc i) \<noteq> LP_EOF" "lpAssertValidEntry lp (lp_total es) (lp_off es (Suc i))"
      using lp_rep_not_eof [OF assms(1) i] lp_rep_assert [OF assms(1)] i by simp_all
    moreover have "min (Suc num) (length es - i) = Suc (min num (length es - Suc i))"
      using i by linarith
    ultimately show ?thesis using Suc.IH [OF i, of "Suc d"] by (simp add: skip Let_def)
  qed
qed simp

text \<open>Setting the count to \<open>n - m\<close>.\<close>

lemma sub_count_hdr:
  assumes "length hdr = 6" "lp_count_ok (nat_of_le (slice 4 2 hdr)) n" "m \<le> n"
  shows "\<exists>hdr'. (if lpGetNumElements (hdr @ rest) \<noteq> LP_HDR_NUMELE_UNKNOWN
       then lpSetNumElements (hdr @ rest) (nat ((int (lpGetNumElements (hdr @ rest)) - int m) mod 2 ^ 32))
       else hdr @ rest) = hdr' @ rest \<and> length hdr' = 6 \<and> take 4 hdr' = take 4 hdr
     \<and> lp_count_ok (nat_of_le (slice 4 2 hdr')) (n - m)"
proof (cases "nat_of_le (slice 4 2 hdr) = LP_HDR_NUMELE_UNKNOWN")
  case True
  then show ?thesis using assms by (auto simp: lpGetNumElements_hdr lp_count_ok_def)
next
  case False
  then have num: "nat_of_le (slice 4 2 hdr) = n" "n < 65535"
    using assms(2) by (auto simp: lp_count_ok_def LP_HDR_NUMELE_UNKNOWN_def)
  have "(int n - int m) mod 2 ^ 32 = int (n - m)"
    using num assms(3) by (subst mod_pos_pos_trivial) auto
  then have k: "nat ((int n - int m) mod 2 ^ 32) = n - m" by simp
  let ?hdr = "take 4 hdr @ le_of_nat 2 (n - m)"
  have "slice 4 2 ?hdr = le_of_nat 2 (n - m)" using assms(1) by (simp add: slice_def min_def)
  moreover have "(n - m) mod 256 ^ 2 = n - m" using num by simp
  moreover have "lp_count_ok (n - m) (n - m)" using num by (auto simp: lp_count_ok_def LP_HDR_NUMELE_UNKNOWN_def)
  ultimately show ?thesis
    using assms(1) False num k
    by (intro exI [of _ ?hdr]) (simp add: lpGetNumElements_hdr set_header)
qed

lemma set_total_then_num:
  "length hdr = 6 \<Longrightarrow> slice 4 2 (le_of_nat 4 t @ drop 4 hdr) = slice 4 2 hdr"
  by (simp add: slice_def)

text \<open>A header whose first half holds the total and whose second half the count.\<close>

lemma lp_rep_hdr:
  assumes "\<forall>e \<in> set es. valid_enc e" "lp_total es < 2 ^ 32" "length hdr = 6"
    and "take 4 hdr = le_of_nat 4 (lp_total es)" "lp_count_ok (nat_of_le (slice 4 2 hdr)) (length es)"
  shows "lp_rep (hdr @ lp_body es @ LP_EOF # slack) es"
proof -
  have "drop 4 hdr = slice 4 2 hdr" using assms(3) by (simp add: slice_def)
  moreover have "le_of_nat 2 (nat_of_le (slice 4 2 hdr)) = slice 4 2 hdr"
    using le_of_nat_of_le [of "slice 4 2 hdr"] assms(3) by simp
  ultimately have "hdr = le_of_nat 4 (lp_total es) @ le_of_nat 2 (nat_of_le (slice 4 2 hdr))"
    using assms(4) by (metis append_take_drop_id)
  then have "hdr @ lp_body es @ LP_EOF # slack = le_of_nat 4 (lp_total es)
      @ le_of_nat 2 (nat_of_le (slice 4 2 hdr)) @ lp_body es @ LP_EOF # slack"
    by (metis append.assoc)
  then show ?thesis using assms unfolding lp_rep_def by blast
qed

text \<open>Closing the gap left by \<open>ys\<close> and updating the header.\<close>

lemma lp_close_gap:
  assumes "lp_rep lp (xs @ ys @ zs)"
  shows "\<exists>hdr slack. memmove_in lp (LP_HDR_SIZE + length (lp_body xs))
       (LP_HDR_SIZE + length (lp_body (xs @ ys))) (length (lp_body zs) + 1)
     = hdr @ lp_body (xs @ zs) @ LP_EOF # slack \<and> length hdr = 6
     \<and> lp_count_ok (nat_of_le (slice 4 2 hdr)) (length (xs @ ys @ zs))"
proof -
  obtain hdr slack where f: "lp = hdr @ lp_body (xs @ ys @ zs) @ LP_EOF # slack" "length hdr = 6"
    "lp_count_ok (nat_of_le (slice 4 2 hdr)) (length (xs @ ys @ zs))"
    using lp_rep_frame [OF assms] by blast
  obtain rest' where "memmove_in ((hdr @ lp_body xs) @ lp_body ys @ (lp_body zs @ [LP_EOF]) @ slack)
      (length (hdr @ lp_body xs) + 0) (length (hdr @ lp_body xs) + length (lp_body ys))
      (length (lp_body zs @ [LP_EOF])) = (hdr @ lp_body xs) @ (lp_body zs @ [LP_EOF]) @ rest'"
    using memmove_gap [of 0 "lp_body ys" slack "hdr @ lp_body xs" "lp_body zs @ [LP_EOF]"] by auto
  then show ?thesis
    using f by (intro exI [of _ hdr] exI [of _ rest']) (simp add: LP_HDR_SIZE_def add.assoc)
qed

lemma lpDeleteRangeWithEntry_rep:
  assumes "lp_rep lp es" "i < length es" "0 < num"
  defines "es' \<equiv> take i es @ drop (i + num) es"
  shows "\<exists>lp'. lpDeleteRangeWithEntry lp (lp_off es i) num = Some (lp', lp_ptr es' i) \<and> lp_rep lp' es'
     \<and> length lp' = lp_total es'"
proof -
  define m where "m = min num (length es - i)"
  let ?xs = "take i es" and ?ys = "take m (drop i es)" and ?zs = "drop (i + m) es"
  have es: "es = ?xs @ ?ys @ ?zs"
    by (metis append_take_drop_id drop_drop add.commute)
  have es': "es' = ?xs @ ?zs"
    using assms(2) by (simp add: es'_def m_def min_def)
  have len: "length ?ys = m" using assms(2) by (simp add: m_def)
  have m: "0 < m" "i + m \<le> length es" using assms(2,3) by (auto simp: m_def)
  have p: "lp_off es i = LP_HDR_SIZE + length (lp_body ?xs)"
    "lp_off es (i + m) = LP_HDR_SIZE + length (lp_body (?xs @ ?ys))"
    using m by (simp_all add: lp_off_def take_add)
  have pi: "lp_off es' i = lp_off es i"
    using assms(2) by (simp add: lp_off_def es' min_def)
  have tot: "lp_total es = lp_total es' + (lp_off es (i + m) - lp_off es i)"
    "lp_off es i \<le> lp_off es (i + m)"
    using lp_total_append [of ?xs ?ys ?zs] p unfolding es' by (simp_all flip: es)
  have mv: "lp_total es - 1 - lp_off es (i + m) + 1 = length (lp_body ?zs) + 1"
    unfolding p(2) using lp_total_append [of ?xs ?ys ?zs] by (simp flip: es add: lp_total_def)
  obtain hdr slack where gap: "memmove_in lp (lp_off es i) (lp_off es (i + m)) (length (lp_body ?zs) + 1)
      = hdr @ lp_body es' @ LP_EOF # slack" "length hdr = 6"
    "lp_count_ok (nat_of_le (slice 4 2 hdr)) (length es)"
    using lp_close_gap [of lp ?xs ?ys ?zs] assms(1) unfolding p es' by (auto simp flip: es)
  let ?hdr1 = "le_of_nat 4 (lp_total es') @ drop 4 hdr"
  have cnt1: "length ?hdr1 = 6" "lp_count_ok (nat_of_le (slice 4 2 ?hdr1)) (length es)"
    using gap(2,3) by (simp_all add: set_total_then_num)
  have "m \<le> length es" using m by simp
  from sub_count_hdr [OF cnt1 this] obtain hdr2 where hdr2:
    "(if lpGetNumElements (?hdr1 @ lp_body es' @ LP_EOF # slack) \<noteq> LP_HDR_NUMELE_UNKNOWN
       then lpSetNumElements (?hdr1 @ lp_body es' @ LP_EOF # slack)
         (nat ((int (lpGetNumElements (?hdr1 @ lp_body es' @ LP_EOF # slack)) - int m) mod 2 ^ 32))
       else ?hdr1 @ lp_body es' @ LP_EOF # slack) = hdr2 @ lp_body es' @ LP_EOF # slack"
    "length hdr2 = 6" "take 4 hdr2 = take 4 ?hdr1" "lp_count_ok (nat_of_le (slice 4 2 hdr2)) (length es - m)"
    by blast
  have len': "length es' = length es - m" using m unfolding es' by simp
  have v: "\<forall>e \<in> set es'. valid_enc e" "lp_total es' < 2 ^ 32"
    using assms(1) tot(1) by (auto simp: lp_rep_def es' dest: in_set_takeD in_set_dropD)
  have rep2: "lp_rep (hdr2 @ lp_body es' @ LP_EOF # slack) es'"
    using hdr2 v len' by (intro lp_rep_hdr) auto
  let ?lp' = "lpShrinkToFit (hdr2 @ lp_body es' @ LP_EOF # slack)"
  have rep': "lp_rep ?lp' es'" "length ?lp' = lp_total es'" by (rule lpShrinkToFit_rep [OF rep2])+
  have tl: "lpDeleteRange_tail lp (lp_total es) num 0 (lp_off es i) = Some (m, lp_off es (i + m))"
    using lpDeleteRange_tail_rep [OF assms(1,2), of num 0] by (simp add: m_def)
  have st: "lpSetTotalBytes (hdr @ lp_body es' @ LP_EOF # slack) (lp_total es')
      = ?hdr1 @ lp_body es' @ LP_EOF # slack"
    using gap(2) by (simp add: set_header)
  have sub: "lp_total es - (lp_off es (i + m) - lp_off es i) = lp_total es'" using tot by simp
  have i: "i \<le> length es'" using assms(2) m unfolding es' by simp
  have "lpDeleteRangeWithEntry lp (lp_off es i) num
      = Some (?lp', if ?lp' ! lp_off es i = LP_EOF then None else Some (lp_off es i))"
    using assms(3) unfolding lpDeleteRangeWithEntry_def Let_def lp_rep_bytes [OF assms(1)] tl option.case
      prod.case mv gap(1) sub st hdr2(1) by simp
  also have "(if ?lp' ! lp_off es i = LP_EOF then None else Some (lp_off es i)) = lp_ptr es' i"
    using lp_rep_eof_iff [OF rep'(1) i] i by (auto simp: lp_ptr_def pi)
  finally show ?thesis using rep' by blast
qed

lemma lp_total_ge: "7 \<le> lp_total es"
  by (simp add: lp_total_def LP_HDR_SIZE_def)

lemma lp_total_take: "lp_total (take k es) \<le> lp_total es"
  using length_lp_body_take [of k es] by (simp add: lp_total_def)

lemma lpDeleteRange_rep:
  assumes "lp_rep lp es" "index_pos (length es) index = Some k" "0 < num"
  shows "\<exists>lp'. lpDeleteRange lp index num = Some lp' \<and> lp_rep lp' (take k es @ drop (k + num) es)"
proof -
  have k: "k < length es" by (rule index_pos_less [OF assms(2)])
  have seek: "lpSeek lp index = Some (Some (lp_off es k))"
    using lp_rep_seek [OF assms(1)] assms(2) by simp
  let ?num = "lpGetNumElements lp"
  have entry: "lpDeleteRange lp index num = map_option fst (lpDeleteRangeWithEntry lp (lp_off es k) num)"
    if "?num = LP_HDR_NUMELE_UNKNOWN \<or> \<not> nat ((int ?num - (if index < 0 then int ?num + index else index)) mod 2 ^ 64) \<le> num"
    using that seek assms(3) by (auto simp: lpDeleteRange_def Let_def)
  have entry_ok: "\<exists>lp'. map_option fst (lpDeleteRangeWithEntry lp (lp_off es k) num) = Some lp'
      \<and> lp_rep lp' (take k es @ drop (k + num) es)"
    using lpDeleteRangeWithEntry_rep [OF assms(1) k assms(3)] by auto
  show ?thesis
  proof (cases "?num = LP_HDR_NUMELE_UNKNOWN")
    case True
    then show ?thesis using entry entry_ok by simp
  next
    case False
    then have num: "?num = length es" "length es < 65535"
      using lp_rep_count [OF assms(1)] by (auto simp: lp_count_ok_def LP_HDR_NUMELE_UNKNOWN_def)
    have idx: "(if index < 0 then int ?num + index else index) = int k"
      using assms(2) num by (auto simp: index_pos_def split: if_splits)
    have m: "(int (length es) - int k) mod 2 ^ 64 = int (length es - k)"
      using num k by (subst mod_pos_pos_trivial) auto
    have sz: "nat ((int ?num - (if index < 0 then int ?num + index else index)) mod 2 ^ 64) = length es - k"
      by (subst idx) (simp only: num(1) m nat_int)
    show ?thesis
    proof (cases "length es - k \<le> num")
      case le: False
      then show ?thesis using entry entry_ok sz by simp
    next
      case le: True
      obtain hdr slack where f: "lp = hdr @ lp_body es @ LP_EOF # slack" "length hdr = 6"
        "lp_count_ok (nat_of_le (slice 4 2 hdr)) (length es)"
        using lp_rep_frame [OF assms(1)] by blast
      obtain b rest where b: "lp_body (drop k es) @ LP_EOF # slack = b # rest"
        by (cases "lp_body (drop k es) @ LP_EOF # slack") auto
      have "lp_body es = lp_body (take k es) @ lp_body (drop k es)"
        by (simp flip: lp_body_simps(3))
      then have "lp = (hdr @ lp_body (take k es)) @ b # rest" using f(1) b by simp
      then have upd: "lp[lp_off es k := LP_EOF] = hdr @ lp_body (take k es) @ LP_EOF # rest"
        using f(2) by (simp add: lp_off_def LP_HDR_SIZE_def list_update_append)
      let ?hdr = "take 4 (le_of_nat 4 (lp_off es k + 1) @ drop 4 hdr) @ le_of_nat 2 k"
      have set: "lpSetNumElements (lpSetTotalBytes (hdr @ lp_body (take k es) @ LP_EOF # rest) (lp_off es k + 1)) k
          = ?hdr @ lp_body (take k es) @ LP_EOF # rest"
        using f(2) set_header(2) [of "le_of_nat 4 (lp_off es k + 1) @ drop 4 hdr"]
        by (simp only: set_header(1)) simp
      have "lp_rep (?hdr @ lp_body (take k es) @ LP_EOF # rest) (take k es)"
      proof (rule lp_rep_hdr)
        show "\<forall>e \<in> set (take k es). valid_enc e" "lp_total (take k es) < 2 ^ 32"
          using assms(1) lp_total_take [of k es] by (auto simp: lp_rep_def dest: in_set_takeD)
        show "length ?hdr = 6" by simp
        show "take 4 ?hdr = le_of_nat 4 (lp_total (take k es))" by (simp add: lp_total_def lp_off_def)
        have "slice 4 2 ?hdr = le_of_nat 2 k" by (simp add: slice_def)
        moreover have "k mod 256 ^ 2 = k" using k num(2) by simp
        ultimately show "lp_count_ok (nat_of_le (slice 4 2 ?hdr)) (length (take k es))"
          using k num(2) by (simp add: lp_count_ok_def LP_HDR_NUMELE_UNKNOWN_def)
      qed
      then have "lp_rep (lpShrinkToFit (?hdr @ lp_body (take k es) @ LP_EOF # rest)) (take k es)"
        by (rule lpShrinkToFit_rep)
      moreover have "lpDeleteRange lp index num
          = Some (lpShrinkToFit (?hdr @ lp_body (take k es) @ LP_EOF # rest))"
      proof -
        have nz: "num \<noteq> 0" using assms(3) by simp
        have i: "(if ?num \<noteq> LP_HDR_NUMELE_UNKNOWN \<and> index < 0 then int ?num + index else index) = int k"
          using idx False by simp
        show ?thesis
          unfolding lpDeleteRange_def Let_def seek option.case i upd set nat_int
          using False nz sz [unfolded idx] le by simp
      qed
      moreover have "take k es @ drop (k + num) es = take k es" using le by simp
      ultimately show ?thesis by simp
    qed
  qed
qed

lemma realloc_append: "length pre \<le> n \<Longrightarrow> \<exists>post'. realloc_bytes n (pre @ post) = pre @ post'"
  by (simp add: realloc_bytes_def)

lemma lpNew_rep: "lp_rep (lpNew capacity) []"
proof -
  define n where "n = (if capacity > LP_HDR_SIZE + 1 then capacity else LP_HDR_SIZE + 1)"
  have n: "7 \<le> n" by (simp add: n_def LP_HDR_SIZE_def)
  let ?b = "realloc_bytes n []"
  have b: "?b = replicate 4 fresh_byte @ replicate 2 fresh_byte @ fresh_byte # replicate (n - 7) fresh_byte"
  proof -
    have "n = 4 + (2 + Suc (n - 7))" using n by simp
    then have "?b = replicate (4 + (2 + Suc (n - 7))) fresh_byte"
      by (simp only: realloc_bytes_def take_Nil append_Nil list.size(3) diff_zero)
    then show ?thesis by (simp only: replicate_add replicate_Suc)
  qed
  have h: "length (replicate 4 fresh_byte @ replicate 2 fresh_byte) = 6" by simp
  have "lpNew capacity = (lpSetNumElements (lpSetTotalBytes ?b 7) 0)[6 := LP_EOF]"
    by (simp add: lpNew_def n_def LP_HDR_SIZE_def Let_def)
  also have "\<dots> = le_of_nat 4 7 @ le_of_nat 2 0 @ LP_EOF # replicate (n - 7) fresh_byte"
    unfolding b by (simp add: lpSetTotalBytes_eq lpSetNumElements_eq list_update_append)
  finally show ?thesis
    by (auto simp: lp_rep_def lp_total_def LP_HDR_SIZE_def lp_count_ok_def LP_HDR_NUMELE_UNKNOWN_def)
qed

lemma lpDup_rep: "lp_rep lp es \<Longrightarrow> lp_rep (lpDup lp) es"
proof -
  assume r: "lp_rep lp es"
  then obtain num slack where "lp_count_ok num (length es)" "\<forall>e \<in> set es. valid_enc e" "lp_total es < 2 ^ 32"
    and lp: "lp = le_of_nat 4 (lp_total es) @ le_of_nat 2 num @ lp_body es @ LP_EOF # slack"
    by (auto simp: lp_rep_def)
  moreover have "lpDup lp = le_of_nat 4 (lp_total es) @ le_of_nat 2 num @ lp_body es @ LP_EOF # []"
    unfolding lpDup_def Let_def lp_rep_bytes [OF r]
    by (subst lp) (simp add: lp_total_def LP_HDR_SIZE_def)
  ultimately show ?thesis unfolding lp_rep_def by blast
qed

lemma lpMerge_rep:
  assumes r1: "lp_rep lp1 xs" and r2: "lp_rep lp2 ys"
  shows "lp_total (xs @ ys) < 2 ^ 32 - 1 \<Longrightarrow>
      \<exists>lp'. lpMerge (Some lp1) (Some lp2) False = Some (Some (lp', lp_total xs \<ge> lp_total ys))
        \<and> lp_rep lp' (xs @ ys)"
    and "\<not> lp_total (xs @ ys) < 2 ^ 32 - 1 \<Longrightarrow> lpMerge (Some lp1) (Some lp2) False = None"
proof -
  obtain lp1' where l1: "lpLength lp1 = Some (lp1', length xs)" "lp_rep lp1' xs"
    using lp_rep_lpLength [OF r1] by blast
  obtain lp2' where l2: "lpLength lp2 = Some (lp2', length ys)" "lp_rep lp2' ys"
    using lp_rep_lpLength [OF r2] by blast
  obtain h1 s1 where f1: "lp1' = h1 @ lp_body xs @ LP_EOF # s1" "length h1 = 6"
    using lp_rep_frame [OF l1(2)] by blast
  obtain h2 s2 where f2: "lp2' = h2 @ lp_body ys @ LP_EOF # s2" "length h2 = 6"
    using lp_rep_frame [OF l2(2)] by blast
  let ?t = "lp_total (xs @ ys)"
  have t: "lp_total xs + lp_total ys - LP_HDR_SIZE - 1 = ?t"
    by (simp add: lp_total_def LP_HDR_SIZE_def)
  let ?n = "if length xs + length ys < 65535 then length xs + length ys else 65535"
  let ?tgt = "\<lambda>hdr slack. lpSetTotalBytes (lpSetNumElements (hdr @ lp_body (xs @ ys) @ LP_EOF # slack) ?n) ?t"
  have v: "\<forall>e \<in> set (xs @ ys). valid_enc e" using r1 r2 by (auto simp: lp_rep_def)
  have finish: "lp_rep (?tgt hdr slack) (xs @ ys)" if "length hdr = 6" "?t < 2 ^ 32 - 1" for hdr slack
  proof -
    let ?h = "take 4 hdr @ le_of_nat 2 ?n"
    have s: "slice 4 2 ?h = le_of_nat 2 ?n" using that by (simp add: slice_def min_def)
    have m: "nat_of_le (le_of_nat 2 ?n) = ?n" by simp
    have "lp_count_ok (nat_of_le (slice 4 2 ?h)) (length (xs @ ys))"
      unfolding s m by (auto simp: lp_count_ok_def LP_HDR_NUMELE_UNKNOWN_def)
    then have "lp_rep (lpSetTotalBytes (?h @ lp_body (xs @ ys) @ LP_EOF # slack) ?t) (xs @ ys)"
      using v that by (intro lp_rep_intro) auto
    then show ?thesis using that by (simp add: set_header)
  qed
  show "lpMerge (Some lp1) (Some lp2) False = None" if "\<not> ?t < 2 ^ 32 - 1"
    using that l1(1) l2(1) r1 r2 t by (simp add: lpMerge_def Let_def)
  show "\<exists>lp'. lpMerge (Some lp1) (Some lp2) False = Some (Some (lp', lp_total xs \<ge> lp_total ys))
      \<and> lp_rep lp' (xs @ ys)" if fit: "?t < 2 ^ 32 - 1"
  proof (cases "lp_total xs \<ge> lp_total ys")
    case True
    have "length (h1 @ lp_body xs @ [LP_EOF]) \<le> ?t"
      using f1 by (simp add: lp_total_def LP_HDR_SIZE_def)
    from realloc_append [OF this, of s1] obtain s1' where
      re: "realloc_bytes ?t lp1' = (h1 @ lp_body xs) @ LP_EOF # s1'" using f1 by auto
    have src: "slice LP_HDR_SIZE (lp_total ys - LP_HDR_SIZE) lp2' = lp_body ys @ [LP_EOF]"
      using f2 by (simp add: slice_def lp_total_def LP_HDR_SIZE_def)
    have "lp_total xs - 1 = length (h1 @ lp_body xs)" using f1 by (simp add: lp_total_def LP_HDR_SIZE_def)
    then have bl: "blit (lp_total xs - 1) (lp_body ys @ [LP_EOF]) ((h1 @ lp_body xs) @ LP_EOF # s1')
        = h1 @ lp_body (xs @ ys) @ LP_EOF # drop (length (lp_body ys)) s1'"
      by (simp add: blit_def)
    have "lpMerge (Some lp1) (Some lp2) False = Some (Some (?tgt h1 (drop (length (lp_body ys)) s1'), True))"
      using True fit by (simp only: lpMerge_def Let_def l1(1) l2(1) prod.case option.case if_False if_True
          lp_rep_bytes [OF r1] lp_rep_bytes [OF r2] t re src bl simp_thms)
    with finish [OF f1(2) fit] True show ?thesis by auto
  next
    case False
    have "length (h2 @ lp_body ys @ [LP_EOF]) \<le> ?t"
      using f2 by (simp add: lp_total_def LP_HDR_SIZE_def)
    from realloc_append [OF this, of s2] obtain s2' where
      re: "realloc_bytes ?t lp2' = h2 @ (lp_body ys @ [LP_EOF]) @ s2'" using f2 by auto
    have "?t = length (h2 @ (lp_body ys @ [LP_EOF]) @ s2')"
      using arg_cong [OF re, of length] by (simp only: length_realloc_bytes)
    then have s2': "length s2' = length (lp_body xs)" using f2(2) by (simp add: lp_total_def LP_HDR_SIZE_def)
    have room: "length (lp_body xs) \<le> length ([]::bytes) + length s2'" using s2' by simp
    have ix: "lp_total xs - 1 = length h2 + length (lp_body xs)" "LP_HDR_SIZE = length h2 + length ([]::bytes)"
      "lp_total ys - LP_HDR_SIZE = length (lp_body ys @ [LP_EOF])"
      using f2 by (simp_all add: lp_total_def LP_HDR_SIZE_def)
    have "\<exists>gap rest'. length gap = length (lp_body xs) \<and>
      memmove_in (h2 @ (lp_body ys @ [LP_EOF]) @ s2') (lp_total xs - 1) LP_HDR_SIZE (lp_total ys - LP_HDR_SIZE)
        = h2 @ gap @ (lp_body ys @ [LP_EOF]) @ rest'"
      using memmove_gap [OF room, of h2 "lp_body ys @ [LP_EOF]"] unfolding ix(3) unfolding ix(1,2) by simp
    then obtain gap rest' where g: "length gap = length (lp_body xs)"
      "memmove_in (h2 @ (lp_body ys @ [LP_EOF]) @ s2') (lp_total xs - 1) LP_HDR_SIZE (lp_total ys - LP_HDR_SIZE)
        = h2 @ gap @ (lp_body ys @ [LP_EOF]) @ rest'"
      by blast
    have tk: "take (lp_total xs - 1) lp1' = h1 @ lp_body xs"
      using f1 by (simp add: lp_total_def LP_HDR_SIZE_def)
    have bl: "blit 0 (h1 @ lp_body xs) (h2 @ gap @ (lp_body ys @ [LP_EOF]) @ rest')
        = h1 @ lp_body (xs @ ys) @ LP_EOF # rest'"
      using f1 f2 g(1) by (simp add: blit_def)
    have "lpMerge (Some lp1) (Some lp2) False = Some (Some (?tgt h1 rest', False))"
      using False fit by (simp only: lpMerge_def Let_def l1(1) l2(1) prod.case option.case if_False if_True
          lp_rep_bytes [OF r1] lp_rep_bytes [OF r2] t re g(2) tk bl simp_thms)
    with finish [OF f1(2) fit] False show ?thesis by auto
  qed
qed

section \<open>Deleting a batch of elements\<close>

lemma memmove_left:
  "\<exists>junk'. length junk' = length junk \<and>
    memmove_in (pre @ junk @ mid @ post) (length pre) (length pre + length junk) (length mid)
      = pre @ mid @ junk' @ post"
proof -
  let ?buf = "pre @ junk @ mid @ post"
  have "slice (length pre + length junk) (length mid) ?buf = mid" by (simp add: slice_def)
  then have "memmove_in ?buf (length pre) (length pre + length junk) (length mid)
      = pre @ mid @ drop (length mid) (junk @ mid @ post)"
    by (simp add: memmove_in_def blit_def)
  also have "drop (length mid) (junk @ mid @ post) = drop (length mid) (junk @ mid) @ post"
    by (subst append.assoc [symmetric], subst drop_append) simp
  finally show ?thesis by (intro exI [of _ "drop (length mid) (junk @ mid)"]) simp
qed

text \<open>The elements at the positions not listed.\<close>

fun drop_positions :: "nat list \<Rightarrow> 'a list \<Rightarrow> nat \<Rightarrow> 'a list" where
  "drop_positions [] es j = drop j es"
| "drop_positions (k # ks) es j = take (k - j) (drop j es) @ drop_positions ks es (Suc k)"

lemma lp_slice_at_prefix:
  assumes "valid_enc e" "k = length pre"
  shows "lpSkip (pre @ lp_entry e @ post) k = k + length (lp_entry e)"
    and "(pre @ lp_entry e @ post) ! k \<noteq> LP_EOF"
proof -
  have s: "slice k (length e) (pre @ lp_entry e @ post) = e"
    using assms(2) by (simp add: slice_def lp_entry_def)
  show "lpSkip (pre @ lp_entry e @ post) k = k + length (lp_entry e)"
    using enc_sizes_at(3) [OF assms(1) s] by (simp add: lpSkip_def Let_def)
  show "(pre @ lp_entry e @ post) ! k \<noteq> LP_EOF"
    using enc_sizes_at(1) [OF assms(1) s] assms(1) by (simp add: valid_enc_def)
qed

lemma lp_off_add: "i + m \<le> length es \<Longrightarrow> lp_off es (i + m) = lp_off es i + length (lp_body (take m (drop i es)))"
  by (simp add: lp_off_def take_add)

text \<open>Between two iterations the buffer holds the kept elements, some bytes to be overwritten, and
  the elements from the next one to delete on.  One iteration moves the elements before the
  next deleted one.\<close>

lemma lpBatchDelete_step:
  assumes "valid_enc (es ! k)" "k < length es" "length (hdr @ kept @ junk) = lp_off es k"
    and "lp_body (drop (Suc k) es) @ LP_EOF # slack = mid @ post"
    and "buf = hdr @ kept @ junk @ lp_body (drop k es) @ LP_EOF # slack"
  shows "lpSkip buf (lp_off es k) = lp_off es (Suc k)" "buf ! lp_off es k \<noteq> LP_EOF"
    and "\<exists>junk'. length junk' = length junk + length (lp_entry (es ! k)) \<and>
      memmove_in buf (length (hdr @ kept)) (lp_off es (Suc k)) (length mid) = hdr @ (kept @ mid) @ junk' @ post"
proof -
  have "lp_body (drop k es) = lp_entry (es ! k) @ lp_body (drop (Suc k) es)"
    using assms(2) by (simp add: Cons_nth_drop_Suc [symmetric])
  then have buf: "buf = (hdr @ kept @ junk) @ lp_entry (es ! k) @ mid @ post"
    using assms(4,5) by simp
  show "lpSkip buf (lp_off es k) = lp_off es (Suc k)" "buf ! lp_off es k \<noteq> LP_EOF"
    unfolding buf
    using lp_slice_at_prefix [OF assms(1) assms(3) [symmetric]] lp_off_Suc [OF assms(2)] by simp_all
  have off: "lp_off es (Suc k) = length (hdr @ kept) + length (junk @ lp_entry (es ! k))"
    using assms(3) lp_off_Suc [OF assms(2)] by simp
  show "\<exists>junk'. length junk' = length junk + length (lp_entry (es ! k)) \<and>
      memmove_in buf (length (hdr @ kept)) (lp_off es (Suc k)) (length mid) = hdr @ (kept @ mid) @ junk' @ post"
    using memmove_left [of "junk @ lp_entry (es ! k)" "hdr @ kept" mid post]
    unfolding buf off by simp
qed

lemma lpBatchDelete_loop_rep:
  assumes "\<forall>e \<in> set es. valid_enc e"
    and "sorted_wrt (<) (k # ks)" "\<forall>j \<in> set (k # ks). j < length es"
    and "length (hdr @ kept @ junk) = lp_off es k"
  shows "\<exists>rest. lpBatchDelete_loop (hdr @ kept @ junk @ lp_body (drop k es) @ LP_EOF # slack)
        (lp_total es) (length (hdr @ kept)) (map (lp_off es) (k # ks))
      = Some (hdr @ kept @ lp_body (drop_positions ks es (Suc k)) @ LP_EOF # rest,
          length (hdr @ kept @ lp_body (drop_positions ks es (Suc k))) + 1)"
  using assms(2-)
proof (induction ks arbitrary: k kept junk)
  case Nil
  let ?tail = "lp_body (drop (Suc k) es)"
  have k: "k < length es" using Nil.prems(2) by simp
  define buf where "buf = hdr @ kept @ junk @ lp_body (drop k es) @ LP_EOF # slack"
  have v: "valid_enc (es ! k)" using assms(1) k by simp
  have mid: "?tail @ LP_EOF # slack = (?tail @ [LP_EOF]) @ slack" by simp
  note step = lpBatchDelete_step [OF v k Nil.prems(3) mid buf_def]
  obtain junk' where mv: "memmove_in buf (length (hdr @ kept)) (lp_off es (Suc k)) (length (?tail @ [LP_EOF]))
      = hdr @ (kept @ ?tail @ [LP_EOF]) @ junk' @ slack"
    using step(3) by blast
  have "lp_off es (length es) = lp_off es (Suc k) + length ?tail"
    using lp_off_add [of "Suc k" "length es - Suc k" es] le_add_diff_inverse [of "Suc k" "length es"] k
    by (simp del: add_Suc add_Suc_right)
  then have n: "lp_total es - lp_off es (Suc k) = length (?tail @ [LP_EOF])"
    using lp_off_less [of es "Suc k"] by (simp add: lp_off_length)
  have "lpBatchDelete_loop buf (lp_total es) (length (hdr @ kept)) [lp_off es k]
      = Some (hdr @ (kept @ ?tail @ [LP_EOF]) @ junk' @ slack, length (hdr @ kept) + length (?tail @ [LP_EOF]))"
    using step(1,2) mv lp_off_less [of es "Suc k"] unfolding n [symmetric]
    by (simp add: Let_def)
  then show ?case unfolding buf_def by simp
next
  case (Cons k' ks)
  have k: "k < length es" "k' < length es" "k < k'" using Cons.prems(1,2) by auto
  define buf where "buf = hdr @ kept @ junk @ lp_body (drop k es) @ LP_EOF # slack"
  have v: "valid_enc (es ! k)" using assms(1) k by simp
  have srt: "sorted_wrt (<) (k' # ks)" "\<forall>j \<in> set (k' # ks). j < length es"
    using Cons.prems(1,2) by auto
  let ?mid = "take (k' - Suc k) (drop (Suc k) es)"
  have sp: "drop (Suc k) es = ?mid @ drop k' es"
  proof -
    have "k' - Suc k + Suc k = k'" using k(3) by simp
    then have "drop (k' - Suc k) (drop (Suc k) es) = drop k' es" by (simp only: drop_drop)
    then show ?thesis by (metis append_take_drop_id)
  qed
  have mid: "lp_body (drop (Suc k) es) @ LP_EOF # slack = lp_body ?mid @ lp_body (drop k' es) @ LP_EOF # slack"
    by (subst sp) simp
  note step = lpBatchDelete_step [OF v k(1) Cons.prems(3) mid buf_def]
  have ent: "lp_body (drop k es) = lp_entry (es ! k) @ lp_body (drop (Suc k) es)"
    using k(1) by (simp add: Cons_nth_drop_Suc [symmetric])
  show ?case
  proof (cases "k' = Suc k")
    case True
    have junk: "length (hdr @ kept @ (junk @ lp_entry (es ! k))) = lp_off es k'"
      using Cons.prems(3) lp_off_Suc [OF k(1)] True by simp
    have buf: "buf = hdr @ kept @ (junk @ lp_entry (es ! k)) @ lp_body (drop k' es) @ LP_EOF # slack"
      unfolding buf_def ent True by simp
    have "lpBatchDelete_loop buf (lp_total es) (length (hdr @ kept)) (map (lp_off es) (k # k' # ks))
        = lpBatchDelete_loop buf (lp_total es) (length (hdr @ kept)) (map (lp_off es) (k' # ks))"
      using step(1,2) True by (simp add: Let_def)
    moreover have "drop_positions (k' # ks) es (Suc k) = drop_positions ks es (Suc k')"
      using True by simp
    ultimately show ?thesis
      using Cons.IH [OF srt junk] unfolding buf_def [symmetric] buf [symmetric]
      by (simp del: lpBatchDelete_loop.simps drop_positions.simps list.map)
  next
    case False
    then have gt: "lp_off es (Suc k) < lp_off es k'" using k by (intro lp_off_mono) auto
    obtain junk' where junk': "length junk' = length junk + length (lp_entry (es ! k))"
      and mv: "memmove_in buf (length (hdr @ kept)) (lp_off es (Suc k)) (length (lp_body ?mid))
        = hdr @ (kept @ lp_body ?mid) @ junk' @ lp_body (drop k' es) @ LP_EOF # slack"
      using step(3) by blast
    have off: "lp_off es k' = lp_off es (Suc k) + length (lp_body ?mid)"
      using lp_off_add [of "Suc k" "k' - Suc k" es] k by simp
    have junk: "length (hdr @ (kept @ lp_body ?mid) @ junk') = lp_off es k'"
      using Cons.prems(3) lp_off_Suc [OF k(1)] junk' off by simp
    have "lpBatchDelete_loop buf (lp_total es) (length (hdr @ kept)) (map (lp_off es) (k # k' # ks))
        = lpBatchDelete_loop (hdr @ (kept @ lp_body ?mid) @ junk' @ lp_body (drop k' es) @ LP_EOF # slack)
            (lp_total es) (length (hdr @ (kept @ lp_body ?mid))) (map (lp_off es) (k' # ks))"
    proof -
      have "lp_off es k' - lp_off es (Suc k) = length (lp_body ?mid)" using off by simp
      then show ?thesis using step(1,2) gt mv by (simp add: Let_def add.assoc)
    qed
    moreover have "drop_positions (k' # ks) es (Suc k) = ?mid @ drop_positions ks es (Suc k')" by simp
    ultimately show ?thesis
      using Cons.IH [OF srt junk] unfolding buf_def [symmetric]
      by (simp del: lpBatchDelete_loop.simps drop_positions.simps list.map)
  qed
qed

lemma drop_positions_set: "set (drop_positions ks es j) \<subseteq> set es"
  by (induction ks es j rule: drop_positions.induct) (auto dest: in_set_takeD in_set_dropD)

lemma length_drop_positions:
  "sorted_wrt (<) ks \<Longrightarrow> \<forall>k \<in> set ks. j \<le> k \<and> k < length es \<Longrightarrow>
     length (drop_positions ks es j) + length ks + j = length es \<or> ks = [] \<and> length es < j"
proof (induction ks es j rule: drop_positions.induct)
  case (2 k ks es j)
  then have "length (drop_positions ks es (Suc k)) + length ks + Suc k = length es"
    by (cases ks) force+
  then show ?case using 2(3) by auto
qed auto

lemma lp_body_drop_positions:
  "length (lp_body (drop_positions ks es j)) \<le> length (lp_body (drop j es))"
    if "sorted_wrt (<) ks" "\<forall>k \<in> set ks. j \<le> k \<and> k < length es"
  using that
proof (induction ks es j rule: drop_positions.induct)
  case (2 k ks es j)
  have jk: "j \<le> k" "k < length es" using 2(3) by auto
  have "drop j es = take (k - j) (drop j es) @ es ! k # drop (Suc k) es"
    using jk id_take_nth_drop [of "k - j" "drop j es"] by simp
  then have "length (lp_body (drop j es)) = length (lp_body (take (k - j) (drop j es)))
      + (length (lp_entry (es ! k)) + length (lp_body (drop (Suc k) es)))"
    by (metis length_append lp_body_simps(2,3))
  moreover have "length (lp_body (drop_positions ks es (Suc k))) \<le> length (lp_body (drop (Suc k) es))"
    using 2(2,3) by (intro 2(1)) auto
  ultimately show ?case by simp
qed simp

lemma lpBatchDelete_rep:
  assumes "lp_rep lp es" "sorted_wrt (<) ks" "\<forall>k \<in> set ks. k < length es"
  shows "\<exists>lp'. lpBatchDelete lp (map (lp_off es) ks) = Some lp' \<and> lp_rep lp' (drop_positions ks es 0)"
proof (cases ks)
  case Nil
  then show ?thesis using assms(1) by (simp add: lpBatchDelete_def)
next
  case (Cons k ks')
  let ?new = "drop_positions ks es 0"
  have k: "k < length es" using assms(3) Cons by simp
  obtain hdr slack where f: "lp = hdr @ lp_body es @ LP_EOF # slack" "length hdr = 6"
    "lp_count_ok (nat_of_le (slice 4 2 hdr)) (length es)"
    using lp_rep_frame [OF assms(1)] by blast
  have v: "\<forall>e \<in> set es. valid_enc e" "lp_total es < 2 ^ 32" using assms(1) by (auto simp: lp_rep_def)
  have "lp_body es = lp_body (take k es) @ lp_body (drop k es)" by (simp flip: lp_body_simps(3))
  then have lp: "lp = hdr @ lp_body (take k es) @ [] @ lp_body (drop k es) @ LP_EOF # slack" using f(1) by simp
  have off: "length (hdr @ lp_body (take k es) @ []) = lp_off es k"
    using f(2) by (simp add: lp_off_def LP_HDR_SIZE_def)
  have dst: "lp_off es k = length (hdr @ lp_body (take k es))" using off by simp
  have new: "lp_body ?new = lp_body (take k es) @ lp_body (drop_positions ks' es (Suc k))"
    using Cons by simp
  obtain rest where loop: "lpBatchDelete_loop lp (lp_total es) (lp_off es k) (map (lp_off es) ks)
      = Some (hdr @ lp_body ?new @ LP_EOF # rest, lp_total ?new)"
    using lpBatchDelete_loop_rep [OF v(1), of k ks' hdr "lp_body (take k es)" "[]" slack] assms(2,3) off
    unfolding lp [symmetric] dst Cons [symmetric] by (auto simp: new lp_total_def f(2) LP_HDR_SIZE_def)
  have le: "lp_total ?new \<le> lp_total es"
    using lp_body_drop_positions [of ks 0 es] assms(2,3) by (simp add: lp_total_def)
  have cnt: "length ks \<le> length es" "length ?new = length es - length ks"
    using length_drop_positions [of ks 0 es] assms(2,3) by auto
  let ?hdr1 = "le_of_nat 4 (lp_total ?new) @ drop 4 hdr"
  have hdr1: "length ?hdr1 = 6" "lp_count_ok (nat_of_le (slice 4 2 ?hdr1)) (length es)"
    using f(2,3) by (simp_all add: set_total_then_num)
  from sub_count_hdr [OF hdr1 cnt(1)] obtain hdr2 where hdr2:
    "(if lpGetNumElements (?hdr1 @ lp_body ?new @ LP_EOF # rest) \<noteq> LP_HDR_NUMELE_UNKNOWN
       then lpSetNumElements (?hdr1 @ lp_body ?new @ LP_EOF # rest)
         (nat ((int (lpGetNumElements (?hdr1 @ lp_body ?new @ LP_EOF # rest)) - int (length ks)) mod 2 ^ 32))
       else ?hdr1 @ lp_body ?new @ LP_EOF # rest) = hdr2 @ lp_body ?new @ LP_EOF # rest"
    "length hdr2 = 6" "take 4 hdr2 = take 4 ?hdr1"
    "lp_count_ok (nat_of_le (slice 4 2 hdr2)) (length es - length ks)"
    by blast
  have "lp_rep (hdr2 @ lp_body ?new @ LP_EOF # rest) ?new"
    using hdr2 v le cnt drop_positions_set [of ks es 0] by (intro lp_rep_hdr) auto
  then have rep: "lp_rep (lpShrinkToFit (hdr2 @ lp_body ?new @ LP_EOF # rest)) ?new"
    by (rule lpShrinkToFit_rep)
  have eof: "lp ! (lp_total es - 1) = LP_EOF"
    using lp_rep_eof [OF assms(1)] by (simp add: lp_off_length)
  have eof': "(hdr @ lp_body ?new @ LP_EOF # rest) ! (lp_total ?new - 1) = LP_EOF"
    using f(2) by (simp add: lp_total_def LP_HDR_SIZE_def nth_append)
  have st: "lpSetTotalBytes (hdr @ lp_body ?new @ LP_EOF # rest) (lp_total ?new)
      = ?hdr1 @ lp_body ?new @ LP_EOF # rest"
    using f(2) by (simp add: set_header)
  have sub: "lp_total es - (lp_total es - lp_total ?new) = lp_total ?new" using le by simp
  have ne: "map (lp_off es) ks \<noteq> []" "hd (map (lp_off es) ks) = lp_off es k" using Cons by simp_all
  have "lpBatchDelete lp (map (lp_off es) ks) = Some (lpShrinkToFit (hdr2 @ lp_body ?new @ LP_EOF # rest))"
    using ne eof eof' unfolding lpBatchDelete_def Let_def lp_rep_total [OF assms(1)] ne(2) loop option.case
      prod.case sub st length_map hdr2(1) by simp
  with rep show ?thesis by blast
qed

end
