(* ===== verification/Listpack_Seq.thy ===== *)
theory Listpack_Seq
  imports Listpack_Update
begin

text \<open>
  The listpack as the sequence of strings its clients see: what each operation of
  \<open>listpack.c\<close> does to that sequence, whatever mix of integer and string encodings holds it.
  \<open>lp_content lp ss\<close> says that \<open>lp\<close> holds the strings \<open>ss\<close>, and \<open>lp_at lp ss k p\<close> that \<open>p\<close>
  points to the entry of \<open>ss ! k\<close>, or to the terminator when \<open>k\<close> is the length of \<open>ss\<close>.
\<close>

definition lp_at :: "bytes \<Rightarrow> bytes list \<Rightarrow> nat \<Rightarrow> nat \<Rightarrow> bool" where
  "lp_at lp ss k p \<longleftrightarrow> (\<exists>es. lp_rep lp es \<and> map enc_text es = ss \<and> k \<le> length es \<and> p = lp_off es k)"

lemma lp_atE:
  assumes "lp_at lp ss k p"
  obtains es where "lp_rep lp es" "map enc_text es = ss" "k \<le> length es" "p = lp_off es k"
    "length ss = length es"
  using assms by (auto simp: lp_at_def)

lemma lp_at_content: "lp_at lp ss k p \<Longrightarrow> lp_content lp ss"
  by (auto simp: lp_at_def lp_content_def)

lemma lp_at_exists: "lp_content lp ss \<Longrightarrow> k \<le> length ss \<Longrightarrow> \<exists>p. lp_at lp ss k p"
  by (auto simp: lp_at_def lp_content_def)

lemma length_dec_int: "is_ll v \<Longrightarrow> length (dec_int v) \<le> 20"
proof -
  assume v: "is_ll v"
  then have "nat (- v) < 10 ^ 19" "nat v < 10 ^ 19" by (auto simp: is_ll_def limits_defs)
  then have "length (dec (nat (- v))) \<le> 19" "length (dec (nat v)) \<le> 19"
    by (auto intro: length_dec_le)
  then show ?thesis by (simp add: dec_int_def)
qed

lemma lpGet_intbuf_rep:
  assumes "lp_rep lp es" "i < length es"
  shows "lpGet_intbuf lp (lp_off es i) = enc_text (es ! i)"
proof -
  note g = lp_rep_get(1) [OF assms, symmetric]
  show ?thesis
  proof (cases "lpGet lp (lp_off es i)")
    case (LpString off n)
    then show ?thesis using g by (simp add: lpGet_intbuf_def)
  next
    case (LpInteger v)
    then have v: "is_ll v" by (rule lpGet_is_ll)
    then have "ll2string (realloc_bytes LP_INTBUF_SIZE []) LP_INTBUF_SIZE v
      = (dec_int v @ 0 # drop (Suc (length (dec_int v))) (realloc_bytes LP_INTBUF_SIZE []), length (dec_int v))"
      using length_dec_int [OF v] by (intro ll2string_ok) (auto simp: LP_INTBUF_SIZE_def)
    then show ?thesis using g LpInteger by (simp add: lpGet_intbuf_def)
  qed
qed

section \<open>Encoding round trips\<close>

lemma lp_integer_roundtrip:
  assumes "is_ll v" "slice p (length (lpEncodeIntegerGetType v)) lp = lpEncodeIntegerGetType v"
  shows "lpGet lp p = LpInteger v
    \<and> lpCurrentEncodedSizeUnsafe lp p = length (lpEncodeIntegerGetType v)
    \<and> length (lpEncodeIntegerGetType v) \<le> 9 \<and> lp ! p \<noteq> LP_EOF"
proof -
  let ?e = "lpEncodeIntegerGetType v"
  note ok = lpEncodeInteger_entry [OF assms(1)]
  have "lp_deref lp (lpGet lp p) = LpInt v"
    using lpGet_at(2) [OF ok(1) assms(2)] ok(2) by simp
  then have "lpGet lp p = LpInteger v" by (cases "lpGet lp p") auto
  then show ?thesis
    using enc_sizes_at(1,3) [OF ok(1) assms(2)] ok(1) length_lpEncodeInteger(1) by (simp add: valid_enc_def)
qed

lemma lp_string_roundtrip:
  assumes "length s + 5 < 2 ^ 32" "slice p (length (lp_encode_str s)) lp = lp_encode_str s"
  shows "lp_deref lp (lpGet lp p) = (case lpStringToInt64 s of Some v \<Rightarrow> LpInt v | None \<Rightarrow> LpStr s)
    \<and> lpCurrentEncodedSizeUnsafe lp p = length (lp_encode_str s)
    \<and> snd (lpGetWithSize lp p) = Some (length (lp_encode_str s) + lpBacklenSize (length (lp_encode_str s)))
    \<and> lp_text (lp_deref lp (lpGet lp p)) = s"
proof -
  note ok = lp_encode_str_ok [OF assms(1)]
  have d: "dec_enc (lp_encode_str s) = (case lpStringToInt64 s of Some v \<Rightarrow> LpInt v | None \<Rightarrow> LpStr s)"
  proof (cases "lpStringToInt64 s")
    case None
    then show ?thesis using lpEncodeString_entry(2) [OF assms(1)]
      by (simp add: lp_encode_str_def lpEncodeGetType_def)
  next
    case (Some v)
    then have "is_ll v" by (simp add: lpStringToInt64_eq string2ll_iff)
    with Some show ?thesis using lpEncodeInteger_entry(2) [of v]
      by (simp add: lp_encode_str_def lpEncodeGetType_def)
  qed
  show ?thesis
    using lpGet_at(1,2) [OF ok(1) assms(2)] enc_sizes_at(3) [OF ok(1) assms(2)] ok(2) d by simp
qed

text \<open>C28. A stored entry is read back from any place of any buffer that holds it.  A 64 bit integer comes back from
  each of its encodings, of at most 9 bytes.  A string of up to \<open>2 ^ 32 - 6\<close> bytes stored by \<open>lpInsert\<close>, as an
  integer when it is the canonical decimal notation of one and as a string otherwise, comes back as the same
  bytes.  The size functions agree with what was written.\<close>

theorem lp_entry_roundtrip:
  "(is_ll v \<and> slice p (length (lpEncodeIntegerGetType v)) lp = lpEncodeIntegerGetType v \<longrightarrow>
      lpGet lp p = LpInteger v
      \<and> lpCurrentEncodedSizeUnsafe lp p = length (lpEncodeIntegerGetType v)
      \<and> length (lpEncodeIntegerGetType v) \<le> 9 \<and> lp ! p \<noteq> LP_EOF)
   \<and> (length s + 5 < 2 ^ 32 \<and> slice p (length (lp_encode_str s)) lp = lp_encode_str s \<longrightarrow>
      lp_deref lp (lpGet lp p) = (case lpStringToInt64 s of Some v \<Rightarrow> LpInt v | None \<Rightarrow> LpStr s)
      \<and> lpCurrentEncodedSizeUnsafe lp p = length (lp_encode_str s)
      \<and> snd (lpGetWithSize lp p) = Some (length (lp_encode_str s) + lpBacklenSize (length (lp_encode_str s)))
      \<and> lp_text (lp_deref lp (lpGet lp p)) = s)"
  using lp_integer_roundtrip lp_string_roundtrip by blast

theorem lp_entry_roundtrip_witness:
  "lpGet [9, 0xC0 + 0x1F, 0xFE, 3] 1 = LpInteger (-2)
   \<and> lp_deref [0x82, 0x2D, 0x30, 3] (lpGet [0x82, 0x2D, 0x30, 3] 0) = LpStr [0x2D, 0x30]"
proof
  have "lpEncodeIntegerGetType (-2) = [0xDF, 0xFE]"
    by (simp add: lpEncodeIntegerGetType_def Let_def drop_bit_eq_div)
  then show "lpGet [9, 0xC0 + 0x1F, 0xFE, 3] 1 = LpInteger (-2)"
    using lp_entry_roundtrip [of "-2" 1 "[9, 0xC0 + 0x1F, 0xFE, 3]"]
    by (simp add: is_ll_def limits_defs slice_def)
  have n: "lpStringToInt64 [0x2D, 0x30] = None"
    by (simp add: lpStringToInt64_def LONG_STR_SIZE_def)
  then have e: "lp_encode_str [0x2D, 0x30] = [0x82, 0x2D, 0x30]"
    by (simp add: lp_encode_str_def lpEncodeGetType_def lpEncodeString_def)
  show "lp_deref [0x82, 0x2D, 0x30, 3] (lpGet [0x82, 0x2D, 0x30, 3] 0) = LpStr [0x2D, 0x30]"
    using lp_entry_roundtrip [of _ 0 "[0x82, 0x2D, 0x30, 3]" "[0x2D, 0x30]"] n
    by (simp add: e slice_def)
qed

text \<open>The backward length: for every length below \<open>2 ^ 35\<close>, \<open>lpEncodeBacklen\<close> writes as many
  bytes as it announces when called without a buffer, and \<open>lpDecodeBacklen\<close>, started on the
  last of them in any buffer, returns the length without looking at the bytes before.\<close>

theorem lp_backlen_roundtrip:
  assumes "l < 2 ^ 35" "slice q (lpBacklenSize l) lp = lpEncodeBacklen l"
  shows "lpDecodeBacklen lp (q + lpBacklenSize l - 1) = l \<and> length (lpEncodeBacklen l) = lpBacklenSize l"
  using lpDecodeBacklen_at [OF assms] by simp

theorem lp_backlen_roundtrip_witness: "lpDecodeBacklen [7, 0, 0xFF, 0xFF, 9] 3 = 16383"
proof -
  have "lpEncodeBacklen 16383 = [0, 0xFF, 0xFF]" "lpBacklenSize 16383 = 3"
    by (simp_all add: lpEncodeBacklen_def lpBacklenSize_def drop_bit_eq_div)
  then show ?thesis
    using lp_backlen_roundtrip [of 16383 1 "[7, 0, 0xFF, 0xFF, 9]"] by (simp add: slice_def)
qed

section \<open>An example listpack\<close>

text \<open>The listpack holding \<open>a\<close> and \<open>5\<close>, on which the witnesses run.\<close>

definition ex_lp :: bytes where
  "ex_lp = [12, 0, 0, 0, 2, 0, 0x81, 0x61, 2, 5, 1, 0xFF]"

lemma ex_entries:
  "valid_enc [0x81, 0x61]" "valid_enc [5]" "enc_text [0x81, 0x61] = [0x61]" "enc_text [5] = [53]"
  "lp_entry [0x81, 0x61] = [0x81, 0x61, 2]" "lp_entry [5] = [5, 1]"
  by (simp_all add: valid_enc_def lpCurrentEncodedSizeUnsafe_def lpCurrentEncodedSizeBytes_def lp_enc_tests
      LP_ENCODING_6BIT_STR_LEN_def LP_EOF_def dec_enc_def lpGet_def lpGetWithSize_def lp_signed_def
      ULLONG_MAX_def slice_def lp_entry_def lpEncodeBacklen_def dec_int_def Let_def dec_less)

lemma ex_lp_rep: "lp_rep ex_lp [[0x81, 0x61], [5]]"
proof -
  have t: "lp_total [[0x81, 0x61], [5]] = 12"
    by (simp add: lp_total_def LP_HDR_SIZE_def ex_entries lp_body_def)
  show ?thesis
    unfolding lp_rep_def t
    by (intro conjI exI [of _ 2] exI [of _ "[]"])
      (simp_all add: ex_entries lp_count_ok_def LP_HDR_NUMELE_UNKNOWN_def ex_lp_def le_of_nat_unfold LP_EOF_def)
qed

lemma ex_lp_content: "lp_content ex_lp [[0x61], [53]]"
  unfolding lp_content_def by (intro exI [of _ "[[0x81, 0x61], [5]]"]) (simp add: ex_lp_rep ex_entries)

lemma ex_lp_at: "lp_at ex_lp [[0x61], [53]] 0 6" "lp_at ex_lp [[0x61], [53]] 1 9"
  unfolding lp_at_def
  by (intro exI [of _ "[[0x81, 0x61], [5]]"]; simp add: ex_lp_rep ex_entries lp_off_def LP_HDR_SIZE_def)+

section \<open>Reading\<close>

text \<open>C18. Traversal.  At the entry of \<open>ss ! k\<close>, reading gives that string; \<open>lpNext\<close> moves to the
  entry of \<open>ss ! (k + 1)\<close>, or returns \<open>NULL\<close> after the last one; \<open>lpPrev\<close> from the place after
  it (an entry or the terminator) comes back; and no assertion fails.  \<open>lpFirst\<close> and \<open>lpLast\<close>
  start the walks at the two ends.\<close>

theorem lp_traversal:
  assumes "lp_at lp ss k p" "k < length ss"
  shows "lpGet_intbuf lp p = ss ! k
    \<and> (\<exists>q. lp_at lp ss (Suc k) q \<and> lpNext lp p = Some (if Suc k < length ss then Some q else None)
           \<and> lpPrev lp q = Some (Some p))
    \<and> (k = 0 \<longrightarrow> lpFirst lp = Some (Some p) \<and> lpPrev lp p = Some None)
    \<and> (Suc k = length ss \<longrightarrow> lpLast lp = Some (Some p))"
proof -
  obtain es where es: "lp_rep lp es" "map enc_text es = ss" "p = lp_off es k" "length ss = length es"
    using assms(1) by (rule lp_atE)
  have k: "k < length es" using assms(2) es(4) by simp
  have "lpPrev lp (lp_off es (Suc k)) = Some (Some p)"
    using lp_rep_prev [OF es(1), of "Suc k"] k es(3) by simp
  moreover have "lp_at lp ss (Suc k) (lp_off es (Suc k))" using es k by (auto simp: lp_at_def)
  moreover have "lpNext lp p = Some (if Suc k < length ss then Some (lp_off es (Suc k)) else None)"
    using lp_rep_next [OF es(1) k] es(3,4) by (simp add: lp_ptr_def)
  moreover have "lpGet_intbuf lp p = ss ! k"
    using lpGet_intbuf_rep [OF es(1) k] es(2,3) k by auto
  moreover have "k = 0 \<Longrightarrow> lpFirst lp = Some (Some p) \<and> lpPrev lp p = Some None"
    using lp_rep_first [OF es(1)] lp_rep_prev [OF es(1), of 0] k es(3) by (auto simp: lp_ptr_def)
  moreover have "Suc k = length ss \<Longrightarrow> lpLast lp = Some (Some p)"
    using lp_rep_last [OF es(1)] k es(3,4) by (metis Suc_eq_plus1 diff_Suc_1 length_greater_0_conv zero_less_Suc)
  ultimately show ?thesis by blast
qed

theorem lp_traversal_witness:
  "lpGet_intbuf ex_lp 9 = [53] \<and> lpNext ex_lp 9 = Some None \<and> lpLast ex_lp = Some (Some 9)"
  using lp_traversal [OF ex_lp_at(2)] by auto

text \<open>\<open>lpLength\<close> returns the number of elements, whether the header knows it or the listpack
  has to be scanned, and leaves the content as it was; \<open>lpSeek\<close> finds the element an index
  stands for, counted from the tail when it is negative, and returns \<open>NULL\<close> exactly for an
  index out of range; no assertion fails.\<close>

theorem lp_length_seek:
  assumes "lp_content lp ss"
  shows "(\<exists>lp'. lpLength lp = Some (lp', length ss) \<and> lp_content lp' ss)
    \<and> (\<exists>r. lpSeek lp index = Some r
         \<and> (case index_pos (length ss) index of
              None \<Rightarrow> r = None
            | Some k \<Rightarrow> \<exists>p. r = Some p \<and> lp_at lp ss k p \<and> lpGet_intbuf lp p = ss ! k))"
proof -
  obtain es where es: "lp_rep lp es" "map enc_text es = ss" using assms by (auto simp: lp_content_def)
  have len: "length ss = length es" using es(2) by auto
  have "\<exists>lp'. lpLength lp = Some (lp', length ss) \<and> lp_content lp' ss"
    using lp_rep_lpLength [OF es(1)] es(2) len by (auto simp: lp_content_def)
  moreover have "\<exists>p. lp_at lp ss k p \<and> lpGet_intbuf lp p = ss ! k \<and> p = lp_off es k"
    if "index_pos (length ss) index = Some k" for k
  proof -
    have k: "k < length es" using index_pos_less [OF that] len by simp
    then show ?thesis using es lpGet_intbuf_rep [OF es(1) k] by (auto simp: lp_at_def)
  qed
  ultimately show ?thesis
    using lp_rep_seek [OF es(1), of index] len by (auto split: option.split)
qed

theorem lp_length_seek_witness: "lpSeek ex_lp (-2) = Some (Some 6) \<and> lpSeek ex_lp 2 = Some None"
proof -
  have "\<exists>p. lpSeek ex_lp (-2) = Some (Some p)"
    using lp_length_seek [OF ex_lp_content, of "-2"] by (auto simp: index_pos_def)
  moreover have "lpSeek ex_lp (-2) = Some (Some 6)"
    using lp_rep_seek [OF ex_lp_rep, of "-2"]
    by (simp add: index_pos_def LP_HDR_SIZE_def)
  moreover have "lpSeek ex_lp 2 = Some None"
    using lp_length_seek [OF ex_lp_content, of 2] by (auto simp: index_pos_def)
  ultimately show ?thesis by blast
qed

text \<open>C20. \<open>lpFind\<close>, started at the entry of \<open>ss ! k\<close>, returns the first entry equal to the string
  among the positions \<open>k\<close>, \<open>k + skip + 1\<close>, \<open>k + 2 (skip + 1)\<close>, ..., and \<open>NULL\<close> when there is none;
  integer entries are compared by value but match exactly the strings they were stored for, and
  no assertion fails.\<close>

theorem lp_find_first:
  assumes "lp_at lp ss k p" "k < length ss"
  shows "\<exists>r. lpFind lp p s skip = Some r
    \<and> (case find (\<lambda>j. (j - k) mod (skip + 1) = 0 \<and> ss ! j = s) [k..<length ss] of
         None \<Rightarrow> r = None
       | Some j \<Rightarrow> \<exists>q. r = Some q \<and> lp_at lp ss j q)"
proof -
  obtain es where es: "lp_rep lp es" "map enc_text es = ss" "p = lp_off es k" "length ss = length es"
    using assms(1) by (rule lp_atE)
  have k: "k < length es" using assms(2) es(4) by simp
  have eq: "find_pos es s skip k 0 = find (\<lambda>j. (j - k) mod (skip + 1) = 0 \<and> ss ! j = s) [k..<length ss]"
    unfolding find_pos_def es(4) using es(2) by (intro find_cong_set) (auto simp: lp_matches_text)
  have r: "lpFind lp p s skip = Some (map_option (lp_off es) (find_pos es s skip k 0))"
    using lp_rep_find [OF es(1) k] es(3) by simp
  have "lp_at lp ss j (lp_off es j)" if "find_pos es s skip k 0 = Some j" for j
  proof -
    have "j < length es"
      using that unfolding find_pos_def find_Some_iff by (auto simp: nth_upt)
    then show ?thesis using es by (auto simp: lp_at_def)
  qed
  then show ?thesis using r unfolding eq [symmetric] by (auto split: option.split)
qed

theorem lp_find_first_witness: "\<exists>q. lpFind ex_lp 6 [53] 0 = Some (Some q) \<and> lp_at ex_lp [[0x61], [53]] 1 q"
  using lp_find_first [OF ex_lp_at(1), of "[53]" 0] by (auto simp: upt_rec)

section \<open>Updating\<close>

lemma drop_positions_filter:
  "sorted_wrt (<) ks \<Longrightarrow> \<forall>k \<in> set ks. j \<le> k \<and> k < length es \<Longrightarrow>
     drop_positions ks es j = map (nth es) (filter (\<lambda>i. i \<notin> set ks) [j..<length es])"
proof (induction ks es j rule: drop_positions.induct)
  case (1 es j)
  show ?case by (rule nth_equalityI) auto
next
  case (2 k ks es j)
  have jk: "j \<le> k" "k < length es" "\<forall>i \<in> set ks. k < i" using 2(2,3) by auto
  have IH: "drop_positions ks es (Suc k) = map (nth es) (filter (\<lambda>i. i \<notin> set ks) [Suc k..<length es])"
    using 2(2,3) by (intro 2(1)) auto
  have "[j..<length es] = [j..<k] @ k # [Suc k..<length es]"
    using jk upt_add_eq_append [of j k "length es - k"] by (simp add: upt_conv_Cons)
  moreover have "filter (\<lambda>i. i \<notin> set (k # ks)) [j..<k] = [j..<k]"
    using jk(3) by (intro filter_True) auto
  moreover have "filter (\<lambda>i. i \<notin> set (k # ks)) [Suc k..<length es] = filter (\<lambda>i. i \<notin> set ks) [Suc k..<length es]"
    by (intro filter_cong) auto
  moreover have "map (nth es) [j..<k] = take (k - j) (drop j es)"
    using jk by (intro nth_equalityI) auto
  ultimately show ?case using IH by simp
qed

lemma concat_map_if: "concat (map (\<lambda>i. if P i then [f i] else []) xs) = map f (filter P xs)"
  by (induction xs) auto

lemma lp_total_room:
  assumes "valid_enc e" "length e \<le> n + 5" "lp_total (xs @ zs) + n + 10 < 2 ^ 32"
  shows "lp_total (xs @ e # zs) < 2 ^ 32"
proof -
  have "lp_total (xs @ e # zs) = lp_total (xs @ zs) + length e + lpBacklenSize (length e)"
    using lp_total_append [of xs "[e]" zs] by simp
  then show ?thesis using assms lpBacklenSize_bounds(2) [of "length e"] by linarith
qed

lemma length_lp_encode_str: "length (lp_encode_str s) \<le> length s + 5 \<or> length (lp_encode_str s) \<le> 9"
  using length_lpEncodeInteger(1)
  by (auto simp: lp_encode_str_def lpEncodeGetType_def length_lpEncodeString split: option.split)

text \<open>The integer encoding of a string is no longer than the string and five bytes.\<close>

lemma length_lp_encode_str_le: "length (lp_encode_str s) \<le> length s + 5"
proof (cases "lpStringToInt64 s")
  case None
  then show ?thesis by (simp add: lp_encode_str_def lpEncodeGetType_def length_lpEncodeString)
next
  case (Some v)
  then have v: "is_ll v" "s = dec_int v" by (simp_all add: lpStringToInt64_eq string2ll_iff)
  have e: "lp_encode_str s = lpEncodeIntegerGetType v"
    using Some by (simp add: lp_encode_str_def lpEncodeGetType_def)
  show ?thesis
  proof (cases "fits 4 v")
    case True
    then have "length (lpEncodeIntegerGetType v) \<le> 5" by (simp add: lpEncodeIntegerGetType_eq)
    then show ?thesis using e by simp
  next
    case False
    then have "10 ^ 8 \<le> nat \<bar>v\<bar>" unfolding fits_numeral by simp arith
    then have "9 \<le> length (dec (nat \<bar>v\<bar>))"
      using length_dec_div_pow [of 8 "nat \<bar>v\<bar>"] dec_nonempty [of "nat \<bar>v\<bar> div 10 ^ 8"]
      by (metis One_nat_def Suc_le_eq add_le_cancel_left length_greater_0_conv numeral_plus_one
          one_add_one semiring_norm(5))
    then have "9 \<le> length s" using v(2) by (auto simp: dec_int_def abs_if split: if_splits)
    then show ?thesis using e length_lpEncodeInteger(1) [of v] by simp
  qed
qed

lemma lpInsert_content:
  assumes "lp_at lp ss k p" "lp_elearg elestr eleint e" "valid_enc e" "enc_text e = s"
    and "length e \<le> n + 5" "lpBytes lp + n + 10 < 2 ^ 32"
  shows "\<exists>lp' q. lpInsert lp elestr eleint p LP_BEFORE = Some (Some (lp', Some q))
    \<and> lp_at lp' (take k ss @ s # drop k ss) k q"
proof -
  obtain es where es: "lp_rep lp es" "map enc_text es = ss" "k \<le> length es" "p = lp_off es k"
    using assms(1) by (rule lp_atE)
  let ?xs = "take k es" and ?zs = "drop k es"
  have sp: "es = ?xs @ ?zs" "length ?xs = k" using es(3) by simp_all
  have "lp_total (?xs @ e # ?zs) < 2 ^ 32"
    using assms(6) lp_rep_bytes [OF es(1)] by (intro lp_total_room [OF assms(3,5)]) simp
  with lpInsert_before(1) [of lp ?xs ?zs elestr eleint e] assms(2,3) es(1)
  obtain lp' where lp': "lpInsert lp elestr eleint (lp_off (?xs @ ?zs) (length ?xs)) LP_BEFORE
      = Some (Some (lp', Some (lp_off (?xs @ e # ?zs) (length ?xs))))" "lp_rep lp' (?xs @ e # ?zs)" by auto
  have "map enc_text (?xs @ e # ?zs) = take k ss @ s # drop k ss"
    using es(2) assms(4) by (auto simp: take_map drop_map)
  then have "lp_at lp' (take k ss @ s # drop k ss) k (lp_off (?xs @ e # ?zs) (length ?xs))"
    unfolding lp_at_def using lp'(2) sp(2) es(3) by (intro exI [of _ "?xs @ e # ?zs"]) auto
  then show ?thesis using lp'(1) sp es(4) by auto
qed

lemma elearg_string: "lp_elearg (Some s) None (lp_encode_str s)"
  by (simp add: lp_elearg_def)

lemma elearg_int: "lp_elearg None (Some e) e"
  by (simp add: lp_elearg_def)

lemma lpInsert_content_after:
  assumes "lp_at lp ss k p" "k < length ss" "lp_elearg elestr eleint e" "valid_enc e" "enc_text e = s"
    and "length e \<le> n + 5" "lpBytes lp + n + 10 < 2 ^ 32"
  shows "\<exists>lp' q. lpInsert lp elestr eleint p LP_AFTER = Some (Some (lp', Some q))
    \<and> lp_at lp' (take (Suc k) ss @ s # drop (Suc k) ss) (Suc k) q"
proof -
  obtain es where es: "lp_rep lp es" "map enc_text es = ss" "p = lp_off es k" "length ss = length es"
    using assms(1) by (rule lp_atE)
  have "lp_at lp ss (Suc k) (lp_off es (Suc k))" using es assms(2) by (auto simp: lp_at_def)
  from lpInsert_content [OF this assms(3-7)] show ?thesis
    using lpInsert_after [OF es(1) _ assms(3)] assms(2) es(3,4) by simp
qed

text \<open>C4. Insertion of a string or of an integer before or after the entry of \<open>ss ! k\<close>: when fifteen
  bytes more than the string fit below \<open>2 ^ 32\<close>, the operation succeeds, the new content has the
  string (the decimal digits of the integer) at its place with everything else unchanged, and
  \<open>*newp\<close> points to the new entry.\<close>

theorem lp_insert_correct:
  assumes "lp_at lp ss k p" "lpBytes lp + length s + 15 < 2 ^ 32"
  shows "(\<exists>lp' q. lpInsertString lp s p LP_BEFORE = Some (Some (lp', Some q))
        \<and> lp_at lp' (take k ss @ s # drop k ss) k q)
    \<and> (k < length ss \<longrightarrow> (\<exists>lp' q. lpInsertString lp s p LP_AFTER = Some (Some (lp', Some q))
        \<and> lp_at lp' (take (Suc k) ss @ s # drop (Suc k) ss) (Suc k) q))
    \<and> (is_ll v \<longrightarrow> (\<exists>lp' q. lpInsertInteger lp v p LP_BEFORE = Some (Some (lp', Some q))
        \<and> lp_at lp' (take k ss @ dec_int v # drop k ss) k q))
    \<and> (is_ll v \<and> k < length ss \<longrightarrow> (\<exists>lp' q. lpInsertInteger lp v p LP_AFTER = Some (Some (lp', Some q))
        \<and> lp_at lp' (take (Suc k) ss @ dec_int v # drop (Suc k) ss) (Suc k) q))"
proof -
  have str: "valid_enc (lp_encode_str s)" "enc_text (lp_encode_str s) = s"
    using lp_encode_str_ok [of s] assms(2) by auto
  note s = elearg_string str length_lp_encode_str_le
  have "length (lpEncodeIntegerGetType v) \<le> 4 + 5" using length_lpEncodeInteger(1) [of v] by simp
  note i = elearg_int lpEncodeInteger_ok this
  have r: "lpBytes lp + length s + 10 < 2 ^ 32" "lpBytes lp + 4 + 10 < 2 ^ 32"
    using assms(2) by simp_all
  show ?thesis
    unfolding lpInsertString_def lpInsertInteger_def
    using lpInsert_content [OF assms(1) s r(1)] lpInsert_content_after [OF assms(1) _ s r(1)]
      lpInsert_content [OF assms(1) i r(2)] lpInsert_content_after [OF assms(1) _ i r(2)]
    by blast
qed

theorem lp_insert_correct_witness:
  "(\<exists>lp' q. lpInsertString ex_lp [0x62] 6 LP_AFTER = Some (Some (lp', Some q))
     \<and> lp_at lp' [[0x61], [0x62], [53]] 1 q)
   \<and> (\<exists>lp' q. lpInsertInteger ex_lp 7 6 LP_AFTER = Some (Some (lp', Some q))
     \<and> lp_at lp' [[0x61], dec_int 7, [53]] 1 q)"
proof -
  have "lpBytes ex_lp = 12" using lp_rep_bytes [OF ex_lp_rep]
    by (simp add: lp_total_def LP_HDR_SIZE_def lp_body_def ex_entries)
  then show ?thesis
    using lp_insert_correct [OF ex_lp_at(1), of "[0x62]" 7] by (simp add: is_ll_def limits_defs)
qed

text \<open>C14. Replacement and deletion of the entry of \<open>ss ! k\<close>: replacing (a shorter or a longer
  entry) changes that string only, deleting removes it and returns the next entry or \<open>NULL\<close>
  after the last one; no assertion fails.\<close>

theorem lp_replace_delete_correct:
  assumes "lp_at lp ss k p" "k < length ss"
  shows "(lpBytes lp + length s + 15 < 2 ^ 32 \<longrightarrow> (\<exists>lp' q. lpReplace lp p s = Some (Some (lp', Some q))
        \<and> lp_at lp' (ss[k := s]) k q))
    \<and> (\<exists>lp' q. lpDelete lp p = Some (Some (lp', if Suc k < length ss then Some q else None))
        \<and> lp_at lp' (take k ss @ drop (Suc k) ss) k q)"
proof -
  obtain es where es: "lp_rep lp es" "map enc_text es = ss" "p = lp_off es k" "length ss = length es"
    using assms(1) by (rule lp_atE)
  have k: "k < length es" using assms(2) es(4) by simp
  let ?xs = "take k es" and ?zs = "drop (Suc k) es"
  have sp: "es = ?xs @ es ! k # ?zs" "length ?xs = k" using k by (simp_all add: id_take_nth_drop [symmetric])
  have rep: "lp_rep lp (?xs @ es ! k # ?zs)" using es(1) sp(1) by simp
  have p: "p = lp_off (?xs @ es ! k # ?zs) (length ?xs)" using es(3) sp by simp
  have "\<exists>lp' q. lpReplace lp p s = Some (Some (lp', Some q)) \<and> lp_at lp' (ss[k := s]) k q"
    if room: "lpBytes lp + length s + 15 < 2 ^ 32"
  proof -
    let ?e = "lp_encode_str s"
    have str: "valid_enc ?e" "enc_text ?e = s" using lp_encode_str_ok [of s] room by auto
    have "lp_total (?xs @ ?zs) \<le> lp_total es"
      using lp_total_append [of ?xs "[es ! k]" ?zs] sp(1) by simp
    then have "lp_total (?xs @ ?e # ?zs) < 2 ^ 32"
      using room lp_rep_bytes [OF es(1)] by (intro lp_total_room [OF str(1) length_lp_encode_str_le]) simp
    with lpInsert_replace(1) [OF rep elearg_string str(1)] obtain lp' where lp':
      "lpReplace lp p s = Some (Some (lp', Some (lp_off (?xs @ ?e # ?zs) (length ?xs))))"
      "lp_rep lp' (?xs @ ?e # ?zs)" using p by (auto simp: lpReplace_def)
    have "map enc_text (?xs @ ?e # ?zs) = ss[k := s]"
      using es(2) str(2) k by (auto simp: take_map drop_map upd_conv_take_nth_drop)
    then have "lp_at lp' (ss[k := s]) k (lp_off (?xs @ ?e # ?zs) (length ?xs))"
      unfolding lp_at_def using lp'(2) sp(2) k by (intro exI [of _ "?xs @ ?e # ?zs"]) auto
    then show ?thesis using lp'(1) by blast
  qed
  moreover have "\<exists>lp' q. lpDelete lp p = Some (Some (lp', if Suc k < length ss then Some q else None))
        \<and> lp_at lp' (take k ss @ drop (Suc k) ss) k q"
  proof -
    obtain lp' where lp': "lpDelete lp p = Some (Some (lp', lp_ptr (?xs @ ?zs) (length ?xs)))"
      "lp_rep lp' (?xs @ ?zs)" using lpDelete_rep [OF rep] p by auto
    have "lp_at lp' (take k ss @ drop (Suc k) ss) k (lp_off (?xs @ ?zs) k)"
      unfolding lp_at_def using lp'(2) es(2) k
      by (intro exI [of _ "?xs @ ?zs"]) (auto simp: take_map drop_map)
    moreover have "lp_ptr (?xs @ ?zs) (length ?xs) = (if Suc k < length ss then Some (lp_off (?xs @ ?zs) k) else None)"
      using k es(4) sp(2) by (auto simp: lp_ptr_def)
    ultimately show ?thesis using lp'(1) by auto
  qed
  ultimately show ?thesis by blast
qed

theorem lp_replace_delete_correct_witness:
  "\<exists>lp' q. lpDelete ex_lp 6 = Some (Some (lp', Some q)) \<and> lp_at lp' [[53]] 0 q"
  using lp_replace_delete_correct [OF ex_lp_at(1)] by auto

text \<open>Deleting \<open>num\<close> elements from the position an index stands for removes them, or all up to
  the end when there are fewer (the shortcut that only moves the terminator and the general path
  agree), an index out of range changes nothing, and no assertion fails.\<close>

theorem lp_delete_range_correct:
  assumes "lp_content lp ss"
  shows "\<exists>lp'. lpDeleteRange lp index num = Some lp'
    \<and> lp_content lp' (case index_pos (length ss) index of
         None \<Rightarrow> ss | Some k \<Rightarrow> take k ss @ drop (k + num) ss)"
proof -
  obtain es where es: "lp_rep lp es" "map enc_text es = ss" using assms by (auto simp: lp_content_def)
  have len: "length ss = length es" using es(2) by auto
  show ?thesis
  proof (cases "index_pos (length ss) index")
    case None
    then have "lpDeleteRange lp index num = Some lp"
      using lp_rep_seek [OF es(1), of index] len by (simp add: lpDeleteRange_def Let_def)
    then show ?thesis using assms None by simp
  next
    case (Some k)
    show ?thesis
    proof (cases "num = 0")
      case True
      then show ?thesis using assms Some by (simp add: lpDeleteRange_def Let_def)
    next
      case False
      have "index_pos (length es) index = Some k" using Some len by simp
      with lpDeleteRange_rep [OF es(1)] False obtain lp' where
        "lpDeleteRange lp index num = Some lp'" "lp_rep lp' (take k es @ drop (k + num) es)" by blast
      then show ?thesis
        using es(2) Some by (auto simp: lp_content_def take_map drop_map intro!: exI [of _ "take k es @ drop (k + num) es"])
    qed
  qed
qed

theorem lp_delete_range_correct_witness:
  "\<exists>lp'. lpDeleteRange ex_lp (-1) 5 = Some lp' \<and> lp_content lp' [[0x61]]"
  using lp_delete_range_correct [OF ex_lp_content, of "-1" 5] by (simp add: index_pos_def)


text \<open>\<open>lpBatchDelete\<close> on the entries that \<open>lpSeek\<close> finds at an increasing list of positions
  removes exactly those elements and keeps the others in order; no assertion fails.\<close>

theorem lp_batch_delete_correct:
  assumes "lp_content lp ss" "map (\<lambda>k. lpSeek lp (int k)) ks = map (\<lambda>p. Some (Some p)) ps"
    and "sorted_wrt (<) ks" "\<forall>k \<in> set ks. k < length ss"
  shows "\<exists>lp'. lpBatchDelete lp ps = Some lp' \<and> lp_content lp' [ss ! i. i \<leftarrow> [0..<length ss], i \<notin> set ks]"
proof -
  obtain es where es: "lp_rep lp es" "map enc_text es = ss" using assms(1) by (auto simp: lp_content_def)
  have len: "length ss = length es" using es(2) by auto
  have "map (\<lambda>k. lpSeek lp (int k)) ks = map (\<lambda>k. Some (Some (lp_off es k))) ks"
    using lp_rep_seek [OF es(1)] assms(4) len by (auto simp: index_pos_def)
  then have "map (\<lambda>p. Some (Some p)) ps = map (\<lambda>p. Some (Some p)) (map (lp_off es) ks)"
    using assms(2) by (simp add: comp_def)
  then have ps: "ps = map (lp_off es) ks"
    by (rule map_injective) (simp add: inj_def)
  obtain lp' where lp': "lpBatchDelete lp ps = Some lp'" "lp_rep lp' (drop_positions ks es 0)"
    using lpBatchDelete_rep [OF es(1) assms(3)] assms(4) len ps by auto
  have "map enc_text (drop_positions ks es 0) = map (nth ss) (filter (\<lambda>i. i \<notin> set ks) [0..<length ss])"
    using drop_positions_filter [of ks 0 es] assms(3,4) len es(2) by auto
  also have "\<dots> = [ss ! i. i \<leftarrow> [0..<length ss], i \<notin> set ks]"
    by (simp add: concat_map_if)
  finally have "map enc_text (drop_positions ks es 0) = [ss ! i. i \<leftarrow> [0..<length ss], i \<notin> set ks]" .
  then show ?thesis using lp' by (auto simp: lp_content_def)
qed

theorem lp_batch_delete_correct_witness: "\<exists>lp'. lpBatchDelete ex_lp [6] = Some lp' \<and> lp_content lp' [[53]]"
proof -
  have "lpSeek ex_lp 0 = Some (Some 6)"
    using lp_rep_seek [OF ex_lp_rep, of 0] by (simp add: index_pos_def LP_HDR_SIZE_def)
  then show ?thesis
    using lp_batch_delete_correct [OF ex_lp_content, of "[0]" "[6]"] by (simp add: upt_rec)
qed

text \<open>Merging two listpacks gives the concatenation of their contents, whichever of the two is
  larger and is reallocated, unless the sum of the sizes reaches \<open>2 ^ 32 - 1\<close>, when the assertion
  aborts.\<close>

theorem lp_merge_correct:
  assumes "lp_content lp1 xs" "lp_content lp2 ys"
  shows "if lpBytes lp1 + lpBytes lp2 - 7 < 2 ^ 32 - 1
     then \<exists>lp'. lpMerge (Some lp1) (Some lp2) False = Some (Some (lp', lpBytes lp1 \<ge> lpBytes lp2))
            \<and> lp_content lp' (xs @ ys)
     else lpMerge (Some lp1) (Some lp2) False = None"
proof -
  obtain es1 es2 where r: "lp_rep lp1 es1" "map enc_text es1 = xs" "lp_rep lp2 es2" "map enc_text es2 = ys"
    using assms by (auto simp: lp_content_def)
  have t: "lp_total es1 + lp_total es2 - 7 = lp_total (es1 @ es2)"
    by (simp add: lp_total_def LP_HDR_SIZE_def)
  show ?thesis
    using lpMerge_rep [OF r(1,3)] r(2,4) unfolding lp_rep_bytes [OF r(1)] lp_rep_bytes [OF r(3)] t
    by (auto simp: lp_content_def intro!: exI [of _ "es1 @ es2"])
qed

theorem lp_merge_correct_witness:
  "\<exists>lp'. lpMerge (Some ex_lp) (Some ex_lp) False = Some (Some (lp', True))
     \<and> lp_content lp' [[0x61], [53], [0x61], [53]]"
proof -
  have "lpBytes ex_lp = 12" using lp_rep_bytes [OF ex_lp_rep]
    by (simp add: lp_total_def LP_HDR_SIZE_def lp_body_def ex_entries)
  then show ?thesis using lp_merge_correct [OF ex_lp_content ex_lp_content] by simp
qed

section \<open>The listpack as a sequence of strings\<close>

definition lp_append :: "bytes \<Rightarrow> bytes \<Rightarrow> bytes option" where
  "lp_append lp s = (case lpAppend lp s of Some (Some lp') \<Rightarrow> Some lp' | _ \<Rightarrow> None)"

definition lp_prepend :: "bytes \<Rightarrow> bytes \<Rightarrow> bytes option" where
  "lp_prepend lp s = (case lpPrepend lp s of Some (Some lp') \<Rightarrow> Some lp' | _ \<Rightarrow> None)"

definition lp_room :: "bytes \<Rightarrow> bytes \<Rightarrow> bool" where
  "lp_room lp s \<longleftrightarrow> length s < 2 ^ 32 \<and> lpSafeToAdd (Some lp) (length s)"

definition lp_get :: "bytes \<Rightarrow> int \<Rightarrow> bytes option option" where
  "lp_get lp index = map_option (map_option (lpGet_intbuf lp)) (lpSeek lp index)"

lemma lp_room_bound: "lp_content lp ss \<Longrightarrow> lp_room lp s \<Longrightarrow> lpBytes lp + length s + 15 < 2 ^ 32"
proof -
  assume a: "lp_content lp ss" "lp_room lp s"
  then obtain es where "lp_rep lp es" by (auto simp: lp_content_def)
  then have "lpBytes lp < 2 ^ 32" using lp_rep_bytes [of lp es] by (simp add: lp_rep_def)
  then have "(lpBytes lp + length s) mod 2 ^ 64 = lpBytes lp + length s"
    using a(2) by (intro mod_less) (simp add: lp_room_def)
  then show ?thesis
    using a(2) by (simp add: lp_room_def lpSafeToAdd_def LISTPACK_MAX_SAFETY_SIZE_def lpBytes_def Let_def
        split: if_splits)
qed

lemma lpInsertString_content:
  assumes "lp_at lp ss k p" "lpBytes lp + length s + 15 < 2 ^ 32"
  shows "\<exists>lp' q. lpInsert lp (Some s) None p LP_BEFORE = Some (Some (lp', Some q))
    \<and> lp_at lp' (take k ss @ s # drop k ss) k q"
  using lpInsert_content [OF assms(1) elearg_string lp_encode_str_ok length_lp_encode_str_le, of s] assms(2)
  by simp

lemma lp_append_content:
  assumes "lp_content lp ss" "lp_room lp s"
  shows "\<exists>lp'. lp_append lp s = Some lp' \<and> lp_content lp' (ss @ [s])"
proof -
  obtain es where es: "lp_rep lp es" "map enc_text es = ss" using assms(1) by (auto simp: lp_content_def)
  have at: "lp_at lp ss (length ss) (lpGetTotalBytes lp - 1)"
    using es lp_off_length [of es] lp_rep_total [OF es(1)] by (auto simp: lp_at_def)
  from lpInsertString_content [OF at lp_room_bound [OF assms]] obtain lp' q where
    "lpInsert lp (Some s) None (lpGetTotalBytes lp - 1) LP_BEFORE = Some (Some (lp', Some q))"
    "lp_at lp' (ss @ [s]) (length ss) q" by auto
  then show ?thesis
    using lp_at_content by (auto simp: lp_append_def lpAppend_def Let_def)
qed

lemma lp_prepend_content:
  assumes "lp_content lp ss" "lp_room lp s"
  shows "\<exists>lp'. lp_prepend lp s = Some lp' \<and> lp_content lp' (s # ss)"
proof -
  obtain es where es: "lp_rep lp es" "map enc_text es = ss" using assms(1) by (auto simp: lp_content_def)
  show ?thesis
  proof (cases "es = []")
    case True
    then show ?thesis
      using lp_append_content [OF assms] es(2) lp_rep_first [OF es(1)]
      by (simp add: lp_prepend_def lp_append_def lpPrepend_def lp_ptr_def)
  next
    case False
    then have f: "lpFirst lp = Some (Some (lp_off es 0))" using lp_rep_first [OF es(1)] by (simp add: lp_ptr_def)
    have at: "lp_at lp ss 0 (lp_off es 0)" using es by (auto simp: lp_at_def)
    from lpInsertString_content [OF at lp_room_bound [OF assms]] obtain lp' q where
      "lpInsert lp (Some s) None (lp_off es 0) LP_BEFORE = Some (Some (lp', Some q))"
      "lp_at lp' (s # ss) 0 q" by auto
    then show ?thesis
      using lp_at_content f by (auto simp: lp_prepend_def lpPrepend_def)
  qed
qed

lemma lp_get_content:
  assumes "lp_content lp ss"
  shows "lp_get lp i = Some (map_option (nth ss) (index_pos (length ss) i))"
proof -
  obtain es where es: "lp_rep lp es" "map enc_text es = ss" using assms by (auto simp: lp_content_def)
  have len: "length ss = length es" using es(2) by auto
  show ?thesis
  proof (cases "index_pos (length es) i")
    case None
    then show ?thesis using lp_rep_seek [OF es(1), of i] len by (simp add: lp_get_def)
  next
    case (Some k)
    then have k: "k < length es" by (rule index_pos_less)
    have "lpGet_intbuf lp (lp_off es k) = ss ! k" using lpGet_intbuf_rep [OF es(1) k] es(2) k by auto
    then show ?thesis using lp_rep_seek [OF es(1), of i] Some len by (simp add: lp_get_def)
  qed
qed

lemma lp_count_content: "lp_content lp ss \<Longrightarrow> map_option snd (lpLength lp) = Some (length ss)"
proof -
  assume "lp_content lp ss"
  then obtain es where "lp_rep lp es" "length ss = length es" by (auto simp: lp_content_def)
  then show ?thesis using lp_rep_lpLength [of lp es] by auto
qed

lemma lp_new_content: "lp_content (lpNew capacity) []"
  using lpNew_rep by (auto simp: lp_content_def)

interpretation lps: string_seq lp_content lp_room "lpNew 0" lp_append lp_prepend
  "\<lambda>lp. map_option snd (lpLength lp)" lp_get
  by unfold_locales
    (rule lp_new_content lp_append_content lp_prepend_content lp_count_content lp_get_content; assumption)+

text \<open>A client that pushes strings at the tail of a new listpack, testing \<open>lpSafeToAdd\<close> before
  each, never hits an assertion, and afterwards reads every string it pushed back by its index,
  and the number of them as the length.\<close>

theorem lp_push_then_get:
  assumes "push_while lp_room lp_append (lpNew capacity) ys = Some (lp, n)" "i < n"
  shows "lp_get lp (int i) = Some (Some (ys ! i)) \<and> map_option snd (lpLength lp) = Some n"
  using lps.get_after_push [OF lp_new_content assms] by simp

theorem lp_push_then_get_witness:
  "\<exists>lp. push_while lp_room lp_append (lpNew 0) [[0x61]] = Some (lp, 1) \<and> lp_get lp 0 = Some (Some [0x61])"
proof -
  have room: "lp_room (lpNew 0) [0x61]"
    using lp_rep_total [OF lpNew_rep [of 0]]
    by (simp add: lp_room_def lpSafeToAdd_def LISTPACK_MAX_SAFETY_SIZE_def lp_total_def LP_HDR_SIZE_def)
  obtain lp where "lp_append (lpNew 0) [0x61] = Some lp"
    using lp_append_content [OF lp_new_content room] by blast
  then have "push_while lp_room lp_append (lpNew 0) [[0x61]] = Some (lp, 1)" using room by simp
  then show ?thesis using lp_push_then_get [of 0 "[[0x61]]" lp 1 0] by auto
qed

section \<open>The integrity check\<close>

text \<open>The integrity check accepts every listpack the operations build, shallow and deep.\<close>

theorem lp_validate_accepts:
  assumes "lp_content lp ss"
  shows "lpValidateIntegrity lp (lpBytes lp) deep None u = (True, u)"
proof -
  obtain es where es: "lp_rep lp es" using assms by (auto simp: lp_content_def)
  show ?thesis using lp_rep_validates [OF es] lp_rep_bytes [OF es] by simp
qed

theorem lp_validate_accepts_witness: "lpValidateIntegrity ex_lp 12 True None () = (True, ())"
proof -
  have "lpBytes ex_lp = 12" using lp_rep_bytes [OF ex_lp_rep]
    by (simp add: lp_total_def LP_HDR_SIZE_def lp_body_def ex_entries)
  then show ?thesis using lp_validate_accepts [OF ex_lp_content, of True "()"] by simp
qed

text \<open>A payload with one empty string, whose backward length is not the one \<open>lpEncodeBacklen\<close>
  writes: its byte says that more bytes follow, and the check reads them from the entry and the
  header before it.\<close>

definition bad_lp :: bytes where
  "bad_lp = [9, 0, 0, 0, 1, 0, 0x80, 0x81, 0xFF]"

definition bad_lp_prepended :: bytes where
  "bad_lp_prepended = [12, 0, 0, 0, 2, 0, 0x81, 0x61, 2, 0x80, 0x81, 0xFF]"

lemmas lp_eval = lpCurrentEncodedSizeUnsafe_def lpCurrentEncodedSizeBytes_def lp_enc_tests
  LP_ENCODING_6BIT_STR_LEN_def LP_EOF_def LP_HDR_SIZE_def OUT_OF_RANGE_def Let_def
  LP_HDR_NUMELE_UNKNOWN_def lpGetTotalBytes_def lpGetNumElements_def lpBacklenSize_def

lemma bad_lp_first: "lpValidateNext bad_lp (Some 6) 9 = Some (Some 8)"
proof -
  have "lpDecodeBacklen bad_lp 7 = 1"
    unfolding lpDecodeBacklen_def bad_lp_def
    by (subst lpDecodeBacklen_loop.simps, simp add: Let_def,
        subst lpDecodeBacklen_loop.simps, simp add: Let_def,
        subst lpDecodeBacklen_loop.simps, simp add: Let_def)
  then show ?thesis by (simp add: lpValidateNext_def lp_eval bad_lp_def)
qed

lemma bad_lp_validates: "lpValidateIntegrity bad_lp 9 True None () = (True, ())"
proof -
  have t: "lpGetTotalBytes bad_lp = 9" "lpGetNumElements bad_lp = 1"
    by (simp_all add: bad_lp_def lpGetTotalBytes_def lpGetNumElements_def)
  have b: "bad_lp ! 6 = 0x80" "bad_lp ! 8 = 0xFF" by (simp_all add: bad_lp_def)
  have "lpValidate_loop bad_lp 9 None 1 (Some 6) 0 () = (Some (Some 8, 1), ())"
    by (subst lpValidate_loop.simps, simp add: b bad_lp_first LP_EOF_def,
        subst lpValidate_loop.simps, simp add: b LP_EOF_def)
  then show ?thesis
    by (simp add: lpValidateIntegrity_def t b LP_HDR_SIZE_def LP_EOF_def LP_HDR_NUMELE_UNKNOWN_def)
qed

lemma bad_lp_prepend: "lpPrepend bad_lp [0x61] = Some (Some bad_lp_prepended)"
proof -
  have t: "lpGetTotalBytes bad_lp = 9" "bad_lp ! 6 = 0x80"
    by (simp_all add: bad_lp_def lpGetTotalBytes_def)
  have f: "lpFirst bad_lp = Some (Some 6)"
    using bad_lp_first t by (simp add: lpFirst_def lpAssertValidEntry_def lpBytes_def LP_HDR_SIZE_def LP_EOF_def)
  have "lpStringToInt64 [0x61] = None" by (simp add: lpStringToInt64_def LONG_STR_SIZE_def)
  then have e: "lp_encode_str [0x61] = [0x81, 0x61]"
    by (simp add: lp_encode_str_def lpEncodeGetType_def lpEncodeString_def)
  have r0: "0 = lpInsert_replaced bad_lp 6 LP_BEFORE" by (simp add: lpInsert_replaced_def)
  have new: "12 = lpInsert_new_bytes (lpGetTotalBytes bad_lp) (length (lp_encode_str [0x61]))
      (lpBacklenSize (length (lp_encode_str [0x61]))) 0"
    by (simp add: lpInsert_new_bytes_def t e lpBacklenSize_def)
  have room: "lpInsert_room bad_lp 6 3 0 9 12 = [9, 0, 0, 0, 1, 0, 0x80, 0x81, 0xFF, 0x80, 0x81, 0xFF]"
    by (simp add: lpInsert_room_def bad_lp_def realloc_bytes_def memmove_in_def blit_def slice_def
        fresh_byte_def Let_def)
  have st: "blit 8 (lpEncodeBacklen 2) (blit 6 [0x81, 0x61]
      [9, 0, 0, 0, 1, 0, 0x80, 0x81, 0xFF, 0x80, 0x81, 0xFF]) = [9, 0, 0, 0, 1, 0, 0x81, 0x61, 2, 0x80, 0x81, 0xFF]"
    by (simp add: blit_def lpEncodeBacklen_def)
  have h: "lpSetTotalBytes (lpInsert_count [9, 0, 0, 0, 1, 0, 0x81, 0x61, 2, 0x80, 0x81, 0xFF] False) 12
      = bad_lp_prepended"
    by (simp add: lpInsert_count_def lpGetNumElements_def lpSetNumElements_def lpSetTotalBytes_def
        bad_lp_prepended_def LP_HDR_NUMELE_UNKNOWN_def numeral_2_eq_2 [symmetric])
  have "lpInsert bad_lp (Some [0x61]) None 6 LP_BEFORE =
      Some (Some (lpSetTotalBytes (lpInsert_count (blit (6 + 2) (lpEncodeBacklen 2)
        (blit 6 [0x81, 0x61] (lpInsert_room bad_lp 6 (2 + 1) 0 9 12))) False) 12, Some 6))"
    using lpInsert_element [OF elearg_string [of "[0x61]"] lp_where.distinct(1) r0 new]
    by (simp add: t e lpBacklenSize_def numeral_2_eq_2 [symmetric] numeral_3_eq_3 [symmetric])
  also have "\<dots> = Some (Some (bad_lp_prepended, Some 6))"
    using room st h by simp
  finally have "lpInsert bad_lp (Some [0x61]) None 6 LP_BEFORE = Some (Some (bad_lp_prepended, Some 6))" .
  then show ?thesis using f by (simp add: lpPrepend_def)
qed

lemma bad_lp_last: "lpLast bad_lp_prepended = None"
proof -
  have t: "lpGetTotalBytes bad_lp_prepended = 12"
    by (simp add: bad_lp_prepended_def lpGetTotalBytes_def)
  have "lpDecodeBacklen bad_lp_prepended 10 = 32769"
    unfolding lpDecodeBacklen_def bad_lp_prepended_def
    by (subst lpDecodeBacklen_loop.simps, simp add: Let_def,
        subst lpDecodeBacklen_loop.simps, simp add: Let_def,
        subst lpDecodeBacklen_loop.simps, simp add: Let_def)
  then show ?thesis
    by (simp add: lpLast_def t lpPrev_def lpBytes_def lpAssertValidEntry_def lpValidateNext_def
        OUT_OF_RANGE_def LP_HDR_SIZE_def lpBacklenSize_def Let_def)
qed

text \<open>C29. The deep integrity check is not enough for the operations after it.  It decodes the
  backward length of an entry from whatever bytes precede it, so it accepts a payload in which a
  backward length is one byte with the continuation bit set; once another element is inserted
  before that entry the same byte decodes to a different length, and walking backwards from the
  tail fails an assertion, which aborts the server.\<close>

theorem lp_validated_prev_aborts:
  "lpValidateIntegrity bad_lp 9 True None () = (True, ())
   \<and> (\<exists>lp. lpPrepend bad_lp [0x61] = Some (Some lp) \<and> lpLast lp = None)"
  using bad_lp_validates bad_lp_prepend bad_lp_last by blast

end
