(* ===== verification/Crc.thy ===== *)
theory Crc
  imports Redis_Prelude
begin

text \<open>
  The checksums: the table-driven CRC-16 of the cluster slots (\<open>crc16.c\<close>, \<open>keyHashSlot\<close> of
  \<open>cluster.c\<close>) and the CRC-64 of the RDB format, bit by bit (\<open>crc64.c\<close>) and eight bytes at a
  time (\<open>crcspeed.c\<close>) on hosts of either byte order.  A buffer is a byte list; the alignment loops
  take its address.
\<close>

section \<open>CRC-16\<close>

definition crc16tab :: "16 word list" where
  "crc16tab = [
    0, 0x1021, 0x2042, 0x3063, 0x4084, 0x50a5, 0x60c6, 0x70e7,
    0x8108, 0x9129, 0xa14a, 0xb16b, 0xc18c, 0xd1ad, 0xe1ce, 0xf1ef,
    0x1231, 0x210, 0x3273, 0x2252, 0x52b5, 0x4294, 0x72f7, 0x62d6,
    0x9339, 0x8318, 0xb37b, 0xa35a, 0xd3bd, 0xc39c, 0xf3ff, 0xe3de,
    0x2462, 0x3443, 0x420, 0x1401, 0x64e6, 0x74c7, 0x44a4, 0x5485,
    0xa56a, 0xb54b, 0x8528, 0x9509, 0xe5ee, 0xf5cf, 0xc5ac, 0xd58d,
    0x3653, 0x2672, 0x1611, 0x630, 0x76d7, 0x66f6, 0x5695, 0x46b4,
    0xb75b, 0xa77a, 0x9719, 0x8738, 0xf7df, 0xe7fe, 0xd79d, 0xc7bc,
    0x48c4, 0x58e5, 0x6886, 0x78a7, 0x840, 0x1861, 0x2802, 0x3823,
    0xc9cc, 0xd9ed, 0xe98e, 0xf9af, 0x8948, 0x9969, 0xa90a, 0xb92b,
    0x5af5, 0x4ad4, 0x7ab7, 0x6a96, 0x1a71, 0xa50, 0x3a33, 0x2a12,
    0xdbfd, 0xcbdc, 0xfbbf, 0xeb9e, 0x9b79, 0x8b58, 0xbb3b, 0xab1a,
    0x6ca6, 0x7c87, 0x4ce4, 0x5cc5, 0x2c22, 0x3c03, 0xc60, 0x1c41,
    0xedae, 0xfd8f, 0xcdec, 0xddcd, 0xad2a, 0xbd0b, 0x8d68, 0x9d49,
    0x7e97, 0x6eb6, 0x5ed5, 0x4ef4, 0x3e13, 0x2e32, 0x1e51, 0xe70,
    0xff9f, 0xefbe, 0xdfdd, 0xcffc, 0xbf1b, 0xaf3a, 0x9f59, 0x8f78,
    0x9188, 0x81a9, 0xb1ca, 0xa1eb, 0xd10c, 0xc12d, 0xf14e, 0xe16f,
    0x1080, 0xa1, 0x30c2, 0x20e3, 0x5004, 0x4025, 0x7046, 0x6067,
    0x83b9, 0x9398, 0xa3fb, 0xb3da, 0xc33d, 0xd31c, 0xe37f, 0xf35e,
    0x2b1, 0x1290, 0x22f3, 0x32d2, 0x4235, 0x5214, 0x6277, 0x7256,
    0xb5ea, 0xa5cb, 0x95a8, 0x8589, 0xf56e, 0xe54f, 0xd52c, 0xc50d,
    0x34e2, 0x24c3, 0x14a0, 0x481, 0x7466, 0x6447, 0x5424, 0x4405,
    0xa7db, 0xb7fa, 0x8799, 0x97b8, 0xe75f, 0xf77e, 0xc71d, 0xd73c,
    0x26d3, 0x36f2, 0x691, 0x16b0, 0x6657, 0x7676, 0x4615, 0x5634,
    0xd94c, 0xc96d, 0xf90e, 0xe92f, 0x99c8, 0x89e9, 0xb98a, 0xa9ab,
    0x5844, 0x4865, 0x7806, 0x6827, 0x18c0, 0x8e1, 0x3882, 0x28a3,
    0xcb7d, 0xdb5c, 0xeb3f, 0xfb1e, 0x8bf9, 0x9bd8, 0xabbb, 0xbb9a,
    0x4a75, 0x5a54, 0x6a37, 0x7a16, 0xaf1, 0x1ad0, 0x2ab3, 0x3a92,
    0xfd2e, 0xed0f, 0xdd6c, 0xcd4d, 0xbdaa, 0xad8b, 0x9de8, 0x8dc9,
    0x7c26, 0x6c07, 0x5c64, 0x4c45, 0x3ca2, 0x2c83, 0x1ce0, 0xcc1,
    0xef1f, 0xff3e, 0xcf5d, 0xdf7c, 0xaf9b, 0xbfba, 0x8fd9, 0x9ff8,
    0x6e17, 0x7e36, 0x4e55, 0x5e74, 0x2e93, 0x3eb2, 0xed1, 0x1ef0]"

fun crc16_loop :: "16 word \<Rightarrow> bytes \<Rightarrow> 16 word" where
  "crc16_loop crc [] = crc"
| "crc16_loop crc (b # buf) =
     crc16_loop (push_bit 8 crc XOR crc16tab ! unat ((drop_bit 8 crc XOR ucast b) AND 0x00FF)) buf"

definition crc16 :: "bytes \<Rightarrow> 16 word" where
  "crc16 buf = crc16_loop 0 buf"

text \<open>The loops over the key stop at the byte searched or at the end.\<close>

function index_of :: "u8 \<Rightarrow> bytes \<Rightarrow> nat \<Rightarrow> nat" where
  "index_of c key s = (if s < length key \<and> key ! s \<noteq> c then index_of c key (s + 1) else s)"
  by pat_completeness auto
termination by (relation "measure (\<lambda>(c, key, s). length key - s)") auto

declare index_of.simps [simp del]

definition keyHashSlot :: "bytes \<Rightarrow> nat" where
  "keyHashSlot key =
     (let keylen = length key; s = index_of 123 key 0 in
      if s = keylen then unat (crc16 key AND 0x3FFF)
      else let e = index_of 125 key (s + 1) in
        if e = keylen \<or> e = s + 1 then unat (crc16 key AND 0x3FFF)
        else unat (crc16 (slice (s + 1) (e - s - 1) key) AND 0x3FFF))"

text \<open>The specification: one bit of the division by \<open>x ^ 16 + x ^ 12 + x ^ 5 + 1\<close>, and a byte.\<close>

definition crc16_bit :: "16 word \<Rightarrow> 16 word" where
  "crc16_bit r = push_bit 1 r XOR (if bit r 15 then 0x1021 else 0)"

definition crc16_spec :: "bytes \<Rightarrow> 16 word" where
  "crc16_spec buf = fold (\<lambda>b r. (crc16_bit ^^ 8) (r XOR push_bit 8 (ucast b))) buf 0"

text \<open>A map that respects exclusive or is determined on \<open>[0, 256)\<close> by its values on the powers
  of two.\<close>

lemma xor_add_pow: "n < 2 ^ j \<Longrightarrow> n XOR 2 ^ j = n + (2::nat) ^ j"
proof -
  assume "n < 2 ^ j"
  then have "n = take_bit j n" by (simp add: take_bit_nat_eq_self)
  then have "n AND push_bit j 1 = take_bit j n AND push_bit j 1" by simp
  also have "\<dots> = 0" by (rule bit_eqI) (auto simp: bit_simps)
  finally show ?thesis
    using disjunctive_add_eq_xor [of n "push_bit j 1"] by (simp add: push_bit_eq_mult)
qed

fun xor_doubling :: "'a::len word list \<Rightarrow> 'a word list" where
  "xor_doubling [] = [0]"
| "xor_doubling (v # vs) = (let ws = xor_doubling vs in ws @ map (\<lambda>x. x XOR v) ws)"

lemma linear_table:
  fixes f :: "nat \<Rightarrow> 'a::len word"
  assumes "f 0 = 0" "\<And>m n. f (m XOR n) = f m XOR f n"
  shows "map f [0..<2 ^ j] = xor_doubling (map (\<lambda>i. f (2 ^ i)) (rev [0..<j]))"
proof (induction j)
  case (Suc j)
  have "[0..<2 ^ Suc j] = [0..<2 ^ j] @ map (\<lambda>n. n + 2 ^ j) [0..<2 ^ j]"
    using map_add_upt [of "2 ^ j" "2 ^ j"] upt_add_eq_append [of 0 "2 ^ j" "2 ^ j"]
    by (simp add: mult_2)
  moreover have "map f (map (\<lambda>n. n + 2 ^ j) [0..<2 ^ j]) = map (\<lambda>x. x XOR f (2 ^ j)) (map f [0..<2 ^ j])"
    using assms(2) by (auto simp flip: xor_add_pow)
  ultimately show ?case using Suc by (simp add: Let_def)
qed (simp add: assms(1))

lemma crc16_bit_xor: "crc16_bit (x XOR y) = crc16_bit x XOR crc16_bit y"
  by (rule bit_word_eqI) (auto simp: crc16_bit_def bit_simps)

lemma crc16_bits_xor: "(crc16_bit ^^ k) (x XOR y) = (crc16_bit ^^ k) x XOR (crc16_bit ^^ k) y"
  by (induction k) (simp_all add: crc16_bit_xor)

lemma crc16_bits_0: "(crc16_bit ^^ k) 0 = 0"
  by (induction k) (simp_all add: crc16_bit_def)

definition crc16_byte :: "nat \<Rightarrow> 16 word" where
  "crc16_byte n = (crc16_bit ^^ 8) (push_bit 8 (word_of_nat n))"

lemma crc16_bit_eval: "crc16_bit r = (if r AND 0x8000 = 0 then push_bit 1 r else push_bit 1 r XOR 0x1021)"
proof -
  have "bit r 15 \<longleftrightarrow> r AND push_bit 15 1 \<noteq> 0" by (simp add: bit_iff_and_push_bit_not_eq_0)
  then show ?thesis by (simp add: crc16_bit_def)
qed

lemma crc16_byte_eval: "crc16_byte n = crc16_bit (crc16_bit (crc16_bit (crc16_bit
    (crc16_bit (crc16_bit (crc16_bit (crc16_bit (push_bit 8 (word_of_nat n)))))))))"
  unfolding crc16_byte_def nat_Suc by simp

lemma crc16_powers:
  "map (\<lambda>i. crc16_byte (2 ^ i)) (rev [0..<8]) =
     [0x9188, 0x48c4, 0x2462, 0x1231, 0x8108, 0x4084, 0x2042, 0x1021]"
proof -
  have "rev [0..<8] = [7, 6, 5, 4, 3, 2, 1, 0::nat]" by (simp add: upt_rec)
  then show ?thesis by (simp add: crc16_byte_eval crc16_bit_eval)
qed

lemma crc16_table: "crc16tab = map crc16_byte [0..<2 ^ 8]"
proof -
  have "map crc16_byte [0..<2 ^ 8] = xor_doubling (map (\<lambda>i. crc16_byte (2 ^ i)) (rev [0..<8]))"
    by (rule linear_table)
      (simp_all add: crc16_byte_def crc16_bits_0 of_nat_xor_eq push_bit_xor crc16_bits_xor)
  also have "\<dots> = crc16tab"
    unfolding crc16_powers crc16tab_def by (simp add: Let_def)
  finally show ?thesis ..
qed

lemma crc16_shift: "k \<le> 8 \<Longrightarrow> take_bit 8 x = x \<Longrightarrow> (crc16_bit ^^ k) x = push_bit k x"
proof (induction k)
  case (Suc k)
  have "\<not> bit (push_bit k x) 15"
  proof -
    have "8 \<le> 15 - k" using Suc.prems(1) by simp
    then have "\<not> bit (take_bit 8 x) (15 - k)" by (auto simp: bit_take_bit_iff)
    then show ?thesis using Suc.prems(2) by (simp add: bit_push_bit_iff)
  qed
  then have "crc16_bit (push_bit k x) = push_bit 1 (push_bit k x)" by (simp add: crc16_bit_def)
  also have "\<dots> = push_bit (Suc k) x" by (simp only: push_bit_push_bit) simp
  finally show ?case using Suc by simp
qed simp

lemma crc16_step:
  "push_bit 8 crc XOR crc16tab ! unat ((drop_bit 8 crc XOR ucast (b::u8)) AND 0x00FF)
     = (crc16_bit ^^ 8) (crc XOR push_bit 8 (ucast b))"
proof -
  define h :: "16 word" where "h = (drop_bit 8 crc XOR ucast b) AND 0x00FF"
  have mask: "0x00FF = (mask 8 :: 16 word)" by (simp add: mask_eq_exp_minus_1)
  have "h = take_bit 8 (drop_bit 8 crc XOR ucast b)" by (simp only: h_def mask take_bit_eq_mask)
  then have "take_bit 8 h = h" by simp
  then have "take_bit 8 (unat h) = unat h" by (metis unsigned_take_bit_eq)
  then have n: "unat h < 2 ^ 8" by (metis take_bit_nat_less_exp)
  have split: "crc XOR push_bit 8 (ucast b) = push_bit 8 h XOR take_bit 8 crc"
    by (rule bit_word_eqI) (auto simp: h_def mask bit_simps)
  have low: "(crc16_bit ^^ 8) (take_bit 8 crc) = push_bit 8 crc"
    by (subst crc16_shift) (auto intro!: bit_word_eqI simp: bit_simps)
  have "crc16tab ! unat h = crc16_byte (unat h)"
    using n unfolding crc16_table by simp
  then have "crc16tab ! unat h = (crc16_bit ^^ 8) (push_bit 8 h)"
    by (simp add: crc16_byte_def)
  then show ?thesis
    unfolding h_def [symmetric] split crc16_bits_xor low by (simp add: xor.commute)
qed

lemma crc16_is_xmodem_eq: "crc16 buf = crc16_spec buf"
proof -
  have "crc16_loop crc buf = fold (\<lambda>b r. (crc16_bit ^^ 8) (r XOR push_bit 8 (ucast b))) buf crc" for crc
    by (induction buf arbitrary: crc) (simp_all add: crc16_step del: funpow.simps)
  then show ?thesis by (simp add: crc16_def crc16_spec_def)
qed

text \<open>The table-driven \<open>crc16\<close> computes the XMODEM CRC: the remainder that the bit by bit
  division by the polynomial \<open>0x1021\<close> leaves, for every buffer.\<close>

theorem crc16_is_xmodem: "crc16 buf = crc16_spec buf"
  by (rule crc16_is_xmodem_eq)

section \<open>Hash slots\<close>

lemma index_of_eq: "s \<le> length key \<Longrightarrow> index_of c key s = s + length (takeWhile (\<lambda>b. b \<noteq> c) (drop s key))"
proof (induction "length key - s" arbitrary: s)
  case 0
  then show ?case by (subst index_of.simps) simp
next
  case (Suc n)
  then have s: "s < length key" by simp
  then have "drop s key = key ! s # drop (Suc s) key" by (rule Cons_nth_drop_Suc [symmetric])
  then show ?case using Suc s by (subst index_of.simps) (simp del: index_of.simps)
qed

text \<open>The part of a key that is hashed: the bytes between the first \<open>{\<close> and the first \<open>}\<close> after it
  when there are such bytes, the whole key otherwise.\<close>

definition hash_tag :: "bytes \<Rightarrow> bytes" where
  "hash_tag key =
     (let rest = tl (dropWhile (\<lambda>b. b \<noteq> 123) key);
          tag = takeWhile (\<lambda>b. b \<noteq> 125) rest
      in if length tag < length rest \<and> tag \<noteq> [] then tag else key)"

lemma and_3FFF: "unat (w AND 0x3FFF :: 16 word) = unat w mod 16384"
  using take_bit_eq_mask [of 14 w] unsigned_take_bit_eq [of 14 w, where 'a = nat]
  by (simp add: mask_eq_exp_minus_1 take_bit_eq_mod)

text \<open>C23. The hash slot of a key is the CRC-16 of its hash tag modulo 16384, so it is below 16384 and
  two keys with the same tag share their slot: the tag is what stands between the first \<open>{\<close> and the
  next \<open>}\<close>, when that is not empty, and the whole key otherwise.\<close>

theorem key_slot_is_tag_slot:
  "keyHashSlot key = unat (crc16_spec (hash_tag key)) mod 16384
   \<and> keyHashSlot key < 16384"
proof -
  have slot: "keyHashSlot key = unat (crc16_spec (hash_tag key)) mod 16384"
  proof -
    let ?p = "takeWhile (\<lambda>b. b \<noteq> 123) key" and ?d = "dropWhile (\<lambda>b. b \<noteq> 123) key"
    have s: "index_of 123 key 0 = length ?p" by (simp add: index_of_eq)
    have key: "key = ?p @ ?d" by simp
    show ?thesis
    proof (cases ?d)
      case Nil
      then have "length ?p = length key" using key by (metis append_Nil2)
      then have "keyHashSlot key = unat (crc16_spec key) mod 16384"
        using s by (simp add: keyHashSlot_def Let_def and_3FFF crc16_is_xmodem_eq)
      moreover have "hash_tag key = key" unfolding hash_tag_def Nil by simp
      ultimately show ?thesis by simp
    next
      case (Cons c rest)
      have ln: "length key = length ?p + length ?d"
        using arg_cong [OF key, of length] by (simp only: length_append)
      then have lp: "length ?p < length key" using Cons by simp
      have "drop (length ?p) key = c # rest" using Cons by (simp only: dropWhile_eq_drop)
      then have "tl (drop (length ?p) key) = rest" by simp
      then have dr: "drop (Suc (length ?p)) key = rest" by (simp only: drop_Suc tl_drop)
      let ?t = "takeWhile (\<lambda>b. b \<noteq> 125) rest"
      have e: "index_of 125 key (length ?p + 1) = length ?p + 1 + length ?t"
        using lp dr by (simp add: index_of_eq)
      have len: "length key = length ?p + 1 + length rest" using ln Cons by simp
      have sl: "slice (length ?p + 1) (length ?p + 1 + length ?t - length ?p - 1) key = ?t"
        using dr by (simp add: slice_def) (metis takeWhile_eq_take)
      have tl: "length ?t \<le> length rest" by (rule length_takeWhile_le)
      have ht: "hash_tag key = (if length ?t < length rest \<and> ?t \<noteq> [] then ?t else key)"
        using Cons by (simp add: hash_tag_def Let_def)
      show ?thesis
        unfolding keyHashSlot_def Let_def s e sl and_3FFF crc16_is_xmodem_eq ht using lp len tl by auto
    qed
  qed
  then show ?thesis by simp
qed

section \<open>CRC-64, bit by bit\<close>

definition POLY :: "64 word" where "POLY = 0xad93d23594c935a9"

fun crc_reflect_loop :: "nat \<Rightarrow> 64 word \<Rightarrow> 64 word \<Rightarrow> 64 word" where
  "crc_reflect_loop 0 ret data = ret"
| "crc_reflect_loop (Suc n) ret data =
     (let data = drop_bit 1 data in crc_reflect_loop n (push_bit 1 ret OR (data AND 0x01)) data)"

definition crc_reflect :: "64 word \<Rightarrow> nat \<Rightarrow> 64 word" where
  "crc_reflect data data_len = crc_reflect_loop (data_len - 1) (data AND 0x01) data"

text \<open>One turn of the inner loop: \<open>i\<close> runs over the eight bits of the byte, the lowest first.\<close>

definition crc64_bit :: "u8 \<Rightarrow> nat \<Rightarrow> 64 word \<Rightarrow> 64 word" where
  "crc64_bit c i crc =
     (let b = (crc AND 0x8000000000000000 \<noteq> 0);
          b = (if c AND push_bit i 1 \<noteq> 0 then \<not> b else b);
          crc = push_bit 1 crc
      in if b then crc XOR POLY else crc)"

definition crc64_bbb :: "64 word \<Rightarrow> bytes \<Rightarrow> 64 word" where
  "crc64_bbb crc data = crc_reflect (fold (\<lambda>c crc. fold (crc64_bit c) [0..<8] crc) data crc) 64"

section \<open>CRC-64, eight bytes at a time\<close>

definition crcspeed64little_init :: "(64 word \<Rightarrow> bytes \<Rightarrow> 64 word) \<Rightarrow> 64 word list list" where
  "crcspeed64little_init crcfn =
     (let row0 = map (\<lambda>n. crcfn 0 [word_of_nat n]) [0..<256];
          nested = (\<lambda>crc. row0 ! unat (crc AND 0xff) XOR drop_bit 8 crc)
      in map (\<lambda>k. map (\<lambda>n. (nested ^^ k) (row0 ! n)) [0..<256]) [0..<8])"

text \<open>\<open>rev8\<close> reverses the bytes, by the portable masks and shifts.\<close>

definition rev8 :: "64 word \<Rightarrow> 64 word" where
  "rev8 a =
     (let m = 0xff00ff00ff00ff;
          a = (drop_bit 8 a AND m) OR push_bit 8 (a AND m);
          m = 0xffff0000ffff;
          a = (drop_bit 16 a AND m) OR push_bit 16 (a AND m)
      in drop_bit 32 a OR push_bit 32 a)"

definition crcspeed64big_init :: "(64 word \<Rightarrow> bytes \<Rightarrow> 64 word) \<Rightarrow> 64 word list list" where
  "crcspeed64big_init fn = map (map rev8) (crcspeed64little_init fn)"

text \<open>A byte at a time; the alignment loop also stops at an address that is a multiple of 8.\<close>

definition little_byte :: "64 word list list \<Rightarrow> u8 \<Rightarrow> 64 word \<Rightarrow> 64 word" where
  "little_byte t b crc = t ! 0 ! unat ((crc XOR ucast b) AND 0xff) XOR drop_bit 8 crc"

definition big_byte :: "64 word list list \<Rightarrow> u8 \<Rightarrow> 64 word \<Rightarrow> 64 word" where
  "big_byte t b crc = t ! 0 ! unat (drop_bit 56 crc XOR ucast b) XOR push_bit 8 crc"

fun crc_align :: "(u8 \<Rightarrow> 64 word \<Rightarrow> 64 word) \<Rightarrow> nat \<Rightarrow> bytes \<Rightarrow> 64 word \<Rightarrow> bytes \<times> 64 word" where
  "crc_align step addr [] crc = ([], crc)"
| "crc_align step addr (b # buf) crc =
     (if addr mod 8 \<noteq> 0 then crc_align step (addr + 1) buf (step b crc) else (b # buf, crc))"

text \<open>The 64 bit load at \<open>next\<close>, by the host's byte order.\<close>

definition little_word :: "64 word list list \<Rightarrow> bytes \<Rightarrow> 64 word \<Rightarrow> 64 word" where
  "little_word t w crc =
     (let crc = crc XOR word_of_nat (nat_of_le w) in
      t ! 7 ! unat (crc AND 0xff) XOR
      t ! 6 ! unat (drop_bit 8 crc AND 0xff) XOR
      t ! 5 ! unat (drop_bit 16 crc AND 0xff) XOR
      t ! 4 ! unat (drop_bit 24 crc AND 0xff) XOR
      t ! 3 ! unat (drop_bit 32 crc AND 0xff) XOR
      t ! 2 ! unat (drop_bit 40 crc AND 0xff) XOR
      t ! 1 ! unat (drop_bit 48 crc AND 0xff) XOR
      t ! 0 ! unat (drop_bit 56 crc))"

definition big_word :: "64 word list list \<Rightarrow> bytes \<Rightarrow> 64 word \<Rightarrow> 64 word" where
  "big_word t w crc =
     (let crc = crc XOR word_of_nat (nat_of_le (rev w)) in
      t ! 0 ! unat (crc AND 0xff) XOR
      t ! 1 ! unat (drop_bit 8 crc AND 0xff) XOR
      t ! 2 ! unat (drop_bit 16 crc AND 0xff) XOR
      t ! 3 ! unat (drop_bit 24 crc AND 0xff) XOR
      t ! 4 ! unat (drop_bit 32 crc AND 0xff) XOR
      t ! 5 ! unat (drop_bit 40 crc AND 0xff) XOR
      t ! 6 ! unat (drop_bit 48 crc AND 0xff) XOR
      t ! 7 ! unat (drop_bit 56 crc))"

function crc_words :: "(bytes \<Rightarrow> 64 word \<Rightarrow> 64 word) \<Rightarrow> bytes \<Rightarrow> 64 word \<Rightarrow> bytes \<times> 64 word" where
  "crc_words step buf crc =
     (if length buf \<ge> 8 then crc_words step (drop 8 buf) (step (take 8 buf) crc) else (buf, crc))"
  by pat_completeness auto
termination by (relation "measure (\<lambda>(step, buf, crc). length buf)") auto

declare crc_words.simps [simp del]

definition crcspeed64little :: "64 word list list \<Rightarrow> 64 word \<Rightarrow> nat \<Rightarrow> bytes \<Rightarrow> 64 word" where
  "crcspeed64little t crc addr buf =
     (case crc_align (little_byte t) addr buf crc of
        (buf, crc) \<Rightarrow>
          (case crc_words (little_word t) buf crc of (buf, crc) \<Rightarrow> fold (little_byte t) buf crc))"

definition crcspeed64big :: "64 word list list \<Rightarrow> 64 word \<Rightarrow> nat \<Rightarrow> bytes \<Rightarrow> 64 word" where
  "crcspeed64big t crc addr buf =
     (let crc = rev8 crc in
      case crc_align (big_byte t) addr buf crc of
        (buf, crc) \<Rightarrow>
          (case crc_words (big_word t) buf crc of (buf, crc) \<Rightarrow> rev8 (fold (big_byte t) buf crc)))"

text \<open>\<open>little\<close> is whether the host is little endian.\<close>

definition crcspeed64native :: "bool \<Rightarrow> 64 word list list \<Rightarrow> 64 word \<Rightarrow> nat \<Rightarrow> bytes \<Rightarrow> 64 word" where
  "crcspeed64native little t crc addr buf =
     (if little then crcspeed64little t crc addr buf else crcspeed64big t crc addr buf)"

definition crcspeed64native_init :: "bool \<Rightarrow> (64 word \<Rightarrow> bytes \<Rightarrow> 64 word) \<Rightarrow> 64 word list list" where
  "crcspeed64native_init little fn = (if little then crcspeed64little_init fn else crcspeed64big_init fn)"

definition crc64_init :: "bool \<Rightarrow> 64 word list list" where
  "crc64_init little = crcspeed64native_init little crc64_bbb"

definition crc64 :: "bool \<Rightarrow> 64 word \<Rightarrow> nat \<Rightarrow> bytes \<Rightarrow> 64 word" where
  "crc64 little crc addr s = crcspeed64native little (crc64_init little) crc addr s"

section \<open>The two CRC-64 agree\<close>

declare push_bit_Suc [simp del]

text \<open>The reflected register: one zero bit, and a message byte.\<close>

definition crc64_zero :: "64 word \<Rightarrow> 64 word" where
  "crc64_zero r = drop_bit 1 r XOR (if bit r 0 then crc_reflect POLY 64 else 0)"

definition crc64_spec :: "bytes \<Rightarrow> 64 word \<Rightarrow> 64 word" where
  "crc64_spec data r = fold (\<lambda>b r. (crc64_zero ^^ 8) (r XOR ucast b)) data r"

lemma bit_reflect_loop:
  "n < 64 \<Longrightarrow> bit (crc_reflect_loop k ret data) n \<longleftrightarrow> (if n < k then bit data (k - n) else bit ret (n - k))"
proof (induction k arbitrary: ret data)
  case (Suc k)
  consider "n < k" | "n = k" | "k < n" by linarith
  then show ?case
  proof cases
    case 1
    then have "Suc k - n = Suc (k - n)" by simp
    with 1 Suc show ?thesis by (simp add: Let_def bit_drop_bit_eq)
  next
    case 2
    then show ?thesis using Suc by (simp add: Let_def bit_simps)
  next
    case 3
    then have "n - k \<noteq> 0" "n - k - 1 = n - Suc k" by simp_all
    with 3 Suc show ?thesis by (auto simp add: Let_def bit_simps)
  qed
qed simp

lemma bit_crc_reflect: "bit (crc_reflect x 64) n \<longleftrightarrow> n < 64 \<and> bit x (63 - n)"
proof (cases "n < 64")
  case True
  then show ?thesis
    using bit_reflect_loop [OF True, of 63 "x AND 1" x]
    by (cases "n = 63") (auto simp: crc_reflect_def bit_simps)
next
  case False
  then show ?thesis using bit_imp_le_length [of "crc_reflect x 64" n] by auto
qed

lemma crc_reflect_xor: "crc_reflect (x XOR y) 64 = crc_reflect x 64 XOR crc_reflect y 64"
  by (rule bit_word_eqI) (auto simp: bit_crc_reflect bit_xor_iff)

lemma crc_reflect_push: "crc_reflect (push_bit 1 x) 64 = drop_bit 1 (crc_reflect x 64)"
proof (rule bit_word_eqI)
  fix n assume n: "n < LENGTH(64)"
  show "bit (crc_reflect (push_bit 1 x) 64) n \<longleftrightarrow> bit (drop_bit 1 (crc_reflect x 64)) n"
  proof (cases "n = 63")
    case False
    then have "63 - n = Suc (63 - Suc n)" using n by simp
    with False n show ?thesis by (auto simp add: bit_crc_reflect bit_push_bit_iff bit_drop_bit_eq)
  qed (simp add: bit_crc_reflect bit_push_bit_iff bit_drop_bit_eq)
qed

lemma crc_reflect_reflect: "crc_reflect (crc_reflect x 64) 64 = x"
  by (rule bit_word_eqI) (auto simp: bit_crc_reflect)

lemma crc_reflect_0: "crc_reflect 0 64 = 0"
  by (rule bit_word_eqI) (simp add: bit_crc_reflect)

lemma crc64_zero_xor: "crc64_zero (x XOR y) = crc64_zero x XOR crc64_zero y"
  by (rule bit_word_eqI) (auto simp: crc64_zero_def bit_simps)

lemma crc64_zeros_xor: "(crc64_zero ^^ k) (x XOR y) = (crc64_zero ^^ k) x XOR (crc64_zero ^^ k) y"
  by (induction k) (simp_all add: crc64_zero_xor)

lemma crc64_zeros_0: "(crc64_zero ^^ k) 0 = 0"
  by (induction k) (simp_all add: crc64_zero_def)

lemma crc64_zeros_shift: "k \<le> 64 \<Longrightarrow> take_bit (64 - k) x = x \<Longrightarrow> (crc64_zero ^^ k) (push_bit k x) = x"
proof (induction k)
  case (Suc k)
  have "crc64_zero (push_bit (Suc k) x) = push_bit k x"
  proof -
    have "drop_bit 1 (push_bit (Suc k) x) = push_bit k x"
    proof (rule bit_word_eqI)
      fix n assume "n < LENGTH(64)"
      moreover have "\<not> bit x (n - k)" if "n = 63" "k \<le> n"
      proof -
        have "\<not> bit (take_bit (64 - Suc k) x) (n - k)" using that by (auto simp: bit_take_bit_iff)
        then show ?thesis using Suc.prems(2) by simp
      qed
      ultimately show "bit (drop_bit 1 (push_bit (Suc k) x)) n \<longleftrightarrow> bit (push_bit k x) n"
        by (cases "n = 63") (auto simp: bit_drop_bit_eq bit_push_bit_iff)
    qed
    then show ?thesis by (simp add: crc64_zero_def bit_push_bit_iff)
  qed
  moreover have "take_bit (64 - k) x = x"
  proof -
    have "take_bit (64 - k) (take_bit (64 - Suc k) x) = take_bit (64 - Suc k) x"
      by (simp add: min_def)
    then show ?thesis by (simp only: Suc.prems(2))
  qed
  ultimately show ?case using Suc by (simp add: funpow_swap1)
qed simp

lemma crc64_bit_reflect:
  "i < 8 \<Longrightarrow> crc_reflect (crc64_bit c i crc) 64
     = crc64_zero (crc_reflect crc 64 XOR (if bit c i then 1 else 0))"
proof -
  assume i: "i < 8"
  have b: "crc AND 0x8000000000000000 \<noteq> 0 \<longleftrightarrow> bit crc 63"
    using bit_iff_and_push_bit_not_eq_0 [of crc 63] by simp
  have c: "c AND push_bit i 1 \<noteq> 0 \<longleftrightarrow> bit c i"
    by (simp add: bit_iff_and_push_bit_not_eq_0)
  have h: "drop_bit 1 (1 :: 64 word) = 0" "bit (crc_reflect crc 64) 0 = bit crc 63"
    by (simp_all add: bit_crc_reflect)
  show ?thesis
    unfolding crc64_bit_def Let_def b c crc64_zero_def
    by (auto simp: crc_reflect_xor crc_reflect_push [simplified] h bit_xor_iff)
qed

lemma crc64_byte_reflect:
  "k \<le> 8 \<Longrightarrow> crc_reflect (fold (crc64_bit c) [0..<k] crc) 64
     = (crc64_zero ^^ k) (crc_reflect crc 64 XOR ucast (take_bit k c))"
proof (induction k)
  case (Suc k)
  let ?b = "if bit c k then 1 else 0 :: 64 word"
  have b: "(crc64_zero ^^ k) (push_bit k ?b) = ?b"
    using Suc.prems by (intro crc64_zeros_shift) (auto intro!: bit_word_eqI simp: bit_simps)
  have eq: "ucast (take_bit k c) XOR push_bit k ?b = (ucast (take_bit (Suc k) c) :: 64 word)"
    using Suc.prems by (intro bit_word_eqI) (auto simp: bit_simps less_Suc_eq)
  have "(crc64_zero ^^ k) (crc_reflect crc 64 XOR ucast (take_bit (Suc k) c))
      = (crc64_zero ^^ k) (crc_reflect crc 64 XOR ucast (take_bit k c)) XOR ?b"
    by (simp only: eq [symmetric] crc64_zeros_xor b xor.assoc)
  then show ?case
    using Suc crc64_bit_reflect [of k c "fold (crc64_bit c) [0..<k] crc"] by simp
qed simp

lemma crc64_bbb_spec: "crc64_bbb crc data = crc64_spec data (crc_reflect crc 64)"
proof -
  have "crc_reflect (fold (\<lambda>c crc. fold (crc64_bit c) [0..<8] crc) data crc) 64
      = crc64_spec data (crc_reflect crc 64)"
  proof (induction data arbitrary: crc)
    case (Cons c data)
    have "take_bit 8 c = c" using take_bit_length_eq [of c] by simp
    then have "crc_reflect (fold (crc64_bit c) [0..<8] crc) 64
        = (crc64_zero ^^ 8) (crc_reflect crc 64 XOR ucast c)"
      using crc64_byte_reflect [of 8 c crc] by simp
    then show ?case using Cons by (simp add: crc64_spec_def del: funpow.simps upt_Suc upt_rec_numeral)
  qed (simp add: crc64_spec_def)
  then show ?thesis by (simp only: crc64_bbb_def)
qed

lemma mask_ff: "(0xff :: 64 word) = mask 8"
  by (simp add: mask_eq_exp_minus_1)

text \<open>Eight zero bits split off the lowest byte.\<close>

lemma crc64_split: "(crc64_zero ^^ (8 + k)) x = (crc64_zero ^^ (8 + k)) (x AND 0xff) XOR (crc64_zero ^^ k) (drop_bit 8 x)"
proof -
  have x: "x = (x AND 0xff) XOR push_bit 8 (drop_bit 8 x)"
    unfolding mask_ff by (rule bit_word_eqI) (auto simp: bit_simps)
  have "take_bit (64 - 8) (drop_bit 8 x) = drop_bit 8 x"
  proof (rule bit_word_eqI)
    fix n
    have "\<not> bit x (8 + n)" if "\<not> n < 56" using that bit_imp_le_length [of x "8 + n"] by auto
    then show "bit (take_bit (64 - 8) (drop_bit 8 x)) n \<longleftrightarrow> bit (drop_bit 8 x) n"
      by (auto simp: bit_take_bit_iff bit_drop_bit_eq)
  qed
  then have "(crc64_zero ^^ 8) (push_bit 8 (drop_bit 8 x)) = drop_bit 8 x"
    by (intro crc64_zeros_shift) simp_all
  then have "(crc64_zero ^^ (8 + k)) (push_bit 8 (drop_bit 8 x)) = (crc64_zero ^^ k) (drop_bit 8 x)"
    by (simp only: funpow_add add.commute [of 8 k] comp_apply)
  then show ?thesis using crc64_zeros_xor [of "8 + k" "x AND 0xff" "push_bit 8 (drop_bit 8 x)"] x by simp
qed

text \<open>The lookup tables hold the registers after a byte and up to seven zero bytes.\<close>

lemma crc64_table:
  assumes "k < 8" "n < 256"
  shows "crcspeed64little_init crc64_bbb ! k ! n = (crc64_zero ^^ (8 * Suc k)) (word_of_nat n)"
proof -
  let ?row0 = "map (\<lambda>n. crc64_bbb 0 [word_of_nat n]) [0..<256]"
  let ?next = "\<lambda>crc :: 64 word. ?row0 ! unat (crc AND 0xff) XOR drop_bit 8 crc"
  have row0: "?row0 ! n = (crc64_zero ^^ 8) (word_of_nat n)" if "n < 256" for n
  proof -
    have "(ucast (word_of_nat n :: u8) :: 64 word) = word_of_nat n"
      using that by (simp add: word_unat_eq_iff unat_of_nat unsigned_ucast_eq take_bit_nat_eq_self)
    then show ?thesis using that
      by (simp add: crc64_bbb_spec crc_reflect_0 crc64_spec_def del: funpow.simps of_nat_unat)
  qed
  have nx: "?next crc = (crc64_zero ^^ 8) crc" for crc
  proof -
    have "unat (crc AND 0xff) < 256"
      using take_bit_nat_less_exp [of 8 "unat crc"] unsigned_take_bit_eq [of 8 crc, where 'a = nat]
      by (simp add: mask_ff take_bit_eq_mask)
    then have "?row0 ! unat (crc AND 0xff) = (crc64_zero ^^ 8) (crc AND 0xff)"
      using row0 [of "unat (crc AND 0xff)"] by (simp del: funpow.simps upt_rec_numeral)
    then show ?thesis using crc64_split [of 0 crc] by simp
  qed
  have "(?next ^^ k) x = (crc64_zero ^^ (8 * k)) x" for k x
    by (induction k) (simp_all only: funpow.simps nx comp_apply mult_0_right mult_Suc_right funpow_add)
  then have "(?next ^^ k) (?row0 ! n) = (crc64_zero ^^ (8 * Suc k)) (word_of_nat n)"
    using row0 [OF assms(2)] by (simp only: mult_Suc_right add.commute [of 8] funpow_add comp_apply)
  then show ?thesis
    using assms by (simp add: crcspeed64little_init_def Let_def del: funpow.simps upt_rec_numeral)
qed

abbreviation crc64_tab :: "64 word list list" where
  "crc64_tab \<equiv> crcspeed64little_init crc64_bbb"

lemma unat_ff: "unat (w AND 0xff :: 64 word) < 256"
  using take_bit_nat_less_exp [of 8 "unat w"] unsigned_take_bit_eq [of 8 w, where 'a = nat]
  by (simp add: mask_ff take_bit_eq_mask)

lemma crc64_tab_lookup:
  "k < 8 \<Longrightarrow> crc64_tab ! k ! unat (w AND 0xff) = (crc64_zero ^^ (8 * Suc k)) (w AND 0xff)"
  using crc64_table [OF _ unat_ff, of k w] by simp

lemma little_byte_eq: "little_byte crc64_tab b crc = (crc64_zero ^^ 8) (crc XOR ucast b)"
proof -
  have "drop_bit 8 (crc XOR ucast b) = drop_bit 8 crc"
    by (rule bit_word_eqI) (auto simp: bit_simps dest: bit_imp_le_length)
  then show ?thesis
    using crc64_split [of 0 "crc XOR ucast b"] crc64_tab_lookup [of 0 "crc XOR ucast b"]
    by (simp add: little_byte_def)
qed

lemma nat_of_le_Cons_xor: "nat_of_le (b # bs) = unat b XOR push_bit 8 (nat_of_le bs)"
proof -
  have "unat b AND push_bit 8 (nat_of_le bs) = 0"
    by (rule bit_eqI) (auto simp: bit_simps dest: bit_imp_le_length)
  then show ?thesis
    using disjunctive_add_eq_xor [of "unat b" "push_bit 8 (nat_of_le bs)"] by (simp add: push_bit_eq_mult)
qed

text \<open>The lowest byte and the rest of a little-endian number.\<close>

lemma word_of_le_Cons:
  "nat_of_le bs < 2 ^ 56 \<Longrightarrow> (word_of_nat (nat_of_le (b # bs)) :: 64 word)
     = ucast b XOR push_bit 8 (word_of_nat (nat_of_le bs))"
proof -
  have e: "nat_of_le (b # bs) = unat b XOR push_bit 8 (nat_of_le bs)" by (rule nat_of_le_Cons_xor)
  show ?thesis unfolding e by (simp only: of_nat_xor_eq of_nat_push_bit) simp
qed

lemma crc64_bytes_word:
  "length w \<le> 8 \<Longrightarrow> fold (little_byte crc64_tab) w crc
     = (crc64_zero ^^ (8 * length w)) (crc XOR word_of_nat (nat_of_le w))"
proof (induction w arbitrary: crc)
  case (Cons b w)
  let ?W = "word_of_nat (nat_of_le w) :: 64 word"
  have lt: "nat_of_le w < 2 ^ 56"
  proof -
    have "nat_of_le w < 256 ^ length w" by (rule nat_of_le_less)
    also have "\<dots> \<le> 256 ^ 7" using Cons.prems by (intro power_increasing) auto
    finally show ?thesis by simp
  qed
  have "take_bit 56 ?W = ?W"
  proof -
    have "take_bit 56 (nat_of_le w) = nat_of_le w" using lt by (simp add: take_bit_nat_eq_self)
    then show ?thesis by (metis take_bit_of_nat of_nat_take_bit)
  qed
  then have z: "(crc64_zero ^^ 8) (push_bit 8 ?W) = ?W" by (intro crc64_zeros_shift) simp_all
  have "fold (little_byte crc64_tab) (b # w) crc
      = (crc64_zero ^^ (8 * length w)) ((crc64_zero ^^ 8) (crc XOR ucast b) XOR ?W)"
  proof -
    have "length w \<le> 8" using Cons.prems by simp
    then show ?thesis
      unfolding fold_simps little_byte_eq [of b, symmetric] by (rule Cons.IH)
  qed
  also have "(crc64_zero ^^ 8) (crc XOR ucast b) XOR ?W
      = (crc64_zero ^^ 8) (crc XOR word_of_nat (nat_of_le (b # w)))"
    unfolding word_of_le_Cons [OF lt] by (simp only: crc64_zeros_xor z xor.assoc)
  finally show ?case
    by (simp only: length_Cons mult_Suc_right funpow_add comp_apply add.commute [of 8])
qed simp

lemma crc64_split8:
  "(crc64_zero ^^ 64) x = crc64_tab ! 7 ! unat (x AND 0xff) XOR
      crc64_tab ! 6 ! unat (drop_bit 8 x AND 0xff) XOR
      crc64_tab ! 5 ! unat (drop_bit 16 x AND 0xff) XOR
      crc64_tab ! 4 ! unat (drop_bit 24 x AND 0xff) XOR
      crc64_tab ! 3 ! unat (drop_bit 32 x AND 0xff) XOR
      crc64_tab ! 2 ! unat (drop_bit 40 x AND 0xff) XOR
      crc64_tab ! 1 ! unat (drop_bit 48 x AND 0xff) XOR
      crc64_tab ! 0 ! unat (drop_bit 56 x AND 0xff)"
proof -
  have s: "(crc64_zero ^^ (8 * Suc k)) y = crc64_tab ! k ! unat (y AND 0xff) XOR
      (crc64_zero ^^ (8 * k)) (drop_bit 8 y)" if "k < 8" for k y
    using crc64_split [of "8 * k" y] crc64_tab_lookup [OF that, of y] by (simp only: mult_Suc_right)
  have z: "drop_bit 64 x = 0" by (rule bit_word_eqI) (auto simp: bit_simps dest: bit_imp_le_length)
  show ?thesis
    using s [of 7 x] s [of 6 "drop_bit 8 x"] s [of 5 "drop_bit 16 x"] s [of 4 "drop_bit 24 x"]
      s [of 3 "drop_bit 32 x"] s [of 2 "drop_bit 40 x"] s [of 1 "drop_bit 48 x"] s [of 0 "drop_bit 56 x"] z
    by (simp add: xor.assoc del: funpow.simps)
qed

lemma drop_56: "drop_bit 56 x AND 0xff = (drop_bit 56 x :: 64 word)"
  unfolding mask_ff by (rule bit_word_eqI) (auto simp: bit_simps dest: bit_imp_le_length)

lemma little_word_eq: "length w = 8 \<Longrightarrow> little_word crc64_tab w crc = fold (little_byte crc64_tab) w crc"
proof -
  assume "length w = 8"
  then have "fold (little_byte crc64_tab) w crc = (crc64_zero ^^ 64) (crc XOR word_of_nat (nat_of_le w))"
    using crc64_bytes_word [of w crc] by (simp del: funpow.simps)
  then show ?thesis by (simp only: little_word_def Let_def crc64_split8 drop_56)
qed

text \<open>The alignment loop and the word loop only cut the buffer.\<close>

lemma crc_align_fold:
  "crc_align step addr buf crc = (buf', crc') \<Longrightarrow> fold step buf' crc' = fold step buf crc"
  by (induction step addr buf crc rule: crc_align.induct) (auto split: if_splits)

lemma crc_words_fold:
  assumes "\<And>w crc. length w = 8 \<Longrightarrow> wstep w crc = fold step w crc"
  shows "crc_words wstep buf crc = (buf', crc') \<Longrightarrow> fold step buf' crc' = fold step buf crc"
proof (induction "length buf" arbitrary: buf crc rule: less_induct)
  case less
  show ?case
  proof (cases "length buf \<ge> 8")
    case True
    then have "crc_words wstep (drop 8 buf) (fold step (take 8 buf) crc) = (buf', crc')"
      using less.prems assms by (subst (asm) crc_words.simps) simp
    then have "fold step buf' crc' = fold step (drop 8 buf) (fold step (take 8 buf) crc)"
      using True by (intro less.hyps) auto
    also have "\<dots> = fold step (take 8 buf @ drop 8 buf) crc" by (simp only: fold_append comp_apply)
    finally show ?thesis by simp
  next
    case False
    then show ?thesis using less.prems by (subst (asm) crc_words.simps) simp
  qed
qed

lemma little_spec: "crcspeed64little crc64_tab crc addr buf = crc64_spec buf crc"
proof -
  have "crcspeed64little crc64_tab crc addr buf = fold (little_byte crc64_tab) buf crc"
    unfolding crcspeed64little_def
    using crc_words_fold [of "little_word crc64_tab" "little_byte crc64_tab"] little_word_eq crc_align_fold
    by (auto split: prod.split)
  then show ?thesis by (simp add: crc64_spec_def little_byte_eq [abs_def] del: funpow.simps)
qed


section \<open>The host's byte order\<close>

lemma bit_nat_of_le: "bit (nat_of_le bs) n \<longleftrightarrow> n div 8 < length bs \<and> bit (bs ! (n div 8)) (n mod 8)"
proof (induction bs arbitrary: n)
  case (Cons b bs)
  have e: "nat_of_le (b # bs) = unat b XOR push_bit 8 (nat_of_le bs)" by (rule nat_of_le_Cons_xor)
  show ?case
  proof (cases "n < 8")
    case True
    then show ?thesis unfolding e by (simp add: bit_simps)
  next
    case False
    then have "\<not> bit (unat b) n" using bit_imp_le_length [of b n] by (auto simp: bit_simps)
    moreover have "n div 8 = Suc ((n - 8) div 8)" "n mod 8 = (n - 8) mod 8"
      using False by (simp_all add: le_div_geq le_mod_geq)
    ultimately show ?thesis using False Cons [of "n - 8"] unfolding e by (simp add: bit_simps)
  qed
qed simp

text \<open>A bit of a 64 bit word by its byte and its place in the byte.\<close>

lemma bytes_eqI:
  fixes x y :: "64 word"
  assumes "\<And>i j. i < 8 \<Longrightarrow> j < 8 \<Longrightarrow> bit x (8 * i + j) = bit y (8 * i + j)"
  shows "x = y"
proof (rule bit_word_eqI)
  fix n assume "n < LENGTH(64)"
  then have "n div 8 < 8" "n mod 8 < 8" by auto
  then have "bit x (8 * (n div 8) + n mod 8) = bit y (8 * (n div 8) + n mod 8)" by (rule assms)
  then show "bit x n = bit y n" by simp
qed

lemma rev8_masks:
  "(0xff00ff00ff00ff :: 64 word) = mask 8 OR push_bit 16 (mask 8) OR push_bit 32 (mask 8) OR push_bit 48 (mask 8)"
  "(0xffff0000ffff :: 64 word) = mask 16 OR push_bit 32 (mask 16)"
  by (simp_all add: mask_eq_exp_minus_1 push_bit_eq_mult)

lemma bit_rev8: "i < 8 \<Longrightarrow> j < 8 \<Longrightarrow> bit (rev8 a) (8 * i + j) \<longleftrightarrow> bit a (8 * (7 - i) + j)"
proof -
  assume i: "i < 8" and j: "j < 8"
  from i consider "i = 0" | "i = 1" | "i = 2" | "i = 3" | "i = 4" | "i = 5" | "i = 6" | "i = 7" by linarith
  then show ?thesis
    by cases (insert j, simp_all add: rev8_def rev8_masks bit_simps)
qed

lemma rev8_xor: "rev8 (x XOR y) = rev8 x XOR rev8 y"
  by (rule bytes_eqI) (simp add: bit_rev8 bit_xor_iff)

lemma rev8_rev8: "rev8 (rev8 x) = x"
proof (rule bytes_eqI)
  fix i j :: nat assume "i < 8" "j < 8"
  then show "bit (rev8 (rev8 x)) (8 * i + j) = bit x (8 * i + j)"
    using bit_rev8 [of "7 - i" j x] by (simp add: bit_rev8)
qed

lemma rev8_byte:
  assumes "k < 8" shows "drop_bit (8 * (7 - k)) (rev8 x) AND 0xff = drop_bit (8 * k) x AND 0xff"
  unfolding mask_ff
proof (rule bit_word_eqI)
  fix n
  show "bit (drop_bit (8 * (7 - k)) (rev8 x) AND mask 8) n = bit (drop_bit (8 * k) x AND mask 8) n"
    using bit_rev8 [of "7 - k" n x] assms by (cases "n < 8") (simp_all add: bit_simps)
qed

lemma rev8_push: "push_bit 8 (rev8 x) = rev8 (drop_bit 8 x)"
proof (rule bytes_eqI)
  fix i j :: nat assume ij: "i < 8" "j < 8"
  show "bit (push_bit 8 (rev8 x)) (8 * i + j) \<longleftrightarrow> bit (rev8 (drop_bit 8 x)) (8 * i + j)"
  proof (cases i)
    case 0
    then show ?thesis using ij bit_imp_le_length [of x "64 + j"] bit_rev8 [of 0 j "drop_bit 8 x"] by (auto simp: bit_simps)
  next
    case (Suc k)
    then have "8 * (7 - k) = 8 + 8 * (7 - i)" using ij by simp
    then have "bit (rev8 x) (8 * k + j) = bit x (8 + (8 * (7 - i) + j))"
      using Suc ij bit_rev8 [of k j x] by (simp add: add.assoc)
    then show ?thesis using Suc ij bit_rev8 [of i j "drop_bit 8 x"] by (simp add: bit_simps)
  qed
qed

lemma rev8_load: "length w = 8 \<Longrightarrow> rev8 (word_of_nat (nat_of_le w)) = word_of_nat (nat_of_le (rev w))"
proof (rule bytes_eqI)
  fix i j :: nat assume w: "length w = 8" and ij: "i < 8" "j < 8"
  have "bit (word_of_nat (nat_of_le v) :: 64 word) (8 * l + j) = bit (v ! l) j" if "l < 8" "length v = 8" for l v
    using that ij by (simp add: bit_of_nat_iff bit_nat_of_le bit_simps)
  from this [of "7 - i" w] this [of i "rev w"]
  show "bit (rev8 (word_of_nat (nat_of_le w))) (8 * i + j) = bit (word_of_nat (nat_of_le (rev w)) :: 64 word) (8 * i + j)"
    using w ij bit_rev8 [of i j "word_of_nat (nat_of_le w)"] by (simp add: rev_nth)
qed

text \<open>The big-endian routine runs on the byte-reversed register with byte-reversed tables.\<close>

abbreviation crc64_rtab :: "64 word list list" where
  "crc64_rtab \<equiv> crcspeed64big_init crc64_bbb"

lemma crc64_rtab_nth:
  assumes "k < 8" "n < 256" shows "crc64_rtab ! k ! n = rev8 (crc64_tab ! k ! n)"
proof -
  have "length crc64_tab = 8" "\<And>k. k < 8 \<Longrightarrow> length (crc64_tab ! k) = 256"
    by (simp_all add: crcspeed64little_init_def Let_def del: upt_rec_numeral)
  then show ?thesis using assms by (simp add: crcspeed64big_init_def)
qed

lemma rev8_top: "drop_bit 56 (rev8 x) = x AND 0xff"
  using rev8_byte [of 0 x] by (simp add: drop_56)

lemma rev8_bytes:
  "rev8 x AND 0xff = drop_bit 56 x"
  "drop_bit 8 (rev8 x) AND 0xff = drop_bit 48 x AND 0xff"
  "drop_bit 16 (rev8 x) AND 0xff = drop_bit 40 x AND 0xff"
  "drop_bit 24 (rev8 x) AND 0xff = drop_bit 32 x AND 0xff"
  "drop_bit 32 (rev8 x) AND 0xff = drop_bit 24 x AND 0xff"
  "drop_bit 40 (rev8 x) AND 0xff = drop_bit 16 x AND 0xff"
  "drop_bit 48 (rev8 x) AND 0xff = drop_bit 8 x AND 0xff"
  using rev8_byte [of 7 x] rev8_byte [of 6 x] rev8_byte [of 5 x] rev8_byte [of 4 x]
    rev8_byte [of 3 x] rev8_byte [of 2 x] rev8_byte [of 1 x] by (simp_all add: drop_56)

lemma big_byte_rev: "big_byte crc64_rtab b (rev8 crc) = rev8 (little_byte crc64_tab b crc)"
proof -
  have "drop_bit 56 (rev8 crc) XOR ucast b = (crc XOR ucast b) AND 0xff"
    unfolding rev8_top mask_ff by (rule bit_word_eqI) (auto simp: bit_simps dest: bit_imp_le_length)
  then show ?thesis
    by (simp add: big_byte_def little_byte_def crc64_rtab_nth [OF _ unat_ff] rev8_xor rev8_push)
qed

lemma big_word_rev:
  assumes "length w = 8" shows "big_word crc64_rtab w (rev8 crc) = rev8 (little_word crc64_tab w crc)"
proof -
  let ?x = "crc XOR word_of_nat (nat_of_le w)"
  have x: "rev8 crc XOR word_of_nat (nat_of_le (rev w)) = rev8 ?x"
    using rev8_load [OF assms] by (simp add: rev8_xor)
  have t: "unat (drop_bit 56 ?x) < 256" using unat_ff [of "drop_bit 56 ?x"] by (simp only: drop_56)
  show ?thesis
    unfolding big_word_def little_word_def Let_def x rev8_top rev8_bytes
    using t by (simp add: crc64_rtab_nth unat_ff rev8_xor xor.commute xor.left_commute)
qed

lemma big_byte_fold: "fold (big_byte crc64_rtab) buf (rev8 crc) = rev8 (fold (little_byte crc64_tab) buf crc)"
  by (induction buf arbitrary: crc) (simp_all add: big_byte_rev)

lemma big_word_fold: "length w = 8 \<Longrightarrow> big_word crc64_rtab w crc = fold (big_byte crc64_rtab) w crc"
  using big_byte_fold [of w "rev8 crc"] big_word_rev [of w "rev8 crc"]
  by (simp add: rev8_rev8 little_word_eq)

lemma big_little: "crcspeed64big crc64_rtab crc addr buf = fold (little_byte crc64_tab) buf crc"
  unfolding crcspeed64big_def Let_def
  using crc_words_fold [of "big_word crc64_rtab" "big_byte crc64_rtab"] big_word_fold crc_align_fold
  by (auto split: prod.split simp: big_byte_fold rev8_rev8)

lemma crc64_eq_spec: "crc64 little crc addr s = crc64_spec s crc"
  using little_spec [of crc addr s]
  by (simp add: crc64_def crc64_init_def crcspeed64native_init_def crcspeed64native_def big_little
      crc64_spec_def little_byte_eq [abs_def] del: funpow.simps)

text \<open>C12. The eight bytes at a time \<open>crc64\<close>, with the tables \<open>crc64_init\<close> builds, equals the bit by bit
  CRC it was generated from, on hosts of either byte order and for every alignment of the buffer; and
  the CRC of a concatenation is the CRC of the second part started from the first part's.\<close>

theorem crc64_is_bitwise:
  "crc64 little 0 addr s = crc64_bbb 0 s
   \<and> crc64 little (crc_reflect crc 64) addr s = crc64_bbb crc s
   \<and> crc64 little crc addr (s @ s') = crc64 little' (crc64 little crc addr s) addr' s'"
  by (simp add: crc64_eq_spec crc64_bbb_spec crc_reflect_0)
    (simp add: crc64_spec_def)

section \<open>The check values of the sources\<close>

lemma crc16_check: "crc16 [0x31, 0x32, 0x33, 0x34, 0x35, 0x36, 0x37, 0x38, 0x39] = 0x31C3"
  by (simp add: crc16_def crc16tab_def)

lemma crc64_check: "crc64_bbb 0 [0x31, 0x32, 0x33, 0x34, 0x35, 0x36, 0x37, 0x38, 0x39] = 0xe9c6d914c4b8d9ca"
  by (code_simp)

end
