(* ===== verification/Dict.thy ===== *)
theory Dict
  imports Redis_Prelude "HOL-Library.Multiset" "HOL-Library.Monad_Syntax"
begin

text \<open>
  The hash tables of \<open>dict.c\<close>: two tables of chained buckets, of which the second exists while the
  dictionary is being rehashed bucket by bucket.  A chain is the list of its entries from the
  bucket on; \<open>next\<close> is the rest of the list.  A reference to an entry that an operation returns is
  its table, bucket and place in the chain, good until the dictionary changes.  The calls of the
  key and value destructors are recorded in the field \<open>destroyed\<close>.  The result \<open>None\<close> is a failed
  assertion, a \<open>NULL\<close> table or a counter that would fall below zero.
\<close>

section \<open>Types\<close>

type_synonym ptr = "64 word"

datatype dictResizeEnable = DICT_RESIZE_ENABLE | DICT_RESIZE_AVOID | DICT_RESIZE_FORBID

text \<open>Optional callbacks are \<open>None\<close> when the C pointer is \<open>NULL\<close>; \<open>expandAllowed\<close> takes the bytes of the
  larger table and, for the ratio, its numerator and denominator.\<close>

record 'v dictType =
  hashFunction :: "ptr \<Rightarrow> 64 word"
  keyDup :: "(ptr \<Rightarrow> ptr) option"
  valDup :: "('v \<Rightarrow> 'v) option"
  keyCompare :: "(ptr \<Rightarrow> ptr \<Rightarrow> bool) option"
  keyDestructor :: bool
  valDestructor :: bool
  expandAllowed :: "(nat \<Rightarrow> nat \<Rightarrow> nat \<Rightarrow> bool) option"
  no_value :: bool
  keys_are_odd :: bool

text \<open>The three kinds of entry that the low bits of a \<open>dictEntry\<close> pointer tell apart: an allocated
  entry with a value (unset until \<open>dictSetVal\<close>), an allocated entry without one, a bare key.\<close>

datatype 'v dictEntry = Entry ptr "'v option" | EntryNoValue ptr | EntryKey ptr

type_synonym 'v chain = "'v dictEntry list"

datatype 'v destroyed = DestroyedKey ptr | DestroyedVal "'v option"

record 'v dict =
  ht_table :: "nat \<Rightarrow> 'v chain list option"
  ht_used :: "nat \<Rightarrow> nat"
  rehashidx :: int
  pauserehash :: int
  ht_size_exp :: "nat \<Rightarrow> int"
  destroyed :: "'v destroyed list"

type_synonym eref = "nat \<times> nat \<times> nat"

definition dict_force_resize_ratio :: nat where "dict_force_resize_ratio = 5"
definition DICT_HT_INITIAL_EXP :: int where "DICT_HT_INITIAL_EXP = 2"
definition DICT_HT_INITIAL_SIZE :: nat where "DICT_HT_INITIAL_SIZE = 2 ^ nat DICT_HT_INITIAL_EXP"

definition DICTHT_SIZE :: "int \<Rightarrow> nat" where
  "DICTHT_SIZE e = (if e = -1 then 0 else 2 ^ nat e)"

definition DICTHT_SIZE_MASK :: "int \<Rightarrow> nat" where
  "DICTHT_SIZE_MASK e = (if e = -1 then 0 else DICTHT_SIZE e - 1)"

definition dictSlots :: "'v dict \<Rightarrow> nat" where
  "dictSlots d = DICTHT_SIZE (ht_size_exp d 0) + DICTHT_SIZE (ht_size_exp d 1)"

definition dictSize :: "'v dict \<Rightarrow> nat" where "dictSize d = ht_used d 0 + ht_used d 1"
definition dictIsRehashing :: "'v dict \<Rightarrow> bool" where "dictIsRehashing d \<longleftrightarrow> rehashidx d \<noteq> -1"

definition dictPauseRehashing :: "'v dict \<Rightarrow> 'v dict" where
  "dictPauseRehashing d = d\<lparr>pauserehash := pauserehash d + 1\<rparr>"

definition dictResumeRehashing :: "'v dict \<Rightarrow> 'v dict" where
  "dictResumeRehashing d = d\<lparr>pauserehash := pauserehash d - 1\<rparr>"

section \<open>Entries\<close>

text \<open>A key pointer is odd when its lowest bit is set.\<close>

definition key_is_odd :: "ptr \<Rightarrow> bool" where "key_is_odd key \<longleftrightarrow> key AND 1 \<noteq> 0"

fun entryIsKey :: "'v dictEntry \<Rightarrow> bool" where
  "entryIsKey (EntryKey key) = True"
| "entryIsKey de = False"

fun entryIsNormal :: "'v dictEntry \<Rightarrow> bool" where
  "entryIsNormal (Entry key val) = True"
| "entryIsNormal de = False"

fun entryIsNoValue :: "'v dictEntry \<Rightarrow> bool" where
  "entryIsNoValue (EntryNoValue key) = True"
| "entryIsNoValue de = False"

definition entryHasValue :: "'v dictEntry \<Rightarrow> bool" where
  "entryHasValue de = entryIsNormal de"

fun dictGetKey :: "'v dictEntry \<Rightarrow> ptr" where
  "dictGetKey (EntryKey key) = key"
| "dictGetKey (EntryNoValue key) = key"
| "dictGetKey (Entry key val) = key"

fun dictGetVal :: "'v dictEntry \<Rightarrow> 'v option option" where
  "dictGetVal (Entry key val) = Some val"
| "dictGetVal de = None"

text \<open>The \<open>next\<close> of an entry that is followed by \<open>next\<close> in its chain, and a chain that starts with
  it: a bare key has no \<open>next\<close> field.\<close>

definition dictGetNext :: "'v dictEntry \<Rightarrow> 'v chain \<Rightarrow> 'v chain" where
  "dictGetNext de next = (if entryIsKey de then [] else next)"

definition dictSetNext :: "'v dictEntry \<Rightarrow> 'v chain \<Rightarrow> 'v chain option" where
  "dictSetNext de next = (if entryIsKey de then None else Some (de # next))"

lemma length_dictGetNext [termination_simp]: "length (dictGetNext de next) \<le> length next"
  by (simp add: dictGetNext_def)

definition dictCompareKeys :: "'v dictType \<Rightarrow> ptr \<Rightarrow> ptr \<Rightarrow> bool" where
  "dictCompareKeys T key1 key2 = (case keyCompare T of Some c \<Rightarrow> c key1 key2 | None \<Rightarrow> key1 = key2)"

definition dictFreeKey :: "'v dictType \<Rightarrow> 'v dictEntry \<Rightarrow> 'v dict \<Rightarrow> 'v dict" where
  "dictFreeKey T de d =
     (if keyDestructor T then d\<lparr>destroyed := destroyed d @ [DestroyedKey (dictGetKey de)]\<rparr> else d)"

definition dictFreeVal :: "'v dictType \<Rightarrow> 'v dictEntry \<Rightarrow> 'v dict \<Rightarrow> 'v dict option" where
  "dictFreeVal T de d =
     (if valDestructor T then do { v \<leftarrow> dictGetVal de; Some (d\<lparr>destroyed := destroyed d @ [DestroyedVal v]\<rparr>) }
      else Some d)"

definition dictFreeUnlinkedEntry :: "'v dictType \<Rightarrow> 'v dictEntry \<Rightarrow> 'v dict \<Rightarrow> 'v dict option" where
  "dictFreeUnlinkedEntry T de d = dictFreeVal T de (dictFreeKey T de d)"

section \<open>Tables\<close>

definition bucket :: "'v dict \<Rightarrow> nat \<Rightarrow> nat \<Rightarrow> 'v chain option" where
  "bucket d t i = do { b \<leftarrow> ht_table d t; if i < length b then Some (b ! i) else None }"

definition set_bucket :: "nat \<Rightarrow> nat \<Rightarrow> 'v chain \<Rightarrow> 'v dict \<Rightarrow> 'v dict" where
  "set_bucket t i c d = d\<lparr>ht_table := (ht_table d)(t := map_option (\<lambda>b. b[i := c]) (ht_table d t))\<rparr>"

definition inc_used :: "nat \<Rightarrow> 'v dict \<Rightarrow> 'v dict" where
  "inc_used t d = d\<lparr>ht_used := (ht_used d)(t := ht_used d t + 1)\<rparr>"

definition dec_used :: "nat \<Rightarrow> 'v dict \<Rightarrow> 'v dict option" where
  "dec_used t d = (if ht_used d t = 0 then None else Some (d\<lparr>ht_used := (ht_used d)(t := ht_used d t - 1)\<rparr>))"

definition key_index :: "64 word \<Rightarrow> 'v dict \<Rightarrow> nat \<Rightarrow> nat" where
  "key_index h d t = unat (h AND word_of_nat (DICTHT_SIZE_MASK (ht_size_exp d t)))"

definition dictReset :: "nat \<Rightarrow> 'v dict \<Rightarrow> 'v dict" where
  "dictReset t d = d\<lparr>ht_table := (ht_table d)(t := None), ht_size_exp := (ht_size_exp d)(t := -1),
     ht_used := (ht_used d)(t := 0)\<rparr>"

definition dictInit :: "'v dict \<Rightarrow> 'v dict" where
  "dictInit d = (dictReset 1 (dictReset 0 d))\<lparr>rehashidx := -1, pauserehash := 0\<rparr>"

text \<open>The allocated memory of a new dictionary is overwritten by \<open>_dictInit\<close>.\<close>

definition dictCreate :: "'v dict" where
  "dictCreate = dictInit \<lparr>ht_table = \<lambda>_. None, ht_used = \<lambda>_. 0, rehashidx = 0, pauserehash = 0,
     ht_size_exp = \<lambda>_. 0, destroyed = []\<rparr>"

section \<open>Resizing\<close>

text \<open>The number of bits of a number: 64 minus its leading zeros.\<close>

fun bit_length :: "nat \<Rightarrow> nat" where
  "bit_length n = (if n = 0 then 0 else Suc (bit_length (n div 2)))"

declare bit_length.simps [simp del]

definition clzl :: "nat \<Rightarrow> nat" where "clzl n = 64 - bit_length n"

definition dictNextExp :: "nat \<Rightarrow> int" where
  "dictNextExp sz =
     (if sz \<le> DICT_HT_INITIAL_SIZE then DICT_HT_INITIAL_EXP
      else if sz \<ge> 2 ^ 63 - 1 then 63
      else int (64 - clzl (sz - 1)))"

text \<open>\<open>fails\<close> is whether the allocation fails, for the caller that passes \<open>malloc_failed\<close>; the second
  result is \<open>*malloc_failed\<close>.\<close>

definition dictExpand' :: "bool \<Rightarrow> 'v dict \<Rightarrow> nat \<Rightarrow> bool \<times> bool \<times> 'v dict" where
  "dictExpand' fails d sz =
     (if dictIsRehashing d \<or> ht_used d 0 > sz then (False, False, d)
      else let e = dictNextExp sz; newsize = (2 :: nat) ^ nat e in
        if newsize < sz \<or> (newsize * 8) mod 2 ^ 64 < newsize then (False, False, d)
        else if e = ht_size_exp d 0 then (False, False, d)
        else if fails then (False, True, d)
        else let t = Some (replicate newsize []) in
          if ht_table d 0 = None then
            (True, False, d\<lparr>ht_size_exp := (ht_size_exp d)(0 := e), ht_used := (ht_used d)(0 := 0),
                            ht_table := (ht_table d)(0 := t)\<rparr>)
          else
            (True, False, d\<lparr>ht_size_exp := (ht_size_exp d)(1 := e), ht_used := (ht_used d)(1 := 0),
                            ht_table := (ht_table d)(1 := t), rehashidx := 0\<rparr>))"

definition dictExpand :: "'v dict \<Rightarrow> nat \<Rightarrow> bool \<times> 'v dict" where
  "dictExpand d sz = (case dictExpand' False d sz of (ok, _, d) \<Rightarrow> (ok, d))"

definition dictTryExpand :: "bool \<Rightarrow> 'v dict \<Rightarrow> nat \<Rightarrow> bool \<times> 'v dict" where
  "dictTryExpand fails d sz = (case dictExpand' fails d sz of (_, failed, d) \<Rightarrow> (\<not> failed, d))"

definition dictResize :: "dictResizeEnable \<Rightarrow> 'v dict \<Rightarrow> bool \<times> 'v dict" where
  "dictResize can d =
     (if can \<noteq> DICT_RESIZE_ENABLE \<or> dictIsRehashing d then (False, d)
      else dictExpand d (max (ht_used d 0) DICT_HT_INITIAL_SIZE))"

definition dictTypeExpandAllowed :: "'v dictType \<Rightarrow> 'v dict \<Rightarrow> bool" where
  "dictTypeExpandAllowed T d = (case expandAllowed T of None \<Rightarrow> True
     | Some f \<Rightarrow> f (DICTHT_SIZE (dictNextExp (ht_used d 0 + 1)) * 8) (ht_used d 0) (DICTHT_SIZE (ht_size_exp d 0)))"

definition dictExpandIfNeeded :: "dictResizeEnable \<Rightarrow> 'v dictType \<Rightarrow> 'v dict \<Rightarrow> bool \<times> 'v dict" where
  "dictExpandIfNeeded can T d =
     (if dictIsRehashing d then (True, d)
      else let size0 = DICTHT_SIZE (ht_size_exp d 0) in
        if size0 = 0 then dictExpand d DICT_HT_INITIAL_SIZE
        else if (can = DICT_RESIZE_ENABLE \<and> ht_used d 0 \<ge> size0) \<or>
                (can \<noteq> DICT_RESIZE_FORBID \<and> ht_used d 0 div size0 > dict_force_resize_ratio) then
          (if \<not> dictTypeExpandAllowed T d then (True, d) else dictExpand d (ht_used d 0 + 1))
        else (True, d))"

section \<open>Incremental rehashing\<close>

text \<open>The empty buckets before the next one to move; the flag tells that the visits ran out.\<close>

function skip_empty :: "int \<Rightarrow> 'v dict \<Rightarrow> (bool \<times> int \<times> 'v dict) option" where
  "skip_empty empty_visits d =
     (if 0 \<le> rehashidx d \<and> bucket d 0 (nat (rehashidx d)) = Some [] then
        let d = d\<lparr>rehashidx := rehashidx d + 1\<rparr>; empty_visits = empty_visits - 1 in
        if empty_visits = 0 then Some (True, empty_visits, d) else skip_empty empty_visits d
      else if 0 \<le> rehashidx d \<and> bucket d 0 (nat (rehashidx d)) \<noteq> None then Some (False, empty_visits, d)
      else None)"
  by pat_completeness auto
termination
  by (relation "measure (\<lambda>(e, d). case ht_table d 0 of None \<Rightarrow> 0 | Some b \<Rightarrow> length b - nat (rehashidx d))")
    (auto simp: bucket_def split: Option.bind_splits if_splits)

declare skip_empty.simps [simp del]

text \<open>The entry as it is linked into bucket \<open>dst\<close> of the new table.\<close>

definition moved_chain :: "'v dictType \<Rightarrow> 'v dictEntry \<Rightarrow> 'v chain \<Rightarrow> 'v chain option" where
  "moved_chain T de dst =
     (let key = dictGetKey de in
      if no_value T then
        if keys_are_odd T \<and> dst = [] then
          (if key_is_odd key then Some [EntryKey key] else None)
        else if entryIsKey de then Some (EntryNoValue key # dst)
        else if entryIsNoValue de then dictSetNext de dst else None
      else dictSetNext de dst)"

fun move_chain :: "'v dictType \<Rightarrow> 'v chain \<Rightarrow> 'v dict \<Rightarrow> 'v dict option" where
  "move_chain T [] d = Some d"
| "move_chain T (de # next) d =
     (let h = (if ht_size_exp d 1 > ht_size_exp d 0 then key_index (hashFunction T (dictGetKey de)) d 1
               else key_index (word_of_int (rehashidx d)) d 1)
      in do {
        dst \<leftarrow> bucket d 1 h;
        c \<leftarrow> moved_chain T de dst;
        d' \<leftarrow> dec_used 0 (set_bucket 1 h c d);
        move_chain T (dictGetNext de next) (inc_used 1 d') })"

fun rehash_loop :: "'v dictType \<Rightarrow> nat \<Rightarrow> int \<Rightarrow> 'v dict \<Rightarrow> (bool \<times> 'v dict) option" where
  "rehash_loop T 0 empty_visits d = Some (False, d)"
| "rehash_loop T (Suc n) empty_visits d =
     (if ht_used d 0 = 0 then Some (False, d)
      else if \<not> int (DICTHT_SIZE (ht_size_exp d 0)) > rehashidx d then None
      else do {
        (out, empty_visits, d) \<leftarrow> skip_empty empty_visits d;
        if out then Some (True, d)
        else do {
          de \<leftarrow> bucket d 0 (nat (rehashidx d));
          d \<leftarrow> move_chain T de d;
          let d = set_bucket 0 (nat (rehashidx d)) [] d;
          rehash_loop T n empty_visits (d\<lparr>rehashidx := rehashidx d + 1\<rparr>) } })"

text \<open>The check after the loop: is the whole table moved?\<close>

definition rehash_finish :: "'v dict \<Rightarrow> bool \<times> 'v dict" where
  "rehash_finish d =
     (if ht_used d 0 = 0 then
        (False, (dictReset 1 (d\<lparr>ht_table := (ht_table d)(0 := ht_table d 1),
                               ht_used := (ht_used d)(0 := ht_used d 1),
                               ht_size_exp := (ht_size_exp d)(0 := ht_size_exp d 1)\<rparr>))\<lparr>rehashidx := -1\<rparr>)
      else (True, d))"

definition dictRehash :: "dictResizeEnable \<Rightarrow> 'v dictType \<Rightarrow> 'v dict \<Rightarrow> nat \<Rightarrow> (bool \<times> 'v dict) option" where
  "dictRehash can T d n =
     (let s0 = DICTHT_SIZE (ht_size_exp d 0); s1 = DICTHT_SIZE (ht_size_exp d 1) in
      if can = DICT_RESIZE_FORBID \<or> \<not> dictIsRehashing d then Some (False, d)
      else if can = DICT_RESIZE_AVOID \<and>
         ((s1 > s0 \<and> s1 div s0 < dict_force_resize_ratio) \<or> (s1 < s0 \<and> s0 div s1 < dict_force_resize_ratio))
      then Some (False, d)
      else do {
        (out, d) \<leftarrow> rehash_loop T n (int n * 10) d;
        if out then Some (True, d) else Some (rehash_finish d) })"

text \<open>\<open>clock\<close> lists the times read after the batches, relative to the start.\<close>

fun rehash_ms_loop :: "dictResizeEnable \<Rightarrow> 'v dictType \<Rightarrow> nat \<Rightarrow> nat list \<Rightarrow> nat \<Rightarrow> 'v dict \<Rightarrow> (nat \<times> 'v dict) option" where
  "rehash_ms_loop can T ms clock rehashes d = do {
     (more, d) \<leftarrow> dictRehash can T d 100;
     if \<not> more then Some (rehashes, d)
     else case clock of
         [] \<Rightarrow> None
       | now # clock \<Rightarrow>
           if now > ms then Some (rehashes + 100, d) else rehash_ms_loop can T ms clock (rehashes + 100) d }"

declare rehash_ms_loop.simps [simp del]

definition dictRehashMilliseconds ::
    "dictResizeEnable \<Rightarrow> 'v dictType \<Rightarrow> nat list \<Rightarrow> 'v dict \<Rightarrow> nat \<Rightarrow> (nat \<times> 'v dict) option" where
  "dictRehashMilliseconds can T clock d ms =
     (if pauserehash d > 0 then Some (0, d) else rehash_ms_loop can T ms clock 0 d)"

definition dictRehashStep :: "dictResizeEnable \<Rightarrow> 'v dictType \<Rightarrow> 'v dict \<Rightarrow> 'v dict option" where
  "dictRehashStep can T d = (if pauserehash d = 0 then map_option snd (dictRehash can T d 1) else Some d)"

section \<open>Lookup\<close>

text \<open>The walk along a chain: the place of the entry with the key.\<close>

fun chain_find :: "'v dictType \<Rightarrow> ptr \<Rightarrow> nat \<Rightarrow> 'v chain \<Rightarrow> nat option" where
  "chain_find T key n [] = None"
| "chain_find T key n (he # next) =
     (if key = dictGetKey he \<or> dictCompareKeys T key (dictGetKey he) then Some n
      else chain_find T key (n + 1) (dictGetNext he next))"

text \<open>The loop over the one or two tables.\<close>

definition find_ref :: "'v dictType \<Rightarrow> ptr \<Rightarrow> 'v dict \<Rightarrow> eref option option" where
  "find_ref T key d = (let h = hashFunction T key; idx0 = key_index h d 0 in do {
     he \<leftarrow> bucket d 0 idx0;
     case chain_find T key 0 he of
       Some p \<Rightarrow> Some (Some (0, idx0, p))
     | None \<Rightarrow>
         if \<not> dictIsRehashing d then Some None
         else let idx1 = key_index h d 1 in do {
           he \<leftarrow> bucket d 1 idx1;
           Some (map_option (\<lambda>p. (1, idx1, p)) (chain_find T key 0 he)) } })"

fun deref :: "'v dict \<Rightarrow> eref \<Rightarrow> 'v dictEntry option" where
  "deref d (t, i, p) = do { c \<leftarrow> bucket d t i; if p < length c then Some (c ! p) else None }"

definition dictFind :: "dictResizeEnable \<Rightarrow> 'v dictType \<Rightarrow> 'v dict \<Rightarrow> ptr \<Rightarrow> (eref option \<times> 'v dict) option" where
  "dictFind can T d key =
     (if dictSize d = 0 then Some (None, d)
      else do {
        d \<leftarrow> (if dictIsRehashing d then dictRehashStep can T d else Some d);
        r \<leftarrow> find_ref T key d;
        Some (r, d) })"

text \<open>The \<open>NULL\<close> of a missing key is the outer \<open>None\<close> of the value.\<close>

definition dictFetchValue ::
    "dictResizeEnable \<Rightarrow> 'v dictType \<Rightarrow> 'v dict \<Rightarrow> ptr \<Rightarrow> ('v option option \<times> 'v dict) option" where
  "dictFetchValue can T d key = do {
     (he, d) \<leftarrow> dictFind can T d key;
     case he of
       None \<Rightarrow> Some (None, d)
     | Some r \<Rightarrow> do { de \<leftarrow> deref d r; v \<leftarrow> dictGetVal de; Some (Some v, d) } }"

section \<open>Insertion\<close>

text \<open>The position is the table and the bucket; the second result is \<open>*existing\<close>.\<close>

definition dictFindPositionForInsert ::
    "dictResizeEnable \<Rightarrow> 'v dictType \<Rightarrow> 'v dict \<Rightarrow> ptr \<Rightarrow> ((nat \<times> nat) option \<times> eref option \<times> 'v dict) option" where
  "dictFindPositionForInsert can T d key = do {
     d \<leftarrow> (if dictIsRehashing d then dictRehashStep can T d else Some d);
     let (ok, d) = dictExpandIfNeeded can T d;
     if \<not> ok then Some (None, None, d)
     else do {
       r \<leftarrow> find_ref T key d;
       case r of
         Some e \<Rightarrow> Some (None, Some e, d)
       | None \<Rightarrow>
           let t = (if dictIsRehashing d then 1 else 0) in
           Some (Some (t, key_index (hashFunction T key) d t), None, d) } }"

definition dictInsertAtPosition ::
    "'v dictType \<Rightarrow> 'v dict \<Rightarrow> ptr \<Rightarrow> nat \<times> nat \<Rightarrow> (eref \<times> 'v dict) option" where
  "dictInsertAtPosition T d key pos =
     (let htidx = (if dictIsRehashing d then 1 else 0); (t, i) = pos in
      if \<not> (t = htidx \<and> i \<le> DICTHT_SIZE_MASK (ht_size_exp d htidx)) then None
      else do {
        c \<leftarrow> bucket d t i;
        entry \<leftarrow> (if no_value T then
                    if keys_are_odd T \<and> c = [] then
                      (if key_is_odd key then Some (EntryKey key) else None)
                    else Some (EntryNoValue key)
                  else Some (Entry key None));
        Some ((t, i, 0), inc_used htidx (set_bucket t i (entry # c) d)) })"

text \<open>\<open>entry->next = *bucket\<close> is the rest of the list; a bare key is stored in an empty bucket only.\<close>

definition dictAddRaw ::
    "dictResizeEnable \<Rightarrow> 'v dictType \<Rightarrow> 'v dict \<Rightarrow> ptr \<Rightarrow> (eref option \<times> eref option \<times> 'v dict) option" where
  "dictAddRaw can T d key = do {
     (position, existing, d) \<leftarrow> dictFindPositionForInsert can T d key;
     case position of
       None \<Rightarrow> Some (None, existing, d)
     | Some pos \<Rightarrow> do {
         (e, d) \<leftarrow> dictInsertAtPosition T d (case keyDup T of Some dup \<Rightarrow> dup key | None \<Rightarrow> key) pos;
         Some (Some e, existing, d) } }"

definition dictSetVal :: "'v dictType \<Rightarrow> 'v dict \<Rightarrow> eref \<Rightarrow> 'v \<Rightarrow> 'v dict option" where
  "dictSetVal T d r val = do {
     de \<leftarrow> deref d r;
     case (r, de) of
       ((t, i, p), Entry key _) \<Rightarrow> do {
         c \<leftarrow> bucket d t i;
         Some (set_bucket t i (c[p := Entry key (Some (case valDup T of Some dup \<Rightarrow> dup val | None \<Rightarrow> val))]) d) }
     | _ \<Rightarrow> None }"

definition dictSetKey :: "'v dictType \<Rightarrow> 'v dict \<Rightarrow> eref \<Rightarrow> ptr \<Rightarrow> 'v dict option" where
  "dictSetKey T d r key =
     (if no_value T then None
      else do {
        de \<leftarrow> deref d r;
        case (r, de) of
          ((t, i, p), Entry _ v) \<Rightarrow> do {
            c \<leftarrow> bucket d t i;
            Some (set_bucket t i (c[p := Entry (case keyDup T of Some dup \<Rightarrow> dup key | None \<Rightarrow> key) v]) d) }
        | _ \<Rightarrow> None })"

definition dictAdd ::
    "dictResizeEnable \<Rightarrow> 'v dictType \<Rightarrow> 'v dict \<Rightarrow> ptr \<Rightarrow> 'v \<Rightarrow> (bool \<times> 'v dict) option" where
  "dictAdd can T d key val = do {
     (entry, existing, d) \<leftarrow> dictAddRaw can T d key;
     case entry of
       None \<Rightarrow> Some (False, d)
     | Some e \<Rightarrow>
         if no_value T then Some (True, d) else do { d \<leftarrow> dictSetVal T d e val; Some (True, d) } }"

definition dictReplace ::
    "dictResizeEnable \<Rightarrow> 'v dictType \<Rightarrow> 'v dict \<Rightarrow> ptr \<Rightarrow> 'v \<Rightarrow> (bool \<times> 'v dict) option" where
  "dictReplace can T d key val = do {
     (entry, existing, d) \<leftarrow> dictAddRaw can T d key;
     case entry of
       Some e \<Rightarrow> do { d \<leftarrow> dictSetVal T d e val; Some (True, d) }
     | None \<Rightarrow> do {
         e \<leftarrow> existing;
         de \<leftarrow> deref d e;
         oldval \<leftarrow> dictGetVal de;
         d \<leftarrow> dictSetVal T d e val;
         Some (False, if valDestructor T then d\<lparr>destroyed := destroyed d @ [DestroyedVal oldval]\<rparr> else d) } }"

definition dictAddOrFind ::
    "dictResizeEnable \<Rightarrow> 'v dictType \<Rightarrow> 'v dict \<Rightarrow> ptr \<Rightarrow> (eref option \<times> 'v dict) option" where
  "dictAddOrFind can T d key = do {
     (entry, existing, d) \<leftarrow> dictAddRaw can T d key;
     Some (case entry of Some e \<Rightarrow> Some e | None \<Rightarrow> existing, d) }"

section \<open>Deletion\<close>

text \<open>Unlinking the entry at place \<open>p\<close>: the link is the bucket or the \<open>next\<close> of the entry before.\<close>

definition chain_unlink :: "nat \<Rightarrow> 'v chain \<Rightarrow> ('v dictEntry \<times> 'v chain) option" where
  "chain_unlink p c =
     (case drop p c of
        [] \<Rightarrow> None
      | he # next \<Rightarrow>
          if p = 0 then Some (he, dictGetNext he next)
          else do {
            prev \<leftarrow> dictSetNext (c ! (p - 1)) (dictGetNext he next);
            Some (he, take (p - 1) c @ prev) })"

definition dictGenericDelete ::
    "dictResizeEnable \<Rightarrow> 'v dictType \<Rightarrow> 'v dict \<Rightarrow> ptr \<Rightarrow> bool \<Rightarrow> ('v dictEntry option \<times> 'v dict) option" where
  "dictGenericDelete can T d key nofree =
     (if dictSize d = 0 then Some (None, d)
      else do {
        d \<leftarrow> (if dictIsRehashing d then dictRehashStep can T d else Some d);
        r \<leftarrow> find_ref T key d;
        case r of
          None \<Rightarrow> Some (None, d)
        | Some (t, i, p) \<Rightarrow> do {
            c \<leftarrow> bucket d t i;
            (he, c) \<leftarrow> chain_unlink p c;
            let d = set_bucket t i c d;
            d \<leftarrow> (if nofree then Some d else dictFreeUnlinkedEntry T he d);
            d \<leftarrow> dec_used t d;
            Some (Some he, d) } })"

definition dictDelete ::
    "dictResizeEnable \<Rightarrow> 'v dictType \<Rightarrow> 'v dict \<Rightarrow> ptr \<Rightarrow> (bool \<times> 'v dict) option" where
  "dictDelete can T d key = map_option (\<lambda>(he, d). (he \<noteq> None, d)) (dictGenericDelete can T d key False)"

definition dictUnlink ::
    "dictResizeEnable \<Rightarrow> 'v dictType \<Rightarrow> 'v dict \<Rightarrow> ptr \<Rightarrow> ('v dictEntry option \<times> 'v dict) option" where
  "dictUnlink can T d key = dictGenericDelete can T d key True"

text \<open>The link found is the place of the entry in its chain.\<close>

definition dictTwoPhaseUnlinkFind ::
    "dictResizeEnable \<Rightarrow> 'v dictType \<Rightarrow> 'v dict \<Rightarrow> ptr \<Rightarrow> (eref option \<times> 'v dict) option" where
  "dictTwoPhaseUnlinkFind can T d key =
     (if dictSize d = 0 then Some (None, d)
      else do {
        d \<leftarrow> (if dictIsRehashing d then dictRehashStep can T d else Some d);
        r \<leftarrow> find_ref T key d;
        Some (r, if r = None then d else dictPauseRehashing d) })"

definition dictTwoPhaseUnlinkFree :: "'v dictType \<Rightarrow> 'v dict \<Rightarrow> eref option \<Rightarrow> 'v dict option" where
  "dictTwoPhaseUnlinkFree T d he =
     (case he of
        None \<Rightarrow> Some d
      | Some (t, i, p) \<Rightarrow> do {
          d \<leftarrow> dec_used t d;
          c \<leftarrow> bucket d t i;
          (he, c) \<leftarrow> chain_unlink p c;
          d \<leftarrow> dictFreeUnlinkedEntry T he (set_bucket t i c d);
          Some (dictResumeRehashing d) })"

text \<open>Emptying a table destroys the entries bucket by bucket until the counter is zero.\<close>

fun clear_chain :: "'v dictType \<Rightarrow> nat \<Rightarrow> 'v chain \<Rightarrow> 'v dict \<Rightarrow> 'v dict option" where
  "clear_chain T t [] d = Some d"
| "clear_chain T t (he # next) d = do {
     d \<leftarrow> dictFreeUnlinkedEntry T he d;
     d \<leftarrow> dec_used t d;
     clear_chain T t (dictGetNext he next) d }"

fun clear_buckets :: "'v dictType \<Rightarrow> nat \<Rightarrow> 'v chain list \<Rightarrow> 'v dict \<Rightarrow> 'v dict option" where
  "clear_buckets T t [] d = Some d"
| "clear_buckets T t (c # cs) d =
     (if ht_used d t > 0 then do { d \<leftarrow> clear_chain T t c d; clear_buckets T t cs d } else Some d)"

definition dictClear :: "'v dictType \<Rightarrow> 'v dict \<Rightarrow> nat \<Rightarrow> 'v dict option" where
  "dictClear T d t = do {
     d \<leftarrow> clear_buckets T t (case ht_table d t of None \<Rightarrow> [] | Some b \<Rightarrow> b) d;
     Some (dictReset t d) }"

definition dictEmpty :: "'v dictType \<Rightarrow> 'v dict \<Rightarrow> 'v dict option" where
  "dictEmpty T d = do {
     d \<leftarrow> dictClear T d 0;
     d \<leftarrow> dictClear T d 1;
     Some (d\<lparr>rehashidx := -1, pauserehash := 0\<rparr>) }"

end
