(* ===== verification/Dict_Rep.thy ===== *)
theory Dict_Rep
  imports Dict
begin

text \<open>
  The representation invariant of a dictionary, the map it stands for, and the lemmas on lookup,
  incremental rehashing and resizing: none of them changes the content.
\<close>

section \<open>Keys, chains and tables\<close>

definition same_key :: "'v dictType \<Rightarrow> ptr \<Rightarrow> ptr \<Rightarrow> bool" where
  "same_key T k k' \<longleftrightarrow> k = k' \<or> dictCompareKeys T k k'"

definition dup_key :: "'v dictType \<Rightarrow> ptr \<Rightarrow> ptr" where
  "dup_key T key = (case keyDup T of Some dup \<Rightarrow> dup key | None \<Rightarrow> key)"

definition dup_val :: "'v dictType \<Rightarrow> 'v \<Rightarrow> 'v" where
  "dup_val T val = (case valDup T of Some dup \<Rightarrow> dup val | None \<Rightarrow> val)"

definition good_key :: "'v dictType \<Rightarrow> ptr \<Rightarrow> bool" where
  "good_key T k \<longleftrightarrow> (no_value T \<and> keys_are_odd T \<longrightarrow> key_is_odd k)"

text \<open>What \<open>dict.c\<close> relies on in the callbacks of a type.\<close>

definition type_ok :: "'v dictType \<Rightarrow> bool" where
  "type_ok T \<longleftrightarrow>
     (\<forall>k k'. same_key T k k' \<longrightarrow> same_key T k' k) \<and>
     (\<forall>k k' k''. same_key T k k' \<longrightarrow> same_key T k' k'' \<longrightarrow> same_key T k k'') \<and>
     (\<forall>k k'. same_key T k k' \<longrightarrow> hashFunction T k = hashFunction T k') \<and>
     (\<forall>k. same_key T (dup_key T k) k) \<and>
     (\<forall>k. good_key T k \<longrightarrow> good_key T (dup_key T k)) \<and>
     (no_value T \<longrightarrow> \<not> valDestructor T)"

lemma type_okD:
  assumes "type_ok T"
  shows "same_key T k k' \<Longrightarrow> same_key T k' k"
    and "same_key T k k' \<Longrightarrow> same_key T k' k'' \<Longrightarrow> same_key T k k''"
    and "same_key T k k' \<Longrightarrow> hashFunction T k = hashFunction T k'"
    and "same_key T (dup_key T k) k"
    and "good_key T k \<Longrightarrow> good_key T (dup_key T k)"
    and "no_value T \<Longrightarrow> \<not> valDestructor T"
  using assms unfolding type_ok_def by blast+

lemma same_key_refl [simp]: "same_key T k k"
  by (simp add: same_key_def)

fun entry_ok :: "'v dictType \<Rightarrow> 'v dictEntry \<Rightarrow> bool" where
  "entry_ok T (Entry k v) = (\<not> no_value T)"
| "entry_ok T (EntryNoValue k) = (no_value T \<and> good_key T k)"
| "entry_ok T (EntryKey k) = (no_value T \<and> keys_are_odd T \<and> key_is_odd k)"

text \<open>Only the last entry of a chain can be a bare key.\<close>

fun linked :: "'v chain \<Rightarrow> bool" where
  "linked [] = True"
| "linked (de # next) = ((entryIsKey de \<longrightarrow> next = []) \<and> linked next)"

definition chain_ok :: "'v dictType \<Rightarrow> 'v chain \<Rightarrow> bool" where
  "chain_ok T c \<longleftrightarrow> linked c \<and> (\<forall>x \<in> set c. entry_ok T x)"

definition hash_mod :: "'v dictType \<Rightarrow> nat \<Rightarrow> ptr \<Rightarrow> nat" where
  "hash_mod T e k = unat (hashFunction T k) mod 2 ^ e"

text \<open>A table of \<open>2 ^ e\<close> buckets, each entry in the bucket of its hash.\<close>

definition tab_ok :: "'v dictType \<Rightarrow> 'v chain list \<Rightarrow> nat \<Rightarrow> nat \<Rightarrow> bool" where
  "tab_ok T b e used \<longleftrightarrow> e \<le> 60 \<and> length b = 2 ^ e \<and> used = length (concat b) \<and>
     (\<forall>i < length b. chain_ok T (b ! i) \<and> (\<forall>x \<in> set (b ! i). hash_mod T e (dictGetKey x) = i))"

definition table_ok :: "'v dictType \<Rightarrow> 'v dict \<Rightarrow> nat \<Rightarrow> bool" where
  "table_ok T d t \<longleftrightarrow> (case ht_table d t of
       None \<Rightarrow> ht_size_exp d t = -1 \<and> ht_used d t = 0
     | Some b \<Rightarrow> 0 \<le> ht_size_exp d t \<and> tab_ok T b (nat (ht_size_exp d t)) (ht_used d t))"

fun kv :: "'v dictEntry \<Rightarrow> ptr \<times> 'v option" where
  "kv (Entry k v) = (k, v)"
| "kv (EntryNoValue k) = (k, None)"
| "kv (EntryKey k) = (k, None)"

definition entries :: "'v dict \<Rightarrow> nat \<Rightarrow> 'v chain" where
  "entries d t = (case ht_table d t of None \<Rightarrow> [] | Some b \<Rightarrow> concat b)"

definition content :: "'v dict \<Rightarrow> (ptr \<times> 'v option) multiset" where
  "content d = mset (map kv (entries d 0 @ entries d 1))"

definition uniq :: "'v dictType \<Rightarrow> (ptr \<times> 'v option) multiset \<Rightarrow> bool" where
  "uniq T M \<longleftrightarrow> (\<forall>k. size (filter_mset (\<lambda>p. same_key T k (fst p)) M) \<le> 1)"

definition dict_inv :: "'v dictType \<Rightarrow> 'v dict \<Rightarrow> bool" where
  "dict_inv T d \<longleftrightarrow> table_ok T d 0 \<and> table_ok T d 1 \<and> uniq T (content d) \<and>
     (if dictIsRehashing d
      then ht_table d 0 \<noteq> None \<and> ht_table d 1 \<noteq> None \<and> 0 \<le> rehashidx d \<and>
           (\<forall>i < nat (rehashidx d). bucket d 0 i = Some [])
      else ht_table d 1 = None)"

text \<open>The map a dictionary stands for.\<close>

definition dict_get :: "'v dictType \<Rightarrow> 'v dict \<Rightarrow> ptr \<Rightarrow> 'v option option" where
  "dict_get T d k = map_option snd (find (\<lambda>p. same_key T k (fst p)) (map kv (entries d 0 @ entries d 1)))"

lemma fst_kv [simp]: "fst (kv x) = dictGetKey x"
  by (cases x) auto

section \<open>The map is determined by the content\<close>

lemma find_SomeD: "find P xs = Some x \<Longrightarrow> x \<in> set xs \<and> P x"
  by (induction xs) (auto split: if_splits)

lemma uniqD:
  assumes "uniq T M" "p \<in># M" "q \<in># M" "same_key T k (fst p)" "same_key T k (fst q)"
  shows "p = q"
proof (rule ccontr)
  assume "p \<noteq> q"
  let ?F = "filter_mset (\<lambda>p. same_key T k (fst p)) M"
  have "p \<in># ?F" "q \<in># ?F" using assms by simp_all
  then have "q \<in># ?F - {#p#}" using \<open>p \<noteq> q\<close> by (simp add: in_diff_count)
  then have "size (?F - {#p#}) > 0" by (auto simp: size_eq_0_iff_empty simp flip: neq0_conv)
  then have "size ?F > 1" using \<open>p \<in># ?F\<close> by (simp add: size_Diff_singleton)
  moreover have "size ?F \<le> 1" using assms(1) by (simp add: uniq_def)
  ultimately show False by simp
qed

lemma dict_get_None: "dict_get T d k = None \<longleftrightarrow> (\<forall>p \<in># content d. \<not> same_key T k (fst p))"
  unfolding dict_get_def content_def map_option_is_None find_None_iff set_mset_mset by blast

lemma dict_get_SomeI:
  assumes u: "uniq T (content d)" and p: "p \<in># content d" "same_key T k (fst p)"
  shows "dict_get T d k = Some (snd p)"
proof -
  have "dict_get T d k \<noteq> None" using p by (auto simp: dict_get_None)
  then obtain q where q: "find (\<lambda>p. same_key T k (fst p)) (map kv (entries d 0 @ entries d 1)) = Some q"
    unfolding dict_get_def by fastforce
  from find_SomeD [OF q] have "q \<in># content d" "same_key T k (fst q)"
    unfolding content_def set_mset_mset by auto
  then have "q = p" using uniqD [OF u] p by blast
  with q show ?thesis unfolding dict_get_def by simp
qed

lemma dict_get_SomeD: "dict_get T d k = Some v \<Longrightarrow> \<exists>p \<in># content d. same_key T k (fst p) \<and> snd p = v"
proof -
  assume "dict_get T d k = Some v"
  then obtain p where p: "find (\<lambda>p. same_key T k (fst p)) (map kv (entries d 0 @ entries d 1)) = Some p" "snd p = v"
    unfolding dict_get_def by (rule map_option_eq_Some [THEN iffD1, elim_format]) blast
  from find_SomeD [OF p(1)] p(2) show ?thesis unfolding content_def set_mset_mset by blast
qed

lemma dict_get_cong:
  assumes "uniq T (content d)" "content d' = content d"
  shows "dict_get T d' = dict_get T d"
proof (rule ext)
  fix k show "dict_get T d' k = dict_get T d k"
  proof (cases "dict_get T d k")
    case None
    then show ?thesis using assms(2) dict_get_None [of T d' k] dict_get_None [of T d k] by simp
  next
    case (Some v)
    from dict_get_SomeD [OF this] show ?thesis
      using assms dict_get_SomeI [of T d' _ k] Some by auto
  qed
qed

section \<open>Updates of one bucket\<close>

lemma dictGetNext_linked: "linked (de # next) \<Longrightarrow> dictGetNext de next = next"
  by (auto simp: dictGetNext_def)

lemma mask_index: "e \<le> 64 \<Longrightarrow> unat (h AND word_of_nat (2 ^ e - 1) :: 64 word) = unat h mod 2 ^ e"
proof -
  assume "e \<le> 64"
  have "(word_of_nat (2 ^ e - 1) :: 64 word) = mask e"
    by (simp add: mask_eq_exp_minus_1 of_nat_diff)
  then have "h AND word_of_nat (2 ^ e - 1) = take_bit e h" by (simp only: take_bit_eq_mask)
  moreover have "unat (take_bit e h) = unat h mod 2 ^ e"
    by (simp only: unsigned_take_bit_eq) (simp only: take_bit_eq_mod)
  ultimately show ?thesis by (simp only:)
qed

lemma key_index_eq:
  "ht_size_exp d t = int e \<Longrightarrow> e \<le> 60 \<Longrightarrow> key_index h d t = unat h mod 2 ^ e"
  using mask_index [of e h] by (simp add: key_index_def DICTHT_SIZE_MASK_def DICTHT_SIZE_def)

lemma mset_concat_update:
  "i < length b \<Longrightarrow> mset (map f (concat (b[i := c]))) + mset (map f (b ! i))
     = mset (map f (concat b)) + mset (map f c)"
proof (induction b arbitrary: i)
  case (Cons x b)
  then show ?case by (cases i) (simp_all add: union_ac)
qed simp

lemma tab_ok_update:
  assumes "tab_ok T b e used" "i < length b" "chain_ok T c"
    and "\<And>x. x \<in> set c \<Longrightarrow> hash_mod T e (dictGetKey x) = i"
    and "used' + length (b ! i) = used + length c"
  shows "tab_ok T (b[i := c]) e used'"
proof -
  have "size (mset (map id (concat (b[i := c]))) + mset (map id (b ! i)))
      = size (mset (map id (concat b)) + mset (map id c))"
    by (simp only: mset_concat_update [OF assms(2)])
  then have "length (concat (b[i := c])) + length (b ! i) = length (concat b) + length c"
    by (simp only: size_union size_mset length_map)
  then show ?thesis
    using assms by (auto simp: tab_ok_def nth_list_update)
qed

lemma bucket_Some: "bucket d t i = Some c \<longleftrightarrow> (\<exists>b. ht_table d t = Some b \<and> i < length b \<and> c = b ! i)"
  by (auto simp: bucket_def split: Option.bind_splits)

lemma table_okE:
  assumes "table_ok T d t" "ht_table d t = Some b"
  obtains e where "ht_size_exp d t = int e" "tab_ok T b e (ht_used d t)" "e \<le> 60" "length b = 2 ^ e"
proof -
  from assms obtain e where "ht_size_exp d t = int e" "tab_ok T b e (ht_used d t)"
    by (auto simp: table_ok_def elim: nonneg_int_cases)
  with that show thesis by (auto simp: tab_ok_def)
qed

lemma table_okI: "ht_table d t = Some b \<Longrightarrow> ht_size_exp d t = int e \<Longrightarrow> tab_ok T b e (ht_used d t) \<Longrightarrow> table_ok T d t"
  by (simp add: table_ok_def)

lemma table_ok_cong:
  "ht_table d' t = ht_table d t \<Longrightarrow> ht_size_exp d' t = ht_size_exp d t \<Longrightarrow> ht_used d' t = ht_used d t
     \<Longrightarrow> table_ok T d' t = table_ok T d t"
  by (simp add: table_ok_def split: option.splits)

lemma size_length: "table_ok T d t \<Longrightarrow> ht_table d t = Some b \<Longrightarrow> DICTHT_SIZE (ht_size_exp d t) = length b"
  by (simp add: table_ok_def tab_ok_def DICTHT_SIZE_def)

lemma used_length: "table_ok T d t \<Longrightarrow> ht_used d t = length (entries d t)"
  by (auto simp: table_ok_def entries_def tab_ok_def split: option.splits)

lemma tab_entry:
  assumes "tab_ok T b e used" "x \<in> set (concat b)"
  shows "entry_ok T x \<and> x \<in> set (b ! hash_mod T e (dictGetKey x))"
proof -
  from assms(2) obtain i where "i < length b" "x \<in> set (b ! i)"
    by (auto simp: in_set_conv_nth) (metis nth_mem)
  then show ?thesis using assms(1) by (auto simp: tab_ok_def chain_ok_def)
qed

lemma hash_mod_less: "tab_ok T b e used \<Longrightarrow> hash_mod T e k < length b"
  by (simp add: tab_ok_def hash_mod_def)

text \<open>The fields that \<open>set_bucket\<close> and the counters leave alone.\<close>

lemma set_bucket_sels [simp]:
  "ht_used (set_bucket t i c d) = ht_used d" "rehashidx (set_bucket t i c d) = rehashidx d"
  "pauserehash (set_bucket t i c d) = pauserehash d" "ht_size_exp (set_bucket t i c d) = ht_size_exp d"
  "destroyed (set_bucket t i c d) = destroyed d"
  "ht_table (set_bucket t i c d) t' = (if t' = t then map_option (\<lambda>b. b[i := c]) (ht_table d t) else ht_table d t')"
  by (simp_all add: set_bucket_def)

lemma inc_used_sels [simp]:
  "ht_table (inc_used t d) = ht_table d" "rehashidx (inc_used t d) = rehashidx d"
  "pauserehash (inc_used t d) = pauserehash d" "ht_size_exp (inc_used t d) = ht_size_exp d"
  "destroyed (inc_used t d) = destroyed d"
  "ht_used (inc_used t d) t' = (if t' = t then ht_used d t + 1 else ht_used d t')"
  by (simp_all add: inc_used_def)

section \<open>Rehashing\<close>

lemma moved_chain_ok:
  assumes "entry_ok T de" "chain_ok T dst" "type_ok T"
  shows "\<exists>c. moved_chain T de dst = Some c \<and> chain_ok T c \<and> c \<noteq> [] \<and> kv (hd c) = kv de \<and> tl c = dst"
  using assms
  by (cases de) (auto simp: moved_chain_def chain_ok_def dictSetNext_def good_key_def)

definition frame :: "'v dict \<Rightarrow> 'v dict \<Rightarrow> bool" where
  "frame d d' \<longleftrightarrow> pauserehash d' = pauserehash d \<and> destroyed d' = destroyed d"

text \<open>The two ways to compute the new bucket agree with the hash.\<close>

lemma move_index:
  assumes "ht_size_exp d 0 = int e0" "e0 \<le> 60" "ht_size_exp d 1 = int e1" "e1 \<le> 60"
    and "0 \<le> rehashidx d" "hash_mod T e0 k = nat (rehashidx d)"
  shows "(if ht_size_exp d 1 > ht_size_exp d 0 then key_index (hashFunction T k) d 1
          else key_index (word_of_int (rehashidx d)) d 1) = hash_mod T e1 k"
proof (cases "e1 > e0")
  case True
  then show ?thesis using assms by (simp add: key_index_eq hash_mod_def)
next
  case False
  have r: "rehashidx d = int (unat (hashFunction T k) mod 2 ^ e0)"
    using assms(5,6) by (simp add: hash_mod_def)
  have "unat (hashFunction T k) mod 2 ^ e0 \<le> unat (hashFunction T k)" by (rule mod_less_eq_dividend)
  also have "\<dots> < 2 ^ 64" using unsigned_less [of "hashFunction T k", where 'a = nat] by simp
  finally have "unat (word_of_int (rehashidx d) :: 64 word) = unat (hashFunction T k) mod 2 ^ e0"
    unfolding r of_int_of_nat_eq by (simp add: unat_of_nat take_bit_nat_eq_self)
  moreover have "unat (hashFunction T k) mod 2 ^ e0 mod 2 ^ e1 = unat (hashFunction T k) mod 2 ^ e1"
    using False by (intro mod_mod_cancel) (simp add: le_imp_power_dvd)
  ultimately show ?thesis using assms(1,3,4) False by (simp add: key_index_eq hash_mod_def)
qed

lemma move_chain_ok:
  assumes "type_ok T" "ht_size_exp d 0 = int e0" "e0 \<le> 60" "0 \<le> rehashidx d"
    and "chain_ok T c" "\<And>x. x \<in> set c \<Longrightarrow> hash_mod T e0 (dictGetKey x) = nat (rehashidx d)"
    and "table_ok T d 1" "ht_table d 1 \<noteq> None" "length c \<le> ht_used d 0"
  shows "\<exists>d'. move_chain T c d = Some d' \<and> table_ok T d' 1 \<and> ht_table d' 1 \<noteq> None
     \<and> ht_table d' 0 = ht_table d 0 \<and> ht_used d' 0 = ht_used d 0 - length c
     \<and> rehashidx d' = rehashidx d \<and> ht_size_exp d' = ht_size_exp d \<and> frame d d'
     \<and> mset (map kv (entries d' 1)) = mset (map kv (entries d 1)) + mset (map kv c)"
  using assms
proof (induction c arbitrary: d)
  case (Cons de c)
  obtain b where b: "ht_table d 1 = Some b" using Cons.prems by blast
  obtain e1 where e1: "ht_size_exp d 1 = int e1" "tab_ok T b e1 (ht_used d 1)" "e1 \<le> 60" "length b = 2 ^ e1"
    using table_okE [OF Cons.prems(7) b] .
  let ?h = "hash_mod T e1 (dictGetKey de)"
  have h: "(if ht_size_exp d 1 > ht_size_exp d 0 then key_index (hashFunction T (dictGetKey de)) d 1
          else key_index (word_of_int (rehashidx d)) d 1) = ?h"
    using Cons.prems e1 by (intro move_index) auto
  have hb: "?h < length b" by (rule hash_mod_less) (rule e1)
  have old: "chain_ok T (b ! ?h)" "\<And>x. x \<in> set (b ! ?h) \<Longrightarrow> hash_mod T e1 (dictGetKey x) = ?h"
    using e1(2) hb by (auto simp: tab_ok_def)
  have de: "entry_ok T de" "linked (de # c)" "chain_ok T c"
    using Cons.prems(5) by (auto simp: chain_ok_def)
  from moved_chain_ok [OF de(1) old(1) Cons.prems(1)] obtain n where
    n: "moved_chain T de (b ! ?h) = Some (n # b ! ?h)" "chain_ok T (n # b ! ?h)" "kv n = kv de"
    by (metis list.collapse)
  then have nk: "dictGetKey n = dictGetKey de" by (metis fst_kv)
  let ?d = "(set_bucket 1 ?h (n # b ! ?h) d)\<lparr>ht_used := (ht_used d)(0 := ht_used d 0 - 1)\<rparr>"
  let ?d1 = "inc_used 1 ?d"
  have dec: "dec_used 0 (set_bucket 1 ?h (n # b ! ?h) d) = Some ?d"
    using Cons.prems(9) by (simp add: dec_used_def)
  have bd: "bucket d 1 ?h = Some (b ! ?h)" using b hb by (simp add: bucket_def)
  have run: "move_chain T (de # c) d = move_chain T c ?d1"
    unfolding move_chain.simps Let_def h bd Option.bind.bind_lunit n(1) dec dictGetNext_linked [OF de(2)] ..
  have tab: "tab_ok T (b[?h := n # b ! ?h]) e1 (ht_used d 1 + 1)"
  proof (rule tab_ok_update [OF e1(2) hb n(2)])
    show "hash_mod T e1 (dictGetKey x) = ?h" if "x \<in> set (n # b ! ?h)" for x
      using that old(2) nk by (metis set_ConsD)
  qed simp
  have tok: "table_ok T ?d1 1"
    using b e1(1) tab by (intro table_okI [of _ _ "b[?h := n # b ! ?h]" e1]) simp_all
  have ms: "mset (map kv (entries ?d1 1)) = mset (map kv (entries d 1)) + {#kv de#}"
    using mset_concat_update [OF hb, of kv "n # b ! ?h"] b n(3) by (simp add: entries_def)
  have "\<exists>d'. move_chain T c ?d1 = Some d' \<and> table_ok T d' 1 \<and> ht_table d' 1 \<noteq> None
     \<and> ht_table d' 0 = ht_table ?d1 0 \<and> ht_used d' 0 = ht_used ?d1 0 - length c
     \<and> rehashidx d' = rehashidx ?d1 \<and> ht_size_exp d' = ht_size_exp ?d1 \<and> frame ?d1 d'
     \<and> mset (map kv (entries d' 1)) = mset (map kv (entries ?d1 1)) + mset (map kv c)"
    by (rule Cons.IH) (use Cons.prems de(3) tok b in auto)
  then show ?case unfolding run ms using b by (auto simp: frame_def)
qed (simp add: frame_def)

lemma content_eq: "content d = mset (map kv (entries d 0)) + mset (map kv (entries d 1))"
  by (simp add: content_def)

lemma dict_invD:
  assumes "dict_inv T d"
  shows "table_ok T d 0" "table_ok T d 1" "uniq T (content d)"
    "dictIsRehashing d \<Longrightarrow> ht_table d 0 \<noteq> None \<and> ht_table d 1 \<noteq> None \<and> 0 \<le> rehashidx d"
    "dictIsRehashing d \<Longrightarrow> i < nat (rehashidx d) \<Longrightarrow> bucket d 0 i = Some []"
    "\<not> dictIsRehashing d \<Longrightarrow> ht_table d 1 = None"
  using assms unfolding dict_inv_def by (auto split: if_splits)

lemma set_rehashidx_sels [simp]:
  "dictIsRehashing (d\<lparr>rehashidx := r\<rparr>) \<longleftrightarrow> r \<noteq> -1" "content (d\<lparr>rehashidx := r\<rparr>) = content d"
  "table_ok T (d\<lparr>rehashidx := r\<rparr>) t = table_ok T d t" "bucket (d\<lparr>rehashidx := r\<rparr>) t i = bucket d t i"
  by (simp_all add: dictIsRehashing_def content_def entries_def table_ok_def bucket_def split: option.splits)

lemma some_bucket:
  assumes "dict_inv T d" "dictIsRehashing d" "ht_used d 0 > 0"
  shows "\<exists>j c. bucket d 0 j = Some c \<and> c \<noteq> [] \<and> nat (rehashidx d) \<le> j"
proof -
  obtain b where b: "ht_table d 0 = Some b" using dict_invD(4) [OF assms(1,2)] by blast
  have "concat b \<noteq> []" using used_length [OF dict_invD(1) [OF assms(1)]] b assms(3) by (auto simp: entries_def)
  then obtain j where j: "j < length b" "b ! j \<noteq> []" by (auto simp: in_set_conv_nth)
  then have "bucket d 0 j = Some (b ! j)" using b by (simp add: bucket_def)
  moreover have "nat (rehashidx d) \<le> j"
    using dict_invD(5) [OF assms(1,2), of j] j calculation by (metis not_le option.inject)
  ultimately show ?thesis using j by blast
qed

lemma skip_empty_ok:
  assumes "dict_inv T d" "dictIsRehashing d" "bucket d 0 j = Some c" "c \<noteq> []" "nat (rehashidx d) \<le> j"
  shows "\<exists>out e' r. skip_empty e d = Some (out, e', d\<lparr>rehashidx := r\<rparr>) \<and> rehashidx d \<le> r
     \<and> (out \<longrightarrow> rehashidx d < r) \<and> dict_inv T (d\<lparr>rehashidx := r\<rparr>)
     \<and> (\<exists>c'. bucket d 0 (nat r) = Some c' \<and> (\<not> out \<longrightarrow> c' \<noteq> []))"
  using assms
proof (induction "j - nat (rehashidx d)" arbitrary: e d)
  case 0
  then have "nat (rehashidx d) = j" "0 \<le> rehashidx d" using dict_invD(4) by auto
  then have "skip_empty e d = Some (False, e, d)" using 0 by (subst skip_empty.simps) auto
  then show ?case using 0 \<open>nat (rehashidx d) = j\<close> by (intro exI [of _ False] exI [of _ e] exI [of _ "rehashidx d"]) auto
next
  case (Suc m)
  have r: "0 \<le> rehashidx d" "nat (rehashidx d) < j" using Suc dict_invD(4) by auto
  obtain b where b: "ht_table d 0 = Some b" using dict_invD(4) [OF Suc.prems(1,2)] by blast
  have jb: "j < length b" using Suc.prems(3) b by (auto simp: bucket_Some)
  let ?c = "b ! nat (rehashidx d)" and ?d = "d\<lparr>rehashidx := rehashidx d + 1\<rparr>"
  have bk: "bucket d 0 (nat (rehashidx d)) = Some ?c" using b jb r by (simp add: bucket_def)
  show ?case
  proof (cases "?c = []")
    case False
    then have "skip_empty e d = Some (False, e, d)" using r bk by (subst skip_empty.simps) auto
    then show ?thesis using Suc.prems bk False
      by (intro exI [of _ False] exI [of _ e] exI [of _ "rehashidx d"]) auto
  next
    case True
    have inv: "dict_inv T ?d"
      unfolding dict_inv_def
    proof (intro conjI)
      show "if dictIsRehashing ?d
        then ht_table ?d 0 \<noteq> None \<and> ht_table ?d 1 \<noteq> None \<and> 0 \<le> rehashidx ?d
          \<and> (\<forall>i<nat (rehashidx ?d). bucket ?d 0 i = Some [])
        else ht_table ?d 1 = None"
        using r dict_invD(4,5) [OF Suc.prems(1,2)] bk True by (auto simp: nat_add_distrib less_Suc_eq)
    qed (use dict_invD [OF Suc.prems(1)] in simp_all)
    have step: "skip_empty e d = (if e - 1 = 0 then Some (True, e - 1, ?d) else skip_empty (e - 1) ?d)"
      using r bk True by (subst skip_empty.simps) (simp add: Let_def)
    show ?thesis
    proof (cases "e - 1 = 0")
      case out: True
      have "bucket d 0 (nat (rehashidx d + 1)) = Some (b ! nat (rehashidx d + 1))"
        using b jb r by (simp add: bucket_def nat_add_distrib)
      then show ?thesis using step out inv
        by (intro exI [of _ True] exI [of _ "e - 1"] exI [of _ "rehashidx d + 1"]) auto
    next
      case False
      have "\<exists>out e' r. skip_empty (e - 1) ?d = Some (out, e', ?d\<lparr>rehashidx := r\<rparr>) \<and> rehashidx ?d \<le> r
         \<and> (out \<longrightarrow> rehashidx ?d < r) \<and> dict_inv T (?d\<lparr>rehashidx := r\<rparr>)
         \<and> (\<exists>c'. bucket ?d 0 (nat r) = Some c' \<and> (\<not> out \<longrightarrow> c' \<noteq> []))"
        by (rule Suc.hyps) (use Suc inv r in \<open>auto simp: nat_add_distrib\<close>)
      then show ?thesis using step False by fastforce
    qed
  qed
qed

text \<open>One bucket moved.\<close>

lemma move_bucket_ok:
  assumes T: "type_ok T" and inv: "dict_inv T d" and re: "dictIsRehashing d"
    and c: "bucket d 0 (nat (rehashidx d)) = Some c"
  shows "\<exists>d'. move_chain T c d = Some d' \<and> rehashidx d' = rehashidx d
     \<and> (let d'' = set_bucket 0 (nat (rehashidx d)) [] d' in
          dict_inv T (d''\<lparr>rehashidx := rehashidx d + 1\<rparr>) \<and> content d'' = content d
          \<and> ht_size_exp d'' = ht_size_exp d \<and> frame d d'')"
proof -
  let ?r = "nat (rehashidx d)"
  obtain b where b: "ht_table d 0 = Some b" "?r < length b" "c = b ! ?r"
    using c by (auto simp: bucket_Some)
  have r: "0 \<le> rehashidx d" "ht_table d 1 \<noteq> None" using dict_invD(4) [OF inv re] by auto
  obtain e0 where e0: "ht_size_exp d 0 = int e0" "tab_ok T b e0 (ht_used d 0)" "e0 \<le> 60" "length b = 2 ^ e0"
    using table_okE [OF dict_invD(1) [OF inv] b(1)] .
  have co: "chain_ok T c" "\<And>x. x \<in> set c \<Longrightarrow> hash_mod T e0 (dictGetKey x) = ?r"
    using e0(2) b by (auto simp: tab_ok_def)
  have "size (mset (map id (concat (b[?r := []]))) + mset (map id (b ! ?r))) = size (mset (map id (concat b)))"
    using mset_concat_update [OF b(2), of id "[]"] by simp
  then have len: "length (concat (b[?r := []])) + length c = ht_used d 0"
    using e0(2) b(3) by (simp add: tab_ok_def)
  from move_chain_ok [OF T e0(1,3) r(1) co dict_invD(2) [OF inv] r(2)] len obtain d' where
    d': "move_chain T c d = Some d'" "table_ok T d' 1" "ht_table d' 1 \<noteq> None" "ht_table d' 0 = ht_table d 0"
      "ht_used d' 0 = ht_used d 0 - length c" "rehashidx d' = rehashidx d" "ht_size_exp d' = ht_size_exp d"
      "frame d d'" "mset (map kv (entries d' 1)) = mset (map kv (entries d 1)) + mset (map kv c)"
    by auto
  let ?d = "set_bucket 0 ?r [] d'"
  have tab: "tab_ok T (b[?r := []]) e0 (ht_used d' 0)"
    by (rule tab_ok_update [OF e0(2) b(2)]) (use len d'(5) b(3) in \<open>auto simp: chain_ok_def\<close>)
  have t0: "table_ok T ?d 0"
    by (rule table_okI [of _ _ "b[?r := []]" e0]) (use tab d' b e0 in simp_all)
  have t1: "table_ok T ?d 1" using table_ok_cong [of ?d 1 d' T] d'(2) by simp
  have "content ?d = content d"
    using mset_concat_update [OF b(2), of kv "[]"] d'(4,9) b(1,3)
    by (simp add: content_eq entries_def add_ac)
  moreover have "bucket ?d 0 i = Some []" if "i < nat (rehashidx d + 1)" for i
  proof (cases "i = ?r")
    case True
    then show ?thesis using d'(4) b by (simp add: bucket_def)
  next
    case False
    then have "i < ?r" using that by simp
    then have "bucket d 0 i = Some []" by (rule dict_invD(5) [OF inv re])
    then show ?thesis using d'(4) b(1) False by (simp add: bucket_Some)
  qed
  ultimately have "dict_inv T (?d\<lparr>rehashidx := rehashidx d + 1\<rparr>)"
    using t0 t1 dict_invD(3) [OF inv] r d'(3,4) b(1) by (simp add: dict_inv_def)
  with \<open>content ?d = content d\<close> d' show ?thesis by (simp add: Let_def frame_def)
qed

lemma rehash_loop_ok:
  assumes "type_ok T" "dict_inv T d" "dictIsRehashing d"
  shows "\<exists>out d'. rehash_loop T n e d = Some (out, d') \<and> dict_inv T d' \<and> dictIsRehashing d'
     \<and> content d' = content d \<and> frame d d' \<and> ht_size_exp d' = ht_size_exp d \<and> rehashidx d \<le> rehashidx d'
     \<and> (0 < n \<and> (out \<or> 0 < ht_used d' 0) \<longrightarrow> rehashidx d < rehashidx d')"
  using assms
proof (induction n arbitrary: d e)
  case (Suc n)
  show ?case
  proof (cases "ht_used d 0 = 0")
    case False
    then obtain j c where j: "bucket d 0 j = Some c" "c \<noteq> []" "nat (rehashidx d) \<le> j"
      using some_bucket [OF Suc.prems(2,3)] by blast
    have r0: "0 \<le> rehashidx d" using dict_invD(4) [OF Suc.prems(2,3)] by simp
    obtain b where b: "ht_table d 0 = Some b" "j < length b" using j(1) by (auto simp: bucket_Some)
    have "DICTHT_SIZE (ht_size_exp d 0) = length b"
      by (rule size_length [OF dict_invD(1) [OF Suc.prems(2)] b(1)])
    then have assert: "int (DICTHT_SIZE (ht_size_exp d 0)) > rehashidx d" using b(2) j(3) r0 by simp
    obtain out e' r where sk: "skip_empty e d = Some (out, e', d\<lparr>rehashidx := r\<rparr>)" "rehashidx d \<le> r"
      "out \<longrightarrow> rehashidx d < r" "dict_inv T (d\<lparr>rehashidx := r\<rparr>)" "\<exists>c'. bucket d 0 (nat r) = Some c'"
      using skip_empty_ok [OF Suc.prems(2,3) j] by blast
    let ?d = "d\<lparr>rehashidx := r\<rparr>"
    have re: "dictIsRehashing ?d" using r0 sk(2) by simp
    show ?thesis
    proof (cases out)
      case True
      then have run: "rehash_loop T (Suc n) e d = Some (True, ?d)" using False assert sk(1) by simp
      show ?thesis unfolding run using True sk re by (intro exI [of _ True] exI [of _ ?d]) (simp add: frame_def)
    next
      case nout: False
      from sk(5) obtain c' where c': "bucket ?d 0 (nat (rehashidx ?d)) = Some c'" by auto
      from move_bucket_ok [OF Suc.prems(1) sk(4) re c'] obtain d1 where
        d1: "move_chain T c' ?d = Some d1" "rehashidx d1 = r"
          "dict_inv T ((set_bucket 0 (nat r) [] d1)\<lparr>rehashidx := r + 1\<rparr>)" "content (set_bucket 0 (nat r) [] d1) = content d"
          "ht_size_exp d1 = ht_size_exp d" "frame d (set_bucket 0 (nat r) [] d1)"
        by (auto simp: Let_def frame_def)
      let ?d2 = "(set_bucket 0 (nat r) [] d1)\<lparr>rehashidx := r + 1\<rparr>"
      have run: "rehash_loop T (Suc n) e d = rehash_loop T n e' ?d2"
        using False assert sk(1) nout c' d1(1,2) by (simp add: Let_def)
      have "dictIsRehashing ?d2" using r0 sk(2) by simp
      from Suc.IH [OF Suc.prems(1) d1(3) this, of e'] show ?thesis
        unfolding run using d1 sk(2) by (auto simp: frame_def)
    qed
  next
    case True
    then show ?thesis using Suc.prems by (intro exI [of _ False] exI [of _ d]) (simp add: frame_def)
  qed
qed (auto simp: frame_def)

text \<open>A rehashing call never fails, keeps the invariant and the content, and either finishes the
  migration or moves its index forward.\<close>

lemma dictRehash_ok:
  assumes T: "type_ok T" and inv: "dict_inv T d"
  shows "\<exists>more d'. dictRehash can T d n = Some (more, d') \<and> dict_inv T d' \<and> content d' = content d \<and> frame d d'
     \<and> (\<not> dictIsRehashing d \<longrightarrow> d' = d)
     \<and> (more \<and> 0 < n \<longrightarrow> dictIsRehashing d' \<and> rehashidx d < rehashidx d' \<and> ht_size_exp d' = ht_size_exp d)
     \<and> (\<not> more \<longrightarrow> d' = d \<or> \<not> dictIsRehashing d' \<and> ht_size_exp d' 0 = ht_size_exp d 1)
     \<and> (\<not> more \<and> can = DICT_RESIZE_ENABLE \<longrightarrow> \<not> dictIsRehashing d')"
proof (cases "dictIsRehashing d")
  case False
  then show ?thesis using inv by (intro exI [of _ False] exI [of _ d]) (simp add: dictRehash_def frame_def)
next
  case True
  obtain out d1 where l: "rehash_loop T n (int n * 10) d = Some (out, d1)" "dict_inv T d1" "dictIsRehashing d1"
      "content d1 = content d" "frame d d1" "ht_size_exp d1 = ht_size_exp d"
      "0 < n \<and> (out \<or> 0 < ht_used d1 0) \<longrightarrow> rehashidx d < rehashidx d1"
    using rehash_loop_ok [OF T inv True, of n "int n * 10"] by (elim exE conjE) (rule that)
  have fin: "dict_inv T (snd (rehash_finish d1))" "content (snd (rehash_finish d1)) = content d1"
    "frame d1 (snd (rehash_finish d1))"
    "fst (rehash_finish d1) \<longleftrightarrow> 0 < ht_used d1 0"
    "ht_used d1 0 = 0 \<Longrightarrow> \<not> dictIsRehashing (snd (rehash_finish d1))
       \<and> ht_size_exp (snd (rehash_finish d1)) 0 = ht_size_exp d1 1"
    "0 < ht_used d1 0 \<Longrightarrow> snd (rehash_finish d1) = d1"
  proof -
    show "fst (rehash_finish d1) \<longleftrightarrow> 0 < ht_used d1 0" "0 < ht_used d1 0 \<Longrightarrow> snd (rehash_finish d1) = d1"
      by (simp_all add: rehash_finish_def)
    show "frame d1 (snd (rehash_finish d1))" by (simp add: rehash_finish_def frame_def dictReset_def)
    show "ht_used d1 0 = 0 \<Longrightarrow> \<not> dictIsRehashing (snd (rehash_finish d1))
       \<and> ht_size_exp (snd (rehash_finish d1)) 0 = ht_size_exp d1 1"
      by (simp add: rehash_finish_def dictReset_def dictIsRehashing_def)
    have e: "entries d1 0 = []" if "ht_used d1 0 = 0" using used_length [OF dict_invD(1) [OF l(2)]] that by simp
    show c: "content (snd (rehash_finish d1)) = content d1"
      using e by (auto simp: rehash_finish_def dictReset_def content_eq entries_def)
    show "dict_inv T (snd (rehash_finish d1))"
    proof (cases "ht_used d1 0 = 0")
      case True
      have "table_ok T (snd (rehash_finish d1)) 0"
        using dict_invD(2) [OF l(2)] True
        by (simp add: rehash_finish_def dictReset_def table_ok_def split: option.splits)
      then show ?thesis
        using True c dict_invD(3) [OF l(2)]
        by (simp add: dict_inv_def rehash_finish_def dictReset_def dictIsRehashing_def table_ok_def)
    next
      case False
      then show ?thesis using l(2) by (simp add: rehash_finish_def)
    qed
  qed
  show ?thesis
  proof (cases "dictRehash can T d n = Some (False, d) \<and> can \<noteq> DICT_RESIZE_ENABLE")
    case True
    then show ?thesis using inv by (intro exI [of _ False] exI [of _ d]) (simp add: frame_def)
  next
    case False
    then have run: "dictRehash can T d n = Some (if out then (True, d1) else rehash_finish d1)"
      using True l(1) by (cases can) (auto simp: dictRehash_def Let_def split: if_splits)
    show ?thesis
    proof (cases out)
      case True
      then show ?thesis using run l \<open>dictIsRehashing d\<close> by (intro exI [of _ True] exI [of _ d1]) simp
    next
      case False
      then show ?thesis
        using run l fin \<open>dictIsRehashing d\<close>
        by (intro exI [of _ "fst (rehash_finish d1)"] exI [of _ "snd (rehash_finish d1)"])
           (cases "ht_used d1 0 = 0", auto simp: frame_def prod_eq_iff)
    qed
  qed
qed

lemma dictRehashStep_ok:
  assumes "type_ok T" "dict_inv T d"
  shows "\<exists>d'. dictRehashStep can T d = Some d' \<and> dict_inv T d' \<and> content d' = content d \<and> frame d d'
     \<and> (\<not> dictIsRehashing d \<longrightarrow> d' = d)"
  using dictRehash_ok [OF assms, of can 1] assms(2)
  by (auto simp: dictRehashStep_def frame_def)

text \<open>What the operations do first.\<close>

lemma rehash_first:
  assumes "type_ok T" "dict_inv T d"
  shows "\<exists>d'. (if dictIsRehashing d then dictRehashStep can T d else Some d) = Some d'
     \<and> dict_inv T d' \<and> content d' = content d \<and> frame d d'"
  using dictRehashStep_ok [OF assms, of can] assms(2) by (auto simp: frame_def)

section \<open>Lookup\<close>

lemma chain_find_None: "linked c \<Longrightarrow> chain_find T k n c = None \<longleftrightarrow> (\<forall>x \<in> set c. \<not> same_key T k (dictGetKey x))"
  by (induction c arbitrary: n) (auto simp: same_key_def dictGetNext_def)

lemma chain_find_Some:
  "linked c \<Longrightarrow> chain_find T k n c = Some p \<Longrightarrow>
     n \<le> p \<and> p < n + length c \<and> same_key T k (dictGetKey (c ! (p - n)))"
proof (induction c arbitrary: n)
  case (Cons de c)
  show ?case
  proof (cases "same_key T k (dictGetKey de)")
    case True
    then show ?thesis using Cons.prems by (auto simp: same_key_def)
  next
    case False
    then have "chain_find T k (n + 1) c = Some p" "linked c"
      using Cons.prems by (auto simp: same_key_def dictGetNext_def split: if_splits)
    from Cons.IH [OF this(2,1)] show ?thesis by (auto simp: nth_Cons')
  qed
qed simp

text \<open>A reference to an entry with the key, in its bucket.\<close>

definition ref_of :: "'v dictType \<Rightarrow> 'v dict \<Rightarrow> ptr \<Rightarrow> eref \<Rightarrow> bool" where
  "ref_of T d k r = (case r of (t, i, p) \<Rightarrow> t \<in> {0, 1} \<and>
     (\<exists>b e. ht_table d t = Some b \<and> ht_size_exp d t = int e \<and> tab_ok T b e (ht_used d t) \<and>
        i = hash_mod T e k \<and> i < length b \<and> p < length (b ! i) \<and> same_key T k (dictGetKey (b ! i ! p))))"

lemma find_in_table:
  assumes T: "type_ok T" and ok: "table_ok T d t" and b: "ht_table d t = Some b" and t: "t \<in> {0, 1}"
  shows "\<exists>c. bucket d t (key_index (hashFunction T k) d t) = Some c
     \<and> (case chain_find T k 0 c of
          None \<Rightarrow> \<forall>x \<in> set (entries d t). \<not> same_key T k (dictGetKey x)
        | Some p \<Rightarrow> ref_of T d k (t, key_index (hashFunction T k) d t, p))"
proof -
  obtain e where e: "ht_size_exp d t = int e" "tab_ok T b e (ht_used d t)" "e \<le> 60" "length b = 2 ^ e"
    using table_okE [OF ok b] .
  have i: "key_index (hashFunction T k) d t = hash_mod T e k"
    using key_index_eq [OF e(1,3)] by (simp add: hash_mod_def)
  let ?i = "hash_mod T e k"
  have il: "?i < length b" by (rule hash_mod_less) (rule e)
  then have li: "linked (b ! ?i)" using e(2) by (auto simp: tab_ok_def chain_ok_def)
  have none: "\<not> same_key T k (dictGetKey x)"
    if "\<forall>x \<in> set (b ! ?i). \<not> same_key T k (dictGetKey x)" "x \<in> set (entries d t)" for x
  proof
    assume s: "same_key T k (dictGetKey x)"
    then have "hash_mod T e (dictGetKey x) = ?i" using type_okD(3) [OF T s] by (simp add: hash_mod_def)
    moreover have "x \<in> set (b ! hash_mod T e (dictGetKey x))"
      using tab_entry [OF e(2), of x] that(2) b by (simp add: entries_def)
    ultimately show False using that(1) s by auto
  qed
  show ?thesis
  proof (cases "chain_find T k 0 (b ! ?i)")
    case None
    from none [OF chain_find_None [OF li, THEN iffD1, OF this]] None show ?thesis
      using b il i by (simp add: bucket_def)
  next
    case (Some p)
    from chain_find_Some [OF li this] have "p < length (b ! ?i)" "same_key T k (dictGetKey (b ! ?i ! p))" by simp_all
    then show ?thesis using Some t b e il i by (auto simp: bucket_def ref_of_def)
  qed
qed

lemma find_ref_ok:
  assumes T: "type_ok T" and inv: "dict_inv T d" and b: "ht_table d 0 \<noteq> None"
  shows "\<exists>r. find_ref T k d = Some r \<and>
     (case r of None \<Rightarrow> dict_get T d k = None | Some e \<Rightarrow> ref_of T d k e)"
proof -
  obtain b0 where b0: "ht_table d 0 = Some b0" using b by blast
  obtain c0 where c0: "bucket d 0 (key_index (hashFunction T k) d 0) = Some c0"
     "case chain_find T k 0 c0 of
          None \<Rightarrow> \<forall>x \<in> set (entries d 0). \<not> same_key T k (dictGetKey x)
        | Some p \<Rightarrow> ref_of T d k (0, key_index (hashFunction T k) d 0, p)"
    using find_in_table [OF T dict_invD(1) [OF inv] b0, of k] by auto
  show ?thesis
  proof (cases "chain_find T k 0 c0")
    case (Some p)
    then show ?thesis using c0 by (simp add: find_ref_def Let_def)
  next
    case None
    show ?thesis
    proof (cases "dictIsRehashing d")
      case False
      then have "entries d 1 = []" using dict_invD(6) [OF inv] by (simp add: entries_def)
      then have "dict_get T d k = None"
        using None c0(2) by (auto simp: dict_get_None content_eq)
      then show ?thesis using None c0(1) False by (simp add: find_ref_def Let_def)
    next
      case True
      then obtain b1 where b1: "ht_table d 1 = Some b1" using dict_invD(4) [OF inv] by blast
      obtain c1 where c1: "bucket d 1 (key_index (hashFunction T k) d 1) = Some c1"
         "case chain_find T k 0 c1 of
              None \<Rightarrow> \<forall>x \<in> set (entries d 1). \<not> same_key T k (dictGetKey x)
            | Some p \<Rightarrow> ref_of T d k (1, key_index (hashFunction T k) d 1, p)"
        using find_in_table [OF T dict_invD(2) [OF inv] b1, of k] by auto
      have run: "find_ref T k d = Some (map_option (\<lambda>p. (1, key_index (hashFunction T k) d 1, p)) (chain_find T k 0 c1))"
        using None c0(1) c1(1) True by (simp add: find_ref_def Let_def)
      show ?thesis
      proof (cases "chain_find T k 0 c1")
        case N: None
        then have "dict_get T d k = None" using None c0(2) c1(2) by (auto simp: dict_get_None content_eq)
        then show ?thesis unfolding run using N by simp
      next
        case (Some p)
        then show ?thesis unfolding run using c1(2) by simp
      qed
    qed
  qed
qed

section \<open>Resizing\<close>

lemma bit_length_0 [simp]: "bit_length 0 = 0"
  by (subst bit_length.simps) simp

lemma bit_length_bounds: "n < 2 ^ bit_length n \<and> (0 < n \<longrightarrow> 2 ^ (bit_length n - 1) \<le> n)"
proof (induction n rule: bit_length.induct)
  case (1 n)
  show ?case
  proof (cases "n = 0")
    case False
    then have "n div 2 < 2 ^ bit_length (n div 2)" "0 < n div 2 \<longrightarrow> 2 ^ (bit_length (n div 2) - 1) \<le> n div 2"
      using 1 by auto
    moreover have "bit_length n = Suc (bit_length (n div 2))" using False by (subst bit_length.simps) simp
    moreover have "n div 2 = 0 \<longrightarrow> bit_length (n div 2) = 0" by (subst bit_length.simps) simp
    ultimately show ?thesis using False by (cases "bit_length (n div 2)") auto
  qed simp
qed

lemma bit_length_le: "n < 2 ^ k \<Longrightarrow> bit_length n \<le> k"
proof (rule ccontr)
  assume n: "n < 2 ^ k" and "\<not> bit_length n \<le> k"
  then have k: "k \<le> bit_length n - 1" "n \<noteq> 0" by (auto intro: ccontr)
  have "(2::nat) ^ k \<le> 2 ^ (bit_length n - 1)" using k(1) by (simp add: power_increasing)
  also have "\<dots> \<le> n" using bit_length_bounds [of n] k(2) by simp
  finally show False using n by simp
qed

text \<open>The exponent chosen is that of the smallest power of two, at least 4, that is not below the
  size.\<close>

lemma dictNextExp_range: "2 \<le> dictNextExp sz \<and> dictNextExp sz \<le> 63"
proof (cases "sz \<le> 4 \<or> sz \<ge> 2 ^ 63 - 1")
  case False
  then have "sz - 1 < 2 ^ 63" "4 \<le> sz - 1" by auto
  moreover from this(2) have "2 \<le> bit_length (sz - 1)"
    using bit_length_bounds [of "sz - 1"] by (cases "bit_length (sz - 1) < 2") (auto simp: less_2_cases_iff)
  ultimately show ?thesis
    using False bit_length_le [of "sz - 1" 63]
    by (simp add: dictNextExp_def DICT_HT_INITIAL_SIZE_def DICT_HT_INITIAL_EXP_def clzl_def)
qed (auto simp: dictNextExp_def DICT_HT_INITIAL_SIZE_def DICT_HT_INITIAL_EXP_def)

lemma dictNextExp_least:
  assumes "sz \<le> 2 ^ 62"
  shows "sz \<le> 2 ^ nat (dictNextExp sz) \<and> (4 < sz \<longrightarrow> 2 ^ (nat (dictNextExp sz) - 1) < sz)"
proof (cases "sz \<le> 4")
  case False
  have "bit_length (sz - 1) \<le> 62" using assms by (intro bit_length_le) simp
  then have "nat (dictNextExp sz) = bit_length (sz - 1)"
    using False assms by (simp add: dictNextExp_def DICT_HT_INITIAL_SIZE_def DICT_HT_INITIAL_EXP_def clzl_def)
  then show ?thesis using bit_length_bounds [of "sz - 1"] False by auto
qed (simp add: dictNextExp_def DICT_HT_INITIAL_SIZE_def DICT_HT_INITIAL_EXP_def)

lemma size_overflow: "e \<le> 63 \<Longrightarrow> \<not> ((2::nat) ^ e * 8) mod 2 ^ 64 < 2 ^ e \<longleftrightarrow> e \<le> 60"
proof -
  assume e: "e \<le> 63"
  have p: "(2::nat) ^ e * 8 = 2 ^ (e + 3)" by (simp add: power_add)
  show ?thesis
  proof (cases "e \<le> 60")
    case True
    then have "(2::nat) ^ (e + 3) < 2 ^ 64" by (intro power_strict_increasing) auto
    then have "(2 ^ e * 8) mod 2 ^ 64 = (2::nat) ^ (e + 3)" unfolding p by (rule mod_less)
    moreover have "(2::nat) ^ e \<le> 2 ^ (e + 3)" by (rule power_increasing) auto
    ultimately show ?thesis using True by linarith
  next
    case False
    then have "(2::nat) ^ 64 dvd 2 ^ (e + 3)" by (intro le_imp_power_dvd) simp
    then show ?thesis using False unfolding p by (simp add: dvd_eq_mod_eq_0)
  qed
qed

lemma tab_ok_fresh: "e \<le> 60 \<Longrightarrow> tab_ok T (replicate (2 ^ e) []) e 0"
  by (simp add: tab_ok_def chain_ok_def)

lemma concat_replicate_Nil [simp]: "concat (replicate n []) = []"
  by (induction n) auto

lemma dictExpand'_ok:
  assumes inv: "dict_inv T d" and run: "dictExpand' fails d sz = (ok, f, d')"
  shows "dict_inv T d' \<and> content d' = content d \<and> frame d d' \<and> (\<not> ok \<longrightarrow> d' = d)
     \<and> (ok \<longrightarrow> ht_table d' 0 \<noteq> None \<and> (ht_table d 0 \<noteq> None \<longrightarrow> dictIsRehashing d'))"
proof (cases ok)
  case False
  then have "d' = d" using run by (auto simp: dictExpand'_def Let_def split: if_splits)
  then show ?thesis using inv False by (simp add: frame_def)
next
  case True
  define e where "e = nat (dictNextExp sz)"
  have e: "dictNextExp sz = int e" "e \<le> 63" using dictNextExp_range [of sz] by (auto simp: e_def)
  have no: "\<not> dictIsRehashing d" and e60: "e \<le> 60"
    using run True size_overflow [OF e(2)] by (auto simp: dictExpand'_def Let_def e(1) split: if_splits)
  have t1: "ht_table d 1 = None" by (rule dict_invD(6) [OF inv no])
  have t1': "ht_size_exp d 1 = -1" "ht_used d 1 = 0" using dict_invD(2) [OF inv] t1 by (auto simp: table_ok_def)
  note fresh = tab_ok_fresh [OF e60, of T]
  show ?thesis
  proof (cases "ht_table d 0")
    case None
    then have d': "d' = d\<lparr>ht_size_exp := (ht_size_exp d)(0 := int e), ht_used := (ht_used d)(0 := 0),
        ht_table := (ht_table d)(0 := Some (replicate (2 ^ e) []))\<rparr>"
      using run True by (auto simp: dictExpand'_def Let_def e(1) split: if_splits)
    have "content d' = content d" using None by (simp add: d' content_eq entries_def)
    moreover have "table_ok T d' 0" "table_ok T d' 1"
      using fresh dict_invD(2) [OF inv] t1 by (simp_all add: d' table_ok_def)
    ultimately show ?thesis
      using dict_invD(3) [OF inv] no t1 None True
      by (simp add: dict_inv_def d' dictIsRehashing_def frame_def)
  next
    case (Some b)
    then have d': "d' = d\<lparr>ht_size_exp := (ht_size_exp d)(1 := int e), ht_used := (ht_used d)(1 := 0),
        ht_table := (ht_table d)(1 := Some (replicate (2 ^ e) [])), rehashidx := 0\<rparr>"
      using run True by (auto simp: dictExpand'_def Let_def e(1) split: if_splits)
    have "content d' = content d" using t1 by (simp add: d' content_eq entries_def)
    moreover have "table_ok T d' 0" "table_ok T d' 1"
      using fresh dict_invD(1) [OF inv] Some by (simp_all add: d' table_ok_def)
    ultimately show ?thesis
      using dict_invD(3) [OF inv] Some True by (simp add: dict_inv_def d' dictIsRehashing_def frame_def)
  qed
qed

lemma size0_None: "table_ok T d 0 \<Longrightarrow> DICTHT_SIZE (ht_size_exp d 0) = 0 \<longleftrightarrow> ht_table d 0 = None"
  by (auto simp: table_ok_def DICTHT_SIZE_def split: option.splits)

text \<open>Below \<open>2 ^ 60\<close> entries an expansion that is called for succeeds.\<close>

lemma expand_succeeds:
  assumes inv: "dict_inv T d" and no: "\<not> dictIsRehashing d"
    and "ht_used d 0 \<le> sz" "sz \<le> 2 ^ 60" "DICTHT_SIZE (ht_size_exp d 0) < sz" "4 \<le> sz \<or> ht_table d 0 \<noteq> None"
  shows "fst (dictExpand d sz)"
proof -
  define e where "e = nat (dictNextExp sz)"
  have e: "dictNextExp sz = int e" "2 \<le> e" "e \<le> 63" using dictNextExp_range [of sz] by (auto simp: e_def)
  have b: "sz \<le> 2 ^ e" "4 < sz \<longrightarrow> 2 ^ (e - 1) < sz"
    using dictNextExp_least [of sz] assms(4) by (auto simp: e_def)
  have "e \<le> 60"
  proof (cases "4 < sz")
    case True
    then have "(2::nat) ^ (e - 1) < 2 ^ 60" using b assms(4) by simp
    then show ?thesis using power_less_imp_less_exp [of "2::nat" "e - 1" 60] by simp
  next
    case False
    then show ?thesis using e(1) by (simp add: dictNextExp_def DICT_HT_INITIAL_SIZE_def DICT_HT_INITIAL_EXP_def)
  qed
  moreover have "int e \<noteq> ht_size_exp d 0"
  proof
    assume "int e = ht_size_exp d 0"
    then have "DICTHT_SIZE (ht_size_exp d 0) = 2 ^ e" by (simp add: DICTHT_SIZE_def flip: \<open>int e = _\<close>)
    then show False using b(1) assms(5) by simp
  qed
  ultimately show ?thesis
    using no assms(3) b(1) size_overflow [OF e(3)] by (simp add: dictExpand_def dictExpand'_def Let_def e(1))
qed

lemma dictExpandIfNeeded_ok:
  assumes inv: "dict_inv T d" and sz: "dictSize d < 2 ^ 60"
  shows "\<exists>d'. dictExpandIfNeeded can T d = (True, d') \<and> dict_inv T d' \<and> content d' = content d \<and> frame d d'
     \<and> ht_table d' 0 \<noteq> None"
proof -
  have grow: "\<exists>d'. dictExpand d sz = (True, d') \<and> dict_inv T d' \<and> content d' = content d \<and> frame d d' \<and> ht_table d' 0 \<noteq> None"
    if "fst (dictExpand d sz)" for sz
    using dictExpand'_ok [OF inv, of False sz] that
    by (cases "dictExpand' False d sz") (auto simp: dictExpand_def)
  have u: "ht_used d 0 + 1 \<le> 2 ^ 60" using sz by (simp add: dictSize_def)
  show ?thesis
  proof (cases "dictIsRehashing d")
    case True
    then show ?thesis using inv dict_invD(4) [OF inv] by (simp add: dictExpandIfNeeded_def frame_def)
  next
    case no: False
    show ?thesis
    proof (cases "DICTHT_SIZE (ht_size_exp d 0) = 0")
      case True
      then have "ht_used d 0 = 0"
        using dict_invD(1) [OF inv] size0_None [of T d] by (simp add: table_ok_def)
      then have "fst (dictExpand d 4)" using True by (intro expand_succeeds [OF inv no]) auto
      then show ?thesis using grow [of 4] True no
        by (simp add: dictExpandIfNeeded_def DICT_HT_INITIAL_SIZE_def DICT_HT_INITIAL_EXP_def)
    next
      case False
      then have t0: "ht_table d 0 \<noteq> None" using size0_None [OF dict_invD(1) [OF inv]] by simp
      have stay: "dict_inv T d \<and> content d = content d \<and> frame d d \<and> ht_table d 0 \<noteq> None"
        using inv t0 by (simp add: frame_def)
      let ?grow = "(can = DICT_RESIZE_ENABLE \<and> ht_used d 0 \<ge> DICTHT_SIZE (ht_size_exp d 0)) \<or>
                (can \<noteq> DICT_RESIZE_FORBID \<and> ht_used d 0 div DICTHT_SIZE (ht_size_exp d 0) > dict_force_resize_ratio)"
      have run: "dictExpandIfNeeded can T d =
          (if ?grow then if \<not> dictTypeExpandAllowed T d then (True, d) else dictExpand d (ht_used d 0 + 1) else (True, d))"
        using no False by (simp add: dictExpandIfNeeded_def Let_def)
      have "fst (dictExpand d (ht_used d 0 + 1))" if ?grow
      proof -
        have "DICTHT_SIZE (ht_size_exp d 0) \<le> ht_used d 0"
        proof (rule ccontr)
          assume "\<not> DICTHT_SIZE (ht_size_exp d 0) \<le> ht_used d 0"
          with that show False by (simp add: dict_force_resize_ratio_def)
        qed
        then show ?thesis using u t0 by (intro expand_succeeds [OF inv no]) auto
      qed
      then show ?thesis unfolding run using stay grow by auto
    qed
  qed
qed

end
