(* ===== verification/Dict_Map.thy ===== *)
theory Dict_Map
  imports Dict_Rep Interfaces
begin

text \<open>
  The operations of a dictionary on the map it stands for: insertion, replacement, lookup, deletion in
  one and in two phases.
\<close>

section \<open>Changing one bucket\<close>

text \<open>Replacing a chain keeps the invariant when the new chain fits the bucket and the keys stay
  unique; the content changes by the difference of the chains.\<close>

lemma set_chain_ok:
  assumes inv: "dict_inv T d" and t: "t \<in> {0, 1}" and b: "ht_table d t = Some b" "i < length b"
    and e: "ht_size_exp d t = int e" "tab_ok T b e (ht_used d t)"
    and c: "chain_ok T c" "\<And>x. x \<in> set c \<Longrightarrow> hash_mod T e (dictGetKey x) = i"
    and u: "u + length (b ! i) = ht_used d t + length c"
    and re: "dictIsRehashing d \<Longrightarrow> t = 0 \<Longrightarrow> i < nat (rehashidx d) \<Longrightarrow> c = []"
    and M: "M + mset (map kv (b ! i)) = content d + mset (map kv c)" "uniq T M"
    and d': "d' = (set_bucket t i c d)\<lparr>ht_used := (ht_used d)(t := u)\<rparr>"
  shows "dict_inv T d' \<and> content d' = M"
proof -
  have "tab_ok T (b[i := c]) e u" by (rule tab_ok_update [OF e(2) b(2) c u])
  then have tt: "table_ok T d' t" using b e by (intro table_okI [of _ _ "b[i := c]" e]) (simp_all add: d')
  have "table_ok T d' t'" if "t' \<in> {0, 1}" for t'
  proof (cases "t' = t")
    case False
    have "table_ok T d t'" using that dict_invD(1,2) [OF inv] by auto
    then show ?thesis using False table_ok_cong [of d' t' d T] by (simp add: d')
  qed (use tt in simp)
  then have ok: "table_ok T d' 0" "table_ok T d' 1" by auto
  have "mset (map kv (entries d' t)) + mset (map kv (b ! i)) = mset (map kv (entries d t)) + mset (map kv c)"
    using mset_concat_update [OF b(2), of kv c] b(1) by (simp add: entries_def d')
  moreover have "entries d' t' = entries d t'" if "t' \<noteq> t" for t' using that by (simp add: entries_def d')
  ultimately have "content d' + mset (map kv (b ! i)) = content d + mset (map kv c)"
    using t by (auto simp: content_eq add_ac)
  then have M': "content d' = M" using M(1) by (metis add_right_cancel)
  have bk: "bucket d' 0 j = Some []" if j: "dictIsRehashing d" "j < nat (rehashidx d)" for j
  proof (cases "t = 0 \<and> j = i")
    case True
    then show ?thesis using re [OF j(1)] j(2) b by (auto simp: bucket_def d')
  next
    case False
    then show ?thesis using dict_invD(5) [OF inv j] by (auto simp: bucket_Some d')
  qed
  show ?thesis
    using ok M' M(2) bk dict_invD(4,6) [OF inv] by (auto simp: dict_inv_def d' dictIsRehashing_def)
qed

lemma uniq_add:
  assumes T: "type_ok T" and "uniq T M" "\<forall>p \<in># M. \<not> same_key T k (fst p)"
  shows "uniq T (add_mset (k, v) M)"
  unfolding uniq_def
proof
  fix k'
  show "size (filter_mset (\<lambda>p. same_key T k' (fst p)) (add_mset (k, v) M)) \<le> 1"
  proof (cases "same_key T k' k")
    case True
    then have "\<forall>p \<in># M. \<not> same_key T k' (fst p)"
      using assms(3) type_okD(1,2) [OF T] by blast
    then have "filter_mset (\<lambda>p. same_key T k' (fst p)) M = {#}"
      using filter_mset_cong [OF refl, of M "\<lambda>p. same_key T k' (fst p)" "\<lambda>_. False"] by simp
    then show ?thesis using True by simp
  next
    case False
    then show ?thesis using assms(2) by (simp add: uniq_def)
  qed
qed

lemma uniq_subset: "uniq T M \<Longrightarrow> N \<subseteq># M \<Longrightarrow> uniq T N"
  unfolding uniq_def by (meson le_trans multiset_filter_mono size_mset_mono)

lemma uniq_cong_key: "uniq T (add_mset (k, v) M) \<Longrightarrow> uniq T (add_mset (k, w) M)"
proof -
  have "size (filter_mset (\<lambda>p. same_key T k' (fst p)) (add_mset (k, w) M))
      = size (filter_mset (\<lambda>p. same_key T k' (fst p)) (add_mset (k, v) M))" for k'
    by simp
  then show "uniq T (add_mset (k, v) M) \<Longrightarrow> uniq T (add_mset (k, w) M)" by (simp only: uniq_def simp_thms)
qed

section \<open>Insertion\<close>

lemma insert_at_ok:
  assumes T: "type_ok T" and inv: "dict_inv T d" and gk: "good_key T k" and k: "same_key T k k0"
    and t: "t = (if dictIsRehashing d then 1 else 0)" and t0: "ht_table d 0 \<noteq> None"
    and i: "i = key_index (hashFunction T k0) d t" and new: "dict_get T d k0 = None"
  shows "\<exists>d'. dictInsertAtPosition T d k (t, i) = Some ((t, i, 0), d') \<and> dict_inv T d'
     \<and> content d' = add_mset (k, None) (content d) \<and> frame d d' \<and> ref_of T d' k (t, i, 0)
     \<and> dictIsRehashing d' = dictIsRehashing d"
proof -
  obtain b where b: "ht_table d t = Some b" using t t0 dict_invD(4) [OF inv] by (auto split: if_splits)
  have tok: "table_ok T d t" using t dict_invD(1,2) [OF inv] by simp
  obtain e where e: "ht_size_exp d t = int e" "tab_ok T b e (ht_used d t)" "e \<le> 60" "length b = 2 ^ e"
    using table_okE [OF tok b] .
  have i': "i = hash_mod T e k"
    using key_index_eq [OF e(1,3)] type_okD(3) [OF T k] by (simp add: i hash_mod_def)
  have il: "i < length b" unfolding i' by (rule hash_mod_less) (rule e)
  have bk: "bucket d t i = Some (b ! i)" using b il by (simp add: bucket_def)
  have assert: "i \<le> DICTHT_SIZE_MASK (ht_size_exp d t)"
    using il e by (simp add: DICTHT_SIZE_MASK_def DICTHT_SIZE_def)
  have old: "chain_ok T (b ! i)" "\<And>x. x \<in> set (b ! i) \<Longrightarrow> hash_mod T e (dictGetKey x) = i"
    using e(2) il by (auto simp: tab_ok_def)
  define n :: "'a dictEntry" where
    "n = (if no_value T then if keys_are_odd T \<and> b ! i = [] then EntryKey k else EntryNoValue k else Entry k None)"
  have n: "kv n = (k, None)" "entry_ok T n" "entryIsKey n \<longrightarrow> b ! i = []"
    using gk by (auto simp: n_def good_key_def)
  let ?d = "inc_used t (set_bucket t i (n # b ! i) d)"
  have run: "dictInsertAtPosition T d k (t, i) = Some ((t, i, 0), ?d)"
    using bk assert gk by (auto simp: dictInsertAtPosition_def Let_def n_def good_key_def simp flip: t)
  have nk: "dictGetKey n = k" using n(1) by (metis fst_conv fst_kv)
  have none: "\<forall>p \<in># content d. \<not> same_key T k (fst p)"
    using new k type_okD(1,2) [OF T] unfolding dict_get_None by blast
  have "dict_inv T ?d \<and> content ?d = add_mset (k, None) (content d)"
  proof (rule set_chain_ok [OF inv _ b il e(1,2)])
    show "chain_ok T (n # b ! i)" using n old by (auto simp: chain_ok_def)
    show "hash_mod T e (dictGetKey x) = i" if "x \<in> set (n # b ! i)" for x
      using that old(2) nk i' by auto
    show "uniq T (add_mset (k, None) (content d))"
      by (rule uniq_add [OF T dict_invD(3) [OF inv] none])
    show "?d = (set_bucket t i (n # b ! i) d)\<lparr>ht_used := (ht_used d)(t := ht_used d t + 1)\<rparr>"
      by (simp add: inc_used_def)
  qed (use t n(1) in \<open>auto split: if_splits\<close>)
  moreover have "ref_of T ?d k (t, i, 0)"
  proof -
    have "tab_ok T (b[i := n # b ! i]) e (ht_used d t + 1)"
    proof (rule tab_ok_update [OF e(2) il])
      show "chain_ok T (n # b ! i)" using n old by (auto simp: chain_ok_def)
      show "hash_mod T e (dictGetKey x) = i" if "x \<in> set (n # b ! i)" for x
        using that old(2) nk i' by auto
    qed simp
    then show ?thesis using t b e(1) il i' nk by (auto simp: ref_of_def)
  qed
  ultimately show ?thesis using run by (auto simp: frame_def dictIsRehashing_def)
qed

lemma ref_of_content:
  assumes inv: "dict_inv T d" and r: "ref_of T d k r"
  shows "\<exists>x. deref d r = Some x \<and> kv x \<in># content d \<and> same_key T k (dictGetKey x) \<and> entry_ok T x"
proof -
  obtain t i p where r': "r = (t, i, p)" by (cases r) auto
  obtain b e where b: "t \<in> {0, 1}" "ht_table d t = Some b" "tab_ok T b e (ht_used d t)" "i < length b"
    "p < length (b ! i)" "same_key T k (dictGetKey (b ! i ! p))"
    using r by (auto simp: ref_of_def r')
  have m: "b ! i ! p \<in> set (entries d t)"
    using b(2,4,5) by (auto simp: entries_def) (meson nth_mem)
  then have "entry_ok T (b ! i ! p)" using tab_entry [OF b(3)] b(2) by (simp add: entries_def)
  moreover have "kv (b ! i ! p) \<in># content d" using m b(1) by (auto simp: content_def)
  ultimately show ?thesis using b r' by (auto simp: bucket_def)
qed

lemma get_of_ref:
  assumes inv: "dict_inv T d" and r: "ref_of T d k r" and x: "deref d r = Some x"
  shows "dict_get T d k = Some (snd (kv x))"
  using ref_of_content [OF inv r] x dict_get_SomeI [OF dict_invD(3) [OF inv], of "kv x" k] by auto

text \<open>Setting the value of the entry a reference leads to.\<close>

lemma dictSetVal_ok:
  assumes inv: "dict_inv T d" and nv: "\<not> no_value T" and r: "ref_of T d k r"
  shows "\<exists>d' M k' v'. dictSetVal T d r v = Some d' \<and> dict_inv T d' \<and> frame d d' \<and> same_key T k k'
     \<and> content d = add_mset (k', v') M \<and> content d' = add_mset (k', Some (dup_val T v)) M"
proof -
  obtain t i p where r': "r = (t, i, p)" by (cases r) auto
  obtain b e where b: "t \<in> {0, 1}" "ht_table d t = Some b" "ht_size_exp d t = int e" "tab_ok T b e (ht_used d t)"
    "i < length b" "p < length (b ! i)" "same_key T k (dictGetKey (b ! i ! p))"
    using r by (auto simp: ref_of_def r')
  let ?c = "b ! i"
  have c: "chain_ok T ?c" "\<And>x. x \<in> set ?c \<Longrightarrow> hash_mod T e (dictGetKey x) = i"
    using b(4,5) by (auto simp: tab_ok_def)
  have "entry_ok T (?c ! p)" using c(1) b(6) by (simp add: chain_ok_def)
  then obtain k' v' where x: "?c ! p = Entry k' v'" using nv by (cases "?c ! p") auto
  define n where "n = Entry k' (Some (dup_val T v))"
  let ?d = "set_bucket t i (?c[p := n]) d"
  have run: "dictSetVal T d r v = Some ?d"
    using b x by (auto simp: dictSetVal_def r' bucket_def n_def dup_val_def)
  have split: "mset (map kv (?c[p := n])) + {#(k', v')#} = mset (map kv ?c) + {#(k', Some (dup_val T v))#}"
  proof -
    have "(k', v') \<in># mset (map kv ?c)" using b(6) x by (metis kv.simps(1) in_set_conv_nth length_map nth_map set_mset_mset)
    then show ?thesis using b(6) x by (simp add: map_update mset_update n_def insert_DiffM)
  qed
  have mem: "(k', v') \<in># content d"
    using ref_of_content [OF inv r] b x by (auto simp: r' bucket_def)
  obtain M where M: "content d = add_mset (k', v') M" using mem by (metis insert_DiffM)
  have li: "linked (?c[p := n])"
  proof -
    have "linked c \<Longrightarrow> \<not> entryIsKey n \<Longrightarrow> linked (c[q := n])" for c q
    proof (induction c arbitrary: q)
      case (Cons de c)
      then show ?case by (cases q) auto
    qed simp
    then show ?thesis using c(1) by (simp add: chain_ok_def n_def)
  qed
  have "dict_inv T ?d \<and> content ?d = add_mset (k', Some (dup_val T v)) M"
  proof (rule set_chain_ok [OF inv b(1,2,5,3,4)])
    show "chain_ok T (?c[p := n])"
      using c(1) li nv set_update_subset_insert [of ?c p n] by (auto simp: chain_ok_def n_def)
    show "hash_mod T e (dictGetKey y) = i" if "y \<in> set (?c[p := n])" for y
    proof -
      have "y = n \<or> y \<in> set ?c" using that set_update_subset_insert [of ?c p n] by auto
      moreover have "Entry k' v' \<in> set ?c" using nth_mem [OF b(6)] x by simp
      ultimately show ?thesis using c(2) [of "Entry k' v'"] c(2) [of y] by (auto simp: n_def)
    qed
    show "?c[p := n] = []" if "dictIsRehashing d" "t = 0" "i < nat (rehashidx d)"
      using dict_invD(5) [OF inv that(1,3)] that(2) b by (auto simp: bucket_def)
    show "add_mset (k', Some (dup_val T v)) M + mset (map kv ?c) = content d + mset (map kv (?c[p := n]))"
      using split by (simp add: M add_ac)
    show "uniq T (add_mset (k', Some (dup_val T v)) M)"
      using dict_invD(3) [OF inv] unfolding M by (rule uniq_cong_key)
    show "?d = (set_bucket t i (?c[p := n]) d)\<lparr>ht_used := (ht_used d)(t := ht_used d t)\<rparr>"
      by (simp add: set_bucket_def)
  qed simp
  moreover have "same_key T k k'" using b(7) x by simp
  ultimately show ?thesis using run M by (auto simp: frame_def)
qed

section \<open>The map after an update of the content\<close>

lemma get_insert:
  assumes T: "type_ok T" and u: "uniq T (content d)" "uniq T (content d')"
    and c: "content d' = add_mset (k', w) M" "content d = M \<or> content d = add_mset (k', v) M"
    and k: "same_key T k k'"
  shows "dict_get T d' = (\<lambda>x. if same_key T k x then Some w else dict_get T d x)"
proof
  fix x
  show "dict_get T d' x = (if same_key T k x then Some w else dict_get T d x)"
  proof (cases "same_key T k x")
    case True
    then have "same_key T x k'" using k type_okD(1,2) [OF T] by blast
    then show ?thesis using dict_get_SomeI [OF u(2), of "(k', w)" x] c(1) True by simp
  next
    case False
    then have nk: "\<not> same_key T x k'" using k type_okD(1,2) [OF T] by blast
    show ?thesis
    proof (cases "dict_get T d' x")
      case None
      then have "dict_get T d x = None" using c nk by (auto simp: dict_get_None)
      then show ?thesis using None False by simp
    next
      case (Some y)
      then obtain p where p: "p \<in># content d'" "same_key T x (fst p)" "snd p = y" by (auto dest: dict_get_SomeD)
      then have "p \<in># content d" using c nk by auto
      then show ?thesis using dict_get_SomeI [OF u(1) _ p(2)] p(3) Some False by simp
    qed
  qed
qed

lemma get_remove:
  assumes T: "type_ok T" and u: "uniq T (content d)"
    and c: "content d = add_mset (k', w) (content d')" and k: "same_key T k k'"
  shows "dict_get T d' = (\<lambda>x. if same_key T k x then None else dict_get T d x)"
proof
  fix x
  have u': "uniq T (content d')" by (rule uniq_subset [OF u]) (simp add: c)
  show "dict_get T d' x = (if same_key T k x then None else dict_get T d x)"
  proof (cases "same_key T k x")
    case True
    have "dict_get T d' x = None"
    proof (rule ccontr)
      assume "dict_get T d' x \<noteq> None"
      then obtain p where p: "p \<in># content d'" "same_key T x (fst p)" by (auto simp: dict_get_None)
      let ?F = "filter_mset (\<lambda>p. same_key T x (fst p))"
      have "same_key T x k'" using k True type_okD(1,2) [OF T] by blast
      then have "size (?F (content d)) = 1 + size (?F (content d'))" by (simp add: c)
      moreover have "p \<in># ?F (content d')" using p by simp
      then obtain N where "?F (content d') = add_mset p N" by (metis multi_member_split)
      then have "size (?F (content d')) > 0" by (simp only: size_add_mset zero_less_Suc)
      moreover have "size (?F (content d)) \<le> 1" using u by (simp only: uniq_def)
      ultimately show False by linarith
    qed
    then show ?thesis using True by simp
  next
    case False
    then have nk: "\<not> same_key T x k'" using k type_okD(1,2) [OF T] by blast
    show ?thesis
    proof (cases "dict_get T d' x")
      case None
      then have "dict_get T d x = None" using c nk by (auto simp: dict_get_None)
      then show ?thesis using None False by simp
    next
      case (Some y)
      then obtain p where p: "p \<in># content d'" "same_key T x (fst p)" "snd p = y" by (auto dest: dict_get_SomeD)
      then have "p \<in># content d" using c by simp
      then show ?thesis using dict_get_SomeI [OF u _ p(2)] p(3) Some False by simp
    qed
  qed
qed

lemma size_content: "dict_inv T d \<Longrightarrow> size (content d) = dictSize d"
  using used_length [of T d 0] used_length [of T d 1] dict_invD(1,2) [of T d]
  by (simp add: content_def dictSize_def)

section \<open>dictAddRaw, dictAdd and dictReplace\<close>

lemma dictAddRaw_ok:
  assumes T: "type_ok T" and inv: "dict_inv T d" and gk: "good_key T k" and sz: "dictSize d < 2 ^ 60"
  shows "\<exists>e d'. dict_inv T d' \<and> frame d d' \<and>
     (if dict_get T d k = None
      then dictAddRaw can T d k = Some (Some e, None, d') \<and> ref_of T d' (dup_key T k) e
        \<and> content d' = add_mset (dup_key T k, None) (content d)
      else dictAddRaw can T d k = Some (None, Some e, d') \<and> ref_of T d' k e \<and> content d' = content d)"
proof -
  obtain d1 where d1: "(if dictIsRehashing d then dictRehashStep can T d else Some d) = Some d1"
    "dict_inv T d1" "content d1 = content d" "frame d d1"
    using rehash_first [OF T inv] by blast
  have "dictSize d1 < 2 ^ 60" using sz size_content [OF inv] size_content [OF d1(2)] d1(3) by simp
  then obtain d2 where d2: "dictExpandIfNeeded can T d1 = (True, d2)" "dict_inv T d2" "content d2 = content d1"
    "frame d1 d2" "ht_table d2 0 \<noteq> None"
    using dictExpandIfNeeded_ok [OF d1(2)] by blast
  have get: "dict_get T d2 = dict_get T d"
    using dict_get_cong [OF dict_invD(3) [OF inv], of d2] d1(3) d2(3) by simp
  obtain r where r: "find_ref T k d2 = Some r"
    "case r of None \<Rightarrow> dict_get T d2 k = None | Some e \<Rightarrow> ref_of T d2 k e"
    using find_ref_ok [OF T d2(2,5)] by blast
  show ?thesis
  proof (cases r)
    case None
    let ?t = "if dictIsRehashing d2 then 1 else 0"
    have n: "dict_get T d k = None" using r(2) None get by simp
    obtain d3 where d3: "dictInsertAtPosition T d2 (dup_key T k) (?t, key_index (hashFunction T k) d2 ?t)
        = Some ((?t, key_index (hashFunction T k) d2 ?t, 0), d3)" "dict_inv T d3"
      "content d3 = add_mset (dup_key T k, None) (content d2)" "frame d2 d3"
      "ref_of T d3 (dup_key T k) (?t, key_index (hashFunction T k) d2 ?t, 0)"
      using insert_at_ok [OF T d2(2) type_okD(5) [OF T gk] type_okD(4) [OF T] refl d2(5) refl] r(2) None by auto
    have "dictAddRaw can T d k = Some (Some (?t, key_index (hashFunction T k) d2 ?t, 0), None, d3)"
      using d1(1) d2(1) r(1) None d3(1)
      by (simp add: dictAddRaw_def dictFindPositionForInsert_def Let_def dup_key_def)
    then show ?thesis using n d3 d1(3,4) d2(3,4) by (auto simp: frame_def)
  next
    case (Some e)
    have "dict_get T d k \<noteq> None"
      using get_of_ref [OF d2(2)] ref_of_content [OF d2(2)] r(2) Some get by fastforce
    moreover have "dictAddRaw can T d k = Some (None, Some e, d2)"
      using d1(1) d2(1) r(1) Some by (simp add: dictAddRaw_def dictFindPositionForInsert_def Let_def)
    ultimately show ?thesis using r(2) Some d1(3,4) d2 by (intro exI [of _ e] exI [of _ d2]) (auto simp: frame_def)
  qed
qed

text \<open>The log and the pause counter do not matter to the representation.\<close>

lemma other_fields [simp]:
  "content (d\<lparr>destroyed := l\<rparr>) = content d" "dictSize (d\<lparr>destroyed := l\<rparr>) = dictSize d"
  "content (d\<lparr>pauserehash := n\<rparr>) = content d" "dictSize (d\<lparr>pauserehash := n\<rparr>) = dictSize d"
  by (simp_all add: content_def entries_def dictSize_def)

lemma other_fields_inv [simp]:
  "dict_inv T (d\<lparr>destroyed := l\<rparr>) = dict_inv T d" "dict_inv T (d\<lparr>pauserehash := n\<rparr>) = dict_inv T d"
  by (simp_all add: dict_inv_def table_ok_def bucket_def dictIsRehashing_def split: option.splits)

text \<open>What a new entry holds: the copy of the value, or nothing when the type has no values.\<close>

definition stored :: "'v dictType \<Rightarrow> 'v \<Rightarrow> 'v option" where
  "stored T v = (if no_value T then None else Some (dup_val T v))"

lemma dictAdd_ok:
  assumes T: "type_ok T" and inv: "dict_inv T d" and gk: "good_key T k" and sz: "dictSize d < 2 ^ 60"
  shows "\<exists>d'. dictAdd can T d k v = Some (dict_get T d k = None, d') \<and> dict_inv T d' \<and> frame d d'
     \<and> dict_get T d' = (if dict_get T d k = None then (\<lambda>x. if same_key T k x then Some (stored T v) else dict_get T d x)
                         else dict_get T d)
     \<and> dictSize d' = (if dict_get T d k = None then dictSize d + 1 else dictSize d)"
proof (cases "dict_get T d k")
  case (Some y)
  then obtain e d' where d': "dictAddRaw can T d k = Some (None, Some e, d')" "dict_inv T d'" "frame d d'" "content d' = content d"
    using dictAddRaw_ok [OF T inv gk sz, of can] by auto
  then have "dict_get T d' = dict_get T d" using dict_get_cong [OF dict_invD(3) [OF inv]] by blast
  then show ?thesis using d' Some size_content [OF inv] size_content [OF d'(2)] by (simp add: dictAdd_def)
next
  case None
  then obtain e d1 where d1: "dictAddRaw can T d k = Some (Some e, None, d1)" "dict_inv T d1" "frame d d1"
    "ref_of T d1 (dup_key T k) e" "content d1 = add_mset (dup_key T k, None) (content d)"
    using dictAddRaw_ok [OF T inv gk sz, of can] by auto
  have kk: "same_key T k (dup_key T k)" using type_okD(1,4) [OF T] by blast
  show ?thesis
  proof (cases "no_value T")
    case True
    then have st: "stored T v = None" by (simp add: stored_def)
    from True show ?thesis
      unfolding st using d1 None size_content [OF inv] size_content [OF d1(2)]
        get_insert [OF T dict_invD(3) [OF inv] dict_invD(3) [OF d1(2)] d1(5) disjI1 [OF refl] kk]
      by (simp add: dictAdd_def)
  next
    case False
    obtain d2 M k' v' where d2: "dictSetVal T d1 e v = Some d2" "dict_inv T d2" "frame d1 d2" "same_key T (dup_key T k) k'"
      "content d1 = add_mset (k', v') M" "content d2 = add_mset (k', Some (dup_val T v)) M"
      using dictSetVal_ok [OF d1(2) False d1(4)] by blast
    have "(k', v') = (dup_key T k, None)"
    proof (rule uniqD [OF dict_invD(3) [OF d1(2)], of _ _ "dup_key T k"])
      show "(k', v') \<in># content d1" unfolding d2(5) by simp
      show "(dup_key T k, None) \<in># content d1" unfolding d1(5) by simp
    qed (simp_all add: d2(4))
    then have M: "M = content d" "k' = dup_key T k" using d1(5) d2(5) by auto
    then have "dict_get T d2 = (\<lambda>x. if same_key T k x then Some (Some (dup_val T v)) else dict_get T d x)"
      by (intro get_insert [OF T dict_invD(3) [OF inv] dict_invD(3) [OF d2(2)] d2(6)]) (simp_all add: kk)
    moreover have st: "stored T v = Some (dup_val T v)" using False by (simp add: stored_def)
    ultimately show ?thesis
      unfolding st using d1 d2(1,2,3,6) M None False size_content [OF inv] size_content [OF d2(2)]
      by (simp add: dictAdd_def frame_def)
  qed
qed

lemma dictReplace_ok:
  assumes T: "type_ok T" and inv: "dict_inv T d" and gk: "good_key T k" and sz: "dictSize d < 2 ^ 60"
    and nv: "\<not> no_value T"
  shows "\<exists>d'. dictReplace can T d k v = Some (dict_get T d k = None, d') \<and> dict_inv T d'
     \<and> dict_get T d' = (\<lambda>x. if same_key T k x then Some (stored T v) else dict_get T d x)
     \<and> dictSize d' = (if dict_get T d k = None then dictSize d + 1 else dictSize d)
     \<and> destroyed d' = destroyed d @ (case dict_get T d k of Some old \<Rightarrow>
          if valDestructor T then [DestroyedVal old] else [] | None \<Rightarrow> [])"
proof (cases "dict_get T d k")
  case None
  obtain d' where "dictAdd can T d k v = Some (True, d')" "dict_inv T d'" "frame d d'"
    "dict_get T d' = (\<lambda>x. if same_key T k x then Some (stored T v) else dict_get T d x)" "dictSize d' = dictSize d + 1"
    using dictAdd_ok [OF T inv gk sz, of can v] None by auto
  moreover have "dictReplace can T d k v = Some (True, d')"
  proof -
    obtain e d1 where d1: "dictAddRaw can T d k = Some (Some e, None, d1)"
      using dictAddRaw_ok [OF T inv gk sz, of can] None by auto
    then show ?thesis using calculation(1) nv by (simp add: dictAdd_def dictReplace_def)
  qed
  ultimately show ?thesis using None by (auto simp: frame_def)
next
  case (Some y)
  obtain e d1 where d1: "dictAddRaw can T d k = Some (None, Some e, d1)" "dict_inv T d1" "frame d d1" "ref_of T d1 k e"
    "content d1 = content d"
    using dictAddRaw_ok [OF T inv gk sz, of can] Some by auto
  obtain x where x: "deref d1 e = Some x" "entry_ok T x" "same_key T k (dictGetKey x)"
    using ref_of_content [OF d1(2,4)] by blast
  have g1: "dict_get T d1 = dict_get T d" using dict_get_cong [OF dict_invD(3) [OF inv] d1(5)] .
  then have y: "snd (kv x) = y" using get_of_ref [OF d1(2,4) x(1)] Some by simp
  then have old: "dictGetVal x = Some y" using x(2) nv by (cases x) auto
  obtain d2 M k' v' where d2: "dictSetVal T d1 e v = Some d2" "dict_inv T d2" "frame d1 d2" "same_key T k k'"
    "content d1 = add_mset (k', v') M" "content d2 = add_mset (k', Some (dup_val T v)) M"
    using dictSetVal_ok [OF d1(2) nv d1(4)] by blast
  have g2: "dict_get T d2 = (\<lambda>x. if same_key T k x then Some (Some (dup_val T v)) else dict_get T d1 x)"
    by (rule get_insert [OF T dict_invD(3) [OF d1(2)] dict_invD(3) [OF d2(2)] d2(6) disjI2 [OF d2(5)] d2(4)])
  let ?d = "if valDestructor T then d2\<lparr>destroyed := destroyed d2 @ [DestroyedVal y]\<rparr> else d2"
  have run: "dictReplace can T d k v = Some (False, ?d)"
    using d1(1) x(1) old d2(1) by (simp add: dictReplace_def)
  have frame: "content ?d = content d2" "dict_inv T ?d = dict_inv T d2" "dictSize ?d = dictSize d2"
    by simp_all
  have "dict_get T ?d = dict_get T d2" by (rule dict_get_cong [OF dict_invD(3) [OF d2(2)] frame(1)])
  moreover have "dictSize d2 = dictSize d"
    using size_content [OF inv] size_content [OF d2(2)] d1(5) d2(5,6) by (metis size_add_mset)
  moreover have st: "stored T v = Some (dup_val T v)" using nv by (simp add: stored_def)
  ultimately show ?thesis
    unfolding run st using g2 [unfolded g1] d2(2,3) d1(3) frame(2,3) Some by (simp add: frame_def)
qed

section \<open>Lookup and deletion\<close>

text \<open>An empty dictionary is not even searched; otherwise the first table exists.\<close>

lemma nonempty_table:
  assumes "dict_inv T d" "dictSize d \<noteq> 0" shows "ht_table d 0 \<noteq> None"
proof
  assume "ht_table d 0 = None"
  then have "entries d 0 = []" "\<not> dictIsRehashing d" using dict_invD(4) [OF assms(1)] by (auto simp: entries_def)
  then have "content d = {#}" using dict_invD(6) [OF assms(1)] by (simp add: content_def entries_def)
  then show False using size_content [OF assms(1)] assms(2) by simp
qed

lemma empty_get: "dict_inv T d \<Longrightarrow> dictSize d = 0 \<Longrightarrow> dict_get T d k = None"
  using size_content [of T d] by (simp add: dict_get_None)

lemma search_ok:
  assumes T: "type_ok T" and inv: "dict_inv T d" and sz: "dictSize d \<noteq> 0"
  shows "\<exists>d1 r. (if dictIsRehashing d then dictRehashStep can T d else Some d) = Some d1
     \<and> find_ref T k d1 = Some r \<and> dict_inv T d1 \<and> content d1 = content d \<and> frame d d1
     \<and> dict_get T d1 = dict_get T d
     \<and> (case r of None \<Rightarrow> dict_get T d k = None | Some e \<Rightarrow> ref_of T d1 k e)"
proof -
  obtain d1 where d1: "(if dictIsRehashing d then dictRehashStep can T d else Some d) = Some d1"
    "dict_inv T d1" "content d1 = content d" "frame d d1"
    using rehash_first [OF T inv] by blast
  have get: "dict_get T d1 = dict_get T d" by (rule dict_get_cong [OF dict_invD(3) [OF inv] d1(3)])
  have "dictSize d1 \<noteq> 0" using sz size_content [OF inv] size_content [OF d1(2)] d1(3) by simp
  from find_ref_ok [OF T d1(2) nonempty_table [OF d1(2) this], of k] obtain r where
    "find_ref T k d1 = Some r" "case r of None \<Rightarrow> dict_get T d1 k = None | Some e \<Rightarrow> ref_of T d1 k e" by blast
  then show ?thesis using d1 get by metis
qed

lemma dictFind_ok:
  assumes T: "type_ok T" and inv: "dict_inv T d"
  shows "\<exists>r d'. dictFind can T d k = Some (r, d') \<and> dict_inv T d' \<and> content d' = content d \<and> frame d d'
     \<and> dict_get T d' = dict_get T d
     \<and> (case r of None \<Rightarrow> dict_get T d k = None
        | Some e \<Rightarrow> \<exists>x. deref d' e = Some x \<and> same_key T k (dictGetKey x) \<and> entry_ok T x \<and> dict_get T d k = Some (snd (kv x)))"
proof (cases "dictSize d = 0")
  case True
  then show ?thesis using inv empty_get [OF inv] by (simp add: dictFind_def frame_def)
next
  case False
  obtain d1 r where s: "(if dictIsRehashing d then dictRehashStep can T d else Some d) = Some d1"
    "find_ref T k d1 = Some r" "dict_inv T d1" "content d1 = content d" "frame d d1" "dict_get T d1 = dict_get T d"
    "case r of None \<Rightarrow> dict_get T d k = None | Some e \<Rightarrow> ref_of T d1 k e"
    using search_ok [OF T inv False] by blast
  have run: "dictFind can T d k = Some (r, d1)" using False s(1,2) by (simp add: dictFind_def)
  show ?thesis
  proof (cases r)
    case None
    then show ?thesis using run s by auto
  next
    case (Some e)
    then show ?thesis
      unfolding run using s ref_of_content [OF s(3)] get_of_ref [OF s(3)]
      by (intro exI [of _ r] exI [of _ d1]) fastforce
  qed
qed

lemma dictFetchValue_ok:
  assumes T: "type_ok T" and inv: "dict_inv T d" and nv: "\<not> no_value T"
  shows "\<exists>d'. dictFetchValue can T d k = Some (dict_get T d k, d') \<and> dict_inv T d' \<and> content d' = content d \<and> frame d d'
     \<and> dict_get T d' = dict_get T d"
proof -
  obtain r d' where r: "dictFind can T d k = Some (r, d')" "dict_inv T d'" "content d' = content d" "frame d d'"
     "dict_get T d' = dict_get T d"
     "case r of None \<Rightarrow> dict_get T d k = None
        | Some e \<Rightarrow> \<exists>x. deref d' e = Some x \<and> same_key T k (dictGetKey x) \<and> entry_ok T x \<and> dict_get T d k = Some (snd (kv x))"
    using dictFind_ok [OF T inv] by blast
  show ?thesis
  proof (cases r)
    case None
    then show ?thesis using r by (simp add: dictFetchValue_def)
  next
    case (Some e)
    then obtain x where x: "deref d' e = Some x" "entry_ok T x" "dict_get T d k = Some (snd (kv x))" using r(6) by auto
    then have "dictGetVal x = Some (snd (kv x))" using nv by (cases x) auto
    then show ?thesis using r x Some by (simp add: dictFetchValue_def)
  qed
qed

lemma linked_append: "linked (x @ de # y) \<longleftrightarrow> linked (de # y) \<and> (\<forall>a \<in> set x. \<not> entryIsKey a)"
  by (induction x) (simp_all, blast)

lemma linked_append': "linked y \<Longrightarrow> (\<forall>a \<in> set x. \<not> entryIsKey a) \<Longrightarrow> linked (x @ y)"
  by (induction x) simp_all

lemma chain_unlink_ok:
  assumes "chain_ok T c" "p < length c"
  shows "\<exists>c'. chain_unlink p c = Some (c ! p, c') \<and> chain_ok T c' \<and> c' = take p c @ drop (Suc p) c"
proof -
  have d: "drop p c = c ! p # drop (Suc p) c" using assms(2) by (simp add: Cons_nth_drop_Suc)
  have c: "linked (take p c @ c ! p # drop (Suc p) c)" using assms(1) d by (simp add: chain_ok_def flip: d)
  then have n: "linked (c ! p # drop (Suc p) c)" "\<forall>a \<in> set (take p c). \<not> entryIsKey a"
    unfolding linked_append by blast+
  from n(1) have next_eq: "dictGetNext (c ! p) (drop (Suc p) c) = drop (Suc p) c" by (rule dictGetNext_linked)
  have ok: "chain_ok T (take p c @ drop (Suc p) c)"
    unfolding chain_ok_def
  proof
    show "linked (take p c @ drop (Suc p) c)" by (rule linked_append' [OF _ n(2)]) (use n(1) in simp)
    show "\<forall>x \<in> set (take p c @ drop (Suc p) c). entry_ok T x"
      using assms(1) in_set_takeD [of _ p c] in_set_dropD [of _ "Suc p" c] by (auto simp: chain_ok_def)
  qed
  have "chain_unlink p c = Some (c ! p, take p c @ drop (Suc p) c)"
  proof (cases p)
    case 0
    then show ?thesis unfolding chain_unlink_def d list.case next_eq by simp
  next
    case (Suc q)
    then have "c ! q \<in> set (take p c)" using assms(2) by (auto simp: in_set_conv_nth)
    then have "dictSetNext (c ! q) (drop (Suc p) c) = Some (c ! q # drop (Suc p) c)" using n(2) by (simp add: dictSetNext_def)
    moreover have "take q c @ c ! q # drop (Suc p) c = take p c @ drop (Suc p) c"
      using Suc assms(2) by (simp add: take_Suc_conv_app_nth)
    ultimately show ?thesis using Suc d next_eq by (simp add: chain_unlink_def)
  qed
  then show ?thesis using ok by blast
qed

definition destroys :: "'v dictType \<Rightarrow> 'v dictEntry \<Rightarrow> 'v destroyed list" where
  "destroys T x = (if keyDestructor T then [DestroyedKey (dictGetKey x)] else [])
     @ (if valDestructor T then [DestroyedVal (snd (kv x))] else [])"

lemma dictFreeUnlinkedEntry_ok:
  assumes "type_ok T" "entry_ok T x"
  shows "dictFreeUnlinkedEntry T x d = Some (d\<lparr>destroyed := destroyed d @ destroys T x\<rparr>)"
  using assms(2) type_okD(6) [OF assms(1)]
  by (cases x) (auto simp: dictFreeUnlinkedEntry_def dictFreeVal_def dictFreeKey_def destroys_def)

lemma unlink_ok:
  assumes inv: "dict_inv T d" and r: "ref_of T d k (t, i, p)"
  shows "\<exists>c x c'. bucket d t i = Some c \<and> chain_unlink p c = Some (x, c') \<and> 0 < ht_used d t
     \<and> deref d (t, i, p) = Some x
     \<and> (let d' = (set_bucket t i c' d)\<lparr>ht_used := (ht_used d)(t := ht_used d t - 1)\<rparr> in
          dict_inv T d' \<and> content d = add_mset (kv x) (content d'))"
proof -
  obtain b e where b: "t \<in> {0, 1}" "ht_table d t = Some b" "ht_size_exp d t = int e" "tab_ok T b e (ht_used d t)"
    "i < length b" "p < length (b ! i)"
    using r by (auto simp: ref_of_def)
  let ?c = "b ! i"
  have c: "chain_ok T ?c" "\<And>x. x \<in> set ?c \<Longrightarrow> hash_mod T e (dictGetKey x) = i"
    using b(4,5) by (auto simp: tab_ok_def)
  define c' where "c' = take p ?c @ drop (Suc p) ?c"
  have un: "chain_unlink p ?c = Some (?c ! p, c')" "chain_ok T c'"
    using chain_unlink_ok [OF c(1) b(6)] by (auto simp: c'_def)
  have split: "?c = take p ?c @ ?c ! p # drop (Suc p) ?c" using b(6) by (rule id_take_nth_drop)
  have m: "mset (map kv ?c) = add_mset (kv (?c ! p)) (mset (map kv c'))"
    by (subst split) (simp add: c'_def)
  have len: "length ?c = Suc (length c')" using arg_cong [OF m, of size] by simp
  have "?c ! p \<in> set (concat b)" using b(5,6) by (metis nth_mem concat_eq_concat_iff in_set_conv_nth UN_I set_concat)
  then have "?c ! p \<in> set (entries d t)" using b(2) by (simp add: entries_def)
  then have "kv (?c ! p) \<in># content d" using b(1) by (auto simp: content_def)
  then obtain M where M: "content d = add_mset (kv (?c ! p)) M" by (metis insert_DiffM)
  have pos: "0 < ht_used d t"
    using b(4) length_pos_if_in_set [OF \<open>?c ! p \<in> set (concat b)\<close>] by (simp add: tab_ok_def)
  let ?d = "(set_bucket t i c' d)\<lparr>ht_used := (ht_used d)(t := ht_used d t - 1)\<rparr>"
  have "dict_inv T ?d \<and> content ?d = M"
  proof (rule set_chain_ok [OF inv b(1,2,5,3,4) un(2)])
    show "hash_mod T e (dictGetKey y) = i" if "y \<in> set c'" for y
      using that c(2) [of y] by (auto simp: c'_def dest: in_set_takeD in_set_dropD)
    show "c' = []" if "dictIsRehashing d" "t = 0" "i < nat (rehashidx d)"
      using dict_invD(5) [OF inv that(1,3)] that(2) b by (auto simp: bucket_def)
    show "uniq T M" by (rule uniq_subset [OF dict_invD(3) [OF inv]]) (simp add: M)
    show "M + mset (map kv ?c) = content d + mset (map kv c')" by (simp only: m M) simp
    show "ht_used d t - 1 + length ?c = ht_used d t + length c'" using len pos by simp
  qed simp
  then show ?thesis using b un(1) pos M by (auto simp: bucket_def)
qed

lemma dictGenericDelete_ok:
  assumes T: "type_ok T" and inv: "dict_inv T d"
  shows "\<exists>x d'. dictGenericDelete can T d k nofree = Some (x, d') \<and> dict_inv T d' \<and> pauserehash d' = pauserehash d
     \<and> dict_get T d' = (\<lambda>y. if same_key T k y then None else dict_get T d y)
     \<and> (case x of
          None \<Rightarrow> dict_get T d k = None \<and> content d' = content d \<and> destroyed d' = destroyed d
        | Some x \<Rightarrow> same_key T k (dictGetKey x) \<and> entry_ok T x \<and> dict_get T d k = Some (snd (kv x)) \<and> content d = add_mset (kv x) (content d')
            \<and> destroyed d' = destroyed d @ (if nofree then [] else destroys T x))"
proof (cases "dict_get T d k")
  case None
  have get: "dict_get T d = (\<lambda>y. if same_key T k y then None else dict_get T d y)"
  proof
    fix y
    have "dict_get T d y = None" if y: "same_key T k y"
    proof -
      have "\<not> same_key T y (fst p)" if "p \<in># content d" for p
        using that None type_okD(2) [OF T y, of "fst p"] by (auto simp: dict_get_None)
      then show ?thesis by (simp only: dict_get_None) blast
    qed
    then show "dict_get T d y = (if same_key T k y then None else dict_get T d y)" by simp
  qed
  show ?thesis
  proof (cases "dictSize d = 0")
    case True
    then show ?thesis using inv None get
      by (intro exI [of _ None] exI [of _ d]) (simp add: dictGenericDelete_def)
  next
    case False
    obtain d1 r where s: "(if dictIsRehashing d then dictRehashStep can T d else Some d) = Some d1"
      "find_ref T k d1 = Some r" "dict_inv T d1" "content d1 = content d" "frame d d1" "dict_get T d1 = dict_get T d"
      "case r of None \<Rightarrow> dict_get T d k = None | Some e \<Rightarrow> ref_of T d1 k e"
      using search_ok [OF T inv False] by blast
    have "r = None"
    proof (cases r)
      case (Some e)
      then show ?thesis using s get_of_ref [OF s(3)] ref_of_content [OF s(3)] None by fastforce
    qed
    then have "dictGenericDelete can T d k nofree = Some (None, d1)" using False s(1,2) by (simp add: dictGenericDelete_def)
    then show ?thesis using s None get by (intro exI [of _ None] exI [of _ d1]) (simp add: frame_def)
  qed
next
  case (Some v)
  then have sz: "dictSize d \<noteq> 0" using empty_get [OF inv, of k] by (cases "dictSize d = 0") auto
  obtain d1 r where s: "(if dictIsRehashing d then dictRehashStep can T d else Some d) = Some d1"
    "find_ref T k d1 = Some r" "dict_inv T d1" "content d1 = content d" "frame d d1" "dict_get T d1 = dict_get T d"
    "case r of None \<Rightarrow> dict_get T d k = None | Some e \<Rightarrow> ref_of T d1 k e"
    using search_ok [OF T inv sz] by blast
  then obtain t i p where r: "r = Some (t, i, p)" "ref_of T d1 k (t, i, p)" using Some by (cases r) auto
  obtain c x c' where u: "bucket d1 t i = Some c" "chain_unlink p c = Some (x, c')" "0 < ht_used d1 t"
    "deref d1 (t, i, p) = Some x"
    "dict_inv T ((set_bucket t i c' d1)\<lparr>ht_used := (ht_used d1)(t := ht_used d1 t - 1)\<rparr>)"
    "content d1 = add_mset (kv x) (content ((set_bucket t i c' d1)\<lparr>ht_used := (ht_used d1)(t := ht_used d1 t - 1)\<rparr>))"
    using unlink_ok [OF s(3) r(2)] unfolding Let_def by blast
  let ?d2 = "(set_bucket t i c' d1)\<lparr>ht_used := (ht_used d1)(t := ht_used d1 t - 1)\<rparr>"
  let ?d = "?d2\<lparr>destroyed := destroyed d1 @ (if nofree then [] else destroys T x)\<rparr>"
  have x: "same_key T k (dictGetKey x)" "entry_ok T x" "dict_get T d k = Some (snd (kv x))"
    using ref_of_content [OF s(3) r(2)] u(4) get_of_ref [OF s(3) r(2) u(4)] s(6) by auto
  have run: "dictGenericDelete can T d k nofree = Some (Some x, ?d)"
    using sz s(1,2) r(1) u(1,2,3) dictFreeUnlinkedEntry_ok [OF T x(2)]
    by (simp add: dictGenericDelete_def Let_def dec_used_def)
  have co: "content d = add_mset (kv x) (content ?d)" using u(6) s(4) by simp
  then have "content d = add_mset (fst (kv x), snd (kv x)) (content ?d)" by (simp only: prod.collapse)
  then have get: "dict_get T ?d = (\<lambda>y. if same_key T k y then None else dict_get T d y)"
    by (rule get_remove [OF T dict_invD(3) [OF inv]]) (use x(1) in simp)
  have inv': "dict_inv T ?d" using u(5) by simp
  have fr: "destroyed ?d = destroyed d @ (if nofree then [] else destroys T x)" "pauserehash ?d = pauserehash d"
    using s(5) by (simp_all add: frame_def)
  show ?thesis
    unfolding run by (intro exI [of _ "Some x"] exI [of _ ?d] conjI inv' get fr) (use x co fr in simp_all)
qed

lemma dictDelete_ok:
  assumes T: "type_ok T" and inv: "dict_inv T d"
  shows "\<exists>d'. dictDelete can T d k = Some (dict_get T d k \<noteq> None, d') \<and> dict_inv T d'
     \<and> dict_get T d' = (\<lambda>y. if same_key T k y then None else dict_get T d y)
     \<and> dictSize d = (if dict_get T d k = None then dictSize d' else dictSize d' + 1)"
proof -
  obtain x d' where g: "dictGenericDelete can T d k False = Some (x, d')" "dict_inv T d'"
     "dict_get T d' = (\<lambda>y. if same_key T k y then None else dict_get T d y)"
     "case x of
          None \<Rightarrow> dict_get T d k = None \<and> content d' = content d \<and> destroyed d' = destroyed d
        | Some x \<Rightarrow> same_key T k (dictGetKey x) \<and> entry_ok T x \<and> dict_get T d k = Some (snd (kv x)) \<and> content d = add_mset (kv x) (content d')
            \<and> destroyed d' = destroyed d @ (if False then [] else destroys T x)"
    using dictGenericDelete_ok [OF T inv, of can k False] by blast
  show ?thesis
    using g size_content [OF inv] size_content [OF g(2)] by (cases x) (auto simp: dictDelete_def)
qed

text \<open>The two-phase deletion: the lookup pauses rehashing, the second call unlinks and resumes.\<close>

lemma two_phase_ok:
  assumes T: "type_ok T" and inv: "dict_inv T d" and some: "dict_get T d k = Some v"
  shows "\<exists>r d1 x d2. dictTwoPhaseUnlinkFind can T d k = Some (Some r, d1) \<and> pauserehash d1 = pauserehash d + 1
     \<and> deref d1 r = Some x \<and> snd (kv x) = v \<and> dict_get T d1 = dict_get T d
     \<and> dictTwoPhaseUnlinkFree T d1 (Some r) = Some d2 \<and> dict_inv T d2 \<and> pauserehash d2 = pauserehash d
     \<and> destroyed d2 = destroyed d @ destroys T x
     \<and> dict_get T d2 = (\<lambda>y. if same_key T k y then None else dict_get T d y)"
proof -
  have sz: "dictSize d \<noteq> 0" using empty_get [OF inv, of k] some by (cases "dictSize d = 0") auto
  obtain d0 r where s: "(if dictIsRehashing d then dictRehashStep can T d else Some d) = Some d0"
    "find_ref T k d0 = Some r" "dict_inv T d0" "content d0 = content d" "frame d d0" "dict_get T d0 = dict_get T d"
    "case r of None \<Rightarrow> dict_get T d k = None | Some e \<Rightarrow> ref_of T d0 k e"
    using search_ok [OF T inv sz] by blast
  then obtain t i p where r: "r = Some (t, i, p)" "ref_of T d0 k (t, i, p)" using some by (cases r) auto
  let ?d1 = "dictPauseRehashing d0"
  have inv1: "dict_inv T ?d1" and ref1: "ref_of T ?d1 k (t, i, p)"
    using s(3) r(2) by (simp_all add: dictPauseRehashing_def ref_of_def)
  have find: "dictTwoPhaseUnlinkFind can T d k = Some (Some (t, i, p), ?d1)"
    using sz s(1,2) r(1) by (simp add: dictTwoPhaseUnlinkFind_def)
  have g1: "dict_get T ?d1 = dict_get T d"
    by (rule dict_get_cong [OF dict_invD(3) [OF inv]]) (simp add: dictPauseRehashing_def s(4))
  let ?u = "\<lambda>c. (set_bucket t i c ?d1)\<lparr>ht_used := (ht_used ?d1)(t := ht_used ?d1 t - 1)\<rparr>"
  obtain c x c' where u: "bucket ?d1 t i = Some c" "chain_unlink p c = Some (x, c')" "0 < ht_used ?d1 t"
    "deref ?d1 (t, i, p) = Some x" "dict_inv T (?u c')" "content ?d1 = add_mset (kv x) (content (?u c'))"
    using unlink_ok [OF inv1 ref1] unfolding Let_def by blast
  have x: "same_key T k (dictGetKey x)" "entry_ok T x" "v = snd (kv x)"
    using ref_of_content [OF inv1 ref1] u(4) get_of_ref [OF inv1 ref1 u(4)] g1 some by auto
  let ?d2 = "dictResumeRehashing ((?u c')\<lparr>destroyed := destroyed d @ destroys T x\<rparr>)"
  have sw: "set_bucket t i c' (?d1\<lparr>ht_used := (ht_used ?d1)(t := ht_used ?d1 t - 1)\<rparr>) = ?u c'"
    by (simp add: set_bucket_def)
  have free: "dictTwoPhaseUnlinkFree T ?d1 (Some (t, i, p)) = Some ?d2"
  proof -
    let ?dd = "?d1\<lparr>ht_used := (ht_used ?d1)(t := ht_used ?d1 t - 1)\<rparr>"
    have "dec_used t ?d1 = Some ?dd" using u(3) by (simp add: dec_used_def)
    moreover have "bucket ?dd t i = Some c" using u(1) by (simp add: bucket_def)
    moreover have "dictFreeUnlinkedEntry T x (?u c') = Some ((?u c')\<lparr>destroyed := destroyed d @ destroys T x\<rparr>)"
      using s(5) dictFreeUnlinkedEntry_ok [OF T x(2), of "?u c'"] by (simp add: frame_def dictPauseRehashing_def)
    ultimately show ?thesis using u(2) sw by (simp add: dictTwoPhaseUnlinkFree_def)
  qed
  have "content d = add_mset (kv x) (content ?d2)"
    using u(6) s(4) by (simp add: dictPauseRehashing_def dictResumeRehashing_def)
  then have co: "content d = add_mset (fst (kv x), snd (kv x)) (content ?d2)" by (simp only: prod.collapse)
  have get: "dict_get T ?d2 = (\<lambda>y. if same_key T k y then None else dict_get T d y)"
    by (rule get_remove [OF T dict_invD(3) [OF inv] co]) (use x(1) in simp)
  have inv2: "dict_inv T ?d2" using u(5) by (simp add: dictResumeRehashing_def)
  have fr: "pauserehash ?d1 = pauserehash d + 1" "pauserehash ?d2 = pauserehash d" "destroyed ?d2 = destroyed d @ destroys T x"
    using s(5) by (simp_all add: dictPauseRehashing_def dictResumeRehashing_def frame_def)
  show ?thesis
    by (rule exI [of _ "(t, i, p)"], rule exI [of _ ?d1], rule exI [of _ x], rule exI [of _ ?d2])
      (intro conjI find fr u(4) x(3) [symmetric] g1 free inv2 get)
qed

end
