(* ===== verification/Dict_Props.thy ===== *)
theory Dict_Props
  imports Dict_Map
begin

text \<open>
  What a dictionary guarantees to its clients: it is a map and a set, rehashing ends, and emptying
  destroys exactly what was in it.  The map interface is interpreted on the model here.
\<close>

section \<open>Emptying\<close>

lemma clear_chain_ok:
  assumes "type_ok T" "chain_ok T c" "length c \<le> ht_used d t"
  shows "clear_chain T t c d = Some (d\<lparr>ht_used := (ht_used d)(t := ht_used d t - length c),
     destroyed := destroyed d @ concat (map (destroys T) c)\<rparr>)"
  using assms(2,3)
proof (induction c arbitrary: d)
  case (Cons x c)
  then have x: "entry_ok T x" "linked (x # c)" "chain_ok T c" by (auto simp: chain_ok_def)
  show ?case
    using Cons.IH [OF x(3)] Cons.prems(2) dictFreeUnlinkedEntry_ok [OF assms(1) x(1)]
    by (simp add: dec_used_def dictGetNext_linked [OF x(2)] cong: if_cong)
qed simp

lemma clear_buckets_ok:
  assumes "type_ok T" "\<forall>c \<in> set cs. chain_ok T c" "length (concat cs) = ht_used d t"
  shows "\<exists>u. clear_buckets T t cs d = Some (d\<lparr>ht_used := (ht_used d)(t := u),
     destroyed := destroyed d @ concat (map (destroys T) (concat cs))\<rparr>)"
  using assms(2,3)
proof (induction cs arbitrary: d)
  case Nil
  then show ?case by (intro exI [of _ 0]) (simp add: fun_upd_idem)
next
  case (Cons c cs)
  show ?case
  proof (cases "ht_used d t > 0")
    case True
    let ?d = "d\<lparr>ht_used := (ht_used d)(t := ht_used d t - length c), destroyed := destroyed d @ concat (map (destroys T) c)\<rparr>"
    have "clear_chain T t c d = Some ?d"
      using Cons.prems by (intro clear_chain_ok [OF assms(1)]) auto
    moreover obtain u where "clear_buckets T t cs ?d = Some (?d\<lparr>ht_used := (ht_used ?d)(t := u),
        destroyed := destroyed ?d @ concat (map (destroys T) (concat cs))\<rparr>)"
    proof -
      have "\<forall>c \<in> set cs. chain_ok T c" "length (concat cs) = ht_used ?d t" using Cons.prems by simp_all
      from Cons.IH [OF this] show ?thesis using that by blast
    qed
    ultimately show ?thesis using True by (intro exI [of _ u]) (simp add: fun_upd_def cong: if_cong)
  next
    case False
    then have "length (concat (c # cs)) = 0" using Cons.prems by simp
    then have "concat (c # cs) = []" by (simp only: length_0_conv)
    then have "concat (map (destroys T) (concat (c # cs))) = []" by (simp only: list.map concat.simps)
    then show ?thesis using False by (intro exI [of _ 0]) (simp add: fun_upd_idem)
  qed
qed

lemma dictClear_ok:
  assumes "type_ok T" "table_ok T d t"
  shows "dictClear T d t = Some ((dictReset t d)\<lparr>destroyed := destroyed d @ concat (map (destroys T) (entries d t))\<rparr>)"
proof (cases "ht_table d t")
  case None
  then show ?thesis by (simp add: dictClear_def entries_def dictReset_def)
next
  case (Some b)
  have "\<forall>c \<in> set b. chain_ok T c" "length (concat b) = ht_used d t"
    using assms(2) Some by (auto simp: table_ok_def tab_ok_def in_set_conv_nth)
  from clear_buckets_ok [OF assms(1) this] show ?thesis
    using Some by (auto simp: dictClear_def entries_def dictReset_def)
qed

text \<open>Emptying a dictionary destroys every key and every value it holds, once each, and leaves an
  empty dictionary that is not rehashing, whatever the state of the migration.\<close>

theorem dict_empty_destroys:
  assumes "type_ok T" "dict_inv T d"
  shows "\<exists>d'. dictEmpty T d = Some d' \<and> dict_inv T d' \<and> dictSize d' = 0 \<and> \<not> dictIsRehashing d' \<and> pauserehash d' = 0
     \<and> dict_get T d' k = None
     \<and> destroyed d' = destroyed d @ concat (map (destroys T) (entries d 0 @ entries d 1))"
proof -
  let ?d1 = "(dictReset 0 d)\<lparr>destroyed := destroyed d @ concat (map (destroys T) (entries d 0))\<rparr>"
  have c0: "dictClear T d 0 = Some ?d1" by (rule dictClear_ok [OF assms(1) dict_invD(1) [OF assms(2)]])
  have t1: "table_ok T ?d1 1"
    using dict_invD(2) [OF assms(2)] table_ok_cong [of ?d1 1 d T] by (simp add: dictReset_def)
  let ?d2 = "(dictReset 1 ?d1)\<lparr>destroyed := destroyed ?d1 @ concat (map (destroys T) (entries ?d1 1))\<rparr>"
  have c1: "dictClear T ?d1 1 = Some ?d2" by (rule dictClear_ok [OF assms(1) t1])
  have e: "entries ?d1 1 = entries d 1" by (simp add: entries_def dictReset_def)
  let ?d3 = "?d2\<lparr>rehashidx := -1, pauserehash := 0\<rparr>"
  have run: "dictEmpty T d = Some ?d3" unfolding dictEmpty_def c0 Option.bind.bind_lunit c1 ..
  have "content ?d3 = {#}" by (simp add: content_def entries_def dictReset_def)
  then show ?thesis
    unfolding run using e
    by (intro exI [of _ ?d3] conjI refl)
      (simp_all add: dict_inv_def table_ok_def dictReset_def dictIsRehashing_def uniq_def dictSize_def dict_get_None)
qed

section \<open>Rehashing comes to an end\<close>

text \<open>\<open>n\<close> single steps, as the operations on a dictionary make them.\<close>

fun rehash_steps :: "'v dictType \<Rightarrow> nat \<Rightarrow> 'v dict \<Rightarrow> 'v dict option" where
  "rehash_steps T 0 d = Some d"
| "rehash_steps T (Suc n) d = do { (more, d) \<leftarrow> dictRehash DICT_RESIZE_ENABLE T d 1; rehash_steps T n d }"

lemma rehashidx_le: "dict_inv T d \<Longrightarrow> dictIsRehashing d \<Longrightarrow> nat (rehashidx d) \<le> DICTHT_SIZE (ht_size_exp d 0)"
proof -
  assume inv: "dict_inv T d" and re: "dictIsRehashing d"
  obtain b where b: "ht_table d 0 = Some b" using dict_invD(4) [OF inv re] by blast
  show ?thesis
  proof (rule ccontr)
    assume "\<not> ?thesis"
    then have "length b < nat (rehashidx d)" using size_length [OF dict_invD(1) [OF inv] b] by simp
    from dict_invD(5) [OF inv re this] b show False by (simp add: bucket_def)
  qed
qed

lemma rehash_steps_ok:
  assumes "type_ok T" "dict_inv T d"
  shows "\<exists>d'. rehash_steps T n d = Some d' \<and> dict_inv T d' \<and> content d' = content d
     \<and> (if dictIsRehashing d'
        then dictIsRehashing d \<and> rehashidx d + int n \<le> rehashidx d' \<and> ht_size_exp d' = ht_size_exp d
        else ht_size_exp d' 0 = ht_size_exp d (if dictIsRehashing d then 1 else 0))"
  using assms(2)
proof (induction n arbitrary: d)
  case 0
  then show ?case by simp
next
  case (Suc n)
  obtain more d1 where d1: "dictRehash DICT_RESIZE_ENABLE T d 1 = Some (more, d1)" "dict_inv T d1" "content d1 = content d"
     "\<not> dictIsRehashing d \<longrightarrow> d1 = d"
     "more \<and> (0::nat) < 1 \<longrightarrow> dictIsRehashing d1 \<and> rehashidx d < rehashidx d1 \<and> ht_size_exp d1 = ht_size_exp d"
     "\<not> more \<longrightarrow> d1 = d \<or> \<not> dictIsRehashing d1 \<and> ht_size_exp d1 0 = ht_size_exp d 1"
     "\<not> more \<and> DICT_RESIZE_ENABLE = DICT_RESIZE_ENABLE \<longrightarrow> \<not> dictIsRehashing d1"
    using dictRehash_ok [OF assms(1) Suc.prems, of DICT_RESIZE_ENABLE 1] by (elim exE conjE) (rule that)
  obtain d2 where d2: "rehash_steps T n d1 = Some d2" "dict_inv T d2" "content d2 = content d1"
     "if dictIsRehashing d2
        then dictIsRehashing d1 \<and> rehashidx d1 + int n \<le> rehashidx d2 \<and> ht_size_exp d2 = ht_size_exp d1
        else ht_size_exp d2 0 = ht_size_exp d1 (if dictIsRehashing d1 then 1 else 0)"
    using Suc.IH [OF d1(2)] by blast
  have run: "rehash_steps T (Suc n) d = Some d2" using d1(1) d2(1) by simp
  show ?case
  proof (cases more)
    case True
    then have "dictIsRehashing d" using d1(4,5) by auto
    then show ?thesis unfolding run using True d1 d2 by auto
  next
    case False
    then show ?thesis unfolding run using d1 d2 by (auto split: if_splits)
  qed
qed

text \<open>C13. Incremental rehashing comes to an end: as many single steps as the old table has buckets, plus
  one, complete the migration to the new table, no assertion fails on the way, and every key keeps its
  value.\<close>

theorem dict_rehash_completes:
  assumes "type_ok T" "dict_inv T d" "dictIsRehashing d" "DICTHT_SIZE (ht_size_exp d 0) < n"
  shows "\<exists>d'. rehash_steps T n d = Some d' \<and> \<not> dictIsRehashing d' \<and> ht_table d' 1 = None
     \<and> ht_size_exp d' 0 = ht_size_exp d 1 \<and> dict_inv T d' \<and> dict_get T d' = dict_get T d"
proof -
  obtain d' where d': "rehash_steps T n d = Some d'" "dict_inv T d'" "content d' = content d"
    "if dictIsRehashing d'
        then dictIsRehashing d \<and> rehashidx d + int n \<le> rehashidx d' \<and> ht_size_exp d' = ht_size_exp d
        else ht_size_exp d' 0 = ht_size_exp d (if dictIsRehashing d then 1 else 0)"
    using rehash_steps_ok [OF assms(1,2), of n] by blast
  have "\<not> dictIsRehashing d'"
  proof
    assume re: "dictIsRehashing d'"
    then have "rehashidx d + int n \<le> rehashidx d'" "ht_size_exp d' = ht_size_exp d" using d'(4) by auto
    then show False
      using rehashidx_le [OF d'(2) re] assms(4) dict_invD(4) [OF assms(2,3)] dict_invD(4) [OF d'(2) re] by (simp add: nat_le_iff)
  qed
  moreover have "dict_get T d' = dict_get T d" by (rule dict_get_cong [OF dict_invD(3) [OF assms(2)] d'(3)])
  ultimately show ?thesis using d' dict_invD(6) [OF d'(2)] assms(3) by auto
qed

section \<open>The dictionary is a map\<close>

text \<open>The state a client works on: the global resize policy and a dictionary.\<close>

type_synonym 'v dict_state = "dictResizeEnable \<times> 'v dict"

definition dictSetResizeEnabled :: "dictResizeEnable \<Rightarrow> 'v dict_state \<Rightarrow> 'v dict_state" where
  "dictSetResizeEnabled enable s = (enable, snd s)"

text \<open>What happens between the operations: rehashing by the cron job, resizing, a change of policy.\<close>

datatype dict_work = Rehash nat | Resize | Expand nat | SetResizeEnabled dictResizeEnable

fun dict_idle :: "'v dictType \<Rightarrow> dict_work \<Rightarrow> 'v dict_state \<Rightarrow> 'v dict_state option" where
  "dict_idle T (Rehash n) (can, d) = map_option (\<lambda>(more, d). (can, d)) (dictRehash can T d n)"
| "dict_idle T Resize (can, d) = Some (can, snd (dictResize can d))"
| "dict_idle T (Expand n) (can, d) = Some (can, snd (dictExpand d n))"
| "dict_idle T (SetResizeEnabled c) s = Some (dictSetResizeEnabled c s)"

definition with_policy :: "(dictResizeEnable \<Rightarrow> 'v dict \<Rightarrow> ('r \<times> 'v dict) option) \<Rightarrow> 'v dict_state \<Rightarrow> ('r \<times> 'v dict_state) option" where
  "with_policy f s = map_option (\<lambda>(r, d). (r, (fst s, d))) (f (fst s) (snd s))"

lemma dictExpand_ok:
  assumes "dict_inv T d"
  shows "dict_inv T (snd (dictExpand d n)) \<and> content (snd (dictExpand d n)) = content d"
  using dictExpand'_ok [OF assms, of False n] by (auto simp: dictExpand_def split: prod.split)

lemma dictResize_ok:
  assumes "dict_inv T d"
  shows "dict_inv T (snd (dictResize can d)) \<and> content (snd (dictResize can d)) = content d"
  using dictExpand_ok [OF assms] assms by (simp add: dictResize_def)

text \<open>The rehashing of the cron job, when the readings of the clock last.\<close>

lemma dictRehashMilliseconds_ok:
  assumes T: "type_ok T" and "dict_inv T d" "dictRehashMilliseconds can T clock d ms = Some (n, d')"
  shows "dict_inv T d' \<and> content d' = content d"
proof -
  have "rehash_ms_loop can T ms clock r d = Some (n, d') \<Longrightarrow> dict_inv T d \<Longrightarrow> dict_inv T d' \<and> content d' = content d" for r d
  proof (induction clock arbitrary: r d)
    case Nil
    then show ?case using dictRehash_ok [OF T, of d can 100]
      by (subst (asm) rehash_ms_loop.simps) (auto split: if_splits)
  next
    case (Cons now clock)
    obtain more d1 where d1: "dictRehash can T d 100 = Some (more, d1)" "dict_inv T d1" "content d1 = content d"
      using dictRehash_ok [OF T Cons.prems(2), of can 100] by blast
    show ?case
    proof (cases "more \<and> \<not> now > ms")
      case True
      then have "rehash_ms_loop can T ms clock (r + 100) d1 = Some (n, d')"
        using Cons.prems(1) d1(1) by (subst (asm) rehash_ms_loop.simps) simp
      then show ?thesis using Cons.IH [OF _ d1(2)] d1(3) by auto
    next
      case False
      then have "d' = d1" using Cons.prems(1) d1(1) by (subst (asm) rehash_ms_loop.simps) (auto split: if_splits)
      then show ?thesis using d1 by simp
    qed
  qed
  then show ?thesis using assms by (auto simp: dictRehashMilliseconds_def split: if_splits)
qed

definition map_inv :: "'v dictType \<Rightarrow> 'v dict_state \<Rightarrow> bool" where
  "map_inv T s \<longleftrightarrow> type_ok T \<and> \<not> no_value T \<and> dict_inv T (snd s)"

lemma content_facts:
  assumes "dict_inv T d" "dict_inv T d'" "content d' = content d"
  shows "dict_get T d' = dict_get T d" "dictSize d' = dictSize d"
  using dict_get_cong [OF dict_invD(3) [OF assms(1)] assms(3)] size_content [OF assms(1)] size_content [OF assms(2)]
    assms(3) by simp_all

interpretation dict_map: keyed_map "map_inv T" "\<lambda>s. dict_get T (snd s)" "same_key T" "\<lambda>_. True" "stored T"
    "\<lambda>s. dictSize (snd s)" "2 ^ 60"
    "\<lambda>s k. with_policy (\<lambda>can d. dictFetchValue can T d k) s"
    "\<lambda>s k v. with_policy (\<lambda>can d. dictAdd can T d k v) s"
    "\<lambda>s k v. with_policy (\<lambda>can d. dictReplace can T d k v) s"
    "\<lambda>s k. with_policy (\<lambda>can d. dictDelete can T d k) s"
    "dict_idle T" for T :: "'v dictType"
proof
  fix s :: "'v dict_state" and k v i
  obtain can d where s: "s = (can, d)" by (cases s)
  assume inv: "map_inv T s"
  then have T: "type_ok T" and nv: "\<not> no_value T" and d: "dict_inv T d" by (auto simp: map_inv_def s)
  have gk: "good_key T k" using nv by (simp add: good_key_def)
  show "\<exists>s'. with_policy (\<lambda>can d. dictFetchValue can T d k) s = Some (dict_get T (snd s) k, s') \<and> map_inv T s'
      \<and> dict_get T (snd s') = dict_get T (snd s) \<and> dictSize (snd s') = dictSize (snd s)"
    using dictFetchValue_ok [OF T d nv, of can k] content_facts [OF d] T nv
    by (auto simp: with_policy_def map_inv_def s)
  show "\<exists>s'. with_policy (\<lambda>can d. dictAdd can T d k v) s = Some (dict_get T (snd s) k = None, s') \<and> map_inv T s'
      \<and> dict_get T (snd s') = (if dict_get T (snd s) k = None then (\<lambda>x. if same_key T k x then Some (stored T v) else dict_get T (snd s) x)
                              else dict_get T (snd s))
      \<and> dictSize (snd s') = (if dict_get T (snd s) k = None then dictSize (snd s) + 1 else dictSize (snd s))"
    if room: "dictSize (snd s) < 2 ^ 60"
  proof -
    obtain d' where "dictAdd can T d k v = Some (dict_get T d k = None, d')" "dict_inv T d'"
      "dict_get T d' = (if dict_get T d k = None then (\<lambda>x. if same_key T k x then Some (stored T v) else dict_get T d x) else dict_get T d)"
      "dictSize d' = (if dict_get T d k = None then dictSize d + 1 else dictSize d)"
      using dictAdd_ok [OF T d gk, of can v] room unfolding s snd_conv by blast
    then show ?thesis unfolding s snd_conv using T nv by (intro exI [of _ "(can, d')"]) (simp add: with_policy_def map_inv_def)
  qed
  show "\<exists>s'. with_policy (\<lambda>can d. dictReplace can T d k v) s = Some (dict_get T (snd s) k = None, s') \<and> map_inv T s'
      \<and> dict_get T (snd s') = (\<lambda>x. if same_key T k x then Some (stored T v) else dict_get T (snd s) x)
      \<and> dictSize (snd s') = (if dict_get T (snd s) k = None then dictSize (snd s) + 1 else dictSize (snd s))"
    if room: "dictSize (snd s) < 2 ^ 60"
  proof -
    obtain d' where "dictReplace can T d k v = Some (dict_get T d k = None, d')" "dict_inv T d'"
      "dict_get T d' = (\<lambda>x. if same_key T k x then Some (stored T v) else dict_get T d x)"
      "dictSize d' = (if dict_get T d k = None then dictSize d + 1 else dictSize d)"
      using dictReplace_ok [OF T d gk _ nv, of can v] room unfolding s snd_conv by blast
    then show ?thesis unfolding s snd_conv using T nv by (intro exI [of _ "(can, d')"]) (simp add: with_policy_def map_inv_def)
  qed
  show "\<exists>s'. with_policy (\<lambda>can d. dictDelete can T d k) s = Some (dict_get T (snd s) k \<noteq> None, s') \<and> map_inv T s'
      \<and> dict_get T (snd s') = (\<lambda>x. if same_key T k x then None else dict_get T (snd s) x)
      \<and> dictSize (snd s) = (if dict_get T (snd s) k = None then dictSize (snd s') else dictSize (snd s') + 1)"
  proof -
    obtain d' where "dictDelete can T d k = Some (dict_get T d k \<noteq> None, d')" "dict_inv T d'"
      "dict_get T d' = (\<lambda>y. if same_key T k y then None else dict_get T d y)"
      "dictSize d = (if dict_get T d k = None then dictSize d' else dictSize d' + 1)"
      using dictDelete_ok [OF T d, of can k] by blast
    then show ?thesis unfolding s snd_conv using T nv by (intro exI [of _ "(can, d')"]) (simp add: with_policy_def map_inv_def)
  qed
  show "\<exists>s'. dict_idle T i s = Some s' \<and> map_inv T s' \<and> dict_get T (snd s') = dict_get T (snd s)
      \<and> dictSize (snd s') = dictSize (snd s)"
  proof (cases i)
    case (Rehash n)
    obtain more d' where "dictRehash can T d n = Some (more, d')" "dict_inv T d'" "content d' = content d"
      using dictRehash_ok [OF T d, of can n] by blast
    then show ?thesis using Rehash T nv content_facts [OF d] by (simp add: map_inv_def s)
  next
    case Resize
    then show ?thesis using dictResize_ok [OF d, of can] T nv content_facts [OF d, of "snd (dictResize can d)"]
      by (simp add: map_inv_def s)
  next
    case (Expand n)
    then show ?thesis using dictExpand_ok [OF d, of n] T nv content_facts [OF d, of "snd (dictExpand d n)"]
      by (simp add: map_inv_def s)
  next
    case (SetResizeEnabled c)
    then show ?thesis using T nv d by (simp add: map_inv_def s dictSetResizeEnabled_def)
  qed
qed

lemma dictCreate_inv: "dict_inv T dictCreate" "dict_get T dictCreate = (\<lambda>_. None)" "dictSize dictCreate = 0"
  by (auto simp: dictCreate_def dictInit_def dictReset_def dict_inv_def table_ok_def dictIsRehashing_def uniq_def
      content_def entries_def dict_get_def dictSize_def)

text \<open>A client's commands.\<close>

definition dict_run :: "'v dictType \<Rightarrow> (ptr, 'v, dict_work) map_cmd list \<Rightarrow> 'v dict_state \<Rightarrow> ('v option map_out list \<times> 'v dict_state) option" where
  "dict_run T = map_run (map_exec (\<lambda>s k. with_policy (\<lambda>can d. dictFetchValue can T d k) s)
     (\<lambda>s k v. with_policy (\<lambda>can d. dictAdd can T d k v) s) (\<lambda>s k v. with_policy (\<lambda>can d. dictReplace can T d k v) s)
     (\<lambda>s k. with_policy (\<lambda>can d. dictDelete can T d k) s) (dict_idle T))"

text \<open>C2. A dictionary is a map: up to \<open>2 ^ 60\<close> additions, replacements, lookups and deletions, with rehashing
  steps, resizes and changes of the resize policy anywhere between them, all return, fail no assertion and
  answer what a function from keys to values answers, with keys equal up to the type's comparison.\<close>

theorem dict_refines_map:
  assumes "type_ok T" "\<not> no_value T" "length cs \<le> 2 ^ 60"
  shows "\<exists>s'. dict_run T cs (can, dictCreate) = Some (fst (map_spec_run (same_key T) (stored T) cs (\<lambda>_. None)), s')
     \<and> dict_inv T (snd s') \<and> dict_get T (snd s') = snd (map_spec_run (same_key T) (stored T) cs (\<lambda>_. None))"
proof -
  have "map_inv T (can, dictCreate)" using assms(1,2) dictCreate_inv by (simp add: map_inv_def)
  from dict_map.run_refines [OF this, of cs] assms(3) show ?thesis
    by (auto simp: dict_run_def map_inv_def dictCreate_inv)
qed

section \<open>Dictionaries without values\<close>

definition members :: "'v dictType \<Rightarrow> 'v dict \<Rightarrow> ptr set" where
  "members T d = {x. dict_get T d x \<noteq> None}"

text \<open>A dictionary is also a set, with or without values: an addition reports whether the key was new
  and makes it a member, the entry is then found, and deleting the key takes it out again.  This covers
  the types without values, where a key that has its bucket to itself is stored without an entry.\<close>

theorem dict_as_set:
  assumes "type_ok T" "dict_inv T d" "good_key T k" "dictSize d < 2 ^ 60"
  shows "\<exists>d1 r d2 x d3. dictAdd can T d k v = Some (k \<notin> members T d, d1) \<and> dict_inv T d1
     \<and> members T d1 = members T d \<union> {x. same_key T k x}
     \<and> dictFind can T d1 k = Some (Some r, d2) \<and> deref d2 r = Some x \<and> same_key T k (dictGetKey x)
     \<and> dictDelete can T d2 k = Some (True, d3) \<and> dict_inv T d3
     \<and> members T d3 = members T d - {x. same_key T k x}"
proof -
  obtain d1 where d1: "dictAdd can T d k v = Some (dict_get T d k = None, d1)" "dict_inv T d1"
     "dict_get T d1 = (if dict_get T d k = None then (\<lambda>x. if same_key T k x then Some (stored T v) else dict_get T d x)
                         else dict_get T d)"
    using dictAdd_ok [OF assms, of can v] by blast
  have all: "dict_get T d x \<noteq> None" if "dict_get T d k \<noteq> None" "same_key T k x" for x
  proof -
    from that(1) obtain p where p: "p \<in># content d" "same_key T k (fst p)" unfolding dict_get_None by blast
    then have "same_key T x (fst p)" using that(2) type_okD(1,2) [OF assms(1)] by blast
    then show ?thesis using p(1) unfolding dict_get_None by blast
  qed
  have m1: "members T d1 = members T d \<union> {x. same_key T k x}"
  proof (cases "dict_get T d k = None")
    case True
    then show ?thesis using d1(3) by (auto simp: members_def)
  next
    case False
    then show ?thesis using d1(3) all by (auto simp: members_def)
  qed
  then have k1: "dict_get T d1 k \<noteq> None" by (auto simp: members_def)
  obtain r d2 where d2: "dictFind can T d1 k = Some (r, d2)" "dict_inv T d2" "dict_get T d2 = dict_get T d1"
     "case r of None \<Rightarrow> dict_get T d1 k = None
        | Some e \<Rightarrow> \<exists>x. deref d2 e = Some x \<and> same_key T k (dictGetKey x) \<and> entry_ok T x \<and> dict_get T d1 k = Some (snd (kv x))"
    using dictFind_ok [OF assms(1) d1(2), of can k] by blast
  then obtain e x where e: "r = Some e" "deref d2 e = Some x" "same_key T k (dictGetKey x)"
    using k1 by (cases r) auto
  obtain d3 where d3: "dictDelete can T d2 k = Some (dict_get T d2 k \<noteq> None, d3)" "dict_inv T d3"
     "dict_get T d3 = (\<lambda>y. if same_key T k y then None else dict_get T d2 y)"
    using dictDelete_ok [OF assms(1) d2(2), of can k] by blast
  have "members T d3 = members T d - {x. same_key T k x}"
    using d3(3) d2(3) m1 by (auto simp: members_def)
  then show ?thesis using d1(1,2) m1 d2(1,3) e d3(1,2) k1
    by (intro exI [of _ d1] exI [of _ e] exI [of _ d2] exI [of _ x] exI [of _ d3]) (simp add: members_def)
qed

section \<open>Concrete dictionaries\<close>

definition ex_type :: "nat dictType" where
  "ex_type = \<lparr>hashFunction = id, keyDup = None, valDup = None, keyCompare = None, keyDestructor = True,
     valDestructor = True, expandAllowed = None, no_value = False, keys_are_odd = False\<rparr>"

lemma ex_type_ok: "type_ok ex_type" "\<not> no_value ex_type"
  by (auto simp: type_ok_def ex_type_def same_key_def dictCompareKeys_def dup_key_def good_key_def)

text \<open>Four buckets with three keys, of which the first is moved to a table of eight.\<close>

definition ex_dict :: "nat dict" where
  "ex_dict = \<lparr>ht_table = (\<lambda>t. if t = 0 then Some [[], [Entry 5 (Some 50), Entry 1 (Some 10)], [], []]
       else if t = 1 then Some [[], [], [], [], [Entry 4 (Some 40)], [], [], []] else None),
     ht_used = (\<lambda>t. if t = 0 then 2 else if t = 1 then 1 else 0), rehashidx = 1, pauserehash = 0,
     ht_size_exp = (\<lambda>t. if t = 0 then 2 else if t = 1 then 3 else -1), destroyed = []\<rparr>"

lemma ex_dict_ok: "dict_inv ex_type ex_dict" "dictIsRehashing ex_dict" "dictSize ex_dict = 3"
proof -
  have "table_ok ex_type ex_dict 0"
    by (simp add: table_ok_def ex_dict_def tab_ok_def chain_ok_def ex_type_def hash_mod_def All_less_Suc)
  moreover have "table_ok ex_type ex_dict 1"
    by (simp add: table_ok_def ex_dict_def tab_ok_def chain_ok_def ex_type_def hash_mod_def All_less_Suc)
  moreover have "uniq ex_type (content ex_dict)"
    by (auto simp: uniq_def content_def entries_def ex_dict_def ex_type_def same_key_def dictCompareKeys_def)
  ultimately show "dict_inv ex_type ex_dict"
    by (simp add: dict_inv_def dictIsRehashing_def bucket_def ex_dict_def)
  show "dictIsRehashing ex_dict" "dictSize ex_dict = 3"
    by (simp_all add: dictIsRehashing_def dictSize_def ex_dict_def)
qed

lemma dict_refines_map_witness:
  "\<exists>s'. dict_run ex_type [Add 1 10, Add 5 50, Replace 1 11, Idle (Expand 8), Idle (Rehash 1), Add 5 51, Fetch 1, Delete 5, Fetch 5]
        (DICT_RESIZE_ENABLE, dictCreate)
      = Some ([Flag True, Flag True, Flag False, Nothing, Nothing, Flag False, Found (Some (Some 11)), Flag True, Found None], s')"
  using dict_refines_map [OF ex_type_ok, of "[Add 1 10, Add 5 50, Replace 1 11, Idle (Expand 8), Idle (Rehash 1), Add 5 51, Fetch 1, Delete 5, Fetch 5]"
      DICT_RESIZE_ENABLE]
  by (simp add: same_key_def dictCompareKeys_def ex_type_def stored_def dup_val_def) blast

lemma dict_rehash_completes_witness:
  "\<exists>d'. rehash_steps ex_type 5 ex_dict = Some d' \<and> \<not> dictIsRehashing d' \<and> dict_get ex_type d' 5 = Some (Some 50)"
proof -
  have "DICTHT_SIZE (ht_size_exp ex_dict 0) < 5" by (simp add: ex_dict_def DICTHT_SIZE_def)
  moreover have "dict_get ex_type ex_dict 5 = Some (Some 50)"
    by (simp add: dict_get_def entries_def ex_dict_def ex_type_def same_key_def dictCompareKeys_def)
  ultimately show ?thesis using dict_rehash_completes [OF ex_type_ok(1) ex_dict_ok(1,2), of 5] by auto
qed

lemma dict_empty_destroys_witness:
  "\<exists>d'. dictEmpty ex_type ex_dict = Some d' \<and> destroyed d' =
     [DestroyedKey 5, DestroyedVal (Some 50), DestroyedKey 1, DestroyedVal (Some 10), DestroyedKey 4, DestroyedVal (Some 40)]"
  using dict_empty_destroys [OF ex_type_ok(1) ex_dict_ok(1)]
  by (auto simp: ex_dict_def entries_def destroys_def ex_type_def)

lemma dict_as_set_witness:
  "\<exists>d1. dictAdd DICT_RESIZE_ENABLE ex_type ex_dict 5 51 = Some (False, d1)
     \<and> members ex_type d1 = members ex_type ex_dict \<union> {5}"
proof -
  have "5 \<in> members ex_type ex_dict" "good_key ex_type 5" "{x. same_key ex_type 5 x} = {5}"
    by (auto simp: members_def dict_get_def entries_def ex_dict_def ex_type_def same_key_def dictCompareKeys_def good_key_def)
  then show ?thesis
    using dict_as_set [OF ex_type_ok(1) ex_dict_ok(1), of 5 DICT_RESIZE_ENABLE 51] ex_dict_ok(3) by auto
qed

end
