(* ===== verification/Dict_Scan.thy ===== *)
theory Dict_Scan
  imports Dict_Props
begin

text \<open>
  The cursor of \<open>dictScan\<close>, incremented from its high bits, and the guarantee that a scan returns every
  key that stays in the dictionary while the tables change size under it.
\<close>

section \<open>The scan\<close>

text \<open>One turn of the loop of \<open>rev\<close>, with \<open>s\<close> halved already.\<close>

definition rev_turn :: "nat \<Rightarrow> ptr \<times> ptr \<Rightarrow> ptr \<times> ptr" where
  "rev_turn s st = (case st of (m, v) \<Rightarrow>
     let m = m XOR push_bit s m in
     (m, (drop_bit s v AND m) OR (push_bit s v AND NOT m)))"

fun rev_loop :: "nat \<Rightarrow> ptr \<times> ptr \<Rightarrow> ptr \<times> ptr" where
  "rev_loop s st = (if s div 2 > 0 then rev_loop (s div 2) (rev_turn (s div 2) st) else st)"

declare rev_loop.simps [simp del]

definition rev_bits :: "ptr \<Rightarrow> ptr" where
  "rev_bits v = snd (rev_loop 64 (NOT 0, v))"

definition size_mask :: "'v dict \<Rightarrow> nat \<Rightarrow> ptr" where
  "size_mask d t = word_of_nat (DICTHT_SIZE_MASK (ht_size_exp d t))"

text \<open>The cursor after bucket \<open>v & m\<close>.\<close>

definition next_cursor :: "ptr \<Rightarrow> ptr \<Rightarrow> ptr" where
  "next_cursor m v = rev_bits (rev_bits (v OR NOT m) + 1)"

lemma rev_masks:
  "NOT 0 XOR push_bit 32 (NOT 0) = (0xffffffff :: ptr)"
  "0xffffffff XOR push_bit 16 0xffffffff = (0xffff0000ffff :: ptr)"
  "0xffff0000ffff XOR push_bit 8 0xffff0000ffff = (0xff00ff00ff00ff :: ptr)"
  "0xff00ff00ff00ff XOR push_bit 4 0xff00ff00ff00ff = (0xf0f0f0f0f0f0f0f :: ptr)"
  "0xf0f0f0f0f0f0f0f XOR push_bit 2 0xf0f0f0f0f0f0f0f = (0x3333333333333333 :: ptr)"
  "0x3333333333333333 XOR push_bit 1 0x3333333333333333 = (0x5555555555555555 :: ptr)"
  by (simp_all add: mask_eq_exp_minus_1)

lemma rev_bits_unfold:
  "rev_bits v = snd (rev_turn 1 (rev_turn 2 (rev_turn 4 (rev_turn 8 (rev_turn 16 (rev_turn 32 (NOT 0, v)))))))"
  by (simp add: rev_bits_def rev_loop.simps [of 64] rev_loop.simps [of 32] rev_loop.simps [of 16]
      rev_loop.simps [of 8] rev_loop.simps [of 4] rev_loop.simps [of 2] rev_loop.simps [of "Suc 0"])

text \<open>Swapping the blocks of \<open>s\<close> bits, when the mask has the even blocks.\<close>

definition even_blocks :: "nat \<Rightarrow> ptr \<Rightarrow> bool" where
  "even_blocks s m \<longleftrightarrow> (\<forall>n < 64. bit m n \<longleftrightarrow> even (n div s))"

definition block_swap :: "nat \<Rightarrow> nat \<Rightarrow> nat" where
  "block_swap s n = (if even (n div s) then n + s else n - s)"

lemma upt_64: "[0..<64] = [0, 1, 2, 3, 4, 5, 6, 7, 8, 9, 10, 11, 12, 13, 14, 15, 16, 17, 18, 19, 20, 21, 22, 23, 24, 25,
    26, 27, 28, 29, 30, 31, 32, 33, 34, 35, 36, 37, 38, 39, 40, 41, 42, 43, 44, 45, 46, 47, 48, 49, 50, 51, 52, 53, 54,
    55, 56, 57, 58, 59, 60, 61, 62, 63 :: nat]"
  by (simp add: upt_rec)

lemma all_64: "list_all P [0..<64] \<Longrightarrow> n < 64 \<Longrightarrow> P n"
  by (simp add: list_all_iff)

lemma even_blocks_masks:
  "even_blocks 32 0xffffffff" "even_blocks 16 0xffff0000ffff" "even_blocks 8 0xff00ff00ff00ff"
  "even_blocks 4 0xf0f0f0f0f0f0f0f" "even_blocks 2 0x3333333333333333" "even_blocks 1 0x5555555555555555"
  unfolding even_blocks_def
  by (intro allI impI, erule all_64 [rotated], unfold upt_64 list.pred_inject, simp)+

lemma block_swaps: "n < 64 \<Longrightarrow>
   block_swap 32 (block_swap 16 (block_swap 8 (block_swap 4 (block_swap 2 (block_swap 1 n))))) = 63 - n
   \<and> block_swap 1 n < 64 \<and> block_swap 2 n < 64 \<and> block_swap 4 n < 64 \<and> block_swap 8 n < 64 \<and> block_swap 16 n < 64"
  unfolding block_swap_def
  by (erule all_64 [rotated], unfold upt_64 list.pred_inject, simp)

definition swap_blocks :: "nat \<Rightarrow> ptr \<Rightarrow> ptr \<Rightarrow> ptr" where
  "swap_blocks s m v = (drop_bit s v AND m) OR (push_bit s v AND NOT m)"

lemma rev_turn_swap: "m XOR push_bit s m = m' \<Longrightarrow> rev_turn s (m, v) = (m', swap_blocks s m' v)"
  by (simp add: rev_turn_def Let_def swap_blocks_def)

lemma swap_blocks_bit:
  assumes "even_blocks s m" "0 < s" "n < 64"
  shows "bit (swap_blocks s m v) n \<longleftrightarrow> bit v (block_swap s n)"
proof -
  have e: "bit m n \<longleftrightarrow> even (n div s)" using assms(1,3) by (simp add: even_blocks_def)
  have "s \<le> n" if "odd (n div s)" using that assms(2) by (metis div_less even_zero not_le)
  then show ?thesis
    using assms(3) e by (auto simp: swap_blocks_def block_swap_def bit_simps add.commute)
qed

lemma bit_rev_bits: "bit (rev_bits v) n \<longleftrightarrow> n < 64 \<and> bit v (63 - n)"
proof (cases "n < 64")
  case True
  note sw = swap_blocks_bit [OF even_blocks_masks(1)] swap_blocks_bit [OF even_blocks_masks(2)]
    swap_blocks_bit [OF even_blocks_masks(3)] swap_blocks_bit [OF even_blocks_masks(4)]
    swap_blocks_bit [OF even_blocks_masks(5)] swap_blocks_bit [OF even_blocks_masks(6)]
  let ?n1 = "block_swap 1 n" let ?n2 = "block_swap 2 ?n1" let ?n4 = "block_swap 4 ?n2" let ?n8 = "block_swap 8 ?n4"
  have "?n1 < 64" "?n2 < 64" "?n4 < 64" "?n8 < 64" "block_swap 16 ?n8 < 64" "block_swap 32 (block_swap 16 ?n8) = 63 - n"
    using block_swaps [OF True] block_swaps [of ?n1] block_swaps [of ?n2] block_swaps [of ?n4] block_swaps [of ?n8] by auto
  then show ?thesis
    using True
    by (simp only: rev_bits_unfold rev_turn_swap [OF rev_masks(1)] rev_turn_swap [OF rev_masks(2)] rev_turn_swap [OF rev_masks(3)]
      rev_turn_swap [OF rev_masks(4)] rev_turn_swap [OF rev_masks(5)] rev_turn_swap [OF rev_masks(6)] snd_conv sw) simp
next
  case False
  then show ?thesis using bit_imp_le_length [of "rev_bits v" n] by auto
qed

lemma rev_bits_rev [simp]: "rev_bits (rev_bits v) = v"
  by (rule bit_word_eqI) (auto simp add: bit_rev_bits)

lemma rev_bits_or: "rev_bits (x OR y) = rev_bits x OR rev_bits y"
  by (rule bit_word_eqI) (simp add: bit_rev_bits bit_or_iff)

lemma rev_bits_0 [simp]: "rev_bits 0 = 0"
  by (rule bit_word_eqI) (simp add: bit_rev_bits)

text \<open>The place of a cursor, or of a hash, in the order of the scan.\<close>

definition rank :: "ptr \<Rightarrow> nat" where
  "rank v = unat (rev_bits v)"

lemma rank_less: "rank v < 2 ^ 64"
  using unsigned_less [of "rev_bits v", where 'a = nat] by (simp add: rank_def)

lemma rank_0: "rank v = 0 \<longleftrightarrow> v = 0"
  by (metis rank_def rev_bits_0 rev_bits_rev unat_eq_zero)

lemma rank_or: "rank v \<le> rank (v OR w)"
proof -
  have "int (unat x) \<le> int (unat (x OR y))" for x y :: ptr
    using or_greater_eq [of "int (unat y)" "int (unat x)"] by (simp add: unsigned_or_eq of_nat_or_eq)
  then show ?thesis by (simp only: rank_def rev_bits_or of_nat_le_iff)
qed

text \<open>The masked-off bits set, the cursor is the last of its block of \<open>2 ^ (64 - e)\<close> ranks.\<close>

lemma rank_or_not_mask:
  assumes "e \<le> 64"
  shows "rank (v OR NOT (mask e)) = rank v div 2 ^ (64 - e) * 2 ^ (64 - e) + (2 ^ (64 - e) - 1)"
proof -
  let ?k = "64 - e"
  have r: "rev_bits (v OR NOT (mask e)) = push_bit ?k (drop_bit ?k (rev_bits v)) OR mask ?k"
    by (rule bit_word_eqI) (use assms in \<open>auto simp: bit_rev_bits bit_simps\<close>)
  have "unat (push_bit ?k (drop_bit ?k (rev_bits v)) OR mask ?k)
      = push_bit ?k (drop_bit ?k (unat (rev_bits v))) OR mask ?k"
    by (rule bit_eqI) (use assms in \<open>auto simp: bit_simps dest: bit_imp_le_length\<close>)
  also have "\<dots> = push_bit ?k (drop_bit ?k (unat (rev_bits v))) + mask ?k"
    by (rule disjunctive_add_eq_or [symmetric]) (rule bit_eqI, auto simp: bit_simps)
  finally show ?thesis
    unfolding rank_def r by (simp only: push_bit_eq_mult drop_bit_eq_div mask_eq_exp_minus_1)
qed

lemma rank_next_cursor: "rank (next_cursor m v) = (rank (v OR NOT m) + 1) mod 2 ^ 64"
  by (simp add: rank_def next_cursor_def unat_word_ariths)

lemma next_cursor_forward: "next_cursor m v \<noteq> 0 \<Longrightarrow> rank v < rank (next_cursor m v)"
proof -
  assume n: "next_cursor m v \<noteq> 0"
  have l: "rank (v OR NOT m) + 1 < 2 ^ 64"
  proof (rule ccontr)
    assume "\<not> ?thesis"
    then have "rank (v OR NOT m) + 1 = 2 ^ 64" using rank_less [of "v OR NOT m"] by linarith
    then have "rank (next_cursor m v) = 0" by (simp add: rank_next_cursor)
    then show False using n by (simp only: rank_0)
  qed
  then have "rank (next_cursor m v) = rank (v OR NOT m) + 1" unfolding rank_next_cursor by (rule mod_less)
  then show ?thesis using rank_or [of v "NOT m"] by linarith
qed

text \<open>The entries of a chain, as the callback gets them.\<close>

fun chain_walk :: "'v chain \<Rightarrow> 'v chain" where
  "chain_walk [] = []"
| "chain_walk (de # next) = de # chain_walk (dictGetNext de next)"

text \<open>The expansions of the cursor in the larger table.\<close>

function scan_larger :: "'v dict \<Rightarrow> nat \<Rightarrow> ptr \<Rightarrow> ptr \<Rightarrow> ptr \<Rightarrow> (ptr \<times> 'v chain) option" where
  "scan_larger d t m0 m1 v =
     (case bucket d t (unat (v AND m1)) of
        None \<Rightarrow> None
      | Some c \<Rightarrow>
          let v = next_cursor m1 v in
          if v AND (m0 XOR m1) \<noteq> 0
          then map_option (\<lambda>(v, es). (v, chain_walk c @ es)) (scan_larger d t m0 m1 v)
          else Some (v, chain_walk c))"
  by pat_completeness auto
termination
proof (relation "measure (\<lambda>(d, t, m0, m1, v). 2 ^ 64 - rank v)")
  fix d :: "'v dict" and t m0 m1 v c v'
  assume "v' = next_cursor m1 v" "v' AND (m0 XOR m1) \<noteq> 0"
  then have "rank v < rank v'" by (intro next_cursor_forward [of m1 v, folded \<open>v' = _\<close>]) auto
  then show "((d, t, m0, m1, v'), d, t, m0, m1, v) \<in> measure (\<lambda>(d, t, m0, m1, v). 2 ^ 64 - rank v)"
    using rank_less [of v'] by auto
qed simp

declare scan_larger.simps [simp del]

text \<open>The callback is given the entries of the result, in order.\<close>

definition dictScan :: "'v dict \<Rightarrow> ptr \<Rightarrow> (ptr \<times> 'v chain \<times> 'v dict) option" where
  "dictScan d v =
     (if dictSize d = 0 then Some (0, [], d)
      else let d = dictPauseRehashing d in
        if \<not> dictIsRehashing d then
          let m0 = size_mask d 0 in
          map_option (\<lambda>c. (next_cursor m0 v, chain_walk c, dictResumeRehashing d)) (bucket d 0 (unat (v AND m0)))
        else
          let (t0, t1) = (if DICTHT_SIZE (ht_size_exp d 0) > DICTHT_SIZE (ht_size_exp d 1) then (1, 0) else (0, 1));
              m0 = size_mask d t0; m1 = size_mask d t1
          in case bucket d t0 (unat (v AND m0)) of
               None \<Rightarrow> None
             | Some c \<Rightarrow> map_option (\<lambda>(v, es). (v, chain_walk c @ es, dictResumeRehashing d)) (scan_larger d t1 m0 m1 v))"

section \<open>What a scan visits\<close>

text \<open>Two hashes share a bucket of \<open>2 ^ e\<close> exactly when their ranks share a block.\<close>

lemma ptr_eq_iff: "(x :: ptr) = y \<longleftrightarrow> (\<forall>n. bit x n \<longleftrightarrow> bit y n)"
  by (auto intro: bit_word_eqI)

lemma bucket_block:
  assumes "e \<le> 64"
  shows "unat h mod 2 ^ e = unat v mod 2 ^ e \<longleftrightarrow> rank h div 2 ^ (64 - e) = rank v div 2 ^ (64 - e)"
proof -
  have "unat h mod 2 ^ e = unat v mod 2 ^ e \<longleftrightarrow> (\<forall>n < e. bit h n = bit v n)"
  proof -
    have "unat w mod 2 ^ e = unat (take_bit e w)" for w :: ptr
      by (simp only: unsigned_take_bit_eq) (simp only: take_bit_eq_mod)
    then have "unat h mod 2 ^ e = unat v mod 2 ^ e \<longleftrightarrow> take_bit e h = take_bit e v" by (simp only: word_unat_eq_iff)
    also have "\<dots> \<longleftrightarrow> (\<forall>n < e. bit h n = bit v n)" by (simp add: bit_eq_iff bit_take_bit_iff) (meson assms less_le_trans)
    finally show ?thesis .
  qed
  also have "\<dots> \<longleftrightarrow> (\<forall>n < e. bit (rev_bits h) (64 - e + n) = bit (rev_bits v) (64 - e + n))"
  proof -
    have "bit (rev_bits w) (64 - e + n) = bit w (e - 1 - n)" if "n < e" for w n
    proof -
      have "63 - (64 - e + n) = e - 1 - n" "64 - e + n < 64" using assms that by auto
      then show ?thesis by (simp only: bit_rev_bits) simp
    qed
    then have "(\<forall>n < e. bit (rev_bits h) (64 - e + n) = bit (rev_bits v) (64 - e + n))
        \<longleftrightarrow> (\<forall>n < e. bit h (e - 1 - n) = bit v (e - 1 - n))" by simp
    moreover have "(\<forall>n < e. P n) \<longleftrightarrow> (\<forall>n < e. P (e - 1 - n))" for P :: "nat \<Rightarrow> bool"
    proof
      assume *: "\<forall>n < e. P (e - 1 - n)"
      show "\<forall>n < e. P n"
      proof (intro allI impI)
        fix n assume "n < e"
        then have "e - 1 - n < e" "e - 1 - (e - 1 - n) = n" by auto
        then show "P n" using * by metis
      qed
    qed auto
    then have "(\<forall>n < e. bit h n = bit v n) \<longleftrightarrow> (\<forall>n < e. bit h (e - 1 - n) = bit v (e - 1 - n))" .
    ultimately show ?thesis by (simp only:)
  qed
  also have "\<dots> \<longleftrightarrow> drop_bit (64 - e) (rev_bits h) = drop_bit (64 - e) (rev_bits v)"
  proof -
    have "n < e \<or> \<not> bit w (64 - e + n)" for w :: ptr and n
      using bit_imp_le_length [of w "64 - e + n"] assms by fastforce
    then show ?thesis by (auto simp: ptr_eq_iff bit_drop_bit_eq)
  qed
  finally have main: "unat h mod 2 ^ e = unat v mod 2 ^ e
      \<longleftrightarrow> drop_bit (64 - e) (rev_bits h) = drop_bit (64 - e) (rev_bits v)" .
  show ?thesis
  proof -
    have "unat (drop_bit (64 - e) w) = unat w div 2 ^ (64 - e)" for w :: ptr
      using unsigned_less [of w, where 'a = nat]
      by (simp only: unsigned_drop_bit_eq) (simp add: drop_bit_eq_div take_bit_nat_eq_self)
    then have "drop_bit (64 - e) (rev_bits h) = drop_bit (64 - e) (rev_bits v)
        \<longleftrightarrow> unat (rev_bits h) div 2 ^ (64 - e) = unat (rev_bits v) div 2 ^ (64 - e)"
      by (simp only: word_unat_eq_iff)
    with main show ?thesis by (simp only: rank_def)
  qed
qed

lemma size_mask_eq: "ht_size_exp d t = int e \<Longrightarrow> size_mask d t = mask e"
  by (simp add: size_mask_def DICTHT_SIZE_MASK_def DICTHT_SIZE_def mask_eq_exp_minus_1 of_nat_diff)

text \<open>The first rank after the block of \<open>v\<close>.\<close>

definition block_end :: "nat \<Rightarrow> nat \<Rightarrow> nat" where
  "block_end e r = (r div 2 ^ (64 - e) + 1) * 2 ^ (64 - e)"

text \<open>The rank a returned cursor stands for: \<open>0\<close> is the end.\<close>

definition cursor_end :: "ptr \<Rightarrow> nat" where
  "cursor_end v = (if v = 0 then 2 ^ 64 else rank v)"

lemma block_end_le: "e \<le> 64 \<Longrightarrow> r < 2 ^ 64 \<Longrightarrow> r < block_end e r \<and> block_end e r \<le> 2 ^ 64"
proof -
  assume e: "e \<le> 64" and r: "r < 2 ^ 64"
  have p: "(2::nat) ^ 64 = 2 ^ e * 2 ^ (64 - e)" using e by (simp flip: power_add)
  then have "r div 2 ^ (64 - e) < 2 ^ e" using r by (simp add: less_mult_imp_div_less)
  then have "block_end e r \<le> 2 ^ e * 2 ^ (64 - e)" unfolding block_end_def by (intro mult_right_mono) auto
  moreover have "r < block_end e r"
  proof -
    have "r = r div 2 ^ (64 - e) * 2 ^ (64 - e) + r mod 2 ^ (64 - e)" by (rule div_mult_mod_eq [symmetric])
    also have "\<dots> < r div 2 ^ (64 - e) * 2 ^ (64 - e) + 2 ^ (64 - e)" by (intro add_strict_left_mono) simp
    finally show ?thesis by (simp add: block_end_def)
  qed
  ultimately show ?thesis using p by simp
qed

lemma next_cursor_end: "e \<le> 64 \<Longrightarrow> cursor_end (next_cursor (mask e) v) = block_end e (rank v)"
proof -
  assume e: "e \<le> 64"
  have "rank (v OR NOT (mask e)) + 1 = block_end e (rank v)"
    by (simp add: rank_or_not_mask [OF e] block_end_def)
  then have r: "rank (next_cursor (mask e) v) = block_end e (rank v) mod 2 ^ 64" by (simp add: rank_next_cursor)
  have b: "0 < block_end e (rank v)" "block_end e (rank v) \<le> 2 ^ 64"
    using block_end_le [OF e rank_less, of v] by auto
  show ?thesis
  proof (cases "block_end e (rank v) = 2 ^ 64")
    case True
    then have "next_cursor (mask e) v = 0" using r rank_0 [of "next_cursor (mask e) v"] by simp
    then show ?thesis using True by (simp add: cursor_end_def)
  next
    case False
    then have "rank (next_cursor (mask e) v) = block_end e (rank v)" using r b by simp
    moreover from this have "next_cursor (mask e) v \<noteq> 0" using b(1) rank_0 [of "next_cursor (mask e) v"] by auto
    ultimately show ?thesis by (simp add: cursor_end_def)
  qed
qed

text \<open>A rank is at the start of a block when the cursor has no bit below \<open>e\<close> set.\<close>

lemma block_start:
  assumes "e \<le> 64"
  shows "2 ^ (64 - e) dvd rank v \<longleftrightarrow> (\<forall>n. e \<le> n \<and> n < 64 \<longrightarrow> \<not> bit v n)"
proof -
  have "2 ^ (64 - e) dvd rank v \<longleftrightarrow> take_bit (64 - e) (rev_bits v) = 0"
    by (simp add: rank_def dvd_eq_mod_eq_0 unsigned_take_bit_eq flip: take_bit_eq_mod unat_eq_0)
  also have "\<dots> \<longleftrightarrow> (\<forall>n < 64 - e. \<not> bit v (63 - n))"
    by (auto simp: bit_eq_iff bit_take_bit_iff bit_rev_bits)
  also have "\<dots> \<longleftrightarrow> (\<forall>n. e \<le> n \<and> n < 64 \<longrightarrow> \<not> bit v n)"
  proof (intro iffI allI impI)
    fix n assume *: "\<forall>n < 64 - e. \<not> bit v (63 - n)" and n: "e \<le> n \<and> n < 64"
    then have "63 - n < 64 - e" "63 - (63 - n) = n" by auto
    then show "\<not> bit v n" using * by metis
  next
    fix n assume *: "\<forall>n. e \<le> n \<and> n < 64 \<longrightarrow> \<not> bit v n" and "n < 64 - e"
    then have "e \<le> 63 - n \<and> 63 - n < 64" by auto
    then show "\<not> bit v (63 - n)" using * by blast
  qed
  finally show ?thesis .
qed

lemma chain_walk_linked: "linked c \<Longrightarrow> chain_walk c = c"
  by (induction c) (auto simp: dictGetNext_def)

lemma scan_bucket:
  assumes ok: "table_ok T d t" and b: "ht_table d t = Some b" and e: "ht_size_exp d t = int e"
  shows "\<exists>c. bucket d t (unat (v AND mask e)) = Some c \<and> chain_walk c = c \<and> set c \<subseteq> set (entries d t)
     \<and> (\<forall>x \<in> set (entries d t). rank (hashFunction T (dictGetKey x)) div 2 ^ (64 - e) = rank v div 2 ^ (64 - e) \<longrightarrow> x \<in> set c)"
proof -
  obtain e' where e': "ht_size_exp d t = int e'" "tab_ok T b e' (ht_used d t)" "e' \<le> 60" "length b = 2 ^ e'"
    using table_okE [OF ok b] .
  have ee: "e' = e" using e e'(1) by simp
  have i: "unat (v AND mask e) = unat v mod 2 ^ e"
    by (simp only: unsigned_take_bit_eq flip: take_bit_eq_mask) (simp only: take_bit_eq_mod)
  let ?c = "b ! (unat v mod 2 ^ e)"
  have il: "unat v mod 2 ^ e < length b" using e'(4) ee by simp
  have "linked ?c" using e'(2) il by (auto simp: tab_ok_def chain_ok_def)
  moreover have "set ?c \<subseteq> set (entries d t)" using b nth_mem [OF il] by (auto simp: entries_def)
  moreover have "x \<in> set ?c"
    if x: "x \<in> set (entries d t)" "rank (hashFunction T (dictGetKey x)) div 2 ^ (64 - e) = rank v div 2 ^ (64 - e)" for x
  proof -
    have "x \<in> set (b ! hash_mod T e (dictGetKey x))" using tab_entry [OF e'(2), of x] x(1) b ee by (simp add: entries_def)
    moreover have "hash_mod T e (dictGetKey x) = unat v mod 2 ^ e"
      using bucket_block [of e "hashFunction T (dictGetKey x)" v] x(2) e'(3) ee by (simp add: hash_mod_def)
    ultimately show ?thesis by simp
  qed
  ultimately show ?thesis using b il unfolding i by (auto simp: bucket_def chain_walk_linked)
qed

text \<open>The loop over the larger table goes from the rank of the cursor to the end of its block in the
  smaller table.\<close>

lemma scan_larger_ok:
  assumes ok: "table_ok T d t" and b: "ht_table d t = Some b" and e1: "ht_size_exp d t = int e1"
    and e: "e0 \<le> e1" "e1 \<le> 60"
  shows "\<exists>v' es. scan_larger d t (mask e0) (mask e1) v = Some (v', es) \<and> cursor_end v' = block_end e0 (rank v)
     \<and> set es \<subseteq> set (entries d t)
     \<and> (\<forall>x \<in> set (entries d t). rank v \<le> rank (hashFunction T (dictGetKey x)) \<and>
          rank (hashFunction T (dictGetKey x)) < block_end e0 (rank v) \<longrightarrow> x \<in> set es)"
proof (induction "2 ^ 64 - rank v" arbitrary: v rule: less_induct)
  case less
  let ?rk = "\<lambda>x. rank (hashFunction T (dictGetKey x))"
  let ?v1 = "next_cursor (mask e1) v"
  obtain c where c: "bucket d t (unat (v AND mask e1)) = Some c" "chain_walk c = c" "set c \<subseteq> set (entries d t)"
    "\<forall>x \<in> set (entries d t). ?rk x div 2 ^ (64 - e1) = rank v div 2 ^ (64 - e1) \<longrightarrow> x \<in> set c"
    using scan_bucket [OF ok b e1, of v] by blast
  have end1: "cursor_end ?v1 = block_end e1 (rank v)" using e by (intro next_cursor_end) simp
  have dv: "(2::nat) ^ (64 - e1) dvd 2 ^ (64 - e0)" using e by (intro le_imp_power_dvd) simp
  have in_block: "x \<in> set c" if "x \<in> set (entries d t)" "rank v \<le> ?rk x" "?rk x < block_end e1 (rank v)" for x
  proof -
    have "?rk x div 2 ^ (64 - e1) < rank v div 2 ^ (64 - e1) + 1"
      using that(3) by (simp add: block_end_def less_mult_imp_div_less)
    moreover have "rank v div 2 ^ (64 - e1) \<le> ?rk x div 2 ^ (64 - e1)" using that(2) by (rule div_le_mono)
    ultimately have "?rk x div 2 ^ (64 - e1) = rank v div 2 ^ (64 - e1)" by linarith
    then show ?thesis using c(4) that(1) by blast
  qed
  have bnd: "rank v < block_end e1 (rank v)" "block_end e1 (rank v) \<le> 2 ^ 64"
    "rank v < block_end e0 (rank v)" "block_end e0 (rank v) \<le> 2 ^ 64"
    using block_end_le [of e1 "rank v"] block_end_le [of e0 "rank v"] rank_less [of v] e by auto
  have le: "block_end e1 (rank v) \<le> block_end e0 (rank v)"
  proof -
    obtain q where q: "block_end e0 (rank v) = q * 2 ^ (64 - e1)"
    proof -
      have "2 ^ (64 - e1) dvd block_end e0 (rank v)" unfolding block_end_def by (rule dvd_mult [OF dv])
      then show ?thesis using that by (auto simp: dvd_def mult.commute)
    qed
    then have "rank v div 2 ^ (64 - e1) < q" using bnd(3) by (simp add: less_mult_imp_div_less)
    then have "block_end e1 (rank v) \<le> q * 2 ^ (64 - e1)" unfolding block_end_def by (intro mult_right_mono) auto
    then show ?thesis by (simp only: q)
  qed
  have multiple: "2 ^ (64 - e1) dvd rank ?v1"
  proof (cases "?v1 = 0")
    case False
    then show ?thesis using end1 by (simp add: cursor_end_def block_end_def)
  qed (simp add: rank_def)
  have stop: "?v1 AND (mask e0 XOR mask e1) = 0 \<longleftrightarrow> 2 ^ (64 - e0) dvd rank ?v1"
  proof -
    have "?v1 AND (mask e0 XOR mask e1) = 0 \<longleftrightarrow> (\<forall>n. e0 \<le> n \<and> n < e1 \<longrightarrow> \<not> bit ?v1 n)"
    proof -
      have "bit (mask e0 XOR mask e1 :: ptr) n \<longleftrightarrow> e0 \<le> n \<and> n < e1" for n using e by (auto simp: bit_simps)
      moreover have "x AND y = 0 \<longleftrightarrow> (\<forall>n. bit y n \<longrightarrow> \<not> bit x n)" for x y :: ptr
        by (auto simp: ptr_eq_iff bit_and_iff)
      ultimately show ?thesis by simp
    qed
    moreover have "\<forall>n. e1 \<le> n \<and> n < 64 \<longrightarrow> \<not> bit ?v1 n" using block_start [of e1 ?v1] multiple e by simp
    moreover have "2 ^ (64 - e0) dvd rank ?v1 \<longleftrightarrow> (\<forall>n. e0 \<le> n \<and> n < 64 \<longrightarrow> \<not> bit ?v1 n)"
      using block_start [of e0 ?v1] e by simp
    moreover have "(\<forall>n. e0 \<le> n \<and> n < 64 \<longrightarrow> \<not> bit ?v1 n) \<longleftrightarrow> (\<forall>n. e0 \<le> n \<and> n < e1 \<longrightarrow> \<not> bit ?v1 n)"
    proof (intro iffI allI impI)
      fix n assume *: "\<forall>n. e0 \<le> n \<and> n < e1 \<longrightarrow> \<not> bit ?v1 n" and n: "e0 \<le> n \<and> n < 64"
      show "\<not> bit ?v1 n"
      proof (cases "n < e1")
        case True
        then show ?thesis using * n by blast
      next
        case False
        then have "e1 \<le> n \<and> n < 64" using n by simp
        then show ?thesis using calculation(2) by blast
      qed
    next
      fix n assume *: "\<forall>n. e0 \<le> n \<and> n < 64 \<longrightarrow> \<not> bit ?v1 n" and "e0 \<le> n \<and> n < e1"
      then have "e0 \<le> n \<and> n < 64" using e by simp
      then show "\<not> bit ?v1 n" using * by blast
    qed
    ultimately show ?thesis by (simp only:)
  qed
  show ?case
  proof (cases "?v1 AND (mask e0 XOR mask e1) = 0")
    case True
    then have run: "scan_larger d t (mask e0) (mask e1) v = Some (?v1, c)"
      using c(1,2) by (subst scan_larger.simps) (simp add: Let_def)
    have "2 ^ (64 - e0) dvd block_end e1 (rank v)"
      using True stop end1 le_imp_power_dvd [of "64 - e0" 64 "2::nat"] by (auto simp: cursor_end_def split: if_splits)
    then obtain q where q: "block_end e1 (rank v) = q * 2 ^ (64 - e0)" by (auto simp: dvd_def mult.commute)
    then have "rank v div 2 ^ (64 - e0) < q" using bnd(1) by (simp add: less_mult_imp_div_less)
    then have "block_end e0 (rank v) \<le> q * 2 ^ (64 - e0)" unfolding block_end_def by (intro mult_right_mono) auto
    then have "block_end e0 (rank v) \<le> block_end e1 (rank v)" by (simp only: q)
    then have "block_end e0 (rank v) = block_end e1 (rank v)" using le by simp
    then show ?thesis unfolding run using end1 c(3) in_block by auto
  next
    case False
    then have nz: "?v1 \<noteq> 0" by auto
    then have r1: "rank ?v1 = block_end e1 (rank v)" using end1 by (simp add: cursor_end_def)
    have "2 ^ 64 - rank ?v1 < 2 ^ 64 - rank v" using r1 bnd(1,2) by linarith
    from less [OF this] obtain v' es where r: "scan_larger d t (mask e0) (mask e1) ?v1 = Some (v', es)"
      "cursor_end v' = block_end e0 (rank ?v1)" "set es \<subseteq> set (entries d t)"
      "\<forall>x \<in> set (entries d t). rank ?v1 \<le> ?rk x \<and> ?rk x < block_end e0 (rank ?v1) \<longrightarrow> x \<in> set es"
      by blast
    have run: "scan_larger d t (mask e0) (mask e1) v = Some (v', c @ es)"
      using c(1,2) False r(1) by (subst scan_larger.simps) (simp add: Let_def)
    have "rank ?v1 \<noteq> block_end e0 (rank v)"
    proof
      assume "rank ?v1 = block_end e0 (rank v)"
      then have "2 ^ (64 - e0) dvd rank ?v1" by (simp add: block_end_def)
      then show False using stop False by simp
    qed
    then have "rank ?v1 < block_end e0 (rank v)" using r1 le by simp
    then have "rank ?v1 div 2 ^ (64 - e0) \<le> rank v div 2 ^ (64 - e0)"
      by (simp add: block_end_def less_mult_imp_div_less flip: less_Suc_eq_le)
    moreover have "rank v div 2 ^ (64 - e0) \<le> rank ?v1 div 2 ^ (64 - e0)" using r1 bnd(1) by (intro div_le_mono) simp
    ultimately have "block_end e0 (rank ?v1) = block_end e0 (rank v)" by (simp add: block_end_def)
    moreover have "x \<in> set (c @ es)"
      if "x \<in> set (entries d t)" "rank v \<le> ?rk x" "?rk x < block_end e0 (rank v)" for x
    proof (cases "?rk x < block_end e1 (rank v)")
      case True
      then show ?thesis using in_block that by simp
    next
      case False
      then show ?thesis using r(4) r1 that calculation by simp
    qed
    ultimately show ?thesis unfolding run using r(2,3) c(3) by auto
  qed
qed

text \<open>One call: it returns, it gives only entries of the dictionary, and it gives every entry whose rank
  is from the cursor's to the next cursor's.\<close>

lemma dictScan_ok:
  assumes inv: "dict_inv T d"
  shows "\<exists>v' es. dictScan d v = Some (v', es, d) \<and> rank v < cursor_end v' \<and> cursor_end v' \<le> 2 ^ 64
     \<and> set es \<subseteq> set (entries d 0 @ entries d 1)
     \<and> (\<forall>x \<in> set (entries d 0 @ entries d 1). rank v \<le> rank (hashFunction T (dictGetKey x)) \<and>
          rank (hashFunction T (dictGetKey x)) < cursor_end v' \<longrightarrow> x \<in> set es)
     \<and> (dictSize d \<noteq> 0 \<longrightarrow> (\<exists>e. (\<exists>t \<in> {0, 1}. ht_table d t \<noteq> None \<and> ht_size_exp d t = int e) \<and>
          (\<forall>t \<in> {0, 1}. ht_table d t \<noteq> None \<longrightarrow> int e \<le> ht_size_exp d t) \<and> cursor_end v' = block_end e (rank v)))"
proof (cases "dictSize d = 0")
  case True
  then have "content d = {#}" using size_content [OF inv] by simp
  then have "entries d 0 = []" "entries d 1 = []" by (auto simp: content_def)
  then show ?thesis using True rank_less [of v] by (simp add: dictScan_def cursor_end_def)
next
  case sz: False
  let ?p = "dictPauseRehashing d"
  have p: "dictResumeRehashing ?p = d" "dictIsRehashing ?p = dictIsRehashing d" "bucket ?p t i = bucket d t i"
    "ht_size_exp ?p = ht_size_exp d" "scan_larger ?p t m0 m1 w = scan_larger d t m0 m1 w" for t i m0 m1 w
  proof -
    show "bucket ?p t i = bucket d t i" for t i by (simp add: dictPauseRehashing_def bucket_def)
    then show "scan_larger ?p t m0 m1 w = scan_larger d t m0 m1 w"
      by (induction d t m0 m1 w rule: scan_larger.induct)
        (subst (1 2) scan_larger.simps, simp add: Let_def split: option.splits)
  qed (simp_all add: dictPauseRehashing_def dictResumeRehashing_def dictIsRehashing_def)
  let ?rk = "\<lambda>x. rank (hashFunction T (dictGetKey x))"
  obtain b0 where b0: "ht_table d 0 = Some b0" using nonempty_table [OF inv sz] by blast
  obtain e0 where e0: "ht_size_exp d 0 = int e0" "tab_ok T b0 e0 (ht_used d 0)" "e0 \<le> 60" "length b0 = 2 ^ e0"
    using table_okE [OF dict_invD(1) [OF inv] b0] .
  have same_block: "?rk x div 2 ^ (64 - e) = rank v div 2 ^ (64 - e)"
    if "rank v \<le> ?rk x" "?rk x < block_end e (rank v)" for x :: "'a dictEntry" and e
  proof -
    have "?rk x div 2 ^ (64 - e) < rank v div 2 ^ (64 - e) + 1"
      using that(2) by (simp add: block_end_def less_mult_imp_div_less)
    moreover have "rank v div 2 ^ (64 - e) \<le> ?rk x div 2 ^ (64 - e)" using that(1) by (rule div_le_mono)
    ultimately show ?thesis by linarith
  qed
  show ?thesis
  proof (cases "dictIsRehashing d")
    case False
    have m: "size_mask ?p 0 = mask e0" using e0(1) p(4) by (intro size_mask_eq) simp
    obtain c where c: "bucket d 0 (unat (v AND mask e0)) = Some c" "chain_walk c = c" "set c \<subseteq> set (entries d 0)"
      "\<forall>x \<in> set (entries d 0). ?rk x div 2 ^ (64 - e0) = rank v div 2 ^ (64 - e0) \<longrightarrow> x \<in> set c"
      using scan_bucket [OF dict_invD(1) [OF inv] b0 e0(1), of v] by blast
    have run: "dictScan d v = Some (next_cursor (mask e0) v, c, d)"
      using sz False c(1,2) by (simp add: dictScan_def Let_def p m)
    have ce: "cursor_end (next_cursor (mask e0) v) = block_end e0 (rank v)" using e0 by (intro next_cursor_end) simp
    have "entries d 1 = []" "ht_table d 1 = None" using dict_invD(6) [OF inv False] by (simp_all add: entries_def)
    then show ?thesis
      unfolding run using ce c(3,4) same_block [of _ e0] block_end_le [OF _ rank_less, of e0 v] e0(1,3) b0
      by (intro exI conjI) auto
  next
    case True
    obtain b1 where b1: "ht_table d 1 = Some b1" using dict_invD(4) [OF inv True] by blast
    obtain e1 where e1: "ht_size_exp d 1 = int e1" "tab_ok T b1 e1 (ht_used d 1)" "e1 \<le> 60" "length b1 = 2 ^ e1"
      using table_okE [OF dict_invD(2) [OF inv] b1] .
    have "\<exists>t0 t1 f0 f1 c0 c1. (if DICTHT_SIZE (ht_size_exp d 0) > DICTHT_SIZE (ht_size_exp d 1) then (1, 0) else (0, 1)) = (t0, t1)
        \<and> {t0, t1} = {0, 1} \<and> ht_table d t0 = Some c0 \<and> ht_table d t1 = Some c1 \<and> table_ok T d t0 \<and> table_ok T d t1
        \<and> ht_size_exp d t0 = int f0 \<and> ht_size_exp d t1 = int f1 \<and> f0 \<le> f1 \<and> f1 \<le> 60"
    proof (cases "e0 \<le> e1")
      case True
      then have "\<not> DICTHT_SIZE (ht_size_exp d 0) > DICTHT_SIZE (ht_size_exp d 1)" using e0(1) e1(1) by (simp add: DICTHT_SIZE_def)
      then show ?thesis using True b0 b1 e0(1,3) e1(1,3) dict_invD(1,2) [OF inv]
        by (intro exI [of _ 0] exI [of _ 1] exI [of _ e0] exI [of _ e1] exI [of _ b0] exI [of _ b1]) simp
    next
      case False
      then have "DICTHT_SIZE (ht_size_exp d 0) > DICTHT_SIZE (ht_size_exp d 1)" using e0(1) e1(1) by (simp add: DICTHT_SIZE_def)
      then show ?thesis using False b0 b1 e0(1,3) e1(1,3) dict_invD(1,2) [OF inv]
        by (intro exI [of _ 1] exI [of _ 0] exI [of _ e1] exI [of _ e0] exI [of _ b1] exI [of _ b0]) auto
    qed
    then obtain t0 t1 f0 f1 c0 c1 where t: "(if DICTHT_SIZE (ht_size_exp d 0) > DICTHT_SIZE (ht_size_exp d 1) then (1, 0) else (0, 1)) = (t0, t1)"
      "{t0, t1} = {0, 1}" "ht_table d t0 = Some c0" "ht_table d t1 = Some c1" "table_ok T d t0" "table_ok T d t1"
      "ht_size_exp d t0 = int f0" "ht_size_exp d t1 = int f1" "f0 \<le> f1" "f1 \<le> 60"
      by (elim exE conjE) (rule that)
    have m: "size_mask ?p t0 = mask f0" "size_mask ?p t1 = mask f1" using t(7,8) p(4) by (auto intro: size_mask_eq)
    obtain c where c: "bucket d t0 (unat (v AND mask f0)) = Some c" "chain_walk c = c" "set c \<subseteq> set (entries d t0)"
      "\<forall>x \<in> set (entries d t0). ?rk x div 2 ^ (64 - f0) = rank v div 2 ^ (64 - f0) \<longrightarrow> x \<in> set c"
      using scan_bucket [OF t(5,3,7), of v] by blast
    obtain v' es where l: "scan_larger d t1 (mask f0) (mask f1) v = Some (v', es)" "cursor_end v' = block_end f0 (rank v)"
      "set es \<subseteq> set (entries d t1)"
      "\<forall>x \<in> set (entries d t1). rank v \<le> ?rk x \<and> ?rk x < block_end f0 (rank v) \<longrightarrow> x \<in> set es"
      using scan_larger_ok [OF t(6,4,8,9,10), of v] by blast
    have run: "dictScan d v = Some (v', c @ es, d)"
      using sz True c(1,2) l(1) t(1) by (simp add: dictScan_def Let_def p m)
    have un: "set (entries d 0 @ entries d 1) = set (entries d t0) \<union> set (entries d t1)"
      using t(2) by (auto simp: doubleton_eq_iff)
    have e: "(\<exists>t \<in> {0, 1}. ht_table d t \<noteq> None \<and> ht_size_exp d t = int f0) \<and>
          (\<forall>t \<in> {0, 1}. ht_table d t \<noteq> None \<longrightarrow> int f0 \<le> ht_size_exp d t)"
      unfolding t(2) [symmetric] using t(3,4,7,8,9) by simp
    have bnd: "rank v < cursor_end v'" "cursor_end v' \<le> 2 ^ 64"
      using l(2) block_end_le [OF _ rank_less, of f0 v] t(9,10) by auto
    have sub: "set (c @ es) \<subseteq> set (entries d 0 @ entries d 1)" unfolding un using c(3) l(3) by auto
    have cov: "x \<in> set (c @ es)"
      if "x \<in> set (entries d 0 @ entries d 1)" "rank v \<le> ?rk x" "?rk x < cursor_end v'" for x
      using that c(4) l(2,4) same_block [of x f0] unfolding un by auto
    show ?thesis unfolding run using bnd sub cov e l(2) by (intro exI [of _ v'] exI [of _ "c @ es"]) blast
  qed
qed

section \<open>A full scan\<close>

text \<open>A client calls the scan with the cursor it got, each time on the dictionary of the moment, until
  the cursor is \<open>0\<close> again.\<close>

fun scan_run :: "'v dict list \<Rightarrow> ptr \<Rightarrow> (ptr \<times> 'v chain) option" where
  "scan_run [] v = Some (v, [])"
| "scan_run (d # ds) v = do {
     (v, es, d) \<leftarrow> dictScan d v;
     if v = 0 then Some (0, es) else map_option (\<lambda>(v, es'). (v, es @ es')) (scan_run ds v) }"

lemma get_entry: "dict_get T d k \<noteq> None \<longleftrightarrow> (\<exists>x \<in> set (entries d 0 @ entries d 1). same_key T k (dictGetKey x))"
  unfolding dict_get_None content_def set_mset_mset set_map by auto

lemma scan_run_ok:
  assumes T: "type_ok T" and "ds \<noteq> []" "\<forall>d \<in> set ds. dict_inv T d \<and> dict_get T d k \<noteq> None"
    and "rank v \<le> rank (hashFunction T k)"
  shows "\<exists>v' es. scan_run ds v = Some (v', es)
     \<and> (\<forall>x \<in> set es. \<exists>d \<in> set ds. x \<in> set (entries d 0 @ entries d 1))
     \<and> (rank (hashFunction T k) < cursor_end v' \<longrightarrow> (\<exists>x \<in> set es. same_key T k (dictGetKey x)))"
  using assms(2-)
proof (induction ds arbitrary: v)
  case (Cons d ds)
  obtain v1 es where s: "dictScan d v = Some (v1, es, d)" "set es \<subseteq> set (entries d 0 @ entries d 1)"
    "\<forall>x \<in> set (entries d 0 @ entries d 1). rank v \<le> rank (hashFunction T (dictGetKey x)) \<and>
          rank (hashFunction T (dictGetKey x)) < cursor_end v1 \<longrightarrow> x \<in> set es"
    using dictScan_ok [of T d v] Cons.prems(2) by auto
  obtain x where x: "x \<in> set (entries d 0 @ entries d 1)" "same_key T k (dictGetKey x)"
    using Cons.prems(2) unfolding get_entry by auto
  have hx: "hashFunction T (dictGetKey x) = hashFunction T k" using type_okD(3) [OF T x(2)] by simp
  have found: "\<exists>x \<in> set es. same_key T k (dictGetKey x)" if "rank (hashFunction T k) < cursor_end v1"
    using s(3) x hx that Cons.prems(3) by auto
  show ?case
  proof (cases "v1 = 0")
    case True
    then have "cursor_end v1 = 2 ^ 64" by (simp add: cursor_end_def)
    then have f: "\<exists>x \<in> set es. same_key T k (dictGetKey x)" using found rank_less by simp
    have run: "scan_run (d # ds) v = Some (0, es)" using s(1) True by simp
    show ?thesis unfolding run using s(2) f by (intro exI [of _ 0] exI [of _ es]) auto
  next
    case v1: False
    then have ce: "cursor_end v1 = rank v1" by (simp add: cursor_end_def)
    show ?thesis
    proof (cases "ds = []")
      case True
      then have run: "scan_run (d # ds) v = Some (v1, es)" using s(1) v1 by simp
      show ?thesis unfolding run using s(2) found by (intro exI [of _ v1] exI [of _ es]) auto
    next
      case ds: False
      show ?thesis
      proof (cases "rank (hashFunction T k) < rank v1")
        case True
        then have f: "\<exists>x \<in> set es. same_key T k (dictGetKey x)" using found ce by simp
        have "\<exists>v' es'. scan_run ds v1 = Some (v', es') \<and> (\<forall>x \<in> set es'. \<exists>d \<in> set ds. x \<in> set (entries d 0 @ entries d 1))"
          using Cons.prems(2)
        proof (induction ds arbitrary: v1)
          case (Cons d' ds)
          obtain v2 es2 where s2: "dictScan d' v1 = Some (v2, es2, d')" "set es2 \<subseteq> set (entries d' 0 @ entries d' 1)"
            using dictScan_ok [of T d' v1] Cons.prems by auto
          then show ?case using Cons.IH [of v2] Cons.prems by auto
        qed simp
        then obtain v' es' where r: "scan_run ds v1 = Some (v', es')" "\<forall>x \<in> set es'. \<exists>d \<in> set ds. x \<in> set (entries d 0 @ entries d 1)"
          by blast
        have run: "scan_run (d # ds) v = Some (v', es @ es')" using s(1) v1 r(1) by simp
        show ?thesis unfolding run using s(2) f r(2) by (intro exI [of _ v'] exI [of _ "es @ es'"]) auto
      next
        case False
        then obtain v' es' where r: "scan_run ds v1 = Some (v', es')"
          "\<forall>x \<in> set es'. \<exists>d \<in> set ds. x \<in> set (entries d 0 @ entries d 1)"
          "rank (hashFunction T k) < cursor_end v' \<longrightarrow> (\<exists>x \<in> set es'. same_key T k (dictGetKey x))"
          using Cons.IH [OF ds, of v1] Cons.prems(2) by auto
        have run: "scan_run (d # ds) v = Some (v', es @ es')" using s(1) v1 r(1) by simp
        show ?thesis unfolding run using s(2) r(2,3) by (intro exI [of _ v'] exI [of _ "es @ es'"]) auto
      qed
    qed
  qed
qed simp

text \<open>C1. The guarantee of \<open>SCAN\<close>: when the cursor is \<open>0\<close> again, every key that was in the dictionary at each
  call has been returned, although the table may have been resized, rehashed or changed in any way between
  the calls.  Only entries that the dictionary held at some call are returned.\<close>

theorem scan_complete:
  assumes "type_ok T" "ds \<noteq> []" "\<forall>d \<in> set ds. dict_inv T d \<and> dict_get T d k \<noteq> None"
  shows "\<exists>v es. scan_run ds 0 = Some (v, es)
     \<and> (\<forall>x \<in> set es. \<exists>d \<in> set ds. x \<in> set (entries d 0 @ entries d 1))
     \<and> (v = 0 \<longrightarrow> (\<exists>x \<in> set es. same_key T k (dictGetKey x)))"
proof -
  have "rank 0 \<le> rank (hashFunction T k)" by (simp add: rank_def)
  from scan_run_ok [OF assms this] show ?thesis
    using rank_less [of "hashFunction T k"] by (auto simp: cursor_end_def)
qed

text \<open>Every call passes a block of the finest granularity there is.\<close>

lemma scan_progress:
  assumes "\<forall>d \<in> set ds. dict_inv T d \<and> (\<forall>t. ht_table d t \<noteq> None \<longrightarrow> ht_size_exp d t \<le> int E)" "E \<le> 60"
  shows "\<exists>v' es. scan_run ds v = Some (v', es) \<and> (v' = 0 \<or> rank v div 2 ^ (64 - E) + length ds \<le> rank v' div 2 ^ (64 - E))"
  using assms(1)
proof (induction ds arbitrary: v)
  case (Cons d ds)
  obtain v1 es where s: "dictScan d v = Some (v1, es, d)"
    "dictSize d \<noteq> 0 \<longrightarrow> (\<exists>e. (\<exists>t \<in> {0, 1}. ht_table d t \<noteq> None \<and> ht_size_exp d t = int e) \<and>
          (\<forall>t \<in> {0, 1}. ht_table d t \<noteq> None \<longrightarrow> int e \<le> ht_size_exp d t) \<and> cursor_end v1 = block_end e (rank v))"
    using dictScan_ok [of T d v] Cons.prems by (simp only: list.set insert_iff) blast
  show ?case
  proof (cases "v1 = 0")
    case True
    then show ?thesis using s(1) by auto
  next
    case False
    have "dictScan d v = Some (0, [], d)" if "dictSize d = 0" using that by (simp add: dictScan_def)
    then have "dictSize d \<noteq> 0" using s(1) False by (metis option.inject prod.inject)
    then obtain e t where e: "ht_table d t \<noteq> None" "ht_size_exp d t = int e" "cursor_end v1 = block_end e (rank v)"
      using s(2) by blast
    then have "e \<le> E" using Cons.prems by fastforce
    then have "(2::nat) ^ (64 - E) dvd 2 ^ (64 - e)" by (intro le_imp_power_dvd) simp
    then have "2 ^ (64 - E) dvd rank v1" using e(3) False by (simp add: cursor_end_def block_end_def)
    then obtain q where q: "rank v1 = q * 2 ^ (64 - E)" by (auto simp: dvd_def mult.commute)
    have "rank v < rank v1"
      using e(3) False block_end_le [OF _ rank_less, of e v] \<open>e \<le> E\<close> assms(2) by (simp add: cursor_end_def)
    then have "rank v div 2 ^ (64 - E) < q" unfolding q by (simp add: less_mult_imp_div_less)
    then have step: "rank v div 2 ^ (64 - E) + 1 \<le> rank v1 div 2 ^ (64 - E)" by (simp add: q)
    obtain v' es' where "scan_run ds v1 = Some (v', es')"
      "v' = 0 \<or> rank v1 div 2 ^ (64 - E) + length ds \<le> rank v' div 2 ^ (64 - E)"
      using Cons.IH [of v1] Cons.prems by auto
    then show ?thesis using s(1) False step by auto
  qed
qed simp

text \<open>A scan ends: when no table ever has more than \<open>2 ^ E\<close> buckets, the cursor is \<open>0\<close> after at most
  \<open>2 ^ E\<close> calls, whatever happens to the dictionary between them.\<close>

theorem scan_terminates:
  assumes "\<forall>d \<in> set ds. dict_inv T d \<and> (\<forall>t. ht_table d t \<noteq> None \<longrightarrow> ht_size_exp d t \<le> int E)" "E \<le> 60"
    and "2 ^ E \<le> length ds"
  shows "\<exists>es. scan_run ds 0 = Some (0, es)"
proof -
  obtain v es where r: "scan_run ds 0 = Some (v, es)" "v = 0 \<or> rank 0 div 2 ^ (64 - E) + length ds \<le> rank v div 2 ^ (64 - E)"
    using scan_progress [OF assms(1,2), of 0] by blast
  have "rank v < 2 ^ E * 2 ^ (64 - E)" using rank_less [of v] assms(2) by (simp flip: power_add)
  then have "rank v div 2 ^ (64 - E) < 2 ^ E" by (simp add: less_mult_imp_div_less)
  then have "v = 0" using r(2) assms(3) by auto
  then show ?thesis using r(1) by simp
qed

text \<open>A dictionary that grows from four to eight buckets between two calls.\<close>

lemma ex_dict_keys: "dict_get ex_type ex_dict 5 \<noteq> None"
  by (simp add: dict_get_def entries_def ex_dict_def ex_type_def same_key_def dictCompareKeys_def)

lemma scan_complete_witness:
  "\<exists>v es. scan_run [ex_dict, ex_dict, ex_dict, ex_dict] 0 = Some (v, es)
     \<and> (v = 0 \<longrightarrow> (\<exists>x \<in> set es. same_key ex_type 5 (dictGetKey x)))"
  using scan_complete [OF ex_type_ok(1), of "[ex_dict, ex_dict, ex_dict, ex_dict]" 5] ex_dict_ok(1) ex_dict_keys by auto

lemma scan_terminates_witness: "\<exists>es. scan_run (replicate 8 ex_dict) 0 = Some (0, es)"
  by (rule scan_terminates [of _ ex_type 3]) (use ex_dict_ok(1) in \<open>auto simp: ex_dict_def\<close>)

end
