(* ===== verification/Dict_Iter.thy ===== *)
theory Dict_Iter
  imports Dict_Map
begin

text \<open>
  The iterators, the fingerprint and the random sampling of \<open>dict.c\<close>.

  The entry an iterator holds is a pointer, good as long as that entry exists.  It is kept as the number of
  entries from it to the end of its chain, 0 for \<open>NULL\<close>: removing or adding entries before it in the chain
  does not change it.  The addresses of the two tables, which enter the fingerprint, are a parameter, and so
  are the numbers drawn: lists that stand for the next results of \<open>randomULong\<close> (\<open>genrand64_int64\<close> or
  \<open>random\<close>, see \<open>dict.h\<close>) and of the C library.  A loop that needs more numbers than the list has is \<open>None\<close>.
\<close>

section \<open>Fingerprint\<close>

text \<open>Thomas Wang's 64 bit integer hash.\<close>

definition wang_hash :: "64 word \<Rightarrow> 64 word" where
  "wang_hash h0 =
     (let h1 = NOT h0 + push_bit 21 h0;
          h2 = h1 XOR drop_bit 24 h1;
          h3 = (h2 + push_bit 3 h2) + push_bit 8 h2;
          h4 = h3 XOR drop_bit 14 h3;
          h5 = (h4 + push_bit 2 h4) + push_bit 4 h4;
          h6 = h5 XOR drop_bit 28 h5
      in h6 + push_bit 31 h6)"

definition fingerprint_integers :: "(nat \<Rightarrow> 64 word) \<Rightarrow> 'v dict \<Rightarrow> 64 word list" where
  "fingerprint_integers at d =
     [at 0, word_of_int (ht_size_exp d 0), word_of_nat (ht_used d 0),
      at 1, word_of_int (ht_size_exp d 1), word_of_nat (ht_used d 1)]"

definition dictFingerprint :: "(nat \<Rightarrow> 64 word) \<Rightarrow> 'v dict \<Rightarrow> 64 word" where
  "dictFingerprint at d = fold (\<lambda>n hash. wang_hash (hash + n)) (fingerprint_integers at d) 0"

section \<open>Iterators\<close>

record dictIterator =
  it_index :: int
  it_table :: nat
  it_safe :: bool
  it_entry :: nat
  it_nextEntry :: nat
  it_fingerprint :: "64 word"

text \<open>The field \<open>fingerprint\<close> is left as it is in the memory of the iterator, here \<open>fp\<close>.\<close>

definition dictInitIterator :: "64 word \<Rightarrow> dictIterator" where
  "dictInitIterator fp = \<lparr>it_index = -1, it_table = 0, it_safe = False, it_entry = 0, it_nextEntry = 0, it_fingerprint = fp\<rparr>"

definition dictInitSafeIterator :: "64 word \<Rightarrow> dictIterator" where
  "dictInitSafeIterator fp = (dictInitIterator fp)\<lparr>it_safe := True\<rparr>"

definition dictGetIterator :: "64 word \<Rightarrow> dictIterator" where
  "dictGetIterator fp = dictInitIterator fp"

definition dictGetSafeIterator :: "64 word \<Rightarrow> dictIterator" where
  "dictGetSafeIterator fp = (let i = dictGetIterator fp in i\<lparr>it_safe := True\<rparr>)"

definition dictResetIterator :: "(nat \<Rightarrow> 64 word) \<Rightarrow> 'v dict \<Rightarrow> dictIterator \<Rightarrow> 'v dict option" where
  "dictResetIterator at d it =
     (if \<not> (it_index it = -1 \<and> it_table it = 0) then
        if it_safe it then Some (dictResumeRehashing d)
        else if it_fingerprint it = dictFingerprint at d then Some d else None
      else Some d)"

definition dictReleaseIterator :: "(nat \<Rightarrow> 64 word) \<Rightarrow> 'v dict \<Rightarrow> dictIterator \<Rightarrow> 'v dict option" where
  "dictReleaseIterator at d it = dictResetIterator at d it"

text \<open>What the first call does before it looks at a bucket.\<close>

definition iter_start :: "(nat \<Rightarrow> 64 word) \<Rightarrow> 'v dict \<Rightarrow> dictIterator \<Rightarrow> 'v dict \<times> dictIterator" where
  "iter_start at d it =
     (if it_index it = -1 \<and> it_table it = 0 then
        if it_safe it then (dictPauseRehashing d, it) else (d, it\<lparr>it_fingerprint := dictFingerprint at d\<rparr>)
      else (d, it))"

text \<open>The next bucket, or \<open>None\<close> for the \<open>break\<close> at the end of the tables.\<close>

definition iter_bucket :: "'v dict \<Rightarrow> dictIterator \<Rightarrow> dictIterator option" where
  "iter_bucket d it =
     (let it = it\<lparr>it_index := it_index it + 1\<rparr> in
      if it_index it \<ge> int (DICTHT_SIZE (ht_size_exp d (it_table it))) then
        if dictIsRehashing d \<and> it_table it = 0 then Some (it\<lparr>it_table := it_table it + 1, it_index := 0\<rparr>) else None
      else Some it)"

definition iter_measure :: "'v dict \<Rightarrow> dictIterator \<Rightarrow> nat" where
  "iter_measure d it = (if it_entry it = 0 then 0 else 1)
     + 2 * nat (int (DICTHT_SIZE (ht_size_exp d (it_table it))) - it_index it)
     + (if it_table it = 0 then 2 * DICTHT_SIZE (ht_size_exp d 1) + 4 else 0)"

lemma iter_start_sels [simp]:
  "ht_table (fst (iter_start at d it)) = ht_table d" "ht_size_exp (fst (iter_start at d it)) = ht_size_exp d"
  "ht_used (fst (iter_start at d it)) = ht_used d" "rehashidx (fst (iter_start at d it)) = rehashidx d"
  "dictIsRehashing (fst (iter_start at d it)) = dictIsRehashing d" "destroyed (fst (iter_start at d it)) = destroyed d"
  "it_table (snd (iter_start at d it)) = it_table it" "it_index (snd (iter_start at d it)) = it_index it"
  "it_entry (snd (iter_start at d it)) = it_entry it" "it_nextEntry (snd (iter_start at d it)) = it_nextEntry it"
  "it_safe (snd (iter_start at d it)) = it_safe it"
  by (simp_all add: iter_start_def dictPauseRehashing_def dictIsRehashing_def)

lemma iter_bucket_decreases:
  assumes "iter_bucket d it = Some it'"
  shows "iter_measure d (it'\<lparr>it_entry := 0\<rparr>) + 2 \<le> iter_measure d (it\<lparr>it_entry := 0\<rparr>)"
  using assms by (auto simp: iter_bucket_def iter_measure_def Let_def split: if_splits)

lemma iter_start_measure: "(d', it') = iter_start at d it \<Longrightarrow> it_entry it = 0 \<Longrightarrow>
    iter_measure d' (it'\<lparr>it_entry := 0\<rparr>) = iter_measure d it"
  by (auto simp: iter_measure_def iter_start_def dictPauseRehashing_def split: if_splits)

text \<open>The loop of \<open>dictNext\<close>.  The entry is returned as a reference.\<close>

function dictNext :: "(nat \<Rightarrow> 64 word) \<Rightarrow> 'v dict \<Rightarrow> dictIterator \<Rightarrow> (eref option \<times> 'v dict \<times> dictIterator) option" where
  "dictNext at d it =
     (if it_entry it = 0 then
        case iter_start at d it of (d, it) \<Rightarrow>
          case iter_bucket d it of
            None \<Rightarrow> Some (None, d, it\<lparr>it_index := it_index it + 1\<rparr>)
          | Some it \<Rightarrow> do {
              c \<leftarrow> bucket d (it_table it) (nat (it_index it));
              case c of
                [] \<Rightarrow> dictNext at d (it\<lparr>it_entry := 0\<rparr>)
              | he # next \<Rightarrow> Some (Some (it_table it, nat (it_index it), 0), d,
                    it\<lparr>it_entry := length c, it_nextEntry := length (dictGetNext he next)\<rparr>) }
      else if it_nextEntry it = 0 then dictNext at d (it\<lparr>it_entry := 0\<rparr>)
      else do {
        c \<leftarrow> bucket d (it_table it) (nat (it_index it));
        let p = length c - it_nextEntry it;
        case drop p c of
          [] \<Rightarrow> None
        | he # next \<Rightarrow> Some (Some (it_table it, nat (it_index it), p), d,
              it\<lparr>it_entry := it_nextEntry it, it_nextEntry := length (dictGetNext he next)\<rparr>) })"
  by pat_completeness auto

termination
proof (relation "measure (\<lambda>(at, d, it). iter_measure d it)", goal_cases)
  case 1
  show ?case by simp
next
  case 2
  then show ?case using iter_bucket_decreases iter_start_measure by fastforce
next
  case 3
  then show ?case by (simp add: iter_measure_def)
qed

declare dictNext.simps [simp del]

section \<open>Random entries\<close>

record rand_source =
  ulongs :: "64 word list"
  randoms :: "nat list"

text \<open>The first draw that hits a bucket with entries, while rehashing: buckets \<open>rehashidx\<close> and on.\<close>

fun pick_rehashing :: "'v dict \<Rightarrow> 64 word list \<Rightarrow> ((nat \<times> nat \<times> 'v chain) \<times> 64 word list) option" where
  "pick_rehashing d [] = None"
| "pick_rehashing d (u # us) =
     (let s0 = DICTHT_SIZE (ht_size_exp d 0);
          h = nat (rehashidx d) + unat u mod (dictSlots d - nat (rehashidx d));
          t = (if h \<ge> s0 then 1 else 0); i = (if h \<ge> s0 then h - s0 else h) in do {
        he \<leftarrow> bucket d t i;
        if he = [] then pick_rehashing d us else Some ((t, i, he), us) })"

fun pick_single :: "'v dict \<Rightarrow> 64 word list \<Rightarrow> ((nat \<times> nat \<times> 'v chain) \<times> 64 word list) option" where
  "pick_single d [] = None"
| "pick_single d (u # us) =
     (let m = DICTHT_SIZE_MASK (ht_size_exp d 0); h = unat (u AND word_of_nat m) in do {
        he \<leftarrow> bucket d 0 h;
        if he = [] then pick_single d us else Some ((0, h, he), us) })"

fun chain_count :: "'v chain \<Rightarrow> nat" where
  "chain_count [] = 0"
| "chain_count (he # next) = Suc (chain_count (dictGetNext he next))"

definition dictGetRandomKey ::
  "dictResizeEnable \<Rightarrow> 'v dictType \<Rightarrow> 'v dict \<Rightarrow> rand_source \<Rightarrow> (eref option \<times> 'v dict \<times> rand_source) option" where
  "dictGetRandomKey can T d rand =
     (if dictSize d = 0 then Some (None, d, rand)
      else do {
        d \<leftarrow> (if dictIsRehashing d then dictRehashStep can T d else Some d);
        ((t, i, he), us) \<leftarrow> (if dictIsRehashing d then pick_rehashing d (ulongs rand) else pick_single d (ulongs rand));
        let listlen = chain_count he;
        case randoms rand of
          [] \<Rightarrow> None
        | r # rs \<Rightarrow>
            let listele = r mod listlen in
            Some (Some (t, i, listele), d, \<lparr>ulongs = us, randoms = rs\<rparr>) })"

section \<open>Sampling several entries\<close>

fun rehash_some :: "dictResizeEnable \<Rightarrow> 'v dictType \<Rightarrow> nat \<Rightarrow> 'v dict \<Rightarrow> 'v dict option" where
  "rehash_some can T 0 d = Some d"
| "rehash_some can T (Suc j) d =
     (if dictIsRehashing d then do { d \<leftarrow> dictRehashStep can T d; rehash_some can T j d } else Some d)"

text \<open>The variables of the loop: the bucket, the empty buckets in a row, the array, the entries seen and the
  numbers to come.\<close>

record sampling =
  sm_i :: nat
  sm_emptylen :: nat
  sm_des :: "eref list"
  sm_stored :: nat
  sm_us :: "64 word list"

text \<open>One chain, from place \<open>p\<close> on: reservoir sampling once the array is full.\<close>

fun sample_chain :: "nat \<Rightarrow> nat \<Rightarrow> nat \<Rightarrow> nat \<Rightarrow> 'v chain \<Rightarrow> sampling \<Rightarrow> sampling option" where
  "sample_chain cnt t i p [] s = Some s"
| "sample_chain cnt t i p (he # next) s =
     (if sm_stored s < cnt then
        sample_chain cnt t i (p + 1) (dictGetNext he next)
          (s\<lparr>sm_des := sm_des s @ [(t, i, p)], sm_stored := sm_stored s + 1\<rparr>)
      else case sm_us s of
          [] \<Rightarrow> None
        | u # us \<Rightarrow>
            let r = unat u mod (sm_stored s + 1) in
            sample_chain cnt t i (p + 1) (dictGetNext he next)
              (s\<lparr>sm_des := (if r < cnt then (sm_des s)[r := (t, i, p)] else sm_des s), sm_stored := sm_stored s + 1, sm_us := us\<rparr>))"

text \<open>The bucket of table \<open>j\<close>; the boolean is the \<open>goto end\<close>.\<close>

definition sample_bucket :: "'v dict \<Rightarrow> nat \<Rightarrow> nat \<Rightarrow> nat \<Rightarrow> sampling \<Rightarrow> (bool \<times> sampling) option" where
  "sample_bucket d cnt maxsizemask j s =
     (if sm_i s \<ge> DICTHT_SIZE (ht_size_exp d j) then Some (False, s)
      else do {
        he \<leftarrow> bucket d j (sm_i s);
        if he = [] then
          let emptylen = sm_emptylen s + 1 in
          if emptylen \<ge> 5 \<and> emptylen > cnt then
            case sm_us s of
              [] \<Rightarrow> None
            | u # us \<Rightarrow> Some (False, s\<lparr>sm_i := unat (u AND word_of_nat maxsizemask), sm_emptylen := 0, sm_us := us\<rparr>)
          else Some (False, s\<lparr>sm_emptylen := emptylen\<rparr>)
        else do {
          s \<leftarrow> sample_chain cnt j (sm_i s) 0 he (s\<lparr>sm_emptylen := 0\<rparr>);
          Some (sm_stored s \<ge> cnt, s) } })"

text \<open>The loop over the tables.\<close>

fun sample_tables :: "'v dict \<Rightarrow> nat \<Rightarrow> nat \<Rightarrow> nat \<Rightarrow> nat list \<Rightarrow> sampling \<Rightarrow> (bool \<times> sampling) option" where
  "sample_tables d cnt maxsizemask tables [] s = Some (False, s)"
| "sample_tables d cnt maxsizemask tables (j # js) s =
     (let skip = (tables = 2 \<and> j = 0 \<and> sm_i s < nat (rehashidx d));
          jump = (skip \<and> sm_i s \<ge> DICTHT_SIZE (ht_size_exp d 1)) in
      if skip \<and> \<not> jump then sample_tables d cnt maxsizemask tables js s
      else do {
        (out, s) \<leftarrow> sample_bucket d cnt maxsizemask j (if jump then s\<lparr>sm_i := nat (rehashidx d)\<rparr> else s);
        if out then Some (True, s) else sample_tables d cnt maxsizemask tables js s })"

fun sample_loop :: "'v dict \<Rightarrow> nat \<Rightarrow> nat \<Rightarrow> nat \<Rightarrow> nat \<Rightarrow> sampling \<Rightarrow> sampling option" where
  "sample_loop d cnt maxsizemask tables 0 s = Some s"
| "sample_loop d cnt maxsizemask tables (Suc maxsteps) s =
     (if sm_stored s < cnt then do {
        (out, s) \<leftarrow> sample_tables d cnt maxsizemask tables [0..<tables] s;
        if out then Some s
        else sample_loop d cnt maxsizemask tables maxsteps
          (s\<lparr>sm_i := unat ((word_of_nat (sm_i s) + 1) AND word_of_nat maxsizemask :: 64 word)\<rparr>) }
      else Some s)"

text \<open>The result, the array, the dictionary and the numbers left.  \<open>count*10\<close> is computed in 32 bits.\<close>

definition dictGetSomeKeys ::
  "dictResizeEnable \<Rightarrow> 'v dictType \<Rightarrow> 'v dict \<Rightarrow> nat \<Rightarrow> 64 word list \<Rightarrow> (nat \<times> eref list \<times> 'v dict \<times> 64 word list) option" where
  "dictGetSomeKeys can T d cnt us =
     (let cnt = (if dictSize d < cnt then dictSize d else cnt);
          maxsteps = (cnt * 10) mod 2 ^ 32 in do {
        d \<leftarrow> rehash_some can T cnt d;
        let tables = (if dictIsRehashing d then 2 else 1);
        let mask0 = DICTHT_SIZE_MASK (ht_size_exp d 0);
        let mask1 = DICTHT_SIZE_MASK (ht_size_exp d 1);
        let maxsizemask = (if tables > 1 \<and> mask0 < mask1 then mask1 else mask0);
        case us of
          [] \<Rightarrow> None
        | u # us \<Rightarrow> do {
            s \<leftarrow> sample_loop d cnt maxsizemask tables maxsteps
              \<lparr>sm_i = unat (u AND word_of_nat maxsizemask), sm_emptylen = 0, sm_des = [], sm_stored = 0, sm_us = us\<rparr>;
            Some (if sm_stored s > cnt then cnt else sm_stored s, sm_des s, d, sm_us s) } })"

definition GETFAIR_NUM_ENTRIES :: nat where "GETFAIR_NUM_ENTRIES = 15"

text \<open>\<open>rand\<close> draws from the second list.\<close>

definition dictGetFairRandomKey ::
  "dictResizeEnable \<Rightarrow> 'v dictType \<Rightarrow> 'v dict \<Rightarrow> rand_source \<Rightarrow> (eref option \<times> 'v dict \<times> rand_source) option" where
  "dictGetFairRandomKey can T d rand = do {
     (cnt, des, d, us) \<leftarrow> dictGetSomeKeys can T d GETFAIR_NUM_ENTRIES (ulongs rand);
     if cnt = 0 then dictGetRandomKey can T d (rand\<lparr>ulongs := us\<rparr>)
     else case randoms rand of
         [] \<Rightarrow> None
       | r # rs \<Rightarrow>
           let idx = r mod cnt in
           Some (if idx < length des then Some (des ! idx) else None, d, \<lparr>ulongs = us, randoms = rs\<rparr>) }"

end
