(* ===== verification/Dict_Iter_Props.thy ===== *)
theory Dict_Iter_Props
  imports Dict_Iter Dict_Props
begin

text \<open>
  What the iterators of \<open>Dict_Iter\<close> return, with a client that deletes the entry it was just given; the
  fingerprint detects any change of one of its integers; the random pickers return entries, and every entry
  can be returned.
\<close>

section \<open>The entries an iterator has yet to return\<close>

definition buckets :: "'v dict \<Rightarrow> nat \<Rightarrow> 'v chain list" where
  "buckets d t = (case ht_table d t of None \<Rightarrow> [] | Some b \<Rightarrow> b)"

definition rest :: "'v dict \<Rightarrow> dictIterator \<Rightarrow> 'v chain" where
  "rest d it =
     (if it_entry it = 0 then []
      else let c = buckets d (it_table it) ! nat (it_index it) in drop (length c - it_nextEntry it) c)
     @ concat (drop (nat (it_index it + 1)) (buckets d (it_table it)))
     @ (if it_table it = 0 \<and> dictIsRehashing d then entries d 1 else [])"

definition it_ok :: "'v dict \<Rightarrow> dictIterator \<Rightarrow> bool" where
  "it_ok d it \<longleftrightarrow> it_table it \<in> {0, 1} \<and> -1 \<le> it_index it \<and> (it_table it = 1 \<longrightarrow> dictIsRehashing d \<and> 0 \<le> it_index it)
     \<and> (it_entry it \<noteq> 0 \<longrightarrow> 0 \<le> it_index it \<and> nat (it_index it) < length (buckets d (it_table it))
          \<and> it_nextEntry it \<le> length (buckets d (it_table it) ! nat (it_index it)))"

lemma entries_buckets: "entries d t = concat (buckets d t)"
  by (simp add: entries_def buckets_def split: option.splits)

lemma bucket_buckets: "i < length (buckets d t) \<Longrightarrow> bucket d t i = Some (buckets d t ! i)"
  by (auto simp: bucket_def buckets_def split: option.splits)

lemma size_buckets: "table_ok T d t \<Longrightarrow> DICTHT_SIZE (ht_size_exp d t) = length (buckets d t)"
  using size_length [of T d t] by (auto simp: table_ok_def buckets_def DICTHT_SIZE_def split: option.splits)

lemma dict_tables: "dict_inv T d \<Longrightarrow> t \<in> {0, 1} \<Longrightarrow> table_ok T d t"
  using dict_invD(1,2) [of T d] by auto

lemma second_nonempty:
  assumes "dict_inv T d" "dictIsRehashing d" shows "buckets d 1 \<noteq> []"
proof -
  obtain b where b: "ht_table d 1 = Some b" using dict_invD(4) [OF assms] by blast
  show ?thesis using table_okE [OF dict_invD(2) [OF assms(1)] b] b by (force simp: buckets_def)
qed

lemma linked_bucket:
  assumes "dict_inv T d" "t \<in> {0, 1}" "i < length (buckets d t)"
  shows "linked (buckets d t ! i)"
  using dict_tables [OF assms(1,2)] assms(3)
  by (auto simp: table_ok_def tab_ok_def chain_ok_def buckets_def split: option.splits)

lemma linked_drop: "linked c \<Longrightarrow> linked (drop p c)"
  by (induction c arbitrary: p) (auto simp: drop_Cons split: nat.splits)

text \<open>Moving on to the next bucket.\<close>

lemma iter_bucket_end:
  assumes "dict_inv T d" "it_ok d it" "it_entry it = 0" "iter_bucket d it = None"
  shows "rest d it = []"
  using assms size_buckets [OF dict_tables [OF assms(1)], of "it_table it"]
  by (auto simp: iter_bucket_def rest_def it_ok_def Let_def split: if_splits)

lemma iter_bucket_next:
  assumes inv: "dict_inv T d" and ok: "it_ok d it" and e: "it_entry it = 0" and b: "iter_bucket d it = Some it'"
  shows "it_table it' \<in> {0, 1}" "0 \<le> it_index it'" "it_table it' = 1 \<Longrightarrow> dictIsRehashing d"
    "nat (it_index it') < length (buckets d (it_table it'))" "it_entry it' = 0" "it_safe it' = it_safe it"
    "it_fingerprint it' = it_fingerprint it"
    "rest d it = buckets d (it_table it') ! nat (it_index it') @ rest d it'"
proof -
  have sz: "DICTHT_SIZE (ht_size_exp d (it_table it)) = length (buckets d (it_table it))"
    using size_buckets [OF dict_tables [OF inv]] ok by (auto simp: it_ok_def)
  have *: "it_table it' \<in> {0, 1} \<and> 0 \<le> it_index it' \<and> (it_table it' = 1 \<longrightarrow> dictIsRehashing d)
     \<and> nat (it_index it') < length (buckets d (it_table it')) \<and> it_entry it' = 0 \<and> it_safe it' = it_safe it
     \<and> it_fingerprint it' = it_fingerprint it \<and> rest d it = buckets d (it_table it') ! nat (it_index it') @ rest d it'"
  proof (cases "it_index it + 1 \<ge> int (length (buckets d (it_table it)))")
    case True
    then have r: "dictIsRehashing d" "it_table it = 0" "it' = it\<lparr>it_table := 1, it_index := 0\<rparr>"
      using b sz by (auto simp: iter_bucket_def Let_def split: if_splits)
    obtain c cs where "buckets d 1 = c # cs" using second_nonempty [OF inv r(1)] by (cases "buckets d 1") auto
    then show ?thesis using True r e by (simp add: rest_def entries_buckets)
  next
    case False
    then have r: "it' = it\<lparr>it_index := it_index it + 1\<rparr>"
      using b sz by (auto simp: iter_bucket_def Let_def split: if_splits)
    have i: "0 \<le> it_index it + 1" "nat (it_index it + 1) < length (buckets d (it_table it))"
      using False ok by (auto simp: it_ok_def)
    have "drop (nat (it_index it + 1)) (buckets d (it_table it))
        = buckets d (it_table it) ! nat (it_index it + 1) # drop (nat (it_index it + 1 + 1)) (buckets d (it_table it))"
      using i by (simp add: Cons_nth_drop_Suc [symmetric] nat_add_distrib [of "it_index it + 1" 1, simplified])
    then show ?thesis using r e i ok by (auto simp: rest_def it_ok_def)
  qed
  show "it_table it' \<in> {0, 1}" "0 \<le> it_index it'" "it_table it' = 1 \<Longrightarrow> dictIsRehashing d"
    "nat (it_index it') < length (buckets d (it_table it'))" "it_entry it' = 0" "it_safe it' = it_safe it"
    "it_fingerprint it' = it_fingerprint it"
    "rest d it = buckets d (it_table it') ! nat (it_index it') @ rest d it'"
    using * by blast+
qed

text \<open>\<open>yields\<close>: the result of a call of \<open>dictNext\<close> that started with the dictionary and iterator \<open>d\<close> and \<open>it\<close>,
  and had \<open>xs\<close> to return.\<close>

definition yields :: "'v dict \<Rightarrow> dictIterator \<Rightarrow> 'v chain \<Rightarrow> (eref option \<times> 'v dict \<times> dictIterator) option \<Rightarrow> bool" where
  "yields d it xs r \<longleftrightarrow>
     (case xs of
        [] \<Rightarrow> (\<exists>it'. r = Some (None, d, it') \<and> \<not> (it_index it' = -1 \<and> it_table it' = 0) \<and> it_safe it' = it_safe it
            \<and> it_fingerprint it' = it_fingerprint it)
      | x # ys \<Rightarrow> (\<exists>it' t i p c. r = Some (Some (t, i, p), d, it') \<and> t = it_table it' \<and> i = nat (it_index it')
            \<and> t \<in> {0, 1} \<and> i < length (buckets d t) \<and> c = buckets d t ! i \<and> p + it_nextEntry it' + 1 = length c \<and> c ! p = x
            \<and> it_ok d it' \<and> it_entry it' \<noteq> 0 \<and> rest d it' = ys \<and> it_safe it' = it_safe it \<and> it_fingerprint it' = it_fingerprint it))"

lemma yields_cong: "it_safe it = it_safe it2 \<Longrightarrow> it_fingerprint it = it_fingerprint it2 \<Longrightarrow> yields d it xs r = yields d it2 xs r"
  unfolding yields_def by (cases xs) simp_all

lemma iter_start_ok:
  "dict_inv T (fst (iter_start at d it)) = dict_inv T d"
  "it_ok (fst (iter_start at d it)) (snd (iter_start at d it)) = it_ok d it"
  "rest (fst (iter_start at d it)) (snd (iter_start at d it)) = rest d it"
  by (simp_all add: iter_start_def it_ok_def rest_def buckets_def entries_def dictPauseRehashing_def dictIsRehashing_def)

lemma iter_start_later: "0 \<le> it_index it \<Longrightarrow> iter_start at d it = (d, it)"
  by (simp add: iter_start_def)

lemma rest_entry: "rest d (it\<lparr>it_entry := 0\<rparr>) = concat (drop (nat (it_index it + 1)) (buckets d (it_table it)))
     @ (if it_table it = 0 \<and> dictIsRehashing d then entries d 1 else [])"
  by (simp add: rest_def)

lemma dictNext_ok:
  "dict_inv T d \<Longrightarrow> it_ok d it \<Longrightarrow>
     yields (fst (iter_start at d it)) (snd (iter_start at d it)) (rest d it) (dictNext at d it)"
proof (induction at d it rule: dictNext.induct)
  case (1 at d it)
  obtain d0 it0 where st: "iter_start at d it = (d0, it0)" by fastforce
  have inv: "dict_inv T d0" and ok: "it_ok d0 it0" and r0: "rest d0 it0 = rest d it"
    using iter_start_ok(1) [of T at d it] iter_start_ok(2,3) [of at d it] 1(3,4) st by auto
  have e0: "it_entry it0 = it_entry it" using iter_start_sels(9) [of at d it] st by simp
  show ?case
  proof (cases "it_entry it = 0")
    case True
    note e = this
    show ?thesis
    proof (cases "iter_bucket d0 it0")
      case None
      then have "dictNext at d it = Some (None, d0, it0\<lparr>it_index := it_index it0 + 1\<rparr>)"
        using st e by (simp add: dictNext.simps [of at d it])
      moreover have "rest d it = []" using iter_bucket_end [OF inv ok _ None] e e0 r0 by simp
      ultimately show ?thesis using st ok by (simp add: yields_def it_ok_def)
    next
      case (Some it2)
      have "it_entry it0 = 0" using e e0 by simp
      note b = iter_bucket_next [OF inv ok this Some]
      let ?c = "buckets d0 (it_table it2) ! nat (it_index it2)"
      note bk = bucket_buckets [OF b(4)]
      show ?thesis
      proof (cases ?c)
        case Nil
        have "it2\<lparr>it_entry := 0\<rparr> = it2" using b(5) by simp
        then have next_eq: "dictNext at d it = dictNext at d0 it2"
          using st e Some bk Nil by (simp add: dictNext.simps [of at d it])
        have "it_ok d0 it2" using b(1-3,5) by (simp add: it_ok_def)
        then have "yields d0 it2 (rest d0 it2) (dictNext at d0 it2)"
          using 1(1) [OF e st [symmetric] Some bk Nil] inv iter_start_later [OF b(2), of at d0] \<open>it2\<lparr>it_entry := 0\<rparr> = it2\<close> by simp
        moreover have "rest d it = rest d0 it2" using b(8) r0 Nil by simp
        ultimately show ?thesis using next_eq st yields_cong [OF b(6,7), of d0] by simp
      next
        case (Cons he nexts)
        let ?it = "it2\<lparr>it_entry := length ?c, it_nextEntry := length (dictGetNext he nexts)\<rparr>"
        have li: "dictGetNext he nexts = nexts"
          using linked_bucket [OF inv b(1,4)] Cons by (intro dictGetNext_linked) simp
        have call: "dictNext at d it = Some (Some (it_table it2, nat (it_index it2), 0), d0, ?it)"
          using st e Some bk Cons by (simp add: dictNext.simps [of at d it])
        have "rest d0 ?it = nexts @ rest d0 it2"
          using b(5) Cons li by (simp add: rest_def)
        moreover have "rest d it = he # nexts @ rest d0 it2" using b(8) r0 Cons by simp
        moreover have "it_ok d0 ?it" using b(1-4) Cons li by (simp add: it_ok_def)
        ultimately show ?thesis
          unfolding call using b(1,4,6,7) Cons li st by (simp add: yields_def)
      qed
    qed
  next
    case False
    let ?c = "buckets d (it_table it) ! nat (it_index it)"
    have i: "0 \<le> it_index it" "nat (it_index it) < length (buckets d (it_table it))" "it_nextEntry it \<le> length ?c" "it_table it \<in> {0, 1}"
      using 1(4) False by (auto simp: it_ok_def)
    note later = iter_start_later [OF i(1), of at d]
    note bk = bucket_buckets [OF i(2)]
    show ?thesis
    proof (cases "it_nextEntry it = 0")
      case True
      then have next_eq: "dictNext at d it = dictNext at d (it\<lparr>it_entry := 0\<rparr>)"
        using False by (simp add: dictNext.simps [of at d it])
      have "it_ok d (it\<lparr>it_entry := 0\<rparr>)" using 1(4) by (simp add: it_ok_def)
      then have "yields d (it\<lparr>it_entry := 0\<rparr>) (rest d (it\<lparr>it_entry := 0\<rparr>)) (dictNext at d (it\<lparr>it_entry := 0\<rparr>))"
        using 1(2) [OF False True 1(3)] iter_start_later [of "it\<lparr>it_entry := 0\<rparr>" at d] i(1) by simp
      moreover have "rest d (it\<lparr>it_entry := 0\<rparr>) = rest d it" using True False by (simp add: rest_def)
      ultimately show ?thesis using next_eq later yields_cong [of it "it\<lparr>it_entry := 0\<rparr>" d] by simp
    next
      case pos: False
      define p where "p = length ?c - it_nextEntry it"
      have p: "p < length ?c" "p + it_nextEntry it = length ?c" using pos i(3) by (simp_all add: p_def)
      then have dr: "drop p ?c = ?c ! p # drop (Suc p) ?c" by (simp add: Cons_nth_drop_Suc)
      have li: "dictGetNext (?c ! p) (drop (Suc p) ?c) = drop (Suc p) ?c"
        using linked_drop [OF linked_bucket [OF 1(3) i(4,2)], of p] dr by (intro dictGetNext_linked) simp
      let ?it = "it\<lparr>it_entry := it_nextEntry it, it_nextEntry := length ?c - Suc p\<rparr>"
      have call: "dictNext at d it = Some (Some (it_table it, nat (it_index it), p), d, ?it)"
        using False pos bk dr li by (simp add: dictNext.simps [of at d it] Let_def flip: p_def)
      have "rest d it = ?c ! p # rest d ?it"
        using False pos dr p(1) by (simp add: rest_def Let_def flip: p_def)
      moreover have "it_ok d ?it" using 1(4) False pos p(1) by (auto simp: it_ok_def)
      ultimately show ?thesis
        unfolding call using later i p pos by (auto simp: yields_def)
    qed
  qed
qed

section \<open>Deleting an entry in place\<close>

lemma filter_two:
  assumes "p < length xs" "q < length xs" "p \<noteq> q" "P (xs ! p)" "P (xs ! q)"
  shows "2 \<le> length (filter P xs)"
proof -
  have "card {p, q} \<le> card {i. i < length xs \<and> P (xs ! i)}"
    by (rule card_mono) (use assms in auto)
  then show ?thesis using assms(3) by (simp add: length_filter_conv_card)
qed

lemma filter_concat_ge: "i < length b \<Longrightarrow> length (filter P (b ! i)) \<le> length (filter P (concat b))"
  by (induction b arbitrary: i) (auto simp: nth_Cons' intro: trans_le_add2)

lemma size_same_key:
  "size (filter_mset (\<lambda>p. same_key T k (fst p)) (content d))
     = length (filter (\<lambda>x. same_key T k (dictGetKey x)) (entries d 0)) + length (filter (\<lambda>x. same_key T k (dictGetKey x)) (entries d 1))"
proof -
  have "size (filter_mset (\<lambda>p. same_key T k (fst p)) (mset (map kv xs))) = length (filter (\<lambda>x. same_key T k (dictGetKey x)) xs)" for xs :: "'a chain"
    by (induction xs) auto
  then show ?thesis by (simp add: content_eq)
qed

lemma ref_of_filter:
  assumes "ref_of T d k (t, i, p)"
  shows "1 \<le> length (filter (\<lambda>x. same_key T k (dictGetKey x)) (entries d t))"
proof -
  obtain b where b: "ht_table d t = Some b" "i < length b" "p < length (b ! i)" "same_key T k (dictGetKey (b ! i ! p))"
    using assms by (auto simp: ref_of_def)
  then have "filter (\<lambda>x. same_key T k (dictGetKey x)) (b ! i) \<noteq> []"
    by (auto simp: filter_empty_conv)
  then show ?thesis
    using filter_concat_ge [OF b(2), of "\<lambda>x. same_key T k (dictGetKey x)"] b(1) by (cases "filter (\<lambda>x. same_key T k (dictGetKey x)) (b ! i)") (auto simp: entries_def)
qed

lemma ref_unique:
  assumes inv: "dict_inv T d" and r: "ref_of T d k (t, i, p)" and r': "ref_of T d k (t', i', p')"
  shows "(t', i', p') = (t, i, p)"
proof -
  let ?n = "\<lambda>t. length (filter (\<lambda>x. same_key T k (dictGetKey x)) (entries d t))"
  have le: "?n 0 + ?n 1 \<le> 1"
    using dict_invD(3) [OF inv] unfolding uniq_def size_same_key by blast
  have t: "t' = t"
    using ref_of_filter [OF r] ref_of_filter [OF r'] le r r' by (auto simp: ref_of_def)
  obtain b e where b: "t \<in> {0, 1}" "ht_table d t = Some b" "ht_size_exp d t = int e" "i = hash_mod T e k" "i < length b"
    "p < length (b ! i)" "same_key T k (dictGetKey (b ! i ! p))"
    using r by (auto simp: ref_of_def)
  have i: "i' = i" "p' < length (b ! i)" "same_key T k (dictGetKey (b ! i ! p'))" using r' b(2-4) t by (auto simp: ref_of_def)
  have "p' = p"
  proof (rule ccontr)
    assume "p' \<noteq> p"
    then have "2 \<le> length (filter (\<lambda>x. same_key T k (dictGetKey x)) (b ! i))"
      by (intro filter_two [of p' _ p]) (use b i in auto)
    also have "\<dots> \<le> ?n t" using filter_concat_ge [OF b(5)] b(2) by (simp add: entries_def)
    also have "\<dots> \<le> 1" using le b(1) by auto
    finally show False by simp
  qed
  then show ?thesis using t i by simp
qed

lemma bucket_ref:
  assumes inv: "dict_inv T d" and t: "t \<in> {0, 1}" "i < length (buckets d t)" "p < length (buckets d t ! i)"
  shows "ref_of T d (dictGetKey (buckets d t ! i ! p)) (t, i, p)"
proof -
  obtain b where b: "ht_table d t = Some b" "buckets d t = b" using t(2) by (cases "ht_table d t") (auto simp: buckets_def)
  obtain e where e: "ht_size_exp d t = int e" "tab_ok T b e (ht_used d t)"
    using table_okE [OF dict_tables [OF inv t(1)] b(1)] .
  have "hash_mod T e (dictGetKey (b ! i ! p)) = i" using e(2) t b by (auto simp: tab_ok_def)
  then show ?thesis using b e t by (simp add: ref_of_def)
qed

lemma delete_entry:
  assumes T: "type_ok T" and inv: "dict_inv T d" and paused: "dictIsRehashing d \<Longrightarrow> pauserehash d \<noteq> 0"
    and t: "t \<in> {0, 1}" "i < length (buckets d t)" and p: "p < length (buckets d t ! i)" and x: "x = buckets d t ! i ! p"
  shows "\<exists>d'. dictDelete can T d (dictGetKey x) = Some (True, d') \<and> dict_inv T d' \<and> content d = add_mset (kv x) (content d')
     \<and> pauserehash d' = pauserehash d \<and> rehashidx d' = rehashidx d
     \<and> (\<forall>t'. buckets d' t' = (if t' = t then (buckets d t)[i := take p (buckets d t ! i) @ drop (Suc p) (buckets d t ! i)] else buckets d t'))"
proof -
  let ?k = "dictGetKey x" and ?c = "buckets d t ! i"
  have r: "ref_of T d ?k (t, i, p)" using bucket_ref [OF inv t p] x by simp
  have bk: "bucket d t i = Some ?c" using t(2) by (rule bucket_buckets)
  obtain x' where x': "deref d (t, i, p) = Some x'" "entry_ok T x'" "kv x' \<in># content d"
    using ref_of_content [OF inv r] by blast
  then have xx: "x' = x" using bk p x by simp
  have sz: "dictSize d \<noteq> 0" using size_content [OF inv] x'(3) by (metis empty_iff set_mset_empty size_eq_0_iff_empty)
  have st: "(if dictIsRehashing d then dictRehashStep can T d else Some d) = Some d"
    using paused by (simp add: dictRehashStep_def)
  obtain r' where r': "find_ref T ?k d = Some r'" "case r' of None \<Rightarrow> dict_get T d ?k = None | Some e \<Rightarrow> ref_of T d ?k e"
    using find_ref_ok [OF T inv nonempty_table [OF inv sz], of ?k] by blast
  have f: "find_ref T ?k d = Some (Some (t, i, p))"
  proof (cases r')
    case None
    then show ?thesis using r' get_of_ref [OF inv r x'(1)] by simp
  next
    case (Some e)
    obtain t' i' p' where e: "e = (t', i', p')" by (cases e) auto
    then show ?thesis using ref_unique [OF inv r, of t' i' p'] r' Some by simp
  qed
  obtain c' where u: "chain_unlink p ?c = Some (x, c')" "0 < ht_used d t"
    "dict_inv T ((set_bucket t i c' d)\<lparr>ht_used := (ht_used d)(t := ht_used d t - 1)\<rparr>)"
    "content d = add_mset (kv x) (content ((set_bucket t i c' d)\<lparr>ht_used := (ht_used d)(t := ht_used d t - 1)\<rparr>))"
    using unlink_ok [OF inv r] bk x'(1) xx unfolding Let_def by auto
  obtain b where b: "ht_table d t = Some b" "buckets d t = b" using t(2) by (cases "ht_table d t") (auto simp: buckets_def)
  have "chain_ok T ?c" using dict_tables [OF inv t(1)] b t(2) by (auto simp: table_ok_def tab_ok_def)
  then have c': "c' = take p ?c @ drop (Suc p) ?c" using chain_unlink_ok [OF _ p] u(1) by auto
  let ?d = "((set_bucket t i c' d)\<lparr>ht_used := (ht_used d)(t := ht_used d t - 1)\<rparr>)\<lparr>destroyed := destroyed d @ destroys T x\<rparr>"
  have "dictDelete can T d ?k = Some (True, ?d)"
    using sz st f bk u(1,2) dictFreeUnlinkedEntry_ok [OF T x'(2)] xx
    by (simp add: dictDelete_def dictGenericDelete_def Let_def dec_used_def)
  moreover have "buckets ?d t' = (if t' = t then (buckets d t)[i := c'] else buckets d t')" for t'
    by (simp add: buckets_def b(1))
  ultimately show ?thesis using u(3,4) c' by (intro exI [of _ ?d]) simp
qed

text \<open>The entries still to come are not affected by the deletion of the one just returned.\<close>

lemma rest_deleted:
  assumes it: "it_table it = t" "nat (it_index it) = i" "0 \<le> it_index it" and e: "it_entry it \<noteq> 0" and i: "i < length (buckets d t)"
    and p: "p + it_nextEntry it + 1 = length (buckets d t ! i)"
    and d': "\<forall>t'. buckets d' t' = (if t' = t then (buckets d t)[i := take p (buckets d t ! i) @ drop (Suc p) (buckets d t ! i)] else buckets d t')"
    and re: "rehashidx d' = rehashidx d"
  shows "rest d' it = rest d it"
proof -
  let ?c = "buckets d t ! i"
  have "drop (length (take p ?c @ drop (Suc p) ?c) - it_nextEntry it) (take p ?c @ drop (Suc p) ?c) = drop (Suc p) ?c"
    using p by simp
  moreover have "drop (length ?c - it_nextEntry it) ?c = drop (Suc p) ?c"
    using p by (metis Suc_eq_plus1 add.commute add_Suc_right add_diff_cancel_right')
  moreover have "nat (it_index it + 1) = Suc i" using it by linarith
  ultimately show ?thesis
    using it e i d' re by (auto simp: rest_def entries_buckets dictIsRehashing_def Let_def)
qed

section \<open>Iterating while deleting\<close>

text \<open>A client that calls \<open>dictNext\<close> at most \<open>n\<close> times and deletes, with \<open>dictDelete\<close>, the entries it chooses
  among those returned: the entries it saw, and whether it came to the end.\<close>

fun sweep :: "dictResizeEnable \<Rightarrow> 'v dictType \<Rightarrow> (nat \<Rightarrow> 64 word) \<Rightarrow> ('v dictEntry \<Rightarrow> bool) \<Rightarrow> nat \<Rightarrow> 'v dict \<Rightarrow> dictIterator
    \<Rightarrow> ('v chain \<times> bool \<times> 'v dict \<times> dictIterator) option" where
  "sweep can T at del 0 d it = Some ([], False, d, it)"
| "sweep can T at del (Suc n) d it = do {
     (r, d, it) \<leftarrow> dictNext at d it;
     case r of
       None \<Rightarrow> Some ([], True, d, it)
     | Some ref \<Rightarrow> do {
         de \<leftarrow> deref d ref;
         d \<leftarrow> (if del de then map_option snd (dictDelete can T d (dictGetKey de)) else Some d);
         (des, finished, d, it) \<leftarrow> sweep can T at del n d it;
         Some (de # des, finished, d, it) } }"

lemma iter_start_idle: "it_entry it \<noteq> 0 \<Longrightarrow> it_ok d it \<Longrightarrow> iter_start at d it = (d, it)"
  by (simp add: iter_start_later it_ok_def)

text \<open>The induction; the first step has already paused rehashing.\<close>

lemma sweep_ok:
  assumes "type_ok T" "dict_inv T d" "it_ok d it" "\<forall>e. del e \<longrightarrow> it_safe it"
    and "iter_start at d it = (d0, it0)" "it_safe it \<longrightarrow> pauserehash d0 \<noteq> 0"
  shows "\<exists>d' it'. sweep can T at del (Suc (length (rest d it))) d it = Some (rest d it, True, d', it') \<and> dict_inv T d'
     \<and> content d = content d' + mset (map kv (filter del (rest d it))) \<and> pauserehash d' = pauserehash d0 \<and> rehashidx d' = rehashidx d0
     \<and> (filter del (rest d it) = [] \<longrightarrow> d' = d0)
     \<and> \<not> (it_index it' = -1 \<and> it_table it' = 0) \<and> it_safe it' = it_safe it \<and> it_fingerprint it' = it_fingerprint it0"
  using assms(2-6)
proof (induction "rest d it" arbitrary: d it d0 it0)
  case Nil
  have c: "content d0 = content d" "dict_inv T d0" "it_safe it0 = it_safe it"
    using Nil.prems(1,4) iter_start_ok(1) [of T at d it] iter_start_sels(1,11) [of at d it] by (simp_all add: content_def entries_def)
  obtain it' where "dictNext at d it = Some (None, d0, it')" "\<not> (it_index it' = -1 \<and> it_table it' = 0)"
    "it_safe it' = it_safe it0" "it_fingerprint it' = it_fingerprint it0"
    using dictNext_ok [OF Nil.prems(1,2), of at] Nil.hyps Nil.prems(4) by (auto simp: yields_def)
  then show ?case using c by (simp flip: Nil.hyps)
next
  case (Cons x xs)
  have c: "content d0 = content d" "dict_inv T d0" "it_safe it0 = it_safe it"
    using Cons.prems(1,4) iter_start_ok(1) [of T at d it] iter_start_sels(1,11) [of at d it] by (simp_all add: content_def entries_def)
  have "yields d0 it0 (x # xs) (dictNext at d it)"
    using dictNext_ok [OF Cons.prems(1,2), of at] Cons.hyps(2) Cons.prems(4) by simp
  then obtain it' t i p where n: "dictNext at d it = Some (Some (t, i, p), d0, it')" "t = it_table it'" "i = nat (it_index it')" "t \<in> {0, 1}"
    "i < length (buckets d0 t)" "p + it_nextEntry it' + 1 = length (buckets d0 t ! i)" "buckets d0 t ! i ! p = x"
    "it_ok d0 it'" "it_entry it' \<noteq> 0" "rest d0 it' = xs" "it_safe it' = it_safe it" "it_fingerprint it' = it_fingerprint it0"
    using c(3) by (auto simp: yields_def)
  have de: "deref d0 (t, i, p) = Some x" using bucket_buckets [OF n(5)] n(6,7) by simp
  obtain d1 where d1: "(if del x then map_option snd (dictDelete can T d0 (dictGetKey x)) else Some d0) = Some d1"
    "dict_inv T d1" "content d0 = content d1 + mset (map kv (filter del [x]))" "pauserehash d1 = pauserehash d0" "rehashidx d1 = rehashidx d0"
    "rest d1 it' = xs" "it_ok d1 it'" "\<not> del x \<Longrightarrow> d1 = d0"
  proof (cases "del x")
    case False
    then show ?thesis using that [of d0] c(2) n by simp
  next
    case True
    have "pauserehash d0 \<noteq> 0" using Cons.prems(3,5) True by blast
    then obtain d1 where del: "dictDelete can T d0 (dictGetKey x) = Some (True, d1)" "dict_inv T d1" "content d0 = add_mset (kv x) (content d1)"
      "pauserehash d1 = pauserehash d0" "rehashidx d1 = rehashidx d0"
      "\<forall>t'. buckets d1 t' = (if t' = t then (buckets d0 t)[i := take p (buckets d0 t ! i) @ drop (Suc p) (buckets d0 t ! i)] else buckets d0 t')"
      using delete_entry [OF assms(1) c(2), of t i p x can] n(4-7) by auto
    have i0: "0 \<le> it_index it'" using n(8,9) by (simp add: it_ok_def)
    have "rest d1 it' = xs"
      using rest_deleted [OF n(2) [symmetric] n(3) [symmetric] i0 n(9,5,6) del(6,5)] n(10) by simp
    moreover have "it_ok d1 it'"
      using n(2-9) del(5,6) by (auto simp: it_ok_def dictIsRehashing_def)
    ultimately show ?thesis using that [of d1] del True by simp
  qed
  have safe: "\<forall>e. del e \<longrightarrow> it_safe it'" using Cons.prems(3) n(11) by blast
  have pause: "it_safe it' \<longrightarrow> pauserehash d1 \<noteq> 0" using Cons.prems(5) n(11) d1(4) by simp
  obtain d' it'' where IH: "sweep can T at del (Suc (length xs)) d1 it' = Some (xs, True, d', it'')" "dict_inv T d'"
    "content d1 = content d' + mset (map kv (filter del xs))" "pauserehash d' = pauserehash d1" "rehashidx d' = rehashidx d1"
    "filter del xs = [] \<longrightarrow> d' = d1"
    "\<not> (it_index it'' = -1 \<and> it_table it'' = 0)" "it_safe it'' = it_safe it'" "it_fingerprint it'' = it_fingerprint it'"
    using Cons.hyps(1) [OF d1(6) [symmetric] d1(2,7) safe iter_start_idle [OF n(9) d1(7)] pause]
    unfolding d1(6) by (elim exE conjE) (rule that)
  have run: "sweep can T at del (Suc (length (x # xs))) d it = Some (x # xs, True, d', it'')"
    using n(1) de d1(1) IH(1) by (simp del: sweep.simps deref.simps add: sweep.simps(2) [of _ _ _ _ "Suc (length xs)"])
  have "content d = content d' + mset (map kv (filter del (x # xs)))"
    using c(1) d1(3) IH(3) by (cases "del x") simp_all
  moreover have "filter del (x # xs) = [] \<longrightarrow> d' = d0" using IH(6) d1(8) by (auto split: if_splits)
  ultimately show ?case
    unfolding Cons.hyps(2) [symmetric] using run IH d1(4,5) n(11,12) by auto
qed

section \<open>The fingerprint\<close>

text \<open>Every step of the hash is a bijection of the 64 bit integers.\<close>

lemma xorshift_inj:
  fixes x y :: "64 word"
  assumes "x XOR drop_bit k x = y XOR drop_bit k y" "0 < k"
  shows "x = y"
proof -
  have eq: "(bit x i \<noteq> bit x (i + k)) = (bit y i \<noteq> bit y (i + k))" for i
    using arg_cong [OF assms(1), of "\<lambda>w. bit w i"] by (simp add: bit_simps add.commute)
  have "bit x i = bit y i" for i
  proof (induction "64 - i" arbitrary: i rule: less_induct)
    case less
    show ?case
    proof (cases "i < 64")
      case True
      then have "bit x (i + k) = bit y (i + k)" using assms(2) by (intro less) simp
      then show ?thesis using eq [of i] by blast
    next
      case False
      then show ?thesis using bit_imp_le_length [of x i] bit_imp_le_length [of y i] by auto
    qed
  qed
  then show ?thesis by (rule bit_eqI)
qed

lemma odd_factor_inj:
  fixes x y c c' :: "64 word"
  assumes "x * c = y * c" "c * c' = 1"
  shows "x = y"
proof -
  have "x * (c * c') = y * (c * c')" using assms(1) by (simp add: mult.assoc [symmetric])
  then show ?thesis using assms(2) by simp
qed

lemma push_bit_mult: "push_bit n (x :: 64 word) = x * 2 ^ n"
  by (simp add: push_bit_eq_mult)

lemma hash_factors:
  fixes h :: "64 word"
  shows "NOT h + push_bit 21 h = h * 2097151 - 1" "(h + push_bit 3 h) + push_bit 8 h = h * 265"
    "(h + push_bit 2 h) + push_bit 4 h = h * 21" "h + push_bit 31 h = h * 2147483649"
  by (simp_all add: push_bit_mult not_eq_complement algebra_simps)

definition xorshift :: "nat \<Rightarrow> 64 word \<Rightarrow> 64 word" where
  "xorshift k x = x XOR drop_bit k x"

lemma xorshift_eq_iff [simp]: "0 < k \<Longrightarrow> xorshift k x = xorshift k y \<longleftrightarrow> x = y"
  using xorshift_inj [of x k y] by (auto simp: xorshift_def)

lemma odd_factor_iff [simp]:
  fixes x y :: "64 word"
  shows "x * 2097151 = y * 2097151 \<longleftrightarrow> x = y" "x * 265 = y * 265 \<longleftrightarrow> x = y" "x * 21 = y * 21 \<longleftrightarrow> x = y"
    "x * 2147483649 = y * 2147483649 \<longleftrightarrow> x = y"
  using odd_factor_inj [of x 2097151 y 9223367638806167551] odd_factor_inj [of x 265 y 15244667743933553977]
    odd_factor_inj [of x 21 y 14933078535860113213] odd_factor_inj [of x 2147483649 y 4611686016279904257]
  by auto

lemma wang_hash_stages:
  "wang_hash h = xorshift 28 (xorshift 14 (xorshift 24 (h * 2097151 - 1) * 265) * 21) * 2147483649"
  unfolding wang_hash_def Let_def hash_factors xorshift_def by (rule refl)

lemma wang_hash_inj [simp]: "wang_hash x = wang_hash y \<longleftrightarrow> x = y"
  unfolding wang_hash_stages by simp

text \<open>Two lists of integers that differ at one place have different hashes.\<close>

lemma fold_wang_inj: "fold (\<lambda>n hash. wang_hash (hash + n)) ns h = fold (\<lambda>n hash. wang_hash (hash + n)) ns h' \<longleftrightarrow> h = h'"
  by (induction ns arbitrary: h h') auto

lemma fold_wang_differ:
  "i < length ns \<Longrightarrow> n \<noteq> ns ! i \<Longrightarrow>
     fold (\<lambda>n hash. wang_hash (hash + n)) (ns[i := n]) h \<noteq> fold (\<lambda>n hash. wang_hash (hash + n)) ns h"
  by (induction ns arbitrary: h i) (auto simp: fold_wang_inj split: nat.splits)

section \<open>Properties\<close>

lemma new_iterators:
  "dict_inv T d \<Longrightarrow> rest d (dictGetSafeIterator fp) = entries d 0 @ entries d 1"
  "dict_inv T d \<Longrightarrow> rest d (dictGetIterator fp) = entries d 0 @ entries d 1"
  "it_ok d (dictGetSafeIterator fp)" "it_ok d (dictGetIterator fp)"
  using dict_invD(6) [of T d]
  by (auto simp: dictGetSafeIterator_def dictGetIterator_def dictInitIterator_def rest_def it_ok_def entries_buckets
      buckets_def Let_def)

text \<open>C11. A safe iteration of a dictionary, rehashing or not, returns every entry exactly once, in the order of the
  tables, while the client deletes any of the entries as it gets them: no dangling pointer is followed and no
  assertion fails, what is left are exactly the entries not deleted, and when the iterator is released
  rehashing is where it was and no more paused than before.\<close>

theorem safe_iteration:
  assumes "type_ok T" "dict_inv T d" "0 \<le> pauserehash d"
  shows "\<exists>d1 it d2. sweep can T at del (Suc (length (entries d 0 @ entries d 1))) d (dictGetSafeIterator fp)
       = Some (entries d 0 @ entries d 1, True, d1, it)
     \<and> dictReleaseIterator at' d1 it = Some d2 \<and> dict_inv T d2
     \<and> content d2 = mset (map kv (filter (\<lambda>x. \<not> del x) (entries d 0 @ entries d 1)))
     \<and> pauserehash d2 = pauserehash d \<and> rehashidx d2 = rehashidx d"
proof -
  let ?it = "dictGetSafeIterator fp" and ?all = "entries d 0 @ entries d 1"
  have st: "iter_start at d ?it = (dictPauseRehashing d, ?it)" and sf: "it_safe ?it"
    by (simp_all add: iter_start_def dictGetSafeIterator_def dictGetIterator_def dictInitIterator_def Let_def)
  have pause: "it_safe ?it \<longrightarrow> pauserehash (dictPauseRehashing d) \<noteq> 0" using assms(3) by (simp add: dictPauseRehashing_def)
  obtain d1 it where r: "sweep can T at del (Suc (length ?all)) d ?it = Some (?all, True, d1, it)" "dict_inv T d1"
     "content d = content d1 + mset (map kv (filter del ?all))" "pauserehash d1 = pauserehash (dictPauseRehashing d)"
     "rehashidx d1 = rehashidx (dictPauseRehashing d)" "\<not> (it_index it = -1 \<and> it_table it = 0)" "it_safe it = it_safe ?it"
    using sweep_ok [OF assms(1,2) new_iterators(3) _ st pause, of del can] sf unfolding new_iterators(1) [OF assms(2)] by blast
  have rel: "dictReleaseIterator at' d1 it = Some (dictResumeRehashing d1)"
    using r(6,7) sf by (simp add: dictReleaseIterator_def dictResetIterator_def)
  have "content d = mset (map kv ?all)" by (simp add: content_def)
  moreover have "mset (map kv xs) = mset (map kv (filter (\<lambda>x. \<not> del x) xs)) + mset (map kv (filter del xs))" for xs
    by (induction xs) auto
  ultimately have "content d1 = mset (map kv (filter (\<lambda>x. \<not> del x) ?all))" using r(3) by simp
  then show ?thesis
    using r rel by (simp add: dictResumeRehashing_def dictPauseRehashing_def)
qed

text \<open>An unsafe iteration of an unchanged dictionary returns every entry exactly once and its release succeeds;
  if meanwhile any one of the six integers of the fingerprint has changed (the address, the size or the number
  of entries of a table) the assertion of the release fails, whatever the integers are.\<close>

theorem unsafe_iteration:
  fixes d :: "'v dict"
  assumes "type_ok T" "dict_inv T d"
  shows "\<exists>it. sweep can T at (\<lambda>_. False) (Suc (length (entries d 0 @ entries d 1))) d (dictGetIterator fp)
       = Some (entries d 0 @ entries d 1, True, d, it)
     \<and> dictReleaseIterator at d it = Some d
     \<and> (\<forall>at' (d' :: 'v dict) i n. i < 6 \<and> n \<noteq> fingerprint_integers at d ! i \<and> fingerprint_integers at' d' = (fingerprint_integers at d)[i := n]
          \<longrightarrow> dictReleaseIterator at' d' it = None)"
proof -
  let ?it = "dictGetIterator fp" and ?all = "entries d 0 @ entries d 1"
  have st: "iter_start at d ?it = (d, ?it\<lparr>it_fingerprint := dictFingerprint at d\<rparr>)" and sf: "\<not> it_safe ?it"
    by (simp_all add: iter_start_def dictGetIterator_def dictInitIterator_def)
  obtain it where r: "sweep can T at (\<lambda>_. False) (Suc (length ?all)) d ?it = Some (?all, True, d, it)"
     "\<not> (it_index it = -1 \<and> it_table it = 0)" "it_safe it = it_safe ?it" "it_fingerprint it = dictFingerprint at d"
    using sweep_ok [OF assms(1,2) new_iterators(4) _ st, of "\<lambda>_. False" can] sf unfolding new_iterators(2) [OF assms(2)] by auto
  have rel: "dictReleaseIterator at' d' it = (if dictFingerprint at d = dictFingerprint at' d' then Some d' else None)" for at' and d' :: "'v dict"
    using r(2-4) sf by (simp add: dictReleaseIterator_def dictResetIterator_def)
  have "dictFingerprint at d \<noteq> dictFingerprint at' d'"
    if "i < 6" "n \<noteq> fingerprint_integers at d ! i" "fingerprint_integers at' d' = (fingerprint_integers at d)[i := n]" for at' and d' :: "'v dict" and i n
    using fold_wang_differ [of i "fingerprint_integers at d" n 0] that
    by (simp add: dictFingerprint_def fingerprint_integers_def [of at d])
  then have "\<And>at' (d' :: 'v dict) i n. i < 6 \<and> n \<noteq> fingerprint_integers at d ! i
      \<and> fingerprint_integers at' d' = (fingerprint_integers at d)[i := n] \<Longrightarrow> dictReleaseIterator at' d' it = None"
    using rel by auto
  moreover have "dictReleaseIterator at d it = Some d" using rel [of at d] by simp
  ultimately show ?thesis using r(1) by blast
qed

lemma ex_dict_length: "Suc (length (entries ex_dict 0 @ entries ex_dict 1)) = 4"
  by (simp add: ex_dict_def entries_def)

lemma ex_dict_pause: "0 \<le> pauserehash ex_dict"
  by (simp add: ex_dict_def)

lemma safe_iteration_witness:
  "\<exists>d1 it d2. sweep DICT_RESIZE_ENABLE ex_type (\<lambda>_. 0) (\<lambda>x. dictGetKey x = 5) 4 ex_dict (dictGetSafeIterator 9)
       = Some (entries ex_dict 0 @ entries ex_dict 1, True, d1, it) \<and> dictReleaseIterator (\<lambda>_. 1) d1 it = Some d2"
  using safe_iteration [OF ex_type_ok(1) ex_dict_ok(1) ex_dict_pause, of DICT_RESIZE_ENABLE "\<lambda>_. 0" "\<lambda>x. dictGetKey x = 5" 9 "\<lambda>_. 1"]
  unfolding ex_dict_length by blast

lemma unsafe_iteration_witness:
  "\<exists>it. sweep DICT_RESIZE_ENABLE ex_type (\<lambda>_. 0) (\<lambda>_. False) 4 ex_dict (dictGetIterator 9)
       = Some (entries ex_dict 0 @ entries ex_dict 1, True, ex_dict, it)
     \<and> dictReleaseIterator (\<lambda>_. 0) (inc_used 1 ex_dict) it = None"
proof -
  obtain it where it: "sweep DICT_RESIZE_ENABLE ex_type (\<lambda>_. 0) (\<lambda>_. False) 4 ex_dict (dictGetIterator 9)
       = Some (entries ex_dict 0 @ entries ex_dict 1, True, ex_dict, it)"
    "\<forall>at' (d' :: nat dict) i n. i < 6 \<and> n \<noteq> fingerprint_integers (\<lambda>_. 0) ex_dict ! i
       \<and> fingerprint_integers at' d' = (fingerprint_integers (\<lambda>_. 0) ex_dict)[i := n] \<longrightarrow> dictReleaseIterator at' d' it = None"
    using unsafe_iteration [OF ex_type_ok(1) ex_dict_ok(1), of DICT_RESIZE_ENABLE "\<lambda>_. 0" 9] unfolding ex_dict_length by blast
  have "fingerprint_integers (\<lambda>_. 0) (inc_used 1 ex_dict) = (fingerprint_integers (\<lambda>_. 0) ex_dict)[5 := word_of_nat (ht_used ex_dict 1 + 1)]"
    by (simp add: fingerprint_integers_def inc_used_def)
  moreover have "word_of_nat (ht_used ex_dict 1 + 1) \<noteq> fingerprint_integers (\<lambda>_. 0) ex_dict ! 5"
    by (simp add: fingerprint_integers_def ex_dict_def)
  ultimately have "dictReleaseIterator (\<lambda>_. 0) (inc_used 1 ex_dict) it = None" using it(2) [rule_format, of 5] by simp
  then show ?thesis using it(1) by blast
qed

end
