(* ===== verification/Dict_Sample.thy ===== *)
theory Dict_Sample
  imports Dict_Iter_Props
begin

text \<open>
  The random pickers of \<open>Dict_Iter\<close>: whatever numbers are drawn they return entries of the dictionary, every
  entry can be drawn, and the sampling of several entries needs a bounded number of draws.
\<close>

lemma chain_count_linked: "linked c \<Longrightarrow> chain_count c = length c"
  by (induction c) (auto simp: dictGetNext_def)

lemma deref_bucket: "deref d (t, i, p) = Some x \<longleftrightarrow> (\<exists>c. bucket d t i = Some c \<and> p < length c \<and> x = c ! p)"
  by (auto split: Option.bind_splits if_splits)

lemma bucket_bound: "bucket d t i = Some c \<Longrightarrow> i < length (buckets d t) \<and> c = buckets d t ! i"
  by (auto simp: bucket_Some buckets_def)

section \<open>One random bucket\<close>

text \<open>The bucket a draw points to.\<close>

definition drawn :: "'v dict \<Rightarrow> 64 word \<Rightarrow> nat \<times> nat" where
  "drawn d u =
     (if dictIsRehashing d then
        let s0 = DICTHT_SIZE (ht_size_exp d 0);
            h = nat (rehashidx d) + unat u mod (dictSlots d - nat (rehashidx d))
        in if h \<ge> s0 then (1, h - s0) else (0, h)
      else (0, unat (u AND word_of_nat (DICTHT_SIZE_MASK (ht_size_exp d 0)))))"

definition pick :: "'v dict \<Rightarrow> 64 word list \<Rightarrow> ((nat \<times> nat \<times> 'v chain) \<times> 64 word list) option" where
  "pick d us = (if dictIsRehashing d then pick_rehashing d us else pick_single d us)"

lemma pick_simps:
  "pick d [] = None"
  "pick d (u # us) = (case drawn d u of (t, i) \<Rightarrow> Option.bind (bucket d t i)
     (\<lambda>he. if he = [] then pick d us else Some ((t, i, he), us)))"
  by (cases "dictIsRehashing d"; simp add: pick_def drawn_def Let_def cong: if_cong)+

lemma drawn_ok:
  assumes inv: "dict_inv T d" and sz: "dictSize d \<noteq> 0"
  shows "case drawn d u of (t, i) \<Rightarrow> t \<in> {0, 1} \<and> bucket d t i = Some (buckets d t ! i)"
proof (cases "dictIsRehashing d")
  case True
  have s: "DICTHT_SIZE (ht_size_exp d 0) = length (buckets d 0)" "DICTHT_SIZE (ht_size_exp d 1) = length (buckets d 1)"
    using size_buckets [OF dict_tables [OF inv]] by simp_all
  have r: "nat (rehashidx d) \<le> length (buckets d 0)" using rehashidx_le [OF inv True] s by simp
  have pos: "0 < length (buckets d 1)" using second_nonempty [OF inv True] by simp
  define m where "m = unat u mod (dictSlots d - nat (rehashidx d))"
  have "m < dictSlots d - nat (rehashidx d)"
    unfolding m_def by (intro mod_less_divisor) (unfold dictSlots_def, use r s pos in linarith)
  then have m: "nat (rehashidx d) + m < length (buckets d 0) + length (buckets d 1)" using s by (simp add: dictSlots_def)
  have "drawn d u = (if nat (rehashidx d) + m \<ge> length (buckets d 0) then (1, nat (rehashidx d) + m - length (buckets d 0)) else (0, nat (rehashidx d) + m))"
    using True s by (simp add: drawn_def Let_def m_def)
  moreover have "bucket d 1 (nat (rehashidx d) + m - length (buckets d 0)) = Some (buckets d 1 ! (nat (rehashidx d) + m - length (buckets d 0)))"
    if "nat (rehashidx d) + m \<ge> length (buckets d 0)"
    by (rule bucket_buckets) (use m that in linarith)
  moreover have "bucket d 0 (nat (rehashidx d) + m) = Some (buckets d 0 ! (nat (rehashidx d) + m))"
    if "\<not> nat (rehashidx d) + m \<ge> length (buckets d 0)"
    by (rule bucket_buckets) (use that in linarith)
  ultimately show ?thesis by simp
next
  case False
  obtain b where b: "ht_table d 0 = Some b" using nonempty_table [OF inv sz] by blast
  obtain e where e: "ht_size_exp d 0 = int e" "e \<le> 60" "length b = 2 ^ e" using table_okE [OF dict_invD(1) [OF inv] b] .
  have "unat (u AND word_of_nat (DICTHT_SIZE_MASK (ht_size_exp d 0))) = unat u mod 2 ^ e"
    using mask_index [of e u] e by (simp add: DICTHT_SIZE_MASK_def DICTHT_SIZE_def)
  then show ?thesis using False b e by (simp add: drawn_def bucket_def buckets_def)
qed

lemma drawn_onto:
  assumes inv: "dict_inv T d" and b: "t \<in> {0, 1}" "bucket d t i = Some c" "c \<noteq> []"
  shows "\<exists>u. drawn d u = (t, i)"
proof (cases "dictIsRehashing d")
  case True
  have s: "DICTHT_SIZE (ht_size_exp d 0) = length (buckets d 0)" "DICTHT_SIZE (ht_size_exp d 1) = length (buckets d 1)"
    using size_buckets [OF dict_tables [OF inv]] by simp_all
  have r: "nat (rehashidx d) \<le> length (buckets d 0)" using rehashidx_le [OF inv True] s by simp
  have i: "i < length (buckets d t)" using bucket_bound [OF b(2)] by simp
  define h where "h = (if t = 0 then i else length (buckets d 0) + i)"
  have h: "nat (rehashidx d) \<le> h" "h < length (buckets d 0) + length (buckets d 1)"
    using dict_invD(5) [OF inv True, of i] b r i by (auto simp: h_def not_less [symmetric])
  obtain b0 b1 where "ht_table d 0 = Some b0" "ht_table d 1 = Some b1" using dict_invD(4) [OF inv True] by blast
  then obtain e0 e1 where "length (buckets d 0) = 2 ^ e0" "e0 \<le> 60" "length (buckets d 1) = 2 ^ e1" "e1 \<le> 60"
    using table_okE [OF dict_invD(1) [OF inv]] table_okE [OF dict_invD(2) [OF inv]] by (metis buckets_def option.simps(5))
  then have "length (buckets d 0) \<le> 2 ^ 60" "length (buckets d 1) \<le> 2 ^ 60"
    using power_increasing [of e0 60 "2::nat"] power_increasing [of e1 60 "2::nat"] by simp_all
  then have "h - nat (rehashidx d) < 2 ^ 64" using h by simp
  then have "unat (word_of_nat (h - nat (rehashidx d)) :: 64 word) = h - nat (rehashidx d)" by (simp add: unat_of_nat)
  then have "drawn d (word_of_nat (h - nat (rehashidx d))) = (t, i)"
    using True h s r b(1) i by (auto simp: drawn_def Let_def dictSlots_def h_def)
  then show ?thesis by blast
next
  case False
  then have t: "t = 0" using b dict_invD(6) [OF inv False] by (auto simp: bucket_def)
  obtain l where l: "ht_table d 0 = Some l" "i < length l" using b(2) t by (auto simp: bucket_Some)
  obtain e where e: "ht_size_exp d 0 = int e" "e \<le> 60" "length l = 2 ^ e" using table_okE [OF dict_invD(1) [OF inv] l(1)] .
  have "(2::nat) ^ e \<le> 2 ^ 60" using e(2) by (rule power_increasing) simp
  then have "unat (word_of_nat i :: 64 word) = i" using l e by (simp add: unat_of_nat)
  then have "drawn d (word_of_nat i) = (0, i)"
    using False mask_index [of e "word_of_nat i"] e l by (simp add: drawn_def DICTHT_SIZE_MASK_def DICTHT_SIZE_def)
  then show ?thesis using t by blast
qed

lemma pick_ok:
  assumes "dict_inv T d" "dictSize d \<noteq> 0" "pick d us = Some ((t, i, he), us')"
  shows "t \<in> {0, 1} \<and> bucket d t i = Some he \<and> he \<noteq> []"
  using assms(3)
proof (induction us)
  case (Cons u us)
  obtain t' i' where tu: "drawn d u = (t', i')" by fastforce
  then show ?case using Cons drawn_ok [OF assms(1,2), of u]
    by (cases "buckets d t' ! i' = []") (auto simp: pick_simps)
qed (simp add: pick_simps)

lemma random_key_ok:
  assumes T: "type_ok T" and inv: "dict_inv T d" and False: "dictSize d \<noteq> 0"
  shows "\<exists>d'. dict_inv T d' \<and> content d' = content d
       \<and> (\<forall>rand r d2 rand'. dictGetRandomKey can T d rand = Some (r, d2, rand')
            \<longrightarrow> d2 = d' \<and> (\<exists>ref x. r = Some ref \<and> deref d' ref = Some x \<and> kv x \<in># content d))
       \<and> (\<forall>t i p x. t \<in> {0, 1} \<and> deref d' (t, i, p) = Some x
            \<longrightarrow> (\<exists>u s. dictGetRandomKey can T d \<lparr>ulongs = [u], randoms = [s]\<rparr> = Some (Some (t, i, p), d', \<lparr>ulongs = [], randoms = []\<rparr>)))"
proof -
  obtain d' where d': "(if dictIsRehashing d then dictRehashStep can T d else Some d) = Some d'"
    "dict_inv T d'" "content d' = content d" "frame d d'"
    using rehash_first [OF T inv] by blast
  have sz: "dictSize d' \<noteq> 0" using False size_content [OF inv] size_content [OF d'(2)] d'(3) by simp
  have run: "dictGetRandomKey can T d rand = Option.bind (pick d' (ulongs rand)) (\<lambda>((t, i, he), us).
      case randoms rand of [] \<Rightarrow> None | r # rs \<Rightarrow> Some (Some (t, i, r mod chain_count he), d', \<lparr>ulongs = us, randoms = rs\<rparr>))" for rand
    unfolding dictGetRandomKey_def pick_def Let_def using False d'(1) by simp
  have lk: "linked c" if "bucket d' t i = Some c" "t \<in> {0, 1}" for t i c
    using linked_bucket [OF d'(2) that(2), of i] bucket_bound [OF that(1)] by simp
  have one: "d2 = d' \<and> (\<exists>ref x. r = Some ref \<and> deref d' ref = Some x \<and> kv x \<in># content d)"
    if g: "dictGetRandomKey can T d rand = Some (r, d2, rand')" for rand r d2 rand'
  proof -
    obtain t i he us where p: "pick d' (ulongs rand) = Some ((t, i, he), us)"
      using g unfolding run by (auto split: Option.bind_splits)
    then obtain s rs where s: "randoms rand = s # rs" using g unfolding run by (cases "randoms rand") auto
    note ok = pick_ok [OF d'(2) sz p]
    then have c: "chain_count he = length he" using lk chain_count_linked by blast
    have m: "s mod length he < length he" using ok by simp
    have "d2 = d'" "r = Some (t, i, s mod length he)" using g p s c unfolding run by auto
    moreover have "deref d' (t, i, s mod length he) = Some (he ! (s mod length he))" using ok m by simp
    moreover have "kv (he ! (s mod length he)) \<in># content d"
    proof -
      obtain b where "ht_table d' t = Some b" "i < length b" "he = b ! i" using ok by (auto simp: bucket_Some)
      then have "he ! (s mod length he) \<in> set (entries d' t)" using m by (auto simp: entries_def) (meson nth_mem)
      then have "kv (he ! (s mod length he)) \<in># content d'" using ok by (auto simp: content_def)
      then show ?thesis by (simp only: d'(3))
    qed
    ultimately show ?thesis by blast
  qed
  have onto: "\<exists>u s. dictGetRandomKey can T d \<lparr>ulongs = [u], randoms = [s]\<rparr> = Some (Some (t, i, p), d', \<lparr>ulongs = [], randoms = []\<rparr>)"
    if x: "t \<in> {0, 1}" "deref d' (t, i, p) = Some x" for t i p x
  proof -
    obtain c where c: "bucket d' t i = Some c" "p < length c" using x(2) unfolding deref_bucket by blast
    then obtain u where u: "drawn d' u = (t, i)" using drawn_onto [OF d'(2) x(1) c(1)] by fastforce
    then show ?thesis
      using c chain_count_linked [OF lk [OF c(1) x(1)]]
      by (intro exI [of _ u] exI [of _ p]) (auto simp: run pick_simps)
  qed
  show ?thesis using d'(2,3) one onto by blast
qed

text \<open>A random key of an empty dictionary is none.  Otherwise the dictionary may make one step of rehashing, which
  keeps its content, and then, whatever the numbers drawn are, the reference returned is to an entry of it; and
  every entry is returned for some draw of two numbers.\<close>

theorem random_key_correct:
  assumes T: "type_ok T" and inv: "dict_inv T d"
  shows "if dictSize d = 0 then dictGetRandomKey can T d rand = Some (None, d, rand)
     else \<exists>d'. dict_inv T d' \<and> content d' = content d
       \<and> (\<forall>rand r d2 rand'. dictGetRandomKey can T d rand = Some (r, d2, rand')
            \<longrightarrow> d2 = d' \<and> (\<exists>ref x. r = Some ref \<and> deref d' ref = Some x \<and> kv x \<in># content d))
       \<and> (\<forall>t i p x. t \<in> {0, 1} \<and> deref d' (t, i, p) = Some x
            \<longrightarrow> (\<exists>u s. dictGetRandomKey can T d \<lparr>ulongs = [u], randoms = [s]\<rparr> = Some (Some (t, i, p), d', \<lparr>ulongs = [], randoms = []\<rparr>)))"
proof (cases "dictSize d = 0")
  case True
  then show ?thesis by (simp add: dictGetRandomKey_def)
next
  case False
  from random_key_ok [OF T inv this] show ?thesis using False by (simp only: if_False)
qed

section \<open>Sampling several entries\<close>

text \<open>The array holds the entries seen, up to its room, and only entries.\<close>

definition sample_ok :: "'v dict \<Rightarrow> nat \<Rightarrow> sampling \<Rightarrow> bool" where
  "sample_ok d cnt s \<longleftrightarrow> length (sm_des s) = min (sm_stored s) cnt \<and> (\<forall>ref \<in> set (sm_des s). \<exists>x. deref d ref = Some x)"

lemma sample_chain_ok:
  assumes "bucket d t i = Some c" "linked (drop p c)" "sample_ok d cnt s" "length (drop p c) \<le> length (sm_us s)"
  shows "\<exists>s'. sample_chain cnt t i p (drop p c) s = Some s' \<and> sample_ok d cnt s' \<and> sm_stored s' = sm_stored s + length (drop p c)
     \<and> (sm_stored s' \<le> cnt \<longrightarrow> sm_us s' = sm_us s)"
  using assms(2-4)
proof (induction "length c - p" arbitrary: p s)
  case 0
  then show ?case by simp
next
  case (Suc n)
  then have p: "p < length c" by simp
  then have dr: "drop p c = c ! p # drop (Suc p) c" by (simp add: Cons_nth_drop_Suc)
  have li: "dictGetNext (c ! p) (drop (Suc p) c) = drop (Suc p) c" "linked (drop (Suc p) c)"
    using Suc.prems(1) dr by (auto intro: dictGetNext_linked)
  have de: "\<exists>x. deref d (t, i, p) = Some x" using assms(1) p by simp
  have n: "n = length c - Suc p" using Suc.hyps(2) by simp
  show ?case
  proof (cases "sm_stored s < cnt")
    case True
    let ?s = "s\<lparr>sm_des := sm_des s @ [(t, i, p)], sm_stored := sm_stored s + 1\<rparr>"
    have "sample_ok d cnt ?s" using Suc.prems(2) True de by (auto simp: sample_ok_def)
    from Suc.hyps(1) [OF n li(2) this] Suc.prems(3) p True show ?thesis
      unfolding dr by (fastforce simp: li(1))
  next
    case False
    obtain u us where us: "sm_us s = u # us" using Suc.prems(3) p by (cases "sm_us s") auto
    let ?r = "unat u mod (sm_stored s + 1)"
    let ?s = "s\<lparr>sm_des := (if ?r < cnt then (sm_des s)[?r := (t, i, p)] else sm_des s), sm_stored := sm_stored s + 1, sm_us := us\<rparr>"
    have "sample_ok d cnt ?s"
      using Suc.prems(2) False de by (auto simp: sample_ok_def dest!: set_update_subset_insert [THEN subsetD])
    from Suc.hyps(1) [OF n li(2) this] Suc.prems(3) p False us show ?thesis
      unfolding dr by (fastforce simp: li(1) Let_def)
  qed
qed

lemma chain_size:
  assumes inv: "dict_inv T d" and b: "t \<in> {0, 1}" "bucket d t i = Some c"
  shows "length c \<le> dictSize d"
proof -
  have i: "i < length (buckets d t)" "c = buckets d t ! i" using bucket_bound [OF b(2)] by auto
  have "length c \<le> length (entries d t)"
    using filter_concat_ge [OF i(1), of "\<lambda>_. True"] i(2) by (simp add: entries_buckets)
  then show ?thesis
    using b(1) used_length [OF dict_tables [OF inv], of t] by (auto simp: dictSize_def)
qed

lemma sample_bucket_ok:
  assumes inv: "dict_inv T d" and j: "j \<in> {0, 1}" and s: "sample_ok d cnt s" "sm_stored s < cnt" and us: "dictSize d + 1 \<le> length (sm_us s)"
  shows "\<exists>out s'. sample_bucket d cnt mk j s = Some (out, s') \<and> sample_ok d cnt s'
     \<and> (\<not> out \<longrightarrow> sm_stored s' < cnt \<and> length (sm_us s) \<le> length (sm_us s') + 1)"
proof (cases "sm_i s \<ge> DICTHT_SIZE (ht_size_exp d j)")
  case True
  then show ?thesis using s by (intro exI [of _ False] exI [of _ s]) (simp add: sample_bucket_def)
next
  case False
  then have i: "sm_i s < length (buckets d j)" using size_buckets [OF dict_tables [OF inv j]] by simp
  let ?c = "buckets d j ! sm_i s"
  note bk = bucket_buckets [OF i]
  show ?thesis
  proof (cases "?c = []")
    case True
    obtain u vs where "sm_us s = u # vs" using us by (cases "sm_us s") auto
    then show ?thesis using False True bk s by (auto simp: sample_bucket_def sample_ok_def Let_def)
  next
    case ne: False
    have "sample_ok d cnt (s\<lparr>sm_emptylen := 0\<rparr>)" using s by (simp add: sample_ok_def)
    then obtain s' where s': "sample_chain cnt j (sm_i s) 0 ?c (s\<lparr>sm_emptylen := 0\<rparr>) = Some s'" "sample_ok d cnt s'"
      "sm_stored s' \<le> cnt \<longrightarrow> sm_us s' = sm_us s"
      using sample_chain_ok [OF bk, of 0 cnt "s\<lparr>sm_emptylen := 0\<rparr>"] linked_bucket [OF inv j i] chain_size [OF inv j bk] us by auto
    then show ?thesis using False ne bk by (auto simp: sample_bucket_def)
  qed
qed

lemma sample_tables_ok:
  assumes inv: "dict_inv T d"
  shows "set js \<subseteq> {0, 1} \<Longrightarrow> sample_ok d cnt s \<Longrightarrow> sm_stored s < cnt \<Longrightarrow> dictSize d + length js \<le> length (sm_us s) \<Longrightarrow>
     \<exists>out s'. sample_tables d cnt mk tables js s = Some (out, s') \<and> sample_ok d cnt s'
       \<and> (\<not> out \<longrightarrow> sm_stored s' < cnt \<and> length (sm_us s) \<le> length (sm_us s') + length js)"
proof (induction js arbitrary: s)
  case (Cons j js)
  let ?skip = "tables = 2 \<and> j = 0 \<and> sm_i s < nat (rehashidx d)"
  let ?jump = "?skip \<and> sm_i s \<ge> DICTHT_SIZE (ht_size_exp d 1)"
  show ?case
  proof (cases "?skip \<and> \<not> ?jump")
    case True
    have eq: "sample_tables d cnt mk tables (j # js) s = sample_tables d cnt mk tables js s"
      unfolding sample_tables.simps Let_def by (rule if_P [OF True])
    show ?thesis
      unfolding eq using Cons.IH [of s] Cons.prems by fastforce
  next
    case False
    let ?s = "if ?jump then s\<lparr>sm_i := nat (rehashidx d)\<rparr> else s"
    have s: "sample_ok d cnt ?s" "sm_stored ?s < cnt" "sm_us ?s = sm_us s" "dictSize d + 1 \<le> length (sm_us ?s)" "j \<in> {0, 1}"
      using Cons.prems by (auto simp: sample_ok_def)
    have eq: "sample_tables d cnt mk tables (j # js) s =
       Option.bind (sample_bucket d cnt mk j ?s) (\<lambda>(out, s). if out then Some (True, s) else sample_tables d cnt mk tables js s)"
      using False by (simp only: sample_tables.simps Let_def if_False)
    obtain out s' where s': "sample_bucket d cnt mk j ?s = Some (out, s')" "sample_ok d cnt s'"
      "\<not> out \<longrightarrow> sm_stored s' < cnt \<and> length (sm_us s) \<le> length (sm_us s') + 1"
      using sample_bucket_ok [OF inv s(5,1,2,4)] s(3) by metis
    show ?thesis
    proof (cases out)
      case True
      then show ?thesis unfolding eq s'(1) using s'(2) by (intro exI [of _ True] exI [of _ s']) simp
    next
      case False
      then show ?thesis unfolding eq s'(1) using Cons.IH [of s'] s' Cons.prems by fastforce
    qed
  qed
qed (intro exI [of _ False], simp)

lemma sample_loop_ok:
  assumes inv: "dict_inv T d" and tables: "tables \<in> {1, 2}"
  shows "sample_ok d cnt s \<Longrightarrow> dictSize d + 2 * n \<le> length (sm_us s) \<Longrightarrow>
     \<exists>s'. sample_loop d cnt mk tables n s = Some s' \<and> sample_ok d cnt s'"
proof (induction n arbitrary: s)
  case (Suc n)
  show ?case
  proof (cases "sm_stored s < cnt")
    case True
    have js: "set [0..<tables] \<subseteq> {0, 1}" "length [0..<tables] \<le> 2" using tables by auto
    obtain out s' where s': "sample_tables d cnt mk tables [0..<tables] s = Some (out, s')" "sample_ok d cnt s'"
       "\<not> out \<longrightarrow> length (sm_us s) \<le> length (sm_us s') + 2"
      using sample_tables_ok [OF inv js(1) Suc.prems(1) True, of mk tables] Suc.prems(2) js(2) by fastforce
    have "sample_ok d cnt (s'\<lparr>sm_i := i\<rparr>)" for i using s'(2) by (simp add: sample_ok_def)
    then show ?thesis
      using True s' Suc.IH [of "s'\<lparr>sm_i := unat ((word_of_nat (sm_i s') + 1) AND word_of_nat mk :: 64 word)\<rparr>"] Suc.prems(2)
      by (cases out) auto
  qed (use Suc.prems in simp)
qed simp

lemma rehash_some_ok:
  assumes T: "type_ok T"
  shows "dict_inv T d \<Longrightarrow> \<exists>d'. rehash_some can T n d = Some d' \<and> dict_inv T d' \<and> content d' = content d"
proof (induction n arbitrary: d)
  case (Suc n)
  obtain d1 where "dictRehashStep can T d = Some d1" "dict_inv T d1" "content d1 = content d"
    using dictRehashStep_ok [OF T Suc.prems] by blast
  then show ?case using Suc.IH [of d1] Suc.prems by auto
qed auto

text \<open>Sampling needs at most two draws for each step, one more, and one for each entry.\<close>

definition draws_enough :: "'v dict \<Rightarrow> nat \<Rightarrow> nat" where
  "draws_enough d cnt = 1 + dictSize d + 2 * (min (dictSize d) cnt * 10 mod 2 ^ 32)"

lemma some_keys_ok:
  assumes T: "type_ok T" and inv: "dict_inv T d" and us: "draws_enough d cnt \<le> length us"
  shows "\<exists>n des d' us'. dictGetSomeKeys can T d cnt us = Some (n, des, d', us') \<and> dict_inv T d' \<and> content d' = content d
     \<and> n = length des \<and> n \<le> cnt \<and> n \<le> dictSize d \<and> (\<forall>ref \<in> set des. \<exists>x. deref d' ref = Some x)"
proof -
  define c where "c = (if dictSize d < cnt then dictSize d else cnt)"
  have c: "c = min (dictSize d) cnt" by (simp add: c_def)
  obtain d' where d': "rehash_some can T c d = Some d'" "dict_inv T d'" "content d' = content d"
    using rehash_some_ok [OF T inv] by blast
  have sz: "dictSize d' = dictSize d" using size_content [OF inv] size_content [OF d'(2)] d'(3) by simp
  obtain u vs where u: "us = u # vs" using us by (cases us) (auto simp: draws_enough_def)
  define tables where "tables = (if dictIsRehashing d' then 2 else 1 :: nat)"
  define mk where "mk = (if tables > 1 \<and> DICTHT_SIZE_MASK (ht_size_exp d' 0) < DICTHT_SIZE_MASK (ht_size_exp d' 1)
    then DICTHT_SIZE_MASK (ht_size_exp d' 1) else DICTHT_SIZE_MASK (ht_size_exp d' 0))"
  let ?s = "\<lparr>sm_i = unat (u AND word_of_nat mk), sm_emptylen = 0, sm_des = [], sm_stored = 0, sm_us = vs\<rparr>"
  have "sample_ok d' c ?s" by (simp add: sample_ok_def)
  moreover have "dictSize d' + 2 * (c * 10 mod 2 ^ 32) \<le> length (sm_us ?s)"
    using us u sz c by (simp add: draws_enough_def)
  moreover have "tables \<in> {1, 2}" by (simp add: tables_def)
  ultimately obtain s' where s': "sample_loop d' c mk tables (c * 10 mod 2 ^ 32) ?s = Some s'" "sample_ok d' c s'"
    using sample_loop_ok [OF d'(2), of tables c ?s "c * 10 mod 2 ^ 32" mk] by blast
  have "dictGetSomeKeys can T d cnt us = Some (if sm_stored s' > c then c else sm_stored s', sm_des s', d', sm_us s')"
    unfolding dictGetSomeKeys_def Let_def c_def [symmetric] d'(1) Option.bind.simps tables_def [symmetric] mk_def [symmetric]
    using u s'(1) by simp
  then show ?thesis using s'(2) d' c by (auto simp: sample_ok_def)
qed

text \<open>With enough draws (two for each of the at most ten steps per entry asked for, one for the start and one
  for each entry) \<open>dictGetSomeKeys\<close> returns, whatever they are: rehashing steps apart the dictionary is unchanged,
  the array holds as many references as reported, no more than asked for or than there are entries, and all of
  them are to entries of the dictionary.  A fair random key, whenever one is returned, is an entry too.\<close>

theorem some_keys_correct:
  assumes T: "type_ok T" and inv: "dict_inv T d"
  shows "(draws_enough d cnt \<le> length us \<longrightarrow>
      (\<exists>n des d' us'. dictGetSomeKeys can T d cnt us = Some (n, des, d', us') \<and> dict_inv T d' \<and> content d' = content d
        \<and> n = length des \<and> n \<le> cnt \<and> n \<le> dictSize d \<and> (\<forall>ref \<in> set des. \<exists>x. deref d' ref = Some x)))
    \<and> (\<forall>r d2 rand'. draws_enough d 15 \<le> length (ulongs rand) \<and> dictSize d \<noteq> 0
        \<and> dictGetFairRandomKey can T d rand = Some (r, d2, rand')
        \<longrightarrow> content d2 = content d \<and> (\<exists>ref x. r = Some ref \<and> deref d2 ref = Some x))"
proof (intro conjI impI allI)
  assume "draws_enough d cnt \<le> length us"
  from some_keys_ok [OF T inv this]
  show "\<exists>n des d' us'. dictGetSomeKeys can T d cnt us = Some (n, des, d', us') \<and> dict_inv T d' \<and> content d' = content d
        \<and> n = length des \<and> n \<le> cnt \<and> n \<le> dictSize d \<and> (\<forall>ref \<in> set des. \<exists>x. deref d' ref = Some x)" by blast
next
  fix r d2 rand'
  assume a: "draws_enough d 15 \<le> length (ulongs rand) \<and> dictSize d \<noteq> 0 \<and> dictGetFairRandomKey can T d rand = Some (r, d2, rand')"
  then have "draws_enough d GETFAIR_NUM_ENTRIES \<le> length (ulongs rand)" by (simp add: GETFAIR_NUM_ENTRIES_def)
  from some_keys_ok [OF T inv this, of can] obtain n des d' us' where s: "dictGetSomeKeys can T d GETFAIR_NUM_ENTRIES (ulongs rand) = Some (n, des, d', us')"
    "dict_inv T d'" "content d' = content d" "n = length des" "\<forall>ref \<in> set des. \<exists>x. deref d' ref = Some x"
    by (elim exE conjE) (rule that)
  have sz: "dictSize d' \<noteq> 0" using a size_content [OF inv] size_content [OF s(2)] s(3) by simp
  have "content d2 = content d' \<and> (\<exists>ref x. r = Some ref \<and> deref d2 ref = Some x)"
  proof (cases "n = 0")
    case True
    then have "dictGetRandomKey can T d' (rand\<lparr>ulongs := us'\<rparr>) = Some (r, d2, rand')"
      using a s(1) by (simp add: dictGetFairRandomKey_def)
    moreover obtain d3 where d3: "content d3 = content d'" "\<forall>rand r d2 rand'. dictGetRandomKey can T d' rand = Some (r, d2, rand')
        \<longrightarrow> d2 = d3 \<and> (\<exists>ref x. r = Some ref \<and> deref d3 ref = Some x \<and> kv x \<in># content d')"
      using random_key_ok [OF T s(2) sz, of can] by (elim exE conjE) (rule that)
    ultimately have "d2 = d3 \<and> (\<exists>ref x. r = Some ref \<and> deref d3 ref = Some x \<and> kv x \<in># content d')" using d3(2) by blast
    then show ?thesis using d3(1) by blast
  next
    case False
    then obtain q qs where "randoms rand = q # qs" "d2 = d'" "r = Some (des ! (q mod n))"
      using a s(1,4) by (cases "randoms rand") (auto simp: dictGetFairRandomKey_def Let_def)
    moreover have "des ! (q mod n) \<in> set des" for q using False s(4) by simp
    ultimately show ?thesis using s(5) by blast
  qed
  then show "content d2 = content d" "\<exists>ref x. r = Some ref \<and> deref d2 ref = Some x" using s(3) by simp_all
qed

section \<open>Examples\<close>

lemma random_key_correct_witness:
  "\<exists>d' u s. dict_inv ex_type d' \<and> dictGetRandomKey DICT_RESIZE_FORBID ex_type ex_dict \<lparr>ulongs = [u], randoms = [s]\<rparr>
      = Some (Some (1, 4, 0), d', \<lparr>ulongs = [], randoms = []\<rparr>)"
proof -
  have e: "dictRehashStep DICT_RESIZE_FORBID ex_type ex_dict = Some ex_dict"
    by (simp add: dictRehashStep_def dictRehash_def Let_def)
  obtain d' where d': "dict_inv ex_type d'"
    "\<forall>rand r d2 rand'. dictGetRandomKey DICT_RESIZE_FORBID ex_type ex_dict rand = Some (r, d2, rand')
        \<longrightarrow> d2 = d' \<and> (\<exists>ref x. r = Some ref \<and> deref d' ref = Some x \<and> kv x \<in># content ex_dict)"
    "\<forall>t i p x. t \<in> {0, 1} \<and> deref d' (t, i, p) = Some x
        \<longrightarrow> (\<exists>u s. dictGetRandomKey DICT_RESIZE_FORBID ex_type ex_dict \<lparr>ulongs = [u], randoms = [s]\<rparr>
              = Some (Some (t, i, p), d', \<lparr>ulongs = [], randoms = []\<rparr>))"
    using random_key_correct [OF ex_type_ok(1) ex_dict_ok(1), of DICT_RESIZE_FORBID] ex_dict_ok(3) by auto
  have "dictGetRandomKey DICT_RESIZE_FORBID ex_type ex_dict \<lparr>ulongs = [0], randoms = [0]\<rparr>
      = Some (Some (0, 1, 0), ex_dict, \<lparr>ulongs = [], randoms = []\<rparr>)"
    using ex_dict_ok(2,3) e by (simp add: dictGetRandomKey_def) (simp add: ex_dict_def bucket_def DICTHT_SIZE_def)
  then have "d' = ex_dict" using d'(2) by blast
  moreover have "deref ex_dict (1, 4, 0) = Some (Entry 4 (Some 40))" by (simp add: ex_dict_def bucket_def)
  ultimately show ?thesis using d'(1,3) by blast
qed

lemma some_keys_correct_witness:
  "\<exists>n des d' us'. dictGetSomeKeys DICT_RESIZE_ENABLE ex_type ex_dict 2 (replicate 44 7) = Some (n, des, d', us')
     \<and> dict_inv ex_type d' \<and> n \<le> 2 \<and> (\<forall>ref \<in> set des. \<exists>x. deref d' ref = Some x)"
proof -
  have "draws_enough ex_dict 2 \<le> length (replicate 44 (7 :: 64 word))"
    using ex_dict_ok(3) by (simp add: draws_enough_def)
  then show ?thesis
    using some_keys_correct [OF ex_type_ok(1) ex_dict_ok(1), of 2 "replicate 44 7" DICT_RESIZE_ENABLE] by blast
qed

end
