(* ===== verification/Adlist.thy ===== *)
theory Adlist
  imports Redis_Prelude "HOL-Library.Monad_Syntax"
begin

text \<open>
  The doubly linked lists of \<open>src/adlist.c\<close> on an explicit heap of nodes: what the functions write
  through the \<open>prev\<close> and \<open>next\<close> pointers is written here, in the same order.

  A node address is a 64 bit word and \<open>NULL\<close> is 0.  The memory holds the allocated nodes and the log of
  the values handed to a free method.  The struct \<open>list\<close> is not in this memory but a value returned updated, so that
  its own \<open>zfree\<close> in \<open>listRelease\<close> has no effect here; the two lists of \<open>listJoin\<close> are distinct structs.  The result \<open>None\<close> is the use of a node that is not allocated: a null or
  dangling dereference, or a double free.  The allocator is a parameter, the address \<open>zmalloc\<close> returns as
  a function of the heap; only the addresses are its own, the bytes of a new node are indeterminate.
\<close>

section \<open>Nodes, lists, iterators\<close>

record 'v listNode =
  n_prev :: addr
  n_next :: addr
  n_value :: 'v

type_synonym 'v nodes = "addr \<Rightarrow> 'v listNode option"

record 'v mem =
  nodes :: "'v nodes"
  freed :: "'v list"

datatype direction = AL_START_HEAD | AL_START_TAIL

record listIter =
  i_next :: addr
  i_direction :: direction

text \<open>The callbacks are \<open>None\<close> (\<open>False\<close> for \<open>free\<close>, which only has the effect the log records) when the method
  is not set.\<close>

record 'v adlist =
  l_head :: addr
  l_tail :: addr
  l_dup :: "('v \<Rightarrow> 'v option) option"
  l_free :: bool
  l_match :: "('v \<Rightarrow> 'v \<Rightarrow> bool) option"
  l_len :: "64 word"

section \<open>Memory accesses\<close>

definition node_at :: "'v mem \<Rightarrow> addr \<Rightarrow> 'v listNode option" where
  "node_at m n = (if n = NULL then None else nodes m n)"

definition set_prev :: "addr \<Rightarrow> addr \<Rightarrow> 'v mem \<Rightarrow> 'v mem option" where
  "set_prev n p m = do { nd \<leftarrow> node_at m n; Some (m\<lparr>nodes := (nodes m)(n \<mapsto> nd\<lparr>n_prev := p\<rparr>)\<rparr>) }"

definition set_next :: "addr \<Rightarrow> addr \<Rightarrow> 'v mem \<Rightarrow> 'v mem option" where
  "set_next n p m = do { nd \<leftarrow> node_at m n; Some (m\<lparr>nodes := (nodes m)(n \<mapsto> nd\<lparr>n_next := p\<rparr>)\<rparr>) }"

definition zfree :: "addr \<Rightarrow> 'v mem \<Rightarrow> 'v mem option" where
  "zfree n m = do { nd \<leftarrow> node_at m n; Some (m\<lparr>nodes := (nodes m)(n := None)\<rparr>) }"

text \<open>\<open>if (list->free) list->free(value)\<close>.\<close>

definition call_free :: "bool \<Rightarrow> 'v \<Rightarrow> 'v mem \<Rightarrow> 'v mem" where
  "call_free f v m = (if f then m\<lparr>freed := freed m @ [v]\<rparr> else m)"

definition new_node :: "addr \<Rightarrow> 'v \<Rightarrow> 'v mem \<Rightarrow> 'v mem" where
  "new_node n v m = m\<lparr>nodes := (nodes m)(n \<mapsto> \<lparr>n_prev = indeterminate, n_next = indeterminate, n_value = v\<rparr>)\<rparr>"

section \<open>Creation and release\<close>

definition listCreate :: "bool \<Rightarrow> 'v adlist option" where
  "listCreate room = (if \<not> room then None else
     Some \<lparr>l_head = NULL, l_tail = NULL, l_dup = None, l_free = False, l_match = None, l_len = 0\<rparr>)"

fun empty_loop :: "bool \<Rightarrow> nat \<Rightarrow> addr \<Rightarrow> 'v mem \<Rightarrow> 'v mem option" where
  "empty_loop f 0 current m = Some m"
| "empty_loop f (Suc len) current m = do {
     nd \<leftarrow> node_at m current;
     m \<leftarrow> zfree current (call_free f (n_value nd) m);
     empty_loop f len (n_next nd) m }"

definition listEmpty :: "'v adlist \<Rightarrow> 'v mem \<Rightarrow> ('v adlist \<times> 'v mem) option" where
  "listEmpty l m = do {
     m \<leftarrow> empty_loop (l_free l) (unat (l_len l)) (l_head l) m;
     Some (l\<lparr>l_head := NULL, l_tail := NULL, l_len := 0\<rparr>, m) }"

definition listRelease :: "'v adlist \<Rightarrow> 'v mem \<Rightarrow> 'v mem option" where
  "listRelease l m = map_option snd (listEmpty l m)"

section \<open>Adding nodes\<close>

definition listInitNode :: "addr \<Rightarrow> 'v \<Rightarrow> 'v mem \<Rightarrow> 'v mem" where
  "listInitNode n v m = m\<lparr>nodes := (nodes m)(n \<mapsto> \<lparr>n_prev = NULL, n_next = NULL, n_value = v\<rparr>)\<rparr>"

definition listLinkNodeHead :: "'v adlist \<Rightarrow> addr \<Rightarrow> 'v mem \<Rightarrow> ('v adlist \<times> 'v mem) option" where
  "listLinkNodeHead l node m = do {
     (l, m) \<leftarrow>
       (if l_len l = 0 then do {
          m \<leftarrow> set_next node NULL m;
          m \<leftarrow> set_prev node NULL m;
          Some (l\<lparr>l_head := node, l_tail := node\<rparr>, m) }
        else do {
          m \<leftarrow> set_prev node NULL m;
          m \<leftarrow> set_next node (l_head l) m;
          m \<leftarrow> set_prev (l_head l) node m;
          Some (l\<lparr>l_head := node\<rparr>, m) });
     Some (l\<lparr>l_len := l_len l + 1\<rparr>, m) }"

definition listLinkNodeTail :: "'v adlist \<Rightarrow> addr \<Rightarrow> 'v mem \<Rightarrow> ('v adlist \<times> 'v mem) option" where
  "listLinkNodeTail l node m = do {
     (l, m) \<leftarrow>
       (if l_len l = 0 then do {
          m \<leftarrow> set_next node NULL m;
          m \<leftarrow> set_prev node NULL m;
          Some (l\<lparr>l_head := node, l_tail := node\<rparr>, m) }
        else do {
          m \<leftarrow> set_prev node (l_tail l) m;
          m \<leftarrow> set_next node NULL m;
          m \<leftarrow> set_next (l_tail l) node m;
          Some (l\<lparr>l_tail := node\<rparr>, m) });
     Some (l\<lparr>l_len := l_len l + 1\<rparr>, m) }"

text \<open>The boolean is whether the list pointer, rather than \<open>NULL\<close>, is returned.\<close>

definition listAddNodeHead :: "('v nodes \<Rightarrow> addr) \<Rightarrow> 'v adlist \<Rightarrow> 'v \<Rightarrow> 'v mem \<Rightarrow> (bool \<times> 'v adlist \<times> 'v mem) option" where
  "listAddNodeHead zmalloc l v m =
     (let node = zmalloc (nodes m) in
      if node = NULL then Some (False, l, m)
      else map_option (Pair True) (listLinkNodeHead l node (new_node node v m)))"

definition listAddNodeTail :: "('v nodes \<Rightarrow> addr) \<Rightarrow> 'v adlist \<Rightarrow> 'v \<Rightarrow> 'v mem \<Rightarrow> (bool \<times> 'v adlist \<times> 'v mem) option" where
  "listAddNodeTail zmalloc l v m =
     (let node = zmalloc (nodes m) in
      if node = NULL then Some (False, l, m)
      else map_option (Pair True) (listLinkNodeTail l node (new_node node v m)))"

definition listInsertNode ::
  "('v nodes \<Rightarrow> addr) \<Rightarrow> 'v adlist \<Rightarrow> addr \<Rightarrow> 'v \<Rightarrow> bool \<Rightarrow> 'v mem \<Rightarrow> (bool \<times> 'v adlist \<times> 'v mem) option" where
  "listInsertNode zmalloc l old_node v after m =
     (let node = zmalloc (nodes m) in
      if node = NULL then Some (False, l, m)
      else do {
        let m = new_node node v m;
        (l, m) \<leftarrow>
          (if after then do {
             m \<leftarrow> set_prev node old_node m;
             old \<leftarrow> node_at m old_node;
             m \<leftarrow> set_next node (n_next old) m;
             Some (if l_tail l = old_node then l\<lparr>l_tail := node\<rparr> else l, m) }
           else do {
             m \<leftarrow> set_next node old_node m;
             old \<leftarrow> node_at m old_node;
             m \<leftarrow> set_prev node (n_prev old) m;
             Some (if l_head l = old_node then l\<lparr>l_head := node\<rparr> else l, m) });
        nd \<leftarrow> node_at m node;
        m \<leftarrow> (if n_prev nd \<noteq> NULL then set_next (n_prev nd) node m else Some m);
        nd \<leftarrow> node_at m node;
        m \<leftarrow> (if n_next nd \<noteq> NULL then set_prev (n_next nd) node m else Some m);
        Some (True, l\<lparr>l_len := l_len l + 1\<rparr>, m) })"

section \<open>Removing nodes\<close>

definition listUnlinkNode :: "'v adlist \<Rightarrow> addr \<Rightarrow> 'v mem \<Rightarrow> ('v adlist \<times> 'v mem) option" where
  "listUnlinkNode l node m = do {
     nd \<leftarrow> node_at m node;
     (l, m) \<leftarrow> (if n_prev nd \<noteq> NULL then map_option (Pair l) (set_next (n_prev nd) (n_next nd) m)
        else Some (l\<lparr>l_head := n_next nd\<rparr>, m));
     nd \<leftarrow> node_at m node;
     (l, m) \<leftarrow> (if n_next nd \<noteq> NULL then map_option (Pair l) (set_prev (n_next nd) (n_prev nd) m)
        else Some (l\<lparr>l_tail := n_prev nd\<rparr>, m));
     m \<leftarrow> set_next node NULL m;
     m \<leftarrow> set_prev node NULL m;
     Some (l\<lparr>l_len := l_len l - 1\<rparr>, m) }"

definition listDelNode :: "'v adlist \<Rightarrow> addr \<Rightarrow> 'v mem \<Rightarrow> ('v adlist \<times> 'v mem) option" where
  "listDelNode l node m = do {
     (l, m) \<leftarrow> listUnlinkNode l node m;
     nd \<leftarrow> node_at m node;
     m \<leftarrow> zfree node (call_free (l_free l) (n_value nd) m);
     Some (l, m) }"

section \<open>Iterators\<close>

definition listGetIterator :: "bool \<Rightarrow> 'v adlist \<Rightarrow> direction \<Rightarrow> listIter option" where
  "listGetIterator room l direction = (if \<not> room then None else
     Some \<lparr>i_next = (if direction = AL_START_HEAD then l_head l else l_tail l), i_direction = direction\<rparr>)"

definition listRewind :: "'v adlist \<Rightarrow> listIter" where
  "listRewind l = \<lparr>i_next = l_head l, i_direction = AL_START_HEAD\<rparr>"

definition listRewindTail :: "'v adlist \<Rightarrow> listIter" where
  "listRewindTail l = \<lparr>i_next = l_tail l, i_direction = AL_START_TAIL\<rparr>"

definition listNext :: "'v mem \<Rightarrow> listIter \<Rightarrow> (addr \<times> listIter) option" where
  "listNext m it =
     (let current = i_next it in
      if current = NULL then Some (current, it)
      else do {
        nd \<leftarrow> node_at m current;
        Some (current, it\<lparr>i_next := (if i_direction it = AL_START_HEAD then n_next nd else n_prev nd)\<rparr>) })"

section \<open>Whole list operations\<close>

partial_function (option) dup_loop ::
  "('v nodes \<Rightarrow> addr) \<Rightarrow> 'v adlist \<Rightarrow> listIter \<Rightarrow> 'v mem \<Rightarrow> ('v adlist option \<times> 'v mem) option" where
  "dup_loop zmalloc copy it m =
     Option.bind (listNext m it) (\<lambda>(node, it).
       if node = NULL then Some (Some copy, m)
       else Option.bind (node_at m node) (\<lambda>nd.
         case (case l_dup copy of None \<Rightarrow> Some (n_value nd) | Some f \<Rightarrow> f (n_value nd)) of
           None \<Rightarrow> map_option (Pair None) (listRelease copy m)
         | Some v \<Rightarrow> Option.bind (listAddNodeTail zmalloc copy v m) (\<lambda>(ok, copy, m).
             if ok then dup_loop zmalloc copy it m
             else map_option (Pair None) (listRelease copy (call_free (l_free copy) v m)))))"

definition listDup ::
  "bool \<Rightarrow> ('v nodes \<Rightarrow> addr) \<Rightarrow> 'v adlist \<Rightarrow> 'v mem \<Rightarrow> ('v adlist option \<times> 'v mem) option" where
  "listDup room zmalloc orig m =
     (case listCreate room of
        None \<Rightarrow> Some (None, m)
      | Some copy \<Rightarrow>
          dup_loop zmalloc (copy\<lparr>l_dup := l_dup orig, l_free := l_free orig, l_match := l_match orig\<rparr>)
            (listRewind orig) m)"

definition node_matches :: "'v adlist \<Rightarrow> 'v \<Rightarrow> 'v \<Rightarrow> bool" where
  "node_matches l key v = (case l_match l of Some f \<Rightarrow> f v key | None \<Rightarrow> key = v)"

partial_function (option) search_loop :: "'v adlist \<Rightarrow> 'v \<Rightarrow> listIter \<Rightarrow> 'v mem \<Rightarrow> addr option" where
  "search_loop l key it m =
     Option.bind (listNext m it) (\<lambda>(node, it).
       if node = NULL then Some NULL
       else Option.bind (node_at m node) (\<lambda>nd.
         if node_matches l key (n_value nd) then Some node else search_loop l key it m))"

definition listSearchKey :: "'v adlist \<Rightarrow> 'v \<Rightarrow> 'v mem \<Rightarrow> addr option" where
  "listSearchKey l key m = search_loop l key (listRewind l) m"

text \<open>\<open>while(index-- && n) n = n->next\<close>, or \<open>n->prev\<close>.\<close>

fun index_walk :: "('v listNode \<Rightarrow> addr) \<Rightarrow> 'v mem \<Rightarrow> nat \<Rightarrow> addr \<Rightarrow> addr option" where
  "index_walk step m 0 n = Some n"
| "index_walk step m (Suc index) n =
     (if n = NULL then Some n
      else do { nd \<leftarrow> node_at m n; index_walk step m index (step nd) })"

definition listIndex :: "'v adlist \<Rightarrow> int \<Rightarrow> 'v mem \<Rightarrow> addr option" where
  "listIndex l index m =
     (if index < 0 then index_walk n_prev m (nat (- index - 1)) (l_tail l)
      else index_walk n_next m (nat index) (l_head l))"

definition listRotateTailToHead :: "'v adlist \<Rightarrow> 'v mem \<Rightarrow> ('v adlist \<times> 'v mem) option" where
  "listRotateTailToHead l m =
     (if l_len l \<le> 1 then Some (l, m)
      else do {
        let old = l_tail l;
        nd \<leftarrow> node_at m old;
        let l = l\<lparr>l_tail := n_prev nd\<rparr>;
        m \<leftarrow> set_next (l_tail l) NULL m;
        m \<leftarrow> set_prev (l_head l) old m;
        m \<leftarrow> set_prev old NULL m;
        m \<leftarrow> set_next old (l_head l) m;
        Some (l\<lparr>l_head := old\<rparr>, m) })"

definition listRotateHeadToTail :: "'v adlist \<Rightarrow> 'v mem \<Rightarrow> ('v adlist \<times> 'v mem) option" where
  "listRotateHeadToTail l m =
     (if l_len l \<le> 1 then Some (l, m)
      else do {
        let old = l_head l;
        nd \<leftarrow> node_at m old;
        let l = l\<lparr>l_head := n_next nd\<rparr>;
        m \<leftarrow> set_prev (l_head l) NULL m;
        m \<leftarrow> set_next (l_tail l) old m;
        m \<leftarrow> set_next old NULL m;
        m \<leftarrow> set_prev old (l_tail l) m;
        Some (l\<lparr>l_tail := old\<rparr>, m) })"

definition listJoin :: "'v adlist \<Rightarrow> 'v adlist \<Rightarrow> 'v mem \<Rightarrow> ('v adlist \<times> 'v adlist \<times> 'v mem) option" where
  "listJoin l other m =
     (if l_len other = 0 then Some (l, other, m)
      else do {
        m \<leftarrow> set_prev (l_head other) (l_tail l) m;
        (l, m) \<leftarrow> (if l_tail l \<noteq> NULL then map_option (Pair l) (set_next (l_tail l) (l_head other) m)
          else Some (l\<lparr>l_head := l_head other\<rparr>, m));
        Some (l\<lparr>l_tail := l_tail other, l_len := l_len l + l_len other\<rparr>,
              other\<lparr>l_head := NULL, l_tail := NULL, l_len := 0\<rparr>, m) })"

end
