(* ===== verification/Adlist_Rep.thy ===== *)
theory Adlist_Rep
  imports Adlist Interfaces
begin

text \<open>
  What the heap of a doubly linked list stands for.  \<open>dll h p xs q\<close>: the nodes with the addresses and values
  \<open>xs\<close> are chained in both directions, from a first node whose \<open>prev\<close> is \<open>p\<close> to a last one whose \<open>next\<close> is
  \<open>q\<close>.  \<open>list_rep l m xs\<close>: the struct \<open>l\<close> is the list of \<open>xs\<close>.  The lemmas say what each operation of
  \<open>Adlist\<close> does to that sequence, and that every other node is left alone.
\<close>

section \<open>Chained nodes\<close>

fun first_addr :: "(addr \<times> 'v) list \<Rightarrow> addr \<Rightarrow> addr" where
  "first_addr [] q = q"
| "first_addr (x # xs) q = fst x"

fun last_addr :: "addr \<Rightarrow> (addr \<times> 'v) list \<Rightarrow> addr" where
  "last_addr p [] = p"
| "last_addr p (x # xs) = last_addr (fst x) xs"

fun dll :: "'v nodes \<Rightarrow> addr \<Rightarrow> (addr \<times> 'v) list \<Rightarrow> addr \<Rightarrow> bool" where
  "dll h p [] q = True"
| "dll h p (x # xs) q \<longleftrightarrow> fst x \<noteq> NULL
     \<and> h (fst x) = Some \<lparr>n_prev = p, n_next = first_addr xs q, n_value = snd x\<rparr> \<and> dll h (fst x) xs q"

definition addrs :: "(addr \<times> 'v) list \<Rightarrow> addr set" where
  "addrs xs = fst ` set xs"

definition list_rep :: "'v adlist \<Rightarrow> 'v mem \<Rightarrow> (addr \<times> 'v) list \<Rightarrow> bool" where
  "list_rep l m xs \<longleftrightarrow> dll (nodes m) NULL xs NULL \<and> distinct (map fst xs)
     \<and> l_head l = first_addr xs NULL \<and> l_tail l = last_addr NULL xs \<and> l_len l = of_nat (length xs)"

lemma addrs_simps [simp]:
  "addrs [] = {}" "addrs (x # xs) = insert (fst x) (addrs xs)" "addrs (xs @ ys) = addrs xs \<union> addrs ys"
  by (auto simp: addrs_def)

lemma finite_addrs [simp]: "finite (addrs xs)"
  by (simp add: addrs_def)

lemma addrs_conv: "fst ` set xs = addrs xs"
  by (simp add: addrs_def)

lemma first_addr_append [simp]: "first_addr (xs @ ys) q = first_addr xs (first_addr ys q)"
  by (cases xs) auto

lemma last_addr_append [simp]: "last_addr p (xs @ ys) = last_addr (last_addr p xs) ys"
  by (induction xs arbitrary: p) auto

lemma dll_append [simp]:
  "dll h p (xs @ ys) q \<longleftrightarrow> dll h p xs (first_addr ys q) \<and> dll h (last_addr p xs) ys q"
  by (induction xs arbitrary: p) auto

lemma dll_frame [simp]: "n \<notin> addrs xs \<Longrightarrow> dll (h(n := z)) p xs q = dll h p xs q"
  by (induction xs arbitrary: p) auto

lemma dll_cong: "(\<And>n. n \<in> addrs xs \<Longrightarrow> h n = h' n) \<Longrightarrow> dll h p xs q = dll h' p xs q"
  by (induction xs arbitrary: p) auto

lemma dll_nonnull: "dll h p xs q \<Longrightarrow> NULL \<notin> addrs xs"
  by (induction xs arbitrary: p) auto

lemma dll_allocated: "dll h p xs q \<Longrightarrow> n \<in> addrs xs \<Longrightarrow> h n \<noteq> None"
  by (induction xs arbitrary: p) auto

lemma dll_fresh: "dll h p xs q \<Longrightarrow> h n = None \<Longrightarrow> n \<notin> addrs xs"
  using dll_allocated by blast

lemma first_addr_in: "xs \<noteq> [] \<Longrightarrow> first_addr xs q \<in> addrs xs"
  by (cases xs) auto

lemma last_addr_in: "xs \<noteq> [] \<Longrightarrow> last_addr p xs \<in> addrs xs"
  by (cases xs rule: rev_cases) auto

lemma last_addr_neq [simp]: "b \<noteq> p \<Longrightarrow> b \<notin> addrs xs \<Longrightarrow> last_addr p xs \<noteq> b"
  by (cases xs rule: rev_cases) auto

lemma first_addr_neq [simp]: "b \<noteq> q \<Longrightarrow> b \<notin> addrs xs \<Longrightarrow> first_addr xs q \<noteq> b"
  by (cases xs) auto

lemma first_addr_nonempty: "xs \<noteq> [] \<Longrightarrow> first_addr xs q = first_addr xs q'"
  by (cases xs) auto

lemma dll_unchain: "dll h p xs q \<Longrightarrow> x \<in> set xs \<Longrightarrow> \<exists>nd. h (fst x) = Some nd \<and> n_value nd = snd x"
  by (induction xs arbitrary: p) auto

text \<open>The addresses are distinct and not null, so there are fewer than \<open>2^64\<close> of them: the length does not
  wrap around, and the field is 0 on the empty list only.\<close>

lemma list_rep_length:
  assumes "list_rep l m xs" shows "length xs < 2 ^ 64"
proof -
  have "distinct (map fst xs)" "NULL \<notin> set (map fst xs)"
    using assms dll_nonnull [of "nodes m" NULL xs NULL] by (auto simp: list_rep_def addrs_def)
  then have "card (insert NULL (set (map fst xs))) = Suc (length xs)"
    by (simp add: distinct_card [of "map fst xs", simplified] card_insert_if)
  moreover have "card (insert NULL (set (map fst xs))) \<le> card (UNIV :: addr set)"
    by (rule card_mono) simp_all
  moreover have "card (UNIV :: addr set) = 2 ^ 64" by (simp add: card_word)
  ultimately show ?thesis by linarith
qed

lemma unat_l_len: "list_rep l m xs \<Longrightarrow> unat (l_len l) = length xs"
  using list_rep_length [of l m xs] by (simp add: list_rep_def unat_of_nat)

lemma l_len_zero: "list_rep l m xs \<Longrightarrow> l_len l = 0 \<longleftrightarrow> xs = []"
  using unat_l_len [of l m xs] by (auto simp: unat_eq_zero)

lemma l_len_le_1: "list_rep l m xs \<Longrightarrow> l_len l \<le> 1 \<longleftrightarrow> length xs \<le> 1"
  using unat_l_len [of l m xs] by (simp add: word_le_nat_alt)

text \<open>A list keeps what it stands for when no node of it changes.\<close>

lemma list_rep_frame:
  "list_rep l m xs \<Longrightarrow> (\<And>n. n \<in> addrs xs \<Longrightarrow> nodes m' n = nodes m n) \<Longrightarrow> list_rep l m' xs"
  using dll_cong [of xs "nodes m" "nodes m'"] by (simp add: list_rep_def)

lemma list_rep_fresh: "list_rep l m xs \<Longrightarrow> nodes m n = None \<Longrightarrow> n \<notin> addrs xs"
  by (auto simp: list_rep_def dest: dll_fresh)

lemma list_rep_null: "list_rep l m xs \<Longrightarrow> NULL \<notin> addrs xs"
  by (auto simp: list_rep_def dest: dll_nonnull)

text \<open>An allocator never returns an address in use.\<close>

definition allocator :: "('v nodes \<Rightarrow> addr) \<Rightarrow> bool" where
  "allocator zmalloc \<longleftrightarrow> (\<forall>h. zmalloc h \<noteq> NULL \<longrightarrow> h (zmalloc h) = None)"

lemma allocator_fresh: "allocator zmalloc \<Longrightarrow> zmalloc h \<noteq> NULL \<Longrightarrow> h (zmalloc h) = None"
  by (simp add: allocator_def)

section \<open>Adding and removing\<close>

lemmas mem_ops = node_at_def set_prev_def set_next_def zfree_def new_node_def

definition untouched :: "'v mem \<Rightarrow> 'v mem \<Rightarrow> addr set \<Rightarrow> bool" where
  "untouched m m' A \<longleftrightarrow> freed m' = freed m \<and> (\<forall>a. a \<notin> A \<longrightarrow> nodes m' a = nodes m a)"

definition same_methods :: "'v adlist \<Rightarrow> 'v adlist \<Rightarrow> bool" where
  "same_methods l l' \<longleftrightarrow> l_dup l' = l_dup l \<and> l_free l' = l_free l \<and> l_match l' = l_match l"

lemma same_methods_refl [simp]: "same_methods l l"
  by (simp add: same_methods_def)

lemmas op_simps = mem_ops list_rep_def untouched_def addrs_conv same_methods_def

lemma listLinkNodeHead_ok:
  assumes "list_rep l m xs" "node \<noteq> NULL" "node \<notin> addrs xs" "nodes m node = Some nd" "n_value nd = v"
  shows "\<exists>l' m'. listLinkNodeHead l node m = Some (l', m') \<and> list_rep l' m' ((node, v) # xs)
     \<and> same_methods l l' \<and> untouched m m' (addrs ((node, v) # xs))"
proof (cases xs)
  case Nil
  then show ?thesis using assms l_len_zero [OF assms(1)]
    by (simp add: listLinkNodeHead_def op_simps)
next
  case (Cons y ys)
  then show ?thesis using assms l_len_zero [OF assms(1)]
    by (auto simp: listLinkNodeHead_def op_simps)
qed

lemma listLinkNodeTail_ok:
  assumes "list_rep l m xs" "node \<noteq> NULL" "node \<notin> addrs xs" "nodes m node = Some nd" "n_value nd = v"
  shows "\<exists>l' m'. listLinkNodeTail l node m = Some (l', m') \<and> list_rep l' m' (xs @ [(node, v)])
     \<and> same_methods l l' \<and> untouched m m' (addrs (xs @ [(node, v)]))"
proof (cases xs rule: rev_cases)
  case Nil
  then show ?thesis using assms l_len_zero [OF assms(1)]
    by (simp add: listLinkNodeTail_def op_simps)
next
  case (snoc ys y)
  then show ?thesis using assms l_len_zero [OF assms(1)]
    by (auto simp: listLinkNodeTail_def op_simps)
qed

lemma listInsertNode_after:
  assumes rep: "list_rep l m (xs @ x # ys)" and new: "zmalloc (nodes m) = node" "node \<noteq> NULL" "nodes m node = None"
  shows "\<exists>l' m'. listInsertNode zmalloc l (fst x) v True m = Some (True, l', m')
     \<and> list_rep l' m' (xs @ x # (node, v) # ys) \<and> same_methods l l' \<and> untouched m m' (insert node (addrs (xs @ x # ys)))"
proof (cases ys)
  case Nil
  then show ?thesis using rep new(2,3) list_rep_fresh [OF rep new(3)] list_rep_null [OF rep]
    by (auto simp: listInsertNode_def op_simps Let_def new(1))
next
  case (Cons y zs)
  then show ?thesis using rep new(2,3) list_rep_fresh [OF rep new(3)] list_rep_null [OF rep]
    by (auto simp: listInsertNode_def op_simps Let_def new(1))
qed

lemma listInsertNode_before:
  assumes rep: "list_rep l m (xs @ x # ys)" and new: "zmalloc (nodes m) = node" "node \<noteq> NULL" "nodes m node = None"
  shows "\<exists>l' m'. listInsertNode zmalloc l (fst x) v False m = Some (True, l', m')
     \<and> list_rep l' m' (xs @ (node, v) # x # ys) \<and> same_methods l l' \<and> untouched m m' (insert node (addrs (xs @ x # ys)))"
proof (cases xs rule: rev_cases)
  case Nil
  then show ?thesis using rep new(2,3) list_rep_fresh [OF rep new(3)] list_rep_null [OF rep]
    by (auto simp: listInsertNode_def op_simps Let_def new(1))
next
  case (snoc zs z)
  then show ?thesis using rep new(2,3) list_rep_fresh [OF rep new(3)] list_rep_null [OF rep]
    by (auto simp: listInsertNode_def op_simps Let_def new(1))
qed

lemma listUnlinkNode_ok:
  assumes rep: "list_rep l m (xs @ x # ys)"
  shows "\<exists>l' m'. listUnlinkNode l (fst x) m = Some (l', m') \<and> list_rep l' m' (xs @ ys)
     \<and> nodes m' (fst x) = Some \<lparr>n_prev = NULL, n_next = NULL, n_value = snd x\<rparr>
     \<and> same_methods l l' \<and> untouched m m' (addrs (xs @ x # ys))"
proof (cases xs rule: rev_cases; cases ys)
  fix a as b bs
  assume "xs = as @ [a]" "ys = b # bs"
  then show ?thesis using rep list_rep_null [OF rep]
    by (auto simp: listUnlinkNode_def op_simps)
next
  fix a as
  assume "xs = as @ [a]" "ys = []"
  then show ?thesis using rep list_rep_null [OF rep]
    by (auto simp: listUnlinkNode_def op_simps)
next
  fix b bs
  assume "xs = []" "ys = b # bs"
  then show ?thesis using rep list_rep_null [OF rep]
    by (auto simp: listUnlinkNode_def op_simps)
next
  assume "xs = []" "ys = []"
  then show ?thesis using rep list_rep_null [OF rep]
    by (auto simp: listUnlinkNode_def op_simps)
qed

lemma listDelNode_ok:
  assumes rep: "list_rep l m (xs @ x # ys)"
  shows "\<exists>l' m'. listDelNode l (fst x) m = Some (l', m') \<and> list_rep l' m' (xs @ ys) \<and> nodes m' (fst x) = None
     \<and> same_methods l l' \<and> freed m' = freed m @ (if l_free l then [snd x] else [])
     \<and> (\<forall>a. a \<notin> addrs (xs @ x # ys) \<longrightarrow> nodes m' a = nodes m a)"
proof -
  obtain l' m1 where un: "listUnlinkNode l (fst x) m = Some (l', m1)" "list_rep l' m1 (xs @ ys)"
    "nodes m1 (fst x) = Some \<lparr>n_prev = NULL, n_next = NULL, n_value = snd x\<rparr>"
    "same_methods l l'" "untouched m m1 (addrs (xs @ x # ys))"
    using listUnlinkNode_ok [OF rep] by blast
  have ne: "fst x \<noteq> NULL" "fst x \<notin> addrs (xs @ ys)"
    using rep list_rep_null [OF rep] by (auto simp: list_rep_def addrs_conv)
  let ?m = "call_free (l_free l') (snd x) m1\<lparr>nodes := (nodes m1)(fst x := None)\<rparr>"
  have "list_rep l' ?m (xs @ ys)"
    by (rule list_rep_frame [OF un(2)]) (use ne in \<open>auto simp: call_free_def\<close>)
  then show ?thesis
    using un(1,3-5) ne by (auto simp: listDelNode_def op_simps call_free_def)
qed

text \<open>Rotations.\<close>

lemma listRotateTailToHead_ok:
  assumes rep: "list_rep l m (xs @ [x])"
  shows "\<exists>l' m'. listRotateTailToHead l m = Some (l', m') \<and> list_rep l' m' (x # xs)
     \<and> same_methods l l' \<and> untouched m m' (addrs (xs @ [x]))"
proof (cases xs rule: rev_cases)
  case Nil
  then show ?thesis using rep l_len_le_1 [OF rep] by (simp add: listRotateTailToHead_def untouched_def)
next
  case (snoc ys y)
  then show ?thesis using rep l_len_le_1 [OF rep] list_rep_null [OF rep]
    by (cases ys) (auto simp: listRotateTailToHead_def op_simps Let_def)
qed

lemma listRotateHeadToTail_ok:
  assumes rep: "list_rep l m (x # xs)"
  shows "\<exists>l' m'. listRotateHeadToTail l m = Some (l', m') \<and> list_rep l' m' (xs @ [x])
     \<and> same_methods l l' \<and> untouched m m' (addrs (x # xs))"
proof (cases xs)
  case Nil
  then show ?thesis using rep l_len_le_1 [OF rep] by (simp add: listRotateHeadToTail_def untouched_def)
next
  case (Cons y ys)
  then show ?thesis using rep l_len_le_1 [OF rep] list_rep_null [OF rep]
    by (cases ys rule: rev_cases) (auto simp: listRotateHeadToTail_def op_simps Let_def)
qed

lemma rotate_empty:
  assumes "list_rep l m []"
  shows "listRotateTailToHead l m = Some (l, m)" "listRotateHeadToTail l m = Some (l, m)"
  using l_len_le_1 [OF assms] by (simp_all add: listRotateTailToHead_def listRotateHeadToTail_def)

lemma listJoin_ok:
  assumes l: "list_rep l m xs" and other: "list_rep other m ys" and disj: "addrs xs \<inter> addrs ys = {}"
  shows "\<exists>l' other' m'. listJoin l other m = Some (l', other', m') \<and> list_rep l' m' (xs @ ys) \<and> list_rep other' m' []
     \<and> same_methods l l' \<and> same_methods other other' \<and> untouched m m' (addrs (xs @ ys))"
proof (cases ys)
  case Nil
  then show ?thesis using l other l_len_zero [OF other] by (simp add: listJoin_def untouched_def)
next
  case (Cons y zs)
  note ys = this
  show ?thesis
  proof (cases xs rule: rev_cases)
    case Nil
    then show ?thesis using ys l other disj l_len_zero [OF other] list_rep_null [OF other]
      by (auto simp: listJoin_def op_simps)
  next
    case (snoc ws w)
    then show ?thesis using ys l other disj l_len_zero [OF other] list_rep_null [OF other] list_rep_null [OF l]
      by (auto simp: listJoin_def op_simps)
  qed
qed

section \<open>Iterators, search, index\<close>

abbreviation iter_head :: "(addr \<times> 'v) list \<Rightarrow> listIter" where
  "iter_head ys \<equiv> \<lparr>i_next = first_addr ys NULL, i_direction = AL_START_HEAD\<rparr>"

abbreviation iter_tail :: "(addr \<times> 'v) list \<Rightarrow> listIter" where
  "iter_tail xs \<equiv> \<lparr>i_next = last_addr NULL xs, i_direction = AL_START_TAIL\<rparr>"

lemma iter_start: "list_rep l m xs \<Longrightarrow> listRewind l = iter_head xs" "list_rep l m xs \<Longrightarrow> listRewindTail l = iter_tail xs"
  by (simp_all add: listRewind_def listRewindTail_def list_rep_def)

lemma node_at_middle [simp]:
  "list_rep l m (xs @ x # ys) \<Longrightarrow> node_at m (fst x) =
     Some \<lparr>n_prev = last_addr NULL xs, n_next = first_addr ys NULL, n_value = snd x\<rparr>"
  by (simp add: list_rep_def node_at_def)

lemma fst_middle [simp]: "list_rep l m (xs @ x # ys) \<Longrightarrow> fst x \<noteq> NULL"
  by (simp add: list_rep_def)

lemma listNext_end [simp]: "i_next it = NULL \<Longrightarrow> listNext m it = Some (NULL, it)"
  by (simp add: listNext_def)

lemma listNext_head:
  "list_rep l m (xs @ x # ys) \<Longrightarrow> listNext m (iter_head (x # ys)) = Some (fst x, iter_head ys)"
  by (frule fst_middle) (simp add: listNext_def)

lemma listNext_tail:
  "list_rep l m (xs @ x # ys) \<Longrightarrow> listNext m (iter_tail (xs @ [x])) = Some (fst x, iter_tail xs)"
  by (frule fst_middle) (simp add: listNext_def)

text \<open>The addresses a number of calls return.\<close>

fun next_calls :: "nat \<Rightarrow> 'v mem \<Rightarrow> listIter \<Rightarrow> addr list option" where
  "next_calls 0 m it = Some []"
| "next_calls (Suc k) m it = do { (n, it) \<leftarrow> listNext m it; ns \<leftarrow> next_calls k m it; Some (n # ns) }"

lemma next_calls_head:
  "list_rep l m (xs @ ys) \<Longrightarrow> next_calls (Suc (length ys)) m (iter_head ys) = Some (map fst ys @ [NULL])"
proof (induction ys arbitrary: xs)
  case (Cons y ys)
  have "next_calls (Suc (length ys)) m (iter_head ys) = Some (map fst ys @ [NULL])"
    using Cons.IH [of "xs @ [y]"] Cons.prems by simp
  then show ?case using listNext_head [OF Cons.prems]
    by (simp del: first_addr.simps next_calls.simps add: next_calls.simps(2) [of "Suc (length ys)"])
qed simp

lemma next_calls_tail:
  "list_rep l m (xs @ ys) \<Longrightarrow> next_calls (Suc (length xs)) m (iter_tail xs) = Some (map fst (rev xs) @ [NULL])"
proof (induction xs arbitrary: ys rule: rev_induct)
  case (snoc x xs)
  have "next_calls (Suc (length xs)) m (iter_tail xs) = Some (map fst (rev xs) @ [NULL])"
    using snoc.IH [of "x # ys"] snoc.prems by simp
  moreover have "listNext m (iter_tail (xs @ [x])) = Some (fst x, iter_tail xs)"
    using listNext_tail [of l m xs x ys] snoc.prems by simp
  ultimately show ?case
    by (simp del: last_addr_append next_calls.simps add: next_calls.simps(2) [of "Suc (length xs)"])
qed simp

definition found_addr :: "(addr \<times> 'v) option \<Rightarrow> addr" where
  "found_addr r = (case r of None \<Rightarrow> NULL | Some x \<Rightarrow> fst x)"

lemma search_loop_ok:
  "list_rep l m (xs @ ys) \<Longrightarrow>
     search_loop l' key (iter_head ys) m = Some (found_addr (find (\<lambda>x. node_matches l' key (snd x)) ys))"
proof (induction ys arbitrary: xs)
  case Nil
  show ?case by (subst search_loop.simps) (simp add: found_addr_def)
next
  case (Cons y ys)
  have "search_loop l' key (iter_head ys) m = Some (found_addr (find (\<lambda>x. node_matches l' key (snd x)) ys))"
    using Cons.IH [of "xs @ [y]"] Cons.prems by simp
  then show ?case
    using listNext_head [OF Cons.prems] node_at_middle [OF Cons.prems] fst_middle [OF Cons.prems]
    by (subst search_loop.simps) (simp del: first_addr.simps add: found_addr_def)
qed

lemma listSearchKey_ok:
  "list_rep l m xs \<Longrightarrow> listSearchKey l key m = Some (found_addr (find (\<lambda>x. node_matches l key (snd x)) xs))"
  using search_loop_ok [of l m "[]" xs l key] by (simp add: listSearchKey_def iter_start)

lemma index_walk_next:
  "list_rep l m (xs @ ys) \<Longrightarrow> index_walk n_next m k (first_addr ys NULL) = Some (first_addr (drop k ys) NULL)"
proof (induction ys arbitrary: xs k)
  case Nil
  show ?case by (cases k) auto
next
  case (Cons y ys)
  show ?case
    using Cons.IH [of "xs @ [y]"] Cons.prems by (cases k) (auto simp: node_at_middle [OF Cons.prems] fst_middle [OF Cons.prems])
qed

lemma index_walk_prev:
  "list_rep l m (xs @ ys) \<Longrightarrow> index_walk n_prev m k (last_addr NULL xs) = Some (last_addr NULL (take (length xs - k) xs))"
proof (induction xs arbitrary: ys k rule: rev_induct)
  case Nil
  show ?case by (cases k) auto
next
  case (snoc x xs)
  then have rep: "list_rep l m (xs @ x # ys)" by simp
  show ?case
  proof (cases k)
    case (Suc j)
    then show ?thesis
      using snoc.IH [OF rep, of j] by (simp add: node_at_middle [OF rep] fst_middle [OF rep])
  qed simp
qed

lemma listIndex_ok:
  assumes "list_rep l m xs"
  shows "listIndex l i m = Some (found_addr (map_option (nth xs) (index_pos (length xs) i)))"
proof -
  have h: "l_head l = first_addr xs NULL" "l_tail l = last_addr NULL xs"
    using assms by (simp_all add: list_rep_def)
  have at: "first_addr (drop k xs) NULL = (if k < length xs then fst (xs ! k) else NULL)" for k
    by (simp add: Cons_nth_drop_Suc [symmetric])
  have at': "last_addr NULL (take (Suc k) xs) = fst (xs ! k)" if "k < length xs" for k
    using that by (simp add: take_Suc_conv_app_nth)
  show ?thesis
  proof (cases "i < 0")
    case True
    define k where "k = nat (- i - 1)"
    have i: "i = - int (Suc k)" using True by (simp add: k_def)
    have "listIndex l i m = Some (last_addr NULL (take (length xs - k) xs))"
      using index_walk_prev [of l m xs "[]" k] assms h True by (simp add: listIndex_def k_def)
    also have "last_addr NULL (take (length xs - k) xs) =
        found_addr (map_option (nth xs) (index_pos (length xs) i))"
    proof (cases "k < length xs")
      case True
      then have "length xs - k = Suc (length xs - Suc k)" by simp
      moreover have "nat (int (length xs) + i) = length xs - Suc k" using True i by linarith
      ultimately show ?thesis using True at' [of "length xs - Suc k"] i
        by (simp add: index_pos_def found_addr_def)
    qed (simp add: index_pos_def i found_addr_def)
    finally show ?thesis .
  next
    case False
    then show ?thesis
      using index_walk_next [of l m "[]" xs "nat i"] assms h at [of "nat i"]
      by (simp add: listIndex_def index_pos_def found_addr_def nat_less_iff)
  qed
qed

section \<open>Emptying\<close>

lemma empty_loop_ok:
  "dll (nodes m) p xs q \<Longrightarrow> distinct (map fst xs) \<Longrightarrow>
     empty_loop f (length xs) (first_addr xs q) m =
       Some \<lparr>nodes = (\<lambda>a. if a \<in> addrs xs then None else nodes m a), freed = freed m @ (if f then map snd xs else [])\<rparr>"
proof (induction xs arbitrary: m p)
  case (Cons x xs)
  let ?m = "(call_free f (snd x) m)\<lparr>nodes := (nodes m)(fst x := None)\<rparr>"
  have "dll (nodes ?m) (fst x) xs q" "distinct (map fst xs)"
    using Cons.prems by (simp_all add: addrs_conv)
  from Cons.IH [OF this] show ?case
    using Cons.prems by (auto simp: node_at_def zfree_def call_free_def fun_eq_iff)
qed simp

lemma listEmpty_ok:
  assumes "list_rep l m xs"
  shows "\<exists>l' m'. listEmpty l m = Some (l', m') \<and> list_rep l' m' [] \<and> same_methods l l'
     \<and> nodes m' = (\<lambda>a. if a \<in> addrs xs then None else nodes m a)
     \<and> freed m' = freed m @ (if l_free l then map snd xs else [])"
  using empty_loop_ok [of m NULL xs NULL "l_free l"] assms unat_l_len [OF assms]
  by (simp add: listEmpty_def list_rep_def same_methods_def)

lemma listRelease_ok:
  assumes "list_rep l m xs"
  shows "listRelease l m = Some \<lparr>nodes = (\<lambda>a. if a \<in> addrs xs then None else nodes m a),
     freed = freed m @ (if l_free l then map snd xs else [])\<rparr>"
  using empty_loop_ok [of m NULL xs NULL "l_free l"] assms unat_l_len [OF assms]
  by (simp add: listRelease_def listEmpty_def list_rep_def)

end
