(* ===== verification/Adlist_Props.thy ===== *)
theory Adlist_Props
  imports Adlist_Rep "HOL-Library.Multiset"
begin

text \<open>
  Properties of the doubly linked lists: any sequence of edits follows the reference on plain lists,
  duplication with its error paths, joining and releasing, traversal and search.
\<close>

section \<open>A list and the rest of the heap\<close>

text \<open>\<open>list_in l m xs h0\<close>: the heap is the list of \<open>xs\<close> and, apart from it, the nodes \<open>h0\<close> of others.\<close>

definition list_in :: "'v adlist \<Rightarrow> 'v mem \<Rightarrow> (addr \<times> 'v) list \<Rightarrow> 'v nodes \<Rightarrow> bool" where
  "list_in l m xs h0 \<longleftrightarrow> list_rep l m xs \<and> (\<forall>a. if a \<in> addrs xs then h0 a = None else nodes m a = h0 a)"

definition rest_of :: "'v mem \<Rightarrow> (addr \<times> 'v) list \<Rightarrow> 'v nodes" where
  "rest_of m xs = (\<lambda>a. if a \<in> addrs xs then None else nodes m a)"

lemma list_in_rest: "list_rep l m xs \<Longrightarrow> list_in l m xs (rest_of m xs)"
  by (simp add: list_in_def rest_of_def)

lemma list_in_rep: "list_in l m xs h0 \<Longrightarrow> list_rep l m xs"
  by (simp add: list_in_def)

lemma list_in_nodes: "list_in l m xs h0 \<Longrightarrow> a \<notin> addrs xs \<Longrightarrow> nodes m a = h0 a"
  by (simp add: list_in_def)

lemma list_in_others: "list_in l m xs h0 \<Longrightarrow> a \<in> addrs xs \<Longrightarrow> h0 a = None"
  by (simp add: list_in_def)

lemma list_in_fresh: "list_in l m xs h0 \<Longrightarrow> nodes m a = None \<Longrightarrow> a \<notin> addrs xs \<and> h0 a = None"
  using list_rep_fresh [of l m xs a] by (auto simp: list_in_def)

lemma list_in_new:
  assumes "list_in l m xs h0" "list_rep l' m' ys" "addrs ys = insert node (addrs xs)" "nodes m node = None"
    "\<forall>a. a \<notin> addrs ys \<longrightarrow> nodes m' a = nodes m a"
  shows "list_in l' m' ys h0"
  using assms list_in_fresh [OF assms(1,4)] by (auto simp: list_in_def)

lemma list_in_same:
  assumes "list_in l m xs h0" "list_rep l' m' ys" "addrs ys = addrs xs"
    "\<forall>a. a \<notin> addrs xs \<longrightarrow> nodes m' a = nodes m a"
  shows "list_in l' m' ys h0"
  using assms by (simp add: list_in_def)

lemma add_head:
  assumes l: "list_in l m xs h0" and al: "allocator zmalloc" and room: "zmalloc (nodes m) \<noteq> NULL"
  shows "\<exists>l' m'. listAddNodeHead zmalloc l v m = Some (True, l', m') \<and> list_in l' m' ((zmalloc (nodes m), v) # xs) h0
     \<and> same_methods l l' \<and> freed m' = freed m"
proof -
  let ?n = "zmalloc (nodes m)"
  have new: "nodes m ?n = None" using allocator_fresh [OF al room] .
  have fresh: "?n \<notin> addrs xs" using list_in_fresh [OF l new] by simp
  have rep: "list_rep l (new_node ?n v m) xs"
    by (rule list_rep_frame [OF list_in_rep [OF l]]) (use fresh in \<open>auto simp: new_node_def\<close>)
  have nd: "\<exists>nd. nodes (new_node ?n v m) ?n = Some nd \<and> n_value nd = v"
    by (simp add: new_node_def)
  obtain l' m' where *: "listLinkNodeHead l ?n (new_node ?n v m) = Some (l', m')" "list_rep l' m' ((?n, v) # xs)"
    "same_methods l l'" "untouched (new_node ?n v m) m' (addrs ((?n, v) # xs))"
    using listLinkNodeHead_ok [OF rep room fresh] nd by blast
  have "list_in l' m' ((?n, v) # xs) h0"
    by (rule list_in_new [OF l *(2) _ new]) (use *(4) in \<open>auto simp: untouched_def new_node_def\<close>)
  then show ?thesis using * room by (simp add: listAddNodeHead_def untouched_def new_node_def Let_def)
qed

lemma add_tail:
  assumes l: "list_in l m xs h0" and al: "allocator zmalloc" and room: "zmalloc (nodes m) \<noteq> NULL"
  shows "\<exists>l' m'. listAddNodeTail zmalloc l v m = Some (True, l', m') \<and> list_in l' m' (xs @ [(zmalloc (nodes m), v)]) h0
     \<and> same_methods l l' \<and> freed m' = freed m"
proof -
  let ?n = "zmalloc (nodes m)"
  have new: "nodes m ?n = None" using allocator_fresh [OF al room] .
  have fresh: "?n \<notin> addrs xs" using list_in_fresh [OF l new] by simp
  have rep: "list_rep l (new_node ?n v m) xs"
    by (rule list_rep_frame [OF list_in_rep [OF l]]) (use fresh in \<open>auto simp: new_node_def\<close>)
  have nd: "\<exists>nd. nodes (new_node ?n v m) ?n = Some nd \<and> n_value nd = v"
    by (simp add: new_node_def)
  obtain l' m' where *: "listLinkNodeTail l ?n (new_node ?n v m) = Some (l', m')" "list_rep l' m' (xs @ [(?n, v)])"
    "same_methods l l'" "untouched (new_node ?n v m) m' (addrs (xs @ [(?n, v)]))"
    using listLinkNodeTail_ok [OF rep room fresh] nd by blast
  have "list_in l' m' (xs @ [(?n, v)]) h0"
    by (rule list_in_new [OF l *(2) _ new]) (use *(4) in \<open>auto simp: untouched_def new_node_def\<close>)
  then show ?thesis using * room by (simp add: listAddNodeTail_def untouched_def new_node_def Let_def)
qed

lemma insert_node:
  assumes l: "list_in l m (xs @ x # ys) h0" and al: "allocator zmalloc" and room: "zmalloc (nodes m) \<noteq> NULL"
  shows "\<exists>l' m'. listInsertNode zmalloc l (fst x) v after m = Some (True, l', m')
     \<and> list_in l' m' (if after then xs @ x # (zmalloc (nodes m), v) # ys else xs @ (zmalloc (nodes m), v) # x # ys) h0
     \<and> same_methods l l' \<and> freed m' = freed m"
proof -
  let ?n = "zmalloc (nodes m)"
  let ?zs = "if after then xs @ x # (?n, v) # ys else xs @ (?n, v) # x # ys"
  have new: "nodes m ?n = None" using allocator_fresh [OF al room] .
  obtain l' m' where *: "listInsertNode zmalloc l (fst x) v after m = Some (True, l', m')" "list_rep l' m' ?zs"
    "same_methods l l'" "untouched m m' (insert ?n (addrs (xs @ x # ys)))"
    using listInsertNode_after [where zmalloc = zmalloc, OF list_in_rep [OF l] refl room new, of v]
      listInsertNode_before [where zmalloc = zmalloc, OF list_in_rep [OF l] refl room new, of v] by (cases after) auto
  have "list_in l' m' ?zs h0"
    by (rule list_in_new [OF l *(2) _ new]) (use *(4) in \<open>auto simp: untouched_def\<close>)
  then show ?thesis using * by (simp add: untouched_def)
qed

lemma del_node:
  assumes l: "list_in l m (xs @ x # ys) h0"
  shows "\<exists>l' m'. listDelNode l (fst x) m = Some (l', m') \<and> list_in l' m' (xs @ ys) h0
     \<and> same_methods l l' \<and> freed m' = freed m @ (if l_free l then [snd x] else [])"
proof -
  obtain l' m' where *: "listDelNode l (fst x) m = Some (l', m')" "list_rep l' m' (xs @ ys)" "nodes m' (fst x) = None"
    "same_methods l l'" "freed m' = freed m @ (if l_free l then [snd x] else [])"
    "\<forall>a. a \<notin> addrs (xs @ x # ys) \<longrightarrow> nodes m' a = nodes m a"
    using listDelNode_ok [OF list_in_rep [OF l]] by blast
  have "fst x \<notin> addrs (xs @ ys)"
    using list_in_rep [OF l] by (auto simp: list_rep_def addrs_conv)
  then have "nodes m' a = h0 a" if "a \<notin> addrs (xs @ ys)" for a
    using list_in_others [OF l, of a] list_in_nodes [OF l, of a] *(3,6) that by (cases "a = fst x") auto
  then have "list_in l' m' (xs @ ys) h0"
    using list_in_others [OF l] *(2) by (simp add: list_in_def)
  then show ?thesis using * by blast
qed

section \<open>Any sequence of edits\<close>

datatype 'v list_cmd = AddHead 'v | AddTail 'v | InsertAt int 'v bool | DelAt int | TailToHead | HeadToTail

fun list_allocates :: "'v list_cmd \<Rightarrow> bool" where
  "list_allocates (AddHead v) = True"
| "list_allocates (AddTail v) = True"
| "list_allocates (InsertAt i v after) = True"
| "list_allocates c = False"

text \<open>The reference: the values in order, and those destroyed.\<close>

fun list_spec :: "'v list_cmd \<Rightarrow> 'v list \<times> 'v list \<Rightarrow> ('v list \<times> 'v list) option" where
  "list_spec (AddHead v) (vs, dead) = Some (v # vs, dead)"
| "list_spec (AddTail v) (vs, dead) = Some (vs @ [v], dead)"
| "list_spec (InsertAt i v after) (vs, dead) =
     map_option (\<lambda>k. let j = (if after then Suc k else k) in (take j vs @ v # drop j vs, dead)) (index_pos (length vs) i)"
| "list_spec (DelAt i) (vs, dead) =
     map_option (\<lambda>k. (take k vs @ drop (Suc k) vs, dead @ [vs ! k])) (index_pos (length vs) i)"
| "list_spec TailToHead (vs, dead) = Some (case rev vs of [] \<Rightarrow> [] | v # ws \<Rightarrow> v # rev ws, dead)"
| "list_spec HeadToTail (vs, dead) = Some (rotate1 vs, dead)"

text \<open>What a client does on the list: nodes are named by their index.\<close>

fun list_exec :: "('v nodes \<Rightarrow> addr) \<Rightarrow> 'v list_cmd \<Rightarrow> 'v adlist \<times> 'v mem \<Rightarrow> (bool \<times> 'v adlist \<times> 'v mem) option" where
  "list_exec zmalloc (AddHead v) (l, m) = listAddNodeHead zmalloc l v m"
| "list_exec zmalloc (AddTail v) (l, m) = listAddNodeTail zmalloc l v m"
| "list_exec zmalloc (InsertAt i v after) (l, m) =
     do { n \<leftarrow> listIndex l i m; if n = NULL then Some (False, l, m) else listInsertNode zmalloc l n v after m }"
| "list_exec zmalloc (DelAt i) (l, m) =
     do { n \<leftarrow> listIndex l i m; if n = NULL then Some (False, l, m) else map_option (Pair True) (listDelNode l n m) }"
| "list_exec zmalloc TailToHead (l, m) = map_option (Pair True) (listRotateTailToHead l m)"
| "list_exec zmalloc HeadToTail (l, m) = map_option (Pair True) (listRotateHeadToTail l m)"

definition list_rel :: "('v nodes \<Rightarrow> addr) \<Rightarrow> 'v nodes \<Rightarrow> 'v list \<Rightarrow> bool \<Rightarrow> 'v adlist \<times> 'v mem \<Rightarrow> 'v list \<times> 'v list \<Rightarrow> bool" where
  "list_rel zmalloc h0 f0 fr s x \<longleftrightarrow> allocator zmalloc
     \<and> (case s of (l, m) \<Rightarrow> l_free l = fr \<and> freed m = f0 @ (if fr then snd x else [])
          \<and> (\<exists>xs. list_in l m xs h0 \<and> map snd xs = fst x))"

definition list_room :: "('v nodes \<Rightarrow> addr) \<Rightarrow> 'v adlist \<times> 'v mem \<Rightarrow> bool" where
  "list_room zmalloc s \<longleftrightarrow> zmalloc (nodes (snd s)) \<noteq> NULL"

lemma split_at: "k < length xs \<Longrightarrow> take k xs @ xs ! k # drop (Suc k) xs = xs"
  by (simp add: id_take_nth_drop [symmetric])

text \<open>What \<open>listIndex\<close> returns, and the list around it.\<close>

lemma index_split:
  assumes "list_rep l m xs"
  shows "index_pos (length xs) i = None \<Longrightarrow> listIndex l i m = Some NULL"
    and "index_pos (length xs) i = Some k \<Longrightarrow> listIndex l i m = Some (fst (xs ! k)) \<and> fst (xs ! k) \<noteq> NULL
      \<and> k < length xs \<and> xs = take k xs @ xs ! k # drop (Suc k) xs"
proof -
  show "index_pos (length xs) i = None \<Longrightarrow> listIndex l i m = Some NULL"
    using listIndex_ok [OF assms, of i] by (simp add: found_addr_def)
  assume k: "index_pos (length xs) i = Some k"
  then have "k < length xs" by (rule index_pos_less)
  moreover from this have "fst (xs ! k) \<in> addrs xs" by (simp add: addrs_def)
  ultimately show "listIndex l i m = Some (fst (xs ! k)) \<and> fst (xs ! k) \<noteq> NULL
      \<and> k < length xs \<and> xs = take k xs @ xs ! k # drop (Suc k) xs"
    using listIndex_ok [OF assms, of i] k list_rep_null [OF assms] split_at [of k xs]
    by (auto simp: found_addr_def)
qed

lemma list_step_ok:
  assumes "list_rel zmalloc h0 f0 fr s x"
  shows "\<exists>ok s'. list_exec zmalloc c s = Some (ok, s')
     \<and> (ok \<longleftrightarrow> list_spec c x \<noteq> None \<and> (list_allocates c \<longrightarrow> list_room zmalloc s))
     \<and> list_rel zmalloc h0 f0 fr s' (if ok then the (list_spec c x) else x)"
proof -
  obtain l m where s: "s = (l, m)" by fastforce
  obtain vs dead where x: "x = (vs, dead)" by fastforce
  obtain xs where al: "allocator zmalloc" and fr: "l_free l = fr" and fm: "freed m = f0 @ (if fr then dead else [])"
    and xs: "list_in l m xs h0" and vs: "vs = map snd xs"
    using assms by (auto simp: list_rel_def s x)
  note rep = list_in_rep [OF xs]
  show ?thesis
  proof (cases "list_allocates c \<and> \<not> list_room zmalloc s")
    case True
    then have "list_exec zmalloc c s = Some (False, s)"
    proof (cases c)
      case (InsertAt i v after)
      then show ?thesis using True index_split [OF rep, of i]
        by (cases "index_pos (length xs) i") (simp_all add: s list_room_def listInsertNode_def)
    qed (simp_all add: s list_room_def listAddNodeHead_def listAddNodeTail_def)
    then show ?thesis using True assms by (intro exI [of _ False]) simp
  next
    case room: False
    show ?thesis
    proof (cases c)
      case (AddHead v)
      then show ?thesis using room add_head [OF xs al, of v] al by (fastforce simp: s x vs list_rel_def list_room_def same_methods_def fr fm)
    next
      case (AddTail v)
      then show ?thesis using room add_tail [OF xs al, of v] al by (fastforce simp: s x vs list_rel_def list_room_def same_methods_def fr fm)
    next
      case (InsertAt i v after)
      show ?thesis
      proof (cases "index_pos (length xs) i")
        case None
        then show ?thesis using InsertAt index_split(1) [OF rep] assms
          by (intro exI [of _ False] exI [of _ "(l, m)"]) (simp add: s x vs)
      next
        case (Some k)
        note k = index_split(2) [OF rep Some]
        have mid: "list_in l m (take k xs @ xs ! k # drop (Suc k) xs) h0" using xs k by simp
        obtain l' m' where new: "listInsertNode zmalloc l (fst (xs ! k)) v after m = Some (True, l', m')"
          "list_in l' m' (if after then take k xs @ xs ! k # (zmalloc (nodes m), v) # drop (Suc k) xs
             else take k xs @ (zmalloc (nodes m), v) # xs ! k # drop (Suc k) xs) h0"
          "same_methods l l'" "freed m' = freed m"
          using insert_node [OF mid al, of v after] room InsertAt by (auto simp: list_room_def s)
        have spec: "list_spec c x = Some (map snd (if after then take k xs @ xs ! k # (zmalloc (nodes m), v) # drop (Suc k) xs
             else take k xs @ (zmalloc (nodes m), v) # xs ! k # drop (Suc k) xs), dead)"
          using k InsertAt Some
          by (simp add: x vs Let_def take_map drop_map take_Suc_conv_app_nth Cons_nth_drop_Suc [symmetric])
        have "list_exec zmalloc c s = Some (True, l', m')"
          using k new(1) InsertAt by (simp add: s)
        moreover have "list_rel zmalloc h0 f0 fr (l', m') (the (list_spec c x))"
          unfolding spec list_rel_def using new(2-4) al fr fm by (auto simp: same_methods_def)
        ultimately show ?thesis using spec room by (intro exI [of _ True]) auto
      qed
    next
      case (DelAt i)
      show ?thesis
      proof (cases "index_pos (length xs) i")
        case None
        then show ?thesis using DelAt index_split(1) [OF rep] assms
          by (intro exI [of _ False] exI [of _ "(l, m)"]) (simp add: s x vs)
      next
        case (Some k)
        note k = index_split(2) [OF rep Some]
        have mid: "list_in l m (take k xs @ xs ! k # drop (Suc k) xs) h0" using xs k by simp
        obtain l' m' where del: "listDelNode l (fst (xs ! k)) m = Some (l', m')"
          "list_in l' m' (take k xs @ drop (Suc k) xs) h0"
          "same_methods l l'" "freed m' = freed m @ (if l_free l then [snd (xs ! k)] else [])"
          using del_node [OF mid] by blast
        have spec: "list_spec c x = Some (map snd (take k xs @ drop (Suc k) xs), dead @ [snd (xs ! k)])"
          using k DelAt Some by (simp add: x vs take_map drop_map)
        have "list_exec zmalloc c s = Some (True, l', m')"
          using k del(1) DelAt by (simp add: s)
        moreover have "list_rel zmalloc h0 f0 fr (l', m') (the (list_spec c x))"
          unfolding spec list_rel_def using del(2-4) al fr fm by (auto simp: same_methods_def)
        ultimately show ?thesis using spec room by (intro exI [of _ True]) auto
      qed
    next
      case TailToHead
      show ?thesis
      proof (cases xs rule: rev_cases)
        case Nil
        then show ?thesis using TailToHead rotate_empty [of l m] rep assms
          by (intro exI [of _ True] exI [of _ "(l, m)"]) (simp add: s x vs)
      next
        case (snoc ys y)
        obtain l' m' where rot: "listRotateTailToHead l m = Some (l', m')" "list_rep l' m' (y # ys)"
          "same_methods l l'" "untouched m m' (addrs (ys @ [y]))"
          using listRotateTailToHead_ok [of l m] rep snoc by blast
        have "list_in l' m' (y # ys) h0"
          by (rule list_in_same [OF xs rot(2)]) (use rot(4) snoc in \<open>auto simp: untouched_def\<close>)
        then have rel: "list_rel zmalloc h0 f0 fr (l', m') (map snd (y # ys), dead)"
          unfolding list_rel_def using rot(3,4) al fr fm by (auto simp: same_methods_def untouched_def)
        have "list_exec zmalloc c s = Some (True, l', m')" "list_spec c x = Some (map snd (y # ys), dead)"
          using rot(1) TailToHead snoc by (simp_all add: s x vs)
        then show ?thesis using rel room by (intro exI [of _ True] exI [of _ "(l', m')"]) simp
      qed
    next
      case HeadToTail
      show ?thesis
      proof (cases xs)
        case Nil
        then show ?thesis using HeadToTail rotate_empty [of l m] rep assms
          by (intro exI [of _ True] exI [of _ "(l, m)"]) (simp add: s x vs)
      next
        case (Cons y ys)
        obtain l' m' where rot: "listRotateHeadToTail l m = Some (l', m')" "list_rep l' m' (ys @ [y])"
          "same_methods l l'" "untouched m m' (addrs (y # ys))"
          using listRotateHeadToTail_ok [of l m] rep Cons by blast
        have "list_in l' m' (ys @ [y]) h0"
          by (rule list_in_same [OF xs rot(2)]) (use rot(4) Cons in \<open>auto simp: untouched_def\<close>)
        then have rel: "list_rel zmalloc h0 f0 fr (l', m') (map snd (ys @ [y]), dead)"
          unfolding list_rel_def using rot(3,4) al fr fm by (auto simp: same_methods_def untouched_def)
        have "list_exec zmalloc c s = Some (True, l', m')" "list_spec c x = Some (map snd (ys @ [y]), dead)"
          using rot(1) HeadToTail Cons by (simp_all add: s x vs)
        then show ?thesis using rel room by (intro exI [of _ True] exI [of _ "(l', m')"]) simp
      qed
    qed
  qed
qed

interpretation edits: fallible_machine "list_rel zmalloc h0 f0 fr" "list_room zmalloc" "list_exec zmalloc" list_allocates list_spec
  for zmalloc h0 f0 fr
  by unfold_locales (rule list_step_ok)

text \<open>C6. Adding at either end, inserting before or after a node named by its index from either end, deleting and
  rotating: any sequence of them on the heap follows the reference on plain lists and never uses a null,
  dangling or freed node; the deleted values, and no others, go to the free method in order; the nodes of
  others are untouched and no node is leaked; the length field is exact.  An operation is
  refused exactly when its index is out of range or when \<open>zmalloc\<close>, asked for a node in the heap the
  operation is called in, returns \<open>NULL\<close>, and then it changes nothing.\<close>

theorem list_edits_refine:
  assumes "list_rep l m xs" "allocator zmalloc"
  shows "\<exists>oks l' m' ys dead. map_run (list_exec zmalloc) cs (l, m) = Some (oks, l', m')
     \<and> explains (list_exec zmalloc) (\<lambda>(l, m). zmalloc (nodes m) \<noteq> NULL) list_spec list_allocates cs oks
         (l, m) (map snd xs, []) (map snd ys, dead)
     \<and> list_rep l' m' ys \<and> unat (l_len l') = length ys
     \<and> freed m' = freed m @ (if l_free l then dead else [])
     \<and> nodes m' = (\<lambda>a. if a \<in> addrs ys then nodes m' a else rest_of m xs a)"
proof -
  have "list_rel zmalloc (rest_of m xs) (freed m) (l_free l) (l, m) (map snd xs, [])"
    using assms list_in_rest [OF assms(1)] by (auto simp: list_rel_def)
  from edits.run_explained [OF this, of cs] obtain oks l' m' vs dead where
    run: "map_run (list_exec zmalloc) cs (l, m) = Some (oks, l', m')"
    "list_rel zmalloc (rest_of m xs) (freed m) (l_free l) (l', m') (vs, dead)"
    "explains (list_exec zmalloc) (list_room zmalloc) list_spec list_allocates cs oks (l, m) (map snd xs, []) (vs, dead)"
    by auto
  from run(2) obtain ys where ys: "list_in l' m' ys (rest_of m xs)" "map snd ys = vs"
    "freed m' = freed m @ (if l_free l then dead else [])" by (auto simp: list_rel_def)
  have "nodes m' = (\<lambda>a. if a \<in> addrs ys then nodes m' a else rest_of m xs a)"
    using list_in_nodes [OF ys(1)] by (auto simp: fun_eq_iff)
  moreover have "list_room zmalloc = (\<lambda>(l, m). zmalloc (nodes m) \<noteq> NULL)"
    by (simp add: list_room_def fun_eq_iff)
  ultimately show ?thesis
    using run(1,3) ys list_in_rep [OF ys(1)] unat_l_len [OF list_in_rep [OF ys(1)]] by auto
qed

section \<open>Duplication\<close>

definition dup_value :: "'v adlist \<Rightarrow> 'v \<Rightarrow> 'v option" where
  "dup_value l v = (case l_dup l of None \<Rightarrow> Some v | Some f \<Rightarrow> f v)"

lemma dup_value_same: "same_methods l l' \<Longrightarrow> dup_value l' = dup_value l"
  by (simp add: same_methods_def dup_value_def fun_eq_iff)

lemma list_in_other:
  assumes "list_in l m xs h0" "list_rep l' \<lparr>nodes = h0, freed = f\<rparr> ys"
  shows "list_rep l' m ys"
proof (rule list_rep_frame [OF assms(2)])
  fix a assume "a \<in> addrs ys"
  then have "h0 a \<noteq> None" using assms(2) dll_allocated [of h0 NULL ys NULL a] by (simp add: list_rep_def)
  then show "nodes m a = nodes \<lparr>nodes = h0, freed = f\<rparr> a"
    using list_in_others [OF assms(1), of a] list_in_nodes [OF assms(1), of a] by (cases "a \<in> addrs xs") auto
qed

lemma list_in_release:
  assumes "list_in l m xs h0"
  shows "listRelease l m = Some \<lparr>nodes = h0, freed = freed m @ (if l_free l then map snd xs else [])\<rparr>"
proof -
  have "(\<lambda>a. if a \<in> addrs xs then None else nodes m a) = h0"
    using list_in_nodes [OF assms] list_in_others [OF assms] by (auto simp: fun_eq_iff)
  then show ?thesis using listRelease_ok [OF list_in_rep [OF assms]] by simp
qed

lemma list_in_dom:
  assumes "list_in l m xs h0"
  shows "h0 \<subseteq>\<^sub>m nodes m" "card (dom (nodes m) - dom h0) = length xs"
proof -
  show "h0 \<subseteq>\<^sub>m nodes m"
    using list_in_nodes [OF assms] list_in_others [OF assms] by (metis domIff map_le_def)
  have "a \<in> dom (nodes m) - dom h0 \<longleftrightarrow> a \<in> addrs xs" for a
    using list_in_nodes [OF assms, of a] list_in_others [OF assms, of a] list_in_rep [OF assms]
      dll_allocated [of "nodes m" NULL xs NULL a] by (cases "a \<in> addrs xs") (auto simp: list_rep_def domIff)
  then have "dom (nodes m) - dom h0 = addrs xs" by blast
  moreover have "card (addrs xs) = length xs"
    using list_in_rep [OF assms] distinct_card [of "map fst xs"] by (simp add: list_rep_def addrs_def)
  ultimately show "card (dom (nodes m) - dom h0) = length xs" by simp
qed

lemma list_in_call_free: "list_in l m xs h0 \<Longrightarrow> list_in l (call_free f v m) xs h0"
  by (simp add: list_in_def list_rep_def call_free_def)

text \<open>What \<open>listDup\<close> does from the nodes \<open>ys\<close> on, with the nodes \<open>cs\<close> copied.  It returns a full copy, or it fails
  at the node \<open>k\<close>, because its value cannot be duplicated or because there is no node left in the heap \<open>h\<close> with
  the partial copy; then the heap is again what it was and every value duplicated has been freed once.\<close>

definition dup_failed_at ::
  "('v nodes \<Rightarrow> addr) \<Rightarrow> bool \<Rightarrow> ('v \<Rightarrow> 'v option) \<Rightarrow> 'v list \<Rightarrow> 'v nodes \<Rightarrow> 'v list \<Rightarrow> 'v list \<Rightarrow> 'v list
     \<Rightarrow> nat \<Rightarrow> 'v list \<Rightarrow> 'v list \<Rightarrow> bool" where
  "dup_failed_at zmalloc fr dv copied h0 f0 vs f' k ws gone \<longleftrightarrow>
     k < length vs \<and> map Some ws = map dv (take k vs)
     \<and> mset f' = mset f0 + (if fr then mset copied + mset ws + mset gone else {#})
     \<and> (case dv (vs ! k) of
          None \<Rightarrow> gone = []
        | Some w \<Rightarrow> gone = [w] \<and> (\<exists>h. zmalloc h = NULL \<and> h0 \<subseteq>\<^sub>m h \<and> card (dom h - dom h0) = length copied + k))"

definition dup_result ::
  "('v nodes \<Rightarrow> addr) \<Rightarrow> 'v adlist \<Rightarrow> (addr \<times> 'v) list \<Rightarrow> 'v nodes \<Rightarrow> 'v mem \<Rightarrow> (addr \<times> 'v) list \<Rightarrow> 'v adlist option \<Rightarrow> 'v mem \<Rightarrow> bool" where
  "dup_result zmalloc copy cs h0 m ys r m' \<longleftrightarrow>
     (case r of
        Some c \<Rightarrow> freed m' = freed m \<and> same_methods copy c
          \<and> (\<exists>zs. list_in c m' (cs @ zs) h0 \<and> map (Some \<circ> snd) zs = map (dup_value copy \<circ> snd) ys)
      | None \<Rightarrow> nodes m' = h0
          \<and> (\<exists>k ws gone. dup_failed_at zmalloc (l_free copy) (dup_value copy) (map snd cs) h0 (freed m) (map snd ys) (freed m') k ws gone))"

lemma dup_result_failI:
  "nodes m' = h0 \<Longrightarrow>
   dup_failed_at zmalloc (l_free copy) (dup_value copy) (map snd cs) h0 (freed m) (map snd ys) (freed m') k ws gone \<Longrightarrow>
   dup_result zmalloc copy cs h0 m ys None m'"
  unfolding dup_result_def by auto

lemma dup_failed_step:
  "dup_failed_at zmalloc fr dv (vs @ [w]) h0 f0 us f' k ws gone \<Longrightarrow> dv v = Some w \<Longrightarrow>
     dup_failed_at zmalloc fr dv vs h0 f0 (v # us) f' (Suc k) (w # ws) gone"
  by (simp add: dup_failed_at_def ac_simps cong: option.case_cong)

lemma dup_result_step:
  assumes IH: "dup_result zmalloc c' (cs @ [(n, w)]) h0 m1 ys r m'"
    and "same_methods copy c'" "dup_value copy (snd y) = Some w" "freed m1 = freed m"
  shows "dup_result zmalloc copy cs h0 m (y # ys) r m'"
proof (cases r)
  case None
  have "\<exists>k ws gone. dup_failed_at zmalloc (l_free copy) (dup_value copy) (map snd cs @ [w]) h0 (freed m) (map snd ys) (freed m') k ws gone"
    and "nodes m' = h0"
    using IH None assms(2,4) dup_value_same [OF assms(2)] by (simp_all add: dup_result_def same_methods_def)
  then show ?thesis
    using None dup_failed_step [where dv = "dup_value copy" and v = "snd y", OF _ assms(3)]
    by (auto simp: dup_result_def) blast
next
  case (Some c)
  then obtain zs where "freed m' = freed m" "same_methods copy c" "list_in c m' (cs @ (n, w) # zs) h0"
    "map (Some \<circ> snd) zs = map (dup_value copy \<circ> snd) ys"
    using IH assms(2,4) dup_value_same [OF assms(2)] by (auto simp: dup_result_def same_methods_def)
  then show ?thesis
    using Some assms(3) unfolding dup_result_def by (auto intro: exI [of _ "(n, w) # zs"])
qed

lemma dup_loop_ok:
  assumes "list_in copy m cs h0" "list_rep orig \<lparr>nodes = h0, freed = f\<rparr> (xs @ ys)" "allocator zmalloc"
  shows "\<exists>r m'. dup_loop zmalloc copy (iter_head ys) m = Some (r, m') \<and> dup_result zmalloc copy cs h0 m ys r m'"
  using assms
proof (induction ys arbitrary: copy m cs xs)
  case Nil
  then show ?case
    by (subst dup_loop.simps) (auto simp: dup_result_def intro: exI [of _ "[]"])
next
  case (Cons y ys)
  have rep: "list_rep orig m (xs @ y # ys)"
    by (rule list_in_other [OF Cons.prems(1,2)])
  have step: "dup_loop zmalloc copy (iter_head (y # ys)) m =
     (case dup_value copy (snd y) of
        None \<Rightarrow> map_option (Pair None) (listRelease copy m)
      | Some w \<Rightarrow> Option.bind (listAddNodeTail zmalloc copy w m) (\<lambda>(ok, copy, m).
          if ok then dup_loop zmalloc copy (iter_head ys) m
          else map_option (Pair None) (listRelease copy (call_free (l_free copy) w m))))"
    using listNext_head [OF rep] node_at_middle [OF rep] fst_middle [OF rep]
    by (subst dup_loop.simps) (simp del: first_addr.simps add: dup_value_def cong: option.case_cong)
  show ?case
  proof (cases "dup_value copy (snd y)")
    case None
    then have "dup_failed_at zmalloc (l_free copy) (dup_value copy) (map snd cs) h0 (freed m) (map snd (y # ys))
        (freed m @ (if l_free copy then map snd cs else [])) 0 [] []"
      by (simp add: dup_failed_at_def)
    then show ?thesis
      using None step list_in_release [OF Cons.prems(1)]
      by (intro exI conjI, simp del: first_addr.simps) (rule dup_result_failI, simp_all)
  next
    case (Some w)
    show ?thesis
    proof (cases "zmalloc (nodes m) = NULL")
      case True
      then have "listAddNodeTail zmalloc copy w m = Some (False, copy, m)"
        by (simp add: listAddNodeTail_def)
      then have "dup_loop zmalloc copy (iter_head (y # ys)) m =
          Some (None, \<lparr>nodes = h0, freed = freed m @ (if l_free copy then w # map snd cs else [])\<rparr>)"
        using step Some list_in_release [OF list_in_call_free [OF Cons.prems(1)], of "l_free copy" w]
        by (simp del: first_addr.simps add: call_free_def)
      moreover have "dup_failed_at zmalloc (l_free copy) (dup_value copy) (map snd cs) h0 (freed m) (map snd (y # ys))
          (freed m @ (if l_free copy then w # map snd cs else [])) 0 [] [w]"
        using Some True list_in_dom [OF Cons.prems(1)] by (auto simp: dup_failed_at_def)
      ultimately show ?thesis
        by - (intro exI conjI, assumption, rule dup_result_failI, simp_all)
    next
      case False
      obtain c' m1 where new: "listAddNodeTail zmalloc copy w m = Some (True, c', m1)"
        "list_in c' m1 (cs @ [(zmalloc (nodes m), w)]) h0" "same_methods copy c'" "freed m1 = freed m"
        using add_tail [OF Cons.prems(1,3) False] by blast
      have eq: "dup_loop zmalloc copy (iter_head (y # ys)) m = dup_loop zmalloc c' (iter_head ys) m1"
        using step Some new(1) by (simp del: first_addr.simps)
      have rep': "list_rep orig \<lparr>nodes = h0, freed = f\<rparr> ((xs @ [y]) @ ys)" using Cons.prems(2) by simp
      obtain r m' where r: "dup_loop zmalloc c' (iter_head ys) m1 = Some (r, m')"
        and IH: "dup_result zmalloc c' (cs @ [(zmalloc (nodes m), w)]) h0 m1 ys r m'"
        using Cons.IH [OF new(2) rep' Cons.prems(3)] by blast
      have "dup_result zmalloc copy cs h0 m (y # ys) r m'"
        by (rule dup_result_step [OF IH new(3) Some new(4)])
      then show ?thesis using r eq by auto
    qed
  qed
qed

text \<open>C15. Duplicating a list with its own duplication method either returns a new list with the duplicated values
  in order and the same methods, in nodes of its own, with nothing freed; or it returns nothing, because the
  duplication of a value failed or the heap with the partial copy has no node left, and then no node is leaked
  and every value duplicated so far has been freed exactly once.  The original is unchanged in both cases.\<close>

theorem list_dup_correct:
  assumes "list_rep l m xs" "allocator zmalloc"
  shows "\<exists>r m'. listDup True zmalloc l m = Some (r, m') \<and> list_rep l m' xs \<and>
     (case r of
        Some c \<Rightarrow> freed m' = freed m \<and> same_methods l c
          \<and> (\<exists>zs. list_in c m' zs (nodes m) \<and> map (Some \<circ> snd) zs = map (dup_value l \<circ> snd) xs)
      | None \<Rightarrow> nodes m' = nodes m
          \<and> (\<exists>k ws gone. dup_failed_at zmalloc (l_free l) (dup_value l) [] (nodes m) (freed m) (map snd xs) (freed m') k ws gone))"
proof -
  let ?c = "\<lparr>l_head = NULL, l_tail = NULL, l_dup = l_dup l, l_free = l_free l, l_match = l_match l, l_len = 0\<rparr>"
  have c: "list_in ?c m [] (nodes m)" "same_methods l ?c"
    by (simp_all add: list_in_def list_rep_def same_methods_def)
  have l: "list_rep l \<lparr>nodes = nodes m, freed = freed m\<rparr> ([] @ xs)"
    using assms(1) by (simp add: list_rep_def)
  obtain r m' where r: "dup_loop zmalloc ?c (iter_head xs) m = Some (r, m')" "dup_result zmalloc ?c [] (nodes m) m xs r m'"
    using dup_loop_ok [OF c(1) l assms(2)] by blast
  have dup: "listDup True zmalloc l m = Some (r, m')"
    using r(1) by (simp add: listDup_def listCreate_def iter_start [OF assms(1)])
  have dv: "dup_value ?c = dup_value l" "l_free ?c = l_free l" by (simp_all add: dup_value_def fun_eq_iff)
  show ?thesis
  proof (cases r)
    case None
    then have "list_rep l m' xs"
      by (intro list_rep_frame [OF assms(1)]) (use r(2) in \<open>simp add: dup_result_def\<close>)
    then show ?thesis using dup r(2) None unfolding dup_result_def dv by auto
  next
    case (Some c')
    then obtain zs where zs: "freed m' = freed m" "same_methods ?c c'" "list_in c' m' zs (nodes m)"
      "map (Some \<circ> snd) zs = map (dup_value l \<circ> snd) xs"
      using r(2) unfolding dup_result_def dv by auto
    have "list_rep l m' xs"
      using list_in_other [OF zs(3), of l "freed m" xs] l by simp
    moreover have "same_methods l c'" using zs(2) by (simp add: same_methods_def)
    ultimately show ?thesis using dup zs Some by auto
  qed
qed

section \<open>Traversal, search, joining and releasing\<close>

text \<open>An iterator returns the nodes in order from either end and then \<open>NULL\<close>; deleting the node just returned
  leaves the iterator on the rest of the list; the search returns the first node that matches, by the match
  method or by equality; an index counts from the head or, when negative, from the tail, and is \<open>NULL\<close> out of
  range.\<close>

theorem list_traversal:
  assumes "list_rep l m xs"
  shows "next_calls (Suc (length xs)) m (listRewind l) = Some (map fst xs @ [NULL])
     \<and> next_calls (Suc (length xs)) m (listRewindTail l) = Some (map fst (rev xs) @ [NULL])
     \<and> listSearchKey l key m = Some (case find (\<lambda>x. node_matches l key (snd x)) xs of None \<Rightarrow> NULL | Some x \<Rightarrow> fst x)
     \<and> listIndex l i m = Some (case index_pos (length xs) i of None \<Rightarrow> NULL | Some k \<Rightarrow> fst (xs ! k))
     \<and> (\<forall>ys x zs. xs = ys @ x # zs \<longrightarrow> (\<exists>it l' m'. listNext m (iter_head (x # zs)) = Some (fst x, it)
          \<and> listDelNode l (fst x) m = Some (l', m') \<and> list_rep l' m' (ys @ zs) \<and> it = iter_head zs))"
proof (intro conjI allI impI)
  show "next_calls (Suc (length xs)) m (listRewind l) = Some (map fst xs @ [NULL])"
    using next_calls_head [of l m "[]" xs] assms by (simp add: iter_start [OF assms] del: next_calls.simps)
  show "next_calls (Suc (length xs)) m (listRewindTail l) = Some (map fst (rev xs) @ [NULL])"
    using next_calls_tail [of l m xs "[]"] assms by (simp add: iter_start [OF assms] del: next_calls.simps)
  show "listSearchKey l key m = Some (case find (\<lambda>x. node_matches l key (snd x)) xs of None \<Rightarrow> NULL | Some x \<Rightarrow> fst x)"
    using listSearchKey_ok [OF assms] by (simp add: found_addr_def)
  show "listIndex l i m = Some (case index_pos (length xs) i of None \<Rightarrow> NULL | Some k \<Rightarrow> fst (xs ! k))"
    using listIndex_ok [OF assms, of i] by (cases "index_pos (length xs) i") (simp_all add: found_addr_def)
  fix ys x zs
  assume "xs = ys @ x # zs"
  then show "\<exists>it l' m'. listNext m (iter_head (x # zs)) = Some (fst x, it)
       \<and> listDelNode l (fst x) m = Some (l', m') \<and> list_rep l' m' (ys @ zs) \<and> it = iter_head zs"
    using listNext_head [of l m ys x zs] listDelNode_ok [of l m ys x zs] assms by blast
qed

text \<open>Joining two lists appends the second to the first and leaves the second empty but usable; releasing
  the joined list frees exactly the nodes of both, each once, and hands every value to the free method in
  order.\<close>

theorem list_join_release:
  assumes "list_rep l m xs" "list_rep other m ys" "addrs xs \<inter> addrs ys = {}"
  shows "\<exists>l' other' m' m''. listJoin l other m = Some (l', other', m')
     \<and> list_rep l' m' (xs @ ys) \<and> list_rep other' m' [] \<and> unat (l_len l') = length xs + length ys
     \<and> listRelease l' m' = Some m''
     \<and> nodes m'' = (\<lambda>a. if a \<in> addrs xs \<union> addrs ys then None else nodes m a)
     \<and> freed m'' = freed m @ (if l_free l then map snd xs @ map snd ys else [])"
proof -
  obtain l' other' m' where j: "listJoin l other m = Some (l', other', m')" "list_rep l' m' (xs @ ys)" "list_rep other' m' []"
    "same_methods l l'" "untouched m m' (addrs (xs @ ys))"
    using listJoin_ok [OF assms] by blast
  show ?thesis
    using j listRelease_ok [OF j(2)] unat_l_len [OF j(2)]
    by (auto simp: untouched_def same_methods_def fun_eq_iff)
qed

section \<open>Examples\<close>

text \<open>An allocator of three nodes, and two lists.\<close>

definition pool :: "'v nodes \<Rightarrow> addr" where
  "pool h = (if h 1 = None then 1 else if h 2 = None then 2 else if h 3 = None then 3 else NULL)"

lemma allocator_pool: "allocator pool"
  by (simp add: allocator_def pool_def)

definition ex_list :: "nat adlist" where
  "ex_list = \<lparr>l_head = 1, l_tail = 2, l_dup = Some (\<lambda>v. if v = 20 then None else Some (v + 1)), l_free = True,
     l_match = None, l_len = 2\<rparr>"

definition ex_other :: "nat adlist" where
  "ex_other = \<lparr>l_head = 7, l_tail = 7, l_dup = None, l_free = True, l_match = None, l_len = 1\<rparr>"

definition ex_mem :: "nat mem" where
  "ex_mem = \<lparr>nodes = [1 \<mapsto> \<lparr>n_prev = NULL, n_next = 2, n_value = 10\<rparr>, 2 \<mapsto> \<lparr>n_prev = 1, n_next = NULL, n_value = 20\<rparr>,
      7 \<mapsto> \<lparr>n_prev = NULL, n_next = NULL, n_value = 70\<rparr>], freed = []\<rparr>"

lemmas ex_defs = ex_list_def ex_other_def ex_mem_def

lemma ex_list_rep: "list_rep ex_list ex_mem [(1, 10), (2, 20)]" "list_rep ex_other ex_mem [(7, 70)]"
  by (simp_all add: list_rep_def ex_defs)

theorem list_edits_refine_witness:
  "map_option fst (map_run (list_exec pool) [InsertAt (-1) 15 False, DelAt 0, DelAt 3, AddHead 7, AddTail 8] (ex_list, ex_mem))
     = Some [True, True, False, True, False]
   \<and> (\<exists>l' m' ys. map_option snd (map_run (list_exec pool) [InsertAt (-1) 15 False, DelAt 0, DelAt 3, AddHead 7, AddTail 8] (ex_list, ex_mem))
     = Some (l', m') \<and> list_rep l' m' ys \<and> map snd ys = [7, 15, 20] \<and> freed m' = [10])"
  (is "map_option fst ?r = _ \<and> _")
proof -
  have ev: "map_option fst ?r = Some [True, True, False, True, False]"
    by (simp add: ex_defs listIndex_def node_at_def listInsertNode_def listDelNode_def listUnlinkNode_def set_prev_def
        set_next_def zfree_def call_free_def new_node_def pool_def listAddNodeTail_def listAddNodeHead_def
        listLinkNodeTail_def listLinkNodeHead_def Let_def numeral_3_eq_3)
  obtain oks l' m' ys dead where r: "?r = Some (oks, l', m')"
    "explains (list_exec pool) (\<lambda>(l, m). pool (nodes m) \<noteq> NULL) list_spec list_allocates
       [InsertAt (-1) 15 False, DelAt 0, DelAt 3, AddHead 7, AddTail 8] oks (ex_list, ex_mem) ([10, 20], []) (map snd ys, dead)"
    "list_rep l' m' ys" "freed m' = freed ex_mem @ (if l_free ex_list then dead else [])"
    using list_edits_refine [OF ex_list_rep(1) allocator_pool, of "[InsertAt (-1) 15 False, DelAt 0, DelAt 3, AddHead 7, AddTail 8]"]
    by auto
  have "oks = [True, True, False, True, False]" using ev r(1) by simp
  then have "(map snd ys, dead) = ([7, 15, 20], [10])"
    using explains_outcome [OF r(2)] by (simp add: index_pos_def Let_def)
  then show ?thesis using ev r by (auto simp: ex_defs)
qed

theorem list_dup_correct_witness:
  "\<exists>m'. listDup True pool ex_list ex_mem = Some (None, m') \<and> nodes m' = nodes ex_mem \<and> list_rep ex_list m' [(1, 10), (2, 20)]"
proof -
  obtain r m' where r: "listDup True pool ex_list ex_mem = Some (r, m')" "list_rep ex_list m' [(1, 10), (2, 20)]"
    "case r of
        Some c \<Rightarrow> freed m' = freed ex_mem \<and> same_methods ex_list c
          \<and> (\<exists>zs. list_in c m' zs (nodes ex_mem) \<and> map (Some \<circ> snd) zs = map (dup_value ex_list \<circ> snd) [(1::addr, 10), (2, 20)])
      | None \<Rightarrow> nodes m' = nodes ex_mem
          \<and> (\<exists>k ws gone. dup_failed_at pool (l_free ex_list) (dup_value ex_list) [] (nodes ex_mem) (freed ex_mem)
               (map snd [(1::addr, 10), (2, 20)]) (freed m') k ws gone)"
    using list_dup_correct [OF ex_list_rep(1) allocator_pool] by blast
  have "dup_value ex_list 20 = None" by (simp add: dup_value_def ex_list_def)
  then show ?thesis using r by (cases r) auto
qed

theorem list_traversal_witness:
  "next_calls 3 ex_mem (listRewindTail ex_list) = Some [2, 1, NULL]
   \<and> listSearchKey ex_list 20 ex_mem = Some 2 \<and> listIndex ex_list (-2) ex_mem = Some 1"
  using list_traversal [OF ex_list_rep(1), of 20 "-2"]
  by (simp add: index_pos_def node_matches_def ex_list_def numeral_3_eq_3 del: next_calls.simps)

theorem list_join_release_witness:
  "\<exists>l' other' m' m''. listJoin ex_list ex_other ex_mem = Some (l', other', m')
     \<and> list_rep l' m' [(1, 10), (2, 20), (7, 70)] \<and> listRelease l' m' = Some m'' \<and> freed m'' = [10, 20, 70]"
  using list_join_release [OF ex_list_rep] by (auto simp: ex_defs)

end
