(* ===== verification/Lzf.thy ===== *)
theory Lzf
  imports Redis_Prelude "HOL-Library.Monad_Syntax"
begin

text \<open>
  The LZF compressor and decompressor of \<open>lzf_c.c\<close> and \<open>lzf_d.c\<close>, as configured by \<open>lzfP.h\<close>: a hash table
  of \<open>2^16\<close> pointers that is not initialised (\<open>INIT_HTAB\<close> is 0), \<open>VERY_FAST\<close>, unaligned 16 bit reads, the
  input of the decompressor checked.

  Pointers into the input and output are offsets.  A slot of the hash table holds whatever was in the memory of
  the stack: it is an arbitrary position relative to the start of the input, and the initial table is a
  parameter.  The result \<open>None\<close> is a read or a write outside the input or output buffer.
\<close>

section \<open>Buffers\<close>

definition rd :: "bytes \<Rightarrow> nat \<Rightarrow> u8 option" where
  "rd buf i = (if i < length buf then Some (buf ! i) else None)"

definition wr :: "bytes \<Rightarrow> nat \<Rightarrow> u8 \<Rightarrow> bytes option" where
  "wr buf i b = (if i < length buf then Some (buf[i := b]) else None)"

definition HLOG :: nat where "HLOG = 16"
definition MAX_LIT :: nat where "MAX_LIT = 2 ^ 5"
definition MAX_OFF :: int where "MAX_OFF = 2 ^ 13"
definition MAX_REF :: nat where "MAX_REF = 2 ^ 8 + 2 ^ 3"

section \<open>Compression\<close>

definition FRST :: "bytes \<Rightarrow> nat \<Rightarrow> 32 word option" where
  "FRST inp p = do { a \<leftarrow> rd inp p; b \<leftarrow> rd inp (p + 1); Some (push_bit 8 (ucast a) OR ucast b) }"

definition NEXT :: "bytes \<Rightarrow> 32 word \<Rightarrow> nat \<Rightarrow> 32 word option" where
  "NEXT inp v p = do { c \<leftarrow> rd inp (p + 2); Some (push_bit 8 v OR ucast c) }"

definition IDX :: "32 word \<Rightarrow> nat" where
  "IDX h = unat ((drop_bit (3 * 8 - HLOG) h - h * 5) AND (2 ^ HLOG - 1))"

record lzf =
  z_ip :: nat
  z_op :: nat
  z_lit :: nat
  z_hval :: "32 word"
  z_htab :: "nat \<Rightarrow> int"
  z_out :: bytes

text \<open>The test of a match at \<open>ref\<close>: the difference of the pointers, cast to \<open>size_t\<close>, is small only when \<open>ref\<close>
  is before \<open>ip\<close>.\<close>

definition lzf_is_match :: "bytes \<Rightarrow> nat \<Rightarrow> int \<Rightarrow> bool option" where
  "lzf_is_match inp ip ref =
     (let off = int ip - ref - 1 in
      if \<not> (0 \<le> off \<and> off < MAX_OFF \<and> ref > 0) then Some False
      else do {
        r2 \<leftarrow> rd inp (nat ref + 2); i2 \<leftarrow> rd inp (ip + 2);
        if r2 \<noteq> i2 then Some False
        else do {
          r0 \<leftarrow> rd inp (nat ref); r1 \<leftarrow> rd inp (nat ref + 1);
          i0 \<leftarrow> rd inp ip; i1 \<leftarrow> rd inp (ip + 1);
          Some (r0 = i0 \<and> r1 = i1) } })"

text \<open>The sixteen unrolled comparisons: whether a difference was found, and \<open>len\<close>.\<close>

fun lzf_unrolled :: "bytes \<Rightarrow> nat \<Rightarrow> nat \<Rightarrow> nat \<Rightarrow> nat \<Rightarrow> (bool \<times> nat) option" where
  "lzf_unrolled inp ref ip 0 len = Some (False, len)"
| "lzf_unrolled inp ref ip (Suc k) len = do {
     r \<leftarrow> rd inp (ref + (len + 1)); i \<leftarrow> rd inp (ip + (len + 1));
     if r \<noteq> i then Some (True, len + 1) else lzf_unrolled inp ref ip k (len + 1) }"

text \<open>\<open>do len++; while (len < maxlen && ref[len] == ip[len])\<close>.\<close>

function lzf_do_while :: "bytes \<Rightarrow> nat \<Rightarrow> nat \<Rightarrow> nat \<Rightarrow> nat \<Rightarrow> nat option" where
  "lzf_do_while inp ref ip maxlen len =
     (if len + 1 < maxlen then do {
        r \<leftarrow> rd inp (ref + (len + 1)); i \<leftarrow> rd inp (ip + (len + 1));
        if r = i then lzf_do_while inp ref ip maxlen (len + 1) else Some (len + 1) }
      else Some (len + 1))"
  by pat_completeness auto
termination by (relation "measure (\<lambda>(inp, ref, ip, maxlen, len). maxlen - len)") auto

declare lzf_do_while.simps [simp del]

definition lzf_match_len :: "bytes \<Rightarrow> nat \<Rightarrow> nat \<Rightarrow> nat \<Rightarrow> nat option" where
  "lzf_match_len inp ref ip maxlen = do {
     (differ, len) \<leftarrow> (if maxlen > 16 then lzf_unrolled inp ref ip 16 2 else Some (False, 2));
     if differ then Some len else lzf_do_while inp ref ip maxlen len }"

text \<open>\<open>op[-lit-1] = lit-1\<close>.\<close>

definition lzf_stop_run :: "nat \<Rightarrow> nat \<Rightarrow> bytes \<Rightarrow> bytes option" where
  "lzf_stop_run op lit out = (if op < lit + 1 then None else wr out (op - lit - 1) (of_nat lit - 1))"

text \<open>The two or three bytes of a back reference, \<open>len\<close> being the octets less one.\<close>

definition lzf_put_ref :: "nat \<Rightarrow> nat \<Rightarrow> nat \<Rightarrow> bytes \<Rightarrow> (nat \<times> bytes) option" where
  "lzf_put_ref off len op out = do {
     (op, out) \<leftarrow>
       (if len < 7 then do {
          out \<leftarrow> wr out op (of_nat (off div 2 ^ 8 + len * 2 ^ 5)); Some (op + 1, out) }
        else do {
          out \<leftarrow> wr out op (of_nat (off div 2 ^ 8 + 7 * 2 ^ 5));
          out \<leftarrow> wr out (op + 1) (of_nat (len - 7)); Some (op + 2, out) });
     out \<leftarrow> wr out op (of_nat off);
     Some (op + 1, out) }"

text \<open>The match branch; the boolean is \<open>return 0\<close>.  After a match the last two positions are hashed again.\<close>

definition lzf_match :: "bytes \<Rightarrow> nat \<Rightarrow> lzf \<Rightarrow> (bool \<times> lzf) option" where
  "lzf_match inp ref z =
     (let ip = z_ip z; op = z_op z; lit = z_lit z; in_end = length inp; out_end = length (z_out z);
          off = ip - ref - 1;
          maxlen = in_end - ip - 2;
          maxlen = (if maxlen > MAX_REF then MAX_REF else maxlen);
          undo = (if lit = 0 then 1 else 0) in
      if op + 3 + 1 \<ge> out_end \<and> op - undo + 3 + 1 \<ge> out_end then Some (True, z)
      else do {
        out \<leftarrow> lzf_stop_run op lit (z_out z);
        len \<leftarrow> lzf_match_len inp ref ip maxlen;
        (op, out) \<leftarrow> lzf_put_ref off (len - 2) (op - undo) out;
        let z = z\<lparr>z_ip := ip + (len - 2) + 2, z_op := op + 1, z_lit := 0, z_out := out\<rparr>;
        if z_ip z + 2 \<ge> in_end then Some (False, z)
        else do {
          let ip = z_ip z - 2;
          hval \<leftarrow> FRST inp ip;
          hval \<leftarrow> NEXT inp hval ip;
          let htab = (z_htab z)(IDX hval := int ip);
          hval \<leftarrow> NEXT inp hval (ip + 1);
          let htab = htab(IDX hval := int (ip + 1));
          Some (False, z\<lparr>z_hval := hval, z_htab := htab\<rparr>) } })"

text \<open>One literal byte, with the end of a full run.\<close>

definition lzf_literal :: "bytes \<Rightarrow> lzf \<Rightarrow> lzf option" where
  "lzf_literal inp z = do {
     b \<leftarrow> rd inp (z_ip z);
     out \<leftarrow> wr (z_out z) (z_op z) b;
     let lit = z_lit z + 1;
     let op = z_op z + 1;
     let z = z\<lparr>z_ip := z_ip z + 1\<rparr>;
     if lit = MAX_LIT then do {
       out \<leftarrow> lzf_stop_run op lit out;
       Some (z\<lparr>z_op := op + 1, z_lit := 0, z_out := out\<rparr>) }
     else Some (z\<lparr>z_op := op, z_lit := lit, z_out := out\<rparr>) }"

definition lzf_step :: "bytes \<Rightarrow> lzf \<Rightarrow> (bool \<times> lzf) option" where
  "lzf_step inp z = do {
     hval \<leftarrow> NEXT inp (z_hval z) (z_ip z);
     let ref = z_htab z (IDX hval);
     let z = z\<lparr>z_hval := hval, z_htab := (z_htab z)(IDX hval := int (z_ip z))\<rparr>;
     m \<leftarrow> lzf_is_match inp (z_ip z) ref;
     if m then lzf_match inp (nat ref) z
     else if z_op z \<ge> length (z_out z) then Some (True, z)
     else map_option (Pair False) (lzf_literal inp z) }"

partial_function (option) lzf_loop :: "bytes \<Rightarrow> lzf \<Rightarrow> (bool \<times> lzf) option" where
  "lzf_loop inp z =
     (if z_ip z + 2 < length inp then
        Option.bind (lzf_step inp z) (\<lambda>(ret, z). if ret then Some (True, z) else lzf_loop inp z)
      else Some (False, z))"

partial_function (option) lzf_tail :: "bytes \<Rightarrow> lzf \<Rightarrow> lzf option" where
  "lzf_tail inp z =
     (if z_ip z < length inp then Option.bind (lzf_literal inp z) (\<lambda>z. lzf_tail inp z) else Some z)"

text \<open>The bytes written, 0 when they do not fit, and the output buffer.\<close>

definition lzf_compress :: "(nat \<Rightarrow> int) \<Rightarrow> bytes \<Rightarrow> bytes \<Rightarrow> (nat \<times> bytes) option" where
  "lzf_compress htab inp out =
     (if inp = [] \<or> out = [] then Some (0, out)
      else do {
        hval \<leftarrow> FRST inp 0;
        (ret, z) \<leftarrow> lzf_loop inp \<lparr>z_ip = 0, z_op = 1, z_lit = 0, z_hval = hval, z_htab = htab, z_out = out\<rparr>;
        if ret \<or> z_op z + 3 > length (z_out z) then Some (0, z_out z)
        else do {
          z \<leftarrow> lzf_tail inp z;
          out \<leftarrow> lzf_stop_run (z_op z) (z_lit z) (z_out z);
          Some (z_op z - (if z_lit z = 0 then 1 else 0), out) } })"

section \<open>Decompression\<close>

datatype lzf_errno = E2BIG | EINVAL

fun lzf_copy :: "nat \<Rightarrow> nat \<Rightarrow> nat \<Rightarrow> bytes \<Rightarrow> bytes option" where
  "lzf_copy op ref 0 out = Some out"
| "lzf_copy op ref (Suc len) out = do {
     b \<leftarrow> rd out ref;
     out \<leftarrow> wr out op b;
     lzf_copy (op + 1) (ref + 1) len out }"

definition lzf_memcpy :: "nat \<Rightarrow> bytes \<Rightarrow> nat \<Rightarrow> nat \<Rightarrow> bytes \<Rightarrow> bytes option" where
  "lzf_memcpy op src p len out =
     (if p + len \<le> length src \<and> op + len \<le> length out then Some (blit op (slice p len src) out) else None)"

text \<open>A literal run, of \<open>ctrl + 1\<close> octets.\<close>

definition lzf_put_literal :: "bytes \<Rightarrow> nat \<Rightarrow> nat \<Rightarrow> nat \<Rightarrow> bytes \<Rightarrow> (lzf_errno + nat \<times> nat \<times> bytes) option" where
  "lzf_put_literal inp ip op ctrl out =
     (let ctrl = ctrl + 1 in
      if op + ctrl > length out then Some (Inl E2BIG)
      else if ip + ctrl > length inp then Some (Inl EINVAL)
      else do { out \<leftarrow> lzf_memcpy op inp ip ctrl out; Some (Inr (ip + ctrl, op + ctrl, out)) })"

text \<open>The octets of a back reference: disjoint areas longer than eleven octets are copied by \<open>memcpy\<close>, others
  octet by octet.\<close>

definition lzf_copy_ref :: "nat \<Rightarrow> nat \<Rightarrow> nat \<Rightarrow> bytes \<Rightarrow> bytes option" where
  "lzf_copy_ref op ref len out =
     (if len > 9 \<and> op \<ge> ref + (len + 2) then lzf_memcpy op out ref (len + 2) out else lzf_copy op ref (len + 2) out)"

definition lzf_put_backref :: "bytes \<Rightarrow> nat \<Rightarrow> nat \<Rightarrow> nat \<Rightarrow> bytes \<Rightarrow> (lzf_errno + nat \<times> nat \<times> bytes) option" where
  "lzf_put_backref inp ip op ctrl out =
     (let len = ctrl div 2 ^ 5; ref = int op - int (ctrl mod 2 ^ 5 * 2 ^ 8) - 1 in
      if ip \<ge> length inp then Some (Inl EINVAL)
      else do {
        (bad, ip, len) \<leftarrow>
          (if len = 7 then do {
             b \<leftarrow> rd inp ip;
             Some (ip + 1 \<ge> length inp, ip + 1, len + unat b) }
           else Some (False, ip, len));
        if bad then Some (Inl EINVAL)
        else do {
          b \<leftarrow> rd inp ip;
          let ip = ip + 1;
          let ref = ref - int (unat b);
          if op + len + 2 > length out then Some (Inl E2BIG)
          else if ref < 0 then Some (Inl EINVAL)
          else do {
            out \<leftarrow> lzf_copy_ref op (nat ref) len out;
            Some (Inr (ip, op + len + 2, out)) } } })"

partial_function (option) lzf_decompress_loop :: "bytes \<Rightarrow> nat \<Rightarrow> nat \<Rightarrow> bytes \<Rightarrow> (lzf_errno + nat \<times> bytes) option" where
  "lzf_decompress_loop inp ip op out =
     (if ip < length inp then
        Option.bind (rd inp ip) (\<lambda>b.
          Option.bind (if unat b < 2 ^ 5 then lzf_put_literal inp (ip + 1) op (unat b) out
                       else lzf_put_backref inp (ip + 1) op (unat b) out) (\<lambda>r.
            case r of
              Inl e \<Rightarrow> Some (Inl e)
            | Inr (ip, op, out) \<Rightarrow> lzf_decompress_loop inp ip op out))
      else Some (Inr (op, out)))"

text \<open>\<open>Inl\<close> is the result 0 with \<open>errno\<close> set.\<close>

definition lzf_decompress :: "bytes \<Rightarrow> bytes \<Rightarrow> (lzf_errno + nat \<times> bytes) option" where
  "lzf_decompress inp out = lzf_decompress_loop inp 0 0 out"

end
