(* ===== verification/Lzf_Props.thy ===== *)
theory Lzf_Props
  imports Lzf
begin

text \<open>
  What \<open>lzf_compress\<close> writes, \<open>lzf_decompress\<close> reads back, and neither leaves its buffers.  The relation
  \<open>decodes\<close> is the data format: complete tokens and the text they stand for.
\<close>

section \<open>The format\<close>

text \<open>\<open>extends ps off qs\<close>: every octet of \<open>qs\<close> after \<open>ps\<close> is the one \<open>off + 1\<close> places before it.\<close>

definition extends :: "bytes \<Rightarrow> nat \<Rightarrow> bytes \<Rightarrow> bool" where
  "extends ps off qs \<longleftrightarrow> off < length ps \<and> (\<forall>i < length qs. qs ! i = (ps @ qs) ! (length ps + i - off - 1))"

definition ref_token :: "nat \<Rightarrow> nat \<Rightarrow> bytes" where
  "ref_token off len =
     (if len < 7 then [of_nat (off div 256 + len * 32)] else [of_nat (off div 256 + 224), of_nat (len - 7)]) @ [of_nat off]"

inductive decodes :: "bytes \<Rightarrow> bytes \<Rightarrow> bool" where
  decodes_Nil: "decodes [] []"
| decodes_literal: "decodes cs ps \<Longrightarrow> 0 < length bs \<Longrightarrow> length bs \<le> 32 \<Longrightarrow> decodes (cs @ of_nat (length bs - 1) # bs) (ps @ bs)"
| decodes_ref: "decodes cs ps \<Longrightarrow> off < 8192 \<Longrightarrow> 3 \<le> length qs \<Longrightarrow> length qs \<le> 264 \<Longrightarrow> extends ps off qs \<Longrightarrow>
    decodes (cs @ ref_token off (length qs - 2)) (ps @ qs)"

section \<open>Decompression of tokens\<close>

lemma rd_append [simp]: "rd (xs @ b # ys) (length xs) = Some b"
  by (simp add: rd_def)

lemma length_copy: "lzf_copy op ref len out = Some out' \<Longrightarrow> length out' = length out"
  by (induction len arbitrary: op ref out) (auto simp: wr_def split: Option.bind_splits if_splits)

lemma take_Suc_update: "take (Suc (length ps)) out = ps @ [b]" if "take (length ps) out0 = ps" "length ps < length out0" "out = out0[length ps := b]"
  using that by (simp add: take_Suc_conv_app_nth)

lemma copy_extends:
  assumes "take (length ps) out = ps" "length ps + length qs \<le> length out" "extends ps off qs"
  shows "\<exists>out'. lzf_copy (length ps) (length ps - off - 1) (length qs) out = Some out' \<and> length out' = length out
     \<and> take (length ps + length qs) out' = ps @ qs"
  using assms
proof (induction qs arbitrary: ps out)
  case (Cons q qs)
  have off: "off < length ps" using Cons.prems(3) by (simp add: extends_def)
  then have lt: "length ps - Suc off < length ps" by linarith
  have "q = (ps @ q # qs) ! (length ps + 0 - off - 1)"
    using Cons.prems(3) unfolding extends_def by (metis length_Cons nth_Cons_0 zero_less_Suc)
  then have q: "q = ps ! (length ps - off - 1)" using lt by (simp add: nth_append)
  have r: "rd out (length ps - off - 1) = Some q"
  proof -
    have "out ! (length ps - off - 1) = take (length ps) out ! (length ps - off - 1)" using off by simp
    then show ?thesis using Cons.prems(1,2) q by (simp add: rd_def)
  qed
  let ?out = "out[length ps := q]"
  have t: "take (length (ps @ [q])) ?out = ps @ [q]"
    using Cons.prems(1,2) by (simp add: take_Suc_conv_app_nth)
  have "qs ! i = ((ps @ [q]) @ qs) ! (length (ps @ [q]) + i - off - 1)" if "i < length qs" for i
    using Cons.prems(3) that unfolding extends_def by (auto dest!: spec [of _ "Suc i"])
  then have "extends (ps @ [q]) off qs" using off by (simp add: extends_def)
  then obtain out' where "lzf_copy (length (ps @ [q])) (length (ps @ [q]) - off - 1) (length qs) ?out = Some out'"
    "length out' = length ?out" "take (length (ps @ [q]) + length qs) out' = (ps @ [q]) @ qs"
    using Cons.IH [OF t] Cons.prems(2) by auto
  moreover have "length (ps @ [q]) - off - 1 = length ps - off - 1 + 1" using off by simp
  ultimately show ?case using r Cons.prems(2) by (simp add: wr_def)
qed simp

lemma memcpy_extends:
  assumes "take (length ps) out = ps" "length ps + length qs \<le> length out" "extends ps off qs" "length qs \<le> off + 1"
  shows "\<exists>out'. lzf_memcpy (length ps) out (length ps - off - 1) (length qs) out = Some out' \<and> length out' = length out
     \<and> take (length ps + length qs) out' = ps @ qs"
proof -
  have off: "off < length ps" using assms(3) by (simp add: extends_def)
  have "slice (length ps - off - 1) (length qs) out = qs"
  proof (rule nth_equalityI)
    show "length (slice (length ps - off - 1) (length qs) out) = length qs" using assms(2) off by simp
    fix i assume "i < length (slice (length ps - off - 1) (length qs) out)"
    then have i: "i < length qs" by simp
    have j: "length ps + i - off - 1 < length ps" using i assms(4) off by linarith
    have "qs ! i = (ps @ qs) ! (length ps + i - off - 1)" using assms(3) i by (simp add: extends_def)
    also have "\<dots> = ps ! (length ps + i - off - 1)" using j by (simp add: nth_append)
    also have "\<dots> = out ! (length ps + i - off - 1)"
      using arg_cong [OF assms(1), of "\<lambda>xs. xs ! (length ps + i - off - 1)"] j by simp
    finally show "slice (length ps - off - 1) (length qs) out ! i = qs ! i"
      using i assms(2) off by (simp add: slice_def)
  qed
  then show ?thesis
    using assms(1,2) off by (simp add: lzf_memcpy_def blit_def)
qed

lemma literal_token:
  assumes "take (length ps) out = ps" "length ps + length bs \<le> length out" "0 < length bs"
  shows "\<exists>out'. lzf_put_literal (cs @ of_nat (length bs - 1) # bs @ rest) (length cs + 1) (length ps) (length bs - 1) out
      = Some (Inr (length cs + 1 + length bs, length ps + length bs, out')) \<and> length out' = length out \<and> take (length ps + length bs) out' = ps @ bs"
  using assms by (auto simp: lzf_put_literal_def lzf_memcpy_def Let_def slice_def blit_def)

lemma byte_field: "unat (of_nat n :: u8) = n" if "n < 256"
  using that by (simp add: unat_of_nat)

lemma ref_token_read:
  assumes "off < 8192" "1 \<le> len" "len \<le> 262"
  shows "\<exists>b bs. ref_token off len = b # bs \<and> 32 \<le> unat b \<and> unat b mod 32 = off div 256
     \<and> (if len < 7 then unat b div 32 = len \<and> bs = [of_nat off] else unat b div 32 = 7 \<and> bs = [of_nat (len - 7), of_nat off])"
proof -
  have hi: "off div 256 < 32" using assms(1) by simp
  show ?thesis
  proof (cases "len < 7")
    case True
    then have "off div 256 + len * 32 < 256" using hi by simp
    then have u: "unat (of_nat (off div 256 + len * 32) :: u8) = off div 256 + len * 32" by (rule byte_field)
    have t: "ref_token off len = of_nat (off div 256 + len * 32) # [of_nat off]" using True by (simp add: ref_token_def)
    show ?thesis unfolding t using True hi assms(2) u by simp
  next
    case False
    then have "off div 256 + 224 < 256" using hi by simp
    then have u: "unat (of_nat (off div 256 + 224) :: u8) = off div 256 + 224" by (rule byte_field)
    have t: "ref_token off len = of_nat (off div 256 + 224) # [of_nat (len - 7), of_nat off]" using False by (simp add: ref_token_def)
    have "(h + 7 * 32) mod 32 = h" "(h + 7 * 32) div 32 = 7" if "h < 32" for h :: nat
      using that div_mult_self1 [of 32 h 7] mod_mult_self1 [of h 7 32] by simp_all
    from this [OF hi] show ?thesis unfolding t using False u by simp
  qed
qed

lemma put_backref_short:
  assumes "ctrl div 32 \<noteq> 7" "ip < length inp" "op + ctrl div 32 + 2 \<le> length out"
    and "int op - int (ctrl mod 32 * 256) - 1 - int (unat (inp ! ip)) = int ref"
  shows "lzf_put_backref inp ip op ctrl out =
     map_option (\<lambda>out. Inr (ip + 1, op + ctrl div 32 + 2, out)) (lzf_copy_ref op ref (ctrl div 32) out)"
  using assms by (simp add: lzf_put_backref_def rd_def Let_def del: of_nat_unat) (simp add: map_option_case split: Option.bind_splits option.splits)

lemma put_backref_long:
  assumes "ctrl div 32 = 7" "ip + 1 < length inp" "op + (7 + unat (inp ! ip)) + 2 \<le> length out"
    and "int op - int (ctrl mod 32 * 256) - 1 - int (unat (inp ! (ip + 1))) = int ref"
  shows "lzf_put_backref inp ip op ctrl out =
     map_option (\<lambda>out. Inr (ip + 2, op + (7 + unat (inp ! ip)) + 2, out)) (lzf_copy_ref op ref (7 + unat (inp ! ip)) out)"
  using assms by (simp add: lzf_put_backref_def rd_def Let_def del: of_nat_unat) (simp add: map_option_case split: Option.bind_splits option.splits)

lemma copy_ref_extends:
  assumes "take (length ps) out = ps" "length ps + length qs \<le> length out" "extends ps off qs" "2 \<le> length qs"
  shows "\<exists>out'. lzf_copy_ref (length ps) (length ps - off - 1) (length qs - 2) out = Some out' \<and> length out' = length out
     \<and> take (length ps + length qs) out' = ps @ qs"
proof -
  have off: "off < length ps" using assms(3) by (simp add: extends_def)
  have l: "length qs - 2 + 2 = length qs" using assms(4) by simp
  show ?thesis
  proof (cases "length qs - 2 > 9 \<and> length ps \<ge> length ps - off - 1 + length qs")
    case True
    then have "length qs \<le> off + 1" using off by linarith
    from memcpy_extends [OF assms(1-3) this] show ?thesis unfolding lzf_copy_ref_def l if_P [OF True] .
  next
    case False
    from copy_extends [OF assms(1-3)] show ?thesis unfolding lzf_copy_ref_def l if_not_P [OF False] .
  qed
qed

lemma backref_token:
  assumes out: "take (length ps) out = ps" "length ps + length qs \<le> length out"
    and t: "off < 8192" "3 \<le> length qs" "length qs \<le> 264" "extends ps off qs"
    and b: "ref_token off (length qs - 2) = b # bs"
  shows "\<exists>out'. lzf_put_backref (cs @ b # bs @ rest) (length cs + 1) (length ps) (unat b) out
      = Some (Inr (length cs + 1 + length bs, length ps + length qs, out')) \<and> length out' = length out
     \<and> take (length ps + length qs) out' = ps @ qs \<and> 32 \<le> unat b"
proof -
  have l: "1 \<le> length qs - 2" "length qs - 2 \<le> 262" using t by simp_all
  have bb: "32 \<le> unat b" "unat b mod 32 = off div 256"
    "if length qs - 2 < 7 then unat b div 32 = length qs - 2 \<and> bs = [of_nat off] else unat b div 32 = 7 \<and> bs = [of_nat (length qs - 2 - 7), of_nat off]"
    using ref_token_read [OF t(1) l] b by auto
  have off: "off < length ps" using t(4) by (simp add: extends_def)
  have lo: "unat (of_nat off :: u8) = off mod 256" by simp
  have "off div 256 * 256 + off mod 256 = off" by simp
  then have ref: "int (length ps) - int (unat b mod 32 * 256) - 1 - int (unat (of_nat off :: u8)) = int (length ps - off - 1)"
    unfolding bb(2) lo using off by linarith
  obtain out' where o: "lzf_copy_ref (length ps) (length ps - off - 1) (length qs - 2) out = Some out'" "length out' = length out"
    "take (length ps + length qs) out' = ps @ qs"
    using copy_ref_extends [OF out t(4)] t(2) by auto
  let ?inp = "cs @ b # bs @ rest"
  have lq: "length ps + (length qs - 2) + 2 = length ps + length qs" using t(2) by simp
  show ?thesis
  proof (cases "length qs - 2 < 7")
    case True
    then have bs: "bs = [of_nat off]" "unat b div 32 = length qs - 2" using bb(3) by auto
    have i: "?inp ! (length cs + 1) = of_nat off" "length cs + 1 < length ?inp" using bs(1) by (simp_all add: nth_append)
    have "unat b div 32 \<noteq> 7" using True bs(2) by simp
    from put_backref_short [OF this i(2), of "length ps" out "length ps - off - 1"] ref show ?thesis
      unfolding i(1) bs(2) lq using out(2) o bb(1) bs(1) by simp
  next
    case False
    then have bs: "bs = [of_nat (length qs - 2 - 7), of_nat off]" "unat b div 32 = 7" using bb(3) by auto
    have u: "unat (of_nat (length qs - 2 - 7) :: u8) = length qs - 2 - 7" using l by (intro byte_field) simp
    have i: "?inp ! (length cs + 1) = of_nat (length qs - 2 - 7)" "?inp ! (length cs + 1 + 1) = of_nat off" "length cs + 1 + 1 < length ?inp"
      using bs(1) by (simp_all add: nth_append)
    have "7 + (length qs - 2 - 7) = length qs - 2" using False by simp
    with put_backref_long [OF bs(2) i(3), of "length ps" out "length ps - off - 1"] ref show ?thesis
      unfolding i(1,2) u using lq out(2) o bb(1) bs(1) by simp
  qed
qed

text \<open>The loop goes through complete tokens and produces their text.\<close>

lemma decompress_tokens:
  assumes "decodes cs ps" "length ps \<le> length out"
  shows "\<exists>out'. lzf_decompress_loop (cs @ rest) 0 0 out = lzf_decompress_loop (cs @ rest) (length cs) (length ps) out'
     \<and> length out' = length out \<and> take (length ps) out' = ps"
  using assms
proof (induction arbitrary: rest)
  case decodes_Nil
  show ?case by auto
next
  case (decodes_literal cs ps bs)
  obtain out1 where o1: "lzf_decompress_loop (cs @ (of_nat (length bs - 1) # bs @ rest)) 0 0 out
      = lzf_decompress_loop (cs @ (of_nat (length bs - 1) # bs @ rest)) (length cs) (length ps) out1"
    "length out1 = length out" "take (length ps) out1 = ps"
    using decodes_literal.IH [of "of_nat (length bs - 1) # bs @ rest"] decodes_literal.prems by auto
  have u: "unat (of_nat (length bs - 1) :: u8) = length bs - 1"
    using decodes_literal.hyps(3) by (intro byte_field) simp
  obtain out' where o2: "lzf_put_literal (cs @ of_nat (length bs - 1) # bs @ rest) (length cs + 1) (length ps) (length bs - 1) out1
      = Some (Inr (length cs + 1 + length bs, length ps + length bs, out'))" "length out' = length out1" "take (length ps + length bs) out' = ps @ bs"
    using literal_token [OF o1(3), of bs cs rest] decodes_literal.prems decodes_literal.hyps(2) o1(2) by auto
  have "length bs - 1 < 32" using decodes_literal.hyps(2,3) by linarith
  then have "lzf_decompress_loop (cs @ (of_nat (length bs - 1) # bs @ rest)) (length cs) (length ps) out1
      = lzf_decompress_loop (cs @ (of_nat (length bs - 1) # bs @ rest)) (length cs + 1 + length bs) (length ps + length bs) out'"
    using o2(1) u by (subst lzf_decompress_loop.simps) simp
  then show ?case using o1 o2 by (intro exI [of _ out']) simp
next
  case (decodes_ref cs ps off qs)
  have l: "1 \<le> length qs - 2" "length qs - 2 \<le> 262" using decodes_ref.hyps by simp_all
  obtain b bs where b: "ref_token off (length qs - 2) = b # bs" using ref_token_read [OF decodes_ref.hyps(2) l] by blast
  obtain out1 where o1: "lzf_decompress_loop (cs @ (b # bs @ rest)) 0 0 out
      = lzf_decompress_loop (cs @ (b # bs @ rest)) (length cs) (length ps) out1"
    "length out1 = length out" "take (length ps) out1 = ps"
    using decodes_ref.IH [of "b # bs @ rest"] decodes_ref.prems by auto
  obtain out' where o2: "lzf_put_backref (cs @ b # bs @ rest) (length cs + 1) (length ps) (unat b) out1
      = Some (Inr (length cs + 1 + length bs, length ps + length qs, out'))" "length out' = length out1"
     "take (length ps + length qs) out' = ps @ qs" "32 \<le> unat b"
    using backref_token [OF o1(3) _ decodes_ref.hyps(2-5) b, of cs rest] decodes_ref.prems o1(2) by auto
  have "lzf_decompress_loop (cs @ (b # bs @ rest)) (length cs) (length ps) out1
      = lzf_decompress_loop (cs @ (b # bs @ rest)) (length cs + 1 + length bs) (length ps + length qs) out'"
    using o2(1,4) by (subst lzf_decompress_loop.simps) simp
  then show ?case using o1 o2 b by (intro exI [of _ out']) simp
qed

lemma decompress_ok:
  assumes "decodes cs ps" "length ps \<le> length out"
  shows "\<exists>out'. lzf_decompress cs out = Some (Inr (length ps, out')) \<and> length out' = length out \<and> take (length ps) out' = ps"
  using decompress_tokens [OF assms, of "[]"] by (auto simp: lzf_decompress_def lzf_decompress_loop.simps [of cs "length cs"])

section \<open>Compression\<close>

lemma rd_Some [simp]: "i < length buf \<Longrightarrow> rd buf i = Some (buf ! i)"
  by (simp add: rd_def)

lemma wr_Some [simp]: "i < length buf \<Longrightarrow> wr buf i b = Some (buf[i := b])"
  by (simp add: wr_def)

text \<open>\<open>agree inp ref ip n\<close>: the \<open>n\<close> octets at \<open>ref\<close> and at \<open>ip\<close> are the same.\<close>

definition agree :: "bytes \<Rightarrow> nat \<Rightarrow> nat \<Rightarrow> nat \<Rightarrow> bool" where
  "agree inp ref ip n \<longleftrightarrow> (\<forall>i < n. inp ! (ref + i) = inp ! (ip + i))"

lemma agree_Suc: "agree inp ref ip (Suc n) \<longleftrightarrow> agree inp ref ip n \<and> inp ! (ref + n) = inp ! (ip + n)"
  by (auto simp: agree_def less_Suc_eq)

lemma agree_3: "agree inp ref ip 3 \<longleftrightarrow> inp ! ref = inp ! ip \<and> inp ! (ref + 1) = inp ! (ip + 1) \<and> inp ! (ref + 2) = inp ! (ip + 2)"
  by (auto simp: agree_def less_Suc_eq numeral_3_eq_3 numeral_2_eq_2)

lemma is_match_ok:
  assumes "ip + 2 < length inp"
  shows "\<exists>m. lzf_is_match inp ip ref = Some m
     \<and> (m \<longrightarrow> 0 < nat ref \<and> nat ref < ip \<and> ip - nat ref - 1 < 8192 \<and> agree inp (nat ref) ip 3)"
proof (cases "0 \<le> int ip - ref - 1 \<and> int ip - ref - 1 < MAX_OFF \<and> ref > 0")
  case True
  then have "nat ref < ip" "nat ref + 2 < length inp" "ip - nat ref - 1 < 8192"
    using assms by (auto simp: MAX_OFF_def nat_less_iff)
  then show ?thesis using True assms by (auto simp: lzf_is_match_def Let_def agree_3)
next
  case False
  then show ?thesis by (auto simp: lzf_is_match_def Let_def)
qed

lemma unrolled_ok:
  assumes "ref < ip"
  shows "ip + len + k < length inp \<Longrightarrow> agree inp ref ip (Suc len) \<Longrightarrow>
     \<exists>d len'. lzf_unrolled inp ref ip k len = Some (d, len') \<and> len \<le> len' \<and> len' \<le> len + k
       \<and> (if d then len < len' \<and> agree inp ref ip len' else len' = len + k \<and> agree inp ref ip (Suc len'))"
proof (induction k arbitrary: len)
  case (Suc k)
  have r: "rd inp (ref + (len + 1)) = Some (inp ! (ref + (len + 1)))" "rd inp (ip + (len + 1)) = Some (inp ! (ip + (len + 1)))"
    using Suc.prems(1) assms by simp_all
  show ?case
  proof (cases "inp ! (ref + (len + 1)) = inp ! (ip + (len + 1))")
    case True
    then have "agree inp ref ip (Suc (len + 1))" using Suc.prems(2) by (simp add: agree_Suc)
    from Suc.IH [OF _ this] Suc.prems(1) show ?thesis using True r by fastforce
  next
    case False
    then show ?thesis using r Suc.prems(2) by (intro exI [of _ True] exI [of _ "len + 1"]) simp
  qed
qed auto

lemma do_while_ok:
  assumes "ref < ip" "ip + maxlen \<le> length inp"
  shows "agree inp ref ip (Suc len) \<Longrightarrow>
     \<exists>len'. lzf_do_while inp ref ip maxlen len = Some len' \<and> len < len' \<and> len' \<le> max maxlen (len + 1) \<and> agree inp ref ip len'"
proof (induction "maxlen - len" arbitrary: len)
  case 0
  then show ?case by (subst lzf_do_while.simps) simp
next
  case (Suc k)
  show ?case
  proof (cases "len + 1 < maxlen")
    case True
    then have r: "rd inp (ref + (len + 1)) = Some (inp ! (ref + (len + 1)))" "rd inp (ip + (len + 1)) = Some (inp ! (ip + (len + 1)))"
      using assms by simp_all
    show ?thesis
    proof (cases "inp ! (ref + (len + 1)) = inp ! (ip + (len + 1))")
      case eq: True
      then have "agree inp ref ip (Suc (len + 1))" using Suc.prems by (simp add: agree_Suc)
      moreover have "k = maxlen - (len + 1)" using Suc.hyps(2) by simp
      ultimately obtain len' where l: "lzf_do_while inp ref ip maxlen (len + 1) = Some len'" "len + 1 < len'" "len' \<le> max maxlen (len + 1 + 1)"
        "agree inp ref ip len'"
        using Suc.hyps(1) [of "len + 1"] by blast
      have "lzf_do_while inp ref ip maxlen len = Some len'"
        using True r eq l(1) by (subst lzf_do_while.simps) simp
      then show ?thesis using l True by auto
    next
      case False
      then have "lzf_do_while inp ref ip maxlen len = Some (len + 1)"
        using True r by (subst lzf_do_while.simps) simp
      then show ?thesis using Suc.prems by simp
    qed
  next
    case False
    then have "lzf_do_while inp ref ip maxlen len = Some (len + 1)" by (subst lzf_do_while.simps) simp
    then show ?thesis using Suc.prems by simp
  qed
qed

lemma match_len_ok:
  assumes "ref < ip" "ip + 2 < length inp" "agree inp ref ip 3" and m: "maxlen = min (length inp - ip - 2) 264"
  shows "\<exists>len. lzf_match_len inp ref ip maxlen = Some len \<and> 3 \<le> len \<and> len \<le> 264 \<and> ip + len \<le> length inp \<and> agree inp ref ip len"
proof -
  have a: "agree inp ref ip (Suc 2)" using assms(3) by (simp add: numeral_3_eq_3)
  have im: "ip + maxlen \<le> length inp" "ip + maxlen + 2 \<le> length inp" using assms(2) m by auto
  show ?thesis
  proof (cases "maxlen > 16")
    case True
    then have "ip + 2 + 16 < length inp" using im by simp
    from unrolled_ok [OF assms(1) this a] obtain d len where
      u0: "lzf_unrolled inp ref ip 16 2 = Some (d, len)" "2 \<le> len" "len \<le> 2 + 16"
        "if d then 2 < len \<and> agree inp ref ip len else len = 2 + 16 \<and> agree inp ref ip (Suc len)"
      by (elim exE conjE) (rule that)
    have e: "(2::nat) + 16 = 18" by simp
    note u = u0 [unfolded e]
    show ?thesis
    proof (cases d)
      case True
      then show ?thesis using u \<open>maxlen > 16\<close> im by (simp add: lzf_match_len_def)
    next
      case False
      then obtain len' where w: "lzf_do_while inp ref ip maxlen len = Some len'" "len < len'" "len' \<le> max maxlen (len + 1)" "agree inp ref ip len'"
        using do_while_ok [OF assms(1) im(1), of len] u(4) by auto
      have "len' \<le> max maxlen 19" using w(3) False u(4) by simp
      then have "ip + len' \<le> length inp" "len' \<le> 264" using im True m by linarith+
      then show ?thesis using u False w True by (simp add: lzf_match_len_def)
    qed
  next
    case False
    obtain len' where w: "lzf_do_while inp ref ip maxlen 2 = Some len'" "2 < len'" "len' \<le> max maxlen 3" "agree inp ref ip len'"
      using do_while_ok [OF assms(1) im(1) a] by auto
    then have "ip + len' \<le> length inp" "len' \<le> 264" using im False assms(2) by linarith+
    then show ?thesis using w False by (simp add: lzf_match_len_def)
  qed
qed

text \<open>A run: the last \<open>lit\<close> octets before \<open>op\<close> are the last of the input read, their control octet comes before them,
  and what is before that decodes to the input before the run.\<close>

definition run_ok :: "bytes \<Rightarrow> bytes \<Rightarrow> nat \<Rightarrow> nat \<Rightarrow> nat \<Rightarrow> bool" where
  "run_ok inp out ip op lit \<longleftrightarrow> lit \<le> 32 \<and> lit \<le> ip \<and> ip \<le> length inp \<and> lit + 1 \<le> op \<and> op \<le> length out + 1 \<and> (0 < lit \<longrightarrow> op \<le> length out)
     \<and> slice (op - lit) lit out = slice (ip - lit) lit inp \<and> decodes (take (op - lit - 1) out) (take (ip - lit) inp)"

lemma slice_snoc: "i + n < length xs \<Longrightarrow> slice i (Suc n) xs = slice i n xs @ [xs ! (i + n)]"
  by (simp add: slice_def take_Suc_conv_app_nth)

lemma slice_update: "i + n \<le> k \<Longrightarrow> slice i n (xs[k := b]) = slice i n xs"
  by (simp add: slice_def drop_update_swap take_update_cancel)

lemma run_literal:
  assumes "run_ok inp out ip op lit" "lit < 32" "ip < length inp" "op < length out"
  shows "run_ok inp (out[op := inp ! ip]) (ip + 1) (op + 1) (lit + 1)"
proof -
  have le: "lit \<le> ip" "lit + 1 \<le> op" using assms(1) by (simp_all add: run_ok_def)
  have "slice (op - lit) (Suc lit) (out[op := inp ! ip]) = slice (op - lit) lit out @ [inp ! ip]"
    using slice_snoc [of "op - lit" lit "out[op := inp ! ip]"] slice_update [of "op - lit" lit op out] assms(4) le by simp
  moreover have "slice (ip - lit) (Suc lit) inp = slice (ip - lit) lit inp @ [inp ! ip]"
    using slice_snoc [of "ip - lit" lit inp] assms(3) le by simp
  ultimately show ?thesis
    using assms by (simp add: run_ok_def)
qed

lemma run_stop:
  assumes r: "run_ok inp out ip op lit" and "0 < lit"
  shows "\<exists>out'. lzf_stop_run op lit out = Some out' \<and> length out' = length out \<and> decodes (take op out') (take ip inp)"
proof -
  have b: "lit \<le> 32" "lit \<le> ip" "ip \<le> length inp" "lit + 1 \<le> op" "op \<le> length out"
    and s: "slice (op - lit) lit out = slice (ip - lit) lit inp" and d: "decodes (take (op - lit - 1) out) (take (ip - lit) inp)"
    using assms by (simp_all add: run_ok_def)
  let ?k = "op - lit - 1"
  let ?b = "of_nat (lit - 1) :: u8"
  have "of_nat lit - 1 = ?b" using assms(2) by (cases lit) simp_all
  then have st: "lzf_stop_run op lit out = Some (out[?k := ?b])"
    using b assms(2) by (simp add: lzf_stop_run_def)
  have "take op (out[?k := ?b]) = take ?k out @ ?b # slice (op - lit) lit out"
  proof -
    have "op = ?k + Suc lit" using b by simp
    then have "take op (out[?k := ?b]) = take ?k (out[?k := ?b]) @ take (Suc lit) (drop ?k (out[?k := ?b]))"
      by (metis take_add)
    moreover have "drop ?k (out[?k := ?b]) = ?b # drop (Suc ?k) out"
      using b assms(2) by (simp add: Cons_nth_drop_Suc [symmetric])
    moreover have "Suc ?k = op - lit" using b by simp
    ultimately show ?thesis by (simp add: slice_def)
  qed
  moreover have "take ip inp = take (ip - lit) inp @ slice (ip - lit) lit inp"
    using b(2) by (metis le_add_diff_inverse2 slice_def take_add)
  moreover have "decodes (take ?k out @ of_nat (length (slice (ip - lit) lit inp) - 1) # slice (ip - lit) lit inp)
      (take (ip - lit) inp @ slice (ip - lit) lit inp)"
    by (rule decodes_literal [OF d]) (use b assms(2) in simp_all)
  ultimately show ?thesis using st s b by simp
qed

lemma run_stop_empty:
  assumes r: "run_ok inp out ip op 0" and "op \<le> length out"
  shows "\<exists>out'. lzf_stop_run op 0 out = Some out' \<and> length out' = length out \<and> decodes (take (op - 1) out') (take ip inp)"
proof -
  have "1 \<le> op" "decodes (take (op - 1) out) (take ip inp)" using r by (simp_all add: run_ok_def)
  then show ?thesis using assms(2) by (simp add: lzf_stop_run_def)
qed

lemma run_start:
  "decodes (take op out) (take ip inp) \<Longrightarrow> ip \<le> length inp \<Longrightarrow> op \<le> length out \<Longrightarrow> run_ok inp out ip (op + 1) 0"
  by (simp add: run_ok_def slice_def)

lemma put_ref_ok:
  assumes "decodes (take op out) (take ip inp)" "op + 3 \<le> length out" "off < 8192" "3 \<le> len" "len \<le> 264" "off < ip"
    "ip + len \<le> length inp" "agree inp (ip - off - 1) ip len"
  shows "\<exists>op' out'. lzf_put_ref off (len - 2) op out = Some (op', out') \<and> length out' = length out \<and> op' \<le> op + 3 \<and> op' \<le> op + len - 1
     \<and> decodes (take op' out') (take (ip + len) inp)"
proof -
  let ?qs = "slice ip len inp"
  have lq: "length ?qs = len" using assms(7) by simp
  have ex: "extends (take ip inp) off ?qs"
    unfolding extends_def
  proof (intro conjI allI impI)
    show "off < length (take ip inp)" using assms(6,7) by simp
    fix i assume "i < length ?qs"
    then have i: "i < len" using lq by simp
    have eq: "take ip inp @ ?qs = take (ip + len) inp" by (simp add: slice_def take_add)
    have "?qs ! i = inp ! (ip + i)" using i assms(7) by (simp add: slice_def)
    also have "\<dots> = inp ! (ip - off - 1 + i)" using assms(8) i by (simp add: agree_def)
    also have "\<dots> = (take ip inp @ ?qs) ! (ip + i - off - 1)" using i assms(6,7) unfolding eq by simp
    finally show "?qs ! i = (take ip inp @ ?qs) ! (length (take ip inp) + i - off - 1)" using assms(7) by simp
  qed
  have dec: "decodes (take op out @ ref_token off (len - 2)) (take (ip + len) inp)"
    using decodes_ref [OF assms(1,3) _ _ ex] assms(4,5) lq by (simp add: slice_def take_add)
  show ?thesis
  proof (cases "len - 2 < 7")
    case True
    have le: "op + 2 \<le> op + len - 1" using assms(4) by linarith
    have "lzf_put_ref off (len - 2) op out = Some (op + 2, out[op := of_nat (off div 256 + (len - 2) * 32), op + 1 := of_nat off])"
      using assms(2) True by (simp add: lzf_put_ref_def)
    moreover have "take (op + 2) (out[op := of_nat (off div 256 + (len - 2) * 32), op + 1 := of_nat off]) = take op out @ ref_token off (len - 2)"
      using assms(2) True by (simp add: ref_token_def take_Suc_conv_app_nth numeral_2_eq_2)
    ultimately show ?thesis using dec le by simp
  next
    case False
    have le: "op + 3 \<le> op + len - 1" using False by linarith
    have "lzf_put_ref off (len - 2) op out =
        Some (op + 3, out[op := of_nat (off div 256 + 224), op + 1 := of_nat (len - 2 - 7), op + 2 := of_nat off])"
      using assms(2) False by (simp add: lzf_put_ref_def)
    moreover have "take (op + 3) (out[op := of_nat (off div 256 + 224), op + 1 := of_nat (len - 2 - 7), op + 2 := of_nat off])
        = take op out @ ref_token off (len - 2)"
      using assms(2) False by (simp add: ref_token_def take_Suc_conv_app_nth numeral_3_eq_3 numeral_2_eq_2)
    ultimately show ?thesis using dec le by simp
  qed
qed

definition z_ok :: "bytes \<Rightarrow> nat \<Rightarrow> lzf \<Rightarrow> bool" where
  "z_ok inp n z \<longleftrightarrow> length (z_out z) = n \<and> z_lit z < 32 \<and> run_ok inp (z_out z) (z_ip z) (z_op z) (z_lit z)
     \<and> z_op z \<le> 1 + z_ip z + (z_ip z - z_lit z) div 32"

text \<open>The octets written are at most the octets read, one for each full run, and the open control octet.\<close>

definition lzf_room :: "bytes \<Rightarrow> nat" where
  "lzf_room inp = length inp + length inp div 32 + 5"

lemma z_ok_room: "z_ok inp n z \<Longrightarrow> z_op z + 4 \<le> lzf_room inp"
proof -
  assume z: "z_ok inp n z"
  then have "z_ip z \<le> length inp" by (simp add: z_ok_def run_ok_def)
  moreover from this have "z_ip z - z_lit z \<le> length inp" by simp
  ultimately show ?thesis
    using z div_le_mono [of "z_ip z - z_lit z" "length inp" 32] unfolding z_ok_def lzf_room_def by linarith
qed

lemma z_ok_hash [simp]: "z_ok inp n (z\<lparr>z_hval := h, z_htab := t\<rparr>) = z_ok inp n z"
  by (simp add: z_ok_def)

lemma literal_ok:
  assumes z: "z_ok inp n z" and "z_ip z < length inp" "z_op z < n"
  shows "\<exists>z'. lzf_literal inp z = Some z' \<and> z_ok inp n z' \<and> z_ip z' = z_ip z + 1
     \<and> (if z_lit z = 31 then z_lit z' = 0 \<and> z_op z' = z_op z + 2 else z_lit z' = z_lit z + 1 \<and> z_op z' = z_op z + 1)"
proof -
  let ?out = "(z_out z)[z_op z := inp ! z_ip z]"
  have r: "run_ok inp ?out (z_ip z + 1) (z_op z + 1) (z_lit z + 1)"
    by (rule run_literal) (use assms in \<open>auto simp: z_ok_def\<close>)
  show ?thesis
  proof (cases "z_lit z = 31")
    case True
    obtain out' where o: "lzf_stop_run (z_op z + 1) (z_lit z + 1) ?out = Some out'" "length out' = length ?out"
      "decodes (take (z_op z + 1) out') (take (z_ip z + 1) inp)"
      using run_stop [OF r] by auto
    have "run_ok inp out' (z_ip z + 1) (z_op z + 1 + 1) 0"
      by (rule run_start [OF o(3)]) (use assms o(2) in \<open>auto simp: z_ok_def\<close>)
    moreover have "z_op z + 2 \<le> 1 + (z_ip z + 1) + (z_ip z + 1) div 32"
    proof -
      have "31 \<le> z_ip z" "z_op z \<le> 1 + z_ip z + (z_ip z - 31) div 32" using z True by (simp_all add: z_ok_def run_ok_def)
      moreover from this have "(z_ip z + 1) div 32 = Suc ((z_ip z - 31) div 32)" using le_div_geq [of 32 "z_ip z + 1"] by simp
      ultimately show ?thesis by linarith
    qed
    ultimately show ?thesis using True o(1,2) assms by (simp add: lzf_literal_def z_ok_def MAX_LIT_def)
  next
    case False
    then show ?thesis using r assms by (simp add: lzf_literal_def z_ok_def MAX_LIT_def)
  qed
qed

lemma hash_reads:
  assumes "ip + 2 < length inp" "2 \<le> ip"
  shows "\<exists>h. FRST inp (ip - 2) = Some h" "\<exists>h. NEXT inp v (ip - 2) = Some h" "\<exists>h. NEXT inp v (ip - 2 + 1) = Some h"
  using assms by (simp_all add: FRST_def NEXT_def)

lemma match_ok:
  assumes z: "z_ok inp n z" and ip: "z_ip z + 2 < length inp"
    and m: "0 < ref" "ref < z_ip z" "z_ip z - ref - 1 < 8192" "agree inp ref (z_ip z) 3"
  shows "\<exists>ret z'. lzf_match inp ref z = Some (ret, z') \<and> (if ret then n \<le> lzf_room inp else z_ok inp n z' \<and> z_ip z < z_ip z')
    \<and> length (z_out z') = n"
proof -
  define undo :: nat where "undo = (if z_lit z = 0 then 1 else 0)"
  define maxlen where "maxlen = (if length inp - z_ip z - 2 > MAX_REF then MAX_REF else length inp - z_ip z - 2)"
  have len: "length (z_out z) = n" and r: "run_ok inp (z_out z) (z_ip z) (z_op z) (z_lit z)"
    using z by (simp_all add: z_ok_def)
  show ?thesis
  proof (cases "z_op z + 3 + 1 \<ge> n \<and> z_op z - undo + 3 + 1 \<ge> n")
    case True
    then have "lzf_match inp ref z = Some (True, z)"
      using len unfolding lzf_match_def Let_def undo_def [symmetric] by simp
    moreover have "n \<le> lzf_room inp" using True z_ok_room [OF z] by linarith
    ultimately show ?thesis using len by (intro exI [of _ True] exI [of _ z]) simp
  next
    case room: False
    then have op: "z_op z - undo + 4 < n" by linarith
    have u1: "undo \<le> 1" by (simp add: undo_def)
    obtain out where o: "lzf_stop_run (z_op z) (z_lit z) (z_out z) = Some out" "length out = n"
      "decodes (take (z_op z - undo) out) (take (z_ip z) inp)"
    proof (cases "z_lit z = 0")
      case True
      have "z_op z \<le> length (z_out z)" using op len u1 by linarith
      then show ?thesis using that run_stop_empty [of inp "z_out z" "z_ip z" "z_op z"] r True len by (auto simp: undo_def)
    next
      case False
      then show ?thesis using that run_stop [OF r] len by (auto simp: undo_def)
    qed
    have "maxlen = min (length inp - z_ip z - 2) 264" by (simp add: maxlen_def MAX_REF_def)
    from match_len_ok [OF m(2) ip m(4) this] obtain l where
      l: "lzf_match_len inp ref (z_ip z) maxlen = Some l" "3 \<le> l" "l \<le> 264" "z_ip z + l \<le> length inp" "agree inp ref (z_ip z) l" by blast
    let ?off = "z_ip z - ref - 1"
    have off: "?off < z_ip z" "z_ip z - ?off - 1 = ref" using m(1,2) by linarith+
    obtain op' out' where p: "lzf_put_ref ?off (l - 2) (z_op z - undo) out = Some (op', out')" "length out' = n"
      "op' \<le> z_op z - undo + 3" "op' \<le> z_op z - undo + l - 1" "decodes (take op' out') (take (z_ip z + l) inp)"
      using put_ref_ok [OF o(3) _ m(3) l(2,3) off(1) l(4)] off(2) l(5) op o(2) by auto
    let ?z = "z\<lparr>z_ip := z_ip z + (l - 2) + 2, z_op := op' + 1, z_lit := 0, z_out := out'\<rparr>"
    have ipl: "z_ip z + (l - 2) + 2 = z_ip z + l" using l(2) by simp
    have bound: "op' + 1 \<le> 1 + (z_ip z + l) + (z_ip z + l) div 32"
    proof -
      have "(z_ip z - z_lit z) div 32 \<le> (z_ip z + l) div 32" by (rule div_le_mono) simp
      moreover have "z_op z \<le> 1 + z_ip z + (z_ip z - z_lit z) div 32" using z by (simp add: z_ok_def)
      ultimately show ?thesis using p(4) l(2) by linarith
    qed
    have ok: "z_ok inp n ?z"
      unfolding z_ok_def ipl using run_start [OF p(5) l(4)] p(2,3) op bound by simp
    have eq: "lzf_match inp ref z = (if z_ip ?z + 2 \<ge> length inp then Some (False, ?z)
        else do {
          let ip = z_ip ?z - 2;
          hval \<leftarrow> FRST inp ip;
          hval \<leftarrow> NEXT inp hval ip;
          let htab = (z_htab ?z)(IDX hval := int ip);
          hval \<leftarrow> NEXT inp hval (ip + 1);
          let htab = htab(IDX hval := int (ip + 1));
          Some (False, ?z\<lparr>z_hval := hval, z_htab := htab\<rparr>) })"
      using o(1) l(1) p(1) room len unfolding lzf_match_def Let_def undo_def [symmetric] maxlen_def [symmetric] by auto
    show ?thesis
    proof (cases "z_ip ?z + 2 \<ge> length inp")
      case True
      then have "lzf_match inp ref z = Some (False, ?z)" unfolding eq by (rule if_P)
      then show ?thesis using ok ipl l(2) p(2) by (intro exI [of _ False] exI [of _ ?z]) simp
    next
      case False
      then have i: "z_ip ?z + 2 < length inp" "2 \<le> z_ip ?z" by simp_all
      obtain h1 where h1: "FRST inp (z_ip ?z - 2) = Some h1" using hash_reads(1) [OF i] by blast
      obtain h2 where h2: "NEXT inp h1 (z_ip ?z - 2) = Some h2" using hash_reads(2) [OF i] by blast
      obtain h3 where h3: "NEXT inp h2 (z_ip ?z - 2 + 1) = Some h3" using hash_reads(3) [OF i] by blast
      have "\<exists>t. lzf_match inp ref z = Some (False, ?z\<lparr>z_hval := h3, z_htab := t\<rparr>)"
        unfolding eq if_not_P [OF False] Let_def h1 Option.bind.bind_lunit h2 h3 by blast
      then obtain t where "lzf_match inp ref z = Some (False, ?z\<lparr>z_hval := h3, z_htab := t\<rparr>)" by blast
      moreover have "z_ok inp n (?z\<lparr>z_hval := h3, z_htab := t\<rparr>)" using ok by (simp only: z_ok_hash)
      ultimately show ?thesis using ipl l(2) p(2) by (intro exI [of _ False] exI [of _ "?z\<lparr>z_hval := h3, z_htab := t\<rparr>"]) simp
    qed
  qed
qed

lemma step_ok:
  assumes z: "z_ok inp n z" and ip: "z_ip z + 2 < length inp"
  shows "\<exists>ret z'. lzf_step inp z = Some (ret, z') \<and> (if ret then n \<le> lzf_room inp else z_ok inp n z' \<and> z_ip z < z_ip z') \<and> length (z_out z') = n"
proof -
  obtain h where h: "NEXT inp (z_hval z) (z_ip z) = Some h" using ip by (simp add: NEXT_def)
  let ?z = "z\<lparr>z_hval := h, z_htab := (z_htab z)(IDX h := int (z_ip z))\<rparr>"
  let ?ref = "z_htab z (IDX h)"
  have zz: "z_ok inp n ?z" "z_ip ?z + 2 < length inp" using z ip by simp_all
  have len: "length (z_out z) = n" using z by (simp add: z_ok_def)
  obtain m where m: "lzf_is_match inp (z_ip z) ?ref = Some m"
    "m \<longrightarrow> 0 < nat ?ref \<and> nat ?ref < z_ip z \<and> z_ip z - nat ?ref - 1 < 8192 \<and> agree inp (nat ?ref) (z_ip z) 3"
    using is_match_ok [OF ip, of ?ref] by blast
  have eq: "lzf_step inp z = (if m then lzf_match inp (nat ?ref) ?z
     else if z_op z \<ge> n then Some (True, ?z) else map_option (Pair False) (lzf_literal inp ?z))"
    using h m(1) len by (simp add: lzf_step_def Let_def)
  show ?thesis
  proof (cases m)
    case True
    then have e: "lzf_step inp z = lzf_match inp (nat ?ref) ?z" unfolding eq by simp
    obtain ret z' where "lzf_match inp (nat ?ref) ?z = Some (ret, z')"
      "if ret then n \<le> lzf_room inp else z_ok inp n z' \<and> z_ip ?z < z_ip z'" "length (z_out z') = n"
      using match_ok [OF zz, of "nat ?ref"] m(2) True by auto
    then show ?thesis unfolding e by (intro exI [of _ ret] exI [of _ z']) (auto split: if_splits)
  next
    case m': False
    show ?thesis
    proof (cases "z_op z \<ge> n")
      case True
      then have "n \<le> lzf_room inp" using z_ok_room [OF z] by linarith
      then show ?thesis using True m' len unfolding eq by (intro exI [of _ True] exI [of _ ?z]) simp
    next
      case False
      obtain z' where "lzf_literal inp ?z = Some z'" "z_ok inp n z'" "z_ip z' = z_ip z + 1"
        using literal_ok [OF zz(1)] zz(2) False by auto
      then show ?thesis using m' False unfolding eq
        by (intro exI [of _ False] exI [of _ z']) (simp add: z_ok_def)
    qed
  qed
qed

lemma loop_ok:
  "z_ok inp n z \<Longrightarrow> \<exists>ret z'. lzf_loop inp z = Some (ret, z') \<and> (if ret then n \<le> lzf_room inp else z_ok inp n z' \<and> length inp \<le> z_ip z' + 2) \<and> length (z_out z') = n"
proof (induction "length inp - z_ip z" arbitrary: z rule: less_induct)
  case less
  show ?case
  proof (cases "z_ip z + 2 < length inp")
    case False
    then have "lzf_loop inp z = Some (False, z)" by (subst lzf_loop.simps) simp
    then show ?thesis using less.prems False by (intro exI [of _ False] exI [of _ z]) (simp add: z_ok_def)
  next
    case True
    obtain ret z' where s: "lzf_step inp z = Some (ret, z')" "if ret then n \<le> lzf_room inp else z_ok inp n z' \<and> z_ip z < z_ip z'" "length (z_out z') = n"
      using step_ok [OF less.prems True] by blast
    have eq: "lzf_loop inp z = (if ret then Some (True, z') else lzf_loop inp z')"
      using True s(1) by (subst lzf_loop.simps) simp
    show ?thesis
    proof (cases ret)
      case True
      then show ?thesis unfolding eq using s(2,3) by (intro exI [of _ True] exI [of _ z']) simp
    next
      case False
      then have "length inp - z_ip z' < length inp - z_ip z" using s(2) \<open>z_ip z + 2 < length inp\<close>
        by (intro diff_less_mono2) simp_all
      from less.hyps [OF this] s(2) False show ?thesis unfolding eq by simp
    qed
  qed
qed

text \<open>At most two octets are left for the final run.\<close>

lemma tail_ok:
  "z_ok inp n z \<Longrightarrow> length inp - z_ip z \<le> k \<Longrightarrow> k \<le> 2 \<Longrightarrow> z_op z + k + (if z_lit z + k \<ge> 32 then 1 else 0) \<le> n \<Longrightarrow>
     \<exists>z'. lzf_tail inp z = Some z' \<and> z_ok inp n z' \<and> z_ip z' = length inp \<and> z_op z' \<le> n"
proof (induction k arbitrary: z)
  case 0
  then have "z_ip z = length inp" by (simp add: z_ok_def run_ok_def)
  moreover have "lzf_tail inp z = Some z" using 0 by (subst lzf_tail.simps) simp
  ultimately show ?case using 0 by simp
next
  case (Suc k)
  show ?case
  proof (cases "z_ip z < length inp")
    case False
    then have "z_ip z = length inp" using Suc.prems(1) by (simp add: z_ok_def run_ok_def)
    moreover have "lzf_tail inp z = Some z" using False by (subst lzf_tail.simps) simp
    ultimately show ?thesis using Suc.prems by (simp split: if_splits)
  next
    case True
    have "z_op z < n" using Suc.prems(4) by (simp split: if_splits)
    then obtain z' where z': "lzf_literal inp z = Some z'" "z_ok inp n z'" "z_ip z' = z_ip z + 1"
      "if z_lit z = 31 then z_lit z' = 0 \<and> z_op z' = z_op z + 2 else z_lit z' = z_lit z + 1 \<and> z_op z' = z_op z + 1"
      using literal_ok [OF Suc.prems(1) True] by blast
    have "z_op z' + k + (if z_lit z' + k \<ge> 32 then 1 else 0) \<le> n"
      using z'(4) Suc.prems(3,4) by (cases "z_lit z = 31") (auto split: if_splits)
    moreover have "lzf_tail inp z = lzf_tail inp z'" using True z'(1) by (subst lzf_tail.simps) simp
    ultimately show ?thesis using Suc.IH [OF z'(2)] z'(3) Suc.prems(2,3) by simp
  qed
qed

lemma z_start: "0 < length out \<Longrightarrow>
    z_ok inp (length out) \<lparr>z_ip = 0, z_op = 1, z_lit = 0, z_hval = h, z_htab = htab, z_out = out\<rparr>"
  using run_start [of 0 out 0 inp] decodes_Nil by (simp add: z_ok_def)

lemma stop_ok:
  assumes z: "z_ok inp n z" "z_ip z = length inp" "z_op z \<le> n"
  shows "\<exists>out'. lzf_stop_run (z_op z) (z_lit z) (z_out z) = Some out' \<and> length out' = n
     \<and> decodes (take (z_op z - (if z_lit z = 0 then 1 else 0)) out') inp"
proof (cases "z_lit z = 0")
  case True
  then show ?thesis using run_stop_empty [of inp "z_out z" "z_ip z" "z_op z"] z by (simp add: z_ok_def)
next
  case False
  then show ?thesis using run_stop [of inp "z_out z" "z_ip z" "z_op z" "z_lit z"] z by (simp add: z_ok_def)
qed

lemma compress_ok:
  assumes "length inp \<noteq> 1"
  shows "\<exists>n out'. lzf_compress htab inp out = Some (n, out') \<and> length out' = length out \<and> n \<le> length out
     \<and> (if n = 0 then inp = [] \<or> length out \<le> lzf_room inp else decodes (take n out') inp)"
proof (cases "inp = [] \<or> out = []")
  case True
  then show ?thesis by (auto simp: lzf_compress_def)
next
  case ne: False
  then have "2 \<le> length inp" using assms by (cases inp; cases "tl inp") auto
  then have "0 < length inp" "1 < length inp" by linarith+
  then obtain h where h: "FRST inp 0 = Some h" by (simp add: FRST_def)
  let ?z = "\<lparr>z_ip = 0, z_op = 1, z_lit = 0, z_hval = h, z_htab = htab, z_out = out\<rparr>"
  have "z_ok inp (length out) ?z" using ne by (intro z_start) simp
  from loop_ok [OF this] obtain ret z where l: "lzf_loop inp ?z = Some (ret, z)"
    "if ret then length out \<le> lzf_room inp else z_ok inp (length out) z \<and> length inp \<le> z_ip z + 2" "length (z_out z) = length out" by blast
  have eq: "lzf_compress htab inp out =
     (if ret \<or> z_op z + 3 > length out then Some (0, z_out z)
      else do { z \<leftarrow> lzf_tail inp z; out \<leftarrow> lzf_stop_run (z_op z) (z_lit z) (z_out z);
        Some (z_op z - (if z_lit z = 0 then 1 else 0), out) })"
    using ne h l(1,3) by (simp add: lzf_compress_def)
  show ?thesis
  proof (cases "ret \<or> z_op z + 3 > length out")
    case True
    have "length out \<le> lzf_room inp"
    proof (cases ret)
      case False
      then show ?thesis using True l(2) z_ok_room [of inp "length out" z] by auto
    qed (use l(2) in simp)
    moreover have "lzf_compress htab inp out = Some (0, z_out z)" unfolding eq using True by (rule if_P)
    ultimately show ?thesis using l(3) by simp
  next
    case False
    then have z: "z_ok inp (length out) z" "length inp - z_ip z \<le> 2" "z_op z + 2 + (if z_lit z + 2 \<ge> 32 then 1 else 0) \<le> length out"
      using l(2) by (simp_all add: le_diff_conv)
    obtain z' where t: "lzf_tail inp z = Some z'" "z_ok inp (length out) z'" "z_ip z' = length inp" "z_op z' \<le> length out"
      using tail_ok [OF z(1,2) order_refl z(3)] by blast
    obtain out' where o: "lzf_stop_run (z_op z') (z_lit z') (z_out z') = Some out'" "length out' = length out"
      "decodes (take (z_op z' - (if z_lit z' = 0 then 1 else 0)) out') inp"
      using stop_ok [OF t(2-4)] by blast
    let ?n = "z_op z' - (if z_lit z' = 0 then 1 else 0)"
    have "lzf_compress htab inp out = Some (?n, out')" unfolding eq using False t(1) o(1) by simp
    moreover have "?n \<noteq> 0"
    proof
      assume "?n = 0"
      then have "decodes [] inp" using o(3) by simp
      then show False using ne by cases (simp_all add: ref_token_def)
    qed
    ultimately show ?thesis using o(2,3) t(4) by auto
  qed
qed

lemma compress_one: "length inp = 1 \<Longrightarrow> out \<noteq> [] \<Longrightarrow> lzf_compress htab inp out = None"
  by (auto simp: lzf_compress_def FRST_def rd_def)

text \<open>C10. Compression round trip: whatever the stack holds in the place of the hash table, compressing a text of
  other than one octet stays inside both buffers, and the text is what decompressing the octets written gives, in
  any buffer that has the room for it; the compressor gives up only when the output is no longer than the text and
  a few octets.  A text of one octet makes it read the octet after its end.\<close>

theorem lzf_roundtrip:
  "if length inp = 1 \<and> out \<noteq> [] then lzf_compress htab inp out = None
   else \<exists>n out'. lzf_compress htab inp out = Some (n, out') \<and> length out' = length out \<and> n \<le> length out
     \<and> (if n = 0 then inp = [] \<or> length out \<le> length inp + length inp div 32 + 5
        else \<forall>buf. length inp \<le> length buf \<longrightarrow>
          (\<exists>buf'. lzf_decompress (take n out') buf = Some (Inr (length inp, buf')) \<and> length buf' = length buf
             \<and> take (length inp) buf' = inp))"
proof (cases "length inp = 1 \<and> out \<noteq> []")
  case True
  then show ?thesis by (simp add: compress_one)
next
  case False
  have "\<exists>n out'. lzf_compress htab inp out = Some (n, out') \<and> length out' = length out \<and> n \<le> length out
     \<and> (if n = 0 then inp = [] \<or> length out \<le> lzf_room inp else decodes (take n out') inp)"
  proof (cases "out = []")
    case True
    then show ?thesis by (simp add: lzf_compress_def)
  qed (use False compress_ok in blast)
  then obtain n out' where c: "lzf_compress htab inp out = Some (n, out')" "length out' = length out" "n \<le> length out"
    "if n = 0 then inp = [] \<or> length out \<le> lzf_room inp else decodes (take n out') inp" by blast
  have "if n = 0 then inp = [] \<or> length out \<le> length inp + length inp div 32 + 5
      else \<forall>buf. length inp \<le> length buf \<longrightarrow>
          (\<exists>buf'. lzf_decompress (take n out') buf = Some (Inr (length inp, buf')) \<and> length buf' = length buf
             \<and> take (length inp) buf' = inp)"
    using c(4) decompress_ok [of "take n out'" inp] by (auto simp: lzf_room_def split: if_splits)
  then show ?thesis unfolding if_not_P [OF False] using c(1-3) by blast
qed

lemmas lzf_evaluate =
  lzf_compress_def lzf_step_def lzf_is_match_def lzf_loop.simps lzf_tail.simps lzf_literal_def FRST_def NEXT_def IDX_def HLOG_def
  lzf_match_def lzf_match_len_def lzf_do_while.simps lzf_put_ref_def lzf_stop_run_def rd_def wr_def MAX_OFF_def MAX_REF_def MAX_LIT_def

lemma compress_sevens: "lzf_compress (\<lambda>_. 0) (replicate 7 7) (replicate 12 0) = Some (8, [1, 7, 7, 32, 0, 1, 7, 7, 0, 0, 0, 0])"
  by (simp add: lzf_evaluate Let_def) (simp add: numeral_eq_Suc)

lemma lzf_roundtrip_witness:
  "\<exists>buf'. lzf_decompress [1, 7, 7, 32, 0, 1, 7, 7] (replicate 9 0) = Some (Inr (7, buf')) \<and> take 7 buf' = replicate 7 7"
  using lzf_roundtrip [of "replicate 7 7" "replicate 12 0" "\<lambda>_. 0"] compress_sevens
  by (auto dest!: spec [of _ "replicate 9 0"])

section \<open>Decompression of anything\<close>

lemma copy_in_bounds:
  "op + len \<le> length out \<Longrightarrow> ref < op \<Longrightarrow> \<exists>out'. lzf_copy op ref len out = Some out' \<and> length out' = length out"
proof (induction len arbitrary: op ref out)
  case (Suc len)
  then have "ref < length out" "op < length out" by simp_all
  moreover obtain out' where "lzf_copy (op + 1) (ref + 1) len (out[op := out ! ref]) = Some out'" "length out' = length out"
    using Suc.IH [of "op + 1" "out[op := out ! ref]" "ref + 1"] Suc.prems by auto
  ultimately show ?case by simp
qed simp

lemma copy_ref_in_bounds:
  "op + len + 2 \<le> length out \<Longrightarrow> ref < op \<Longrightarrow> \<exists>out'. lzf_copy_ref op ref len out = Some out' \<and> length out' = length out"
  using copy_in_bounds [of op "len + 2" out ref] by (auto simp: lzf_copy_ref_def lzf_memcpy_def)

lemma put_literal_in_bounds:
  assumes "op \<le> length out"
  shows "\<exists>r. lzf_put_literal inp ip op ctrl out = Some r
     \<and> (\<forall>ip' op' out'. r = Inr (ip', op', out') \<longrightarrow> ip < ip' \<and> op' \<le> length out \<and> length out' = length out)"
  by (auto simp: lzf_put_literal_def lzf_memcpy_def Let_def)

lemma put_backref_in_bounds:
  assumes "op \<le> length out"
  shows "\<exists>r. lzf_put_backref inp ip op ctrl out = Some r
     \<and> (\<forall>ip' op' out'. r = Inr (ip', op', out') \<longrightarrow> ip < ip' \<and> op' \<le> length out \<and> length out' = length out)"
proof -
  have c: "\<exists>out'. lzf_copy_ref op (nat (int op - int a - 1 - int b)) len out = Some out' \<and> length out' = length out"
    if "op + len + 2 \<le> length out" "\<not> int op - int a - 1 - int b < 0" for a b len
    by (rule copy_ref_in_bounds) (use that in linarith)+
  show ?thesis
  proof (cases "ip \<ge> length inp")
    case True
    then show ?thesis by (simp add: lzf_put_backref_def Let_def)
  next
    case ip: False
    define a where "a = ctrl mod 2 ^ 5 * 2 ^ 8"
    define ip2 len2 where "ip2 = (if ctrl div 2 ^ 5 = 7 then ip + 1 else ip)"
      and "len2 = (if ctrl div 2 ^ 5 = 7 then 7 + unat (inp ! ip) else ctrl div 2 ^ 5)"
    have eq: "lzf_put_backref inp ip op ctrl out =
      (if ip2 \<ge> length inp then Some (Inl EINVAL)
       else if op + len2 + 2 > length out then Some (Inl E2BIG)
       else if int op - int a - 1 - int (unat (inp ! ip2)) < 0 then Some (Inl EINVAL)
       else do { out \<leftarrow> lzf_copy_ref op (nat (int op - int a - 1 - int (unat (inp ! ip2)))) len2 out;
                 Some (Inr (ip2 + 1, op + len2 + 2, out)) })"
      using ip unfolding lzf_put_backref_def Let_def a_def [symmetric] ip2_def len2_def by simp
    show ?thesis
    proof (cases "ip2 \<ge> length inp \<or> op + len2 + 2 > length out \<or> int op - int a - 1 - int (unat (inp ! ip2)) < 0")
      case True
      then show ?thesis unfolding eq by auto
    next
      case False
      then obtain out' where "lzf_copy_ref op (nat (int op - int a - 1 - int (unat (inp ! ip2)))) len2 out = Some out'" "length out' = length out"
        using c [of len2 a "unat (inp ! ip2)"] by auto
      moreover have "ip < ip2 + 1" by (simp add: ip2_def)
      ultimately show ?thesis using False unfolding eq by simp
    qed
  qed
qed

lemma decompress_loop_in_bounds:
  "op \<le> length out \<Longrightarrow> \<exists>r. lzf_decompress_loop inp ip op out = Some r
     \<and> (\<forall>n out'. r = Inr (n, out') \<longrightarrow> n \<le> length out \<and> length out' = length out)"
proof (induction "length inp - ip" arbitrary: ip op out rule: less_induct)
  case less
  show ?case
  proof (cases "ip < length inp")
    case False
    then show ?thesis using less.prems by (subst lzf_decompress_loop.simps) simp
  next
    case True
    let ?t = "if unat (inp ! ip) < 2 ^ 5 then lzf_put_literal inp (ip + 1) op (unat (inp ! ip)) out
      else lzf_put_backref inp (ip + 1) op (unat (inp ! ip)) out"
    obtain r where r: "?t = Some r"
      "\<forall>ip' op' out'. r = Inr (ip', op', out') \<longrightarrow> ip + 1 < ip' \<and> op' \<le> length out \<and> length out' = length out"
      using put_literal_in_bounds [OF less.prems] put_backref_in_bounds [OF less.prems] by (metis (full_types))
    have eq: "lzf_decompress_loop inp ip op out =
        (case r of Inl e \<Rightarrow> Some (Inl e) | Inr (ip, op, out) \<Rightarrow> lzf_decompress_loop inp ip op out)"
      using True r(1) by (subst lzf_decompress_loop.simps) simp
    show ?thesis
    proof (cases r)
      case (Inl e)
      then show ?thesis unfolding eq by simp
    next
      case (Inr t)
      then obtain ip' op' out' where t: "r = Inr (ip', op', out')" by (cases t) auto
      then have "ip + 1 < ip'" "op' \<le> length out'" "length out' = length out" using r(2) by auto
      then show ?thesis using less.hyps [of ip' op' out'] True t unfolding eq by simp
    qed
  qed
qed

text \<open>C16. Decompression is safe: whatever the octets given to it, \<open>lzf_decompress\<close> returns, has read and written
  inside its buffers only, and on success has written no more than the output holds.\<close>

theorem lzf_decompress_safe:
  "\<exists>r. lzf_decompress inp out = Some r
     \<and> (case r of Inl e \<Rightarrow> inp \<noteq> [] | Inr (n, out') \<Rightarrow> n \<le> length out \<and> length out' = length out)"
proof -
  obtain r where r: "lzf_decompress_loop inp 0 0 out = Some r"
    "\<forall>n out'. r = Inr (n, out') \<longrightarrow> n \<le> length out \<and> length out' = length out"
    using decompress_loop_in_bounds [of 0 out inp 0] by auto
  have "inp \<noteq> []" if "r = Inl e" for e
    using r(1) that by (auto simp: lzf_decompress_loop.simps [of "[]"])
  then show ?thesis using r by (auto simp: lzf_decompress_def split: sum.split)
qed

end
