(* ===== verification/Scores.thy ===== *)
theory Scores
  imports Redis_Prelude "HOL-Library.List_Lexorder" "HOL-Library.Product_Lexorder" "HOL-Library.Monad_Syntax"
begin

text \<open>
  What orders the elements of a sorted set: the comparisons of \<open>double\<close> scores, on their IEEE 754 bits, and of
  strings (\<open>sdscmp\<close> of \<open>sds.c\<close>), and the ranges of scores and of strings of \<open>t_zset.c\<close>.
\<close>

section \<open>Scores\<close>

text \<open>A \<open>double\<close> is its 64 bits.  Sign and magnitude are those of an integer: the magnitudes of numbers and
  infinities are in the order of their bits, and the two zeros are equal; a magnitude above infinity is not a
  number.\<close>

type_synonym double = "64 word"

definition magnitude :: "double \<Rightarrow> 64 word" where
  "magnitude x = x AND 0x7FFFFFFFFFFFFFFF"

definition isnan :: "double \<Rightarrow> bool" where
  "isnan x \<longleftrightarrow> magnitude x > 0x7FF0000000000000"

definition score_key :: "double \<Rightarrow> int" where
  "score_key x = (if bit x 63 then - int (unat (magnitude x)) else int (unat (magnitude x)))"

definition dlt :: "double \<Rightarrow> double \<Rightarrow> bool" where
  "dlt x y \<longleftrightarrow> \<not> isnan x \<and> \<not> isnan y \<and> score_key x < score_key y"

definition deq :: "double \<Rightarrow> double \<Rightarrow> bool" where
  "deq x y \<longleftrightarrow> \<not> isnan x \<and> \<not> isnan y \<and> score_key x = score_key y"

definition dle :: "double \<Rightarrow> double \<Rightarrow> bool" where
  "dle x y \<longleftrightarrow> dlt x y \<or> deq x y"

section \<open>Strings\<close>

fun memcmp :: "bytes \<Rightarrow> bytes \<Rightarrow> nat \<Rightarrow> int" where
  "memcmp (a # as) (b # bs) (Suc n) = (if a = b then memcmp as bs n else int (unat a) - int (unat b))"
| "memcmp _ _ _ = 0"

definition sdscmp :: "bytes \<Rightarrow> bytes \<Rightarrow> int" where
  "sdscmp s1 s2 =
     (let l1 = length s1; l2 = length s2;
          minlen = (if l1 < l2 then l1 else l2);
          cmp = memcmp s1 s2 minlen
      in if cmp = 0 then (if l1 > l2 then 1 else if l1 < l2 then -1 else 0) else cmp)"

lemma sdscmp_Nil [simp]:
  "sdscmp [] [] = 0" "sdscmp [] (b # bs) = -1" "sdscmp (a # as) [] = 1"
  by (simp_all add: sdscmp_def)

lemma sdscmp_Cons [simp]: "sdscmp (a # as) (b # bs) = (if a = b then sdscmp as bs else int (unat a) - int (unat b))"
  using unsigned_word_eqI [of a b] by (auto simp: sdscmp_def Let_def)

lemma sdscmp_sign: "(sdscmp s t < 0 \<longleftrightarrow> s < t) \<and> (sdscmp s t = 0 \<longleftrightarrow> s = t)"
proof (induction s arbitrary: t)
  case Nil
  then show ?case by (cases t) auto
next
  case (Cons a s)
  then show ?case
    by (cases t) (auto simp: word_less_def dest: unsigned_word_eqI)
qed

lemma sdscmp_less [simp]: "sdscmp s t < 0 \<longleftrightarrow> s < t"
  and sdscmp_eq [simp]: "sdscmp s t = 0 \<longleftrightarrow> s = t"
  using sdscmp_sign by auto

lemma sdscmp_le [simp]: "sdscmp s t \<le> 0 \<longleftrightarrow> s \<le> t"
  using sdscmp_sign [of s t] by (auto simp: le_less)

lemma sdscmp_greater [simp]: "0 < sdscmp s t \<longleftrightarrow> t < s"
  using sdscmp_le [of s t] by (simp add: not_le [symmetric] del: sdscmp_le)

lemma sdscmp_ge [simp]: "0 \<le> sdscmp s t \<longleftrightarrow> t \<le> s"
  using sdscmp_less [of s t] by (simp add: not_less [symmetric] del: sdscmp_less)

section \<open>Ranges\<close>

record zrangespec =
  zr_min :: double
  zr_max :: double
  zr_minex :: bool
  zr_maxex :: bool

definition zslValueGteMin :: "double \<Rightarrow> zrangespec \<Rightarrow> bool" where
  "zslValueGteMin v spec = (if zr_minex spec then dlt (zr_min spec) v else dle (zr_min spec) v)"

definition zslValueLteMax :: "double \<Rightarrow> zrangespec \<Rightarrow> bool" where
  "zslValueLteMax v spec = (if zr_maxex spec then dlt v (zr_max spec) else dle v (zr_max spec))"

text \<open>The bounds of a range of strings may be the shared objects that stand for the least and the greatest.\<close>

datatype lexbound = MinString | MaxString | Sds bytes

record zlexrangespec =
  zl_min :: lexbound
  zl_max :: lexbound
  zl_minex :: bool
  zl_maxex :: bool

definition sdscmplex :: "lexbound \<Rightarrow> lexbound \<Rightarrow> int" where
  "sdscmplex a b =
     (if a = b then 0
      else if a = MinString \<or> b = MaxString then -1
      else if a = MaxString \<or> b = MinString then 1
      else case (a, b) of (Sds s, Sds t) \<Rightarrow> sdscmp s t | _ \<Rightarrow> 0)"

definition zslLexValueGteMin :: "bytes \<Rightarrow> zlexrangespec \<Rightarrow> bool" where
  "zslLexValueGteMin v spec = (if zl_minex spec then sdscmplex (Sds v) (zl_min spec) > 0 else sdscmplex (Sds v) (zl_min spec) \<ge> 0)"

definition zslLexValueLteMax :: "bytes \<Rightarrow> zlexrangespec \<Rightarrow> bool" where
  "zslLexValueLteMax v spec = (if zl_maxex spec then sdscmplex (Sds v) (zl_max spec) < 0 else sdscmplex (Sds v) (zl_max spec) \<le> 0)"

text \<open>\<open>+\<close>, \<open>-\<close>, an open and a closed bound.\<close>

definition zslParseLexRangeItem :: "bytes \<Rightarrow> (lexbound \<times> bool) option" where
  "zslParseLexRangeItem c =
     (if cstr_at c 0 = 43 then if cstr_at c 1 \<noteq> 0 then None else Some (MaxString, True)
      else if cstr_at c 0 = 45 then if cstr_at c 1 \<noteq> 0 then None else Some (MinString, True)
      else if cstr_at c 0 = 40 then Some (Sds (drop 1 c), True)
      else if cstr_at c 0 = 91 then Some (Sds (drop 1 c), False)
      else None)"

definition zslParseLexRange :: "robj \<Rightarrow> robj \<Rightarrow> zlexrangespec option" where
  "zslParseLexRange mn mx = (case (mn, mx) of
     (ObjStr mn, ObjStr mx) \<Rightarrow> do {
       (lo, loex) \<leftarrow> zslParseLexRangeItem mn;
       (hi, hiex) \<leftarrow> zslParseLexRangeItem mx;
       Some \<lparr>zl_min = lo, zl_max = hi, zl_minex = loex, zl_maxex = hiex\<rparr> }
   | _ \<Rightarrow> None)"

section \<open>The order of a sorted set\<close>

definition zkey :: "double \<times> bytes \<Rightarrow> int \<times> bytes" where
  "zkey x = (score_key (fst x), snd x)"

lemma zkey_simps [simp]: "zkey (s, e) = (score_key s, e)"
  by (simp add: zkey_def)

end
