(* ===== verification/Skiplist.thy ===== *)
theory Skiplist
  imports Scores
begin

text \<open>
  The skiplists of \<open>t_zset.c\<close> on an explicit heap of nodes.  Every node has an array of levels, each a forward
  pointer and the number of elements it crosses; the header, which holds no element, has all of them.

  The memory holds the allocated nodes and the log of the strings freed with their nodes.  The struct
  \<open>zskiplist\<close> is a value returned updated.  The result \<open>None\<close> is a failed assertion, the use of a node that is not
  allocated, or of a level a node does not have.  Parameters: the allocator, as the address it returns for a
  heap; the numbers \<open>random()\<close> returns, as a list that is long enough or the result is \<open>None\<close>; the effect of
  \<open>dictDelete\<close> on the dictionary of the sorted set.
\<close>

section \<open>Nodes\<close>

record znode =
  zn_ele :: "bytes option"
  zn_score :: double
  zn_backward :: addr
  zn_level :: "(addr \<times> 64 word) list"

type_synonym znodes = "addr \<Rightarrow> znode option"

record zmem =
  znodes :: znodes
  zfreed :: "bytes list"

record zskiplist =
  zsl_header :: addr
  zsl_tail :: addr
  zsl_length :: "64 word"
  zsl_level :: nat

definition ZSKIPLIST_MAXLEVEL :: nat where "ZSKIPLIST_MAXLEVEL = 32"

definition znode_at :: "zmem \<Rightarrow> addr \<Rightarrow> znode option" where
  "znode_at m x = (if x = NULL then None else znodes m x)"

definition level_of :: "zmem \<Rightarrow> addr \<Rightarrow> nat \<Rightarrow> (addr \<times> 64 word) option" where
  "level_of m x i = do { nd \<leftarrow> znode_at m x; if i < length (zn_level nd) then Some (zn_level nd ! i) else None }"

definition put_node :: "addr \<Rightarrow> znode \<Rightarrow> zmem \<Rightarrow> zmem" where
  "put_node x nd m = m\<lparr>znodes := (znodes m)(x \<mapsto> nd)\<rparr>"

definition set_level :: "addr \<Rightarrow> nat \<Rightarrow> addr \<times> 64 word \<Rightarrow> zmem \<Rightarrow> zmem option" where
  "set_level x i l m = do {
     nd \<leftarrow> znode_at m x;
     if i < length (zn_level nd) then Some (put_node x (nd\<lparr>zn_level := (zn_level nd)[i := l]\<rparr>) m) else None }"

definition set_backward :: "addr \<Rightarrow> addr \<Rightarrow> zmem \<Rightarrow> zmem option" where
  "set_backward x b m = do { nd \<leftarrow> znode_at m x; Some (put_node x (nd\<lparr>zn_backward := b\<rparr>) m) }"

section \<open>Creation and release\<close>

definition zslCreateNode :: "(znodes \<Rightarrow> addr) \<Rightarrow> nat \<Rightarrow> double \<Rightarrow> bytes option \<Rightarrow> zmem \<Rightarrow> addr \<times> zmem" where
  "zslCreateNode zmalloc level score ele m =
     (let zn = zmalloc (znodes m) in
      (zn, put_node zn \<lparr>zn_ele = ele, zn_score = score, zn_backward = indeterminate,
          zn_level = replicate level (indeterminate, indeterminate)\<rparr> m))"

definition zslCreate :: "(znodes \<Rightarrow> addr) \<Rightarrow> zmem \<Rightarrow> (zskiplist \<times> zmem) option" where
  "zslCreate zmalloc m =
     (let (header, m) = zslCreateNode zmalloc ZSKIPLIST_MAXLEVEL 0 None m in do {
       nd \<leftarrow> znode_at m header;
       let m = put_node header (nd\<lparr>zn_level := map (\<lambda>_. (NULL, 0)) (zn_level nd)\<rparr>) m;
       m \<leftarrow> set_backward header NULL m;
       Some (\<lparr>zsl_header = header, zsl_tail = NULL, zsl_length = 0, zsl_level = 1\<rparr>, m) })"

definition zslFreeNode :: "addr \<Rightarrow> zmem \<Rightarrow> zmem option" where
  "zslFreeNode x m = do {
     nd \<leftarrow> znode_at m x;
     Some \<lparr>znodes = (znodes m)(x := None),
           zfreed = (case zn_ele nd of Some e \<Rightarrow> zfreed m @ [e] | None \<Rightarrow> zfreed m)\<rparr> }"

partial_function (option) zslFree_loop :: "addr \<Rightarrow> zmem \<Rightarrow> zmem option" where
  "zslFree_loop node m =
     (if node = NULL then Some m
      else Option.bind (level_of m node 0) (\<lambda>(next, _).
        Option.bind (zslFreeNode node m) (\<lambda>m. zslFree_loop next m)))"

definition zslFree :: "zskiplist \<Rightarrow> zmem \<Rightarrow> zmem option" where
  "zslFree zsl m = do {
     (node, _) \<leftarrow> level_of m (zsl_header zsl) 0;
     zslFree_loop node (m\<lparr>znodes := (znodes m)(zsl_header zsl := None)\<rparr>) }"

section \<open>Search\<close>

text \<open>The inner loop of every search: along level \<open>i\<close>, while there is a next node and the condition holds for it
  and the elements crossed to reach it.\<close>

partial_function (option) zsl_walk ::
  "(znode \<Rightarrow> 64 word \<Rightarrow> bool option) \<Rightarrow> zmem \<Rightarrow> nat \<Rightarrow> addr \<Rightarrow> 64 word \<Rightarrow> (addr \<times> 64 word) option" where
  "zsl_walk go m i x rank =
     Option.bind (level_of m x i) (\<lambda>(forward, span).
       if forward = NULL then Some (x, rank)
       else Option.bind (znode_at m forward) (\<lambda>f.
         Option.bind (go f (rank + span)) (\<lambda>b.
           if b then zsl_walk go m i forward (rank + span) else Some (x, rank))))"

text \<open>The outer loop, from the top level down: the last node, and all of them by level for the searches that
  fill \<open>update\<close> and \<open>rank\<close>.\<close>

fun zsl_seek ::
  "(znode \<Rightarrow> 64 word \<Rightarrow> bool option) \<Rightarrow> zmem \<Rightarrow> nat \<Rightarrow> addr \<Rightarrow> 64 word \<Rightarrow> (addr \<times> 64 word) option" where
  "zsl_seek go m 0 x rank = Some (x, rank)"
| "zsl_seek go m (Suc i) x rank = do { (x, rank) \<leftarrow> zsl_walk go m i x rank; zsl_seek go m i x rank }"

fun zsl_descend ::
  "(znode \<Rightarrow> 64 word \<Rightarrow> bool option) \<Rightarrow> zmem \<Rightarrow> nat \<Rightarrow> addr \<Rightarrow> 64 word \<Rightarrow> (addr \<times> 64 word) list option" where
  "zsl_descend go m 0 x rank = Some []"
| "zsl_descend go m (Suc i) x rank = do {
     (x, rank) \<leftarrow> zsl_walk go m i x rank;
     us \<leftarrow> zsl_descend go m i x rank;
     Some (us @ [(x, rank)]) }"

text \<open>Before the element looked for, and not after it.\<close>

definition zsl_before :: "double \<Rightarrow> bytes \<Rightarrow> znode \<Rightarrow> bool option" where
  "zsl_before score ele f =
     (if dlt (zn_score f) score then Some True
      else if deq (zn_score f) score then do { e \<leftarrow> zn_ele f; Some (sdscmp e ele < 0) }
      else Some False)"

definition zsl_upto :: "double \<Rightarrow> bytes \<Rightarrow> znode \<Rightarrow> bool option" where
  "zsl_upto score ele f =
     (if dlt (zn_score f) score then Some True
      else if deq (zn_score f) score then do { e \<leftarrow> zn_ele f; Some (sdscmp e ele \<le> 0) }
      else Some False)"

section \<open>Insertion\<close>

text \<open>\<open>ZSKIPLIST_P*RAND_MAX\<close>, for \<open>RAND_MAX\<close> of \<open>2^31 - 1\<close>.\<close>

definition zsl_threshold :: nat where "zsl_threshold = (2 ^ 31 - 1) div 4"

fun zslRandomLevel_loop :: "nat list \<Rightarrow> nat \<Rightarrow> nat option" where
  "zslRandomLevel_loop [] level = None"
| "zslRandomLevel_loop (r # rs) level = (if r < zsl_threshold then zslRandomLevel_loop rs (level + 1) else Some level)"

definition zslRandomLevel :: "nat list \<Rightarrow> nat option" where
  "zslRandomLevel rs = do {
     level \<leftarrow> zslRandomLevel_loop rs 1;
     Some (if level < ZSKIPLIST_MAXLEVEL then level else ZSKIPLIST_MAXLEVEL) }"

text \<open>The levels from \<open>i\<close> on that only the header has so far.\<close>

fun raise_loop :: "addr \<Rightarrow> 64 word \<Rightarrow> nat \<Rightarrow> nat \<Rightarrow> zmem \<Rightarrow> zmem option" where
  "raise_loop header len i 0 m = Some m"
| "raise_loop header len i (Suc k) m = do {
     (forward, _) \<leftarrow> level_of m header i;
     m \<leftarrow> set_level header i (forward, len) m;
     raise_loop header len (i + 1) k m }"

text \<open>The links of the new node at levels \<open>i\<close> on, for the \<open>update\<close> and \<open>rank\<close> of these levels.\<close>

fun insert_loop :: "addr \<Rightarrow> 64 word \<Rightarrow> nat \<Rightarrow> (addr \<times> 64 word) list \<Rightarrow> zmem \<Rightarrow> zmem option" where
  "insert_loop x rank0 i [] m = Some m"
| "insert_loop x rank0 i ((u, rank) # us) m = do {
     (forward, span) \<leftarrow> level_of m u i;
     m \<leftarrow> set_level x i (forward, span - (rank0 - rank)) m;
     m \<leftarrow> set_level u i (x, (rank0 - rank) + 1) m;
     insert_loop x rank0 (i + 1) us m }"

fun untouched_loop :: "nat \<Rightarrow> addr list \<Rightarrow> zmem \<Rightarrow> zmem option" where
  "untouched_loop i [] m = Some m"
| "untouched_loop i (u # us) m = do {
     (forward, span) \<leftarrow> level_of m u i;
     m \<leftarrow> set_level u i (forward, span + 1) m;
     untouched_loop (i + 1) us m }"

text \<open>The node after \<open>x\<close> points back to \<open>b\<close>, or the tail does.\<close>

definition zsl_relink :: "addr \<Rightarrow> addr \<Rightarrow> zskiplist \<Rightarrow> zmem \<Rightarrow> (zskiplist \<times> zmem) option" where
  "zsl_relink x b zsl m = do {
     (forward, _) \<leftarrow> level_of m x 0;
     if forward \<noteq> NULL then map_option (Pair zsl) (set_backward forward b m)
     else Some (zsl\<lparr>zsl_tail := b\<rparr>, m) }"

definition zslInsert ::
  "(znodes \<Rightarrow> addr) \<Rightarrow> nat list \<Rightarrow> zskiplist \<Rightarrow> double \<Rightarrow> bytes \<Rightarrow> zmem \<Rightarrow> (addr \<times> zskiplist \<times> zmem) option" where
  "zslInsert zmalloc rs zsl score ele m =
     (if isnan score then None
      else do {
        us \<leftarrow> zsl_descend (\<lambda>f _. zsl_before score ele f) m (zsl_level zsl) (zsl_header zsl) 0;
        level \<leftarrow> zslRandomLevel rs;
        (zsl, us, m) \<leftarrow>
          (if level > zsl_level zsl then do {
             m \<leftarrow> raise_loop (zsl_header zsl) (zsl_length zsl) (zsl_level zsl) (level - zsl_level zsl) m;
             Some (zsl\<lparr>zsl_level := level\<rparr>, us @ replicate (level - zsl_level zsl) (zsl_header zsl, 0), m) }
           else Some (zsl, us, m));
        let (x, m) = zslCreateNode zmalloc level score (Some ele) m;
        (u0, rank0) \<leftarrow> (case us of [] \<Rightarrow> None | u # _ \<Rightarrow> Some u);
        m \<leftarrow> insert_loop x rank0 0 (take level us) m;
        m \<leftarrow> untouched_loop level (map fst (drop level us)) m;
        m \<leftarrow> set_backward x (if u0 = zsl_header zsl then NULL else u0) m;
        (zsl, m) \<leftarrow> zsl_relink x x zsl m;
        Some (x, zsl\<lparr>zsl_length := zsl_length zsl + 1\<rparr>, m) })"

section \<open>Deletion\<close>

fun delete_loop :: "addr \<Rightarrow> nat \<Rightarrow> addr list \<Rightarrow> zmem \<Rightarrow> zmem option" where
  "delete_loop x i [] m = Some m"
| "delete_loop x i (u # us) m = do {
     (forward, span) \<leftarrow> level_of m u i;
     m \<leftarrow> (if forward = x then do {
             (xforward, xspan) \<leftarrow> level_of m x i;
             set_level u i (xforward, span + (xspan - 1)) m }
           else set_level u i (forward, span - 1) m);
     delete_loop x (i + 1) us m }"

text \<open>\<open>while (zsl->level > 1 && header->level[zsl->level-1].forward == NULL) zsl->level--\<close>.\<close>

fun shrink_level :: "zmem \<Rightarrow> addr \<Rightarrow> nat \<Rightarrow> nat option" where
  "shrink_level m header (Suc (Suc n)) = do {
     (forward, _) \<leftarrow> level_of m header (Suc n);
     if forward = NULL then shrink_level m header (Suc n) else Some (Suc (Suc n)) }"
| "shrink_level m header n = Some n"

definition zslDeleteNode :: "zskiplist \<Rightarrow> addr \<Rightarrow> addr list \<Rightarrow> zmem \<Rightarrow> (zskiplist \<times> zmem) option" where
  "zslDeleteNode zsl x update m = do {
     m \<leftarrow> delete_loop x 0 (take (zsl_level zsl) update) m;
     nd \<leftarrow> znode_at m x;
     (zsl, m) \<leftarrow> zsl_relink x (zn_backward nd) zsl m;
     level \<leftarrow> shrink_level m (zsl_header zsl) (zsl_level zsl);
     Some (zsl\<lparr>zsl_level := level, zsl_length := zsl_length zsl - 1\<rparr>, m) }"

text \<open>The node after \<open>update[0]\<close>, if it is the element looked for.\<close>

definition zsl_match :: "zmem \<Rightarrow> addr \<Rightarrow> double \<Rightarrow> bytes \<Rightarrow> bool option" where
  "zsl_match m x score ele =
     (if x = NULL then Some False
      else do {
        nd \<leftarrow> znode_at m x;
        if deq score (zn_score nd) then do { e \<leftarrow> zn_ele nd; Some (sdscmp e ele = 0) } else Some False })"

text \<open>The result is whether the element was found and, when \<open>keep\<close> is set (\<open>node\<close> is not null), its node, which
  is then not freed.\<close>

definition zslDelete :: "bool \<Rightarrow> zskiplist \<Rightarrow> double \<Rightarrow> bytes \<Rightarrow> zmem \<Rightarrow> (addr option \<times> zskiplist \<times> zmem) option" where
  "zslDelete keep zsl score ele m = do {
     us \<leftarrow> zsl_descend (\<lambda>f _. zsl_before score ele f) m (zsl_level zsl) (zsl_header zsl) 0;
     (u0, _) \<leftarrow> (case us of [] \<Rightarrow> None | u # _ \<Rightarrow> Some u);
     (x, _) \<leftarrow> level_of m u0 0;
     found \<leftarrow> zsl_match m x score ele;
     if found then do {
       (zsl, m) \<leftarrow> zslDeleteNode zsl x (map fst us) m;
       m \<leftarrow> (if keep then Some m else zslFreeNode x m);
       Some (Some x, zsl, m) }
     else Some (None, zsl, m) }"

definition zslUpdateScore ::
  "(znodes \<Rightarrow> addr) \<Rightarrow> nat list \<Rightarrow> zskiplist \<Rightarrow> double \<Rightarrow> bytes \<Rightarrow> double \<Rightarrow> zmem \<Rightarrow> (addr \<times> zskiplist \<times> zmem) option" where
  "zslUpdateScore zmalloc rs zsl curscore ele newscore m = do {
     us \<leftarrow> zsl_descend (\<lambda>f _. zsl_before curscore ele f) m (zsl_level zsl) (zsl_header zsl) 0;
     (u0, _) \<leftarrow> (case us of [] \<Rightarrow> None | u # _ \<Rightarrow> Some u);
     (x, _) \<leftarrow> level_of m u0 0;
     found \<leftarrow> zsl_match m x curscore ele;
     if \<not> found then None
     else do {
       nd \<leftarrow> znode_at m x;
       (forward, _) \<leftarrow> level_of m x 0;
       after \<leftarrow> (if zn_backward nd = NULL then Some True
                 else map_option (\<lambda>b. dlt (zn_score b) newscore) (znode_at m (zn_backward nd)));
       before \<leftarrow> (if forward = NULL then Some True
                  else map_option (\<lambda>f. dlt newscore (zn_score f)) (znode_at m forward));
       if after \<and> before then Some (x, zsl, put_node x (nd\<lparr>zn_score := newscore\<rparr>) m)
       else do {
         (zsl, m) \<leftarrow> zslDeleteNode zsl x (map fst us) m;
         nd \<leftarrow> znode_at m x;
         e \<leftarrow> zn_ele nd;
         (newnode, zsl, m) \<leftarrow> zslInsert zmalloc rs zsl newscore e m;
         nd \<leftarrow> znode_at m x;
         m \<leftarrow> zslFreeNode x (put_node x (nd\<lparr>zn_ele := None\<rparr>) m);
         Some (newnode, zsl, m) } } }"

section \<open>Ranks\<close>

fun zsl_rank_loop :: "zmem \<Rightarrow> double \<Rightarrow> bytes \<Rightarrow> nat \<Rightarrow> addr \<Rightarrow> 64 word \<Rightarrow> (64 word) option" where
  "zsl_rank_loop m score ele 0 x rank = Some 0"
| "zsl_rank_loop m score ele (Suc i) x rank = do {
     (x, rank) \<leftarrow> zsl_walk (\<lambda>f _. zsl_upto score ele f) m i x rank;
     nd \<leftarrow> znode_at m x;
     case zn_ele nd of
       Some e \<Rightarrow> if deq (zn_score nd) score \<and> sdscmp e ele = 0 then Some rank else zsl_rank_loop m score ele i x rank
     | None \<Rightarrow> zsl_rank_loop m score ele i x rank }"

definition zslGetRank :: "zskiplist \<Rightarrow> double \<Rightarrow> bytes \<Rightarrow> zmem \<Rightarrow> (64 word) option" where
  "zslGetRank zsl score ele m = zsl_rank_loop m score ele (zsl_level zsl) (zsl_header zsl) 0"

fun zsl_byrank_loop :: "zmem \<Rightarrow> 64 word \<Rightarrow> nat \<Rightarrow> addr \<Rightarrow> 64 word \<Rightarrow> addr option" where
  "zsl_byrank_loop m rank 0 x traversed = Some NULL"
| "zsl_byrank_loop m rank (Suc i) x traversed = do {
     (x, traversed) \<leftarrow> zsl_walk (\<lambda>_ r. Some (r \<le> rank)) m i x traversed;
     if traversed = rank then Some x else zsl_byrank_loop m rank i x traversed }"

definition zslGetElementByRank :: "zskiplist \<Rightarrow> 64 word \<Rightarrow> zmem \<Rightarrow> addr option" where
  "zslGetElementByRank zsl rank m = zsl_byrank_loop m rank (zsl_level zsl) (zsl_header zsl) 0"

section \<open>Ranges\<close>

text \<open>The searches for a range, by score or by string: \<open>gte\<close> and \<open>lte\<close> test a node against its ends.\<close>

definition zsl_in_range :: "(znode \<Rightarrow> bool option) \<Rightarrow> (znode \<Rightarrow> bool option) \<Rightarrow> zskiplist \<Rightarrow> zmem \<Rightarrow> bool option" where
  "zsl_in_range gte lte zsl m =
     (if zsl_tail zsl = NULL then Some False
      else do {
        nd \<leftarrow> znode_at m (zsl_tail zsl);
        g \<leftarrow> gte nd;
        if \<not> g then Some False
        else do {
          (x, _) \<leftarrow> level_of m (zsl_header zsl) 0;
          if x = NULL then Some False
          else do { nd \<leftarrow> znode_at m x; lte nd } } })"

definition zsl_first :: "(znode \<Rightarrow> bool option) \<Rightarrow> (znode \<Rightarrow> bool option) \<Rightarrow> zskiplist \<Rightarrow> zmem \<Rightarrow> addr option" where
  "zsl_first gte lte zsl m = do {
     (x, _) \<leftarrow> zsl_seek (\<lambda>f _. map_option Not (gte f)) m (zsl_level zsl) (zsl_header zsl) 0;
     (x, _) \<leftarrow> level_of m x 0;
     nd \<leftarrow> znode_at m x;
     l \<leftarrow> lte nd;
     Some (if l then x else NULL) }"

definition zsl_last :: "(znode \<Rightarrow> bool option) \<Rightarrow> (znode \<Rightarrow> bool option) \<Rightarrow> zskiplist \<Rightarrow> zmem \<Rightarrow> addr option" where
  "zsl_last gte lte zsl m = do {
     (x, _) \<leftarrow> zsl_seek (\<lambda>f _. lte f) m (zsl_level zsl) (zsl_header zsl) 0;
     nd \<leftarrow> znode_at m x;
     g \<leftarrow> gte nd;
     Some (if g then x else NULL) }"

definition score_gte :: "zrangespec \<Rightarrow> znode \<Rightarrow> bool option" where
  "score_gte rg f = Some (zslValueGteMin (zn_score f) rg)"

definition score_lte :: "zrangespec \<Rightarrow> znode \<Rightarrow> bool option" where
  "score_lte rg f = Some (zslValueLteMax (zn_score f) rg)"

definition lex_gte :: "zlexrangespec \<Rightarrow> znode \<Rightarrow> bool option" where
  "lex_gte rg f = do { e \<leftarrow> zn_ele f; Some (zslLexValueGteMin e rg) }"

definition lex_lte :: "zlexrangespec \<Rightarrow> znode \<Rightarrow> bool option" where
  "lex_lte rg f = do { e \<leftarrow> zn_ele f; Some (zslLexValueLteMax e rg) }"

definition zslIsInRange :: "zskiplist \<Rightarrow> zrangespec \<Rightarrow> zmem \<Rightarrow> bool option" where
  "zslIsInRange zsl rg m =
     (if dlt (zr_max rg) (zr_min rg)
         \<or> deq (zr_min rg) (zr_max rg) \<and> (zr_minex rg \<or> zr_maxex rg) then Some False
      else zsl_in_range (score_gte rg) (score_lte rg) zsl m)"

definition zslFirstInRange :: "zskiplist \<Rightarrow> zrangespec \<Rightarrow> zmem \<Rightarrow> addr option" where
  "zslFirstInRange zsl rg m = do {
     b \<leftarrow> zslIsInRange zsl rg m;
     if \<not> b then Some NULL else zsl_first (score_gte rg) (score_lte rg) zsl m }"

definition zslLastInRange :: "zskiplist \<Rightarrow> zrangespec \<Rightarrow> zmem \<Rightarrow> addr option" where
  "zslLastInRange zsl rg m = do {
     b \<leftarrow> zslIsInRange zsl rg m;
     if \<not> b then Some NULL else zsl_last (score_gte rg) (score_lte rg) zsl m }"

definition zslIsInLexRange :: "zskiplist \<Rightarrow> zlexrangespec \<Rightarrow> zmem \<Rightarrow> bool option" where
  "zslIsInLexRange zsl rg m =
     (let cmp = sdscmplex (zl_min rg) (zl_max rg) in
      if cmp > 0 \<or> cmp = 0 \<and> (zl_minex rg \<or> zl_maxex rg) then Some False
      else zsl_in_range (lex_gte rg) (lex_lte rg) zsl m)"

definition zslFirstInLexRange :: "zskiplist \<Rightarrow> zlexrangespec \<Rightarrow> zmem \<Rightarrow> addr option" where
  "zslFirstInLexRange zsl rg m = do {
     b \<leftarrow> zslIsInLexRange zsl rg m;
     if \<not> b then Some NULL else zsl_first (lex_gte rg) (lex_lte rg) zsl m }"

definition zslLastInLexRange :: "zskiplist \<Rightarrow> zlexrangespec \<Rightarrow> zmem \<Rightarrow> addr option" where
  "zslLastInLexRange zsl rg m = do {
     b \<leftarrow> zslIsInLexRange zsl rg m;
     if \<not> b then Some NULL else zsl_last (lex_gte rg) (lex_lte rg) zsl m }"

section \<open>Deletion of ranges\<close>

text \<open>The deletion loop: while the condition, on the node and its rank, holds.  \<open>del\<close> is \<open>dictDelete\<close>.\<close>

partial_function (option) zsl_delete_while ::
  "(znode \<Rightarrow> 64 word \<Rightarrow> bool option) \<Rightarrow> (bytes \<Rightarrow> 'd \<Rightarrow> 'd) \<Rightarrow> addr list \<Rightarrow> addr \<Rightarrow> 64 word \<Rightarrow> 64 word \<Rightarrow> zskiplist \<Rightarrow> zmem \<Rightarrow> 'd
     \<Rightarrow> (64 word \<times> zskiplist \<times> zmem \<times> 'd) option" where
  "zsl_delete_while cond del update x traversed removed zsl m d =
     (if x = NULL then Some (removed, zsl, m, d)
      else Option.bind (znode_at m x) (\<lambda>nd.
        Option.bind (cond nd traversed) (\<lambda>b.
          if \<not> b then Some (removed, zsl, m, d)
          else Option.bind (level_of m x 0) (\<lambda>(next, _).
            Option.bind (zslDeleteNode zsl x update m) (\<lambda>(zsl, m).
              Option.bind (zn_ele nd) (\<lambda>e.
                Option.bind (zslFreeNode x m) (\<lambda>m.
                  zsl_delete_while cond del update next (traversed + 1) (removed + 1) zsl m (del e d))))))))"

definition zsl_delete_range ::
  "(znode \<Rightarrow> 64 word \<Rightarrow> bool option) \<Rightarrow> (znode \<Rightarrow> 64 word \<Rightarrow> bool option) \<Rightarrow> (bytes \<Rightarrow> 'd \<Rightarrow> 'd) \<Rightarrow> zskiplist \<Rightarrow> zmem \<Rightarrow> 'd
     \<Rightarrow> (64 word \<times> zskiplist \<times> zmem \<times> 'd) option" where
  "zsl_delete_range go cond del zsl m d = do {
     us \<leftarrow> zsl_descend go m (zsl_level zsl) (zsl_header zsl) 0;
     (u0, traversed) \<leftarrow> (case us of [] \<Rightarrow> None | u # _ \<Rightarrow> Some u);
     (x, _) \<leftarrow> level_of m u0 0;
     zsl_delete_while cond del (map fst us) x (traversed + 1) 0 zsl m d }"

definition zslDeleteRangeByScore ::
  "(bytes \<Rightarrow> 'd \<Rightarrow> 'd) \<Rightarrow> zskiplist \<Rightarrow> zrangespec \<Rightarrow> zmem \<Rightarrow> 'd \<Rightarrow> (64 word \<times> zskiplist \<times> zmem \<times> 'd) option" where
  "zslDeleteRangeByScore del zsl rg m d =
     zsl_delete_range (\<lambda>f _. map_option Not (score_gte rg f)) (\<lambda>f _. score_lte rg f) del zsl m d"

definition zslDeleteRangeByLex ::
  "(bytes \<Rightarrow> 'd \<Rightarrow> 'd) \<Rightarrow> zskiplist \<Rightarrow> zlexrangespec \<Rightarrow> zmem \<Rightarrow> 'd \<Rightarrow> (64 word \<times> zskiplist \<times> zmem \<times> 'd) option" where
  "zslDeleteRangeByLex del zsl rg m d =
     zsl_delete_range (\<lambda>f _. map_option Not (lex_gte rg f)) (\<lambda>f _. lex_lte rg f) del zsl m d"

definition zslDeleteRangeByRank ::
  "(bytes \<Rightarrow> 'd \<Rightarrow> 'd) \<Rightarrow> zskiplist \<Rightarrow> 32 word \<Rightarrow> 32 word \<Rightarrow> zmem \<Rightarrow> 'd \<Rightarrow> (64 word \<times> zskiplist \<times> zmem \<times> 'd) option" where
  "zslDeleteRangeByRank del zsl start stop m d =
     zsl_delete_range (\<lambda>_ r. Some (r < ucast start)) (\<lambda>_ r. Some (r \<le> ucast stop)) del zsl m d"

end
