(* ===== verification/Skiplist_Rep.thy ===== *)
theory Skiplist_Rep
  imports Skiplist Interfaces
begin

text \<open>
  What the heap of a skiplist stands for.  An element has an address, a height, a score and a string; the links
  of every level follow from the sequence of elements: \<open>nxt i xs\<close> is the pointer and the span of a level \<open>i\<close>
  whose node the elements \<open>xs\<close> follow.  \<open>links m hdr L xs\<close>: the nodes of \<open>xs\<close> and the header \<open>hdr\<close> have these
  links, the header up to level \<open>L\<close>.
\<close>

section \<open>Elements and their links\<close>

record zel =
  el_addr :: addr
  el_height :: nat
  el_score :: double
  el_ele :: bytes

fun nxt :: "nat \<Rightarrow> zel list \<Rightarrow> addr \<times> 64 word" where
  "nxt i [] = (NULL, 0)"
| "nxt i (x # xs) = (if i < el_height x then (el_addr x, 1) else (fst (nxt i xs), snd (nxt i xs) + 1))"

text \<open>The position after the last element of at least \<open>i + 1\<close> levels: 0 when only the header has as many.\<close>

fun upos :: "nat \<Rightarrow> zel list \<Rightarrow> nat" where
  "upos i [] = 0"
| "upos i (y # ys) = (if 0 < upos i ys then Suc (upos i ys) else if i < el_height y then 1 else 0)"

definition pos_addr :: "addr \<Rightarrow> zel list \<Rightarrow> nat \<Rightarrow> addr" where
  "pos_addr hdr xs p = (hdr # map el_addr xs) ! p"

lemma nxt_none: "\<forall>s \<in> set ss. el_height s \<le> i \<Longrightarrow> nxt i (ss @ zs) = (fst (nxt i zs), snd (nxt i zs) + of_nat (length ss))"
  by (induction ss) auto

lemma nxt_some: "\<exists>s \<in> set ss. i < el_height s \<Longrightarrow> nxt i (ss @ zs) = nxt i ss"
proof (induction ss)
  case (Cons a ss)
  then show ?case by (cases "i < el_height a") auto
qed simp

lemma nxt_cases:
  "(\<forall>x \<in> set xs. el_height x \<le> i) \<and> nxt i xs = (NULL, of_nat (length xs))
   \<or> (\<exists>k < length xs. i < el_height (xs ! k) \<and> (\<forall>j < k. el_height (xs ! j) \<le> i) \<and> nxt i xs = (el_addr (xs ! k), of_nat (Suc k)))"
proof (induction xs)
  case (Cons x xs)
  show ?case
  proof (cases "i < el_height x")
    case False
    from Cons.IH show ?thesis
    proof (elim disjE exE conjE)
      fix k assume k: "k < length xs" "i < el_height (xs ! k)" "\<forall>j < k. el_height (xs ! j) \<le> i"
        "nxt i xs = (el_addr (xs ! k), of_nat (Suc k))"
      have "\<forall>j < Suc k. el_height ((x # xs) ! j) \<le> i" using k(3) False by (auto simp: less_Suc_eq_0_disj)
      then have "\<exists>k < length (x # xs). i < el_height ((x # xs) ! k) \<and> (\<forall>j < k. el_height ((x # xs) ! j) \<le> i)
          \<and> nxt i (x # xs) = (el_addr ((x # xs) ! k), of_nat (Suc k))"
        using k False by (intro exI [of _ "Suc k"]) simp
      then show ?thesis by blast
    qed (use False in simp)
  next
    case True
    then show ?thesis by (intro disjI2 exI [of _ 0]) simp
  qed
qed simp

lemma fst_nxt: "fst (nxt i xs) = NULL \<or> fst (nxt i xs) \<in> el_addr ` set xs"
  by (induction xs) auto

lemma fst_nxt_null: "NULL \<notin> el_addr ` set xs \<Longrightarrow> fst (nxt i xs) = NULL \<longleftrightarrow> (\<forall>x \<in> set xs. el_height x \<le> i)"
  by (induction xs) auto

lemma upos_le: "upos i ys \<le> length ys"
  by (induction ys) auto

lemma upos_0: "upos i ys = 0 \<longleftrightarrow> (\<forall>y \<in> set ys. el_height y \<le> i)"
  by (induction ys) auto

lemma upos_append: "upos i (ys @ zs) = (if 0 < upos i zs then length ys + upos i zs else upos i ys)"
  by (induction ys) auto

lemma upos_high: "0 < upos i ys \<Longrightarrow> i < el_height (ys ! (upos i ys - 1))"
  by (induction ys) (auto simp: nth_Cons' split: if_splits)

lemma upos_after: "upos i ys \<le> k \<Longrightarrow> k < length ys \<Longrightarrow> el_height (ys ! k) \<le> i"
proof (induction ys arbitrary: k)
  case (Cons y ys)
  then show ?case by (cases k) (auto simp: upos_0 split: if_splits)
qed simp

lemma upos_eq:
  assumes "q \<le> length ys" "q = 0 \<or> i < el_height (ys ! (q - 1))" "\<And>k. q \<le> k \<Longrightarrow> k < length ys \<Longrightarrow> el_height (ys ! k) \<le> i"
  shows "upos i ys = q"
proof (rule linorder_cases [of "upos i ys" q])
  assume l: "upos i ys < q"
  then have "el_height (ys ! (q - 1)) \<le> i" using assms(1) by (intro upos_after) linarith+
  then show ?thesis using l assms(2) by linarith
next
  assume g: "q < upos i ys"
  then have "q \<le> upos i ys - 1" "upos i ys - 1 < length ys" using upos_le [of i ys] by linarith+
  then have "el_height (ys ! (upos i ys - 1)) \<le> i" by (rule assms(3))
  then show ?thesis using upos_high [of i ys] g by linarith
qed simp

section \<open>The heap\<close>

definition el_node :: "addr \<Rightarrow> zel \<Rightarrow> zel list \<Rightarrow> znode" where
  "el_node b y ws = \<lparr>zn_ele = Some (el_ele y), zn_score = el_score y, zn_backward = b,
     zn_level = map (\<lambda>i. nxt i ws) [0..<el_height y]\<rparr>"

fun seg :: "znodes \<Rightarrow> addr \<Rightarrow> zel list \<Rightarrow> zel list \<Rightarrow> bool" where
  "seg h b [] ws = True"
| "seg h b (y # ys) ws \<longleftrightarrow> h (el_addr y) = Some (el_node b y (ys @ ws)) \<and> seg h (el_addr y) ys ws"

definition last_el :: "addr \<Rightarrow> zel list \<Rightarrow> addr" where
  "last_el b ys = (if ys = [] then b else el_addr (last ys))"

definition hdr_ok :: "znode \<Rightarrow> nat \<Rightarrow> zel list \<Rightarrow> bool" where
  "hdr_ok nd L xs \<longleftrightarrow> zn_ele nd = None \<and> zn_backward nd = NULL \<and> length (zn_level nd) = ZSKIPLIST_MAXLEVEL
     \<and> (\<forall>i < ZSKIPLIST_MAXLEVEL. fst (zn_level nd ! i) = fst (nxt i xs)) \<and> (\<forall>i < L. snd (zn_level nd ! i) = snd (nxt i xs))"

definition links :: "zmem \<Rightarrow> addr \<Rightarrow> nat \<Rightarrow> zel list \<Rightarrow> bool" where
  "links m hdr L xs \<longleftrightarrow> hdr \<noteq> NULL \<and> (\<exists>nd. znodes m hdr = Some nd \<and> hdr_ok nd L xs) \<and> seg (znodes m) NULL xs []
     \<and> distinct (hdr # map el_addr xs) \<and> (\<forall>x \<in> set xs. el_addr x \<noteq> NULL \<and> 0 < el_height x \<and> el_height x \<le> L)
     \<and> 1 \<le> L \<and> L \<le> ZSKIPLIST_MAXLEVEL"

lemma last_el_simps [simp]:
  "last_el b [] = b" "last_el b (y # ys) = last_el (el_addr y) ys" "last_el b (ys @ zs) = last_el (last_el b ys) zs"
  by (auto simp: last_el_def)

lemma seg_append: "seg h b (ys @ zs) ws \<longleftrightarrow> seg h b ys (zs @ ws) \<and> seg h (last_el b ys) zs ws"
  by (induction ys arbitrary: b) auto

lemma seg_iff:
  "seg h b xs ws \<longleftrightarrow> (\<forall>k < length xs. h (el_addr (xs ! k)) = Some (el_node (last_el b (take k xs)) (xs ! k) (drop (Suc k) xs @ ws)))"
  by (induction xs arbitrary: b) (simp_all add: All_less_Suc2)

lemma seg_nth:
  "seg h b xs ws \<Longrightarrow> k < length xs \<Longrightarrow> h (el_addr (xs ! k)) = Some (el_node (last_el b (take k xs)) (xs ! k) (drop (Suc k) xs @ ws))"
  by (simp add: seg_iff)

lemma seg_cong: "(\<And>y. y \<in> set ys \<Longrightarrow> h (el_addr y) = h' (el_addr y)) \<Longrightarrow> seg h b ys ws = seg h' b ys ws"
  by (induction ys arbitrary: b) auto

lemma pos_addr_simps [simp]: "pos_addr hdr xs 0 = hdr" "pos_addr hdr xs (Suc p) = map el_addr xs ! p"
  by (simp_all add: pos_addr_def)

lemma links_nodes:
  assumes "links m hdr L xs"
  shows "hdr \<noteq> NULL" "x \<in> set xs \<Longrightarrow> el_addr x \<noteq> NULL" "x \<in> set xs \<Longrightarrow> 0 < el_height x" "x \<in> set xs \<Longrightarrow> el_height x \<le> L"
    "1 \<le> L" "L \<le> ZSKIPLIST_MAXLEVEL" "distinct (hdr # map el_addr xs)"
  using assms by (auto simp: links_def)

lemma links_nth:
  assumes "links m hdr L xs" "k < length xs"
  shows "znode_at m (el_addr (xs ! k)) = Some (el_node (last_el NULL (take k xs)) (xs ! k) (drop (Suc k) xs))"
  using assms seg_nth [of "znodes m" NULL xs "[]" k] by (simp add: znode_at_def links_def)

text \<open>The link of the node at position \<open>p\<close>.\<close>

lemma level_pos:
  assumes l: "links m hdr L xs" and "p \<le> length xs" "i < L" "p = 0 \<or> i < el_height (xs ! (p - 1))"
  shows "level_of m (pos_addr hdr xs p) i = Some (nxt i (drop p xs))"
proof (cases p)
  case 0
  obtain nd where nd: "znodes m hdr = Some nd" "hdr_ok nd L xs" "hdr \<noteq> NULL" "L \<le> ZSKIPLIST_MAXLEVEL"
    using l by (auto simp: links_def)
  then show ?thesis using 0 assms(3) by (simp add: level_of_def znode_at_def hdr_ok_def prod_eq_iff)
next
  case (Suc k)
  then show ?thesis using links_nth [OF l, of k] assms(2-4) by (simp add: level_of_def el_node_def)
qed

section \<open>Searching\<close>

text \<open>The condition of a search holds for the first \<open>n\<close> elements and their ranks, and for no other.\<close>

definition cut :: "(znode \<Rightarrow> 64 word \<Rightarrow> bool option) \<Rightarrow> zmem \<Rightarrow> zel list \<Rightarrow> nat \<Rightarrow> bool" where
  "cut go m xs n \<longleftrightarrow> n \<le> length xs
     \<and> (\<forall>k < length xs. \<exists>f. znode_at m (el_addr (xs ! k)) = Some f \<and> go f (of_nat (Suc k)) = Some (k < n))"

lemma walk_ok:
  assumes l: "links m hdr L xs" and i: "i < L" and c: "cut go m xs n"
  shows "p \<le> n \<Longrightarrow> p = 0 \<or> i < el_height (xs ! (p - 1)) \<Longrightarrow>
    zsl_walk go m i (pos_addr hdr xs p) (of_nat p) = Some (pos_addr hdr xs (upos i (take n xs)), of_nat (upos i (take n xs)))"
proof (induction "n - p" arbitrary: p rule: less_induct)
  case less
  have n: "n \<le> length xs" using c by (simp add: cut_def)
  then have "p \<le> length xs" using less.prems(1) by linarith
  then have lv: "level_of m (pos_addr hdr xs p) i = Some (nxt i (drop p xs))"
    using level_pos [OF l _ i] less.prems(2) by blast
  have stop: "upos i (take n xs) = p" if "\<And>k. p \<le> k \<Longrightarrow> k < n \<Longrightarrow> el_height (xs ! k) \<le> i"
  proof (rule upos_eq)
    show "p = 0 \<or> i < el_height (take n xs ! (p - 1))" using less.prems by (cases p) auto
  qed (use that less.prems(1) n in auto)
  consider (none) "\<forall>x \<in> set (drop p xs). el_height x \<le> i" "nxt i (drop p xs) = (NULL, of_nat (length xs - p))"
    | (some) k where "p + k < length xs" "i < el_height (xs ! (p + k))" "\<forall>j < k. el_height (xs ! (p + j)) \<le> i"
        "nxt i (drop p xs) = (el_addr (xs ! (p + k)), of_nat (Suc k))"
  proof -
    have len: "length (drop p xs) = length xs - p" by simp
    have "thesis" if "k < length (drop p xs)" "i < el_height (drop p xs ! k)" "\<forall>j < k. el_height (drop p xs ! j) \<le> i"
        "nxt i (drop p xs) = (el_addr (drop p xs ! k), of_nat (Suc k))" for k
    proof (rule some [of k])
      show "p + k < length xs" "i < el_height (xs ! (p + k))" using that(1,2) by simp_all
      show "\<forall>j < k. el_height (xs ! (p + j)) \<le> i" using that(1,3) by simp
      show "nxt i (drop p xs) = (el_addr (xs ! (p + k)), of_nat (Suc k))" using that(1,4) by simp
    qed
    then show thesis using nxt_cases [of "drop p xs" i] none unfolding len by blast
  qed
  then show ?case
  proof cases
    case none
    have "el_height (xs ! k) \<le> i" if "p \<le> k" "k < n" for k
    proof -
      have "drop p xs ! (k - p) = xs ! k" "k - p < length (drop p xs)" using that n by auto
      then show ?thesis using none(1) nth_mem by metis
    qed
    then show ?thesis using lv none(2) stop by (subst zsl_walk.simps) simp
  next
    case some
    obtain f where f: "znode_at m (el_addr (xs ! (p + k))) = Some f" "go f (of_nat (Suc (p + k))) = Some (p + k < n)"
      using c some(1) by (auto simp: cut_def)
    have nn: "el_addr (xs ! (p + k)) \<noteq> NULL" using links_nodes(2) [OF l] some(1) by simp
    have r: "of_nat p + of_nat (Suc k) = (of_nat (Suc (p + k)) :: 64 word)" by simp
    have step: "zsl_walk go m i (pos_addr hdr xs p) (of_nat p)
        = (if p + k < n then zsl_walk go m i (el_addr (xs ! (p + k))) (of_nat (Suc (p + k))) else Some (pos_addr hdr xs p, of_nat p))"
      using lv nn f(1) f(2) by (subst zsl_walk.simps) (simp only: some(4) Option.bind.bind_lunit prod.case r if_False)
    show ?thesis
    proof (cases "p + k < n")
      case True
      then have "zsl_walk go m i (pos_addr hdr xs (Suc (p + k))) (of_nat (Suc (p + k)))
          = Some (pos_addr hdr xs (upos i (take n xs)), of_nat (upos i (take n xs)))"
        using some(2) by (intro less.hyps) auto
      then show ?thesis using step True some(1) by simp
    next
      case False
      have "el_height (xs ! j) \<le> i" if "p \<le> j" "j < n" for j
        using some(3) that False by (metis le_Suc_ex add_less_cancel_left less_le_trans not_less)
      then show ?thesis using step False stop by simp
    qed
  qed
qed

lemma upos_take_le: "upos i (take n xs) \<le> n"
  using upos_le [of i "take n xs"] by simp

lemma upos_take_high: "upos i (take n xs) = 0 \<or> i < el_height (xs ! (upos i (take n xs) - 1))"
proof (cases "upos i (take n xs) = 0")
  case False
  then have "i < el_height (take n xs ! (upos i (take n xs) - 1))" by (intro upos_high) simp
  moreover have "upos i (take n xs) - 1 < n" using upos_take_le [of i n xs] False by linarith
  ultimately show ?thesis by simp
qed simp

text \<open>Coming down from level \<open>j\<close>, at a node high enough.\<close>

lemma descend_from:
  assumes l: "links m hdr L xs" and c: "cut go m xs n"
  shows "j \<le> L \<Longrightarrow> p \<le> n \<Longrightarrow> p = 0 \<or> j \<le> el_height (xs ! (p - 1)) \<Longrightarrow>
    zsl_descend go m j (pos_addr hdr xs p) (of_nat p)
      = Some (map (\<lambda>i. (pos_addr hdr xs (upos i (take n xs)), of_nat (upos i (take n xs)))) [0..<j])"
proof (induction j arbitrary: p)
  case (Suc j)
  let ?q = "upos j (take n xs)"
  have w: "zsl_walk go m j (pos_addr hdr xs p) (of_nat p) = Some (pos_addr hdr xs ?q, of_nat ?q)"
    using Suc.prems by (intro walk_ok [OF l _ c]) auto
  have "?q = 0 \<or> j \<le> el_height (xs ! (?q - 1))"
    using upos_take_high [of j n xs] by auto
  then have "zsl_descend go m j (pos_addr hdr xs ?q) (of_nat ?q)
      = Some (map (\<lambda>i. (pos_addr hdr xs (upos i (take n xs)), of_nat (upos i (take n xs)))) [0..<j])"
    using Suc.prems(1) upos_take_le by (intro Suc.IH) auto
  then show ?case using w by simp
qed simp

lemma seek_from:
  assumes l: "links m hdr L xs" and c: "cut go m xs n"
  shows "j \<le> L \<Longrightarrow> p \<le> n \<Longrightarrow> p = 0 \<or> j \<le> el_height (xs ! (p - 1)) \<Longrightarrow> 0 < j \<Longrightarrow>
    zsl_seek go m j (pos_addr hdr xs p) (of_nat p) = Some (pos_addr hdr xs n, of_nat n)"
proof (induction j arbitrary: p)
  case (Suc j)
  let ?q = "upos j (take n xs)"
  have w: "zsl_walk go m j (pos_addr hdr xs p) (of_nat p) = Some (pos_addr hdr xs ?q, of_nat ?q)"
    using Suc.prems by (intro walk_ok [OF l _ c]) auto
  show ?case
  proof (cases j)
    case 0
    have "?q = n"
    proof (rule upos_eq)
      show "n = 0 \<or> j < el_height (take n xs ! (n - 1))"
        using 0 c links_nodes(3) [OF l] by (cases n) (auto simp: cut_def)
    qed (use c in \<open>auto simp: cut_def\<close>)
    then show ?thesis using w 0 by simp
  next
    case (Suc j')
    have "?q = 0 \<or> j \<le> el_height (xs ! (?q - 1))"
      using upos_take_high [of j n xs] by auto
    then have "zsl_seek go m j (pos_addr hdr xs ?q) (of_nat ?q) = Some (pos_addr hdr xs n, of_nat n)"
      using Suc.prems Suc upos_take_le by (intro Suc.IH) auto
    then show ?thesis using w by simp
  qed
qed simp

lemmas descend_ok = descend_from [where p = 0, simplified]
lemmas seek_ok = seek_from [where p = 0, simplified]

section \<open>Updating one node at each level\<close>

definition at_levels :: "(nat \<Rightarrow> addr \<times> 64 word \<Rightarrow> addr \<times> 64 word) \<Rightarrow> nat \<Rightarrow> addr list \<Rightarrow> znodes \<Rightarrow> znodes" where
  "at_levels f i us h a = map_option (\<lambda>nd. nd\<lparr>zn_level := map (\<lambda>j.
     if i \<le> j \<and> j < i + length us \<and> us ! (j - i) = a then f j (zn_level nd ! j) else zn_level nd ! j) [0..<length (zn_level nd)]\<rparr>) (h a)"

lemma at_levels_other: "a \<notin> set us \<Longrightarrow> at_levels f i us h a = h a"
proof -
  assume "a \<notin> set us"
  then have "us ! (j - i) \<noteq> a" if "j < i + length us" "i \<le> j" for j
    using that nth_mem [of "j - i" us] by auto
  then have "(if i \<le> j \<and> j < i + length us \<and> us ! (j - i) = a then f j l else l) = l" for j l by auto
  then show ?thesis by (simp add: at_levels_def map_nth option.map_ident)
qed

lemma at_levels_Nil [simp]: "at_levels f i [] h = h"
  by (rule ext) (simp add: at_levels_other)

lemma at_levels_Cons:
  "at_levels f i (u # us) h =
     at_levels f (Suc i) us (h(u := map_option (\<lambda>nd. nd\<lparr>zn_level := (zn_level nd)[i := f i (zn_level nd ! i)]\<rparr>) (h u)))"
  by (rule ext, case_tac "h x")
    (auto simp: at_levels_def nth_list_update nth_Cons' Suc_le_eq le_less intro!: map_cong arg_cong [where f = "\<lambda>l. zn_level_update (\<lambda>_. l) _"])

lemma at_levels_cong: "(\<And>j. i \<le> j \<Longrightarrow> j < i + length us \<Longrightarrow> f j = g j) \<Longrightarrow> at_levels f i us h = at_levels g i us h"
  by (rule ext) (auto simp: at_levels_def intro!: option.map_cong0 arg_cong [where f = "\<lambda>l. zn_level_update (\<lambda>_. l) _"])

lemma at_levels_append: "at_levels f i (us @ vs) h = at_levels f (i + length us) vs (at_levels f i us h)"
  by (induction us arbitrary: i h) (simp_all add: at_levels_Cons)

end
