(* ===== verification/Skiplist_Update.thy ===== *)
theory Skiplist_Update
  imports Skiplist_Rep
begin

text \<open>
  What the loops of insertion and deletion do to the links, and the two operations on the sequence of elements.
\<close>

section \<open>The loops\<close>

lemma znode_at_Some: "x \<noteq> NULL \<Longrightarrow> znodes m x = Some nd \<Longrightarrow> znode_at m x = Some nd"
  by (simp add: znode_at_def)

lemma set_level_Some:
  "x \<noteq> NULL \<Longrightarrow> znodes m x = Some nd \<Longrightarrow> i < length (zn_level nd) \<Longrightarrow>
     set_level x i l m = Some (put_node x (nd\<lparr>zn_level := (zn_level nd)[i := l]\<rparr>) m)"
  by (simp add: set_level_def znode_at_def)

lemma level_of_Some:
  "x \<noteq> NULL \<Longrightarrow> znodes m x = Some nd \<Longrightarrow> i < length (zn_level nd) \<Longrightarrow> level_of m x i = Some (zn_level nd ! i)"
  by (simp add: level_of_def znode_at_def)

lemma put_node_sel [simp]: "znodes (put_node x nd m) = (znodes m)(x \<mapsto> nd)" "zfreed (put_node x nd m) = zfreed m"
  by (simp_all add: put_node_def)

text \<open>Every node to update has the level it is updated at.\<close>

definition levels_ok :: "znodes \<Rightarrow> nat \<Rightarrow> addr list \<Rightarrow> bool" where
  "levels_ok h i us \<longleftrightarrow> (\<forall>k < length us. us ! k \<noteq> NULL \<and> (\<exists>nd. h (us ! k) = Some nd \<and> i + k < length (zn_level nd)))"

lemma levels_ok_Cons:
  "levels_ok h i (u # us) \<longleftrightarrow> u \<noteq> NULL \<and> (\<exists>nd. h u = Some nd \<and> i < length (zn_level nd)) \<and> levels_ok h (Suc i) us"
  by (simp add: levels_ok_def All_less_Suc2)

lemma levels_ok_upd [simp]:
  "h u = Some nd \<Longrightarrow> levels_ok (h(u \<mapsto> nd\<lparr>zn_level := (zn_level nd)[j := l]\<rparr>)) i us = levels_ok h i us"
  by (auto simp: levels_ok_def)

lemma raise_loop_ok:
  "x \<noteq> NULL \<Longrightarrow> znodes m x = Some nd \<Longrightarrow> i + k \<le> length (zn_level nd) \<Longrightarrow>
     \<exists>m'. raise_loop x len i k m = Some m' \<and> zfreed m' = zfreed m
       \<and> znodes m' = (znodes m)(x \<mapsto> nd\<lparr>zn_level := map (\<lambda>j. if i \<le> j \<and> j < i + k then (fst (zn_level nd ! j), len) else zn_level nd ! j) [0..<length (zn_level nd)]\<rparr>)"
proof (induction k arbitrary: i m nd)
  case 0
  have "map (\<lambda>j. if i \<le> j \<and> j < i + 0 then (fst (zn_level nd ! j), len) else zn_level nd ! j) [0..<length (zn_level nd)] = zn_level nd"
    by (rule trans [OF map_cong map_nth]) auto
  then show ?case using 0 by (simp add: map_upd_triv)
next
  case (Suc k)
  let ?nd = "nd\<lparr>zn_level := (zn_level nd)[i := (fst (zn_level nd ! i), len)]\<rparr>"
  have "znodes (put_node x ?nd m) x = Some ?nd" "Suc i + k \<le> length (zn_level ?nd)" using Suc.prems by simp_all
  from Suc.IH [OF Suc.prems(1) this] obtain m' where m': "raise_loop x len (Suc i) k (put_node x ?nd m) = Some m'"
    "zfreed m' = zfreed (put_node x ?nd m)" "znodes m' = (znodes (put_node x ?nd m))(x \<mapsto> ?nd\<lparr>zn_level := map (\<lambda>j. if Suc i \<le> j \<and> j < Suc i + k then (fst (zn_level ?nd ! j), len) else zn_level ?nd ! j) [0..<length (zn_level ?nd)]\<rparr>)" by blast
  have lev: "map (\<lambda>j. if Suc i \<le> j \<and> j < Suc i + k then (fst (zn_level ?nd ! j), len) else zn_level ?nd ! j) [0..<length (zn_level ?nd)]
      = map (\<lambda>j. if i \<le> j \<and> j < i + Suc k then (fst (zn_level nd ! j), len) else zn_level nd ! j) [0..<length (zn_level nd)]"
    by (rule map_cong) (auto simp: nth_list_update le_antisym not_less_eq_eq)
  have "znodes m' = (znodes m)(x \<mapsto> nd\<lparr>zn_level := map (\<lambda>j. if i \<le> j \<and> j < i + Suc k then (fst (zn_level nd ! j), len) else zn_level nd ! j) [0..<length (zn_level nd)]\<rparr>)"
    unfolding m'(3) lev by simp
  moreover have "raise_loop x len i (Suc k) m = raise_loop x len (Suc i) k (put_node x ?nd m)"
    using Suc.prems by (cases "zn_level nd ! i") (simp add: level_of_Some set_level_Some)
  ultimately show ?case using m'(1,2) by auto
qed

lemma untouched_loop_ok:
  "levels_ok (znodes m) i us \<Longrightarrow> \<exists>m'. untouched_loop i us m = Some m' \<and> zfreed m' = zfreed m
     \<and> znodes m' = at_levels (\<lambda>_ l. (fst l, snd l + 1)) i us (znodes m)"
proof (induction us arbitrary: i m)
  case (Cons u us)
  then obtain nd where nd: "u \<noteq> NULL" "znodes m u = Some nd" "i < length (zn_level nd)" by (auto simp: levels_ok_Cons)
  let ?m = "put_node u (nd\<lparr>zn_level := (zn_level nd)[i := (fst (zn_level nd ! i), snd (zn_level nd ! i) + 1)]\<rparr>) m"
  have "levels_ok (znodes ?m) (Suc i) us" using Cons.prems nd by (simp add: levels_ok_Cons)
  from Cons.IH [OF this] obtain m' where "untouched_loop (Suc i) us ?m = Some m'" "zfreed m' = zfreed ?m"
    "znodes m' = at_levels (\<lambda>_ l. (fst l, snd l + 1)) (Suc i) us (znodes ?m)" by blast
  moreover have "untouched_loop i (u # us) m = untouched_loop (Suc i) us ?m"
    using nd by (cases "zn_level nd ! i") (simp add: level_of_Some set_level_Some)
  moreover have "znodes ?m = (znodes m)(u \<mapsto> nd\<lparr>zn_level := (zn_level nd)[i := (fst (zn_level nd ! i), snd (zn_level nd ! i) + 1)]\<rparr>)" by simp
  ultimately show ?case using nd(2) by (intro exI [of _ m']) (simp add: at_levels_Cons)
qed simp

lemma delete_loop_ok:
  assumes x: "x \<noteq> NULL" "znodes m x = Some nx"
  shows "levels_ok (znodes m) i us \<Longrightarrow> x \<notin> set us \<Longrightarrow>
     \<forall>k < length us. \<forall>nd. znodes m (us ! k) = Some nd \<and> fst (zn_level nd ! (i + k)) = x \<longrightarrow> i + k < length (zn_level nx) \<Longrightarrow>
     \<exists>m'. delete_loop x i us m = Some m' \<and> zfreed m' = zfreed m
     \<and> znodes m' = at_levels (\<lambda>j l. if fst l = x then (fst (zn_level nx ! j), snd l + (snd (zn_level nx ! j) - 1)) else (fst l, snd l - 1)) i us (znodes m)"
  using x(2)
proof (induction us arbitrary: i m)
  case (Cons u us)
  then obtain nd where nd: "u \<noteq> NULL" "znodes m u = Some nd" "i < length (zn_level nd)" by (auto simp: levels_ok_Cons)
  let ?f = "\<lambda>j l. if fst l = x then (fst (zn_level nx ! j), snd l + (snd (zn_level nx ! j) - 1)) else (fst l, snd l - 1 :: 64 word)"
  let ?m = "put_node u (nd\<lparr>zn_level := (zn_level nd)[i := ?f i (zn_level nd ! i)]\<rparr>) m"
  have ok: "levels_ok (znodes ?m) (Suc i) us" using Cons.prems(1) nd by (simp add: levels_ok_Cons)
  have in_x: "Suc i + k < length (zn_level nx)"
    if k: "k < length us" and q: "znodes ?m (us ! k) = Some nd'" "fst (zn_level nd' ! (Suc i + k)) = x" for k nd'
  proof -
    have "\<exists>nd0. znodes m ((u # us) ! Suc k) = Some nd0 \<and> fst (zn_level nd0 ! (i + Suc k)) = x"
      using q nd(2) by (cases "us ! k = u") auto
    then show ?thesis using Cons.prems(3) k by fastforce
  qed
  have "u \<noteq> x" "x \<notin> set us" using Cons.prems(2) by auto
  then have "znodes ?m x = Some nx" using Cons.prems(4) by simp
  from Cons.IH [OF ok \<open>x \<notin> set us\<close> _ this] in_x obtain m' where m': "delete_loop x (Suc i) us ?m = Some m'" "zfreed m' = zfreed ?m"
    "znodes m' = at_levels ?f (Suc i) us (znodes ?m)" by blast
  have "fst (zn_level nd ! i) = x \<longrightarrow> i < length (zn_level nx)"
    using Cons.prems(3) nd(2) by fastforce
  then have "delete_loop x i (u # us) m = delete_loop x (Suc i) us ?m"
    using nd x(1) Cons.prems(4)
    by (cases "zn_level nd ! i"; cases "zn_level nx ! i") (auto simp: level_of_Some set_level_Some)
  then show ?case using m' nd(2) by (simp add: at_levels_Cons)
qed simp

lemma insert_loop_ok:
  assumes x: "x \<noteq> NULL"
  shows "levels_ok (znodes m) i (map fst us) \<Longrightarrow> x \<notin> fst ` set us \<Longrightarrow> znodes m x = Some nx \<Longrightarrow> i + length us \<le> length (zn_level nx) \<Longrightarrow>
     \<exists>m'. insert_loop x rank0 i us m = Some m' \<and> zfreed m' = zfreed m
     \<and> znodes m' = (at_levels (\<lambda>j _. (x, (rank0 - snd (us ! (j - i))) + 1)) i (map fst us) (znodes m))
         (x \<mapsto> nx\<lparr>zn_level := map (\<lambda>j. if i \<le> j \<and> j < i + length us then
              let l = zn_level (the (znodes m (fst (us ! (j - i))))) ! j in (fst l, snd l - (rank0 - snd (us ! (j - i))))
            else zn_level nx ! j) [0..<length (zn_level nx)]\<rparr>)"
proof (induction us arbitrary: i m nx)
  case Nil
  have "map (\<lambda>j. if i \<le> j \<and> j < i + length [] then l j else zn_level nx ! j) [0..<length (zn_level nx)] = zn_level nx" for l
    by (rule trans [OF map_cong map_nth]) auto
  then show ?case using Nil(3) by (simp add: map_upd_triv)
next
  case (Cons ur us)
  obtain u rank where ur: "ur = (u, rank)" by (cases ur)
  obtain nd where nd: "u \<noteq> NULL" "znodes m u = Some nd" "i < length (zn_level nd)" using Cons.prems(1) ur by (auto simp: levels_ok_Cons)
  have ux: "u \<noteq> x" "x \<notin> fst ` set us" using Cons.prems(2) ur by auto
  let ?l = "(fst (zn_level nd ! i), snd (zn_level nd ! i) - (rank0 - rank))"
  let ?nx = "nx\<lparr>zn_level := (zn_level nx)[i := ?l]\<rparr>"
  let ?nd = "nd\<lparr>zn_level := (zn_level nd)[i := (x, (rank0 - rank) + 1)]\<rparr>"
  let ?m1 = "put_node x ?nx m"
  let ?m = "put_node u ?nd ?m1"
  have step: "insert_loop x rank0 i (ur # us) m = insert_loop x rank0 (Suc i) us ?m"
    using nd ux Cons.prems(3,4) x ur by (cases "zn_level nd ! i") (simp add: level_of_Some set_level_Some)
  have "levels_ok (znodes m) (Suc i) (map fst us)" using Cons.prems(1) ur by (simp add: levels_ok_Cons)
  then have "levels_ok (znodes ?m) (Suc i) (map fst us)" using nd(2) ux Cons.prems(3) by simp
  moreover have "znodes ?m x = Some ?nx" "Suc i + length us \<le> length (zn_level ?nx)" using ux Cons.prems(4) by simp_all
  ultimately obtain m' where m': "insert_loop x rank0 (Suc i) us ?m = Some m'" "zfreed m' = zfreed ?m"
    "znodes m' = (at_levels (\<lambda>j _. (x, (rank0 - snd (us ! (j - Suc i))) + 1)) (Suc i) (map fst us) (znodes ?m))
         (x \<mapsto> ?nx\<lparr>zn_level := map (\<lambda>j. if Suc i \<le> j \<and> j < Suc i + length us then
              let l = zn_level (the (znodes ?m (fst (us ! (j - Suc i))))) ! j in (fst l, snd l - (rank0 - snd (us ! (j - Suc i))))
            else zn_level ?nx ! j) [0..<length (zn_level ?nx)]\<rparr>)"
    using Cons.IH [OF _ ux(2)] by blast
  have lev: "map (\<lambda>j. if Suc i \<le> j \<and> j < Suc i + length us then
              let l = zn_level (the (znodes ?m (fst (us ! (j - Suc i))))) ! j in (fst l, snd l - (rank0 - snd (us ! (j - Suc i))))
            else zn_level ?nx ! j) [0..<length (zn_level ?nx)]
     = map (\<lambda>j. if i \<le> j \<and> j < i + length (ur # us) then
              let l = zn_level (the (znodes m (fst ((ur # us) ! (j - i))))) ! j in (fst l, snd l - (rank0 - snd ((ur # us) ! (j - i))))
            else zn_level nx ! j) [0..<length (zn_level nx)]"
  proof (rule map_cong)
    fix j assume "j \<in> set [0..<length (zn_level nx)]"
    then have j: "j < length (zn_level nx)" by simp
    consider (1) "j < i" | (2) "j = i" | (3) k where "j = Suc i + k" "k < length us" | (4) "Suc i + length us \<le> j"
    proof -
      have "thesis" if "i < j" "j < Suc i + length us" using 3 [of "j - Suc i"] that by simp
      then show thesis using 1 2 4 by linarith
    qed
    then show "(if Suc i \<le> j \<and> j < Suc i + length us then
              let l = zn_level (the (znodes ?m (fst (us ! (j - Suc i))))) ! j in (fst l, snd l - (rank0 - snd (us ! (j - Suc i))))
            else zn_level ?nx ! j) = (if i \<le> j \<and> j < i + length (ur # us) then
              let l = zn_level (the (znodes m (fst ((ur # us) ! (j - i))))) ! j in (fst l, snd l - (rank0 - snd ((ur # us) ! (j - i))))
            else zn_level nx ! j)"
    proof cases
      case 2
      then show ?thesis using j nd(2) ur by (simp add: Let_def)
    next
      case 3
      have "fst (us ! k) \<noteq> x" using ux(2) 3(2) by force
      then show ?thesis using 3 nd(2) by (cases "fst (us ! k) = u") (simp_all add: Let_def)
    qed auto
  qed simp
  have "at_levels (\<lambda>j _. (x, (rank0 - snd (us ! (j - Suc i))) + 1)) (Suc i) (map fst us) (znodes ?m) a
      = at_levels (\<lambda>j _. (x, (rank0 - snd ((ur # us) ! (j - i))) + 1)) i (map fst (ur # us)) (znodes m) a" if "a \<noteq> x" for a
  proof -
    have "at_levels (\<lambda>j _. (x, (rank0 - snd (us ! (j - Suc i))) + 1)) (Suc i) (map fst us) h
       = at_levels (\<lambda>j _. (x, (rank0 - snd ((ur # us) ! (j - i))) + 1)) (Suc i) (map fst us) h" for h
      by (rule at_levels_cong) (auto simp: nth_Cons' Suc_diff_le)
    moreover have "at_levels f (Suc i) vs (h(x := z, u := z')) a = at_levels f (Suc i) vs (h(u := z')) a" for f vs and h :: znodes and z z'
      using that by (simp add: at_levels_def)
    ultimately show ?thesis using nd(2) ur ux(1) by (simp add: at_levels_Cons)
  qed
  then have "znodes m' = (at_levels (\<lambda>j _. (x, (rank0 - snd ((ur # us) ! (j - i))) + 1)) i (map fst (ur # us)) (znodes m))
      (x \<mapsto> nx\<lparr>zn_level := map (\<lambda>j. if i \<le> j \<and> j < i + length (ur # us) then
              let l = zn_level (the (znodes m (fst ((ur # us) ! (j - i))))) ! j in (fst l, snd l - (rank0 - snd ((ur # us) ! (j - i))))
            else zn_level nx ! j) [0..<length (zn_level nx)]\<rparr>)"
    unfolding m'(3) lev by (intro ext) simp
  then show ?case using step m'(1,2) by auto
qed

section \<open>Links after a change at one position\<close>

text \<open>The nodes a search for the position after \<open>ys\<close> leaves, by level.\<close>

definition stops :: "addr \<Rightarrow> zel list \<Rightarrow> nat \<Rightarrow> addr list" where
  "stops hdr ys N = map (\<lambda>j. pos_addr hdr ys (upos j ys)) [0..<N]"

lemma pos_addr_nth: "distinct (hdr # map el_addr ys) \<Longrightarrow> k < length ys \<Longrightarrow> p \<le> length ys \<Longrightarrow>
    pos_addr hdr ys p = el_addr (ys ! k) \<longleftrightarrow> p = Suc k"
  using nth_eq_iff_index_eq [of "hdr # map el_addr ys" p "Suc k"] by (simp add: pos_addr_def)

lemma pos_addr_hdr: "distinct (hdr # map el_addr ys) \<Longrightarrow> p \<le> length ys \<Longrightarrow> pos_addr hdr ys p = hdr \<longleftrightarrow> p = 0"
  by (cases p) auto

lemma pos_addr_in: "p \<le> length ys \<Longrightarrow> pos_addr hdr ys p \<in> insert hdr (el_addr ` set ys)"
  by (cases p) auto

lemma upos_Suc_iff:
  assumes "k < length ys" "j < el_height (ys ! k)"
  shows "upos j ys = Suc k \<longleftrightarrow> (\<forall>y \<in> set (drop (Suc k) ys). el_height y \<le> j)"
proof -
  have "upos j ys = (if 0 < upos j (drop (Suc k) ys) then Suc k + upos j (drop (Suc k) ys) else Suc k)"
  proof -
    have "ys = take k ys @ [ys ! k] @ drop (Suc k) ys" using assms(1) by (simp add: id_take_nth_drop)
    then have "upos j ys = upos j (take k ys @ [ys ! k] @ drop (Suc k) ys)" by simp
    then show ?thesis using assms by (simp add: upos_append del: append.simps)
  qed
  then show ?thesis by (auto simp: upos_0 [symmetric])
qed

lemma seg_at_levels:
  assumes s: "seg h b ys ws" and d: "distinct (hdr # map el_addr ys)" and N: "\<forall>y \<in> set ys. el_height y \<le> N"
    and f: "\<And>j. j < N \<Longrightarrow> f j (fst (nxt j ws), snd (nxt j ws) + of_nat (length ys - upos j ys))
        = (fst (nxt j ws'), snd (nxt j ws') + of_nat (length ys - upos j ys))"
  shows "seg (at_levels f 0 (stops hdr ys N) h) b ys ws'"
  unfolding seg_iff
proof (intro allI impI)
  fix k assume k: "k < length ys"
  let ?y = "ys ! k" and ?us = "stops hdr ys N" and ?ss = "drop (Suc k) ys"
  have hN: "el_height ?y \<le> N" using N k by simp
  have lev: "(if j < length ?us \<and> ?us ! j = el_addr ?y then f j (nxt j (?ss @ ws)) else nxt j (?ss @ ws)) = nxt j (?ss @ ws')"
    if j: "j < el_height ?y" for j
  proof -
    have jN: "j < N" using j hN by simp
    then have "?us ! j = el_addr ?y \<longleftrightarrow> upos j ys = Suc k"
      using pos_addr_nth [OF d k upos_le, of j] by (simp add: stops_def)
    then have hit: "?us ! j = el_addr ?y \<longleftrightarrow> (\<forall>y \<in> set ?ss. el_height y \<le> j)" using upos_Suc_iff [OF k j] by simp
    show ?thesis
    proof (cases "\<forall>y \<in> set ?ss. el_height y \<le> j")
      case True
      then have "upos j ys = Suc k" using upos_Suc_iff [OF k j] by simp
      then show ?thesis using f [OF jN] nxt_none [OF True] hit True jN by (simp add: stops_def)
    next
      case False
      then have "\<exists>s \<in> set ?ss. j < el_height s" by (metis not_le)
      from nxt_some [OF this] show ?thesis using hit False by simp
    qed
  qed
  let ?nd = "el_node (last_el b (take k ys)) ?y (?ss @ ws)"
  have "map (\<lambda>j. if 0 \<le> j \<and> j < 0 + length ?us \<and> ?us ! (j - 0) = el_addr ?y then f j (zn_level ?nd ! j) else zn_level ?nd ! j)
      [0..<length (zn_level ?nd)] = map (\<lambda>j. nxt j (?ss @ ws')) [0..<el_height ?y]"
  proof (rule map_cong)
    fix j assume "j \<in> set [0..<el_height ?y]"
    then have j: "j < el_height ?y" by simp
    then have "zn_level ?nd ! j = nxt j (?ss @ ws)" by (simp add: el_node_def)
    then show "(if 0 \<le> j \<and> j < 0 + length ?us \<and> ?us ! (j - 0) = el_addr ?y then f j (zn_level ?nd ! j) else zn_level ?nd ! j)
        = nxt j (?ss @ ws')" using lev [OF j] by (simp only: diff_zero add_0 le0 simp_thms)
  qed (simp add: el_node_def)
  moreover have "h (el_addr ?y) = Some ?nd" using seg_nth [OF s k] .
  ultimately show "at_levels f 0 ?us h (el_addr ?y) = Some (el_node (last_el b (take k ys)) ?y (?ss @ ws'))"
    by (simp only: at_levels_def option.map) (simp add: el_node_def)
qed

lemma hdr_at_levels:
  assumes h: "h hdr = Some nd" "hdr_ok nd N (ys @ ws)" and d: "distinct (hdr # map el_addr ys)" and N: "N \<le> ZSKIPLIST_MAXLEVEL"
    and hN: "\<forall>y \<in> set (ys @ ws) \<union> set (ys @ ws'). el_height y \<le> N"
    and f: "\<And>j. j < N \<Longrightarrow> f j (fst (nxt j ws), snd (nxt j ws) + of_nat (length ys - upos j ys))
        = (fst (nxt j ws'), snd (nxt j ws') + of_nat (length ys - upos j ys))"
  shows "\<exists>nd'. at_levels f 0 (stops hdr ys N) h hdr = Some nd' \<and> hdr_ok nd' N (ys @ ws')"
proof -
  let ?us = "stops hdr ys N"
  have lv: "(if j < length ?us \<and> ?us ! j = hdr then f j (zn_level nd ! j) else zn_level nd ! j) = nxt j (ys @ ws')" if j: "j < N" for j
  proof -
    have old: "zn_level nd ! j = nxt j (ys @ ws)" using h(2) j N by (simp add: hdr_ok_def prod_eq_iff)
    have hit: "?us ! j = hdr \<longleftrightarrow> upos j ys = 0" using pos_addr_hdr [OF d upos_le, of j] j by (simp add: stops_def)
    show ?thesis
    proof (cases "upos j ys = 0")
      case True
      then have "\<forall>y \<in> set ys. el_height y \<le> j" by (simp add: upos_0)
      from nxt_none [OF this] show ?thesis using f [OF j] hit True j old by (simp add: stops_def)
    next
      case False
      then have "\<exists>s \<in> set ys. j < el_height s" using upos_0 [of j ys] by (metis not_le)
      from nxt_some [OF this] show ?thesis using hit False old by simp
    qed
  qed
  have hi: "fst (nxt j (ys @ vs)) = NULL" if "\<not> j < N" "\<forall>y \<in> set (ys @ vs). el_height y \<le> N" for j vs
  proof -
    have "\<forall>y \<in> set (ys @ vs). el_height y \<le> j" using that by (meson le_trans not_less)
    from nxt_none [OF this, of "[]"] show ?thesis by simp
  qed
  let ?nd = "nd\<lparr>zn_level := map (\<lambda>j. if j < length ?us \<and> ?us ! j = hdr then f j (zn_level nd ! j) else zn_level nd ! j) [0..<length (zn_level nd)]\<rparr>"
  have at: "at_levels f 0 ?us h hdr = Some ?nd" using h(1) by (simp add: at_levels_def)
  have e: "zn_level ?nd ! i = nxt i (ys @ ws')" if "i < N" "i < length (zn_level nd)" for i
  proof -
    have "zn_level ?nd ! i = (if i < length ?us \<and> ?us ! i = hdr then f i (zn_level nd ! i) else zn_level nd ! i)"
      using that(2) by simp
    then show ?thesis using lv [OF that(1)] by (rule trans)
  qed
  have "hdr_ok ?nd N (ys @ ws')"
    unfolding hdr_ok_def
  proof (intro conjI allI impI)
    fix i assume i: "i < ZSKIPLIST_MAXLEVEL"
    then have len: "i < length (zn_level nd)" using h(2) by (simp add: hdr_ok_def)
    show "fst (zn_level ?nd ! i) = fst (nxt i (ys @ ws'))"
    proof (cases "i < N")
      case True
      then show ?thesis using e len by simp
    next
      case False
      then have "fst (zn_level ?nd ! i) = fst (zn_level nd ! i)" using len by (simp add: stops_def)
      also have "\<dots> = fst (nxt i (ys @ ws))" using h(2) i by (simp add: hdr_ok_def)
      finally show ?thesis using hi [OF False] hN by simp
    qed
  next
    fix i assume i: "i < N"
    then have "i < length (zn_level nd)" using h(2) N by (simp add: hdr_ok_def)
    then show "snd (zn_level ?nd ! i) = snd (nxt i (ys @ ws'))" using e i by simp
  qed (use h(2) in \<open>simp_all add: hdr_ok_def\<close>)
  with at show ?thesis by blast
qed

section \<open>Insertion\<close>

text \<open>Only the nodes of \<open>A\<close> may differ, and no string is freed.\<close>

definition only_at :: "addr set \<Rightarrow> zmem \<Rightarrow> zmem \<Rightarrow> bool" where
  "only_at A m m' \<longleftrightarrow> zfreed m' = zfreed m \<and> (\<forall>a. a \<notin> A \<longrightarrow> znodes m' a = znodes m a)"

lemma only_at_trans: "only_at A m m' \<Longrightarrow> only_at A m' m'' \<Longrightarrow> only_at A m m''"
  by (auto simp: only_at_def)

lemma only_at_refl [simp]: "only_at A m m"
  by (simp add: only_at_def)

lemma only_at_mono: "only_at A m m' \<Longrightarrow> A \<subseteq> B \<Longrightarrow> only_at B m m'"
  by (auto simp: only_at_def)

lemma put_node_only: "x \<in> A \<Longrightarrow> only_at A m (put_node x nd m)"
  by (simp add: only_at_def)

lemma upos0: "\<forall>y \<in> set ys. 0 < el_height y \<Longrightarrow> upos 0 ys = length ys"
  by (induction ys) auto

lemma fst_nxt0: "\<forall>y \<in> set zs. 0 < el_height y \<Longrightarrow> fst (nxt 0 zs) = (if zs = [] then NULL else el_addr (hd zs))"
  by (cases zs) auto

lemma stops_in: "set (stops hdr ys N) \<subseteq> insert hdr (el_addr ` set ys)"
  using pos_addr_in [OF upos_le] by (auto simp: stops_def)

lemma seg_upd [simp]: "a \<notin> el_addr ` set ys \<Longrightarrow> seg (h(a := z)) b ys ws = seg h b ys ws"
  by (rule seg_cong) auto

lemma relink_ok:
  assumes "\<forall>z \<in> set zs. 0 < el_height z \<and> el_addr z \<noteq> NULL" "seg (znodes m) b zs []" "distinct (map el_addr zs)"
    and "level_of m x 0 = Some (nxt 0 zs)"
  shows "\<exists>m'. zsl_relink x b' zsl m = Some (if zs = [] then zsl\<lparr>zsl_tail := b'\<rparr> else zsl, m')
     \<and> only_at (el_addr ` set zs) m m' \<and> seg (znodes m') b' zs []"
proof (cases zs)
  case Nil
  then show ?thesis using assms(4) by (simp add: zsl_relink_def)
next
  case (Cons z zs')
  let ?nd = "el_node b z zs'"
  have z: "znodes m (el_addr z) = Some ?nd" "el_addr z \<noteq> NULL" "0 < el_height z" using assms(1,2) Cons by auto
  let ?m = "put_node (el_addr z) (?nd\<lparr>zn_backward := b'\<rparr>) m"
  have "set_backward (el_addr z) b' m = Some ?m" using z by (simp add: set_backward_def znode_at_Some)
  moreover have "seg (znodes ?m) (el_addr z) zs' []"
    using assms(2,3) Cons by simp
  ultimately show ?thesis
    using assms(4) Cons z by (intro exI [of _ ?m]) (simp add: zsl_relink_def put_node_only el_node_def)
qed

lemma links_only:
  assumes "links m hdr L xs" "only_at A m m'" "A \<inter> insert hdr (el_addr ` set xs) = {}"
  shows "links m' hdr L xs"
proof -
  have "znodes m' a = znodes m a" if "a \<in> insert hdr (el_addr ` set xs)" for a
    using assms(2,3) that by (auto simp: only_at_def)
  then show ?thesis using assms(1) seg_cong [of xs "znodes m'" "znodes m"] by (auto simp: links_def)
qed

text \<open>The header alone has the levels from \<open>L\<close> to \<open>N\<close>.\<close>

lemma raise_links:
  assumes l: "links m hdr L xs" and N: "L \<le> N" "N \<le> ZSKIPLIST_MAXLEVEL"
  shows "\<exists>m'. raise_loop hdr (of_nat (length xs)) L (N - L) m = Some m' \<and> links m' hdr N xs \<and> only_at {hdr} m m'"
proof -
  obtain nd where nd: "hdr \<noteq> NULL" "znodes m hdr = Some nd" "hdr_ok nd L xs" using l by (auto simp: links_def)
  have len: "L + (N - L) \<le> length (zn_level nd)" using nd(3) N by (simp add: hdr_ok_def)
  let ?nd = "nd\<lparr>zn_level := map (\<lambda>j. if L \<le> j \<and> j < L + (N - L) then (fst (zn_level nd ! j), of_nat (length xs)) else zn_level nd ! j) [0..<length (zn_level nd)]\<rparr>"
  obtain m' where m': "raise_loop hdr (of_nat (length xs)) L (N - L) m = Some m'" "zfreed m' = zfreed m" "znodes m' = (znodes m)(hdr \<mapsto> ?nd)"
    using raise_loop_ok [where len = "of_nat (length xs)", OF nd(1,2) len] by blast
  have top: "snd (nxt i xs) = of_nat (length xs)" if "L \<le> i" for i
  proof -
    have "\<forall>x \<in> set xs. el_height x \<le> i" using links_nodes(4) [OF l] that by (meson le_trans)
    from nxt_none [OF this, of "[]"] show ?thesis by simp
  qed
  have "hdr_ok ?nd N xs"
    unfolding hdr_ok_def
  proof (intro conjI allI impI)
    fix i assume i: "i < N"
    then show "snd (zn_level ?nd ! i) = snd (nxt i xs)" using nd(3) N top by (auto simp: hdr_ok_def)
  qed (use nd(3) in \<open>auto simp: hdr_ok_def\<close>)
  moreover have "seg (znodes m') NULL xs []"
    using l unfolding m'(3) by (simp add: links_def)
  moreover have "\<forall>x \<in> set xs. el_addr x \<noteq> NULL \<and> 0 < el_height x \<and> el_height x \<le> N"
    using links_nodes(2-4) [OF l] N(1) by (meson le_trans)
  ultimately have "links m' hdr N xs" using l m'(3) N by (simp add: links_def)
  then show ?thesis using m' by (auto simp: only_at_def)
qed

lemma levels_ok_stops:
  assumes l: "links m hdr L (ys @ zs)"
  shows "levels_ok (znodes m) 0 (stops hdr ys L)"
  unfolding levels_ok_def
proof (intro allI impI)
  fix k assume "k < length (stops hdr ys L)"
  then have k: "k < L" by (simp add: stops_def)
  let ?p = "upos k ys"
  have p: "?p \<le> length ys" by (rule upos_le)
  have "?p = 0 \<or> k < el_height ((ys @ zs) ! (?p - 1))"
    using upos_high [of k ys] upos_le [of k ys] by (cases "?p = 0") (auto simp: nth_append)
  then have "level_of m (pos_addr hdr (ys @ zs) ?p) k \<noteq> None" using level_pos [OF l _ k] p by simp
  moreover have "pos_addr hdr (ys @ zs) ?p = stops hdr ys L ! k"
    using p k by (cases ?p) (auto simp: stops_def nth_append)
  ultimately show "stops hdr ys L ! k \<noteq> NULL \<and> (\<exists>nd. znodes m (stops hdr ys L ! k) = Some nd \<and> 0 + k < length (zn_level nd))"
    by (auto simp: level_of_def znode_at_def split: Option.bind_splits if_splits)
qed

lemma stops_level:
  assumes l: "links m hdr L (ys @ zs)" and k: "k < L"
  shows "\<exists>nd. znodes m (stops hdr ys L ! k) = Some nd
    \<and> zn_level nd ! k = (fst (nxt k zs), snd (nxt k zs) + of_nat (length ys - upos k ys))"
proof -
  let ?p = "upos k ys"
  have p: "?p \<le> length ys" by (rule upos_le)
  have "?p = 0 \<or> k < el_height ((ys @ zs) ! (?p - 1))"
    using upos_high [of k ys] upos_le [of k ys] by (cases "?p = 0") (auto simp: nth_append)
  then have "level_of m (pos_addr hdr (ys @ zs) ?p) k = Some (nxt k (drop ?p ys @ zs))" using level_pos [OF l _ k] p by simp
  moreover have "pos_addr hdr (ys @ zs) ?p = stops hdr ys L ! k"
    using p k by (cases ?p) (auto simp: stops_def nth_append)
  moreover have "\<forall>s \<in> set (drop ?p ys). el_height s \<le> k"
    using upos_after [of k ys] by (auto simp: in_set_conv_nth)
  from nxt_none [OF this] have "nxt k (drop ?p ys @ zs) = (fst (nxt k zs), snd (nxt k zs) + of_nat (length ys - ?p))" by simp
  ultimately show ?thesis
    by (auto simp: level_of_def znode_at_def split: Option.bind_splits if_splits)
qed

text \<open>\<open>update\<close> and \<open>rank\<close> after a search for the position after \<open>ys\<close>.\<close>

definition marks :: "addr \<Rightarrow> zel list \<Rightarrow> nat \<Rightarrow> (addr \<times> 64 word) list" where
  "marks hdr ys N = map (\<lambda>j. (pos_addr hdr ys (upos j ys), of_nat (upos j ys))) [0..<N]"

lemma marks_simps [simp]:
  "map fst (marks hdr ys N) = stops hdr ys N" "length (marks hdr ys N) = N" "length (stops hdr ys N) = N"
  "j < N \<Longrightarrow> marks hdr ys N ! j = (stops hdr ys N ! j, of_nat (upos j ys))"
  by (simp_all add: marks_def stops_def)

lemma map_fst_take_marks: "map fst (take k (marks hdr ys N)) = take k (stops hdr ys N)"
  and map_fst_drop_marks: "map fst (drop k (marks hdr ys N)) = drop k (stops hdr ys N)"
  by (simp_all flip: take_map drop_map)

lemma pos_addr_append [simp]: "p \<le> length ys \<Longrightarrow> pos_addr hdr (ys @ zs) p = pos_addr hdr ys p"
  by (cases p) (simp_all add: nth_append)

lemma descend_marks:
  assumes "links m hdr L (ys @ zs)" "cut go m (ys @ zs) (length ys)"
  shows "zsl_descend go m L hdr 0 = Some (marks hdr ys L)"
  using descend_ok [OF assms order_refl] by (simp add: marks_def upos_le)

definition insert_fun :: "addr \<Rightarrow> nat \<Rightarrow> zel list \<Rightarrow> nat \<Rightarrow> addr \<times> 64 word \<Rightarrow> addr \<times> 64 word" where
  "insert_fun x ht ys j l = (if j < ht then (x, (of_nat (length ys) - of_nat (upos j ys)) + 1) else (fst l, snd l + 1))"

lemma insert_heap:
  assumes l: "links m hdr L (ys @ zs)" and x: "x \<noteq> NULL" "x \<notin> insert hdr (el_addr ` set (ys @ zs))" and ht: "0 < ht" "ht \<le> L"
    and nx: "length (zn_level nx) = ht"
  shows "\<exists>m1 m2. insert_loop x (of_nat (length ys)) 0 (take ht (marks hdr ys L)) (put_node x nx m) = Some m1
      \<and> untouched_loop ht (map fst (drop ht (marks hdr ys L))) m1 = Some m2 \<and> zfreed m2 = zfreed m
      \<and> znodes m2 = (at_levels (insert_fun x ht ys) 0 (stops hdr ys L) (znodes m))
          (x \<mapsto> nx\<lparr>zn_level := map (\<lambda>j. nxt j zs) [0..<ht]\<rparr>)"
proof -
  let ?us = "stops hdr ys L" and ?h = "(znodes m)(x \<mapsto> nx)"
  have xs: "x \<notin> set ?us" using stops_in [of hdr ys L] x(2) by auto
  then have xt: "x \<notin> set (take ht ?us)" "x \<notin> set (drop ht ?us)" by (auto dest: in_set_takeD in_set_dropD)
  have ok: "levels_ok ?h 0 ?us"
  proof -
    have "?us ! k \<noteq> x" if "k < length ?us" for k using xs nth_mem [OF that] by metis
    then show ?thesis using levels_ok_stops [OF l] by (simp add: levels_ok_def)
  qed
  have ok1: "levels_ok (znodes (put_node x nx m)) 0 (map fst (take ht (marks hdr ys L)))"
    using ok ht by (simp add: levels_ok_def map_fst_take_marks)
  have "\<exists>m'. insert_loop x (of_nat (length ys)) 0 (take ht (marks hdr ys L)) (put_node x nx m) = Some m' \<and> zfreed m' = zfreed (put_node x nx m)
     \<and> znodes m' = (at_levels (\<lambda>j _. (x, (of_nat (length ys) - snd (take ht (marks hdr ys L) ! (j - 0))) + 1)) 0
          (map fst (take ht (marks hdr ys L))) (znodes (put_node x nx m)))
         (x \<mapsto> nx\<lparr>zn_level := map (\<lambda>j. if 0 \<le> j \<and> j < 0 + length (take ht (marks hdr ys L)) then
              let l = zn_level (the (znodes (put_node x nx m) (fst (take ht (marks hdr ys L) ! (j - 0))))) ! j
              in (fst l, snd l - (of_nat (length ys) - snd (take ht (marks hdr ys L) ! (j - 0))))
            else zn_level nx ! j) [0..<length (zn_level nx)]\<rparr>)"
    by (rule insert_loop_ok [OF x(1) ok1]) (use xt nx ht in \<open>simp_all add: map_fst_take_marks flip: set_map\<close>)
  then obtain m1 where m1: "insert_loop x (of_nat (length ys)) 0 (take ht (marks hdr ys L)) (put_node x nx m) = Some m1"
    "zfreed m1 = zfreed (put_node x nx m)"
    "znodes m1 = (at_levels (\<lambda>j _. (x, (of_nat (length ys) - snd (take ht (marks hdr ys L) ! (j - 0))) + 1)) 0
          (map fst (take ht (marks hdr ys L))) (znodes (put_node x nx m)))
         (x \<mapsto> nx\<lparr>zn_level := map (\<lambda>j. if 0 \<le> j \<and> j < 0 + length (take ht (marks hdr ys L)) then
              let l = zn_level (the (znodes (put_node x nx m) (fst (take ht (marks hdr ys L) ! (j - 0))))) ! j
              in (fst l, snd l - (of_nat (length ys) - snd (take ht (marks hdr ys L) ! (j - 0))))
            else zn_level nx ! j) [0..<length (zn_level nx)]\<rparr>)" by blast
  have lev: "map (\<lambda>j. if 0 \<le> j \<and> j < 0 + length (take ht (marks hdr ys L)) then
              let l = zn_level (the (znodes (put_node x nx m) (fst (take ht (marks hdr ys L) ! (j - 0))))) ! j
              in (fst l, snd l - (of_nat (length ys) - snd (take ht (marks hdr ys L) ! (j - 0))))
            else zn_level nx ! j) [0..<length (zn_level nx)] = map (\<lambda>j. nxt j zs) [0..<ht]"
  proof (rule map_cong)
    fix j assume "j \<in> set [0..<ht]"
    then have j: "j < ht" "j < L" using ht by auto
    obtain nd where nd: "znodes m (?us ! j) = Some nd" "zn_level nd ! j = (fst (nxt j zs), snd (nxt j zs) + of_nat (length ys - upos j ys))"
      using stops_level [OF l j(2)] by blast
    have "?us ! j \<noteq> x" using xs nth_mem [of j ?us] j(2) by (metis marks_simps(3))
    then show "(if 0 \<le> j \<and> j < 0 + length (take ht (marks hdr ys L)) then
              let l = zn_level (the (znodes (put_node x nx m) (fst (take ht (marks hdr ys L) ! (j - 0))))) ! j
              in (fst l, snd l - (of_nat (length ys) - snd (take ht (marks hdr ys L) ! (j - 0))))
            else zn_level nx ! j) = nxt j zs"
      using j nd upos_le [of j ys] by (simp add: Let_def of_nat_diff)
  qed (simp add: nx)
  have rank: "at_levels (\<lambda>j _. (x, (of_nat (length ys) - snd (take ht (marks hdr ys L) ! (j - 0))) + 1)) 0 (take ht ?us) h
      = at_levels (insert_fun x ht ys) 0 (take ht ?us) h" for h
    by (rule at_levels_cong) (use ht in \<open>auto simp: insert_fun_def\<close>)
  have h1: "znodes m1 = (at_levels (insert_fun x ht ys) 0 (take ht ?us) ?h)(x \<mapsto> nx\<lparr>zn_level := map (\<lambda>j. nxt j zs) [0..<ht]\<rparr>)"
    unfolding m1(3) lev map_fst_take_marks rank by simp
  have "levels_ok (znodes m1) ht (drop ht ?us)"
    unfolding levels_ok_def
  proof (intro allI impI)
    fix k assume k: "k < length (drop ht ?us)"
    let ?a = "drop ht ?us ! k"
    have a: "?a = ?us ! (ht + k)" "ht + k < length ?us" using k by auto
    have "?a \<noteq> NULL \<and> (\<exists>nd. ?h ?a = Some nd \<and> ht + k < length (zn_level nd))"
      using ok a by (simp add: levels_ok_def)
    moreover have "?a \<noteq> x" using xt(2) nth_mem [OF k] by metis
    ultimately show "?a \<noteq> NULL \<and> (\<exists>nd. znodes m1 ?a = Some nd \<and> ht + k < length (zn_level nd))"
      unfolding h1 by (auto simp: at_levels_def)
  qed
  from untouched_loop_ok [OF this] obtain m2 where m2: "untouched_loop ht (drop ht ?us) m1 = Some m2" "zfreed m2 = zfreed m1"
    "znodes m2 = at_levels (\<lambda>_ l. (fst l, snd l + 1)) ht (drop ht ?us) (znodes m1)" by blast
  have "znodes m2 a = ((at_levels (insert_fun x ht ys) 0 ?us (znodes m))(x \<mapsto> nx\<lparr>zn_level := map (\<lambda>j. nxt j zs) [0..<ht]\<rparr>)) a" for a
  proof (cases "a = x")
    case True
    then show ?thesis using at_levels_other [OF xt(2)] m2(3) h1 by simp
  next
    case False
    have "znodes m2 a = at_levels (insert_fun x ht ys) ht (drop ht ?us) (znodes m1) a"
      unfolding m2(3) by (rule arg_cong [where f = "\<lambda>g. g a"], rule at_levels_cong) (auto simp: insert_fun_def)
    also have "\<dots> = at_levels (insert_fun x ht ys) ht (drop ht ?us) (at_levels (insert_fun x ht ys) 0 (take ht ?us) (znodes m)) a"
      using False unfolding h1 by (simp add: at_levels_def)
    also have "\<dots> = at_levels (insert_fun x ht ys) 0 (take ht ?us @ drop ht ?us) (znodes m) a"
      using ht by (simp add: at_levels_append del: append_take_drop_id)
    finally show ?thesis using False by simp
  qed
  then have "znodes m2 = (at_levels (insert_fun x ht ys) 0 ?us (znodes m))(x \<mapsto> nx\<lparr>zn_level := map (\<lambda>j. nxt j zs) [0..<ht]\<rparr>)" by (rule ext)
  then show ?thesis using m1(1,2) m2(1,2) by (intro exI [of _ m1] exI [of _ m2]) (simp add: map_fst_drop_marks)
qed

lemma nxt_fst_at: "i < el_height e \<Longrightarrow> nxt i (e # zs) = (el_addr e, 1)" "\<not> i < el_height e \<Longrightarrow> nxt i (e # zs) = (fst (nxt i zs), snd (nxt i zs) + 1)"
  by simp_all

lemma insert_fun_nxt:
  assumes "el_addr e = x" "el_height e = ht"
  shows "insert_fun x ht ys j (fst (nxt j zs), snd (nxt j zs) + of_nat (length ys - upos j ys))
     = (fst (nxt j (e # zs)), snd (nxt j (e # zs)) + of_nat (length ys - upos j ys))"
  using assms upos_le [of j ys] by (simp add: insert_fun_def of_nat_diff)

lemma linksI:
  assumes "hdr \<noteq> NULL" "znodes m hdr = Some nd" "hdr_ok nd L xs" "seg (znodes m) NULL xs []" "distinct (hdr # map el_addr xs)"
    "\<And>x. x \<in> set xs \<Longrightarrow> el_addr x \<noteq> NULL \<and> 0 < el_height x \<and> el_height x \<le> L" "1 \<le> L" "L \<le> ZSKIPLIST_MAXLEVEL"
  shows "links m hdr L xs"
  using assms by (auto simp: links_def)

lemma insert_links:
  assumes l: "links m hdr L (ys @ zs)" and x: "x \<noteq> NULL" "x \<notin> insert hdr (el_addr ` set (ys @ zs))" and ht: "0 < ht" "ht \<le> L"
    and e: "e = \<lparr>el_addr = x, el_height = ht, el_score = score, el_ele = ele\<rparr>"
    and nx: "nx = \<lparr>zn_ele = Some ele, zn_score = score, zn_backward = b, zn_level = lv\<rparr>" "length lv = ht"
  shows "\<exists>m1 m2 m3 m4. insert_loop x (of_nat (length ys)) 0 (take ht (marks hdr ys L)) (put_node x nx m) = Some m1
      \<and> untouched_loop ht (map fst (drop ht (marks hdr ys L))) m1 = Some m2
      \<and> set_backward x (last_el NULL ys) m2 = Some m3
      \<and> zsl_relink x x zsl m3 = Some (if zs = [] then zsl\<lparr>zsl_tail := x\<rparr> else zsl, m4)
      \<and> links m4 hdr L (ys @ e # zs) \<and> only_at (insert hdr (el_addr ` set (ys @ e # zs))) m m4"
proof -
  let ?us = "stops hdr ys L" and ?nx = "nx\<lparr>zn_level := map (\<lambda>j. nxt j zs) [0..<ht]\<rparr>"
  note els = links_nodes [OF l]
  have "length (zn_level nx) = ht" using nx by simp
  from insert_heap [OF l x ht this] obtain m1 m2 where
    m1: "insert_loop x (of_nat (length ys)) 0 (take ht (marks hdr ys L)) (put_node x nx m) = Some m1" and
    m2: "untouched_loop ht (map fst (drop ht (marks hdr ys L))) m1 = Some m2" "zfreed m2 = zfreed m"
      "znodes m2 = (at_levels (insert_fun x ht ys) 0 ?us (znodes m))(x \<mapsto> ?nx)" by blast
  have set_ys: "set ?us \<subseteq> insert hdr (el_addr ` set ys)" by (rule stops_in)
  let ?n = "el_node (last_el NULL ys) e zs"
  have nxe: "?nx\<lparr>zn_backward := last_el NULL ys\<rparr> = ?n" using nx e by (simp add: el_node_def)
  let ?m3 = "put_node x ?n m2"
  have m3: "set_backward x (last_el NULL ys) m2 = Some ?m3"
    using x(1) m2(3) nxe by (simp add: set_backward_def znode_at_def)
  have "seg (znodes m) NULL (ys @ zs) []" using l by (simp add: links_def)
  then have sys: "seg (znodes m) NULL ys zs" "seg (znodes m) (last_el NULL ys) zs []" by (simp_all add: seg_append)
  have dys: "distinct (hdr # map el_addr ys)" using els(7) by auto
  have hys: "\<forall>y \<in> set ys. el_height y \<le> L" using els(4) by auto
  have h3: "znodes ?m3 = (at_levels (insert_fun x ht ys) 0 ?us (znodes m))(x \<mapsto> ?n)" using m2(3) by simp
  have fn: "insert_fun x ht ys j (fst (nxt j zs), snd (nxt j zs) + of_nat (length ys - upos j ys))
     = (fst (nxt j (e # zs)), snd (nxt j (e # zs)) + of_nat (length ys - upos j ys))" for j
    by (rule insert_fun_nxt) (simp_all add: e)
  have "seg (at_levels (insert_fun x ht ys) 0 ?us (znodes m)) NULL ys (e # zs)"
    by (rule seg_at_levels [OF sys(1) dys hys], rule fn)
  moreover have "x \<notin> el_addr ` set ys" using x(2) by auto
  ultimately have s1: "seg (znodes ?m3) NULL ys (e # zs)" unfolding h3 by simp
  have "znodes ?m3 (el_addr z) = znodes m (el_addr z)" if "z \<in> set zs" for z
  proof -
    have "el_addr z \<notin> insert hdr (el_addr ` set ys)" "el_addr z \<noteq> x" using that els(7) x(2) by auto
    then have "el_addr z \<notin> set ?us" "el_addr z \<noteq> x" using set_ys by blast+
    then show ?thesis unfolding h3 by (simp add: at_levels_other)
  qed
  then have s2: "seg (znodes ?m3) (last_el NULL ys) zs []" using seg_cong [of zs "znodes ?m3" "znodes m"] sys(2) by blast
  have lv0: "level_of ?m3 x 0 = Some (nxt 0 zs)" using x(1) ht e by (simp add: level_of_def znode_at_def el_node_def)
  have "\<forall>z \<in> set zs. 0 < el_height z \<and> el_addr z \<noteq> NULL" "distinct (map el_addr zs)" using els(2,3,7) by auto
  from relink_ok [OF this(1) s2 this(2) lv0, of x zsl] obtain m4 where
    m4: "zsl_relink x x zsl ?m3 = Some (if zs = [] then zsl\<lparr>zsl_tail := x\<rparr> else zsl, m4)" "only_at (el_addr ` set zs) ?m3 m4"
      "seg (znodes m4) x zs []" by blast
  obtain nd where nd: "znodes m hdr = Some nd" "hdr_ok nd L (ys @ zs)" using l by (auto simp: links_def)
  have allh: "\<forall>y \<in> set (ys @ zs) \<union> set (ys @ e # zs). el_height y \<le> L" using els(4) ht e by auto
  obtain nd' where nd': "at_levels (insert_fun x ht ys) 0 ?us (znodes m) hdr = Some nd'" "hdr_ok nd' L (ys @ e # zs)"
    using hdr_at_levels [where h = "znodes m" and ys = ys and ws = zs and ws' = "e # zs" and f = "insert_fun x ht ys", OF nd dys els(6) allh] fn by blast
  have keep: "znodes m4 a = znodes ?m3 a" if "a \<notin> el_addr ` set zs" for a using m4(2) that by (simp add: only_at_def)
  have "links m4 hdr L (ys @ e # zs)"
  proof (rule linksI [OF els(1) _ nd'(2)])
    show "znodes m4 hdr = Some nd'" using keep [of hdr] els(7) x(2) nd'(1) unfolding h3 by auto
    have "znodes m4 (el_addr y) = znodes ?m3 (el_addr y)" if "y \<in> set ys" for y
      by (rule keep) (use els(7) that in auto)
    then have "seg (znodes m4) NULL ys (e # zs)" using seg_cong [of ys "znodes m4" "znodes ?m3"] s1 by blast
    moreover have "znodes m4 x = Some ?n" using keep [of x] x(2) by auto
    ultimately show "seg (znodes m4) NULL (ys @ e # zs) []" using m4(3) e by (simp add: seg_append)
  qed (use els x ht e in auto)
  moreover have "only_at (insert hdr (el_addr ` set (ys @ e # zs))) m m4"
  proof -
    have "only_at (insert hdr (el_addr ` set (ys @ e # zs))) m ?m3"
      unfolding only_at_def
    proof (intro conjI allI impI)
      fix a assume a: "a \<notin> insert hdr (el_addr ` set (ys @ e # zs))"
      then have "a \<noteq> x" "a \<notin> set ?us" using set_ys e by auto
      then show "znodes ?m3 a = znodes m a" unfolding h3 by (simp add: at_levels_other)
    qed (use m2(2) in simp)
    moreover have "only_at (insert hdr (el_addr ` set (ys @ e # zs))) ?m3 m4" by (rule only_at_mono [OF m4(2)]) auto
    ultimately show ?thesis by (rule only_at_trans)
  qed
  ultimately show ?thesis using m1 m2(1) m3 m4(1) by blast
qed

section \<open>Deletion\<close>

definition delete_fun :: "addr \<Rightarrow> znode \<Rightarrow> nat \<Rightarrow> addr \<times> 64 word \<Rightarrow> addr \<times> 64 word" where
  "delete_fun x nx j l = (if fst l = x then (fst (zn_level nx ! j), snd l + (snd (zn_level nx ! j) - 1)) else (fst l, snd l - 1))"

lemma fst_nxt_other: "a \<noteq> NULL \<Longrightarrow> a \<notin> el_addr ` set zs \<Longrightarrow> fst (nxt j zs) \<noteq> a"
  using fst_nxt [of j zs] by auto

lemma delete_fun_nxt:
  assumes "el_addr e \<noteq> NULL" "el_addr e \<notin> el_addr ` set zs"
  shows "delete_fun (el_addr e) (el_node b e zs) j (fst (nxt j (e # zs)), snd (nxt j (e # zs)) + d) = (fst (nxt j zs), snd (nxt j zs) + d)"
  using fst_nxt_other [OF assms] by (simp add: delete_fun_def el_node_def)

lemma delete_links:
  assumes l: "links m hdr L (ys @ e # zs)"
  shows "\<exists>m1 m2. delete_loop (el_addr e) 0 (stops hdr ys L) m = Some m1
      \<and> znode_at m1 (el_addr e) = Some (el_node (last_el NULL ys) e zs)
      \<and> zsl_relink (el_addr e) (last_el NULL ys) zsl m1 = Some (if zs = [] then zsl\<lparr>zsl_tail := last_el NULL ys\<rparr> else zsl, m2)
      \<and> links m2 hdr L (ys @ zs) \<and> only_at (insert hdr (el_addr ` set (ys @ zs))) m m2
      \<and> znodes m2 (el_addr e) = Some (el_node (last_el NULL ys) e zs)"
proof -
  let ?x = "el_addr e" and ?nx = "el_node (last_el NULL ys) e zs" and ?us = "stops hdr ys L"
  note els = links_nodes [OF l]
  have x: "?x \<noteq> NULL" "?x \<notin> el_addr ` set zs" "?x \<notin> insert hdr (el_addr ` set ys)" using els(2,7) by auto
  have set_ys: "set ?us \<subseteq> insert hdr (el_addr ` set ys)" by (rule stops_in)
  have "seg (znodes m) NULL (ys @ e # zs) []" using l by (simp add: links_def)
  then have sys: "seg (znodes m) NULL ys (e # zs)" "znodes m ?x = Some ?nx" "seg (znodes m) ?x zs []" by (simp_all add: seg_append)
  have "k < length (zn_level ?nx)"
    if "k < length ?us" "znodes m (?us ! k) = Some nd" "fst (zn_level nd ! (0 + k)) = ?x" for k nd
  proof -
    have "fst (nxt k (e # zs)) = ?x" using stops_level [OF l, of k] that by auto
    then show ?thesis using fst_nxt_other [OF x(1,2), of k] by (simp add: el_node_def split: if_splits)
  qed
  then have short: "\<forall>k < length ?us. \<forall>nd. znodes m (?us ! k) = Some nd \<and> fst (zn_level nd ! (0 + k)) = ?x \<longrightarrow> 0 + k < length (zn_level ?nx)"
    by simp
  have "?x \<notin> set ?us" using x(3) set_ys by blast
  from delete_loop_ok [OF x(1) sys(2) levels_ok_stops [OF l] this short] obtain m1 where m1: "delete_loop ?x 0 ?us m = Some m1" "zfreed m1 = zfreed m"
    "znodes m1 = at_levels (delete_fun ?x ?nx) 0 ?us (znodes m)" unfolding delete_fun_def [abs_def] by blast
  have keep1: "znodes m1 a = znodes m a" if "a \<notin> insert hdr (el_addr ` set ys)" for a
    unfolding m1(3) using that set_ys by (intro at_levels_other) blast
  have x1: "znodes m1 ?x = Some ?nx" using keep1 x(3) sys(2) by simp
  have dys: "distinct (hdr # map el_addr ys)" using els(7) by auto
  have hys: "\<forall>y \<in> set ys. el_height y \<le> L" using els(4) by auto
  have s1: "seg (znodes m1) NULL ys zs"
    unfolding m1(3) by (rule seg_at_levels [OF sys(1) dys hys], rule delete_fun_nxt) (use x in auto)
  have "znodes m1 (el_addr z) = znodes m (el_addr z)" if "z \<in> set zs" for z
    by (rule keep1) (use that els(7) in auto)
  then have s2: "seg (znodes m1) ?x zs []" using seg_cong [of zs "znodes m1" "znodes m"] sys(3) by blast
  have lv0: "level_of m1 ?x 0 = Some (nxt 0 zs)" using x(1) x1 els(3) [of e] by (simp add: level_of_def znode_at_def el_node_def)
  have "\<forall>z \<in> set zs. 0 < el_height z \<and> el_addr z \<noteq> NULL" "distinct (map el_addr zs)" using els(2,3,7) by auto
  from relink_ok [OF this(1) s2 this(2) lv0, of "last_el NULL ys" zsl] obtain m2 where
    m2: "zsl_relink ?x (last_el NULL ys) zsl m1 = Some (if zs = [] then zsl\<lparr>zsl_tail := last_el NULL ys\<rparr> else zsl, m2)"
      "only_at (el_addr ` set zs) m1 m2" "seg (znodes m2) (last_el NULL ys) zs []" by blast
  obtain nd where nd: "znodes m hdr = Some nd" "hdr_ok nd L (ys @ e # zs)" using l by (auto simp: links_def)
  have allh: "\<forall>y \<in> set (ys @ e # zs) \<union> set (ys @ zs). el_height y \<le> L" using els(4) by auto
  obtain nd' where nd': "at_levels (delete_fun ?x ?nx) 0 ?us (znodes m) hdr = Some nd'" "hdr_ok nd' L (ys @ zs)"
    using hdr_at_levels [where h = "znodes m" and ys = ys and ws = "e # zs" and ws' = zs and f = "delete_fun ?x ?nx", OF nd dys els(6) allh]
      delete_fun_nxt x by blast
  have keep: "znodes m2 a = znodes m1 a" if "a \<notin> el_addr ` set zs" for a using m2(2) that by (simp add: only_at_def)
  have "links m2 hdr L (ys @ zs)"
  proof (rule linksI [OF els(1) _ nd'(2)])
    show "znodes m2 hdr = Some nd'" using keep [of hdr] els(7) nd'(1) unfolding m1(3) by auto
    have "znodes m2 (el_addr y) = znodes m1 (el_addr y)" if "y \<in> set ys" for y
      by (rule keep) (use els(7) that in auto)
    then have "seg (znodes m2) NULL ys zs" using seg_cong [of ys "znodes m2" "znodes m1"] s1 by blast
    then show "seg (znodes m2) NULL (ys @ zs) []" using m2(3) by (simp add: seg_append)
  qed (use els in auto)
  moreover have "only_at (insert hdr (el_addr ` set (ys @ zs))) m m2"
  proof -
    have "only_at (insert hdr (el_addr ` set (ys @ zs))) m m1" using keep1 m1(2) by (auto simp: only_at_def)
    moreover have "only_at (insert hdr (el_addr ` set (ys @ zs))) m1 m2" by (rule only_at_mono [OF m2(2)]) auto
    ultimately show ?thesis by (rule only_at_trans)
  qed
  moreover have "znode_at m1 ?x = Some ?nx" using x(1) x1 by (simp add: znode_at_def)
  moreover have "znodes m2 ?x = Some ?nx" using keep [of ?x] x(2) x1 by simp
  ultimately show ?thesis using m1(1) m2(1) by blast
qed

text \<open>The level of a skiplist is 1 or the height of an element.\<close>

definition tight :: "nat \<Rightarrow> zel list \<Rightarrow> bool" where
  "tight L xs \<longleftrightarrow> L = 1 \<or> (\<exists>x \<in> set xs. el_height x = L)"

lemma shrink_links: "links m hdr L xs \<Longrightarrow> \<exists>L'. shrink_level m hdr L = Some L' \<and> links m hdr L' xs \<and> tight L' xs"
proof (induction m hdr L rule: shrink_level.induct)
  case (1 m hdr n)
  have lv: "level_of m hdr (Suc n) = Some (nxt (Suc n) xs)" using level_pos [OF 1(2), of 0 "Suc n"] by simp
  have "NULL \<notin> el_addr ` set xs" using links_nodes(2) [OF 1(2)] by auto
  then have null: "fst (nxt (Suc n) xs) = NULL \<longleftrightarrow> (\<forall>x \<in> set xs. el_height x \<le> Suc n)" by (rule fst_nxt_null)
  show ?case
  proof (cases "fst (nxt (Suc n) xs) = NULL")
    case True
    have "links m hdr (Suc n) xs" using 1(2) null True by (auto simp: links_def hdr_ok_def)
    moreover have "shrink_level m hdr (Suc (Suc n)) = shrink_level m hdr (Suc n)"
      using lv True by (cases "nxt (Suc n) xs") simp
    ultimately show ?thesis using 1(1) [OF lv prod.collapse True] by simp
  next
    case False
    then obtain x where x: "x \<in> set xs" "\<not> el_height x \<le> Suc n" using null by auto
    then have "el_height x = Suc (Suc n)" using links_nodes(4) [OF 1(2), of x] by linarith
    then have "tight (Suc (Suc n)) xs" using x(1) by (auto simp: tight_def)
    moreover have "shrink_level m hdr (Suc (Suc n)) = Some (Suc (Suc n))"
      using lv False by (cases "nxt (Suc n) xs") simp
    ultimately show ?thesis using 1(2) by simp
  qed
qed (simp_all add: links_def tight_def)

end
