(* ===== verification/Skiplist_Props.thy ===== *)
theory Skiplist_Props
  imports Skiplist_Update
begin

text \<open>
  A skiplist is the sorted list of its elements: insertion, deletion and the change of a score on it, the ranks,
  the ranges and their deletion.
\<close>

section \<open>Sorted skiplists\<close>

definition ekey :: "zel \<Rightarrow> int \<times> bytes" where
  "ekey x = (score_key (el_score x), el_ele x)"

definition zsl_rep :: "zskiplist \<Rightarrow> zmem \<Rightarrow> zel list \<Rightarrow> bool" where
  "zsl_rep zsl m xs \<longleftrightarrow> links m (zsl_header zsl) (zsl_level zsl) xs \<and> tight (zsl_level zsl) xs
     \<and> zsl_tail zsl = last_el NULL xs \<and> zsl_length zsl = of_nat (length xs)
     \<and> sorted_wrt (<) (map ekey xs) \<and> (\<forall>x \<in> set xs. \<not> isnan (el_score x))"

definition zsl_nodes :: "zskiplist \<Rightarrow> zel list \<Rightarrow> addr set" where
  "zsl_nodes zsl xs = insert (zsl_header zsl) (el_addr ` set xs)"

text \<open>The elements as the client sees them.\<close>

definition elements :: "zel list \<Rightarrow> (double \<times> bytes) list" where
  "elements xs = map (\<lambda>x. (el_score x, el_ele x)) xs"

lemma ekey_elements: "map zkey (elements xs) = map ekey xs"
  by (simp add: elements_def ekey_def zkey_def)

lemma zsl_repD:
  assumes "zsl_rep zsl m xs"
  shows "links m (zsl_header zsl) (zsl_level zsl) xs" "sorted_wrt (<) (map ekey xs)" "x \<in> set xs \<Longrightarrow> \<not> isnan (el_score x)"
    "zsl_tail zsl = last_el NULL xs" "zsl_length zsl = of_nat (length xs)"
  using assms by (auto simp: zsl_rep_def)

lemma zsl_nodes_dom: "zsl_rep zsl m xs \<Longrightarrow> zsl_nodes zsl xs \<subseteq> dom (znodes m)"
proof
  fix a assume r: "zsl_rep zsl m xs" and "a \<in> zsl_nodes zsl xs"
  then consider "a = zsl_header zsl" | k where "k < length xs" "a = el_addr (xs ! k)"
    by (auto simp: zsl_nodes_def in_set_conv_nth)
  then show "a \<in> dom (znodes m)"
  proof cases
    case 1
    then show ?thesis using zsl_repD(1) [OF r] by (auto simp: links_def)
  next
    case 2
    then show ?thesis using links_nth [OF zsl_repD(1) [OF r] 2(1)] by (auto simp: znode_at_def split: if_splits)
  qed
qed

text \<open>Searches by a condition on the element.\<close>

lemma cutI:
  assumes l: "links m hdr L (ys @ zs)"
    and "\<And>y b ws r. y \<in> set ys \<Longrightarrow> go (el_node b y ws) r = Some True"
    and "\<And>z b ws r. z \<in> set zs \<Longrightarrow> go (el_node b z ws) r = Some False"
  shows "cut go m (ys @ zs) (length ys)"
  unfolding cut_def
proof (intro conjI allI impI)
  fix k assume k: "k < length (ys @ zs)"
  have "go (el_node (last_el NULL (take k (ys @ zs))) ((ys @ zs) ! k) (drop (Suc k) (ys @ zs))) (of_nat (Suc k)) = Some (k < length ys)"
    using assms(2,3) k by (cases "k < length ys") (simp_all add: nth_append)
  then show "\<exists>f. znode_at m (el_addr ((ys @ zs) ! k)) = Some f \<and> go f (of_nat (Suc k)) = Some (k < length ys)"
    using links_nth [OF l k] by blast
qed simp

lemma before_el: "\<not> isnan score \<Longrightarrow> \<not> isnan (el_score y) \<Longrightarrow>
    zsl_before score ele (el_node b y ws) = Some (ekey y < (score_key score, ele))"
  by (auto simp: zsl_before_def el_node_def dlt_def deq_def ekey_def less_prod_simp)

lemma upto_el: "\<not> isnan score \<Longrightarrow> \<not> isnan (el_score y) \<Longrightarrow>
    zsl_upto score ele (el_node b y ws) = Some (ekey y \<le> (score_key score, ele))"
  by (auto simp: zsl_upto_def el_node_def dlt_def deq_def ekey_def less_eq_prod_simp)

lemma split_before:
  fixes k :: "'k::linorder"
  assumes "sorted_wrt (<) (map f xs)"
  obtains ys zs where "xs = ys @ zs" "\<forall>y \<in> set ys. f y < k" "\<forall>z \<in> set zs. k \<le> f z"
proof
  show "xs = takeWhile (\<lambda>x. f x < k) xs @ dropWhile (\<lambda>x. f x < k) xs" by simp
  show "\<forall>y \<in> set (takeWhile (\<lambda>x. f x < k) xs). f y < k" by (auto dest: set_takeWhileD)
  show "\<forall>z \<in> set (dropWhile (\<lambda>x. f x < k) xs). k \<le> f z"
    using assms by (induction xs) (auto simp: less_imp_le intro: order.strict_implies_order order_trans)
qed

lemma cut_before:
  assumes "zsl_rep zsl m (ys @ zs)" "\<not> isnan score" "\<forall>y \<in> set ys. ekey y < (score_key score, ele)" "\<forall>z \<in> set zs. (score_key score, ele) \<le> ekey z"
  shows "cut (\<lambda>f _. zsl_before score ele f) m (ys @ zs) (length ys)"
  using assms(2-4) zsl_repD(3) [OF assms(1)]
  by (intro cutI [OF zsl_repD(1) [OF assms(1)]]) (auto simp: before_el not_less)

section \<open>Insertion\<close>

text \<open>The allocator has room: it returns a new address, whatever the nodes now allocated hold.\<close>

definition fresh_for :: "(znodes \<Rightarrow> addr) \<Rightarrow> addr set \<Rightarrow> bool" where
  "fresh_for zmalloc A \<longleftrightarrow> (\<forall>h. dom h = A \<longrightarrow> zmalloc h \<noteq> NULL \<and> zmalloc h \<notin> A)"

lemma random_level: "zslRandomLevel rs = Some ht \<Longrightarrow> 1 \<le> ht \<and> ht \<le> ZSKIPLIST_MAXLEVEL"
proof -
  have "1 \<le> level \<Longrightarrow> zslRandomLevel_loop rs level = Some ht \<Longrightarrow> 1 \<le> ht" for level ht
    by (induction rs arbitrary: level) (auto split: if_splits)
  then show "zslRandomLevel rs = Some ht \<Longrightarrow> ?thesis"
    by (fastforce simp: zslRandomLevel_def ZSKIPLIST_MAXLEVEL_def split: Option.bind_splits if_splits)
qed

lemma random_level_exists: "(\<exists>r \<in> set rs. zsl_threshold \<le> r) \<longleftrightarrow> (\<exists>ht. zslRandomLevel rs = Some ht)"
proof -
  have "(\<exists>r \<in> set rs. zsl_threshold \<le> r) \<longleftrightarrow> (\<exists>ht. zslRandomLevel_loop rs level = Some ht)" for level
    by (induction rs arbitrary: level) (auto simp: not_le)
  then show ?thesis by (fastforce simp: zslRandomLevel_def split: Option.bind_splits)
qed

lemma insort_key_split:
  assumes "\<forall>y \<in> set ys. f y < f x" "\<forall>z \<in> set zs. f x \<le> f z"
  shows "insort_key f x (ys @ zs) = ys @ x # zs"
  using assms by (induction ys) (auto simp: not_le, cases zs, auto)

lemma marks_raise:
  assumes l: "links m hdr L (ys @ zs)" and "L \<le> N"
  shows "marks hdr ys L @ replicate (N - L) (hdr, 0) = marks hdr ys N"
proof -
  have "upos j ys = 0" if "L \<le> j" for j
    using links_nodes(4) [OF l] that by (auto simp: upos_0 intro: le_trans)
  then have "map (\<lambda>j. (pos_addr hdr ys (upos j ys), of_nat (upos j ys))) [L..<N] = replicate (N - L) (hdr, 0 :: 64 word)"
    by (intro replicate_eqI) auto
  moreover have "[0..<N] = [0..<L] @ [L..<N]" using assms(2) upt_add_eq_append [of 0 L "N - L"] by simp
  ultimately show ?thesis by (simp add: marks_def)
qed

lemma pos_addr_last: "pos_addr hdr ys (length ys) = last_el hdr ys"
  by (cases ys rule: rev_cases) (simp_all add: nth_append)

lemma marks_hd:
  assumes "0 < N" "\<forall>y \<in> set ys. 0 < el_height y"
  shows "marks hdr ys N = (last_el hdr ys, of_nat (length ys)) # tl (marks hdr ys N)"
  using assms(1) upos0 [OF assms(2)] by (simp add: marks_def upt_conv_Cons pos_addr_last)

lemma only_at_dom: "only_at A m m' \<Longrightarrow> A \<subseteq> dom (znodes m) \<Longrightarrow> A \<subseteq> dom (znodes m') \<Longrightarrow> dom (znodes m') = dom (znodes m)"
  unfolding only_at_def by (rule set_eqI, case_tac "x \<in> A") (auto simp: domIff)

lemma zslInsert_ok:
  assumes r: "zsl_rep zsl m (ys @ zs)" and s: "\<not> isnan score"
    and k: "\<forall>y \<in> set ys. ekey y < (score_key score, ele)" "\<forall>z \<in> set zs. (score_key score, ele) < ekey z"
    and ht: "zslRandomLevel rs = Some ht" and fr: "fresh_for zmalloc (dom (znodes m))"
  shows "\<exists>x zsl' m'. zslInsert zmalloc rs zsl score ele m = Some (x, zsl', m')
      \<and> zsl_rep zsl' m' (ys @ \<lparr>el_addr = x, el_height = ht, el_score = score, el_ele = ele\<rparr> # zs)
      \<and> zsl_header zsl' = zsl_header zsl \<and> x \<notin> dom (znodes m) \<and> only_at (insert x (zsl_nodes zsl (ys @ zs))) m m'"
proof -
  let ?hdr = "zsl_header zsl" and ?L = "zsl_level zsl"
  note l = zsl_repD(1) [OF r]
  define N where "N = max ?L ht"
  have hh: "1 \<le> ht" "ht \<le> N" "?L \<le> N" "N \<le> ZSKIPLIST_MAXLEVEL"
    using random_level [OF ht] links_nodes(6) [OF l] by (auto simp: N_def)
  have d: "zsl_descend (\<lambda>f _. zsl_before score ele f) m ?L ?hdr 0 = Some (marks ?hdr ys ?L)"
    by (rule descend_marks [OF l cut_before [OF r s k(1)]]) (use k(2) in auto)
  obtain m0 where m0: "raise_loop ?hdr (of_nat (length (ys @ zs))) ?L (N - ?L) m = Some m0" "links m0 ?hdr N (ys @ zs)" "only_at {?hdr} m m0"
    using raise_links [OF l hh(3,4)] by blast
  have raise: "(if ht > ?L then do {
             m \<leftarrow> raise_loop ?hdr (zsl_length zsl) ?L (ht - ?L) m;
             Some (zsl\<lparr>zsl_level := ht\<rparr>, marks ?hdr ys ?L @ replicate (ht - ?L) (?hdr, 0), m) }
           else Some (zsl, marks ?hdr ys ?L, m)) = Some (zsl\<lparr>zsl_level := N\<rparr>, marks ?hdr ys N, m0)"
  proof (cases "ht > ?L")
    case True
    then show ?thesis using m0(1) marks_raise [OF l hh(3)] zsl_repD(5) [OF r] by (simp add: N_def max_def)
  next
    case False
    then show ?thesis using m0(1) by (simp add: N_def max_def)
  qed
  have nodes: "insert ?hdr (el_addr ` set (ys @ zs)) \<subseteq> dom (znodes m)"
    using zsl_nodes_dom [OF r] by (simp add: zsl_nodes_def)
  have "?hdr \<in> dom (znodes m0)" using m0(2) by (auto simp: links_def)
  then have dom0: "dom (znodes m0) = dom (znodes m)" using only_at_dom [OF m0(3)] nodes by simp
  define x where "x = zmalloc (znodes m0)"
  have x: "x \<noteq> NULL" "x \<notin> dom (znodes m)" using fr dom0 unfolding fresh_for_def x_def by metis+
  then have x': "x \<notin> insert ?hdr (el_addr ` set (ys @ zs))" using nodes by blast
  let ?e = "\<lparr>el_addr = x, el_height = ht, el_score = score, el_ele = ele\<rparr>"
  let ?nx = "\<lparr>zn_ele = Some ele, zn_score = score, zn_backward = indeterminate, zn_level = replicate ht (indeterminate, indeterminate)\<rparr>"
  have ht0: "0 < ht" using hh(1) by simp
  obtain m1 m2 m3 m4 where run: "insert_loop x (of_nat (length ys)) 0 (take ht (marks ?hdr ys N)) (put_node x ?nx m0) = Some m1"
      "untouched_loop ht (map fst (drop ht (marks ?hdr ys N))) m1 = Some m2"
      "set_backward x (last_el NULL ys) m2 = Some m3"
      "zsl_relink x x (zsl\<lparr>zsl_level := N\<rparr>) m3 = Some (if zs = [] then zsl\<lparr>zsl_level := N, zsl_tail := x\<rparr> else zsl\<lparr>zsl_level := N\<rparr>, m4)"
      and l4: "links m4 ?hdr N (ys @ ?e # zs)" "only_at (insert ?hdr (el_addr ` set (ys @ ?e # zs))) m0 m4"
    using insert_links [OF m0(2) x(1) x' ht0 hh(2) refl refl length_replicate, where zsl = "zsl\<lparr>zsl_level := N\<rparr>"] by blast
  have pos: "\<forall>y \<in> set ys. 0 < el_height y" using links_nodes(3) [OF l] by auto
  have bk: "(if last_el ?hdr ys = ?hdr then NULL else last_el ?hdr ys) = last_el NULL ys"
    using links_nodes(7) [OF l] by (cases ys rule: rev_cases) (auto simp: last_el_def)
  have mh: "(case marks ?hdr ys N of [] \<Rightarrow> None | u # _ \<Rightarrow> Some u) = Some (last_el ?hdr ys, of_nat (length ys))"
    using hh ht0 by (subst marks_hd) (simp_all add: pos)
  have hdN: "zsl_header (zsl\<lparr>zsl_level := N\<rparr>) = ?hdr" by simp
  let ?zsl = "(if zs = [] then zsl\<lparr>zsl_level := N, zsl_tail := x\<rparr> else zsl\<lparr>zsl_level := N\<rparr>)"
  have "zslInsert zmalloc rs zsl score ele m = Some (x, ?zsl\<lparr>zsl_length := zsl_length zsl + 1\<rparr>, m4)"
    unfolding zslInsert_def if_not_P [OF s] d Option.bind.bind_lunit ht raise prod.case
    unfolding zslCreateNode_def Let_def x_def [symmetric] prod.case
    unfolding mh Option.bind.bind_lunit prod.case run(1,2)
    unfolding hdN bk run(3) Option.bind.bind_lunit run(4) by simp
  moreover have "zsl_rep (?zsl\<lparr>zsl_length := zsl_length zsl + 1\<rparr>) m4 (ys @ ?e # zs)"
    unfolding zsl_rep_def
  proof (intro conjI)
    show "tight (zsl_level (?zsl\<lparr>zsl_length := zsl_length zsl + 1\<rparr>)) (ys @ ?e # zs)"
      using r by (auto simp: zsl_rep_def tight_def N_def max_def)
    show "sorted_wrt (<) (map ekey (ys @ ?e # zs))"
      using zsl_repD(2) [OF r] k by (auto simp: sorted_wrt_append ekey_def [of ?e])
    show "\<forall>x \<in> set (ys @ ?e # zs). \<not> isnan (el_score x)" using zsl_repD(3) [OF r] s by auto
    show "zsl_tail (?zsl\<lparr>zsl_length := zsl_length zsl + 1\<rparr>) = last_el NULL (ys @ ?e # zs)"
      using zsl_repD(4) [OF r] by (auto simp: last_el_def)
  qed (use l4(1) zsl_repD(5) [OF r] in \<open>auto split: if_splits\<close>)
  moreover have "only_at (insert x (zsl_nodes zsl (ys @ zs))) m m4"
  proof (rule only_at_trans)
    show "only_at (insert x (zsl_nodes zsl (ys @ zs))) m m0" by (rule only_at_mono [OF m0(3)]) (simp add: zsl_nodes_def)
    show "only_at (insert x (zsl_nodes zsl (ys @ zs))) m0 m4" by (rule only_at_mono [OF l4(2)]) (auto simp: zsl_nodes_def)
  qed
  ultimately show ?thesis using x(2) by (intro exI [of _ x]) auto
qed

section \<open>Deletion\<close>

lemma links_cong:
  assumes "links m hdr L xs" "\<And>a. a \<in> insert hdr (el_addr ` set xs) \<Longrightarrow> znodes m' a = znodes m a"
  shows "links m' hdr L xs"
  using assms seg_cong [of xs "znodes m'" "znodes m"] by (auto simp: links_def)

lemma zsl_rep_cong:
  assumes "zsl_rep zsl m xs" "\<And>a. a \<in> zsl_nodes zsl xs \<Longrightarrow> znodes m' a = znodes m a"
  shows "zsl_rep zsl m' xs"
  using assms links_cong [of m "zsl_header zsl" "zsl_level zsl" xs m'] by (simp add: zsl_rep_def zsl_nodes_def)

lemma take_stops: "k \<le> N \<Longrightarrow> take k (stops hdr ys N) = stops hdr ys k"
  by (simp add: stops_def take_map)

lemma shrink_level_le: "shrink_level m hdr L = Some L' \<Longrightarrow> L' \<le> L"
  by (induction m hdr L rule: shrink_level.induct) (force split: Option.bind_splits prod.splits if_splits)+

lemma zslDeleteNode_ok:
  assumes r: "zsl_rep zsl m (ys @ e # zs)" and N: "zsl_level zsl \<le> N"
  shows "\<exists>zsl' m'. zslDeleteNode zsl (el_addr e) (stops (zsl_header zsl) ys N) m = Some (zsl', m')
      \<and> zsl_rep zsl' m' (ys @ zs) \<and> zsl_header zsl' = zsl_header zsl \<and> zsl_level zsl' \<le> zsl_level zsl
      \<and> only_at (zsl_nodes zsl (ys @ zs)) m m' \<and> znodes m' (el_addr e) = Some (el_node (last_el NULL ys) e zs)"
proof -
  let ?hdr = "zsl_header zsl" and ?L = "zsl_level zsl"
  note l = zsl_repD(1) [OF r]
  obtain m1 m2 where run: "delete_loop (el_addr e) 0 (stops ?hdr ys ?L) m = Some m1"
      "znode_at m1 (el_addr e) = Some (el_node (last_el NULL ys) e zs)"
      "zsl_relink (el_addr e) (last_el NULL ys) zsl m1 = Some (if zs = [] then zsl\<lparr>zsl_tail := last_el NULL ys\<rparr> else zsl, m2)"
    and l2: "links m2 ?hdr ?L (ys @ zs)" "only_at (insert ?hdr (el_addr ` set (ys @ zs))) m m2"
      "znodes m2 (el_addr e) = Some (el_node (last_el NULL ys) e zs)"
    using delete_links [OF l, where zsl = zsl] by blast
  obtain L' where L': "shrink_level m2 ?hdr ?L = Some L'" "links m2 ?hdr L' (ys @ zs)" "tight L' (ys @ zs)" "L' \<le> ?L"
    using shrink_links [OF l2(1)] shrink_level_le by blast
  let ?zsl = "if zs = [] then zsl\<lparr>zsl_tail := last_el NULL ys\<rparr> else zsl"
  let ?zsl' = "?zsl\<lparr>zsl_level := L', zsl_length := zsl_length zsl - 1\<rparr>"
  have sel: "zn_backward (el_node (last_el NULL ys) e zs) = last_el NULL ys" "zsl_header ?zsl = ?hdr" "zsl_level ?zsl = ?L" "zsl_length ?zsl = zsl_length zsl"
    by (simp_all add: el_node_def)
  have "zslDeleteNode zsl (el_addr e) (stops ?hdr ys N) m = Some (?zsl', m2)"
    unfolding zslDeleteNode_def take_stops [OF N] run(1,2) Option.bind.bind_lunit sel run(3) prod.case L'(1) by simp
  moreover have "zsl_rep ?zsl' m2 (ys @ zs)"
    unfolding zsl_rep_def
  proof (intro conjI)
    show "sorted_wrt (<) (map ekey (ys @ zs))" using zsl_repD(2) [OF r] by (auto simp: sorted_wrt_append)
    show "\<forall>x \<in> set (ys @ zs). \<not> isnan (el_score x)" using zsl_repD(3) [OF r] by auto
    show "zsl_tail ?zsl' = last_el NULL (ys @ zs)" using zsl_repD(4) [OF r] by (auto simp: last_el_def)
  qed (use L' zsl_repD(5) [OF r] in \<open>auto split: if_splits\<close>)
  ultimately show ?thesis using l2(2,3) L'(4) by (intro exI [of _ ?zsl'] exI [of _ m2]) (simp add: zsl_nodes_def)
qed

lemma search_el:
  assumes r: "zsl_rep zsl m xs" and s: "\<not> isnan score"
  obtains ys zs where "xs = ys @ zs" "\<forall>y \<in> set ys. ekey y < (score_key score, ele)" "\<forall>z \<in> set zs. (score_key score, ele) \<le> ekey z"
    "zsl_descend (\<lambda>f _. zsl_before score ele f) m (zsl_level zsl) (zsl_header zsl) 0 = Some (marks (zsl_header zsl) ys (zsl_level zsl))"
    "(case marks (zsl_header zsl) ys (zsl_level zsl) of [] \<Rightarrow> None | u # _ \<Rightarrow> Some u) = Some (last_el (zsl_header zsl) ys, of_nat (length ys))"
    "level_of m (last_el (zsl_header zsl) ys) 0 = Some (nxt 0 zs)"
proof -
  obtain ys zs where x: "xs = ys @ zs" "\<forall>y \<in> set ys. ekey y < (score_key score, ele)" "\<forall>z \<in> set zs. (score_key score, ele) \<le> ekey z"
    using split_before [OF zsl_repD(2) [OF r]] by blast
  note l = zsl_repD(1) [OF r, unfolded x(1)]
  have pos: "\<forall>y \<in> set ys. 0 < el_height y" "0 < zsl_level zsl" using links_nodes(3,5) [OF l] by auto
  show thesis
  proof (rule that [OF x])
    show "zsl_descend (\<lambda>f _. zsl_before score ele f) m (zsl_level zsl) (zsl_header zsl) 0 = Some (marks (zsl_header zsl) ys (zsl_level zsl))"
      by (rule descend_marks [OF l cut_before [OF r [unfolded x(1)] s x(2,3)]])
    show "(case marks (zsl_header zsl) ys (zsl_level zsl) of [] \<Rightarrow> None | u # _ \<Rightarrow> Some u) = Some (last_el (zsl_header zsl) ys, of_nat (length ys))"
      by (subst marks_hd) (simp_all add: pos)
    have "length ys = 0 \<or> 0 < el_height ((ys @ zs) ! (length ys - 1))"
      using pos(1) by (cases ys rule: rev_cases) (auto simp: nth_append)
    from level_pos [OF l _ pos(2) this] show "level_of m (last_el (zsl_header zsl) ys) 0 = Some (nxt 0 zs)"
      by (simp add: pos_addr_last)
  qed
qed

lemma match_el:
  assumes r: "zsl_rep zsl m (ys @ zs)" and "\<not> isnan score" "\<forall>z \<in> set zs. (score_key score, ele) \<le> ekey z"
  shows "zsl_match m (fst (nxt 0 zs)) score ele = Some (zs \<noteq> [] \<and> ekey (hd zs) = (score_key score, ele))"
proof (cases zs)
  case Nil
  then show ?thesis by (simp add: zsl_match_def)
next
  case (Cons z zs')
  note l = zsl_repD(1) [OF r]
  have "znode_at m (el_addr z) = Some (el_node (last_el NULL ys) z zs')"
    using links_nth [OF l, of "length ys"] Cons by simp
  moreover have "el_addr z \<noteq> NULL" "0 < el_height z" "\<not> isnan (el_score z)" using links_nodes(2,3) [OF l] zsl_repD(3) [OF r] Cons by auto
  ultimately show ?thesis using assms(2) Cons by (auto simp: zsl_match_def el_node_def deq_def ekey_def)
qed

text \<open>The node of \<open>e\<close> freed with its string, or left to the caller.\<close>

definition dropped :: "bool \<Rightarrow> zel \<Rightarrow> addr set \<Rightarrow> zmem \<Rightarrow> zmem \<Rightarrow> bool" where
  "dropped keep e A m m' \<longleftrightarrow>
     (if keep then zfreed m' = zfreed m \<and> znodes m' (el_addr e) \<noteq> None
      else zfreed m' = zfreed m @ [el_ele e] \<and> znodes m' (el_addr e) = None)
     \<and> (\<forall>a. a \<notin> insert (el_addr e) A \<longrightarrow> znodes m' a = znodes m a)"

lemma el_addr_notin:
  assumes "zsl_rep zsl m (ys @ e # zs)"
  shows "el_addr e \<notin> zsl_nodes zsl (ys @ zs)" "el_addr e \<noteq> NULL"
  using links_nodes(2,7) [OF zsl_repD(1) [OF assms]] by (auto simp: zsl_nodes_def)

lemma free_el:
  assumes r: "zsl_rep zsl m (ys @ e # zs)" and m: "only_at (zsl_nodes zsl (ys @ zs)) m m'" "znodes m' (el_addr e) = Some (el_node b e zs)"
    and r': "zsl_rep zsl' m' (ys @ zs)" "zsl_header zsl' = zsl_header zsl"
  shows "\<exists>m''. zslFreeNode (el_addr e) m' = Some m'' \<and> zsl_rep zsl' m'' (ys @ zs) \<and> dropped False e (zsl_nodes zsl (ys @ zs)) m m''"
proof -
  note x = el_addr_notin [OF r]
  let ?m = "\<lparr>znodes = (znodes m')(el_addr e := None), zfreed = zfreed m' @ [el_ele e]\<rparr>"
  have "zsl_rep zsl' ?m (ys @ zs)"
    by (rule zsl_rep_cong [OF r'(1)]) (use x r'(2) in \<open>auto simp: zsl_nodes_def\<close>)
  moreover have "zslFreeNode (el_addr e) m' = Some ?m" using x(2) m(2) by (simp add: zslFreeNode_def znode_at_def el_node_def)
  ultimately show ?thesis using m(1) by (intro exI [of _ ?m]) (simp add: dropped_def only_at_def)
qed

lemma split_unique:
  assumes "sorted_wrt (<) (map f (ys @ e # zs))" "ys @ e # zs = us @ vs" "\<forall>u \<in> set us. f u < f e" "\<forall>v \<in> set vs. (f e :: 'k::linorder) \<le> f v"
  shows "us = ys" "vs = e # zs"
proof -
  have a: "\<forall>y \<in> set ys. f y < f e" "\<forall>z \<in> set (e # zs). \<not> f z < f e" using assms(1) by (auto simp: sorted_wrt_append)
  have "takeWhile (\<lambda>x. f x < f e) (ys @ e # zs) = ys" "dropWhile (\<lambda>x. f x < f e) (ys @ e # zs) = e # zs"
    using a by (simp_all add: takeWhile_append2 dropWhile_append2)
  moreover have "takeWhile (\<lambda>x. f x < f e) (us @ vs) = us" "dropWhile (\<lambda>x. f x < f e) (us @ vs) = vs"
    using assms(3,4) by (cases vs; auto simp: takeWhile_append2 dropWhile_append2 not_less)+
  ultimately show "us = ys" "vs = e # zs" using assms(2) by auto
qed

lemma search_found:
  assumes r: "zsl_rep zsl m (ys @ e # zs)" and s: "\<not> isnan score" and e: "ekey e = (score_key score, ele)"
  shows "zsl_descend (\<lambda>f _. zsl_before score ele f) m (zsl_level zsl) (zsl_header zsl) 0 = Some (marks (zsl_header zsl) ys (zsl_level zsl))"
    "(case marks (zsl_header zsl) ys (zsl_level zsl) of [] \<Rightarrow> None | u # _ \<Rightarrow> Some u) = Some (last_el (zsl_header zsl) ys, of_nat (length ys))"
    "level_of m (last_el (zsl_header zsl) ys) 0 = Some (el_addr e, 1)"
    "zsl_match m (el_addr e) score ele = Some True"
proof -
  obtain us vs where x: "ys @ e # zs = us @ vs" "\<forall>y \<in> set us. ekey y < ekey e" "\<forall>z \<in> set vs. ekey e \<le> ekey z"
    "zsl_descend (\<lambda>f _. zsl_before score ele f) m (zsl_level zsl) (zsl_header zsl) 0 = Some (marks (zsl_header zsl) us (zsl_level zsl))"
    "(case marks (zsl_header zsl) us (zsl_level zsl) of [] \<Rightarrow> None | u # _ \<Rightarrow> Some u) = Some (last_el (zsl_header zsl) us, of_nat (length us))"
    "level_of m (last_el (zsl_header zsl) us) 0 = Some (nxt 0 vs)"
    using search_el [OF r s, of ele] unfolding e by metis
  note u = split_unique [OF zsl_repD(2) [OF r] x(1-3)]
  have "nxt 0 (e # zs) = (el_addr e, 1)" using links_nodes(3) [OF zsl_repD(1) [OF r], of e] by simp
  then show "zsl_descend (\<lambda>f _. zsl_before score ele f) m (zsl_level zsl) (zsl_header zsl) 0 = Some (marks (zsl_header zsl) ys (zsl_level zsl))"
    "(case marks (zsl_header zsl) ys (zsl_level zsl) of [] \<Rightarrow> None | u # _ \<Rightarrow> Some u) = Some (last_el (zsl_header zsl) ys, of_nat (length ys))"
    "level_of m (last_el (zsl_header zsl) ys) 0 = Some (el_addr e, 1)"
    "zsl_match m (el_addr e) score ele = Some True"
    using x(4-6) match_el [OF r s, of ele] x(3) e unfolding u by simp_all
qed

lemma zslDelete_found:
  assumes r: "zsl_rep zsl m (ys @ e # zs)" and s: "\<not> isnan score" and e: "ekey e = (score_key score, ele)"
  shows "\<exists>zsl' m'. zslDelete keep zsl score ele m = Some (Some (el_addr e), zsl', m') \<and> zsl_rep zsl' m' (ys @ zs)
     \<and> zsl_header zsl' = zsl_header zsl \<and> dropped keep e (zsl_nodes zsl (ys @ zs)) m m'"
proof -
  note f = search_found [OF r s e]
  obtain zsl' m' where d: "zslDeleteNode zsl (el_addr e) (stops (zsl_header zsl) ys (zsl_level zsl)) m = Some (zsl', m')"
      "zsl_rep zsl' m' (ys @ zs)" "zsl_header zsl' = zsl_header zsl"
      "only_at (zsl_nodes zsl (ys @ zs)) m m'" "znodes m' (el_addr e) = Some (el_node (last_el NULL ys) e zs)"
    using zslDeleteNode_ok [OF r order_refl] by blast
  have eq: "zslDelete keep zsl score ele m = do { m \<leftarrow> (if keep then Some m' else zslFreeNode (el_addr e) m'); Some (Some (el_addr e), zsl', m) }"
    unfolding zslDelete_def f Option.bind.bind_lunit prod.case by (simp add: d(1) f(4))
  show ?thesis
  proof (cases keep)
    case True
    then show ?thesis using eq d by (simp add: dropped_def only_at_def)
  next
    case False
    then show ?thesis using eq free_el [OF r d(4,5,2,3)] d(3) by auto
  qed
qed

lemma zslDelete_absent:
  assumes r: "zsl_rep zsl m xs" and s: "\<not> isnan score" and e: "(score_key score, ele) \<notin> ekey ` set xs"
  shows "zslDelete keep zsl score ele m = Some (None, zsl, m)"
proof -
  obtain ys zs where x: "xs = ys @ zs" "\<forall>y \<in> set ys. ekey y < (score_key score, ele)" "\<forall>z \<in> set zs. (score_key score, ele) \<le> ekey z"
    "zsl_descend (\<lambda>f _. zsl_before score ele f) m (zsl_level zsl) (zsl_header zsl) 0 = Some (marks (zsl_header zsl) ys (zsl_level zsl))"
    "(case marks (zsl_header zsl) ys (zsl_level zsl) of [] \<Rightarrow> None | u # _ \<Rightarrow> Some u) = Some (last_el (zsl_header zsl) ys, of_nat (length ys))"
    "level_of m (last_el (zsl_header zsl) ys) 0 = Some (nxt 0 zs)"
    using search_el [OF r s, of ele] by metis
  have "\<not> (zs \<noteq> [] \<and> ekey (hd zs) = (score_key score, ele))"
    using e x(1) by (cases zs) auto
  then have "zsl_match m (fst (nxt 0 zs)) score ele = Some False"
    using match_el [OF r [unfolded x(1)] s x(3)] by simp
  then show ?thesis
    unfolding zslDelete_def x(4) Option.bind.bind_lunit x(5) prod.case x(6) by (cases "nxt 0 zs") simp
qed

section \<open>Changing a score\<close>

text \<open>In place when the neighbours leave room for the new score, by deletion and insertion otherwise.\<close>

lemma links_score:
  assumes l: "links m hdr L (ys @ e # zs)"
  shows "links (put_node (el_addr e) ((el_node (last_el NULL ys) e zs)\<lparr>zn_score := s\<rparr>) m) hdr L (ys @ e\<lparr>el_score := s\<rparr> # zs)"
proof -
  let ?e = "e\<lparr>el_score := s\<rparr>"
  have n: "nxt i (us @ ?e # zs) = nxt i (us @ e # zs)" for i us by (induction us) auto
  have "seg h b us (?e # zs) = seg h b us (e # zs)" for h b us
  proof (induction us arbitrary: b)
    case (Cons u us)
    then show ?case using n [of _ us] by (simp add: el_node_def)
  qed simp
  moreover have "hdr_ok nd L (ys @ ?e # zs) = hdr_ok nd L (ys @ e # zs)" for nd by (simp add: hdr_ok_def n)
  moreover have "el_node b ?e zs = (el_node b e zs)\<lparr>zn_score := s\<rparr>" for b by (simp add: el_node_def)
  ultimately show ?thesis using l by (auto simp: links_def seg_append)
qed

text \<open>The heap is the skiplist of \<open>xs\<close> and, apart from it, the nodes \<open>h0\<close> of others.\<close>

definition zsl_in :: "zskiplist \<Rightarrow> zmem \<Rightarrow> zel list \<Rightarrow> znodes \<Rightarrow> bool" where
  "zsl_in zsl m xs h0 \<longleftrightarrow> zsl_rep zsl m xs \<and> (\<forall>a. if a \<in> zsl_nodes zsl xs then h0 a = None else znodes m a = h0 a)"

lemma zsl_inD:
  assumes "zsl_in zsl m xs h0"
  shows "zsl_rep zsl m xs" "a \<in> zsl_nodes zsl xs \<Longrightarrow> h0 a = None" "a \<notin> zsl_nodes zsl xs \<Longrightarrow> znodes m a = h0 a"
  using assms unfolding zsl_in_def by meson+

lemma zsl_inI:
  assumes "zsl_rep zsl m xs" "\<And>a. a \<in> zsl_nodes zsl xs \<Longrightarrow> h0 a = None" "\<And>a. a \<notin> zsl_nodes zsl xs \<Longrightarrow> znodes m a = h0 a"
  shows "zsl_in zsl m xs h0"
  using assms by (simp add: zsl_in_def)

lemma insert_in:
  assumes i: "zsl_in zsl m (ys @ zs) h0" and s: "\<not> isnan score"
    and k: "\<forall>y \<in> set ys. ekey y < (score_key score, ele)" "\<forall>z \<in> set zs. (score_key score, ele) < ekey z"
    and ht: "zslRandomLevel rs = Some ht" and fr: "fresh_for zmalloc (dom (znodes m))"
  shows "\<exists>e zsl' m'. zslInsert zmalloc rs zsl score ele m = Some (el_addr e, zsl', m')
      \<and> el_score e = score \<and> el_ele e = ele \<and> el_addr e \<notin> dom (znodes m)
      \<and> zsl_in zsl' m' (ys @ e # zs) h0 \<and> zsl_header zsl' = zsl_header zsl
      \<and> only_at (insert (el_addr e) (zsl_nodes zsl (ys @ zs))) m m'"
proof -
  obtain x zsl' m' where r: "zslInsert zmalloc rs zsl score ele m = Some (x, zsl', m')"
      "zsl_rep zsl' m' (ys @ \<lparr>el_addr = x, el_height = ht, el_score = score, el_ele = ele\<rparr> # zs)"
      "zsl_header zsl' = zsl_header zsl" "x \<notin> dom (znodes m)" "only_at (insert x (zsl_nodes zsl (ys @ zs))) m m'"
    using zslInsert_ok [OF zsl_inD(1) [OF i] s k ht fr] by blast
  let ?e = "\<lparr>el_addr = x, el_height = ht, el_score = score, el_ele = ele\<rparr>"
  have n: "zsl_nodes zsl' (ys @ ?e # zs) = insert x (zsl_nodes zsl (ys @ zs))" using r(3) by (auto simp: zsl_nodes_def)
  have "x \<notin> zsl_nodes zsl (ys @ zs)" using r(4) zsl_nodes_dom [OF zsl_inD(1) [OF i]] by auto
  then have "h0 x = None" using zsl_inD(3) [OF i] r(4) by (metis domIff)
  then have "zsl_in zsl' m' (ys @ ?e # zs) h0"
    using zsl_inD(2,3) [OF i] r(5) unfolding only_at_def n [symmetric] by (intro zsl_inI [OF r(2)]) (auto simp: n)
  then show ?thesis using r by (intro exI [of _ ?e]) simp
qed

lemma delete_in:
  assumes i: "zsl_in zsl m (ys @ e # zs) h0" and s: "\<not> isnan score" and e: "ekey e = (score_key score, ele)"
  shows "\<exists>zsl' m'. zslDelete False zsl score ele m = Some (Some (el_addr e), zsl', m') \<and> zsl_in zsl' m' (ys @ zs) h0
     \<and> zsl_header zsl' = zsl_header zsl \<and> zfreed m' = zfreed m @ [el_ele e]
     \<and> dom (znodes m') = dom (znodes m) - {el_addr e}"
proof -
  obtain zsl' m' where r: "zslDelete False zsl score ele m = Some (Some (el_addr e), zsl', m')" "zsl_rep zsl' m' (ys @ zs)"
      "zsl_header zsl' = zsl_header zsl" "dropped False e (zsl_nodes zsl (ys @ zs)) m m'"
    using zslDelete_found [OF zsl_inD(1) [OF i] s e] by blast
  have n: "zsl_nodes zsl (ys @ e # zs) = insert (el_addr e) (zsl_nodes zsl (ys @ zs))" "zsl_nodes zsl' (ys @ zs) = zsl_nodes zsl (ys @ zs)"
    using r(3) by (auto simp: zsl_nodes_def)
  have "zsl_in zsl' m' (ys @ zs) h0"
  proof (rule zsl_inI [OF r(2)])
    fix a assume "a \<notin> zsl_nodes zsl' (ys @ zs)"
    then show "znodes m' a = h0 a"
      using r(4) zsl_inD(2) [OF i, of a] zsl_inD(3) [OF i, of a] unfolding n by (cases "a = el_addr e") (simp_all add: dropped_def)
  qed (use zsl_inD(2) [OF i] n in auto)
  moreover have "dom (znodes m') = dom (znodes m) - {el_addr e}"
  proof -
    have "zsl_nodes zsl (ys @ zs) \<subseteq> dom (znodes m')" "zsl_nodes zsl (ys @ zs) \<subseteq> dom (znodes m)"
      using zsl_nodes_dom [OF r(2)] zsl_nodes_dom [OF zsl_inD(1) [OF i]] n by auto
    moreover have "a \<in> dom (znodes m') \<longleftrightarrow> a \<in> dom (znodes m)" if "a \<notin> insert (el_addr e) (zsl_nodes zsl (ys @ zs))" for a
      using r(4) that by (simp add: dropped_def domIff)
    moreover have "el_addr e \<notin> zsl_nodes zsl (ys @ zs)" "znodes m' (el_addr e) = None"
      using el_addr_notin(1) [OF zsl_inD(1) [OF i]] r(4) by (simp_all add: dropped_def)
    ultimately have "a \<in> dom (znodes m') \<longleftrightarrow> a \<in> dom (znodes m) \<and> a \<noteq> el_addr e" for a
      by (cases "a = el_addr e"; cases "a \<in> zsl_nodes zsl (ys @ zs)") auto
    then show ?thesis by blast
  qed
  ultimately show ?thesis using r by (intro exI [of _ zsl'] exI [of _ m']) (simp add: dropped_def)
qed

lemma neighbours:
  assumes r: "zsl_rep zsl m (ys @ e # zs)"
  shows "znode_at m (el_addr e) = Some (el_node (last_el NULL ys) e zs)"
    "level_of m (el_addr e) 0 = Some (nxt 0 zs)"
    "(if last_el NULL ys = NULL then Some True else map_option (\<lambda>b. dlt (zn_score b) s) (znode_at m (last_el NULL ys)))
       = Some (ys = [] \<or> dlt (el_score (last ys)) s)"
    "(if fst (nxt 0 zs) = NULL then Some True else map_option (\<lambda>f. dlt s (zn_score f)) (znode_at m (fst (nxt 0 zs))))
       = Some (zs = [] \<or> dlt s (el_score (hd zs)))"
proof -
  note l = zsl_repD(1) [OF r]
  show n: "znode_at m (el_addr e) = Some (el_node (last_el NULL ys) e zs)" using links_nth [OF l, of "length ys"] by simp
  have h: "0 < el_height e" "\<forall>z \<in> set zs. 0 < el_height z" using links_nodes(3) [OF l] by auto
  show "level_of m (el_addr e) 0 = Some (nxt 0 zs)" using n h by (simp add: level_of_def el_node_def)
  show "(if last_el NULL ys = NULL then Some True else map_option (\<lambda>b. dlt (zn_score b) s) (znode_at m (last_el NULL ys)))
       = Some (ys = [] \<or> dlt (el_score (last ys)) s)"
  proof (cases ys rule: rev_cases)
    case (snoc us u)
    then have "znode_at m (el_addr u) = Some (el_node (last_el NULL us) u (e # zs))" "el_addr u \<noteq> NULL"
      using links_nth [OF l, of "length us"] links_nodes(2) [OF l, of u] by (simp_all add: nth_append)
    then show ?thesis using snoc by (simp add: el_node_def)
  qed simp
  show "(if fst (nxt 0 zs) = NULL then Some True else map_option (\<lambda>f. dlt s (zn_score f)) (znode_at m (fst (nxt 0 zs))))
       = Some (zs = [] \<or> dlt s (el_score (hd zs)))"
  proof (cases zs)
    case (Cons z zs')
    then have "znode_at m (el_addr z) = Some (el_node (el_addr e) z zs')" "el_addr z \<noteq> NULL"
      using links_nth [OF l, of "Suc (length ys)"] links_nodes(2) [OF l, of z] by (simp_all add: nth_append)
    then show ?thesis using Cons h(2) by (simp add: el_node_def)
  qed simp
qed

lemma sorted_between:
  assumes "sorted_wrt (<) (map ekey (ys @ e # zs))" "ys = [] \<or> ekey (last ys) < ekey e'" "zs = [] \<or> ekey e' < ekey (hd zs)"
  shows "\<forall>y \<in> set ys. ekey y < ekey e'" "\<forall>z \<in> set zs. ekey e' < ekey z"
proof -
  show "\<forall>y \<in> set ys. ekey y < ekey e'"
    using assms(1,2) by (cases ys rule: rev_cases) (auto simp: sorted_wrt_append intro: less_trans)
  show "\<forall>z \<in> set zs. ekey e' < ekey z"
    using assms(1,3) by (cases zs) (auto simp: sorted_wrt_append intro: less_trans)
qed

lemma update_in:
  assumes i: "zsl_in zsl m (ys @ e # zs) h0" and s: "\<not> isnan curscore" "\<not> isnan newscore" and e: "ekey e = (score_key curscore, ele)"
    and new: "(score_key newscore, ele) \<notin> ekey ` set (ys @ zs)"
    and ht: "zslRandomLevel rs = Some ht" and fr: "fresh_for zmalloc (dom (znodes m))"
  shows "\<exists>e' us vs zsl' m'. zslUpdateScore zmalloc rs zsl curscore ele newscore m = Some (el_addr e', zsl', m')
      \<and> el_score e' = newscore \<and> el_ele e' = ele \<and> ys @ zs = us @ vs
      \<and> (\<forall>y \<in> set us. ekey y < ekey e') \<and> (\<forall>z \<in> set vs. ekey e' < ekey z)
      \<and> zsl_in zsl' m' (us @ e' # vs) h0 \<and> zsl_header zsl' = zsl_header zsl \<and> zfreed m' = zfreed m
      \<and> card (dom (znodes m')) = card (dom (znodes m))"
proof -
  note r = zsl_inD(1) [OF i]
  note f = search_found [OF r s(1) e] and nb = neighbours(1,2) [OF r] neighbours(3,4) [OF r, of newscore]
  let ?x = "el_addr e" and ?nd = "el_node (last_el NULL ys) e zs"
  have ele: "el_ele e = ele" using e by (simp add: ekey_def)
  have sel: "zn_backward ?nd = last_el NULL ys" "zn_ele ?nd = Some (el_ele e)" by (simp_all add: el_node_def)
  have nb3: "(case nxt 0 zs of (forward, _) \<Rightarrow> F forward) = F (fst (nxt 0 zs))" for F :: "addr \<Rightarrow> (addr \<times> zskiplist \<times> zmem) option"
    by (simp add: case_prod_beta)
  let ?fits = "(ys = [] \<or> dlt (el_score (last ys)) newscore) \<and> (zs = [] \<or> dlt newscore (el_score (hd zs)))"
  have eq: "zslUpdateScore zmalloc rs zsl curscore ele newscore m =
     (if ?fits then Some (?x, zsl, put_node ?x (?nd\<lparr>zn_score := newscore\<rparr>) m)
      else do {
         (zsl, m) \<leftarrow> zslDeleteNode zsl ?x (stops (zsl_header zsl) ys (zsl_level zsl)) m;
         nd \<leftarrow> znode_at m ?x;
         e \<leftarrow> zn_ele nd;
         (newnode, zsl, m) \<leftarrow> zslInsert zmalloc rs zsl newscore e m;
         nd \<leftarrow> znode_at m ?x;
         m \<leftarrow> zslFreeNode ?x (put_node ?x (nd\<lparr>zn_ele := None\<rparr>) m);
         Some (newnode, zsl, m) })"
    unfolding zslUpdateScore_def f Option.bind.bind_lunit prod.case nb(1,2) nb3 sel nb(3,4) marks_simps(1) by simp
  show ?thesis
  proof (cases ?fits)
    case True
    let ?e = "e\<lparr>el_score := newscore\<rparr>"
    let ?m = "put_node ?x (?nd\<lparr>zn_score := newscore\<rparr>) m"
    have "ys = [] \<or> ekey (last ys) < ekey ?e" "zs = [] \<or> ekey ?e < ekey (hd zs)"
      using True by (auto simp: dlt_def ekey_def)
    note srt = sorted_between [OF zsl_repD(2) [OF r] this]
    have "zsl_rep zsl ?m (ys @ ?e # zs)"
      unfolding zsl_rep_def
    proof (intro conjI)
      show "links ?m (zsl_header zsl) (zsl_level zsl) (ys @ ?e # zs)" by (rule links_score [OF zsl_repD(1) [OF r]])
      show "tight (zsl_level zsl) (ys @ ?e # zs)" using r by (auto simp: zsl_rep_def tight_def)
      show "zsl_tail zsl = last_el NULL (ys @ ?e # zs)" using zsl_repD(4) [OF r] by (auto simp: last_el_def)
      show "sorted_wrt (<) (map ekey (ys @ ?e # zs))" using zsl_repD(2) [OF r] srt by (auto simp: sorted_wrt_append)
      show "\<forall>x \<in> set (ys @ ?e # zs). \<not> isnan (el_score x)" using zsl_repD(3) [OF r] s(2) by auto
    qed (use zsl_repD(5) [OF r] in simp)
    moreover have n: "zsl_nodes zsl (ys @ ?e # zs) = zsl_nodes zsl (ys @ e # zs)" by (simp add: zsl_nodes_def)
    have x: "?x \<in> zsl_nodes zsl (ys @ e # zs)" by (simp add: zsl_nodes_def)
    ultimately have "zsl_in zsl ?m (ys @ ?e # zs) h0"
      using zsl_inD(2,3) [OF i] by (intro zsl_inI) (auto simp: n)
    moreover have "dom (znodes ?m) = dom (znodes m)" using zsl_nodes_dom [OF r] x by auto
    ultimately show ?thesis using eq True srt ele
      by (intro exI [of _ ?e] exI [of _ ys] exI [of _ zs] exI [of _ zsl] exI [of _ ?m]) simp
  next
    case False
    obtain zsl1 m1 where d: "zslDeleteNode zsl ?x (stops (zsl_header zsl) ys (zsl_level zsl)) m = Some (zsl1, m1)"
        "zsl_rep zsl1 m1 (ys @ zs)" "zsl_header zsl1 = zsl_header zsl"
        "only_at (zsl_nodes zsl (ys @ zs)) m m1" "znodes m1 ?x = Some ?nd"
      using zslDeleteNode_ok [OF r order_refl] by blast
    note x = el_addr_notin [OF r]
    have n: "zsl_nodes zsl1 (ys @ zs) = zsl_nodes zsl (ys @ zs)" "zsl_nodes zsl (ys @ e # zs) = insert ?x (zsl_nodes zsl (ys @ zs))"
      using d(3) by (auto simp: zsl_nodes_def)
    let ?h1 = "h0(?x \<mapsto> ?nd)"
    have i1: "zsl_in zsl1 m1 (ys @ zs) ?h1"
    proof (rule zsl_inI [OF d(2)])
      fix a assume a: "a \<notin> zsl_nodes zsl1 (ys @ zs)"
      then show "znodes m1 a = ?h1 a"
        using d(4,5) zsl_inD(3) [OF i, of a] unfolding n by (cases "a = ?x") (simp_all add: only_at_def)
    qed (use zsl_inD(2) [OF i] x n in auto)
    have dom1: "dom (znodes m1) = dom (znodes m)"
      using only_at_dom [OF d(4)] zsl_nodes_dom [OF r] zsl_nodes_dom [OF d(2)] n by auto
    obtain us vs where u: "ys @ zs = us @ vs" "\<forall>y \<in> set us. ekey y < (score_key newscore, ele)" "\<forall>z \<in> set vs. (score_key newscore, ele) \<le> ekey z"
      using split_before [OF zsl_repD(2) [OF d(2)]] by blast
    have lt: "\<forall>z \<in> set vs. (score_key newscore, ele) < ekey z" using u(1,3) new by (fastforce simp: order.order_iff_strict)
    obtain e' zsl2 m2 where ins: "zslInsert zmalloc rs zsl1 newscore ele m1 = Some (el_addr e', zsl2, m2)"
        "el_score e' = newscore" "el_ele e' = ele" "el_addr e' \<notin> dom (znodes m1)" "zsl_in zsl2 m2 (us @ e' # vs) ?h1" "zsl_header zsl2 = zsl_header zsl1"
        "only_at (insert (el_addr e') (zsl_nodes zsl1 (us @ vs))) m1 m2"
      using insert_in [OF i1 [unfolded u(1)] s(2) u(2) lt ht fr [folded dom1]] by blast
    have x2: "?x \<noteq> el_addr e'" using ins(4) d(5) by (metis domI)
    then have x3: "znodes m2 ?x = Some ?nd"
      using ins(7) d(5) x(1) unfolding u(1) [symmetric] n only_at_def by simp
    let ?m3 = "\<lparr>znodes = (znodes m2)(?x := None), zfreed = zfreed m2\<rparr>"
    have "zslFreeNode ?x (put_node ?x (?nd\<lparr>zn_ele := None\<rparr>) m2) = Some ?m3"
      using x(2) by (simp add: zslFreeNode_def znode_at_def)
    then have run: "zslUpdateScore zmalloc rs zsl curscore ele newscore m = Some (el_addr e', zsl2, ?m3)"
      using eq False d(1,5) x(2) ins(1) x2 x3 ele by (simp add: znode_at_def sel)
    have n2: "zsl_nodes zsl2 (us @ e' # vs) = insert (el_addr e') (zsl_nodes zsl (ys @ zs))"
      unfolding u(1) zsl_nodes_def ins(6) d(3) by auto
    have "zsl_in zsl2 ?m3 (us @ e' # vs) h0"
    proof (rule zsl_inI)
      show "zsl_rep zsl2 ?m3 (us @ e' # vs)"
        by (rule zsl_rep_cong [OF zsl_inD(1) [OF ins(5)]]) (use n2 x(1) x2 in auto)
      fix a
      show "h0 a = None" if "a \<in> zsl_nodes zsl2 (us @ e' # vs)"
        using zsl_inD(2) [OF ins(5) that] by (simp split: if_splits)
      show "znodes ?m3 a = h0 a" if "a \<notin> zsl_nodes zsl2 (us @ e' # vs)"
        using zsl_inD(3) [OF ins(5) that] zsl_inD(2) [OF i, of a] n(2) by (cases "a = ?x") simp_all
    qed
    moreover have "card (dom (znodes ?m3)) = card (dom (znodes m))"
    proof -
      have "dom (znodes m2) = insert (el_addr e') (dom (znodes m1))"
      proof -
        have "zsl_nodes zsl2 (us @ e' # vs) \<subseteq> dom (znodes m2)" by (rule zsl_nodes_dom [OF zsl_inD(1) [OF ins(5)]])
        moreover have "zsl_nodes zsl1 (ys @ zs) \<subseteq> dom (znodes m1)" by (rule zsl_nodes_dom [OF d(2)])
        moreover have "a \<in> dom (znodes m2) \<longleftrightarrow> a \<in> dom (znodes m1)" if "a \<notin> zsl_nodes zsl2 (us @ e' # vs)" for a
          using ins(7) that unfolding u(1) [symmetric] n n2 only_at_def by (simp add: domIff)
        ultimately have "a \<in> dom (znodes m2) \<longleftrightarrow> a = el_addr e' \<or> a \<in> dom (znodes m1)" for a
          unfolding n n2 by (cases "a \<in> insert (el_addr e') (zsl_nodes zsl (ys @ zs))") auto
        then show ?thesis by blast
      qed
      moreover have "?x \<in> dom (znodes m1)" using d(5) by blast
      ultimately have "dom (znodes ?m3) = insert (el_addr e') (dom (znodes m1) - {?x})" using x2 by auto
      moreover have "0 < card (dom (znodes m1))" using \<open>?x \<in> dom (znodes m1)\<close> by (auto simp: card_gt_0_iff)
      ultimately show ?thesis using ins(4) dom1 \<open>?x \<in> dom (znodes m1)\<close> by simp
    qed
    moreover have "zfreed m2 = zfreed m" using ins(7) d(4) by (simp add: only_at_def)
    moreover have "ekey e' = (score_key newscore, ele)" using ins(2,3) by (simp add: ekey_def)
    ultimately show ?thesis using run ins(2,3,6) d(3) u(1,2) lt
      by (intro exI [of _ e'] exI [of _ us] exI [of _ vs] exI [of _ zsl2] exI [of _ ?m3]) simp
  qed
qed

end
