(* ===== verification/Skiplist_Ranks.thy ===== *)
theory Skiplist_Ranks
  imports Skiplist_Props
begin

text \<open>
  Ranks, ranges and the deletion of ranges: what the searches of a skiplist find is what a scan of the sorted list
  finds.
\<close>

section \<open>Ranks\<close>

lemma length_bound: "zsl_rep zsl m xs \<Longrightarrow> length xs < 2 ^ 64"
proof -
  assume "zsl_rep zsl m xs"
  then have "distinct (zsl_header zsl # map el_addr xs)" using links_nodes(7) zsl_repD(1) by blast
  then have "length (zsl_header zsl # map el_addr xs) = card (set (zsl_header zsl # map el_addr xs))" by (simp only: distinct_card)
  also have "\<dots> \<le> card (UNIV :: addr set)" by (intro card_mono) simp_all
  finally show ?thesis by (simp add: card_word)
qed

lemma znode_pos:
  assumes l: "links m hdr L xs" and "p \<le> length xs"
  shows "\<exists>nd. znode_at m (pos_addr hdr xs p) = Some nd \<and> zn_ele nd = (if p = 0 then None else Some (el_ele (xs ! (p - 1))))
     \<and> (p \<noteq> 0 \<longrightarrow> zn_score nd = el_score (xs ! (p - 1)))"
proof (cases p)
  case 0
  then show ?thesis using l by (auto simp: links_def znode_at_def hdr_ok_def)
next
  case (Suc k)
  then show ?thesis using links_nth [OF l, of k] assms(2) by (simp add: el_node_def)
qed

lemma upos_take0:
  assumes "links m hdr L xs" "n \<le> length xs"
  shows "upos 0 (take n xs) = n"
  using upos0 [of "take n xs"] links_nodes(3) [OF assms(1)] assms(2) by (auto dest: in_set_takeD)

text \<open>The rank loop, coming down from level \<open>j\<close>.\<close>

lemma rank_from:
  assumes r: "zsl_rep zsl m xs" and s: "\<not> isnan score" and c: "cut (\<lambda>f _. zsl_upto score ele f) m xs n"
    and n: "\<forall>k < n. ekey (xs ! k) \<le> (score_key score, ele)" "n \<le> length xs"
  shows "j \<le> zsl_level zsl \<Longrightarrow> p \<le> n \<Longrightarrow> p = 0 \<or> j \<le> el_height (xs ! (p - 1)) \<Longrightarrow> 0 < j \<Longrightarrow>
    zsl_rank_loop m score ele j (pos_addr (zsl_header zsl) xs p) (of_nat p)
      = Some (if 0 < n \<and> ekey (xs ! (n - 1)) = (score_key score, ele) then of_nat n else 0)"
proof (induction j arbitrary: p)
  case (Suc j)
  note l = zsl_repD(1) [OF r]
  let ?hdr = "zsl_header zsl" and ?k = "(score_key score, ele)"
  define q where "q = upos j (take n xs)"
  have w: "zsl_walk (\<lambda>f _. zsl_upto score ele f) m j (pos_addr ?hdr xs p) (of_nat p) = Some (pos_addr ?hdr xs q, of_nat q)"
    unfolding q_def using Suc.prems by (intro walk_ok [OF l _ c]) auto
  have q: "q \<le> n" "q \<le> length xs" "q = 0 \<or> j < el_height (xs ! (q - 1))"
    using upos_take_le [of j n xs] upos_take_high [of j n xs] n(2) by (auto simp: q_def)
  obtain nd where nd: "znode_at m (pos_addr ?hdr xs q) = Some nd" "zn_ele nd = (if q = 0 then None else Some (el_ele (xs ! (q - 1))))"
      "q \<noteq> 0 \<longrightarrow> zn_score nd = el_score (xs ! (q - 1))" using znode_pos [OF l q(2)] by blast
  have step: "zsl_rank_loop m score ele (Suc j) (pos_addr ?hdr xs p) (of_nat p)
      = (if q \<noteq> 0 \<and> ekey (xs ! (q - 1)) = ?k then Some (of_nat q) else zsl_rank_loop m score ele j (pos_addr ?hdr xs q) (of_nat q))"
  proof (cases "q = 0")
    case False
    then have "\<not> isnan (el_score (xs ! (q - 1)))" using zsl_repD(3) [OF r] q(2) by simp
    then have "deq (zn_score nd) score \<and> sdscmp (el_ele (xs ! (q - 1))) ele = 0 \<longleftrightarrow> ekey (xs ! (q - 1)) = ?k"
      using False nd(3) s by (auto simp: deq_def ekey_def)
    then show ?thesis using w nd(1,2) False by simp
  qed (use w nd in simp)
  show ?case
  proof (cases "q \<noteq> 0 \<and> ekey (xs ! (q - 1)) = ?k")
    case True
    have "q = n"
    proof (rule ccontr)
      assume "q \<noteq> n"
      then have "q - 1 < n - 1" "n - 1 < length xs" "n - 1 < n" using q(1) n(2) True by auto
      then have "ekey (xs ! (q - 1)) < ekey (xs ! (n - 1))"
        using zsl_repD(2) [OF r] by (simp add: sorted_wrt_iff_nth_less)
      then show False using True n(1) \<open>n - 1 < n\<close> by (metis leD)
    qed
    then show ?thesis using step True by simp
  next
    case False
    then have e: "zsl_rank_loop m score ele (Suc j) (pos_addr ?hdr xs p) (of_nat p) = zsl_rank_loop m score ele j (pos_addr ?hdr xs q) (of_nat q)"
      using step by (simp only: if_False)
    show ?thesis
    proof (cases j)
      case 0
      have "q = n" unfolding q_def 0 by (rule upos_take0 [OF l n(2)])
      then show ?thesis using e False 0 by auto
    next
      case (Suc j')
      show ?thesis unfolding e by (rule Suc.IH) (use Suc Suc.prems q in auto)
    qed
  qed
qed simp

lemma zslGetRank_ok:
  assumes r: "zsl_rep zsl m xs" and s: "\<not> isnan score"
  shows "zslGetRank zsl score ele m =
    Some (if (score_key score, ele) \<in> ekey ` set xs then of_nat (length (filter (\<lambda>x. ekey x \<le> (score_key score, ele)) xs)) else 0)"
proof -
  let ?k = "(score_key score, ele)"
  note l = zsl_repD(1) [OF r]
  define ys where "ys = takeWhile (\<lambda>x. ekey x \<le> ?k) xs"
  define zs where "zs = dropWhile (\<lambda>x. ekey x \<le> ?k) xs"
  have x: "xs = ys @ zs" by (simp add: ys_def zs_def)
  have y: "\<forall>y \<in> set ys. ekey y \<le> ?k" unfolding ys_def by (auto dest: set_takeWhileD)
  have z: "\<forall>z \<in> set zs. ?k < ekey z"
  proof (cases zs)
    case (Cons a as)
    then have "?k < ekey a" unfolding zs_def by (metis hd_dropWhile list.distinct(1) list.sel(1) not_le)
    moreover have "\<forall>b \<in> set as. ekey a < ekey b" using zsl_repD(2) [OF r] unfolding x Cons by (auto simp: sorted_wrt_append)
    ultimately show ?thesis using Cons by (auto intro: less_trans)
  qed simp
  have c: "cut (\<lambda>f _. zsl_upto score ele f) m xs (length ys)"
    unfolding x by (rule cutI [OF l [unfolded x]]) (use y z s zsl_repD(3) [OF r] in \<open>auto simp: upto_el x not_le\<close>)
  have "zslGetRank zsl score ele m = Some (if 0 < length ys \<and> ekey (xs ! (length ys - 1)) = ?k then of_nat (length ys) else 0)"
    unfolding zslGetRank_def using rank_from [OF r s c, of "zsl_level zsl" 0] y links_nodes(5) [OF l] by (simp add: x nth_append)
  moreover have "0 < length ys \<and> ekey (xs ! (length ys - 1)) = ?k \<longleftrightarrow> ?k \<in> ekey ` set xs"
  proof
    assume k: "?k \<in> ekey ` set xs"
    then obtain e where e: "e \<in> set ys" "ekey e = ?k" using z unfolding x by fastforce
    then obtain us u where ys: "ys = us @ [u]" by (cases ys rule: rev_cases) auto
    have "u = e"
    proof (rule ccontr)
      assume "u \<noteq> e"
      then have "ekey e < ekey u" using e(1) zsl_repD(2) [OF r] unfolding x ys by (auto simp: sorted_wrt_append)
      then show False using e(2) y ys by (auto simp: not_le [symmetric] simp del: not_le)
    qed
    then show "0 < length ys \<and> ekey (xs ! (length ys - 1)) = ?k" using e(2) x ys by (simp add: nth_append)
  next
    assume "0 < length ys \<and> ekey (xs ! (length ys - 1)) = ?k"
    then show "?k \<in> ekey ` set xs" using x by (metis image_eqI length_append nth_mem diff_less less_le_trans le_add1 zero_less_one)
  qed
  moreover have "filter (\<lambda>x. ekey x \<le> ?k) xs = ys"
  proof -
    have "filter (\<lambda>x. ekey x \<le> ?k) ys = ys" "filter (\<lambda>x. ekey x \<le> ?k) zs = []" using y z by (auto simp: filter_empty_conv not_le)
    then show ?thesis unfolding x by simp
  qed
  ultimately show ?thesis by simp
qed

lemma byrank_from:
  assumes r: "zsl_rep zsl m xs" and c: "cut (\<lambda>_ r. Some (r \<le> rank)) m xs n" and n: "n = min (unat rank) (length xs)"
  shows "j \<le> zsl_level zsl \<Longrightarrow> p \<le> n \<Longrightarrow> p = 0 \<or> j \<le> el_height (xs ! (p - 1)) \<Longrightarrow> 0 < j \<Longrightarrow>
    zsl_byrank_loop m rank j (pos_addr (zsl_header zsl) xs p) (of_nat p)
      = Some (if unat rank \<le> length xs then pos_addr (zsl_header zsl) xs (unat rank) else NULL)"
proof (induction j arbitrary: p)
  case (Suc j)
  note l = zsl_repD(1) [OF r]
  let ?hdr = "zsl_header zsl"
  define q where "q = upos j (take n xs)"
  have w: "zsl_walk (\<lambda>_ r. Some (r \<le> rank)) m j (pos_addr ?hdr xs p) (of_nat p) = Some (pos_addr ?hdr xs q, of_nat q)"
    unfolding q_def using Suc.prems by (intro walk_ok [OF l _ c]) auto
  have q: "q \<le> n" "q \<le> length xs" "q = 0 \<or> j < el_height (xs ! (q - 1))"
    using upos_take_le [of j n xs] upos_take_high [of j n xs] n by (auto simp: q_def)
  have "of_nat q = rank \<longleftrightarrow> q = unat rank"
  proof -
    have "q < 2 ^ 64" using q(2) length_bound [OF r] by linarith
    then have "unat (of_nat q :: 64 word) = q" by (simp add: unat_of_nat)
    then show ?thesis by (auto simp: word_unat_eq_iff)
  qed
  then have step: "zsl_byrank_loop m rank (Suc j) (pos_addr ?hdr xs p) (of_nat p)
      = (if q = unat rank then Some (pos_addr ?hdr xs q) else zsl_byrank_loop m rank j (pos_addr ?hdr xs q) (of_nat q))"
    using w by simp
  show ?case
  proof (cases "q = unat rank")
    case True
    then show ?thesis using step q(2) by simp
  next
    case False
    then have e: "zsl_byrank_loop m rank (Suc j) (pos_addr ?hdr xs p) (of_nat p) = zsl_byrank_loop m rank j (pos_addr ?hdr xs q) (of_nat q)"
      using step by simp
    show ?thesis
    proof (cases j)
      case 0
      have "q = n" unfolding q_def 0 by (rule upos_take0 [OF l]) (simp add: n)
      then have "length xs < unat rank" using False n by auto
      then show ?thesis using e 0 by simp
    next
      case (Suc j')
      show ?thesis unfolding e by (rule Suc.IH) (use Suc Suc.prems q in auto)
    qed
  qed
qed simp

lemma zslGetElementByRank_ok:
  assumes r: "zsl_rep zsl m xs"
  shows "zslGetElementByRank zsl rank m = Some (if unat rank \<le> length xs then pos_addr (zsl_header zsl) xs (unat rank) else NULL)"
proof -
  note l = zsl_repD(1) [OF r]
  have "cut (\<lambda>_ r. Some (r \<le> rank)) m xs (min (unat rank) (length xs))"
    unfolding cut_def
  proof (intro conjI allI impI)
    fix k assume k: "k < length xs"
    then have "unat (of_nat (Suc k) :: 64 word) = Suc k" using length_bound [OF r] by (simp add: unat_of_nat del: of_nat_Suc)
    then have "(of_nat (Suc k) \<le> rank) \<longleftrightarrow> k < min (unat rank) (length xs)" using k by (auto simp: word_le_nat_alt simp del: of_nat_Suc)
    then show "\<exists>f. znode_at m (el_addr (xs ! k)) = Some f \<and> Some (of_nat (Suc k) \<le> rank) = Some (k < min (unat rank) (length xs))"
      using links_nth [OF l k] by blast
  qed simp
  from byrank_from [OF r this refl order_refl, of 0] show ?thesis
    unfolding zslGetElementByRank_def using links_nodes(5) [OF l] by simp
qed

section \<open>Ranges\<close>

text \<open>The ends of a range, as tests on elements, split the sequence: those before, those inside, those after.\<close>

definition range_tests :: "zel list \<Rightarrow> (znode \<Rightarrow> bool option) \<Rightarrow> (znode \<Rightarrow> bool option) \<Rightarrow> (zel \<Rightarrow> bool) \<Rightarrow> (zel \<Rightarrow> bool) \<Rightarrow> bool" where
  "range_tests xs gte lte G P \<longleftrightarrow>
     (\<forall>x \<in> set xs. \<forall>b ws. gte (el_node b x ws) = Some (G x) \<and> lte (el_node b x ws) = Some (P x))
     \<and> sorted_wrt (\<lambda>x y. (G x \<longrightarrow> G y) \<and> (P y \<longrightarrow> P x)) xs"

lemma in_range_ok:
  assumes r: "zsl_rep zsl m xs" and t: "range_tests xs gte lte G P"
  shows "zsl_in_range gte lte zsl m = Some (xs \<noteq> [] \<and> G (last xs) \<and> P (hd xs))"
proof (cases xs rule: rev_cases)
  case Nil
  then show ?thesis using zsl_repD(4) [OF r] by (simp add: zsl_in_range_def)
next
  case (snoc us u)
  note l = zsl_repD(1) [OF r]
  have u: "znode_at m (el_addr u) = Some (el_node (last_el NULL us) u [])" "zsl_tail zsl = el_addr u" "el_addr u \<noteq> NULL"
    using links_nth [OF l, of "length us"] zsl_repD(4) [OF r] links_nodes(2) [OF l, of u] snoc by (simp_all add: nth_append)
  have "xs \<noteq> []" using snoc by simp
  then obtain h hs where h: "xs = h # hs" by (cases xs) blast+
  have "u \<in> set xs" using snoc by simp
  have "h \<in> set xs" using h by simp
  have "level_of m (zsl_header zsl) 0 = Some (nxt 0 xs)" using level_pos [OF l, of 0 0] links_nodes(5) [OF l] by simp
  then have "level_of m (zsl_header zsl) 0 = Some (el_addr h, 1)" using h links_nodes(3) [OF l, of h] by simp
  moreover have "znode_at m (el_addr h) = Some (el_node NULL h hs)" "el_addr h \<noteq> NULL"
    using links_nth [OF l, of 0] links_nodes(2) [OF l, of h] h by simp_all
  moreover have "gte (el_node (last_el NULL us) u []) = Some (G u)" "lte (el_node NULL h hs) = Some (P h)"
    using t \<open>u \<in> set xs\<close> \<open>h \<in> set xs\<close> unfolding range_tests_def by blast+
  moreover have "last xs = u" using snoc by simp
  moreover have "hd xs = h" "xs \<noteq> []" using h by simp_all
  ultimately show ?thesis using u by (simp add: zsl_in_range_def)
qed

lemma range_split:
  assumes t: "range_tests xs gte lte G P"
  obtains ys ds zs where "xs = ys @ ds @ zs" "\<forall>y \<in> set ys. \<not> G y" "\<forall>x \<in> set (ds @ zs). G x" "\<forall>x \<in> set ds. P x" "\<forall>z \<in> set zs. \<not> P z"
    "filter (\<lambda>x. G x \<and> P x) xs = ds" "\<forall>z \<in> set (ds @ zs). \<forall>y \<in> set ys. P z \<longrightarrow> P y"
proof -
  define ys where "ys = takeWhile (Not \<circ> G) xs"
  define vs where "vs = dropWhile (Not \<circ> G) xs"
  define ds where "ds = takeWhile P vs"
  define zs where "zs = dropWhile P vs"
  have x: "xs = ys @ vs" "vs = ds @ zs" by (simp_all add: ys_def vs_def ds_def zs_def)
  have sv: "sorted_wrt (\<lambda>x y. (G x \<longrightarrow> G y) \<and> (P y \<longrightarrow> P x)) vs" "sorted_wrt (\<lambda>x y. (G x \<longrightarrow> G y) \<and> (P y \<longrightarrow> P x)) zs"
    using t unfolding range_tests_def x by (auto simp: sorted_wrt_append)
  have y: "\<forall>y \<in> set ys. \<not> G y" "\<forall>x \<in> set ds. P x" unfolding ys_def ds_def by (auto dest: set_takeWhileD)
  have g: "\<forall>x \<in> set vs. G x"
  proof (cases vs)
    case (Cons v vs')
    then have "G v" unfolding vs_def by (metis comp_apply hd_dropWhile list.distinct(1) list.sel(1))
    then show ?thesis using sv(1) Cons by auto
  qed simp
  have p: "\<forall>z \<in> set zs. \<not> P z"
  proof (cases zs)
    case (Cons v vs')
    then have "\<not> P v" unfolding zs_def by (metis hd_dropWhile list.distinct(1) list.sel(1))
    then show ?thesis using sv(2) Cons by auto
  qed simp
  have "filter (\<lambda>x. G x \<and> P x) ys = []" using y(1) by (simp add: filter_empty_conv)
  moreover have "filter (\<lambda>x. G x \<and> P x) ds = ds" using y(2) g x(2) by (intro filter_True) auto
  moreover have "filter (\<lambda>x. G x \<and> P x) zs = []" using p by (simp add: filter_empty_conv)
  ultimately have f: "filter (\<lambda>x. G x \<and> P x) xs = ds" unfolding x by simp
  have "\<forall>z \<in> set (ds @ zs). \<forall>y \<in> set ys. P z \<longrightarrow> P y"
    using t unfolding range_tests_def x by (auto simp: sorted_wrt_append)
  moreover have "\<forall>x \<in> set (ds @ zs). G x" using g x(2) by simp
  ultimately show thesis using x y p f by (intro that [of ys ds zs]) simp_all
qed

lemma first_ok:
  assumes r: "zsl_rep zsl m xs" and t: "range_tests xs gte lte G P" and g: "xs \<noteq> []" "G (last xs)"
  shows "zsl_first gte lte zsl m = Some (case filter (\<lambda>x. G x \<and> P x) xs of [] \<Rightarrow> NULL | x # _ \<Rightarrow> el_addr x)"
proof -
  obtain ys ds zs where x: "xs = ys @ ds @ zs" "\<forall>y \<in> set ys. \<not> G y" "\<forall>x \<in> set (ds @ zs). G x" "\<forall>x \<in> set ds. P x" "\<forall>z \<in> set zs. \<not> P z"
    "filter (\<lambda>x. G x \<and> P x) xs = ds" "\<forall>z \<in> set (ds @ zs). \<forall>y \<in> set ys. P z \<longrightarrow> P y" by (rule range_split [OF t])
  note l = zsl_repD(1) [OF r]
  have "cut (\<lambda>f _. map_option Not (gte f)) m (ys @ ds @ zs) (length ys)"
    by (rule cutI [OF l [unfolded x(1)]]) (use t x(1-3) in \<open>auto simp: range_tests_def\<close>)
  from seek_ok [OF l [unfolded x(1)] this order_refl] have sk: "zsl_seek (\<lambda>f _. map_option Not (gte f)) m (zsl_level zsl) (zsl_header zsl) 0
      = Some (last_el (zsl_header zsl) ys, of_nat (length ys))"
    using links_nodes(5) [OF l] by (simp add: pos_addr_last)
  obtain v vs where v: "ds @ zs = v # vs" using g x(1,2) by (cases "ds @ zs") (auto simp: last_append split: if_splits)
  have n: "znode_at m (el_addr v) = Some (el_node (last_el NULL ys) v vs)" "0 < el_height v"
    using links_nth [OF l, of "length ys"] links_nodes(3) [OF l, of v] unfolding x(1) v by simp_all
  have "length ys = 0 \<or> 0 < el_height (xs ! (length ys - 1))"
    using links_nodes(3) [OF l] x(1) by (cases ys rule: rev_cases) (auto simp: nth_append)
  then have "level_of m (last_el (zsl_header zsl) ys) 0 = Some (nxt 0 (ds @ zs))"
    using level_pos [OF l, of "length ys" 0] links_nodes(5) [OF l] x(1) by (simp add: pos_addr_last)
  then have lv: "level_of m (last_el (zsl_header zsl) ys) 0 = Some (el_addr v, 1)" using v n(2) by simp
  have "lte (el_node (last_el NULL ys) v vs) = Some (P v)" using t x(1) v unfolding range_tests_def by (metis Un_iff list.set_intros(1) set_append)
  then have "zsl_first gte lte zsl m = Some (if P v then el_addr v else NULL)" using sk lv n(1) by (simp add: zsl_first_def)
  moreover have "(if P v then el_addr v else NULL) = (case ds of [] \<Rightarrow> NULL | x # _ \<Rightarrow> el_addr x)"
    using v x(4,5) by (cases ds) auto
  ultimately show ?thesis unfolding x(6) by simp
qed

lemma last_ok:
  assumes r: "zsl_rep zsl m xs" and t: "range_tests xs gte lte G P" and g: "xs \<noteq> []" "P (hd xs)"
  shows "zsl_last gte lte zsl m = Some (if filter (\<lambda>x. G x \<and> P x) xs = [] then NULL else el_addr (last (filter (\<lambda>x. G x \<and> P x) xs)))"
proof -
  note l = zsl_repD(1) [OF r]
  define us where "us = takeWhile P xs"
  define ws where "ws = dropWhile P xs"
  have x: "xs = us @ ws" by (simp add: us_def ws_def)
  have u: "\<forall>u \<in> set us. P u" unfolding us_def by (auto dest: set_takeWhileD)
  have w: "\<forall>w \<in> set ws. \<not> P w"
  proof (cases ws)
    case (Cons v vs)
    then have "\<not> P v" unfolding ws_def by (metis hd_dropWhile list.distinct(1) list.sel(1))
    moreover have "sorted_wrt (\<lambda>x y. (G x \<longrightarrow> G y) \<and> (P y \<longrightarrow> P x)) ws" using t unfolding range_tests_def x by (simp add: sorted_wrt_append)
    ultimately show ?thesis using Cons by auto
  qed simp
  have "cut (\<lambda>f _. lte f) m (us @ ws) (length us)"
    by (rule cutI [OF l [unfolded x]]) (use t x u w in \<open>auto simp: range_tests_def\<close>)
  from seek_ok [OF l [unfolded x] this order_refl] have sk: "zsl_seek (\<lambda>f _. lte f) m (zsl_level zsl) (zsl_header zsl) 0
      = Some (last_el (zsl_header zsl) us, of_nat (length us))"
    using links_nodes(5) [OF l] by (simp add: pos_addr_last)
  obtain vs v where v: "us = vs @ [v]" using g unfolding us_def by (cases "takeWhile P xs" rule: rev_cases; cases xs) auto
  have n: "znode_at m (el_addr v) = Some (el_node (last_el NULL vs) v ws)"
    using links_nth [OF l, of "length vs"] unfolding x v by (simp add: nth_append)
  have "gte (el_node (last_el NULL vs) v ws) = Some (G v)" using t unfolding x v range_tests_def by auto
  then have e: "zsl_last gte lte zsl m = Some (if G v then el_addr v else NULL)" using sk n v by (simp add: zsl_last_def)
  have f: "filter (\<lambda>x. G x \<and> P x) xs = filter G us"
  proof -
    have "filter (\<lambda>x. G x \<and> P x) us = filter G us" "filter (\<lambda>x. G x \<and> P x) ws = []" using u w by (auto simp: filter_empty_conv intro!: filter_cong)
    then show ?thesis unfolding x by simp
  qed
  have "filter G vs = []" if "\<not> G v" using t that unfolding range_tests_def x v by (auto simp: sorted_wrt_append filter_empty_conv)
  then show ?thesis unfolding e f v by simp
qed

end
