(* ===== verification/Skiplist_Life.thy ===== *)
theory Skiplist_Life
  imports Skiplist_Props
begin

text \<open>
  The life of a skiplist: its creation and release, and a client's sequences of additions, removals and changes
  of score, against the sorted list they stand for.
\<close>

section \<open>Creation and release\<close>

lemma create_in:
  assumes "fresh_for zmalloc (dom (znodes m))"
  shows "\<exists>zsl m'. zslCreate zmalloc m = Some (zsl, m') \<and> zsl_in zsl m' [] (znodes m) \<and> zfreed m' = zfreed m
     \<and> card (dom (znodes m')) = Suc (card (dom (znodes m)))"
proof -
  let ?x = "zmalloc (znodes m)"
  have x: "?x \<noteq> NULL" "znodes m ?x = None" using assms by (auto simp: fresh_for_def)
  let ?zsl = "\<lparr>zsl_header = ?x, zsl_tail = NULL, zsl_length = 0, zsl_level = 1\<rparr>"
  let ?nd = "\<lparr>zn_ele = None, zn_score = 0, zn_backward = NULL, zn_level = replicate ZSKIPLIST_MAXLEVEL (NULL, 0)\<rparr>"
  let ?m = "m\<lparr>znodes := (znodes m)(?x \<mapsto> ?nd)\<rparr>"
  have "zslCreate zmalloc m = Some (?zsl, ?m)"
    using x by (simp add: zslCreate_def zslCreateNode_def set_backward_def znode_at_def put_node_def map_replicate_const Let_def)
  moreover have "zsl_rep ?zsl ?m []"
    using x(1) by (simp add: zsl_rep_def links_def hdr_ok_def tight_def ZSKIPLIST_MAXLEVEL_def)
  then have "zsl_in ?zsl ?m [] (znodes m)" using x by (simp add: zsl_in_def zsl_nodes_def)
  moreover have "card (dom (znodes ?m)) = Suc (card (dom (znodes m)))" using x(2) by (simp add: domIff)
  ultimately show ?thesis by (intro exI [of _ ?zsl] exI [of _ ?m]) simp
qed

lemma free_loop_ok:
  "seg (znodes m) b xs [] \<Longrightarrow> distinct (map el_addr xs) \<Longrightarrow> \<forall>x \<in> set xs. el_addr x \<noteq> NULL \<and> 0 < el_height x \<Longrightarrow>
     \<exists>m'. zslFree_loop (fst (nxt 0 xs)) m = Some m' \<and> zfreed m' = zfreed m @ map el_ele xs
       \<and> (\<forall>a. znodes m' a = (if a \<in> el_addr ` set xs then None else znodes m a))"
proof (induction xs arbitrary: b m)
  case Nil
  then show ?case by (subst zslFree_loop.simps) simp
next
  case (Cons x xs)
  let ?m = "\<lparr>znodes = (znodes m)(el_addr x := None), zfreed = zfreed m @ [el_ele x]\<rparr>"
  have n: "znode_at m (el_addr x) = Some (el_node b x xs)" using Cons.prems(1,3) by (simp add: znode_at_def)
  have "zslFree_loop (fst (nxt 0 (x # xs))) m = zslFree_loop (fst (nxt 0 xs)) ?m"
    using n Cons.prems(3) by (subst zslFree_loop.simps) (simp add: level_of_def zslFreeNode_def el_node_def case_prod_beta)
  moreover have "seg (znodes ?m) (el_addr x) xs []" using Cons.prems(1,2) by simp
  ultimately show ?case using Cons.IH [of ?m "el_addr x"] Cons.prems(2,3) by fastforce
qed

lemma free_in:
  assumes i: "zsl_in zsl m xs h0"
  shows "\<exists>m'. zslFree zsl m = Some m' \<and> znodes m' = h0 \<and> zfreed m' = zfreed m @ map el_ele xs"
proof -
  let ?hdr = "zsl_header zsl"
  let ?m = "m\<lparr>znodes := (znodes m)(?hdr := None)\<rparr>"
  note l = zsl_repD(1) [OF zsl_inD(1) [OF i]]
  have "level_of m ?hdr 0 = Some (nxt 0 xs)" using level_pos [OF l, of 0 0] links_nodes(5) [OF l] by simp
  moreover have "seg (znodes ?m) NULL xs []" using l links_nodes(7) [OF l] by (simp add: links_def)
  from free_loop_ok [OF this] obtain m' where m': "zslFree_loop (fst (nxt 0 xs)) ?m = Some m'" "zfreed m' = zfreed ?m @ map el_ele xs"
      "\<forall>a. znodes m' a = (if a \<in> el_addr ` set xs then None else znodes ?m a)"
    using links_nodes(2,3,7) [OF l] by auto
  ultimately have "zslFree zsl m = Some m'" by (simp add: zslFree_def case_prod_beta)
  moreover have "znodes m' a = h0 a" for a
    using m'(3) zsl_inD(2,3) [OF i, of a] by (auto simp: zsl_nodes_def)
  ultimately show ?thesis using m'(2) by (intro exI [of _ m']) auto
qed

section \<open>Sequences of operations\<close>

text \<open>A client that keeps to the preconditions: it adds elements that are not there, and changes the score of those
  that are.  \<open>random()\<close> returns the numbers \<open>rs\<close>.\<close>

datatype zcmd = ZAdd double bytes "nat list" | ZRem double bytes | ZScore double bytes double "nat list"

fun zstep :: "(znodes \<Rightarrow> addr) \<Rightarrow> zcmd \<Rightarrow> zskiplist \<times> zmem \<Rightarrow> (zskiplist \<times> zmem) option" where
  "zstep zmalloc (ZAdd score ele rs) (zsl, m) = map_option snd (zslInsert zmalloc rs zsl score ele m)"
| "zstep zmalloc (ZRem score ele) (zsl, m) = map_option snd (zslDelete False zsl score ele m)"
| "zstep zmalloc (ZScore cur ele new rs) (zsl, m) = map_option snd (zslUpdateScore zmalloc rs zsl cur ele new m)"

fun zsteps :: "(znodes \<Rightarrow> addr) \<Rightarrow> zcmd list \<Rightarrow> zskiplist \<times> zmem \<Rightarrow> (zskiplist \<times> zmem) option" where
  "zsteps zmalloc [] s = Some s"
| "zsteps zmalloc (c # cs) s = Option.bind (zstep zmalloc c s) (zsteps zmalloc cs)"

definition draws_ok :: "nat list \<Rightarrow> bool" where
  "draws_ok rs \<longleftrightarrow> (\<exists>r \<in> set rs. zsl_threshold \<le> r)"

definition others :: "double \<Rightarrow> bytes \<Rightarrow> (double \<times> bytes) list \<Rightarrow> (double \<times> bytes) list" where
  "others score ele xs = filter (\<lambda>x. zkey x \<noteq> zkey (score, ele)) xs"

text \<open>The specification: the sorted list, and the strings released; \<open>None\<close> when the client breaks a precondition.\<close>

fun zspec :: "zcmd \<Rightarrow> (double \<times> bytes) list \<times> bytes list \<Rightarrow> ((double \<times> bytes) list \<times> bytes list) option" where
  "zspec (ZAdd score ele rs) (xs, freed) =
     (if isnan score \<or> zkey (score, ele) \<in> zkey ` set xs \<or> \<not> draws_ok rs then None
      else Some (insort_key zkey (score, ele) xs, freed))"
| "zspec (ZRem score ele) (xs, freed) =
     (if isnan score then None
      else Some (others score ele xs, if zkey (score, ele) \<in> zkey ` set xs then freed @ [ele] else freed))"
| "zspec (ZScore cur ele new rs) (xs, freed) =
     (if isnan cur \<or> isnan new \<or> zkey (cur, ele) \<notin> zkey ` set xs \<or> zkey (new, ele) \<in> zkey ` set (others cur ele xs) \<or> \<not> draws_ok rs then None
      else Some (insort_key zkey (new, ele) (others cur ele xs), freed))"

fun zspecs :: "zcmd list \<Rightarrow> (double \<times> bytes) list \<times> bytes list \<Rightarrow> ((double \<times> bytes) list \<times> bytes list) option" where
  "zspecs [] s = Some s"
| "zspecs (c # cs) s = Option.bind (zspec c s) (zspecs cs)"

definition room_for :: "(znodes \<Rightarrow> addr) \<Rightarrow> nat \<Rightarrow> bool" where
  "room_for zmalloc n \<longleftrightarrow> (\<forall>h. card (dom h) < n \<longrightarrow> zmalloc h \<noteq> NULL \<and> h (zmalloc h) = None)"

lemma room_fresh: "room_for zmalloc n \<Longrightarrow> card (dom (znodes m)) < n \<Longrightarrow> fresh_for zmalloc (dom (znodes m))"
  unfolding room_for_def fresh_for_def by (metis domIff)

lemma zkey_ekey: "zkey (el_score x, el_ele x) = ekey x"
  by (simp add: ekey_def)

lemma elements_simps [simp]: "elements [] = []" "elements (x # xs) = (el_score x, el_ele x) # elements xs" "elements (xs @ ys) = elements xs @ elements ys"
  by (simp_all add: elements_def)

lemma zkey_set_elements: "zkey ` set (elements xs) = ekey ` set xs"
  by (force simp: elements_def ekey_def zkey_def image_image)

lemma insort_elements:
  assumes "\<forall>y \<in> set ys. ekey y < ekey e" "\<forall>z \<in> set zs. ekey e < ekey z"
  shows "insort_key zkey (el_score e, el_ele e) (elements (ys @ zs)) = elements (ys @ e # zs)"
  unfolding elements_simps
proof (rule insort_key_split)
  show "\<forall>y \<in> set (elements ys). zkey y < zkey (el_score e, el_ele e)" using assms(1) by (auto simp: elements_def zkey_ekey simp del: zkey_simps)
  show "\<forall>z \<in> set (elements zs). zkey (el_score e, el_ele e) \<le> zkey z"
    using assms(2) by (auto simp: elements_def zkey_ekey less_imp_le simp del: zkey_simps)
qed

lemma others_elements:
  assumes "sorted_wrt (<) (map ekey (ys @ e # zs))" "ekey e = zkey (score, ele)"
  shows "others score ele (elements (ys @ e # zs)) = elements (ys @ zs)"
proof -
  have "\<forall>x \<in> set (ys @ zs). ekey x \<noteq> ekey e" using assms(1) by (fastforce simp: sorted_wrt_append)
  then have "filter (\<lambda>x. zkey x \<noteq> ekey e) (elements us) = elements us" if "set us \<subseteq> set (ys @ zs)" for us
    using that by (intro filter_True) (auto simp: elements_def zkey_ekey simp del: zkey_simps)
  then show ?thesis using assms(2) by (simp add: others_def zkey_ekey del: zkey_simps)
qed

lemma in_elements:
  assumes "zkey (score, ele) \<in> zkey ` set (elements xs)"
  obtains ys e zs where "xs = ys @ e # zs" "ekey e = (score_key score, ele)"
proof -
  obtain e where "e \<in> set xs" "ekey e = (score_key score, ele)" using assms by (auto simp: zkey_set_elements)
  then show thesis using that split_list [of e xs] by metis
qed

definition adds :: "zcmd \<Rightarrow> nat" where
  "adds c = (case c of ZAdd _ _ _ \<Rightarrow> 1 | _ \<Rightarrow> 0)"

lemma zstep_ok:
  assumes i: "zsl_in zsl m xs h0" and sp: "zspec c (elements xs, freed) = Some (es, freed')"
    and fr: "fresh_for zmalloc (dom (znodes m))" and f: "zfreed m = f0 @ freed"
  shows "\<exists>zsl' m' xs'. zstep zmalloc c (zsl, m) = Some (zsl', m') \<and> zsl_in zsl' m' xs' h0 \<and> elements xs' = es
     \<and> zfreed m' = f0 @ freed' \<and> card (dom (znodes m')) \<le> card (dom (znodes m)) + adds c"
proof (cases c)
  case (ZAdd score ele rs)
  have k: "\<not> isnan score" "(score_key score, ele) \<notin> ekey ` set xs" "es = insort_key zkey (score, ele) (elements xs)" "freed' = freed"
    and "draws_ok rs" using sp ZAdd by (auto simp: zkey_set_elements split: if_splits)
  then obtain ht where ht: "zslRandomLevel rs = Some ht" using random_level_exists by (auto simp: draws_ok_def)
  obtain ys zs where x: "xs = ys @ zs" "\<forall>y \<in> set ys. ekey y < (score_key score, ele)" "\<forall>z \<in> set zs. (score_key score, ele) \<le> ekey z"
    using split_before [OF zsl_repD(2) [OF zsl_inD(1) [OF i]]] by blast
  have lt: "\<forall>z \<in> set zs. (score_key score, ele) < ekey z" using x(1,3) k(2) by (fastforce simp: order.order_iff_strict)
  obtain e zsl' m' where r: "zslInsert zmalloc rs zsl score ele m = Some (el_addr e, zsl', m')" "el_score e = score" "el_ele e = ele"
      "zsl_in zsl' m' (ys @ e # zs) h0" "only_at (insert (el_addr e) (zsl_nodes zsl (ys @ zs))) m m'"
    using insert_in [OF i [unfolded x(1)] k(1) x(2) lt ht fr] by blast
  have e: "ekey e = (score_key score, ele)" using r(2,3) by (simp add: ekey_def)
  have "dom (znodes m') \<subseteq> insert (el_addr e) (dom (znodes m))"
    using r(5) zsl_nodes_dom [OF zsl_inD(1) [OF i]] unfolding x(1) only_at_def by (auto simp: domIff subset_iff)
  then have "card (dom (znodes m')) \<le> card (insert (el_addr e) (dom (znodes m)))" by (intro card_mono) simp_all
  also have "\<dots> \<le> Suc (card (dom (znodes m)))" by (simp add: card_insert_if)
  finally have c: "card (dom (znodes m')) \<le> Suc (card (dom (znodes m)))" .
  show ?thesis
    using ZAdd r k(3,4) f insort_elements [of ys e zs] x(2) lt e x(1) c by (auto simp: adds_def only_at_def)
next
  case (ZRem score ele)
  have k: "\<not> isnan score" "es = others score ele (elements xs)" "freed' = (if zkey (score, ele) \<in> zkey ` set (elements xs) then freed @ [ele] else freed)"
    using sp ZRem by (auto split: if_splits)
  show ?thesis
  proof (cases "zkey (score, ele) \<in> zkey ` set (elements xs)")
    case True
    then obtain ys e zs where x: "xs = ys @ e # zs" "ekey e = (score_key score, ele)" by (rule in_elements)
    obtain zsl' m' where r: "zslDelete False zsl score ele m = Some (Some (el_addr e), zsl', m')" "zsl_in zsl' m' (ys @ zs) h0"
        "zfreed m' = zfreed m @ [el_ele e]" "dom (znodes m') = dom (znodes m) - {el_addr e}"
      using delete_in [OF i [unfolded x(1)] k(1) x(2)] by blast
    have "others score ele (elements xs) = elements (ys @ zs)"
      using others_elements [of ys e zs score ele] zsl_repD(2) [OF zsl_inD(1) [OF i]] x by simp
    moreover have "el_ele e = ele" using x(2) by (simp add: ekey_def)
    moreover have "card (dom (znodes m')) \<le> card (dom (znodes m))" unfolding r(4) by (rule card_Diff1_le)
    ultimately show ?thesis using ZRem r k True f by (auto simp: adds_def)
  next
    case False
    then have a: "(score_key score, ele) \<notin> ekey ` set xs" by (simp add: zkey_set_elements)
    have "zkey x \<noteq> zkey (score, ele)" if "x \<in> set (elements xs)" for x using False that by (metis imageI)
    then have "others score ele (elements xs) = elements xs"
      unfolding others_def by (intro filter_True) blast
    then show ?thesis using zslDelete_absent [OF zsl_inD(1) [OF i] k(1) a] ZRem i k f False by (auto simp: adds_def)
  qed
next
  case (ZScore cur ele new rs)
  have k: "\<not> isnan cur" "\<not> isnan new" "zkey (cur, ele) \<in> zkey ` set (elements xs)" "zkey (new, ele) \<notin> zkey ` set (others cur ele (elements xs))"
    "es = insort_key zkey (new, ele) (others cur ele (elements xs))" "freed' = freed" and "draws_ok rs"
    using sp ZScore by (auto split: if_splits simp del: zkey_simps)
  then obtain ht where ht: "zslRandomLevel rs = Some ht" using random_level_exists by (auto simp: draws_ok_def)
  obtain ys e zs where x: "xs = ys @ e # zs" "ekey e = (score_key cur, ele)" using k(3) by (rule in_elements)
  have o: "others cur ele (elements xs) = elements (ys @ zs)"
    using others_elements [of ys e zs cur ele] zsl_repD(2) [OF zsl_inD(1) [OF i]] x by simp
  have new: "(score_key new, ele) \<notin> ekey ` set (ys @ zs)" using k(4) unfolding o zkey_set_elements by simp
  obtain e' us vs zsl' m' where r: "zslUpdateScore zmalloc rs zsl cur ele new m = Some (el_addr e', zsl', m')" "el_score e' = new" "el_ele e' = ele"
      "ys @ zs = us @ vs" "\<forall>y \<in> set us. ekey y < ekey e'" "\<forall>z \<in> set vs. ekey e' < ekey z" "zsl_in zsl' m' (us @ e' # vs) h0"
      "zfreed m' = zfreed m" "card (dom (znodes m')) = card (dom (znodes m))"
    using update_in [OF i [unfolded x(1)] k(1,2) x(2) new ht fr] by blast
  then show ?thesis using ZScore k(5,6) f insort_elements [OF r(5,6)] o by (auto simp: adds_def)
qed

lemma zsteps_ok:
  "zsl_in zsl m xs h0 \<Longrightarrow> zspecs cs (elements xs, freed) = Some (es, freed') \<Longrightarrow> room_for zmalloc (card (dom (znodes m)) + length cs)
   \<Longrightarrow> zfreed m = f0 @ freed \<Longrightarrow>
   \<exists>zsl' m' xs'. zsteps zmalloc cs (zsl, m) = Some (zsl', m') \<and> zsl_in zsl' m' xs' h0 \<and> elements xs' = es \<and> zfreed m' = f0 @ freed'"
proof (induction cs arbitrary: zsl m xs freed)
  case (Cons c cs)
  obtain es1 freed1 where c: "zspec c (elements xs, freed) = Some (es1, freed1)" "zspecs cs (es1, freed1) = Some (es, freed')"
    using Cons.prems(2) by (auto split: Option.bind_splits)
  have fr: "fresh_for zmalloc (dom (znodes m))" by (rule room_fresh [OF Cons.prems(3)]) simp
  obtain zsl1 m1 xs1 where s: "zstep zmalloc c (zsl, m) = Some (zsl1, m1)" "zsl_in zsl1 m1 xs1 h0" "elements xs1 = es1"
      "zfreed m1 = f0 @ freed1" "card (dom (znodes m1)) \<le> card (dom (znodes m)) + adds c"
    using zstep_ok [OF Cons.prems(1) c(1) fr Cons.prems(4)] by blast
  have "adds c \<le> 1" by (cases c) (simp_all add: adds_def)
  then have "room_for zmalloc (card (dom (znodes m1)) + length cs)" using Cons.prems(3) s(5) by (auto simp: room_for_def)
  from Cons.IH [OF s(2) c(2) [folded s(3)] this s(4)] show ?case using s(1) by simp
qed auto

text \<open>C5. The life of a skiplist.  Created, and given any sequence of additions, removals and score changes that
  respects the preconditions (an element is added only when it is not there, a score is changed only of an element
  that is), it runs through without a failed assertion or a wild access, whatever heights \<open>random()\<close> gives the
  nodes; it then holds, in order, exactly the sorted list the same operations make of the empty list; it has
  released exactly the strings removed; and releasing it leaves the memory as it was, every remaining string freed once.\<close>

theorem skiplist_lifetime:
  assumes "zspecs cs ([], []) = Some (es, freed)" "room_for zmalloc (card (dom (znodes m)) + length cs + 1)"
  shows "\<exists>zsl0 m0 zsl m1 xs m2. zslCreate zmalloc m = Some (zsl0, m0) \<and> zsteps zmalloc cs (zsl0, m0) = Some (zsl, m1)
     \<and> zsl_rep zsl m1 xs \<and> elements xs = es \<and> sorted (map zkey es) \<and> zfreed m1 = zfreed m @ freed
     \<and> zslFree zsl m1 = Some m2 \<and> znodes m2 = znodes m \<and> zfreed m2 = zfreed m @ freed @ map snd es"
proof -
  have "fresh_for zmalloc (dom (znodes m))" by (rule room_fresh [OF assms(2)]) simp
  then obtain zsl0 m0 where c: "zslCreate zmalloc m = Some (zsl0, m0)" "zsl_in zsl0 m0 [] (znodes m)" "zfreed m0 = zfreed m"
      "card (dom (znodes m0)) = Suc (card (dom (znodes m)))" using create_in by blast
  have room: "room_for zmalloc (card (dom (znodes m0)) + length cs)" using assms(2) c(4) by (simp add: add.commute)
  obtain zsl m1 xs where r: "zsteps zmalloc cs (zsl0, m0) = Some (zsl, m1)" "zsl_in zsl m1 xs (znodes m)" "elements xs = es" "zfreed m1 = zfreed m @ freed"
    using zsteps_ok [OF c(2) _ room, of "[]" es freed "zfreed m"] assms(1) c(3) by auto
  obtain m2 where f: "zslFree zsl m1 = Some m2" "znodes m2 = znodes m" "zfreed m2 = zfreed m1 @ map el_ele xs"
    using free_in [OF r(2)] by blast
  have "sorted (map zkey es)"
    unfolding r(3) [symmetric] ekey_elements by (rule strict_sorted_imp_sorted [OF zsl_repD(2) [OF zsl_inD(1) [OF r(2)]]])
  moreover have "map el_ele xs = map snd es" using r(3) by (auto simp: elements_def)
  ultimately show ?thesis using c(1) r(1,3,4) zsl_inD(1) [OF r(2)] f
    by (intro exI [of _ zsl0] exI [of _ m0] exI [of _ zsl] exI [of _ m1] exI [of _ xs] exI [of _ m2]) simp
qed

definition five_addresses :: "znodes \<Rightarrow> addr" where
  "five_addresses h = (if h 1 = None then 1 else if h 2 = None then 2 else if h 3 = None then 3 else if h 4 = None then 4 else 5)"

lemma five_room: "room_for five_addresses 5"
  unfolding room_for_def
proof (intro allI impI)
  fix h :: znodes assume c: "card (dom h) < 5"
  have "\<not> {1, 2, 3, 4, 5 :: addr} \<subseteq> dom h"
  proof
    assume "{1, 2, 3, 4, 5 :: addr} \<subseteq> dom h"
    then have "card {1, 2, 3, 4, 5 :: addr} \<le> card (dom h)" by (intro card_mono) simp_all
    then show False using c by simp
  qed
  then show "five_addresses h \<noteq> NULL \<and> h (five_addresses h) = None" by (auto simp: five_addresses_def)
qed

text \<open>The scores are 1.0 and 2.0.\<close>

lemma skiplist_lifetime_witness:
  "\<exists>zsl0 m0 zsl m1 xs. zslCreate five_addresses \<lparr>znodes = (\<lambda>_. None), zfreed = []\<rparr> = Some (zsl0, m0)
     \<and> zsteps five_addresses [ZAdd 0x4000000000000000 [97] [0, 0, 2 ^ 30], ZAdd 0x3FF0000000000000 [98] [2 ^ 30],
          ZScore 0x4000000000000000 [97] 0 [2 ^ 30], ZRem 0x3FF0000000000000 [98]] (zsl0, m0) = Some (zsl, m1)
     \<and> zsl_rep zsl m1 xs \<and> elements xs = [(0, [97])] \<and> zfreed m1 = [[98]]"
proof -
  let ?cs = "[ZAdd 0x4000000000000000 [97] [0, 0, 2 ^ 30], ZAdd 0x3FF0000000000000 [98] [2 ^ 30],
          ZScore 0x4000000000000000 [97] 0 [2 ^ 30], ZRem 0x3FF0000000000000 [98]]"
  let ?m = "\<lparr>znodes = (\<lambda>_. None), zfreed = []\<rparr>"
  have sp: "zspecs ?cs ([], []) = Some ([(0, [97])], [[98]])"
    by (simp add: draws_ok_def zsl_threshold_def others_def isnan_def magnitude_def score_key_def)
  have "card (dom (znodes ?m)) + length ?cs + 1 = 5" by simp
  then have room: "room_for five_addresses (card (dom (znodes ?m)) + length ?cs + 1)" using five_room by (simp only:)
  obtain zsl0 m0 zsl m1 xs where "zslCreate five_addresses ?m = Some (zsl0, m0)" "zsteps five_addresses ?cs (zsl0, m0) = Some (zsl, m1)"
      "zsl_rep zsl m1 xs" "elements xs = [(0, [97])]" "zfreed m1 = zfreed ?m @ [[98]]"
    using skiplist_lifetime [OF sp room] by blast
  then show ?thesis by (intro exI [of _ zsl0] exI [of _ m0] exI [of _ zsl] exI [of _ m1] exI [of _ xs]) simp
qed

end
