(* ===== verification/Skiplist_Ranges.thy ===== *)
theory Skiplist_Ranges
  imports Skiplist_Ranks Skiplist_Life
begin

text \<open>
  Ranges of scores, of strings and of ranks: what is found in them, and their deletion.
\<close>

section \<open>Ranges of scores and of strings\<close>

text \<open>What the ranges mean: an end is in the range unless it is excluded; nothing is before the least string or after
  the greatest, and nothing is in a range with an end that is not a number.\<close>

definition in_scores :: "zrangespec \<Rightarrow> zel \<Rightarrow> bool" where
  "in_scores rg x \<longleftrightarrow>
     (dlt (zr_min rg) (el_score x) \<or> \<not> zr_minex rg \<and> deq (zr_min rg) (el_score x))
     \<and> (dlt (el_score x) (zr_max rg) \<or> \<not> zr_maxex rg \<and> deq (el_score x) (zr_max rg))"

definition in_lex :: "zlexrangespec \<Rightarrow> zel \<Rightarrow> bool" where
  "in_lex rg x \<longleftrightarrow>
     (case zl_min rg of MinString \<Rightarrow> True | MaxString \<Rightarrow> False | Sds t \<Rightarrow> t < el_ele x \<or> \<not> zl_minex rg \<and> t = el_ele x)
     \<and> (case zl_max rg of MinString \<Rightarrow> False | MaxString \<Rightarrow> True | Sds t \<Rightarrow> el_ele x < t \<or> \<not> zl_maxex rg \<and> el_ele x = t)"

lemma in_scores_tests: "in_scores rg x \<longleftrightarrow> zslValueGteMin (el_score x) rg \<and> zslValueLteMax (el_score x) rg"
  by (auto simp: in_scores_def zslValueGteMin_def zslValueLteMax_def dle_def)

lemma in_lex_tests: "in_lex rg x \<longleftrightarrow> zslLexValueGteMin (el_ele x) rg \<and> zslLexValueLteMax (el_ele x) rg"
  by (cases "zl_min rg"; cases "zl_max rg")
    (auto simp: in_lex_def zslLexValueGteMin_def zslLexValueLteMax_def sdscmplex_def)

definition first_addr :: "zel list \<Rightarrow> addr" where
  "first_addr xs = (case xs of [] \<Rightarrow> NULL | x # _ \<Rightarrow> el_addr x)"

lemma score_mono:
  assumes "score_key a \<le> score_key b" "\<not> isnan a" "\<not> isnan b"
  shows "zslValueGteMin a rg \<Longrightarrow> zslValueGteMin b rg" "zslValueLteMax b rg \<Longrightarrow> zslValueLteMax a rg"
  using assms by (auto simp: zslValueGteMin_def zslValueLteMax_def dlt_def dle_def deq_def split: if_splits)

lemma lex_mono:
  assumes "s \<le> t"
  shows "zslLexValueGteMin s rg \<Longrightarrow> zslLexValueGteMin t rg" "zslLexValueLteMax t rg \<Longrightarrow> zslLexValueLteMax s rg"
proof -
  have g: "sdscmplex (Sds u) b \<ge> 0 \<longleftrightarrow> b = MinString \<or> (\<exists>v. b = Sds v \<and> v \<le> u)"
    "sdscmplex (Sds u) b > 0 \<longleftrightarrow> b = MinString \<or> (\<exists>v. b = Sds v \<and> v < u)" for u b
    by (cases b; auto simp: sdscmplex_def)+
  have l: "sdscmplex (Sds u) b \<le> 0 \<longleftrightarrow> b = MaxString \<or> (\<exists>v. b = Sds v \<and> u \<le> v)"
    "sdscmplex (Sds u) b < 0 \<longleftrightarrow> b = MaxString \<or> (\<exists>v. b = Sds v \<and> u < v)" for u b
    by (cases b; auto simp: sdscmplex_def)+
  show "zslLexValueGteMin s rg \<Longrightarrow> zslLexValueGteMin t rg"
    using assms by (auto simp: zslLexValueGteMin_def g split: if_splits)
  show "zslLexValueLteMax t rg \<Longrightarrow> zslLexValueLteMax s rg"
    using assms by (auto simp: zslLexValueLteMax_def l split: if_splits)
qed

lemma score_tests:
  assumes "zsl_rep zsl m xs"
  shows "range_tests xs (score_gte rg) (score_lte rg) (\<lambda>x. zslValueGteMin (el_score x) rg) (\<lambda>x. zslValueLteMax (el_score x) rg)"
proof -
  have "sorted_wrt (\<lambda>x y. ekey x < ekey y) xs" using zsl_repD(2) [OF assms] by (simp add: sorted_wrt_map)
  then have "sorted_wrt (\<lambda>x y. (zslValueGteMin (el_score x) rg \<longrightarrow> zslValueGteMin (el_score y) rg)
      \<and> (zslValueLteMax (el_score y) rg \<longrightarrow> zslValueLteMax (el_score x) rg)) xs"
  proof (rule sorted_wrt_mono_rel [rotated])
    fix x y assume xy: "x \<in> set xs" "y \<in> set xs" "ekey x < ekey y"
    then have "score_key (el_score x) \<le> score_key (el_score y)" by (auto simp: ekey_def less_prod_simp)
    from score_mono [OF this zsl_repD(3) [OF assms xy(1)] zsl_repD(3) [OF assms xy(2)]]
    show "(zslValueGteMin (el_score x) rg \<longrightarrow> zslValueGteMin (el_score y) rg) \<and> (zslValueLteMax (el_score y) rg \<longrightarrow> zslValueLteMax (el_score x) rg)" by blast
  qed
  then show ?thesis by (simp add: range_tests_def score_gte_def score_lte_def el_node_def)
qed

lemma lex_tests:
  assumes "sorted (map el_ele xs)"
  shows "range_tests xs (lex_gte rg) (lex_lte rg) (\<lambda>x. zslLexValueGteMin (el_ele x) rg) (\<lambda>x. zslLexValueLteMax (el_ele x) rg)"
proof -
  have "sorted_wrt (\<lambda>x y. el_ele x \<le> el_ele y) xs" using assms by (simp add: sorted_wrt_map)
  then have "sorted_wrt (\<lambda>x y. (zslLexValueGteMin (el_ele x) rg \<longrightarrow> zslLexValueGteMin (el_ele y) rg)
      \<and> (zslLexValueLteMax (el_ele y) rg \<longrightarrow> zslLexValueLteMax (el_ele x) rg)) xs"
    by (rule sorted_wrt_mono_rel [rotated]) (use lex_mono in blast)
  then show ?thesis by (simp add: range_tests_def lex_gte_def lex_lte_def el_node_def)
qed

text \<open>A range whose ends are crossed holds nothing.\<close>

lemma score_crossed:
  "dlt (zr_max rg) (zr_min rg) \<or> deq (zr_min rg) (zr_max rg) \<and> (zr_minex rg \<or> zr_maxex rg) \<Longrightarrow> \<not> in_scores rg x"
  by (auto simp: in_scores_tests zslValueGteMin_def zslValueLteMax_def dlt_def dle_def deq_def)

lemma lex_crossed:
  "sdscmplex (zl_min rg) (zl_max rg) > 0 \<or> sdscmplex (zl_min rg) (zl_max rg) = 0 \<and> (zl_minex rg \<or> zl_maxex rg) \<Longrightarrow> \<not> in_lex rg x"
  by (cases "zl_min rg"; cases "zl_max rg")
    (auto simp: in_lex_tests zslLexValueGteMin_def zslLexValueLteMax_def sdscmplex_def not_less split: if_splits)

lemma outside_empty:
  assumes "range_tests xs gte lte G P" "\<not> (xs \<noteq> [] \<and> G (last xs) \<and> P (hd xs))"
  shows "filter (\<lambda>x. G x \<and> P x) xs = []"
proof (cases xs)
  case (Cons h hs)
  have s: "sorted_wrt (\<lambda>x y. (G x \<longrightarrow> G y) \<and> (P y \<longrightarrow> P x)) xs" using assms(1) by (simp add: range_tests_def)
  consider "\<not> G (last xs)" | "\<not> P h" using assms(2) Cons by auto
  then show ?thesis
  proof cases
    case 1
    have x: "xs = butlast xs @ [last xs]" using Cons by simp
    then have "sorted_wrt (\<lambda>x y. (G x \<longrightarrow> G y) \<and> (P y \<longrightarrow> P x)) (butlast xs @ [last xs])" using s by metis
    then have "\<forall>x \<in> set (butlast xs @ [last xs]). \<not> G x" using 1 by (auto simp: sorted_wrt_append)
    then show ?thesis using x by (metis (mono_tags, lifting) filter_False)
  next
    case 2
    then show ?thesis using s Cons by (auto simp: filter_empty_conv)
  qed
qed simp

lemma search_in_range:
  assumes r: "zsl_rep zsl m xs" and t: "range_tests xs gte lte G P"
    and f: "isin = (if crossed then Some False else zsl_in_range gte lte zsl m)" "crossed \<Longrightarrow> \<forall>x. \<not> (G x \<and> P x)"
  shows "Option.bind isin (\<lambda>b. if \<not> b then Some NULL else zsl_first gte lte zsl m) = Some (first_addr (filter (\<lambda>x. G x \<and> P x) xs))"
    "Option.bind isin (\<lambda>b. if \<not> b then Some NULL else zsl_last gte lte zsl m)
       = Some (last_el NULL (filter (\<lambda>x. G x \<and> P x) xs))"
proof -
  have "Option.bind isin (\<lambda>b. if \<not> b then Some NULL else zsl_first gte lte zsl m) = Some (first_addr (filter (\<lambda>x. G x \<and> P x) xs))
    \<and> Option.bind isin (\<lambda>b. if \<not> b then Some NULL else zsl_last gte lte zsl m) = Some (last_el NULL (filter (\<lambda>x. G x \<and> P x) xs))"
  proof (cases crossed)
    case True
    then have "filter (\<lambda>x. G x \<and> P x) xs = []" using f(2) by (simp add: filter_empty_conv)
    then show ?thesis using f(1) True by (simp add: first_addr_def)
  next
    case False
    then have i: "isin = Some (xs \<noteq> [] \<and> G (last xs) \<and> P (hd xs))" using f(1) in_range_ok [OF r t] by simp
    show ?thesis
    proof (cases "xs \<noteq> [] \<and> G (last xs) \<and> P (hd xs)")
      case True
      then show ?thesis using first_ok [OF r t] last_ok [OF r t] i by (simp add: first_addr_def last_el_def)
    next
      case False
      then show ?thesis using outside_empty [OF t False] i by (simp add: first_addr_def)
    qed
  qed
  then show "Option.bind isin (\<lambda>b. if \<not> b then Some NULL else zsl_first gte lte zsl m) = Some (first_addr (filter (\<lambda>x. G x \<and> P x) xs))"
    "Option.bind isin (\<lambda>b. if \<not> b then Some NULL else zsl_last gte lte zsl m) = Some (last_el NULL (filter (\<lambda>x. G x \<and> P x) xs))"
    by simp_all
qed

lemma score_search:
  assumes "zsl_rep zsl m xs"
  shows "zslFirstInRange zsl rg m = Some (first_addr (filter (in_scores rg) xs))"
    "zslLastInRange zsl rg m = Some (last_el NULL (filter (in_scores rg) xs))"
proof -
  have c: "\<forall>x :: zel. \<not> (zslValueGteMin (el_score x) rg \<and> zslValueLteMax (el_score x) rg)"
    if "dlt (zr_max rg) (zr_min rg) \<or> deq (zr_min rg) (zr_max rg) \<and> (zr_minex rg \<or> zr_maxex rg)"
    using score_crossed [OF that] unfolding in_scores_tests by blast
  note s = search_in_range [OF assms score_tests [OF assms] zslIsInRange_def c]
  show "zslFirstInRange zsl rg m = Some (first_addr (filter (in_scores rg) xs))"
    "zslLastInRange zsl rg m = Some (last_el NULL (filter (in_scores rg) xs))"
    using s by (simp_all add: zslFirstInRange_def zslLastInRange_def in_scores_tests [abs_def])
qed

lemma lex_search:
  assumes "zsl_rep zsl m xs" "sorted (map el_ele xs)"
  shows "zslFirstInLexRange zsl rg m = Some (first_addr (filter (in_lex rg) xs))"
    "zslLastInLexRange zsl rg m = Some (last_el NULL (filter (in_lex rg) xs))"
proof -
  have c: "\<forall>x :: zel. \<not> (zslLexValueGteMin (el_ele x) rg \<and> zslLexValueLteMax (el_ele x) rg)"
    if "sdscmplex (zl_min rg) (zl_max rg) > 0 \<or> sdscmplex (zl_min rg) (zl_max rg) = 0 \<and> (zl_minex rg \<or> zl_maxex rg)"
    using lex_crossed [OF that] unfolding in_lex_tests by blast
  have "zslIsInLexRange zsl rg m
      = (if sdscmplex (zl_min rg) (zl_max rg) > 0 \<or> sdscmplex (zl_min rg) (zl_max rg) = 0 \<and> (zl_minex rg \<or> zl_maxex rg)
         then Some False else zsl_in_range (lex_gte rg) (lex_lte rg) zsl m)" by (simp add: zslIsInLexRange_def Let_def)
  note s = search_in_range [OF assms(1) lex_tests [OF assms(2)] this c]
  show "zslFirstInLexRange zsl rg m = Some (first_addr (filter (in_lex rg) xs))"
    "zslLastInLexRange zsl rg m = Some (last_el NULL (filter (in_lex rg) xs))"
    using s by (simp_all add: zslFirstInLexRange_def zslLastInLexRange_def in_lex_tests [abs_def])
qed

section \<open>Deletion of a segment\<close>

lemma drop_in:
  assumes i: "zsl_in zsl m (ys @ e # zs) h0" and N: "zsl_level zsl \<le> N"
  obtains zsl' m1 m2 where "zslDeleteNode zsl (el_addr e) (stops (zsl_header zsl) ys N) m = Some (zsl', m1)"
    "zslFreeNode (el_addr e) m1 = Some m2" "zsl_in zsl' m2 (ys @ zs) h0" "zsl_header zsl' = zsl_header zsl" "zsl_level zsl' \<le> zsl_level zsl"
    "zfreed m2 = zfreed m @ [el_ele e]"
proof -
  obtain zsl' m1 where d: "zslDeleteNode zsl (el_addr e) (stops (zsl_header zsl) ys N) m = Some (zsl', m1)"
      "zsl_rep zsl' m1 (ys @ zs)" "zsl_header zsl' = zsl_header zsl" "zsl_level zsl' \<le> zsl_level zsl"
      "only_at (zsl_nodes zsl (ys @ zs)) m m1" "znodes m1 (el_addr e) = Some (el_node (last_el NULL ys) e zs)"
    using zslDeleteNode_ok [OF zsl_inD(1) [OF i] N] by blast
  obtain m2 where f: "zslFreeNode (el_addr e) m1 = Some m2" "zsl_rep zsl' m2 (ys @ zs)" "dropped False e (zsl_nodes zsl (ys @ zs)) m m2"
    using free_el [OF zsl_inD(1) [OF i] d(5,6,2,3)] by blast
  have n: "zsl_nodes zsl (ys @ e # zs) = insert (el_addr e) (zsl_nodes zsl (ys @ zs))" "zsl_nodes zsl' (ys @ zs) = zsl_nodes zsl (ys @ zs)"
    using d(3) by (auto simp: zsl_nodes_def)
  have "zsl_in zsl' m2 (ys @ zs) h0"
  proof (rule zsl_inI [OF f(2)])
    fix a assume "a \<notin> zsl_nodes zsl' (ys @ zs)"
    then show "znodes m2 a = h0 a"
      using f(3) zsl_inD(2) [OF i, of a] zsl_inD(3) [OF i, of a] unfolding n by (cases "a = el_addr e") (simp_all add: dropped_def)
  qed (use zsl_inD(2) [OF i] n in auto)
  then show thesis using that d(1,3,4) f(1,3) by (simp add: dropped_def)
qed

definition cond_on :: "(znode \<Rightarrow> 64 word \<Rightarrow> bool option) \<Rightarrow> 64 word \<Rightarrow> zel list \<Rightarrow> zel list \<Rightarrow> bool" where
  "cond_on cond t ds zs \<longleftrightarrow> (\<forall>k < length ds. \<forall>b ws. cond (el_node b (ds ! k) ws) (t + of_nat k) = Some True)
     \<and> (zs \<noteq> [] \<longrightarrow> (\<forall>b ws. cond (el_node b (hd zs) ws) (t + of_nat (length ds)) = Some False))"

lemma cond_on_Cons: "cond_on cond t (e # ds) zs \<longleftrightarrow> (\<forall>b ws. cond (el_node b e ws) t = Some True) \<and> cond_on cond (t + 1) ds zs"
proof -
  have "t + of_nat (Suc k) = t + 1 + of_nat k" "t + of_nat 0 = t" for k by (simp_all add: add.assoc)
  then show ?thesis by (simp only: cond_on_def All_less_Suc2 length_Cons nth_Cons_0 nth_Cons_Suc conj_assoc)
qed

lemma delete_while_ok:
  "zsl_in zsl m (ys @ ds @ zs) h0 \<Longrightarrow> zsl_level zsl \<le> N \<Longrightarrow> cond_on cond t ds zs \<Longrightarrow>
   \<exists>zsl' m'. zsl_delete_while cond del (stops (zsl_header zsl) ys N) (fst (nxt 0 (ds @ zs))) t removed zsl m d
       = Some (removed + of_nat (length ds), zsl', m', fold del (map el_ele ds) d)
     \<and> zsl_in zsl' m' (ys @ zs) h0 \<and> zfreed m' = zfreed m @ map el_ele ds"
proof (induction ds arbitrary: zsl m t removed d)
  case Nil
  show ?case
  proof (cases zs)
    case Nil
    then show ?thesis using Nil.prems by (subst zsl_delete_while.simps) simp
  next
    case (Cons z zs')
    have i: "zsl_in zsl m (ys @ z # zs') h0" using Nil.prems(1) Cons by simp
    note l = zsl_repD(1) [OF zsl_inD(1) [OF i]]
    have "0 < el_height z" "el_addr z \<noteq> NULL" using links_nodes(2,3) [OF l] by simp_all
    moreover have "cond (el_node (last_el NULL ys) z zs') t = Some False" using Nil.prems(3) Cons by (simp add: cond_on_def)
    ultimately show ?thesis using neighbours(1) [OF zsl_inD(1) [OF i]] Nil.prems(1) Cons by (subst zsl_delete_while.simps) simp
  qed
next
  case (Cons e ds)
  have i: "zsl_in zsl m (ys @ e # (ds @ zs)) h0" using Cons.prems(1) by simp
  note l = zsl_repD(1) [OF zsl_inD(1) [OF i]]
  have e: "0 < el_height e" "el_addr e \<noteq> NULL" using links_nodes(2,3) [OF l] by simp_all
  obtain zsl1 m1 m2 where d: "zslDeleteNode zsl (el_addr e) (stops (zsl_header zsl) ys N) m = Some (zsl1, m1)"
      "zslFreeNode (el_addr e) m1 = Some m2" "zsl_in zsl1 m2 (ys @ ds @ zs) h0" "zsl_header zsl1 = zsl_header zsl" "zsl_level zsl1 \<le> zsl_level zsl"
      "zfreed m2 = zfreed m @ [el_ele e]" by (rule drop_in [OF i Cons.prems(2)])
  have c: "cond (el_node (last_el NULL ys) e (ds @ zs)) t = Some True" "cond_on cond (t + 1) ds zs"
    using Cons.prems(3) by (simp_all add: cond_on_Cons)
  have "zsl_level zsl1 \<le> N" using d(5) Cons.prems(2) by simp
  from Cons.IH [OF d(3) this c(2), of "removed + 1" "del (el_ele e) d"] obtain zsl' m' where
    r: "zsl_delete_while cond del (stops (zsl_header zsl1) ys N) (fst (nxt 0 (ds @ zs))) (t + 1) (removed + 1) zsl1 m2 (del (el_ele e) d)
       = Some (removed + 1 + of_nat (length ds), zsl', m', fold del (map el_ele ds) (del (el_ele e) d))"
      "zsl_in zsl' m' (ys @ zs) h0" "zfreed m' = zfreed m2 @ map el_ele ds" by blast
  have lv: "level_of m (el_addr e) 0 = Some (fst (nxt 0 (ds @ zs)), snd (nxt 0 (ds @ zs)))" using neighbours(2) [OF zsl_inD(1) [OF i]] by simp
  have ele: "zn_ele (el_node (last_el NULL ys) e (ds @ zs)) = Some (el_ele e)" by (simp add: el_node_def)
  have "zsl_delete_while cond del (stops (zsl_header zsl) ys N) (el_addr e) t removed zsl m d
      = zsl_delete_while cond del (stops (zsl_header zsl) ys N) (fst (nxt 0 (ds @ zs))) (t + 1) (removed + 1) zsl1 m2 (del (el_ele e) d)"
    using e(2) neighbours(1) [OF zsl_inD(1) [OF i]] c(1) lv d(1,2) ele
    by (subst zsl_delete_while.simps) (simp only: Option.bind.bind_lunit prod.case if_False not_True_eq_False)
  then show ?case using r d(4,6) e(1) by (intro exI [of _ zsl'] exI [of _ m']) (simp add: add.assoc add.commute add.left_commute)
qed

lemma delete_range_ok:
  assumes i: "zsl_in zsl m (ys @ ds @ zs) h0" and g: "cut go m (ys @ ds @ zs) (length ys)" and c: "cond_on cond (of_nat (length ys) + 1) ds zs"
  shows "\<exists>zsl' m'. zsl_delete_range go cond del zsl m d = Some (of_nat (length ds), zsl', m', fold del (map el_ele ds) d)
     \<and> zsl_in zsl' m' (ys @ zs) h0 \<and> zfreed m' = zfreed m @ map el_ele ds"
proof -
  note l = zsl_repD(1) [OF zsl_inD(1) [OF i]]
  have h: "0 < zsl_level zsl" "\<forall>y \<in> set ys. 0 < el_height y" using links_nodes(3,5) [OF l] by auto
  obtain us where us: "marks (zsl_header zsl) ys (zsl_level zsl) = (last_el (zsl_header zsl) ys, of_nat (length ys)) # us" using marks_hd [OF h] by blast
  have "length ys = 0 \<or> 0 < el_height ((ys @ ds @ zs) ! (length ys - 1))"
    using h(2) by (cases ys rule: rev_cases) (auto simp: nth_append)
  then have lv: "level_of m (last_el (zsl_header zsl) ys) 0 = Some (fst (nxt 0 (ds @ zs)), snd (nxt 0 (ds @ zs)))"
    using level_pos [OF l, of "length ys" 0] h(1) pos_addr_last [of "zsl_header zsl" ys]
    by (cases ys rule: rev_cases) (simp_all add: nth_append)
  have st: "map fst (marks (zsl_header zsl) ys (zsl_level zsl)) = stops (zsl_header zsl) ys (zsl_level zsl)" by simp
  have "zsl_delete_range go cond del zsl m d = zsl_delete_while cond del (stops (zsl_header zsl) ys (zsl_level zsl)) (fst (nxt 0 (ds @ zs))) (of_nat (length ys) + 1) 0 zsl m d"
    using descend_marks [OF l g] us lv st unfolding zsl_delete_range_def by (simp add: split_beta)
  then show ?thesis using delete_while_ok [OF i order_refl c, of del 0 d] by simp
qed

section \<open>Deletion of ranges\<close>

text \<open>The result of a deletion: the elements kept make up the skiplist, those gone are counted, deleted from the
  dictionary and freed, in order, and no other node has changed.\<close>

definition removes ::
  "(64 word \<times> zskiplist \<times> zmem \<times> 'd) option \<Rightarrow> (bytes \<Rightarrow> 'd \<Rightarrow> 'd) \<Rightarrow> 'd \<Rightarrow> zmem \<Rightarrow> znodes \<Rightarrow> zel list \<Rightarrow> zel list \<Rightarrow> bool" where
  "removes res del d m h0 kept gone \<longleftrightarrow> (\<exists>zsl' m'.
     res = Some (of_nat (length gone), zsl', m', fold del (map el_ele gone) d)
     \<and> zsl_in zsl' m' kept h0 \<and> zfreed m' = zfreed m @ map el_ele gone)"

lemma removes_tests:
  assumes i: "zsl_in zsl m xs h0" and t: "range_tests xs gte lte G P"
  shows "removes (zsl_delete_range (\<lambda>f _. map_option Not (gte f)) (\<lambda>f _. lte f) del zsl m d) del d m h0
    (filter (\<lambda>x. \<not> (G x \<and> P x)) xs) (filter (\<lambda>x. G x \<and> P x) xs)"
proof -
  obtain ys ds zs where x: "xs = ys @ ds @ zs" "\<forall>y \<in> set ys. \<not> G y" "\<forall>x \<in> set (ds @ zs). G x" "\<forall>x \<in> set ds. P x" "\<forall>z \<in> set zs. \<not> P z"
    "filter (\<lambda>x. G x \<and> P x) xs = ds" "\<forall>z \<in> set (ds @ zs). \<forall>y \<in> set ys. P z \<longrightarrow> P y" by (rule range_split [OF t])
  note l = zsl_repD(1) [OF zsl_inD(1) [OF i]]
  have c: "cut (\<lambda>f _. map_option Not (gte f)) m (ys @ ds @ zs) (length ys)"
    by (rule cutI [OF l [unfolded x(1)]]) (use t x(1-3) in \<open>auto simp: range_tests_def\<close>)
  have w: "cond_on (\<lambda>f _. lte f) (of_nat (length ys) + 1) ds zs"
    unfolding cond_on_def
  proof (intro conjI allI impI)
    show "lte (el_node b (ds ! k) ws) = Some True" if "k < length ds" for k b ws
      using t x(1,4) that by (auto simp: range_tests_def)
    show "lte (el_node b (hd zs) ws) = Some False" if "zs \<noteq> []" for b ws
      using t x(1,5) that by (auto simp: range_tests_def)
  qed
  have "filter (\<lambda>x. \<not> (G x \<and> P x)) ys = ys" using x(2) by (intro filter_True) auto
  moreover have "filter (\<lambda>x. \<not> (G x \<and> P x)) zs = zs" using x(5) by (intro filter_True) auto
  moreover have "filter (\<lambda>x. \<not> (G x \<and> P x)) ds = []" using x(3,4) by (simp add: filter_empty_conv)
  ultimately have k: "filter (\<lambda>x. \<not> (G x \<and> P x)) xs = ys @ zs" unfolding x(1) by simp
  show ?thesis
    unfolding removes_def k x(6) by (rule delete_range_ok [OF i [unfolded x(1)] c w])
qed

lemma removes_scores:
  assumes "zsl_in zsl m xs h0"
  shows "removes (zslDeleteRangeByScore del zsl rg m d) del d m h0 (filter (\<lambda>x. \<not> in_scores rg x) xs) (filter (in_scores rg) xs)"
  using removes_tests [OF assms score_tests [OF zsl_inD(1) [OF assms]], of rg del d]
  by (simp add: zslDeleteRangeByScore_def in_scores_tests [abs_def])

lemma removes_lex:
  assumes "zsl_in zsl m xs h0" "sorted (map el_ele xs)"
  shows "removes (zslDeleteRangeByLex del zsl rg m d) del d m h0 (filter (\<lambda>x. \<not> in_lex rg x) xs) (filter (in_lex rg) xs)"
  using removes_tests [OF assms(1) lex_tests [OF assms(2)], of rg del d]
  by (simp add: zslDeleteRangeByLex_def in_lex_tests [abs_def])

lemma removes_ranks:
  assumes i: "zsl_in zsl m xs h0"
  shows "removes (zslDeleteRangeByRank del zsl start stop m d) del d m h0
    (take (unat start - 1) xs @ drop (max (unat start - 1) (unat stop)) xs) (take (unat stop - (unat start - 1)) (drop (unat start - 1) xs))"
proof -
  define ys where "ys = take (unat start - 1) xs"
  define ds where "ds = take (unat stop - (unat start - 1)) (drop (unat start - 1) xs)"
  define zs where "zs = drop (max (unat start - 1) (unat stop)) xs"
  have z: "zs = drop (unat stop - (unat start - 1)) (drop (unat start - 1) xs)"
    by (simp add: zs_def max_def)
  then have x: "xs = ys @ ds @ zs" unfolding ys_def ds_def by (simp only: append_take_drop_id)
  note l = zsl_repD(1) [OF zsl_inD(1) [OF i]] and len = length_bound [OF zsl_inD(1) [OF i]]
  have u: "unat (ucast start :: 64 word) = unat start" "unat (ucast stop :: 64 word) = unat stop"
    using unsigned_less [of start, where ?'a = nat] unsigned_less [of stop, where ?'a = nat]
    by (simp_all add: unsigned_ucast_eq take_bit_nat_eq_self)
  have n: "unat (of_nat k :: 64 word) = k" if "k \<le> length xs" for k using that len by (simp add: unat_of_nat)
  have ly: "length ys = min (unat start - 1) (length xs)" by (simp add: ys_def)
  have c: "cut (\<lambda>_ r. Some (r < ucast start)) m (ys @ ds @ zs) (length ys)"
    unfolding cut_def
  proof (intro conjI allI impI)
    fix k assume "k < length (ys @ ds @ zs)"
    then have k: "k < length xs" using x by simp
    then have "(of_nat (Suc k) < (ucast start :: 64 word)) \<longleftrightarrow> k < length ys"
      using n [of "Suc k"] u ly by (auto simp: word_less_nat_alt simp del: of_nat_Suc)
    then show "\<exists>f. znode_at m (el_addr ((ys @ ds @ zs) ! k)) = Some f \<and> Some (of_nat (Suc k) < (ucast start :: 64 word)) = Some (k < length ys)"
      using links_nth [OF l k] unfolding x [symmetric] by blast
  qed simp
  have r: "of_nat (length ys) + 1 + of_nat k = (of_nat (Suc (length ys + k)) :: 64 word)" for k by simp
  have w: "cond_on (\<lambda>_ r. Some (r \<le> ucast stop)) (of_nat (length ys) + 1) ds zs"
    unfolding cond_on_def r
  proof (intro conjI allI impI)
    fix k assume k: "k < length ds"
    then have "Suc (length ys + k) \<le> length xs" by (simp add: x)
    moreover have "Suc (length ys + k) \<le> unat stop" using k unfolding ds_def ly length_take length_drop by linarith
    ultimately show "Some (of_nat (Suc (length ys + k)) \<le> (ucast stop :: 64 word)) = Some True"
      using n u by (simp add: word_le_nat_alt del: of_nat_Suc)
  next
    assume "zs \<noteq> []"
    then have "\<not> length xs \<le> max (unat start - 1) (unat stop)" by (simp add: zs_def)
    then have "Suc (length ys + length ds) \<le> length xs" "\<not> Suc (length ys + length ds) \<le> unat stop"
      unfolding ds_def ly length_take length_drop by linarith+
    then show "Some (of_nat (Suc (length ys + length ds)) \<le> (ucast stop :: 64 word)) = Some False"
      using n [of "Suc (length ys + length ds)"] u by (simp add: word_le_nat_alt del: of_nat_Suc)
  qed
  show ?thesis
    unfolding removes_def zslDeleteRangeByRank_def ys_def [symmetric] ds_def [symmetric] zs_def [symmetric]
    by (rule delete_range_ok [OF i [unfolded x] c w])
qed

section \<open>What a client sees\<close>

lemma filter_upto_nth:
  assumes "sorted_wrt (<) (map f xs)" "k < length xs"
  shows "filter (\<lambda>x. f x \<le> (f (xs ! k) :: 'k::linorder)) xs = take (Suc k) xs"
proof -
  have x: "xs = take k xs @ xs ! k # drop (Suc k) xs" using assms(2) by (rule id_take_nth_drop)
  have s: "sorted_wrt (<) (map f (take k xs @ xs ! k # drop (Suc k) xs))" using assms(1) x by simp
  have "filter (\<lambda>x. f x \<le> f (xs ! k)) (take k xs) = take k xs"
    using s by (intro filter_True) (auto simp: sorted_wrt_append less_imp_le)
  moreover have "filter (\<lambda>x. f x \<le> f (xs ! k)) (drop (Suc k) xs) = []"
    using s by (auto simp: sorted_wrt_append filter_empty_conv not_le)
  ultimately have "filter (\<lambda>x. f x \<le> f (xs ! k)) (take k xs @ xs ! k # drop (Suc k) xs) = take k xs @ [xs ! k]" by simp
  then show ?thesis using x assms(2) by (simp add: take_Suc_conv_app_nth)
qed

text \<open>C22. Ranks and elements agree in both directions: the \<open>k\<close>-th element has rank \<open>k\<close>, counted from 1, and the
  search by that rank finds its node; an element that is not in the skiplist has rank 0, and a rank beyond the
  length no node.\<close>

theorem skiplist_ranks:
  assumes "zsl_rep zsl m xs"
  shows "(\<forall>k < length xs. zslGetRank zsl (el_score (xs ! k)) (el_ele (xs ! k)) m = Some (of_nat (Suc k))
        \<and> zslGetElementByRank zsl (of_nat (Suc k)) m = Some (el_addr (xs ! k)))
     \<and> (\<forall>score ele. \<not> isnan score \<and> zkey (score, ele) \<notin> zkey ` set (elements xs) \<longrightarrow> zslGetRank zsl score ele m = Some 0)
     \<and> (\<forall>rank. length xs < unat rank \<longrightarrow> zslGetElementByRank zsl rank m = Some NULL)"
proof (intro conjI allI impI)
  fix k assume k: "k < length xs"
  then have "\<not> isnan (el_score (xs ! k))" using zsl_repD(3) [OF assms] by simp
  from zslGetRank_ok [OF assms this, of "el_ele (xs ! k)"]
  show "zslGetRank zsl (el_score (xs ! k)) (el_ele (xs ! k)) m = Some (of_nat (Suc k))"
    using k filter_upto_nth [OF zsl_repD(2) [OF assms] k] by (simp add: ekey_def [symmetric])
  have "unat (of_nat (Suc k) :: 64 word) = Suc k" using k length_bound [OF assms] by (simp add: unat_of_nat del: of_nat_Suc)
  then show "zslGetElementByRank zsl (of_nat (Suc k)) m = Some (el_addr (xs ! k))"
    using k zslGetElementByRank_ok [OF assms, of "of_nat (Suc k)"] by (simp del: of_nat_Suc)
next
  fix score ele assume "\<not> isnan score \<and> zkey (score, ele) \<notin> zkey ` set (elements xs)"
  then show "zslGetRank zsl score ele m = Some 0" using zslGetRank_ok [OF assms, of score ele] by (simp add: zkey_set_elements)
next
  fix rank :: "64 word" assume "length xs < unat rank"
  then show "zslGetElementByRank zsl rank m = Some NULL" using zslGetElementByRank_ok [OF assms, of rank] by simp
qed

text \<open>A skiplist to apply the properties to: scores 1.0 and 2.0.\<close>

lemma two_elements:
  "\<exists>zsl m xs. zsl_in zsl m xs (\<lambda>_. None) \<and> elements xs = [(0x3FF0000000000000, [98]), (0x4000000000000000, [97])]"
proof -
  let ?cs = "[ZAdd 0x4000000000000000 [97] [0, 0, 2 ^ 30], ZAdd 0x3FF0000000000000 [98] [2 ^ 30]]"
  let ?m = "\<lparr>znodes = (\<lambda>_. None), zfreed = []\<rparr>"
  have "fresh_for five_addresses (dom (znodes ?m))" by (rule room_fresh [OF five_room]) simp
  then obtain zsl0 m0 where c: "zsl_in zsl0 m0 [] (znodes ?m)" "card (dom (znodes m0)) = Suc (card (dom (znodes ?m)))" "zfreed m0 = zfreed ?m"
    using create_in by blast
  have sp: "zspecs ?cs (elements [], []) = Some ([(0x3FF0000000000000, [98]), (0x4000000000000000, [97])], [])"
    by (simp add: draws_ok_def zsl_threshold_def isnan_def magnitude_def score_key_def)
  have "room_for five_addresses (card (dom (znodes m0)) + length ?cs)" using c(2) five_room by (simp add: room_for_def)
  from zsteps_ok [OF c(1) sp this, of "[]"] show ?thesis using c(3) by auto
qed

lemma skiplist_ranks_witness:
  "\<exists>zsl m xs. zsl_rep zsl m xs \<and> elements xs = [(0x3FF0000000000000, [98]), (0x4000000000000000, [97])]
     \<and> zslGetRank zsl 0x4000000000000000 [97] m = Some 2 \<and> zslGetElementByRank zsl 2 m = Some (el_addr (last xs))"
proof -
  obtain zsl m xs where i: "zsl_in zsl m xs (\<lambda>_. None)" "elements xs = [(0x3FF0000000000000, [98]), (0x4000000000000000, [97])]"
    using two_elements by blast
  then have x: "length xs = 2" "last xs = xs ! 1" "el_score (xs ! 1) = 0x4000000000000000" "el_ele (xs ! 1) = [97]"
    by (auto simp: elements_def)
  have "zslGetRank zsl (el_score (xs ! 1)) (el_ele (xs ! 1)) m = Some (of_nat (Suc 1)) \<and> zslGetElementByRank zsl (of_nat (Suc 1)) m = Some (el_addr (xs ! 1))"
    using skiplist_ranks [OF zsl_inD(1) [OF i(1)]] x(1) by (metis Suc_1 lessI)
  then have "zslGetRank zsl 0x4000000000000000 [97] m = Some 2" "zslGetElementByRank zsl 2 m = Some (el_addr (last xs))"
    using x by simp_all
  then show ?thesis using zsl_inD(1) [OF i(1)] i(2) by blast
qed

text \<open>C30. The searches by range find the first and the last of the elements in the range, a null pointer when
  there is none, for every range: its ends may be crossed, equal, excluded, infinite or not a number.  The ranges
  of strings do so when the strings are in order, as they are when all scores are equal.\<close>

theorem skiplist_range_search:
  assumes "zsl_rep zsl m xs"
  shows "zslFirstInRange zsl rg m = Some (first_addr (filter (in_scores rg) xs))
     \<and> zslLastInRange zsl rg m = Some (last_el NULL (filter (in_scores rg) xs))
     \<and> (sorted (map el_ele xs) \<longrightarrow> zslFirstInLexRange zsl lrg m = Some (first_addr (filter (in_lex lrg) xs))
         \<and> zslLastInLexRange zsl lrg m = Some (last_el NULL (filter (in_lex lrg) xs)))"
  using score_search [OF assms] lex_search [OF assms] by simp

lemma skiplist_range_search_witness:
  "\<exists>zsl m xs. zsl_rep zsl m xs \<and> elements xs = [(0x3FF0000000000000, [98]), (0x4000000000000000, [97])]
     \<and> zslFirstInRange zsl \<lparr>zr_min = 0x3FF0000000000000, zr_max = 0x7FF0000000000000, zr_minex = True, zr_maxex = False\<rparr> m = Some (el_addr (last xs))"
proof -
  obtain zsl m xs where i: "zsl_in zsl m xs (\<lambda>_. None)" "elements xs = [(0x3FF0000000000000, [98]), (0x4000000000000000, [97])]"
    using two_elements by blast
  let ?rg = "\<lparr>zr_min = 0x3FF0000000000000, zr_max = 0x7FF0000000000000, zr_minex = True, zr_maxex = False\<rparr>"
  obtain a b where x: "xs = [a, b]" "el_score a = 0x3FF0000000000000" "el_score b = 0x4000000000000000"
    using i(2) by (auto simp: elements_def)
  have "filter (in_scores ?rg) xs = [b]"
    by (simp add: x in_scores_def dlt_def deq_def isnan_def magnitude_def score_key_def)
  moreover have "zslFirstInRange zsl ?rg m = Some (first_addr (filter (in_scores ?rg) xs))"
    using skiplist_range_search [OF zsl_inD(1) [OF i(1)], of ?rg] by blast
  ultimately show ?thesis using zsl_inD(1) [OF i(1)] i(2) x(1)
    by (intro exI [of _ zsl] exI [of _ m] exI [of _ xs]) (simp add: first_addr_def)
qed

text \<open>C21. Deleting a range removes exactly its elements, in order: those whose score (or string, when the strings are
  in order) is in it, or whose rank, counted from 1, is between its ends, for every 32-bit value of them.  The
  count, the dictionary, the strings freed and the remaining skiplist are those of these elements, and nothing else
  in memory changes.\<close>

theorem skiplist_range_deletion:
  assumes "zsl_in zsl m xs h0"
  shows "removes (zslDeleteRangeByScore del zsl rg m d) del d m h0 (filter (\<lambda>x. \<not> in_scores rg x) xs) (filter (in_scores rg) xs)
     \<and> (sorted (map el_ele xs) \<longrightarrow>
          removes (zslDeleteRangeByLex del zsl lrg m d) del d m h0 (filter (\<lambda>x. \<not> in_lex lrg x) xs) (filter (in_lex lrg) xs))
     \<and> removes (zslDeleteRangeByRank del zsl start stop m d) del d m h0
          (take (unat start - 1) xs @ drop (max (unat start - 1) (unat stop)) xs) (take (unat stop - (unat start - 1)) (drop (unat start - 1) xs))"
  by (intro conjI impI removes_scores removes_lex removes_ranks assms)

lemma skiplist_range_deletion_witness:
  "\<exists>zsl m xs. zsl_in zsl m xs (\<lambda>_. None) \<and> elements xs = [(0x3FF0000000000000, [98]), (0x4000000000000000, [97])]
     \<and> removes (zslDeleteRangeByRank (#) zsl 2 9 m []) (#) [] m (\<lambda>_. None) (take 1 xs) (drop 1 xs)"
proof -
  obtain zsl m xs where i: "zsl_in zsl m xs (\<lambda>_. None)" "elements xs = [(0x3FF0000000000000, [98]), (0x4000000000000000, [97])]"
    using two_elements by blast
  then have "length xs = 2" by (auto simp: elements_def)
  have "removes (zslDeleteRangeByRank (#) zsl 2 9 m []) (#) [] m (\<lambda>_. None)
      (take (unat (2 :: 32 word) - 1) xs @ drop (max (unat (2 :: 32 word) - 1) (unat (9 :: 32 word))) xs)
      (take (unat (9 :: 32 word) - (unat (2 :: 32 word) - 1)) (drop (unat (2 :: 32 word) - 1) xs))"
    using skiplist_range_deletion [OF i(1), of "(#)" _ "[]" _ 2 9] by blast
  then have "removes (zslDeleteRangeByRank (#) zsl 2 9 m []) (#) [] m (\<lambda>_. None) (take 1 xs) (drop 1 xs)"
    using \<open>length xs = 2\<close> by simp
  then show ?thesis using i by blast
qed

end
