(* ===== verification/Glob.thy ===== *)
theory Glob
  imports Redis_Prelude "HOL-Library.Monad_Syntax"
begin

text \<open>
  The glob-style patterns of \<open>util.c\<close>, with which clients select keys and channels: \<open>stringmatchlen\<close>, and the
  meaning of a pattern as a sequence of tokens.

  A pattern and a string are byte lists and positions in them indices, so that \<open>patternLen\<close> is the length of the
  pattern minus the index.  A pattern is followed by a NUL, which the code reads; any read further on is the result
  \<open>None\<close>.  Whether a plain \<open>char\<close> is signed depends on the host and is an argument, \<open>sg\<close>.
\<close>

section \<open>Matching\<close>

definition pat :: "bytes \<Rightarrow> nat \<Rightarrow> u8 option" where
  "pat p i = (if i < length p then Some (p ! i) else if i = length p then Some 0 else None)"

definition char_int :: "bool \<Rightarrow> u8 \<Rightarrow> int" where
  "char_int sg c = (if sg then sint c else uint c)"

definition tolower :: "int \<Rightarrow> int" where
  "tolower c = (if 65 \<le> c \<and> c \<le> 90 then c + 32 else c)"

definition same_char :: "bool \<Rightarrow> bool \<Rightarrow> u8 \<Rightarrow> u8 \<Rightarrow> bool" where
  "same_char sg nocase a b = (if \<not> nocase then a = b else tolower (char_int sg a) = tolower (char_int sg b))"

definition in_range :: "bool \<Rightarrow> bool \<Rightarrow> u8 \<Rightarrow> u8 \<Rightarrow> u8 \<Rightarrow> bool" where
  "in_range sg nocase a b c =
     (let start = char_int sg a; end = char_int sg b; c = char_int sg c;
          (start, end) = (if start > end then (end, start) else (start, end));
          (start, end, c) = (if nocase then (tolower start, tolower end, tolower c) else (start, end, c))
      in start \<le> c \<and> c \<le> end)"

text \<open>\<open>while (patternLen && pattern[1] == '*')\<close>, and \<open>while (*pattern == '*')\<close>.\<close>

function skip_stars :: "bytes \<Rightarrow> nat \<Rightarrow> nat option" where
  "skip_stars p i =
     (if i < length p then do { c \<leftarrow> pat p (i + 1); if c = 42 then skip_stars p (i + 1) else Some i } else Some i)"
  by pat_completeness auto
termination by (relation "measure (\<lambda>(p, i). length p - i)") auto

function trailing_stars :: "bytes \<Rightarrow> nat \<Rightarrow> nat option" where
  "trailing_stars p i = do { c \<leftarrow> pat p i; if c = 42 then trailing_stars p (i + 1) else Some i }"
  by pat_completeness auto
termination by (relation "measure (\<lambda>(p, i). length p - i)") (auto simp: pat_def split: if_splits)

text \<open>The loop over a class of characters: the index of its \<open>]\<close>, or of the last character of the pattern.\<close>

function class_loop :: "bool \<Rightarrow> bool \<Rightarrow> bytes \<Rightarrow> u8 \<Rightarrow> nat \<Rightarrow> bool \<Rightarrow> (nat \<times> bool) option" where
  "class_loop sg nocase p s i match = do {
     c \<leftarrow> pat p i;
     if c = 92 \<and> length p - i \<ge> 2 then do {
       e \<leftarrow> pat p (i + 1);
       class_loop sg nocase p s (i + 2) (match \<or> e = s) }
     else if c = 93 then Some (i, match)
     else if length p - i = 0 then Some (i - 1, match)
     else if length p - i \<ge> 3 \<and> pat p (i + 1) = Some 45 then do {
       e \<leftarrow> pat p (i + 2);
       class_loop sg nocase p s (i + 3) (match \<or> in_range sg nocase c e s) }
     else class_loop sg nocase p s (i + 1) (match \<or> same_char sg nocase c s) }"
  by pat_completeness auto
termination by (relation "measure (\<lambda>(_, _, p, _, i, _). length p - i)") auto

declare skip_stars.simps [simp del] trailing_stars.simps [simp del] class_loop.simps [simp del]

text \<open>The class after its \<open>[\<close>.\<close>

definition match_class :: "bool \<Rightarrow> bool \<Rightarrow> bytes \<Rightarrow> u8 \<Rightarrow> nat \<Rightarrow> (nat \<times> bool) option" where
  "match_class sg nocase p s i = do {
     c \<leftarrow> pat p i;
     let negate = (c = 94);
     (i, match) \<leftarrow> class_loop sg nocase p s (if negate then i + 1 else i) False;
     Some (i, if negate then \<not> match else match) }"

lemma skip_stars_ge: "skip_stars p i = Some i' \<Longrightarrow> i \<le> i'"
  by (induction p i rule: skip_stars.induct) (subst (asm) (2) skip_stars.simps, force split: Option.bind_splits if_splits)

lemma class_loop_ge: "class_loop sg nocase p s i match = Some (i', match') \<Longrightarrow> i - 1 \<le> i'"
proof (induction sg nocase p s i match rule: class_loop.induct)
  case (1 sg nocase p s i match)
  show ?case using 1(4)
    by (subst (asm) class_loop.simps) (use 1(1-3) in \<open>force split: Option.bind_splits if_splits\<close>)
qed

lemma match_class_ge: "match_class sg nocase p s (i + 1) = Some (i', match) \<Longrightarrow> i \<le> i'"
  by (auto simp: match_class_def Let_def split: Option.bind_splits if_splits dest!: class_loop_ge)

text \<open>The tail of the string from \<open>j\<close> on against the tail of the pattern from \<open>i\<close> on; the second result is
  \<open>*skipLongerMatches\<close>.  In \<open>star_loop\<close> the index \<open>i\<close> is the one after the stars.\<close>

function stringmatchlen_impl :: "bool \<Rightarrow> bool \<Rightarrow> bytes \<Rightarrow> nat \<Rightarrow> bytes \<Rightarrow> nat \<Rightarrow> bool \<Rightarrow> (bool \<times> bool) option"
  and star_loop :: "bool \<Rightarrow> bool \<Rightarrow> bytes \<Rightarrow> nat \<Rightarrow> bytes \<Rightarrow> nat \<Rightarrow> bool \<Rightarrow> (bool \<times> bool) option"
  and match_next :: "bool \<Rightarrow> bool \<Rightarrow> bytes \<Rightarrow> nat \<Rightarrow> bytes \<Rightarrow> nat \<Rightarrow> bool \<Rightarrow> (bool \<times> bool) option" where
  "stringmatchlen_impl sg nocase p i s j skip =
     (if i < length p \<and> j < length s then
        if p ! i = 42 then do {
          i' \<leftarrow> skip_stars p i;
          if length p - i' = 1 then Some (True, skip) else star_loop sg nocase p (i' + 1) s j skip }
        else if p ! i = 63 then match_next sg nocase p (i + 1) s (j + 1) skip
        else if p ! i = 91 then do {
          (i', match) \<leftarrow> match_class sg nocase p (s ! j) (i + 1);
          if \<not> match then Some (False, skip) else match_next sg nocase p (i' + 1) s (j + 1) skip }
        else
          let i = (if p ! i = 92 \<and> length p - i \<ge> 2 then i + 1 else i) in
          if \<not> same_char sg nocase (p ! i) (s ! j) then Some (False, skip)
          else match_next sg nocase p (i + 1) s (j + 1) skip
      else Some (i = length p \<and> j = length s, skip))"
| "star_loop sg nocase p i s j skip =
     (if j < length s then do {
        (r, skip) \<leftarrow> stringmatchlen_impl sg nocase p i s j skip;
        if r then Some (True, skip)
        else if skip then Some (False, skip)
        else star_loop sg nocase p i s (j + 1) skip }
      else Some (False, True))"
| "match_next sg nocase p i s j skip =
     (if j = length s then do { i \<leftarrow> trailing_stars p i; Some (i = length p, skip) }
      else stringmatchlen_impl sg nocase p i s j skip)"
  by pat_completeness auto
termination
  by (relation "measures [
     \<lambda>x. case x of Inl (_, _, p, i, _) \<Rightarrow> length p - i | Inr (Inl (_, _, p, i, _)) \<Rightarrow> length p - i | Inr (Inr (_, _, p, i, _)) \<Rightarrow> length p - i,
     \<lambda>x. case x of Inl (_, _, p, i, s, j, _) \<Rightarrow> 2 * (length s - j) | Inr (Inl (_, _, p, i, s, j, _)) \<Rightarrow> 2 * (length s - j) + 1
       | Inr (Inr (_, _, p, i, s, j, _)) \<Rightarrow> 2 * (length s - j) + 1]")
    (auto dest: skip_stars_ge match_class_ge [simplified])

declare stringmatchlen_impl.simps [simp del] star_loop.simps [simp del] match_next.simps [simp del]

definition stringmatchlen :: "bool \<Rightarrow> bytes \<Rightarrow> bytes \<Rightarrow> bool \<Rightarrow> bool option" where
  "stringmatchlen sg p s nocase = map_option fst (stringmatchlen_impl sg nocase p 0 s 0 False)"

text \<open>C strings: up to the first NUL.\<close>

definition stringmatch :: "bool \<Rightarrow> bytes \<Rightarrow> bytes \<Rightarrow> bool \<Rightarrow> bool option" where
  "stringmatch sg p s nocase = stringmatchlen sg (takeWhile (\<lambda>c. c \<noteq> 0) p) (takeWhile (\<lambda>c. c \<noteq> 0) s) nocase"

section \<open>The meaning of a pattern\<close>

datatype class_item = Escaped u8 | Span u8 u8 | Single u8

datatype token = Star | AnyChar | Class bool "class_item list" | Literal u8

fun parse_class :: "bytes \<Rightarrow> class_item list \<times> bytes" where
  "parse_class [] = ([], [])"
| "parse_class (c # r) =
     (if c = 92 \<and> r \<noteq> [] then apfst (Cons (Escaped (hd r))) (parse_class (tl r))
      else if c = 93 then ([], r)
      else case r of
          d # e # r' \<Rightarrow> if d = 45 then apfst (Cons (Span c e)) (parse_class r') else apfst (Cons (Single c)) (parse_class r)
        | _ \<Rightarrow> apfst (Cons (Single c)) (parse_class r))"

lemmas parse_class_Cons = parse_class.simps(2)

declare parse_class.simps(2) [simp del]

lemma length_parse_class: "length (snd (parse_class r)) \<le> length r"
proof (induction r rule: measure_induct_rule [of length])
  case (less r)
  then have IH: "length y < length r \<Longrightarrow> length (snd (parse_class y)) \<le> length r" for y by (meson le_trans less_imp_le)
  show ?case
  proof (cases r)
    case (Cons c r')
    have "length (tl r') < length r" "length r' < length r" "r' = d # e # r'' \<Longrightarrow> length r'' < length r" for d e r'' using Cons by simp_all
    then show ?thesis using IH unfolding Cons by (subst parse_class_Cons) (auto split: list.split)
  qed simp
qed

function parse_glob :: "bytes \<Rightarrow> token list" where
  "parse_glob [] = []"
| "parse_glob (c # r) =
     (if c = 42 then Star # parse_glob r
      else if c = 63 then AnyChar # parse_glob r
      else if c = 91 then
        let negate = (r \<noteq> [] \<and> hd r = 94); (items, rest) = parse_class (if negate then tl r else r)
        in Class negate items # parse_glob rest
      else if c = 92 \<and> r \<noteq> [] then Literal (hd r) # parse_glob (tl r)
      else Literal c # parse_glob r)"
  by pat_completeness auto
termination
proof (relation "measure length", goal_cases)
  case (4 c r neg x items rest)
  then have "length rest \<le> length (if neg then tl r else r)" using length_parse_class by (metis snd_conv)
  then show ?case by (auto split: if_splits)
qed auto

text \<open>Two characters are taken for the same when their values are, or without case those of their lower case; a span
  goes from the smaller of its ends to the larger, both included, and these are what is lowered.\<close>

definition alike :: "bool \<Rightarrow> bool \<Rightarrow> u8 \<Rightarrow> u8 \<Rightarrow> bool" where
  "alike sg nocase a c \<longleftrightarrow> a = c \<or> nocase \<and> tolower (char_int sg a) = tolower (char_int sg c)"

definition in_span :: "bool \<Rightarrow> bool \<Rightarrow> u8 \<Rightarrow> u8 \<Rightarrow> u8 \<Rightarrow> bool" where
  "in_span sg nocase a b c \<longleftrightarrow>
     (let low = min (char_int sg a) (char_int sg b); high = max (char_int sg a) (char_int sg b)
      in if nocase then tolower low \<le> tolower (char_int sg c) \<and> tolower (char_int sg c) \<le> tolower high
         else low \<le> char_int sg c \<and> char_int sg c \<le> high)"

lemma same_char_alike: "same_char sg nocase a c = alike sg nocase a c"
  by (auto simp: same_char_def alike_def)

lemma in_range_span: "in_range sg nocase a b c = in_span sg nocase a b c"
  by (auto simp: in_range_def in_span_def Let_def min_def max_def)

definition item_ok :: "bool \<Rightarrow> bool \<Rightarrow> u8 \<Rightarrow> class_item \<Rightarrow> bool" where
  "item_ok sg nocase c item = (case item of
     Escaped e \<Rightarrow> e = c | Span a b \<Rightarrow> in_span sg nocase a b c | Single a \<Rightarrow> alike sg nocase a c)"

definition token_ok :: "bool \<Rightarrow> bool \<Rightarrow> token \<Rightarrow> u8 \<Rightarrow> bool" where
  "token_ok sg nocase t c = (case t of
     Star \<Rightarrow> True | AnyChar \<Rightarrow> True | Class negate items \<Rightarrow> negate \<noteq> (\<exists>item \<in> set items. item_ok sg nocase c item)
   | Literal a \<Rightarrow> alike sg nocase a c)"

fun glob :: "bool \<Rightarrow> bool \<Rightarrow> token list \<Rightarrow> bytes \<Rightarrow> bool" where
  "glob sg nocase [] s \<longleftrightarrow> s = []"
| "glob sg nocase (t # ts) s \<longleftrightarrow>
     (if t = Star then \<exists>k \<le> length s. glob sg nocase ts (drop k s)
      else s \<noteq> [] \<and> token_ok sg nocase t (hd s) \<and> glob sg nocase ts (tl s))"

section \<open>The matcher decides it\<close>

lemma drop_Cons_nth: "i < length p \<Longrightarrow> drop i p = p ! i # drop (Suc i) p"
  by (simp add: Cons_nth_drop_Suc)

lemma length_le_1: "length zs \<le> 1 \<Longrightarrow> (\<exists>a. zs = [a]) \<or> zs = []"
  by (cases zs) auto

lemma class_loop_ok:
  "0 < i \<Longrightarrow> i \<le> length p \<Longrightarrow> \<exists>i'. class_loop sg nocase p c i m = Some (i', m \<or> (\<exists>item \<in> set (fst (parse_class (drop i p))). item_ok sg nocase c item))
     \<and> i' < length p \<and> snd (parse_class (drop i p)) = drop (i' + 1) p"
proof (induction sg nocase p c i m rule: class_loop.induct)
  case (1 sg nocase p s i m)
  show ?case
  proof (cases "i = length p")
    case True
    then show ?thesis using 1(4) by (subst class_loop.simps) (auto simp: pat_def)
  next
    case False
    then have i: "i < length p" "pat p i = Some (p ! i)" using 1(5) by (auto simp: pat_def)
    show ?thesis
    proof (cases "p ! i = 92 \<and> i + 1 < length p")
      case True
      then have e: "pat p (i + 1) = Some (p ! (i + 1))" "2 \<le> length p - i" by (auto simp: pat_def)
      have d: "drop i p = 92 # p ! (i + 1) # drop (i + 2) p" using True by (simp add: drop_Cons_nth)
      show ?thesis
        using 1(1) [OF i(2) _ e(1)] True e by (subst class_loop.simps) (auto simp: i(2) d item_ok_def same_char_alike in_range_span parse_class_Cons)
    next
      case esc: False
      show ?thesis
      proof (cases "p ! i = 93")
        case True
        then show ?thesis using i by (subst class_loop.simps) (auto simp: drop_Cons_nth parse_class_Cons)
      next
        case cl: False
        show ?thesis
        proof (cases "i + 2 < length p \<and> p ! (i + 1) = 45")
          case True
          then have e: "pat p (i + 1) = Some 45" "pat p (i + 2) = Some (p ! (i + 2))" "3 \<le> length p - i" by (auto simp: pat_def)
          have d: "drop i p = p ! i # 45 # p ! (i + 2) # drop (i + 3) p" using True by (simp add: drop_Cons_nth numeral_eq_Suc)
          show ?thesis
            using 1(2) [OF i(2) _ _ _ _ e(2)] True e esc cl by (subst class_loop.simps) (auto simp: i(2) d item_ok_def same_char_alike in_range_span parse_class_Cons)
        next
          case sp: False
          then have ns: "\<not> (3 \<le> length p - i \<and> pat p (i + 1) = Some 45)" by (auto simp: pat_def)
          have d: "drop i p = p ! i # drop (i + 1) p" using i by (simp add: drop_Cons_nth)
          have pc: "parse_class (drop i p) = apfst (Cons (Single (p ! i))) (parse_class (drop (i + 1) p))"
          proof (cases "i + 2 < length p")
            case True
            then have "drop (i + 1) p = p ! (i + 1) # p ! (i + 2) # drop (i + 3) p" by (simp add: drop_Cons_nth numeral_eq_Suc)
            then show ?thesis unfolding d using esc cl sp True by (subst parse_class_Cons) auto
          next
            case False
            then have "length (drop (i + 1) p) \<le> 1" by simp
            then have "(\<exists>a. drop (i + 1) p = [a]) \<or> drop (i + 1) p = []" by (rule length_le_1)
            then show ?thesis unfolding d using esc cl by (subst parse_class_Cons) auto
          qed
          have "\<exists>i'. class_loop sg nocase p s (i + 1) (m \<or> alike sg nocase (p ! i) s)
              = Some (i', (m \<or> alike sg nocase (p ! i) s) \<or> (\<exists>item \<in> set (fst (parse_class (drop (i + 1) p))). item_ok sg nocase s item))
              \<and> i' < length p \<and> snd (parse_class (drop (i + 1) p)) = drop (i' + 1) p"
            by (rule 1(3) [OF i(2), unfolded same_char_alike]) (use esc cl ns i in \<open>auto simp: same_char_alike\<close>)
          then show ?thesis
            using ns esc cl i by (subst class_loop.simps) (auto simp: pc item_ok_def same_char_alike in_range_span)
        qed
      qed
    qed
  qed
qed

lemma match_class_ok:
  assumes "i < length p" "p ! i = 91"
  shows "\<exists>i' t. match_class sg nocase p c (i + 1) = Some (i', token_ok sg nocase t c) \<and> i' < length p
     \<and> parse_glob (drop i p) = t # parse_glob (drop (i' + 1) p) \<and> t \<noteq> Star"
proof -
  let ?neg = "i + 1 < length p \<and> p ! (i + 1) = 94"
  let ?k = "if ?neg then i + 2 else i + 1"
  have d: "drop i p = 91 # drop (i + 1) p" using assms by (simp add: drop_Cons_nth)
  have neg: "(drop (i + 1) p \<noteq> [] \<and> hd (drop (i + 1) p) = 94) = ?neg" using assms(1) by (auto simp: hd_drop_conv_nth)
  have k: "(if ?neg then tl (drop (i + 1) p) else drop (i + 1) p) = drop ?k p" by (simp add: drop_Suc tl_drop)
  have "0 < ?k" "?k \<le> length p" using assms(1) by auto
  from class_loop_ok [OF this, of sg nocase c False] obtain i' where i': "class_loop sg nocase p c ?k False = Some (i', False \<or> (\<exists>item \<in> set (fst (parse_class (drop ?k p))). item_ok sg nocase c item))"
    "i' < length p" "snd (parse_class (drop ?k p)) = drop (i' + 1) p"
    by blast
  have "parse_glob (drop i p) = Class ?neg (fst (parse_class (drop ?k p))) # parse_glob (drop (i' + 1) p)"
    unfolding d i'(3) [symmetric] by (simp only: parse_glob.simps neg k Let_def) (simp add: split_beta)
  moreover have "match_class sg nocase p c (i + 1) = Some (i', token_ok sg nocase (Class ?neg (fst (parse_class (drop ?k p)))) c)"
  proof -
    have "pat p (i + 1) = Some (if i + 1 < length p then p ! (i + 1) else 0)" using assms(1) by (auto simp: pat_def)
    then show ?thesis using i'(1) by (auto simp: match_class_def token_ok_def)
  qed
  ultimately show ?thesis using i'(2) by blast
qed

text \<open>Stars.\<close>

lemma glob_Star_Star: "glob sg nocase (Star # Star # ts) s = glob sg nocase (Star # ts) s"
proof
  assume "glob sg nocase (Star # Star # ts) s"
  then obtain k l where kl: "k \<le> length s" "l \<le> length s - k" "glob sg nocase ts (drop l (drop k s))" by auto
  then have "l + k \<le> length s" "glob sg nocase ts (drop (l + k) s)" by (auto simp: add.commute)
  then show "glob sg nocase (Star # ts) s" by auto
next
  assume "glob sg nocase (Star # ts) s"
  then have "\<exists>k \<le> length s. glob sg nocase (Star # ts) (drop k s)" by (intro exI [of _ 0]) simp
  then show "glob sg nocase (Star # Star # ts) s" by (subst glob.simps(2)) (simp only: if_True simp_thms)
qed

lemma glob_Star_mono: "glob sg nocase (Star # ts) (drop k s) \<Longrightarrow> j \<le> k \<Longrightarrow> k \<le> length s \<Longrightarrow> glob sg nocase (Star # ts) (drop j s)"
proof -
  assume "glob sg nocase (Star # ts) (drop k s)" and j: "j \<le> k" "k \<le> length s"
  then obtain l where l: "l \<le> length s - k" "glob sg nocase ts (drop (l + k) s)" by (auto simp: add.commute)
  then have "glob sg nocase ts (drop (k - j + l) (drop j s))" "k - j + l \<le> length (drop j s)" using j by (simp_all add: add.commute)
  then show ?thesis unfolding glob.simps by auto
qed

lemma skip_stars_ok:
  "i < length p \<Longrightarrow> p ! i = 42 \<Longrightarrow> \<exists>i'. skip_stars p i = Some i' \<and> i' < length p \<and> (i' + 1 < length p \<longrightarrow> p ! (i' + 1) \<noteq> 42)
     \<and> glob sg nocase (parse_glob (drop i p)) = glob sg nocase (Star # parse_glob (drop (i' + 1) p))"
proof (induction p i rule: skip_stars.induct)
  case (1 p i)
  have d: "parse_glob (drop i p) = Star # parse_glob (drop (i + 1) p)" using 1(2,3) by (simp add: drop_Cons_nth)
  show ?case
  proof (cases "i + 1 < length p \<and> p ! (i + 1) = 42")
    case True
    then have c: "pat p (i + 1) = Some 42" by (simp add: pat_def)
    obtain i' where i': "skip_stars p (i + 1) = Some i'" "i' < length p" "i' + 1 < length p \<longrightarrow> p ! (i' + 1) \<noteq> 42"
        "glob sg nocase (parse_glob (drop (i + 1) p)) = glob sg nocase (Star # parse_glob (drop (i' + 1) p))"
      using 1(1) [OF 1(2) c refl] True by blast
    have "skip_stars p i = Some i'" using 1(2) c i'(1) by (subst skip_stars.simps) simp
    moreover have "glob sg nocase (parse_glob (drop i p)) s = glob sg nocase (Star # parse_glob (drop (i' + 1) p)) s" for s
    proof -
      have "glob sg nocase (parse_glob (drop i p)) s = glob sg nocase (Star # Star # parse_glob (drop (i' + 1) p)) s"
        unfolding d using i'(4) by simp
      then show ?thesis by (simp only: glob_Star_Star)
    qed
    ultimately show ?thesis using i'(2,3) by (intro exI [of _ i']) (simp only: fun_eq_iff, simp)
  next
    case False
    then have "pat p (i + 1) = Some (if i + 1 < length p then p ! (i + 1) else 0)" using 1(2) by (auto simp: pat_def)
    then have "skip_stars p i = Some i" using 1(2) False by (subst skip_stars.simps) auto
    then show ?thesis using 1(2) False d by (intro exI [of _ i]) auto
  qed
qed

lemma trailing_stars_ok:
  "i \<le> length p \<Longrightarrow> \<exists>i'. trailing_stars p i = Some i' \<and> (i' = length p \<longleftrightarrow> glob sg nocase (parse_glob (drop i p)) [])"
proof (induction p i rule: trailing_stars.induct)
  case (1 p i)
  show ?case
  proof (cases "i < length p \<and> p ! i = 42")
    case True
    then have c: "pat p i = Some 42" by (simp add: pat_def)
    have "parse_glob (drop i p) = Star # parse_glob (drop (i + 1) p)" using True by (simp add: drop_Cons_nth)
    then show ?thesis using 1(1) [OF c refl] True c by (subst trailing_stars.simps) auto
  next
    case False
    have c: "pat p i = Some (if i < length p then p ! i else 0)" using 1(2) by (auto simp: pat_def)
    have t: "trailing_stars p i = Some i" using False c by (subst trailing_stars.simps) auto
    show ?thesis
    proof (cases "i = length p")
      case True
      then show ?thesis using t by simp
    next
      case lt: False
      then have i: "i < length p" using 1(2) by simp
      have "\<exists>tk ts. parse_glob (drop i p) = tk # ts \<and> tk \<noteq> Star"
        using False i by (simp add: drop_Cons_nth Let_def split_beta)
      then show ?thesis using t lt by auto
    qed
  qed
qed

text \<open>What a result says: whether the rest of the pattern matches the rest of the string, and, when longer matches
  are to be skipped, that it matches no shorter rest either.\<close>

definition decides :: "bool \<Rightarrow> bool \<Rightarrow> token list \<Rightarrow> bytes \<Rightarrow> nat \<Rightarrow> (bool \<times> bool) option \<Rightarrow> bool" where
  "decides sg nocase ts s j res \<longleftrightarrow> (\<exists>skip. res = Some (glob sg nocase ts (drop j s), skip)
     \<and> (skip \<longrightarrow> (\<forall>k. j \<le> k \<and> k \<le> length s \<longrightarrow> \<not> glob sg nocase ts (drop k s))))"

lemma decides_no_skip: "r = glob sg nocase ts (drop j s) \<Longrightarrow> decides sg nocase ts s j (Some (r, False))"
  unfolding decides_def by (intro exI [of _ False]) simp

lemma decides_char:
  assumes t: "t \<noteq> Star" "j < length s" and ok: "token_ok sg nocase t (s ! j)" and d: "decides sg nocase ts s (j + 1) res"
  shows "decides sg nocase (t # ts) s j res"
proof -
  obtain skip where r: "res = Some (glob sg nocase ts (drop (j + 1) s), skip)"
    "skip \<longrightarrow> (\<forall>k. j + 1 \<le> k \<and> k \<le> length s \<longrightarrow> \<not> glob sg nocase ts (drop k s))" using d by (auto simp: decides_def)
  have g: "glob sg nocase (t # ts) (drop k s) = (k < length s \<and> token_ok sg nocase t (s ! k) \<and> glob sg nocase ts (drop (k + 1) s))" for k
    using t(1) by (cases "k < length s") (simp_all add: drop_Cons_nth)
  show ?thesis unfolding decides_def g using r t(2) ok by auto
qed

lemma decides_fail:
  assumes "t \<noteq> Star" "j < length s" "\<not> token_ok sg nocase t (s ! j)"
  shows "decides sg nocase (t # ts) s j (Some (False, False))"
  using assms unfolding decides_def by (intro exI [of _ False]) (simp add: drop_Cons_nth)

lemma decides_cong: "glob sg nocase ts = glob sg nocase ts' \<Longrightarrow> decides sg nocase ts s j res = decides sg nocase ts' s j res"
  by (simp add: decides_def)

lemma glob_Star_step: "j < length s \<Longrightarrow> glob sg nocase (Star # ts) (drop j s) \<longleftrightarrow> glob sg nocase ts (drop j s) \<or> glob sg nocase (Star # ts) (drop (j + 1) s)"
proof
  assume j: "j < length s" and "glob sg nocase (Star # ts) (drop j s)"
  then obtain k where k: "k \<le> length s - j" "glob sg nocase ts (drop (k + j) s)" by auto
  show "glob sg nocase ts (drop j s) \<or> glob sg nocase (Star # ts) (drop (j + 1) s)"
  proof (cases k)
    case (Suc l)
    then have "l \<le> length (drop (j + 1) s)" "glob sg nocase ts (drop l (drop (j + 1) s))" using k j by auto
    then have "glob sg nocase (Star # ts) (drop (j + 1) s)" by (subst glob.simps(2)) auto
    then show ?thesis ..
  qed (use k in simp)
next
  assume j: "j < length s" and o: "glob sg nocase ts (drop j s) \<or> glob sg nocase (Star # ts) (drop (j + 1) s)"
  from o show "glob sg nocase (Star # ts) (drop j s)"
  proof
    assume "glob sg nocase ts (drop j s)"
    then have "\<exists>k \<le> length (drop j s). glob sg nocase ts (drop k (drop j s))" by (intro exI [of _ 0]) simp
    then show ?thesis by (simp only: glob.simps if_True simp_thms)
  next
    assume "glob sg nocase (Star # ts) (drop (j + 1) s)"
    then show ?thesis by (rule glob_Star_mono) (use j in auto)
  qed
qed

lemma decides_star:
  assumes j: "j < length s" and d: "decides sg nocase ts s j (Some (r, skip))" and n: "\<not> r \<Longrightarrow> \<not> skip \<Longrightarrow> decides sg nocase (Star # ts) s (j + 1) res"
  shows "decides sg nocase (Star # ts) s j (if r then Some (True, skip) else if skip then Some (False, skip) else res)"
proof -
  have r: "r = glob sg nocase ts (drop j s)" and sk: "skip \<Longrightarrow> j \<le> k \<Longrightarrow> k \<le> length s \<Longrightarrow> \<not> glob sg nocase ts (drop k s)" for k
    using d by (auto simp: decides_def)
  have none: "\<not> glob sg nocase (Star # ts) (drop k s)" if "skip" "j \<le> k" "k \<le> length s" for k
  proof
    assume "glob sg nocase (Star # ts) (drop k s)"
    then obtain l where "l \<le> length s - k" "glob sg nocase ts (drop (l + k) s)" by auto
    then show False using sk [OF that(1), of "l + k"] that(2,3) by auto
  qed
  consider (found) r | (skipped) "\<not> r" skip | (more) "\<not> r" "\<not> skip" by blast
  then show ?thesis
  proof cases
    case found
    then have "\<not> skip" using sk [of j] r j by auto
    moreover have "glob sg nocase (Star # ts) (drop j s)" using found r glob_Star_step [OF j, of sg nocase ts] by blast
    ultimately show ?thesis using found by (simp add: decides_no_skip del: glob.simps)
  next
    case skipped
    then have "\<not> glob sg nocase (Star # ts) (drop j s)" using none j by simp
    then show ?thesis using skipped none unfolding decides_def by (intro exI [of _ True]) (simp del: glob.simps)
  next
    case more
    obtain skip' where res: "res = Some (glob sg nocase (Star # ts) (drop (j + 1) s), skip')"
      "skip' \<longrightarrow> (\<forall>k. j + 1 \<le> k \<and> k \<le> length s \<longrightarrow> \<not> glob sg nocase (Star # ts) (drop k s))"
      using n more by (auto simp: decides_def simp del: glob.simps)
    have e: "glob sg nocase (Star # ts) (drop j s) = glob sg nocase (Star # ts) (drop (j + 1) s)"
      using glob_Star_step [OF j, of sg nocase ts] more r by blast
    have "\<not> glob sg nocase (Star # ts) (drop k s)" if "skip'" "j \<le> k" "k \<le> length s" for k
      using that res(2) e j by (cases "k = j") auto
    then show ?thesis using more res(1) e by (simp add: decides_def del: glob.simps)
  qed
qed

lemma matcher_ok:
  "i \<le> length p \<Longrightarrow> j < length s \<Longrightarrow> \<not> skip \<Longrightarrow> decides sg nocase (parse_glob (drop i p)) s j (stringmatchlen_impl sg nocase p i s j skip)"
  "i < length p \<Longrightarrow> p ! i \<noteq> 42 \<Longrightarrow> j \<le> length s \<Longrightarrow> \<not> skip \<Longrightarrow> decides sg nocase (Star # parse_glob (drop i p)) s j (star_loop sg nocase p i s j skip)"
  "i \<le> length p \<Longrightarrow> j \<le> length s \<Longrightarrow> \<not> skip \<Longrightarrow> decides sg nocase (parse_glob (drop i p)) s j (match_next sg nocase p i s j skip)"
proof (induction sg nocase p i s j skip and sg nocase p i s j skip and sg nocase p i s j skip rule: stringmatchlen_impl_star_loop_match_next.induct)
  case (1 sg nocase p i s j skip)
  show ?case
  proof (cases "i < length p")
    case False
    then have "stringmatchlen_impl sg nocase p i s j skip = Some (False, False)" using 1(5-7) by (subst stringmatchlen_impl.simps) simp
    then show ?thesis using 1(5-7) False by (simp add: decides_no_skip)
  next
    case i: True
    have ij: "i < length p \<and> j < length s" using i 1(6) by simp
    have d: "drop i p = p ! i # drop (i + 1) p" using i by (simp add: drop_Cons_nth)
    consider (star) "p ! i = 42" | (any) "p ! i = 63" | (cl) "p ! i = 91" | (lit) "p ! i \<noteq> 42" "p ! i \<noteq> 63" "p ! i \<noteq> 91" by blast
    then show ?thesis
    proof cases
      case star
      obtain i' where i': "skip_stars p i = Some i'" "i' < length p" "i' + 1 < length p \<longrightarrow> p ! (i' + 1) \<noteq> 42"
         "glob sg nocase (parse_glob (drop i p)) = glob sg nocase (Star # parse_glob (drop (i' + 1) p))"
        using skip_stars_ok [OF i star] by blast
      show ?thesis
      proof (cases "length p - i' = 1")
        case True
        then have "stringmatchlen_impl sg nocase p i s j skip = Some (True, False)" using ij star i'(1) 1(7) by (subst stringmatchlen_impl.simps) simp
        moreover have "glob sg nocase (Star # parse_glob (drop (i' + 1) p)) (drop j s)" using True i'(2) by auto
        ultimately show ?thesis unfolding decides_cong [OF i'(4)] by (simp only: decides_no_skip)
      next
        case False
        then have lt: "i' + 1 < length p" using i'(2) by simp
        have "stringmatchlen_impl sg nocase p i s j skip = star_loop sg nocase p (i' + 1) s j skip"
          using ij star i'(1) False by (subst stringmatchlen_impl.simps) simp
        moreover have "decides sg nocase (Star # parse_glob (drop (i' + 1) p)) s j (star_loop sg nocase p (i' + 1) s j skip)"
          using 1(1) [OF ij star i'(1) False lt] i'(3) lt 1(6,7) by simp
        ultimately show ?thesis unfolding decides_cong [OF i'(4)] by simp
      qed
    next
      case any
      have "parse_glob (drop i p) = AnyChar # parse_glob (drop (i + 1) p)" unfolding d using any by simp
      moreover have "decides sg nocase (AnyChar # parse_glob (drop (i + 1) p)) s j (match_next sg nocase p (i + 1) s (j + 1) skip)"
        by (rule decides_char) (use 1(2) [OF ij] any i 1(6,7) in \<open>auto simp: token_ok_def same_char_alike\<close>)
      moreover have "stringmatchlen_impl sg nocase p i s j skip = match_next sg nocase p (i + 1) s (j + 1) skip"
        using ij any by (subst stringmatchlen_impl.simps) simp
      ultimately show ?thesis by simp
    next
      case cl
      obtain i' t where m: "match_class sg nocase p (s ! j) (i + 1) = Some (i', token_ok sg nocase t (s ! j))" "i' < length p"
         "parse_glob (drop i p) = t # parse_glob (drop (i' + 1) p)" "t \<noteq> Star"
        using match_class_ok [OF i cl] by blast
      have e: "stringmatchlen_impl sg nocase p i s j skip
          = (if token_ok sg nocase t (s ! j) then match_next sg nocase p (i' + 1) s (j + 1) skip else Some (False, skip))"
        using ij cl m(1) by (subst stringmatchlen_impl.simps) simp
      show ?thesis
      proof (cases "token_ok sg nocase t (s ! j)")
        case True
        have "decides sg nocase (parse_glob (drop (i' + 1) p)) s (j + 1) (match_next sg nocase p (i' + 1) s (j + 1) skip)"
          using 1(3) [OF ij _ _ cl m(1) refl] True cl m(2) 1(6,7) by simp
        then show ?thesis unfolding e m(3) using decides_char [OF m(4) _ True] 1(6) True by simp
      next
        case False
        then show ?thesis unfolding e m(3) using decides_fail [OF m(4) 1(6) False] 1(7) by simp
      qed
    next
      case lit
      define i' where "i' = (if p ! i = 92 \<and> length p - i \<ge> 2 then i + 1 else i)"
      have i': "i' < length p" using i by (auto simp: i'_def)
      have tok: "parse_glob (drop i p) = Literal (p ! i') # parse_glob (drop (i' + 1) p)"
      proof (cases "p ! i = 92 \<and> length p - i \<ge> 2")
        case True
        then have "i + 1 < length p" by linarith
        then have "drop (i + 1) p = p ! (i + 1) # drop (i + 2) p" by (simp add: drop_Cons_nth)
        then show ?thesis unfolding d using True lit by (simp add: i'_def)
      next
        case False
        then have "\<not> (p ! i = 92 \<and> drop (i + 1) p \<noteq> [])" using i by auto
        then show ?thesis unfolding d using False lit by (auto simp: i'_def)
      qed
      have e: "stringmatchlen_impl sg nocase p i s j skip
          = (if token_ok sg nocase (Literal (p ! i')) (s ! j) then match_next sg nocase p (i' + 1) s (j + 1) skip else Some (False, skip))"
        using ij lit by (subst stringmatchlen_impl.simps) (simp add: i'_def Let_def token_ok_def same_char_alike)
      show ?thesis
      proof (cases "token_ok sg nocase (Literal (p ! i')) (s ! j)")
        case True
        then have "decides sg nocase (parse_glob (drop (i' + 1) p)) s (j + 1) (match_next sg nocase p (i' + 1) s (j + 1) skip)"
          using 1(4) [OF ij lit i'_def] i' 1(6,7) by (simp add: token_ok_def same_char_alike)
        then show ?thesis unfolding e tok using decides_char [OF _ _ True] 1(6) True by simp
      next
        case False
        then show ?thesis unfolding e tok using decides_fail [OF _ 1(6) False] 1(7) by simp
      qed
    qed
  qed
next
  case (2 sg nocase p i s j skip)
  show ?case
  proof (cases "j < length s")
    case True
    obtain r skip' where r: "stringmatchlen_impl sg nocase p i s j skip = Some (r, skip')" using 2(1) [OF True] 2(3,6) True by (auto simp: decides_def)
    have d: "decides sg nocase (parse_glob (drop i p)) s j (Some (r, skip'))" using 2(1) [OF True] 2(3,6) True r by simp
    have "decides sg nocase (Star # parse_glob (drop i p)) s (j + 1) (star_loop sg nocase p i s (j + 1) skip')" if "\<not> r" "\<not> skip'"
      using 2(2) [OF True r refl that] 2(3,4) True that by simp
    from decides_star [OF True d this] show ?thesis using True r by (subst star_loop.simps) simp
  next
    case False
    have "\<exists>t ts. parse_glob (drop i p) = t # ts \<and> t \<noteq> Star" using 2(3,4) by (simp add: drop_Cons_nth Let_def split_beta)
    then have "\<not> glob sg nocase (Star # parse_glob (drop i p)) []" by auto
    then show ?thesis using False 2(5) by (subst star_loop.simps) (auto simp: decides_def simp del: glob.simps)
  qed
next
  case (3 sg nocase p i s j skip)
  show ?case
  proof (cases "j = length s")
    case True
    obtain i' where "trailing_stars p i = Some i'" "i' = length p \<longleftrightarrow> glob sg nocase (parse_glob (drop i p)) []"
      using trailing_stars_ok [OF 3(2)] by blast
    then show ?thesis using True 3(4) by (subst match_next.simps) (simp add: decides_no_skip)
  next
    case False
    then show ?thesis using 3 by (subst match_next.simps) simp
  qed
qed

text \<open>C31. \<open>stringmatchlen\<close> decides the meaning of every pattern on every non-empty string, although it gives up the
  search for a star as soon as a later star has failed: it returns, reads nothing beyond the NUL after the pattern
  (\<open>Some\<close>), and its answer is that some division of the string fits the tokens of the pattern, whether case counts
  or not and whether plain characters are signed or not.  On the empty string it accepts only the empty pattern,
  also where the tokens (all of them stars) would match it.\<close>

theorem stringmatchlen_correct:
  "stringmatchlen sg p s nocase = Some (if s = [] then p = [] else glob sg nocase (parse_glob p) s)"
proof (cases "s = []")
  case True
  then show ?thesis by (simp add: stringmatchlen_def stringmatchlen_impl.simps [of sg nocase p 0])
next
  case False
  then show ?thesis using matcher_ok(1) [of 0 p 0 s False sg nocase] by (auto simp: stringmatchlen_def decides_def)
qed

end
