(* ===== verification/Bitops.thy ===== *)
theory Bitops
  imports Endian Decimal "HOL-Library.Monad_Syntax"
begin

text \<open>
  The bitmaps of \<open>bitops.c\<close>: counting and searching bits several bytes at a time, integers of any width at any
  bit offset, and what the commands \<open>BITCOUNT\<close>, \<open>BITPOS\<close>, \<open>SETBIT\<close>, \<open>GETBIT\<close> and \<open>BITFIELD\<close> do to the string of
  a key.  Bit 0 of a string is the highest bit of its first byte.

  The result \<open>None\<close> is an access outside the string or a failed assertion.  The address of a string counts only
  modulo the size of a machine word, and is the argument \<open>al\<close>; \<open>be\<close> is the byte order of the host.
\<close>

section \<open>Counting bits\<close>

definition bitsinbyte :: "nat list" where
  "bitsinbyte = [
    0, 1, 1, 2, 1, 2, 2, 3, 1, 2, 2, 3, 2, 3, 3, 4, 1, 2, 2, 3, 2, 3, 3, 4, 2, 3, 3, 4, 3, 4, 4, 5,
    1, 2, 2, 3, 2, 3, 3, 4, 2, 3, 3, 4, 3, 4, 4, 5, 2, 3, 3, 4, 3, 4, 4, 5, 3, 4, 4, 5, 4, 5, 5, 6,
    1, 2, 2, 3, 2, 3, 3, 4, 2, 3, 3, 4, 3, 4, 4, 5, 2, 3, 3, 4, 3, 4, 4, 5, 3, 4, 4, 5, 4, 5, 5, 6,
    2, 3, 3, 4, 3, 4, 4, 5, 3, 4, 4, 5, 4, 5, 5, 6, 3, 4, 4, 5, 4, 5, 5, 6, 4, 5, 5, 6, 5, 6, 6, 7,
    1, 2, 2, 3, 2, 3, 3, 4, 2, 3, 3, 4, 3, 4, 4, 5, 2, 3, 3, 4, 3, 4, 4, 5, 3, 4, 4, 5, 4, 5, 5, 6,
    2, 3, 3, 4, 3, 4, 4, 5, 3, 4, 4, 5, 4, 5, 5, 6, 3, 4, 4, 5, 4, 5, 5, 6, 4, 5, 5, 6, 5, 6, 6, 7,
    2, 3, 3, 4, 3, 4, 4, 5, 3, 4, 4, 5, 4, 5, 5, 6, 3, 4, 4, 5, 4, 5, 5, 6, 4, 5, 5, 6, 5, 6, 6, 7,
    3, 4, 4, 5, 4, 5, 5, 6, 4, 5, 5, 6, 5, 6, 6, 7, 4, 5, 5, 6, 5, 6, 6, 7, 5, 6, 6, 7, 6, 7, 7, 8]"

text \<open>The bytes before the first aligned address, which the loops that align the pointer take: as many as
  \<open>n - al mod n\<close>, if there are.\<close>

definition unaligned :: "nat \<Rightarrow> nat \<Rightarrow> nat" where
  "unaligned n al = (n - al mod n) mod n"

definition popcount_aux :: "32 word \<Rightarrow> 32 word" where
  "popcount_aux aux =
     (let aux = aux - (drop_bit 1 aux AND 0x55555555)
      in (aux AND 0x33333333) + (drop_bit 2 aux AND 0x33333333))"

definition load32 :: "bool \<Rightarrow> bytes \<Rightarrow> nat \<Rightarrow> 32 word" where
  "load32 be p i = word_of_nat (host_load be (slice (4 * i) 4 p))"

text \<open>Seven words at a time.\<close>

definition popcount28 :: "bool \<Rightarrow> bytes \<Rightarrow> nat" where
  "popcount28 be p =
     unat (drop_bit 24 (sum_list (map (\<lambda>i. let aux = popcount_aux (load32 be p i)
       in (aux + drop_bit 4 aux) AND 0x0F0F0F0F) [0..<7]) * 0x01010101))"

fun popcount_words :: "bool \<Rightarrow> bytes \<Rightarrow> nat \<Rightarrow> nat \<times> bytes" where
  "popcount_words be p bits =
     (if length p \<ge> 28 then popcount_words be (drop 28 p) (bits + popcount28 be p) else (bits, p))"

declare popcount_words.simps [simp del]

definition popcount_bytes :: "bytes \<Rightarrow> nat" where
  "popcount_bytes p = sum_list (map (\<lambda>b. bitsinbyte ! unat b) p)"

definition redisPopcount :: "bool \<Rightarrow> nat \<Rightarrow> bytes \<Rightarrow> nat" where
  "redisPopcount be al p =
     (let k = unaligned 4 al;
          (bits, rest) = popcount_words be (drop k p) (popcount_bytes (take k p))
      in bits + popcount_bytes rest)"

section \<open>The first set or clear bit\<close>

text \<open>The bytes skipped one by one: what is left, the position, and whether a byte stopped the loop.\<close>

fun skip_bytes :: "nat \<Rightarrow> u8 \<Rightarrow> bytes \<Rightarrow> nat \<Rightarrow> bytes \<times> nat \<times> bool" where
  "skip_bytes 0 skipval c pos = (c, pos, False)"
| "skip_bytes (Suc n) skipval [] pos = ([], pos, False)"
| "skip_bytes (Suc n) skipval (b # c) pos = (if b \<noteq> skipval then (b # c, pos, True) else skip_bytes n skipval c (pos + 8))"

definition load64 :: "bool \<Rightarrow> bytes \<Rightarrow> 64 word" where
  "load64 be p = word_of_nat (host_load be (take 8 p))"

fun skip_words :: "bool \<Rightarrow> 64 word \<Rightarrow> bytes \<Rightarrow> nat \<Rightarrow> bytes \<times> nat" where
  "skip_words be skipval l pos =
     (if length l \<ge> 8 \<and> load64 be l = skipval then skip_words be skipval (drop 8 l) (pos + 64) else (l, pos))"

declare skip_words.simps [simp del]

fun load_word :: "nat \<Rightarrow> bytes \<Rightarrow> 64 word \<Rightarrow> 64 word" where
  "load_word 0 c word = word"
| "load_word (Suc j) [] word = load_word j [] (push_bit 8 word)"
| "load_word (Suc j) (b # c) word = load_word j c (push_bit 8 word OR ucast b)"

text \<open>The scan of the last word; \<open>None\<close> is the panic after it.\<close>

fun scan_word :: "nat \<Rightarrow> 64 word \<Rightarrow> 64 word \<Rightarrow> bool \<Rightarrow> int \<Rightarrow> int option" where
  "scan_word 0 one word b pos = None"
| "scan_word (Suc n) one word b pos =
     (if one = 0 then None
      else if (one AND word \<noteq> 0) = b then Some pos
      else scan_word n (drop_bit 1 one) word b (pos + 1))"

definition redisBitpos :: "bool \<Rightarrow> nat \<Rightarrow> bytes \<Rightarrow> bool \<Rightarrow> int option" where
  "redisBitpos be al s b =
     (let (c, pos, found) = skip_bytes (unaligned 8 al) (if b then 0 else 255) s 0;
          (l, pos) = (if \<not> found then skip_words be (if b then 0 else -1) c pos else (c, pos));
          word = load_word 8 l 0
      in if b \<and> word = 0 then Some (-1)
         else scan_word 65 (NOT (drop_bit 1 (-1))) word b (int pos))"

section \<open>Integers at bit offsets\<close>

fun set_bitfield_loop :: "bytes \<Rightarrow> 64 word \<Rightarrow> 64 word \<Rightarrow> nat \<Rightarrow> bytes option" where
  "set_bitfield_loop p offset value 0 = Some p"
| "set_bitfield_loop p offset value (Suc k) =
     (let bitval = (value AND push_bit k 1 \<noteq> 0);
          byte = unat (drop_bit 3 offset);
          i = 7 - unat (offset AND 7)
      in if byte < length p then
           let byteval = (ucast (p ! byte) :: 64 word) AND NOT (push_bit i 1) OR push_bit i (of_bool bitval)
           in set_bitfield_loop (p[byte := ucast (byteval AND 255)]) (offset + 1) value k
         else None)"

definition setUnsignedBitfield :: "bytes \<Rightarrow> 64 word \<Rightarrow> nat \<Rightarrow> 64 word \<Rightarrow> bytes option" where
  "setUnsignedBitfield p offset bits value = set_bitfield_loop p offset value bits"

definition setSignedBitfield :: "bytes \<Rightarrow> 64 word \<Rightarrow> nat \<Rightarrow> 64 word \<Rightarrow> bytes option" where
  "setSignedBitfield p offset bits value = setUnsignedBitfield p offset bits value"

fun get_bitfield_loop :: "bytes \<Rightarrow> 64 word \<Rightarrow> nat \<Rightarrow> 64 word \<Rightarrow> (64 word) option" where
  "get_bitfield_loop p offset 0 value = Some value"
| "get_bitfield_loop p offset (Suc k) value =
     (let byte = unat (drop_bit 3 offset);
          i = 7 - unat (offset AND 7)
      in if byte < length p then
           let bitval = drop_bit i (ucast (p ! byte) :: 64 word) AND 1
           in get_bitfield_loop p (offset + 1) k (push_bit 1 value OR bitval)
         else None)"

definition getUnsignedBitfield :: "bytes \<Rightarrow> 64 word \<Rightarrow> nat \<Rightarrow> (64 word) option" where
  "getUnsignedBitfield p offset bits = get_bitfield_loop p offset bits 0"

definition getSignedBitfield :: "bytes \<Rightarrow> 64 word \<Rightarrow> nat \<Rightarrow> (64 word) option" where
  "getSignedBitfield p offset bits = do {
     value \<leftarrow> getUnsignedBitfield p offset bits;
     Some (if bits < 64 \<and> value AND push_bit (bits - 1) 1 \<noteq> 0 then value OR push_bit bits (-1) else value) }"

section \<open>Overflow\<close>

datatype owtype = BFOVERFLOW_WRAP | BFOVERFLOW_SAT | BFOVERFLOW_FAIL

text \<open>The result, and \<open>*limit\<close> when it is written.\<close>

definition checkUnsignedBitfieldOverflow :: "64 word \<Rightarrow> 64 word \<Rightarrow> nat \<Rightarrow> owtype \<Rightarrow> int \<times> (64 word) option" where
  "checkUnsignedBitfieldOverflow value incr bits ow =
     (let max = (if bits = 64 then -1 else push_bit bits 1 - 1);
          maxincr = max - value;
          minincr = - value;
          wrap = (1, Some ((value + incr) AND NOT (push_bit bits (-1))))
      in if value > max \<or> (sint incr > 0 \<and> sint incr > sint maxincr) then
           (case ow of BFOVERFLOW_WRAP \<Rightarrow> wrap | BFOVERFLOW_SAT \<Rightarrow> (1, Some max) | BFOVERFLOW_FAIL \<Rightarrow> (1, None))
         else if sint incr < 0 \<and> sint incr < sint minincr then
           (case ow of BFOVERFLOW_WRAP \<Rightarrow> wrap | BFOVERFLOW_SAT \<Rightarrow> (-1, Some 0) | BFOVERFLOW_FAIL \<Rightarrow> (-1, None))
         else (0, None))"

definition wrap_signed :: "64 word \<Rightarrow> 64 word \<Rightarrow> nat \<Rightarrow> 64 word" where
  "wrap_signed a b bits =
     (let msb = push_bit (bits - 1) 1; c = a + b
      in if bits < 64 then
           let mask = push_bit bits (-1) in if c AND msb \<noteq> 0 then c OR mask else c AND NOT mask
         else c)"

definition checkSignedBitfieldOverflow :: "64 word \<Rightarrow> 64 word \<Rightarrow> nat \<Rightarrow> owtype \<Rightarrow> int \<times> (64 word) option" where
  "checkSignedBitfieldOverflow value incr bits ow =
     (let max = (if bits = 64 then 0x7FFFFFFFFFFFFFFF else push_bit (bits - 1) 1 - 1);
          min = - max - 1;
          maxincr = max - value;
          minincr = min - value;
          wrap = (1, Some (wrap_signed value incr bits))
      in if sint value > sint max \<or> (bits \<noteq> 64 \<and> sint incr > sint maxincr)
            \<or> (sint value \<ge> 0 \<and> sint incr > 0 \<and> sint incr > sint maxincr) then
           (case ow of BFOVERFLOW_WRAP \<Rightarrow> wrap | BFOVERFLOW_SAT \<Rightarrow> (1, Some max) | BFOVERFLOW_FAIL \<Rightarrow> (1, None))
         else if sint value < sint min \<or> (bits \<noteq> 64 \<and> sint incr < sint minincr)
            \<or> (sint value < 0 \<and> sint incr < 0 \<and> sint incr < sint minincr) then
           (case ow of BFOVERFLOW_WRAP \<Rightarrow> wrap | BFOVERFLOW_SAT \<Rightarrow> (-1, Some min) | BFOVERFLOW_FAIL \<Rightarrow> (-1, None))
         else (0, None))"

end
