(* ===== verification/Bit_Commands.thy ===== *)
theory Bit_Commands
  imports Bitops
begin

text \<open>
  The commands on bitmaps, as functions from the object of the key and the arguments to the reply and the new string.
  The lookup of the key, the reply buffer and the notifications belong to the server; what remains is the range
  arithmetic of \<open>BITCOUNT\<close> and \<open>BITPOS\<close>, the parsing of \<open>BITFIELD\<close> and the execution of its operations.
\<close>

section \<open>Objects and arguments\<close>

definition getObjectReadOnlyString :: "robj \<Rightarrow> bytes" where
  "getObjectReadOnlyString ob = (case ob of
     ObjInt v \<Rightarrow> (let (llbuf, len) = ll2string (replicate LONG_STR_SIZE 0) LONG_STR_SIZE v in take len llbuf)
   | ObjStr s \<Rightarrow> s)"

text \<open>The string with room for \<open>maxbit\<close>, and whether it is new or has grown.\<close>

definition lookupStringForBitCommand :: "robj option \<Rightarrow> 64 word \<Rightarrow> bytes \<times> bool" where
  "lookupStringForBitCommand ob maxbit =
     (let byte = unat (drop_bit 3 maxbit) in
      case ob of
        None \<Rightarrow> (replicate (byte + 1) 0, True)
      | Some ob \<Rightarrow>
          let s = getObjectReadOnlyString ob;
              s' = s @ replicate (byte + 1 - length s) 0
          in (s', length s \<noteq> length s'))"

text \<open>\<open>obey\<close> is \<open>mustObeyClient\<close>, \<open>limit\<close> is \<open>server.proto_max_bulk_len\<close>.  The product wraps at 64 bits.\<close>

definition getBitOffsetFromArgument :: "bool \<Rightarrow> int \<Rightarrow> bytes \<Rightarrow> bool \<Rightarrow> nat \<Rightarrow> (64 word) option" where
  "getBitOffsetFromArgument obey limit p hash bits =
     (let usehash = (cstr_at p 0 = 35 \<and> hash \<and> bits > 0) in do {
        loffset \<leftarrow> string2ll (if usehash then drop 1 p else p);
        let loffset = (word_of_int loffset :: 64 word);
        let loffset = (if usehash then loffset * word_of_nat bits else loffset);
        if sint loffset < 0 \<or> (\<not> obey \<and> sint loffset div 8 \<ge> limit) then None else Some loffset })"

definition c_string :: "bytes \<Rightarrow> bytes" where
  "c_string p = takeWhile (\<lambda>c. c \<noteq> 0) p"

definition getBitfieldTypeFromArgument :: "bytes \<Rightarrow> (bool \<times> nat) option" where
  "getBitfieldTypeFromArgument p = do {
     sign \<leftarrow> (if cstr_at p 0 = 105 then Some True else if cstr_at p 0 = 117 then Some False else None);
     llbits \<leftarrow> string2ll (c_string (drop 1 p));
     if llbits < 1 \<or> (sign \<and> llbits > 64) \<or> (\<not> sign \<and> llbits > 63) then None else Some (sign, nat llbits) }"

section \<open>SETBIT and GETBIT\<close>

text \<open>The reply is the old bit; the second result is whether the key was modified.\<close>

definition setbitCommand :: "robj option \<Rightarrow> 64 word \<Rightarrow> bool \<Rightarrow> (bool \<times> bool \<times> bytes) option" where
  "setbitCommand ob bitoffset on =
     (let (s, dirty) = lookupStringForBitCommand ob bitoffset;
          byte = unat (drop_bit 3 bitoffset);
          i = 7 - unat (bitoffset AND 7)
      in if byte < length s then
           let byteval = (ucast (s ! byte) :: 32 word);
               bitval = (byteval AND push_bit i 1 \<noteq> 0)
           in Some (bitval, dirty \<or> bitval \<noteq> on,
                if dirty \<or> bitval \<noteq> on
                then s[byte := ucast (byteval AND NOT (push_bit i 1) OR push_bit i (of_bool on))] else s)
         else None)"

definition getbitCommand :: "robj option \<Rightarrow> 64 word \<Rightarrow> bool" where
  "getbitCommand ob bitoffset = (case ob of
     None \<Rightarrow> False
   | Some ob \<Rightarrow>
       let s = getObjectReadOnlyString ob;
           byte = unat (drop_bit 3 bitoffset);
           i = 7 - unat (bitoffset AND 7)
       in byte < length s \<and> (ucast (s ! byte) :: 32 word) AND push_bit i 1 \<noteq> 0)"

section \<open>BITCOUNT and BITPOS\<close>

definition first_neg_mask :: "int \<Rightarrow> u8" where
  "first_neg_mask start = ucast (NOT (push_bit (8 - nat (start mod 8)) 1 - 1) AND 0xFF :: 32 word)"

definition last_neg_mask :: "int \<Rightarrow> u8" where
  "last_neg_mask end = ucast (push_bit (7 - nat (end mod 8)) 1 - 1 :: 32 word)"

text \<open>The bounds brought into the string, in bytes, and the masks.\<close>

definition clip_range :: "int \<Rightarrow> int \<Rightarrow> int \<Rightarrow> bool \<Rightarrow> int \<times> int \<times> u8 \<times> u8" where
  "clip_range totlen start end isbit =
     (let start = (if start < 0 then totlen + start else start);
          end = (if end < 0 then totlen + end else end);
          start = (if start < 0 then 0 else start);
          end = (if end < 0 then 0 else end);
          end = (if end \<ge> totlen then totlen - 1 else end)
      in if isbit \<and> start \<le> end then (start div 8, end div 8, first_neg_mask start, last_neg_mask end)
         else (start, end, 0, 0))"

text \<open>The range, when there is one, is the two numbers and whether they count bits; \<open>al\<close> and \<open>al2\<close> are the addresses
  of the string and of the local buffer.\<close>

definition bitcount_masked :: "bool \<Rightarrow> nat \<Rightarrow> nat \<Rightarrow> bytes \<Rightarrow> int \<times> int \<times> u8 \<times> u8 \<Rightarrow> int option" where
  "bitcount_masked be al al2 p rg =
     (let (start, end, fm, lm) = rg
      in if start > end then Some 0
         else if start < 0 \<or> end \<ge> int (length p) then None
         else
           let cnt = int (redisPopcount be (al + nat start) (slice (nat start) (nat (end - start + 1)) p))
           in if fm \<noteq> 0 \<or> lm \<noteq> 0 then
                Some (cnt - int (redisPopcount be al2
                  [if fm \<noteq> 0 then p ! nat start AND fm else 0, if lm \<noteq> 0 then p ! nat end AND lm else 0]))
              else Some cnt)"

definition bitcountCommand :: "bool \<Rightarrow> nat \<Rightarrow> nat \<Rightarrow> robj option \<Rightarrow> (int \<times> int \<times> bool) option \<Rightarrow> int option" where
  "bitcountCommand be al al2 ob rg = (case ob of
     None \<Rightarrow> Some 0
   | Some ob \<Rightarrow>
     let p = getObjectReadOnlyString ob
     in case rg of
          None \<Rightarrow> bitcount_masked be al al2 p (0, int (length p) - 1, 0, 0)
        | Some (start, end, isbit) \<Rightarrow>
            let totlen = int (length p) in
            if totlen > LLONG_MAX div 8 then None
            else if start < 0 \<and> end < 0 \<and> start > end then Some 0
            else bitcount_masked be al al2 p (clip_range (if isbit then totlen * 8 else totlen) start end isbit))"

text \<open>The search in the bytes from \<open>start\<close> to \<open>end\<close> under the masks: the bytes from which the position counts, their
  number, and the position.\<close>

definition cover :: "bool \<Rightarrow> u8 \<Rightarrow> u8 \<Rightarrow> u8" where
  "cover b c m = (if b then c AND NOT m else c OR m)"

text \<open>After the first byte: the whole bytes, then the last one.\<close>

definition bitpos_tail :: "bool \<Rightarrow> nat \<Rightarrow> nat \<Rightarrow> bytes \<Rightarrow> bool \<Rightarrow> int \<Rightarrow> u8 \<Rightarrow> int \<Rightarrow> int \<Rightarrow> (int \<times> int \<times> int) option" where
  "bitpos_tail be al al2 p b end lm start bytes =
     (let curbytes = bytes - (if lm \<noteq> 0 then 1 else 0);
          final = (\<lambda>start bytes. do {
            pos \<leftarrow> redisBitpos be al2 [cover b (p ! nat end) lm] b;
            Some (start, bytes, pos) })
      in if curbytes > 0 then do {
           pos \<leftarrow> redisBitpos be (al + nat start) (slice (nat start) (nat curbytes) p) b;
           if bytes = curbytes \<or> (pos \<noteq> -1 \<and> pos \<noteq> curbytes * 8) then Some (start, bytes, pos)
           else final (start + curbytes) (bytes - curbytes) }
         else final start bytes)"

definition bitpos_masked :: "bool \<Rightarrow> nat \<Rightarrow> nat \<Rightarrow> bytes \<Rightarrow> bool \<Rightarrow> int \<times> int \<times> u8 \<times> u8 \<Rightarrow> (int \<times> int \<times> int) option" where
  "bitpos_masked be al al2 p b rg =
     (let (start, end, fm, lm) = rg;
          bytes = end - start + 1
      in if start < 0 \<or> end \<ge> int (length p) then None
         else if fm \<noteq> 0 then
           let tmpchar = cover b (p ! nat start) fm;
               tmpchar = (if lm \<noteq> 0 \<and> bytes = 1 then cover b tmpchar lm else tmpchar)
           in do {
             pos \<leftarrow> redisBitpos be al2 [tmpchar] b;
             if bytes = 1 \<or> (pos \<noteq> -1 \<and> pos \<noteq> 8) then Some (start, bytes, pos)
             else bitpos_tail be al al2 p b end lm (start + 1) (bytes - 1) }
         else bitpos_tail be al al2 p b end lm start bytes)"

text \<open>The reply for a range: the position in the string, or -1.\<close>

definition bitpos_reply :: "bool \<Rightarrow> nat \<Rightarrow> nat \<Rightarrow> bytes \<Rightarrow> bool \<Rightarrow> bool \<Rightarrow> int \<times> int \<times> u8 \<times> u8 \<Rightarrow> int option" where
  "bitpos_reply be al al2 p b end_given rg =
     (let (start, end, fm, lm) = rg
      in if start > end then Some (-1)
         else do {
           (start, bytes, pos) \<leftarrow> bitpos_masked be al al2 p b rg;
           if end_given \<and> \<not> b \<and> pos = bytes * 8 then Some (-1)
           else Some (if pos \<noteq> -1 then pos + start * 8 else pos) })"

text \<open>The arguments after the bit: none, a start, or a start and an end; then whether they count bits.\<close>

definition bitposCommand :: "bool \<Rightarrow> nat \<Rightarrow> nat \<Rightarrow> robj option \<Rightarrow> bool \<Rightarrow> (int \<times> int option \<times> bool) option \<Rightarrow> int option" where
  "bitposCommand be al al2 ob b rg = (case ob of
     None \<Rightarrow> Some (if b then -1 else 0)
   | Some ob \<Rightarrow>
     let p = getObjectReadOnlyString ob
     in case rg of
          None \<Rightarrow> bitpos_reply be al al2 p b False (0, int (length p) - 1, 0, 0)
        | Some (start, end, isbit) \<Rightarrow>
            let totlen = int (length p) in
            if totlen > LLONG_MAX div 8 then None
            else bitpos_reply be al al2 p b (end \<noteq> None) (clip_range (if isbit then totlen * 8 else totlen) start
                   (case end of Some e \<Rightarrow> e | None \<Rightarrow> if isbit then totlen * 8 + 7 else totlen - 1) isbit))"

section \<open>BITFIELD\<close>

datatype bitfield_opcode = BITFIELDOP_GET | BITFIELDOP_SET | BITFIELDOP_INCRBY

record bitfieldOp =
  bo_offset :: "64 word"
  bo_i64 :: "64 word"
  bo_opcode :: bitfield_opcode
  bo_owtype :: owtype
  bo_bits :: nat
  bo_sign :: bool

definition strcasecmp_eq :: "bytes \<Rightarrow> bytes \<Rightarrow> bool" where
  "strcasecmp_eq a b =
     (let lower = map (\<lambda>c :: u8. if 65 \<le> c \<and> c \<le> 90 then c + 32 else c) in lower (c_string a) = lower b)"

datatype bitfield_error = InvalidOverflow | SyntaxError | InvalidType | InvalidOffset | NotInteger | ReadOnly

text \<open>The three kinds of operation, and the arguments of one after its name: the operation, the highest offset
  written so far, whether all operations so far only read, and the number of arguments taken.\<close>

definition parse_opcode :: "bytes \<Rightarrow> nat \<Rightarrow> bitfield_opcode option" where
  "parse_opcode subcmd remargs =
     (if strcasecmp_eq subcmd [103, 101, 116] \<and> remargs \<ge> 2 then Some BITFIELDOP_GET
      else if strcasecmp_eq subcmd [115, 101, 116] \<and> remargs \<ge> 3 then Some BITFIELDOP_SET
      else if strcasecmp_eq subcmd [105, 110, 99, 114, 98, 121] \<and> remargs \<ge> 3 then Some BITFIELDOP_INCRBY
      else None)"

definition parse_owtype :: "bytes \<Rightarrow> owtype option" where
  "parse_owtype owtypename =
     (if strcasecmp_eq owtypename [119, 114, 97, 112] then Some BFOVERFLOW_WRAP
      else if strcasecmp_eq owtypename [115, 97, 116] then Some BFOVERFLOW_SAT
      else if strcasecmp_eq owtypename [102, 97, 105, 108] then Some BFOVERFLOW_FAIL
      else None)"

definition parse_op ::
    "bool \<Rightarrow> int \<Rightarrow> owtype \<Rightarrow> 64 word \<Rightarrow> bool \<Rightarrow> bitfield_opcode \<Rightarrow> bytes list \<Rightarrow> bitfield_error + bitfieldOp \<times> 64 word \<times> bool \<times> nat" where
  "parse_op obey limit ow high readonly opcode args = (case getBitfieldTypeFromArgument (args ! 0) of
     None \<Rightarrow> Inl InvalidType
   | Some (sign, bits) \<Rightarrow> (case getBitOffsetFromArgument obey limit (args ! 1) True bits of
       None \<Rightarrow> Inl InvalidOffset
     | Some bitoffset \<Rightarrow>
         let op = \<lparr>bo_offset = bitoffset, bo_i64 = 0, bo_opcode = opcode, bo_owtype = ow, bo_bits = bits, bo_sign = sign\<rparr>
         in if opcode = BITFIELDOP_GET then Inr (op, high, readonly, 2)
            else
              let top = bitoffset + word_of_nat bits - 1; high = (if high < top then top else high)
              in case string2ll (args ! 2) of
                   None \<Rightarrow> Inl NotInteger
                 | Some i64 \<Rightarrow> Inr (op\<lparr>bo_i64 := word_of_int i64\<rparr>, high, False, 3)))"

text \<open>The arguments from \<open>argv[2]\<close> on: the operations, the highest offset written, and whether none writes.\<close>

fun parse_ops :: "bool \<Rightarrow> int \<Rightarrow> owtype \<Rightarrow> 64 word \<Rightarrow> bool \<Rightarrow> bytes list \<Rightarrow> bitfield_error + bitfieldOp list \<times> 64 word \<times> bool" where
  "parse_ops obey limit ow high readonly [] = Inr ([], high, readonly)"
| "parse_ops obey limit ow high readonly (subcmd # args) = (case parse_opcode subcmd (length args) of
     None \<Rightarrow>
       if strcasecmp_eq subcmd [111, 118, 101, 114, 102, 108, 111, 119] \<and> length args \<ge> 1 then
         (case parse_owtype (args ! 0) of
            None \<Rightarrow> Inl InvalidOverflow
          | Some ow \<Rightarrow> parse_ops obey limit ow high readonly (drop 1 args))
       else Inl SyntaxError
   | Some opcode \<Rightarrow> (case parse_op obey limit ow high readonly opcode args of
       Inl e \<Rightarrow> Inl e
     | Inr (op, high, readonly, taken) \<Rightarrow> (case parse_ops obey limit ow high readonly (drop taken args) of
         Inl e \<Rightarrow> Inl e
       | Inr (ops, r) \<Rightarrow> Inr (op # ops, r))))"

text \<open>One operation on the string: the reply (\<open>None\<close> is a null), the string, and whether it counts as a change.\<close>

definition exec_signed :: "bool \<Rightarrow> bitfieldOp \<Rightarrow> bytes \<Rightarrow> (int option \<times> bytes \<times> bool) option" where
  "exec_signed dirty thisop p = do {
     oldval \<leftarrow> getSignedBitfield p (bo_offset thisop) (bo_bits thisop);
     let incrby = (bo_opcode thisop = BITFIELDOP_INCRBY);
     let (overflow, wrapped) =
       (if incrby then checkSignedBitfieldOverflow oldval (bo_i64 thisop) (bo_bits thisop) (bo_owtype thisop)
        else checkSignedBitfieldOverflow (bo_i64 thisop) 0 (bo_bits thisop) (bo_owtype thisop));
     let wrapped = (case wrapped of Some w \<Rightarrow> w | None \<Rightarrow> indeterminate);
     let newval = (if overflow \<noteq> 0 then wrapped else if incrby then oldval + bo_i64 thisop else bo_i64 thisop);
     let retval = (if incrby then newval else oldval);
     if \<not> (overflow \<noteq> 0 \<and> bo_owtype thisop = BFOVERFLOW_FAIL) then do {
       p \<leftarrow> setSignedBitfield p (bo_offset thisop) (bo_bits thisop) newval;
       Some (Some (sint retval), p, dirty \<or> oldval \<noteq> newval) }
     else Some (None, p, False) }"

definition exec_unsigned :: "bool \<Rightarrow> bitfieldOp \<Rightarrow> bytes \<Rightarrow> (int option \<times> bytes \<times> bool) option" where
  "exec_unsigned dirty thisop p = do {
     oldval \<leftarrow> getUnsignedBitfield p (bo_offset thisop) (bo_bits thisop);
     let incrby = (bo_opcode thisop = BITFIELDOP_INCRBY);
     let (overflow, wrapped) =
       (if incrby then checkUnsignedBitfieldOverflow oldval (bo_i64 thisop) (bo_bits thisop) (bo_owtype thisop)
        else checkUnsignedBitfieldOverflow (bo_i64 thisop) 0 (bo_bits thisop) (bo_owtype thisop));
     let wrapped = (case wrapped of Some w \<Rightarrow> w | None \<Rightarrow> 0);
     let newval = (if overflow \<noteq> 0 then wrapped else if incrby then oldval + bo_i64 thisop else bo_i64 thisop);
     let retval = (if incrby then newval else oldval);
     if \<not> (overflow \<noteq> 0 \<and> bo_owtype thisop = BFOVERFLOW_FAIL) then do {
       p \<leftarrow> setUnsignedBitfield p (bo_offset thisop) (bo_bits thisop) newval;
       Some (Some (sint retval), p, dirty \<or> oldval \<noteq> newval) }
     else Some (None, p, False) }"

text \<open>\<open>GET\<close> works on a copy of nine bytes, zero beyond the string; a missing key is the empty string.\<close>

definition exec_get :: "bitfieldOp \<Rightarrow> bytes \<Rightarrow> (int option) option" where
  "exec_get thisop src =
     (let byte = drop_bit 3 (bo_offset thisop);
          buf = map (\<lambda>i. if unat byte + i < length src then src ! (unat byte + i) else 0) [0..<9];
          off = bo_offset thisop - byte * 8
      in map_option (\<lambda>v. Some (sint v))
           (if bo_sign thisop then getSignedBitfield buf off (bo_bits thisop) else getUnsignedBitfield buf off (bo_bits thisop)))"

fun exec_ops :: "bool \<Rightarrow> bitfieldOp list \<Rightarrow> bytes \<Rightarrow> (int option list \<times> bytes \<times> nat) option" where
  "exec_ops dirty [] p = Some ([], p, 0)"
| "exec_ops dirty (thisop # ops) p = do {
     (r, p, changed) \<leftarrow>
       (if bo_opcode thisop = BITFIELDOP_GET then map_option (\<lambda>r. (r, p, False)) (exec_get thisop p)
        else if bo_sign thisop then exec_signed dirty thisop p else exec_unsigned dirty thisop p);
     (rs, p, changes) \<leftarrow> exec_ops dirty ops p;
     Some (r # rs, p, (if changed then 1 else 0) + changes) }"

text \<open>The whole command: an error, or the replies, the new string when an operation writes, and the changes.\<close>

definition bitfieldGeneric ::
    "bool \<Rightarrow> int \<Rightarrow> bool \<Rightarrow> bytes list \<Rightarrow> robj option \<Rightarrow> (bitfield_error + int option list \<times> bytes option \<times> nat) option" where
  "bitfieldGeneric obey limit ro args ob = (case parse_ops obey limit BFOVERFLOW_WRAP 0 True args of
     Inl e \<Rightarrow> Some (Inl e)
   | Inr (ops, high, readonly) \<Rightarrow>
       if readonly then do {
         (rs, _, _) \<leftarrow> exec_ops False ops (case ob of None \<Rightarrow> [] | Some ob \<Rightarrow> getObjectReadOnlyString ob);
         Some (Inr (rs, None, 0)) }
       else if ro then Some (Inl ReadOnly)
       else let (p, dirty) = lookupStringForBitCommand ob high in do {
         (rs, p, changes) \<leftarrow> exec_ops dirty ops p;
         Some (Inr (rs, Some p, changes)) })"

end
