(* ===== verification/Bitops_Props.thy ===== *)
theory Bitops_Props
  imports Bitops
begin

text \<open>
  What the bit operations compute, in terms of the bits of a string one by one.
\<close>

section \<open>The bits of a string\<close>

definition bit_at :: "bytes \<Rightarrow> nat \<Rightarrow> bool" where
  "bit_at p n = bit (p ! (n div 8)) (7 - n mod 8)"

definition byte_bits :: "u8 \<Rightarrow> bool list" where
  "byte_bits b = map (\<lambda>i. bit b (7 - i)) [0..<8]"

definition bits_of :: "bytes \<Rightarrow> bool list" where
  "bits_of p = concat (map byte_bits p)"

lemma bits_of_simps [simp]: "bits_of [] = []" "bits_of (b # p) = byte_bits b @ bits_of p" "bits_of (p @ q) = bits_of p @ bits_of q"
  by (simp_all add: bits_of_def)

lemma length_byte_bits [simp]: "length (byte_bits b) = 8"
  by (simp add: byte_bits_def)

lemma length_bits_of [simp]: "length (bits_of p) = 8 * length p"
  by (induction p) simp_all

lemma nth_bits_of: "n < 8 * length p \<Longrightarrow> bits_of p ! n = bit_at p n"
proof (induction p arbitrary: n)
  case (Cons b p)
  show ?case
  proof (cases "n < 8")
    case True
    then show ?thesis by (simp add: nth_append bit_at_def byte_bits_def)
  next
    case False
    then obtain m where n: "n = m + 8" by (metis add.commute le_Suc_ex not_less)
    have "bits_of p ! m = bit_at p m" by (rule Cons.IH) (use Cons.prems n in simp)
    moreover have "(m + 8) div 8 = Suc (m div 8)" by simp
    ultimately show ?thesis by (simp add: n nth_append bit_at_def)
  qed
qed simp

definition bit_count :: "bytes \<Rightarrow> nat" where
  "bit_count p = length (filter id (bits_of p))"

lemma bit_count_simps: "bit_count [] = 0" "bit_count (p @ q) = bit_count p + bit_count q"
  "bit_count (b # p) = bit_count [b] + bit_count p"
  by (simp_all add: bit_count_def)

section \<open>Counting\<close>

definition pop :: "nat \<Rightarrow> nat \<Rightarrow> nat" where
  "pop k n = (\<Sum>i < k. n div 2 ^ i mod 2)"

text \<open>The table, doubled bit by bit.\<close>

definition dbl :: "nat list \<Rightarrow> nat list" where
  "dbl xs = xs @ map Suc xs"

lemma dbl_nth: "length ((dbl ^^ k) [0]) = 2 ^ k \<and> (\<forall>n < 2 ^ k. (dbl ^^ k) [0] ! n = pop k n)"
proof (induction k)
  case (Suc k)
  define T where "T = (dbl ^^ k) [0]"
  have T: "length T = 2 ^ k" "n < 2 ^ k \<Longrightarrow> T ! n = pop k n" for n using Suc.IH by (simp_all add: T_def)
  have S: "(dbl ^^ Suc k) [0] = T @ map Suc T" by (simp add: T_def dbl_def [of "(dbl ^^ k) [0]"])
  have "(dbl ^^ Suc k) [0] ! n = pop (Suc k) n" if n: "n < 2 ^ Suc k" for n
  proof (cases "n < 2 ^ k")
    case True
    then show ?thesis unfolding S using T by (simp add: nth_append pop_def)
  next
    case False
    then obtain m where m: "n = m + 2 ^ k" "m < 2 ^ k" using n by (metis add.commute le_Suc_ex mult_2 nat_add_left_cancel_less not_less power_Suc)
    have "(m + 2 ^ k) div 2 ^ i mod 2 = m div 2 ^ i mod 2" if "i < k" for i
    proof -
      obtain d where k: "k = i + Suc d" using \<open>i < k\<close> by (metis less_imp_Suc_add add_Suc_right)
      have "m + 2 ^ k = m + (2 * 2 ^ d) * 2 ^ i" by (simp add: k power_add)
      then have "(m + 2 ^ k) div 2 ^ i = m div 2 ^ i + 2 * 2 ^ d" by (simp only: div_mult_self1) simp
      then show ?thesis by simp
    qed
    moreover have "(m + 2 ^ k) div 2 ^ k = 1" using m(2) by (simp add: div_add_self2)
    ultimately have "pop (Suc k) n = Suc (pop k m)" using m by (simp add: pop_def)
    then show ?thesis unfolding S using T m by (simp add: nth_append)
  qed
  moreover have "length ((dbl ^^ Suc k) [0]) = 2 ^ Suc k" unfolding S using T(1) by simp
  ultimately show ?case by blast
qed (simp add: pop_def)

lemma bitsinbyte_dbl: "bitsinbyte = (dbl ^^ 8) [0]"
proof -
  have "(dbl ^^ 8) [0] = dbl (dbl (dbl (dbl (dbl (dbl (dbl (dbl [0])))))))" by (simp add: eval_nat_numeral)
  also have "\<dots> = bitsinbyte" unfolding bitsinbyte_def by (simp add: dbl_def)
  finally show ?thesis ..
qed

lemma bitsinbyte_pop: "n < 256 \<Longrightarrow> bitsinbyte ! n = pop 8 n"
  using dbl_nth [of 8] unfolding bitsinbyte_dbl by simp

lemma pop8: "pop 8 n = n mod 2 + n div 2 mod 2 + n div 4 mod 2 + n div 8 mod 2 + n div 16 mod 2 + n div 32 mod 2 + n div 64 mod 2 + n div 128 mod 2"
proof -
  have "{..<8} = {0, 1, 2, 3, 4, 5, 6, 7 :: nat}" by auto
  then show ?thesis by (simp add: pop_def)
qed

lemma bit_count_byte: "bit_count [b] = pop 8 (unat b)"
proof -
  have b: "unat b div 2 ^ i mod 2 = of_bool (bit b i)" for i
  proof -
    have "bit (unat b) i = bit b i" by (simp add: bit_unsigned_iff)
    then show ?thesis by (simp add: bit_iff_odd [of "unat b"] mod_2_eq_odd)
  qed
  have "[0..<8] = [0, 1, 2, 3, 4, 5, 6, 7 :: nat]" by (simp add: upt_rec)
  then have "bit_count [b] = of_bool (bit b 7) + of_bool (bit b 6) + of_bool (bit b 5) + of_bool (bit b 4) + of_bool (bit b 3)
      + of_bool (bit b 2) + of_bool (bit b 1) + of_bool (bit b 0)"
    by (simp add: bit_count_def byte_bits_def)
  then show ?thesis unfolding pop8 using b [of 0] b [of 1] b [of 2] b [of 3] b [of 4] b [of 5] b [of 6] b [of 7] by simp
qed

lemma popcount_bytes_ok: "popcount_bytes p = bit_count p"
proof (induction p)
  case (Cons b p)
  then show ?case using bitsinbyte_pop [of "unat b"] by (simp add: popcount_bytes_def bit_count_byte bit_count_simps(3) [of b p])
qed (simp add: popcount_bytes_def bit_count_simps)

text \<open>The steps of the parallel count act on each byte alone.\<close>

lemma and_split:
  fixes q :: nat assumes "b < 2 ^ k" "m < 2 ^ k"
  shows "(2 ^ k * q + b) AND (2 ^ k * M + m) = 2 ^ k * (q AND M) + (b AND m)"
proof -
  have "((2 ^ k * q + b) AND (2 ^ k * M + m)) div 2 ^ k = q AND M"
    using assms by (simp flip: drop_bit_eq_div add: drop_bit_and) (simp add: drop_bit_eq_div)
  moreover have "((2 ^ k * q + b) AND (2 ^ k * M + m)) mod 2 ^ k = b AND m"
    using assms by (simp flip: take_bit_eq_mod add: take_bit_and) (simp add: take_bit_eq_mod)
  ultimately show ?thesis by (metis mult_div_mod_eq)
qed

definition step1 :: "nat \<Rightarrow> nat \<Rightarrow> nat" where "step1 M x = x - (x div 2 AND M)"
definition step2 :: "nat \<Rightarrow> nat \<Rightarrow> nat" where "step2 M x = (x AND M) + (x div 4 AND M)"
definition step3 :: "nat \<Rightarrow> nat \<Rightarrow> nat" where "step3 M x = (x + x div 16) AND M"

lemma and_le_nat: "(x :: nat) AND y \<le> x" "(x :: nat) AND y \<le> y"
  by (simp_all add: and_nat_def nat_le_iff AND_upper1 AND_upper2)

lemma shift_field:
  fixes b :: nat assumes "b < 2 ^ (j + i)"
  shows "(2 ^ (j + i) * q + b) div 2 ^ i = 2 ^ (j + i) * (q div 2 ^ i) + (2 ^ j * (q mod 2 ^ i) + b div 2 ^ i)"
    "b div 2 ^ i < 2 ^ j" "2 ^ j * (q mod 2 ^ i) + b div 2 ^ i < 2 ^ (j + i)"
proof -
  have "2 ^ (j + i) * q + b = (2 ^ j * q) * 2 ^ i + b" by (simp add: power_add)
  then have "(2 ^ (j + i) * q + b) div 2 ^ i = 2 ^ j * q + b div 2 ^ i" by (simp only: div_mult_self3) simp
  moreover have "2 ^ i * (q div 2 ^ i) + q mod 2 ^ i = q" by simp
  moreover have "2 ^ j * (2 ^ i * (q div 2 ^ i) + q mod 2 ^ i) = 2 ^ (j + i) * (q div 2 ^ i) + 2 ^ j * (q mod 2 ^ i)"
    by (simp only: power_add distrib_left mult.assoc)
  ultimately show "(2 ^ (j + i) * q + b) div 2 ^ i = 2 ^ (j + i) * (q div 2 ^ i) + (2 ^ j * (q mod 2 ^ i) + b div 2 ^ i)"
    by presburger
  show b: "b div 2 ^ i < 2 ^ j" using assms by (simp add: less_mult_imp_div_less power_add)
  have "q mod 2 ^ i < 2 ^ i" by simp
  then have "q mod 2 ^ i + 1 \<le> 2 ^ i" by linarith
  then have "2 ^ j * (q mod 2 ^ i + 1) \<le> 2 ^ j * 2 ^ i" by (rule mult_le_mono2)
  then show "2 ^ j * (q mod 2 ^ i) + b div 2 ^ i < 2 ^ (j + i)" using b by (simp add: power_add)
qed

text \<open>The bits shifted in from the byte above are masked out.\<close>

lemma and_shifted:
  fixes b :: nat assumes "b < 2 ^ (j + i)" "m < 2 ^ j" "0 < i"
  shows "(2 ^ (j + i) * q + b) div 2 ^ i AND (2 ^ (j + i) * M + m) = 2 ^ (j + i) * (q div 2 ^ i AND M) + (b div 2 ^ i AND m)"
proof -
  note f = shift_field(1) [OF assms(1), of q] shift_field(2) [OF assms(1)] shift_field(3) [OF assms(1), of q]
  have m: "m < 2 ^ (j + i)" using assms(2) by (simp add: less_le_trans power_add)
  have "(2 ^ j * (q mod 2 ^ i) + b div 2 ^ i) AND m = b div 2 ^ i AND m"
    using and_split [OF f(2) assms(2), of "q mod 2 ^ i" 0] by simp
  then show ?thesis unfolding f(1) and_split [OF f(3) m] by simp
qed

lemma step1_split:
  assumes "b < 2 ^ (j + 1)" "m < 2 ^ j"
  shows "step1 (2 ^ (j + 1) * M + m) (2 ^ (j + 1) * q + b) = 2 ^ (j + 1) * step1 M q + step1 m b"
proof -
  define K :: nat where "K = 2 ^ (j + 1)"
  have "(K * q + b) div 2 AND (K * M + m) = K * (q div 2 AND M) + (b div 2 AND m)"
    using and_shifted [of b j 1 m q M] assms by (simp add: K_def)
  moreover have "K * (q div 2 AND M) \<le> K * q" using and_le_nat(1) [of "q div 2" M] by (intro mult_le_mono2) linarith
  moreover have "b div 2 AND m \<le> b" using and_le_nat(1) [of "b div 2" m] by linarith
  moreover have "q div 2 AND M \<le> q" using and_le_nat(1) [of "q div 2" M] by linarith
  ultimately show ?thesis unfolding K_def [symmetric] step1_def by (simp add: diff_mult_distrib2)
qed

lemma step2_split:
  assumes "b < 2 ^ (j + 2)" "m < 2 ^ j"
  shows "step2 (2 ^ (j + 2) * M + m) (2 ^ (j + 2) * q + b) = 2 ^ (j + 2) * step2 M q + step2 m b"
proof -
  have "m < 2 ^ (j + 2)" using assms(2) by (simp add: less_le_trans power_add)
  then show ?thesis using and_split [of b "j + 2" m q M] and_shifted [of b j 2 m q M] assms
    by (simp add: step2_def algebra_simps)
qed

lemma step3_split: "b + b div 16 + 16 * (q mod 16) < 256 \<Longrightarrow> step3 (256 * M + 15) (256 * q + b) = 256 * step3 M q + (b + b div 16) mod 16"
proof -
  assume b: "b + b div 16 + 16 * (q mod 16) < 256"
  have "b < 2 ^ (4 + 4)" using b by simp
  from shift_field(1) [OF this, of q]
  have "256 * q + b + (256 * q + b) div 16 = 256 * (q + q div 16) + (b + b div 16 + 16 * (q mod 16))" by simp
  moreover have "(256 * (q + q div 16) + (b + b div 16 + 16 * (q mod 16))) AND (256 * M + 15) = 256 * (q + q div 16 AND M) + ((b + b div 16 + 16 * (q mod 16)) AND 15)"
    using and_split [of "b + b div 16 + 16 * (q mod 16)" 8 15 "q + q div 16" M] b by simp
  ultimately have "step3 (256 * M + 15) (256 * q + b) = 256 * step3 M q + ((b + b div 16 + 16 * (q mod 16)) AND 15)"
    by (simp only: step3_def)
  moreover have "x AND 15 = x mod 16" for x :: nat using take_bit_eq_mask [of 4 x] by (simp add: take_bit_eq_mod mask_eq_exp_minus_1)
  ultimately show ?thesis by presburger
qed

text \<open>On half a byte, and on a byte.\<close>

lemma pop_split: "l < 16 \<Longrightarrow> pop 8 (16 * h + l) = pop 4 h + pop 4 l"
proof -
  assume "l < 16"
  have s: "{..<8} = {0, 1, 2, 3, 4, 5, 6, 7 :: nat}" "{..<4} = {0, 1, 2, 3 :: nat}" by auto
  have d: "(16 * h + l) div 2 = l div 2 + 8 * h" "(16 * h + l) div 4 = l div 4 + 4 * h" "(16 * h + l) div 8 = l div 8 + 2 * h"
    using div_mult_self1 [of 2 l "8 * h"] div_mult_self1 [of 4 l "4 * h"] div_mult_self1 [of 8 l "2 * h"] by (simp_all add: algebra_simps)
  have e: "even (8 * h)" "even (4 * h)" "even (2 * h)" "even (16 * h)" by simp_all
  have low: "(16 * h + l) mod 2 = l mod 2" "(16 * h + l) div 2 mod 2 = l div 2 mod 2" "(16 * h + l) div 4 mod 2 = l div 4 mod 2"
    "(16 * h + l) div 8 mod 2 = l div 8 mod 2" unfolding d using e by (simp_all add: mod_2_eq_odd)
  have h: "(16 * h + l) div 16 = h" using \<open>l < 16\<close> by simp
  have high: "(16 * h + l) div 32 = h div 2" "(16 * h + l) div 64 = h div 4" "(16 * h + l) div 128 = h div 8"
    using div_mult2_eq [of "16 * h + l" 16 2] div_mult2_eq [of "16 * h + l" 16 4] div_mult2_eq [of "16 * h + l" 16 8] h by simp_all
  show ?thesis unfolding pop_def s by (simp add: low h high)
qed

lemma less_16: "l < 16 \<Longrightarrow> l \<in> {0, 1, 2, 3, 4, 5, 6, 7, 8, 9, 10, 11, 12, 13, 14, 15 :: nat}"
  by simp presburger

lemma steps_half: "l < 16 \<Longrightarrow> step1 5 l < 16 \<and> step2 3 (step1 5 l) = pop 4 l \<and> pop 4 l \<le> 4"
proof -
  have s: "{..<4} = {0, 1, 2, 3 :: nat}" by auto
  show "l < 16 \<Longrightarrow> ?thesis"
    by (drule less_16) (elim insertE emptyE; simp add: step1_def step2_def pop_def s)
qed

lemma steps_byte:
  assumes "b < 256"
  shows "step1 85 b < 256" "step2 51 (step1 85 b) = 16 * pop 4 (b div 16) + pop 4 (b mod 16)"
    "pop 8 b = pop 4 (b div 16) + pop 4 (b mod 16)" "pop 4 (b div 16) \<le> 4" "pop 4 (b mod 16) \<le> 4"
proof -
  have h: "b div 16 < 16" "b mod 16 < 16" using assms by auto
  have b: "b = 16 * (b div 16) + b mod 16" by simp
  have s: "step1 85 b = 16 * step1 5 (b div 16) + step1 5 (b mod 16)"
    using step1_split [of "b mod 16" 3 5 5 "b div 16"] h(2) by simp
  then show "step1 85 b < 256" using steps_half [OF h(1)] steps_half [OF h(2)] by linarith
  show "step2 51 (step1 85 b) = 16 * pop 4 (b div 16) + pop 4 (b mod 16)"
    unfolding s using step2_split [of "step1 5 (b mod 16)" 2 3 3 "step1 5 (b div 16)"] steps_half [OF h(1)] steps_half [OF h(2)] by simp
  show "pop 8 b = pop 4 (b div 16) + pop 4 (b mod 16)" using pop_split [OF h(2), of "b div 16"] b by simp
  show "pop 4 (b div 16) \<le> 4" "pop 4 (b mod 16) \<le> 4" using steps_half h by blast+
qed

text \<open>On four bytes.\<close>

definition word_of4 :: "nat \<Rightarrow> nat \<Rightarrow> nat \<Rightarrow> nat \<Rightarrow> nat" where
  "word_of4 a b c d = 256 * (256 * (256 * d + c) + b) + a"

lemma steps_word:
  assumes "a < 256" "b < 256" "c < 256" "d < 256"
  shows "step3 0x0F0F0F0F (step2 0x33333333 (step1 0x55555555 (word_of4 a b c d))) = word_of4 (pop 8 a) (pop 8 b) (pop 8 c) (pop 8 d)"
    "step2 0x33333333 (step1 0x55555555 (word_of4 a b c d)) \<le> 0x44444444"
proof -
  have s1: "step1 0x55555555 (word_of4 a b c d) = word_of4 (step1 85 a) (step1 85 b) (step1 85 c) (step1 85 d)"
    using step1_split [of a 7 85 "0x555555" "256 * (256 * d + c) + b"] step1_split [of b 7 85 "0x5555" "256 * d + c"] step1_split [of c 7 85 "0x55" d] assms
    by (simp add: word_of4_def)
  let ?a = "step2 51 (step1 85 a)" and ?b = "step2 51 (step1 85 b)" and ?c = "step2 51 (step1 85 c)" and ?d = "step2 51 (step1 85 d)"
  have s2: "step2 0x33333333 (word_of4 (step1 85 a) (step1 85 b) (step1 85 c) (step1 85 d)) = word_of4 ?a ?b ?c ?d"
    using step2_split [of "step1 85 a" 6 51 "0x333333" "256 * (256 * step1 85 d + step1 85 c) + step1 85 b"]
      step2_split [of "step1 85 b" 6 51 "0x3333" "256 * step1 85 d + step1 85 c"] step2_split [of "step1 85 c" 6 51 "0x33" "step1 85 d"] steps_byte(1) assms
    by (simp add: word_of4_def)
  have H: "\<exists>h l. step2 51 (step1 85 x) = 16 * h + l \<and> h \<le> 4 \<and> l \<le> 4 \<and> pop 8 x = h + l" if "x < 256" for x
    using steps_byte [OF that] by (intro exI [of _ "pop 4 (x div 16)"] exI [of _ "pop 4 (x mod 16)"]) simp
  obtain ha la where A: "?a = 16 * ha + la" "ha \<le> 4" "la \<le> 4" "pop 8 a = ha + la" using H [OF assms(1)] by blast
  obtain hb lb where B: "?b = 16 * hb + lb" "hb \<le> 4" "lb \<le> 4" "pop 8 b = hb + lb" using H [OF assms(2)] by blast
  obtain hc lc where C: "?c = 16 * hc + lc" "hc \<le> 4" "lc \<le> 4" "pop 8 c = hc + lc" using H [OF assms(3)] by blast
  obtain hd ld where D: "?d = 16 * hd + ld" "hd \<le> 4" "ld \<le> 4" "pop 8 d = hd + ld" using H [OF assms(4)] by blast
  have one: "step3 (256 * M + 15) (256 * q + (16 * h + l)) = 256 * step3 M q + (h + l)" if "h \<le> 4" "l \<le> 4" "q mod 16 \<le> 4" for M q h l
  proof -
    have e: "(16 * h + l) div 16 = h" using that by simp
    have "16 * h + l + h = (h + l) + h * 16" by simp
    then have "(16 * h + l + h) mod 16 = h + l" using that by (simp only: mod_mult_self1) simp
    then have "16 * h + l + (16 * h + l) div 16 + 16 * (q mod 16) < 256" "(16 * h + l + (16 * h + l) div 16) mod 16 = h + l" using that e by simp_all
    then show ?thesis using step3_split by metis
  qed
  have m: "(256 * q + (16 * h + l)) mod 16 = l" if "l \<le> 4" for q h l :: nat
  proof -
    have "256 * q + (16 * h + l) = l + (16 * q + h) * 16" by simp
    then show ?thesis using that by (simp only: mod_mult_self1) simp
  qed
  have z: "step3 15 (16 * h + l) = h + l" if "h \<le> 4" "l \<le> 4" for h l
    using one [of h l 0 0] that by (simp add: step3_def)
  have md: "(16 * hd + ld) mod 16 \<le> 4" using m [of ld 0 hd] D(3) by simp
  have "step3 0x0F0F0F0F (word_of4 ?a ?b ?c ?d) = word_of4 (ha + la) (hb + lb) (hc + lc) (hd + ld)"
    unfolding word_of4_def A(1) B(1) C(1) D(1)
    using one [of ha la "256 * (256 * (16 * hd + ld) + (16 * hc + lc)) + (16 * hb + lb)" "0x0F0F0F"]
      one [of hb lb "256 * (16 * hd + ld) + (16 * hc + lc)" "0x0F0F"] one [of hc lc "16 * hd + ld" "0x0F"] z [of hd ld]
      m [of lb "256 * (16 * hd + ld) + (16 * hc + lc)" hb] m [of lc "16 * hd + ld" hc] md A B C D by simp
  then show "step3 0x0F0F0F0F (step2 0x33333333 (step1 0x55555555 (word_of4 a b c d))) = word_of4 (pop 8 a) (pop 8 b) (pop 8 c) (pop 8 d)"
    unfolding s1 s2 A(4) B(4) C(4) D(4) .
  show "step2 0x33333333 (step1 0x55555555 (word_of4 a b c d)) \<le> 0x44444444"
  proof -
    have "256 * (256 * (256 * ?d + ?c) + ?b) + ?a \<le> 256 * (256 * (256 * 68 + 68) + 68) + (68 :: nat)"
      unfolding A(1) B(1) C(1) D(1) by (intro add_mono mult_le_mono2) (use A(2,3) B(2,3) C(2,3) D(2,3) in linarith)+
    then show ?thesis unfolding s1 s2 unfolding word_of4_def by simp
  qed
qed

text \<open>The same on machine words.\<close>

lemma unat_shift:
  fixes w :: "'a::len word"
  shows "unat (drop_bit n w) = unat w div 2 ^ n"
proof -
  have "take_bit LENGTH('a) (unat w) = unat w" by (rule take_bit_nat_eq_self) (rule unsigned_less)
  then show ?thesis by (simp only: unsigned_drop_bit_eq) (simp add: drop_bit_eq_div)
qed

lemma unat_and: "unat (v AND w) = unat v AND unat w"
  by (rule unsigned_and_eq)

lemma popcount_aux_unat:
  fixes w :: "32 word"
  shows "unat (popcount_aux w) = step2 0x33333333 (step1 0x55555555 (unat w))"
proof -
  have u: "unat (0x55555555 :: 32 word) = 0x55555555" "unat (0x33333333 :: 32 word) = 0x33333333" by simp_all
  have "unat (drop_bit 1 w AND 0x55555555) = unat w div 2 AND 0x55555555" by (simp only: unat_and unat_shift u power_one_right)
  moreover have "unat w div 2 AND 0x55555555 \<le> unat w" using and_le_nat(1) [of "unat w div 2" "0x55555555"] by linarith
  ultimately have s1: "unat (w - (drop_bit 1 w AND 0x55555555)) = step1 0x55555555 (unat w)"
    by (simp add: step1_def unat_sub word_le_nat_alt)
  let ?x = "w - (drop_bit 1 w AND 0x55555555)"
  have s2: "unat (?x AND 0x33333333) = unat ?x AND 0x33333333" "unat (drop_bit 2 ?x AND 0x33333333) = unat ?x div 4 AND 0x33333333"
    by (simp_all only: unat_and unat_shift u) simp_all
  have "(unat ?x AND 0x33333333) + (unat ?x div 4 AND 0x33333333) < 2 ^ 32"
    using and_le_nat(2) [of "unat ?x" "0x33333333"] and_le_nat(2) [of "unat ?x div 4" "0x33333333"] by simp
  then have "unat ((?x AND 0x33333333) + (drop_bit 2 ?x AND 0x33333333)) = step2 0x33333333 (unat ?x)"
    using s2 by (simp add: step2_def unat_word_ariths)
  then show ?thesis unfolding s1 popcount_aux_def Let_def .
qed

lemma popcount_word:
  fixes w :: "32 word"
  assumes "unat w = word_of4 a b c d" "a < 256" "b < 256" "c < 256" "d < 256"
  shows "unat ((popcount_aux w + drop_bit 4 (popcount_aux w)) AND 0x0F0F0F0F) = word_of4 (pop 8 a) (pop 8 b) (pop 8 c) (pop 8 d)"
proof -
  let ?x = "popcount_aux w"
  have x: "unat ?x = step2 0x33333333 (step1 0x55555555 (word_of4 a b c d))" using popcount_aux_unat [of w] assms(1) by simp
  have "unat ?x + unat ?x div 16 < 2 ^ 32" using steps_word(2) [OF assms(2-5)] unfolding x [symmetric] by simp
  then have s: "unat (?x + drop_bit 4 ?x) = unat ?x + unat ?x div 16" by (simp add: unat_word_ariths unat_shift)
  have "unat (0x0F0F0F0F :: 32 word) = 0x0F0F0F0F" by simp
  then have "unat ((?x + drop_bit 4 ?x) AND 0x0F0F0F0F) = step3 0x0F0F0F0F (unat ?x)" by (simp only: unat_and s step3_def)
  then show ?thesis unfolding x steps_word(1) [OF assms(2-5)] .
qed

text \<open>A word whose bytes, each at most \<open>8 * n\<close>, add up to \<open>t\<close>.\<close>

definition bytes_sum :: "nat \<Rightarrow> 32 word \<Rightarrow> nat \<Rightarrow> bool" where
  "bytes_sum n w t \<longleftrightarrow> (\<exists>a b c d. unat w = word_of4 a b c d \<and> a + b + c + d = t \<and> a \<le> 8 * n \<and> b \<le> 8 * n \<and> c \<le> 8 * n \<and> d \<le> 8 * n)"

lemma bytes_sum_add:
  assumes "bytes_sum n v s" "bytes_sum 1 w t" "n + 1 \<le> 31"
  shows "bytes_sum (n + 1) (v + w) (s + t)"
proof -
  obtain a b c d where v: "unat v = word_of4 a b c d" "a + b + c + d = s" "a \<le> 8 * n" "b \<le> 8 * n" "c \<le> 8 * n" "d \<le> 8 * n"
    using assms(1) by (auto simp: bytes_sum_def)
  obtain a' b' c' d' where w: "unat w = word_of4 a' b' c' d'" "a' + b' + c' + d' = t" "a' \<le> 8" "b' \<le> 8" "c' \<le> 8" "d' \<le> 8"
    using assms(2) by (auto simp: bytes_sum_def)
  have "unat v + unat w = word_of4 (a + a') (b + b') (c + c') (d + d')" unfolding v(1) w(1) by (simp add: word_of4_def)
  moreover have "word_of4 (a + a') (b + b') (c + c') (d + d') < 2 ^ 32" using v w assms(3) by (simp add: word_of4_def)
  ultimately have "unat (v + w) = word_of4 (a + a') (b + b') (c + c') (d + d')" by (simp add: unat_word_ariths)
  then show ?thesis unfolding bytes_sum_def
    by (intro exI [of _ "a + a'"] exI [of _ "b + b'"] exI [of _ "c + c'"] exI [of _ "d + d'"]) (use v w in simp)
qed

lemma bytes_sum_list:
  "\<forall>x \<in> set ws. bytes_sum 1 (fst x) (snd x) \<Longrightarrow> length ws \<le> 31 \<Longrightarrow> bytes_sum (length ws) (sum_list (map fst ws)) (sum_list (map snd ws))"
proof (induction ws)
  case Nil
  then show ?case by (auto simp: bytes_sum_def word_of4_def)
next
  case (Cons x ws)
  then have "bytes_sum (length ws + 1) (sum_list (map fst ws) + fst x) (sum_list (map snd ws) + snd x)"
    by (intro bytes_sum_add) auto
  then show ?case by (simp add: add.commute)
qed

lemma bytes_sum_top:
  assumes "bytes_sum n w t" "n \<le> 7"
  shows "unat (drop_bit 24 (w * 0x01010101)) = t"
proof -
  obtain a b c d where w: "unat w = word_of4 a b c d" "a + b + c + d = t" "a \<le> 56" "b \<le> 56" "c \<le> 56" "d \<le> 56"
    using assms by (force simp: bytes_sum_def)
  define r where "r = a + 256 * (a + b) + 65536 * (a + b + c)"
  have r: "r < 2 ^ 24" "a + b + c + d < 256" using w by (simp_all add: r_def)
  have "word_of4 a b c d * 0x01010101 = (r + 2 ^ 24 * (a + b + c + d)) + 2 ^ 32 * ((b + c + d) + 256 * (c + d) + 65536 * d)"
    by (simp add: word_of4_def r_def)
  then have "(word_of4 a b c d * 0x01010101) mod 2 ^ 32 = (r + 2 ^ 24 * (a + b + c + d)) mod 2 ^ 32" by (simp only: mod_mult_self2)
  also have "\<dots> = r + 2 ^ 24 * (a + b + c + d)" using r by (intro mod_less) simp
  finally have "unat (w * 0x01010101) = r + 2 ^ 24 * (a + b + c + d)" using w(1) by (simp add: unat_word_ariths)
  then show ?thesis using r(1) w(2) by (simp add: unat_shift)
qed

lemma length_4: "length xs = 4 \<Longrightarrow> \<exists>x y z t. xs = [x, y, z, t]"
  by (auto simp: length_Suc_conv eval_nat_numeral)

lemma load32_ok:
  assumes "4 * i + 4 \<le> length p"
  shows "bytes_sum 1 (let aux = popcount_aux (load32 be p i) in (aux + drop_bit 4 aux) AND 0x0F0F0F0F) (bit_count (slice (4 * i) 4 p))"
proof -
  have "length (slice (4 * i) 4 p) = 4" using assms by simp
  then obtain x y z t where s: "slice (4 * i) 4 p = [x, y, z, t]" using length_4 by blast
  have cnt: "bit_count [x, y, z, t] = pop 8 (unat x) + pop 8 (unat y) + pop 8 (unat z) + pop 8 (unat t)"
    using bit_count_simps(3) [of x "[y, z, t]"] bit_count_simps(3) [of y "[z, t]"] bit_count_simps(3) [of z "[t]"] by (simp add: bit_count_byte)
  have "host_load be [x, y, z, t] = (if be then word_of4 (unat t) (unat z) (unat y) (unat x) else word_of4 (unat x) (unat y) (unat z) (unat t))"
    by (simp add: host_load_def word_of4_def)
  moreover have "unat x < 256" "unat y < 256" "unat z < 256" "unat t < 256" by simp_all
  ultimately obtain a b c d where w: "host_load be [x, y, z, t] = word_of4 a b c d" "a < 256" "b < 256" "c < 256" "d < 256"
      "pop 8 a + pop 8 b + pop 8 c + pop 8 d = bit_count [x, y, z, t]"
    using that [of "unat t" "unat z" "unat y" "unat x"] that [of "unat x" "unat y" "unat z" "unat t"] unfolding cnt by (cases be) simp_all
  have "word_of4 a b c d < 2 ^ 32" using w(2-5) by (simp add: word_of4_def)
  then have "unat (load32 be p i) = word_of4 a b c d" using w(1) by (simp add: load32_def s unat_of_nat)
  from popcount_word [OF this w(2-5)]
  have u: "unat (let aux = popcount_aux (load32 be p i) in (aux + drop_bit 4 aux) AND 0x0F0F0F0F) = word_of4 (pop 8 a) (pop 8 b) (pop 8 c) (pop 8 d)"
    by (simp only: Let_def)
  have "pop 8 n \<le> 8" if "n < 256" for n using steps_byte(3-5) [OF that] by linarith
  then have "pop 8 a \<le> 8" "pop 8 b \<le> 8" "pop 8 c \<le> 8" "pop 8 d \<le> 8" using w(2-5) by blast+
  then show ?thesis unfolding bytes_sum_def s using u w(6)
    by (intro exI [of _ "pop 8 a"] exI [of _ "pop 8 b"] exI [of _ "pop 8 c"] exI [of _ "pop 8 d"]) (simp only: mult_1_right simp_thms)
qed

lemma popcount28_ok:
  assumes "28 \<le> length p"
  shows "popcount28 be p = bit_count (take 28 p)"
proof -
  let ?f = "\<lambda>i. let aux = popcount_aux (load32 be p i) in (aux + drop_bit 4 aux) AND 0x0F0F0F0F"
  let ?ws = "map (\<lambda>i. (?f i, bit_count (slice (4 * i) 4 p))) [0..<7]"
  have a: "bytes_sum (length ?ws) (sum_list (map fst ?ws)) (sum_list (map snd ?ws))"
  proof (rule bytes_sum_list)
    show "\<forall>x \<in> set ?ws. bytes_sum 1 (fst x) (snd x)"
    proof
      fix x assume "x \<in> set ?ws"
      then obtain i where i: "i < 7" "x = (?f i, bit_count (slice (4 * i) 4 p))" by auto
      then show "bytes_sum 1 (fst x) (snd x)" using load32_ok [of i p be] assms by simp
    qed
  qed simp
  have b: "map fst ?ws = map ?f [0..<7]" by (simp add: comp_def)
  have c: "sum_list (map snd ?ws) = bit_count (take 28 p)"
  proof -
    have "sum_list (map (\<lambda>i. bit_count (slice (4 * i) 4 p)) [0..<n]) = bit_count (take (4 * n) p)" for n
    proof (induction n)
      case (Suc n)
      have "take (4 * Suc n) p = take (4 * n) p @ slice (4 * n) 4 p" by (simp add: slice_def take_add [symmetric] add.commute)
      then show ?case using Suc by (simp add: bit_count_simps(2))
    qed (simp add: bit_count_simps)
    from this [of 7] show ?thesis by (simp add: comp_def)
  qed
  have "length ?ws = 7" by simp
  then have "bytes_sum 7 (sum_list (map ?f [0..<7])) (bit_count (take 28 p))" using a by (simp only: b c)
  then show ?thesis unfolding popcount28_def by (rule bytes_sum_top) simp
qed

lemma popcount_words_ok:
  "popcount_words be p bits = (bits', rest) \<Longrightarrow> bits' + bit_count rest = bits + bit_count p"
proof (induction be p bits rule: popcount_words.induct)
  case (1 be p bits)
  show ?case
  proof (cases "28 \<le> length p")
    case True
    have "bit_count p = bit_count (take 28 p) + bit_count (drop 28 p)" by (simp flip: bit_count_simps(2))
    then show ?thesis using 1 True popcount28_ok [OF True, of be] by (simp add: popcount_words.simps [of be p])
  next
    case False
    then show ?thesis using 1(2) by (simp add: popcount_words.simps [of be p])
  qed
qed

theorem redisPopcount_ok: "redisPopcount be al p = bit_count p"
proof -
  obtain bits rest where w: "popcount_words be (drop (unaligned 4 al) p) (popcount_bytes (take (unaligned 4 al) p)) = (bits, rest)"
    by (metis surj_pair)
  have "bit_count p = bit_count (take (unaligned 4 al) p) + bit_count (drop (unaligned 4 al) p)" by (simp flip: bit_count_simps(2))
  then show ?thesis using popcount_words_ok [OF w] w unfolding redisPopcount_def popcount_bytes_ok Let_def by simp
qed

section \<open>Searching\<close>

text \<open>The place of the first bit \<open>b\<close>, or the number of bits.\<close>

definition first_bit :: "bool \<Rightarrow> bool list \<Rightarrow> nat" where
  "first_bit b bs = length (takeWhile (\<lambda>x. x \<noteq> b) bs)"

lemma first_bit_append: "first_bit b (xs @ ys) = (if b \<in> set xs then first_bit b xs else length xs + first_bit b ys)"
  by (auto simp: first_bit_def takeWhile_append)

lemma first_bit_none: "b \<notin> set xs \<Longrightarrow> first_bit b xs = length xs"
  by (induction xs) (auto simp: first_bit_def)

lemma byte_skip: "b \<notin> set (byte_bits x) \<longleftrightarrow> x = (if b then 0 else 255)"
proof -
  have "b \<notin> set (byte_bits x) \<longleftrightarrow> (\<forall>i < 8. bit x (7 - i) = (\<not> b))" by (auto simp: byte_bits_def)
  also have "\<dots> \<longleftrightarrow> (\<forall>i < 8. bit x i = (\<not> b))"
  proof
    assume a: "\<forall>i < 8. bit x (7 - i) = (\<not> b)"
    show "\<forall>i < 8. bit x i = (\<not> b)"
    proof (intro allI impI)
      fix i :: nat assume "i < 8"
      then show "bit x i = (\<not> b)" using a [rule_format, of "7 - i"] by simp
    qed
  qed auto
  also have "\<dots> \<longleftrightarrow> x = (if b then 0 else - 1)" by (auto simp: bit_eq_iff)
  also have "(- 1 :: u8) = 255" by simp
  finally show ?thesis .
qed

lemma skip_bytes_ok:
  "skip_bytes n (if b then 0 else 255) c pos = (c', pos', found) \<Longrightarrow>
     \<exists>pre. c = pre @ c' \<and> b \<notin> set (bits_of pre) \<and> pos' = pos + 8 * length pre \<and> (found \<longrightarrow> c' \<noteq> [] \<and> b \<in> set (byte_bits (hd c')))"
proof (induction n "if b then 0 else 255 :: u8" c pos rule: skip_bytes.induct)
  case (3 n x c pos)
  show ?case
  proof (cases "x = (if b then 0 else 255)")
    case True
    then obtain pre where "c = pre @ c'" "b \<notin> set (bits_of pre)" "pos' = pos + 8 + 8 * length pre"
        "found \<longrightarrow> c' \<noteq> [] \<and> b \<in> set (byte_bits (hd c'))" using 3 by auto
    then show ?thesis using byte_skip [of b x] True by (intro exI [of _ "x # pre"]) simp
  next
    case False
    then show ?thesis using 3(2) byte_skip [of b x] by auto
  qed
qed auto

lemma nat_of_le_ones: "Suc (nat_of_le (replicate n 255)) = 256 ^ n"
  by (induction n) auto

lemma nat_of_le_zeros: "nat_of_le (replicate n 0) = 0"
  by (induction n) auto

lemma load64_skip:
  assumes "8 \<le> length l"
  shows "load64 be l = (if b then 0 else - 1) \<longleftrightarrow> take 8 l = replicate 8 (if b then 0 else 255)"
proof -
  let ?bs = "if be then rev (take 8 l) else take 8 l" and ?v = "if b then 0 else 2 ^ 64 - 1 :: nat"
  have len: "length ?bs = 8" using assms by simp
  have "nat_of_le ?bs < 2 ^ 64" using nat_of_le_less [of ?bs] len by simp
  then have u: "unat (load64 be l) = nat_of_le ?bs" by (simp add: load64_def host_load_def unat_of_nat)
  have "unat (if b then 0 else - 1 :: 64 word) = ?v" by (simp add: unsigned_minus_1_eq_mask mask_eq_exp_minus_1)
  then have "load64 be l = (if b then 0 else - 1) \<longleftrightarrow> nat_of_le ?bs = ?v" unfolding word_unat_eq_iff u by (simp only:)
  also have "\<dots> \<longleftrightarrow> ?bs = replicate 8 (if b then 0 else 255)"
  proof -
    have v: "nat_of_le (replicate 8 (if b then 0 else 255)) = ?v"
      using nat_of_le_ones [of 8] nat_of_le_zeros [of 8] by (cases b) simp_all
    show ?thesis
    proof
      assume "nat_of_le ?bs = ?v"
      then have "le_of_nat 8 (nat_of_le ?bs) = le_of_nat 8 (nat_of_le (replicate 8 (if b then 0 else 255)))" by (simp only: v)
      then show "?bs = replicate 8 (if b then 0 else 255)" using le_of_nat_of_le [of ?bs] le_of_nat_of_le [of "replicate 8 (if b then 0 else 255)"] len
        by (simp only: length_replicate)
    qed (simp only: v)
  qed
  also have "\<dots> \<longleftrightarrow> take 8 l = replicate 8 (if b then 0 else 255)" by (metis rev_replicate rev_rev_ident)
  finally show ?thesis .
qed

lemma skip_replicate: "b \<notin> set (bits_of (replicate n (if b then 0 else 255)))"
  by (induction n) (auto simp: byte_skip)

lemma skip_words_ok:
  "skip_words be sv l pos = (l', pos') \<Longrightarrow> sv = (if b then 0 else - 1) \<Longrightarrow>
     \<exists>pre. l = pre @ l' \<and> b \<notin> set (bits_of pre) \<and> pos' = pos + 8 * length pre \<and> (8 \<le> length l' \<longrightarrow> b \<in> set (bits_of (take 8 l')))"
proof (induction be sv l pos rule: skip_words.induct)
  case (1 be sv l pos)
  show ?case
  proof (cases "8 \<le> length l \<and> load64 be l = sv")
    case True
    then have t: "take 8 l = replicate 8 (if b then 0 else 255)" using load64_skip [of l be b] 1(3) by simp
    obtain pre where p: "drop 8 l = pre @ l'" "b \<notin> set (bits_of pre)" "pos' = pos + 64 + 8 * length pre" "8 \<le> length l' \<longrightarrow> b \<in> set (bits_of (take 8 l'))"
    proof -
      have "skip_words be sv (drop 8 l) (pos + 64) = (l', pos')" using 1(2) True by (subst (asm) skip_words.simps) simp
      from 1(1) [OF True this 1(3)] show ?thesis using that by blast
    qed
    have "l = (take 8 l @ pre) @ l'" using p(1) append_take_drop_id [of 8 l] by simp
    moreover have "b \<notin> set (bits_of (take 8 l @ pre))" unfolding t using skip_replicate [of b 8] p(2) by simp
    moreover have "pos' = pos + 8 * length (take 8 l @ pre)" using p(3) True by simp
    ultimately show ?thesis using p(4) by blast
  next
    case False
    have "b \<in> set (bits_of (take 8 l))" if "8 \<le> length l"
    proof (rule ccontr)
      assume n: "b \<notin> set (bits_of (take 8 l))"
      have "y = (if b then 0 else 255)" if "y \<in> set (take 8 l)" for y
      proof -
        have "b \<notin> set (byte_bits y)" using n that by (auto simp: bits_of_def)
        then show ?thesis by (simp add: byte_skip)
      qed
      then have "take 8 l = replicate 8 (if b then 0 else 255)" using that by (intro replicate_eqI) auto
      then show False using load64_skip [OF that, of be b] False 1(3) that by simp
    qed
    then show ?thesis using 1(2) False by (intro exI [of _ "[]"]) (simp add: skip_words.simps [of be sv l])
  qed
qed

lemma load_word_bit:
  "j \<le> 8 \<Longrightarrow> n < 64 \<Longrightarrow> bit (load_word j c w) n =
     (if n < 8 * j then j - 1 - n div 8 < length c \<and> bit (c ! (j - 1 - n div 8)) (n mod 8) else bit w (n - 8 * j))"
proof (induction j c w arbitrary: n rule: load_word.induct)
  case (2 j w)
  then show ?case by (auto simp: bit_push_bit_iff add.commute)
next
  case (3 j b c w)
  consider (low) "n < 8 * j" | (here) "8 * j \<le> n" "n < 8 * j + 8" | (high) "8 * j + 8 \<le> n" by linarith
  then show ?case
  proof cases
    case low
    then have "n div 8 < j" by linarith
    then have "j - n div 8 = Suc (j - 1 - n div 8)" by linarith
    then show ?thesis using 3 low by simp
  next
    case here
    then have d: "n div 8 = j" by (intro div_nat_eqI) auto
    then have "n mod 8 = n - 8 * j" using minus_div_mult_eq_mod [of n 8] by (simp add: mult.commute)
    moreover have "\<not> 8 \<le> n - 8 * j" "n - 8 * j < 64" using here by linarith+
    ultimately show ?thesis using 3 here d by (simp add: bit_or_iff bit_push_bit_iff bit_unsigned_iff)
  next
    case high
    then have "\<not> bit b (n - 8 * j)" by (intro notI) (auto dest: bit_imp_le_length)
    then show ?thesis using 3 high by (auto simp: bit_or_iff bit_push_bit_iff bit_unsigned_iff add.commute)
  qed
qed simp

lemma scan_word_ok:
  "m \<le> 64 \<Longrightarrow> scan_word (Suc m) (if m = 0 then 0 else push_bit (m - 1) 1) W b pos =
     (let bs = map (\<lambda>i. bit W (m - 1 - i)) [0..<m] in if b \<in> set bs then Some (pos + int (first_bit b bs)) else None)"
proof (induction m arbitrary: pos)
  case (Suc m)
  have one: "push_bit m (1 :: 64 word) \<noteq> 0" using Suc.prems by (simp add: push_bit_eq_mult)
  have t: "(push_bit m 1 AND W \<noteq> 0) = bit W m"
  proof -
    have "push_bit m 1 AND W = (if bit W m then push_bit m 1 else 0)"
      by (rule bit_word_eqI) (auto simp: bit_and_iff bit_push_bit_iff bit_exp_iff)
    then show ?thesis using one by simp
  qed
  have d: "drop_bit 1 (push_bit m (1 :: 64 word)) = (if m = 0 then 0 else push_bit (m - 1) 1)"
    by (cases m; rule bit_word_eqI; use Suc.prems in \<open>auto simp: bit_drop_bit_eq bit_push_bit_iff bit_exp_iff simp del: power_Suc\<close>)
  have bs: "map (\<lambda>i. bit W (Suc m - 1 - i)) [0..<Suc m] = bit W m # map (\<lambda>i. bit W (m - 1 - i)) [0..<m]"
    by (subst upt_conv_Cons) (simp_all add: map_Suc_upt [symmetric] comp_def del: upt_Suc)
  have "scan_word (Suc (Suc m)) (push_bit m 1) W b pos = (if bit W m = b then Some pos else scan_word (Suc m) (if m = 0 then 0 else push_bit (m - 1) 1) W b (pos + 1))"
    using one t d by simp
  also have "\<dots> = (let bs = map (\<lambda>i. bit W (Suc m - 1 - i)) [0..<Suc m] in if b \<in> set bs then Some (pos + int (first_bit b bs)) else None)"
  proof -
    have "m \<le> 64" using Suc.prems by simp
    from Suc.IH [OF this, of "pos + 1"] show ?thesis
      unfolding bs Let_def by (cases "bit W m = b") (simp_all add: first_bit_def del: scan_word.simps)
  qed
  finally show ?case by simp
qed simp

text \<open>The last word holds the rest of the string, padded with zeros.\<close>

lemma load_word_bits: "map (\<lambda>i. bit (load_word 8 l 0) (63 - i)) [0..<64] = take 64 (bits_of l @ replicate 64 False)"
proof (rule nth_equalityI)
  fix i assume "i < length (map (\<lambda>i. bit (load_word 8 l 0) (63 - i)) [0..<64])"
  then have i: "i < 64" by simp
  define k r where "k = 7 - i div 8" and "r = 7 - i mod 8"
  have "i div 8 \<le> 7" "i mod 8 \<le> 7" "i = i div 8 * 8 + i mod 8" using i by simp_all
  then have "63 - i = k * 8 + r" "r < 8" unfolding k_def r_def by linarith+
  then have d: "(63 - i) div 8 = 7 - i div 8" "(63 - i) mod 8 = 7 - i mod 8" unfolding k_def [symmetric] r_def [symmetric] by simp_all
  have "7 - (7 - i div 8) = i div 8" "63 - i < 64" using i by simp_all
  then have "bit (load_word 8 l 0) (63 - i) = (i div 8 < length l \<and> bit_at l i)"
    using load_word_bit [of 8 "63 - i" l 0] d by (simp add: bit_at_def)
  also have "\<dots> = (i < 8 * length l \<and> bit_at l i)" by auto
  finally show "map (\<lambda>i. bit (load_word 8 l 0) (63 - i)) [0..<64] ! i = take 64 (bits_of l @ replicate 64 False) ! i"
    using i by (simp add: nth_append nth_bits_of)
qed simp

lemma load_word_zero: "load_word 8 l 0 = 0 \<longleftrightarrow> True \<notin> set (take 64 (bits_of l @ replicate 64 False))"
proof -
  have "load_word 8 l 0 = 0 \<longleftrightarrow> (\<forall>n < 64. \<not> bit (load_word 8 l 0) n)" by (auto simp: bit_eq_iff)
  also have "\<dots> \<longleftrightarrow> (\<forall>i < 64. \<not> bit (load_word 8 l 0) (63 - i))"
  proof
    assume a: "\<forall>i < 64. \<not> bit (load_word 8 l 0) (63 - i)"
    show "\<forall>n < 64. \<not> bit (load_word 8 l 0) n"
    proof (intro allI impI)
      fix n :: nat assume "n < 64"
      then show "\<not> bit (load_word 8 l 0) n" using a [rule_format, of "63 - n"] by simp
    qed
  qed simp
  also have "\<dots> \<longleftrightarrow> True \<notin> set (map (\<lambda>i. bit (load_word 8 l 0) (63 - i)) [0..<64])" by auto
  finally show ?thesis unfolding load_word_bits .
qed

theorem redisBitpos_ok:
  "redisBitpos be al s b = Some (if b \<and> True \<notin> set (bits_of s) then - 1 else int (first_bit b (bits_of s)))"
proof -
  obtain c pos found where c: "skip_bytes (unaligned 8 al) (if b then 0 else 255) s 0 = (c, pos, found)" by (metis surj_pair)
  obtain pre where pre: "s = pre @ c" "b \<notin> set (bits_of pre)" "pos = 8 * length pre" "found \<longrightarrow> c \<noteq> [] \<and> b \<in> set (byte_bits (hd c))"
    using skip_bytes_ok [OF c] by auto
  obtain l pos' where l: "(if \<not> found then skip_words be (if b then 0 else - 1) c pos else (c, pos)) = (l, pos')" by (metis surj_pair)
  obtain pre' where pre': "s = pre' @ l" "b \<notin> set (bits_of pre')" "pos' = 8 * length pre'" "8 \<le> length l \<longrightarrow> b \<in> set (bits_of (take 8 l))"
  proof (cases found)
    case True
    then have "b \<in> set (bits_of (take 8 c))" using pre(4) by (cases c) auto
    then show ?thesis using that [of pre] pre l True by simp
  next
    case False
    then obtain q where "c = q @ l" "b \<notin> set (bits_of q)" "pos' = pos + 8 * length q" "8 \<le> length l \<longrightarrow> b \<in> set (bits_of (take 8 l))"
      using skip_words_ok [OF _ refl, of be b c pos l pos'] l by auto
    then show ?thesis using that [of "pre @ q"] pre by simp
  qed
  let ?W = "load_word 8 l 0" and ?bs = "take 64 (bits_of l @ replicate 64 False)"
  have "NOT (drop_bit 1 (- 1)) = (push_bit 63 1 :: 64 word)"
    by (simp add: mask_eq_exp_minus_1)
  then have sc: "scan_word 65 (NOT (drop_bit 1 (- 1))) ?W b (int pos') = (if b \<in> set ?bs then Some (int pos' + int (first_bit b ?bs)) else None)"
    using scan_word_ok [of 64 ?W b "int pos'"] load_word_bits [of l] by (simp add: Let_def)
  have res: "redisBitpos be al s b = (if b \<and> True \<notin> set ?bs then Some (- 1) else if b \<in> set ?bs then Some (int pos' + int (first_bit b ?bs)) else None)"
    unfolding redisBitpos_def c Let_def prod.case l sc load_word_zero by (rule refl)
  have fb: "first_bit b (bits_of s) = pos' + first_bit b (bits_of l)" "b \<in> set (bits_of s) \<longleftrightarrow> b \<in> set (bits_of l)"
    using pre' by (simp_all add: first_bit_append)
  show ?thesis
  proof (cases "8 \<le> length l")
    case True
    have t: "bits_of l = bits_of (take 8 l) @ bits_of (drop 8 l)" using bits_of_simps(3) [of "take 8 l" "drop 8 l"] by simp
    have "length (bits_of (take 8 l)) = 64" using True by simp
    then have "take 64 ((bits_of (take 8 l) @ bits_of (drop 8 l)) @ replicate 64 False) = bits_of (take 8 l)" by simp
    then have bs: "?bs = bits_of (take 8 l)" unfolding t [symmetric] .
    have m: "b \<in> set (bits_of (take 8 l))" using pre'(4) True by simp
    then have "first_bit b (bits_of l) = first_bit b (bits_of (take 8 l))" "b \<in> set (bits_of l)" unfolding t by (simp_all add: first_bit_append)
    then show ?thesis unfolding res fb(1) bs using m fb(2) by (cases b) auto
  next
    case False
    have bs: "?bs = bits_of l @ replicate (64 - 8 * length l) False" using False by simp
    show ?thesis
    proof (cases b)
      case True
      then show ?thesis unfolding res bs using fb by (auto simp: first_bit_append)
    next
      case F: False
      have "first_bit False (replicate n False) = 0" for n by (cases n) (simp_all add: first_bit_def)
      then have "first_bit False (bits_of l @ replicate (64 - 8 * length l) False) = first_bit False (bits_of l)"
        by (simp add: first_bit_append first_bit_none del: length_bits_of)
      then show ?thesis unfolding res bs using fb F False by simp
    qed
  qed
qed

end
