(* ===== verification/Bitfield_Props.thy ===== *)
theory Bitfield_Props
  imports Bit_Commands Bitops_Props
begin

text \<open>
  Integers at bit offsets, against the integers the bits stand for, and \<open>BITFIELD\<close> against a specification on
  infinite sequences of bits.
\<close>

section \<open>Writing and reading bits\<close>

lemma unat_offset: "unat (drop_bit 3 (offset :: 64 word)) = unat offset div 8" "unat (offset AND 7) = unat offset mod 8"
proof -
  have "offset AND 7 = take_bit 3 offset" by (simp add: take_bit_eq_mask mask_eq_exp_minus_1)
  then have "unat (offset AND 7) = take_bit 3 (unat offset)" by (simp only: unsigned_take_bit_eq)
  then show "unat (offset AND 7) = unat offset mod 8" by (simp add: take_bit_eq_mod)
qed (simp add: unat_shift)

lemma unat_next:
  assumes "unat (offset :: 64 word) < n" "n < 2 ^ 64"
  shows "unat (offset + 1) = unat offset + 1"
  using assms by (simp add: unat_word_ariths)

lemma and_255: "(w :: 64 word) AND 255 = take_bit 8 w"
  by (simp add: take_bit_eq_mask mask_eq_exp_minus_1)

lemma bit_put:
  fixes x :: u8
  assumes "i < 8" "j < 8"
  shows "bit (ucast (((ucast x :: 64 word) AND NOT (push_bit i 1) OR push_bit i (of_bool b)) AND 255) :: u8) j = (if j = i then b else bit x j)"
  unfolding and_255 using assms
  by (auto simp: bit_unsigned_iff bit_take_bit_iff bit_or_iff bit_and_iff bit_not_iff bit_push_bit_iff bit_exp_iff bit_1_iff)

definition bit0 :: "bytes \<Rightarrow> nat \<Rightarrow> bool" where
  "bit0 p n \<longleftrightarrow> n < 8 * length p \<and> bit_at p n"

lemma put_bit_at:
  assumes "m < 8 * length p" "x = ucast (((ucast (p ! (m div 8)) :: 64 word) AND NOT (push_bit (7 - m mod 8) 1) OR push_bit (7 - m mod 8) (of_bool b)) AND 255)"
  shows "bit0 (p[m div 8 := x]) = (bit0 p)(m := b)"
proof
  fix n
  have m: "m div 8 < length p" using assms(1) by simp
  have neq: "7 - n mod 8 = 7 - m mod 8 \<longleftrightarrow> n mod 8 = m mod 8"
    using mod_less_divisor [of 8 n] mod_less_divisor [of 8 m] by linarith
  have eq: "n = m \<longleftrightarrow> n div 8 = m div 8 \<and> n mod 8 = m mod 8" by (metis mult_div_mod_eq)
  show "bit0 (p[m div 8 := x]) n = ((bit0 p)(m := b)) n"
  proof (cases "n div 8 = m div 8")
    case True
    have "bit x (7 - n mod 8) = (if n mod 8 = m mod 8 then b else bit (p ! (m div 8)) (7 - n mod 8))"
      unfolding assms(2) using bit_put [of "7 - m mod 8" "7 - n mod 8" "p ! (m div 8)" b] neq by auto
    then show ?thesis using True m eq assms(1) by (auto simp: bit0_def bit_at_def)
  next
    case False
    then show ?thesis by (auto simp: bit0_def bit_at_def)
  qed
qed

text \<open>\<open>k\<close> bits from \<open>off\<close> on, the highest first, replaced by those of \<open>v\<close>; and the number they hold.\<close>

definition write_bits :: "(nat \<Rightarrow> bool) \<Rightarrow> nat \<Rightarrow> nat \<Rightarrow> int \<Rightarrow> nat \<Rightarrow> bool" where
  "write_bits f off k v = (\<lambda>n. if off \<le> n \<and> n < off + k then bit v (off + k - 1 - n) else f n)"

definition read_bits :: "(nat \<Rightarrow> bool) \<Rightarrow> nat \<Rightarrow> nat \<Rightarrow> int" where
  "read_bits f off k = horner_sum of_bool 2 (map (\<lambda>j. f (off + k - 1 - j)) [0..<k])"

lemma bit_read: "bit (read_bits f off k) j \<longleftrightarrow> j < k \<and> f (off + k - 1 - j)"
  by (auto simp: read_bits_def bit_horner_sum_bit_iff)

lemma read_range: "0 \<le> read_bits f off k" "read_bits f off k < 2 ^ k"
proof -
  show "read_bits f off k < 2 ^ k" using horner_sum_bound [of "map (\<lambda>j. f (off + k - 1 - j)) [0..<k]", where 'a = int] by (simp add: read_bits_def)
  have "0 \<le> horner_sum of_bool (2 :: int) bs" for bs by (induction bs) simp_all
  then show "0 \<le> read_bits f off k" by (simp add: read_bits_def)
qed

lemma read_write: "read_bits (write_bits f off k v) off k = take_bit k v"
  by (rule bit_eqI) (auto simp: bit_read write_bits_def bit_take_bit_iff)

lemma set_loop_ok:
  "unat offset + k \<le> 8 * length p \<Longrightarrow> 8 * length p < 2 ^ 64 \<Longrightarrow> k \<le> 64 \<Longrightarrow>
     \<exists>p'. set_bitfield_loop p offset value k = Some p' \<and> length p' = length p \<and> bit0 p' = write_bits (bit0 p) (unat offset) k (uint value)"
proof (induction k arbitrary: p offset)
  case 0
  then show ?case by (auto simp: write_bits_def)
next
  case (Suc k)
  have m: "unat offset < 8 * length p" "unat offset div 8 < length p" using Suc.prems(1) by simp_all
  let ?p = "p[unat offset div 8 := ucast (((ucast (p ! (unat offset div 8)) :: 64 word) AND NOT (push_bit (7 - unat offset mod 8) 1)
     OR push_bit (7 - unat offset mod 8) (of_bool (value AND push_bit k 1 \<noteq> 0))) AND 255)]"
  have v: "(value AND push_bit k 1 \<noteq> 0) = bit value k"
  proof -
    have "value AND push_bit k 1 = (if bit value k then push_bit k 1 else 0)"
      by (rule bit_word_eqI) (auto simp: bit_and_iff bit_push_bit_iff bit_exp_iff)
    moreover have "push_bit k (1 :: 64 word) \<noteq> 0" using Suc.prems(3) by (simp add: push_bit_eq_mult)
    ultimately show ?thesis by simp
  qed
  have off: "unat (offset + 1) = unat offset + 1" using unat_next [OF m(1) Suc.prems(2)] .
  have k: "k < 64" using Suc.prems(3) by simp
  obtain p' where p': "set_bitfield_loop ?p (offset + 1) value k = Some p'" "length p' = length ?p"
      "bit0 p' = write_bits (bit0 ?p) (unat (offset + 1)) k (uint value)"
    using Suc.IH [of "offset + 1" ?p] Suc.prems off by auto
  have "write_bits ((bit0 p)(unat offset := bit value k)) (unat offset + 1) k (uint value) = write_bits (bit0 p) (unat offset) (Suc k) (uint value)"
    using k by (intro ext) (auto simp: write_bits_def bit_uint_iff)
  then have "bit0 p' = write_bits (bit0 p) (unat offset) (Suc k) (uint value)"
    unfolding p'(3) off put_bit_at [OF m(1) refl] v .
  moreover have "set_bitfield_loop p offset value (Suc k) = Some p'" using p'(1) m(2) by (simp add: Let_def unat_offset)
  ultimately show ?case using p'(2) by simp
qed

lemma bit_low: "bit (push_bit 1 v OR (w AND 1)) 0 \<longleftrightarrow> bit (w :: 64 word) 0"
  by (simp only: bit_or_iff bit_and_iff bit_push_bit_iff bit_1_iff) simp

lemma get_loop_ok:
  "unat offset + k \<le> 8 * length p \<Longrightarrow> 8 * length p < 2 ^ 64 \<Longrightarrow>
     \<exists>w. get_bitfield_loop p offset k v0 = Some w \<and> (\<forall>j < 64. bit w j = (if j < k then bit0 p (unat offset + k - 1 - j) else bit v0 (j - k)))"
proof (induction k arbitrary: offset v0)
  case (Suc k)
  have m: "unat offset < 8 * length p" "unat offset div 8 < length p" using Suc.prems(1) by simp_all
  have off: "unat (offset + 1) = unat offset + 1" using unat_next [OF m(1) Suc.prems(2)] .
  let ?v = "push_bit 1 v0 OR (drop_bit (7 - unat offset mod 8) (ucast (p ! (unat offset div 8)) :: 64 word) AND 1)"
  obtain w where w: "get_bitfield_loop p (offset + 1) k ?v = Some w"
      "\<forall>j < 64. bit w j = (if j < k then bit0 p (unat (offset + 1) + k - 1 - j) else bit ?v (j - k))"
    using Suc.IH [of "offset + 1" ?v] Suc.prems off by auto
  have "bit w j = (if j < Suc k then bit0 p (unat offset + Suc k - 1 - j) else bit v0 (j - Suc k))" if j: "j < 64" for j
  proof -
    consider "j < k" | "j = k" | "k < j" by linarith
    then show ?thesis
    proof cases
      case 1
      then show ?thesis using w(2) j off by simp
    next
      case 2
      then have "bit w j = bit ?v 0" using w(2) j by simp
      also have "\<dots> = bit (p ! (unat offset div 8)) (7 - unat offset mod 8)"
        unfolding bit_low using le_less_trans [OF diff_le_self, of 7 64 "unat offset mod 8"]
        by (simp add: bit_drop_bit_eq bit_unsigned_iff)
      finally show ?thesis using 2 m by (simp add: bit0_def bit_at_def)
    next
      case 3
      then have "bit w j = bit ?v (j - k)" using w(2) j by simp
      also have "\<dots> = bit v0 (j - Suc k)"
        using 3 j by (simp only: bit_or_iff bit_push_bit_iff bit_and_iff bit_1_iff) auto
      finally show ?thesis using 3 by simp
    qed
  qed
  moreover have "get_bitfield_loop p offset (Suc k) v0 = Some w" using w(1) m(2) by (simp add: Let_def unat_offset)
  ultimately show ?case by blast
qed simp


lemma get_unsigned_ok:
  assumes "unat offset + k \<le> 8 * length p" "8 * length p < 2 ^ 64" "k \<le> 64"
  shows "getUnsignedBitfield p offset k = Some (word_of_int (read_bits (bit0 p) (unat offset) k))"
proof -
  obtain w where w: "get_bitfield_loop p offset k 0 = Some w"
      "\<forall>j < 64. bit w j = (if j < k then bit0 p (unat offset + k - 1 - j) else bit (0 :: 64 word) (j - k))"
    using get_loop_ok [OF assms(1,2), of 0] by blast
  have "w = word_of_int (read_bits (bit0 p) (unat offset) k)"
    using w(2) by (intro bit_word_eqI) (auto simp: bit_word_of_int_iff bit_read)
  then show ?thesis using w(1) by (simp add: getUnsignedBitfield_def)
qed

text \<open>The value of a field, with or without a sign.\<close>

definition field :: "bool \<Rightarrow> (nat \<Rightarrow> bool) \<Rightarrow> nat \<Rightarrow> nat \<Rightarrow> int" where
  "field sign f off k = (if sign then signed_take_bit (k - 1) (read_bits f off k) else read_bits f off k)"

lemma sint_small: "- (2 ^ 63) \<le> i \<Longrightarrow> i < 2 ^ 63 \<Longrightarrow> sint (word_of_int i :: 64 word) = i"
  by (simp add: sint_sbintrunc' signed_take_bit_int_eq_self)

lemma bit_sint: "bit (sint (w :: 64 word)) j \<longleftrightarrow> bit w (min j 63)"
proof (cases "j \<le> 63")
  case False
  then show ?thesis using bit_imp_le_length [of w j] by (auto simp: bit_sint_iff min_def)
qed (simp add: bit_sint_iff min_def)

lemma signed_bits:
  fixes w v :: "64 word"
  assumes "1 \<le> k" "k \<le> 64" "\<forall>j < 64. bit v j \<longleftrightarrow> bit w (if j < k then j else k - 1)"
  shows "sint v = signed_take_bit (k - 1) (uint w)"
proof (rule bit_eqI)
  fix j
  have "(if min j 63 < k then min j 63 else k - 1) = min j (k - 1)" using assms(1,2) by (auto simp: min_def)
  moreover have "bit v (min j 63) \<longleftrightarrow> bit w (if min j 63 < k then min j 63 else k - 1)" using assms(3) by simp
  ultimately have "bit (sint v) j \<longleftrightarrow> bit w (min j (k - 1))" by (simp only: bit_sint)
  also have "\<dots> \<longleftrightarrow> bit (signed_take_bit (k - 1) (uint w)) j"
    using assms(1,2) by (auto simp: bit_signed_take_bit_iff bit_uint_iff min.commute)
  finally show "bit (sint v) j \<longleftrightarrow> bit (signed_take_bit (k - 1) (uint w)) j" .
qed

lemma bit_high: "k < 64 \<Longrightarrow> (w :: 64 word) AND push_bit k 1 \<noteq> 0 \<longleftrightarrow> bit w k"
proof -
  assume k: "k < 64"
  have "w AND push_bit k 1 = (if bit w k then push_bit k 1 else 0)"
    by (rule bit_word_eqI) (auto simp: bit_and_iff bit_push_bit_iff bit_exp_iff)
  moreover have "push_bit k (1 :: 64 word) \<noteq> 0" using k by (simp add: push_bit_eq_mult)
  ultimately show ?thesis by simp
qed

lemma get_signed_ok:
  assumes "unat offset + k \<le> 8 * length p" "8 * length p < 2 ^ 64" "1 \<le> k" "k \<le> 64"
  shows "\<exists>v. getSignedBitfield p offset k = Some v \<and> sint v = field True (bit0 p) (unat offset) k"
proof -
  let ?r = "read_bits (bit0 p) (unat offset) k"
  let ?w = "word_of_int ?r :: 64 word"
  let ?v = "if k < 64 \<and> ?w AND push_bit (k - 1) 1 \<noteq> 0 then ?w OR push_bit k (-1) else ?w"
  have r: "uint ?w = ?r"
    using read_range [of "bit0 p" "unat offset" k] power_increasing [OF assms(4), of "2 :: int"] by (simp add: unsigned_of_int take_bit_int_eq_self)
  have top: "bit ?w j \<longleftrightarrow> j < 64 \<and> bit ?r j" for j by (simp add: bit_word_of_int_iff)
  have "bit ?v j \<longleftrightarrow> bit ?w (if j < k then j else k - 1)" if "j < 64" for j
    using that assms(3,4) bit_high [of "k - 1" ?w] by (auto simp: top bit_read bit_or_iff bit_push_bit_iff bit_not_iff bit_mask_iff)
  then have "sint ?v = signed_take_bit (k - 1) (uint ?w)" using signed_bits [OF assms(3,4)] by blast
  then show ?thesis using r get_unsigned_ok [OF assms(1,2,4)] by (simp add: getSignedBitfield_def field_def)
qed

section \<open>Overflow\<close>

definition field_min :: "bool \<Rightarrow> nat \<Rightarrow> int" where
  "field_min sign k = (if sign then - (2 ^ (k - 1)) else 0)"

definition field_max :: "bool \<Rightarrow> nat \<Rightarrow> int" where
  "field_max sign k = (if sign then 2 ^ (k - 1) - 1 else 2 ^ k - 1)"

text \<open>What an overflow policy makes of an integer that is to be stored in a field.\<close>

definition fit :: "owtype \<Rightarrow> bool \<Rightarrow> nat \<Rightarrow> int \<Rightarrow> int option" where
  "fit ow sign k s =
     (if field_min sign k \<le> s \<and> s \<le> field_max sign k then Some s
      else case ow of
        BFOVERFLOW_WRAP \<Rightarrow> Some (if sign then signed_take_bit (k - 1) s else take_bit k s)
      | BFOVERFLOW_SAT \<Rightarrow> Some (if s < field_min sign k then field_min sign k else field_max sign k)
      | BFOVERFLOW_FAIL \<Rightarrow> None)"

text \<open>The value the caller stores, unless the operation fails.\<close>

definition stored :: "(int \<times> (64 word) option) \<Rightarrow> owtype \<Rightarrow> 64 word \<Rightarrow> (64 word) option" where
  "stored r ow plain = (if fst r = 0 then Some plain else if ow = BFOVERFLOW_FAIL then None else snd r)"


lemma two_powers: "k \<le> 63 \<Longrightarrow> (1 :: int) \<le> 2 ^ k \<and> (2 :: int) ^ k \<le> 2 ^ 63"
  using power_increasing [of k 63 "2 :: int"] by simp

lemma max_words:
  "k < 64 \<Longrightarrow> push_bit k 1 - 1 = (word_of_int (2 ^ k - 1) :: 64 word)"
  by (simp add: push_bit_eq_mult)

lemma sub_words: "(word_of_int a - word_of_int b :: 64 word) = word_of_int (a - b)" by simp

lemma uint_small: "0 \<le> i \<Longrightarrow> i < 2 ^ 64 \<Longrightarrow> uint (word_of_int i :: 64 word) = i"
  by (simp add: unsigned_of_int take_bit_int_eq_self)

lemma uint_wrap: "k \<le> 64 \<Longrightarrow> uint ((word_of_int a + word_of_int b :: 64 word) AND NOT (push_bit k (-1))) = take_bit k (a + b)"
  by (rule bit_eqI)
    (auto simp: bit_uint_iff bit_and_iff bit_not_iff bit_push_bit_iff bit_take_bit_iff bit_word_of_int_iff bit_mask_iff
      simp flip: of_int_add)

lemma sint_wrap_signed:
  assumes "1 \<le> k" "k \<le> 64"
  shows "sint (wrap_signed (word_of_int a) (word_of_int b) k) = signed_take_bit (k - 1) (a + b)"
proof -
  let ?c = "word_of_int (a + b) :: 64 word"
  let ?v = "wrap_signed (word_of_int a) (word_of_int b) k"
  have "bit ?v j \<longleftrightarrow> bit ?c (if j < k then j else k - 1)" if "j < 64" for j
    using that assms bit_high [of "k - 1" ?c]
    by (auto simp: wrap_signed_def Let_def bit_or_iff bit_and_iff bit_push_bit_iff bit_not_iff bit_mask_iff)
  then have "sint ?v = signed_take_bit (k - 1) (uint ?c)" using signed_bits [OF assms] by blast
  also have "\<dots> = signed_take_bit (k - 1) (a + b)"
    using assms by (intro bit_eqI) (auto simp: bit_signed_take_bit_iff bit_uint_iff bit_word_of_int_iff simp del: of_int_add)
  finally show ?thesis .
qed

text \<open>An increment is added to a value of the field; an argument to store may be any 64-bit integer, but not one that
  saturates at the wrong end.\<close>

lemma unsigned_overflow:
  assumes "1 \<le> k" "k \<le> 63" "0 \<le> a" "a \<le> field_max False k \<or> b = 0 \<and> a < 2 ^ 64" "- (2 ^ 63) \<le> b" "b < 2 ^ 63"
  shows "map_option uint (stored (checkUnsignedBitfieldOverflow (word_of_int a) (word_of_int b) k ow) ow (word_of_int (a + b)))
           = fit ow False k (a + b)"
proof -
  let ?M = "2 ^ k - 1 :: int"
  have M: "0 \<le> ?M" "?M < 2 ^ 63" using two_powers [OF assms(2)] by simp_all
  have a: "a < 2 ^ 64" using assms(4) M by (auto simp: field_max_def)
  have uM: "uint (word_of_int ?M :: 64 word) = ?M" using M by (intro uint_small) simp_all
  have mw: "push_bit k 1 - 1 = (word_of_int ?M :: 64 word)" using assms(2) by (intro max_words) simp
  have gt: "(word_of_int a > (word_of_int ?M :: 64 word)) = (a > ?M)"
    using uint_small [OF assms(3) a] uM by (simp only: word_less_alt)
  have incr: "sint (word_of_int b :: 64 word) = b" using sint_small assms(5,6) by blast
  have wrap: "uint ((word_of_int a + word_of_int b :: 64 word) AND NOT (push_bit k (-1))) = take_bit k (a + b)"
    using uint_wrap assms(2) by simp
  have k: "(k = 64) = False" using assms(2) by simp
  note def = checkUnsignedBitfieldOverflow_def stored_def fit_def field_min_def field_max_def
  show ?thesis
  proof (cases "a > ?M")
    case True
    then have "b = 0" using assms(4) by (simp add: field_max_def)
    then show ?thesis using True wrap uM M assms(3) unfolding def Let_def mw k if_False gt
      by (cases ow) (simp_all del: push_bit_minus_one_eq_not_mask)
  next
    case False
    have "sint (word_of_int ?M - word_of_int a :: 64 word) = ?M - a" "sint (- word_of_int a :: 64 word) = - a"
      using False M assms(3) sint_small [of "?M - a"] sint_small [of "- a"] by simp_all
    then show ?thesis using False wrap uM assms(3) uint_small [of "a + b"] M unfolding def Let_def mw k if_False gt incr
      by (cases ow) (auto simp del: push_bit_minus_one_eq_not_mask)
  qed
qed


lemma signed_overflow:
  assumes "1 \<le> k" "k \<le> 64" "- (2 ^ 63) \<le> a" "a < 2 ^ 63" "- (2 ^ 63) \<le> b" "b < 2 ^ 63"
    and "field_min True k \<le> a \<and> a \<le> field_max True k \<or> b = 0 \<and> (ow = BFOVERFLOW_SAT \<longrightarrow> field_max True k - a < 2 ^ 63)"
  shows "map_option sint (stored (checkSignedBitfieldOverflow (word_of_int a) (word_of_int b) k ow) ow (word_of_int (a + b)))
           = fit ow True k (a + b)"
proof -
  let ?M = "2 ^ (k - 1) - 1 :: int"
  have M: "0 \<le> ?M" "?M < 2 ^ 63" using two_powers [of "k - 1"] assms(2) by (simp_all add: le_diff_conv)
  have M63: "?M < 2 ^ 62" if "k \<noteq> 64" using power_increasing [of "k - 1" 62 "2 :: int"] that assms(2) by (simp add: le_diff_conv)
  have mw: "(if k = 64 then 0x7FFFFFFFFFFFFFFF else push_bit (k - 1) 1 - 1) = (word_of_int ?M :: 64 word)"
    using max_words [of "k - 1"] assms(2) by auto
  have nw: "- word_of_int ?M - 1 = (word_of_int (- ?M - 1) :: 64 word)" by simp
  have sM: "sint (word_of_int ?M :: 64 word) = ?M" "sint (word_of_int (- ?M - 1) :: 64 word) = - ?M - 1"
    using M by (simp_all only: sint_small)
  have sab: "sint (word_of_int a :: 64 word) = a" "sint (word_of_int b :: 64 word) = b" using sint_small assms(3-6) by blast+
  have wrap: "sint (wrap_signed (word_of_int a) (word_of_int b) k) = signed_take_bit (k - 1) (a + b)"
    using sint_wrap_signed [OF assms(1,2)] .
  have fmin: "field_min True k = - ?M - 1" and fmax: "field_max True k = ?M" by (simp_all add: field_min_def field_max_def)
  note def = checkSignedBitfieldOverflow_def stored_def fit_def fmin fmax
  consider "a > ?M" | "a < - ?M - 1" "ow \<noteq> BFOVERFLOW_SAT" | "a < - ?M - 1" "?M - a < 2 ^ 63" | "- ?M - 1 \<le> a" "a \<le> ?M"
    using assms(7) unfolding fmin fmax by linarith
  then show ?thesis
  proof cases
    case 1
    then have "b = 0" using assms(7) unfolding fmax by linarith
    moreover have "\<not> a < - ?M - 1" using 1 M by linarith
    ultimately show ?thesis using 1 wrap sM M unfolding def Let_def mw nw sab
      by (cases ow) auto
  next
    case 2
    then have "b = 0" using assms(7) unfolding fmin by linarith
    then show ?thesis using 2 wrap sM M unfolding def Let_def mw nw sab
      by (cases ow) auto
  next
    case 3
    then have "b = 0" using assms(7) unfolding fmin by linarith
    moreover have "\<not> ?M < a" using 3 M by linarith
    moreover have "sint (word_of_int ?M - word_of_int a :: 64 word) = ?M - a"
      unfolding sub_words using 3 M by (intro sint_small) linarith+
    ultimately show ?thesis using 3 wrap sM M unfolding def Let_def mw nw sab
      by (cases ow) auto
  next
    case 4
    let ?X = "sint (word_of_int ?M - word_of_int a :: 64 word)" and ?Y = "sint (word_of_int (- ?M - 1) - word_of_int a :: 64 word)"
    have X: "?X = ?M - a" if "k \<noteq> 64 \<or> a \<ge> 0"
      unfolding sub_words using 4 M M63 that by (intro sint_small) (cases "k = 64"; auto)+
    have Y: "?Y = - ?M - 1 - a" if "k \<noteq> 64 \<or> a < 0"
      unfolding sub_words using 4 M M63 that by (intro sint_small) (cases "k = 64"; auto)+
    have k64: "?M = 2 ^ 63 - 1" if "k = 64" using that by simp
    have up: "(a > ?M \<or> k \<noteq> 64 \<and> b > ?X \<or> a \<ge> 0 \<and> b > 0 \<and> b > ?X) = (a + b > ?M)"
    proof (cases "k \<noteq> 64 \<or> a \<ge> 0")
      case True
      then show ?thesis unfolding X [OF True] using 4(2) assms(6) k64 by (cases "k = 64") linarith+
    next
      case False
      then show ?thesis using 4(2) assms(6) k64 by auto
    qed
    have dn: "(a < - ?M - 1 \<or> k \<noteq> 64 \<and> b < ?Y \<or> a < 0 \<and> b < 0 \<and> b < ?Y) = (a + b < - ?M - 1)"
    proof (cases "k \<noteq> 64 \<or> a < 0")
      case True
      then show ?thesis unfolding Y [OF True] using 4(1) assms(5) k64 by (cases "k = 64") linarith+
    next
      case False
      then show ?thesis using 4(1) assms(5) k64 by auto
    qed
    have s: "sint (word_of_int (a + b) :: 64 word) = a + b" if "- ?M - 1 \<le> a + b" "a + b \<le> ?M"
      using that M by (intro sint_small) linarith+
    have check: "checkSignedBitfieldOverflow (word_of_int a) (word_of_int b) k ow =
      (if a + b > ?M then (case ow of BFOVERFLOW_WRAP \<Rightarrow> (1, Some (wrap_signed (word_of_int a) (word_of_int b) k))
          | BFOVERFLOW_SAT \<Rightarrow> (1, Some (word_of_int ?M)) | BFOVERFLOW_FAIL \<Rightarrow> (1, None))
       else if a + b < - ?M - 1 then (case ow of BFOVERFLOW_WRAP \<Rightarrow> (1, Some (wrap_signed (word_of_int a) (word_of_int b) k))
          | BFOVERFLOW_SAT \<Rightarrow> (-1, Some (word_of_int (- ?M - 1))) | BFOVERFLOW_FAIL \<Rightarrow> (-1, None))
       else (0, None))"
      unfolding checkSignedBitfieldOverflow_def Let_def mw nw sab sM up dn ..
    consider "a + b > ?M" "\<not> a + b < - ?M - 1" | "a + b < - ?M - 1" "\<not> a + b > ?M" | "- ?M - 1 \<le> a + b" "a + b \<le> ?M"
      using M by linarith
    then show ?thesis
    proof cases
      case 1
      then show ?thesis using wrap sM(1) unfolding check stored_def fit_def fmin fmax by (cases ow) auto
    next
      case 2
      then show ?thesis using wrap sM(2) unfolding check stored_def fit_def fmin fmax by (cases ow) auto
    next
      case 3
      then show ?thesis using s unfolding check stored_def fit_def fmin fmax by (cases ow) auto
    qed
  qed
qed

end
