(* ===== verification/Bitfield_Spec.thy ===== *)
theory Bitfield_Spec
  imports Bitfield_Props
begin

text \<open>
  \<open>BITFIELD\<close> as it is documented: a string is an infinite sequence of bits, clear beyond its end, and the operations
  read and write fields of it one after the other.
\<close>

text \<open>A saturating \<open>SET\<close> stores the nearest integer of the field, except that an argument which is too small by far is
  taken for one that is too large, so that the largest integer is stored.\<close>

definition wrong_end :: "owtype \<Rightarrow> bool \<Rightarrow> nat \<Rightarrow> int \<Rightarrow> bool" where
  "wrong_end ow sign k a \<longleftrightarrow> ow = BFOVERFLOW_SAT \<and> k \<le> 63 \<and> (if sign then 2 ^ 63 \<le> field_max True k - a else a < 0)"

definition set_fit :: "owtype \<Rightarrow> bool \<Rightarrow> nat \<Rightarrow> int \<Rightarrow> int option" where
  "set_fit ow sign k a = (if wrong_end ow sign k a then Some (field_max sign k) else fit ow sign k a)"

definition spec_op :: "bitfieldOp \<Rightarrow> (nat \<Rightarrow> bool) \<Rightarrow> int option \<times> (nat \<Rightarrow> bool)" where
  "spec_op thisop f =
     (let off = unat (bo_offset thisop); k = bo_bits thisop; sign = bo_sign thisop; ow = bo_owtype thisop;
          old = field sign f off k; arg = sint (bo_i64 thisop)
      in case bo_opcode thisop of
           BITFIELDOP_GET \<Rightarrow> (Some old, f)
         | BITFIELDOP_SET \<Rightarrow> (case set_fit ow sign k arg of None \<Rightarrow> (None, f) | Some v \<Rightarrow> (Some old, write_bits f off k v))
         | BITFIELDOP_INCRBY \<Rightarrow> (case fit ow sign k (old + arg) of None \<Rightarrow> (None, f) | Some v \<Rightarrow> (Some v, write_bits f off k v)))"

fun spec_ops :: "bitfieldOp list \<Rightarrow> (nat \<Rightarrow> bool) \<Rightarrow> int option list \<times> (nat \<Rightarrow> bool)" where
  "spec_ops [] f = ([], f)"
| "spec_ops (thisop # ops) f = (let (r, f) = spec_op thisop f; (rs, f) = spec_ops ops f in (r # rs, f))"

text \<open>What the parser guarantees of an operation.\<close>

definition op_ok :: "bitfieldOp \<Rightarrow> bool" where
  "op_ok thisop \<longleftrightarrow> 1 \<le> bo_bits thisop \<and> bo_bits thisop \<le> (if bo_sign thisop then 64 else 63)"

section \<open>Bits of strings\<close>

lemma bit0_inj: "length p = length q \<Longrightarrow> bit0 p = bit0 q \<Longrightarrow> p = q"
proof (rule nth_equalityI)
  fix i
  assume *: "length p = length q" "bit0 p = bit0 q" "i < length p"
  show "p ! i = q ! i"
  proof (rule bit_word_eqI)
    fix j
    assume "j < LENGTH(8)"
    then obtain c where c: "c < 8" "j = 7 - c" by (intro that [of "7 - j"]) auto
    then have "(8 * i + c) div 8 = i" "(8 * i + c) mod 8 = c" "8 * i + c < 8 * length q" using *(1,3) by auto
    then show "bit (p ! i) j = bit (q ! i) j"
      using fun_cong [OF *(2), of "8 * i + c"] *(1) c unfolding bit0_def bit_at_def by simp
  qed
qed

lemma bit0_pad: "bit0 (p @ replicate n 0) = bit0 p"
  by (rule ext) (auto simp: bit0_def bit_at_def nth_append)

lemma bit0_nil: "bit0 [] = (\<lambda>_. False)"
  by (rule ext) (simp add: bit0_def)

lemma write_same: "write_bits f off k (read_bits f off k) = f"
  by (rule ext) (auto simp: write_bits_def bit_read)

lemma write_cong: "(\<And>j. j < k \<Longrightarrow> bit v j = bit v' j) \<Longrightarrow> write_bits f off k v = write_bits f off k v'"
  by (rule ext) (auto simp: write_bits_def)

lemma write_sint: "k \<le> 64 \<Longrightarrow> write_bits f off k (uint w) = write_bits f off k (sint (w :: 64 word))"
  by (rule write_cong) (auto simp: bit_sint bit_uint_iff)

lemma write_field: "1 \<le> k \<Longrightarrow> write_bits f off k (field sign f off k) = f"
proof -
  assume "1 \<le> k"
  then have "write_bits f off k (field sign f off k) = write_bits f off k (read_bits f off k)"
    by (intro write_cong) (auto simp: field_def bit_signed_take_bit_iff)
  then show ?thesis by (simp add: write_same)
qed

lemma field_range:
  assumes "1 \<le> k"
  shows "field_min sign k \<le> field sign f off k" "field sign f off k \<le> field_max sign k"
  using assms read_range [of f off k] signed_take_bit_int_greater_eq_minus_exp [of "k - 1" "read_bits f off k"]
    signed_take_bit_int_less_exp [of "k - 1" "read_bits f off k"]
  by (auto simp: field_def field_min_def field_max_def)

lemma field_64: "1 \<le> k \<Longrightarrow> k \<le> (if sign then 64 else 63) \<Longrightarrow> - (2 ^ 63) \<le> field sign f off k \<and> field sign f off k < 2 ^ 63"
  using field_range [of k sign f off] two_powers [of "k - 1"] two_powers [of k]
  by (auto simp: field_min_def field_max_def le_diff_conv split: if_splits)

lemma set_ok:
  assumes "unat offset + k \<le> 8 * length p" "8 * length p < 2 ^ 64" "k \<le> 64"
  shows "\<exists>p'. setUnsignedBitfield p offset k w = Some p' \<and> length p' = length p \<and> bit0 p' = write_bits (bit0 p) (unat offset) k (uint w)"
  using set_loop_ok [OF assms] by (simp add: setUnsignedBitfield_def)

section \<open>One operation\<close>

lemma sint_64: "sint (w :: 64 word) = uint w - (if sint w < 0 then 2 ^ 64 else 0)" "- (2 ^ 63) \<le> sint w" "sint w < 2 ^ 63"
proof -
  show r: "- (2 ^ 63) \<le> sint w" "sint w < 2 ^ 63" using sint_greater_eq [of w] sint_less [of w] by simp_all
  have "uint w = take_bit 64 (sint w)"
    using bit_imp_le_length [of w] by (intro bit_eqI) (auto simp: bit_take_bit_iff bit_sint bit_uint_iff min_def)
  also have "\<dots> = sint w + (if sint w < 0 then 2 ^ 64 else 0)"
  proof (cases "sint w < 0")
    case True
    have "(sint w + 2 ^ 64) mod 2 ^ 64 = sint w + 2 ^ 64" using True r by (intro mod_pos_pos_trivial) simp_all
    then show ?thesis using True by (simp add: take_bit_eq_mod)
  next
    case False
    then show ?thesis using r by (simp add: take_bit_int_eq_self)
  qed
  finally show "sint w = uint w - (if sint w < 0 then 2 ^ 64 else 0)" by simp
qed

lemma fit_unsigned:
  assumes "k \<le> 63" "ow = BFOVERFLOW_SAT \<longrightarrow> 0 \<le> sint (w :: 64 word)"
  shows "fit ow False k (uint w) = fit ow False k (sint w)"
proof (cases "0 \<le> sint w")
  case True
  then show ?thesis using sint_64(1) [of w] by simp
next
  case False
  have wrap: "take_bit k (uint w) = take_bit k (sint w)"
    using assms(1) by (intro bit_eqI) (auto simp: bit_take_bit_iff bit_sint bit_uint_iff)
  have "field_max False k < uint w" "\<not> uint w \<le> field_max False k"
    using two_powers [OF assms(1)] False sint_64 [of w] by (auto simp: field_max_def)
  then show ?thesis using False assms(2) wrap by (cases ow) (auto simp: fit_def field_min_def)
qed


lemma get_field:
  assumes "op_ok thisop" "unat (bo_offset thisop) + bo_bits thisop \<le> 8 * length p" "8 * length p < 2 ^ 64"
  shows "\<exists>v. (if bo_sign thisop then getSignedBitfield p (bo_offset thisop) (bo_bits thisop)
                else getUnsignedBitfield p (bo_offset thisop) (bo_bits thisop)) = Some v
             \<and> sint v = field (bo_sign thisop) (bit0 p) (unat (bo_offset thisop)) (bo_bits thisop)"
proof (cases "bo_sign thisop")
  case True
  then show ?thesis using get_signed_ok [OF assms(2,3)] assms(1) by (auto simp: op_ok_def)
next
  case False
  have "sint (word_of_int (field False (bit0 p) (unat (bo_offset thisop)) (bo_bits thisop)) :: 64 word)
      = field False (bit0 p) (unat (bo_offset thisop)) (bo_bits thisop)"
    using field_64 [of "bo_bits thisop" False] assms(1) False by (intro sint_small) (auto simp: op_ok_def)
  then show ?thesis using get_unsigned_ok [OF assms(2,3)] assms(1) False by (simp add: op_ok_def field_def)
qed

lemma fit_range: "1 \<le> k \<Longrightarrow> fit ow sign k s = Some v \<Longrightarrow> field_min sign k \<le> v \<and> v \<le> field_max sign k"
  using signed_take_bit_int_greater_eq_minus_exp [of "k - 1" s] signed_take_bit_int_less_exp [of "k - 1" s]
    take_bit_int_less_exp [of k s] one_le_power [of "2 :: int" k] one_le_power [of "2 :: int" "k - 1"]
  by (cases ow) (auto simp: fit_def field_min_def field_max_def split: if_splits)

lemma sint_uint_field: "k \<le> 63 \<Longrightarrow> uint (w :: 64 word) \<le> field_max False k \<Longrightarrow> sint w = uint w"
  using two_powers [of k] sint_64 [of w] by (auto simp: field_max_def split: if_splits)

text \<open>The two halves of the code differ only in the functions they call.\<close>

definition exec_op :: "bool \<Rightarrow> bitfieldOp \<Rightarrow> bytes \<Rightarrow> (int option \<times> bytes \<times> bool) option" where
  "exec_op dirty thisop p = (if bo_sign thisop then exec_signed dirty thisop p else exec_unsigned dirty thisop p)"

definition check_op :: "bitfieldOp \<Rightarrow> 64 word \<Rightarrow> (64 word) option" where
  "check_op thisop oldval =
     (let incrby = (bo_opcode thisop = BITFIELDOP_INCRBY);
          a = (if incrby then oldval else bo_i64 thisop); b = (if incrby then bo_i64 thisop else 0)
      in stored (if bo_sign thisop then checkSignedBitfieldOverflow a b (bo_bits thisop) (bo_owtype thisop)
                 else checkUnsignedBitfieldOverflow a b (bo_bits thisop) (bo_owtype thisop)) (bo_owtype thisop) (a + b))"

lemma wrap_64: "(word_of_int (i - 2 ^ 64) :: 64 word) = word_of_int i" "(word_of_int (i + 2 ^ 64) :: 64 word) = word_of_int i"
  by simp_all

lemma saturate_signed:
  assumes "1 \<le> k" "k \<le> 63" "- (2 ^ 63) \<le> a" "2 ^ 63 \<le> field_max True k - a"
  shows "checkSignedBitfieldOverflow (word_of_int a) 0 k BFOVERFLOW_SAT = (1, Some (word_of_int (field_max True k)))"
proof -
  let ?M = "2 ^ (k - 1) - 1 :: int"
  have M: "0 \<le> ?M" "?M < 2 ^ 62" using two_powers [of "k - 1"] power_increasing [of "k - 1" 62 "2 :: int"] assms(2) by (simp_all add: le_diff_conv)
  have a: "a < 0" "2 ^ 63 \<le> ?M - a" using assms(4) M by (simp_all add: field_max_def)
  have "k \<noteq> 64" using assms(2) by simp
  then have mw: "(if k = 64 then 0x7FFFFFFFFFFFFFFF else push_bit (k - 1) 1 - 1) = (word_of_int ?M :: 64 word)"
    using max_words [of "k - 1"] assms(2) by simp
  have "sint (word_of_int (?M - a - 2 ^ 64) :: 64 word) = ?M - a - 2 ^ 64" using a M assms(3) by (intro sint_small) simp_all
  then have "sint (word_of_int (?M - a) :: 64 word) = ?M - a - 2 ^ 64" unfolding wrap_64 .
  then have "sint (word_of_int ?M - word_of_int a :: 64 word) < 0" unfolding sub_words using M assms(3) by simp
  then show ?thesis unfolding checkSignedBitfieldOverflow_def Let_def mw using \<open>k \<noteq> 64\<close> by (simp add: field_max_def)
qed

lemma saturate_unsigned:
  assumes "1 \<le> k" "k \<le> 63" "- (2 ^ 63) \<le> a" "a < 0"
  shows "checkUnsignedBitfieldOverflow (word_of_int a) 0 k BFOVERFLOW_SAT = (1, Some (word_of_int (field_max False k)))"
proof -
  have M: "0 \<le> (2 :: int) ^ k - 1" "(2 :: int) ^ k - 1 < 2 ^ 63" using two_powers [OF assms(2)] by simp_all
  have mw: "push_bit k 1 - 1 = (word_of_int (2 ^ k - 1) :: 64 word)" using assms(2) by (intro max_words) simp
  have "uint (word_of_int (a + 2 ^ 64) :: 64 word) = a + 2 ^ 64" using assms(3,4) by (intro uint_small) simp_all
  then have "uint (word_of_int a :: 64 word) = a + 2 ^ 64" unfolding wrap_64 .
  moreover have "uint (word_of_int (2 ^ k - 1) :: 64 word) = 2 ^ k - 1" using M by (intro uint_small) simp_all
  ultimately have "(word_of_int a :: 64 word) > word_of_int (2 ^ k - 1)" using M assms(3) by (simp only: word_less_alt) simp
  then show ?thesis using assms(2) unfolding checkUnsignedBitfieldOverflow_def Let_def mw by (simp add: field_max_def)
qed

lemma check_op_right_end:
  assumes "op_ok thisop" "bo_opcode thisop \<noteq> BITFIELDOP_GET"
    and right: "bo_opcode thisop = BITFIELDOP_SET \<longrightarrow>
      \<not> wrong_end (bo_owtype thisop) (bo_sign thisop) (bo_bits thisop) (sint (bo_i64 thisop))"
    and old: "sint oldval = field (bo_sign thisop) f off (bo_bits thisop)"
  shows "map_option sint (check_op thisop oldval) = fit (bo_owtype thisop) (bo_sign thisop) (bo_bits thisop)
           (if bo_opcode thisop = BITFIELDOP_INCRBY then sint oldval + sint (bo_i64 thisop) else sint (bo_i64 thisop))"
proof -
  let ?k = "bo_bits thisop" and ?b = "if bo_opcode thisop = BITFIELDOP_INCRBY then sint (bo_i64 thisop) else 0"
  let ?incrby = "bo_opcode thisop = BITFIELDOP_INCRBY"
  have k: "1 \<le> ?k" "?k \<le> 64" "\<not> bo_sign thisop \<Longrightarrow> ?k \<le> 63" using assms(1) by (auto simp: op_ok_def split: if_splits)
  have range: "field_min (bo_sign thisop) ?k \<le> sint oldval" "sint oldval \<le> field_max (bo_sign thisop) ?k"
    unfolding old using field_range k(1) by blast+
  have b: "- (2 ^ 63) \<le> ?b" "?b < 2 ^ 63" using sint_64 [of "bo_i64 thisop"] by auto
  show ?thesis
  proof (cases "bo_sign thisop")
    case True
    let ?a = "if ?incrby then sint oldval else sint (bo_i64 thisop)"
    have in_range: "field_min True ?k \<le> ?a \<and> ?a \<le> field_max True ?k
        \<or> ?b = 0 \<and> (bo_owtype thisop = BFOVERFLOW_SAT \<longrightarrow> field_max True ?k - ?a < 2 ^ 63)"
    proof (cases "?k = 64")
      case True
      then show ?thesis using range \<open>bo_sign thisop\<close> sint_64 [of "bo_i64 thisop"] by (simp add: field_min_def field_max_def)
    next
      case False
      then show ?thesis
        using range right \<open>bo_sign thisop\<close> assms(2) k(2) by (cases "bo_opcode thisop") (auto simp: wrong_end_def)
    qed
    have "map_option sint (stored (checkSignedBitfieldOverflow (word_of_int ?a) (word_of_int ?b) ?k (bo_owtype thisop)) (bo_owtype thisop)
        (word_of_int (?a + ?b))) = fit (bo_owtype thisop) True ?k (?a + ?b)"
      using True range b sint_64 [of oldval] sint_64 [of "bo_i64 thisop"] in_range
      by (intro signed_overflow k) auto
    then show ?thesis using True by (auto simp: check_op_def Let_def)
  next
    case False
    let ?a = "if ?incrby then uint oldval else uint (bo_i64 thisop)"
    have "sint oldval = uint oldval" using range(1) False sint_64(1) [of oldval] by (simp add: field_min_def)
    then have a: "0 \<le> ?a" "?a \<le> field_max False ?k \<or> ?b = 0 \<and> ?a < 2 ^ 64"
      using range(2) False uint_bounded [of "bo_i64 thisop"] by auto
    then have *: "map_option uint (check_op thisop oldval) = fit (bo_owtype thisop) False ?k (?a + ?b)"
      using unsigned_overflow [OF k(1) k(3) [OF False] a b] False by (auto simp: check_op_def Let_def)
    also have "\<dots> = fit (bo_owtype thisop) False ?k (if ?incrby then sint oldval + sint (bo_i64 thisop) else sint (bo_i64 thisop))"
      using fit_unsigned [OF k(3) [OF False]] assms(2) right k(3) False \<open>sint oldval = uint oldval\<close>
      by (cases "bo_opcode thisop") (auto simp: wrong_end_def)
    finally have "map_option uint (check_op thisop oldval) = \<dots>" .
    moreover have "map_option sint (check_op thisop oldval) = map_option uint (check_op thisop oldval)"
      using fit_range [OF k(1), of "bo_owtype thisop" False "?a + ?b"] * sint_uint_field [OF k(3) [OF False]]
      by (cases "check_op thisop oldval") auto
    ultimately show ?thesis using False by simp
  qed
qed


lemma field_max_64:
  assumes "1 \<le> k" "k \<le> 63"
  shows "sint (word_of_int (field_max sign k) :: 64 word) = field_max sign k"
proof (rule sint_small)
  have "k - 1 \<le> 63" using assms(2) by simp
  note p = two_powers [OF assms(2)] two_powers [OF this]
  show "- (2 ^ 63) \<le> field_max sign k" "field_max sign k < 2 ^ 63"
    unfolding field_max_def using p by (cases sign; simp only: if_True if_False; linarith)+
qed

lemma check_op_ok:
  assumes "op_ok thisop" "bo_opcode thisop \<noteq> BITFIELDOP_GET"
    and "sint oldval = field (bo_sign thisop) f off (bo_bits thisop)"
  shows "map_option sint (check_op thisop oldval) =
     (if bo_opcode thisop = BITFIELDOP_INCRBY
      then fit (bo_owtype thisop) (bo_sign thisop) (bo_bits thisop) (sint oldval + sint (bo_i64 thisop))
      else set_fit (bo_owtype thisop) (bo_sign thisop) (bo_bits thisop) (sint (bo_i64 thisop)))"
proof (cases "bo_opcode thisop = BITFIELDOP_SET \<and> wrong_end (bo_owtype thisop) (bo_sign thisop) (bo_bits thisop) (sint (bo_i64 thisop))")
  case True
  let ?k = "bo_bits thisop" and ?a = "sint (bo_i64 thisop)"
  have k: "1 \<le> ?k" "?k \<le> 63" and ow: "bo_owtype thisop = BFOVERFLOW_SAT"
    and a: "if bo_sign thisop then 2 ^ 63 \<le> field_max True ?k - ?a else ?a < 0"
    using True assms(1) by (auto simp: wrong_end_def op_ok_def)
  have c: "(if bo_sign thisop then checkSignedBitfieldOverflow (bo_i64 thisop) 0 ?k BFOVERFLOW_SAT
      else checkUnsignedBitfieldOverflow (bo_i64 thisop) 0 ?k BFOVERFLOW_SAT) = (1, Some (word_of_int (field_max (bo_sign thisop) ?k)))"
    using saturate_signed [OF k sint_64(2)] saturate_unsigned [OF k sint_64(2)] a by auto
  have "check_op thisop oldval = Some (word_of_int (field_max (bo_sign thisop) ?k))"
    by (cases "bo_sign thisop") (use c True ow in \<open>simp_all add: check_op_def stored_def\<close>)
  then show ?thesis using True k field_max_64 by (simp add: set_fit_def)
next
  case False
  then show ?thesis
    using check_op_right_end [OF assms(1,2) _ assms(3)] assms(2) by (cases "bo_opcode thisop") (auto simp: set_fit_def)
qed

lemma limit_some:
  fixes P Q :: bool and a b c d :: "64 word" and u v :: int and ow :: owtype
  defines "r \<equiv> (if P then (case ow of BFOVERFLOW_WRAP \<Rightarrow> (u, Some a) | BFOVERFLOW_SAT \<Rightarrow> (u, Some b) | BFOVERFLOW_FAIL \<Rightarrow> (u, None))
                 else if Q then (case ow of BFOVERFLOW_WRAP \<Rightarrow> (u, Some c) | BFOVERFLOW_SAT \<Rightarrow> (v, Some d) | BFOVERFLOW_FAIL \<Rightarrow> (v, None))
                 else (0, None))"
  shows "fst r \<noteq> 0 \<Longrightarrow> ow \<noteq> BFOVERFLOW_FAIL \<Longrightarrow> \<exists>w. snd r = Some w"
  unfolding r_def by (cases P; cases Q; cases ow) simp_all

lemma check_unsigned_limit:
  "fst (checkUnsignedBitfieldOverflow a b k ow) \<noteq> 0 \<Longrightarrow> ow \<noteq> BFOVERFLOW_FAIL \<Longrightarrow> \<exists>w. snd (checkUnsignedBitfieldOverflow a b k ow) = Some w"
  unfolding checkUnsignedBitfieldOverflow_def Let_def by (rule limit_some)

lemma check_signed_limit:
  "fst (checkSignedBitfieldOverflow a b k ow) \<noteq> 0 \<Longrightarrow> ow \<noteq> BFOVERFLOW_FAIL \<Longrightarrow> \<exists>w. snd (checkSignedBitfieldOverflow a b k ow) = Some w"
  unfolding checkSignedBitfieldOverflow_def Let_def by (rule limit_some)

lemma exec_op_eq:
  assumes "bo_opcode thisop \<noteq> BITFIELDOP_GET"
  shows "exec_op dirty thisop p = do {
     oldval \<leftarrow> (if bo_sign thisop then getSignedBitfield p (bo_offset thisop) (bo_bits thisop)
                else getUnsignedBitfield p (bo_offset thisop) (bo_bits thisop));
     case check_op thisop oldval of
       None \<Rightarrow> Some (None, p, False)
     | Some newval \<Rightarrow> do {
         p \<leftarrow> setUnsignedBitfield p (bo_offset thisop) (bo_bits thisop) newval;
         Some (Some (sint (if bo_opcode thisop = BITFIELDOP_INCRBY then newval else oldval)), p, dirty \<or> oldval \<noteq> newval) }}"
proof -
  let ?r = "\<lambda>oldval. (if bo_sign thisop then checkSignedBitfieldOverflow else checkUnsignedBitfieldOverflow)
     (if bo_opcode thisop = BITFIELDOP_INCRBY then oldval else bo_i64 thisop)
     (if bo_opcode thisop = BITFIELDOP_INCRBY then bo_i64 thisop else 0) (bo_bits thisop) (bo_owtype thisop)"
  have some: "fst (?r oldval) \<noteq> 0 \<Longrightarrow> bo_owtype thisop \<noteq> BFOVERFLOW_FAIL \<Longrightarrow> \<exists>w. snd (?r oldval) = Some w" for oldval
    using check_unsigned_limit check_signed_limit by (auto split: if_splits)
  show ?thesis
  proof (cases "bo_sign thisop")
    case True
    then show ?thesis
    proof (cases "getSignedBitfield p (bo_offset thisop) (bo_bits thisop)")
      case (Some oldval)
      then show ?thesis using True some [of oldval]
        by (cases "?r oldval"; cases "bo_opcode thisop = BITFIELDOP_INCRBY"; cases "fst (?r oldval) = 0")
          (auto simp: exec_op_def exec_signed_def setSignedBitfield_def check_op_def stored_def Let_def)
    qed (simp add: exec_op_def exec_signed_def)
  next
    case False
    then show ?thesis
    proof (cases "getUnsignedBitfield p (bo_offset thisop) (bo_bits thisop)")
      case (Some oldval)
      then show ?thesis using False some [of oldval]
        by (cases "?r oldval"; cases "bo_opcode thisop = BITFIELDOP_INCRBY"; cases "fst (?r oldval) = 0")
          (auto simp: exec_op_def exec_unsigned_def check_op_def stored_def Let_def)
    qed (simp add: exec_op_def exec_unsigned_def)
  qed
qed

lemma exec_op_ok:
  assumes "op_ok thisop" "bo_opcode thisop \<noteq> BITFIELDOP_GET"
    and fits: "unat (bo_offset thisop) + bo_bits thisop \<le> 8 * length p" "8 * length p < 2 ^ 64"
  shows "\<exists>r p' c. exec_op dirty thisop p = Some (r, p', c) \<and> length p' = length p \<and> spec_op thisop (bit0 p) = (r, bit0 p')
           \<and> (\<not> c \<longrightarrow> p' = p)"
proof -
  let ?off = "unat (bo_offset thisop)" and ?k = "bo_bits thisop" and ?incrby = "bo_opcode thisop = BITFIELDOP_INCRBY"
  have k: "1 \<le> ?k" "?k \<le> 64" using assms(1) by (auto simp: op_ok_def split: if_splits)
  obtain old where old: "(if bo_sign thisop then getSignedBitfield p (bo_offset thisop) ?k else getUnsignedBitfield p (bo_offset thisop) ?k) = Some old"
      "sint old = field (bo_sign thisop) (bit0 p) ?off ?k"
    using get_field [OF assms(1) fits] by blast
  note fit = check_op_ok [OF assms(1,2) old(2)]
  show ?thesis
  proof (cases "check_op thisop old")
    case None
    then have "spec_op thisop (bit0 p) = (None, bit0 p)" 
      using fit [unfolded None option.map, symmetric] old(2) assms(2) by (cases "bo_opcode thisop") (auto simp: spec_op_def Let_def)
    moreover have "exec_op dirty thisop p = Some (None, p, False)" using None old(1) exec_op_eq [OF assms(2), of dirty p] by simp
    ultimately show ?thesis by blast
  next
    case (Some new)
    obtain p' where p': "setUnsignedBitfield p (bo_offset thisop) ?k new = Some p'" "length p' = length p"
        "bit0 p' = write_bits (bit0 p) ?off ?k (sint new)"
      using set_ok [OF fits k(2), of new] write_sint [OF k(2)] by metis
    have "spec_op thisop (bit0 p) = (Some (sint (if ?incrby then new else old)), bit0 p')"
      using fit [unfolded Some option.map, symmetric] old(2) assms(2) p'(3) by (cases "bo_opcode thisop") (auto simp: spec_op_def Let_def)
    moreover have "p' = p" if "old = new"
      using p'(2,3) write_field [OF k(1), of "bit0 p" ?off "bo_sign thisop"] old(2) that by (intro bit0_inj) simp_all
    ultimately show ?thesis using Some old(1) p'(1,2) exec_op_eq [OF assms(2), of dirty p] by simp
  qed
qed

lemma read_cong:
  assumes "\<And>j. j < k \<Longrightarrow> f (o1 + j) = g (o2 + j)"
  shows "read_bits f o1 k = read_bits g o2 k"
proof (rule bit_eqI)
  fix n
  show "bit (read_bits f o1 k) n = bit (read_bits g o2 k) n"
    using assms [of "k - Suc n"] by (auto simp: bit_read)
qed

text \<open>A copy of nine bytes holds the field, whatever its offset in the first one.\<close>

lemma exec_get_ok:
  assumes "op_ok thisop" "bo_opcode thisop = BITFIELDOP_GET" "length p < 2 ^ 61"
  shows "exec_get thisop p = Some (fst (spec_op thisop (bit0 p)))" "snd (spec_op thisop (bit0 p)) = bit0 p"
proof -
  let ?off = "unat (bo_offset thisop)" and ?k = "bo_bits thisop" and ?byte = "drop_bit 3 (bo_offset thisop)"
  let ?buf = "map (\<lambda>i. if unat ?byte + i < length p then p ! (unat ?byte + i) else 0) [0..<9]"
  let ?o = "bo_offset thisop - ?byte * 8"
  have "unat (?byte * 8) = 8 * (?off div 8)"
    using unsigned_less [of "bo_offset thisop", where 'a = nat] le_less_trans [OF div_times_less_eq_dividend]
    by (simp add: unat_word_ariths unat_offset mult.commute)
  then have o: "unat ?o = ?off mod 8" by (simp add: unat_sub word_le_nat_alt minus_mult_div_eq_mod)
  have "bit0 ?buf (?off mod 8 + j) = bit0 p (?off + j)" if "j < 64" for j
  proof -
    have lt: "?off mod 8 + j < 72" using that mod_less_divisor [of 8 ?off] by linarith
    have "?off + j = 8 * (?off div 8) + (?off mod 8 + j)" by simp
    then have split: "(?off + j) div 8 = ?off div 8 + (?off mod 8 + j) div 8" "(?off + j) mod 8 = (?off mod 8 + j) mod 8"
      by (simp_all only: div_mult_self4 mod_mult_self4)
    define c where "c = (?off mod 8 + j) div 8"
    have "c < 9" using lt by (simp add: c_def)
    then have "?buf ! c = (if ?off div 8 + c < length p then p ! (?off div 8 + c) else 0)" by (simp add: unat_offset)
    moreover have "?off + j < 8 * length p \<longleftrightarrow> ?off div 8 + c < length p" using split(1) unfolding c_def by linarith
    ultimately show ?thesis using lt unfolding bit0_def bit_at_def split c_def [symmetric] by simp
  qed
  then have "read_bits (bit0 ?buf) (?off mod 8) ?k = read_bits (bit0 p) ?off ?k"
    using assms(1) by (intro read_cong) (auto simp: op_ok_def split: if_splits)
  then have "field (bo_sign thisop) (bit0 ?buf) (unat ?o) ?k = field (bo_sign thisop) (bit0 p) ?off ?k"
    by (simp add: field_def o)
  moreover have "unat (bo_offset (thisop\<lparr>bo_offset := ?o\<rparr>)) + ?k \<le> 8 * length ?buf"
    using assms(1) mod_less_divisor [of 8 ?off] by (auto simp: o op_ok_def split: if_splits)
  moreover have "op_ok (thisop\<lparr>bo_offset := ?o\<rparr>)"
    using assms(1) by (simp add: op_ok_def)
  ultimately show "exec_get thisop p = Some (fst (spec_op thisop (bit0 p)))" "snd (spec_op thisop (bit0 p)) = bit0 p"
    using get_field [of "thisop\<lparr>bo_offset := ?o\<rparr>" ?buf] assms(2) by (auto simp: exec_get_def Let_def spec_op_def)
qed


section \<open>All operations\<close>


text \<open>Reading operations only reply.\<close>

lemma spec_gets: "\<forall>thisop \<in> set ops. bo_opcode thisop = BITFIELDOP_GET \<Longrightarrow> snd (spec_ops ops f) = f"
proof (induction ops arbitrary: f)
  case (Cons thisop ops)
  then have "snd (spec_ops ops f) = f" "snd (spec_op thisop f) = f" by (simp_all add: spec_op_def Let_def)
  then show ?case by (simp add: case_prod_beta)
qed simp

section \<open>The whole command\<close>

lemma sint_unat: "0 \<le> sint (w :: 64 word) \<Longrightarrow> unat w < 2 ^ 63"
proof -
  assume "0 \<le> sint w"
  then have "\<not> sint w < 0" by simp
  then have "uint w < 2 ^ 63" using sint_64(1) [of w, unfolded if_not_P [OF \<open>\<not> sint w < 0\<close>]] sint_64(3) [of w] by linarith
  then show ?thesis by (simp only: unat_eq_nat_uint nat_less_iff uint_ge_0) simp
qed

lemma bit_offset_range: "getBitOffsetFromArgument obey limit p hash bits = Some offset \<Longrightarrow> unat offset < 2 ^ 63"
proof (rule sint_unat)
  assume "getBitOffsetFromArgument obey limit p hash bits = Some offset"
  then obtain l where "(if sint l < 0 \<or> \<not> obey \<and> sint l div 8 \<ge> limit then None else Some l) = Some offset"
    unfolding getBitOffsetFromArgument_def Let_def bind_eq_Some_conv by metis
  then show "0 \<le> sint offset" by (simp split: if_splits)
qed

lemma type_range: "getBitfieldTypeFromArgument p = Some (sign, bits) \<Longrightarrow> 1 \<le> bits \<and> bits \<le> (if sign then 64 else 63)"
  by (auto simp: getBitfieldTypeFromArgument_def bind_eq_Some_conv split: if_splits)

text \<open>What the parser has seen: every operation is well formed, and the writing ones end at or before the highest
  offset.\<close>

definition parsed :: "bitfieldOp \<Rightarrow> 64 word \<Rightarrow> bool" where
  "parsed thisop high \<longleftrightarrow> op_ok thisop \<and> unat (bo_offset thisop) < 2 ^ 63
     \<and> (bo_opcode thisop \<noteq> BITFIELDOP_GET \<longrightarrow> unat (bo_offset thisop) + bo_bits thisop \<le> unat high + 1)"

lemma parse_op_ok:
  assumes "parse_op obey limit ow high readonly opcode args = Inr (thisop, high', readonly', taken)" "unat high < 2 ^ 63 + 64"
  shows "parsed thisop high'" "high \<le> high'" "unat high' < 2 ^ 63 + 64"
    "readonly' \<longleftrightarrow> readonly \<and> bo_opcode thisop = BITFIELDOP_GET"
proof -
  obtain sign bits offset where t: "getBitfieldTypeFromArgument (args ! 0) = Some (sign, bits)"
      "getBitOffsetFromArgument obey limit (args ! 1) True bits = Some offset"
    using assms(1) by (auto simp: parse_op_def split: option.splits)
  have bits: "1 \<le> bits" "bits \<le> (if sign then 64 else 63)" "bits \<le> 64" using type_range [OF t(1)] by (auto split: if_splits)
  have off: "unat offset < 2 ^ 63" using bit_offset_range [OF t(2)] .
  have nb: "unat (word_of_nat bits :: 64 word) = bits" using bits(3) by (simp add: unat_of_nat)
  have top: "unat (offset + word_of_nat bits - 1) = unat offset + bits - 1"
    using off bits(1,3) nb by (subst unat_sub) (simp_all add: word_le_nat_alt unat_word_ariths)
  show "parsed thisop high'" "high \<le> high'" "unat high' < 2 ^ 63 + 64" "readonly' \<longleftrightarrow> readonly \<and> bo_opcode thisop = BITFIELDOP_GET"
    using assms bits off top
    by (auto simp: parse_op_def t [unfolded One_nat_def] Let_def parsed_def op_ok_def word_le_nat_alt word_less_nat_alt split: if_splits option.splits)
qed


lemma parsed_mono: "parsed thisop high \<Longrightarrow> high \<le> high' \<Longrightarrow> parsed thisop high'"
  by (auto simp: parsed_def word_le_nat_alt)

lemma parse_ops_ok:
  assumes "parse_ops obey limit ow high readonly args = Inr (ops, high', readonly')" "unat high < 2 ^ 63 + 64"
  shows "(\<forall>thisop \<in> set ops. parsed thisop high') \<and> high \<le> high' \<and> unat high' < 2 ^ 63 + 64
           \<and> (readonly' \<longleftrightarrow> readonly \<and> (\<forall>thisop \<in> set ops. bo_opcode thisop = BITFIELDOP_GET))"
  using assms
proof (induction obey limit ow high readonly args arbitrary: ops rule: parse_ops.induct)
  case (2 obey limit ow high readonly subcmd args)
  show ?case
  proof (cases "parse_opcode subcmd (length args)")
    case None
    then show ?thesis using "2.IH"(1) [OF None] "2.prems" by (auto split: if_splits option.splits)
  next
    case (Some opcode)
    then obtain thisop h r taken where one: "parse_op obey limit ow high readonly opcode args = Inr (thisop, h, r, taken)"
      using "2.prems"(1) by (auto split: sum.splits)
    then obtain ops1 where rest: "parse_ops obey limit ow h r (drop taken args) = Inr (ops1, high', readonly')" "ops = thisop # ops1"
      using Some "2.prems"(1) by (auto split: sum.splits)
    note ok = parse_op_ok [OF one "2.prems"(2)]
    have "(\<forall>thisop \<in> set ops1. parsed thisop high') \<and> h \<le> high' \<and> unat high' < 2 ^ 63 + 64
        \<and> (readonly' \<longleftrightarrow> r \<and> (\<forall>thisop \<in> set ops1. bo_opcode thisop = BITFIELDOP_GET))"
      using "2.IH"(2) [OF Some one refl refl refl rest(1) ok(3)] .
    then show ?thesis using ok rest(2) parsed_mono [OF ok(1)] order_trans [OF ok(2)] by auto
  qed
qed auto




text \<open>The arguments that ask for an operation: its overflow policy, its name, the type, the offset (counted in fields
  after a \<open>#\<close>) and, unless it only reads, the integer.\<close>

definition ow_word :: "owtype \<Rightarrow> bytes" where
  "ow_word ow = (case ow of BFOVERFLOW_WRAP \<Rightarrow> [119, 114, 97, 112] | BFOVERFLOW_SAT \<Rightarrow> [115, 97, 116] | BFOVERFLOW_FAIL \<Rightarrow> [102, 97, 105, 108])"

definition opcode_word :: "bitfield_opcode \<Rightarrow> bytes" where
  "opcode_word opc = (case opc of BITFIELDOP_GET \<Rightarrow> [103, 101, 116] | BITFIELDOP_SET \<Rightarrow> [115, 101, 116]
     | BITFIELDOP_INCRBY \<Rightarrow> [105, 110, 99, 114, 98, 121])"

definition type_word :: "bool \<Rightarrow> nat \<Rightarrow> bytes" where
  "type_word sign bits = (if sign then 105 else 117) # dec_int (int bits)"

definition offset_word :: "bool \<Rightarrow> nat \<Rightarrow> nat \<Rightarrow> bytes" where
  "offset_word hash off bits = (if hash then 35 # dec_int (int (off div bits)) else dec_int (int off))"

fun op_text :: "bool \<times> bitfieldOp \<Rightarrow> bytes list" where
  "op_text (hash, thisop) =
     [[111, 118, 101, 114, 102, 108, 111, 119], ow_word (bo_owtype thisop), opcode_word (bo_opcode thisop),
      type_word (bo_sign thisop) (bo_bits thisop), offset_word hash (unat (bo_offset thisop)) (bo_bits thisop)]
     @ (if bo_opcode thisop = BITFIELDOP_GET then [] else [dec_int (sint (bo_i64 thisop))])"

text \<open>Operations that may be asked for.\<close>

fun op_given :: "bool \<Rightarrow> int \<Rightarrow> bool \<times> bitfieldOp \<Rightarrow> bool" where
  "op_given obey limit (hash, thisop) \<longleftrightarrow> op_ok thisop \<and> unat (bo_offset thisop) < 2 ^ 63
     \<and> (obey \<or> int (unat (bo_offset thisop)) div 8 < limit) \<and> (hash \<longrightarrow> bo_bits thisop dvd unat (bo_offset thisop))
     \<and> (bo_opcode thisop = BITFIELDOP_GET \<longrightarrow> bo_i64 thisop = 0)"

text \<open>The last bit that is written.\<close>

fun highest :: "bitfieldOp list \<Rightarrow> 64 word \<Rightarrow> 64 word" where
  "highest [] high = high"
| "highest (thisop # ops) high = highest ops (if bo_opcode thisop = BITFIELDOP_GET then high
     else max high (bo_offset thisop + word_of_nat (bo_bits thisop) - 1))"

lemma dec_not_mark: "is_ll v \<Longrightarrow> 0 \<le> v \<Longrightarrow> cstr_at (dec_int v) 0 \<noteq> 35"
  using dec_digits [of "hd (dec (nat v))" "nat v"] by (cases "dec (nat v)") (auto simp: dec_int_def cstr_at_def is_digit_unat)

lemma c_string_dec: "c_string (dec_int v) = dec_int v"
proof -
  have "is_digit b \<Longrightarrow> b \<noteq> 0" for b by (auto simp: is_digit_unat)
  then show ?thesis using dec_digits by (auto simp: c_string_def dec_int_def takeWhile_eq_all_conv)
qed

lemma read_dec: "is_ll v \<Longrightarrow> string2ll (dec_int v) = Some v"
  by (simp add: string2ll_iff)

lemma type_read: "1 \<le> k \<Longrightarrow> k \<le> (if sign then 64 else 63) \<Longrightarrow> getBitfieldTypeFromArgument (type_word sign k) = Some (sign, k)"
  using read_dec [of "int k"]
  by (auto simp: getBitfieldTypeFromArgument_def type_word_def cstr_at_def c_string_dec is_ll_def limits_defs split: if_splits)

lemma small_sint: "n < 2 ^ 63 \<Longrightarrow> sint (word_of_nat n :: 64 word) = int n"
  using sint_small [of "int n"] by simp

lemma offset_read:
  assumes "unat (off :: 64 word) < 2 ^ 63" "obey \<or> int (unat off) div 8 < limit" "hash \<longrightarrow> k dvd unat off" "1 \<le> k"
  shows "getBitOffsetFromArgument obey limit (offset_word hash (unat off) k) True k = Some off"
proof -
  have ll: "is_ll (int n)" if "n \<le> unat off" for n using that assms(1) by (simp add: is_ll_def limits_defs)
  have s: "sint off = int (unat off)" using small_sint [OF assms(1)] by simp
  show ?thesis
  proof (cases hash)
    case True
    then have "word_of_nat (unat off div k) * word_of_nat k = (word_of_nat (unat off) :: 64 word)"
      using assms(3) by (simp only: of_nat_mult [symmetric] dvd_div_mult_self)
    moreover have "string2ll (dec_int (int (unat off div k))) = Some (int (unat off div k))"
      by (rule read_dec [OF ll]) (rule div_le_dividend)
    ultimately show ?thesis
      using True assms(2,4) s by (auto simp: getBitOffsetFromArgument_def offset_word_def cstr_at_def)
  next
    case False
    then show ?thesis
      using assms(2) s read_dec [OF ll [OF order_refl]] dec_not_mark [OF ll [OF order_refl]]
      by (auto simp: getBitOffsetFromArgument_def offset_word_def)
  qed
qed

lemma words_read:
  "parse_opcode [111, 118, 101, 114, 102, 108, 111, 119] n = None"
  "strcasecmp_eq [111, 118, 101, 114, 102, 108, 111, 119] [111, 118, 101, 114, 102, 108, 111, 119]"
  "parse_owtype (ow_word ow) = Some ow"
  "(if opc = BITFIELDOP_GET then 2 else 3) \<le> n \<Longrightarrow> parse_opcode (opcode_word opc) n = Some opc"
  by (cases ow; cases opc;
      simp add: parse_opcode_def parse_owtype_def ow_word_def opcode_word_def strcasecmp_eq_def c_string_def Let_def)+

lemma parse_op_text:
  assumes "op_given obey limit (hash, thisop)"
  shows "parse_op obey limit (bo_owtype thisop) high readonly (bo_opcode thisop)
      (drop 3 (op_text (hash, thisop)) @ rest)
    = Inr (thisop, (if bo_opcode thisop = BITFIELDOP_GET then high else max high (bo_offset thisop + word_of_nat (bo_bits thisop) - 1)),
        readonly \<and> bo_opcode thisop = BITFIELDOP_GET, if bo_opcode thisop = BITFIELDOP_GET then 2 else 3)"
proof -
  have t: "getBitfieldTypeFromArgument (type_word (bo_sign thisop) (bo_bits thisop)) = Some (bo_sign thisop, bo_bits thisop)"
    using assms by (intro type_read) (auto simp: op_ok_def)
  have o: "getBitOffsetFromArgument obey limit (offset_word hash (unat (bo_offset thisop)) (bo_bits thisop)) True (bo_bits thisop)
      = Some (bo_offset thisop)"
    using assms by (intro offset_read) (auto simp: op_ok_def)
  have v: "string2ll (dec_int (sint (bo_i64 thisop))) = Some (sint (bo_i64 thisop))"
    using sint_64 [of "bo_i64 thisop"] by (intro read_dec) (simp add: is_ll_def limits_defs)
  let ?args = "drop 3 (op_text (hash, thisop)) @ rest"
  have args: "?args ! 0 = type_word (bo_sign thisop) (bo_bits thisop)"
    "?args ! 1 = offset_word hash (unat (bo_offset thisop)) (bo_bits thisop)"
    "bo_opcode thisop \<noteq> BITFIELDOP_GET \<Longrightarrow> ?args ! 2 = dec_int (sint (bo_i64 thisop))"
    by (simp_all add: numeral_3_eq_3)
  have r: "\<lparr>bo_offset = bo_offset thisop, bo_i64 = 0, bo_opcode = bo_opcode thisop, bo_owtype = bo_owtype thisop,
      bo_bits = bo_bits thisop, bo_sign = bo_sign thisop\<rparr> = thisop\<lparr>bo_i64 := 0\<rparr>" by (cases thisop) simp
  show ?thesis
  proof (cases "bo_opcode thisop = BITFIELDOP_GET")
    case True
    then have "thisop\<lparr>bo_i64 := 0\<rparr> = thisop" using assms by (cases thisop) simp
    then show ?thesis
      unfolding parse_op_def args(1,2) t o option.case prod.case Let_def r using True by simp
  next
    case False
    have "thisop\<lparr>bo_i64 := 0, bo_i64 := word_of_int (sint (bo_i64 thisop))\<rparr> = thisop" by (cases thisop) simp
    then show ?thesis
      unfolding parse_op_def args(1,2) args(3) [OF False] t o v option.case prod.case Let_def r
      using False by (auto simp: max_def)
  qed
qed

lemma parse_policy:
  "parse_ops obey limit ow high readonly ([111, 118, 101, 114, 102, 108, 111, 119] # ow_word ow' # rest)
     = parse_ops obey limit ow' high readonly rest"
  by (simp add: words_read)

lemma parse_one:
  assumes "parse_opcode subcmd (length args) = Some opc"
    "parse_op obey limit ow high readonly opc args = Inr (thisop, high', readonly', taken)"
  shows "parse_ops obey limit ow high readonly (subcmd # args)
     = (case parse_ops obey limit ow high' readonly' (drop taken args) of
         Inl e \<Rightarrow> Inl e | Inr (ops, r) \<Rightarrow> Inr (thisop # ops, r))"
  using assms by simp

lemma parse_text:
  assumes "\<forall>h \<in> set hs. op_given obey limit h"
  shows "parse_ops obey limit ow high readonly (concat (map op_text hs))
    = Inr (map snd hs, highest (map snd hs) high, readonly \<and> (\<forall>thisop \<in> set (map snd hs). bo_opcode thisop = BITFIELDOP_GET))"
  using assms
proof (induction hs arbitrary: ow high readonly)
  case (Cons h hs)
  obtain hash thisop where h: "h = (hash, thisop)" by fastforce
  let ?rest = "concat (map op_text hs)" and ?get = "bo_opcode thisop = BITFIELDOP_GET"
  let ?args = "drop 3 (op_text h) @ ?rest"
  have split: "concat (map op_text (h # hs)) = [111, 118, 101, 114, 102, 108, 111, 119] # ow_word (bo_owtype thisop)
      # opcode_word (bo_opcode thisop) # ?args"
    by (simp add: h numeral_3_eq_3)
  have n: "(if ?get then 2 else 3) \<le> length ?args" by (simp add: h numeral_3_eq_3)
  have d: "drop (if ?get then 2 else 3) ?args = ?rest" by (simp add: h numeral_3_eq_3 numeral_2_eq_2)
  have given: "op_given obey limit (hash, thisop)" using Cons.prems h by simp
  note one = parse_op_text [OF given, of _ _ ?rest, folded h]
  have "parse_ops obey limit ow high readonly (concat (map op_text (h # hs)))
      = parse_ops obey limit (bo_owtype thisop) high readonly (opcode_word (bo_opcode thisop) # ?args)"
    unfolding split by (rule parse_policy)
  also have "\<dots> = (case parse_ops obey limit (bo_owtype thisop)
        (if ?get then high else max high (bo_offset thisop + word_of_nat (bo_bits thisop) - 1)) (readonly \<and> ?get) ?rest of
       Inl e \<Rightarrow> Inl e | Inr (ops, r) \<Rightarrow> Inr (thisop # ops, r))"
    unfolding parse_one [OF words_read(4) [OF n] one] d ..
  also have "\<dots> = Inr (map snd (h # hs), highest (map snd (h # hs)) high,
      readonly \<and> (\<forall>thisop \<in> set (map snd (h # hs)). bo_opcode thisop = BITFIELDOP_GET))"
    using Cons by (simp add: h)
  finally show ?case .
qed simp





section \<open>Where the code departs from the documentation\<close>

text \<open>C35. A saturating \<open>SET\<close> whose argument is too small by far is stored as the largest integer of the field, not the
  smallest: for a signed field because \<open>maxincr\<close> wraps and the test for overflow is made before the one for underflow,
  for an unsigned one because a negative argument is read as a large one.
\<close>

theorem saturation_wrong_end:
  assumes "1 \<le> k" "k \<le> 63" "- (2 ^ 63) \<le> a"
    and "if sign then 2 ^ 63 \<le> field_max True k - a else a < 0"
  shows "(if sign then checkSignedBitfieldOverflow else checkUnsignedBitfieldOverflow) (word_of_int a) 0 k BFOVERFLOW_SAT
           = (1, Some (word_of_int (field_max sign k)))"
  using saturate_signed [OF assms(1-3)] saturate_unsigned [OF assms(1-3)] assms(4) by (cases sign) simp_all

theorem saturation_wrong_end_witness:
  "checkSignedBitfieldOverflow (word_of_int (- (2 ^ 63))) 0 8 BFOVERFLOW_SAT = (1, Some 127)
     \<and> field_min True 8 = -128"
  using saturation_wrong_end [of 8 "- (2 ^ 63)" True] by (simp add: field_max_def field_min_def)

text \<open>The product of a \<open>#\<close> offset and the width wraps, so that an offset far beyond the limit is accepted as 0.\<close>

lemma hash_offset_wraps: "getBitOffsetFromArgument False 536870912 (35 # dec_int (2 ^ 60)) True 16 = Some 0"
proof -
  have "string2ll (dec_int (2 ^ 60)) = Some (2 ^ 60)" using string2ll_iff [of "dec_int (2 ^ 60)"] by (simp add: is_ll_def limits_defs)
  then show ?thesis by (simp add: getBitOffsetFromArgument_def cstr_at_def)
qed

text \<open>Operations that cannot store their argument, on a string of zeros.\<close>

definition op_fails :: "bitfieldOp \<Rightarrow> bool" where
  "op_fails thisop \<longleftrightarrow> bo_owtype thisop = BFOVERFLOW_FAIL
     \<and> (sint (bo_i64 thisop) < field_min (bo_sign thisop) (bo_bits thisop) \<or> field_max (bo_sign thisop) (bo_bits thisop) < sint (bo_i64 thisop))"

lemma field_zero: "field sign (\<lambda>_. False) off k = 0"
proof -
  have "read_bits (\<lambda>_. False) off k = 0" by (rule bit_eqI) (simp add: bit_read)
  then show ?thesis by (simp add: field_def)
qed

lemma exec_failing:
  assumes "\<forall>thisop \<in> set ops. op_ok thisop \<and> (bo_opcode thisop \<noteq> BITFIELDOP_GET \<longrightarrow>
      op_fails thisop \<and> unat (bo_offset thisop) + bo_bits thisop \<le> 8 * length p)"
    and "length p < 2 ^ 61" "bit0 p = (\<lambda>_. False)"
  shows "exec_ops dirty ops p = Some (map (\<lambda>thisop. if bo_opcode thisop = BITFIELDOP_GET then Some 0 else None) ops, p, 0)"
  using assms(1)
proof (induction ops)
  case (Cons thisop ops)
  have ok: "op_ok thisop" using Cons.prems by simp
  have one: "(if bo_opcode thisop = BITFIELDOP_GET then map_option (\<lambda>r. (r, p, False)) (exec_get thisop p)
        else if bo_sign thisop then exec_signed dirty thisop p else exec_unsigned dirty thisop p)
      = Some (if bo_opcode thisop = BITFIELDOP_GET then Some 0 else None, p, False)"
  proof (cases "bo_opcode thisop = BITFIELDOP_GET")
    case True
    then show ?thesis
      using exec_get_ok(1) [OF ok True assms(2)] assms(3) by (simp add: spec_op_def Let_def field_zero)
  next
    case False
    obtain r p' c where x: "exec_op dirty thisop p = Some (r, p', c)" "spec_op thisop (bit0 p) = (r, bit0 p')"
      using exec_op_ok [OF ok False, of p dirty] Cons.prems False assms(2) by auto
    have "r = None"
      using x(2) Cons.prems False
      by (cases "bo_opcode thisop") (auto simp: spec_op_def Let_def assms(3) field_zero set_fit_def wrong_end_def fit_def op_fails_def
          split: if_splits)
    then have "exec_op dirty thisop p = Some (None, p, False)"
      using x(1) exec_op_eq [OF False, of dirty p]
      by (auto simp: bind_eq_Some_conv split: option.splits)
    then show ?thesis using False by (simp add: exec_op_def)
  qed
  show ?case
    unfolding exec_ops.simps one using Cons by simp
qed simp

text \<open>C36. A \<open>BITFIELD\<close> on a missing key in which every \<open>SET\<close> and \<open>INCRBY\<close> fails under \<open>OVERFLOW FAIL\<close> replies nulls (and
  zeros for \<open>GET\<close>) and counts no change, so nothing is propagated or notified; but it has created the key, with zero
  bytes up to the last bit that it would have written.\<close>

theorem bitfield_fail_creates_key:
  assumes "parse_ops obey limit BFOVERFLOW_WRAP 0 True args = Inr (ops, high, False)"
    and "\<forall>thisop \<in> set ops. bo_opcode thisop \<noteq> BITFIELDOP_GET \<longrightarrow> op_fails thisop"
  shows "bitfieldGeneric obey limit False args None
     = Some (Inr (map (\<lambda>thisop. if bo_opcode thisop = BITFIELDOP_GET then Some 0 else None) ops,
         Some (replicate (unat high div 8 + 1) 0), 0))"
proof -
  have ok: "\<forall>thisop \<in> set ops. parsed thisop high" "unat high < 2 ^ 63 + 64"
    using parse_ops_ok [OF assms(1)] by simp_all
  let ?p = "replicate (unat high div 8 + 1) (0 :: u8)"
  have "bit0 ?p = (\<lambda>_. False)" using bit0_pad [of "[]"] by (simp add: bit0_nil del: replicate_Suc)
  moreover have "length ?p < 2 ^ 61" using ok(2) by simp
  moreover have "unat high + 1 \<le> 8 * length ?p" using dividend_less_div_times [of 8 "unat high"] by simp
  ultimately have "exec_ops True ops ?p = Some (map (\<lambda>thisop. if bo_opcode thisop = BITFIELDOP_GET then Some 0 else None) ops, ?p, 0)"
    using ok(1) assms(2) by (intro exec_failing) (auto simp: parsed_def simp del: length_replicate)
  then show ?thesis
    using assms(1) by (simp add: bitfieldGeneric_def lookupStringForBitCommand_def unat_offset Let_def del: replicate_Suc)
qed

definition ex_fail :: bitfieldOp where
  "ex_fail = \<lparr>bo_offset = 8, bo_i64 = 300, bo_opcode = BITFIELDOP_SET, bo_owtype = BFOVERFLOW_FAIL, bo_bits = 8, bo_sign = False\<rparr>"

theorem bitfield_fail_creates_key_witness:
  "bitfieldGeneric False 536870912 False (op_text (True, ex_fail)) None = Some (Inr ([None], Some [0, 0], 0))"
proof -
  have "parse_ops False 536870912 BFOVERFLOW_WRAP 0 True (concat (map op_text [(True, ex_fail)]))
      = Inr (map snd [(True, ex_fail)], highest (map snd [(True, ex_fail)]) 0,
          True \<and> (\<forall>thisop \<in> set (map snd [(True, ex_fail)]). bo_opcode thisop = BITFIELDOP_GET))"
    by (rule parse_text) (simp add: ex_fail_def op_ok_def)
  moreover have "concat (map op_text [(True, ex_fail)]) = op_text (True, ex_fail)" by simp
  moreover have "highest [ex_fail] 0 = 15" "bo_opcode ex_fail = BITFIELDOP_SET" by (simp_all add: ex_fail_def)
  ultimately have parse: "parse_ops False 536870912 BFOVERFLOW_WRAP 0 True (op_text (True, ex_fail)) = Inr ([ex_fail], 15, False)"
    by (simp del: op_text.simps)
  have "\<forall>thisop \<in> set [ex_fail]. bo_opcode thisop \<noteq> BITFIELDOP_GET \<longrightarrow> op_fails thisop"
    by (simp add: ex_fail_def op_fails_def field_min_def field_max_def)
  note bitfield_fail_creates_key [OF parse this]
  moreover have "replicate (unat (15 :: 64 word) div 8 + 1) (0 :: u8) = [0, 0]"
  proof -
    have "unat (15 :: 64 word) = 15" by simp
    then have "unat (15 :: 64 word) div 8 + 1 = Suc (Suc 0)" by linarith
    then show ?thesis by (simp only: replicate.simps)
  qed
  ultimately show ?thesis by (simp add: ex_fail_def del: op_text.simps)
qed

end
