(* ===== verification/Bitcount_Spec.thy ===== *)
theory Bitcount_Spec
  imports Bitfield_Spec
begin

text \<open>
  \<open>BITCOUNT\<close> and \<open>BITPOS\<close> against the bits of the string: the masks of the first and last byte, which let the code count
  and search whole bytes, cut out exactly the bits of the range.
\<close>

section \<open>Counting in ranges\<close>

definition count_bits :: "bytes \<Rightarrow> nat \<Rightarrow> nat \<Rightarrow> nat" where
  "count_bits p a b = length (filter (bit0 p) [a..<b])"

lemma count_bits_split: "a \<le> b \<Longrightarrow> b \<le> c \<Longrightarrow> count_bits p a c = count_bits p a b + count_bits p b c"
  unfolding count_bits_def using upt_add_eq_append [of a b "c - b"] by simp

lemma bits_of_bit0: "bits_of p = map (bit0 p) [0..<8 * length p]"
  by (rule nth_equalityI) (simp_all add: nth_bits_of bit0_def)

lemma bit_count_bit0: "bit_count p = length (filter (bit0 p) [0..<8 * length p])"
  unfolding bit_count_def bits_of_bit0 by (simp add: filter_map comp_def)

lemma bit0_slice: "i + n \<le> length p \<Longrightarrow> j < 8 * n \<Longrightarrow> bit0 (slice i n p) j = bit0 p (8 * i + j)"
  by (simp add: bit0_def bit_at_def slice_def)

lemma filter_shift: "length (filter P [a..<a + n]) = length (filter (\<lambda>j. P (a + j)) [0..<n])"
proof -
  have "[a..<a + n] = map (\<lambda>j. a + j) [0..<n]" by (simp add: map_add_upt add.commute)
  then show ?thesis by (simp add: filter_map comp_def)
qed

lemma bit_count_slice:
  assumes "i + n \<le> length p"
  shows "bit_count (slice i n p) = count_bits p (8 * i) (8 * (i + n))"
proof -
  have "count_bits p (8 * i) (8 * (i + n)) = length (filter (\<lambda>j. bit0 p (8 * i + j)) [0..<8 * n])"
    unfolding count_bits_def using filter_shift [of "bit0 p" "8 * i" "8 * n"] by (simp add: algebra_simps)
  also have "\<dots> = length (filter (bit0 (slice i n p)) [0..<8 * n])"
    using bit0_slice [OF assms] by (intro arg_cong [of _ _ length] filter_cong) simp_all
  finally show ?thesis using assms by (simp add: bit_count_bit0 slice_def)
qed

lemma bit_count_masked:
  assumes "i < length p" "lo \<le> hi" "hi \<le> 8" "\<And>j. j < 8 \<Longrightarrow> bit m (7 - j) \<longleftrightarrow> lo \<le> j \<and> j < hi"
  shows "bit_count [p ! i AND m] = count_bits p (8 * i + lo) (8 * i + hi)"
proof -
  let ?P = "\<lambda>j. lo \<le> j \<and> j < hi \<and> bit0 p (8 * i + j)"
  have "bit0 [p ! i AND m] j = ?P j" if "j < 8" for j
    using that assms(1,4) by (auto simp: bit0_def bit_at_def bit_and_iff)
  then have "bit_count [p ! i AND m] = length (filter ?P [0..<8])"
    unfolding bit_count_bit0 by (intro arg_cong [of _ _ length] filter_cong) simp_all
  also have "[0..<8] = [0..<lo] @ [lo..<hi] @ [hi..<8]" 
    using assms(2,3) upt_add_eq_append [of 0 lo "8 - lo"] upt_add_eq_append [of lo hi "8 - hi"] by simp
  also have "length (filter ?P \<dots>) = length (filter (\<lambda>j. bit0 p (8 * i + j)) [lo..<hi])"
  proof -
    have "filter ?P [0..<lo] = []" "filter ?P [hi..<8] = []" by (auto simp: filter_empty_conv)
    moreover have "filter ?P [lo..<hi] = filter (\<lambda>j. bit0 p (8 * i + j)) [lo..<hi]" by (intro filter_cong) simp_all
    ultimately show ?thesis by simp
  qed
  also have "\<dots> = count_bits p (8 * i + lo) (8 * i + hi)"
  proof -
    have "[8 * i + lo..<8 * i + hi] = map (\<lambda>j. 8 * i + j) [lo..<hi]"
      by (rule nth_equalityI) (simp_all add: algebra_simps)
    then show ?thesis by (simp add: count_bits_def filter_map comp_def)
  qed
  finally show ?thesis .
qed

section \<open>Masks\<close>

lemma first_mask_bit: "0 \<le> start \<Longrightarrow> j < 8 \<Longrightarrow> bit (first_neg_mask start) (7 - j) \<longleftrightarrow> j < nat start mod 8"
proof -
  assume *: "0 \<le> start" "j < 8"
  have "nat (start mod 8) = nat start mod 8" using *(1) by (simp add: nat_mod_distrib)
  moreover have "first_neg_mask start = ucast (NOT (mask (8 - nat (start mod 8))) AND mask 8 :: 32 word)"
    by (simp add: first_neg_mask_def mask_eq_exp_minus_1)
  moreover have "7 - j < 8 - nat start mod 8 \<longleftrightarrow> \<not> j < nat start mod 8" "7 - j < 8"
    using *(2) mod_less_divisor [of 8 "nat start"] by linarith+
  ultimately show ?thesis
    by (simp add: bit_unsigned_iff bit_and_iff bit_not_iff bit_mask_iff)
qed

lemma last_mask_bit: "0 \<le> e \<Longrightarrow> j < 8 \<Longrightarrow> bit (last_neg_mask e) (7 - j) \<longleftrightarrow> nat e mod 8 < j"
proof -
  assume *: "0 \<le> e" "j < 8"
  have "nat (e mod 8) = nat e mod 8" using *(1) by (simp add: nat_mod_distrib)
  moreover have "last_neg_mask e = ucast (mask (7 - nat (e mod 8)) :: 32 word)"
    by (simp add: last_neg_mask_def mask_eq_exp_minus_1)
  moreover have "7 - j < 7 - nat e mod 8 \<longleftrightarrow> nat e mod 8 < j" "7 - j < 8" "7 - j < 32"
    using *(2) mod_less_divisor [of 8 "nat e"] by linarith+
  ultimately show ?thesis
    by (simp add: bit_unsigned_iff bit_mask_iff)
qed

section \<open>Ranges\<close>

text \<open>The documented meaning of a range: negative bounds count from the end, and both are brought into the string.\<close>

definition range_first :: "int \<Rightarrow> int \<Rightarrow> int" where
  "range_first n start = max 0 (if start < 0 then n + start else start)"

definition range_last :: "int \<Rightarrow> int \<Rightarrow> int" where
  "range_last n e = min (n - 1) (max 0 (if e < 0 then n + e else e))"

lemma clip_range_eq:
  "clip_range n start e isbit =
     (if isbit \<and> range_first n start \<le> range_last n e
      then (range_first n start div 8, range_last n e div 8, first_neg_mask (range_first n start), last_neg_mask (range_last n e))
      else (range_first n start, range_last n e, 0, 0))"
proof -
  let ?e = "if (if e < 0 then n + e else e) < 0 then 0 else if e < 0 then n + e else e"
  have first: "(if (if start < 0 then n + start else start) < 0 then 0 else if start < 0 then n + start else start) = range_first n start"
    by (simp add: range_first_def max_def)
  have last: "(if ?e \<ge> n then n - 1 else ?e) = range_last n e" by (simp add: range_last_def max_def min_def)
  show ?thesis unfolding clip_range_def Let_def first last ..
qed

text \<open>The bits of a range, as offsets: none when it is empty.\<close>

definition range_bits :: "bytes \<Rightarrow> int \<Rightarrow> int \<Rightarrow> bool \<Rightarrow> nat \<times> nat" where
  "range_bits p start e isbit =
     (let unit = (if isbit then 1 else 8); n = (if isbit then int (length p) * 8 else int (length p));
          first = range_first n start; last' = range_last n e
      in if first \<le> last' then (nat first * nat unit, (nat last' + 1) * nat unit) else (0, 0))"

lemma count_masked:
  assumes "a \<le> e" "e < 8 * length p"
  shows "bit_count (slice (a div 8) (e div 8 - a div 8 + 1) p)
      = count_bits p a (e + 1) + bit_count [p ! (a div 8) AND first_neg_mask (int a), p ! (e div 8) AND last_neg_mask (int e)]"
proof -
  have ae: "a div 8 \<le> e div 8" "e div 8 < length p" using assms by (auto intro: div_le_mono)
  have a: "8 * (a div 8) + a mod 8 = a" "a mod 8 < 8" and e: "8 * (e div 8) + (e mod 8 + 1) = e + 1" "e mod 8 < 8" by simp_all
  have 1: "bit_count (slice (a div 8) (e div 8 - a div 8 + 1) p) = count_bits p (8 * (a div 8)) (8 * (e div 8) + 8)"
    using bit_count_slice [of "a div 8" "e div 8 - a div 8 + 1" p] ae by (simp add: add.commute)
  have 2: "bit_count [p ! (a div 8) AND first_neg_mask (int a)] = count_bits p (8 * (a div 8)) a"
    using bit_count_masked [of "a div 8" p 0 "a mod 8"] first_mask_bit [of "int a"] ae a by simp
  have 3: "bit_count [p ! (e div 8) AND last_neg_mask (int e)] = count_bits p (e + 1) (8 * (e div 8) + 8)"
    using bit_count_masked [of "e div 8" p "e mod 8 + 1" 8 "last_neg_mask (int e)"] last_mask_bit [of "int e"] ae e by (simp add: Suc_le_eq)
  have "8 * (a div 8) \<le> a" "a \<le> e + 1" "e + 1 \<le> 8 * (e div 8) + 8" using assms(1) a e by linarith+
  then have "count_bits p (8 * (a div 8)) (8 * (e div 8) + 8)
      = count_bits p (8 * (a div 8)) a + (count_bits p a (e + 1) + count_bits p (e + 1) (8 * (e div 8) + 8))"
    using count_bits_split [of "8 * (a div 8)" a "8 * (e div 8) + 8" p] count_bits_split [of a "e + 1" "8 * (e div 8) + 8" p] by linarith
  then show ?thesis using 1 2 3 bit_count_simps(2) [of "[p ! (a div 8) AND first_neg_mask (int a)]" "[p ! (e div 8) AND last_neg_mask (int e)]"]
    by simp
qed


definition bitcount_spec :: "bytes \<Rightarrow> (int \<times> int \<times> bool) option \<Rightarrow> nat" where
  "bitcount_spec p rg = (case rg of
     None \<Rightarrow> count_bits p 0 (8 * length p)
   | Some (start, e, isbit) \<Rightarrow>
       if start < 0 \<and> e < 0 \<and> start > e then 0
       else let (a, b) = range_bits p start e isbit in count_bits p a b)"

lemma masks_if: "(if m \<noteq> 0 then c AND m else 0) = c AND (m :: u8)" by simp

lemma bitcount_masked_ok:
  assumes "A \<le> E" "E < 8 * length p"
  shows "bitcount_masked be al al2 p (int (A div 8), int (E div 8), first_neg_mask (int A), last_neg_mask (int E))
           = Some (int (count_bits p A (E + 1)))"
proof -
  have le: "A div 8 \<le> E div 8" "E div 8 < length p" using assms by (auto intro: div_le_mono)
  have n: "nat (int (E div 8) - int (A div 8) + 1) = E div 8 - A div 8 + 1"
    using le(1) by (simp add: nat_diff_distrib nat_add_distrib)
  have zero: "bit_count [0, 0] = 0"
  proof -
    have "bit0 [0, 0] = (\<lambda>_. False)" using bit0_pad [of "[]" 2] by (simp add: bit0_nil numeral_2_eq_2)
    then show ?thesis by (simp add: bit_count_bit0)
  qed
  have le': "\<not> int (A div 8) > int (E div 8)" "\<not> (int (A div 8) < 0 \<or> int (E div 8) \<ge> int (length p))" using le by simp_all
  show ?thesis
    unfolding bitcount_masked_def Let_def prod.case n masks_if redisPopcount_ok nat_int count_masked [OF assms] if_not_P [OF le'(1)] if_not_P [OF le'(2)]
    using zero by (cases "first_neg_mask (int A) = 0 \<and> last_neg_mask (int E) = 0") auto
qed

lemma mask_byte_range: "first_neg_mask (int (8 * i)) = 0" "last_neg_mask (int (8 * i + 7)) = 0"
proof -
  have *: "m = 0" if "\<And>j. j < 8 \<Longrightarrow> \<not> bit m (7 - j)" for m :: u8
  proof (rule bit_word_eqI)
    fix n
    assume "n < LENGTH(8)"
    then show "bit m n = bit 0 n" using that [of "7 - n"] by simp
  qed
  show "first_neg_mask (int (8 * i)) = 0" by (rule *) (simp only: first_mask_bit of_nat_0_le_iff nat_int, simp)
  have m: "(8 * i + 7) mod 8 = 7" by presburger
  show "last_neg_mask (int (8 * i + 7)) = 0"
  proof (rule *)
    fix j :: nat
    assume "j < 8"
    then show "\<not> bit (last_neg_mask (int (8 * i + 7))) (7 - j)"
      using last_mask_bit [OF of_nat_0_le_iff, of j "8 * i + 7"] unfolding nat_int m by simp
  qed
qed

text \<open>Either way of counting gives a range of bits.\<close>

lemma clip_range_bits:
  fixes isbit :: bool and p :: bytes
  defines "n \<equiv> if isbit then int (length p) * 8 else int (length p)"
  shows "range_first n start > range_last n e \<and> range_bits p start e isbit = (0, 0)
           \<and> clip_range n start e isbit = (range_first n start, range_last n e, 0, 0) \<or>
         (\<exists>A E. A \<le> E \<and> E < 8 * length p \<and> range_bits p start e isbit = (A, E + 1)
           \<and> clip_range n start e isbit = (int (A div 8), int (E div 8), first_neg_mask (int A), last_neg_mask (int E)))"
proof -
  let ?a = "range_first n start" and ?e = "range_last n e"
  show ?thesis
  proof (cases "?a \<le> ?e")
    case True
    have "0 \<le> ?a" by (simp add: range_first_def)
    then obtain a where a: "?a = int a" using nonneg_int_cases by blast
    obtain e' where e: "?e = int e'" using order_trans [OF \<open>0 \<le> ?a\<close> True] nonneg_int_cases by blast
    have "?e < n" unfolding range_last_def by linarith
    then have lt: "int e' < n" unfolding e .
    have le: "a \<le> e'" using True unfolding a e by simp
    show ?thesis
    proof (cases isbit)
      case True
      then have "range_bits p start e isbit = (a, e' + 1)" "e' < 8 * length p"
        using le lt True a e by (simp_all add: range_bits_def Let_def n_def)
      moreover have "clip_range n start e isbit = (int (a div 8), int (e' div 8), first_neg_mask (int a), last_neg_mask (int e'))"
        using le True unfolding clip_range_eq a e by (simp add: zdiv_int)
      ultimately show ?thesis using le by blast
    next
      case False
      then have "range_bits p start e isbit = (8 * a, 8 * e' + 7 + 1)" "8 * e' + 7 < 8 * length p"
        using le lt False a e by (simp_all add: range_bits_def Let_def n_def)
      moreover have "8 * a div 8 = a" "(8 * e' + 7) div 8 = e'" by simp_all
      moreover have "clip_range n start e isbit = (int a, int e', 0, 0)"
        using False unfolding clip_range_eq a e by simp
      ultimately show ?thesis using le mask_byte_range [of a] mask_byte_range [of e']
        by (intro disjI2 exI [of _ "8 * a"] exI [of _ "8 * e' + 7"]) simp
    qed
  next
    case False
    then show ?thesis by (simp add: clip_range_eq range_bits_def Let_def n_def)
  qed
qed

text \<open>C33. \<open>BITCOUNT\<close> replies the number of set bits of the string, or of the bytes or bits of a range whose bounds may be
  negative or outside the string; no byte outside the string is read.
\<close>

theorem bitcount_correct:
  assumes "length (getObjectReadOnlyString ob) < 2 ^ 60"
  shows "bitcountCommand be al al2 (Some ob) rg = Some (int (bitcount_spec (getObjectReadOnlyString ob) rg))"
proof -
  let ?p = "getObjectReadOnlyString ob"
  show ?thesis
  proof (cases rg)
    case None
    show ?thesis
    proof (cases "?p = []")
      case True
      then show ?thesis using None by (simp add: bitcountCommand_def bitcount_spec_def bitcount_masked_def count_bits_def)
    next
      case False
      then obtain n where n: "length ?p = Suc n" by (cases ?p) simp_all
      have "(8 * n + 7) div 8 = n" "int (length ?p) - 1 = int n" using n by simp_all
      then show ?thesis using None n bitcount_masked_ok [of 0 "8 * n + 7" ?p be "al" al2] mask_byte_range [of 0] mask_byte_range [of n]
        by (simp add: bitcountCommand_def bitcount_spec_def)
    qed
  next
    case (Some r)
    obtain start e isbit where r: "rg = Some (start, e, isbit)" using Some by (metis prod.exhaust)
    have big: "\<not> int (length ?p) > LLONG_MAX div 8" using assms by (simp add: LLONG_MAX_def)
    show ?thesis
    proof (cases "start < 0 \<and> e < 0 \<and> start > e")
      case True
      then show ?thesis using r big by (simp add: bitcountCommand_def bitcount_spec_def)
    next
      case 2: False
      let ?n = "if isbit then int (length ?p) * 8 else int (length ?p)"
      have cmd: "bitcountCommand be al al2 (Some ob) rg = bitcount_masked be al al2 ?p (clip_range ?n start e isbit)"
        unfolding bitcountCommand_def r Let_def option.case prod.case if_not_P [OF big] if_not_P [OF 2] ..
      have spec: "bitcount_spec ?p rg = (let (x, z) = range_bits ?p start e isbit in count_bits ?p x z)"
        unfolding bitcount_spec_def r option.case prod.case if_not_P [OF 2] ..
      show ?thesis unfolding cmd spec
        using clip_range_bits [where isbit = isbit and p = ?p and start = start and e = e]
      proof (elim disjE exE conjE)
        fix A E
        assume "A \<le> E" "E < 8 * length ?p" "range_bits ?p start e isbit = (A, E + 1)"
          and clip: "clip_range ?n start e isbit = (int (A div 8), int (E div 8), first_neg_mask (int A), last_neg_mask (int E))"
        then show "bitcount_masked be al al2 ?p (clip_range ?n start e isbit) = Some (int (let (x, z) = range_bits ?p start e isbit in count_bits ?p x z))"
          unfolding clip by (simp only: bitcount_masked_ok Let_def prod.case)
      qed (simp add: bitcount_masked_def count_bits_def)
    qed
  qed
qed

theorem bitcount_correct_witness:
  "bitcountCommand True 1 2 (Some (ObjStr [255, 15])) (Some (4, -1, True)) = Some 8"
  using bitcount_correct [of "ObjStr [255, 15]" True 1 2 "Some (4, -1, True)"]
  by (simp add: getObjectReadOnlyString_def bitcount_spec_def range_bits_def range_first_def range_last_def count_bits_def bit0_def bit_at_def
      upt_rec)

end
