(* ===== verification/Bitpos_Spec.thy ===== *)
theory Bitpos_Spec
  imports Bitcount_Spec
begin

text \<open>
  \<open>BITPOS\<close> against the first bit of a range of the string.  The code searches the first byte, the bytes between and the
  last byte in turn, and never reads outside the range.
\<close>

section \<open>The first bit of a range\<close>

definition find_bit :: "bytes \<Rightarrow> bool \<Rightarrow> nat \<Rightarrow> nat \<Rightarrow> nat option" where
  "find_bit p b x y = List.find (\<lambda>i. bit0 p i = b) [x..<y]"

lemma find_append: "List.find P (xs @ ys) = (case List.find P xs of None \<Rightarrow> List.find P ys | Some x \<Rightarrow> Some x)"
  by (induction xs) auto

lemma find_map_index: "List.find P (map f xs) = map_option f (List.find (\<lambda>x. P (f x)) xs)"
  by (induction xs) auto

lemma find_bit_split: "x \<le> y \<Longrightarrow> y \<le> z \<Longrightarrow> find_bit p b x z = (case find_bit p b x y of None \<Rightarrow> find_bit p b y z | Some i \<Rightarrow> Some i)"
  unfolding find_bit_def using upt_add_eq_append [of x y "z - y"] by (simp add: find_append)

lemma find_bit_Some: "find_bit p b x y = Some i \<Longrightarrow> x \<le> i \<and> i < y \<and> bit0 p i = b"
  by (auto simp: find_bit_def find_Some_iff)

lemma find_bit_None: "find_bit p b x y = None \<longleftrightarrow> (\<forall>i. x \<le> i \<and> i < y \<longrightarrow> bit0 p i \<noteq> b)"
  by (auto simp: find_bit_def find_None_iff)

lemma find_first_bit: "List.find (\<lambda>i. bs ! i = b) [0..<length bs] = (if b \<in> set bs then Some (first_bit b bs) else None)"
proof (induction bs)
  case (Cons x bs)
  have "[0..<length (x # bs)] = 0 # map Suc [0..<length bs]" by (simp add: upt_conv_Cons map_Suc_upt del: upt_Suc)
  moreover have "List.find (\<lambda>i. (x # bs) ! i = b) (map Suc [0..<length bs]) = map_option Suc (List.find (\<lambda>i. bs ! i = b) [0..<length bs])"
    by (simp add: find_map_index)
  ultimately show ?case using Cons.IH by (auto simp: first_bit_def)
qed simp

text \<open>A search in \<open>n\<close> bytes whose bits, from \<open>o\<close> on, are those of the string.\<close>

definition found_at :: "bool \<Rightarrow> nat \<Rightarrow> nat \<Rightarrow> nat option \<Rightarrow> int" where
  "found_at b base n r = (case r of Some i \<Rightarrow> int i - int base | None \<Rightarrow> if b then -1 else 8 * int n)"

lemma search_bytes:
  assumes "base + 8 * length s = y" "x \<le> y" "base \<le> x" "z \<le> y" "x \<le> z"
    and "\<And>j. j < 8 * length s \<Longrightarrow> bit0 s j = (if x \<le> base + j \<and> base + j < z then bit0 p (base + j) else \<not> b)"
  shows "redisBitpos be al s b = Some (found_at b base (length s) (find_bit p b x z))"
proof -
  let ?n = "length s"
  have "find_bit s b 0 (8 * ?n) = map_option (\<lambda>i. i - base) (find_bit p b x z)"
  proof (cases "find_bit p b x z")
    case None
    have "bit0 s j \<noteq> b" if "j < 8 * ?n" for j
      using None assms(6) [OF that] unfolding find_bit_None by auto
    then have "find_bit s b 0 (8 * ?n) = None" unfolding find_bit_None by simp
    then show ?thesis using None by simp
  next
    case (Some i)
    note i = find_bit_Some [OF Some]
    have lt: "i - base < 8 * ?n" "base + (i - base) = i" using i assms(1,3,4) by linarith+
    have before: "find_bit s b 0 (i - base) = None"
    proof -
      have "bit0 s j \<noteq> b" if j: "j < i - base" for j
      proof (cases "x \<le> base + j")
        case True
        have "bit0 p (base + j) \<noteq> b"
        proof
          assume "bit0 p (base + j) = b"
          moreover have "find_bit p b x z = (case find_bit p b x (base + j + 1) of None \<Rightarrow> find_bit p b (base + j + 1) z | Some i \<Rightarrow> Some i)"
            using True i j by (intro find_bit_split) linarith+
          moreover have "find_bit p b x (base + j + 1) \<noteq> None"
            using True \<open>bit0 p (base + j) = b\<close> unfolding find_bit_None by auto
          ultimately obtain i' where "find_bit p b x (base + j + 1) = Some i'" "i' = i" using Some by auto
          then show False using find_bit_Some [of p b x "base + j + 1" i'] j by auto
        qed
        then show ?thesis using assms(6) [of j] j lt by auto
      next
        case False
        then show ?thesis using assms(6) [of j] j lt by auto
      qed
      then show ?thesis unfolding find_bit_None by simp
    qed
    have "find_bit s b (i - base) (8 * ?n) = Some (i - base)"
    proof -
      have "[i - base..<8 * ?n] = (i - base) # [Suc (i - base)..<8 * ?n]" using lt(1) by (simp add: upt_conv_Cons)
      moreover have "bit0 s (i - base) = b" using assms(6) [OF lt(1)] i lt(2) by simp
      ultimately show ?thesis by (simp add: find_bit_def)
    qed
    then show ?thesis using before Some find_bit_split [of 0 "i - base" "8 * ?n" s b] lt(1) by simp
  qed
  moreover have "List.find (\<lambda>i. bits_of s ! i = b) [0..<8 * ?n] = find_bit s b 0 (8 * ?n)"
    unfolding find_bit_def by (rule find_cong) (simp_all add: bits_of_bit0)
  moreover have "b \<in> set (bits_of s) \<longleftrightarrow> find_bit s b 0 (8 * ?n) \<noteq> None"
    using find_first_bit [of "bits_of s" b] calculation(2) by auto
  ultimately show ?thesis
    using find_first_bit [of "bits_of s" b] first_bit_none [of b "bits_of s"] find_bit_Some [of p b x z] assms(3)
    by (auto simp: redisBitpos_ok found_at_def of_nat_diff split: option.splits if_splits)
qed


section \<open>The three searches\<close>

text \<open>A result is right when it is the position found, or says that the search reached the end of byte \<open>t\<close>.\<close>

definition pos_ok :: "bytes \<Rightarrow> bool \<Rightarrow> nat option \<Rightarrow> nat \<Rightarrow> int \<times> int \<times> int \<Rightarrow> bool" where
  "pos_ok p b r t res \<longleftrightarrow> (case res of (start, bytes, pos) \<Rightarrow> case r of
     Some i \<Rightarrow> 0 \<le> pos \<and> pos < bytes * 8 \<and> pos + start * 8 = int i
   | None \<Rightarrow> start + bytes = int t + 1 \<and> 1 \<le> bytes \<and> pos = (if b then -1 else bytes * 8))"

lemma bit0_one: "j < 8 \<Longrightarrow> bit0 [c] j \<longleftrightarrow> bit c (7 - j)"
  by (simp add: bit0_def bit_at_def)

lemma bit0_byte: "j < 8 \<Longrightarrow> i < length p \<Longrightarrow> bit0 p (8 * i + j) \<longleftrightarrow> bit (p ! i) (7 - j)"
  by (simp add: bit0_def bit_at_def)

lemma bit_cover: "j < 8 \<Longrightarrow> bit (cover b c m) (7 - j) \<longleftrightarrow> (if bit m (7 - j) then \<not> b else bit c (7 - j))"
  by (auto simp: cover_def bit_and_iff bit_or_iff bit_not_iff)

lemma search_last:
  assumes "8 * (e div 8) \<le> x" "x \<le> e" "e div 8 < length p" "x = 8 * (e div 8)"
  shows "redisBitpos be al [cover b (p ! (e div 8)) (last_neg_mask (int e))] b = Some (found_at b (8 * (e div 8)) 1 (find_bit p b x (e + 1)))"
proof -
  have e: "8 * (e div 8) + e mod 8 = e" "e mod 8 < 8" by simp_all
  have "bit0 [cover b (p ! (e div 8)) (last_neg_mask (int e))] j
      = (if x \<le> 8 * (e div 8) + j \<and> 8 * (e div 8) + j < e + 1 then bit0 p (8 * (e div 8) + j) else \<not> b)" if j: "j < 8" for j
  proof -
    have "e mod 8 < j \<longleftrightarrow> \<not> 8 * (e div 8) + j < e + 1" using e by linarith
    then show ?thesis using last_mask_bit [of "int e" j] bit0_byte [OF j assms(3)] j assms(4) by (simp add: bit0_one bit_cover)
  qed
  then show ?thesis
    using search_bytes [of "8 * (e div 8)" "[cover b (p ! (e div 8)) (last_neg_mask (int e))]" "8 * (e div 8) + 8" x "e + 1" p b be al] assms e by simp
qed

lemma search_slice:
  assumes "i + n \<le> length p"
  shows "redisBitpos be al (slice i n p) b = Some (found_at b (8 * i) n (find_bit p b (8 * i) (8 * (i + n))))"
proof -
  have "length (slice i n p) = n" using assms by (simp add: slice_def)
  then show ?thesis
    using search_bytes [of "8 * i" "slice i n p" "8 * (i + n)" "8 * i" "8 * (i + n)" p b be al] bit0_slice [OF assms] by simp
qed

lemma bitpos_tail_ok:
  assumes "s \<le> e div 8" "e div 8 < length p"
  shows "\<exists>res. bitpos_tail be al al2 p b (int (e div 8)) (last_neg_mask (int e)) (int s) (int (e div 8) - int s + 1) = Some res
           \<and> pos_ok p b (find_bit p b (8 * s) (e + 1)) (e div 8) res"
proof -
  let ?t = "e div 8" and ?lm = "last_neg_mask (int e)"
  have e: "8 * ?t + e mod 8 = e" "e mod 8 < 8" by simp_all
  have final: "redisBitpos be al' [cover b (p ! ?t) ?lm] b = Some (found_at b (8 * ?t) 1 (find_bit p b (8 * ?t) (e + 1)))" for al'
    using search_last [of e "8 * ?t" p be al' b] assms(2) e by simp
  show ?thesis
  proof (cases "?lm = 0")
    case True
    then have "e mod 8 = 7" using last_mask_bit [of "int e" 7] e by simp
    then have "e + 1 = 8 * (?t + 1)" using e by simp
    moreover have "nat (int ?t - int s + 1) = ?t - s + 1" using assms(1) by simp
    moreover have "8 * (s + (?t - s + 1)) = e + 1" using assms(1) \<open>e + 1 = 8 * (?t + 1)\<close> by simp
    note slice = search_slice [of s "?t - s + 1" p be "al + s" b, unfolded this]
    ultimately have run: "bitpos_tail be al al2 p b (int ?t) ?lm (int s) (int ?t - int s + 1)
        = Some (int s, int ?t - int s + 1, found_at b (8 * s) (?t - s + 1) (find_bit p b (8 * s) (e + 1)))"
      using True assms slice by (simp add: bitpos_tail_def)
    show ?thesis unfolding run using assms(1) \<open>e + 1 = 8 * (?t + 1)\<close>
      by (cases "find_bit p b (8 * s) (e + 1)") (auto simp: pos_ok_def found_at_def of_nat_diff dest!: find_bit_Some)
  next
    case False
    show ?thesis
    proof (cases "s = ?t")
      case True
      then show ?thesis using False final [of al2]
        by (auto simp: bitpos_tail_def pos_ok_def found_at_def dest: find_bit_Some split: option.splits)
    next
      case False
      then have lt: "s < ?t" using assms(1) by simp
      have split: "find_bit p b (8 * s) (e + 1) = (case find_bit p b (8 * s) (8 * ?t) of None \<Rightarrow> find_bit p b (8 * ?t) (e + 1) | Some i \<Rightarrow> Some i)"
        using lt e by (intro find_bit_split) linarith+
      have "nat (int ?t - int s) = ?t - s" by simp
      then have body: "redisBitpos be (al + s) (slice s (nat (int ?t - int s)) p) b = Some (found_at b (8 * s) (?t - s) (find_bit p b (8 * s) (8 * ?t)))"
        using search_slice [of s "?t - s" p be "al + s" b] lt assms(2) by simp
      have run: "bitpos_tail be al al2 p b (int ?t) ?lm (int s) (int ?t - int s + 1) =
          (let pos = found_at b (8 * s) (?t - s) (find_bit p b (8 * s) (8 * ?t)) in
           if pos \<noteq> -1 \<and> pos \<noteq> (int ?t - int s) * 8 then Some (int s, int ?t - int s + 1, pos)
           else Some (int ?t, 1, found_at b (8 * ?t) 1 (find_bit p b (8 * ?t) (e + 1))))"
        using \<open>?lm \<noteq> 0\<close> lt final [of al2] body by (simp add: bitpos_tail_def Let_def)
      show ?thesis
      proof (cases "find_bit p b (8 * s) (8 * ?t)")
        case None
        then have "bitpos_tail be al al2 p b (int ?t) ?lm (int s) (int ?t - int s + 1)
            = Some (int ?t, 1, found_at b (8 * ?t) 1 (find_bit p b (8 * ?t) (e + 1)))"
          using lt unfolding run by (simp add: found_at_def of_nat_diff)
        then show ?thesis using split None
          by (cases "find_bit p b (8 * ?t) (e + 1)") (auto simp: pos_ok_def found_at_def dest!: find_bit_Some)
      next
        case (Some i)
        then have i: "8 * s \<le> i" "i < 8 * ?t" using find_bit_Some [OF Some] by simp_all
        then have "bitpos_tail be al al2 p b (int ?t) ?lm (int s) (int ?t - int s + 1) = Some (int s, int ?t - int s + 1, int i - 8 * int s)"
          using lt Some unfolding run by (simp add: found_at_def)
        then show ?thesis using split Some i by (simp add: pos_ok_def)
      qed
    qed
  qed
qed


text \<open>The first byte, when bits before the range are masked out of it.\<close>

lemma search_first:
  assumes "x div 8 < length p" "x < z" "z \<le> 8 * (x div 8) + 8"
    and "\<And>j. j < 8 \<Longrightarrow> bit c (7 - j) \<longleftrightarrow> (if x \<le> 8 * (x div 8) + j \<and> 8 * (x div 8) + j < z then bit (p ! (x div 8)) (7 - j) else \<not> b)"
  shows "redisBitpos be al [c] b = Some (found_at b (8 * (x div 8)) 1 (find_bit p b x z))"
proof -
  have "bit0 [c] j = (if x \<le> 8 * (x div 8) + j \<and> 8 * (x div 8) + j < z then bit0 p (8 * (x div 8) + j) else \<not> b)" if "j < 8" for j
    using that assms(1,4) by (simp add: bit0_one bit0_byte)
  then show ?thesis using search_bytes [of "8 * (x div 8)" "[c]" "8 * (x div 8) + 8" x z p b be al] assms by simp
qed

lemma mask_first_zero: "first_neg_mask (int x) = 0 \<Longrightarrow> x mod 8 = 0"
  using first_mask_bit [of "int x" 0] by simp

lemma masked_ok:
  assumes "x \<le> e" "e < 8 * length p"
  shows "\<exists>res. bitpos_masked be al al2 p b (int (x div 8), int (e div 8), first_neg_mask (int x), last_neg_mask (int e)) = Some res
           \<and> pos_ok p b (find_bit p b x (e + 1)) (e div 8) res"
proof -
  let ?s = "x div 8" and ?t = "e div 8" and ?fm = "first_neg_mask (int x)" and ?lm = "last_neg_mask (int e)"
  have st: "?s \<le> ?t" "?t < length p" using assms by (auto intro: div_le_mono)
  have x: "8 * ?s + x mod 8 = x" "x mod 8 < 8" and e: "8 * ?t + e mod 8 = e" "e mod 8 < 8" by simp_all
  show ?thesis
  proof (cases "?fm = 0")
    case True
    then have "8 * ?s = x" using mask_first_zero x by simp
    then show ?thesis using bitpos_tail_ok [of ?s e p be al al2 b] st True by (simp add: bitpos_masked_def)
  next
    case fm: False
    show ?thesis
    proof (cases "?s = ?t")
      case True
      let ?c = "if ?lm \<noteq> 0 then cover b (cover b (p ! ?s) ?fm) ?lm else cover b (p ! ?s) ?fm"
      have "bit ?c (7 - j) \<longleftrightarrow> (if x \<le> 8 * ?s + j \<and> 8 * ?s + j < e + 1 then bit (p ! ?s) (7 - j) else \<not> b)" if j: "j < 8" for j
      proof -
        have *: "j < x mod 8 \<longleftrightarrow> \<not> x \<le> 8 * ?s + j" "e mod 8 < j \<longleftrightarrow> \<not> 8 * ?s + j < e + 1" using x e True by linarith+
        then show ?thesis using first_mask_bit [of "int x" j] last_mask_bit [of "int e" j] j by (cases "?lm = 0") (auto simp: bit_cover)
      qed
      then have "redisBitpos be al2 [?c] b = Some (found_at b (8 * ?s) 1 (find_bit p b x (e + 1)))"
        using search_first [of x p "e + 1" ?c b be al2] st e True assms(1) by simp
      then have run: "bitpos_masked be al al2 p b (int ?s, int ?t, ?fm, ?lm) = Some (int ?t, 1, found_at b (8 * ?t) 1 (find_bit p b x (e + 1)))"
        using fm st True by (simp add: bitpos_masked_def Let_def split: if_splits)
      show ?thesis unfolding run using x(1) True
        by (cases "find_bit p b x (e + 1)") (auto simp: pos_ok_def found_at_def dest!: find_bit_Some)
    next
      case False
      then have lt: "?s < ?t" using st(1) by simp
      have "bit (cover b (p ! ?s) ?fm) (7 - j) \<longleftrightarrow> (if x \<le> 8 * ?s + j \<and> 8 * ?s + j < 8 * (?s + 1) then bit (p ! ?s) (7 - j) else \<not> b)"
        if j: "j < 8" for j
      proof -
        have *: "j < x mod 8 \<longleftrightarrow> \<not> x \<le> 8 * ?s + j" using x by linarith
        then show ?thesis using first_mask_bit [of "int x" j] j by (auto simp: bit_cover)
      qed
      then have first: "redisBitpos be al2 [cover b (p ! ?s) ?fm] b = Some (found_at b (8 * ?s) 1 (find_bit p b x (8 * (?s + 1))))"
        using search_first [of x p "8 * (?s + 1)" "cover b (p ! ?s) ?fm" b be al2] st x lt by simp
      have split: "find_bit p b x (e + 1) = (case find_bit p b x (8 * (?s + 1)) of None \<Rightarrow> find_bit p b (8 * (?s + 1)) (e + 1) | Some i \<Rightarrow> Some i)"
      proof (rule find_bit_split)
        show "x \<le> 8 * (?s + 1)" using x unfolding distrib_left by linarith
        have "8 * (?s + 1) \<le> 8 * ?t" using lt by simp
        then show "8 * (?s + 1) \<le> e + 1" using e by linarith
      qed
      have run: "bitpos_masked be al al2 p b (int ?s, int ?t, ?fm, ?lm) =
          (let pos = found_at b (8 * ?s) 1 (find_bit p b x (8 * (?s + 1))) in
           if pos \<noteq> -1 \<and> pos \<noteq> 8 then Some (int ?s, int ?t - int ?s + 1, pos)
           else bitpos_tail be al al2 p b (int ?t) ?lm (int (?s + 1)) (int ?t - int (?s + 1) + 1))"
        using fm st lt first by (simp add: bitpos_masked_def Let_def add.commute)
      show ?thesis
      proof (cases "find_bit p b x (8 * (?s + 1))")
        case None
        then have "bitpos_masked be al al2 p b (int ?s, int ?t, ?fm, ?lm)
            = bitpos_tail be al al2 p b (int ?t) ?lm (int (?s + 1)) (int ?t - int (?s + 1) + 1)"
          unfolding run by (simp add: found_at_def)
        then show ?thesis using bitpos_tail_ok [of "?s + 1" e p be al al2 b] lt st(2) split None by simp
      next
        case (Some i)
        then have i: "8 * ?s \<le> i" "i < 8 * (?s + 1)" using find_bit_Some [OF Some] x by linarith+
        then have "bitpos_masked be al al2 p b (int ?s, int ?t, ?fm, ?lm) = Some (int ?s, int ?t - int ?s + 1, int i - 8 * int ?s)"
          using Some unfolding run by (simp add: found_at_def)
        then show ?thesis using split Some i lt by (simp add: pos_ok_def)
      qed
    qed
  qed
qed

section \<open>The command\<close>

lemma reply_ok:
  assumes "x \<le> e" "e < 8 * length p"
  shows "bitpos_reply be al al2 p b given (int (x div 8), int (e div 8), first_neg_mask (int x), last_neg_mask (int e))
    = Some (case find_bit p b x (e + 1) of Some i \<Rightarrow> int i | None \<Rightarrow> if b \<or> given then -1 else 8 * int (e div 8) + 8)"
proof -
  obtain start bytes pos where res: "bitpos_masked be al al2 p b (int (x div 8), int (e div 8), first_neg_mask (int x), last_neg_mask (int e)) = Some (start, bytes, pos)"
      "pos_ok p b (find_bit p b x (e + 1)) (e div 8) (start, bytes, pos)"
    using masked_ok [OF assms, of be al al2 b] by auto
  have "\<not> int (x div 8) > int (e div 8)" using div_le_mono [OF assms(1), of 8] by simp
  then have run: "bitpos_reply be al al2 p b given (int (x div 8), int (e div 8), first_neg_mask (int x), last_neg_mask (int e))
      = (if given \<and> \<not> b \<and> pos = bytes * 8 then Some (-1) else Some (if pos \<noteq> -1 then pos + start * 8 else pos))"
    unfolding bitpos_reply_def Let_def prod.case res(1) by simp
  show ?thesis unfolding run using res(2) by (cases "find_bit p b x (e + 1)") (auto simp: pos_ok_def)
qed

text \<open>Without an end the string counts as followed by clear bits.\<close>

definition bitpos_range :: "bytes \<Rightarrow> (int \<times> int option \<times> bool) option \<Rightarrow> nat \<times> nat" where
  "bitpos_range p rg = (case rg of
     None \<Rightarrow> (0, 8 * length p)
   | Some (start, Some e, isbit) \<Rightarrow> range_bits p start e isbit
   | Some (start, None, isbit) \<Rightarrow> range_bits p start (-1) isbit)"

definition bitpos_spec :: "bytes \<Rightarrow> bool \<Rightarrow> (int \<times> int option \<times> bool) option \<Rightarrow> int" where
  "bitpos_spec p b rg =
     (let (x, z) = bitpos_range p rg
      in if z \<le> x then -1
         else case find_bit p b x z of
           Some i \<Rightarrow> int i
         | None \<Rightarrow> if b \<or> (case rg of Some (_, Some _, _) \<Rightarrow> True | _ \<Rightarrow> False) then -1 else 8 * int (length p))"

lemma range_last_end: "0 \<le> n \<Longrightarrow> n - 1 \<le> e \<Longrightarrow> range_last n e = n - 1" "0 \<le> n \<Longrightarrow> range_last n (-1) = n - 1"
  by (auto simp: range_last_def)

text \<open>C34. \<open>BITPOS\<close> replies the offset of the first bit with the wanted value in the string or in a range of its bytes or bits.
  If there is none it replies -1, except that a clear bit is sought without an end: then the string counts as followed
  by clear bits, and the reply is the offset just after the string.  An empty range, or an empty string, gives -1.
  No byte outside the string is read.
\<close>

theorem bitpos_correct:
  assumes "length (getObjectReadOnlyString ob) < 2 ^ 60"
  shows "bitposCommand be al al2 (Some ob) b rg = Some (bitpos_spec (getObjectReadOnlyString ob) b rg)"
proof -
  let ?p = "getObjectReadOnlyString ob"
  show ?thesis
  proof (cases rg)
    case None
    show ?thesis
    proof (cases "?p = []")
      case True
      then show ?thesis using None by (simp add: bitposCommand_def bitpos_reply_def bitpos_spec_def bitpos_range_def)
    next
      case False
      then obtain n where n: "length ?p = Suc n" by (cases ?p) simp_all
      have "(8 * n + 7) div 8 = n" "int (length ?p) - 1 = int n" using n by simp_all
      then show ?thesis using None n reply_ok [of 0 "8 * n + 7" ?p be "al" al2 b False] mask_byte_range [of 0] mask_byte_range [of n]
        by (simp add: bitposCommand_def bitpos_spec_def bitpos_range_def split: option.splits)
    qed
  next
    case (Some r)
    obtain start e isbit where r: "rg = Some (start, e, isbit)" using Some by (metis prod.exhaust)
    have big: "\<not> int (length ?p) > LLONG_MAX div 8" using assms by (simp add: LLONG_MAX_def)
    let ?n = "if isbit then int (length ?p) * 8 else int (length ?p)"
    let ?e = "case e of Some e \<Rightarrow> e | None \<Rightarrow> if isbit then int (length ?p) * 8 + 7 else int (length ?p) - 1"
    let ?given = "e \<noteq> None"
    have cmd: "bitposCommand be al al2 (Some ob) b rg = bitpos_reply be al al2 ?p b ?given (clip_range ?n start ?e isbit)"
      unfolding bitposCommand_def r Let_def option.case prod.case if_not_P [OF big] ..
    have range: "bitpos_range ?p rg = range_bits ?p start ?e isbit"
      by (cases e) (simp_all add: r bitpos_range_def range_bits_def Let_def range_last_end)
    have spec: "bitpos_spec ?p b rg = (let (x, z) = range_bits ?p start ?e isbit in if z \<le> x then -1
         else case find_bit ?p b x z of Some i \<Rightarrow> int i | None \<Rightarrow> if b \<or> ?given then -1 else 8 * int (length ?p))"
      unfolding bitpos_spec_def range by (cases e) (simp_all add: r)
    show ?thesis unfolding cmd spec
      using clip_range_bits [where isbit = isbit and p = ?p and start = start and e = ?e]
    proof (elim disjE exE conjE)
      fix x y
      assume xy: "x \<le> y" "y < 8 * length ?p" and bits: "range_bits ?p start ?e isbit = (x, y + 1)"
        and clip: "clip_range ?n start ?e isbit = (int (x div 8), int (y div 8), first_neg_mask (int x), last_neg_mask (int y))"
      have "8 * int (y div 8) + 8 = 8 * int (length ?p)" if "e = None"
      proof -
        have "range_last ?n ?e = ?n - 1" using that by (auto simp: range_last_end)
        then have "y + 1 = 8 * length ?p" using bits that xy by (auto simp: range_bits_def Let_def split: if_splits)
        then have "8 * (y div 8) + 8 = 8 * length ?p" by presburger
        then show ?thesis by linarith
      qed
      then show "bitpos_reply be al al2 ?p b ?given (clip_range ?n start ?e isbit)
        = Some (let (x, z) = range_bits ?p start ?e isbit in if z \<le> x then -1
           else case find_bit ?p b x z of Some i \<Rightarrow> int i | None \<Rightarrow> if b \<or> ?given then -1 else 8 * int (length ?p))"
        unfolding clip bits reply_ok [OF xy] Let_def prod.case using xy by (simp split: option.splits)
    qed (simp add: bitpos_reply_def)
  qed
qed

theorem bitpos_correct_witness:
  "bitposCommand True 1 2 (Some (ObjStr [255, 240])) False (Some (1, None, False)) = Some 12"
  using bitpos_correct [of "ObjStr [255, 240]" True 1 2 False "Some (1, None, False)"]
  by (simp add: getObjectReadOnlyString_def bitpos_spec_def bitpos_range_def range_bits_def range_first_def range_last_def find_bit_def
      bit0_def bit_at_def upt_rec)

end
