(* ===== verification/Rio.thy ===== *)
theory Rio
  imports Crc
begin

text \<open>
  The streams of \<open>rio.h\<close> and \<open>rio.c\<close>, through which RDB data are written and read: a backend with a read and a write
  function, an optional running checksum, an error flag for each direction, and transfers cut into chunks.  The
  backend is a parameter of the record, as in the code; the buffer in memory is the one that is modelled.

  A read gives the bytes, or \<open>None\<close> when the backend has failed.  \<open>be\<close> is the byte order of the host.
\<close>

section \<open>Streams\<close>

record 'b rio =
  rio_read :: "'b \<Rightarrow> nat \<Rightarrow> bytes option \<times> 'b"
  rio_write :: "'b \<Rightarrow> bytes \<Rightarrow> bool \<times> 'b"
  update_cksum :: bool
  cksum :: "64 word"
  read_error :: bool
  write_error :: bool
  processed_bytes :: nat
  max_processing_chunk :: nat
  rio_io :: 'b

text \<open>The checksum of the code is \<open>rioGenericUpdateChecksum\<close> wherever there is one; the address of the bytes does not
  matter to it.\<close>

definition rioGenericUpdateChecksum :: "bool \<Rightarrow> 'b rio \<Rightarrow> bytes \<Rightarrow> 'b rio" where
  "rioGenericUpdateChecksum be r buf = r\<lparr>cksum := crc64 (\<not> be) (cksum r) 0 buf\<rparr>"

definition chunk_size :: "'b rio \<Rightarrow> nat \<Rightarrow> nat" where
  "chunk_size r len = (if max_processing_chunk r \<noteq> 0 \<and> max_processing_chunk r < len then max_processing_chunk r else len)"

lemma chunk_pos: "0 < len \<Longrightarrow> 0 < chunk_size r len \<and> chunk_size r len \<le> len"
  by (auto simp: chunk_size_def)

lemma chunk_less: "0 < len \<Longrightarrow> len - chunk_size r len < len" "buf \<noteq> [] \<Longrightarrow> length buf - chunk_size r (length buf) < length buf"
  using chunk_pos [of len r] chunk_pos [of "length buf" r] by auto

function rioWrite_loop :: "bool \<Rightarrow> 'b rio \<Rightarrow> bytes \<Rightarrow> 'b rio \<times> bool" where
  "rioWrite_loop be r buf =
     (if buf = [] then (r, True)
      else
        let n = chunk_size r (length buf);
            r = (if update_cksum r then rioGenericUpdateChecksum be r (take n buf) else r);
            (ok, io) = rio_write r (rio_io r) (take n buf);
            r = r\<lparr>rio_io := io\<rparr>
        in if \<not> ok then (r\<lparr>write_error := True\<rparr>, False)
           else rioWrite_loop be (r\<lparr>processed_bytes := processed_bytes r + n\<rparr>) (drop n buf))"
  by pat_completeness auto
termination
  by (relation "measure (\<lambda>(_, _, buf). length buf)") (simp_all add: chunk_less)

definition rioWrite :: "bool \<Rightarrow> 'b rio \<Rightarrow> bytes \<Rightarrow> 'b rio \<times> bool" where
  "rioWrite be r buf = (if write_error r then (r, False) else rioWrite_loop be r buf)"

function rioRead_loop :: "bool \<Rightarrow> 'b rio \<Rightarrow> nat \<Rightarrow> bytes \<Rightarrow> 'b rio \<times> bytes option" where
  "rioRead_loop be r len acc =
     (if len = 0 then (r, Some acc)
      else
        let n = chunk_size r len;
            (res, io) = rio_read r (rio_io r) n;
            r = r\<lparr>rio_io := io\<rparr>
        in case res of
             None \<Rightarrow> (r\<lparr>read_error := True\<rparr>, None)
           | Some buf \<Rightarrow>
               let r = (if update_cksum r then rioGenericUpdateChecksum be r buf else r)
               in rioRead_loop be (r\<lparr>processed_bytes := processed_bytes r + n\<rparr>) (len - n) (acc @ buf))"
  by pat_completeness auto
termination
  by (relation "measure (\<lambda>(_, _, len, _). len)") (simp_all add: chunk_less)

definition rioRead :: "bool \<Rightarrow> 'b rio \<Rightarrow> nat \<Rightarrow> 'b rio \<times> bytes option" where
  "rioRead be r len = (if read_error r then (r, None) else rioRead_loop be r len [])"

declare rioWrite_loop.simps [simp del] rioRead_loop.simps [simp del]

section \<open>The buffer in memory\<close>

record rio_buffer =
  b_ptr :: bytes
  b_pos :: nat

definition rioBufferWrite :: "rio_buffer \<Rightarrow> bytes \<Rightarrow> bool \<times> rio_buffer" where
  "rioBufferWrite b buf = (True, b\<lparr>b_ptr := b_ptr b @ buf, b_pos := b_pos b + length buf\<rparr>)"

text \<open>The subtraction is unsigned.\<close>

definition rioBufferRead :: "rio_buffer \<Rightarrow> nat \<Rightarrow> bytes option \<times> rio_buffer" where
  "rioBufferRead b len =
     (if unat (word_of_nat (length (b_ptr b)) - word_of_nat (b_pos b) :: 64 word) < len then (None, b)
      else (Some (slice (b_pos b) len (b_ptr b)), b\<lparr>b_pos := b_pos b + len\<rparr>))"

definition rioInitWithBuffer :: "bytes \<Rightarrow> rio_buffer rio" where
  "rioInitWithBuffer s =
     \<lparr>rio_read = rioBufferRead, rio_write = rioBufferWrite, update_cksum = False, cksum = 0, read_error = False, write_error = False,
      processed_bytes = 0, max_processing_chunk = 0, rio_io = \<lparr>b_ptr = s, b_pos = 0\<rparr>\<rparr>"

section \<open>Transfers are transparent\<close>

lemma crc64_append: "crc64 little crc addr (s @ s') = crc64 little (crc64 little crc addr s) addr s'"
  by (simp add: crc64_eq_spec crc64_spec_def)

lemma crc64_nil: "crc64 little crc addr [] = crc"
  by (simp add: crc64_eq_spec crc64_spec_def)

text \<open>A buffer that has been written to: the bytes are there, counted and in the checksum.\<close>

definition wrote :: "bool \<Rightarrow> rio_buffer rio \<Rightarrow> bytes \<Rightarrow> rio_buffer rio" where
  "wrote be r bs = r\<lparr>cksum := (if update_cksum r then crc64 (\<not> be) (cksum r) 0 bs else cksum r),
     processed_bytes := processed_bytes r + length bs,
     rio_io := (rio_io r)\<lparr>b_ptr := b_ptr (rio_io r) @ bs, b_pos := b_pos (rio_io r) + length bs\<rparr>\<rparr>"

definition sink :: "rio_buffer rio \<Rightarrow> bool" where
  "sink r \<longleftrightarrow> rio_write r = rioBufferWrite \<and> \<not> write_error r"

lemma sink_wrote [simp]: "sink (wrote be r bs) = sink r"
  by (simp add: sink_def wrote_def)

lemma wrote_nil [simp]: "wrote be r [] = r"
  by (simp add: wrote_def crc64_nil)

lemma wrote_wrote [simp]: "wrote be (wrote be r a) b = wrote be r (a @ b)"
  by (simp add: wrote_def crc64_append)

lemma rioWrite_loop_buffer: "sink r \<Longrightarrow> rioWrite_loop be r buf = (wrote be r buf, True)"
proof (induction be r buf rule: rioWrite_loop.induct)
  case (1 be r buf)
  show ?case
  proof (cases "buf = []")
    case False
    let ?n = "chunk_size r (length buf)"
    have n: "?n \<le> length buf" using chunk_pos [of "length buf" r] False by simp
    let ?r = "(if update_cksum r then rioGenericUpdateChecksum be r (take ?n buf) else r)"
    have w: "rio_write ?r (rio_io ?r) (take ?n buf) = (True, (rio_io r)\<lparr>b_ptr := b_ptr (rio_io r) @ take ?n buf, b_pos := b_pos (rio_io r) + ?n\<rparr>)"
      using "1.prems" n by (simp add: sink_def rioBufferWrite_def rioGenericUpdateChecksum_def)
    have step: "?r\<lparr>rio_io := (rio_io r)\<lparr>b_ptr := b_ptr (rio_io r) @ take ?n buf, b_pos := b_pos (rio_io r) + ?n\<rparr>,
        processed_bytes := processed_bytes (?r\<lparr>rio_io := (rio_io r)\<lparr>b_ptr := b_ptr (rio_io r) @ take ?n buf, b_pos := b_pos (rio_io r) + ?n\<rparr>\<rparr>) + ?n\<rparr>
        = wrote be r (take ?n buf)"
      using n by (simp add: wrote_def rioGenericUpdateChecksum_def)
    have "rioWrite_loop be r buf = rioWrite_loop be (wrote be r (take ?n buf)) (drop ?n buf)"
      by (subst rioWrite_loop.simps) (simp only: False if_False Let_def w prod.case step not_True_eq_False)
    also have "\<dots> = (wrote be (wrote be r (take ?n buf)) (drop ?n buf), True)"
      using "1.IH" [OF False refl refl w [symmetric] refl refl] "1.prems" unfolding step by simp
    finally show ?thesis by simp
  qed (simp add: rioWrite_loop.simps)
qed

lemma rioWrite_buffer: "sink r \<Longrightarrow> rioWrite be r buf = (wrote be r buf, True)"
  by (simp add: rioWrite_def rioWrite_loop_buffer sink_def)

text \<open>A buffer that is read from: \<open>rest\<close> is what remains.\<close>

definition source :: "rio_buffer rio \<Rightarrow> bytes \<Rightarrow> bool" where
  "source r rest \<longleftrightarrow> rio_read r = rioBufferRead \<and> \<not> read_error r \<and> b_pos (rio_io r) \<le> length (b_ptr (rio_io r))
     \<and> length (b_ptr (rio_io r)) < 2 ^ 63 \<and> rest = drop (b_pos (rio_io r)) (b_ptr (rio_io r))"

lemma source_init: "length s < 2 ^ 63 \<Longrightarrow> source (rioInitWithBuffer s) s"
  by (simp add: source_def rioInitWithBuffer_def)

lemma unat_room: "pos \<le> n \<Longrightarrow> n < 2 ^ 63 \<Longrightarrow> unat (word_of_nat n - word_of_nat pos :: 64 word) = n - pos"
  by (subst unat_sub) (simp_all add: unat_of_nat word_le_nat_alt)

lemma rioRead_loop_buffer:
  "source r rest \<Longrightarrow> len \<le> length rest \<Longrightarrow>
     \<exists>r'. rioRead_loop be r len acc = (r', Some (acc @ take len rest)) \<and> source r' (drop len rest)"
proof (induction be r len acc arbitrary: rest rule: rioRead_loop.induct)
  case (1 be r len acc)
  show ?case
  proof (cases "len = 0")
    case True
    then show ?thesis using "1.prems" by (simp add: rioRead_loop.simps)
  next
    case False
    let ?n = "chunk_size r len" and ?b = "rio_io r"
    have n: "0 < ?n" "?n \<le> len" using chunk_pos [of len r] False by simp_all
    have src: "rio_read r = rioBufferRead" "\<not> read_error r" "b_pos ?b \<le> length (b_ptr ?b)" "length (b_ptr ?b) < 2 ^ 63"
        "rest = drop (b_pos ?b) (b_ptr ?b)"
      using "1.prems"(1) by (simp_all add: source_def)
    have lens: "length rest = length (b_ptr ?b) - b_pos ?b" using src(5) by simp
    have rd: "rio_read r ?b ?n = (Some (take ?n rest), ?b\<lparr>b_pos := b_pos ?b + ?n\<rparr>)"
      using src n "1.prems"(2) lens unat_room [OF src(3,4)] by (simp add: rioBufferRead_def slice_def)
    let ?r1 = "r\<lparr>rio_io := ?b\<lparr>b_pos := b_pos ?b + ?n\<rparr>\<rparr>"
    let ?r2 = "(if update_cksum ?r1 then rioGenericUpdateChecksum be ?r1 (take ?n rest) else ?r1)"
    let ?r3 = "?r2\<lparr>processed_bytes := processed_bytes ?r2 + ?n\<rparr>"
    have "source ?r3 (drop ?n rest)"
      using src n "1.prems"(2) lens by (auto simp: source_def rioGenericUpdateChecksum_def add.commute)
    then obtain r' where "rioRead_loop be ?r3 (len - ?n) (acc @ take ?n rest) = (r', Some ((acc @ take ?n rest) @ take (len - ?n) (drop ?n rest)))"
        "source r' (drop (len - ?n) (drop ?n rest))"
      using "1.IH" [OF False refl rd [symmetric] refl refl refl] "1.prems"(2) n by fastforce
    moreover have "rioRead_loop be r len acc = rioRead_loop be ?r3 (len - ?n) (acc @ take ?n rest)"
      by (subst rioRead_loop.simps) (simp only: False if_False Let_def rd prod.case option.case)
    moreover have "take ?n rest @ take (len - ?n) (drop ?n rest) = take len rest"
      using n by (metis le_add_diff_inverse take_add)
    ultimately show ?thesis using n by simp
  qed
qed

lemma rioRead_buffer:
  assumes "source r (bs @ rest)" "n = length bs"
  shows "\<exists>r'. rioRead be r n = (r', Some bs) \<and> source r' rest"
  using rioRead_loop_buffer [OF assms(1), of n be "[]"] assms by (auto simp: rioRead_def source_def)

text \<open>A backend whose states satisfy \<open>good\<close> and whose successful reads have the length asked for.\<close>

definition exact_reads :: "('b \<Rightarrow> bool) \<Rightarrow> 'b rio \<Rightarrow> bool" where
  "exact_reads good r \<longleftrightarrow> good (rio_io r) \<and> (\<forall>io n res io'. good io \<longrightarrow> rio_read r io n = (res, io') \<longrightarrow>
     good io' \<and> (\<forall>bs. res = Some bs \<longrightarrow> length bs = n))"

definition buffer_ok :: "rio_buffer \<Rightarrow> bool" where
  "buffer_ok b \<longleftrightarrow> b_pos b \<le> length (b_ptr b) \<and> length (b_ptr b) < 2 ^ 63"

lemma buffer_exact: "length s < 2 ^ 63 \<Longrightarrow> exact_reads buffer_ok (rioInitWithBuffer s)"
  by (auto simp: exact_reads_def buffer_ok_def rioInitWithBuffer_def rioBufferRead_def unat_room slice_def split: if_splits)

lemma rioRead_loop_length:
  "exact_reads good r \<Longrightarrow> exact_reads good (fst (rioRead_loop be r len acc))
     \<and> (\<forall>bs. snd (rioRead_loop be r len acc) = Some bs \<longrightarrow> length bs = length acc + len)"
proof (induction be r len acc rule: rioRead_loop.induct)
  case (1 be r len acc)
  show ?case
  proof (cases "len = 0")
    case True
    then show ?thesis using "1.prems" by (simp add: rioRead_loop.simps)
  next
    case False
    let ?n = "chunk_size r len"
    have n: "0 < ?n" "?n \<le> len" using chunk_pos [of len r] False by simp_all
    obtain res io where rd: "rio_read r (rio_io r) ?n = (res, io)" by force
    have step: "good io" "\<And>bs. res = Some bs \<Longrightarrow> length bs = ?n"
      "\<And>io n res io'. good io \<Longrightarrow> rio_read r io n = (res, io') \<Longrightarrow> good io' \<and> (\<forall>bs. res = Some bs \<longrightarrow> length bs = n)"
      using "1.prems" rd unfolding exact_reads_def by blast+
    show ?thesis
    proof (cases res)
      case None
      then show ?thesis using step False rd by (subst (1 2) rioRead_loop.simps) (simp add: Let_def exact_reads_def)
    next
      case (Some buf)
      let ?r1 = "r\<lparr>rio_io := io\<rparr>"
      let ?r2 = "(if update_cksum ?r1 then rioGenericUpdateChecksum be ?r1 buf else ?r1)"
      let ?r3 = "?r2\<lparr>processed_bytes := processed_bytes ?r2 + ?n\<rparr>"
      have ex: "exact_reads good ?r3" using step by (simp add: exact_reads_def rioGenericUpdateChecksum_def)
      have loop: "rioRead_loop be r len acc = rioRead_loop be ?r3 (len - ?n) (acc @ buf)"
        by (subst rioRead_loop.simps) (simp only: False if_False Let_def rd prod.case Some option.case)
      show ?thesis unfolding loop using "1.IH" [OF False refl refl rd [symmetric] refl Some refl ex] step(2) [OF Some] n by auto
    qed
  qed
qed

lemma rioRead_length:
  assumes "exact_reads good r"
  shows "exact_reads good (fst (rioRead be r len))" "snd (rioRead be r len) = Some bs \<Longrightarrow> length bs = len"
  using rioRead_loop_length [OF assms, of be len "[]"] assms by (auto simp: rioRead_def split: if_splits)

end
