(* ===== verification/Rdb.thy ===== *)
theory Rdb
  imports Rio Lzf Decimal Endian "HOL-Library.Monad_Syntax"
begin

text \<open>
  The encoding of lengths and of strings in RDB files and \<open>DUMP\<close> payloads (\<open>rdb.c\<close>, and the payload functions of
  \<open>cluster.c\<close>): lengths in one, two, five or nine bytes; strings as they are, as integers when they are the decimal
  form of a small one, or compressed.

  A stream that is saved to is \<open>None\<close> where the code passes \<open>NULL\<close>, to count only.  The result of saving is the
  number of bytes, \<open>None\<close> being -1.  The result of loading is a value or an error (\<open>CorruptRDB\<close> ends the process when a
  file is loaded, and only then); \<open>None\<close> around it is a failed assertion, which aborts the server, or would be an access
  outside an allocation.  \<open>be\<close> is the byte order of the host, \<open>avail\<close> says which sizes \<open>malloc\<close> has room for.  Only
  \<open>ztrymalloc\<close> is asked: the small allocations by \<open>zmalloc\<close>, which does not return without memory, are taken as made.
\<close>

section \<open>Lengths\<close>

definition RDB_6BITLEN :: nat where "RDB_6BITLEN = 0"
definition RDB_14BITLEN :: nat where "RDB_14BITLEN = 1"
definition RDB_32BITLEN :: u8 where "RDB_32BITLEN = 0x80"
definition RDB_64BITLEN :: u8 where "RDB_64BITLEN = 0x81"
definition RDB_ENCVAL :: nat where "RDB_ENCVAL = 3"
definition RDB_ENC_INT8 :: "64 word" where "RDB_ENC_INT8 = 0"
definition RDB_ENC_INT16 :: "64 word" where "RDB_ENC_INT16 = 1"
definition RDB_ENC_INT32 :: "64 word" where "RDB_ENC_INT32 = 2"
definition RDB_ENC_LZF :: "64 word" where "RDB_ENC_LZF = 3"
definition RDB_VERSION :: nat where "RDB_VERSION = 11"
definition RDB_TYPE_STRING :: u8 where "RDB_TYPE_STRING = 0"
definition RDB_LENERR :: "64 word" where "RDB_LENERR = -1"

lemmas rdb_constants =
  RDB_6BITLEN_def RDB_14BITLEN_def RDB_32BITLEN_def RDB_64BITLEN_def RDB_ENCVAL_def RDB_ENC_INT8_def RDB_ENC_INT16_def
  RDB_ENC_INT32_def RDB_ENC_LZF_def

datatype rdb_error = ReadError | CorruptRDB | AllocFailed

definition rdbWriteRaw :: "bool \<Rightarrow> 'b rio option \<Rightarrow> bytes \<Rightarrow> 'b rio option \<times> nat option" where
  "rdbWriteRaw be rdb p = (case rdb of
     None \<Rightarrow> (None, Some (length p))
   | Some r \<Rightarrow> let (r, ok) = rioWrite be r p in (Some r, if ok then Some (length p) else None))"

text \<open>Two writes in sequence, the second only after the first has succeeded; the bytes add up.\<close>

definition save_then :: "'b rio option \<times> nat option \<Rightarrow> ('b rio option \<Rightarrow> 'b rio option \<times> nat option) \<Rightarrow> 'b rio option \<times> nat option" where
  "save_then res f = (case res of
     (rdb, None) \<Rightarrow> (rdb, None)
   | (rdb, Some n) \<Rightarrow> (case f rdb of (rdb, None) \<Rightarrow> (rdb, None) | (rdb, Some n') \<Rightarrow> (rdb, Some (n + n'))))"

definition rdbSaveType :: "bool \<Rightarrow> 'b rio option \<Rightarrow> u8 \<Rightarrow> 'b rio option \<times> nat option" where
  "rdbSaveType be rdb type = rdbWriteRaw be rdb [type]"

definition rdbLoadType :: "bool \<Rightarrow> 'b rio \<Rightarrow> 'b rio \<times> u8 option" where
  "rdbLoadType be r = (case rioRead be r 1 of (r, None) \<Rightarrow> (r, None) | (r, Some bs) \<Rightarrow> (r, Some (bs ! 0)))"

definition rdbSaveMillisecondTime :: "bool \<Rightarrow> 'b rio option \<Rightarrow> int \<Rightarrow> 'b rio option \<times> nat option" where
  "rdbSaveMillisecondTime be rdb t = rdbWriteRaw be rdb (memrev64ifbe be (host_store be 8 (nat (take_bit 64 t))))"

definition rdbLoadMillisecondTime :: "bool \<Rightarrow> 'b rio \<Rightarrow> nat \<Rightarrow> 'b rio \<times> int" where
  "rdbLoadMillisecondTime be r rdbver = (case rioRead be r 8 of
     (r, None) \<Rightarrow> (r, LLONG_MAX)
   | (r, Some t64) \<Rightarrow> (r, signed_take_bit 63 (int (host_load be (if rdbver \<ge> 9 then memrev64ifbe be t64 else t64)))))"

text \<open>\<open>htonl\<close> and \<open>ntohl\<close> of the C library.\<close>

definition htonl :: "bool \<Rightarrow> nat \<Rightarrow> nat" where
  "htonl be v = (if be then v else intrev32 be v)"

definition ntohl :: "bool \<Rightarrow> nat \<Rightarrow> nat" where
  "ntohl be v = (if be then v else intrev32 be v)"

definition rdbSaveLen :: "bool \<Rightarrow> 'b rio option \<Rightarrow> 64 word \<Rightarrow> 'b rio option \<times> nat option" where
  "rdbSaveLen be rdb len =
     (if len < 2 ^ 6 then rdbWriteRaw be rdb [ucast ((len AND 0xFF) OR push_bit 6 (word_of_nat RDB_6BITLEN))]
      else if len < 2 ^ 14 then
        rdbWriteRaw be rdb [ucast ((drop_bit 8 len AND 0xFF) OR push_bit 6 (word_of_nat RDB_14BITLEN)), ucast (len AND 0xFF)]
      else if len \<le> 0xFFFFFFFF then
        save_then (rdbWriteRaw be rdb [RDB_32BITLEN]) (\<lambda>rdb. rdbWriteRaw be rdb (host_store be 4 (htonl be (unat len))))
      else
        save_then (rdbWriteRaw be rdb [RDB_64BITLEN]) (\<lambda>rdb. rdbWriteRaw be rdb (host_store be 8 (htonu64 be (unat len)))))"

text \<open>A length, or with \<open>True\<close> the kind of an encoded value.\<close>

definition rdbLoadLenByRef :: "bool \<Rightarrow> 'b rio \<Rightarrow> 'b rio \<times> (rdb_error + bool \<times> 64 word)" where
  "rdbLoadLenByRef be r = (case rioRead be r 1 of
     (r, None) \<Rightarrow> (r, Inl ReadError)
   | (r, Some buf) \<Rightarrow>
       let b0 = buf ! 0; type = unat (drop_bit 6 (b0 AND 0xC0))
       in if type = RDB_ENCVAL then (r, Inr (True, ucast (b0 AND 0x3F)))
          else if type = RDB_6BITLEN then (r, Inr (False, ucast (b0 AND 0x3F)))
          else if type = RDB_14BITLEN then (case rioRead be r 1 of
              (r, None) \<Rightarrow> (r, Inl ReadError)
            | (r, Some buf) \<Rightarrow> (r, Inr (False, push_bit 8 (ucast (b0 AND 0x3F)) OR ucast (buf ! 0))))
          else if b0 = RDB_32BITLEN then (case rioRead be r 4 of
              (r, None) \<Rightarrow> (r, Inl ReadError)
            | (r, Some buf) \<Rightarrow> (r, Inr (False, word_of_nat (ntohl be (host_load be buf)))))
          else if b0 = RDB_64BITLEN then (case rioRead be r 8 of
              (r, None) \<Rightarrow> (r, Inl ReadError)
            | (r, Some buf) \<Rightarrow> (r, Inr (False, word_of_nat (ntohu64 be (host_load be buf)))))
          else (r, Inl CorruptRDB))"

text \<open>The caller sees an error as the length \<open>RDB_LENERR\<close>, and so takes this length for an error.\<close>

definition rdbLoadLen :: "bool \<Rightarrow> 'b rio \<Rightarrow> 'b rio \<times> (rdb_error + bool \<times> 64 word)" where
  "rdbLoadLen be r = (case rdbLoadLenByRef be r of
     (r, Inl e) \<Rightarrow> (r, Inl e)
   | (r, Inr (isencoded, len)) \<Rightarrow> (r, if len = RDB_LENERR then Inl ReadError else Inr (isencoded, len)))"

section \<open>Integers\<close>

definition rdbEncodeInteger :: "int \<Rightarrow> bytes" where
  "rdbEncodeInteger v =
     (let enc = (\<lambda>kind. word_of_nat (RDB_ENCVAL * 2 ^ 6) OR ucast kind); byte = (\<lambda>i. word_of_int (drop_bit (8 * i) v AND 0xFF))
      in if - (2 ^ 7) \<le> v \<and> v \<le> 2 ^ 7 - 1 then [enc RDB_ENC_INT8, byte 0]
         else if - (2 ^ 15) \<le> v \<and> v \<le> 2 ^ 15 - 1 then [enc RDB_ENC_INT16, byte 0, byte 1]
         else if - (2 ^ 31) \<le> v \<and> v \<le> 2 ^ 31 - 1 then [enc RDB_ENC_INT32, byte 0, byte 1, byte 2, byte 3]
         else [])"

definition rdbTryIntegerEncoding :: "bytes \<Rightarrow> bytes" where
  "rdbTryIntegerEncoding s = (case string2ll s of Some v \<Rightarrow> rdbEncodeInteger v | None \<Rightarrow> [])"

text \<open>What a string is loaded as: plain bytes (\<open>RDB_LOAD_PLAIN\<close> and \<open>RDB_LOAD_SDS\<close>), or an object, which may hold an
  integer with \<open>RDB_LOAD_ENC\<close>.\<close>

datatype rdb_flags = RDB_LOAD_NONE | RDB_LOAD_ENC | RDB_LOAD_PLAIN | RDB_LOAD_SDS

datatype loaded = Bytes bytes | Object robj

definition is_raw :: "rdb_flags \<Rightarrow> bool" where
  "is_raw flags \<longleftrightarrow> flags = RDB_LOAD_PLAIN \<or> flags = RDB_LOAD_SDS"

definition rdbLoadIntegerObject :: "bool \<Rightarrow> 'b rio \<Rightarrow> 64 word \<Rightarrow> rdb_flags \<Rightarrow> 'b rio \<times> (rdb_error + loaded)" where
  "rdbLoadIntegerObject be r enctype flags =
     (let n = (if enctype = RDB_ENC_INT8 then 1 else if enctype = RDB_ENC_INT16 then 2 else if enctype = RDB_ENC_INT32 then 4 else 0)
      in if n = 0 then (r, Inl CorruptRDB)
         else case rioRead be r n of
           (r, None) \<Rightarrow> (r, Inl ReadError)
         | (r, Some enc) \<Rightarrow>
             let v = int_of_le enc;
                 str = (let (buf, len) = ll2string (replicate LONG_STR_SIZE fresh_byte) LONG_STR_SIZE v in take len buf)
             in (r, Inr (if is_raw flags then Bytes str else if flags = RDB_LOAD_ENC then Object (ObjInt v) else Object (ObjStr str))))"

section \<open>Memory for strings\<close>

text \<open>Whether \<open>ztrymalloc\<close> returns memory; sizes are \<open>size_t\<close>.\<close>

definition ztrymalloc :: "(nat \<Rightarrow> bool) \<Rightarrow> 64 word \<Rightarrow> bool" where
  "ztrymalloc avail sz = (if sz \<ge> (- 1) div 2 then False else avail (unat sz))"

datatype sds_type = SDS_TYPE_5 | SDS_TYPE_8 | SDS_TYPE_16 | SDS_TYPE_32 | SDS_TYPE_64

definition sdsHdrSize :: "sds_type \<Rightarrow> 64 word" where
  "sdsHdrSize type = (case type of SDS_TYPE_5 \<Rightarrow> 1 | SDS_TYPE_8 \<Rightarrow> 3 | SDS_TYPE_16 \<Rightarrow> 5 | SDS_TYPE_32 \<Rightarrow> 9 | SDS_TYPE_64 \<Rightarrow> 17)"

definition sdsReqType :: "64 word \<Rightarrow> sds_type" where
  "sdsReqType string_size =
     (if string_size < 2 ^ 5 then SDS_TYPE_5
      else if string_size < 2 ^ 8 then SDS_TYPE_8
      else if string_size < 2 ^ 16 then SDS_TYPE_16
      else if string_size < 2 ^ 32 then SDS_TYPE_32
      else SDS_TYPE_64)"

text \<open>Whether there is memory for the header, the string and its NUL; \<open>None\<close> is the failed assertion on the size.\<close>

definition sdstrynewlen :: "(nat \<Rightarrow> bool) \<Rightarrow> 64 word \<Rightarrow> bool option" where
  "sdstrynewlen avail initlen =
     (let type = sdsReqType initlen;
          type = (if type = SDS_TYPE_5 \<and> initlen = 0 then SDS_TYPE_8 else type);
          hdrlen = sdsHdrSize type
      in if \<not> initlen + hdrlen + 1 > initlen then None
         else Some (ztrymalloc avail (hdrlen + initlen + 1)))"

definition OBJ_ENCODING_EMBSTR_SIZE_LIMIT :: "64 word" where "OBJ_ENCODING_EMBSTR_SIZE_LIMIT = 44"

text \<open>A short string is embedded in the object, which \<open>zmalloc\<close> allocates.\<close>

definition tryCreateStringObject :: "(nat \<Rightarrow> bool) \<Rightarrow> 64 word \<Rightarrow> bool option" where
  "tryCreateStringObject avail len = (if len \<le> OBJ_ENCODING_EMBSTR_SIZE_LIMIT then Some True else sdstrynewlen avail len)"

section \<open>Strings\<close>

definition rdbSaveLzfBlob :: "bool \<Rightarrow> 'b rio option \<Rightarrow> bytes \<Rightarrow> nat \<Rightarrow> 'b rio option \<times> nat option" where
  "rdbSaveLzfBlob be rdb data original_len =
     save_then (save_then (save_then (rdbWriteRaw be rdb [word_of_nat (RDB_ENCVAL * 2 ^ 6) OR ucast RDB_ENC_LZF])
       (\<lambda>rdb. rdbSaveLen be rdb (word_of_nat (length data))))
       (\<lambda>rdb. rdbSaveLen be rdb (word_of_nat original_len)))
       (\<lambda>rdb. rdbWriteRaw be rdb data)"

text \<open>\<open>htab\<close> is what the stack holds where the compressor puts its hash table.\<close>

definition rdbSaveLzfStringObject :: "bool \<Rightarrow> (nat \<Rightarrow> int) \<Rightarrow> 'b rio option \<Rightarrow> bytes \<Rightarrow> ('b rio option \<times> nat option) option" where
  "rdbSaveLzfStringObject be htab rdb s =
     (if length s \<le> 4 then Some (rdb, Some 0)
      else do {
        (comprlen, out) \<leftarrow> lzf_compress htab s (replicate (length s - 4) fresh_byte);
        Some (if comprlen = 0 then (rdb, Some 0) else rdbSaveLzfBlob be rdb (take comprlen out) (length s)) })"

definition rdbLoadLzfStringObject :: "bool \<Rightarrow> (nat \<Rightarrow> bool) \<Rightarrow> 'b rio \<Rightarrow> rdb_flags \<Rightarrow> ('b rio \<times> (rdb_error + loaded)) option" where
  "rdbLoadLzfStringObject be avail r flags = (case rdbLoadLen be r of
     (r, Inl e) \<Rightarrow> Some (r, Inl e)
   | (r, Inr (_, clen)) \<Rightarrow> (case rdbLoadLen be r of
       (r, Inl e) \<Rightarrow> Some (r, Inl e)
     | (r, Inr (_, len)) \<Rightarrow>
         if \<not> ztrymalloc avail clen then Some (r, Inl AllocFailed)
         else do {
           room \<leftarrow> (if flags = RDB_LOAD_PLAIN then Some (ztrymalloc avail len) else sdstrynewlen avail len);
           if \<not> room then Some (r, Inl AllocFailed)
           else case rioRead be r (unat clen) of
             (r, None) \<Rightarrow> Some (r, Inl ReadError)
           | (r, Some c) \<Rightarrow> do {
               res \<leftarrow> lzf_decompress c (replicate (unat len) fresh_byte);
               let (n, val) = (case res of Inr (n, val) \<Rightarrow> (n, val) | Inl _ \<Rightarrow> (0, replicate (unat len) fresh_byte));
               Some (r, if n \<noteq> unat len then Inl CorruptRDB
                        else Inr (if is_raw flags then Bytes val else Object (ObjStr val))) } }))"

definition rdbSaveRawString :: "bool \<Rightarrow> bool \<Rightarrow> (nat \<Rightarrow> int) \<Rightarrow> 'b rio option \<Rightarrow> bytes \<Rightarrow> ('b rio option \<times> nat option) option" where
  "rdbSaveRawString be compression htab rdb s =
     (let enc = (if length s \<le> 11 then rdbTryIntegerEncoding s else [])
      in if enc \<noteq> [] then Some (rdbWriteRaw be rdb enc)
         else do {
           (rdb, n) \<leftarrow> (if compression \<and> length s > 20 then rdbSaveLzfStringObject be htab rdb s else Some (rdb, Some 0));
           Some (if n \<noteq> Some 0 then (rdb, n)
                 else save_then (rdbSaveLen be rdb (word_of_nat (length s)))
                   (\<lambda>rdb. if length s > 0 then rdbWriteRaw be rdb s else (rdb, Some 0))) })"

definition rdbSaveLongLongAsStringObject :: "bool \<Rightarrow> 'b rio option \<Rightarrow> int \<Rightarrow> 'b rio option \<times> nat option" where
  "rdbSaveLongLongAsStringObject be rdb v =
     (let enc = rdbEncodeInteger v
      in if enc \<noteq> [] then rdbWriteRaw be rdb enc
         else let (buf, enclen) = ll2string (replicate 32 fresh_byte) 32 v
              in save_then (rdbSaveLen be rdb (word_of_nat enclen)) (\<lambda>rdb. rdbWriteRaw be rdb (take enclen buf)))"

definition rdbSaveStringObject :: "bool \<Rightarrow> bool \<Rightarrow> (nat \<Rightarrow> int) \<Rightarrow> 'b rio option \<Rightarrow> robj \<Rightarrow> ('b rio option \<times> nat option) option" where
  "rdbSaveStringObject be compression htab rdb ob = (case ob of
     ObjInt v \<Rightarrow> Some (rdbSaveLongLongAsStringObject be rdb v)
   | ObjStr s \<Rightarrow> rdbSaveRawString be compression htab rdb s)"

definition rdbGenericLoadStringObject :: "bool \<Rightarrow> (nat \<Rightarrow> bool) \<Rightarrow> 'b rio \<Rightarrow> rdb_flags \<Rightarrow> ('b rio \<times> (rdb_error + loaded)) option" where
  "rdbGenericLoadStringObject be avail r flags = (case rdbLoadLen be r of
     (r, Inl e) \<Rightarrow> Some (r, Inl e)
   | (r, Inr (isencoded, len)) \<Rightarrow>
       if isencoded then
         if len = RDB_ENC_INT8 \<or> len = RDB_ENC_INT16 \<or> len = RDB_ENC_INT32 then Some (rdbLoadIntegerObject be r len flags)
         else if len = RDB_ENC_LZF then rdbLoadLzfStringObject be avail r flags
         else Some (r, Inl CorruptRDB)
       else do {
         room \<leftarrow> (if flags = RDB_LOAD_PLAIN then Some (ztrymalloc avail len)
                  else if flags = RDB_LOAD_SDS then sdstrynewlen avail len
                  else tryCreateStringObject avail len);
         if \<not> room then Some (r, Inl AllocFailed)
         else if len = 0 then Some (r, Inr (if is_raw flags then Bytes [] else Object (ObjStr [])))
         else Some (case rioRead be r (unat len) of
             (r, None) \<Rightarrow> (r, Inl ReadError)
           | (r, Some buf) \<Rightarrow> (r, Inr (if is_raw flags then Bytes buf else Object (ObjStr buf)))) })"

section \<open>DUMP and RESTORE of a string\<close>

text \<open>\<open>tryObjectEncoding\<close>: a short string that is an integer becomes one.\<close>

definition tryObjectEncoding :: "robj \<Rightarrow> robj" where
  "tryObjectEncoding ob = (case ob of
     ObjInt v \<Rightarrow> ob
   | ObjStr s \<Rightarrow> if length s \<le> 20 then (case string2l s of Some v \<Rightarrow> ObjInt v | None \<Rightarrow> ob) else ob)"

definition createDumpPayload :: "bool \<Rightarrow> bool \<Rightarrow> (nat \<Rightarrow> int) \<Rightarrow> robj \<Rightarrow> bytes option" where
  "createDumpPayload be compression htab ob = do {
     let (rdb, n) = rdbSaveType be (Some (rioInitWithBuffer [])) RDB_TYPE_STRING;
     (rdb, n') \<leftarrow> rdbSaveStringObject be compression htab rdb ob;
     r \<leftarrow> rdb;
     if n = None \<or> n = Some 0 \<or> n' = None \<or> n' = Some 0 then None
     else
       let p = b_ptr (rio_io r) @ [word_of_nat (RDB_VERSION mod 256), word_of_nat (RDB_VERSION div 256 mod 256)];
           crc = crc64 (\<not> be) 0 0 p
       in Some (p @ memrev64ifbe be (host_store be 8 (unat crc))) }"

text \<open>The version of the payload is the second result.\<close>

definition verifyDumpPayload :: "bool \<Rightarrow> bool \<Rightarrow> bytes \<Rightarrow> bool \<times> nat option" where
  "verifyDumpPayload be skip_checksum_validation p =
     (if length p < 10 then (False, None)
      else
        let footer = drop (length p - 10) p;
            rdbver = unat (footer ! 1) * 256 + unat (footer ! 0)
        in if rdbver > RDB_VERSION then (False, Some rdbver)
           else if skip_checksum_validation then (True, Some rdbver)
           else (memrev64ifbe be (host_store be 8 (unat (crc64 (\<not> be) 0 0 (take (length p - 8) p)))) = slice 2 8 footer, Some rdbver))"

text \<open>The string among the types that \<open>rdbLoadObject\<close> loads; it is encoded as the commands encode it.\<close>

definition rdbLoadObject_string :: "bool \<Rightarrow> (nat \<Rightarrow> bool) \<Rightarrow> 'b rio \<Rightarrow> ('b rio \<times> (rdb_error + robj)) option" where
  "rdbLoadObject_string be avail r = do {
     (r, res) \<leftarrow> rdbGenericLoadStringObject be avail r RDB_LOAD_ENC;
     case res of
       Inl e \<Rightarrow> Some (r, Inl e)
     | Inr (Bytes _) \<Rightarrow> None
     | Inr (Object ob) \<Rightarrow> Some (r, Inr (tryObjectEncoding ob)) }"

text \<open>What \<open>RESTORE\<close> makes of a payload; \<open>other\<close> loads the types that are not modelled.\<close>

definition restore_value :: "bool \<Rightarrow> bool \<Rightarrow> (nat \<Rightarrow> bool) \<Rightarrow> (u8 \<Rightarrow> rio_buffer rio \<Rightarrow> (rdb_error + 'v) option) \<Rightarrow> (robj \<Rightarrow> 'v) \<Rightarrow> bytes \<Rightarrow> (rdb_error + 'v) option" where
  "restore_value be skip avail other val p =
     (if \<not> fst (verifyDumpPayload be skip p) then Some (Inl CorruptRDB)
      else case rdbLoadType be (rioInitWithBuffer p) of
        (r, None) \<Rightarrow> Some (Inl ReadError)
      | (r, Some type) \<Rightarrow>
          if type \<noteq> RDB_TYPE_STRING then other type r
          else do {
            (r, res) \<leftarrow> rdbLoadObject_string be avail r;
            Some (case res of Inl e \<Rightarrow> Inl e | Inr ob \<Rightarrow> Inr (val ob)) })"

end
