(* ===== verification/Rdb_Props.thy ===== *)
theory Rdb_Props
  imports Rdb Lzf_Props Bitops_Props
begin

text \<open>
  What is saved is loaded again: lengths, strings in each of their encodings, and whole \<open>DUMP\<close> payloads.  A routine
  that saves is described by the bytes it appends, a routine that loads by the bytes it takes and the value it gives.
\<close>

section \<open>Saving and loading\<close>

definition saves :: "bool \<Rightarrow> (rio_buffer rio option \<Rightarrow> rio_buffer rio option \<times> nat option) \<Rightarrow> bytes \<Rightarrow> bool" where
  "saves be f bs \<longleftrightarrow> (\<forall>rdb. (\<forall>r. rdb = Some r \<longrightarrow> sink r) \<longrightarrow> f rdb = (map_option (\<lambda>r. wrote be r bs) rdb, Some (length bs)))"

definition loads :: "(rio_buffer rio \<Rightarrow> rio_buffer rio \<times> (rdb_error + 'v)) \<Rightarrow> bytes \<Rightarrow> 'v \<Rightarrow> bool" where
  "loads f bs v \<longleftrightarrow> (\<forall>r rest. source r (bs @ rest) \<longrightarrow> (\<exists>r'. f r = (r', Inr v) \<and> source r' rest))"

lemma saves_raw [intro]: "saves be (\<lambda>rdb. rdbWriteRaw be rdb p) p"
  by (auto simp: saves_def rdbWriteRaw_def rioWrite_buffer split: option.splits)

lemma saves_then [intro]: "saves be f a \<Longrightarrow> saves be g b \<Longrightarrow> saves be (\<lambda>rdb. save_then (f rdb) g) (a @ b)"
  unfolding saves_def
proof (intro allI impI)
  fix rdb :: "rio_buffer rio option"
  assume *: "\<forall>rdb. (\<forall>r. rdb = Some r \<longrightarrow> sink r) \<longrightarrow> f rdb = (map_option (\<lambda>r. wrote be r a) rdb, Some (length a))"
    "\<forall>rdb. (\<forall>r. rdb = Some r \<longrightarrow> sink r) \<longrightarrow> g rdb = (map_option (\<lambda>r. wrote be r b) rdb, Some (length b))"
    "\<forall>r. rdb = Some r \<longrightarrow> sink r"
  have "f rdb = (map_option (\<lambda>r. wrote be r a) rdb, Some (length a))" using *(1,3) by blast
  moreover have "g (map_option (\<lambda>r. wrote be r a) rdb) = (map_option (\<lambda>r. wrote be r b) (map_option (\<lambda>r. wrote be r a) rdb), Some (length b))"
    using *(2,3) by (auto simp: map_option_case split: option.splits)
  ultimately show "save_then (f rdb) g = (map_option (\<lambda>r. wrote be r (a @ b)) rdb, Some (length (a @ b)))"
    by (simp add: save_then_def option.map_comp comp_def)
qed

lemma saves_nothing: "saves be (\<lambda>rdb. (rdb, Some 0)) []"
  by (simp add: saves_def option.map_ident)

section \<open>Lengths\<close>

definition len_bytes :: "nat \<Rightarrow> bytes" where
  "len_bytes n =
     (if n < 2 ^ 6 then [word_of_nat n]
      else if n < 2 ^ 14 then [word_of_nat (64 + n div 256), word_of_nat n]
      else if n < 2 ^ 32 then RDB_32BITLEN # rev (le_of_nat 4 n)
      else RDB_64BITLEN # rev (le_of_nat 8 n))"

lemma htonl_bytes: "v < 2 ^ 32 \<Longrightarrow> host_store be 4 (htonl be v) = rev (le_of_nat 4 v)"
  by (simp add: host_store_def htonl_def intrev_eq le_of_nat_of_rev)

lemma htonu64_bytes: "v < 2 ^ 64 \<Longrightarrow> host_store be 8 (htonu64 be v) = rev (le_of_nat 8 v)"
  by (simp add: host_store_def htonu64_def intrev_eq le_of_nat_of_rev)

lemma ntohl_load: "v < 2 ^ 32 \<Longrightarrow> ntohl be (host_load be (rev (le_of_nat 4 v))) = v"
  by (simp add: ntohl_def host_load_def intrev_eq nat_of_le_rev_twice)

lemma ntohu64_load: "v < 2 ^ 64 \<Longrightarrow> ntohu64 be (host_load be (rev (le_of_nat 8 v))) = v"
  by (simp add: ntohu64_def host_load_def intrev_eq nat_of_le_rev_twice)


lemma unat_64: "unat (x :: 64 word) < 2 ^ 64"
  using unsigned_less [of x] by simp

lemma unat_8: "unat (x :: u8) < 2 ^ 8"
  using unsigned_less [of x] by simp

lemma and_low: "(x :: 64 word) AND 0xFF = take_bit 8 x" "(b :: u8) AND 0x3F = take_bit 6 b"
  by (simp_all add: take_bit_eq_mask mask_eq_exp_minus_1)

lemma small_bits: "unat (x :: 'a::len word) < 2 ^ k \<Longrightarrow> bit x n \<Longrightarrow> n < k"
proof -
  assume "unat x < 2 ^ k" and b: "bit x n"
  then have "take_bit k (unat x) = unat x" by (simp add: take_bit_nat_eq_self)
  moreover have "bit (unat x) n" using b bit_imp_le_length [OF b] by (simp add: bit_unsigned_iff)
  ultimately have "bit (take_bit k (unat x)) n" by simp
  then show ?thesis by (simp only: bit_take_bit_iff)
qed

lemma or_64: "unat (d :: 64 word) < 2 ^ 6 \<Longrightarrow> unat (d OR push_bit 6 1) = unat d + 64"
proof -
  assume d: "unat d < 2 ^ 6"
  have "d OR push_bit 6 1 = d + push_bit 6 1"
  proof (rule disjunctive_add [symmetric])
    fix n
    show "\<not> bit d n \<or> \<not> bit (push_bit 6 1 :: 64 word) n" using small_bits [OF d, of n] by (simp only: bit_push_bit_iff bit_1_iff) auto
  qed
  then show ?thesis using d by (simp add: unat_word_ariths)
qed

lemma save_len: "saves be (\<lambda>rdb. rdbSaveLen be rdb len) (len_bytes (unat len))"
proof -
  have less: "len < 2 ^ 6 \<longleftrightarrow> unat len < 2 ^ 6" "len < 2 ^ 14 \<longleftrightarrow> unat len < 2 ^ 14" "len \<le> 0xFFFFFFFF \<longleftrightarrow> unat len < 2 ^ 32"
    by (simp_all add: word_less_nat_alt word_le_nat_alt less_Suc_eq_le [symmetric])
  consider "unat len < 2 ^ 6" | "\<not> unat len < 2 ^ 6" "unat len < 2 ^ 14" | "\<not> unat len < 2 ^ 6" "\<not> unat len < 2 ^ 14" "unat len < 2 ^ 32"
    | "\<not> unat len < 2 ^ 6" "\<not> unat len < 2 ^ 14" "\<not> unat len < 2 ^ 32" by blast
  then show ?thesis
  proof cases
    case 1
    have "ucast ((len AND 0xFF) OR push_bit 6 (word_of_nat RDB_6BITLEN)) = (word_of_nat (unat len) :: u8)"
      unfolding and_low by (rule bit_word_eqI) (auto simp: rdb_constants bit_simps)
    then show ?thesis using 1 less saves_raw [of be "[word_of_nat (unat len)]"] by (simp add: rdbSaveLen_def len_bytes_def)
  next
    case 2
    have "ucast (len AND 0xFF) = (word_of_nat (unat len) :: u8)" unfolding and_low by (rule bit_word_eqI) (auto simp: bit_simps)
    moreover have "ucast ((drop_bit 8 len AND 0xFF) OR push_bit 6 (word_of_nat RDB_14BITLEN)) = (word_of_nat (64 + unat len div 256) :: u8)"
    proof -
      have d: "unat (drop_bit 8 len) = unat len div 256" by (rule trans [OF unat_shift]) simp
      then have lt: "unat (drop_bit 8 len) < 2 ^ 6" using 2(2) by (simp add: div_less_iff_less_mult)
      then have "drop_bit 8 len AND 0xFF = drop_bit 8 len"
        unfolding and_low by (intro bit_word_eqI) (auto simp: bit_take_bit_iff dest: small_bits [OF lt])
      then have "unat ((drop_bit 8 len AND 0xFF) OR push_bit 6 (word_of_nat RDB_14BITLEN)) = unat len div 256 + 64"
        using or_64 [OF lt] d by (simp add: RDB_14BITLEN_def)
      then have "word_of_nat (unat ((drop_bit 8 len AND 0xFF) OR push_bit 6 (word_of_nat RDB_14BITLEN))) = (word_of_nat (64 + unat len div 256) :: u8)"
        by (simp only: add.commute)
      then show ?thesis by (simp only: of_nat_unat)
    qed
    ultimately show ?thesis using 2 less saves_raw [of be "[word_of_nat (64 + unat len div 256), word_of_nat (unat len)]"]
      by (simp add: rdbSaveLen_def len_bytes_def)
  next
    case 3
    then show ?thesis using less saves_then [OF saves_raw [of be "[RDB_32BITLEN]"] saves_raw [of be "rev (le_of_nat 4 (unat len))"]] htonl_bytes [of "unat len" be]
      by (simp add: rdbSaveLen_def len_bytes_def)
  next
    case 4
    then show ?thesis using less saves_then [OF saves_raw [of be "[RDB_64BITLEN]"] saves_raw [of be "rev (le_of_nat 8 (unat len))"]]
        htonu64_bytes [of "unat len" be] unat_64 [of len]
      by (simp add: rdbSaveLen_def len_bytes_def)
  qed
qed


lemma first_byte_bits: "unat (drop_bit 6 ((b :: u8) AND 0xC0)) = unat b div 64"
proof -
  have top: "(0xC0 :: u8) = push_bit 6 (mask 2)" by (simp add: mask_eq_exp_minus_1 push_bit_eq_mult)
  have "drop_bit 6 (b AND 0xC0) = drop_bit 6 b"
    unfolding top
    by (rule bit_word_eqI) (use bit_imp_le_length [of b] in \<open>fastforce simp: bit_simps\<close>)
  then show ?thesis using unat_shift [of 6 b] by simp
qed

lemma low_six: "unat ((b :: u8) AND 0x3F) = unat b mod 64"
proof -
  have "unat (take_bit 6 b) = take_bit 6 (unat b)" by (rule unsigned_take_bit_eq)
  also have "\<dots> = unat b mod 64" by (simp add: take_bit_eq_mod)
  finally show ?thesis unfolding and_low .
qed

lemma unat_widen: "unat (ucast (b :: u8) :: 64 word) = unat b"
proof -
  have "unat b < 2 ^ 64" by (rule less_trans [OF unat_8]) simp
  then show ?thesis by (simp add: unsigned_ucast_eq take_bit_nat_eq_self_iff)
qed

lemma two_bytes:
  assumes "unat hi < 64"
  shows "unat (push_bit 8 (ucast (hi :: u8)) OR ucast (lo :: u8) :: 64 word) = unat hi * 256 + unat lo"
proof -
  have lo: "unat (ucast lo :: 64 word) < 2 ^ 8" using unat_8 [of lo] by (simp add: unat_widen)
  have "push_bit 8 (ucast hi) OR ucast lo = (push_bit 8 (ucast hi) + ucast lo :: 64 word)"
    by (rule disjunctive_add [symmetric]) (use small_bits [OF lo] in \<open>force simp: bit_push_bit_iff\<close>)
  moreover have "unat (push_bit 8 (ucast hi) :: 64 word) = unat hi * 256"
    using assms by (simp add: push_bit_eq_mult unat_word_ariths unat_widen)
  moreover have "unat hi * 256 + unat lo < 64 * 256 + 2 ^ 8" using assms by (intro add_strict_mono unat_8) simp
  ultimately show ?thesis by (simp add: unat_word_ariths unat_widen)
qed

lemma load_first:
  assumes "rioRead be r 1 = (r1, Some [b])"
  shows "rdbLoadLenByRef be r =
     (if unat b div 64 = 3 then (r1, Inr (True, ucast (b AND 0x3F)))
      else if unat b div 64 = 0 then (r1, Inr (False, ucast (b AND 0x3F)))
      else if unat b div 64 = 1 then (case rioRead be r1 1 of
          (r, None) \<Rightarrow> (r, Inl ReadError)
        | (r, Some buf) \<Rightarrow> (r, Inr (False, push_bit 8 (ucast (b AND 0x3F)) OR ucast (buf ! 0))))
      else if b = RDB_32BITLEN then (case rioRead be r1 4 of
          (r, None) \<Rightarrow> (r, Inl ReadError)
        | (r, Some buf) \<Rightarrow> (r, Inr (False, word_of_nat (ntohl be (host_load be buf)))))
      else if b = RDB_64BITLEN then (case rioRead be r1 8 of
          (r, None) \<Rightarrow> (r, Inl ReadError)
        | (r, Some buf) \<Rightarrow> (r, Inr (False, word_of_nat (ntohu64 be (host_load be buf)))))
      else (r1, Inl CorruptRDB))"
  unfolding rdbLoadLenByRef_def assms
  by (simp only: prod.case option.case Let_def nth_Cons_0 first_byte_bits RDB_ENCVAL_def RDB_6BITLEN_def RDB_14BITLEN_def)

lemma load_len: "loads (\<lambda>r. rdbLoadLenByRef be r) (len_bytes (unat len)) (False, len)"
  unfolding loads_def
proof (intro allI impI)
  fix r :: "rio_buffer rio" and rest
  assume src: "source r (len_bytes (unat len) @ rest)"
  let ?n = "unat len"
  consider "?n < 2 ^ 6" | "\<not> ?n < 2 ^ 6" "?n < 2 ^ 14" | "\<not> ?n < 2 ^ 6" "\<not> ?n < 2 ^ 14" "?n < 2 ^ 32"
    | "\<not> ?n < 2 ^ 6" "\<not> ?n < 2 ^ 14" "\<not> ?n < 2 ^ 32" by blast
  then show "\<exists>r'. rdbLoadLenByRef be r = (r', Inr (False, len)) \<and> source r' rest"
  proof cases
    case 1
    obtain b :: u8 where b: "b = word_of_nat ?n" by blast
    have n: "unat b = ?n" unfolding b using 1 by (simp add: unat_of_nat del: of_nat_unat)
    obtain r' where r': "rioRead be r 1 = (r', Some [b])" "source r' rest"
      using rioRead_buffer [of r "[b]" rest 1 be] src 1 b by (auto simp: len_bytes_def)
    have "unat (ucast (b AND 0x3F) :: 64 word) = unat len" using low_six [of b] n 1 by (simp only: unat_widen) simp
    then have "ucast (b AND 0x3F) = len" by (simp add: word_unat_eq_iff)
    then show ?thesis using load_first [OF r'(1)] r'(2) n 1 by simp
  next
    case 2
    obtain b c :: u8 where b: "b = word_of_nat (64 + ?n div 256)" and c: "c = word_of_nat ?n" by blast
    have src': "source r ([b] @ ([c] @ rest))" using src 2 b c by (simp add: len_bytes_def)
    obtain r1 where r1: "rioRead be r 1 = (r1, Some [b])" "source r1 ([c] @ rest)"
      using rioRead_buffer [OF src', of 1 be] by auto
    obtain r' where r': "rioRead be r1 1 = (r', Some [c])" "source r' rest"
      using rioRead_buffer [OF r1(2), of 1 be] by auto
    have lt: "?n div 256 < 64" using 2(2) by (simp add: div_less_iff_less_mult)
    have bc: "unat b = 64 + ?n div 256" "unat c = ?n mod 256" unfolding b c using lt by (simp_all add: unat_of_nat del: of_nat_unat of_nat_add)
    have hi: "unat (b AND 0x3F) = ?n div 256" unfolding low_six bc using lt by simp
    have "unat (push_bit 8 (ucast (b AND 0x3F)) OR ucast c :: 64 word) = unat len"
      using two_bytes [of "b AND 0x3F" c] lt unfolding hi bc by simp
    then have "push_bit 8 (ucast (b AND 0x3F)) OR ucast c = len" by (simp only: word_unat_eq_iff)
    moreover have "unat b div 64 = 1" unfolding bc using lt by simp
    ultimately show ?thesis using load_first [OF r1(1)] r' by simp
  next
    case 3
    have src': "source r ([RDB_32BITLEN] @ (rev (le_of_nat 4 ?n) @ rest))" using src 3 by (simp add: len_bytes_def)
    obtain r1 where r1: "rioRead be r 1 = (r1, Some [RDB_32BITLEN])" "source r1 (rev (le_of_nat 4 ?n) @ rest)"
      using rioRead_buffer [OF src', of 1 be] by auto
    obtain r' where r': "rioRead be r1 4 = (r', Some (rev (le_of_nat 4 ?n)))" "source r' rest"
      using rioRead_buffer [OF r1(2), of 4 be] by auto
    show ?thesis using load_first [OF r1(1)] r' ntohl_load [of ?n be] 3(3) by (simp add: RDB_32BITLEN_def)
  next
    case 4
    have src': "source r ([RDB_64BITLEN] @ (rev (le_of_nat 8 ?n) @ rest))" using src 4 by (simp add: len_bytes_def)
    obtain r1 where r1: "rioRead be r 1 = (r1, Some [RDB_64BITLEN])" "source r1 (rev (le_of_nat 8 ?n) @ rest)"
      using rioRead_buffer [OF src', of 1 be] by auto
    obtain r' where r': "rioRead be r1 8 = (r', Some (rev (le_of_nat 8 ?n)))" "source r' rest"
      using rioRead_buffer [OF r1(2), of 8 be] by auto
    show ?thesis using load_first [OF r1(1)] r' ntohu64_load [OF unat_64 [of len], of be] by (simp add: RDB_64BITLEN_def RDB_32BITLEN_def)
  qed
qed

section \<open>Integers\<close>

lemma le_of_int_Suc: "le_of_int (Suc n) v = word_of_int v # le_of_int n (drop_bit 8 v)"
proof -
  have "(word_of_nat (nat (take_bit (8 * Suc n) v)) :: u8) = word_of_int (take_bit (8 * Suc n) v)" by simp
  also have "\<dots> = word_of_int v" by (rule bit_word_eqI) (simp add: bit_simps)
  finally have hd: "(word_of_nat (nat (take_bit (8 * Suc n) v)) :: u8) = word_of_int v" .
  have "drop_bit 8 (take_bit (8 * Suc n) v) = take_bit (8 * n) (drop_bit 8 v)" by (simp add: drop_bit_take_bit)
  then have "take_bit (8 * Suc n) v div 256 = take_bit (8 * n) (drop_bit 8 v)" by (simp add: drop_bit_eq_div)
  then have tl: "nat (take_bit (8 * Suc n) v) div 256 = nat (take_bit (8 * n) (drop_bit 8 v))"
    by (metis nat_div_distrib' nat_numeral zero_le_numeral)
  show ?thesis by (simp only: le_of_int_def le_of_nat.simps hd tl)
qed

lemma le_of_int_0: "le_of_int 0 v = []"
  by (simp add: le_of_int_def)

lemma le_of_int_numeral: "le_of_int (numeral k) v = word_of_int v # le_of_int (pred_numeral k) (drop_bit 8 v)"
  by (simp only: numeral_eq_Suc le_of_int_Suc)

lemma and_byte: "(word_of_int (v AND 0xFF) :: u8) = word_of_int v"
proof -
  have "v AND 0xFF = take_bit 8 v" by (simp add: take_bit_eq_mask mask_eq_exp_minus_1)
  then show ?thesis by (simp only:) (rule bit_word_eqI, simp add: bit_simps)
qed

lemma encode_integer:
  "rdbEncodeInteger v =
     (if fits 1 v then 0xC0 # le_of_int 1 v else if fits 2 v then 0xC1 # le_of_int 2 v
      else if fits 4 v then 0xC2 # le_of_int 4 v else [])"
proof -
  have bs: "le_of_int 1 v = [word_of_int v]" "le_of_int 2 v = [word_of_int v, word_of_int (drop_bit 8 v)]"
    "le_of_int 4 v = [word_of_int v, word_of_int (drop_bit 8 v), word_of_int (drop_bit 16 v), word_of_int (drop_bit 24 v)]"
    by (simp_all add: le_of_int_numeral le_of_int_Suc le_of_int_0 drop_bit_drop_bit)
  have "fits 1 v \<longleftrightarrow> - (2 ^ 7) \<le> v \<and> v \<le> 2 ^ 7 - 1" "fits 2 v \<longleftrightarrow> - (2 ^ 15) \<le> v \<and> v \<le> 2 ^ 15 - 1"
    "fits 4 v \<longleftrightarrow> - (2 ^ 31) \<le> v \<and> v \<le> 2 ^ 31 - 1" by (auto simp: fits_def)
  then show ?thesis
    unfolding rdbEncodeInteger_def Let_def bs and_byte by (simp add: rdb_constants)
qed

text \<open>How a string comes back.\<close>

definition loaded_as :: "rdb_flags \<Rightarrow> bytes \<Rightarrow> loaded" where
  "loaded_as flags s =
     (if is_raw flags then Bytes s
      else case string2ll s of
        Some v \<Rightarrow> Object (if flags = RDB_LOAD_ENC \<and> fits 4 v then ObjInt v else ObjStr s)
      | None \<Rightarrow> Object (ObjStr s))"

lemma fits_ll: "fits 4 v \<Longrightarrow> is_ll v"
  by (simp add: fits_def is_ll_def limits_defs)

lemma small_text: "length (dec_int v) \<le> 11" if "fits 4 v"
proof -
  have "nat (- v) < 10 ^ 10" "nat v < 10 ^ 10" using that by (simp_all only: fits_def nat_less_numeral_power_cancel_iff) simp_all
  then show ?thesis using length_dec_le [of "nat (- v)" 10] length_dec_le [of "nat v" 10] by (simp add: dec_int_def)
qed

lemma ll_text: "length (dec_int v) \<le> 20" if "is_ll v"
proof -
  have "nat (- v) < 10 ^ 19" "nat v < 10 ^ 19" using that by (simp_all only: is_ll_def limits_defs nat_less_numeral_power_cancel_iff) simp_all
  then show ?thesis using length_dec_le [of "nat (- v)" 19] length_dec_le [of "nat v" 19] by (simp add: dec_int_def)
qed

lemma load_lengths: "len \<noteq> RDB_LENERR \<Longrightarrow> loads (rdbLoadLen be) (len_bytes (unat len)) (False, len)"
  using load_len [of be len] by (fastforce simp: loads_def rdbLoadLen_def)

lemma load_kind:
  assumes "b \<in> {0xC0, 0xC1, 0xC2, 0xC3}" "source r ([b] @ rest)"
  obtains r' where "rdbLoadLen be r = (r', Inr (True, ucast (b AND 0x3F)))" "source r' rest"
proof -
  obtain r' where r': "rioRead be r 1 = (r', Some [b])" "source r' rest"
    using rioRead_buffer [OF assms(2), of 1 be] by auto
  have "unat b div 64 = 3" using assms(1) by auto
  then have "rdbLoadLenByRef be r = (r', Inr (True, ucast (b AND 0x3F)))" unfolding load_first [OF r'(1)] by simp
  moreover have "(ucast (b AND 0x3F) :: 64 word) \<noteq> RDB_LENERR" using assms(1) by (auto simp: RDB_LENERR_def)
  ultimately have "rdbLoadLen be r = (r', Inr (True, ucast (b AND 0x3F)))" by (simp add: rdbLoadLen_def)
  then show thesis using that r'(2) by blast
qed

definition loads_string :: "bool \<Rightarrow> (nat \<Rightarrow> bool) \<Rightarrow> bytes \<Rightarrow> bytes \<Rightarrow> bool" where
  "loads_string be avail bs s \<longleftrightarrow> (\<forall>flags r rest. source r (bs @ rest) \<longrightarrow>
     (\<exists>r'. rdbGenericLoadStringObject be avail r flags = Some (r', Inr (loaded_as flags s)) \<and> source r' rest))"

lemma load_integer_body:
  assumes "source r (le_of_int n v @ rest)" "fits n v" "(kind, n) \<in> {(0, 1), (1, 2), (2, 4)}"
  obtains r' where "rdbLoadIntegerObject be r kind flags = (r', Inr (loaded_as flags (dec_int v)))" "source r' rest"
proof -
  obtain r' where r': "rioRead be r n = (r', Some (le_of_int n v))" "source r' rest"
    using rioRead_buffer [OF assms(1), of n be] by auto
  have n: "0 < n" "n \<le> 4" using assms(3) by auto
  have v: "fits 4 v" using assms(2) n fits_mono by blast
  have str: "ll2string (replicate LONG_STR_SIZE fresh_byte) LONG_STR_SIZE v
      = (dec_int v @ 0 # drop (Suc (length (dec_int v))) (replicate LONG_STR_SIZE fresh_byte), length (dec_int v))"
    by (rule ll2string_ok) (use v small_text [OF v] in \<open>simp_all add: fits_ll LONG_STR_SIZE_def\<close>)
  have "string2ll (dec_int v) = Some v" using fits_ll [OF v] by (simp add: string2ll_iff)
  then have "rdbLoadIntegerObject be r kind flags = (r', Inr (loaded_as flags (dec_int v)))"
    using assms(2,3) r'(1) str v by (auto simp: rdbLoadIntegerObject_def loaded_as_def rdb_constants n)
  then show thesis using that r'(2) by blast
qed

lemma load_integer:
  assumes "fits 4 v"
  shows "loads_string be avail (rdbEncodeInteger v) (dec_int v)" "rdbEncodeInteger v \<noteq> []"
proof -
  obtain b n where b: "rdbEncodeInteger v = [b] @ le_of_int n v" "fits n v" "(ucast (b AND 0x3F), n) \<in> {(0 :: 64 word, 1), (1, 2), (2, 4)}"
      "b \<in> {0xC0, 0xC1, 0xC2, 0xC3}"
  proof -
    consider "fits 1 v" | "\<not> fits 1 v" "fits 2 v" | "\<not> fits 1 v" "\<not> fits 2 v" by blast
    then show thesis
    proof cases
      case 1 then show thesis using that [of "0xC0" 1] by (simp add: encode_integer)
    next
      case 2 then show thesis using that [of "0xC1" 2] by (simp add: encode_integer)
    next
      case 3 then show thesis using that [of "0xC2" 4] assms by (simp add: encode_integer)
    qed
  qed
  show "rdbEncodeInteger v \<noteq> []" using b(1) by simp
  show "loads_string be avail (rdbEncodeInteger v) (dec_int v)"
    unfolding loads_string_def
  proof (intro allI impI)
    fix flags and r :: "rio_buffer rio" and rest
    assume "source r (rdbEncodeInteger v @ rest)"
    then have src: "source r ([b] @ (le_of_int n v @ rest))" unfolding b(1) by simp
    obtain r1 where r1: "rdbLoadLen be r = (r1, Inr (True, ucast (b AND 0x3F)))" "source r1 (le_of_int n v @ rest)"
      using load_kind [OF b(4) src] .
    obtain r' where r': "rdbLoadIntegerObject be r1 (ucast (b AND 0x3F)) flags = (r', Inr (loaded_as flags (dec_int v)))" "source r' rest"
      using load_integer_body [OF r1(2) b(2,3)] .
    have kind: "ucast (b AND 0x3F) = RDB_ENC_INT8 \<or> ucast (b AND 0x3F) = RDB_ENC_INT16 \<or> ucast (b AND 0x3F) = RDB_ENC_INT32"
      using b(3) by (auto simp: rdb_constants)
    show "\<exists>r'. rdbGenericLoadStringObject be avail r flags = Some (r', Inr (loaded_as flags (dec_int v))) \<and> source r' rest"
      unfolding rdbGenericLoadStringObject_def r1(1) using kind r' by simp
  qed
qed

section \<open>Strings\<close>

lemma string_len:
  assumes "length s < 2 ^ 63"
  shows "unat (word_of_nat (length s) :: 64 word) = length s" "(word_of_nat (length s) :: 64 word) \<noteq> RDB_LENERR"
proof -
  show *: "unat (word_of_nat (length s) :: 64 word) = length s" using assms by (simp add: unat_of_nat)
  have "unat RDB_LENERR = 2 ^ 64 - 1" by (simp add: RDB_LENERR_def unsigned_minus_1_eq_mask mask_eq_exp_minus_1)
  then show "(word_of_nat (length s) :: 64 word) \<noteq> RDB_LENERR" using * assms by auto
qed

text \<open>Strings of less than \<open>2 ^ 62\<close> bytes take at most 18 bytes more, and fail no assertion.\<close>

lemma sds_type_size: "sdsHdrSize t \<in> {1, 3, 5, 9, 17}"
  by (cases t) (simp_all add: sdsHdrSize_def)

lemma half_max: "unat ((- 1 :: 64 word) div 2) = 2 ^ 63 - 1"
  by (simp add: unat_div unsigned_minus_1_eq_mask mask_eq_exp_minus_1)

lemma ztrymalloc_small: "unat len < 2 ^ 63 - 1 \<Longrightarrow> ztrymalloc avail len = avail (unat len)"
  using half_max by (simp add: ztrymalloc_def word_le_nat_alt)

lemma sdstrynewlen_small:
  assumes "unat len < 2 ^ 62" "\<forall>n \<le> unat len + 18. avail n"
  shows "sdstrynewlen avail len = Some True"
proof -
  have room: "len + h + 1 > len \<and> ztrymalloc avail (h + len + 1)" if "h \<in> {1, 3, 5, 9, 17}" for h
  proof -
    have h: "unat h \<le> 17" using that by auto
    then have "unat (len + h + 1) = unat len + unat h + 1" "unat (h + len + 1) = unat len + unat h + 1"
      using assms(1) by (simp_all add: unat_word_ariths)
    then show ?thesis
      using h assms by (simp add: word_less_nat_alt ztrymalloc_small)
  qed
  show ?thesis
    using room [OF sds_type_size] by (simp add: sdstrynewlen_def Let_def)
qed

lemma room_small:
  assumes "unat len < 2 ^ 62" "\<forall>n \<le> unat len + 18. avail n"
  shows "ztrymalloc avail len" "sdstrynewlen avail len = Some True" "tryCreateStringObject avail len = Some True"
  using assms by (simp_all add: sdstrynewlen_small ztrymalloc_small tryCreateStringObject_def)

lemma load_plain:
  assumes "length s < 2 ^ 62" "\<forall>n \<le> length s + 18. avail n" "\<not> (\<exists>v. s = dec_int v \<and> fits 4 v)"
  shows "loads_string be avail (len_bytes (length s) @ s) s"
  unfolding loads_string_def
proof (intro allI impI)
  fix flags and r :: "rio_buffer rio" and rest
  assume "source r ((len_bytes (length s) @ s) @ rest)"
  then have src: "source r (len_bytes (length s) @ (s @ rest))" by simp
  let ?len = "word_of_nat (length s) :: 64 word"
  have s63: "length s < 2 ^ 63" using assms(1) by simp
  note len = string_len [OF s63]
  note room = room_small [of ?len avail, unfolded len(1), OF assms(1,2)]
  obtain r1 where r1: "rdbLoadLen be r = (r1, Inr (False, ?len))" "source r1 (s @ rest)"
    using load_lengths [OF len(2), of be] src unfolding loads_def len(1) by blast
  obtain r' where r': "rioRead be r1 (length s) = (r', Some s)" "source r' rest"
    using rioRead_buffer [OF r1(2) refl, of be] by auto
  have as: "loaded_as flags s = (if is_raw flags then Bytes s else Object (ObjStr s))"
    using assms(3) by (auto simp: loaded_as_def string2ll_iff split: option.split)
  have zero: "?len = 0 \<longleftrightarrow> s = []" unfolding word_unat_eq_iff len(1) by simp
  show "\<exists>r'. rdbGenericLoadStringObject be avail r flags = Some (r', Inr (loaded_as flags s)) \<and> source r' rest"
  proof (cases "s = []")
    case True
    then show ?thesis using r1 as zero room by (simp add: rdbGenericLoadStringObject_def)
  next
    case False
    then show ?thesis using r1(1) r' as zero room by (simp add: rdbGenericLoadStringObject_def len(1))
  qed
qed

definition lzf_bytes :: "bytes \<Rightarrow> nat \<Rightarrow> bytes" where
  "lzf_bytes c n = 0xC3 # len_bytes (length c) @ len_bytes n @ c"

lemma load_lzf:
  assumes "length s < 2 ^ 62" "\<forall>n \<le> length s + 18. avail n" "\<not> (\<exists>v. s = dec_int v \<and> fits 4 v)"
    "decodes c s" "length c \<le> length s"
  shows "loads_string be avail (lzf_bytes c (length s)) s"
  unfolding loads_string_def
proof (intro allI impI)
  fix flags and r :: "rio_buffer rio" and rest
  assume "source r (lzf_bytes c (length s) @ rest)"
  then have src: "source r ([0xC3] @ (len_bytes (length c) @ (len_bytes (length s) @ (c @ rest))))" by (simp add: lzf_bytes_def)
  let ?len = "word_of_nat (length s) :: 64 word" and ?clen = "word_of_nat (length c) :: 64 word"
  have s63: "length s < 2 ^ 63" and c62: "length c < 2 ^ 62" and c63: "length c < 2 ^ 63" using assms(1,5) by simp_all
  have cavail: "\<forall>n \<le> length c + 18. avail n" using assms(2,5) by simp
  note len = string_len [OF s63] and clen = string_len [OF c63]
  note room = room_small [of ?len avail, unfolded len(1), OF assms(1,2)]
    and croom = room_small(1) [of ?clen avail, unfolded clen(1), OF c62 cavail]
  obtain r1 where r1: "rdbLoadLen be r = (r1, Inr (True, ucast (0xC3 AND 0x3F :: u8)))"
      "source r1 (len_bytes (length c) @ (len_bytes (length s) @ (c @ rest)))"
    using load_kind [OF _ src] by blast
  obtain r2 where r2: "rdbLoadLen be r1 = (r2, Inr (False, ?clen))" "source r2 (len_bytes (length s) @ (c @ rest))"
    using load_lengths [OF clen(2), of be] r1(2) unfolding loads_def clen(1) by blast
  obtain r3 where r3: "rdbLoadLen be r2 = (r3, Inr (False, ?len))" "source r3 (c @ rest)"
    using load_lengths [OF len(2), of be] r2(2) unfolding loads_def len(1) by blast
  obtain r' where r': "rioRead be r3 (length c) = (r', Some c)" "source r' rest"
    using rioRead_buffer [OF r3(2) refl, of be] by auto
  have as: "loaded_as flags s = (if is_raw flags then Bytes s else Object (ObjStr s))"
    using assms(3) by (auto simp: loaded_as_def string2ll_iff split: option.split)
  have d: "lzf_decompress c (replicate (length s) fresh_byte) = Some (Inr (length s, s))"
    using decompress_ok [OF assms(4), of "replicate (length s) fresh_byte"] by auto
  have "rdbLoadLzfStringObject be avail r1 flags = Some (r', Inr (loaded_as flags s))"
    unfolding rdbLoadLzfStringObject_def r2 r3 prod.case sum.case len(1) clen(1) r'(1) option.case d
    using room croom by (simp add: as)
  then show "\<exists>r'. rdbGenericLoadStringObject be avail r flags = Some (r', Inr (loaded_as flags s)) \<and> source r' rest"
    using r1(1) r'(2) by (simp add: rdbGenericLoadStringObject_def rdb_constants)
qed

definition saves_opt :: "bool \<Rightarrow> (rio_buffer rio option \<Rightarrow> (rio_buffer rio option \<times> nat option) option) \<Rightarrow> bytes \<Rightarrow> bool" where
  "saves_opt be f bs \<longleftrightarrow>
     (\<forall>rdb. (\<forall>r. rdb = Some r \<longrightarrow> sink r) \<longrightarrow> f rdb = Some (map_option (\<lambda>r. wrote be r bs) rdb, Some (length bs)))"

lemma saves_optI: "saves be f bs \<Longrightarrow> saves_opt be (\<lambda>rdb. Some (f rdb)) bs"
  by (simp add: saves_def saves_opt_def)

lemma len_bytes_nonempty [simp]: "len_bytes n \<noteq> []"
  by (simp add: len_bytes_def)

lemma length_len_bytes: "length (len_bytes n) \<le> 9"
  by (simp add: len_bytes_def)

lemma save_lzf:
  "length data < 2 ^ 63 \<Longrightarrow> n < 2 ^ 63 \<Longrightarrow> saves be (\<lambda>rdb. rdbSaveLzfBlob be rdb data n) (lzf_bytes data n)"
  using saves_then [OF saves_then [OF saves_then [OF saves_raw [of be "[0xC3]"] save_len [of be "word_of_nat (length data)"]]
      save_len [of be "word_of_nat n"]] saves_raw [of be data]]
  by (simp add: rdbSaveLzfBlob_def lzf_bytes_def rdb_constants unat_of_nat)

lemma save_plain:
  assumes "length s < 2 ^ 63"
  shows "saves be (\<lambda>rdb. save_then (rdbSaveLen be rdb (word_of_nat (length s)))
     (\<lambda>rdb. if length s > 0 then rdbWriteRaw be rdb s else (rdb, Some 0))) (len_bytes (length s) @ s)"
proof -
  have "saves be (\<lambda>rdb. if length s > 0 then rdbWriteRaw be rdb s else (rdb, Some 0)) s"
    using saves_raw [of be s] saves_nothing [of be] by (cases s) simp_all
  then show ?thesis using saves_then [OF save_len [of be "word_of_nat (length s)"]] assms by (simp add: unat_of_nat)
qed

text \<open>What is saved of a string, and that it is the string.\<close>

lemma save_raw_string:
  assumes s: "length s < 2 ^ 62" and avail: "\<forall>n \<le> length s + 18. avail n"
  shows "\<exists>bs. bs \<noteq> [] \<and> length bs \<le> length s + 19 \<and> saves_opt be (\<lambda>rdb. rdbSaveRawString be compression htab rdb s) bs \<and> loads_string be avail bs s"
proof (cases "\<exists>v. s = dec_int v \<and> fits 4 v")
  case True
  then obtain v where v: "s = dec_int v" "fits 4 v" by blast
  have "string2ll s = Some v" using v fits_ll by (simp add: string2ll_iff)
  then have "rdbTryIntegerEncoding s = rdbEncodeInteger v" "length s \<le> 11"
    using v small_text [of v] by (simp_all add: rdbTryIntegerEncoding_def)
  then have "(\<lambda>rdb :: rio_buffer rio option. rdbSaveRawString be compression htab rdb s) = (\<lambda>rdb. Some (rdbWriteRaw be rdb (rdbEncodeInteger v)))"
    using load_integer(2) [OF v(2)] by (simp add: rdbSaveRawString_def)
  moreover have "length (rdbEncodeInteger v) \<le> 5" by (simp add: encode_integer)
  ultimately show ?thesis
    using load_integer(1) [OF v(2), of be avail] load_integer(2) [OF v(2)] saves_optI [OF saves_raw [of be "rdbEncodeInteger v"]] v(1) by (intro exI [of _ "rdbEncodeInteger v"]) simp
next
  case False
  have s63: "length s < 2 ^ 63" using s by simp
  have enc: "(if length s \<le> 11 then rdbTryIntegerEncoding s else []) = []"
    using False by (auto simp: rdbTryIntegerEncoding_def string2ll_iff encode_integer fits_mono split: option.split dest: fits_mono)
  have plain: ?thesis
    if "(\<lambda>rdb :: rio_buffer rio option. rdbSaveRawString be compression htab rdb s) = (\<lambda>rdb. Some (save_then (rdbSaveLen be rdb (word_of_nat (length s)))
       (\<lambda>rdb. if length s > 0 then rdbWriteRaw be rdb s else (rdb, Some 0))))"
    using that saves_optI [OF save_plain [OF s63, of be]] load_plain [OF s avail False, of be] s
    by (intro exI [of _ "len_bytes (length s) @ s"]) (simp add: len_bytes_def)
  show ?thesis
  proof (cases "compression \<and> length s > 20")
    case False
    then show ?thesis by (intro plain) (auto simp: rdbSaveRawString_def enc)
  next
    case True
    then obtain n c where c: "lzf_compress htab s (replicate (length s - 4) fresh_byte) = Some (n, c)" "length c = length s - 4" "n \<le> length s - 4"
        "n \<noteq> 0 \<Longrightarrow> decodes (take n c) s"
      using compress_ok [of s htab "replicate (length s - 4) fresh_byte"] by (auto split: if_splits)
    show ?thesis
    proof (cases "n = 0")
      case True
      with \<open>compression \<and> length s > 20\<close> c show ?thesis
        by (intro plain) (auto simp: rdbSaveRawString_def enc rdbSaveLzfStringObject_def)
    next
      case False
      let ?c = "take n c"
      have lc: "length ?c = n" using c(2,3) by simp
      have sv: "saves be (\<lambda>rdb. rdbSaveLzfBlob be rdb ?c (length s)) (lzf_bytes ?c (length s))"
        by (rule save_lzf) (use s lc c(3) in simp_all)
      have "saves_opt be (\<lambda>rdb. rdbSaveRawString be compression htab rdb s) (lzf_bytes ?c (length s))"
        unfolding saves_opt_def
      proof (intro allI impI)
        fix rdb :: "rio_buffer rio option"
        assume "\<forall>r. rdb = Some r \<longrightarrow> sink r"
        then have "rdbSaveLzfBlob be rdb ?c (length s) = (map_option (\<lambda>r. wrote be r (lzf_bytes ?c (length s))) rdb, Some (length (lzf_bytes ?c (length s))))"
          using sv unfolding saves_def by blast
        then show "rdbSaveRawString be compression htab rdb s
            = Some (map_option (\<lambda>r. wrote be r (lzf_bytes ?c (length s))) rdb, Some (length (lzf_bytes ?c (length s))))"
          using True False c(1) by (simp add: rdbSaveRawString_def enc rdbSaveLzfStringObject_def lzf_bytes_def)
      qed
      moreover have "loads_string be avail (lzf_bytes ?c (length s)) s"
        using load_lzf [OF s avail \<open>\<not> (\<exists>v. s = dec_int v \<and> fits 4 v)\<close> c(4) [OF False]] lc c(3) by simp
      moreover have "length (lzf_bytes ?c (length s)) \<le> length s + 19" "lzf_bytes ?c (length s) \<noteq> []"
        using c(3) lc length_len_bytes [of n] length_len_bytes [of "length s"] by (simp_all add: lzf_bytes_def)
      ultimately show ?thesis by blast
    qed
  qed
qed

definition text_of :: "robj \<Rightarrow> bytes" where
  "text_of ob = (case ob of ObjInt v \<Rightarrow> dec_int v | ObjStr s \<Rightarrow> s)"

definition string_object :: "robj \<Rightarrow> bool" where
  "string_object ob \<longleftrightarrow> (case ob of ObjInt v \<Rightarrow> is_ll v | ObjStr s \<Rightarrow> length s < 2 ^ 62)"

lemma text_length: "string_object ob \<Longrightarrow> length (text_of ob) < 2 ^ 62"
  using ll_text by (fastforce simp: string_object_def text_of_def split: robj.splits)

lemma save_integer_object:
  assumes v: "is_ll v" and avail: "\<forall>n \<le> length (dec_int v) + 18. avail n"
  shows "\<exists>bs. bs \<noteq> [] \<and> length bs \<le> length (dec_int v) + 19 \<and> saves be (\<lambda>rdb. rdbSaveLongLongAsStringObject be rdb v) bs
     \<and> loads_string be avail bs (dec_int v)"
proof (cases "fits 4 v")
  case True
  then have "(\<lambda>rdb :: rio_buffer rio option. rdbSaveLongLongAsStringObject be rdb v) = (\<lambda>rdb. rdbWriteRaw be rdb (rdbEncodeInteger v))"
    using load_integer(2) by (simp add: rdbSaveLongLongAsStringObject_def Let_def)
  moreover have "length (rdbEncodeInteger v) \<le> 5" by (simp add: encode_integer)
  ultimately show ?thesis
    using load_integer(1) [OF True, of be avail] load_integer(2) [OF True] saves_raw [of be "rdbEncodeInteger v"] by (intro exI [of _ "rdbEncodeInteger v"]) simp
next
  case False
  then have enc: "rdbEncodeInteger v = []" using fits_mono [of 1 v 4] fits_mono [of 2 v 4] by (auto simp: encode_integer)
  have l: "length (dec_int v) \<le> 20" using v by (rule ll_text)
  have str: "ll2string (replicate 32 fresh_byte) 32 v
      = (dec_int v @ 0 # drop (Suc (length (dec_int v))) (replicate 32 fresh_byte), length (dec_int v))"
    by (rule ll2string_ok) (use v l in simp_all)
  let ?s = "dec_int v"
  have "saves be (\<lambda>rdb. rdbSaveLongLongAsStringObject be rdb v) (len_bytes (length ?s) @ ?s)"
    using saves_then [OF save_len [of be "word_of_nat (length ?s)"] saves_raw [of be ?s]] l
    by (simp add: rdbSaveLongLongAsStringObject_def enc str unat_of_nat)
  moreover have "\<not> (\<exists>w. ?s = dec_int w \<and> fits 4 w)"
    using v False string2ll_iff [of ?s] fits_ll by (metis option.inject)
  then have "loads_string be avail (len_bytes (length ?s) @ ?s) ?s" using load_plain l avail by simp
  moreover have "length (len_bytes (length ?s) @ ?s) \<le> length ?s + 19" by (simp add: len_bytes_def)
  ultimately show ?thesis by (intro exI [of _ "len_bytes (length ?s) @ ?s"]) simp
qed

lemma save_object:
  assumes ob: "string_object ob" and avail: "\<forall>n \<le> length (text_of ob) + 18. avail n"
  shows "\<exists>bs. bs \<noteq> [] \<and> length bs \<le> length (text_of ob) + 19 \<and> saves_opt be (\<lambda>rdb. rdbSaveStringObject be compression htab rdb ob) bs
     \<and> loads_string be avail bs (text_of ob)"
proof (cases ob)
  case (ObjInt v)
  then have "is_ll v" "\<forall>n \<le> length (dec_int v) + 18. avail n" using assms by (simp_all add: string_object_def text_of_def)
  from save_integer_object [OF this, of be] show ?thesis
    using saves_optI by (fastforce simp: ObjInt rdbSaveStringObject_def text_of_def)
next
  case (ObjStr s)
  then have "length s < 2 ^ 62" "\<forall>n \<le> length s + 18. avail n" using assms by (simp_all add: string_object_def text_of_def)
  from save_raw_string [OF this, of be compression htab] show ?thesis
    by (simp add: ObjStr rdbSaveStringObject_def text_of_def)
qed

section \<open>Round trips\<close>

lemma wrote_ptr [simp]: "b_ptr (rio_io (wrote be r bs)) = b_ptr (rio_io r) @ bs"
  by (simp add: wrote_def)

lemma init_ptr [simp]: "b_ptr (rio_io (rioInitWithBuffer s)) = s"
  by (simp add: rioInitWithBuffer_def)

text \<open>A length is saved in one, two, five or nine bytes, which \<open>rdbLoadLen\<close> reads back, on hosts of either byte
  order, from wherever in a stream they are.  The only length that cannot be read back is the largest: its bytes are
  those of an error.\<close>

theorem rdb_len_roundtrip:
  assumes "sink r"
  shows "\<exists>r' bs. rdbSaveLen be (Some r) len = (Some r', Some (length bs)) \<and> b_ptr (rio_io r') = b_ptr (rio_io r) @ bs
     \<and> rdbSaveLen be (None :: rio_buffer rio option) len = (None, Some (length bs))
     \<and> length bs = (if unat len < 2 ^ 6 then 1 else if unat len < 2 ^ 14 then 2 else if unat len < 2 ^ 32 then 5 else 9)
     \<and> (\<forall>q rest. source q (bs @ rest) \<longrightarrow> (\<exists>q'. source q' rest
          \<and> rdbLoadLen be q = (q', if len = RDB_LENERR then Inl ReadError else Inr (False, len))))"
proof (intro exI conjI)
  let ?bs = "len_bytes (unat len)"
  show "rdbSaveLen be (Some r) len = (Some (wrote be r ?bs), Some (length ?bs))"
    "rdbSaveLen be (None :: rio_buffer rio option) len = (None, Some (length ?bs))"
    using save_len [of be len] assms by (simp_all add: saves_def)
  show "b_ptr (rio_io (wrote be r ?bs)) = b_ptr (rio_io r) @ ?bs" by simp
  show "length ?bs = (if unat len < 2 ^ 6 then 1 else if unat len < 2 ^ 14 then 2 else if unat len < 2 ^ 32 then 5 else 9)"
    by (simp add: len_bytes_def)
  show "\<forall>q rest. source q (?bs @ rest) \<longrightarrow> (\<exists>q'. source q' rest
          \<and> rdbLoadLen be q = (q', if len = RDB_LENERR then Inl ReadError else Inr (False, len)))"
    using load_len [of be len] by (fastforce simp: loads_def rdbLoadLen_def)
qed

theorem rdb_len_roundtrip_witness:
  "\<exists>r' (bs :: bytes). rdbSaveLen False (Some (rioInitWithBuffer [])) 70000 = (Some r', Some (length bs)) \<and> length bs = 5"
proof -
  have "sink (rioInitWithBuffer [])" by (simp add: sink_def rioInitWithBuffer_def)
  from rdb_len_roundtrip [OF this, of False 70000] obtain r' and bs :: bytes
    where "rdbSaveLen False (Some (rioInitWithBuffer [])) 70000 = (Some r', Some (length bs))"
      "length bs = (if unat (70000 :: 64 word) < 2 ^ 6 then 1 else if unat (70000 :: 64 word) < 2 ^ 14 then 2
         else if unat (70000 :: 64 word) < 2 ^ 32 then 5 else 9)" by blast
  then show ?thesis by (intro exI [of _ r'] exI [of _ bs]) simp
qed

text \<open>C8. A string or an integer object is saved to a buffer, whatever is asked of compression and whatever the hash table
  of the compressor holds, and loading the bytes, wherever in a stream they are, gives its text back as what the
  flags ask for: bytes, an object, or with \<open>RDB_LOAD_ENC\<close> an integer object when the text is that of a 32 bit integer.
  Nothing is accessed outside an allocation, and counting the bytes without writing gives the same number.\<close>

theorem rdb_string_roundtrip:
  assumes "string_object ob" "\<forall>n \<le> length (text_of ob) + 18. avail n" "sink r"
  shows "\<exists>r' bs. rdbSaveStringObject be compression htab (Some r) ob = Some (Some r', Some (length bs)) \<and> bs \<noteq> []
     \<and> b_ptr (rio_io r') = b_ptr (rio_io r) @ bs
     \<and> rdbSaveStringObject be compression htab (None :: rio_buffer rio option) ob = Some (None, Some (length bs))
     \<and> (\<forall>flags q rest. source q (bs @ rest) \<longrightarrow>
          (\<exists>q'. rdbGenericLoadStringObject be avail q flags = Some (q', Inr (loaded_as flags (text_of ob))) \<and> source q' rest))"
proof -
  obtain bs where bs: "bs \<noteq> []" "saves_opt be (\<lambda>rdb. rdbSaveStringObject be compression htab rdb ob) bs" "loads_string be avail bs (text_of ob)"
    using save_object [OF assms(1,2), of be compression htab] by blast
  show ?thesis
    by (rule exI [of _ "wrote be r bs"], rule exI [of _ bs]) (use bs assms(3) in \<open>simp add: saves_opt_def loads_string_def\<close>)
qed

theorem rdb_string_roundtrip_witness:
  "\<exists>r' (bs :: bytes). rdbSaveStringObject False True (\<lambda>_. 0) (Some (rioInitWithBuffer [])) (ObjStr (replicate 30 7)) = Some (Some r', Some (length bs)) \<and> bs \<noteq> []"
proof -
  have *: "string_object (ObjStr (replicate 30 7))" "sink (rioInitWithBuffer [])" by (simp_all add: string_object_def sink_def rioInitWithBuffer_def)
  have avail: "\<forall>n \<le> length (text_of (ObjStr (replicate 30 7))) + 18. (\<lambda>_. True) n" by simp
  from rdb_string_roundtrip [OF *(1) avail *(2), of False True "\<lambda>_. 0"] show ?thesis by blast
qed

section \<open>Payloads\<close>

lemma footer_matches:
  assumes "length f = 8"
  shows "let p = body @ [11, 0] @ f in verifyDumpPayload be skip p
    = (skip \<or> memrev64ifbe be (host_store be 8 (unat (crc64 (\<not> be) 0 0 (body @ [11, 0])))) = f, Some 11)"
  using assms by (simp add: verifyDumpPayload_def RDB_VERSION_def Let_def slice_def)

text \<open>C37. \<open>DUMP\<close> of a string gives a payload that passes the check of \<open>RESTORE\<close>, with the version and the checksum, and
  from which \<open>RESTORE\<close> makes the string again, as \<open>tryObjectEncoding\<close> represents it.\<close>

theorem dump_restore_roundtrip:
  assumes "string_object ob" "\<forall>n \<le> length (text_of ob) + 18. avail n"
  shows "\<exists>p. createDumpPayload be compression htab ob = Some p \<and> verifyDumpPayload be skip p = (True, Some RDB_VERSION)
     \<and> restore_value be skip avail other val p = Some (Inr (val (tryObjectEncoding (ObjStr (text_of ob)))))"
proof -
  let ?s = "text_of ob"
  obtain bs where bs: "bs \<noteq> []" "length bs \<le> length ?s + 19" "saves_opt be (\<lambda>rdb. rdbSaveStringObject be compression htab rdb ob) bs"
      "loads_string be avail bs ?s"
    using save_object [OF assms, of be compression htab] by blast
  let ?r = "wrote be (rioInitWithBuffer []) [0]"
  have sk: "sink (rioInitWithBuffer [])" by (simp add: sink_def rioInitWithBuffer_def)
  then have ty: "rdbSaveType be (Some (rioInitWithBuffer [])) RDB_TYPE_STRING = (Some ?r, Some 1)"
    by (simp add: rdbSaveType_def RDB_TYPE_STRING_def rdbWriteRaw_def rioWrite_buffer)
  have st: "rdbSaveStringObject be compression htab (Some ?r) ob = Some (Some (wrote be ?r bs), Some (length bs))"
    using bs(3) sk unfolding saves_opt_def by simp
  have ptr: "b_ptr (rio_io (wrote be ?r bs)) = 0 # bs" by (simp add: rioInitWithBuffer_def)
  let ?body = "0 # bs"
  let ?f = "memrev64ifbe be (host_store be 8 (unat (crc64 (\<not> be) 0 0 (?body @ [11, 0]))))"
  let ?p = "?body @ [11, 0] @ ?f"
  have lf: "length ?f = 8" by (simp add: memrev64ifbe_def host_store_def memrev64_def)
  have dump: "createDumpPayload be compression htab ob = Some ?p"
    unfolding createDumpPayload_def ty st ptr using bs(1) by (simp add: RDB_VERSION_def ptr st Let_def)
  have ver: "verifyDumpPayload be skip ?p = (True, Some RDB_VERSION)"
    using footer_matches [OF lf, of ?body be skip] by (simp add: Let_def RDB_VERSION_def)
  have "length ?p < 2 ^ 63" using bs(2) lf text_length [OF assms(1)] by simp
  then have "source (rioInitWithBuffer ?p) ([0] @ (bs @ [11, 0] @ ?f))" using source_init [of ?p] by simp
  then obtain r1 where r1: "rioRead be (rioInitWithBuffer ?p) 1 = (r1, Some [0])" "source r1 (bs @ [11, 0] @ ?f)"
    using rioRead_buffer [of "rioInitWithBuffer ?p" "[0]" _ 1 be] by auto
  obtain q where q: "rdbGenericLoadStringObject be avail r1 RDB_LOAD_ENC = Some (q, Inr (loaded_as RDB_LOAD_ENC ?s))"
    using bs(4) r1(2) unfolding loads_string_def by blast
  have "restore_value be skip avail other val ?p = Some (Inr (val (tryObjectEncoding (ObjStr ?s))))"
  proof -
    have ll: "string2l x = string2ll x" for x
    proof (cases "string2ll x")
      case (Some v)
      then have "is_ll v" using string2ll_iff [of x v] by simp
      then show ?thesis by (simp add: string2l_def Some is_ll_def)
    qed (simp add: string2l_def)
    have "rdbLoadType be (rioInitWithBuffer ?p) = (r1, Some 0)" using r1(1) by (simp add: rdbLoadType_def)
    moreover have "fits 4 v \<Longrightarrow> string2ll ?s = Some v \<Longrightarrow> length ?s \<le> 20" for v using small_text [of v] by (simp add: string2ll_iff)
    ultimately show ?thesis
      unfolding restore_value_def ver
      by (auto simp: rdbLoadObject_string_def RDB_TYPE_STRING_def q loaded_as_def is_raw_def tryObjectEncoding_def ll split: option.splits)
  qed
  with dump ver show ?thesis by blast
qed

theorem dump_restore_roundtrip_witness:
  "\<exists>p. createDumpPayload False True (\<lambda>_. 0) (ObjStr (replicate 30 7)) = Some p \<and> verifyDumpPayload False False p = (True, Some RDB_VERSION)"
proof -
  have ob: "string_object (ObjStr (replicate 30 7))" by (simp add: string_object_def)
  have avail: "\<forall>n \<le> length (text_of (ObjStr (replicate 30 7))) + 18. (\<lambda>_. True) n" by simp
  from dump_restore_roundtrip [OF ob avail, of False True "\<lambda>_. 0" False] show ?thesis by blast
qed

end
