(* ===== verification/Rdb_Safe.thy ===== *)
theory Rdb_Safe
  imports Rdb_Props
begin

text \<open>
  Loading a string from whatever a stream holds, damaged or hostile: there is a value or an error, unless the
  announced length fails the assertion on the size of an \<open>sds\<close>.
\<close>

lemma decompress_total: "\<exists>res. lzf_decompress c out = Some res \<and> (\<forall>n out'. res = Inr (n, out') \<longrightarrow> length out' = length out)"
  using decompress_loop_in_bounds [of 0 out c 0] by (auto simp: lzf_decompress_def)

section \<open>Memory\<close>

text \<open>The lengths for which the size of an \<open>sds\<close> with its header and NUL does not fit in a \<open>size_t\<close>.\<close>

definition sds_too_long :: "64 word \<Rightarrow> bool" where
  "sds_too_long len \<longleftrightarrow> 2 ^ 64 - 18 \<le> unat len"

text \<open>Memory for an \<open>sds\<close> of \<open>n\<close> bytes.\<close>

definition sds_room :: "(nat \<Rightarrow> bool) \<Rightarrow> nat \<Rightarrow> bool" where
  "sds_room avail n \<longleftrightarrow> (\<exists>h \<in> {1, 3, 5, 9, 17}. avail (h + n + 1))"

lemma ztrymalloc_avail: "ztrymalloc avail len \<Longrightarrow> avail (unat len)"
  by (simp add: ztrymalloc_def split: if_splits)

lemma sdsReqType_long: "2 ^ 32 \<le> unat len \<Longrightarrow> sdsReqType len = SDS_TYPE_64"
  by (simp add: sdsReqType_def word_less_nat_alt)

lemma sdstrynewlen_cases:
  "if sds_too_long len then sdstrynewlen avail len = None
   else \<exists>room. sdstrynewlen avail len = Some room \<and> (room \<longrightarrow> sds_room avail (unat len))"
proof (cases "sds_too_long len")
  case True
  then have long: "2 ^ 64 - 18 \<le> unat len" by (simp add: sds_too_long_def)
  have lt: "unat len < 2 ^ 64" using unsigned_less [of len] by simp
  have "len + 17 + 1 = len + (18 :: 64 word)" by simp
  then have "unat (len + 17 + 1) = (unat len + unat (18 :: 64 word)) mod 2 ^ 64"
    by (simp only: unat_word_ariths(1)) simp
  also have "\<dots> = (unat len + 18) mod 2 ^ 64" by simp
  also have "\<dots> = unat len + 18 - 2 ^ 64" using long lt by (simp add: mod_if)
  finally have "\<not> len + 17 + 1 > len" using lt by (simp add: word_less_nat_alt)
  moreover have "sdsReqType len = SDS_TYPE_64" using long by (intro sdsReqType_long) simp
  ultimately have "sdstrynewlen avail len = None" by (simp add: sdstrynewlen_def sdsHdrSize_def Let_def)
  then show ?thesis using True by simp
next
  case False
  then have short: "unat len < 2 ^ 64 - 18" by (simp add: sds_too_long_def)
  have room: "len + h + 1 > len \<and> (ztrymalloc avail (h + len + 1) \<longrightarrow> sds_room avail (unat len))"
    if "h \<in> {1, 3, 5, 9, 17}" for h
  proof -
    have h: "unat h \<in> {1, 3, 5, 9, 17}" using that by auto
    then have le: "unat h \<le> 17" by auto
    have sum: "unat (len + h + 1) = unat len + unat h + 1" "unat (h + len + 1) = unat h + unat len + 1"
      using le short by (simp_all add: unat_word_ariths)
    then show ?thesis
      using h ztrymalloc_avail [of avail "h + len + 1"] by (auto simp: word_less_nat_alt sds_room_def)
  qed
  show ?thesis
    using room [OF sds_type_size] False by (simp add: sdstrynewlen_def Let_def)
qed

text \<open>A value of the form asked for, in memory that was there; integers need eleven bytes at most, and 44 bytes fit
  into an object.\<close>

definition loaded_ok :: "rdb_flags \<Rightarrow> (nat \<Rightarrow> bool) \<Rightarrow> loaded \<Rightarrow> bool" where
  "loaded_ok flags avail x \<longleftrightarrow> (case x of
     Bytes b \<Rightarrow> is_raw flags \<and> (length b \<le> 11 \<or> (if flags = RDB_LOAD_PLAIN then avail (length b) else sds_room avail (length b)))
   | Object (ObjInt v) \<Rightarrow> flags = RDB_LOAD_ENC \<and> fits 4 v
   | Object (ObjStr b) \<Rightarrow> \<not> is_raw flags \<and> (length b \<le> 44 \<or> sds_room avail (length b)))"

text \<open>A string that is not loaded as plain memory announces a length that is too long for an \<open>sds\<close>: the length itself,
  or after the length of the compressed data, for which there is memory, the one of the uncompressed.\<close>

definition announces_too_long :: "bool \<Rightarrow> (nat \<Rightarrow> bool) \<Rightarrow> 'b rio \<Rightarrow> rdb_flags \<Rightarrow> bool" where
  "announces_too_long be avail r flags \<longleftrightarrow> flags \<noteq> RDB_LOAD_PLAIN \<and>
     (case rdbLoadLen be r of
        (r, Inl _) \<Rightarrow> False
      | (r, Inr (isencoded, len)) \<Rightarrow>
          if isencoded then len = RDB_ENC_LZF \<and>
            (case rdbLoadLen be r of
               (r, Inl _) \<Rightarrow> False
             | (r, Inr (_, clen)) \<Rightarrow> ztrymalloc avail clen \<and>
                 (case rdbLoadLen be r of (r, Inl _) \<Rightarrow> False | (r, Inr (_, len)) \<Rightarrow> sds_too_long len))
          else sds_too_long len)"

section \<open>Loading\<close>

lemma integer_text:
  assumes "fits 4 v"
  shows "(let (buf, len) = ll2string (replicate LONG_STR_SIZE fresh_byte) LONG_STR_SIZE v in take len buf) = dec_int v"
  using ll2string_ok [of v LONG_STR_SIZE "replicate LONG_STR_SIZE fresh_byte"] assms small_text [OF assms]
  by (simp add: fits_ll LONG_STR_SIZE_def)

lemma load_integer_safe:
  assumes "exact_reads good r" "rdbLoadIntegerObject be r kind flags = (r', Inr x)"
  shows "loaded_ok flags avail x"
proof -
  obtain n :: nat where n: "n \<in> {1, 2, 4}"
      "n = (if kind = RDB_ENC_INT8 then 1 else if kind = RDB_ENC_INT16 then 2 else if kind = RDB_ENC_INT32 then 4 else 0)"
    using assms(2) by (fastforce simp: rdbLoadIntegerObject_def split: if_splits)
  then have load: "rdbLoadIntegerObject be r kind flags = (case rioRead be r n of
           (r, None) \<Rightarrow> (r, Inl ReadError)
         | (r, Some enc) \<Rightarrow>
             let v = int_of_le enc;
                 str = (let (buf, len) = ll2string (replicate LONG_STR_SIZE fresh_byte) LONG_STR_SIZE v in take len buf)
             in (r, Inr (if is_raw flags then Bytes str else if flags = RDB_LOAD_ENC then Object (ObjInt v) else Object (ObjStr str))))"
    by (auto simp: rdbLoadIntegerObject_def Let_def)
  obtain q res where q: "rioRead be r n = (q, res)" by force
  then obtain enc where enc: "res = Some enc" using assms(2) unfolding load by (cases res) auto
  have "length enc = n" using rioRead_length(2) [OF assms(1), of be n enc] q enc by simp
  then have v: "fits 4 (int_of_le enc)" using n(1) fits_int_of_le [of enc] fits_mono [of n "int_of_le enc" 4] by fastforce
  show ?thesis
    using assms(2) small_text [OF v] v
    unfolding load q enc prod.case option.case Let_def [of "int_of_le enc"] integer_text [OF v] Let_def [of "dec_int _"]
    by (auto simp: loaded_ok_def split: if_splits)
qed

text \<open>The memory for the string.\<close>

lemma target_cases:
  "if flags \<noteq> RDB_LOAD_PLAIN \<and> sds_too_long len
   then (if flags = RDB_LOAD_PLAIN then Some (ztrymalloc avail len) else sdstrynewlen avail len) = None
   else \<exists>room. (if flags = RDB_LOAD_PLAIN then Some (ztrymalloc avail len) else sdstrynewlen avail len) = Some room
     \<and> (room \<longrightarrow> (if flags = RDB_LOAD_PLAIN then avail (unat len) else sds_room avail (unat len)))"
  using sdstrynewlen_cases [of len avail] ztrymalloc_avail [of avail len] by (auto split: if_splits)

lemma object_cases:
  assumes "\<not> is_raw flags"
  shows "if sds_too_long len then tryCreateStringObject avail len = None
   else \<exists>room. tryCreateStringObject avail len = Some room \<and> (room \<longrightarrow> unat len \<le> 44 \<or> sds_room avail (unat len))"
proof (cases "len \<le> OBJ_ENCODING_EMBSTR_SIZE_LIMIT")
  case True
  then have "unat len \<le> 44" by (simp add: OBJ_ENCODING_EMBSTR_SIZE_LIMIT_def word_le_nat_alt)
  then have "\<not> sds_too_long len" by (simp add: sds_too_long_def)
  moreover have "tryCreateStringObject avail len = Some True \<and> (True \<longrightarrow> unat len \<le> 44 \<or> sds_room avail (unat len))"
    using True \<open>unat len \<le> 44\<close> by (simp add: tryCreateStringObject_def)
  ultimately show ?thesis by (simp only: if_False) blast
next
  case False
  then show ?thesis using sdstrynewlen_cases [of len avail] by (auto simp: tryCreateStringObject_def)
qed

definition lzf_too_long :: "bool \<Rightarrow> (nat \<Rightarrow> bool) \<Rightarrow> 'b rio \<Rightarrow> rdb_flags \<Rightarrow> bool" where
  "lzf_too_long be avail r flags \<longleftrightarrow> flags \<noteq> RDB_LOAD_PLAIN \<and>
     (case rdbLoadLen be r of
        (r, Inl _) \<Rightarrow> False
      | (r, Inr (_, clen)) \<Rightarrow> ztrymalloc avail clen \<and>
          (case rdbLoadLen be r of (r, Inl _) \<Rightarrow> False | (r, Inr (_, len)) \<Rightarrow> sds_too_long len))"

lemma load_lzf_safe:
  "if lzf_too_long be avail r flags then rdbLoadLzfStringObject be avail r flags = None
   else \<exists>r' res. rdbLoadLzfStringObject be avail r flags = Some (r', res) \<and> (\<forall>x. res = Inr x \<longrightarrow> loaded_ok flags avail x)"
proof -
  obtain r1 res1 where r1: "rdbLoadLen be r = (r1, res1)" by force
  show ?thesis
  proof (cases res1)
    case (Inl e)
    then show ?thesis by (simp add: rdbLoadLzfStringObject_def lzf_too_long_def r1)
  next
    case (Inr x1)
    then obtain e1 clen where x1: "res1 = Inr (e1, clen)" by (cases x1) simp
    obtain r2 res2 where r2: "rdbLoadLen be r1 = (r2, res2)" by force
    show ?thesis
    proof (cases res2)
      case (Inl e)
      then show ?thesis by (simp add: rdbLoadLzfStringObject_def lzf_too_long_def r1 x1 r2)
    next
      case (Inr x2)
      then obtain e2 len where x2: "res2 = Inr (e2, len)" by (cases x2) simp
      have long: "lzf_too_long be avail r flags \<longleftrightarrow> flags \<noteq> RDB_LOAD_PLAIN \<and> ztrymalloc avail clen \<and> sds_too_long len"
        by (simp add: lzf_too_long_def r1 x1 r2 x2)
      let ?target = "if flags = RDB_LOAD_PLAIN then Some (ztrymalloc avail len) else sdstrynewlen avail len"
      obtain r3 res3 where r3: "rioRead be r2 (unat clen) = (r3, res3)" by force
      have load: "rdbLoadLzfStringObject be avail r flags =
         (if \<not> ztrymalloc avail clen then Some (r2, Inl AllocFailed)
          else do {
            room \<leftarrow> ?target;
            if \<not> room then Some (r2, Inl AllocFailed)
            else case res3 of
              None \<Rightarrow> Some (r3, Inl ReadError)
            | Some c \<Rightarrow> do {
                res \<leftarrow> lzf_decompress c (replicate (unat len) fresh_byte);
                let (n, val) = (case res of Inr (n, val) \<Rightarrow> (n, val) | Inl _ \<Rightarrow> (0, replicate (unat len) fresh_byte));
                Some (r3, if n \<noteq> unat len then Inl CorruptRDB
                          else Inr (if is_raw flags then Bytes val else Object (ObjStr val))) } })"
        unfolding rdbLoadLzfStringObject_def r1 x1 r2 x2 prod.case sum.case r3 ..
      show ?thesis
      proof (cases "ztrymalloc avail clen \<and> \<not> (flags \<noteq> RDB_LOAD_PLAIN \<and> sds_too_long len)")
        case False
        then show ?thesis using target_cases [of flags len avail] unfolding load long by (auto split: if_splits)
      next
        case True
        then obtain room where room: "?target = Some room"
            "room \<Longrightarrow> if flags = RDB_LOAD_PLAIN then avail (unat len) else sds_room avail (unat len)"
          using target_cases [of flags len avail] by (auto split: if_splits)
        have ok: "loaded_ok flags avail (if is_raw flags then Bytes val else Object (ObjStr val))" if "room" "length val = unat len" for val
          using room(2) that by (auto simp: loaded_ok_def is_raw_def)
        have "\<exists>r' res. rdbLoadLzfStringObject be avail r flags = Some (r', res) \<and> (\<forall>x. res = Inr x \<longrightarrow> loaded_ok flags avail x)"
        proof (cases "room \<and> res3 \<noteq> None")
          case False
          then show ?thesis using True unfolding load room(1) by (cases res3) auto
        next
          case got: True
          then obtain c where c: "res3 = Some c" by auto
          obtain d where d: "lzf_decompress c (replicate (unat len) fresh_byte) = Some d"
              "\<And>n out'. d = Inr (n, out') \<Longrightarrow> length out' = unat len"
            using decompress_total [of c "replicate (unat len) fresh_byte"] by auto
          show ?thesis
            unfolding load room(1) c
            using True got d ok by (auto split: sum.splits prod.splits simp del: replicate.simps)
        qed
        moreover have "\<not> lzf_too_long be avail r flags" using True long by blast
        ultimately show ?thesis by (simp only: if_False)
      qed
    qed
  qed
qed

lemma rdbLoadLen_exact: "exact_reads good r \<Longrightarrow> rdbLoadLen be r = (r', res) \<Longrightarrow> exact_reads good r'"
proof -
  have step: "exact_reads good q \<Longrightarrow> rioRead be q n = (q', x) \<Longrightarrow> exact_reads good q'" for q q' :: "'a rio" and n x
    using rioRead_length(1) [of good q be n] by simp
  show "exact_reads good r \<Longrightarrow> rdbLoadLen be r = (r', res) \<Longrightarrow> exact_reads good r'"
    by (auto simp: rdbLoadLen_def rdbLoadLenByRef_def Let_def split: prod.splits option.splits if_splits sum.splits dest: step)
qed

text \<open>C39. Whatever a stream gives, as long as its backend is in order and a successful read gives as many bytes as
  were asked for: loading a string returns a value or an error and touches nothing outside what it has allocated, and
  a value has the form that the flags ask for, an integer fits in 32 bits, and a string is in memory that \<open>malloc\<close> had
  (with the header of its \<open>sds\<close>).  The exception is a string not loaded as plain memory that announces a length from
  \<open>2 ^ 64 - 18\<close> on: then, and only then, an assertion fails, which aborts the server.\<close>

theorem rdb_load_safe:
  assumes "exact_reads good r"
  shows "if announces_too_long be avail r flags then rdbGenericLoadStringObject be avail r flags = None
     else \<exists>r' res. rdbGenericLoadStringObject be avail r flags = Some (r', res) \<and> (\<forall>x. res = Inr x \<longrightarrow> loaded_ok flags avail x)"
proof -
  obtain r1 res1 where r1: "rdbLoadLen be r = (r1, res1)" by force
  then have ex: "exact_reads good r1" using rdbLoadLen_exact [OF assms] by simp
  show ?thesis
  proof (cases res1)
    case (Inl e)
    then show ?thesis by (simp add: rdbGenericLoadStringObject_def announces_too_long_def r1)
  next
    case (Inr y)
    then obtain enc len where y: "res1 = Inr (enc, len)" by (cases y) simp
    show ?thesis
    proof (cases enc)
      case True
      obtain q x where q: "rdbLoadIntegerObject be r1 len flags = (q, x)" by force
      have long: "announces_too_long be avail r flags \<longleftrightarrow> len = RDB_ENC_LZF \<and> lzf_too_long be avail r1 flags"
        by (auto simp: announces_too_long_def lzf_too_long_def r1 y True split: prod.splits sum.splits)
      show ?thesis
        unfolding long
        using load_integer_safe [OF ex, of be len flags _ _ avail] load_lzf_safe [of be avail r1 flags] q
        by (auto simp: rdbGenericLoadStringObject_def r1 y True rdb_constants)
    next
      case False
      have long: "announces_too_long be avail r flags \<longleftrightarrow> flags \<noteq> RDB_LOAD_PLAIN \<and> sds_too_long len"
        by (simp add: announces_too_long_def r1 y False)
      let ?target = "if flags = RDB_LOAD_PLAIN then Some (ztrymalloc avail len)
         else if flags = RDB_LOAD_SDS then sdstrynewlen avail len else tryCreateStringObject avail len"
      have target: "if flags \<noteq> RDB_LOAD_PLAIN \<and> sds_too_long len then ?target = None
         else \<exists>room. ?target = Some room \<and> (room \<longrightarrow> (\<forall>b. length b = unat len \<longrightarrow>
           loaded_ok flags avail (if is_raw flags then Bytes b else Object (ObjStr b))))"
        using target_cases [of flags len avail] object_cases [of flags len avail]
        by (cases flags) (auto simp: is_raw_def loaded_ok_def split: if_splits)
      obtain q x where q: "rioRead be r1 (unat len) = (q, x)" by force
      have x: "x = Some buf \<Longrightarrow> length buf = unat len" for buf using rioRead_length(2) [OF ex, of be "unat len" buf] q by simp
      have load: "rdbGenericLoadStringObject be avail r flags = do {
         room \<leftarrow> ?target;
         if \<not> room then Some (r1, Inl AllocFailed)
         else if len = 0 then Some (r1, Inr (if is_raw flags then Bytes [] else Object (ObjStr [])))
         else Some (case x of None \<Rightarrow> (q, Inl ReadError)
           | Some buf \<Rightarrow> (q, Inr (if is_raw flags then Bytes buf else Object (ObjStr buf)))) }"
        unfolding rdbGenericLoadStringObject_def r1 y prod.case sum.case q using False by simp
      show ?thesis
      proof (cases "flags \<noteq> RDB_LOAD_PLAIN \<and> sds_too_long len")
        case True
        then have "?target = None" using target by simp
        then show ?thesis unfolding load long using True by simp
      next
        case fine: False
        then obtain room where room: "?target = Some room"
            "\<And>b. room \<Longrightarrow> length b = unat len \<Longrightarrow> loaded_ok flags avail (if is_raw flags then Bytes b else Object (ObjStr b))"
          using target by auto
        have "\<exists>r' res. rdbGenericLoadStringObject be avail r flags = Some (r', res) \<and> (\<forall>x. res = Inr x \<longrightarrow> loaded_ok flags avail x)"
          unfolding load room(1) using room(2) [of "[]"] room(2) x by (cases room; cases "len = 0"; cases x) auto
        then show ?thesis using fine unfolding long by (simp only: if_False)
      qed
    qed
  qed
qed

text \<open>Compressed data are loaded; nine bytes with a length of \<open>2 ^ 64 - 16\<close> abort the server.\<close>

theorem rdb_load_safe_witness:
  "(\<exists>r' res. rdbGenericLoadStringObject False (\<lambda>n. n < 100) (rioInitWithBuffer [0xC3, 5, 0, 7]) RDB_LOAD_PLAIN = Some (r', res))
   \<and> rdbGenericLoadStringObject False (\<lambda>n. n < 100) (rioInitWithBuffer [0x81, 0xFF, 0xFF, 0xFF, 0xFF, 0xFF, 0xFF, 0xFF, 0xF0]) RDB_LOAD_ENC = None"
proof
  have "exact_reads buffer_ok (rioInitWithBuffer [0xC3, 5, 0, 7])" by (rule buffer_exact) simp
  from rdb_load_safe [OF this, of False "\<lambda>n. n < 100" RDB_LOAD_PLAIN]
  show "\<exists>r' res. rdbGenericLoadStringObject False (\<lambda>n. n < 100) (rioInitWithBuffer [0xC3, 5, 0, 7]) RDB_LOAD_PLAIN = Some (r', res)"
    by (auto simp: announces_too_long_def)
  let ?bs = "[0x81, 0xFF, 0xFF, 0xFF, 0xFF, 0xFF, 0xFF, 0xFF, 0xF0] :: bytes"
  have ex: "exact_reads buffer_ok (rioInitWithBuffer ?bs)" by (rule buffer_exact) simp
  have len: "unat (0xFFFFFFFFFFFFFFF0 :: 64 word) = 0xFFFFFFFFFFFFFFF0" by simp
  let ?le = "[0xF0, 0xFF, 0xFF, 0xFF, 0xFF, 0xFF, 0xFF, 0xFF] :: bytes"
  have "nat_of_le ?le = 0xFFFFFFFFFFFFFFF0" by simp
  moreover have "length ?le = 8" by simp
  ultimately have "le_of_nat 8 0xFFFFFFFFFFFFFFF0 = ?le" using le_of_nat_of_le [of ?le] by presburger
  then have bytes: "len_bytes 0xFFFFFFFFFFFFFFF0 = ?bs" by (simp add: len_bytes_def RDB_64BITLEN_def)
  have "source (rioInitWithBuffer ?bs) (len_bytes 0xFFFFFFFFFFFFFFF0 @ [])"
    using source_init [of ?bs] unfolding bytes by simp
  moreover have "(0xFFFFFFFFFFFFFFF0 :: 64 word) \<noteq> RDB_LENERR" by (simp add: RDB_LENERR_def)
  ultimately obtain r' where "rdbLoadLen False (rioInitWithBuffer ?bs) = (r', Inr (False, 0xFFFFFFFFFFFFFFF0))"
    using load_lengths [of "0xFFFFFFFFFFFFFFF0" False] unfolding loads_def len by blast
  then have "announces_too_long False (\<lambda>n. n < 100) (rioInitWithBuffer ?bs) RDB_LOAD_ENC"
    by (simp add: announces_too_long_def sds_too_long_def)
  then show "rdbGenericLoadStringObject False (\<lambda>n. n < 100) (rioInitWithBuffer ?bs) RDB_LOAD_ENC = None"
    using rdb_load_safe [OF ex, of False "\<lambda>n. n < 100" RDB_LOAD_ENC] by simp
qed

end
