(* ===== verification/Dump_Check.thy ===== *)
theory Dump_Check
  imports Rdb
begin

text \<open>
  What the checksum of a \<open>DUMP\<close> payload promises.  The payload with its checksum is a code word: its CRC is 0, and two
  code words that differ within 64 consecutive bits are the same.
\<close>

section \<open>The checksum\<close>

lemma xor_cancel: "c XOR x = c XOR y \<longleftrightarrow> x = (y :: 64 word)"
proof
  assume "c XOR x = c XOR y"
  then have "c XOR (c XOR x) = c XOR (c XOR y)" by (rule arg_cong)
  then show "x = y" by (simp add: xor.assoc [symmetric])
qed simp

lemma xor_cancel_right: "x XOR c = y XOR c \<longleftrightarrow> x = (y :: 64 word)"
  using xor_cancel [of c x y] by (simp only: xor.commute)

lemma crc64_zero_inj: "x = 0" if z: "crc64_zero x = 0"
proof -
  have poly: "bit (crc_reflect POLY 64) 63" by (simp add: bit_crc_reflect POLY_def)
  have "bit (drop_bit 1 x) 63 = False" using bit_imp_le_length [of x 64] by (auto simp: bit_drop_bit_eq)
  then have "bit (crc64_zero x) 63 \<longleftrightarrow> bit x 0" using poly by (cases "bit x 0") (simp_all only: crc64_zero_def bit_xor_iff if_True if_False bit_0_eq bot_apply simp_thms bot_bool_def)
  then have b0: "\<not> bit x 0" unfolding z by simp
  then have d: "drop_bit 1 x = 0" using z unfolding crc64_zero_def by simp
  have "\<not> bit x n" for n
  proof (cases n)
    case (Suc m)
    have "\<not> bit (drop_bit 1 x) m" unfolding d by simp
    then show ?thesis unfolding Suc bit_drop_bit_eq by simp
  qed (use b0 in simp)
  then show ?thesis by (intro bit_word_eqI) simp
qed

lemma crc64_zeros_inj: "(crc64_zero ^^ k) x = (crc64_zero ^^ k) y \<longleftrightarrow> x = y"
proof
  have inj0: "(crc64_zero ^^ k) z = 0 \<Longrightarrow> z = 0" for z
    by (induction k) (auto dest: crc64_zero_inj)
  assume "(crc64_zero ^^ k) x = (crc64_zero ^^ k) y"
  then have "(crc64_zero ^^ k) (x XOR y) = 0" by (simp only: crc64_zeros_xor xor_self_eq)
  then have "x XOR y = y XOR y" using inj0 by simp
  then show "x = y" by (simp only: xor_cancel_right)
qed simp

lemma crc64_spec_window:
  "length w \<le> 8 \<Longrightarrow> crc64_spec w r = (crc64_zero ^^ (8 * length w)) (r XOR word_of_nat (nat_of_le w))"
  using crc64_bytes_word [of w r] by (simp add: crc64_spec_def little_byte_eq [abs_def] del: funpow.simps)

lemma crc64_spec_zeros: "crc64_spec (replicate n 0) 0 = 0"
  using crc64_zeros_0 [of 8] by (induction n) (simp_all add: crc64_spec_def del: funpow.simps)

lemma crc64_spec_append: "crc64_spec (a @ b) r = crc64_spec b (crc64_spec a r)"
  by (simp add: crc64_spec_def)

lemma crc64_spec_inj: "crc64_spec s r = crc64_spec s r' \<longleftrightarrow> r = r'"
proof (induction s arbitrary: r r')
  case (Cons b s)
  have "crc64_spec (b # s) q = crc64_spec s ((crc64_zero ^^ 8) (q XOR ucast b))" for q by (simp add: crc64_spec_def)
  then show ?case by (simp only: Cons.IH crc64_zeros_inj xor_cancel_right)
qed (simp add: crc64_spec_def)

lemma le_word_inj:
  assumes "length w = length w'" "length w \<le> 8" "(word_of_nat (nat_of_le w) :: 64 word) = word_of_nat (nat_of_le w')"
  shows "w = w'"
proof -
  have le: "nat_of_le v < 2 ^ 64" if "length v \<le> 8" for v
  proof -
    have "nat_of_le v < 256 ^ length v" by (rule nat_of_le_less)
    also have "\<dots> \<le> 256 ^ 8" using that by (intro power_increasing) auto
    finally show ?thesis by simp
  qed
  have "nat_of_le w = nat_of_le w'"
    using arg_cong [OF assms(3), of unat] le [of w] le [of w'] assms(1,2) by (simp add: unat_of_nat)
  then show ?thesis by (metis assms(1) le_of_nat_of_le)
qed

lemma le_of_nat_zero: "le_of_nat n 0 = replicate n 0"
  by (induction n) simp_all

lemma pow_256_8: "(256 :: nat) ^ 8 = 2 ^ 64"
  by simp

lemma verified_crc:
  assumes "10 \<le> length p"
  shows "fst (verifyDumpPayload be False p) \<longrightarrow> crc64_spec p 0 = 0"
proof -
  let ?body = "take (length p - 8) p" and ?ck = "drop (length p - 8) p"
  let ?c = "crc64_spec ?body 0"
  have l8: "length ?ck = 8" using assms by simp
  have sl: "slice 2 8 (drop (length p - 10) p) = ?ck" 
  proof -
    have "2 + (length p - 10) = length p - 8" using assms by simp
    then show ?thesis using assms by (simp only: slice_def drop_drop add.commute [of _ 2]) simp
  qed
  have st: "memrev64ifbe be (host_store be 8 (unat ?c)) = le_of_nat 8 (unat ?c)"
    by (simp add: memrev64ifbe_def host_store_def memrev_rev)
  have "crc64_spec p 0 = crc64_spec ?ck ?c" by (metis append_take_drop_id crc64_spec_append)
  also have "\<dots> = (crc64_zero ^^ 64) (?c XOR word_of_nat (nat_of_le ?ck))"
    using crc64_spec_window [of ?ck ?c] l8 by (simp del: funpow.simps)
  finally have p: "crc64_spec p 0 = (crc64_zero ^^ 64) (?c XOR word_of_nat (nat_of_le ?ck))" .
  show ?thesis
  proof
    assume "fst (verifyDumpPayload be False p)"
    then have "le_of_nat 8 (unat ?c) = ?ck"
      using assms sl st by (auto simp: verifyDumpPayload_def Let_def crc64_eq_spec split: if_splits)
    then have "nat_of_le ?ck = nat_of_le (le_of_nat 8 (unat ?c))" by simp
    also have "\<dots> = unat ?c mod 2 ^ 64" by (simp only: nat_of_le_of_nat pow_256_8)
    also have "\<dots> = unat ?c" using unsigned_less [of ?c] by (intro mod_less) simp
    finally have "nat_of_le ?ck = unat ?c" .
    then show "crc64_spec p 0 = 0" using p by (simp add: crc64_zeros_0 del: funpow.simps)
  qed
qed

text \<open>C38. \<open>RESTORE\<close> notices damage: of two payloads that differ only within eight consecutive bytes, wherever these
  are, the version and the checksum included, at most one passes the check.\<close>

theorem dump_damage_noticed:
  assumes "length w' = length w" "length w \<le> 8" "w' \<noteq> w" "fst (verifyDumpPayload be False (a @ w @ b))"
  shows "\<not> fst (verifyDumpPayload be False (a @ w' @ b))"
proof
  assume ok: "fst (verifyDumpPayload be False (a @ w' @ b))"
  have len: "10 \<le> length (a @ w @ b)" "10 \<le> length (a @ w' @ b)"
    using assms(1,4) ok by (simp_all add: verifyDumpPayload_def split: if_splits)
  have "crc64_spec (a @ w @ b) 0 = crc64_spec (a @ w' @ b) 0"
    using verified_crc [OF len(1)] verified_crc [OF len(2)] assms(4) ok by simp
  then have "crc64_spec w (crc64_spec a 0) = crc64_spec w' (crc64_spec a 0)" by (simp only: crc64_spec_append crc64_spec_inj)
  then have "crc64_spec a 0 XOR word_of_nat (nat_of_le w) = crc64_spec a 0 XOR word_of_nat (nat_of_le w')"
    using assms(1,2) by (simp only: crc64_spec_window crc64_zeros_inj)
  then have "(word_of_nat (nat_of_le w) :: 64 word) = word_of_nat (nat_of_le w')" by (simp only: xor_cancel)
  then show False using le_word_inj [of w w'] assms(1-3) by simp
qed

theorem dump_damage_noticed_witness: "\<not> fst (verifyDumpPayload False False ([] @ [1, 0] @ replicate 16 0))"
proof -
  have "crc64 (\<not> False) 0 0 (replicate 10 0) = 0" by (simp only: crc64_eq_spec crc64_spec_zeros)
  moreover have "memrev64ifbe False (host_store False 8 0) = replicate 8 0"
    by (simp add: memrev64ifbe_def host_store_def memrev_rev le_of_nat_zero)
  ultimately have "fst (verifyDumpPayload False False (replicate 18 0))"
    by (simp add: verifyDumpPayload_def Let_def RDB_VERSION_def slice_def)
  moreover have "replicate 18 0 = [] @ [0, 0] @ replicate 16 (0 :: u8)" by (simp add: numeral_eq_Suc)
  ultimately have "fst (verifyDumpPayload False False ([] @ [0, 0] @ replicate 16 0))" by (simp only:)
  then show ?thesis using dump_damage_noticed [of "[1, 0]" "[0, 0]" False "[]" "replicate 16 0"] by simp
qed

end
