(* ===== verification/Sds_Args.thy ===== *)
theory Sds_Args
  imports Lzf
begin

text \<open>
  Lines of arguments (\<open>sds.c\<close>): \<open>sdssplitargs\<close> splits a line, quotes and escapes included, and \<open>sdscatrepr\<close> writes a
  string in quotes.  A pointer into the line is the rest of its bytes, the terminator included; \<open>None\<close> is a byte read
  after the terminator.  Characters are those of the C locale.
\<close>

section \<open>Characters\<close>

text \<open>\<open>isspace\<close> and \<open>isprint\<close> of the C library.\<close>

definition isspace :: "u8 \<Rightarrow> bool" where
  "isspace c \<longleftrightarrow> c = 32 \<or> (9 \<le> c \<and> c \<le> 13)"

definition isprint :: "u8 \<Rightarrow> bool" where
  "isprint c \<longleftrightarrow> 32 \<le> c \<and> c \<le> 126"

definition is_hex_digit :: "u8 \<Rightarrow> bool" where
  "is_hex_digit c \<longleftrightarrow> (48 \<le> c \<and> c \<le> 57) \<or> (97 \<le> c \<and> c \<le> 102) \<or> (65 \<le> c \<and> c \<le> 70)"

definition hex_digit_to_int :: "u8 \<Rightarrow> nat" where
  "hex_digit_to_int c =
     (if 48 \<le> c \<and> c \<le> 57 then unat (c - 48) else if 97 \<le> c \<and> c \<le> 102 then unat (c - 97) + 10
      else if 65 \<le> c \<and> c \<le> 70 then unat (c - 65) + 10 else 0)"

section \<open>Writing\<close>

text \<open>\<open>%02x\<close>.\<close>

definition hex_digit :: "nat \<Rightarrow> u8" where
  "hex_digit d = word_of_nat (if d < 10 then 48 + d else 87 + d)"

definition repr_char :: "u8 \<Rightarrow> bytes" where
  "repr_char c =
     (if c = 92 \<or> c = 34 then [92, c]
      else if c = 10 then [92, 110]
      else if c = 13 then [92, 114]
      else if c = 9 then [92, 116]
      else if c = 7 then [92, 97]
      else if c = 8 then [92, 98]
      else if isprint c then [c]
      else [92, 120, hex_digit (unat c div 16), hex_digit (unat c mod 16)])"

fun repr_loop :: "bytes \<Rightarrow> bytes \<Rightarrow> bytes" where
  "repr_loop s [] = s"
| "repr_loop s (c # p) = repr_loop (s @ repr_char c) p"

definition sdscatrepr :: "bytes \<Rightarrow> bytes \<Rightarrow> bytes" where
  "sdscatrepr s p = repr_loop (s @ [34]) p @ [34]"

section \<open>Splitting\<close>

datatype quotes = NoQuotes | InQuotes | InSingleQuotes

text \<open>The condition on the four characters of an escaped byte: with \<open>Some\<close> its value; it stops at the first that
  does not fit.\<close>

definition escaped_byte :: "bytes \<Rightarrow> u8 option option" where
  "escaped_byte p = do {
     a \<leftarrow> rd p 0;
     if a \<noteq> 92 then Some None else do {
       x \<leftarrow> rd p 1;
       if x \<noteq> 120 then Some None else do {
         h \<leftarrow> rd p 2;
         if \<not> is_hex_digit h then Some None else do {
           l \<leftarrow> rd p 3;
           Some (if is_hex_digit l then Some (word_of_nat (hex_digit_to_int h * 16 + hex_digit_to_int l)) else None) } } } }"

definition escape_char :: "u8 \<Rightarrow> u8" where
  "escape_char c = (if c = 110 then 10 else if c = 114 then 13 else if c = 116 then 9 else if c = 98 then 8 else if c = 97 then 7 else c)"

text \<open>The closing quote must be followed by a space or nothing at all.\<close>

definition quote_ends :: "bytes \<Rightarrow> bool option" where
  "quote_ends p = do { b \<leftarrow> rd p 1; Some (b = 0 \<or> isspace b) }"

text \<open>One iteration of the token loop: an error, or the state after it, and whether the token is done.  A \<open>p\<close> that is
  at the terminator stays there.\<close>

definition token_step :: "quotes \<Rightarrow> bytes \<Rightarrow> bytes \<Rightarrow> (bool \<times> quotes \<times> bytes \<times> bytes) option option" where
  "token_step q current p = do {
     c \<leftarrow> rd p 0;
     (case q of
       InQuotes \<Rightarrow> do {
         esc \<leftarrow> escaped_byte p;
         (case esc of
           Some byte \<Rightarrow> Some (Some (False, q, current @ [byte], drop 4 p))
         | None \<Rightarrow> do {
             b \<leftarrow> (if c = 92 then rd p 1 else Some 0);
             if c = 92 \<and> b \<noteq> 0 then Some (Some (False, q, current @ [escape_char b], drop 2 p))
             else if c = 34 then do { e \<leftarrow> quote_ends p; Some (if e then Some (True, q, current, drop 1 p) else None) }
             else if c = 0 then Some None
             else Some (Some (False, q, current @ [c], drop 1 p)) }) }
     | InSingleQuotes \<Rightarrow> do {
         b \<leftarrow> (if c = 92 then rd p 1 else Some 0);
         if c = 92 \<and> b = 39 then Some (Some (False, q, current @ [39], drop 2 p))
         else if c = 39 then do { e \<leftarrow> quote_ends p; Some (if e then Some (True, q, current, drop 1 p) else None) }
         else if c = 0 then Some None
         else Some (Some (False, q, current @ [c], drop 1 p)) }
     | NoQuotes \<Rightarrow>
         if c = 32 \<or> c = 10 \<or> c = 13 \<or> c = 9 then Some (Some (True, q, current, drop 1 p))
         else if c = 0 then Some (Some (True, q, current, p))
         else if c = 34 then Some (Some (False, InQuotes, current, drop 1 p))
         else if c = 39 then Some (Some (False, InSingleQuotes, current, drop 1 p))
         else Some (Some (False, q, current @ [c], drop 1 p))) }"

lemma token_step_shorter:
  assumes "token_step q current p = Some (Some (False, q', current', p'))"
  shows "length p' < length p"
proof -
  have "p \<noteq> []" using assms by (auto simp: token_step_def rd_def)
  then show ?thesis using assms
    by (auto simp: token_step_def split: quotes.splits if_splits Option.bind_splits option.splits)
qed

function token_loop :: "quotes \<Rightarrow> bytes \<Rightarrow> bytes \<Rightarrow> (bytes \<times> bytes) option option" where
  "token_loop q current p = (case token_step q current p of
     None \<Rightarrow> None
   | Some None \<Rightarrow> Some None
   | Some (Some (True, _, current, p)) \<Rightarrow> Some (Some (current, p))
   | Some (Some (False, q, current, p)) \<Rightarrow> token_loop q current p)"
  by pat_completeness auto
termination
  by (relation "measure (\<lambda>(_, _, p). length p)") (auto dest: token_step_shorter)

declare token_loop.simps [simp del]

fun skip_blanks :: "bytes \<Rightarrow> bytes option" where
  "skip_blanks [] = None"
| "skip_blanks (c # p) = (if c \<noteq> 0 \<and> isspace c then skip_blanks p else Some (c # p))"

lemma token_step_length: "token_step q current p = Some (Some (done, q', current', p')) \<Longrightarrow> length p' \<le> length p"
  by (auto simp: token_step_def split: quotes.splits if_splits Option.bind_splits option.splits)

lemma token_loop_length: "token_loop q current p = Some (Some (current', p')) \<Longrightarrow> length p' \<le> length p"
proof (induction q current p rule: token_loop.induct)
  case (1 q current p)
  then obtain fin q1 c1 p1 where step: "token_step q current p = Some (Some (fin, q1, c1, p1))"
    by (subst (asm) (2) token_loop.simps) (auto split: option.splits bool.splits)
  then have "length p1 \<le> length p" by (rule token_step_length)
  then show ?case using 1 step by (cases fin) (fastforce simp: token_loop.simps [of q current p])+
qed

lemma token_loop_shorter:
  assumes "token_loop NoQuotes current (c # p) = Some (Some (current', p'))" "c \<noteq> 0"
  shows "length p' \<le> length p"
proof -
  obtain fin q1 c1 p1 where step: "token_step NoQuotes current (c # p) = Some (Some (fin, q1, c1, p1))"
    using assms(1) by (subst (asm) token_loop.simps) (auto split: option.splits bool.splits)
  then have p1: "p1 = p" using assms(2) by (auto simp: token_step_def rd_def split: if_splits)
  show ?thesis
    using assms(1) step token_loop_length [of q1 c1 p1 current' p'] p1
    by (cases fin) (simp_all add: token_loop.simps [of NoQuotes current "c # p"])
qed

lemma skip_blanks_length: "skip_blanks p = Some p' \<Longrightarrow> length p' \<le> length p \<and> p' \<noteq> []"
  by (induction p) (auto split: if_splits)

function split_loop :: "bytes list \<Rightarrow> bytes \<Rightarrow> bytes list option option" where
  "split_loop vector p = (case skip_blanks p of
     None \<Rightarrow> None
   | Some p \<Rightarrow>
       if hd p = 0 then Some (Some vector)
       else (case token_loop NoQuotes [] p of
           None \<Rightarrow> None
         | Some None \<Rightarrow> Some None
         | Some (Some (current, p)) \<Rightarrow> split_loop (vector @ [current]) p))"
  by pat_completeness auto
termination
proof (relation "measure (\<lambda>(_, p). length p)", goal_cases)
  case (2 vector p p1 x2 x2a current p2)
  then obtain c p' where p1: "p1 = c # p'" "c \<noteq> 0" by (cases p1) (auto dest: skip_blanks_length)
  then have "length p2 \<le> length p'" using 2 p1 token_loop_shorter [of "[]" c p' current p2] by simp
  then show ?case using 2 p1 skip_blanks_length [of p p1] by simp
qed simp

declare split_loop.simps [simp del]

text \<open>The line is a C string: what follows a byte 0 in it is not seen.\<close>

definition sdssplitargs :: "bytes \<Rightarrow> bytes list option option" where
  "sdssplitargs line = split_loop [] (line @ [0])"

section \<open>Splitting is total\<close>

text \<open>A pointer into a C string: there is a terminator.\<close>

lemma rd_Cons [simp]: "rd (c # p) 0 = Some c" "rd (c # p) (Suc n) = rd p n" "rd (c # p) 1 = rd p 0"
    "rd (c # p) (numeral k) = rd p (pred_numeral k)"
  by (simp_all add: rd_def numeral_eq_Suc)

lemma zero_ahead: "0 \<in> set p \<Longrightarrow> \<exists>c p'. p = c # p' \<and> (c \<noteq> 0 \<longrightarrow> 0 \<in> set p')"
  by (cases p) auto

lemma hex_nonzero: "is_hex_digit c \<Longrightarrow> c \<noteq> 0"
  by (auto simp: is_hex_digit_def)

lemma escaped_byte_safe:
  assumes "0 \<in> set p"
  shows "\<exists>r. escaped_byte p = Some r \<and> (r \<noteq> None \<longrightarrow> 0 \<in> set (drop 4 p))"
proof -
  obtain c p1 where p: "p = c # p1" "c \<noteq> 0 \<longrightarrow> 0 \<in> set p1" using zero_ahead assms by blast
  show ?thesis
  proof (cases "c = 92")
    case c: True
    then obtain x p2 where p1: "p1 = x # p2" "x \<noteq> 0 \<longrightarrow> 0 \<in> set p2" using zero_ahead [of p1] p by auto
    show ?thesis
    proof (cases "x = 120")
      case x: True
      then obtain h p3 where p2: "p2 = h # p3" "h \<noteq> 0 \<longrightarrow> 0 \<in> set p3" using zero_ahead [of p2] p1 by auto
      show ?thesis
      proof (cases "is_hex_digit h")
        case h: True
        then obtain l p4 where p3: "p3 = l # p4" "l \<noteq> 0 \<longrightarrow> 0 \<in> set p4" using zero_ahead [of p3] p2 hex_nonzero by blast
        then show ?thesis using p p1 p2 c x h hex_nonzero [of l] by (auto simp: escaped_byte_def)
      qed (use p p1 p2 c x in \<open>simp add: escaped_byte_def\<close>)
    qed (use p p1 c in \<open>simp add: escaped_byte_def\<close>)
  qed (use p in \<open>simp add: escaped_byte_def\<close>)
qed

lemma quote_ends_safe: "0 \<in> set p \<Longrightarrow> p = c # p' \<Longrightarrow> c \<noteq> 0 \<Longrightarrow> \<exists>b. quote_ends p = Some b"
  by (cases p') (auto simp: quote_ends_def)

lemma token_step_safe:
  assumes "0 \<in> set p"
  shows "\<exists>res. token_step q current p = Some res \<and> (\<forall>fin q' current' p'. res = Some (fin, q', current', p') \<longrightarrow> 0 \<in> set p')"
proof -
  obtain c p1 where p: "p = c # p1" using assms by (cases p) auto
  show ?thesis
  proof (cases "c = 0")
    case True
    then show ?thesis using p by (auto simp: token_step_def escaped_byte_def split: quotes.split)
  next
    case c: False
    then obtain d p2 where p1: "p1 = d # p2" "d \<noteq> 0 \<longrightarrow> 0 \<in> set p2" "0 \<in> set p1"
      using assms p zero_ahead [of p1] by auto
    obtain r where r: "escaped_byte p = Some r" "r \<noteq> None \<longrightarrow> 0 \<in> set (drop 4 p)" using escaped_byte_safe [OF assms] by blast
    obtain e where e: "quote_ends p = Some e" using quote_ends_safe [OF assms p c] by blast
    show ?thesis
      using p p1 c r e by (cases q; cases r) (auto simp: token_step_def)
  qed
qed

lemma token_loop_safe:
  "0 \<in> set p \<Longrightarrow> \<exists>res. token_loop q current p = Some res \<and> (\<forall>current' p'. res = Some (current', p') \<longrightarrow> 0 \<in> set p')"
proof (induction q current p rule: token_loop.induct)
  case (1 q current p)
  obtain res where res: "token_step q current p = Some res" "\<forall>fin q' current' p'. res = Some (fin, q', current', p') \<longrightarrow> 0 \<in> set p'"
    using token_step_safe [OF "1.prems"] by blast
  show ?case
  proof (cases res)
    case None
    then show ?thesis using res by (simp add: token_loop.simps [of q])
  next
    case (Some y)
    obtain fin q1 c1 p1 where y: "y = (fin, q1, c1, p1)" by (cases y) auto
    have p1: "0 \<in> set p1" using res(2) Some y by simp
    have "\<not> fin \<Longrightarrow> \<exists>res. token_loop q1 c1 p1 = Some res \<and> (\<forall>current' p'. res = Some (current', p') \<longrightarrow> 0 \<in> set p')"
      using "1.IH" [OF res(1) Some, of fin "(q1, c1, p1)" q1 "(c1, p1)" c1 p1] y p1 by simp
    then show ?thesis
      using res(1) p1 by (cases fin) (simp_all add: token_loop.simps [of q current p] Some y)
  qed
qed

lemma skip_blanks_safe: "0 \<in> set p \<Longrightarrow> \<exists>p'. skip_blanks p = Some p' \<and> 0 \<in> set p'"
  by (induction p) auto

lemma split_loop_safe: "0 \<in> set p \<Longrightarrow> \<exists>res. split_loop vector p = Some res"
proof (induction vector p rule: split_loop.induct)
  case (1 vector p)
  obtain p1 where p1: "skip_blanks p = Some p1" "0 \<in> set p1" using skip_blanks_safe "1.prems" by blast
  obtain res where res: "token_loop NoQuotes [] p1 = Some res" "\<forall>current' p'. res = Some (current', p') \<longrightarrow> 0 \<in> set p'"
    using token_loop_safe [OF p1(2)] by blast
  show ?case
    using p1(1) res "1.IH" [OF p1(1) _ res(1)] by (cases res) (auto simp: split_loop.simps [of vector p])
qed

lemma sdssplitargs_safe: "\<exists>res. sdssplitargs line = Some res"
  unfolding sdssplitargs_def by (rule split_loop_safe) simp

section \<open>What is written is read back\<close>

lemma sdscatrepr_eq: "sdscatrepr s p = s @ 34 # concat (map repr_char p) @ [34]"
proof -
  have "repr_loop s p = s @ concat (map repr_char p)" for s by (induction p arbitrary: s) simp_all
  then show ?thesis by (simp add: sdscatrepr_def)
qed

lemma hex_digits: "d < 16 \<Longrightarrow> is_hex_digit (hex_digit d) \<and> hex_digit_to_int (hex_digit d) = d"
proof -
  assume d: "d < 16"
  have "list_all (\<lambda>d. is_hex_digit (hex_digit d) \<and> hex_digit_to_int (hex_digit d) = d) [0..<16]" by code_simp
  then show ?thesis using d by (simp add: list_all_iff)
qed

lemma hex_value: "word_of_nat (hex_digit_to_int (hex_digit (unat c div 16)) * 16 + hex_digit_to_int (hex_digit (unat c mod 16))) = (c :: u8)"
proof -
  have "unat c div 16 < 16" using unat_u8_less [of c] by (simp add: div_less_iff_less_mult)
  then show ?thesis using hex_digits [of "unat c div 16"] hex_digits [of "unat c mod 16"] by simp
qed

lemma read_repr_char: "token_loop InQuotes current (repr_char c @ p) = token_loop InQuotes (current @ [c]) p"
proof -
  have "token_step InQuotes current (repr_char c @ p) = Some (Some (False, InQuotes, current @ [c], p))"
  proof (cases "c \<in> {92, 34, 10, 13, 9, 7, 8}")
    case True
    then show ?thesis by (auto simp: token_step_def repr_char_def escaped_byte_def escape_char_def)
  next
    case False
    show ?thesis
    proof (cases "isprint c")
      case True
      then have "c \<noteq> 0" by (auto simp: isprint_def)
      then show ?thesis using False True by (simp add: token_step_def repr_char_def escaped_byte_def)
    next
      case print: False
      have "unat c div 16 < 16" using unat_u8_less [of c] by (simp add: div_less_iff_less_mult)
      then have "is_hex_digit (hex_digit (unat c div 16))" "is_hex_digit (hex_digit (unat c mod 16))" using hex_digits by simp_all
      then show ?thesis using False print hex_value [of c] by (simp add: token_step_def repr_char_def escaped_byte_def)
    qed
  qed
  then show ?thesis by (simp add: token_loop.simps [of InQuotes current "repr_char c @ p"])
qed

lemma read_repr_chars: "token_loop InQuotes current (concat (map repr_char s) @ p) = token_loop InQuotes (current @ s) p"
  by (induction s arbitrary: current) (simp_all add: read_repr_char)

lemma read_repr:
  assumes "b = 0 \<or> isspace b"
  shows "token_loop NoQuotes [] (sdscatrepr [] s @ b # p) = Some (Some (s, b # p))"
proof -
  have "token_loop NoQuotes [] (sdscatrepr [] s @ b # p) = token_loop InQuotes [] (concat (map repr_char s) @ 34 # b # p)"
    by (simp add: token_loop.simps [of NoQuotes] token_step_def sdscatrepr_eq)
  also have "\<dots> = token_loop InQuotes s (34 # b # p)" by (simp add: read_repr_chars)
  also have "\<dots> = Some (Some (s, b # p))"
    using assms by (simp add: token_loop.simps [of InQuotes s] token_step_def escaped_byte_def quote_ends_def)
  finally show ?thesis .
qed

lemma skip_blank_prefix: "\<forall>c \<in> set bs. isspace c \<Longrightarrow> skip_blanks (bs @ p) = skip_blanks p"
  by (induction bs) (auto simp: isspace_def)

text \<open>Arguments, each with the blanks before it.\<close>

definition args_line :: "(bytes \<times> bytes) list \<Rightarrow> bytes" where
  "args_line xs = concat (map (\<lambda>(blanks, s). blanks @ sdscatrepr [] s) xs)"

lemma split_args_line:
  assumes "\<forall>(b, s) \<in> set xs. \<forall>c \<in> set b. isspace c" "\<forall>(b, s) \<in> set (tl xs). b \<noteq> []" "\<forall>c \<in> set t. isspace c"
  shows "split_loop vector (args_line xs @ t @ [0]) = Some (Some (vector @ map snd xs))"
  using assms(1,2)
proof (induction xs arbitrary: vector)
  case Nil
  have "skip_blanks (t @ [0]) = Some [0]" using skip_blank_prefix [OF assms(3)] by simp
  then show ?case by (simp add: args_line_def split_loop.simps)
next
  case (Cons x xs)
  obtain b s where x: "x = (b, s)" by (cases x)
  obtain d p where rest: "args_line xs @ t @ [0] = d # p" "d = 0 \<or> isspace d"
  proof (cases xs)
    case Nil
    then show thesis using that assms(3) by (cases t) (auto simp: args_line_def)
  next
    case (Cons y ys)
    obtain b' s' where y: "y = (b', s')" by (cases y)
    with Cons have "b' \<noteq> []" "\<forall>c \<in> set b'. isspace c" using Cons.prems by auto
    then show thesis using that Cons y by (cases b') (auto simp: args_line_def)
  qed
  have tail: "split_loop (vector @ [s]) (d # p) = Some (Some ((vector @ [s]) @ map snd xs))"
    unfolding rest(1) [symmetric]
  proof (rule Cons.IH)
    show "\<forall>(b, s) \<in> set (tl xs). b \<noteq> []" using Cons.prems(2) by (cases xs) auto
  qed (use Cons.prems(1) in auto)
  have line: "args_line (x # xs) @ t @ [0] = b @ sdscatrepr [] s @ d # p"
    using rest(1) x by (simp add: args_line_def)
  have "skip_blanks (b @ sdscatrepr [] s @ d # p) = Some (sdscatrepr [] s @ d # p)"
    using skip_blank_prefix [of b] Cons.prems(1) x by (simp add: sdscatrepr_eq isspace_def)
  then show ?case
    unfolding line using read_repr [OF rest(2), of s p] tail x
    by (simp add: split_loop.simps [of vector]) (simp add: sdscatrepr_eq)
qed

text \<open>C40. Splitting a line of arguments ends without reading past its terminator, and gives back any arguments that
  \<open>sdscatrepr\<close> has written, whatever their bytes and whatever blanks are around and between them.\<close>

theorem split_repr_roundtrip:
  assumes "\<forall>(b, s) \<in> set xs. \<forall>c \<in> set b. isspace c" "\<forall>(b, s) \<in> set (tl xs). b \<noteq> []" "\<forall>c \<in> set t. isspace c"
  shows "sdssplitargs (concat (map (\<lambda>(blanks, s). blanks @ sdscatrepr [] s) xs) @ t) = Some (Some (map snd xs))
     \<and> (\<forall>line. \<exists>res. sdssplitargs line = Some res)"
  using split_args_line [OF assms, of "[]"] sdssplitargs_safe by (simp add: sdssplitargs_def args_line_def)

theorem split_repr_roundtrip_witness:
  "sdssplitargs (sdscatrepr [] [0, 34, 92, 65] @ 32 # sdscatrepr [] []) = Some (Some [[0, 34, 92, 65], []])"
  using split_repr_roundtrip [of "[([], [0, 34, 92, 65]), ([32], [])]" "[]"] by (simp add: isspace_def)

end
