(* ===== verification/Resp.thy ===== *)
theory Resp
  imports Sds_Args Decimal
begin

text \<open>
  How a client's bytes become commands (\<open>networking.c\<close>): the query buffer, the two request formats, the loop over
  pipelined requests; and how commands are written in the multibulk format for the append only file (\<open>aof.c\<close>).  The
  writer of the replication stream is another one, in \<open>Propagate\<close>.

  The model keeps of a client what these functions use.  The flags that stop the processing are booleans.  A protocol
  error is recorded where the code replies it, logs and marks the client to be closed.  The execution of a command is
  an argument, \<open>run\<close>, with a state of its own.  The result \<open>None\<close> is a failed assertion or a write past \<open>argv\<close>.
\<close>

section \<open>The client\<close>

datatype reqtype = PROTO_REQ_UNKNOWN | PROTO_REQ_INLINE | PROTO_REQ_MULTIBULK

datatype proto_error = Too_big_inline | Unbalanced_quotes | Inline_from_master | Too_big_mbulk_count | Invalid_mbulk_length
  | Unauthenticated_mbulk | Too_big_bulk_count | Expected_dollar u8 | Invalid_bulk_length | Unauthenticated_bulk

record client =
  querybuf :: bytes
  qb_pos :: nat
  c_reqtype :: reqtype
  multibulklen :: int
  bulklen :: int
  argv :: "bytes list"
  argv_len :: nat
  argv_len_sum :: nat
  c_master :: bool
  c_replica :: bool
  c_blocked :: bool
  c_pending :: bool
  c_close :: bool
  repl_applied :: nat
  repl_ack_time :: int
  c_errors :: "proto_error list"

text \<open>The settings and the state of the server that matter here.\<close>

record config =
  proto_max_bulk_len :: int
  client_max_querybuf_len :: nat
  auth_required :: bool
  inside_long_command :: bool
  io_threads_read :: bool
  unixtime :: int

definition PROTO_INLINE_MAX_SIZE :: nat where "PROTO_INLINE_MAX_SIZE = 1024 * 64"
definition PROTO_MBULK_BIG_ARG :: nat where "PROTO_MBULK_BIG_ARG = 1024 * 32"
definition INT_MAX :: int where "INT_MAX = 2147483647"

definition unread :: "client \<Rightarrow> bytes" where
  "unread c = drop (qb_pos c) (querybuf c)"

definition protocol_error :: "proto_error \<Rightarrow> client \<Rightarrow> client" where
  "protocol_error e c = c\<lparr>c_close := True, c_errors := c_errors c @ [e]\<rparr>"

definition freeClientArgv :: "client \<Rightarrow> client" where
  "freeClientArgv c = c\<lparr>argv := [], argv_len_sum := 0, argv_len := 0\<rparr>"

definition resetClient :: "client \<Rightarrow> client" where
  "resetClient c = (freeClientArgv c)\<lparr>c_reqtype := PROTO_REQ_UNKNOWN, multibulklen := 0, bulklen := -1\<rparr>"

text \<open>\<open>strchr\<close> of the C library, with the distance found.\<close>

fun strchr :: "bytes \<Rightarrow> u8 \<Rightarrow> nat option" where
  "strchr [] ch = None"
| "strchr (b # bs) ch = (if b = ch then Some 0 else if b = 0 then None else map_option Suc (strchr bs ch))"

text \<open>The next argument is stored, if there is room.\<close>

definition store_arg :: "client \<Rightarrow> bytes \<Rightarrow> client option" where
  "store_arg c s = (if length (argv c) < argv_len c
     then Some (c\<lparr>argv := argv c @ [s], argv_len_sum := argv_len_sum c + length s\<rparr>) else None)"

section \<open>Inline requests\<close>

fun store_args :: "client \<Rightarrow> bytes list \<Rightarrow> client option" where
  "store_args c [] = Some c"
| "store_args c (s # ss) = do { c \<leftarrow> store_arg c s; store_args c ss }"

text \<open>The length of the line, without the carriage return, and how many characters end it.\<close>

definition inline_end :: "bytes \<Rightarrow> nat \<Rightarrow> nat \<times> nat" where
  "inline_end q n = (if n \<noteq> 0 \<and> q ! (n - 1) = 13 then (n - 1, 2) else (n, 1))"

definition inline_args :: "config \<Rightarrow> client \<Rightarrow> nat \<Rightarrow> nat \<Rightarrow> bytes list \<Rightarrow> (client \<times> bool) option" where
  "inline_args cfg c querylen linefeed_chars args =
     (let c = (if querylen = 0 \<and> c_replica c then c\<lparr>repl_ack_time := unixtime cfg\<rparr> else c)
      in if querylen \<noteq> 0 \<and> c_master c then Some (protocol_error Inline_from_master c, False)
         else
           let c = c\<lparr>qb_pos := qb_pos c + (querylen + linefeed_chars)\<rparr>;
               c = (if args \<noteq> [] then c\<lparr>argv_len := length args, argv_len_sum := 0\<rparr> else c)
           in do { c \<leftarrow> store_args (c\<lparr>argv := []\<rparr>) args; Some (c, True) })"

definition processInlineBuffer :: "config \<Rightarrow> client \<Rightarrow> (client \<times> bool) option" where
  "processInlineBuffer cfg c = (case strchr (unread c) 10 of
     None \<Rightarrow> Some (if length (querybuf c) - qb_pos c > PROTO_INLINE_MAX_SIZE then protocol_error Too_big_inline c else c, False)
   | Some n \<Rightarrow> (case inline_end (unread c) n of (querylen, linefeed_chars) \<Rightarrow> do {
         res \<leftarrow> sdssplitargs (take querylen (unread c));
         (case res of
           None \<Rightarrow> Some (protocol_error Unbalanced_quotes c, False)
         | Some args \<Rightarrow> inline_args cfg c querylen linefeed_chars args) }))"

section \<open>Multibulk requests\<close>

text \<open>The number of arguments, when it is not known yet.  The second result says whether the function goes on
  (\<open>None\<close>) or what it returns.\<close>

definition multibulk_count :: "config \<Rightarrow> client \<Rightarrow> (client \<times> bool option) option" where
  "multibulk_count cfg c =
     (if multibulklen c \<noteq> 0 then Some (c, None)
      else if argv c \<noteq> [] then None
      else case strchr (unread c) 13 of
        None \<Rightarrow> Some (if length (querybuf c) - qb_pos c > PROTO_INLINE_MAX_SIZE then protocol_error Too_big_mbulk_count c else c, Some False)
      | Some n \<Rightarrow>
          if int n > int (length (querybuf c)) - int (qb_pos c) - 2 then Some (c, Some False)
          else if unread c ! 0 \<noteq> 42 then None
          else case string2ll (take (n - 1) (drop 1 (unread c))) of
            None \<Rightarrow> Some (protocol_error Invalid_mbulk_length c, Some False)
          | Some ll \<Rightarrow>
              if ll > INT_MAX then Some (protocol_error Invalid_mbulk_length c, Some False)
              else if ll > 10 \<and> auth_required cfg then Some (protocol_error Unauthenticated_mbulk c, Some False)
              else
                let c = c\<lparr>qb_pos := qb_pos c + n + 2\<rparr>
                in if ll \<le> 0 then Some (c, Some True)
                   else Some (c\<lparr>multibulklen := ll, argv_len := min (nat ll) 1024, argv_len_sum := 0\<rparr>, None))"

text \<open>The length of the next argument; \<open>False\<close> when it cannot be told.  A large argument is moved to the start of
  the buffer.\<close>

definition bulk_length :: "config \<Rightarrow> client \<Rightarrow> client \<times> bool" where
  "bulk_length cfg c = (case strchr (unread c) 13 of
     None \<Rightarrow> (if length (querybuf c) - qb_pos c > PROTO_INLINE_MAX_SIZE then protocol_error Too_big_bulk_count c else c, False)
   | Some n \<Rightarrow>
       if int n > int (length (querybuf c)) - int (qb_pos c) - 2 then (c, False)
       else if unread c ! 0 \<noteq> 36 then (protocol_error (Expected_dollar (unread c ! 0)) c, False)
       else case string2ll (take (n - 1) (drop 1 (unread c))) of
         None \<Rightarrow> (protocol_error Invalid_bulk_length c, False)
       | Some ll \<Rightarrow>
           if ll < 0 \<or> (\<not> c_master c \<and> ll > proto_max_bulk_len cfg) then (protocol_error Invalid_bulk_length c, False)
           else if ll > 16384 \<and> auth_required cfg then (protocol_error Unauthenticated_bulk c, False)
           else
             let c = c\<lparr>qb_pos := qb_pos c + n + 2\<rparr>;
                 c = (if \<not> c_master c \<and> ll \<ge> int PROTO_MBULK_BIG_ARG \<and> int (length (querybuf c) - qb_pos c) \<le> ll + 2
                      then c\<lparr>querybuf := drop (qb_pos c) (querybuf c), qb_pos := 0\<rparr> else c)
             in (c\<lparr>bulklen := ll\<rparr>, True))"

text \<open>The next argument, of a known length; \<open>False\<close> when it is not there yet.  A large one that is alone in the buffer
  takes the buffer over.\<close>

definition read_bulk :: "client \<Rightarrow> (client \<times> bool) option" where
  "read_bulk c =
     (if int (length (querybuf c) - qb_pos c) < bulklen c + 2 then Some (c, False)
      else
        let c = (if length (argv c) \<ge> argv_len c
                 then c\<lparr>argv_len := nat (min (if int (argv_len c) < INT_MAX div 2 then int (argv_len c) * 2 else INT_MAX) (int (length (argv c)) + multibulklen c))\<rparr>
                 else c)
        in do {
          c \<leftarrow> (if \<not> c_master c \<and> qb_pos c = 0 \<and> bulklen c \<ge> int PROTO_MBULK_BIG_ARG \<and> int (length (querybuf c)) = bulklen c + 2
               then do { c \<leftarrow> store_arg c (take (length (querybuf c) - 2) (querybuf c)); Some (c\<lparr>querybuf := []\<rparr>) }
               else do { c \<leftarrow> store_arg c (take (nat (bulklen c)) (unread c)); Some (c\<lparr>qb_pos := qb_pos c + nat (bulklen c) + 2\<rparr>) });
          Some (c\<lparr>bulklen := -1, multibulklen := multibulklen c - 1\<rparr>, True) })"

partial_function (option) multibulk_loop :: "config \<Rightarrow> client \<Rightarrow> (client \<times> bool) option" where
  "multibulk_loop cfg c =
     (if multibulklen c = 0 then Some (c, True)
      else
        let (c, known) = (if bulklen c = -1 then bulk_length cfg c else (c, True))
        in if \<not> known then Some (c, False)
           else do {
             (c, complete) \<leftarrow> read_bulk c;
             if complete then multibulk_loop cfg c else Some (c, False) })"

definition processMultibulkBuffer :: "config \<Rightarrow> client \<Rightarrow> (client \<times> bool) option" where
  "processMultibulkBuffer cfg c = do {
     (c, ret) \<leftarrow> multibulk_count cfg c;
     (case ret of
       Some ok \<Rightarrow> Some (c, ok)
     | None \<Rightarrow> if multibulklen c \<le> 0 then None else multibulk_loop cfg c) }"

section \<open>Pipelined requests\<close>

text \<open>\<open>False\<close>: the client is gone.\<close>

partial_function (option) input_loop ::
    "config \<Rightarrow> (client \<Rightarrow> 's \<Rightarrow> bool \<times> client \<times> 's) \<Rightarrow> client \<Rightarrow> 's \<Rightarrow> (bool \<times> client \<times> 's) option" where
  "input_loop cfg run c s =
     (if qb_pos c \<ge> length (querybuf c) \<or> c_blocked c \<or> c_pending c \<or> (inside_long_command cfg \<and> c_master c) \<or> c_close c
      then Some (True, c, s)
      else
        let c = (if c_reqtype c = PROTO_REQ_UNKNOWN
                 then c\<lparr>c_reqtype := (if querybuf c ! qb_pos c = 42 then PROTO_REQ_MULTIBULK else PROTO_REQ_INLINE)\<rparr> else c)
        in do {
          (c, ok) \<leftarrow> (if c_reqtype c = PROTO_REQ_INLINE then processInlineBuffer cfg c else processMultibulkBuffer cfg c);
          if \<not> ok then Some (True, c, s)
          else if argv c = [] then input_loop cfg run (resetClient c) s
          else if io_threads_read cfg then Some (True, c\<lparr>c_pending := True\<rparr>, s)
          else
            let (alive, c, s) = run c s
            in if alive then input_loop cfg run c s else Some (False, c, s) })"

definition processInputBuffer ::
    "config \<Rightarrow> (client \<Rightarrow> 's \<Rightarrow> bool \<times> client \<times> 's) \<Rightarrow> client \<Rightarrow> 's \<Rightarrow> (bool \<times> client \<times> 's) option" where
  "processInputBuffer cfg run c s = do {
     (alive, c, s) \<leftarrow> input_loop cfg run c s;
     Some (if \<not> alive then (False, c, s)
       else if c_master c then
         (True, if repl_applied c \<noteq> 0
           then c\<lparr>querybuf := drop (repl_applied c) (querybuf c), qb_pos := qb_pos c - repl_applied c, repl_applied := 0\<rparr> else c, s)
       else (True, if qb_pos c \<noteq> 0 then c\<lparr>querybuf := drop (qb_pos c) (querybuf c), qb_pos := 0\<rparr> else c, s)) }"

text \<open>What \<open>readQueryFromClient\<close> does with the bytes it has read.\<close>

definition query_read ::
    "config \<Rightarrow> (client \<Rightarrow> 's \<Rightarrow> bool \<times> client \<times> 's) \<Rightarrow> client \<Rightarrow> 's \<Rightarrow> bytes \<Rightarrow> (bool \<times> client \<times> 's) option" where
  "query_read cfg run c s data =
     (let c = c\<lparr>querybuf := querybuf c @ data\<rparr>
      in if \<not> c_master c \<and> length (querybuf c) > client_max_querybuf_len cfg then Some (True, c\<lparr>c_close := True\<rparr>, s)
         else processInputBuffer cfg run c s)"

text \<open>One read after the other, until the client is gone.\<close>

fun query_reads ::
    "config \<Rightarrow> (client \<Rightarrow> 's \<Rightarrow> bool \<times> client \<times> 's) \<Rightarrow> client \<Rightarrow> 's \<Rightarrow> bytes list \<Rightarrow> (bool \<times> client \<times> 's) option" where
  "query_reads cfg run c s [] = Some (True, c, s)"
| "query_reads cfg run c s (d # ds) = do {
     (alive, c, s) \<leftarrow> query_read cfg run c s d;
     if alive then query_reads cfg run c s ds else Some (False, c, s) }"

section \<open>Writing commands\<close>

definition getDecodedObject :: "robj \<Rightarrow> bytes" where
  "getDecodedObject ob = (case ob of
     ObjStr s \<Rightarrow> s
   | ObjInt v \<Rightarrow> let (buf, len) = ll2string (replicate 32 fresh_byte) 32 v in takeWhile (\<lambda>b. b \<noteq> 0) buf)"

definition cat_number :: "u8 \<Rightarrow> int \<Rightarrow> bytes" where
  "cat_number mark v = (let (buf, len) = ll2string (replicate 31 fresh_byte) 31 v in mark # take len buf @ [13, 10])"

fun cat_args :: "bytes \<Rightarrow> robj list \<Rightarrow> bytes" where
  "cat_args dst [] = dst"
| "cat_args dst (ob # obs) =
     (let s = getDecodedObject ob in cat_args (dst @ cat_number 36 (int (length s)) @ s @ [13, 10]) obs)"

definition catAppendOnlyGenericCommand :: "bytes \<Rightarrow> robj list \<Rightarrow> bytes" where
  "catAppendOnlyGenericCommand dst args = cat_args (dst @ cat_number 42 (int (length args))) args"

end
