(* ===== verification/Resp_Props.thy ===== *)
theory Resp_Props
  imports Resp Rdb_Props
begin

text \<open>
  Requests are understood however the network cuts them up, and nothing that a client sends makes the parser fail.
\<close>

section \<open>Positions\<close>

lemma length_unread: "length (querybuf c) - qb_pos c = length (unread c)"
  by (simp add: unread_def)

lemma unread_room: "unread c \<noteq> [] \<Longrightarrow> int (length (querybuf c)) - int (qb_pos c) = int (length (unread c))"
  by (simp add: unread_def)

definition placed :: "client \<Rightarrow> bool" where
  "placed c \<longleftrightarrow> qb_pos c \<le> length (querybuf c)"

lemma placed_advance: "unread c = xs @ ys \<Longrightarrow> xs \<noteq> [] \<Longrightarrow> k = length xs \<Longrightarrow> placed (c\<lparr>qb_pos := qb_pos c + k\<rparr>)"
proof -
  assume "unread c = xs @ ys" "xs \<noteq> []" "k = length xs"
  then have "k \<le> length (querybuf c) - qb_pos c" "0 < k" by (simp_all add: length_unread)
  then show ?thesis by (simp add: placed_def)
qed

lemma placed_other [simp]:
  "placed (c\<lparr>c_reqtype := t\<rparr>) = placed c" "placed (c\<lparr>multibulklen := i\<rparr>) = placed c" "placed (c\<lparr>bulklen := i\<rparr>) = placed c"
  "placed (c\<lparr>argv := as\<rparr>) = placed c" "placed (c\<lparr>argv_len := n\<rparr>) = placed c" "placed (c\<lparr>argv_len_sum := n\<rparr>) = placed c"
  "placed (c\<lparr>c_close := b\<rparr>) = placed c" "placed (c\<lparr>c_pending := b\<rparr>) = placed c" "placed (c\<lparr>c_errors := es\<rparr>) = placed c"
  "placed (c\<lparr>repl_ack_time := i\<rparr>) = placed c" "placed (protocol_error e c) = placed c" "placed (resetClient c) = placed c"
  "placed (c\<lparr>querybuf := q, qb_pos := 0\<rparr>)"
  by (simp_all add: placed_def protocol_error_def resetClient_def freeClientArgv_def)

lemma at_end: "qb_pos c \<ge> length (querybuf c) \<longleftrightarrow> unread c = []"
  by (simp add: unread_def)

lemma unread_advance [simp]: "unread (c\<lparr>qb_pos := qb_pos c + k\<rparr>) = drop k (unread c)"
  by (simp add: unread_def add.commute)

lemma unread_trim [simp]: "unread (c\<lparr>querybuf := drop (qb_pos c) (querybuf c), qb_pos := 0\<rparr>) = unread c"
  by (simp add: unread_def)

lemma unread_other [simp]:
  "unread (c\<lparr>c_reqtype := t\<rparr>) = unread c" "unread (c\<lparr>multibulklen := i\<rparr>) = unread c" "unread (c\<lparr>bulklen := i\<rparr>) = unread c"
  "unread (c\<lparr>argv := as\<rparr>) = unread c" "unread (c\<lparr>argv_len := n\<rparr>) = unread c" "unread (c\<lparr>argv_len_sum := n\<rparr>) = unread c"
  "unread (c\<lparr>c_close := b\<rparr>) = unread c" "unread (c\<lparr>c_pending := b\<rparr>) = unread c" "unread (c\<lparr>c_errors := es\<rparr>) = unread c"
  "unread (c\<lparr>repl_ack_time := i\<rparr>) = unread c" "unread (c\<lparr>repl_applied := n\<rparr>) = unread c" "unread (protocol_error e c) = unread c"
  "unread (resetClient c) = unread c"
  by (simp_all add: unread_def protocol_error_def resetClient_def freeClientArgv_def)

text \<open>What parsing does not change.\<close>

definition settings :: "client \<Rightarrow> reqtype \<times> bool \<times> bool \<times> bool \<times> bool \<times> nat" where
  "settings c = (c_reqtype c, c_master c, c_blocked c, c_pending c, c_close c, repl_applied c)"

section \<open>Headers\<close>

lemma strchr_append: "ch \<notin> set xs \<Longrightarrow> 0 \<notin> set xs \<Longrightarrow> strchr (xs @ ch # ys) ch = Some (length xs)"
  by (induction xs) auto

lemma strchr_none: "ch \<notin> set xs \<Longrightarrow> strchr xs ch = None"
  by (induction xs) auto

lemma strchr_some: "strchr xs ch = Some n \<Longrightarrow> n < length xs \<and> xs ! n = ch \<and> 0 \<notin> set (take n xs) \<and> ch \<notin> set (take n xs)"
proof (induction xs arbitrary: n)
  case (Cons b xs)
  then show ?case by (cases n) (auto split: if_splits)
qed simp

lemma dec_int_plain: "b \<in> set (dec_int v) \<Longrightarrow> b \<noteq> 0 \<and> b \<noteq> 13"
proof -
  have "is_digit b \<Longrightarrow> b \<noteq> 0 \<and> b \<noteq> 13" by (auto simp: is_digit_unat)
  then show "b \<in> set (dec_int v) \<Longrightarrow> b \<noteq> 0 \<and> b \<noteq> 13" using dec_digits by (auto simp: dec_int_def split: if_splits)
qed

text \<open>A header of which \<open>u\<close> has arrived and \<open>f\<close> has not: there is enough of it, or some of it is missing.\<close>

lemma header:
  assumes "u @ f = mark # dec_int v @ 13 # 10 # rest" "is_ll v" "mark \<noteq> 0" "mark \<noteq> 13"
  obtains (complete) u' where "u = mark # dec_int v @ 13 # 10 # u'" "u' @ f = rest"
      "strchr u 13 = Some (Suc (length (dec_int v)))"
      "take (length (dec_int v)) (drop 1 u) = dec_int v" "string2ll (dec_int v) = Some v"
  | (waiting) "f \<noteq> []" "length u \<le> 22" "strchr u 13 = None \<or> (\<exists>n. strchr u 13 = Some n \<and> int n > int (length u) - 2)"
proof (cases "length (dec_int v) + 3 \<le> length u")
  case True
  let ?h = "mark # dec_int v @ [13, 10]"
  have "take (length ?h) (u @ f) = ?h" unfolding assms(1) by simp
  then have "take (length ?h) u = ?h" using True by simp
  then obtain u' where u: "u = ?h @ u'" by (metis append_take_drop_id)
  moreover have "strchr u 13 = Some (length (mark # dec_int v))"
    unfolding u using strchr_append [of 13 "mark # dec_int v" "10 # u'"] dec_int_plain assms(3,4) by fastforce
  ultimately show ?thesis using complete assms(1,2) by (simp add: string2ll_iff)
next
  case False
  have d: "length (dec_int v) \<le> 20" by (rule ll_text) (rule assms(2))
  have f: "f \<noteq> []" using False assms(1) by auto
  have pre: "u = take (length u) (mark # dec_int v @ [13])"
  proof -
    have "u = take (length u) (u @ f)" by simp
    also have "\<dots> = take (length u) ((mark # dec_int v @ [13]) @ 10 # rest)" unfolding assms(1) by simp
    also have "\<dots> = take (length u) (mark # dec_int v @ [13])" using False by (simp only: take_append) simp
    finally show ?thesis .
  qed
  show ?thesis
  proof (cases "length u = length (dec_int v) + 2")
    case True
    then have "u = (mark # dec_int v) @ 13 # []" using pre by simp
    then have "strchr u 13 = Some (length (mark # dec_int v))"
      using strchr_append [of 13 "mark # dec_int v" "[]"] dec_int_plain assms(3,4) by fastforce
    then show ?thesis using waiting f True d by simp
  next
    case neq: False
    then have "length u \<le> length (mark # dec_int v)" using False by simp
    then have "take (length u) ((mark # dec_int v) @ [13]) = take (length u) (mark # dec_int v)" by (simp only: take_append) simp
    then have "u = take (length u) (mark # dec_int v)" using pre by simp
    then have "13 \<notin> set u" using dec_int_plain assms(4) by (metis in_set_takeD set_ConsD)
    then show ?thesis using waiting f False d strchr_none by simp
  qed
qed

section \<open>Arguments\<close>

definition bulk :: "bytes \<Rightarrow> bytes" where
  "bulk s = 36 # dec_int (int (length s)) @ 13 # 10 # s @ [13, 10]"

definition request :: "bytes list \<Rightarrow> bytes" where
  "request args = 42 # dec_int (int (length args)) @ 13 # 10 # concat (map bulk args)"

text \<open>Sizes within the limits of a configuration.\<close>

definition arg_ok :: "config \<Rightarrow> bytes \<Rightarrow> bool" where
  "arg_ok cfg s \<longleftrightarrow> int (length s) \<le> proto_max_bulk_len cfg \<and> int (length s) \<le> LLONG_MAX \<and> (auth_required cfg \<longrightarrow> length s \<le> 16384)"

definition request_ok :: "config \<Rightarrow> bytes list \<Rightarrow> bool" where
  "request_ok cfg args \<longleftrightarrow> args \<noteq> [] \<and> int (length args) \<le> INT_MAX \<and> (auth_required cfg \<longrightarrow> length args \<le> 10) \<and> (\<forall>s \<in> set args. arg_ok cfg s)"

text \<open>A client in the middle of a request: it has the arguments \<open>pre\<close>, and \<open>args\<close> are still to come; of the bytes that
  these take, \<open>f\<close> has not arrived, and \<open>rest\<close> comes after them.\<close>

definition reading :: "client \<Rightarrow> bytes list \<Rightarrow> bytes list \<Rightarrow> bytes \<Rightarrow> bytes \<Rightarrow> bool" where
  "reading c pre args f rest \<longleftrightarrow>
     placed c \<and> multibulklen c = int (length args) \<and> argv c = pre \<and> length pre \<le> argv_len c \<and> 0 < argv_len c
     \<and> int (length pre + length args) \<le> INT_MAX
     \<and> (if bulklen c = -1 then unread c @ f = concat (map bulk args) @ rest
        else \<exists>s ss. args = s # ss \<and> bulklen c = int (length s) \<and> unread c @ f = s @ [13, 10] @ concat (map bulk ss) @ rest)"

lemma bulk_length_known:
  assumes "reading c pre args f rest" "args \<noteq> []" "bulklen c = -1" "\<forall>s \<in> set args. arg_ok cfg s"
  shows "\<exists>c' known. bulk_length cfg c = (c', known) \<and> reading c' pre args f rest \<and> settings c' = settings c
     \<and> (if known then bulklen c' \<noteq> -1 \<and> length (unread c') < length (unread c) else f \<noteq> [])"
proof -
  obtain s ss where args: "args = s # ss" using assms(2) by (cases args) auto
  have s: "arg_ok cfg s" using assms(4) args by simp
  have u: "unread c @ f = 36 # dec_int (int (length s)) @ 13 # 10 # (s @ [13, 10] @ concat (map bulk ss) @ rest)"
    using assms(1,3) by (simp add: reading_def args bulk_def)
  have ll: "is_ll (int (length s))" using s by (simp add: arg_ok_def is_ll_def limits_defs)
  have m: "(36 :: u8) \<noteq> 0" "(36 :: u8) \<noteq> 13" by simp_all
  show ?thesis
  proof (cases rule: header [OF u ll m, case_names complete waiting])
    case (complete u')
    let ?n = "Suc (length (dec_int (int (length s))))"
    let ?c = "c\<lparr>qb_pos := qb_pos c + ?n + 2\<rparr>"
    have ne: "unread c \<noteq> []" using complete(1) by simp
    have adv: "unread ?c = u'" using complete(1) unread_advance [of c "?n + 2"] by (simp add: add.assoc)
    let ?c' = "(if \<not> c_master ?c \<and> int (length s) \<ge> int PROTO_MBULK_BIG_ARG \<and> int (length (querybuf ?c) - qb_pos ?c) \<le> int (length s) + 2
        then ?c\<lparr>querybuf := drop (qb_pos ?c) (querybuf ?c), qb_pos := 0\<rparr> else ?c)"
    have u': "unread ?c' = u'" using adv unread_trim [of ?c] by simp
    have "placed ?c" using complete(1) placed_advance [of c "36 # dec_int (int (length s)) @ [13, 10]" u'] by (simp add: add.assoc)
    then have pl: "placed ?c'" by simp
    have "bulk_length cfg c = (?c'\<lparr>bulklen := int (length s)\<rparr>, True)"
      using s complete unread_room [OF ne]
      by (auto simp: bulk_length_def arg_ok_def Let_def)
    moreover have "reading (?c'\<lparr>bulklen := int (length s)\<rparr>) pre args f rest"
      using assms(1) complete(2) u' pl by (simp add: reading_def args)
    moreover have "settings (?c'\<lparr>bulklen := int (length s)\<rparr>) = settings c" by (simp add: settings_def)
    moreover have "length (unread (?c'\<lparr>bulklen := int (length s)\<rparr>)) < length (unread c)" using u' complete(1) by simp
    ultimately show ?thesis by (intro exI [of _ "?c'\<lparr>bulklen := int (length s)\<rparr>"] exI [of _ True]) simp
  next
    case waiting
    have "length (querybuf c) - qb_pos c \<le> PROTO_INLINE_MAX_SIZE"
      using waiting(2) by (simp add: length_unread PROTO_INLINE_MAX_SIZE_def)
    then have "bulk_length cfg c = (c, False)"
      using waiting(3)
    proof (elim disjE exE conjE)
      fix n
      assume n: "strchr (unread c) 13 = Some n" "int n > int (length (unread c)) - 2"
      then have "unread c \<noteq> []" by auto
      then show ?thesis using n unread_room [of c] by (simp add: bulk_length_def)
    qed (simp add: bulk_length_def)
    then show ?thesis using assms(1) waiting(1) by (intro exI [of _ c] exI [of _ False]) simp
  qed
qed

lemma store_arg_room:
  "length (argv c) < argv_len c \<Longrightarrow> store_arg c s = Some (c\<lparr>argv := argv c @ [s], argv_len_sum := argv_len_sum c + length s\<rparr>)"
  by (simp add: store_arg_def)

lemma read_bulk_reads:
  assumes "reading c pre args f rest" "args \<noteq> []" "bulklen c \<noteq> -1"
  shows "\<exists>c' complete. read_bulk c = Some (c', complete) \<and> settings c' = settings c
     \<and> (if complete then reading c' (pre @ [hd args]) (tl args) f rest \<and> bulklen c' = -1 \<and> length (unread c') < length (unread c)
        else reading c' pre args f rest \<and> f \<noteq> [])"
proof -
  obtain s ss where args: "args = s # ss" "bulklen c = int (length s)" "unread c @ f = s @ [13, 10] @ concat (map bulk ss) @ rest"
    using assms(1,3) by (auto simp: reading_def)
  show ?thesis
  proof (cases "length s + 2 \<le> length (unread c)")
    case False
    then have "f \<noteq> []" using args(3) by auto
    moreover have "read_bulk c = Some (c, False)" using False args(2) by (simp add: read_bulk_def length_unread)
    ultimately show ?thesis using assms(1) by (intro exI [of _ c] exI [of _ False]) simp
  next
    case True
    have "take (length s + 2) (unread c @ f) = s @ [13, 10]" unfolding args(3) by simp
    then have "take (length s + 2) (unread c) = s @ [13, 10]" using True by simp
    then obtain u where u: "unread c = (s @ [13, 10]) @ u" by (metis append_take_drop_id)
    have uf: "u @ f = concat (map bulk ss) @ rest" using args(3) u by simp
    obtain n where room: "n = (if length pre \<ge> argv_len c
        then nat (min (if int (argv_len c) < INT_MAX div 2 then int (argv_len c) * 2 else INT_MAX) (int (length pre) + multibulklen c)) else argv_len c)"
      by blast
    have pre: "argv c = pre" "multibulklen c = int (Suc (length ss))" "length pre \<le> argv_len c" "0 < argv_len c"
      "int (length pre + Suc (length ss)) \<le> INT_MAX" using assms(1) args(1) by (simp_all add: reading_def)
    then have n: "length pre < n" unfolding room INT_MAX_def by (auto simp: zless_nat_eq_int_zless)
    let ?c = "c\<lparr>argv_len := n\<rparr>"
    have grow: "(if length (argv c) \<ge> argv_len c
        then c\<lparr>argv_len := nat (min (if int (argv_len c) < INT_MAX div 2 then int (argv_len c) * 2 else INT_MAX) (int (length (argv c)) + multibulklen c))\<rparr>
        else c) = ?c" using pre(1) room by simp
    have store: "store_arg ?c x = Some (?c\<lparr>argv := pre @ [x], argv_len_sum := argv_len_sum c + length x\<rparr>)" for x
      using store_arg_room [of ?c x] n pre(1) by simp
    have big: "take (length (querybuf c) - 2) (querybuf c) = s \<and> u = []"
      if "qb_pos c = 0" "int (length (querybuf c)) = bulklen c + 2"
    proof -
      have "querybuf c = (s @ [13, 10]) @ u" using u that(1) by (simp add: unread_def)
      then show ?thesis using that(2) args(2) by simp
    qed
    have rd: "\<exists>c'. read_bulk c = Some (c', True) \<and> unread c' = u \<and> argv c' = pre @ [s] \<and> argv_len c' = n \<and> multibulklen c' = int (length ss)
        \<and> bulklen c' = -1 \<and> settings c' = settings c \<and> placed c'"
    proof -
      have wait: "(int (length (querybuf c) - qb_pos c) < bulklen c + 2) = False" using True args(2) by (simp add: length_unread)
      have rb: "read_bulk c = do {
          c' \<leftarrow> (if \<not> c_master c \<and> qb_pos c = 0 \<and> bulklen c \<ge> int PROTO_MBULK_BIG_ARG \<and> int (length (querybuf c)) = bulklen c + 2
               then do { c' \<leftarrow> store_arg ?c (take (length (querybuf c) - 2) (querybuf c)); Some (c'\<lparr>querybuf := []\<rparr>) }
               else do { c' \<leftarrow> store_arg ?c (take (nat (bulklen c)) (unread c)); Some (c'\<lparr>qb_pos := qb_pos c' + nat (bulklen c') + 2\<rparr>) });
          Some (c'\<lparr>bulklen := -1, multibulklen := multibulklen c' - 1\<rparr>, True) }"
        unfolding read_bulk_def wait if_False grow Let_def by simp
      show ?thesis
      proof (cases "\<not> c_master c \<and> qb_pos c = 0 \<and> bulklen c \<ge> int PROTO_MBULK_BIG_ARG \<and> int (length (querybuf c)) = bulklen c + 2")
        case True': True
        then have "take (length (querybuf c) - 2) (querybuf c) = s" "u = []" using big by blast+
        then show ?thesis unfolding rb using True' pre(2) by (simp add: store settings_def) (simp add: unread_def placed_def)
      next
        case False
        let ?d = "?c\<lparr>argv := pre @ [s], argv_len_sum := argv_len_sum c + length s\<rparr>"
        have "take (nat (bulklen c)) (unread c) = s" using u args(2) by simp
        then have "read_bulk c = Some (?d\<lparr>qb_pos := qb_pos ?d + (length s + 2), bulklen := -1, multibulklen := int (length ss)\<rparr>, True)"
          unfolding rb if_not_P [OF False] using args(2) pre(2) by (simp add: store)
        moreover have "unread (?d\<lparr>qb_pos := qb_pos ?d + (length s + 2)\<rparr>) = u" unfolding unread_advance using u by simp
        moreover have "placed (?d\<lparr>qb_pos := qb_pos ?d + (length s + 2)\<rparr>)"
          by (rule placed_advance [of _ "s @ [13, 10]" u]) (use u in simp_all)
        ultimately show ?thesis by (simp add: settings_def)
      qed
    qed
    then obtain c' where c': "read_bulk c = Some (c', True)" "unread c' = u" "argv c' = pre @ [s]" "argv_len c' = n" "multibulklen c' = int (length ss)"
        "bulklen c' = -1" "settings c' = settings c" "placed c'" by blast
    have "reading c' (pre @ [s]) ss f rest" using c' n pre(5) uf by (simp add: reading_def)
    then show ?thesis using c' u args(1) by (intro exI [of _ c'] exI [of _ True]) simp
  qed
qed

text \<open>The loop reads what has arrived.\<close>

lemma multibulk_loop_reads:
  assumes "reading c pre args f rest" "\<forall>s \<in> set args. arg_ok cfg s" "args \<noteq> [] \<or> bulklen c = -1"
  shows "\<exists>c' complete. multibulk_loop cfg c = Some (c', complete) \<and> settings c' = settings c
     \<and> (if complete then placed c' \<and> unread c' @ f = rest \<and> argv c' = pre @ args \<and> multibulklen c' = 0 \<and> bulklen c' = -1
        else f \<noteq> [] \<and> (\<exists>pre' args'. pre' @ args' = pre @ args \<and> args' \<noteq> [] \<and> reading c' pre' args' f rest))"
  using assms
proof (induction args arbitrary: c pre)
  case Nil
  then have "multibulk_loop cfg c = Some (c, True)" by (subst multibulk_loop.simps) (simp add: reading_def)
  then show ?case using Nil by (intro exI [of _ c] exI [of _ True]) (simp add: reading_def)
next
  case (Cons s ss)
  obtain c1 known where c1: "(if bulklen c = -1 then bulk_length cfg c else (c, True)) = (c1, known)" by force
  have rd1: "reading c1 pre (s # ss) f rest" "settings c1 = settings c" "if known then bulklen c1 \<noteq> -1 else f \<noteq> []"
  proof -
    have "reading c1 pre (s # ss) f rest \<and> settings c1 = settings c \<and> (if known then bulklen c1 \<noteq> -1 else f \<noteq> [])"
    proof (cases "bulklen c = -1")
      case True
      then show ?thesis using bulk_length_known [OF Cons.prems(1) _ True Cons.prems(2)] c1 by (auto split: if_splits)
    next
      case False
      then show ?thesis using c1 Cons.prems(1) by auto
    qed
    then show "reading c1 pre (s # ss) f rest" "settings c1 = settings c" "if known then bulklen c1 \<noteq> -1 else f \<noteq> []" by blast+
  qed
  have mb: "multibulklen c \<noteq> 0" using Cons.prems(1) by (simp add: reading_def)
  show ?case
  proof (cases known)
    case False
    then have "multibulk_loop cfg c = Some (c1, False)" using mb c1 by (subst multibulk_loop.simps) simp
    then show ?thesis using rd1 False by (intro exI [of _ c1] exI [of _ False]) auto
  next
    case True
    then obtain c2 complete where c2: "read_bulk c1 = Some (c2, complete)" "settings c2 = settings c1"
        "if complete then reading c2 (pre @ [s]) ss f rest \<and> bulklen c2 = -1 else reading c2 pre (s # ss) f rest \<and> f \<noteq> []"
      using read_bulk_reads [OF rd1(1) _] rd1(3) True by (auto split: if_splits)
    have step: "multibulk_loop cfg c = (if complete then multibulk_loop cfg c2 else Some (c2, False))"
      using mb c1 True c2(1) by (subst multibulk_loop.simps) simp
    show ?thesis
    proof (cases complete)
      case True
      then obtain c' d where "multibulk_loop cfg c2 = Some (c', d)" "settings c' = settings c2"
        "if d then placed c' \<and> unread c' @ f = rest \<and> argv c' = pre @ s # ss \<and> multibulklen c' = 0 \<and> bulklen c' = -1
         else f \<noteq> [] \<and> (\<exists>pre' args'. pre' @ args' = pre @ s # ss \<and> args' \<noteq> [] \<and> reading c' pre' args' f rest)"
        using Cons.IH [of c2 "pre @ [s]", unfolded append_assoc append_Cons append_Nil] Cons.prems(2) c2(3) by auto
      then show ?thesis unfolding step using True c2(2) rd1(2) by (intro exI [of _ c'] exI [of _ d]) simp
    next
      case False
      then show ?thesis unfolding step using c2 rd1(2) by auto
    qed
  qed
qed

section \<open>Requests\<close>

lemma multibulk_count_reads:
  assumes "multibulklen c = 0" "argv c = []" "bulklen c = -1" "unread c @ f = request args @ rest" "request_ok cfg args"
  shows "\<exists>c'. settings c' = settings c \<and>
     (multibulk_count cfg c = Some (c', None) \<and> reading c' [] args f rest \<and> bulklen c' = -1
      \<or> multibulk_count cfg c = Some (c, Some False) \<and> f \<noteq> [])"
proof -
  let ?n = "int (length args)"
  have u: "unread c @ f = 42 # dec_int ?n @ 13 # 10 # (concat (map bulk args) @ rest)" using assms(4) by (simp add: request_def)
  have ll: "is_ll ?n" using assms(5) by (simp add: request_ok_def is_ll_def limits_defs INT_MAX_def)
  have m: "(42 :: u8) \<noteq> 0" "(42 :: u8) \<noteq> 13" by simp_all
  show ?thesis
  proof (cases rule: header [OF u ll m, case_names complete waiting])
    case (complete u')
    let ?k = "Suc (length (dec_int ?n))"
    let ?c' = "c\<lparr>qb_pos := qb_pos c + (?k + 2), multibulklen := ?n, argv_len := min (length args) 1024, argv_len_sum := 0\<rparr>"
    have ne: "unread c \<noteq> []" using complete(1) by simp
    have u': "unread ?c' = u'" using complete(1) unread_advance [of c "?k + 2"] by simp
    have "placed (c\<lparr>qb_pos := qb_pos c + (?k + 2)\<rparr>)" by (rule placed_advance [of _ "42 # dec_int ?n @ [13, 10]" u']) (use complete(1) in simp_all)
    then have pl: "placed ?c'" by simp
    have "multibulk_count cfg c = Some (?c', None)"
      using assms(1,2,5) complete unread_room [OF ne]
      by (auto simp: multibulk_count_def request_ok_def Let_def)
    moreover have "reading ?c' [] args f rest"
      using assms(2,3,5) complete(2) u' pl by (simp add: reading_def request_ok_def)
    ultimately show ?thesis using assms(3) by (intro exI [of _ ?c']) (simp add: settings_def)
  next
    case waiting
    have "length (querybuf c) - qb_pos c \<le> PROTO_INLINE_MAX_SIZE"
      using waiting(2) by (simp add: length_unread PROTO_INLINE_MAX_SIZE_def)
    then have "multibulk_count cfg c = Some (c, Some False)"
      using waiting(3)
    proof (elim disjE exE conjE)
      fix n
      assume n: "strchr (unread c) 13 = Some n" "int n > int (length (unread c)) - 2"
      then have "unread c \<noteq> []" by auto
      then show ?thesis using n unread_room [of c] assms(1,2) by (simp add: multibulk_count_def)
    qed (use assms(1,2) in \<open>simp add: multibulk_count_def\<close>)
    then show ?thesis using waiting(1) by blast
  qed
qed

definition running :: "config \<Rightarrow> client \<Rightarrow> bool" where
  "running cfg c \<longleftrightarrow> \<not> c_blocked c \<and> \<not> c_pending c \<and> \<not> c_close c \<and> (inside_long_command cfg \<longrightarrow> \<not> c_master c)"

lemma running_settings: "settings c' = settings c \<Longrightarrow> running cfg c' = running cfg c \<and> c_reqtype c' = c_reqtype c"
  by (simp add: settings_def running_def)

text \<open>A client at the beginning of a request or within one, from which the requests \<open>todo\<close> are to come, with the bytes
  \<open>f\<close> that have not arrived.\<close>

definition expects :: "config \<Rightarrow> client \<Rightarrow> bytes \<Rightarrow> bytes list list \<Rightarrow> bool" where
  "expects cfg c f todo \<longleftrightarrow> placed c \<and> running cfg c \<and> (\<forall>args \<in> set todo. request_ok cfg args) \<and>
     (if multibulklen c = 0 then
        argv c = [] \<and> bulklen c = -1 \<and> unread c @ f = concat (map request todo)
        \<and> (c_reqtype c = PROTO_REQ_UNKNOWN \<or> c_reqtype c = PROTO_REQ_MULTIBULK \<and> unread c \<noteq> [])
      else
        c_reqtype c = PROTO_REQ_MULTIBULK \<and> (\<exists>pre args cmds. todo = (pre @ args) # cmds \<and> args \<noteq> []
          \<and> reading c pre args f (concat (map request cmds))))"

lemma processMultibulkBuffer_reads:
  assumes "expects cfg c f todo" "unread c \<noteq> []" "c_reqtype c = PROTO_REQ_MULTIBULK"
  shows "\<exists>c' complete cmd cmds. todo = cmd # cmds \<and> processMultibulkBuffer cfg c = Some (c', complete) \<and> settings c' = settings c
     \<and> (if complete then placed c' \<and> argv c' = cmd \<and> unread c' @ f = concat (map request cmds) else f \<noteq> [] \<and> expects cfg c' f todo)"
proof -
  have finish: "\<exists>c' complete. multibulk_loop cfg c1 = Some (c', complete) \<and> settings c' = settings c
      \<and> (if complete then placed c' \<and> argv c' = pre @ args \<and> unread c' @ f = concat (map request cmds) else f \<noteq> [] \<and> expects cfg c' f todo)"
    if rd: "reading c1 pre args f (concat (map request cmds))" "settings c1 = settings c" "todo = (pre @ args) # cmds" "args \<noteq> []" for c1 pre args cmds
  proof -
    have ok: "request_ok cfg (pre @ args)" "\<forall>a \<in> set args. arg_ok cfg a" using assms(1) rd(3) by (simp_all add: expects_def request_ok_def)
    obtain c' complete where c': "multibulk_loop cfg c1 = Some (c', complete)" "settings c' = settings c1"
      "if complete then placed c' \<and> unread c' @ f = concat (map request cmds) \<and> argv c' = pre @ args \<and> multibulklen c' = 0 \<and> bulklen c' = -1
       else f \<noteq> [] \<and> (\<exists>pre' args'. pre' @ args' = pre @ args \<and> args' \<noteq> [] \<and> reading c' pre' args' f (concat (map request cmds)))"
      using multibulk_loop_reads [OF rd(1) ok(2)] rd(4) by blast
    show ?thesis
    proof (cases complete)
      case False
      then obtain pre' args' where p: "pre' @ args' = pre @ args" "args' \<noteq> []" "reading c' pre' args' f (concat (map request cmds))" "f \<noteq> []"
        using c'(3) by auto
      then have "multibulklen c' \<noteq> 0" "placed c'" by (simp_all add: reading_def)
      moreover have "running cfg c'" "c_reqtype c' = PROTO_REQ_MULTIBULK"
        using running_settings [of c' c cfg] c'(2) rd(2) assms(1,3) by (simp_all add: expects_def)
      moreover have "\<forall>cmd \<in> set todo. request_ok cfg cmd" using assms(1) by (simp add: expects_def)
      moreover have "todo = (pre' @ args') # cmds" using rd(3) p(1) by simp
      ultimately have "expects cfg c' f todo" using p(2,3) unfolding expects_def by auto
      then show ?thesis using c' rd(2) False p(4) by auto
    qed (use c' rd(2) in auto)
  qed
  show ?thesis
  proof (cases "multibulklen c = 0")
    case True
    then have h: "argv c = []" "bulklen c = -1" "unread c @ f = concat (map request todo)" using assms(1) by (simp_all add: expects_def)
    then obtain cmd cmds where todo: "todo = cmd # cmds" using assms(2) by (cases todo) auto
    have ok: "request_ok cfg cmd" using assms(1) todo by (simp add: expects_def)
    have hd: "unread c @ f = request cmd @ concat (map request cmds)" using h(3) todo by simp
    obtain c1 where c1: "settings c1 = settings c"
      "multibulk_count cfg c = Some (c1, None) \<and> reading c1 [] cmd f (concat (map request cmds)) \<and> bulklen c1 = -1
       \<or> multibulk_count cfg c = Some (c, Some False) \<and> f \<noteq> []"
      using multibulk_count_reads [OF True h(1,2) hd ok] by (elim exE conjE) (rule that)
    from c1(2) show ?thesis
    proof (elim disjE conjE)
      assume r: "multibulk_count cfg c = Some (c1, None)" "reading c1 [] cmd f (concat (map request cmds))"
      have ne: "cmd \<noteq> []" using ok by (simp add: request_ok_def)
      then have "\<not> multibulklen c1 \<le> 0" using r(2) by (simp add: reading_def)
      then have loop: "processMultibulkBuffer cfg c = multibulk_loop cfg c1" using r(1) by (simp add: processMultibulkBuffer_def)
      have td: "todo = ([] @ cmd) # cmds" using todo by simp
      obtain c' complete where "multibulk_loop cfg c1 = Some (c', complete)" "settings c' = settings c"
        "if complete then placed c' \<and> argv c' = [] @ cmd \<and> unread c' @ f = concat (map request cmds) else f \<noteq> [] \<and> expects cfg c' f todo"
        using finish [OF r(2) c1(1) td ne] by (elim exE conjE) (rule that)
      then show ?thesis unfolding loop using todo
        by (intro exI [of _ c'] exI [of _ complete] exI [of _ cmd] exI [of _ cmds]) (cases complete; simp)
    next
      assume "multibulk_count cfg c = Some (c, Some False)" "f \<noteq> []"
      then show ?thesis using todo assms(1) by (auto simp: processMultibulkBuffer_def)
    qed
  next
    case False
    then obtain pre args cmds where r: "todo = (pre @ args) # cmds" "args \<noteq> []" "reading c pre args f (concat (map request cmds))"
      using assms(1) by (auto simp: expects_def)
    then have "\<not> multibulklen c \<le> 0" "multibulk_count cfg c = Some (c, None)" by (simp_all add: reading_def multibulk_count_def)
    then have "processMultibulkBuffer cfg c = multibulk_loop cfg c" by (simp add: processMultibulkBuffer_def)
    then show ?thesis using finish [OF r(3) refl r(1,2)] r(1) by auto
  qed
qed

section \<open>The stream of requests\<close>

text \<open>The execution that only notes what it is asked to execute.\<close>

definition log_run :: "client \<Rightarrow> bytes list list \<Rightarrow> bool \<times> client \<times> bytes list list" where
  "log_run c s = (True, resetClient c, s @ [argv c])"

lemma request_nonempty [simp]: "request args \<noteq> []"
  by (simp add: request_def)

lemma all_arrived:
  assumes "expects cfg c [] todo" "unread c = []"
  shows "todo = []"
proof (cases "multibulklen c = 0")
  case True
  then have "concat (map request todo) = []" using assms by (simp add: expects_def)
  then show ?thesis by (cases todo) simp_all
next
  case False
  then obtain pre args cmds where r: "args \<noteq> []" "reading c pre args [] (concat (map request cmds))" using assms(1) by (auto simp: expects_def)
  then show ?thesis using assms(2) by (cases args) (auto simp: reading_def bulk_def split: if_splits)
qed

lemma reset_expects:
  assumes "placed c" "running cfg c" "unread c @ f = concat (map request cmds)" "\<forall>args \<in> set cmds. request_ok cfg args"
  shows "expects cfg (resetClient c) f cmds"
  using assms by (simp add: expects_def running_def) (simp add: resetClient_def freeClientArgv_def)

lemma input_loop_reads:
  assumes "expects cfg c f todo" "\<not> io_threads_read cfg"
  shows "\<exists>c' finished todo'. todo = finished @ todo' \<and> input_loop cfg log_run c s = Some (True, c', s @ finished) \<and> expects cfg c' f todo'
     \<and> (f = [] \<longrightarrow> todo' = []) \<and> c_master c' = c_master c \<and> repl_applied c' = repl_applied c"
  using assms(1)
proof (induction todo arbitrary: c s)
  case Nil
  have "unread c @ f = []" using Nil by (simp add: expects_def split: if_splits)
  then have "unread c = []" by simp
  then have "input_loop cfg log_run c s = Some (True, c, s)" by (subst input_loop.simps) (simp add: at_end)
  then show ?case using Nil by (intro exI [of _ c] exI [of _ "[]"]) simp
next
  case (Cons cmd cmds)
  show ?case
  proof (cases "unread c = []")
    case True
    then have "input_loop cfg log_run c s = Some (True, c, s)" by (subst input_loop.simps) (simp add: at_end)
    then show ?thesis using Cons.prems all_arrived [of cfg c "cmd # cmds"] True
      by (intro exI [of _ c] exI [of _ "[]"] exI [of _ "cmd # cmds"]) auto
  next
    case False
    have run: "running cfg c" using Cons.prems by (simp add: expects_def)
    have go: "\<not> (qb_pos c \<ge> length (querybuf c) \<or> c_blocked c \<or> c_pending c \<or> (inside_long_command cfg \<and> c_master c) \<or> c_close c)"
      using run False unfolding at_end running_def by blast
    obtain c1 where c1: "c1 = (if c_reqtype c = PROTO_REQ_UNKNOWN
        then c\<lparr>c_reqtype := (if querybuf c ! qb_pos c = 42 then PROTO_REQ_MULTIBULK else PROTO_REQ_INLINE)\<rparr> else c)" by blast
    have star: "querybuf c ! qb_pos c = 42" if "c_reqtype c = PROTO_REQ_UNKNOWN"
    proof -
      have "unread c @ f = request cmd @ concat (map request cmds)" using Cons.prems that by (auto simp: expects_def split: if_splits)
      then have "hd (unread c) = 42" using False by (metis hd_append2 list.sel(1) request_def append_Cons)
      then show ?thesis using False by (simp add: unread_def hd_drop_conv_nth)
    qed
    have mb: "c_reqtype c1 = PROTO_REQ_MULTIBULK" using Cons.prems star c1 by (auto simp: expects_def split: if_splits)
    have u1: "unread c1 = unread c" using c1 by simp
    have ex1: "expects cfg c1 f (cmd # cmds)"
      using Cons.prems mb False star c1 by (cases "multibulklen c = 0") (auto simp: expects_def running_def reading_def)
    obtain c2 complete where c2: "processMultibulkBuffer cfg c1 = Some (c2, complete)" "settings c2 = settings c1"
      "if complete then placed c2 \<and> argv c2 = cmd \<and> unread c2 @ f = concat (map request cmds) else f \<noteq> [] \<and> expects cfg c2 f (cmd # cmds)"
      using processMultibulkBuffer_reads [OF ex1 _ mb] u1 False by auto
    have cmd: "cmd \<noteq> []" "\<forall>args \<in> set cmds. request_ok cfg args" using Cons.prems by (simp_all add: expects_def request_ok_def)
    show ?thesis
    proof (cases complete)
      case True
      then have r: "argv c2 = cmd" "unread c2 @ f = concat (map request cmds)" "placed c2" using c2(3) by simp_all
      have step: "input_loop cfg log_run c s = input_loop cfg log_run (resetClient c2) (s @ [cmd])"
        using c2(1) True r cmd(1) mb assms(2)
        by (subst input_loop.simps, subst if_not_P [OF go]) (simp add: c1 [symmetric] Let_def log_run_def)
      have "running cfg c2" using running_settings [OF c2(2)] ex1 by (simp add: expects_def)
      then have "expects cfg (resetClient c2) f cmds" using r(2,3) cmd(2) by (intro reset_expects)
      from Cons.IH [OF this, of "s @ [cmd]"] obtain c' finished todo' where
        "cmds = finished @ todo'" "input_loop cfg log_run (resetClient c2) (s @ [cmd]) = Some (True, c', (s @ [cmd]) @ finished)"
        "expects cfg c' f todo'" "f = [] \<longrightarrow> todo' = []"
        "c_master c' = c_master (resetClient c2)" "repl_applied c' = repl_applied (resetClient c2)" by blast
      moreover have "c_master (resetClient c2) = c_master c" "repl_applied (resetClient c2) = repl_applied c"
        using c2(2) by (simp_all add: settings_def c1 resetClient_def freeClientArgv_def)
      ultimately show ?thesis unfolding step by (intro exI [of _ c'] exI [of _ "cmd # finished"] exI [of _ todo']) simp
    next
      case False
      then have "input_loop cfg log_run c s = Some (True, c2, s)"
        using c2(1) mb by (subst input_loop.simps, subst if_not_P [OF go]) (simp add: c1 [symmetric] Let_def)
      moreover have "c_master c2 = c_master c" "repl_applied c2 = repl_applied c" using c2(2) by (simp_all add: settings_def c1)
      ultimately show ?thesis using c2(3) False by (intro exI [of _ c2] exI [of _ "[]"] exI [of _ "cmd # cmds"]) simp
    qed
  qed
qed

section \<open>Any cut of the stream\<close>

lemma unread_append [simp]: "placed c \<Longrightarrow> unread (c\<lparr>querybuf := querybuf c @ data\<rparr>) = unread c @ data"
  by (simp add: unread_def placed_def)

lemma expects_transfer:
  assumes ex: "expects cfg c f todo" and c': "placed c'" "running cfg c'" "c_reqtype c' = c_reqtype c" "multibulklen c' = multibulklen c"
      "bulklen c' = bulklen c" "argv c' = argv c" "argv_len c' = argv_len c" "unread c' @ f' = unread c @ f" "unread c \<noteq> [] \<Longrightarrow> unread c' \<noteq> []"
  shows "expects cfg c' f' todo"
proof (cases "multibulklen c = 0")
  case True
  then show ?thesis using ex c' by (auto simp: expects_def)
next
  case False
  then obtain pre args cmds where r: "todo = (pre @ args) # cmds" "args \<noteq> []" "reading c pre args f (concat (map request cmds))"
    using ex by (auto simp: expects_def)
  then have "reading c' pre args f' (concat (map request cmds))"
    using c' by (cases "bulklen c = -1") (simp_all add: reading_def)
  then have "\<exists>pre args cmds. todo = (pre @ args) # cmds \<and> args \<noteq> [] \<and> reading c' pre args f' (concat (map request cmds))"
    using r(1,2) by blast
  then show ?thesis using ex c' False by (simp add: expects_def)
qed

lemma expects_append: "expects cfg c (data @ f) todo \<Longrightarrow> expects cfg (c\<lparr>querybuf := querybuf c @ data\<rparr>) f todo"
  by (rule expects_transfer) (auto simp: expects_def running_def placed_def unread_def)

lemma expects_trim: "expects cfg c f todo \<Longrightarrow> expects cfg (c\<lparr>querybuf := drop (qb_pos c) (querybuf c), qb_pos := 0\<rparr>) f todo"
  by (rule expects_transfer) (auto simp: expects_def running_def placed_def unread_def)

lemma expects_length: "expects cfg c f todo \<Longrightarrow> length (unread c @ f) \<le> length (concat (map request todo))"
proof (cases "multibulklen c = 0")
  case False
  assume "expects cfg c f todo"
  then obtain pre args cmds where r: "todo = (pre @ args) # cmds" "reading c pre args f (concat (map request cmds))"
    using False by (auto simp: expects_def)
  have "length (unread c @ f) \<le> length (concat (map bulk args) @ concat (map request cmds))"
    using r(2) by (auto simp: reading_def bulk_def split: if_splits simp del: length_append) (simp_all)
  then show ?thesis unfolding r(1) by (simp add: request_def)
qed (simp add: expects_def)

lemma processInputBuffer_reads:
  assumes "expects cfg c f todo" "\<not> io_threads_read cfg" "repl_applied c = 0"
  shows "\<exists>c' finished todo'. todo = finished @ todo' \<and> processInputBuffer cfg log_run c s = Some (True, c', s @ finished) \<and> expects cfg c' f todo'
     \<and> (f = [] \<longrightarrow> todo' = []) \<and> c_master c' = c_master c \<and> repl_applied c' = 0 \<and> (\<not> c_master c' \<longrightarrow> qb_pos c' = 0)"
proof -
  obtain c1 finished todo' where c1: "todo = finished @ todo'" "input_loop cfg log_run c s = Some (True, c1, s @ finished)" "expects cfg c1 f todo'"
      "f = [] \<longrightarrow> todo' = []" "c_master c1 = c_master c" "repl_applied c1 = repl_applied c" using input_loop_reads [OF assms(1,2)] by blast
  let ?c = "if \<not> c_master c1 \<and> qb_pos c1 \<noteq> 0 then c1\<lparr>querybuf := drop (qb_pos c1) (querybuf c1), qb_pos := 0\<rparr> else c1"
  have "processInputBuffer cfg log_run c s = Some (True, ?c, s @ finished)"
    using c1(2,6) assms(3) by (simp add: processInputBuffer_def)
  moreover have "expects cfg ?c f todo'" using c1(3) expects_trim by simp
  ultimately show ?thesis using c1 assms(3) by (intro exI [of _ ?c] exI [of _ finished] exI [of _ todo']) simp
qed

lemma query_reads_reads:
  assumes "\<not> io_threads_read cfg"
    "c_master c \<or> qb_pos c = 0 \<and> length (concat (map request todo)) \<le> client_max_querybuf_len cfg"
    "repl_applied c = 0" "expects cfg c (concat chunks) todo" "chunks = [] \<longrightarrow> todo = []"
  shows "\<exists>c'. query_reads cfg log_run c s chunks = Some (True, c', s @ todo) \<and> expects cfg c' [] []"
  using assms(2-)
proof (induction chunks arbitrary: c s todo)
  case Nil
  then show ?case by auto
next
  case (Cons d ds)
  let ?c = "c\<lparr>querybuf := querybuf c @ d\<rparr>"
  have ex: "expects cfg ?c (concat ds) todo" using expects_append [of cfg c d "concat ds" todo] Cons.prems(3) by simp
  obtain c1 finished todo' where c1: "todo = finished @ todo'" "processInputBuffer cfg log_run ?c s = Some (True, c1, s @ finished)"
      "expects cfg c1 (concat ds) todo'" "concat ds = [] \<longrightarrow> todo' = []" "c_master c1 = c_master ?c" "repl_applied c1 = 0" "\<not> c_master c1 \<longrightarrow> qb_pos c1 = 0"
    using processInputBuffer_reads [OF ex assms(1), of s] Cons.prems(2) by auto
  have fits: "c_master c \<or> length (querybuf ?c) \<le> client_max_querybuf_len cfg"
    using expects_length [OF ex] Cons.prems(1) by (auto simp: unread_def)
  have step: "query_reads cfg log_run c s (d # ds) = query_reads cfg log_run c1 (s @ finished) ds"
    using c1(2) fits by (auto simp: query_read_def)
  have "length (concat (map request todo')) \<le> length (concat (map request todo))" unfolding c1(1) by simp
  then have "c_master c1 \<or> qb_pos c1 = 0 \<and> length (concat (map request todo')) \<le> client_max_querybuf_len cfg"
    using Cons.prems(1) c1(5,7) by auto
  from Cons.IH [OF this c1(6,3), of "s @ finished"] show ?case unfolding step using c1(1,4) by auto
qed

section \<open>Commands that are written\<close>

lemma decoded_integer: "is_ll v \<Longrightarrow> getDecodedObject (ObjInt v) = dec_int v"
proof -
  assume v: "is_ll v"
  have "ll2string (replicate 32 fresh_byte) 32 v
      = (dec_int v @ 0 # drop (Suc (length (dec_int v))) (replicate 32 fresh_byte), length (dec_int v))"
    by (rule ll2string_ok) (use v ll_text [OF v] in simp_all)
  moreover have "takeWhile (\<lambda>b. b \<noteq> 0) (dec_int v @ 0 # xs) = dec_int v" for xs
    using dec_int_plain by (subst takeWhile_append2) auto
  ultimately show ?thesis by (simp add: getDecodedObject_def)
qed

lemma number_written: "is_ll v \<Longrightarrow> cat_number mark v = mark # dec_int v @ [13, 10]"
  using ll2string_ok [of v 31 "replicate 31 fresh_byte"] ll_text [of v] by (simp add: cat_number_def)

lemma command_written:
  assumes "request_ok cfg (map getDecodedObject args)"
  shows "catAppendOnlyGenericCommand dst args = dst @ request (map getDecodedObject args)"
proof -
  have n: "is_ll (int (length args))" using assms by (simp add: request_ok_def is_ll_def limits_defs INT_MAX_def)
  have "cat_args dst args = dst @ concat (map bulk (map getDecodedObject args))" if "\<forall>ob \<in> set args. arg_ok cfg (getDecodedObject ob)" for dst
    using that
    by (induction args arbitrary: dst) (simp_all add: number_written bulk_def arg_ok_def is_ll_def limits_defs Let_def)
  then show ?thesis using assms n
    by (simp add: catAppendOnlyGenericCommand_def number_written request_def request_ok_def)
qed

text \<open>A client that nothing has been read from.\<close>

definition new_client :: "client \<Rightarrow> bool" where
  "new_client c \<longleftrightarrow> querybuf c = [] \<and> qb_pos c = 0 \<and> c_reqtype c = PROTO_REQ_UNKNOWN \<and> multibulklen c = 0 \<and> bulklen c = -1 \<and> argv c = []
     \<and> \<not> c_blocked c \<and> \<not> c_pending c \<and> \<not> c_close c \<and> repl_applied c = 0"

text \<open>Requests sent by a client or by the master and cut into reads in any way are executed one after the other with
  their arguments; then nothing is left in the buffer and the client waits for the next request.\<close>

lemma requests_executed:
  assumes "concat chunks = concat (map request todo)" "\<forall>args \<in> set todo. request_ok cfg args"
    "new_client c" "\<not> io_threads_read cfg" "\<not> (inside_long_command cfg \<and> c_master c)"
    "c_master c \<or> length (concat chunks) \<le> client_max_querybuf_len cfg"
  shows "\<exists>c'. query_reads cfg log_run c [] chunks = Some (True, c', todo)
     \<and> unread c' = [] \<and> argv c' = [] \<and> multibulklen c' = 0 \<and> c_reqtype c' = PROTO_REQ_UNKNOWN \<and> \<not> c_close c'"
proof -
  have "expects cfg c (concat chunks) todo"
    using assms(1,2,3,5) by (auto simp: expects_def new_client_def running_def placed_def unread_def)
  moreover have "chunks = [] \<longrightarrow> todo = []" using assms(1) by (cases todo) auto
  ultimately obtain c' where c': "query_reads cfg log_run c [] chunks = Some (True, c', todo)" "expects cfg c' [] []"
    using query_reads_reads [of cfg c todo chunks "[]"] assms(1,3,4,6) by (auto simp: new_client_def)
  have "unread c' = [] \<and> argv c' = [] \<and> multibulklen c' = 0 \<and> c_reqtype c' = PROTO_REQ_UNKNOWN \<and> \<not> c_close c'"
    using c'(2) by (auto simp: expects_def running_def split: if_splits)
  then show ?thesis using c'(1) by blast
qed

definition a_client :: client where
  "a_client = \<lparr>querybuf = [], qb_pos = 0, c_reqtype = PROTO_REQ_UNKNOWN, multibulklen = 0, bulklen = -1, argv = [], argv_len = 0, argv_len_sum = 0,
     c_master = False, c_replica = False, c_blocked = False, c_pending = False, c_close = False, repl_applied = 0, repl_ack_time = 0, c_errors = []\<rparr>"

definition a_config :: config where
  "a_config = \<lparr>proto_max_bulk_len = 536870912, client_max_querybuf_len = 1073741824, auth_required = False, inside_long_command = False,
     io_threads_read = False, unixtime = 0\<rparr>"

lemma a_client_new: "new_client a_client"
  by (simp add: new_client_def a_client_def)

end
