(* ===== verification/Resp_Total.thy ===== *)
theory Resp_Total
  imports Resp_Props
begin

text \<open>
  The parser on arbitrary bytes: it always ends, no assertion fails and no argument is stored past the end of
  \<open>argv\<close>, whatever is sent in whatever pieces.
\<close>

section \<open>The state between reads\<close>

definition stopped :: "client \<Rightarrow> bool" where
  "stopped c \<longleftrightarrow> c_blocked c \<or> c_pending c \<or> c_close c"

text \<open>Within a request of which \<open>multibulklen\<close> arguments are to come.\<close>

definition within :: "client \<Rightarrow> bool" where
  "within c \<longleftrightarrow> c_reqtype c = PROTO_REQ_MULTIBULK \<and> 0 < multibulklen c \<and> -1 \<le> bulklen c \<and> length (argv c) \<le> argv_len c \<and> 0 < argv_len c
     \<and> int (length (argv c)) + multibulklen c \<le> INT_MAX"

definition parser_ok :: "client \<Rightarrow> bool" where
  "parser_ok c \<longleftrightarrow> within c \<or> multibulklen c = 0 \<and> bulklen c = -1 \<and> argv c = []
     \<and> (c_reqtype c = PROTO_REQ_MULTIBULK \<longrightarrow> unread c \<noteq> [] \<and> hd (unread c) = 42)"

definition client_ok :: "client \<Rightarrow> bool" where
  "client_ok c \<longleftrightarrow> placed c \<and> (c_master c \<longrightarrow> repl_applied c \<le> qb_pos c) \<and> (stopped c \<or> parser_ok c)"

text \<open>What executing a command may do to the client: anything, as long as it leaves the parser in order or the client
  stopped, and does not put bytes into the query buffer.\<close>

definition executor_ok :: "(client \<Rightarrow> 's \<Rightarrow> bool \<times> client \<times> 's) \<Rightarrow> bool" where
  "executor_ok run \<longleftrightarrow> (\<forall>c s c' s'. placed c \<longrightarrow> (c_master c \<longrightarrow> repl_applied c \<le> qb_pos c) \<longrightarrow> multibulklen c = 0 \<longrightarrow> run c s = (True, c', s') \<longrightarrow>
     client_ok c' \<and> length (unread c') \<le> length (unread c))"

text \<open>Progress within a read: what is unread gets shorter, and nothing before the place of the master's stream moves.\<close>

definition moves :: "client \<Rightarrow> client \<Rightarrow> bool" where
  "moves c c' \<longleftrightarrow> placed c' \<and> settings c' = settings c \<and> length (unread c') \<le> length (unread c) \<and> (c_master c \<longrightarrow> qb_pos c \<le> qb_pos c')"

lemma moves_trans: "moves a b \<Longrightarrow> moves b c \<Longrightarrow> moves a c"
  by (auto simp: moves_def settings_def)

lemma moves_refl: "placed c \<Longrightarrow> moves c c"
  by (simp add: moves_def)

section \<open>One request\<close>

lemma bulk_length_total:
  assumes "placed c"
  shows "\<exists>c' known. bulk_length cfg c = (c', known)
     \<and> (if known then moves c c' \<and> length (unread c') < length (unread c) \<and> 0 \<le> bulklen c'
          \<and> multibulklen c' = multibulklen c \<and> argv c' = argv c \<and> argv_len c' = argv_len c
        else c' = c \<or> (\<exists>e. c' = protocol_error e c))" (is "\<exists>c' known. ?P c' known")
proof -
  have stop: ?thesis if "bulk_length cfg c = (c, False)" using that by (intro exI [of _ c] exI [of _ False]) simp
  have err: ?thesis if "bulk_length cfg c = (protocol_error e c, False)" for e
    using that by (intro exI [of _ "protocol_error e c"] exI [of _ False]) auto
  show ?thesis
  proof (cases "strchr (unread c) 13")
    case None
    show ?thesis
    proof (cases "length (querybuf c) - qb_pos c > PROTO_INLINE_MAX_SIZE")
      case True
      show ?thesis by (rule err) (unfold bulk_length_def None option.case if_P [OF True], rule refl)
    next
      case False
      show ?thesis by (rule stop) (unfold bulk_length_def None option.case if_not_P [OF False], rule refl)
    qed
  next
    case n: (Some n)
    then have ne: "unread c \<noteq> []" by auto
    show ?thesis
    proof (cases "int n > int (length (querybuf c)) - int (qb_pos c) - 2")
      case True
      show ?thesis by (rule stop) (unfold bulk_length_def n option.case if_P [OF True], rule refl)
    next
      case line: False
      show ?thesis
      proof (cases "unread c ! 0 \<noteq> 36")
        case True
        show ?thesis by (rule err) (unfold bulk_length_def n option.case if_not_P [OF line] if_P [OF True], rule refl)
      next
        case dollar: False
        show ?thesis
        proof (cases "string2ll (take (n - 1) (drop 1 (unread c)))")
          case None
          show ?thesis by (rule err) (unfold bulk_length_def n option.case if_not_P [OF line] if_not_P [OF dollar] None, rule refl)
        next
          case ll: (Some ll)
          show ?thesis
          proof (cases "ll < 0 \<or> (\<not> c_master c \<and> ll > proto_max_bulk_len cfg)")
            case True
            show ?thesis by (rule err) (unfold bulk_length_def n option.case if_not_P [OF line] if_not_P [OF dollar] ll if_P [OF True], rule refl)
          next
            case valid: False
            show ?thesis
            proof (cases "ll > 16384 \<and> auth_required cfg")
              case True
              show ?thesis by (rule err) (unfold bulk_length_def n option.case if_not_P [OF line] if_not_P [OF dollar] ll if_not_P [OF valid] if_P [OF True], rule refl)
            next
              case auth: False
              let ?c = "c\<lparr>qb_pos := qb_pos c + n + 2\<rparr>"
              obtain d where d: "d = (if \<not> c_master ?c \<and> ll \<ge> int PROTO_MBULK_BIG_ARG \<and> int (length (querybuf ?c) - qb_pos ?c) \<le> ll + 2
                  then ?c\<lparr>querybuf := drop (qb_pos ?c) (querybuf ?c), qb_pos := 0\<rparr> else ?c)" by blast
              have eq: "bulk_length cfg c = (d\<lparr>bulklen := ll\<rparr>, True)"
                unfolding d bulk_length_def n option.case if_not_P [OF line] if_not_P [OF dollar] ll if_not_P [OF valid] if_not_P [OF auth] Let_def ..
              have n2: "n + 2 \<le> length (unread c)" using line unread_room [OF ne] by simp
              have u: "unread d = drop (n + 2) (unread c)" unfolding d using unread_trim [of ?c] unread_advance [of c "n + 2"] by (simp add: add.assoc)
              have "placed (c\<lparr>qb_pos := qb_pos c + (n + 2)\<rparr>)"
                by (rule placed_advance [of c "take (n + 2) (unread c)" "drop (n + 2) (unread c)"]) (use n2 ne in auto)
              then have p: "placed d" unfolding d by (simp add: add.assoc)
              have same: "settings d = settings c" "multibulklen d = multibulklen c" "argv d = argv c" "argv_len d = argv_len c" "c_master c \<longrightarrow> qb_pos c \<le> qb_pos d"
                unfolding d by (simp_all add: settings_def)
              have "settings (d\<lparr>bulklen := ll\<rparr>) = settings c" using same(1) by (simp add: settings_def)
              then have "moves c (d\<lparr>bulklen := ll\<rparr>)" using u p same(5) by (simp add: moves_def)
              moreover have "length (unread (d\<lparr>bulklen := ll\<rparr>)) < length (unread c)" using u n2 by simp
              moreover have "0 \<le> bulklen (d\<lparr>bulklen := ll\<rparr>)" using valid by simp
              moreover have "multibulklen (d\<lparr>bulklen := ll\<rparr>) = multibulklen c" "argv (d\<lparr>bulklen := ll\<rparr>) = argv c"
                "argv_len (d\<lparr>bulklen := ll\<rparr>) = argv_len c" using same(2-4) by simp_all
              ultimately have "?P (d\<lparr>bulklen := ll\<rparr>) True" using eq by simp
              then show ?thesis by blast
            qed
          qed
        qed
      qed
    qed
  qed
qed

lemma grow_room:
  assumes "within c"
  obtains n where "(if length (argv c) \<ge> argv_len c
        then c\<lparr>argv_len := nat (min (if int (argv_len c) < INT_MAX div 2 then int (argv_len c) * 2 else INT_MAX) (int (length (argv c)) + multibulklen c))\<rparr>
        else c) = c\<lparr>argv_len := n\<rparr>" "length (argv c) < n"
proof (cases "length (argv c) \<ge> argv_len c")
  case True
  show ?thesis
  proof (rule that)
    show "(if length (argv c) \<ge> argv_len c
        then c\<lparr>argv_len := nat (min (if int (argv_len c) < INT_MAX div 2 then int (argv_len c) * 2 else INT_MAX) (int (length (argv c)) + multibulklen c))\<rparr>
        else c) = c\<lparr>argv_len := nat (min (if int (argv_len c) < INT_MAX div 2 then int (argv_len c) * 2 else INT_MAX) (int (length (argv c)) + multibulklen c))\<rparr>"
      by (rule if_P) (rule True)
    show "length (argv c) < nat (min (if int (argv_len c) < INT_MAX div 2 then int (argv_len c) * 2 else INT_MAX) (int (length (argv c)) + multibulklen c))"
      using True assms by (simp add: within_def INT_MAX_def zless_nat_eq_int_zless)
  qed
next
  case False
  then show ?thesis using that [of "argv_len c"] by simp
qed

lemma read_bulk_total:
  assumes "within c" "placed c" "0 \<le> bulklen c"
  shows "\<exists>c' complete. read_bulk c = Some (c', complete)
     \<and> (if complete then moves c c' \<and> length (unread c') < length (unread c) \<and> bulklen c' = -1 \<and> multibulklen c' = multibulklen c - 1
          \<and> length (argv c') = Suc (length (argv c)) \<and> length (argv c') \<le> argv_len c'
        else c' = c)"
proof (cases "int (length (querybuf c) - qb_pos c) < bulklen c + 2")
  case True
  then show ?thesis by (intro exI [of _ c] exI [of _ False]) (simp add: read_bulk_def)
next
  case False
  obtain n where grow: "(if length (argv c) \<ge> argv_len c
        then c\<lparr>argv_len := nat (min (if int (argv_len c) < INT_MAX div 2 then int (argv_len c) * 2 else INT_MAX) (int (length (argv c)) + multibulklen c))\<rparr>
        else c) = c\<lparr>argv_len := n\<rparr>" and n: "length (argv c) < n" using grow_room [OF assms(1)] by blast
  let ?c = "c\<lparr>argv_len := n\<rparr>"
  have store: "store_arg ?c x = Some (?c\<lparr>argv := argv c @ [x], argv_len_sum := argv_len_sum c + length x\<rparr>)" for x
    using store_arg_room [of ?c x] n by simp
  have rb: "read_bulk c = do {
      c' \<leftarrow> (if \<not> c_master c \<and> qb_pos c = 0 \<and> bulklen c \<ge> int PROTO_MBULK_BIG_ARG \<and> int (length (querybuf c)) = bulklen c + 2
           then do { c' \<leftarrow> store_arg ?c (take (length (querybuf c) - 2) (querybuf c)); Some (c'\<lparr>querybuf := []\<rparr>) }
           else do { c' \<leftarrow> store_arg ?c (take (nat (bulklen c)) (unread c)); Some (c'\<lparr>qb_pos := qb_pos c' + nat (bulklen c') + 2\<rparr>) });
      Some (c'\<lparr>bulklen := -1, multibulklen := multibulklen c' - 1\<rparr>, True) }"
    unfolding read_bulk_def if_not_P [OF False] grow Let_def by simp
  show ?thesis
  proof (cases "\<not> c_master c \<and> qb_pos c = 0 \<and> bulklen c \<ge> int PROTO_MBULK_BIG_ARG \<and> int (length (querybuf c)) = bulklen c + 2")
    case True
    then have "unread c \<noteq> []" by (auto simp: unread_def PROTO_MBULK_BIG_ARG_def)
    let ?d = "?c\<lparr>argv := argv c @ [take (length (querybuf c) - 2) (querybuf c)],
        argv_len_sum := argv_len_sum c + length (take (length (querybuf c) - 2) (querybuf c)), querybuf := [], bulklen := -1, multibulklen := multibulklen c - 1\<rparr>"
    have eq: "read_bulk c = Some (?d, True)" unfolding rb if_P [OF True] by (simp add: store)
    have "moves c ?d" "unread ?d = []" using True by (simp_all add: moves_def settings_def placed_def unread_def)
    then show ?thesis unfolding eq using \<open>unread c \<noteq> []\<close> n by (intro exI [of _ ?d] exI [of _ True]) simp
  next
    case small: False
    let ?k = "nat (bulklen c) + 2"
    let ?d = "?c\<lparr>argv := argv c @ [take (nat (bulklen c)) (unread c)], argv_len_sum := argv_len_sum c + length (take (nat (bulklen c)) (unread c))\<rparr>"
    let ?e = "?d\<lparr>qb_pos := qb_pos ?d + ?k\<rparr>"
    have eq: "read_bulk c = Some (?e\<lparr>bulklen := -1, multibulklen := multibulklen c - 1\<rparr>, True)"
      unfolding rb if_not_P [OF small] by (simp add: store add.assoc)
    have len: "?k \<le> length (unread c)" using False assms(3) by (simp add: length_unread)
    have u: "unread ?e = drop ?k (unread c)" unfolding unread_advance by simp
    have "placed ?e" by (rule placed_advance [of ?d "take ?k (unread c)" "drop ?k (unread c)"]) (use len in auto)
    then have "moves c (?e\<lparr>bulklen := -1, multibulklen := multibulklen c - 1\<rparr>)" using u by (simp add: moves_def settings_def)
    moreover have "length (unread (?e\<lparr>bulklen := -1, multibulklen := multibulklen c - 1\<rparr>)) < length (unread c)" using u len by simp
    ultimately show ?thesis unfolding eq using n
      by (intro exI [of _ "?e\<lparr>bulklen := -1, multibulklen := multibulklen c - 1\<rparr>"] exI [of _ True]) simp
  qed
qed

text \<open>Where a call stops without a complete request: between bytes, or with a protocol error.\<close>

definition halts :: "client \<Rightarrow> client \<Rightarrow> bool" where
  "halts c c' \<longleftrightarrow> moves c c' \<and> parser_ok c' \<or> (\<exists>d e. moves c d \<and> c' = protocol_error e d)"

lemma halts_moves: "moves a b \<Longrightarrow> halts b c \<Longrightarrow> halts a c"
  by (auto simp: halts_def dest: moves_trans)

lemma multibulk_loop_total:
  assumes "within c" "placed c"
  shows "\<exists>c' complete. multibulk_loop cfg c = Some (c', complete)
     \<and> (if complete then moves c c' \<and> length (unread c') < length (unread c) \<and> multibulklen c' = 0 else halts c c')"
  using assms
proof (induction "nat (multibulklen c)" arbitrary: c)
  case 0
  then show ?case by (simp add: within_def)
next
  case (Suc k)
  have mb: "multibulklen c \<noteq> 0" using Suc.prems(1) by (simp add: within_def)
  obtain c1 known where c1: "(if bulklen c = -1 then bulk_length cfg c else (c, True)) = (c1, known)" by force
  have r1: "if known then moves c c1 \<and> 0 \<le> bulklen c1 \<and> multibulklen c1 = multibulklen c \<and> argv c1 = argv c \<and> argv_len c1 = argv_len c
      else halts c c1"
  proof (cases "bulklen c = -1")
    case True
    then show ?thesis
      using bulk_length_total [OF Suc.prems(2), of cfg] c1 moves_refl [OF Suc.prems(2)] Suc.prems(1)
      by (auto simp: halts_def parser_ok_def split: if_splits)
  next
    case False
    then show ?thesis using c1 Suc.prems moves_refl by (auto simp: within_def)
  qed
  show ?case
  proof (cases known)
    case False
    then have "multibulk_loop cfg c = Some (c1, False)" using mb c1 by (subst multibulk_loop.simps) simp
    then show ?thesis using r1 False by (intro exI [of _ c1] exI [of _ False]) simp
  next
    case True
    then have m1: "moves c c1" "0 \<le> bulklen c1" "multibulklen c1 = multibulklen c" "argv c1 = argv c" "argv_len c1 = argv_len c"
      using r1 by simp_all
    have w1: "within c1" "placed c1" using m1 Suc.prems(1) by (auto simp: within_def moves_def settings_def)
    obtain c2 complete where c2: "read_bulk c1 = Some (c2, complete)"
      "if complete then moves c1 c2 \<and> length (unread c2) < length (unread c1) \<and> bulklen c2 = -1 \<and> multibulklen c2 = multibulklen c1 - 1
          \<and> length (argv c2) = Suc (length (argv c1)) \<and> length (argv c2) \<le> argv_len c2 else c2 = c1"
      using read_bulk_total [OF w1 m1(2)] by blast
    have step: "multibulk_loop cfg c = (if complete then multibulk_loop cfg c2 else Some (c2, False))"
      using mb c1 True c2(1) by (subst multibulk_loop.simps) simp
    show ?thesis
    proof (cases complete)
      case False
      then have "c2 = c1" using c2(2) by simp
      moreover have "halts c c1" using m1(1) w1(1) by (simp add: halts_def parser_ok_def)
      ultimately show ?thesis unfolding step using False by (intro exI [of _ c1] exI [of _ False]) simp
    next
      case True
      then have m2: "moves c1 c2" "length (unread c2) < length (unread c1)" "bulklen c2 = -1" "multibulklen c2 = multibulklen c - 1"
        "length (argv c2) = Suc (length (argv c))" "length (argv c2) \<le> argv_len c2" using c2(2) m1 by simp_all
      have mc: "moves c c2" using moves_trans m1(1) m2(1) by blast
      have lt: "length (unread c2) < length (unread c)" using m1(1) m2(2) by (simp add: moves_def)
      show ?thesis
      proof (cases "multibulklen c2 = 0")
        case True
        then have "multibulk_loop cfg c2 = Some (c2, True)" by (subst multibulk_loop.simps) simp
        then show ?thesis unfolding step using \<open>complete\<close> mc lt True by (intro exI [of _ c2] exI [of _ True]) simp
      next
        case False
        have "within c2" using False m2 mc Suc.prems(1) by (auto simp: within_def moves_def settings_def)
        moreover have "placed c2" using mc by (simp add: moves_def)
        moreover have "k = nat (multibulklen c2)" using Suc.hyps(2) m2(4) by simp
        ultimately obtain c' fin where c': "multibulk_loop cfg c2 = Some (c', fin)"
          "if fin then moves c2 c' \<and> length (unread c') < length (unread c2) \<and> multibulklen c' = 0 else halts c2 c'"
          using Suc.hyps(1) by blast
        have "if fin then moves c c' \<and> length (unread c') < length (unread c) \<and> multibulklen c' = 0 else halts c c'"
          using c'(2) moves_trans [OF mc] halts_moves [OF mc] lt by (auto split: if_splits)
        then show ?thesis unfolding step using \<open>complete\<close> c'(1) by (intro exI [of _ c'] exI [of _ fin]) simp
      qed
    qed
  qed
qed

lemma advance_moves:
  assumes "k \<le> length (unread c)" "0 < k"
  shows "moves c (c\<lparr>qb_pos := qb_pos c + k\<rparr>)" "length (unread (c\<lparr>qb_pos := qb_pos c + k\<rparr>)) < length (unread c)"
proof -
  have "placed (c\<lparr>qb_pos := qb_pos c + k\<rparr>)"
    by (rule placed_advance [of c "take k (unread c)" "drop k (unread c)"]) (use assms in auto)
  then show "moves c (c\<lparr>qb_pos := qb_pos c + k\<rparr>)" by (simp add: moves_def settings_def)
  show "length (unread (c\<lparr>qb_pos := qb_pos c + k\<rparr>)) < length (unread c)" using assms by simp
qed

lemma halts_stop: "placed c \<Longrightarrow> parser_ok c \<Longrightarrow> halts c c"
  by (simp add: halts_def moves_refl)

lemma halts_error: "placed c \<Longrightarrow> halts c (protocol_error e c)"
  using moves_refl by (auto simp: halts_def)

lemma multibulk_count_total:
  assumes "parser_ok c" "placed c" "c_reqtype c = PROTO_REQ_MULTIBULK" "multibulklen c = 0"
  shows "\<exists>c' ret. multibulk_count cfg c = Some (c', ret) \<and> (case ret of
      None \<Rightarrow> moves c c' \<and> length (unread c') < length (unread c) \<and> within c'
    | Some True \<Rightarrow> moves c c' \<and> length (unread c') < length (unread c) \<and> multibulklen c' = 0
    | Some False \<Rightarrow> halts c c')" (is "\<exists>c' ret. ?P c' ret")
proof -
  have no: "\<not> multibulklen c \<noteq> 0" and argv: "\<not> argv c \<noteq> []" and ne: "unread c \<noteq> []" and star: "\<not> unread c ! 0 \<noteq> 42" and bulk: "bulklen c = -1"
    using assms by (auto simp: parser_ok_def within_def hd_conv_nth)
  note start = multibulk_count_def if_not_P [OF no] if_not_P [OF argv]
  have halt: ?thesis if "multibulk_count cfg c = Some (c', Some False)" "halts c c'" for c'
    using that by (intro exI [of _ c'] exI [of _ "Some False"]) simp
  note stop = halt [OF _ halts_stop [OF assms(2,1)]] and err = halt [OF _ halts_error [OF assms(2)]]
  show ?thesis
  proof (cases "strchr (unread c) 13")
    case None
    show ?thesis
    proof (cases "length (querybuf c) - qb_pos c > PROTO_INLINE_MAX_SIZE")
      case True
      show ?thesis by (rule err) (unfold start None option.case if_P [OF True], rule refl)
    next
      case False
      show ?thesis by (rule stop) (unfold start None option.case if_not_P [OF False], rule refl)
    qed
  next
    case n: (Some n)
    show ?thesis
    proof (cases "int n > int (length (querybuf c)) - int (qb_pos c) - 2")
      case True
      show ?thesis by (rule stop) (unfold start n option.case if_P [OF True], rule refl)
    next
      case line: False
      then have n2: "n + 2 \<le> length (unread c)" using unread_room [OF ne] by simp
      note here = start n option.case if_not_P [OF line] if_not_P [OF star]
      show ?thesis
      proof (cases "string2ll (take (n - 1) (drop 1 (unread c)))")
        case None
        show ?thesis by (rule err) (unfold here None, rule refl)
      next
        case ll: (Some ll)
        show ?thesis
        proof (cases "ll > INT_MAX")
          case True
          show ?thesis by (rule err) (unfold here ll if_P [OF True], rule refl)
        next
          case max: False
          show ?thesis
          proof (cases "ll > 10 \<and> auth_required cfg")
            case True
            show ?thesis by (rule err) (unfold here ll if_not_P [OF max] if_P [OF True], rule refl)
          next
            case auth: False
            let ?c = "c\<lparr>qb_pos := qb_pos c + n + 2\<rparr>"
            have m: "moves c ?c" "length (unread ?c) < length (unread c)" using advance_moves [OF n2] by (simp_all add: add.assoc)
            show ?thesis
            proof (cases "ll \<le> 0")
              case True
              have "multibulk_count cfg c = Some (?c, Some True)"
                unfolding here ll if_not_P [OF max] if_not_P [OF auth] Let_def if_P [OF True] ..
              then show ?thesis using m assms(4) by (intro exI [of _ ?c] exI [of _ "Some True"]) simp
            next
              case False
              let ?d = "?c\<lparr>multibulklen := ll, argv_len := min (nat ll) 1024, argv_len_sum := 0\<rparr>"
              have eq: "multibulk_count cfg c = Some (?d, None)"
                unfolding here ll if_not_P [OF max] if_not_P [OF auth] Let_def if_not_P [OF False] ..
              have "moves c ?d" "length (unread ?d) < length (unread c)" using m by (simp_all add: moves_def settings_def)
              moreover have "within ?d" using False max assms(3) bulk argv by (auto simp: within_def)
              ultimately show ?thesis using eq by (intro exI [of _ ?d] exI [of _ None]) simp
            qed
          qed
        qed
      qed
    qed
  qed
qed

lemma processMultibulkBuffer_total:
  assumes "parser_ok c" "placed c" "c_reqtype c = PROTO_REQ_MULTIBULK"
  shows "\<exists>c' complete. processMultibulkBuffer cfg c = Some (c', complete)
     \<and> (if complete then moves c c' \<and> length (unread c') < length (unread c) \<and> multibulklen c' = 0 else halts c c')"
proof (cases "multibulklen c = 0")
  case False
  then have w: "within c" using assms(1) by (simp add: parser_ok_def)
  then have "\<not> multibulklen c \<le> 0" by (simp add: within_def)
  then have "processMultibulkBuffer cfg c = multibulk_loop cfg c" by (simp add: processMultibulkBuffer_def multibulk_count_def)
  then show ?thesis using multibulk_loop_total [OF w assms(2)] by simp
next
  case True
  obtain c1 ret where c1: "multibulk_count cfg c = Some (c1, ret)" "case ret of
      None \<Rightarrow> moves c c1 \<and> length (unread c1) < length (unread c) \<and> within c1
    | Some True \<Rightarrow> moves c c1 \<and> length (unread c1) < length (unread c) \<and> multibulklen c1 = 0
    | Some False \<Rightarrow> halts c c1" using multibulk_count_total [OF assms True] by blast
  show ?thesis
  proof (cases ret)
    case (Some ok)
    then show ?thesis using c1 by (intro exI [of _ c1] exI [of _ ok]) (auto simp: processMultibulkBuffer_def split: bool.splits)
  next
    case None
    then have m: "moves c c1" "length (unread c1) < length (unread c)" "within c1" using c1(2) by simp_all
    then have "\<not> multibulklen c1 \<le> 0" "placed c1" by (simp_all add: within_def moves_def)
    then obtain c' fin where c': "processMultibulkBuffer cfg c = Some (c', fin)"
        "if fin then moves c1 c' \<and> length (unread c') < length (unread c1) \<and> multibulklen c' = 0 else halts c1 c'"
      using multibulk_loop_total [OF m(3), of cfg] c1(1) None by (auto simp: processMultibulkBuffer_def)
    then have "if fin then moves c c' \<and> length (unread c') < length (unread c) \<and> multibulklen c' = 0 else halts c c'"
      using moves_trans [OF m(1)] halts_moves [OF m(1)] m(2) by (auto split: if_splits)
    then show ?thesis using c'(1) by blast
  qed
qed

section \<open>Inline requests\<close>

lemma store_args_room:
  "length (argv c) + length ss \<le> argv_len c \<Longrightarrow> \<exists>k. store_args c ss = Some (c\<lparr>argv := argv c @ ss, argv_len_sum := k\<rparr>)"
proof (induction ss arbitrary: c)
  case Nil
  then show ?case by (intro exI [of _ "argv_len_sum c"]) simp
next
  case (Cons s ss)
  let ?c = "c\<lparr>argv := argv c @ [s], argv_len_sum := argv_len_sum c + length s\<rparr>"
  obtain k where "store_args ?c ss = Some (?c\<lparr>argv := argv ?c @ ss, argv_len_sum := k\<rparr>)" using Cons.IH [of ?c] Cons.prems by auto
  then show ?case using store_arg_room [of c s] Cons.prems by (intro exI [of _ k]) simp
qed

lemma processInlineBuffer_total:
  assumes "parser_ok c" "placed c" "c_reqtype c \<noteq> PROTO_REQ_MULTIBULK"
  shows "\<exists>c' complete. processInlineBuffer cfg c = Some (c', complete)
     \<and> (if complete then moves c c' \<and> length (unread c') < length (unread c) \<and> multibulklen c' = 0 else halts c c')"
proof -
  have mb: "multibulklen c = 0" using assms by (auto simp: parser_ok_def within_def)
  have halt: ?thesis if "processInlineBuffer cfg c = Some (c', False)" "halts c c'" for c'
    using that by (intro exI [of _ c'] exI [of _ False]) simp
  note stop = halt [OF _ halts_stop [OF assms(2,1)]] and err = halt [OF _ halts_error [OF assms(2)]]
  show ?thesis
  proof (cases "strchr (unread c) 10")
    case None
    show ?thesis
    proof (cases "length (querybuf c) - qb_pos c > PROTO_INLINE_MAX_SIZE")
      case True
      show ?thesis by (rule err) (unfold processInlineBuffer_def None option.case if_P [OF True], rule refl)
    next
      case False
      show ?thesis by (rule stop) (unfold processInlineBuffer_def None option.case if_not_P [OF False], rule refl)
    qed
  next
    case n: (Some n)
    obtain querylen lf where ql: "inline_end (unread c) n = (querylen, lf)" by force
    have k: "querylen + lf \<le> length (unread c)" "0 < querylen + lf"
      using strchr_some [OF n] ql by (auto simp: inline_end_def split: if_splits)
    obtain res where res: "sdssplitargs (take querylen (unread c)) = Some res" using sdssplitargs_safe by blast
    have here: "processInlineBuffer cfg c = (case res of
           None \<Rightarrow> Some (protocol_error Unbalanced_quotes c, False)
         | Some args \<Rightarrow> inline_args cfg c querylen lf args)" by (simp add: processInlineBuffer_def n ql res)
    show ?thesis
    proof (cases res)
      case None
      then show ?thesis using here by (intro err) simp
    next
      case args: (Some args)
      show ?thesis
      proof (cases "querylen \<noteq> 0 \<and> c_master c")
        case True
        then show ?thesis using here args by (intro err [of Inline_from_master]) (simp add: inline_args_def)
      next
        case master: False
        obtain c1 where c1: "c1 = (if querylen = 0 \<and> c_replica c then c\<lparr>repl_ack_time := unixtime cfg\<rparr> else c)" by blast
        have same: "unread c1 = unread c" "moves c c1" "c_master c1 = c_master c" "multibulklen c1 = 0" "argv c1 = argv c"
          using assms(2) mb c1 by (simp_all add: moves_def settings_def)
        let ?c2 = "c1\<lparr>qb_pos := qb_pos c1 + (querylen + lf)\<rparr>"
        have m: "moves c1 ?c2" "length (unread ?c2) < length (unread c1)"
          using advance_moves [of "querylen + lf" c1] k same(1) by simp_all
        obtain c3 where c3: "c3 = (if args \<noteq> [] then ?c2\<lparr>argv_len := length args, argv_len_sum := 0\<rparr> else ?c2)\<lparr>argv := []\<rparr>" by blast
        have m3: "moves ?c2 c3" "multibulklen c3 = 0" "unread c3 = unread ?c2"
          using c3 same(4) m(1) by (simp_all add: moves_def settings_def)
        have "length (argv c3) + length args \<le> argv_len c3" using c3 by simp
        then obtain j where j: "store_args c3 args = Some (c3\<lparr>argv := argv c3 @ args, argv_len_sum := j\<rparr>)" using store_args_room by blast
        let ?c4 = "c3\<lparr>argv := argv c3 @ args, argv_len_sum := j\<rparr>"
        have eq: "processInlineBuffer cfg c = Some (?c4, True)"
          using here args master j by (simp add: inline_args_def c1 [symmetric] c3 [symmetric] Let_def) (simp add: same(3))
        have "moves c3 ?c4" using m3(1) by (simp add: moves_def settings_def)
        then have "moves c ?c4" using moves_trans same(2) m(1) m3(1) by blast
        moreover have "length (unread ?c4) < length (unread c)" using m(2) m3(3) same(1) by simp
        ultimately show ?thesis using eq m3(2) by (intro exI [of _ ?c4] exI [of _ True]) simp
      qed
    qed
  qed
qed

section \<open>Any stream\<close>

lemma moves_client_ok:
  "moves c c' \<Longrightarrow> (c_master c \<longrightarrow> repl_applied c \<le> qb_pos c) \<Longrightarrow> placed c' \<and> (c_master c' \<longrightarrow> repl_applied c' \<le> qb_pos c')"
  by (auto simp: moves_def settings_def)

lemma halts_client_ok:
  assumes "halts c c'" "c_master c \<longrightarrow> repl_applied c \<le> qb_pos c"
  shows "client_ok c'"
  using assms unfolding halts_def
proof (elim disjE exE conjE)
  fix d e
  assume "moves c d" "c' = protocol_error e d"
  then show ?thesis using moves_client_ok [of c d] assms(2) by (simp add: client_ok_def stopped_def protocol_error_def placed_def)
qed (use moves_client_ok [of c c'] assms(2) in \<open>simp add: client_ok_def\<close>)

lemma reset_client_ok:
  "moves c c' \<Longrightarrow> (c_master c \<longrightarrow> repl_applied c \<le> qb_pos c) \<Longrightarrow> client_ok (resetClient c')"
  using moves_client_ok [of c c'] by (simp add: client_ok_def parser_ok_def) (simp add: resetClient_def freeClientArgv_def)

lemma input_loop_total:
  assumes "executor_ok run" "client_ok c"
  shows "\<exists>alive c' s'. input_loop cfg run c s = Some (alive, c', s') \<and> (alive \<longrightarrow> client_ok c')"
  using assms(2)
proof (induction "length (unread c)" arbitrary: c s rule: less_induct)
  case less
  show ?case
  proof (cases "qb_pos c \<ge> length (querybuf c) \<or> c_blocked c \<or> c_pending c \<or> (inside_long_command cfg \<and> c_master c) \<or> c_close c")
    case True
    have "input_loop cfg run c s = Some (True, c, s)" by (subst input_loop.simps, subst if_P [OF True]) (rule refl)
    then show ?thesis using less.prems by blast
  next
    case go: False
    then have run: "\<not> stopped c" "unread c \<noteq> []" "parser_ok c" "placed c"
      using less.prems unfolding at_end by (auto simp: stopped_def client_ok_def)
    have mas: "c_master c \<longrightarrow> repl_applied c \<le> qb_pos c" using less.prems by (simp add: client_ok_def)
    obtain c1 where c1: "c1 = (if c_reqtype c = PROTO_REQ_UNKNOWN
        then c\<lparr>c_reqtype := (if querybuf c ! qb_pos c = 42 then PROTO_REQ_MULTIBULK else PROTO_REQ_INLINE)\<rparr> else c)" by blast
    have u1: "unread c1 = unread c" "placed c1" "c_master c1 \<longrightarrow> repl_applied c1 \<le> qb_pos c1" using c1 run(4) mas by simp_all
    have p1: "parser_ok c1"
      using run(2,3) c1 by (auto simp: parser_ok_def within_def unread_def hd_drop_conv_nth split: if_splits)
    obtain c2 ok where c2: "(if c_reqtype c1 = PROTO_REQ_INLINE then processInlineBuffer cfg c1 else processMultibulkBuffer cfg c1) = Some (c2, ok)"
      "if ok then moves c1 c2 \<and> length (unread c2) < length (unread c1) \<and> multibulklen c2 = 0 else halts c1 c2"
    proof (cases "c_reqtype c1 = PROTO_REQ_INLINE")
      case True
      then show thesis using that processInlineBuffer_total [OF p1 u1(2), of cfg] by auto
    next
      case False
      then have "c_reqtype c1 = PROTO_REQ_MULTIBULK" using c1 by (cases "c_reqtype c") (auto split: if_splits)
      then show thesis using that processMultibulkBuffer_total [OF p1 u1(2), of cfg] by auto
    qed
    have step: "input_loop cfg run c s = (if \<not> ok then Some (True, c2, s)
          else if argv c2 = [] then input_loop cfg run (resetClient c2) s
          else if io_threads_read cfg then Some (True, c2\<lparr>c_pending := True\<rparr>, s)
          else let (alive, c, s) = run c2 s in if alive then input_loop cfg run c s else Some (False, c, s))"
      by (subst input_loop.simps, subst if_not_P [OF go]) (simp only: c1 [symmetric] Let_def c2(1) Option.bind.bind_lunit prod.case)
    show ?thesis
    proof (cases ok)
      case False
      then have "client_ok c2" using c2(2) u1(3) halts_client_ok by simp
      then show ?thesis unfolding step using False by (intro exI [of _ True] exI [of _ c2] exI [of _ s]) simp
    next
      case True
      then have m: "moves c1 c2" "length (unread c2) < length (unread c)" "multibulklen c2 = 0" using c2(2) u1(1) by simp_all
      have pl: "placed c2" "c_master c2 \<longrightarrow> repl_applied c2 \<le> qb_pos c2" using moves_client_ok [OF m(1)] u1(3) by simp_all
      show ?thesis
      proof (cases "argv c2 = []")
        case nil: True
        have "client_ok (resetClient c2)" using reset_client_ok [OF m(1)] u1(3) by simp
        then show ?thesis unfolding step using True nil less.hyps [of "resetClient c2"] m(2) by simp
      next
        case ne: False
        show ?thesis
        proof (cases "io_threads_read cfg")
          case io: True
          have "client_ok (c2\<lparr>c_pending := True\<rparr>)" using pl by (simp add: client_ok_def stopped_def)
          then show ?thesis unfolding step using True ne io by (intro exI [of _ True] exI [of _ "c2\<lparr>c_pending := True\<rparr>"] exI [of _ s]) simp
        next
          case io: False
          obtain alive c3 s3 where c3: "run c2 s = (alive, c3, s3)" by (metis prod_cases3)
          show ?thesis
          proof (cases alive)
            case False
            then show ?thesis unfolding step using True ne io c3 by (intro exI [of _ False] exI [of _ c3] exI [of _ s3]) simp
          next
            case alive: True
            then have c3': "run c2 s = (True, c3, s3)" using c3 by simp
            then have "client_ok c3" "length (unread c3) \<le> length (unread c2)"
              using assms(1) c3' pl m(3) unfolding executor_ok_def by blast+
            then show ?thesis unfolding step using True ne io c3 alive less.hyps [of c3 s3] m(2) by simp
          qed
        qed
      qed
    qed
  qed
qed

lemma client_ok_transfer:
  assumes "client_ok c" "placed c'" "c_master c' \<longrightarrow> repl_applied c' \<le> qb_pos c'" "unread c' = unread c"
    "c_reqtype c' = c_reqtype c" "multibulklen c' = multibulklen c" "bulklen c' = bulklen c" "argv c' = argv c" "argv_len c' = argv_len c"
    "stopped c' = stopped c"
  shows "client_ok c'"
  using assms unfolding client_ok_def parser_ok_def within_def by simp

lemma processInputBuffer_total:
  assumes "executor_ok run" "client_ok c"
  shows "\<exists>alive c' s'. processInputBuffer cfg run c s = Some (alive, c', s') \<and> (alive \<longrightarrow> client_ok c')"
proof -
  obtain alive c1 s1 where c1: "input_loop cfg run c s = Some (alive, c1, s1)" "alive \<longrightarrow> client_ok c1" using input_loop_total [OF assms] by blast
  show ?thesis
  proof (cases alive)
    case False
    then show ?thesis using c1(1) by (intro exI [of _ False] exI [of _ c1] exI [of _ s1]) (simp add: processInputBuffer_def)
  next
    case True
    then have ok: "client_ok c1" using c1(2) by simp
    let ?c = "if c_master c1 then
          (if repl_applied c1 \<noteq> 0
           then c1\<lparr>querybuf := drop (repl_applied c1) (querybuf c1), qb_pos := qb_pos c1 - repl_applied c1, repl_applied := 0\<rparr> else c1)
        else (if qb_pos c1 \<noteq> 0 then c1\<lparr>querybuf := drop (qb_pos c1) (querybuf c1), qb_pos := 0\<rparr> else c1)"
    have "client_ok ?c"
      by (rule client_ok_transfer [OF ok]) (use ok in \<open>auto simp: client_ok_def placed_def unread_def stopped_def\<close>)
    moreover have "processInputBuffer cfg run c s = Some (True, ?c, s1)" using c1(1) True by (simp add: processInputBuffer_def)
    ultimately show ?thesis by blast
  qed
qed

lemma query_read_total:
  assumes "executor_ok run" "client_ok c"
  shows "\<exists>alive c' s'. query_read cfg run c s data = Some (alive, c', s') \<and> (alive \<longrightarrow> client_ok c')"
proof -
  let ?c = "c\<lparr>querybuf := querybuf c @ data\<rparr>"
  have p: "placed c" using assms(2) by (simp add: client_ok_def)
  have "parser_ok c \<Longrightarrow> parser_ok ?c" using unread_append [OF p, of data] by (auto simp: parser_ok_def within_def)
  then have ok: "client_ok ?c" using assms(2) by (auto simp: client_ok_def stopped_def placed_def)
  then have "client_ok (?c\<lparr>c_close := True\<rparr>)" by (simp add: client_ok_def stopped_def placed_def)
  then show ?thesis using processInputBuffer_total [OF assms(1) ok] by (auto simp: query_read_def Let_def)
qed

lemma query_reads_total:
  "executor_ok run \<Longrightarrow> client_ok c \<Longrightarrow> \<exists>alive c' s'. query_reads cfg run c s chunks = Some (alive, c', s') \<and> (alive \<longrightarrow> client_ok c')"
proof (induction chunks arbitrary: c s)
  case (Cons d ds)
  obtain alive c1 s1 where c1: "query_read cfg run c s d = Some (alive, c1, s1)" "alive \<longrightarrow> client_ok c1"
    using query_read_total [OF Cons.prems] by blast
  then show ?case using Cons.IH [OF Cons.prems(1), of c1 s1] by (cases alive) auto
next
  case Nil
  then show ?case by (intro exI [of _ True] exI [of _ c] exI [of _ s]) simp
qed

text \<open>C9. Whatever bytes a client or the master sends, and however they are cut into reads, parsing them ends, no assertion
  fails and no argument is stored past the end of \<open>argv\<close>, and the client is left in order: stopped, or between two
  bytes of a request.  This is so for any execution of commands that leaves the client in order and puts nothing into its
  query buffer.\<close>

theorem parser_total:
  assumes "executor_ok run" "client_ok c"
  shows "\<exists>alive c' s'. query_reads cfg run c s chunks = Some (alive, c', s') \<and> (alive \<longrightarrow> client_ok c')"
  using assms by (rule query_reads_total)

lemma new_client_ok: "new_client c \<Longrightarrow> client_ok c"
  by (simp add: new_client_def client_ok_def placed_def parser_ok_def)

lemma log_executor_ok: "executor_ok log_run"
proof -
  have "client_ok (resetClient c)" if "placed c" "c_master c \<longrightarrow> repl_applied c \<le> qb_pos c" for c
    using reset_client_ok [OF moves_refl [OF that(1)] that(2)] .
  then show ?thesis by (auto simp: executor_ok_def log_run_def)
qed

theorem parser_total_witness:
  "\<exists>alive c' s'. query_reads a_config log_run a_client [] [[42, 50, 13, 10, 36], [45, 13, 10], [34]] = Some (alive, c', s')"
  using parser_total [OF log_executor_ok new_client_ok [OF a_client_new]] by blast

end
