(* ===== verification/Listpack_Safe.thy ===== *)
theory Listpack_Safe
  imports Listpack_Seq "HOL-Library.Monad_Syntax"
begin

text \<open>
  The memory reads of the integrity check of \<open>listpack.c\<close>, which runs on payloads nobody has
  checked yet.  The definitions here are those of \<open>Listpack_Encoding\<close> and \<open>Listpack\<close> once more,
  with every read of a byte made through \<open>byte_at\<close>: it has no value for an address below or
  beyond the payload, and a function that makes such a read has none either.
\<close>

section \<open>Checked reads\<close>

definition byte_at :: "bytes \<Rightarrow> nat \<Rightarrow> u8 option" where
  "byte_at lp i = (if i < length lp then Some (lp ! i) else None)"

definition lpGetTotalBytes_in :: "bytes \<Rightarrow> nat option" where
  "lpGetTotalBytes_in lp =
     do { b0 \<leftarrow> byte_at lp 0; b1 \<leftarrow> byte_at lp 1; b2 \<leftarrow> byte_at lp 2; b3 \<leftarrow> byte_at lp 3;
          Some (unat b0 OR push_bit 8 (unat b1) OR push_bit 16 (unat b2) OR push_bit 24 (unat b3)) }"

definition lpGetNumElements_in :: "bytes \<Rightarrow> nat option" where
  "lpGetNumElements_in lp =
     do { b4 \<leftarrow> byte_at lp 4; b5 \<leftarrow> byte_at lp 5; Some (unat b4 OR push_bit 8 (unat b5)) }"

definition lpCurrentEncodedSizeBytes_in :: "bytes \<Rightarrow> nat \<Rightarrow> nat option" where
  "lpCurrentEncodedSizeBytes_in lp p =
     do { b \<leftarrow> byte_at lp p;
          if LP_ENCODING_IS_7BIT_UINT b then Some 1
          else if LP_ENCODING_IS_6BIT_STR b then Some 1
          else if LP_ENCODING_IS_13BIT_INT b then Some 1
          else if LP_ENCODING_IS_16BIT_INT b then Some 1
          else if LP_ENCODING_IS_24BIT_INT b then Some 1
          else if LP_ENCODING_IS_32BIT_INT b then Some 1
          else if LP_ENCODING_IS_64BIT_INT b then Some 1
          else if LP_ENCODING_IS_12BIT_STR b then Some 2
          else if LP_ENCODING_IS_32BIT_STR b then Some 5
          else if b = LP_EOF then Some 1
          else Some 0 }"

definition lpCurrentEncodedSizeUnsafe_in :: "bytes \<Rightarrow> nat \<Rightarrow> nat option" where
  "lpCurrentEncodedSizeUnsafe_in lp p =
     do { b \<leftarrow> byte_at lp p;
          if LP_ENCODING_IS_7BIT_UINT b then Some 1
          else if LP_ENCODING_IS_6BIT_STR b then Some (1 + unat (b AND 0x3F))
          else if LP_ENCODING_IS_13BIT_INT b then Some 2
          else if LP_ENCODING_IS_16BIT_INT b then Some 3
          else if LP_ENCODING_IS_24BIT_INT b then Some 4
          else if LP_ENCODING_IS_32BIT_INT b then Some 5
          else if LP_ENCODING_IS_64BIT_INT b then Some 9
          else if LP_ENCODING_IS_12BIT_STR b then
            do { b1 \<leftarrow> byte_at lp (p + 1);
                 Some (2 + (push_bit 8 (unat (b AND 0xF)) OR unat b1)) }
          else if LP_ENCODING_IS_32BIT_STR b then
            do { b1 \<leftarrow> byte_at lp (p + 1); b2 \<leftarrow> byte_at lp (p + 2);
                 b3 \<leftarrow> byte_at lp (p + 3); b4 \<leftarrow> byte_at lp (p + 4);
                 Some ((5 + (unat b1 OR push_bit 8 (unat b2) OR push_bit 16 (unat b3)
                             OR push_bit 24 (unat b4))) mod 2 ^ 32) }
          else if b = LP_EOF then Some 1
          else Some 0 }"

text \<open>The walk towards lower addresses has no value once it goes below the payload.\<close>

function lpDecodeBacklen_loop_in :: "bytes \<Rightarrow> nat \<Rightarrow> nat \<Rightarrow> nat \<Rightarrow> nat option" where
  "lpDecodeBacklen_loop_in lp p val shift =
     do { b \<leftarrow> byte_at lp p;
          (let val = val OR push_bit shift (unat (b AND 127)) in
           if b AND 128 = 0 then Some val
           else let shift = shift + 7 in
             if shift > 28 then Some ULLONG_MAX
             else if p = 0 then None
             else lpDecodeBacklen_loop_in lp (p - 1) val shift) }"
  by pat_completeness auto
termination by (relation "measure (\<lambda>(lp, p, val, shift). 35 - shift)") auto

declare lpDecodeBacklen_loop_in.simps [simp del]

definition lpDecodeBacklen_in :: "bytes \<Rightarrow> nat \<Rightarrow> nat option" where
  "lpDecodeBacklen_in lp p = lpDecodeBacklen_loop_in lp p 0 0"

section \<open>The check\<close>

text \<open>The outer \<open>None\<close> is a read outside the payload, the middle one an invalid entry, the inner
  one the cursor at the end.\<close>

definition lpValidateNext_in :: "bytes \<Rightarrow> nat option \<Rightarrow> nat \<Rightarrow> nat option option option" where
  "lpValidateNext_in lp pp lpbytes =
     (case pp of
        None \<Rightarrow> Some None
      | Some p \<Rightarrow>
          if OUT_OF_RANGE lpbytes p then Some None
          else do {
            b \<leftarrow> byte_at lp p;
            if b = LP_EOF then Some (Some None)
            else do {
              lenbytes \<leftarrow> lpCurrentEncodedSizeBytes_in lp p;
              if lenbytes = 0 then Some None
              else if OUT_OF_RANGE lpbytes (p + lenbytes) then Some None
              else do {
                entrylen \<leftarrow> lpCurrentEncodedSizeUnsafe_in lp p;
                let encodedBacklen = lpBacklenSize entrylen;
                let entrylen = entrylen + encodedBacklen;
                if OUT_OF_RANGE lpbytes (p + entrylen) then Some None
                else do {
                  let p = p + entrylen;
                  prevlen \<leftarrow> lpDecodeBacklen_in lp (p - 1);
                  if (prevlen + encodedBacklen) mod 2 ^ 64 \<noteq> entrylen then Some None
                  else Some (Some (Some p)) } } } })"

text \<open>The callback may fail as well: what it may assume of the entry it gets is stated below.\<close>

type_synonym 'u entry_cb_in = "'u \<Rightarrow> nat \<Rightarrow> nat \<Rightarrow> (bool \<times> 'u) option"

lemma lpBacklenSize_pos: "0 < lpBacklenSize n"
  by (simp add: lpBacklenSize_def)

lemma lpValidateNext_in_progress:
  "lpValidateNext_in lp (Some p) n = Some (Some (Some q)) \<Longrightarrow> p < q \<and> q < n"
  using lpBacklenSize_pos
  by (auto simp: lpValidateNext_in_def OUT_OF_RANGE_def Let_def
      split: if_splits Option.bind_splits)

function lpValidate_loop_in ::
  "bytes \<Rightarrow> nat \<Rightarrow> 'u entry_cb_in option \<Rightarrow> nat \<Rightarrow> nat option \<Rightarrow> nat \<Rightarrow> 'u
     \<Rightarrow> ((nat option \<times> nat) option \<times> 'u) option" where
  "lpValidate_loop_in lp bytes entry_cb numele None count u = Some (Some (None, count), u)"
| "lpValidate_loop_in lp bytes entry_cb numele (Some p) count u =
     (case byte_at lp p of
        None \<Rightarrow> None
      | Some b \<Rightarrow>
          if b = LP_EOF then Some (Some (Some p, count), u)
          else case lpValidateNext_in lp (Some p) bytes of
              None \<Rightarrow> None
            | Some None \<Rightarrow> Some (None, u)
            | Some (Some p') \<Rightarrow>
                (case (case entry_cb of None \<Rightarrow> Some (True, u) | Some cb \<Rightarrow> cb u p numele) of
                   None \<Rightarrow> None
                 | Some (ok, u) \<Rightarrow>
                     if \<not> ok then Some (None, u)
                     else lpValidate_loop_in lp bytes entry_cb numele p' ((count + 1) mod 2 ^ 32) u))"
  by pat_completeness auto
termination
  by (relation "measure (\<lambda>(lp, n, cb, numele, p, count, u).
        case p of None \<Rightarrow> 0 | Some p \<Rightarrow> Suc (n - p))")
    (auto split: option.split dest!: lpValidateNext_in_progress)

declare lpValidate_loop_in.simps [simp del]

definition lpValidateIntegrity_in ::
  "bytes \<Rightarrow> nat \<Rightarrow> bool \<Rightarrow> 'u entry_cb_in option \<Rightarrow> 'u \<Rightarrow> (bool \<times> 'u) option" where
  "lpValidateIntegrity_in lp sz deep entry_cb u =
     (if sz < LP_HDR_SIZE + 1 then Some (False, u)
      else do {
        bytes \<leftarrow> lpGetTotalBytes_in lp;
        if bytes \<noteq> sz then Some (False, u)
        else do {
          lastb \<leftarrow> byte_at lp (sz - 1);
          if lastb \<noteq> LP_EOF then Some (False, u)
          else if \<not> deep then Some (True, u)
          else do {
            numele \<leftarrow> lpGetNumElements_in lp;
            r \<leftarrow> lpValidate_loop_in lp bytes entry_cb numele (Some LP_HDR_SIZE) 0 u;
            (case r of
               (None, u) \<Rightarrow> Some (False, u)
             | (Some (p, count), u) \<Rightarrow>
                 if p \<noteq> Some (sz - 1) then Some (False, u)
                 else if numele \<noteq> LP_HDR_NUMELE_UNKNOWN \<and> numele \<noteq> count then Some (False, u)
                 else Some (True, u)) } } })"

section \<open>No read leaves the payload\<close>

lemma byte_at_Some [simp]: "i < length lp \<Longrightarrow> byte_at lp i = Some (lp ! i)"
  by (simp add: byte_at_def)

lemma header_in:
  assumes "7 \<le> length lp"
  shows "lpGetTotalBytes_in lp = Some (lpGetTotalBytes lp)"
    and "lpGetNumElements_in lp = Some (lpGetNumElements lp)"
proof -
  have l: "0 < length lp" "1 < length lp" "2 < length lp" "3 < length lp" "4 < length lp" "5 < length lp"
    using assms by linarith+
  show "lpGetTotalBytes_in lp = Some (lpGetTotalBytes lp)"
    using l by (simp add: lpGetTotalBytes_in_def lpGetTotalBytes_def del: length_greater_0_conv)
  show "lpGetNumElements_in lp = Some (lpGetNumElements lp)"
    using l by (simp add: lpGetNumElements_in_def lpGetNumElements_def)
qed

lemma size_bytes_in:
  "p < length lp \<Longrightarrow> lpCurrentEncodedSizeBytes_in lp p = Some (lpCurrentEncodedSizeBytes lp p)"
  by (simp add: lpCurrentEncodedSizeBytes_in_def lpCurrentEncodedSizeBytes_def Let_def)

text \<open>The bytes of the length field are inside when the second range test has passed.\<close>

lemma size_unsafe_in:
  assumes "p + lpCurrentEncodedSizeBytes lp p \<le> length lp" "p < length lp"
  shows "lpCurrentEncodedSizeUnsafe_in lp p = Some (lpCurrentEncodedSizeUnsafe lp p)"
proof -
  consider "LP_ENCODING_IS_12BIT_STR (lp ! p)" | "LP_ENCODING_IS_32BIT_STR (lp ! p)"
    | "\<not> LP_ENCODING_IS_12BIT_STR (lp ! p)" "\<not> LP_ENCODING_IS_32BIT_STR (lp ! p)" by blast
  then show ?thesis
    using assms
    by cases (auto simp: lpCurrentEncodedSizeUnsafe_in_def lpCurrentEncodedSizeUnsafe_def
        lpCurrentEncodedSizeBytes_def Let_def LP_ENCODING_6BIT_STR_LEN_def
        LP_ENCODING_12BIT_STR_LEN_def LP_ENCODING_32BIT_STR_LEN_def)
qed

text \<open>At most five bytes are read backwards: from an entry that starts behind the header the walk
  stays in the payload.\<close>

lemma decode_backlen_loop_in:
  assumes "p < length lp" "28 \<le> 7 * p + shift"
  shows "lpDecodeBacklen_loop_in lp p val shift = Some (lpDecodeBacklen_loop lp p val shift)"
  using assms
proof (induction lp p val shift rule: lpDecodeBacklen_loop_in.induct)
  case (1 lp p val shift)
  have "lpDecodeBacklen_loop_in lp (p - 1) v (shift + 7) = Some (lpDecodeBacklen_loop lp (p - 1) v (shift + 7))"
    if "v = val OR push_bit shift (unat (lp ! p AND 127))" "\<not> lp ! p AND 128 = 0" "\<not> shift + 7 > 28" "p \<noteq> 0" for v
    using 1(1) [OF byte_at_Some [OF 1(2)] that(1,2) refl that(3,4)] 1(2,3) that(3,4) by simp
  moreover have "\<not> shift + 7 > 28 \<Longrightarrow> p \<noteq> 0" using 1(3) by auto
  ultimately show ?case
    unfolding lpDecodeBacklen_loop.simps [of lp p] lpDecodeBacklen_loop_in.simps [of lp p]
      byte_at_Some [OF 1(2)] Let_def
    by (auto simp: 1(2) simp del: byte_at_Some)
qed

lemma lpValidateNext_in_eq:
  "lpValidateNext_in lp pp (length lp) = Some (lpValidateNext lp pp (length lp))"
proof (cases pp)
  case (Some p)
  show ?thesis
  proof (cases "OUT_OF_RANGE (length lp) p")
    case True
    then show ?thesis using Some by (simp add: lpValidateNext_in_def lpValidateNext_def)
  next
    case False
    then have p: "p < length lp" "6 \<le> p" by (auto simp: OUT_OF_RANGE_def LP_HDR_SIZE_def)
    have u: "lpCurrentEncodedSizeUnsafe_in lp p = Some (lpCurrentEncodedSizeUnsafe lp p)"
      if "\<not> OUT_OF_RANGE (length lp) (p + lpCurrentEncodedSizeBytes lp p)"
      using that p by (intro size_unsafe_in) (auto simp: OUT_OF_RANGE_def)
    have d: "lpDecodeBacklen_in lp (q - 1) = Some (lpDecodeBacklen lp (q - 1))"
      if "\<not> OUT_OF_RANGE (length lp) q" for q
      unfolding lpDecodeBacklen_def lpDecodeBacklen_in_def using that
      by (intro decode_backlen_loop_in) (auto simp: OUT_OF_RANGE_def LP_HDR_SIZE_def)
    show ?thesis
      by (simp add: Some lpValidateNext_in_def lpValidateNext_def p size_bytes_in u d Let_def
          del: One_nat_def)
  qed
qed (simp add: lpValidateNext_in_def lpValidateNext_def)

text \<open>An entry that lies inside the payload with its content and its backward length, so that a
  callback that gets it may read all of it.\<close>

definition entry_inside :: "bytes \<Rightarrow> nat \<Rightarrow> bool" where
  "entry_inside lp p \<longleftrightarrow>
     LP_HDR_SIZE \<le> p \<and> lpSkip lp p < length lp
     \<and> (case lpGet lp p of LpString off n \<Rightarrow> off + n < lpSkip lp p | LpInteger v \<Rightarrow> True)"

text \<open>A callback that reads the entry it gets, and so has no value for any other place.\<close>

definition reading_cb ::
  "bytes \<Rightarrow> ('u \<Rightarrow> nat \<Rightarrow> nat \<Rightarrow> bool \<times> 'u) \<Rightarrow> 'u entry_cb_in" where
  "reading_cb lp cb u p numele = (if entry_inside lp p then Some (cb u p numele) else None)"

text \<open>The size of an entry is a \<open>uint32_t\<close>, so a string of almost \<open>2 ^ 32\<close> bytes has a small one.
  Such an entry is refused: its backward length would have to be read from the encoding byte or
  the length bytes, all but one of which are \<open>0xFF\<close>.\<close>

lemma decode_backlen_ge:
  assumes "val < 2 ^ shift" "shift \<le> 28"
  shows "lpDecodeBacklen_loop lp p val shift = ULLONG_MAX
     \<or> val + 2 ^ shift * (unat (lp ! p) mod 128) \<le> lpDecodeBacklen_loop lp p val shift
        \<and> lpDecodeBacklen_loop lp p val shift < 2 ^ 35"
  using assms
proof (induction "28 - shift" arbitrary: shift p val rule: less_induct)
  case less
  let ?v = "val + 2 ^ shift * (unat (lp ! p) mod 128)"
  have v: "?v < 2 ^ (shift + 7)"
  proof -
    have "?v < 2 ^ shift * Suc (unat (lp ! p) mod 128)" using less(2) by simp
    also have "\<dots> \<le> 2 ^ shift * 128" by (intro mult_le_mono2) (simp add: Suc_le_eq)
    finally show ?thesis by (simp add: power_add)
  qed
  have v35: "?v < 2 ^ 35"
  proof -
    have "(2::nat) ^ (shift + 7) \<le> 2 ^ 35" using less(3) by (intro power_increasing) simp_all
    then show ?thesis using v by linarith
  qed
  show ?case
  proof (cases "unat (lp ! p) < 128")
    case True
    then show ?thesis using decode_step(1) [OF less(2) True] v35 by simp
  next
    case False
    show ?thesis
    proof (cases "shift + 7 \<le> 28")
      case True
      have "lpDecodeBacklen_loop lp (p - 1) ?v (shift + 7) = ULLONG_MAX
          \<or> ?v + 2 ^ (shift + 7) * (unat (lp ! (p - 1)) mod 128) \<le> lpDecodeBacklen_loop lp (p - 1) ?v (shift + 7)
            \<and> lpDecodeBacklen_loop lp (p - 1) ?v (shift + 7) < 2 ^ 35"
        using True v by (intro less(1)) simp_all
      then show ?thesis
        unfolding decode_step(2) [OF less(2) False True] using add_leD1 by blast
    next
      case s: False
      then show ?thesis
        using False by (subst lpDecodeBacklen_loop.simps) (simp add: Let_def backlen_bit)
    qed
  qed
qed

lemma four_bytes_ones:
  fixes a b c d :: nat
  assumes "4294967291 \<le> a + 256 * b + 65536 * c + 16777216 * d" "a < 256" "b < 256" "c < 256" "d < 256"
  shows "251 \<le> a" "251 \<le> b" "251 \<le> c" "251 \<le> d"
  using assms by linarith+

lemma length_field_ones:
  assumes "2 ^ 32 \<le> 5 + LP_ENCODING_32BIT_STR_LEN lp p" "0 < k" "k < 5"
  shows "251 \<le> unat (lp ! (p + k))"
proof -
  have L: "LP_ENCODING_32BIT_STR_LEN lp p
      = unat (lp ! (p + 1)) + 256 * unat (lp ! (p + 2)) + 65536 * unat (lp ! (p + 3))
        + 16777216 * unat (lp ! (p + 4))"
    by (simp only: LP_ENCODING_32BIT_STR_LEN_def or_bytes4) simp
  have u: "unat (lp ! i) < 256" for i using unsigned_less [of "lp ! i"] by simp
  have "4294967291 \<le> unat (lp ! (p + 1)) + 256 * unat (lp ! (p + 2)) + 65536 * unat (lp ! (p + 3))
        + 16777216 * unat (lp ! (p + 4))"
    using assms(1) unfolding L by simp
  note ones = four_bytes_ones [OF this u u u u]
  have "k = 1 \<or> k = 2 \<or> k = 3 \<or> k = 4" using assms(2,3) by linarith
  then show ?thesis using ones by metis
qed

lemma high_byte_mod:
  assumes "251 \<le> unat (b::u8)"
  shows "112 \<le> unat b mod 128"
proof -
  have "unat b < 256" using unsigned_less [of b] by simp
  then have "unat b div 128 = 1" using assms by (intro div_nat_eqI) simp_all
  then show ?thesis using assms minus_div_mult_eq_mod [of "unat b" 128] by simp
qed

lemma valid_entry_not_wrapped:
  assumes "lpValidateNext lp (Some p) n = Some p'" "lp ! p \<noteq> LP_EOF" "LP_ENCODING_IS_32BIT_STR (lp ! p)"
  shows "5 + LP_ENCODING_32BIT_STR_LEN lp p < 2 ^ 32"
proof (rule ccontr)
  assume big: "\<not> 5 + LP_ENCODING_32BIT_STR_LEN lp p < 2 ^ 32"
  have L: "LP_ENCODING_32BIT_STR_LEN lp p < 2 ^ 32"
    by (simp only: LP_ENCODING_32BIT_STR_LEN_def or_bytes4)
      (rule order_less_le_trans [OF nat_of_le_less], simp)
  obtain k where k_def: "k = (5 + LP_ENCODING_32BIT_STR_LEN lp p) mod 2 ^ 32" by blast
  have k: "k < 5" unfolding k_def using big L by (subst mod_if) (simp add: mod_less)
  have b0: "lp ! p = 0xF0"
    using assms(3) and.right_neutral [of "lp ! p"] by (simp add: LP_ENCODING_IS_32BIT_STR_def)
  have s: "lpCurrentEncodedSizeUnsafe lp p = k"
    by (simp add: lpCurrentEncodedSizeUnsafe_def Let_def b0 lp_enc_tests k_def)
  have bl: "lpBacklenSize k = 1" using k by (simp add: lpBacklenSize_def)
  have byte: "112 \<le> unat (lp ! (p + k)) mod 128"
  proof (cases "k = 0")
    case True
    then show ?thesis by (simp add: b0)
  next
    case False
    then show ?thesis using big k by (intro high_byte_mod length_field_ones) linarith+
  qed
  have d: "(lpDecodeBacklen lp (p + k) + 1) mod 2 ^ 64 \<noteq> k + 1"
    using decode_backlen_ge [of 0 0 lp "p + k"] byte k
    by (auto simp: lpDecodeBacklen_def ULLONG_MAX_def)
  show False
    using assms(1,2) d by (simp add: lpValidateNext_def Let_def s bl split: if_splits)
qed

lemma valid_entry_inside:
  assumes "lpValidateNext lp (Some p) (length lp) = Some p'" "lp ! p \<noteq> LP_EOF"
  shows "entry_inside lp p"
proof -
  have r: "LP_HDR_SIZE \<le> p" "lpSkip lp p < length lp"
    using assms by (auto simp: lpValidateNext_def lpSkip_def OUT_OF_RANGE_def Let_def split: if_splits)
  have "off + n < lpSkip lp p" if "lpGet lp p = LpString off n" for off n
  proof (cases "LP_ENCODING_IS_32BIT_STR (lp ! p)")
    case True
    note w = valid_entry_not_wrapped [OF assms True]
    have b0: "lp ! p = 0xF0"
      using True and.right_neutral [of "lp ! p"] by (simp add: LP_ENCODING_IS_32BIT_STR_def)
    then show ?thesis
      using that w lpBacklenSize_pos [of "5 + n"]
      by (auto simp: lpGet_def lpGetWithSize_def lpSkip_def lpCurrentEncodedSizeUnsafe_def Let_def
          lp_enc_tests)
  next
    case False
    then show ?thesis
      using that lpBacklenSize_pos
      by (auto simp: lpGet_def lpGetWithSize_def lpSkip_def lpCurrentEncodedSizeUnsafe_def Let_def
          split: if_splits)
  qed
  then show ?thesis using r by (simp add: entry_inside_def split: lp_value.split)
qed

lemma lpValidate_loop_in_eq:
  assumes "case p of None \<Rightarrow> True | Some q \<Rightarrow> q < length lp"
  shows "lpValidate_loop_in lp (length lp) (map_option (reading_cb lp) cb) numele p count u
    = Some (lpValidate_loop lp (length lp) cb numele p count u)"
  using assms
proof (induction lp "length lp" cb numele p count u rule: lpValidate_loop.induct)
  case (1 lp cb numele count u)
  then show ?case by (simp add: lpValidate_loop.simps lpValidate_loop_in.simps)
next
  case (2 lp cb numele p count u)
  have p: "p < length lp" using 2(2) by simp
  show ?case
  proof (cases "lp ! p = LP_EOF")
    case True
    then show ?thesis using p by (simp add: lpValidate_loop.simps lpValidate_loop_in.simps)
  next
    case b: False
    show ?thesis
    proof (cases "lpValidateNext lp (Some p) (length lp)")
      case None
      then show ?thesis
        using p b by (simp add: lpValidate_loop.simps lpValidate_loop_in.simps lpValidateNext_in_eq)
    next
      case (Some p')
      have q: "case p' of None \<Rightarrow> True | Some q \<Rightarrow> q < length lp"
        using lpValidateNext_progress [of lp p "length lp"] Some by (cases p') auto
      have i: "entry_inside lp p" using valid_entry_inside [OF Some b] .
      obtain ok u' where cb: "(case cb of None \<Rightarrow> (True, u) | Some cb \<Rightarrow> cb u p numele) = (ok, u')"
        by fastforce
      have cb': "(case map_option (reading_cb lp) cb of None \<Rightarrow> Some (True, u) | Some cb \<Rightarrow> cb u p numele)
          = Some (ok, u')"
        using cb i by (cases cb) (simp_all add: reading_cb_def)
      have IH: "ok \<Longrightarrow> lpValidate_loop_in lp (length lp) (map_option (reading_cb lp) cb) numele p'
            ((count + 1) mod 2 ^ 32) u'
          = Some (lpValidate_loop lp (length lp) cb numele p' ((count + 1) mod 2 ^ 32) u')"
        using 2(1) [OF b Some cb [symmetric]] q by simp
      show ?thesis
        using p b Some cb cb' IH
        by (simp add: lpValidate_loop.simps(2) [of _ _ _ _ p] lpValidate_loop_in.simps(2) [of _ _ _ _ p]
            lpValidateNext_in_eq)
    qed
  qed
qed

text \<open>C17. Memory safety of the integrity check: on every payload, however corrupt and however
  short, no read of the header, of an encoding byte, of a length field or of a backward length
  leaves the payload, the callback only gets entries that lie inside it, and the verdict is the
  one of the check whose reads are not tracked.\<close>

theorem lp_validate_in_bounds:
  "lpValidateIntegrity_in lp (length lp) deep (map_option (reading_cb lp) cb) u
     = Some (lpValidateIntegrity lp (length lp) deep cb u)"
proof (cases "length lp < LP_HDR_SIZE + 1")
  case True
  then show ?thesis by (simp add: lpValidateIntegrity_in_def lpValidateIntegrity_def)
next
  case False
  then have l: "7 \<le> length lp" by (simp add: LP_HDR_SIZE_def)
  have loop: "lpValidate_loop_in lp (length lp) (map_option (reading_cb lp) cb) n (Some LP_HDR_SIZE) 0 u
      = Some (lpValidate_loop lp (length lp) cb n (Some LP_HDR_SIZE) 0 u)" for n
    using l by (intro lpValidate_loop_in_eq) (simp add: LP_HDR_SIZE_def)
  have e: "byte_at lp (length lp - 1) = Some (lp ! (length lp - 1))" using l by simp
  show ?thesis
    unfolding lpValidateIntegrity_in_def lpValidateIntegrity_def Let_def
    using False by (simp add: header_in [OF l] e loop split: prod.split option.split)
qed

end
