(* ===== verification/Propagate.thy ===== *)
theory Propagate
  imports Resp_Props
begin

text \<open>
  How executed commands are propagated: the append only file (\<open>aof.c\<close>) and the replication stream
  (\<open>replication.c\<close>) each write them as requests, after a \<open>SELECT\<close> when the database changes.  The two
  have their own writers, with their own buffers; both streams must be read back by the request parser
  as the same commands.

  The replication stream is kept in a list of blocks, each with the bytes used of it; of the references to
  blocks the model has only whether the backlog refers to one (\<open>r_backlog_ref\<close>).  Which blocks the replicas
  refer to, the index of the backlog and the freeing of old blocks are not modelled.  The size of
  a block is what the allocator gives, \<open>usable\<close>, a parameter.  The result \<open>None\<close> is a failed assertion.
\<close>

section \<open>The append only file\<close>

datatype aof_status = AOF_OFF | AOF_ON | AOF_WAIT_REWRITE

record aof =
  aof_dbnum :: int
  aof_timestamp_enabled :: bool
  aof_cur_timestamp :: int
  aof_unixtime :: int
  aof_selected_db :: int
  aof_state :: aof_status
  aof_child :: bool
  aof_buf :: bytes

definition AOF_ANNOTATION_LINE_MAX_LEN :: nat where "AOF_ANNOTATION_LINE_MAX_LEN = 1024"

text \<open>\<open>now\<close> is what \<open>time(NULL)\<close> returns; \<open>%I\<close> prints a 64 bit integer.  The inner \<open>None\<close> is no
  annotation.\<close>

definition genAofTimestampAnnotationIfNeeded :: "bool \<Rightarrow> int \<Rightarrow> aof \<Rightarrow> (aof \<times> bytes option) option" where
  "genAofTimestampAnnotationIfNeeded force now a =
     (if force \<or> aof_cur_timestamp a < aof_unixtime a then
        let a = a\<lparr>aof_cur_timestamp := (if force then now else aof_unixtime a)\<rparr>;
            ts = [35, 84, 83, 58] @ dec_int (aof_cur_timestamp a) @ [13, 10]
        in if length ts \<le> AOF_ANNOTATION_LINE_MAX_LEN then Some (a, Some ts) else None
      else Some (a, None))"

text \<open>The \<open>SELECT\<close> request as the formats of \<open>sdscatprintf\<close> give it from the text of the number.\<close>

definition select_format :: "int \<Rightarrow> bytes \<Rightarrow> bytes" where
  "select_format len text =
     [42, 50, 13, 10, 36, 54, 13, 10, 83, 69, 76, 69, 67, 84, 13, 10, 36] @ dec_int len @ [13, 10] @ text @ [13, 10]"

definition feedAppendOnlyFile :: "int \<Rightarrow> robj list \<Rightarrow> aof \<Rightarrow> aof option" where
  "feedAppendOnlyFile dictid args a =
     (if \<not> (dictid = -1 \<or> dictid \<ge> 0 \<and> dictid < aof_dbnum a) then None
      else do {
        (a, buf) \<leftarrow>
          (if aof_timestamp_enabled a then do {
             (a, ts) \<leftarrow> genAofTimestampAnnotationIfNeeded False 0 a;
             Some (a, case ts of Some ts \<Rightarrow> ts | None \<Rightarrow> []) }
           else Some (a, []));
        let (a, buf) =
          (if dictid \<noteq> -1 \<and> dictid \<noteq> aof_selected_db a then
             let seldb = dec_int dictid
             in (a\<lparr>aof_selected_db := dictid\<rparr>, buf @ select_format (int (length seldb)) seldb)
           else (a, buf));
        let buf = catAppendOnlyGenericCommand buf args;
        Some (if aof_state a = AOF_ON \<or> (aof_state a = AOF_WAIT_REWRITE \<and> aof_child a)
              then a\<lparr>aof_buf := aof_buf a @ buf\<rparr> else a) })"

section \<open>The replication stream\<close>

record repl_block =
  b_size :: nat
  b_bytes :: bytes
  b_offset :: int
  b_id :: int

record repl =
  r_masterhost :: bool
  r_backlog :: bool
  r_backlog_ref :: bool
  r_slaves :: nat
  r_dbnum :: int
  r_slaveseldb :: int
  r_backlog_size :: nat
  r_histlen :: int
  r_offset :: int
  r_blocks :: "repl_block list"
  r_block_id :: int

definition PROTO_REPLY_CHUNK_BYTES :: nat where "PROTO_REPLY_CHUNK_BYTES = 16 * 1024"
definition sizeof_replBufBlock :: nat where "sizeof_replBufBlock = 40"
definition PROTO_SHARED_SELECT_CMDS :: int where "PROTO_SHARED_SELECT_CMDS = 10"

text \<open>As many bytes as fit are put into the last block; where they start and the rest are returned.\<close>

definition feed_tail :: "bytes \<Rightarrow> repl \<Rightarrow> nat option \<times> bytes \<times> repl" where
  "feed_tail s r =
     (if r_blocks r \<noteq> [] \<and> b_size (last (r_blocks r)) > length (b_bytes (last (r_blocks r))) then
        let tail = last (r_blocks r);
            avail = b_size tail - length (b_bytes tail);
            copied = (if avail \<ge> length s then length s else avail)
        in (Some (length (b_bytes tail)), drop copied s,
            r\<lparr>r_blocks := butlast (r_blocks r) @ [tail\<lparr>b_bytes := b_bytes tail @ take copied s\<rparr>],
              r_offset := r_offset r + int copied, r_histlen := r_histlen r + int copied\<rparr>)
      else (None, s, r))"

definition feed_new_block :: "(nat \<Rightarrow> nat) \<Rightarrow> bytes \<Rightarrow> repl \<Rightarrow> bytes \<times> repl" where
  "feed_new_block usable s r =
     (let limit = max (r_backlog_size r div 16) PROTO_REPLY_CHUNK_BYTES;
          size = min (max (length s) PROTO_REPLY_CHUNK_BYTES) limit;
          tail_size = usable (size + sizeof_replBufBlock) - sizeof_replBufBlock;
          copied = (if tail_size \<ge> length s then length s else tail_size);
          tail = \<lparr>b_size = tail_size, b_bytes = take copied s, b_offset = r_offset r + 1, b_id = r_block_id r\<rparr>
      in (drop copied s,
          r\<lparr>r_blocks := r_blocks r @ [tail], r_block_id := r_block_id r + 1,
            r_offset := r_offset r + int copied, r_histlen := r_histlen r + int copied\<rparr>))"

partial_function (option) feed_blocks :: "(nat \<Rightarrow> nat) \<Rightarrow> bytes \<Rightarrow> repl \<Rightarrow> repl option" where
  "feed_blocks usable s r =
     (if s = [] then Some r
      else
        let (start, s, r) = feed_tail s r;
            add_new_block = (s \<noteq> []);
            (s, r) = (if add_new_block then feed_new_block usable s r else (s, r));
            start_pos = (case start of Some pos \<Rightarrow> pos | None \<Rightarrow> 0)
        in if r_backlog_ref r then feed_blocks usable s r
           else if add_new_block \<and> start_pos = 0 then feed_blocks usable s (r\<lparr>r_backlog_ref := True\<rparr>)
           else None)"

definition feedReplicationBuffer :: "(nat \<Rightarrow> nat) \<Rightarrow> bytes \<Rightarrow> repl \<Rightarrow> repl option" where
  "feedReplicationBuffer usable s r = (if \<not> r_backlog r then Some r else feed_blocks usable s r)"

definition feedReplicationBufferWithObject :: "(nat \<Rightarrow> nat) \<Rightarrow> robj \<Rightarrow> repl \<Rightarrow> repl option" where
  "feedReplicationBufferWithObject usable ob r =
     (let p = (case ob of
          ObjInt v \<Rightarrow> let (llstr, len) = ll2string (replicate LONG_STR_SIZE fresh_byte) LONG_STR_SIZE v in take len llstr
        | ObjStr s \<Rightarrow> s)
      in feedReplicationBuffer usable p r)"

definition stringObjectLen :: "robj \<Rightarrow> nat" where
  "stringObjectLen ob = (case ob of ObjStr s \<Rightarrow> length s | ObjInt v \<Rightarrow> sdigits10 v)"

text \<open>The buffer \<open>aux\<close> with a mark, a number and the line end, and the length of the number.\<close>

definition aux_number :: "u8 \<Rightarrow> int \<Rightarrow> bytes \<times> nat" where
  "aux_number mark v =
     (let (digits, len) = ll2string (replicate (LONG_STR_SIZE + 2) fresh_byte) (LONG_STR_SIZE + 2) v;
          aux = mark # digits
      in (aux[len + 1 := 13, len + 2 := 10], len))"

fun feed_args :: "(nat \<Rightarrow> nat) \<Rightarrow> robj list \<Rightarrow> repl \<Rightarrow> repl option" where
  "feed_args usable [] r = Some r"
| "feed_args usable (ob # obs) r =
     (let objlen = stringObjectLen ob; (aux, len) = aux_number 36 (int objlen)
      in do {
        r \<leftarrow> feedReplicationBuffer usable (take (len + 3) aux) r;
        r \<leftarrow> feedReplicationBufferWithObject usable ob r;
        r \<leftarrow> feedReplicationBuffer usable (slice (len + 1) 2 aux) r;
        feed_args usable obs r })"

text \<open>The shared \<open>SELECT\<close> requests, made with a buffer of 64 bytes, and the one made for other databases;
  \<open>%s\<close> prints up to the NUL.\<close>

definition select_object :: "nat \<Rightarrow> int \<Rightarrow> robj" where
  "select_object bufsize dictid =
     (let (llstr, dictid_len) = ll2string (replicate bufsize fresh_byte) bufsize dictid
      in ObjStr (select_format (int dictid_len) (takeWhile (\<lambda>b. b \<noteq> 0) llstr)))"

definition shared_select :: "int \<Rightarrow> robj" where
  "shared_select j = select_object 64 j"

definition replicationFeedSlaves :: "(nat \<Rightarrow> nat) \<Rightarrow> int \<Rightarrow> robj list \<Rightarrow> repl \<Rightarrow> repl option" where
  "replicationFeedSlaves usable dictid args r =
     (if \<not> (dictid = -1 \<or> dictid \<ge> 0 \<and> dictid < r_dbnum r) then None
      else if r_masterhost r then Some r
      else if \<not> r_backlog r \<and> r_slaves r = 0 then Some (r\<lparr>r_offset := r_offset r + 1\<rparr>)
      else if r_slaves r \<noteq> 0 \<and> \<not> r_backlog r then None
      else do {
        r \<leftarrow> (if dictid \<noteq> -1 \<and> r_slaveseldb r \<noteq> dictid then do {
                let selectcmd = (if dictid \<ge> 0 \<and> dictid < PROTO_SHARED_SELECT_CMDS then shared_select dictid
                                 else select_object LONG_STR_SIZE dictid);
                r \<leftarrow> feedReplicationBufferWithObject usable selectcmd r;
                Some (r\<lparr>r_slaveseldb := dictid\<rparr>) }
              else Some r);
        let (aux, len) = aux_number 42 (int (length args));
        r \<leftarrow> feedReplicationBuffer usable (take (len + 3) aux) r;
        feed_args usable args r })"

section \<open>Sequences of commands\<close>

text \<open>The commands executed, each with its database, or \<open>-1\<close> for one that touches no keys.\<close>

fun feed_all :: "(int \<Rightarrow> robj list \<Rightarrow> 's \<Rightarrow> 's option) \<Rightarrow> (int \<times> robj list) list \<Rightarrow> 's \<Rightarrow> 's option" where
  "feed_all feed [] s = Some s"
| "feed_all feed ((dictid, args) # cs) s = do { s \<leftarrow> feed dictid args s; feed_all feed cs s }"

text \<open>What a reader must see: the commands in order, a \<open>SELECT\<close> before each one that is for another
  database than the one selected.\<close>

definition select_cmd :: "int \<Rightarrow> bytes list" where
  "select_cmd dictid = [[83, 69, 76, 69, 67, 84], dec_int dictid]"

fun with_selects :: "int \<Rightarrow> (int \<times> robj list) list \<Rightarrow> bytes list list" where
  "with_selects sel [] = []"
| "with_selects sel ((dictid, args) # cs) =
     (if dictid \<noteq> -1 \<and> dictid \<noteq> sel
      then select_cmd dictid # map getDecodedObject args # with_selects dictid cs
      else map getDecodedObject args # with_selects sel cs)"

definition repl_stream :: "repl \<Rightarrow> bytes" where
  "repl_stream r = concat (map b_bytes (r_blocks r))"

section \<open>What the writers write\<close>

text \<open>An integer object holds a \<open>long\<close>.\<close>

definition is_long :: "robj \<Rightarrow> bool" where
  "is_long ob = (case ob of ObjInt v \<Rightarrow> is_ll v | ObjStr s \<Rightarrow> True)"

definition db_ok :: "int \<Rightarrow> int \<Rightarrow> bool" where
  "db_ok dbnum dictid \<longleftrightarrow> dictid = -1 \<or> 0 \<le> dictid \<and> dictid < dbnum"

lemma db_is_ll: "0 \<le> d \<Longrightarrow> d < n \<Longrightarrow> n \<le> INT_MAX \<Longrightarrow> is_ll d"
  by (simp add: is_ll_def limits_defs INT_MAX_def)

lemma select_format_request: "select_format (int (length (dec_int d))) (dec_int d) = request (select_cmd d)"
  by (simp add: select_format_def request_def select_cmd_def bulk_def dec_int_def dec_less digit_def)

definition written :: "int \<Rightarrow> int \<Rightarrow> robj list \<Rightarrow> bytes" where
  "written sel dictid args =
     (if dictid \<noteq> -1 \<and> dictid \<noteq> sel then request (select_cmd dictid) else []) @ request (map getDecodedObject args)"

lemma written_all:
  "concat (map request (with_selects sel ((dictid, args) # cs)))
     = written sel dictid args @ concat (map request (with_selects (if dictid = -1 then sel else dictid) cs))"
  by (simp add: written_def)

lemma aof_written:
  assumes "db_ok (aof_dbnum a) dictid" "\<not> aof_timestamp_enabled a" "aof_state a = AOF_ON"
    "request_ok cfg (map getDecodedObject args)"
  shows "feedAppendOnlyFile dictid args a = Some (a\<lparr>aof_selected_db := (if dictid = -1 then aof_selected_db a else dictid),
           aof_buf := aof_buf a @ written (aof_selected_db a) dictid args\<rparr>)"
  using assms command_written [OF assms(4)]
  by (auto simp: feedAppendOnlyFile_def db_ok_def written_def select_format_request Let_def)

lemma aof_all_written:
  assumes "\<forall>(dictid, args) \<in> set cmds. db_ok (aof_dbnum a) dictid \<and> request_ok cfg (map getDecodedObject args)"
    "\<not> aof_timestamp_enabled a" "aof_state a = AOF_ON"
  shows "\<exists>a'. feed_all feedAppendOnlyFile cmds a = Some a'
     \<and> aof_buf a' = aof_buf a @ concat (map request (with_selects (aof_selected_db a) cmds))"
  using assms
proof (induction cmds arbitrary: a)
  case (Cons cmd cs)
  obtain dictid args where cmd: "cmd = (dictid, args)" by fastforce
  let ?a = "a\<lparr>aof_selected_db := (if dictid = -1 then aof_selected_db a else dictid),
           aof_buf := aof_buf a @ written (aof_selected_db a) dictid args\<rparr>"
  have ok: "db_ok (aof_dbnum a) dictid" "request_ok cfg (map getDecodedObject args)"
    using Cons.prems(1) cmd by auto
  have "feedAppendOnlyFile dictid args a = Some ?a" by (rule aof_written [OF ok(1) Cons.prems(2,3) ok(2)])
  moreover have "\<exists>a'. feed_all feedAppendOnlyFile cs ?a = Some a'
     \<and> aof_buf a' = aof_buf ?a @ concat (map request (with_selects (aof_selected_db ?a) cs))"
    using Cons.prems by (intro Cons.IH) auto
  ultimately show ?case unfolding cmd written_all by auto
qed simp

text \<open>Feeding the replication buffer appends to the stream, whatever blocks the allocator gives.\<close>

definition repl_settings :: "repl \<Rightarrow> bool \<times> bool \<times> nat \<times> int \<times> int \<times> nat" where
  "repl_settings r = (r_masterhost r, r_backlog r, r_slaves r, r_dbnum r, r_slaveseldb r, r_backlog_size r)"

text \<open>There is a backlog, and it refers to a block unless there is none yet.\<close>

definition repl_ok :: "repl \<Rightarrow> bool" where
  "repl_ok r \<longleftrightarrow> r_backlog r \<and> (r_backlog_ref r \<or> r_blocks r = [])"

definition fed :: "bytes \<Rightarrow> repl \<Rightarrow> repl \<Rightarrow> bool" where
  "fed s r r' \<longleftrightarrow> repl_stream r' = repl_stream r @ s \<and> repl_settings r' = repl_settings r
     \<and> r_offset r' = r_offset r + int (length s) \<and> r_histlen r' = r_histlen r + int (length s)"

lemma fed_Nil [simp]: "fed [] r r"
  by (simp add: fed_def)

lemma fed_append: "fed s r r1 \<Longrightarrow> fed t r1 r2 \<Longrightarrow> fed (s @ t) r r2"
  by (simp add: fed_def)

lemma feed_tail_fed:
  assumes "feed_tail s r = (start, s', r')"
  shows "\<exists>t. s = t @ s' \<and> fed t r r'" "r_backlog_ref r' = r_backlog_ref r" "r_blocks r = [] \<Longrightarrow> start = None \<and> s' = s \<and> r' = r"
proof -
  have "(\<exists>t. s = t @ s' \<and> fed t r r') \<and> r_backlog_ref r' = r_backlog_ref r"
  proof (cases "r_blocks r \<noteq> [] \<and> b_size (last (r_blocks r)) > length (b_bytes (last (r_blocks r)))")
    case True
    let ?tail = "last (r_blocks r)"
    let ?n = "if b_size ?tail - length (b_bytes ?tail) \<ge> length s then length s else b_size ?tail - length (b_bytes ?tail)"
    obtain n where n: "n = ?n" by blast
    have blocks: "r_blocks r = butlast (r_blocks r) @ [?tail]" using True by simp
    have stream: "repl_stream r = concat (map b_bytes (butlast (r_blocks r))) @ b_bytes ?tail"
      unfolding repl_stream_def by (subst blocks) simp
    have s': "s' = drop n s" and r': "r' = r\<lparr>r_blocks := butlast (r_blocks r) @ [?tail\<lparr>b_bytes := b_bytes ?tail @ take n s\<rparr>],
                r_offset := r_offset r + int n, r_histlen := r_histlen r + int n\<rparr>"
      using assms True unfolding feed_tail_def Let_def n by simp_all
    have len: "n \<le> length s" unfolding n by simp
    have "fed (take n s) r r'"
      unfolding fed_def stream unfolding r' using len by (simp add: repl_stream_def repl_settings_def)
    moreover have "s = take n s @ s'" unfolding s' by simp
    moreover have "r_backlog_ref r' = r_backlog_ref r" unfolding r' by simp
    ultimately show ?thesis by blast
  next
    case False
    then have "feed_tail s r = (None, s, r)" unfolding feed_tail_def by (rule if_not_P)
    then show ?thesis using assms by auto
  qed
  then show "\<exists>t. s = t @ s' \<and> fed t r r'" "r_backlog_ref r' = r_backlog_ref r" by simp_all
  show "r_blocks r = [] \<Longrightarrow> start = None \<and> s' = s \<and> r' = r" using assms by (auto simp: feed_tail_def)
qed

lemma feed_new_block_fed:
  assumes "feed_new_block usable s r = (s', r')" "s \<noteq> []" "\<forall>n. n \<le> usable n"
  shows "\<exists>t. t \<noteq> [] \<and> s = t @ s' \<and> fed t r r' \<and> r_backlog_ref r' = r_backlog_ref r"
proof -
  let ?size = "min (max (length s) PROTO_REPLY_CHUNK_BYTES) (max (r_backlog_size r div 16) PROTO_REPLY_CHUNK_BYTES)"
  let ?room = "usable (?size + sizeof_replBufBlock) - sizeof_replBufBlock"
  let ?n = "if ?room \<ge> length s then length s else ?room"
  have "0 < ?size" by (simp add: PROTO_REPLY_CHUNK_BYTES_def less_max_iff_disj)
  moreover have "?size + sizeof_replBufBlock \<le> usable (?size + sizeof_replBufBlock)" using assms(3) by blast
  ultimately have "0 < ?room" by linarith
  then have n: "0 < ?n" using assms(2) by simp
  obtain n room where def: "n = ?n" "room = ?room" by blast
  have s': "s' = drop n s" and r': "r' = r\<lparr>r_blocks := r_blocks r @ [\<lparr>b_size = room, b_bytes = take n s, b_offset = r_offset r + 1, b_id = r_block_id r\<rparr>],
      r_block_id := r_block_id r + 1, r_offset := r_offset r + int n, r_histlen := r_histlen r + int n\<rparr>"
    using assms(1) unfolding feed_new_block_def Let_def def by simp_all
  have len: "n \<le> length s" unfolding def by simp
  have "s = take n s @ s'" unfolding s' by simp
  moreover have "fed (take n s) r r'"
    unfolding r' using len by (simp add: fed_def repl_stream_def repl_settings_def)
  moreover have "take n s \<noteq> []" using n assms(2) unfolding def(1) [symmetric] by simp
  moreover have "r_backlog_ref r' = r_backlog_ref r" unfolding r' by simp
  ultimately show ?thesis by blast
qed

lemma feed_blocks_Nil [simp]: "feed_blocks usable [] r = Some r"
  by (subst feed_blocks.simps) simp

lemma fed_ref: "fed s r r' \<Longrightarrow> fed s r (r'\<lparr>r_backlog_ref := b\<rparr>)" "fed s (r\<lparr>r_backlog_ref := b\<rparr>) r' \<Longrightarrow> fed s r r'"
  by (simp_all add: fed_def repl_stream_def repl_settings_def)

lemma feed_blocks_fed:
  assumes "\<forall>n. n \<le> usable n" "r_backlog_ref r \<or> r_blocks r = []"
  shows "\<exists>r'. feed_blocks usable s r = Some r' \<and> fed s r r' \<and> (r_backlog_ref r' \<or> r' = r)"
  using assms(2)
proof (induction "length s" arbitrary: s r rule: less_induct)
  case less
  show ?case
  proof (cases "s = []")
    case False
    obtain start s1 r1 where 1: "feed_tail s r = (start, s1, r1)" by (metis prod_cases3)
    note tail = feed_tail_fed [OF 1]
    obtain t where t: "s = t @ s1" "fed t r r1" using tail(1) by blast
    show ?thesis
    proof (cases "s1 = []")
      case True
      then have ref: "r_backlog_ref r" using less.prems tail(3) False by blast
      then have "feed_blocks usable s r = Some r1"
        using False 1 True tail(2) by (subst feed_blocks.simps) (simp add: Let_def)
      then show ?thesis using t True ref tail(2) by simp
    next
      case s1: False
      obtain s2 r2 where 2: "feed_new_block usable s1 r1 = (s2, r2)" by fastforce
      obtain u where u: "u \<noteq> []" "s1 = u @ s2" "fed u r1 r2" "r_backlog_ref r2 = r_backlog_ref r1"
        using feed_new_block_fed [OF 2 s1 assms(1)] by blast
      let ?r2 = "r2\<lparr>r_backlog_ref := True\<rparr>"
      have ref_kept: "r_backlog_ref r2 \<Longrightarrow> ?r2 = r2" by (cases r2) simp
      have "r_backlog_ref r2 \<or> (case start of Some pos \<Rightarrow> pos | None \<Rightarrow> 0) = 0"
        using less.prems tail(2,3) u(4) by auto
      then have step: "feed_blocks usable s r = feed_blocks usable s2 (if r_backlog_ref r2 then r2 else ?r2)"
        using False 1 2 s1 by (subst feed_blocks.simps) (auto simp: Let_def)
      have eq: "feed_blocks usable s r = feed_blocks usable s2 ?r2"
      proof (cases "r_backlog_ref r2")
        case True
        then show ?thesis using step unfolding ref_kept [OF True] by simp
      qed (use step in simp)
      have "length s2 < length s" using t(1) u(1,2) by simp
      from less.hyps [OF this, of ?r2] obtain r' where r': "feed_blocks usable s2 ?r2 = Some r'" "fed s2 ?r2 r'"
          "r_backlog_ref r' \<or> r' = ?r2" by auto
      have "fed (t @ u @ s2) r r'" using fed_append [OF t(2) fed_append [OF u(3) fed_ref(2) [OF r'(2)]]] .
      moreover have "r_backlog_ref r'" using r'(3) by auto
      ultimately show ?thesis using eq r'(1) t(1) u(2) by simp
    qed
  qed simp
qed

lemma feed_fed:
  assumes "\<forall>n. n \<le> usable n" "repl_ok r"
  shows "\<exists>r'. feedReplicationBuffer usable s r = Some r' \<and> fed s r r' \<and> repl_ok r'"
  using feed_blocks_fed [OF assms(1), of r s] assms(2)
  by (auto simp: feedReplicationBuffer_def fed_def repl_settings_def repl_ok_def)

lemma feed_object_fed:
  assumes "\<forall>n. n \<le> usable n" "repl_ok r" "is_long ob"
  shows "\<exists>r'. feedReplicationBufferWithObject usable ob r = Some r' \<and> fed (getDecodedObject ob) r r' \<and> repl_ok r'"
proof -
  have "feedReplicationBufferWithObject usable ob r = feedReplicationBuffer usable (getDecodedObject ob) r"
  proof (cases ob)
    case (ObjInt v)
    then have v: "is_ll v" using assms(3) by (simp add: is_long_def)
    have "ll2string (replicate LONG_STR_SIZE fresh_byte) LONG_STR_SIZE v
      = (dec_int v @ 0 # drop (Suc (length (dec_int v))) (replicate LONG_STR_SIZE fresh_byte), length (dec_int v))"
      by (rule ll2string_ok) (use v ll_text [OF v] in \<open>simp_all add: LONG_STR_SIZE_def\<close>)
    then show ?thesis
      using ObjInt decoded_integer [OF v] by (simp add: feedReplicationBufferWithObject_def)
  qed (simp add: feedReplicationBufferWithObject_def getDecodedObject_def)
  then show ?thesis using feed_fed [OF assms(1,2)] by simp
qed

lemma aux_written:
  assumes "is_ll v" "aux_number mark v = (aux, len)"
  shows "take (len + 3) aux = mark # dec_int v @ [13, 10]" "slice (len + 1) 2 aux = [13, 10]"
proof -
  have l: "length (dec_int v) \<le> 20" using ll_text [OF assms(1)] .
  have ll: "ll2string (replicate (LONG_STR_SIZE + 2) fresh_byte) (LONG_STR_SIZE + 2) v
      = (dec_int v @ 0 # replicate (22 - length (dec_int v)) fresh_byte, length (dec_int v))"
    using ll2string_ok [OF assms(1), of "LONG_STR_SIZE + 2" "replicate (LONG_STR_SIZE + 2) fresh_byte"] l
    by (simp add: LONG_STR_SIZE_def)
  have more: "replicate (22 - length (dec_int v)) fresh_byte = fresh_byte # replicate (21 - length (dec_int v)) fresh_byte"
    using l by (simp add: Suc_diff_le [symmetric] replicate_Suc [symmetric] del: replicate_Suc)
  have "aux = mark # dec_int v @ 13 # 10 # replicate (21 - length (dec_int v)) fresh_byte" and len: "len = length (dec_int v)"
    using assms(2) unfolding aux_number_def Let_def ll more by (auto simp: list_update_append)
  then show "take (len + 3) aux = mark # dec_int v @ [13, 10]" "slice (len + 1) 2 aux = [13, 10]"
    by (simp_all add: slice_def numeral_3_eq_3 numeral_2_eq_2)
qed

lemma object_length:
  assumes "is_long ob"
  shows "stringObjectLen ob = length (getDecodedObject ob)"
proof (cases ob)
  case (ObjInt v)
  then have "is_ll v" using assms by (simp add: is_long_def)
  then show ?thesis
    using ObjInt by (simp add: stringObjectLen_def sdigits10_eq decoded_integer)
qed (simp add: stringObjectLen_def getDecodedObject_def)

lemma feed_args_fed:
  assumes "\<forall>n. n \<le> usable n" "repl_ok r" "\<forall>ob \<in> set args. is_long ob \<and> arg_ok cfg (getDecodedObject ob)"
  shows "\<exists>r'. feed_args usable args r = Some r' \<and> fed (concat (map bulk (map getDecodedObject args))) r r' \<and> repl_ok r'"
  using assms(2,3)
proof (induction args arbitrary: r)
  case (Cons ob obs)
  let ?s = "getDecodedObject ob"
  have ob: "is_long ob" "stringObjectLen ob = length ?s" using Cons.prems(2) object_length by auto
  have ll: "is_ll (int (length ?s))" using Cons.prems(2) by (auto simp: arg_ok_def is_ll_def limits_defs)
  obtain aux len where aux: "aux_number 36 (int (length ?s)) = (aux, len)" by fastforce
  note w = aux_written [OF ll aux]
  obtain r1 where r1: "feedReplicationBuffer usable (take (len + 3) aux) r = Some r1"
    "fed (take (len + 3) aux) r r1" "repl_ok r1" using feed_fed [OF assms(1) Cons.prems(1)] by blast
  obtain r2 where r2: "feedReplicationBufferWithObject usable ob r1 = Some r2" "fed ?s r1 r2" "repl_ok r2"
    using feed_object_fed [OF assms(1) r1(3) ob(1)] by blast
  obtain r3 where r3: "feedReplicationBuffer usable (slice (len + 1) 2 aux) r2 = Some r3"
    "fed (slice (len + 1) 2 aux) r2 r3" "repl_ok r3" using feed_fed [OF assms(1) r2(3)] by blast
  obtain r' where r': "feed_args usable obs r3 = Some r'" "fed (concat (map bulk (map getDecodedObject obs))) r3 r'" "repl_ok r'"
    using Cons.IH [OF r3(3)] Cons.prems(2) by auto
  have "fed (bulk ?s @ concat (map bulk (map getDecodedObject obs))) r r'"
    using fed_append [OF fed_append [OF fed_append [OF r1(2) r2(2)] r3(2)] r'(2)] unfolding w by (simp add: bulk_def)
  then show ?case using r1(1) r2(1) r3(1) r'(1,3) by (simp add: ob(2) aux Let_def)
qed simp

lemma select_object_decoded:
  assumes "is_ll d" "21 \<le> n"
  shows "is_long (select_object n d)" "getDecodedObject (select_object n d) = request (select_cmd d)"
proof -
  have "ll2string (replicate n fresh_byte) n d
      = (dec_int d @ 0 # drop (Suc (length (dec_int d))) (replicate n fresh_byte), length (dec_int d))"
    by (rule ll2string_ok) (use assms ll_text [OF assms(1)] in simp_all)
  moreover have "takeWhile (\<lambda>b. b \<noteq> 0) (dec_int d @ 0 # xs) = dec_int d" for xs
    using dec_int_plain by (subst takeWhile_append2) auto
  ultimately have "select_object n d = ObjStr (request (select_cmd d))"
    by (simp add: select_object_def select_format_request)
  then show "is_long (select_object n d)" "getDecodedObject (select_object n d) = request (select_cmd d)"
    by (simp_all add: is_long_def getDecodedObject_def)
qed

lemma repl_written:
  assumes "\<forall>n. n \<le> usable n" "\<not> r_masterhost r" "repl_ok r" "db_ok (r_dbnum r) dictid" "r_dbnum r \<le> INT_MAX"
    "request_ok cfg (map getDecodedObject args)" "\<forall>ob \<in> set args. is_long ob"
  shows "\<exists>r'. replicationFeedSlaves usable dictid args r = Some r'
     \<and> repl_stream r' = repl_stream r @ written (r_slaveseldb r) dictid args
     \<and> \<not> r_masterhost r' \<and> repl_ok r' \<and> r_dbnum r' = r_dbnum r
     \<and> r_slaveseldb r' = (if dictid = -1 then r_slaveseldb r else dictid)"
proof -
  let ?sel = "dictid \<noteq> -1 \<and> r_slaveseldb r \<noteq> dictid"
  let ?cmd = "if dictid \<ge> 0 \<and> dictid < PROTO_SHARED_SELECT_CMDS then shared_select dictid
              else select_object LONG_STR_SIZE dictid"
  have "\<exists>r0. (if ?sel then do { r \<leftarrow> feedReplicationBufferWithObject usable ?cmd r; Some (r\<lparr>r_slaveseldb := dictid\<rparr>) } else Some r) = Some r0
     \<and> repl_stream r0 = repl_stream r @ (if ?sel then request (select_cmd dictid) else [])
     \<and> \<not> r_masterhost r0 \<and> repl_ok r0 \<and> r_dbnum r0 = r_dbnum r
     \<and> r_slaveseldb r0 = (if dictid = -1 then r_slaveseldb r else dictid)"
  proof (cases ?sel)
    case True
    then have "is_ll dictid" using assms(4,5) db_is_ll by (auto simp: db_ok_def)
    then have "is_long ?cmd" "getDecodedObject ?cmd = request (select_cmd dictid)"
      using select_object_decoded [of dictid] by (simp_all add: shared_select_def LONG_STR_SIZE_def)
    then obtain r1 where "feedReplicationBufferWithObject usable ?cmd r = Some r1" "fed (request (select_cmd dictid)) r r1"
        "repl_ok r1"
      using feed_object_fed [OF assms(1,3)] by metis
    then show ?thesis using True assms(2) by (auto simp: fed_def repl_settings_def repl_stream_def repl_ok_def)
  qed (use assms(2,3) in auto)
  then obtain r0 where r0: "(if ?sel then do { r \<leftarrow> feedReplicationBufferWithObject usable ?cmd r; Some (r\<lparr>r_slaveseldb := dictid\<rparr>) } else Some r) = Some r0"
    "repl_stream r0 = repl_stream r @ (if ?sel then request (select_cmd dictid) else [])"
    "\<not> r_masterhost r0" "repl_ok r0" "r_dbnum r0 = r_dbnum r"
    "r_slaveseldb r0 = (if dictid = -1 then r_slaveseldb r else dictid)" by blast
  have n: "is_ll (int (length args))" using assms(6) by (simp add: request_ok_def is_ll_def limits_defs INT_MAX_def)
  obtain aux len where aux: "aux_number 42 (int (length args)) = (aux, len)" by fastforce
  obtain r1 where r1: "feedReplicationBuffer usable (take (len + 3) aux) r0 = Some r1"
    "fed (take (len + 3) aux) r0 r1" "repl_ok r1" using feed_fed [OF assms(1) r0(4)] by blast
  have "\<forall>ob \<in> set args. is_long ob \<and> arg_ok cfg (getDecodedObject ob)" using assms(6,7) by (auto simp: request_ok_def)
  from feed_args_fed [OF assms(1) r1(3) this] obtain r' where r': "feed_args usable args r1 = Some r'"
    "fed (concat (map bulk (map getDecodedObject args))) r1 r'" "repl_ok r'" by blast
  have f: "fed (request (map getDecodedObject args)) r0 r'"
    using fed_append [OF r1(2) r'(2)] by (simp add: aux_written(1) [OF n aux] request_def)
  have "replicationFeedSlaves usable dictid args r = Some r'"
    unfolding replicationFeedSlaves_def Let_def r0(1) bind.simps aux prod.case r1(1) r'(1)
    using assms(2-4) by (auto simp: db_ok_def repl_ok_def)
  then show ?thesis
    using r0 f r'(3) by (auto simp: fed_def repl_settings_def written_def)
qed

lemma repl_all_written:
  assumes "\<forall>n. n \<le> usable n" "\<not> r_masterhost r" "repl_ok r" "r_dbnum r \<le> INT_MAX"
    "\<forall>(dictid, args) \<in> set cmds. db_ok (r_dbnum r) dictid \<and> request_ok cfg (map getDecodedObject args) \<and> (\<forall>ob \<in> set args. is_long ob)"
  shows "\<exists>r'. feed_all (replicationFeedSlaves usable) cmds r = Some r'
     \<and> repl_stream r' = repl_stream r @ concat (map request (with_selects (r_slaveseldb r) cmds))"
  using assms(2-)
proof (induction cmds arbitrary: r)
  case (Cons cmd cs)
  obtain dictid args where cmd: "cmd = (dictid, args)" by fastforce
  have ok: "db_ok (r_dbnum r) dictid" "request_ok cfg (map getDecodedObject args)" "\<forall>ob \<in> set args. is_long ob"
    using Cons.prems(4) cmd by auto
  obtain r1 where r1: "replicationFeedSlaves usable dictid args r = Some r1"
    "repl_stream r1 = repl_stream r @ written (r_slaveseldb r) dictid args"
    "\<not> r_masterhost r1" "repl_ok r1" "r_dbnum r1 = r_dbnum r"
    "r_slaveseldb r1 = (if dictid = -1 then r_slaveseldb r else dictid)"
    using repl_written [OF assms(1) Cons.prems(1,2) ok(1) Cons.prems(3) ok(2,3)] by blast
  obtain r' where "feed_all (replicationFeedSlaves usable) cs r1 = Some r'"
    "repl_stream r' = repl_stream r1 @ concat (map request (with_selects (r_slaveseldb r1) cs))"
    using Cons.IH [OF r1(3,4)] Cons.prems(3,4) r1(5) by auto
  then show ?case unfolding cmd written_all using r1 by auto
qed simp

section \<open>Reading it back\<close>

text \<open>The reads \<open>chunks\<close> make the client execute the commands \<open>todo\<close>, in order, and leave nothing.\<close>

definition executes :: "config \<Rightarrow> client \<Rightarrow> bytes list \<Rightarrow> bytes list list \<Rightarrow> bool" where
  "executes cfg c chunks todo \<longleftrightarrow> (\<exists>c'. query_reads cfg log_run c [] chunks = Some (True, c', todo)
     \<and> unread c' = [] \<and> argv c' = [] \<and> multibulklen c' = 0 \<and> c_reqtype c' = PROTO_REQ_UNKNOWN \<and> \<not> c_close c')"

lemma with_selects_ok:
  assumes "\<forall>(dictid, args) \<in> set cmds. db_ok n dictid \<and> request_ok cfg (map getDecodedObject args)"
    "n \<le> INT_MAX" "20 \<le> proto_max_bulk_len cfg"
  shows "\<forall>req \<in> set (with_selects sel cmds). request_ok cfg req"
  using assms(1)
proof (induction sel cmds rule: with_selects.induct)
  case (2 sel dictid args cs)
  have "request_ok cfg (select_cmd dictid)" if "dictid \<noteq> -1"
  proof -
    have "is_ll dictid" using 2(3) that assms(2) db_is_ll by (auto simp: db_ok_def)
    then show ?thesis
      using ll_text [of dictid] assms(3)
      by (simp add: request_ok_def select_cmd_def arg_ok_def INT_MAX_def limits_defs)
  qed
  then show ?case using 2 by auto
qed simp

text \<open>C7. The same executed commands are propagated to the append only file and to the replicas, by two
  writers with buffers of their own.  Both succeed, and what each adds to its stream, cut into reads
  in any way and read by a client (a master's one included), makes that client execute the same
  commands in order, integers as their decimal text, with a \<open>SELECT\<close> exactly where the database
  changes; then nothing is left in the buffer and the client waits for the next request.  The requests
  must keep to the limits of the reader: not more than \<open>INT_MAX\<close> arguments, none above
  \<open>proto_max_bulk_len\<close>, small ones from a client that has yet to authenticate, and together no more
  than a query buffer may hold.  The backlog of
  the replicas is there and refers to a block unless there is none, and an allocation is at least as large as asked
  for.  Timestamps in the append only file, which are no requests, are off.\<close>

theorem requests_roundtrip:
  assumes "\<forall>(dictid, args) \<in> set cmds. db_ok (aof_dbnum a) dictid \<and> db_ok (r_dbnum r) dictid
      \<and> request_ok cfg (map getDecodedObject args) \<and> (\<forall>ob \<in> set args. is_long ob)"
    and "aof_dbnum a \<le> INT_MAX" "aof_state a = AOF_ON" "\<not> aof_timestamp_enabled a"
    and "r_dbnum r \<le> INT_MAX" "\<not> r_masterhost r" "repl_ok r" "\<forall>n. n \<le> usable n"
    and "new_client c" "\<not> io_threads_read cfg" "\<not> (inside_long_command cfg \<and> c_master c)"
    and "20 \<le> proto_max_bulk_len cfg"
  shows "\<exists>a' r' w w'. feed_all feedAppendOnlyFile cmds a = Some a' \<and> aof_buf a' = aof_buf a @ w
     \<and> feed_all (replicationFeedSlaves usable) cmds r = Some r' \<and> repl_stream r' = repl_stream r @ w'
     \<and> (\<forall>chunks. concat chunks = w \<and> (c_master c \<or> length w \<le> client_max_querybuf_len cfg) \<longrightarrow>
          executes cfg c chunks (with_selects (aof_selected_db a) cmds))
     \<and> (\<forall>chunks. concat chunks = w' \<and> (c_master c \<or> length w' \<le> client_max_querybuf_len cfg) \<longrightarrow>
          executes cfg c chunks (with_selects (r_slaveseldb r) cmds))"
proof -
  let ?w = "concat (map request (with_selects (aof_selected_db a) cmds))"
  let ?w' = "concat (map request (with_selects (r_slaveseldb r) cmds))"
  obtain a' where a': "feed_all feedAppendOnlyFile cmds a = Some a'" "aof_buf a' = aof_buf a @ ?w"
    using aof_all_written [of cmds a cfg] assms(1,3,4) by auto
  obtain r' where r': "feed_all (replicationFeedSlaves usable) cmds r = Some r'" "repl_stream r' = repl_stream r @ ?w'"
    using repl_all_written [OF assms(8,6,7,5), of cmds cfg] assms(1) by blast
  have ok: "\<forall>req \<in> set (with_selects sel cmds). request_ok cfg req" for sel
    using assms(1) by (intro with_selects_ok [OF _ assms(2,12)]) auto
  have ex: "executes cfg c chunks (with_selects sel cmds)"
    if "concat chunks = concat (map request (with_selects sel cmds))" "c_master c \<or> length (concat chunks) \<le> client_max_querybuf_len cfg"
    for sel chunks
    unfolding executes_def by (rule requests_executed [OF that(1) ok assms(9-11) that(2)])
  show ?thesis
    using a' r' ex by (intro exI conjI allI impI) auto
qed

definition ex_aof :: aof where
  "ex_aof = \<lparr>aof_dbnum = 16, aof_timestamp_enabled = False, aof_cur_timestamp = 0, aof_unixtime = 0, aof_selected_db = -1,
     aof_state = AOF_ON, aof_child = False, aof_buf = []\<rparr>"

definition ex_repl :: repl where
  "ex_repl = \<lparr>r_masterhost = False, r_backlog = True, r_backlog_ref = False, r_slaves = 1, r_dbnum = 16, r_slaveseldb = 3, r_backlog_size = 1048576,
     r_histlen = 0, r_offset = 0, r_blocks = [], r_block_id = 0\<rparr>"

theorem requests_roundtrip_witness:
  "\<exists>r' w. feed_all (replicationFeedSlaves (\<lambda>n. n)) [(3, [ObjStr [71, 69, 84], ObjInt 7]), (12, [ObjStr [71]])] ex_repl = Some r'
     \<and> repl_stream r' = w
     \<and> (length w \<le> 1073741824 \<longrightarrow> executes a_config a_client [take 9 w, drop 9 w]
          [[[71, 69, 84], [55]], [[83, 69, 76, 69, 67, 84], [49, 50]], [[71]]])"
proof -
  have dec: "getDecodedObject (ObjInt 7) = [55]" "dec_int 12 = [49, 50]"
    by (simp_all add: decoded_integer is_ll_def limits_defs dec_int_def dec_less dec.simps [of 12] digit_def del: dec.simps)
  let ?cmds = "[(3, [ObjStr [71, 69, 84], ObjInt 7]), (12, [ObjStr [71]])]"
  have 1: "\<forall>(dictid, args) \<in> set ?cmds. db_ok (aof_dbnum ex_aof) dictid \<and> db_ok (r_dbnum ex_repl) dictid
      \<and> request_ok a_config (map getDecodedObject args) \<and> (\<forall>ob \<in> set args. is_long ob)"
    using dec by (simp add: db_ok_def ex_aof_def ex_repl_def request_ok_def arg_ok_def a_config_def limits_defs INT_MAX_def
        is_long_def is_ll_def) (simp add: getDecodedObject_def)
  have 2: "with_selects (r_slaveseldb ex_repl) ?cmds = [[[71, 69, 84], [55]], [[83, 69, 76, 69, 67, 84], [49, 50]], [[71]]]"
    using dec by (simp add: ex_repl_def select_cmd_def) (simp add: getDecodedObject_def)
  have 3: "\<exists>a' r' w w'. feed_all feedAppendOnlyFile ?cmds ex_aof = Some a' \<and> aof_buf a' = aof_buf ex_aof @ w
     \<and> feed_all (replicationFeedSlaves (\<lambda>n. n)) ?cmds ex_repl = Some r' \<and> repl_stream r' = repl_stream ex_repl @ w'
     \<and> (\<forall>chunks. concat chunks = w \<and> (c_master a_client \<or> length w \<le> client_max_querybuf_len a_config) \<longrightarrow>
          executes a_config a_client chunks (with_selects (aof_selected_db ex_aof) ?cmds))
     \<and> (\<forall>chunks. concat chunks = w' \<and> (c_master a_client \<or> length w' \<le> client_max_querybuf_len a_config) \<longrightarrow>
          executes a_config a_client chunks (with_selects (r_slaveseldb ex_repl) ?cmds))"
    using 1 by (intro requests_roundtrip a_client_new)
      (simp_all add: ex_aof_def ex_repl_def repl_ok_def a_config_def INT_MAX_def)
  then obtain r' w' where r': "feed_all (replicationFeedSlaves (\<lambda>n. n)) ?cmds ex_repl = Some r'" "repl_stream r' = repl_stream ex_repl @ w'"
    "\<forall>chunks. concat chunks = w' \<and> (c_master a_client \<or> length w' \<le> client_max_querybuf_len a_config) \<longrightarrow>
          executes a_config a_client chunks (with_selects (r_slaveseldb ex_repl) ?cmds)"
    by blast
  have "concat [take 9 w', drop 9 w'] = w'" by simp
  moreover have "repl_stream ex_repl = []" "client_max_querybuf_len a_config = 1073741824"
    by (simp_all add: repl_stream_def ex_repl_def a_config_def)
  ultimately show ?thesis using r' unfolding 2 by (metis append_Nil)
qed

end
