(* ===== verification/Spec2Isabelle.thy ===== *)
theory Spec2Isabelle
  imports Intset Listpack_Seq Crc Dict_Scan Dict_Sample Adlist_Props Lzf_Props Skiplist_Ranges Glob Bitpos_Spec Rdb_Safe Dump_Check Resp_Total Listpack_Safe Propagate
begin

text \<open>
  A model of the data structures of Redis 7.2.4 (\<open>src/redis-7.2.4/src\<close>), the C program this repository
  carries beside its web application, and the theorems that make them correct.

  \<^bold>\<open>The program.\<close>  Redis keeps every value in one of a few containers and moves between them as values grow.
  The keyspace, hashes, sets and the server's own tables are the hash tables of \<open>dict.c\<close>; small sets of
  integers are the sorted arrays of \<open>intset.c\<close>; small lists, hashes and sorted sets are the listpacks of
  \<open>listpack.c\<close>, which call the number conversions of \<open>util.c\<close> to store numbers as integers; the server's
  clients, replies and jobs are the linked lists of \<open>adlist.c\<close>; large sorted sets are skiplists (\<open>t_zset.c\<close>).  \<open>endianconv.c\<close> keeps the packed encodings
  little endian on every host.  When a value leaves the process, through \<open>RESTORE\<close>, replication or an RDB
  file, its blob is compressed by \<open>lzf_c.c\<close> and \<open>lzf_d.c\<close>, protected by the checksum of \<open>crc64.c\<close> and
  \<open>crcspeed.c\<close>, and sanitized on the way in by the integrity checks of the containers.  In a cluster the key
  is mapped to a slot by \<open>crc16.c\<close> and \<open>keyHashSlot\<close> of \<open>cluster.c\<close>.

  \<^bold>\<open>Theories.\<close>
  \<^item> \<open>Redis_Prelude\<close>: bytes, slices, \<open>memcpy\<close>, \<open>memmove\<close> and \<open>realloc\<close> on byte lists, the little endian codec.
  \<^item> \<open>Interfaces\<close>: the contracts between a container and its clients, as locales: a set of integers, a sequence of
    strings, a map with a background migration, and a machine whose every step simulates an abstract one and may
    fail.  Each is interpreted on the model of the component that provides it, and the clients' inductions over
    sequences of operations are done there once.
  \<^item> \<open>Endian\<close>: \<open>endianconv.c\<close> and the macros of \<open>endianconv.h\<close>, the byte order of the host an argument.
  \<^item> \<open>Intset\<close>: \<open>intset.c\<close>, the blob as encoding, length and contents; the invariant (sorted, strictly, of the right
    size), its set of members, and every operation against that set.
  \<^item> \<open>Decimal\<close>: the conversions between 64 bit integers and decimal text of \<open>util.c\<close>, and \<open>lpStringToInt64\<close>.
  \<^item> \<open>Listpack_Encoding\<close>, \<open>Listpack\<close>: the entry encodings and the operations of \<open>listpack.c\<close> on the allocated
    bytes, pointers being offsets.  \<open>Listpack_Rep\<close> relates a buffer to its encoded elements, \<open>Listpack_Update\<close> shows
    what the updates do to them, \<open>Listpack_Seq\<close> restates all of it on the sequence of strings a client sees, and
    holds the integrity checks; \<open>Listpack_Safe\<close> has the integrity check once more, every read of a byte being
    a tested one.
  \<^item> \<open>Crc\<close>: \<open>crc16.c\<close>, \<open>crc64.c\<close>, \<open>crcspeed.c\<close> for hosts of either byte order, \<open>keyHashSlot\<close>.
  \<^item> \<open>Dict\<close>: the tables of \<open>dict.c\<close> (two, while a rehash is under way), lookup, insertion, deletion, incremental
    rehashing, resizing, emptying.  \<open>Dict_Rep\<close>: the invariant and the content, and that migration keeps both;
    \<open>Dict_Map\<close>: the operations on the map; \<open>Dict_Props\<close>: the guarantees to clients; \<open>Dict_Scan\<close>: the cursor of
    \<open>dictScan\<close>; \<open>Dict_Iter\<close>, \<open>Dict_Iter_Props\<close>: iterators and the fingerprint; \<open>Dict_Sample\<close>: random keys.
  \<^item> \<open>Adlist\<close>: \<open>adlist.c\<close> on an explicit heap of nodes with an allocator that may fail; \<open>Adlist_Rep\<close>: doubly linked
    segments and framing; \<open>Adlist_Props\<close>: the guarantees.
  \<^item> \<open>Lzf\<close>, \<open>Lzf_Props\<close>: \<open>lzf_compress\<close> and \<open>lzf_decompress\<close>, and the format between them.

  \<^item> \<open>Scores\<close>: the order of scores, as IEEE 754 bits, and of strings, and their ranges.  \<open>Skiplist\<close>: the skiplist of
    \<open>t_zset.c\<close> on a heap of nodes; \<open>Skiplist_Rep\<close>: the links that a sequence of elements gives every level, and what
    searches find; \<open>Skiplist_Update\<close>: what the loops of insertion and deletion do to the links; \<open>Skiplist_Props\<close>: the
    operations on the sorted sequence; \<open>Skiplist_Life\<close>: clients' sequences of operations; \<open>Skiplist_Ranks\<close>,
    \<open>Skiplist_Ranges\<close>: ranks, range searches and range deletion.
  \<^item> \<open>Glob\<close>: the pattern matcher of \<open>util.c\<close> against the tokens of a pattern.
  \<^item> \<open>Bitops\<close>: counting and searching bits, integers at bit offsets and their overflow (\<open>bitops.c\<close>); \<open>Bit_Commands\<close>:
    the commands on the string of a key; \<open>Bitops_Props\<close>, \<open>Bitfield_Props\<close>: these routines on the sequence of bits;
    \<open>Bitfield_Spec\<close>, \<open>Bitcount_Spec\<close>, \<open>Bitpos_Spec\<close>: the commands against their specifications.
  \<^item> \<open>Rio\<close>: the streams of \<open>rio.h\<close> over any backend, and the buffer of \<open>rio.c\<close>; \<open>Rdb\<close>: lengths, strings and integers in
    RDB files and the payloads of \<open>DUMP\<close> and \<open>RESTORE\<close> (\<open>rdb.c\<close>, \<open>cluster.c\<close>, \<open>object.c\<close>), with the allocation of
    strings and its assertion on the size (\<open>sds.c\<close>, \<open>zmalloc.c\<close>), on the models of decimal text, LZF, CRC-64 and byte order; \<open>Rdb_Props\<close>: the round trips; \<open>Rdb_Safe\<close>: loading what is damaged or hostile;
    \<open>Dump_Check\<close>: what the checksum notices.
  \<^item> \<open>Sds_Args\<close>: lines of arguments with quotes and escapes (\<open>sds.c\<close>); \<open>Resp\<close>: how bytes read from a client become
    commands (\<open>networking.c\<close>), and how commands are written in that format (\<open>aof.c\<close>), the execution
    of commands an argument; \<open>Resp_Props\<close>: requests in the format are executed, however they are cut into reads;
    \<open>Resp_Total\<close>: arbitrary bytes.  \<open>Propagate\<close>: what \<open>feedAppendOnlyFile\<close> (\<open>aof.c\<close>) and \<open>replicationFeedSlaves\<close>
    (\<open>replication.c\<close>) write, with the \<open>SELECT\<close> requests and the blocks of the replication buffer, and its
    execution by the reader.

  \<^bold>\<open>Conventions.\<close>  A definition carries the name of its function in the source.  A buffer is a list of bytes, a pointer
  into it an offset, a null pointer \<open>None\<close>; a pointer to a node is an address, \<open>NULL\<close> being 0.  The result \<open>None\<close> of
  a fallible operation is a failed assertion, an access outside the allocation or a dangling pointer: that an
  operation returns \<open>Some\<close> is the statement that none of these happens.  Fixed width arithmetic is on words or written
  with \<open>mod 2 ^ w\<close> where it can wrap.  Callbacks of a dictionary or list type, the allocator, the host's byte order and
  random numbers are arguments; what the code relies on in the callbacks (that equal keys hash equally, that the
  equality is one) is the named predicate \<open>type_ok\<close>.

  \<^bold>\<open>What is shown.\<close>
  \<^item> Refinement: each container against its abstract counterpart (a set, a list of strings, a map, a list), for
    arbitrary sequences of operations where its clients interleave them, errors included: an operation on a
    linked list is refused exactly when its index is out of range or the allocator returns a null pointer.
  \<^item> The guarantee of \<open>SCAN\<close> under resizing: an element present throughout is returned, and the scan comes back to its
    start; iterators return each entry once, also when the client deletes what it was given.
  \<^item> Equivalence of the optimised routines with reference definitions: the table driven and eight bytes at a time
    checksums with the bitwise ones, \<open>string2ll\<close> with the decimal notation, the integrity check with the invariant.
  \<^item> Round trips: integers through decimal and through the entry encodings, blobs, compressed text; lengths,
    strings and objects through streams and payloads; arguments through quoting; commands through the append only
    file and the replication stream.
  \<^item> Memory safety of what reads untrusted bytes: \<open>lpValidateIntegrity\<close>, \<open>lzf_decompress\<close>, the loading of
    strings and the parsing of requests.  Where a component is on an explicit heap (linked lists, skiplists) or its
    reads are tested (compression, patterns, bitmaps, quoting), its operations are shown to stay inside
    what is allocated; in the models of listpacks and integer sets a byte outside the buffer is not observed, except
    in the integrity check of listpacks.
  \<^item> Findings, as theorems: \<open>intset_add_wraps\<close>, \<open>lp_validated_prev_aborts\<close>, the case of one octet in
    \<open>lzf_roundtrip\<close>, the empty string in \<open>stringmatchlen_correct\<close>, \<open>saturation_wrong_end\<close>,
    \<open>bitfield_fail_creates_key\<close>, \<open>hash_offset_wraps\<close>, and the lengths that abort the server in \<open>rdb_load_safe\<close>.

  \<^bold>\<open>Bounds.\<close>  Intset theorems ask for fewer than \<open>2 ^ 29\<close> entries, below which the byte count of \<open>intsetMoveTail\<close> does not
  wrap.  The update theorems of listpacks ask for ten to fifteen bytes to spare below \<open>2 ^ 32\<close>, which \<open>lpInsert\<close> tests.  The tables
  of a dictionary have at most \<open>2 ^ 60\<close> buckets, so that their size in bytes is a 64 bit number.  No loop has fuel:
  loops over data are \<open>function\<close>s with measures; those over heaps or with callbacks are partial functions to
  options, and their termination is part of the theorems (\<open>Some\<close>).  The rejection loops of the random pickers take
  the numbers drawn from a list and fail when it runs out; the theorems say how long a list is enough for which
  outcome.

  \<^bold>\<open>Not modelled.\<close>  Of the modelled files: in \<open>dict.c\<close> the metadata of entries, the numeric accessors, defragmentation,
  statistics and the hash seed; in \<open>listpack.c\<close> the random pickers and the dump; in \<open>util.c\<close> what concerns neither
  integers in decimal nor patterns; in \<open>bitops.c\<close> \<open>BITOP\<close>;
  in \<open>rdb.c\<close> floating point values, the other types, the file around them and its processes; in \<open>rio.c\<close> the backends
  over files and sockets; in \<open>networking.c\<close> replies, output buffers, threads and the life of clients; in \<open>aof.c\<close> and \<open>replication.c\<close> all
  but the writers of commands, and of the replication buffer the references of replicas and the trimming; in \<open>sds.c\<close> the strings
  themselves, which are byte lists here; in \<open>t_zset.c\<close> the sorted sets in listpacks and the commands.  Of the other files: quicklists and hashing functions
  carry logic of their own and are next in the plan; command handlers, connections, background saving, the protocol of replication,
  scripting and configuration are over the global server state, system calls and clocks, which this library does
  not have.  The copy \<open>src/redis-stable\<close> is the same code; the dependencies under \<open>deps\<close> and the web application are
  not part of it.
\<close>

end
